(* ===== verification/Motif_Prelude.thy ===== *)
theory Motif_Prelude
  imports Main "HOL-Library.Word" "HOL-Library.Multiset" "HOL-Library.Monad_Syntax"
begin

text \<open>
  Shared vocabulary of the development: the machine integer types of the C++ sources,
  the proof collections the component theories fill, and the generic facts on lists,
  options and words that their proofs use.
\<close>

unbundle bit_operations_syntax

type_synonym u8 = "8 word"
type_synonym u16 = "16 word"
type_synonym u32 = "32 word"
type_synonym u64 = "64 word"

text \<open>A C++ \<open>char\<close> buffer, byte by byte.\<close>
type_synonym bytes = "8 word list"

text \<open>
  \<open>codec_simps\<close> collects the evaluation rules of the byte codecs, \<open>writes_intros\<close> the
  rules that say what a sequence of writer calls appends.
\<close>
named_theorems codec_simps
named_theorems writes_intros

section \<open>Words\<close>

lemma drop_bit_less:
  assumes "(w :: 'a::len word) \<noteq> 0" and "0 < n"
  shows "unat (drop_bit n w) < unat w"
proof -
  have "unat w div 2 ^ n < unat w"
    using assms one_less_power [of "2 :: nat" n]
    by (intro div_less_dividend) (auto simp: unat_gt_0 word_neq_0_conv)
  then show ?thesis unfolding unat_drop_bit_eq by (simp add: drop_bit_eq_div)
qed

lemma unat_less_2p: "unat (w :: 'a::len word) < 2 ^ LENGTH('a)"
  by (fact unsigned_less)

lemma unat_max_u64: "unat (- 1 :: u64) = 2 ^ 64 - 1"
  by (simp add: unsigned_minus_1_eq_mask mask_eq_exp_minus_1)

lemma unat_inject: "unat a = unat b \<longleftrightarrow> (a :: 'a::len word) = b"
  by (simp add: word_unat_eq_iff)

lemma unat_ucast_up:
  assumes "LENGTH('a) \<le> LENGTH('b)"
  shows "unat (ucast (w :: 'a::len word) :: 'b::len word) = unat w"
proof -
  have "unat w < 2 ^ LENGTH('b)"
    by (rule less_le_trans [OF unat_less_2p]) (simp add: assms)
  then show ?thesis by (simp add: unsigned_ucast_eq take_bit_nat_eq_self)
qed

lemma unat_of_nat_less: "n < 2 ^ LENGTH('a) \<Longrightarrow> unat (of_nat n :: 'a::len word) = n"
  by (simp add: unat_of_nat)

lemma ucast_up_down:
  "LENGTH('a) \<le> LENGTH('b) \<Longrightarrow> (ucast (ucast (w :: 'a::len word) :: 'b::len word) :: 'a word) = w"
  by (rule bit_word_eqI) (auto simp: bit_simps)

lemma ucast_up_inject:
  "LENGTH('a) \<le> LENGTH('b) \<Longrightarrow> (ucast (v :: 'a::len word) :: 'b::len word) = ucast w \<longleftrightarrow> v = w"
  by (metis ucast_up_down)

lemma word_of_int_add_diff: "word_of_int a + word_of_int (b - a) = (word_of_int b :: 'a::len word)"
proof -
  have "word_of_int a + word_of_int (b - a) = (word_of_int (a + (b - a)) :: 'a word)"
    by (rule of_int_add [symmetric])
  then show ?thesis by (simp only: add_diff_eq add_diff_cancel_left')
qed

section \<open>Lists\<close>

lemma sorted_wrt_less_distinct: "sorted_wrt (<) (xs :: 'a::linorder list) \<Longrightarrow> distinct xs"
  by (simp add: strict_sorted_iff)

text \<open>A strictly ascending list of words has no more elements than the type.\<close>
lemma length_distinct_words:
  assumes "distinct (xs :: 'a::len word list)"
  shows "length xs \<le> 2 ^ LENGTH('a)"
proof -
  have "length xs = card (unat ` set xs)"
    using assms by (simp add: distinct_card card_image inj_on_def unat_inject)
  also have "\<dots> \<le> card {..< 2 ^ LENGTH('a) :: nat}"
    by (rule card_mono) (auto intro: unat_less_2p)
  finally show ?thesis by simp
qed

lemma fold_ignore [simp]: "fold (\<lambda>_ acc. acc) xs a = a"
  by (induction xs) auto

lemma find_append: "find P (xs @ ys) = (case find P xs of None \<Rightarrow> find P ys | Some x \<Rightarrow> Some x)"
  by (induction xs) auto

end
