(* ===== verification/Byte_Codec.thy ===== *)
theory Byte_Codec
  imports Motif_Prelude
begin

text \<open>
  The byte codecs of \<open>source/motif/db/position_postings.cpp\<close>: fixed-width little-endian
  integers and canonical LEB128 (\<open>uleb128\<close>) integers, with the overflow-checked
  arithmetic the reader uses. The readers work on a span and an offset and return the
  value and the advanced offset; \<open>None\<close> is the C++ \<open>false\<close>.
\<close>

section \<open>Little-endian integers\<close>

text \<open>The bytes the loop of \<open>write_little_endian\<close> and \<open>write_fixed\<close> puts for \<open>sizeof(Integer)\<close> rounds.\<close>
fun le_loop :: "nat \<Rightarrow> u64 \<Rightarrow> bytes" where
  "le_loop 0 raw_value = []"
| "le_loop (Suc n) raw_value = ucast (raw_value AND 0xff) # le_loop n (drop_bit 8 raw_value)"

definition write_little_endian :: "'a::len word \<Rightarrow> bytes" where
  "write_little_endian value = le_loop (LENGTH('a) div 8) (ucast value)"

text \<open>The accumulation loop of \<open>read_little_endian\<close> over \<open>n\<close> bytes.\<close>
definition le_fold :: "nat \<Rightarrow> (nat \<Rightarrow> u8) \<Rightarrow> u64" where
  "le_fold n f = fold (\<lambda>index raw_value. raw_value OR push_bit (index * 8) (ucast (f index))) [0..<n] 0"

definition read_little_endian :: "bytes \<Rightarrow> nat \<Rightarrow> ('a::len word \<times> nat) option" where
  "read_little_endian input offset =
     (let size = LENGTH('a) div 8 in
      if offset + size > length input then None
      else Some (ucast (le_fold size (\<lambda>index. input ! (offset + index))), offset + size))"

section \<open>LEB128 integers\<close>

text \<open>The bytes \<open>write_uleb128\<close> puts.\<close>
function uleb128 :: "u64 \<Rightarrow> bytes" where
  "uleb128 value =
     (let byte = ucast (value AND 0x7f) :: u8; value' = drop_bit 7 value in
      if value' \<noteq> 0 then (byte OR 0x80) # uleb128 value' else [byte])"
  by pat_completeness auto
termination
  by (relation "measure unat") (auto intro: drop_bit_less)

declare uleb128.simps [simp del]

function uleb128_length_loop :: "u64 \<Rightarrow> nat \<Rightarrow> nat" where
  "uleb128_length_loop value len =
     (if value \<noteq> 0 then uleb128_length_loop (drop_bit 7 value) (len + 1) else len)"
  by pat_completeness auto
termination
  by (relation "measure (\<lambda>(value, len). unat value)") (auto intro: drop_bit_less)

declare uleb128_length_loop.simps [simp del]

definition uleb128_length :: "u64 \<Rightarrow> nat" where
  "uleb128_length value = uleb128_length_loop (drop_bit 7 value) 1"

fun read_uleb128_loop :: "nat \<Rightarrow> bytes \<Rightarrow> nat \<Rightarrow> nat \<Rightarrow> nat \<Rightarrow> u64 \<Rightarrow> (u64 \<times> nat) option" where
  "read_uleb128_loop 0 data start offset shift value = None"
| "read_uleb128_loop (Suc n) data start offset shift value =
     (if offset \<ge> length data then None
      else let byte = data ! offset; payload = (ucast (byte AND 0x7f) :: u64) in
        if shift \<ge> 64 \<or> (shift = 63 \<and> payload > 1) then None
        else let value' = value OR push_bit shift payload in
          if byte AND 0x80 = 0
          then (if uleb128_length value' = offset + 1 - start then Some (value', offset + 1) else None)
          else read_uleb128_loop n data start (offset + 1) (shift + 7) value')"

definition read_uleb128 :: "bytes \<Rightarrow> nat \<Rightarrow> (u64 \<times> nat) option" where
  "read_uleb128 data offset = read_uleb128_loop 10 data offset offset 0 0"

section \<open>Checked arithmetic\<close>

definition checked_add :: "u64 \<Rightarrow> u64 \<Rightarrow> u64 option" where
  "checked_add left right = (if left > - 1 - right then None else Some (left + right))"

definition checked_multiply :: "u64 \<Rightarrow> u64 \<Rightarrow> u64 option" where
  "checked_multiply left right =
     (if left \<noteq> 0 \<and> right > - 1 div left then None else Some (left * right))"

definition representable_stream_offset :: "u64 \<Rightarrow> bool" where
  "representable_stream_offset value \<longleftrightarrow> value \<le> 0x7fffffffffffffff"

section \<open>Properties of the little-endian codec\<close>

lemma length_le_loop [simp]: "length (le_loop n raw) = n"
  by (induction n arbitrary: raw) auto

lemma le_loop_nth: "i < n \<Longrightarrow> le_loop n raw ! i = ucast (drop_bit (8 * i) raw AND 0xff)"
proof (induction n arbitrary: raw i)
  case 0
  then show ?case by simp
next
  case (Suc n)
  then show ?case by (cases i) (auto simp: drop_bit_drop_bit add.commute)
qed

lemma mask_255: "(0xff :: u64) = mask 8"
  by (simp add: mask_eq_exp_minus_1)

lemma mask_127: "(0x7f :: u64) = mask 7" "(0x7f :: u8) = mask 7"
  by (simp_all add: mask_eq_exp_minus_1)

lemma le_loop_bit:
  assumes "i < n" and "k < 8"
  shows "bit (le_loop n raw ! i) k \<longleftrightarrow> bit raw (8 * i + k)"
  using assms by (auto simp: le_loop_nth mask_255 bit_simps bit_imp_le_length)

lemma bit_le_fold:
  "bit (le_fold n f) j \<longleftrightarrow> j < 64 \<and> j < 8 * n \<and> bit (f (j div 8)) (j mod 8)"
proof (induction n)
  case 0
  then show ?case by (simp add: le_fold_def)
next
  case (Suc n)
  have step: "bit (le_fold (Suc n) f) j \<longleftrightarrow>
      bit (le_fold n f) j \<or> (n * 8 \<le> j \<and> j < 64 \<and> bit (f n) (j - n * 8))"
    by (auto simp: le_fold_def bit_simps dest: bit_imp_le_length)
  have "bit (f n) (j - n * 8) \<Longrightarrow> n * 8 \<le> j \<Longrightarrow> j < 8 * n + 8"
    using bit_imp_le_length [of "f n" "j - n * 8"] by simp
  moreover have "j div 8 = n \<and> j mod 8 = j - n * 8" if "n * 8 \<le> j" and "j < 8 * n + 8"
  proof -
    have "j div 8 = n" using that by (intro div_nat_eqI) auto
    then show ?thesis by (simp add: minus_div_mult_eq_mod [symmetric])
  qed
  ultimately show ?case
    using step Suc.IH by (cases "n * 8 \<le> j") auto
qed

lemma length_write_little_endian [simp]:
  "length (write_little_endian (v :: 'a::len word)) = LENGTH('a) div 8"
  by (simp add: write_little_endian_def)

text \<open>Bytes of a segment, read at the offset where the segment starts.\<close>
lemma nth_mid: "i < length bs \<Longrightarrow> (pre @ bs @ post) ! (length pre + i) = bs ! i"
  by (simp add: nth_append)

lemma le_fold_cong: "(\<And>i. i < n \<Longrightarrow> f i = g i) \<Longrightarrow> le_fold n f = le_fold n g"
  by (rule bit_eqI) (auto simp: bit_le_fold less_mult_imp_div_less mult.commute)

lemma le_fold_le_loop: "le_fold n (\<lambda>i. le_loop n raw ! i) = take_bit (8 * n) raw"
  by (rule bit_eqI) (auto simp: bit_le_fold bit_simps le_loop_bit less_mult_imp_div_less mult.commute)

lemma read_write_little_endian:
  assumes "8 dvd LENGTH('a)" and "LENGTH('a) \<le> 64"
  shows "read_little_endian (pre @ write_little_endian (v :: 'a::len word) @ post) (length pre)
    = Some (v, length pre + LENGTH('a) div 8)"
proof -
  let ?n = "LENGTH('a) div 8"
  have n: "8 * ?n = LENGTH('a)" using assms by simp
  have "le_fold ?n (\<lambda>i. (pre @ write_little_endian v @ post) ! (length pre + i))
      = le_fold ?n (\<lambda>i. le_loop ?n (ucast v) ! i)"
    by (rule le_fold_cong) (simp add: write_little_endian_def nth_append)
  also have "\<dots> = take_bit LENGTH('a) (ucast v)"
    by (simp add: le_fold_le_loop n)
  finally have "(ucast (le_fold ?n (\<lambda>i. (pre @ write_little_endian v @ post) ! (length pre + i))) :: 'a word) = v"
    by simp (rule bit_word_eqI, use assms in \<open>auto simp: bit_simps\<close>)
  then show ?thesis
    by (simp add: read_little_endian_def Let_def)
qed

section \<open>Properties of the LEB128 codec\<close>

lemma uleb128_neq_Nil [simp]: "uleb128 v \<noteq> []"
  by (subst uleb128.simps) (simp add: Let_def)

lemma uleb128_length_loop_acc: "uleb128_length_loop v (n + k) = uleb128_length_loop v n + k"
proof (induction v n rule: uleb128_length_loop.induct)
  case (1 v n)
  show ?case
  proof (cases "v = 0")
    case True
    then show ?thesis by (simp add: uleb128_length_loop.simps [of 0])
  next
    case False
    then have "uleb128_length_loop v (n + k) = uleb128_length_loop (drop_bit 7 v) (n + 1 + k)"
      by (subst uleb128_length_loop.simps) simp
    also have "\<dots> = uleb128_length_loop (drop_bit 7 v) (n + 1) + k"
      using 1 False by simp
    also have "uleb128_length_loop (drop_bit 7 v) (n + 1) = uleb128_length_loop v n"
      using False by (subst (2) uleb128_length_loop.simps) simp
    finally show ?thesis .
  qed
qed

lemma uleb128_length_correct: "uleb128_length v = length (uleb128 v)"
proof (induction v rule: uleb128.induct)
  case (1 v)
  have "uleb128_length v = uleb128_length_loop (drop_bit 7 v) 0 + 1"
    unfolding uleb128_length_def using uleb128_length_loop_acc [of "drop_bit 7 v" 0 1] by simp
  also have "uleb128_length_loop (drop_bit 7 v) 0 = (if drop_bit 7 v \<noteq> 0 then uleb128_length (drop_bit 7 v) else 0)"
    unfolding uleb128_length_def by (subst uleb128_length_loop.simps) simp
  finally show ?case
    using 1 by (subst uleb128.simps) (simp add: Let_def)
qed

lemma length_uleb128_bound: "unat v < 2 ^ (7 * Suc n) \<Longrightarrow> length (uleb128 v) \<le> Suc n"
proof (induction n arbitrary: v)
  case 0
  then have "unat (drop_bit 7 v) = 0" unfolding unat_drop_bit_eq by (simp add: drop_bit_eq_div)
  then have "drop_bit 7 v = 0" by (simp add: unat_eq_0)
  then show ?case by (subst uleb128.simps) (simp add: Let_def)
next
  case (Suc n)
  have "unat v div 2 ^ 7 < 2 ^ (7 * Suc n)"
    using Suc.prems by (intro less_mult_imp_div_less) (simp add: power_add)
  then have "unat (drop_bit 7 v) < 2 ^ (7 * Suc n)"
    unfolding unat_drop_bit_eq by (simp only: drop_bit_eq_div)
  from Suc.IH [OF this] show ?case by (subst uleb128.simps) (simp add: Let_def)
qed

lemma length_uleb128_le: "length (uleb128 v) \<le> 10"
  by (rule length_uleb128_bound [where n = 9, simplified]) (rule order.strict_trans2 [OF unat_less_2p], simp)

lemma length_uleb128_pos: "1 \<le> length (uleb128 v)"
  using uleb128_neq_Nil [of v] by (cases "uleb128 v") simp_all

lemma drop_bit_high_zero: "64 \<le> n \<Longrightarrow> drop_bit n (v :: u64) = 0"
  by (rule bit_eqI) (auto simp: bit_simps dest: bit_imp_le_length)

lemma uleb128_step_value:
  "take_bit k V OR push_bit k (drop_bit k V AND 0x7f) = take_bit (k + 7) (V :: u64)"
  by (rule bit_eqI) (auto simp: mask_127 bit_simps dest: bit_imp_le_length)

lemma bit_0x80: "bit (0x80 :: int) n \<longleftrightarrow> n = 7"
  using bit_exp_iff [of 7 n, where 'a = int] by auto

lemma byte_payload:
  "ucast ((ucast (v AND 0x7f) :: u8) AND 0x7f) = (v AND 0x7f :: u64)"
  "ucast (((ucast (v AND 0x7f) :: u8) OR 0x80) AND 0x7f) = (v AND 0x7f :: u64)"
  by (rule bit_eqI, auto simp: mask_127 bit_simps bit_0x80)+

lemma byte_and_0x80: "(b :: u8) AND 0x80 = 0 \<longleftrightarrow> \<not> bit b 7"
proof
  assume "b AND 0x80 = 0"
  then have "\<not> bit (b AND 0x80) 7" by simp
  then show "\<not> bit b 7" by (simp add: bit_and_iff bit_0x80)
next
  assume "\<not> bit b 7"
  then show "b AND 0x80 = 0"
    by (intro bit_eqI) (auto simp: bit_and_iff bit_0x80)
qed

lemma byte_continuation:
  "(ucast (v AND 0x7f :: u64) :: u8) AND 0x80 = 0"
  "((ucast (v AND 0x7f :: u64) :: u8) OR 0x80) AND 0x80 \<noteq> 0"
  by (simp_all only: byte_and_0x80) (simp_all add: mask_127 bit_simps bit_0x80)

lemma uleb128_shift_bound: "drop_bit (7 * i) (V :: u64) \<noteq> 0 \<or> i = 0 \<Longrightarrow> i \<le> 9"
  using drop_bit_high_zero [of "7 * i" V] by (cases "64 \<le> 7 * i") auto

lemma word_le_1_cases: "(p :: 'a::len word) \<le> 1 \<Longrightarrow> p = 0 \<or> p = 1"
  by (metis le_less word_less_1)

lemma drop_bit_63_le_1: "drop_bit 63 (V :: u64) AND 0x7f \<le> 1"
proof -
  have "unat (drop_bit 63 V) = unat V div 2 ^ 63"
    unfolding unat_drop_bit_eq by (simp add: drop_bit_eq_div)
  moreover have "unat V < 2 ^ 64" using unsigned_less [of V] by simp
  ultimately have "unat (drop_bit 63 V) \<le> 1"
    using less_mult_imp_div_less [of "unat V" 2 "2 ^ 63"] by simp
  then have "drop_bit 63 V \<le> 1" by (simp add: word_le_nat_alt)
  then show ?thesis using word_and_le2 order_trans by blast
qed

lemma read_uleb128_loop_write:
  assumes "v = drop_bit (7 * i) V" and "v \<noteq> 0 \<or> i = 0" and "i \<le> length pre"
    and "uleb128_length V = i + length (uleb128 v)"
  shows "read_uleb128_loop (10 - i) (pre @ uleb128 v @ post) (length pre - i) (length pre) (7 * i) (take_bit (7 * i) V)
    = Some (V, length pre + length (uleb128 v))"
  using assms
proof (induction v arbitrary: i pre rule: uleb128.induct)
  case (1 v)
  let ?byte = "hd (uleb128 v)"
  have i: "i \<le> 9" using 1 uleb128_shift_bound by blast
  then have n: "10 - i = Suc (9 - i)" by simp
  have byte: "(pre @ uleb128 v @ post) ! length pre = ?byte"
    by (simp add: nth_append hd_conv_nth)
  have payload: "ucast (?byte AND 0x7f) = (v AND 0x7f :: u64)"
    by (subst uleb128.simps) (simp add: Let_def byte_payload)
  have guard: "\<not> (7 * i \<ge> 64 \<or> (7 * i = 63 \<and> v AND 0x7f > 1))"
    using i 1 drop_bit_63_le_1 [of V] by (auto simp: not_less)
  have val: "take_bit (7 * i) V OR push_bit (7 * i) (v AND 0x7f) = take_bit (7 * i + 7) V"
    using uleb128_step_value 1 by simp
  have step: "read_uleb128_loop (10 - i) (pre @ uleb128 v @ post) (length pre - i) (length pre) (7 * i) (take_bit (7 * i) V)
    = (if ?byte AND 0x80 = 0
       then (if uleb128_length (take_bit (7 * i + 7) V) = length pre + 1 - (length pre - i)
             then Some (take_bit (7 * i + 7) V, length pre + 1) else None)
       else read_uleb128_loop (9 - i) (pre @ uleb128 v @ post) (length pre - i) (length pre + 1) (7 * i + 7)
              (take_bit (7 * i + 7) V))"
    unfolding n read_uleb128_loop.simps Let_def byte payload val if_not_P [OF guard] by simp
  show ?case
  proof (cases "drop_bit 7 v = 0")
    case True
    then have enc: "uleb128 v = [ucast (v AND 0x7f)]"
      by (subst uleb128.simps) (simp add: Let_def)
    have "drop_bit (7 * i + 7) V = 0"
      using True 1 by (simp add: drop_bit_drop_bit add.commute)
    then have "take_bit (7 * i + 7) V = V"
      by (simp add: take_bit_eq_self_iff_drop_bit_eq_0)
    then show ?thesis
      using "1.prems"(3,4) unfolding step by (simp add: enc byte_continuation)
  next
    case False
    then have enc: "uleb128 v = (ucast (v AND 0x7f) OR 0x80) # uleb128 (drop_bit 7 v)"
      by (subst uleb128.simps) (simp add: Let_def)
    have "read_uleb128_loop (10 - Suc i) ((pre @ [?byte]) @ uleb128 (drop_bit 7 v) @ post)
        (length (pre @ [?byte]) - Suc i) (length (pre @ [?byte])) (7 * Suc i) (take_bit (7 * Suc i) V)
      = Some (V, length (pre @ [?byte]) + length (uleb128 (drop_bit 7 v)))"
      by (rule "1.IH" [OF refl refl False])
        (use "1.prems"(1,3,4) False enc in \<open>simp_all add: drop_bit_drop_bit add.commute\<close>)
    moreover have "?byte AND 0x80 \<noteq> 0" by (simp only: enc list.sel byte_continuation not_False_eq_True)
    ultimately show ?thesis
      unfolding step by (simp add: enc add.commute)
  qed
qed

lemma read_uleb128_write:
  "read_uleb128 (pre @ uleb128 v @ post) (length pre) = Some (v, length pre + length (uleb128 v))"
  using read_uleb128_loop_write [of v 0 v pre post]
  by (simp add: read_uleb128_def uleb128_length_correct)

text \<open>Conversely, whatever the reader accepts is the encoding of the value it returns.\<close>

fun uleb128_padded :: "nat \<Rightarrow> u64 \<Rightarrow> bytes" where
  "uleb128_padded 0 v = []"
| "uleb128_padded (Suc 0) v = [ucast (v AND 0x7f)]"
| "uleb128_padded (Suc (Suc n)) v = (ucast (v AND 0x7f) OR 0x80) # uleb128_padded (Suc n) (drop_bit 7 v)"

lemma uleb128_padded_length: "uleb128_padded (length (uleb128 v)) v = uleb128 v"
proof (induction v rule: uleb128.induct)
  case (1 v)
  show ?case
  proof (cases "drop_bit 7 v = 0")
    case True
    then have "uleb128 v = [ucast (v AND 0x7f)]" by (subst uleb128.simps) (simp add: Let_def)
    then show ?thesis by simp
  next
    case False
    then have enc: "uleb128 v = (ucast (v AND 0x7f) OR 0x80) # uleb128 (drop_bit 7 v)"
      by (subst uleb128.simps) (simp add: Let_def)
    obtain n where "length (uleb128 (drop_bit 7 v)) = Suc n"
      by (cases "length (uleb128 (drop_bit 7 v))") auto
    with 1 False enc show ?thesis by simp
  qed
qed

lemma payload_bits:
  assumes "take_bit (k + 7) V = take_bit k V OR push_bit k (p :: u64)" and "p = p AND 0x7f" and "k < 64"
    and "k = 63 \<longrightarrow> p \<le> 1" and "k \<le> 56 \<or> k = 63"
  shows "drop_bit k V AND 0x7f = p"
proof (rule bit_eqI)
  fix n
  have p7: "bit p n \<Longrightarrow> n < 7" for n
    using assms(2) by (metis bit_and_iff mask_127(1) bit_mask_iff)
  have eq: "bit (take_bit (k + 7) V) (k + n) \<longleftrightarrow> bit (take_bit k V OR push_bit k p) (k + n)"
    using assms(1) by simp
  have p1: "k = 63 \<Longrightarrow> bit p n \<Longrightarrow> n = 0" for n
    using assms(4) by (auto dest!: word_le_1_cases simp: bit_1_iff)
  show "bit (drop_bit k V AND 0x7f) n \<longleftrightarrow> bit p n"
    using eq p7 [of n] p1 [of n] assms(3,5)
    by (auto simp: mask_127 bit_simps dest: bit_imp_le_length)
qed

lemma uleb128_padded_Suc_Suc:
  "0 < n \<Longrightarrow> uleb128_padded (Suc n) v = (ucast (v AND 0x7f) OR 0x80) # uleb128_padded n (drop_bit 7 v)"
  by (cases n) auto

lemma byte_of_payload:
  assumes "p = (ucast ((b :: u8) AND 0x7f) :: u64)"
  shows "b AND 0x80 = 0 \<Longrightarrow> ucast p = b" and "b AND 0x80 \<noteq> 0 \<Longrightarrow> ucast p OR 0x80 = b"
proof -
  have low: "bit (ucast p :: u8) n \<longleftrightarrow> n < 7 \<and> bit b n" for n
    using assms by (auto simp: mask_127 bit_simps dest: bit_imp_le_length)
  have top: "bit b n \<Longrightarrow> n < 7 \<or> n = 7" for n
    using bit_imp_le_length [of b n] by auto
  show "b AND 0x80 = 0 \<Longrightarrow> ucast p = b"
    by (rule bit_eqI) (use low top in \<open>auto simp: byte_and_0x80\<close>)
  show "b AND 0x80 \<noteq> 0 \<Longrightarrow> ucast p OR 0x80 = b"
    by (rule bit_eqI) (use low top in \<open>auto simp: byte_and_0x80 bit_or_iff bit_0x80\<close>)
qed

lemma read_uleb128_loop_bytes:
  assumes "read_uleb128_loop n data start offset (7 * i) acc = Some (V, offset')"
    and "acc = take_bit (7 * i) acc" and "n = 10 - i" and "i \<le> 10"
  shows "offset < offset'" and "offset' \<le> length data" and "offset' - start = uleb128_length V"
    and "acc = take_bit (7 * i) V"
    and "take (offset' - offset) (drop offset data) = uleb128_padded (offset' - offset) (drop_bit (7 * i) V)"
proof -
  have "offset < offset' \<and> offset' \<le> length data \<and> offset' - start = uleb128_length V
      \<and> acc = take_bit (7 * i) V
      \<and> take (offset' - offset) (drop offset data) = uleb128_padded (offset' - offset) (drop_bit (7 * i) V)"
    using assms
  proof (induction n arbitrary: offset i acc)
    case 0
    then show ?case by simp
  next
    case (Suc n)
    let ?b = "data ! offset" and ?k = "7 * i"
    let ?p = "ucast (?b AND 0x7f) :: u64"
    let ?val = "acc OR push_bit ?k ?p"
    have off: "offset < length data" and k: "?k < 64" and p63: "?k = 63 \<longrightarrow> ?p \<le> 1"
      using Suc.prems(1) by (auto split: if_splits simp: Let_def not_less)
    have i: "i \<le> 9" and ki: "?k \<le> 56 \<or> ?k = 63" using Suc.prems(3,4) by auto
    have p7: "?p = ?p AND 0x7f" by (rule bit_eqI) (auto simp: mask_127 bit_simps)
    have val7: "?val = take_bit (?k + 7) ?val"
    proof (rule bit_eqI)
      fix m
      have "bit acc m \<Longrightarrow> m < ?k"
        using Suc.prems(2) by (metis bit_take_bit_iff)
      then show "bit ?val m \<longleftrightarrow> bit (take_bit (?k + 7) ?val) m"
        using p7 by (auto simp: mask_127 bit_simps)
    qed
    have low: "take_bit ?k V = acc" if "take_bit (?k + 7) V = ?val"
    proof -
      have "take_bit ?k V = take_bit ?k (take_bit (?k + 7) V)" by simp
      also have "\<dots> = take_bit ?k acc"
        unfolding that by (rule bit_eqI) (auto simp: bit_simps)
      finally show ?thesis using Suc.prems(2) by simp
    qed
    have payload: "drop_bit ?k V AND 0x7f = ?p" if "take_bit (?k + 7) V = ?val"
      by (rule payload_bits) (use that low p7 k p63 ki in auto)
    have byte: "take (Suc m) (drop offset data) = ?b # take m (drop (offset + 1) data)" for m
      using off by (simp add: Cons_nth_drop_Suc [symmetric])
    show ?case
    proof (cases "?b AND 0x80 = 0")
      case True
      with Suc.prems(1) off k p63 have V: "V = ?val" and off': "offset' = offset + 1"
        and len: "uleb128_length V = offset + 1 - start"
        by (auto split: if_splits simp: Let_def not_less)
      have tk: "take_bit (?k + 7) V = ?val" using V val7 by simp
      show ?thesis
        using off off' len low [OF tk] payload [OF tk] byte [of 0] byte_of_payload(1) [OF refl True]
        by simp
    next
      case False
      with Suc.prems(1) off k p63
      have rec: "read_uleb128_loop n data start (offset + 1) (7 * Suc i) ?val = Some (V, offset')"
        by (auto split: if_splits simp: Let_def not_less add.commute)
      have IH: "offset + 1 < offset' \<and> offset' \<le> length data \<and> offset' - start = uleb128_length V
          \<and> ?val = take_bit (7 * Suc i) V
          \<and> take (offset' - (offset + 1)) (drop (offset + 1) data)
              = uleb128_padded (offset' - (offset + 1)) (drop_bit (7 * Suc i) V)"
        by (rule Suc.IH [OF rec]) (use val7 Suc.prems(3,4) i in \<open>simp_all add: add.commute\<close>)
      have tk: "take_bit (?k + 7) V = ?val" using IH by (simp add: add.commute)
      have split: "offset' - offset = Suc (offset' - (offset + 1))" using IH by linarith
      have "uleb128_padded (offset' - offset) (drop_bit ?k V)
          = ?b # uleb128_padded (offset' - (offset + 1)) (drop_bit (7 * Suc i) V)"
        unfolding split using IH payload [OF tk] byte_of_payload(2) [OF refl False]
        by (subst uleb128_padded_Suc_Suc) (simp_all add: drop_bit_drop_bit add.commute)
      then show ?thesis
        using IH low [OF tk] byte split by simp
    qed
  qed
  then show "offset < offset'" and "offset' \<le> length data" and "offset' - start = uleb128_length V"
    and "acc = take_bit (7 * i) V"
    and "take (offset' - offset) (drop offset data) = uleb128_padded (offset' - offset) (drop_bit (7 * i) V)"
    by blast+
qed

section \<open>Reading at an offset\<close>

text \<open>The bytes from an offset on. Readers step through a block by consuming a prefix.\<close>
definition located :: "bytes \<Rightarrow> nat \<Rightarrow> bytes \<Rightarrow> bool" where
  "located data offset bs \<longleftrightarrow> offset \<le> length data \<and> drop offset data = bs"

lemma located_start [simp]: "located bs 0 bs"
  by (simp add: located_def)

lemma located_mid: "located (pre @ bs) (length pre) bs"
  by (simp add: located_def)

lemma located_append: "located data offset (xs @ ys) \<Longrightarrow> located data (offset + length xs) ys"
proof -
  assume l: "located data offset (xs @ ys)"
  then have "length data - offset = length xs + length ys"
    by (metis located_def length_append length_drop)
  moreover have "drop (offset + length xs) data = drop (length xs) (xs @ ys)"
    using l by (metis located_def drop_drop add.commute)
  ultimately show ?thesis using l by (auto simp: located_def)
qed

lemma located_length: "located data offset bs \<Longrightarrow> offset + length bs = length data"
  by (auto simp: located_def)

lemma located_take: "located data offset (xs @ ys) \<Longrightarrow> take (length xs) (drop offset data) = xs"
  by (simp add: located_def)

lemma located_split: "located data offset bs \<Longrightarrow> data = take offset data @ bs \<and> length (take offset data) = offset"
  by (auto simp: located_def)

lemma located_uleb128:
  assumes "located data offset (uleb128 v @ rest)"
  shows "read_uleb128 data offset = Some (v, offset + length (uleb128 v))"
  using read_uleb128_write [of "take offset data" v rest] located_split [OF assms] by metis

lemma located_little_endian:
  assumes "located data offset (write_little_endian (v :: 'a::len word) @ rest)"
    and "8 dvd LENGTH('a)" and "LENGTH('a) \<le> 64"
  shows "read_little_endian data offset = Some (v, offset + LENGTH('a) div 8)"
  using read_write_little_endian [OF assms(2,3), of "take offset data" v rest] located_split [OF assms(1)]
  by metis

section \<open>Overflow checks\<close>

lemma unat_complement: "unat (- 1 - (b :: u64)) = 2 ^ 64 - 1 - unat b"
  by (simp add: unat_sub unat_max_u64)

lemma u64_overflow_iff: "(a :: u64) > - 1 - b \<longleftrightarrow> 2 ^ 64 \<le> unat a + unat b"
proof -
  have "unat b < 2 ^ 64" using unat_less_2p [of b] by simp
  then show ?thesis unfolding word_less_nat_alt unat_complement by linarith
qed

text \<open>\<open>checked_add\<close> and \<open>checked_multiply\<close> succeed exactly when the result fits, and are then exact.\<close>
lemma checked_add_Some:
  "checked_add a b = Some c \<longleftrightarrow> unat a + unat b < 2 ^ 64 \<and> unat c = unat a + unat b"
proof
  assume "checked_add a b = Some c"
  then have "\<not> a > - 1 - b" and c: "c = a + b" by (auto simp: checked_add_def split: if_splits)
  then have "unat a + unat b < 2 ^ 64" by (simp add: u64_overflow_iff)
  then show "unat a + unat b < 2 ^ 64 \<and> unat c = unat a + unat b"
    using unat_add_lem [of a b] c by simp
next
  assume a: "unat a + unat b < 2 ^ 64 \<and> unat c = unat a + unat b"
  then have "unat (a + b) = unat c" using unat_add_lem [of a b] by simp
  then have "c = a + b" by (simp add: unat_inject)
  then show "checked_add a b = Some c" using a by (simp add: checked_add_def u64_overflow_iff)
qed

lemma checked_multiply_Some:
  "checked_multiply a b = Some c \<longleftrightarrow> unat a * unat b < 2 ^ 64 \<and> unat c = unat a * unat b"
proof -
  have "(a \<noteq> 0 \<and> b > - 1 div a) \<longleftrightarrow> 2 ^ 64 \<le> unat a * unat b"
  proof (cases "a = 0")
    case False
    then have pos: "0 < unat a" by (simp add: unat_gt_0 word_neq_0_conv)
    have "unat (- 1 div a) = (2 ^ 64 - 1) div unat a"
      by (simp add: unat_div_distrib unat_max_u64)
    then have "b > - 1 div a \<longleftrightarrow> (2 ^ 64 - 1) div unat a < unat b" by (simp add: word_less_nat_alt)
    also have "\<dots> \<longleftrightarrow> 2 ^ 64 - 1 < unat b * unat a" using div_less_iff_less_mult [OF pos] by blast
    finally show ?thesis using False by (auto simp: mult.commute)
  qed simp
  moreover have "c = a * b \<longleftrightarrow> unat c = unat a * unat b" if "unat a * unat b < 2 ^ 64"
  proof -
    have "unat (a * b) = unat a * unat b" using unat_mult_lem [of a b] that by simp
    then show ?thesis by (metis unat_inject)
  qed
  ultimately show ?thesis
    by (auto simp: checked_multiply_def not_le split: if_splits)
qed

text \<open>
  the LEB128 reader accepts exactly the canonical encodings: it returns a value and an
  end offset if and only if the bytes between the offsets are what the writer puts for that
  value. Truncated, over-long, overflowing and non-minimal inputs are all rejected.
\<close>
theorem read_uleb128_iff:
  "read_uleb128 data offset = Some (v, offset') \<longleftrightarrow>
     offset' = offset + length (uleb128 v) \<and> offset' \<le> length data
     \<and> take (length (uleb128 v)) (drop offset data) = uleb128 v"
proof
  assume r: "read_uleb128 data offset = Some (v, offset')"
  have "read_uleb128_loop 10 data offset offset (7 * 0) 0 = Some (v, offset')"
    using r by (simp add: read_uleb128_def)
  from read_uleb128_loop_bytes [OF this]
  have "offset < offset'" "offset' \<le> length data" "offset' - offset = length (uleb128 v)"
    "take (offset' - offset) (drop offset data) = uleb128_padded (offset' - offset) v"
    by (simp_all add: uleb128_length_correct)
  then show "offset' = offset + length (uleb128 v) \<and> offset' \<le> length data
     \<and> take (length (uleb128 v)) (drop offset data) = uleb128 v"
    using uleb128_padded_length [of v] by auto
next
  assume a: "offset' = offset + length (uleb128 v) \<and> offset' \<le> length data
     \<and> take (length (uleb128 v)) (drop offset data) = uleb128 v"
  then have "data = take offset data @ uleb128 v @ drop offset' data"
    by (metis append_take_drop_id drop_drop add.commute)
  moreover have "length (take offset data) = offset" using a by simp
  ultimately show "read_uleb128 data offset = Some (v, offset')"
    using a read_uleb128_write by metis
qed

end
