(* ===== verification/Streams.thy ===== *)
theory Streams
  imports Byte_Codec
begin

text \<open>
  What the sources use of the C++ standard library's files and streams: a file system
  that maps paths to contents, output streams opened with \<open>std::ios::trunc\<close>, input
  streams with their \<open>failbit\<close> and \<open>eofbit\<close>, and the \<open>buffered_file_writer\<close> of
  \<open>position_postings.cpp\<close> on top of them. Every operation that may fail on a real device can
  fail here: \<open>fs_fault\<close> says which directory operations are refused and \<open>fs_quota\<close> how
  many bytes the device takes for a file. A file system without faults and quotas is a
  working disk.
\<close>

section \<open>File system\<close>

type_synonym path = string

datatype fs_op = Open_Read path | Open_Write path | Open_Update path | Close path | Rename path path | Remove path | Sync path

record filesystem =
  fs_files :: "path \<Rightarrow> bytes option"
  fs_fault :: "fs_op \<Rightarrow> bool"
  fs_quota :: "path \<Rightarrow> nat option"

definition fs_no_faults :: "filesystem \<Rightarrow> bool" where
  "fs_no_faults fs \<longleftrightarrow> fs_fault fs = (\<lambda>_. False) \<and> fs_quota fs = (\<lambda>_. None)"

text \<open>
  \<open>std::filesystem::remove\<close>: removing an absent path is no error.
  \<open>std::filesystem::rename\<close>: replaces the target in one step.
  Both return whether they succeeded.
\<close>
definition fs_remove :: "path \<Rightarrow> filesystem \<Rightarrow> bool \<times> filesystem" where
  "fs_remove p fs =
     (if fs_fault fs (Remove p) then (False, fs)
      else (True, fs\<lparr>fs_files := (fs_files fs)(p := None)\<rparr>))"

definition fs_rename :: "path \<Rightarrow> path \<Rightarrow> filesystem \<Rightarrow> bool \<times> filesystem" where
  "fs_rename p q fs =
     (if fs_fault fs (Rename p q) \<or> fs_files fs p = None then (False, fs)
      else (True, fs\<lparr>fs_files := (fs_files fs)(p := None, q := fs_files fs p)\<rparr>))"

definition fs_file_size :: "path \<Rightarrow> filesystem \<Rightarrow> u64 option" where
  "fs_file_size p fs = map_option (\<lambda>bs. of_nat (length bs)) (fs_files fs p)"

text \<open>A removal whose error code is ignored, and a sequence of them.\<close>
definition fs_discard :: "path \<Rightarrow> filesystem \<Rightarrow> filesystem" where
  "fs_discard p fs = snd (fs_remove p fs)"

definition fs_discard_all :: "path list \<Rightarrow> filesystem \<Rightarrow> filesystem" where
  "fs_discard_all ps fs = fold fs_discard ps fs"

section \<open>Output streams\<close>

record ofstream =
  os_path :: path
  os_data :: bytes
  os_ok :: bool
  os_quota :: "nat option"

definition ofstream_open :: "path \<Rightarrow> filesystem \<Rightarrow> ofstream option \<times> filesystem" where
  "ofstream_open p fs =
     (if fs_fault fs (Open_Write p) then (None, fs)
      else (Some \<lparr>os_path = p, os_data = [], os_ok = True, os_quota = fs_quota fs p\<rparr>,
            fs\<lparr>fs_files := (fs_files fs)(p := Some [])\<rparr>))"

definition ofstream_write :: "bytes \<Rightarrow> ofstream \<Rightarrow> ofstream" where
  "ofstream_write bs os =
     (if os_ok os \<and> (case os_quota os of None \<Rightarrow> True | Some q \<Rightarrow> length (os_data os) + length bs \<le> q)
      then os\<lparr>os_data := os_data os @ bs\<rparr>
      else os\<lparr>os_ok := False\<rparr>)"

text \<open>Closing, explicitly or by the destructor, leaves the written bytes in the file.\<close>
definition ofstream_close :: "ofstream \<Rightarrow> filesystem \<Rightarrow> bool \<times> filesystem" where
  "ofstream_close os fs =
     (os_ok os \<and> \<not> fs_fault fs (Close (os_path os)),
      fs\<lparr>fs_files := (fs_files fs)(os_path os := Some (os_data os))\<rparr>)"

text \<open>
  A \<open>std::fstream\<close> opened with \<open>in | out\<close>, positioned at 0, written and closed: the bytes
  replace the start of the existing file.
\<close>
definition fs_overwrite :: "path \<Rightarrow> bytes \<Rightarrow> filesystem \<Rightarrow> bool \<times> filesystem" where
  "fs_overwrite p bs fs =
     (case fs_files fs p of
        None \<Rightarrow> (False, fs)
      | Some old \<Rightarrow>
          (if fs_fault fs (Open_Update p) then (False, fs)
           else (\<not> fs_fault fs (Close p),
                 fs\<lparr>fs_files := (fs_files fs)(p := Some (bs @ drop (length bs) old))\<rparr>)))"

section \<open>Input streams\<close>

record ifstream =
  is_data :: bytes
  is_pos :: nat
  is_fail :: bool
  is_eof :: bool

definition ifstream_open :: "path \<Rightarrow> filesystem \<Rightarrow> ifstream option" where
  "ifstream_open p fs =
     (if fs_fault fs (Open_Read p) then None
      else map_option (\<lambda>bs. \<lparr>is_data = bs, is_pos = 0, is_fail = False, is_eof = False\<rparr>) (fs_files fs p))"

definition is_good :: "ifstream \<Rightarrow> bool" where
  "is_good input \<longleftrightarrow> \<not> is_fail input \<and> \<not> is_eof input"

definition ifstream_clear :: "ifstream \<Rightarrow> ifstream" where
  "ifstream_clear input = input\<lparr>is_fail := False, is_eof := False\<rparr>"

definition ifstream_seekg :: "nat \<Rightarrow> ifstream \<Rightarrow> ifstream" where
  "ifstream_seekg pos input =
     (if is_fail input then input\<lparr>is_eof := False\<rparr> else input\<lparr>is_eof := False, is_pos := pos\<rparr>)"

text \<open>
  \<open>input.read(buffer, n)\<close>: all \<open>n\<close> bytes, or the stream fails; a read that runs into the
  end of the file sets both \<open>eofbit\<close> and \<open>failbit\<close>.
\<close>
definition ifstream_read :: "nat \<Rightarrow> ifstream \<Rightarrow> bytes option \<times> ifstream" where
  "ifstream_read n input =
     (if \<not> is_good input then (None, input\<lparr>is_fail := True\<rparr>)
      else if is_pos input + n \<le> length (is_data input)
        then (Some (take n (drop (is_pos input) (is_data input))), input\<lparr>is_pos := is_pos input + n\<rparr>)
        else (None, input\<lparr>is_pos := max (is_pos input) (length (is_data input)), is_fail := True, is_eof := True\<rparr>))"

text \<open>\<open>read_little_endian(std::ifstream\&, Integer\&)\<close>: one \<open>get()\<close> per byte.\<close>
definition ifstream_read_le :: "ifstream \<Rightarrow> ('a::len word \<times> ifstream) option" where
  "ifstream_read_le input =
     (if \<not> is_good input then None
      else map_option (\<lambda>(value, pos). (value, input\<lparr>is_pos := pos\<rparr>))
             (read_little_endian (is_data input) (is_pos input)))"

section \<open>\<open>buffered_file_writer\<close>\<close>

record file_writer =
  fw_stream :: ofstream
  fw_buffer :: bytes
  fw_offset :: u64

definition stream_write_buffer_size :: nat where
  "stream_write_buffer_size = 65536"

definition file_writer_of :: "ofstream \<Rightarrow> file_writer" where
  "file_writer_of os = \<lparr>fw_stream = os, fw_buffer = [], fw_offset = 0\<rparr>"

definition flush :: "file_writer \<Rightarrow> file_writer option" where
  "flush w =
     (let os = (if fw_buffer w \<noteq> [] then ofstream_write (fw_buffer w) (fw_stream w) else fw_stream w) in
      if os_ok os then Some (w\<lparr>fw_stream := os, fw_buffer := []\<rparr>) else None)"

definition put_byte :: "u8 \<Rightarrow> file_writer \<Rightarrow> file_writer option" where
  "put_byte b w =
     do { w \<leftarrow> (if length (fw_buffer w) = stream_write_buffer_size then flush w else Some w);
          Some (w\<lparr>fw_buffer := fw_buffer w @ [b], fw_offset := fw_offset w + 1\<rparr>) }"

fun write_fixed_loop :: "nat \<Rightarrow> u64 \<Rightarrow> file_writer \<Rightarrow> file_writer option" where
  "write_fixed_loop 0 raw_value w = Some w"
| "write_fixed_loop (Suc n) raw_value w =
     do { w \<leftarrow> put_byte (ucast (raw_value AND 0xff)) w; write_fixed_loop n (drop_bit 8 raw_value) w }"

definition write_fixed :: "'a::len word \<Rightarrow> file_writer \<Rightarrow> file_writer option" where
  "write_fixed v w = write_fixed_loop (LENGTH('a) div 8) (ucast v) w"

function write_uleb128 :: "u64 \<Rightarrow> file_writer \<Rightarrow> file_writer option" where
  "write_uleb128 v w =
     (let byte = ucast (v AND 0x7f) :: u8; v' = drop_bit 7 v;
          byte = (if v' \<noteq> 0 then byte OR 0x80 else byte) in
      case put_byte byte w of
        None \<Rightarrow> None
      | Some w' \<Rightarrow> (if v' = 0 then Some w' else write_uleb128 v' w'))"
  by pat_completeness auto
termination
  by (relation "measure (\<lambda>(v, w). unat v)") (auto intro: drop_bit_less)

declare write_uleb128.simps [simp del]

definition skip_offset :: "u64 \<Rightarrow> file_writer \<Rightarrow> file_writer" where
  "skip_offset n w = w\<lparr>fw_offset := fw_offset w + n\<rparr>"

text \<open>A sequence of \<open>put_byte\<close> calls that stops at the first failure.\<close>
fun put_bytes :: "bytes \<Rightarrow> file_writer \<Rightarrow> file_writer option" where
  "put_bytes [] w = Some w"
| "put_bytes (b # bs) w = put_byte b w \<bind> put_bytes bs"

section \<open>What the writer appends\<close>

lemma put_bytes_append: "put_bytes (xs @ ys) w = put_bytes xs w \<bind> put_bytes ys"
  by (induction xs arbitrary: w) (auto simp: bind_eq_None_conv split: bind_splits)

lemma write_fixed_loop_put_bytes: "write_fixed_loop n raw w = put_bytes (le_loop n raw) w"
  by (induction n arbitrary: raw w) (auto split: bind_splits)

lemma write_fixed_put_bytes [writes_intros]: "write_fixed v w = put_bytes (write_little_endian v) w"
  by (simp add: write_fixed_def write_little_endian_def write_fixed_loop_put_bytes)

lemma write_uleb128_put_bytes [writes_intros]: "write_uleb128 v w = put_bytes (uleb128 v) w"
proof (induction v arbitrary: w rule: uleb128.induct)
  case (1 v)
  show ?case
    by (subst write_uleb128.simps, subst uleb128.simps)
      (use 1 in \<open>auto simp: Let_def split: option.splits\<close>)
qed

text \<open>The bytes handed to the writer so far, flushed or not.\<close>
definition fw_bytes :: "file_writer \<Rightarrow> bytes" where
  "fw_bytes w = os_data (fw_stream w) @ fw_buffer w"

definition fw_inv :: "file_writer \<Rightarrow> bool" where
  "fw_inv w \<longleftrightarrow> os_ok (fw_stream w) \<and> length (fw_buffer w) \<le> stream_write_buffer_size
     \<and> fw_offset w = of_nat (length (fw_bytes w))"

text \<open>Two writers of the same file, the second one later.\<close>
definition fw_same_file :: "file_writer \<Rightarrow> file_writer \<Rightarrow> bool" where
  "fw_same_file w w' \<longleftrightarrow> os_path (fw_stream w') = os_path (fw_stream w)
     \<and> os_quota (fw_stream w') = os_quota (fw_stream w)"

definition fw_unlimited :: "file_writer \<Rightarrow> bool" where
  "fw_unlimited w \<longleftrightarrow> os_quota (fw_stream w) = None"

lemma fw_same_file_refl [simp]: "fw_same_file w w"
  by (simp add: fw_same_file_def)

lemma fw_same_file_trans: "fw_same_file a b \<Longrightarrow> fw_same_file b c \<Longrightarrow> fw_same_file a c"
  by (simp add: fw_same_file_def)

lemma fw_same_file_unlimited: "fw_same_file w w' \<Longrightarrow> fw_unlimited w' = fw_unlimited w"
  by (simp add: fw_same_file_def fw_unlimited_def)

lemma flush_Some:
  assumes "flush w = Some w'" and "fw_inv w"
  shows "fw_inv w'" "fw_bytes w' = fw_bytes w" "fw_same_file w w'" "fw_buffer w' = []"
    "os_data (fw_stream w') = fw_bytes w"
  using assms
  by (auto simp: flush_def fw_inv_def fw_bytes_def fw_same_file_def ofstream_write_def
      Let_def split: if_splits option.splits)

lemma flush_unlimited: "fw_inv w \<Longrightarrow> fw_unlimited w \<Longrightarrow> flush w \<noteq> None"
  by (auto simp: flush_def fw_inv_def fw_unlimited_def ofstream_write_def Let_def)

lemma put_byte_Some:
  assumes "put_byte b w = Some w'" and "fw_inv w"
  shows "fw_inv w' \<and> fw_bytes w' = fw_bytes w @ [b] \<and> fw_same_file w w'"
proof -
  obtain w1 where w1: "(if length (fw_buffer w) = stream_write_buffer_size then flush w else Some w) = Some w1"
    and w': "w' = w1\<lparr>fw_buffer := fw_buffer w1 @ [b], fw_offset := fw_offset w1 + 1\<rparr>"
    using assms(1) unfolding put_byte_def by (auto simp: bind_eq_Some_conv)
  have w1: "fw_inv w1 \<and> fw_bytes w1 = fw_bytes w \<and> fw_same_file w w1
      \<and> length (fw_buffer w1) < stream_write_buffer_size"
  proof (cases "length (fw_buffer w) = stream_write_buffer_size")
    case True
    with w1 flush_Some [of w w1] assms(2) show ?thesis by (simp add: stream_write_buffer_size_def)
  next
    case False
    with w1 assms(2) show ?thesis by (auto simp: fw_inv_def)
  qed
  show ?thesis
    using w1 unfolding w' by (auto simp: fw_inv_def fw_bytes_def fw_same_file_def)
qed

lemma put_byte_unlimited: "fw_inv w \<Longrightarrow> fw_unlimited w \<Longrightarrow> put_byte b w \<noteq> None"
  using flush_unlimited [of w] by (auto simp: put_byte_def)

lemma put_bytes_Some:
  "put_bytes bs w = Some w' \<Longrightarrow> fw_inv w \<Longrightarrow>
     fw_inv w' \<and> fw_bytes w' = fw_bytes w @ bs \<and> fw_same_file w w'"
proof (induction bs arbitrary: w)
  case Nil
  then show ?case by simp
next
  case (Cons b bs)
  then obtain w1 where "put_byte b w = Some w1" and "put_bytes bs w1 = Some w'"
    by (auto split: bind_splits)
  with Cons put_byte_Some [of b w w1] show ?case
    by (auto intro: fw_same_file_trans)
qed

lemma put_bytes_unlimited: "fw_inv w \<Longrightarrow> fw_unlimited w \<Longrightarrow> \<exists>w'. put_bytes bs w = Some w'"
proof (induction bs arbitrary: w)
  case Nil
  then show ?case by simp
next
  case (Cons b bs)
  then obtain w1 where w1: "put_byte b w = Some w1"
    using put_byte_unlimited by blast
  with Cons put_byte_Some [of b w w1] fw_same_file_unlimited [of w w1] show ?case
    by auto
qed

section \<open>Reading from a stream as from a span\<close>

lemma ifstream_read_le_good:
  "is_good input \<Longrightarrow> ifstream_read_le input
     = map_option (\<lambda>(value, pos). (value, input\<lparr>is_pos := pos\<rparr>)) (read_little_endian (is_data input) (is_pos input))"
  by (simp add: ifstream_read_le_def)

lemma read_little_endian_bound:
  "read_little_endian data off = Some (v :: 'a::len word, off') \<Longrightarrow> off' = off + LENGTH('a) div 8 \<and> off' \<le> length data"
  by (auto simp: read_little_endian_def Let_def split: if_splits)

end
