(* ===== verification/Db_Types.thy ===== *)
theory Db_Types
  imports Streams
begin

text \<open>
  The data types of \<open>source/motif/db/error.hpp\<close> and \<open>source/motif/db/types.hpp\<close> that the
  indexes exchange. Signed fields (\<open>std::int8_t\<close>, \<open>std::int16_t\<close>, \<open>std::int32_t\<close>) are
  words read with \<open>sint\<close>; \<open>std::size_t\<close> counts of in-memory containers are \<open>nat\<close>.
\<close>

section \<open>Errors\<close>

datatype error_code =
    Ok | Not_Found | Schema_Mismatch | Io_Failure | Duplicate | Not_Editable | Invalid_Argument

text \<open>\<open>struct error\<close>: a code and a message, which is empty unless one is given.\<close>
datatype db_error = Db_Error (err_code: error_code) (err_message: string)

type_synonym 'a result = "db_error + 'a"

abbreviation unexpected :: "error_code \<Rightarrow> 'a result" where
  "unexpected code \<equiv> Inl (Db_Error code [])"

fun error_code_to_string :: "error_code \<Rightarrow> string" where
  "error_code_to_string Ok = ''ok''"
| "error_code_to_string Not_Found = ''not_found''"
| "error_code_to_string Schema_Mismatch = ''schema_mismatch''"
| "error_code_to_string Io_Failure = ''io_failure''"
| "error_code_to_string Duplicate = ''duplicate''"
| "error_code_to_string Not_Editable = ''not_editable''"
| "error_code_to_string Invalid_Argument = ''invalid_argument''"

definition error_to_string :: "db_error \<Rightarrow> string" where
  "error_to_string err = error_code_to_string (err_code err)"

lemma error_code_to_string_inj: "error_code_to_string a = error_code_to_string b \<longleftrightarrow> a = b"
  by (cases a; cases b) simp_all

section \<open>Rows\<close>

record position_row =
  pr_zobrist_hash :: u64
  pr_game_id :: u32
  pr_ply :: u16
  pr_encoded_move :: u16
  pr_result :: u8
  pr_white_elo :: "u16 option"
  pr_black_elo :: "u16 option"

record position_match =
  pm_game_id :: u32
  pm_ply :: u16
  pm_result :: u8
  pm_white_elo :: "u16 option"
  pm_black_elo :: "u16 option"

text \<open>The part of a stored game that the replay of the derived indexes needs (\<open>game_store.hpp\<close>).\<close>
record replay_game_record =
  rg_id :: u32
  rg_result :: string
  rg_white_elo :: "u32 option"
  rg_black_elo :: "u32 option"
  rg_moves :: "u16 list"

section \<open>Result codes and ratings\<close>

definition result_code :: "string \<Rightarrow> u8" where
  "result_code s = (if s = ''1-0'' then 1 else if s = ''0-1'' then - 1 else 0)"

definition encode_result :: "u8 \<Rightarrow> u8" where
  "encode_result r = (if sint r > 0 then 2 else if sint r < 0 then 0 else 1)"

definition decode_result :: "u8 \<Rightarrow> u8" where
  "decode_result encoded = (if encoded = 2 then 1 else if encoded = 0 then - 1 else 0)"

definition narrow_elo :: "u32 option \<Rightarrow> u16 option result" where
  "narrow_elo elo =
     (case elo of
        None \<Rightarrow> Inr None
      | Some e \<Rightarrow> (if sint e < - 32768 \<or> sint e > 32767 then unexpected Io_Failure else Inr (Some (ucast e))))"

text \<open>A result an index row may carry: the guard of \<open>append\<close>.\<close>
definition valid_result :: "u8 \<Rightarrow> bool" where
  "valid_result r \<longleftrightarrow> \<not> (sint r < - 1 \<or> sint r > 1)"

lemma valid_result_cases: "valid_result r \<longleftrightarrow> r = 0 \<or> r = 1 \<or> r = - 1"
proof
  assume "valid_result r"
  then have "sint r = 0 \<or> sint r = 1 \<or> sint r = - 1" by (auto simp: valid_result_def)
  moreover have "r = of_int (sint r)" by simp
  ultimately show "r = 0 \<or> r = 1 \<or> r = - 1"
    by (metis of_int_0 of_int_1 of_int_minus)
qed (auto simp: valid_result_def)

lemma decode_encode_result: "valid_result r \<Longrightarrow> decode_result (encode_result r) = r"
  by (auto simp: valid_result_cases encode_result_def decode_result_def)

lemma valid_result_code: "valid_result (result_code s)"
  by (simp add: valid_result_cases result_code_def)

text \<open>Narrowing keeps the value of every rating it accepts.\<close>
lemma narrow_elo_value:
  assumes "narrow_elo (Some e) = Inr (Some n)"
  shows "sint n = sint e"
proof -
  have range: "- 32768 \<le> sint e" "sint e \<le> 32767" and n: "n = ucast e"
    using assms by (auto simp: narrow_elo_def split: if_splits)
  have "(ucast e :: u16) = word_of_int (sint e)"
    by (rule bit_word_eqI) (simp add: bit_simps)
  moreover have "sint (word_of_int k :: u16) = signed_take_bit 15 k" for k
    by (simp add: signed_of_int)
  ultimately have "sint n = signed_take_bit 15 (sint e)" unfolding n by metis
  also have "\<dots> = sint e" using range by (intro signed_take_bit_int_eq_self) simp_all
  finally show ?thesis .
qed

end
