(* ===== verification/Posting_Block.thy ===== *)
theory Posting_Block
  imports Db_Types
begin

text \<open>
  Posting blocks of \<open>position_postings.cpp\<close>: for one position, the games that reach it in
  ascending order, delta-coded, each with the plies at which it does, delta-coded too. The
  three decoders (\<open>decode_posting_block_window\<close>, \<open>decode_posting_block_game_ids\<close> and
  \<open>decode_posting_block_first_occurrences\<close>) run the same parsing loop and differ in what
  they keep, so the loop is modelled once with what a decoder does at the first ply of a
  game, at each later ply and after a game as arguments.
\<close>

section \<open>Directory entries and the decoders' parsing loop\<close>

record directory_block_entry =
  de_hash :: u64
  de_posting_offset :: u64
  de_posting_byte_length :: u64
  de_occurrence_count :: u32
  de_distinct_game_count :: u32
  de_min_ply :: u16
  de_max_ply :: u16

text \<open>\<open>struct decoded_occurrence\<close>: a game id and a ply.\<close>
type_synonym decoded_occurrence = "u32 \<times> u16"

text \<open>The checks at the start of a game group; \<open>first\<close> is \<open>group == 0\<close>.\<close>
definition read_group_header ::
  "bytes \<Rightarrow> bool \<Rightarrow> u64 \<Rightarrow> nat \<Rightarrow> (u64 \<times> u64 \<times> u16 \<times> nat) option" where
  "read_group_header data first previous_game_id offset =
     do { (game_id_delta, offset) \<leftarrow> read_uleb128 data offset;
          (if (\<not> first \<and> game_id_delta = 0) \<or> previous_game_id > - 1 - game_id_delta then None
           else let current_game_id = previous_game_id + game_id_delta in
             if current_game_id = 0 \<or> current_game_id > 0xffffffff then None
             else do { (ply_count, offset) \<leftarrow> read_uleb128 data offset;
                       (if ply_count = 0 then None
                        else do { (first_ply, offset) \<leftarrow> read_uleb128 data offset;
                                  (if first_ply > 0xffff then None
                                   else Some (current_game_id, ply_count, ucast first_ply, offset)) }) }) }"

text \<open>The loop over the remaining plies of a game.\<close>
fun scan_plies ::
  "(u32 \<Rightarrow> u16 \<Rightarrow> 'acc \<Rightarrow> 'acc) \<Rightarrow> bytes \<Rightarrow> u32 \<Rightarrow> nat \<Rightarrow> u16 \<Rightarrow> nat \<Rightarrow> u16 \<Rightarrow> u16 \<Rightarrow> 'acc
     \<Rightarrow> (nat \<times> u16 \<times> u16 \<times> 'acc) option" where
  "scan_plies on_ply data game_key 0 ply offset min_ply max_ply acc = Some (offset, min_ply, max_ply, acc)"
| "scan_plies on_ply data game_key (Suc n) ply offset min_ply max_ply acc =
     (case read_uleb128 data offset of
        None \<Rightarrow> None
      | Some (ply_delta, offset) \<Rightarrow>
          (if ply_delta = 0 \<or> ucast ply + ply_delta > 0xffff then None
           else let ply = ucast (ucast ply + ply_delta) in
             scan_plies on_ply data game_key n ply offset (min min_ply ply) (max max_ply ply) (on_ply game_key ply acc)))"

text \<open>The loop over the games of a block.\<close>
fun scan_groups ::
  "(u32 \<Rightarrow> u16 \<Rightarrow> 'acc \<Rightarrow> 'acc) \<Rightarrow> (u32 \<Rightarrow> u16 \<Rightarrow> 'acc \<Rightarrow> 'acc) \<Rightarrow> (u32 \<Rightarrow> u64 \<Rightarrow> 'acc \<Rightarrow> 'acc option)
     \<Rightarrow> bytes \<Rightarrow> nat \<Rightarrow> bool \<Rightarrow> u64 \<Rightarrow> nat \<Rightarrow> u16 \<Rightarrow> u16 \<Rightarrow> 'acc \<Rightarrow> (nat \<times> u16 \<times> u16 \<times> 'acc) option" where
  "scan_groups on_first on_next on_end data 0 first previous_game_id offset min_ply max_ply acc =
     Some (offset, min_ply, max_ply, acc)"
| "scan_groups on_first on_next on_end data (Suc n) first previous_game_id offset min_ply max_ply acc =
     (case read_group_header data first previous_game_id offset of
        None \<Rightarrow> None
      | Some (current_game_id, ply_count, ply, offset) \<Rightarrow>
          let game_key = ucast current_game_id in
          (case scan_plies on_next data game_key (unat ply_count - 1) ply offset
                  (min min_ply ply) (max max_ply ply) (on_first game_key ply acc) of
             None \<Rightarrow> None
           | Some (offset, min_ply, max_ply, acc) \<Rightarrow>
               (case on_end game_key ply_count acc of
                  None \<Rightarrow> None
                | Some acc \<Rightarrow> scan_groups on_first on_next on_end data n False current_game_id offset min_ply max_ply acc)))"

section \<open>The three decoders\<close>

definition append_if_requested ::
  "nat \<Rightarrow> nat \<Rightarrow> u32 \<Rightarrow> u16 \<Rightarrow> nat \<times> decoded_occurrence list \<Rightarrow> nat \<times> decoded_occurrence list" where
  "append_if_requested begin_index wanted game_key ply =
     (\<lambda>(occurrence_index, occurrences).
        (occurrence_index + 1,
         if occurrence_index \<ge> begin_index \<and> length occurrences < wanted
         then occurrences @ [(game_key, ply)] else occurrences))"

definition decode_posting_block_window ::
  "bytes \<Rightarrow> directory_block_entry \<Rightarrow> nat \<Rightarrow> nat \<Rightarrow> decoded_occurrence list result" where
  "decode_posting_block_window data entry limit skip =
     (let begin_index = min skip (unat (de_occurrence_count entry));
          remaining = unat (de_occurrence_count entry) - begin_index;
          wanted = (if limit = 0 then remaining else min limit remaining) in
      case scan_groups (append_if_requested begin_index wanted) (append_if_requested begin_index wanted)
             (\<lambda>_ _ acc. Some acc) data (unat (de_distinct_game_count entry)) True 0 0 0xffff 0 (0, []) of
        None \<Rightarrow> unexpected Schema_Mismatch
      | Some (offset, min_ply, max_ply, occurrence_index, occurrences) \<Rightarrow>
          (if offset \<noteq> length data \<or> occurrence_index \<noteq> unat (de_occurrence_count entry)
              \<or> min_ply \<noteq> de_min_ply entry \<or> max_ply \<noteq> de_max_ply entry
           then unexpected Schema_Mismatch else Inr occurrences))"

definition decode_posting_block_game_ids :: "bytes \<Rightarrow> directory_block_entry \<Rightarrow> u32 list result" where
  "decode_posting_block_game_ids data entry =
     (case scan_groups (\<lambda>_ _ acc. acc) (\<lambda>_ _ acc. acc)
             (\<lambda>game_key ply_count (total, game_ids).
                map_option (\<lambda>total. (total, game_ids @ [game_key])) (checked_add total ply_count))
             data (unat (de_distinct_game_count entry)) True 0 0 0xffff 0 (0, []) of
        None \<Rightarrow> unexpected Schema_Mismatch
      | Some (offset, min_ply, max_ply, total_occurrences, game_ids) \<Rightarrow>
          (if offset \<noteq> length data \<or> total_occurrences \<noteq> ucast (de_occurrence_count entry)
              \<or> min_ply \<noteq> de_min_ply entry \<or> max_ply \<noteq> de_max_ply entry
           then unexpected Schema_Mismatch else Inr game_ids))"

definition decode_posting_block_first_occurrences ::
  "bytes \<Rightarrow> directory_block_entry \<Rightarrow> u32 list \<Rightarrow> decoded_occurrence list result" where
  "decode_posting_block_first_occurrences data entry requested_game_ids =
     (let requested = sort requested_game_ids in
      case scan_groups
             (\<lambda>game_key ply (total, occurrences).
                (total, if game_key \<in> set requested then occurrences @ [(game_key, ply)] else occurrences))
             (\<lambda>_ _ acc. acc)
             (\<lambda>_ ply_count (total, occurrences).
                map_option (\<lambda>total. (total, occurrences)) (checked_add total ply_count))
             data (unat (de_distinct_game_count entry)) True 0 0 0xffff 0 (0, []) of
        None \<Rightarrow> unexpected Schema_Mismatch
      | Some (offset, min_ply, max_ply, total_occurrences, occurrences) \<Rightarrow>
          (if offset \<noteq> length data \<or> total_occurrences \<noteq> ucast (de_occurrence_count entry)
              \<or> min_ply \<noteq> de_min_ply entry \<or> max_ply \<noteq> de_max_ply entry
           then unexpected Schema_Mismatch else Inr occurrences))"

section \<open>The encoding\<close>

text \<open>
  A game group as \<open>flush_game_group\<close> writes it: the game id relative to the previous one,
  the number of plies, the first ply and the differences of the others.
\<close>
fun ply_delta_bytes :: "u16 \<Rightarrow> u16 list \<Rightarrow> bytes" where
  "ply_delta_bytes previous [] = []"
| "ply_delta_bytes previous (ply # plies) =
     uleb128 (word_of_int (uint ply - uint previous)) @ ply_delta_bytes ply plies"

definition encode_group :: "u32 option \<Rightarrow> u32 \<times> u16 list \<Rightarrow> bytes" where
  "encode_group previous_game game_group =
     (case game_group of (game_key, plies) \<Rightarrow>
        uleb128 (ucast (case previous_game of None \<Rightarrow> game_key | Some previous \<Rightarrow> game_key - previous))
        @ uleb128 (of_nat (length plies)) @ uleb128 (ucast (hd plies)) @ ply_delta_bytes (hd plies) (tl plies))"

fun encode_groups :: "u32 option \<Rightarrow> (u32 \<times> u16 list) list \<Rightarrow> bytes" where
  "encode_groups previous_game [] = []"
| "encode_groups previous_game (game_group # groups) =
     encode_group previous_game game_group @ encode_groups (Some (fst game_group)) groups"

text \<open>The groups a finished block may hold: games ascending from 1, plies ascending and present.\<close>
definition wf_groups :: "(u32 \<times> u16 list) list \<Rightarrow> bool" where
  "wf_groups groups \<longleftrightarrow> sorted_wrt (<) (map fst groups)
     \<and> (\<forall>(game_key, plies) \<in> set groups. game_key \<noteq> 0 \<and> plies \<noteq> [] \<and> sorted_wrt (<) plies)"

definition group_occurrences :: "(u32 \<times> u16 list) list \<Rightarrow> decoded_occurrence list" where
  "group_occurrences groups = concat (map (\<lambda>(game_key, plies). map (Pair game_key) plies) groups)"

definition group_plies :: "(u32 \<times> u16 list) list \<Rightarrow> u16 list" where
  "group_plies groups = concat (map snd groups)"

section \<open>Scanning an encoded block\<close>

lemma ply_delta_word:
  assumes "(p :: u16) < q"
  shows "(ucast p :: u64) + word_of_int (uint q - uint p) = ucast q"
    and "(word_of_int (uint q - uint p) :: u64) \<noteq> 0"
proof -
  show eq: "(ucast p :: u64) + word_of_int (uint q - uint p) = ucast q"
    unfolding ucast_eq by (rule word_of_int_add_diff)
  show "(word_of_int (uint q - uint p) :: u64) \<noteq> 0"
  proof
    assume "(word_of_int (uint q - uint p) :: u64) = 0"
    with eq have "(ucast p :: u64) = ucast q" by simp
    with assms show False by (simp add: ucast_up_inject)
  qed
qed

lemma ucast_u16_u64: "(ucast (q :: u16) :: u64) \<le> 0xffff" "(ucast (ucast q :: u64) :: u16) = q"
proof -
  have "unat (ucast q :: u64) = unat q" by (rule unat_ucast_up) simp
  then show "(ucast q :: u64) \<le> 0xffff"
    using unat_less_2p [of q] by (simp add: word_le_nat_alt)
qed (simp add: ucast_up_down)

lemma scan_plies_encoded:
  assumes "located data offset (ply_delta_bytes ply plies @ rest)" and "sorted_wrt (<) (ply # plies)"
  shows "scan_plies on_ply data game_key (length plies) ply offset min_ply max_ply acc =
     Some (offset + length (ply_delta_bytes ply plies), fold min plies min_ply, fold max plies max_ply,
           fold (on_ply game_key) plies acc)"
  using assms
proof (induction plies arbitrary: ply offset min_ply max_ply acc)
  case Nil
  then show ?case by simp
next
  case (Cons q plies)
  let ?d = "word_of_int (uint q - uint ply) :: u64"
  have q: "ply < q" and srt: "sorted_wrt (<) (q # plies)" using Cons.prems(2) by auto
  have rd: "read_uleb128 data offset = Some (?d, offset + length (uleb128 ?d))"
    using Cons.prems(1) located_uleb128 by simp
  have "located data (offset + length (uleb128 ?d)) (ply_delta_bytes q plies @ rest)"
    using Cons.prems(1) located_append [of data offset "uleb128 ?d"] by simp
  from Cons.IH [OF this srt] show ?case
    using rd ply_delta_word [OF q] ucast_u16_u64 [of q] by (simp add: Let_def min.commute max.commute)
qed

text \<open>What the previous game of a block is to the encoder and to the decoder.\<close>
definition previous_game_rel :: "u32 option \<Rightarrow> bool \<Rightarrow> u64 \<Rightarrow> u32 \<Rightarrow> bool" where
  "previous_game_rel previous first previous_game_id game_key \<longleftrightarrow>
     (case previous of
        None \<Rightarrow> first \<and> previous_game_id = 0
      | Some p \<Rightarrow> \<not> first \<and> previous_game_id = ucast p \<and> p < game_key)"

lemma game_delta_word:
  assumes "(p :: u32) < g"
  shows "(ucast p :: u64) + ucast (g - p) = ucast g" and "(ucast (g - p) :: u64) \<noteq> 0"
    and "unat (ucast p :: u64) + unat (ucast (g - p) :: u64) < 2 ^ 64"
proof -
  have u: "unat (ucast p :: u64) = unat p" "unat (ucast (g - p) :: u64) = unat g - unat p"
      "unat (ucast g :: u64) = unat g"
    using assms by (simp_all add: unat_ucast_up unat_sub)
  have lt: "unat p < unat g" "unat g < 2 ^ 32"
    using assms unat_less_2p [of g] by (simp_all add: word_less_nat_alt)
  show sum: "unat (ucast p :: u64) + unat (ucast (g - p) :: u64) < 2 ^ 64"
    unfolding u using lt by simp
  then have "unat ((ucast p :: u64) + ucast (g - p)) = unat (ucast g :: u64)"
    using unat_add_lem [of "ucast p :: u64" "ucast (g - p)"] lt by (simp add: u)
  then show "(ucast p :: u64) + ucast (g - p) = ucast g" by (simp add: unat_inject)
  show "(ucast (g - p) :: u64) \<noteq> 0"
    using u(2) lt by (metis unat_0 zero_less_diff less_not_refl)
qed

lemma ucast_u32_u64:
  "(ucast (g :: u32) :: u64) \<le> 0xffffffff" "(ucast g :: u64) = 0 \<longleftrightarrow> g = 0" "(ucast (ucast g :: u64) :: u32) = g"
proof -
  have u: "unat (ucast g :: u64) = unat g" by (rule unat_ucast_up) simp
  then show "(ucast g :: u64) \<le> 0xffffffff"
    using unat_less_2p [of g] by (simp add: word_le_nat_alt)
  show "(ucast g :: u64) = 0 \<longleftrightarrow> g = 0"
    using ucast_up_inject [of g 0, where 'b = 64] by simp
qed (simp add: ucast_up_down)

lemma previous_game_delta:
  assumes "previous_game_rel previous first prev_id g" and "g \<noteq> 0"
  defines "d \<equiv> (ucast (case previous of None \<Rightarrow> g | Some p \<Rightarrow> g - p) :: u64)"
  shows "\<not> (\<not> first \<and> d = 0)" and "\<not> prev_id > - 1 - d" and "prev_id + d = ucast g"
proof -
  have "\<not> (\<not> first \<and> d = 0) \<and> unat prev_id + unat d < 2 ^ 64 \<and> prev_id + d = ucast g"
  proof (cases previous)
    case None
    then show ?thesis
      using assms(1) unat_less_2p [of d] by (simp add: previous_game_rel_def d_def)
  next
    case (Some p)
    then have p: "p < g" "prev_id = ucast p" and d: "d = ucast (g - p)"
      using assms(1) by (auto simp: previous_game_rel_def d_def)
    show ?thesis using game_delta_word [OF p(1)] unfolding p(2) d by simp
  qed
  then show "\<not> (\<not> first \<and> d = 0)" and "\<not> prev_id > - 1 - d" and "prev_id + d = ucast g"
    by (simp_all add: u64_overflow_iff)
qed

lemma read_group_header_encoded:
  assumes "located data offset (encode_group previous (g, plies) @ rest)"
    and "previous_game_rel previous first prev_id g" and "g \<noteq> 0"
    and "plies \<noteq> []" and "length plies < 2 ^ 64"
  obtains offset' where
    "read_group_header data first prev_id offset = Some (ucast g, of_nat (length plies), hd plies, offset')"
    "located data offset' (ply_delta_bytes (hd plies) (tl plies) @ rest)"
    "offset' + length (ply_delta_bytes (hd plies) (tl plies)) = offset + length (encode_group previous (g, plies))"
proof -
  let ?d = "ucast (case previous of None \<Rightarrow> g | Some p \<Rightarrow> g - p) :: u64"
  let ?n = "of_nat (length plies) :: u64" and ?p = "ucast (hd plies) :: u64"
  let ?tail = "ply_delta_bytes (hd plies) (tl plies) @ rest"
  let ?o1 = "offset + length (uleb128 ?d)"
  let ?o2 = "?o1 + length (uleb128 ?n)"
  let ?o3 = "?o2 + length (uleb128 ?p)"
  have l0: "located data offset (uleb128 ?d @ uleb128 ?n @ uleb128 ?p @ ?tail)"
    using assms(1) by (simp add: encode_group_def)
  note l1 = located_append [OF l0] and r0 = located_uleb128 [OF l0]
  note l2 = located_append [OF l1] and r1 = located_uleb128 [OF l1]
  note l3 = located_append [OF l2] and r2 = located_uleb128 [OF l2]
  have n: "?n \<noteq> 0"
    using assms(4,5) unat_of_nat_less [of "length plies", where 'a = 64] by auto
  have "read_group_header data first prev_id offset = Some (ucast g, ?n, hd plies, ?o3)"
    unfolding read_group_header_def r0 Option.bind.simps prod.case
    using previous_game_delta [OF assms(2,3)] ucast_u32_u64 [of g] assms(3) n ucast_u16_u64 [of "hd plies"]
    by (simp add: r1 r2 Let_def not_less)
  moreover have "?o3 + length (ply_delta_bytes (hd plies) (tl plies)) = offset + length (encode_group previous (g, plies))"
    by (simp add: encode_group_def)
  ultimately show ?thesis using l3 that [of ?o3] by blast
qed

text \<open>What the callbacks make of the groups of a block.\<close>
fun acc_groups ::
  "(u32 \<Rightarrow> u16 \<Rightarrow> 'acc \<Rightarrow> 'acc) \<Rightarrow> (u32 \<Rightarrow> u16 \<Rightarrow> 'acc \<Rightarrow> 'acc) \<Rightarrow> (u32 \<Rightarrow> u64 \<Rightarrow> 'acc \<Rightarrow> 'acc option)
     \<Rightarrow> (u32 \<times> u16 list) list \<Rightarrow> 'acc \<Rightarrow> 'acc option" where
  "acc_groups on_first on_next on_end [] acc = Some acc"
| "acc_groups on_first on_next on_end ((g, plies) # groups) acc =
     (case on_end g (of_nat (length plies)) (fold (on_next g) (tl plies) (on_first g (hd plies) acc)) of
        None \<Rightarrow> None
      | Some acc \<Rightarrow> acc_groups on_first on_next on_end groups acc)"

lemma wf_groups_Cons:
  "wf_groups ((g, plies) # groups) \<longleftrightarrow> g \<noteq> 0 \<and> plies \<noteq> [] \<and> sorted_wrt (<) plies
     \<and> (\<forall>h\<in>fst ` set groups. g < h) \<and> wf_groups groups"
  by (auto simp: wf_groups_def)

lemma scan_groups_encoded:
  assumes "located data offset (encode_groups previous groups @ rest)" and "wf_groups groups"
    and "groups \<noteq> [] \<longrightarrow> previous_game_rel previous first prev_id (fst (hd groups))"
  shows "scan_groups on_first on_next on_end data (length groups) first prev_id offset min_ply max_ply acc =
     map_option (\<lambda>acc'. (offset + length (encode_groups previous groups),
                         fold min (group_plies groups) min_ply, fold max (group_plies groups) max_ply, acc'))
       (acc_groups on_first on_next on_end groups acc)"
  using assms
proof (induction groups arbitrary: offset previous first prev_id min_ply max_ply acc)
  case Nil
  then show ?case by (simp add: group_plies_def)
next
  case (Cons gp groups)
  obtain g plies where gp: "gp = (g, plies)" by force
  have wf: "g \<noteq> 0" "plies \<noteq> []" "sorted_wrt (<) plies" "wf_groups groups" "\<forall>h\<in>fst ` set groups. g < h"
    using Cons.prems(2) unfolding gp wf_groups_Cons by auto
  have len: "length plies < 2 ^ 64"
    using length_distinct_words [OF sorted_wrt_less_distinct [OF wf(3)]] by simp
  have plies: "plies = hd plies # tl plies" using wf(2) by simp
  have l: "located data offset (encode_group previous (g, plies) @ encode_groups (Some g) groups @ rest)"
    using Cons.prems(1) by (simp add: gp)
  obtain offset' where hdr:
      "read_group_header data first prev_id offset = Some (ucast g, of_nat (length plies), hd plies, offset')"
    and l': "located data offset' (ply_delta_bytes (hd plies) (tl plies) @ encode_groups (Some g) groups @ rest)"
    and o': "offset' + length (ply_delta_bytes (hd plies) (tl plies)) = offset + length (encode_group previous (g, plies))"
    using read_group_header_encoded [OF l _ wf(1,2) len] Cons.prems(3) gp by auto
  have count: "unat (of_nat (length plies) :: u64) - Suc 0 = length plies - Suc 0"
    using unat_of_nat_less [of "length plies", where 'a = 64] len by simp
  have scan: "scan_plies on_next data g (length plies - Suc 0) (hd plies) offset' mn mx a =
      Some (offset + length (encode_group previous (g, plies)), fold min (tl plies) mn, fold max (tl plies) mx,
            fold (on_next g) (tl plies) a)" for mn mx a
    using scan_plies_encoded [OF l'] wf(3) plies o' length_tl [of plies] by (metis One_nat_def)
  have next_rel: "groups \<noteq> [] \<longrightarrow> previous_game_rel (Some g) False (ucast g) (fst (hd groups))"
    using wf(5) by (cases groups) (auto simp: previous_game_rel_def)
  have fold_min: "fold min (group_plies (gp # groups)) min_ply
      = fold min (group_plies groups) (fold min (tl plies) (min min_ply (hd plies)))"
    using wf(2) by (cases plies) (simp_all add: gp group_plies_def min.commute)
  have fold_max: "fold max (group_plies (gp # groups)) max_ply
      = fold max (group_plies groups) (fold max (tl plies) (max max_ply (hd plies)))"
    using wf(2) by (cases plies) (simp_all add: gp group_plies_def max.commute)
  have IH: "scan_groups on_first on_next on_end data (length groups) False (ucast g)
       (offset + length (encode_group previous (g, plies))) mn mx a =
     map_option (\<lambda>acc'. (offset + length (encode_group previous (g, plies)) + length (encode_groups (Some g) groups),
         fold min (group_plies groups) mn, fold max (group_plies groups) mx, acc'))
       (acc_groups on_first on_next on_end groups a)" for mn mx a
    by (rule Cons.IH [OF located_append [OF l] wf(4) next_rel])
  show ?case
    unfolding fold_min fold_max
    by (simp add: gp hdr count scan IH Let_def ucast_u32_u64 add.assoc split: option.splits)
qed

section \<open>Decoding an encoded block\<close>

text \<open>What the directory entry of a block with these groups says about it.\<close>
definition entry_describes :: "directory_block_entry \<Rightarrow> (u32 \<times> u16 list) list \<Rightarrow> bool" where
  "entry_describes entry groups \<longleftrightarrow>
     unat (de_occurrence_count entry) = length (group_occurrences groups)
     \<and> unat (de_distinct_game_count entry) = length groups
     \<and> de_min_ply entry = fold min (group_plies groups) 0xffff
     \<and> de_max_ply entry = fold max (group_plies groups) 0"

text \<open>The page of a list that \<open>limit\<close> and \<open>offset\<close> select; a limit of 0 means no limit.\<close>
definition page :: "nat \<Rightarrow> nat \<Rightarrow> 'a list \<Rightarrow> 'a list" where
  "page limit skip xs = (if limit = 0 then drop skip xs else take limit (drop skip xs))"

lemma fold_append_if_requested:
  "fold (\<lambda>(g, p). append_if_requested b n g p) xs (i, out)
     = (i + length xs, out @ take (n - length out) (drop (b - i) xs))"
proof (induction xs arbitrary: i out)
  case Nil
  then show ?case by simp
next
  case (Cons x xs)
  obtain g p where "x = (g, p)" by force
  then show ?case
    using Cons.IH by (cases "i \<ge> b"; cases "length out < n")
      (auto simp: append_if_requested_def Suc_diff_Suc not_le drop_Cons' take_Cons' Suc_diff_le)
qed

lemma acc_groups_window:
  assumes "wf_groups groups"
  shows "acc_groups f f (\<lambda>_ _ acc. Some acc) groups acc = Some (fold (\<lambda>(g, p). f g p) (group_occurrences groups) acc)"
  using assms
proof (induction groups arbitrary: acc)
  case Nil
  then show ?case by (simp add: group_occurrences_def)
next
  case (Cons gp groups)
  obtain g plies where gp: "gp = (g, plies)" by force
  with Cons.prems have "plies \<noteq> []" "wf_groups groups" by (simp_all add: wf_groups_Cons)
  then show ?case
    using Cons.IH by (cases plies) (simp_all add: gp group_occurrences_def fold_map comp_def)
qed

lemma scan_groups_block:
  assumes "wf_groups groups" and "entry_describes entry groups"
  shows "scan_groups on_first on_next on_end (encode_groups None groups) (unat (de_distinct_game_count entry))
           True 0 0 0xffff 0 acc
     = map_option (\<lambda>acc'. (length (encode_groups None groups), de_min_ply entry, de_max_ply entry, acc'))
         (acc_groups on_first on_next on_end groups acc)"
proof -
  have "located (encode_groups None groups) 0 (encode_groups None groups @ [])" by simp
  from scan_groups_encoded [OF this assms(1), of True 0 on_first on_next on_end "0xffff" 0 acc] assms(2)
  show ?thesis by (simp add: previous_game_rel_def entry_describes_def)
qed

lemma decode_window_groups:
  assumes "wf_groups groups" and "entry_describes entry groups"
  shows "decode_posting_block_window (encode_groups None groups) entry limit skip
     = Inr (page limit skip (group_occurrences groups))"
proof -
  let ?n = "length (group_occurrences groups)"
  have "unat (de_occurrence_count entry) = ?n" using assms(2) by (simp add: entry_describes_def)
  then show ?thesis
    unfolding decode_posting_block_window_def scan_groups_block [OF assms] acc_groups_window [OF assms(1)]
    by (auto simp: Let_def fold_append_if_requested page_def min_def)
qed

lemma acc_groups_total:
  assumes "wf_groups groups" and "unat t + length (group_occurrences groups) < 2 ^ 64"
  shows "acc_groups (\<lambda>g p (t, out). (t, fst_step g p out)) (\<lambda>_ _ acc. acc)
           (\<lambda>g n (t, out). map_option (\<lambda>t. (t, end_step g out)) (checked_add t n)) groups (t, out)
     = Some (t + of_nat (length (group_occurrences groups)),
             fold (\<lambda>(g, plies) out. end_step g (fst_step g (hd plies) out)) groups out)"
  using assms
proof (induction groups arbitrary: t out)
  case Nil
  then show ?case by (simp add: group_occurrences_def)
next
  case (Cons gp groups)
  obtain g plies where gp: "gp = (g, plies)" by force
  have wf: "wf_groups groups" using Cons.prems(1) by (simp add: gp wf_groups_Cons)
  have n: "length (group_occurrences (gp # groups)) = length plies + length (group_occurrences groups)"
    by (simp add: gp group_occurrences_def)
  have u: "unat (of_nat (length plies) :: u64) = length plies"
    using Cons.prems(2) n by (intro unat_of_nat_less) simp
  have "unat (t + of_nat (length plies)) = unat t + length plies"
    using unat_add_lem [of t "of_nat (length plies)"] Cons.prems(2) n u by simp
  moreover have "checked_add t (of_nat (length plies)) = Some (t + of_nat (length plies))"
    using calculation Cons.prems(2) n u by (simp add: checked_add_Some)
  ultimately show ?case
    using Cons.IH [OF wf, of "t + of_nat (length plies)"] Cons.prems(2) n
    by (simp add: gp)
qed

lemma entry_total:
  assumes "entry_describes entry groups"
  shows "(of_nat (length (group_occurrences groups)) :: u64) = ucast (de_occurrence_count entry)"
    and "length (group_occurrences groups) < 2 ^ 64"
proof -
  have "length (group_occurrences groups) < 2 ^ 32"
    using assms unat_less_2p [of "de_occurrence_count entry"] by (simp add: entry_describes_def)
  then show lt: "length (group_occurrences groups) < 2 ^ 64" by simp
  have "unat (of_nat (length (group_occurrences groups)) :: u64) = length (group_occurrences groups)"
    using lt by (intro unat_of_nat_less) simp
  then show "(of_nat (length (group_occurrences groups)) :: u64) = ucast (de_occurrence_count entry)"
    using assms by (simp add: entry_describes_def unat_ucast_up flip: unat_inject)
qed

lemma fold_snoc_map: "fold (\<lambda>(g, plies) out. out @ [f g plies]) groups out = out @ map (\<lambda>(g, plies). f g plies) groups"
  by (induction groups arbitrary: out) auto

lemma decode_game_ids_groups:
  assumes "wf_groups groups" and "entry_describes entry groups"
  shows "decode_posting_block_game_ids (encode_groups None groups) entry = Inr (map fst groups)"
proof -
  have "acc_groups (\<lambda>_ _ acc. acc) (\<lambda>_ _ acc. acc)
      (\<lambda>g n (t, ids). map_option (\<lambda>t. (t, ids @ [g])) (checked_add t n)) groups (0, [])
    = Some (ucast (de_occurrence_count entry), map fst groups)"
    using acc_groups_total [OF assms(1), of 0 "\<lambda>g p out. out" "\<lambda>g ids. ids @ [g]" "[]"]
      entry_total [OF assms(2)] fold_snoc_map [of "\<lambda>g _. g" groups "[]"]
    by (simp add: case_prod_unfold)
  then show ?thesis
    unfolding decode_posting_block_game_ids_def scan_groups_block [OF assms] by simp
qed

lemma fold_requested:
  "fold (\<lambda>(g, plies) out. if P g then out @ [(g, hd plies)] else out) groups out
     = out @ map (\<lambda>(g, plies). (g, hd plies)) (filter (\<lambda>(g, plies). P g) groups)"
  by (induction groups arbitrary: out) auto

lemma decode_first_occurrences_groups:
  assumes "wf_groups groups" and "entry_describes entry groups"
  shows "decode_posting_block_first_occurrences (encode_groups None groups) entry requested
     = Inr (map (\<lambda>(g, plies). (g, Min (set plies))) (filter (\<lambda>(g, plies). g \<in> set requested) groups))"
proof -
  have "acc_groups (\<lambda>g p (t, out). (t, if g \<in> set requested then out @ [(g, p)] else out)) (\<lambda>_ _ acc. acc)
      (\<lambda>_ n (t, out). map_option (\<lambda>t. (t, out)) (checked_add t n)) groups (0, [])
    = Some (ucast (de_occurrence_count entry),
        map (\<lambda>(g, plies). (g, hd plies)) (filter (\<lambda>(g, plies). g \<in> set requested) groups))"
    using acc_groups_total [OF assms(1), of 0 "\<lambda>g p out. if g \<in> set requested then out @ [(g, p)] else out"
        "\<lambda>_ out. out" "[]"]
      entry_total [OF assms(2)] fold_requested [of "\<lambda>g. g \<in> set requested" groups "[]"]
    by (simp add: case_prod_unfold)
  moreover have "map (\<lambda>(g, plies). (g, hd plies)) (filter Q groups)
      = map (\<lambda>(g, plies). (g, Min (set plies))) (filter Q groups)" for Q
  proof (rule map_cong [OF refl], clarsimp)
    fix g plies assume "(g, plies) \<in> set groups"
    with assms(1) have "plies \<noteq> []" "sorted_wrt (<) plies" by (auto simp: wf_groups_def)
    then show "hd plies = Min (set plies)"
      by (cases plies) (auto intro!: Min_insert2 [symmetric] less_imp_le)
  qed
  ultimately show ?thesis
    unfolding decode_posting_block_first_occurrences_def scan_groups_block [OF assms] Let_def set_sort by simp
qed

section \<open>The decoders invert the encoder\<close>

text \<open>
  a posting block decodes to the requested window of its occurrences, in ascending
  (game, ply) order: for every well-formed list of game groups, the window decoder run on the
  encoded block and its directory entry returns the page of the occurrences that
  \<open>limit\<close> and \<open>skip\<close> select.
\<close>
theorem decode_posting_block_window_encoded:
  assumes "wf_groups groups" and "entry_describes entry groups"
  shows "decode_posting_block_window (encode_groups None groups) entry limit skip
     = Inr (page limit skip (group_occurrences groups))"
  using assms by (rule decode_window_groups)

text \<open>
  the distinct-game decoder returns the game ids of an encoded block, each once and
  ascending.
\<close>
theorem decode_posting_block_game_ids_encoded:
  assumes "wf_groups groups" and "entry_describes entry groups"
  shows "decode_posting_block_game_ids (encode_groups None groups) entry = Inr (map fst groups)"
  using assms by (rule decode_game_ids_groups)

text \<open>
  the first-occurrence decoder returns, for exactly the requested games of the block and in
  ascending game order, the lowest ply at which the game reaches the position.
\<close>
theorem decode_posting_block_first_occurrences_encoded:
  assumes "wf_groups groups" and "entry_describes entry groups"
  shows "decode_posting_block_first_occurrences (encode_groups None groups) entry requested
     = Inr (map (\<lambda>(g, plies). (g, Min (set plies))) (filter (\<lambda>(g, plies). g \<in> set requested) groups))"
  using assms by (rule decode_first_occurrences_groups)

section \<open>A block of two games\<close>

text \<open>Game 1 reaches the position at plies 0 and 2, game 3 at ply 5.\<close>
definition sample_groups :: "(u32 \<times> u16 list) list" where
  "sample_groups = [(1, [0, 2]), (3, [5])]"

definition sample_entry :: directory_block_entry where
  "sample_entry = \<lparr>de_hash = 17, de_posting_offset = 88, de_posting_byte_length = 7, de_occurrence_count = 3,
     de_distinct_game_count = 2, de_min_ply = 0, de_max_ply = 5\<rparr>"

lemma sample_block: "wf_groups sample_groups" "entry_describes sample_entry sample_groups"
  by (auto simp: sample_groups_def sample_entry_def wf_groups_def entry_describes_def group_occurrences_def
      group_plies_def min_def max_def)

theorem decode_posting_block_window_encoded_witness:
  "wf_groups sample_groups \<and> entry_describes sample_entry sample_groups
   \<and> decode_posting_block_window (encode_groups None sample_groups) sample_entry 2 1 = Inr [(1, 2), (3, 5)]"
  using decode_posting_block_window_encoded [OF sample_block, of 2 1] sample_block
  by (simp add: page_def group_occurrences_def sample_groups_def)

theorem decode_posting_block_game_ids_encoded_witness:
  "wf_groups sample_groups \<and> entry_describes sample_entry sample_groups
   \<and> decode_posting_block_game_ids (encode_groups None sample_groups) sample_entry = Inr [1, 3]"
  using decode_posting_block_game_ids_encoded [OF sample_block] sample_block
  by (simp add: sample_groups_def)

theorem decode_posting_block_first_occurrences_encoded_witness:
  "wf_groups sample_groups \<and> entry_describes sample_entry sample_groups
   \<and> decode_posting_block_first_occurrences (encode_groups None sample_groups) sample_entry [4, 1] = Inr [(1, 0)]"
  using decode_posting_block_first_occurrences_encoded [OF sample_block, of "[4, 1]"] sample_block
  by (simp add: sample_groups_def)

end
