(* ===== verification/Directory_Block.thy ===== *)
theory Directory_Block
  imports Posting_Block
begin

text \<open>
  The compressed directory blocks of \<open>position_postings.cpp\<close>. A block holds up to 256
  entries, one per position hash in ascending order: a fixed header, a bitmap of the hash
  deltas that need more than 40 bits, a bitmap of the entries whose occurrence count
  differs from their game count, the low 40 bits of all deltas, the high parts of the
  exceptional ones and the LEB128 fields of every entry. Posting offsets are not stored:
  they are derived from the first one and the block lengths.
\<close>

section \<open>Bitmaps\<close>

definition bitmap_padding_is_zero :: "bytes \<Rightarrow> nat \<Rightarrow> bool" where
  "bitmap_padding_is_zero bitmap used_bits =
     (if bitmap = [] \<or> used_bits mod 8 = 0 then True
      else last bitmap AND push_bit (used_bits mod 8) 0xff = 0)"

definition bitmap_bit :: "bytes \<Rightarrow> nat \<Rightarrow> bool" where
  "bitmap_bit bitmap index \<longleftrightarrow> bitmap ! (index div 8) AND push_bit (index mod 8) 1 \<noteq> 0"

definition set_bitmap_bit :: "nat \<Rightarrow> bytes \<Rightarrow> bytes" where
  "set_bitmap_bit index bitmap = bitmap[index div 8 := bitmap ! (index div 8) OR push_bit (index mod 8) 1]"

text \<open>The loops of \<open>flush_directory_block\<close> that fill a zeroed bitmap.\<close>
definition bitmap_of :: "nat \<Rightarrow> (nat \<Rightarrow> bool) \<Rightarrow> bytes" where
  "bitmap_of n P =
     fold (\<lambda>index bitmap. if P index then set_bitmap_bit index bitmap else bitmap) [0..<n]
       (replicate ((n + 8 - 1) div 8) 0)"

section \<open>Decoding\<close>

fun read_hash_lows :: "nat \<Rightarrow> bytes \<Rightarrow> nat \<Rightarrow> (u64 list \<times> nat) option" where
  "read_hash_lows 0 data offset = Some ([], offset)"
| "read_hash_lows (Suc n) data offset =
     (if offset + 5 > length data then None
      else let low = le_fold 5 (\<lambda>byte_index. data ! (offset + byte_index)) in
        map_option (\<lambda>(lows, offset). (low # lows, offset)) (read_hash_lows n data (offset + 5)))"

text \<open>The loop that adds the high parts of the deltas marked in the bitmap.\<close>
fun read_hash_highs :: "bytes \<Rightarrow> nat \<Rightarrow> u64 list \<Rightarrow> bytes \<Rightarrow> nat \<Rightarrow> (u64 list \<times> nat) option" where
  "read_hash_highs bitmap index [] data offset = Some ([], offset)"
| "read_hash_highs bitmap index (low # lows) data offset =
     (if \<not> bitmap_bit bitmap index
      then map_option (\<lambda>(deltas, offset). (low # deltas, offset)) (read_hash_highs bitmap (index + 1) lows data offset)
      else case read_uleb128 data offset of
          None \<Rightarrow> None
        | Some (high, offset) \<Rightarrow>
            (if high = 0 \<or> high > drop_bit 40 (- 1) then None
             else map_option (\<lambda>(deltas, offset). ((low OR push_bit 40 high) # deltas, offset))
                    (read_hash_highs bitmap (index + 1) lows data offset)))"

text \<open>
  The LEB128 fields of one entry: posting byte length, distinct game count, occurrence count,
  lowest and highest ply.
\<close>
definition read_entry_fields ::
  "bytes \<Rightarrow> bool \<Rightarrow> nat \<Rightarrow> (u64 \<times> u64 \<times> u64 \<times> u64 \<times> u64 \<times> nat) option" where
  "read_entry_fields data occurrence_differs offset =
     do { (posting_byte_length, offset) \<leftarrow> read_uleb128 data offset;
          (if posting_byte_length = 0 then None
           else do { (distinct_game_count, offset) \<leftarrow> read_uleb128 data offset;
             (if distinct_game_count = 0 then None
              else do { (occurrence_count, offset) \<leftarrow>
                          (if occurrence_differs
                           then do { (occurrence_count, offset) \<leftarrow> read_uleb128 data offset;
                                     (if occurrence_count \<le> distinct_game_count then None
                                      else Some (occurrence_count, offset)) }
                           else Some (distinct_game_count, offset));
                (if occurrence_count > posting_byte_length \<or> occurrence_count > 0xffffffff
                    \<or> distinct_game_count > 0xffffffff then None
                 else do { (min_ply, offset) \<leftarrow> read_uleb128 data offset;
                           (max_ply, offset) \<leftarrow> read_uleb128 data offset;
                           (if min_ply > max_ply \<or> max_ply > 0xffff then None
                            else Some (posting_byte_length, distinct_game_count, occurrence_count,
                                       min_ply, max_ply, offset)) }) }) }) }"

text \<open>The loop over the entries; \<open>deltas\<close> are the hash deltas of the entries after the current one.\<close>
fun decode_entries ::
  "bytes \<Rightarrow> bytes \<Rightarrow> nat \<Rightarrow> u64 list \<Rightarrow> u64 \<Rightarrow> u64 \<Rightarrow> nat \<Rightarrow> (directory_block_entry list \<times> nat) option" where
  "decode_entries data bitmap index deltas current_hash current_offset offset =
     (case read_entry_fields data (bitmap_bit bitmap index) offset of
        None \<Rightarrow> None
      | Some (posting_byte_length, distinct_game_count, occurrence_count, min_ply, max_ply, offset) \<Rightarrow>
          let entry = \<lparr>de_hash = current_hash, de_posting_offset = current_offset,
                       de_posting_byte_length = posting_byte_length,
                       de_occurrence_count = ucast occurrence_count,
                       de_distinct_game_count = ucast distinct_game_count,
                       de_min_ply = ucast min_ply, de_max_ply = ucast max_ply\<rparr> in
          (case deltas of
             [] \<Rightarrow> Some ([entry], offset)
           | hash_delta # deltas \<Rightarrow>
               (if hash_delta = 0 \<or> current_hash > - 1 - hash_delta \<or> current_offset > - 1 - posting_byte_length
                then None
                else map_option (\<lambda>(entries, offset). (entry # entries, offset))
                       (decode_entries data bitmap (index + 1) deltas (current_hash + hash_delta)
                          (current_offset + posting_byte_length) offset))))"

declare decode_entries.simps [simp del]

definition max_directory_block_entries :: nat where
  "max_directory_block_entries = 256"

definition decode_directory_block :: "bytes \<Rightarrow> directory_block_entry list result" where
  "decode_directory_block data =
     (case do { (first_hash :: u64, offset) \<leftarrow> read_little_endian data 0;
                (first_posting_offset :: u64, offset) \<leftarrow> read_little_endian data offset;
                (entry_count :: u16, offset) \<leftarrow> read_little_endian data offset;
                (if entry_count = 0 \<or> unat entry_count > max_directory_block_entries then None
                 else let hash_delta_count = unat entry_count - 1;
                          hash_bitmap_size = (hash_delta_count + 8 - 1) div 8;
                          occurrence_bitmap_size = (unat entry_count + 8 - 1) div 8 in
                   if offset + hash_bitmap_size + occurrence_bitmap_size > length data then None
                   else let hash_bitmap = take hash_bitmap_size (drop offset data);
                            offset = offset + hash_bitmap_size;
                            occurrence_bitmap = take occurrence_bitmap_size (drop offset data);
                            offset = offset + occurrence_bitmap_size in
                     if \<not> bitmap_padding_is_zero hash_bitmap hash_delta_count
                        \<or> \<not> bitmap_padding_is_zero occurrence_bitmap (unat entry_count) then None
                     else do { (lows, offset) \<leftarrow> read_hash_lows hash_delta_count data offset;
                               (deltas, offset) \<leftarrow> read_hash_highs hash_bitmap 0 lows data offset;
                               (entries, offset) \<leftarrow> decode_entries data occurrence_bitmap 0 deltas first_hash
                                                      first_posting_offset offset;
                               (if offset \<noteq> length data then None else Some entries) }) } of
        None \<Rightarrow> unexpected Schema_Mismatch
      | Some entries \<Rightarrow> Inr entries)"

section \<open>Encoding\<close>

text \<open>The entry the merge collects for a finished hash; its occurrence count is still 64 bits wide.\<close>
record directory_entry =
  dr_hash :: u64
  dr_offset :: u64
  dr_byte_length :: u64
  dr_occurrence_count :: u64
  dr_distinct_game_count :: u32
  dr_min_ply :: u16
  dr_max_ply :: u16

fun hash_deltas_from :: "u64 \<Rightarrow> directory_entry list \<Rightarrow> u64 list" where
  "hash_deltas_from previous [] = []"
| "hash_deltas_from previous (e # es) = (dr_hash e - previous) # hash_deltas_from (dr_hash e) es"

definition hash_deltas :: "directory_entry list \<Rightarrow> u64 list" where
  "hash_deltas es = hash_deltas_from (dr_hash (hd es)) (tl es)"

definition hash_exception_bitmap :: "directory_entry list \<Rightarrow> bytes" where
  "hash_exception_bitmap es =
     bitmap_of (length es - 1) (\<lambda>index. drop_bit 40 (hash_deltas es ! index) \<noteq> 0)"

definition occurrence_differs :: "directory_entry \<Rightarrow> bool" where
  "occurrence_differs e \<longleftrightarrow> dr_occurrence_count e \<noteq> ucast (dr_distinct_game_count e)"

definition occurrence_exception_bitmap :: "directory_entry list \<Rightarrow> bytes" where
  "occurrence_exception_bitmap es = bitmap_of (length es) (\<lambda>index. occurrence_differs (es ! index))"

definition hash_high_bytes :: "u64 \<Rightarrow> bytes" where
  "hash_high_bytes delta = (if drop_bit 40 delta \<noteq> 0 then uleb128 (drop_bit 40 delta) else [])"

definition entry_field_bytes :: "directory_entry \<Rightarrow> bytes" where
  "entry_field_bytes e =
     uleb128 (dr_byte_length e) @ uleb128 (ucast (dr_distinct_game_count e))
     @ (if occurrence_differs e then uleb128 (dr_occurrence_count e) else [])
     @ uleb128 (ucast (dr_min_ply e)) @ uleb128 (ucast (dr_max_ply e))"

text \<open>The bytes \<open>flush_directory_block\<close> writes for the pending entries.\<close>
definition encode_directory_block :: "directory_entry list \<Rightarrow> bytes" where
  "encode_directory_block es =
     write_little_endian (dr_hash (hd es)) @ write_little_endian (dr_offset (hd es))
     @ write_little_endian (of_nat (length es) :: u16)
     @ hash_exception_bitmap es @ occurrence_exception_bitmap es
     @ concat (map (le_loop 5) (hash_deltas es)) @ concat (map hash_high_bytes (hash_deltas es))
     @ concat (map entry_field_bytes es)"

text \<open>The entry a reader gets back.\<close>
definition block_entry :: "directory_entry \<Rightarrow> directory_block_entry" where
  "block_entry e = \<lparr>de_hash = dr_hash e, de_posting_offset = dr_offset e, de_posting_byte_length = dr_byte_length e,
     de_occurrence_count = ucast (dr_occurrence_count e), de_distinct_game_count = dr_distinct_game_count e,
     de_min_ply = dr_min_ply e, de_max_ply = dr_max_ply e\<rparr>"

text \<open>What the entries of a block have to satisfy, one by one and as a chain.\<close>
definition wf_entry :: "directory_entry \<Rightarrow> bool" where
  "wf_entry e \<longleftrightarrow> dr_byte_length e \<noteq> 0 \<and> dr_distinct_game_count e \<noteq> 0
     \<and> ucast (dr_distinct_game_count e) \<le> dr_occurrence_count e \<and> dr_occurrence_count e \<le> dr_byte_length e
     \<and> dr_occurrence_count e \<le> 0xffffffff \<and> dr_min_ply e \<le> dr_max_ply e"

fun chained :: "directory_entry list \<Rightarrow> bool" where
  "chained (e # f # es) \<longleftrightarrow> dr_hash e < dr_hash f \<and> unat (dr_offset e) + unat (dr_byte_length e) < 2 ^ 64
     \<and> dr_offset f = dr_offset e + dr_byte_length e \<and> chained (f # es)"
| "chained es \<longleftrightarrow> True"

section \<open>Properties of the bitmaps\<close>

lemma bitmap_bit_iff: "bitmap_bit bitmap index \<longleftrightarrow> bit (bitmap ! (index div 8)) (index mod 8)"
proof -
  have "bit (bitmap ! (index div 8) AND push_bit (index mod 8) 1) k
      \<longleftrightarrow> k = index mod 8 \<and> bit (bitmap ! (index div 8)) k" for k
    by (auto simp: bit_simps dest: bit_imp_le_length)
  then show ?thesis unfolding bitmap_bit_def by (metis bit_0_eq bot_apply bot_bool_def bit_eq_iff)
qed

lemma length_set_bitmap_bit [simp]: "length (set_bitmap_bit i bm) = length bm"
  by (simp add: set_bitmap_bit_def)

lemma bit_set_bitmap_bit:
  assumes "k < length bm" and "b < 8"
  shows "bit (set_bitmap_bit i bm ! k) b \<longleftrightarrow> bit (bm ! k) b \<or> i = 8 * k + b"
proof -
  have "i div 8 = k \<and> i mod 8 = b \<longleftrightarrow> i = 8 * k + b"
    using assms(2) by auto
  then show ?thesis
    using assms by (cases "i div 8 = k") (auto simp: set_bitmap_bit_def bit_simps)
qed

lemma bitmap_fold:
  assumes "k < length bm" and "b < 8"
  shows "bit (fold (\<lambda>i bm. if P i then set_bitmap_bit i bm else bm) xs bm ! k) b
     \<longleftrightarrow> bit (bm ! k) b \<or> (8 * k + b \<in> set xs \<and> P (8 * k + b))"
  using assms by (induction xs arbitrary: bm) (auto simp: bit_set_bitmap_bit)

lemma length_bitmap_fold:
  "length (fold (\<lambda>i bm. if P i then set_bitmap_bit i bm else bm) xs bm) = length bm"
  by (induction xs arbitrary: bm) auto

lemma length_bitmap_of [simp]: "length (bitmap_of n P) = (n + 7) div 8"
  by (simp add: bitmap_of_def length_bitmap_fold)

lemma bit_bitmap_of:
  assumes "k < (n + 7) div 8" and "b < 8"
  shows "bit (bitmap_of n P ! k) b \<longleftrightarrow> 8 * k + b < n \<and> P (8 * k + b)"
  using assms unfolding bitmap_of_def by (subst bitmap_fold) auto

lemma bitmap_bit_of: "i < n \<Longrightarrow> bitmap_bit (bitmap_of n P) i \<longleftrightarrow> P i"
  unfolding bitmap_bit_iff by (subst bit_bitmap_of) (auto simp: algebra_simps)

lemma bitmap_padding_of: "bitmap_padding_is_zero (bitmap_of n P) n"
proof (cases "n mod 8 = 0")
  case False
  let ?k = "(n + 7) div 8 - 1"
  have n: "n = 8 * (n div 8) + n mod 8" by simp
  have k: "(n + 7) div 8 = Suc (n div 8)"
    using False by (subst n, subst add.assoc, subst div_mult_self4) (auto simp: div_nat_eqI)
  have last: "last (bitmap_of n P) = bitmap_of n P ! (n div 8)"
    by (subst last_conv_nth) (use k in \<open>auto simp flip: length_greater_0_conv\<close>)
  have "\<not> bit (bitmap_of n P ! (n div 8) AND push_bit (n mod 8) 0xff) b" for b
  proof (cases "b < 8")
    case True
    have "8 * (n div 8) + b < n \<longleftrightarrow> b < n mod 8" using n by linarith
    then show ?thesis
      using bit_bitmap_of [of "n div 8" n b P] True k by (auto simp: bit_simps)
  qed (auto dest: bit_imp_le_length)
  then have "bitmap_of n P ! (n div 8) AND push_bit (n mod 8) 0xff = 0"
    by (metis bit_0_eq bot_apply bot_bool_def bit_eq_iff)
  then show ?thesis using last by (simp add: bitmap_padding_is_zero_def)
qed (simp add: bitmap_padding_is_zero_def)

section \<open>Decoding an encoded block\<close>

lemma length_hash_deltas_from [simp]: "length (hash_deltas_from h es) = length es"
  by (induction es arbitrary: h) auto

lemma length_hash_deltas [simp]: "length (hash_deltas es) = length es - 1"
  by (simp add: hash_deltas_def)

text \<open>A loop of 5 little-endian bytes keeps the low 40 bits.\<close>
lemma located_le_loop:
  assumes "located data offset (le_loop n v @ rest)"
  shows "le_fold n (\<lambda>i. data ! (offset + i)) = take_bit (8 * n) v" and "offset + n \<le> length data"
proof -
  have d: "data = take offset data @ le_loop n v @ rest" "length (take offset data) = offset"
    using located_split [OF assms] by auto
  have "data ! (offset + i) = le_loop n v ! i" if "i < n" for i
    using nth_mid [of i "le_loop n v" "take offset data" rest] that d by (metis length_le_loop)
  then have "le_fold n (\<lambda>i. data ! (offset + i)) = le_fold n (\<lambda>i. le_loop n v ! i)"
    by (rule le_fold_cong)
  then show "le_fold n (\<lambda>i. data ! (offset + i)) = take_bit (8 * n) v" by (simp add: le_fold_le_loop)
  show "offset + n \<le> length data" using located_length [OF assms] by simp
qed

lemma read_hash_lows_encoded:
  assumes "located data offset (concat (map (le_loop 5) ds) @ rest)"
  shows "read_hash_lows (length ds) data offset = Some (map (take_bit 40) ds, offset + 5 * length ds)"
  using assms
proof (induction ds arbitrary: offset)
  case (Cons d ds)
  have l: "located data offset (le_loop 5 d @ concat (map (le_loop 5) ds) @ rest)" using Cons.prems by simp
  show ?case
    using located_le_loop [OF l] Cons.IH [of "offset + 5"] located_append [OF l] by (simp add: Let_def)
qed simp

lemma hash_high_bits:
  "drop_bit 40 (d :: u64) \<le> drop_bit 40 (- 1)" "take_bit 40 d OR push_bit 40 (drop_bit 40 d) = d"
proof -
  show "take_bit 40 d OR push_bit 40 (drop_bit 40 d) = d"
  proof (rule bit_eqI)
    fix n
    show "bit (take_bit 40 d OR push_bit 40 (drop_bit 40 d)) n = bit d n"
      by (cases "n < 40") (auto simp: bit_simps dest: bit_imp_le_length)
  qed
  have "unat d div 2 ^ 40 \<le> unat (- 1 :: u64) div 2 ^ 40"
    using unat_less_2p [of d] by (intro div_le_mono) (simp add: unat_max_u64)
  then show "drop_bit 40 d \<le> drop_bit 40 (- 1)"
    by (simp only: word_le_nat_alt unat_drop_bit_eq) (simp only: drop_bit_eq_div)
qed

lemma read_hash_highs_encoded:
  assumes "located data offset (concat (map hash_high_bytes ds) @ rest)"
    and "\<forall>i<length ds. bitmap_bit bitmap (index + i) \<longleftrightarrow> drop_bit 40 (ds ! i) \<noteq> 0"
  shows "read_hash_highs bitmap index (map (take_bit 40) ds) data offset
     = Some (ds, offset + length (concat (map hash_high_bytes ds)))"
  using assms
proof (induction ds arbitrary: offset index)
  case (Cons d ds)
  have l: "located data offset (hash_high_bytes d @ concat (map hash_high_bytes ds) @ rest)"
    using Cons.prems(1) by simp
  have b: "bitmap_bit bitmap index \<longleftrightarrow> drop_bit 40 d \<noteq> 0" using Cons.prems(2) by force
  have bs: "\<forall>i<length ds. bitmap_bit bitmap (index + 1 + i) \<longleftrightarrow> drop_bit 40 (ds ! i) \<noteq> 0"
    using Cons.prems(2) by force
  note IH = Cons.IH [OF located_append [OF l] bs]
  show ?case
  proof (cases "drop_bit 40 d = 0")
    case True
    then have "take_bit 40 d = d" by (simp add: take_bit_eq_self_iff_drop_bit_eq_0)
    then show ?thesis using IH b True by (simp add: hash_high_bytes_def)
  next
    case False
    then have h: "hash_high_bytes d = uleb128 (drop_bit 40 d)" by (simp add: hash_high_bytes_def)
    have "read_uleb128 data offset = Some (drop_bit 40 d, offset + length (uleb128 (drop_bit 40 d)))"
      using located_uleb128 l h by simp
    then show ?thesis
      using IH b False hash_high_bits [of d] by (simp add: h not_less del: push_bit_of_1)
  qed
qed simp

lemma read_entry_fields_encoded:
  assumes "located data offset (entry_field_bytes e @ rest)" and "wf_entry e"
  shows "read_entry_fields data (occurrence_differs e) offset =
     Some (dr_byte_length e, ucast (dr_distinct_game_count e), dr_occurrence_count e,
           ucast (dr_min_ply e), ucast (dr_max_ply e), offset + length (entry_field_bytes e))"
proof -
  let ?L = "uleb128 (dr_byte_length e)" and ?D = "uleb128 (ucast (dr_distinct_game_count e))"
  let ?O = "if occurrence_differs e then uleb128 (dr_occurrence_count e) else []"
  let ?m = "uleb128 (ucast (dr_min_ply e))" and ?M = "uleb128 (ucast (dr_max_ply e))"
  let ?o1 = "offset + length ?L"
  let ?o2 = "?o1 + length ?D"
  let ?o3 = "?o2 + length ?O"
  have l0: "located data offset (?L @ ?D @ ?O @ ?m @ ?M @ rest)"
    using assms(1) by (simp add: entry_field_bytes_def)
  note l1 = located_append [OF l0] and r0 = located_uleb128 [OF l0]
  note l2 = located_append [OF l1] and r1 = located_uleb128 [OF l1]
  note l3 = located_append [OF l2]
  note l4 = located_append [OF l3] and r3 = located_uleb128 [OF l3]
  note r4 = located_uleb128 [OF l4]
  have r2: "(if occurrence_differs e
      then do { (occurrence_count, offset) \<leftarrow> read_uleb128 data ?o2;
                (if occurrence_count \<le> ucast (dr_distinct_game_count e) then None else Some (occurrence_count, offset)) }
      else Some (ucast (dr_distinct_game_count e), ?o2)) = Some (dr_occurrence_count e, ?o3)"
  proof (cases "occurrence_differs e")
    case True
    with l2 have "read_uleb128 data ?o2 = Some (dr_occurrence_count e, ?o2 + length (uleb128 (dr_occurrence_count e)))"
      by (simp add: located_uleb128)
    moreover have "\<not> dr_occurrence_count e \<le> ucast (dr_distinct_game_count e)"
      using True assms(2) by (auto simp: wf_entry_def occurrence_differs_def)
    ultimately show ?thesis using True by simp
  qed (simp add: occurrence_differs_def)
  have mM: "(ucast (dr_min_ply e) :: u64) \<le> ucast (dr_max_ply e)"
    using assms(2) by (simp add: wf_entry_def word_le_nat_alt unat_ucast_up)
  show ?thesis
    unfolding read_entry_fields_def r0 Option.bind.simps prod.case r1 r2
    using assms(2) ucast_u32_u64 [of "dr_distinct_game_count e"] ucast_u16_u64 [of "dr_max_ply e"] mM
    by (simp add: wf_entry_def not_less r3 r4 entry_field_bytes_def)
qed

lemma block_entry_fields:
  "wf_entry e \<Longrightarrow> \<lparr>de_hash = dr_hash e, de_posting_offset = dr_offset e, de_posting_byte_length = dr_byte_length e,
     de_occurrence_count = ucast (dr_occurrence_count e),
     de_distinct_game_count = ucast (ucast (dr_distinct_game_count e) :: u64),
     de_min_ply = ucast (ucast (dr_min_ply e) :: u64), de_max_ply = ucast (ucast (dr_max_ply e) :: u64)\<rparr> = block_entry e"
  by (simp add: block_entry_def ucast_up_down)

lemma hash_delta_step:
  assumes "(h :: u64) < k"
  shows "k - h \<noteq> 0" and "\<not> h > - 1 - (k - h)" and "h + (k - h) = k"
proof -
  have "unat h < unat k" "unat k < 2 ^ 64"
    using assms unat_less_2p [of k] by (simp_all add: word_less_nat_alt)
  moreover have "unat (k - h) = unat k - unat h" using assms by (intro unat_sub) simp
  ultimately show "\<not> h > - 1 - (k - h)" unfolding u64_overflow_iff by simp
qed (use assms in auto)

lemma decode_entries_encoded:
  assumes "located data offset (concat (map entry_field_bytes (e # es)) @ rest)"
    and "\<forall>f\<in>set (e # es). wf_entry f" and "chained (e # es)"
    and "\<forall>i<length (e # es). bitmap_bit bitmap (index + i) \<longleftrightarrow> occurrence_differs ((e # es) ! i)"
  shows "decode_entries data bitmap index (hash_deltas_from (dr_hash e) es) (dr_hash e) (dr_offset e) offset
     = Some (map block_entry (e # es), offset + length (concat (map entry_field_bytes (e # es))))"
  using assms
proof (induction es arbitrary: e offset index)
  case Nil
  have "read_entry_fields data (bitmap_bit bitmap index) offset
      = Some (dr_byte_length e, ucast (dr_distinct_game_count e), dr_occurrence_count e,
           ucast (dr_min_ply e), ucast (dr_max_ply e), offset + length (entry_field_bytes e))"
    using read_entry_fields_encoded [of data offset e rest] Nil by auto
  then show ?case using Nil.prems(2) block_entry_fields by (simp add: decode_entries.simps Let_def)
next
  case (Cons f es)
  have l: "located data offset (entry_field_bytes e @ concat (map entry_field_bytes (f # es)) @ rest)"
    using Cons.prems(1) by simp
  have b: "bitmap_bit bitmap index = occurrence_differs e" using Cons.prems(4) by force
  have bs: "\<forall>i<length (f # es). bitmap_bit bitmap (index + 1 + i) \<longleftrightarrow> occurrence_differs ((f # es) ! i)"
    using Cons.prems(4) by force
  have wf: "wf_entry e" "\<forall>f\<in>set (f # es). wf_entry f" using Cons.prems(2) by simp_all
  have ch: "dr_hash e < dr_hash f" "\<not> dr_offset e > - 1 - dr_byte_length e"
      "dr_offset f = dr_offset e + dr_byte_length e" "chained (f # es)"
    using Cons.prems(3) by (auto simp: u64_overflow_iff)
  note fields = read_entry_fields_encoded [OF l wf(1)]
  note IH = Cons.IH [OF located_append [OF l] wf(2) ch(4) bs]
  show ?case
    using hash_delta_step [OF ch(1)] ch(2,3) IH wf(1) block_entry_fields
    by (subst decode_entries.simps) (simp add: b fields Let_def)
qed

lemma decode_directory_block_entries:
  assumes "es \<noteq> []" and "length es \<le> max_directory_block_entries"
    and "\<forall>e\<in>set es. wf_entry e" and "chained es"
  shows "decode_directory_block (encode_directory_block es) = Inr (map block_entry es)"
proof -
  obtain e es' where es: "es = e # es'" using assms(1) by (cases es) auto
  let ?data = "encode_directory_block es" and ?n = "length es"
  let ?hb = "hash_exception_bitmap es" and ?ob = "occurrence_exception_bitmap es"
  let ?lows = "concat (map (le_loop 5) (hash_deltas es))"
  let ?highs = "concat (map hash_high_bytes (hash_deltas es))"
  let ?fields = "concat (map entry_field_bytes (e # es'))"
  have n: "unat (of_nat ?n :: u16) = ?n" "(of_nat ?n :: u16) \<noteq> 0"
  proof -
    show u: "unat (of_nat ?n :: u16) = ?n"
      using assms(2) by (intro unat_of_nat_less) (simp add: max_directory_block_entries_def)
    show "(of_nat ?n :: u16) \<noteq> 0" using u assms(1) by (metis length_0_conv unat_0)
  qed
  have l0: "located ?data 0 (write_little_endian (dr_hash e) @ write_little_endian (dr_offset e)
      @ write_little_endian (of_nat ?n :: u16) @ ?hb @ ?ob @ ?lows @ ?highs @ ?fields)"
    by (simp add: encode_directory_block_def es)
  note l1 = located_append [OF l0, simplified] and r0 = located_little_endian [OF l0, simplified]
  note l2 = located_append [OF l1, simplified] and r1 = located_little_endian [OF l1, simplified]
  note l3 = located_append [OF l2, simplified] and r2 = located_little_endian [OF l2, simplified]
  note l4 = located_append [OF l3] and l5 = located_append [OF located_append [OF l3]]
  have len: "(?n - 1 + 8 - 1) div 8 = length ?hb" "(?n + 8 - 1) div 8 = length ?ob"
    by (simp_all add: hash_exception_bitmap_def occurrence_exception_bitmap_def)
  have lows: "read_hash_lows (?n - 1) ?data (18 + length ?hb + length ?ob)
      = Some (map (take_bit 40) (hash_deltas es), 18 + length ?hb + length ?ob + length ?lows)"
    using read_hash_lows_encoded [OF l5] by (simp add: length_concat comp_def sum_list_triv)
  have highs: "read_hash_highs ?hb 0 (map (take_bit 40) (hash_deltas es)) ?data (18 + length ?hb + length ?ob + length ?lows)
      = Some (hash_deltas es, 18 + length ?hb + length ?ob + length ?lows + length ?highs)"
    by (rule read_hash_highs_encoded [OF located_append [OF l5]])
      (simp add: hash_exception_bitmap_def bitmap_bit_of)
  have ents: "decode_entries ?data ?ob 0 (hash_deltas es) (dr_hash e) (dr_offset e)
        (18 + length ?hb + length ?ob + length ?lows + length ?highs)
      = Some (map block_entry es, length ?data)"
  proof -
    have l7: "located ?data (18 + length ?hb + length ?ob + length ?lows + length ?highs) (?fields @ [])"
      using located_append [OF located_append [OF l5]] by simp
    have "\<forall>i<length (e # es'). bitmap_bit ?ob (0 + i) \<longleftrightarrow> occurrence_differs ((e # es') ! i)"
      by (simp add: occurrence_exception_bitmap_def bitmap_bit_of es)
    from decode_entries_encoded [OF l7 _ _ this] assms(3,4) show ?thesis
      using located_length [OF l7] by (simp add: es hash_deltas_def)
  qed
  have take: "take (length ?hb) (drop 18 ?data) = ?hb" "take (length ?ob) (drop (18 + length ?hb) ?data) = ?ob"
    using located_take [OF l3] located_take [OF l4] by simp_all
  have bound: "\<not> 18 + length ?hb + length ?ob > length ?data" using located_length [OF l5] by simp
  have pad: "bitmap_padding_is_zero ?hb (?n - 1)" "bitmap_padding_is_zero ?ob ?n"
    by (simp_all add: hash_exception_bitmap_def occurrence_exception_bitmap_def bitmap_padding_of)
  show ?thesis
    unfolding decode_directory_block_def r0 r1 r2 Option.bind.simps prod.case n Let_def len take
    using n(2) assms(2) bound lows highs ents pad by simp
qed

text \<open>
  directory blocks round-trip: decoding what \<open>flush_directory_block\<close> writes for a chain of
  at most 256 well-formed entries returns exactly these entries, with the posting offsets
  rebuilt from the block lengths.
\<close>
theorem decode_encode_directory_block:
  assumes "es \<noteq> []" and "length es \<le> max_directory_block_entries"
    and "\<forall>e\<in>set es. wf_entry e" and "chained es"
  shows "decode_directory_block (encode_directory_block es) = Inr (map block_entry es)"
  using assms by (rule decode_directory_block_entries)

section \<open>A block of two entries\<close>

text \<open>The second hash is more than 40 bits away, the first entry has more occurrences than games.\<close>
definition sample_entries :: "directory_entry list" where
  "sample_entries =
     [\<lparr>dr_hash = 5, dr_offset = 88, dr_byte_length = 7, dr_occurrence_count = 3, dr_distinct_game_count = 2,
       dr_min_ply = 0, dr_max_ply = 5\<rparr>,
      \<lparr>dr_hash = 0x20000000000, dr_offset = 95, dr_byte_length = 3, dr_occurrence_count = 1,
       dr_distinct_game_count = 1, dr_min_ply = 4, dr_max_ply = 4\<rparr>]"

theorem decode_encode_directory_block_witness:
  "map_sum id (map de_posting_offset) (decode_directory_block (encode_directory_block sample_entries)) = Inr [88, 95]"
proof -
  have "sample_entries \<noteq> []" "length sample_entries \<le> max_directory_block_entries"
    "\<forall>e\<in>set sample_entries. wf_entry e" "chained sample_entries"
    by (simp_all add: sample_entries_def max_directory_block_entries_def wf_entry_def)
  with decode_encode_directory_block [OF this] show ?thesis
    by (simp add: sample_entries_def block_entry_def)
qed

end
