(* ===== verification/Postings_Reader.thy ===== *)
theory Postings_Reader
  imports Directory_Block
begin

text \<open>
  The reader half of \<open>position_postings\<close> (\<open>source/motif/db/position_postings.cpp\<close>):
  \<open>open\<close>, which validates an artifact section by section and keeps its metadata table and
  sparse directory in memory, and the queries that read one directory block and one
  posting block. The members of the class are one record, shared with the builder. The
  clock readings among the build metrics are left out.
\<close>

section \<open>State\<close>

datatype posting_record = Posting_Record (rec_hash: u64) (rec_game_key: u32) (rec_ply: u16)

record game_metadata =
  gm_result :: u8
  gm_white_elo :: "u16 option"
  gm_black_elo :: "u16 option"
  gm_is_set :: bool

record metadata_record =
  mr_id :: u32
  mr_result :: u8
  mr_white_elo :: "u16 option"
  mr_black_elo :: "u16 option"

record sparse_entry =
  se_first_hash :: u64
  se_block_offset :: u64
  se_block_byte_length :: u32
  se_entry_count :: u16

record postings_summary =
  ps_occurrence_count :: u64
  ps_distinct_game_count :: u32
  ps_min_ply :: u16
  ps_max_ply :: u16

record build_metrics =
  bm_game_count :: u64
  bm_input_occurrence_count :: u64
  bm_occurrence_count :: u64
  bm_distinct_hash_count :: u64
  bm_spill_run_count :: u64
  bm_spill_bytes :: u64
  bm_posting_bytes :: u64
  bm_metadata_bytes :: u64
  bm_directory_bytes :: u64
  bm_sparse_directory_bytes :: u64
  bm_directory_hash_encoding_bytes :: u64
  bm_directory_block_header_bytes :: u64
  bm_directory_bitmap_bytes :: u64
  bm_directory_posting_length_bytes :: u64
  bm_directory_occurrence_count_bytes :: u64
  bm_directory_distinct_game_count_bytes :: u64
  bm_directory_min_ply_bytes :: u64
  bm_directory_max_ply_bytes :: u64
  bm_directory_equal_occurrence_game_count :: u64
  bm_directory_hash_delta_over_32_bits :: u64
  bm_directory_hash_delta_over_40_bits :: u64
  bm_directory_hash_delta_over_48_bits :: u64
  bm_peak_temp_bytes :: u64
  bm_final_artifact_bytes :: u64

text \<open>The hash map \<open>game_metadata_\<close> is an association list with distinct keys.\<close>
record position_postings =
  pp_path :: path
  pp_spill_threshold :: nat
  pp_records :: "posting_record list"
  pp_game_metadata :: "(u32 \<times> game_metadata) list"
  pp_spill_paths :: "path list"
  pp_indexed_game_count :: u64
  pp_metrics :: build_metrics
  pp_is_open :: bool
  pp_metadata :: "metadata_record list"
  pp_sparse_directory :: "sparse_entry list"
  pp_metadata_offset :: u64
  pp_directory_offset :: u64
  pp_directory_byte_length :: u64
  pp_sparse_offset :: u64
  pp_distinct_hash_count :: u64
  pp_occurrence_count :: u64

definition zero_metrics :: build_metrics where
  "zero_metrics = \<lparr>bm_game_count = 0, bm_input_occurrence_count = 0, bm_occurrence_count = 0,
     bm_distinct_hash_count = 0, bm_spill_run_count = 0, bm_spill_bytes = 0, bm_posting_bytes = 0,
     bm_metadata_bytes = 0, bm_directory_bytes = 0, bm_sparse_directory_bytes = 0,
     bm_directory_hash_encoding_bytes = 0, bm_directory_block_header_bytes = 0, bm_directory_bitmap_bytes = 0,
     bm_directory_posting_length_bytes = 0, bm_directory_occurrence_count_bytes = 0,
     bm_directory_distinct_game_count_bytes = 0, bm_directory_min_ply_bytes = 0, bm_directory_max_ply_bytes = 0,
     bm_directory_equal_occurrence_game_count = 0, bm_directory_hash_delta_over_32_bits = 0,
     bm_directory_hash_delta_over_40_bits = 0, bm_directory_hash_delta_over_48_bits = 0, bm_peak_temp_bytes = 0,
     bm_final_artifact_bytes = 0\<rparr>"

text \<open>The constructor.\<close>
definition new_postings :: "path \<Rightarrow> nat \<Rightarrow> position_postings" where
  "new_postings path spill_threshold = \<lparr>pp_path = path, pp_spill_threshold = spill_threshold, pp_records = [],
     pp_game_metadata = [], pp_spill_paths = [], pp_indexed_game_count = 0, pp_metrics = zero_metrics,
     pp_is_open = False, pp_metadata = [], pp_sparse_directory = [], pp_metadata_offset = 0, pp_directory_offset = 0,
     pp_directory_byte_length = 0, pp_sparse_offset = 0, pp_distinct_hash_count = 0, pp_occurrence_count = 0\<rparr>"

definition default_spill_threshold :: nat where
  "default_spill_threshold = 1048576"

section \<open>\<open>open\<close>\<close>

definition magic :: bytes where
  "magic = [0x4d, 0x4f, 0x54, 0x49, 0x46, 0x50, 0x4f, 0x32]"

definition format_version :: u32 where
  "format_version = 6"

definition fixed_header_size :: u64 where
  "fixed_header_size = 88"

definition max_directory_block_size :: nat where
  "max_directory_block_size = 18 + 2 * 32 + (max_directory_block_entries - 1) * 5 + max_directory_block_entries * 60"

text \<open>Reads 64-bit words until one is missing; the words read so far are kept.\<close>
fun read_u64s :: "nat \<Rightarrow> ifstream \<Rightarrow> u64 list \<times> ifstream option" where
  "read_u64s 0 input = ([], Some input)"
| "read_u64s (Suc n) input =
     (case ifstream_read_le input of
        None \<Rightarrow> ([], None)
      | Some (word, input) \<Rightarrow> (case read_u64s n input of (words, rest) \<Rightarrow> (word # words, rest)))"

text \<open>
  The reads go straight into the members, so a header that breaks off in the middle leaves the
  members before the break overwritten. Words 4 and 8 are the local counts.
\<close>
definition assign_header :: "u64 list \<Rightarrow> position_postings \<Rightarrow> position_postings" where
  "assign_header words pp =
     (let member = (\<lambda>i old. if i < length words then words ! i else old) in
      pp\<lparr>pp_indexed_game_count := member 0 (pp_indexed_game_count pp),
         pp_occurrence_count := member 1 (pp_occurrence_count pp),
         pp_distinct_hash_count := member 2 (pp_distinct_hash_count pp),
         pp_metadata_offset := member 3 (pp_metadata_offset pp),
         pp_directory_offset := member 5 (pp_directory_offset pp),
         pp_directory_byte_length := member 6 (pp_directory_byte_length pp),
         pp_sparse_offset := member 7 (pp_sparse_offset pp)\<rparr>)"

definition read_header ::
  "ifstream \<Rightarrow> u64 \<Rightarrow> position_postings \<Rightarrow> (ifstream \<times> u64 \<times> u64) option \<times> position_postings" where
  "read_header input file_size pp =
     (if file_size < fixed_header_size then (None, pp)
      else case ifstream_read 8 input of
          (None, input) \<Rightarrow> (None, pp)
        | (Some file_magic, input) \<Rightarrow>
            (if file_magic \<noteq> magic then (None, pp)
             else case do { (version, input) \<leftarrow> ifstream_read_le input;
                            (header_size, input) \<leftarrow> ifstream_read_le input;
                            Some (version, header_size, input) } of
                None \<Rightarrow> (None, pp)
              | Some (version :: u32, header_size :: u32, input) \<Rightarrow>
                  (if version \<noteq> format_version \<or> ucast header_size \<noteq> fixed_header_size then (None, pp)
                   else case read_u64s 9 input of
                       (words, None) \<Rightarrow> (None, assign_header words pp)
                     | (words, Some input) \<Rightarrow> (Some (input, words ! 4, words ! 8), assign_header words pp))))"

text \<open>The section contiguity checks.\<close>
definition sections_contiguous :: "u64 \<Rightarrow> u64 \<Rightarrow> u64 \<Rightarrow> position_postings \<Rightarrow> bool" where
  "sections_contiguous file_size metadata_count sparse_count pp \<longleftrightarrow>
     metadata_count = pp_indexed_game_count pp \<and> \<not> pp_metadata_offset pp < fixed_header_size
     \<and> (checked_multiply metadata_count 10 \<bind> checked_add (pp_metadata_offset pp)) = Some (pp_directory_offset pp)
     \<and> checked_add (pp_directory_offset pp) (pp_directory_byte_length pp) = Some (pp_sparse_offset pp)
     \<and> (checked_multiply sparse_count 22 \<bind> checked_add (pp_sparse_offset pp)) = Some file_size
     \<and> representable_stream_offset (pp_metadata_offset pp) \<and> representable_stream_offset (pp_sparse_offset pp)"

definition read_metadata_record :: "ifstream \<Rightarrow> (metadata_record \<times> ifstream) option" where
  "read_metadata_record input =
     do { (raw_game_id :: u32, input) \<leftarrow> ifstream_read_le input;
          (encoded_result :: u8, input) \<leftarrow> ifstream_read_le input;
          (flags :: u8, input) \<leftarrow> ifstream_read_le input;
          (white_elo_bits :: u16, input) \<leftarrow> ifstream_read_le input;
          (black_elo_bits :: u16, input) \<leftarrow> ifstream_read_le input;
          (if raw_game_id = 0 \<or> encoded_result > 2 \<or> flags AND NOT 3 \<noteq> 0 then None
           else Some (\<lparr>mr_id = raw_game_id, mr_result = decode_result encoded_result,
                       mr_white_elo = (if flags AND 1 \<noteq> 0 then Some white_elo_bits else None),
                       mr_black_elo = (if flags AND 2 \<noteq> 0 then Some black_elo_bits else None)\<rparr>, input)) }"

text \<open>The table read so far, and the stream unless a record was refused.\<close>
fun read_metadata ::
  "nat \<Rightarrow> u32 option \<Rightarrow> metadata_record list \<Rightarrow> ifstream \<Rightarrow> metadata_record list \<times> ifstream option" where
  "read_metadata 0 previous table input = (table, Some input)"
| "read_metadata (Suc n) previous table input =
     (case read_metadata_record input of
        None \<Rightarrow> (table, None)
      | Some (record, input) \<Rightarrow>
          (if (case previous of None \<Rightarrow> False | Some p \<Rightarrow> p \<ge> mr_id record) then (table, None)
           else read_metadata n (Some (mr_id record)) (table @ [record]) input))"

definition read_sparse_record :: "u64 \<Rightarrow> ifstream \<Rightarrow> (sparse_entry \<times> ifstream) option" where
  "read_sparse_record expected_block_offset input =
     do { (first_hash :: u64, input) \<leftarrow> ifstream_read_le input;
          (block_offset :: u64, input) \<leftarrow> ifstream_read_le input;
          (block_byte_length :: u32, input) \<leftarrow> ifstream_read_le input;
          (entry_count :: u16, input) \<leftarrow> ifstream_read_le input;
          (if block_byte_length = 0 \<or> unat block_byte_length > max_directory_block_size \<or> entry_count = 0
              \<or> unat entry_count > max_directory_block_entries \<or> block_offset \<noteq> expected_block_offset
              \<or> \<not> representable_stream_offset block_offset then None
           else Some (\<lparr>se_first_hash = first_hash, se_block_offset = block_offset,
                       se_block_byte_length = block_byte_length, se_entry_count = entry_count\<rparr>, input)) }"

fun read_sparse ::
  "nat \<Rightarrow> u64 option \<Rightarrow> u64 \<Rightarrow> u64 \<Rightarrow> sparse_entry list \<Rightarrow> ifstream
     \<Rightarrow> sparse_entry list \<times> (u64 \<times> u64 \<times> ifstream) option" where
  "read_sparse 0 previous expected_block_offset total_count table input = (table, Some (expected_block_offset, total_count, input))"
| "read_sparse (Suc n) previous expected_block_offset total_count table input =
     (case read_sparse_record expected_block_offset input of
        None \<Rightarrow> (table, None)
      | Some (entry, input) \<Rightarrow>
          (if (case previous of None \<Rightarrow> False | Some p \<Rightarrow> p \<ge> se_first_hash entry) then (table, None)
           else case (checked_add expected_block_offset (ucast (se_block_byte_length entry)),
                      checked_add total_count (ucast (se_entry_count entry))) of
               (Some expected_block_offset, Some total_count) \<Rightarrow>
                 read_sparse n (Some (se_first_hash entry)) expected_block_offset total_count (table @ [entry]) input
             | _ \<Rightarrow> (table @ [entry], None)))"

text \<open>The checks across the entries of all directory blocks.\<close>
fun validate_entries ::
  "directory_block_entry list \<Rightarrow> u64 option \<Rightarrow> u64 \<Rightarrow> u64 \<Rightarrow> (u64 option \<times> u64 \<times> u64) option" where
  "validate_entries [] previous expected_posting_offset total_count = Some (previous, expected_posting_offset, total_count)"
| "validate_entries (entry # entries) previous expected_posting_offset total_count =
     (if (case previous of None \<Rightarrow> False | Some p \<Rightarrow> p \<ge> de_hash entry)
         \<or> de_posting_offset entry \<noteq> expected_posting_offset
         \<or> \<not> representable_stream_offset (de_posting_offset entry) then None
      else do { expected_posting_offset \<leftarrow> checked_add expected_posting_offset (de_posting_byte_length entry);
                total_count \<leftarrow> checked_add total_count (ucast (de_occurrence_count entry));
                validate_entries entries (Some (de_hash entry)) expected_posting_offset total_count })"

text \<open>Seeks to a directory block and reads it.\<close>
definition read_block :: "sparse_entry \<Rightarrow> ifstream \<Rightarrow> bytes option \<times> ifstream" where
  "read_block sparse input =
     ifstream_read (unat (se_block_byte_length sparse)) (ifstream_seekg (unat (se_block_offset sparse)) input)"

fun validate_blocks ::
  "sparse_entry list \<Rightarrow> u64 option \<Rightarrow> u64 \<Rightarrow> u64 \<Rightarrow> ifstream \<Rightarrow> (u64 \<times> u64) result" where
  "validate_blocks [] previous expected_posting_offset total_count input = Inr (expected_posting_offset, total_count)"
| "validate_blocks (sparse # rest) previous expected_posting_offset total_count input =
     (case read_block sparse (ifstream_clear input) of
        (None, input) \<Rightarrow> unexpected Io_Failure
      | (Some block, input) \<Rightarrow>
          (case decode_directory_block block of
             Inl err \<Rightarrow> Inl err
           | Inr entries \<Rightarrow>
               (if length entries \<noteq> unat (se_entry_count sparse) \<or> de_hash (hd entries) \<noteq> se_first_hash sparse
                then unexpected Schema_Mismatch
                else case validate_entries entries previous expected_posting_offset total_count of
                    None \<Rightarrow> unexpected Schema_Mismatch
                  | Some (previous, expected_posting_offset, total_count) \<Rightarrow>
                      validate_blocks rest previous expected_posting_offset total_count input)))"

definition postings_open :: "filesystem \<Rightarrow> position_postings \<Rightarrow> unit result \<times> position_postings" where
  "postings_open fs pp =
     (let pp = pp\<lparr>pp_is_open := False, pp_metadata := [], pp_sparse_directory := []\<rparr> in
      case (fs_file_size (pp_path pp) fs, ifstream_open (pp_path pp) fs) of
        (Some file_size, Some input) \<Rightarrow>
          (case read_header input file_size pp of
             (None, pp) \<Rightarrow> (unexpected Schema_Mismatch, pp)
           | (Some (input, metadata_count, sparse_count), pp) \<Rightarrow>
               (if \<not> sections_contiguous file_size metadata_count sparse_count pp
                then (unexpected Schema_Mismatch, pp)
                else case read_metadata (unat metadata_count) None []
                            (ifstream_seekg (unat (pp_metadata_offset pp)) input) of
                    (table, None) \<Rightarrow> (unexpected Schema_Mismatch, pp\<lparr>pp_metadata := table\<rparr>)
                  | (table, Some input) \<Rightarrow>
                      let pp = pp\<lparr>pp_metadata := table\<rparr> in
                      (case read_sparse (unat sparse_count) None (pp_directory_offset pp) 0 []
                              (ifstream_seekg (unat (pp_sparse_offset pp)) input) of
                         (table, None) \<Rightarrow> (unexpected Schema_Mismatch, pp\<lparr>pp_sparse_directory := table\<rparr>)
                       | (table, Some (expected_block_offset, total_sparse_entries, input)) \<Rightarrow>
                           let pp = pp\<lparr>pp_sparse_directory := table\<rparr> in
                           if expected_block_offset \<noteq> pp_sparse_offset pp
                              \<or> total_sparse_entries \<noteq> pp_distinct_hash_count pp
                           then (unexpected Schema_Mismatch, pp)
                           else case validate_blocks table None fixed_header_size 0 input of
                               Inl err \<Rightarrow> (Inl err, pp)
                             | Inr (expected_posting_offset, total_occurrences) \<Rightarrow>
                                 (if expected_posting_offset \<noteq> pp_metadata_offset pp
                                     \<or> total_occurrences \<noteq> pp_occurrence_count pp
                                  then (unexpected Schema_Mismatch, pp)
                                  else (Inr (), pp\<lparr>pp_is_open := True\<rparr>)))))
      | _ \<Rightarrow> (unexpected Io_Failure, pp))"

definition indexed_game_count :: "position_postings \<Rightarrow> u64" where
  "indexed_game_count pp = pp_indexed_game_count pp"

section \<open>Queries\<close>

text \<open>
  \<open>std::ranges::upper_bound\<close> and \<open>lower_bound\<close> on a sorted range, as the prefix of elements
  before the bound.
\<close>
definition find_sparse_block :: "sparse_entry list \<Rightarrow> u64 \<Rightarrow> sparse_entry option" where
  "find_sparse_block sparse_directory hash =
     (let before = takeWhile (\<lambda>entry. se_first_hash entry \<le> hash) sparse_directory in
      if before = [] then None else Some (last before))"

definition find_directory_block_entry ::
  "filesystem \<Rightarrow> path \<Rightarrow> sparse_entry list \<Rightarrow> u64 \<Rightarrow> directory_block_entry option result" where
  "find_directory_block_entry fs path sparse_directory hash =
     (case find_sparse_block sparse_directory hash of
        None \<Rightarrow> Inr None
      | Some block \<Rightarrow>
          (case ifstream_open path fs of
             None \<Rightarrow> unexpected Io_Failure
           | Some input \<Rightarrow>
               (case fst (read_block block input) of
                  None \<Rightarrow> unexpected Io_Failure
                | Some data \<Rightarrow>
                    (case decode_directory_block data of
                       Inl err \<Rightarrow> Inl err
                     | Inr entries \<Rightarrow>
                         (case dropWhile (\<lambda>entry. de_hash entry < hash) entries of
                            [] \<Rightarrow> Inr None
                          | entry # _ \<Rightarrow> Inr (if de_hash entry \<noteq> hash then None else Some entry))))))"

definition entry_summary :: "directory_block_entry \<Rightarrow> postings_summary" where
  "entry_summary entry = \<lparr>ps_occurrence_count = ucast (de_occurrence_count entry),
     ps_distinct_game_count = de_distinct_game_count entry, ps_min_ply = de_min_ply entry,
     ps_max_ply = de_max_ply entry\<rparr>"

definition postings_summary_of :: "filesystem \<Rightarrow> position_postings \<Rightarrow> u64 \<Rightarrow> postings_summary option result" where
  "postings_summary_of fs pp hash =
     (if \<not> pp_is_open pp then unexpected Invalid_Argument
      else case find_directory_block_entry fs (pp_path pp) (pp_sparse_directory pp) hash of
          Inl err \<Rightarrow> Inl err
        | Inr entry \<Rightarrow> Inr (map_option entry_summary entry))"

text \<open>Opens the artifact again and reads the posting block of an entry.\<close>
definition read_posting_block :: "filesystem \<Rightarrow> path \<Rightarrow> directory_block_entry \<Rightarrow> bytes option" where
  "read_posting_block fs path entry =
     do { input \<leftarrow> ifstream_open path fs;
          fst (ifstream_read (unat (de_posting_byte_length entry))
                 (ifstream_seekg (unat (de_posting_offset entry)) input)) }"

definition find_metadata :: "metadata_record list \<Rightarrow> u32 \<Rightarrow> metadata_record option" where
  "find_metadata metadata game_key =
     (case dropWhile (\<lambda>record. mr_id record < game_key) metadata of
        [] \<Rightarrow> None
      | record # _ \<Rightarrow> if mr_id record \<noteq> game_key then None else Some record)"

definition distinct_game_ids :: "filesystem \<Rightarrow> position_postings \<Rightarrow> u64 \<Rightarrow> u32 list result" where
  "distinct_game_ids fs pp hash =
     (if \<not> pp_is_open pp then unexpected Invalid_Argument
      else case find_directory_block_entry fs (pp_path pp) (pp_sparse_directory pp) hash of
          Inl err \<Rightarrow> Inl err
        | Inr None \<Rightarrow> Inr []
        | Inr (Some entry) \<Rightarrow>
            (case read_posting_block fs (pp_path pp) entry of
               None \<Rightarrow> unexpected Io_Failure
             | Some data \<Rightarrow>
                 (case decode_posting_block_game_ids data entry of
                    Inl err \<Rightarrow> Inl err
                  | Inr game_ids \<Rightarrow>
                      (if \<exists>game_key\<in>set game_ids. find_metadata (pp_metadata pp) game_key = None
                       then unexpected Schema_Mismatch else Inr game_ids))))"

definition distinct_game_ids_page ::
  "filesystem \<Rightarrow> position_postings \<Rightarrow> u64 \<Rightarrow> nat \<Rightarrow> nat \<Rightarrow> u32 list result" where
  "distinct_game_ids_page fs pp hash limit offset =
     (case distinct_game_ids fs pp hash of
        Inl err \<Rightarrow> Inl err
      | Inr game_ids \<Rightarrow>
          (if offset \<ge> length game_ids then Inr []
           else let remaining = length game_ids - offset in
             Inr (take (if limit = 0 then remaining else min limit remaining) (drop offset game_ids))))"

text \<open>The loop that joins decoded occurrences with the metadata table.\<close>
fun join_metadata :: "metadata_record list \<Rightarrow> decoded_occurrence list \<Rightarrow> position_match list result" where
  "join_metadata metadata [] = Inr []"
| "join_metadata metadata ((game_key, ply) # occurrences) =
     (case find_metadata metadata game_key of
        None \<Rightarrow> unexpected Schema_Mismatch
      | Some record \<Rightarrow>
          map_sum id (\<lambda>matches. \<lparr>pm_game_id = game_key, pm_ply = ply, pm_result = mr_result record,
                                pm_white_elo = mr_white_elo record, pm_black_elo = mr_black_elo record\<rparr> # matches)
            (join_metadata metadata occurrences))"

definition first_occurrences ::
  "filesystem \<Rightarrow> position_postings \<Rightarrow> u64 \<Rightarrow> u32 list \<Rightarrow> position_match list result" where
  "first_occurrences fs pp hash requested_game_ids =
     (if \<not> pp_is_open pp then unexpected Invalid_Argument
      else if requested_game_ids = [] then Inr []
      else case find_directory_block_entry fs (pp_path pp) (pp_sparse_directory pp) hash of
          Inl err \<Rightarrow> Inl err
        | Inr None \<Rightarrow> Inr []
        | Inr (Some entry) \<Rightarrow>
            (case read_posting_block fs (pp_path pp) entry of
               None \<Rightarrow> unexpected Io_Failure
             | Some data \<Rightarrow>
                 (case decode_posting_block_first_occurrences data entry requested_game_ids of
                    Inl err \<Rightarrow> Inl err
                  | Inr decoded \<Rightarrow> join_metadata (pp_metadata pp) decoded)))"

definition occurrences ::
  "filesystem \<Rightarrow> position_postings \<Rightarrow> u64 \<Rightarrow> nat \<Rightarrow> nat \<Rightarrow> position_match list result" where
  "occurrences fs pp hash limit offset =
     (if \<not> pp_is_open pp then unexpected Invalid_Argument
      else case find_directory_block_entry fs (pp_path pp) (pp_sparse_directory pp) hash of
          Inl err \<Rightarrow> Inl err
        | Inr None \<Rightarrow> Inr []
        | Inr (Some entry) \<Rightarrow>
            (case read_posting_block fs (pp_path pp) entry of
               None \<Rightarrow> unexpected Io_Failure
             | Some data \<Rightarrow>
                 (case decode_posting_block_window data entry limit offset of
                    Inl err \<Rightarrow> Inl err
                  | Inr decoded \<Rightarrow> join_metadata (pp_metadata pp) decoded)))"

text \<open>The visitor threads a state of the caller and may refuse an entry.\<close>
fun visit_entries ::
  "(u64 \<Rightarrow> postings_summary \<Rightarrow> 's \<Rightarrow> 's result) \<Rightarrow> directory_block_entry list \<Rightarrow> 's \<Rightarrow> 's result" where
  "visit_entries visitor [] s = Inr s"
| "visit_entries visitor (entry # entries) s =
     (case visitor (de_hash entry) (entry_summary entry) s of
        Inl err \<Rightarrow> Inl err
      | Inr s \<Rightarrow> visit_entries visitor entries s)"

fun for_each_summary_loop ::
  "(u64 \<Rightarrow> postings_summary \<Rightarrow> 's \<Rightarrow> 's result) \<Rightarrow> sparse_entry list \<Rightarrow> ifstream \<Rightarrow> 's \<Rightarrow> 's result" where
  "for_each_summary_loop visitor [] input s = Inr s"
| "for_each_summary_loop visitor (sparse # rest) input s =
     (case read_block sparse (ifstream_clear input) of
        (None, input) \<Rightarrow> unexpected Io_Failure
      | (Some block, input) \<Rightarrow>
          (case decode_directory_block block of
             Inl err \<Rightarrow> Inl err
           | Inr entries \<Rightarrow>
               (case visit_entries visitor entries s of
                  Inl err \<Rightarrow> Inl err
                | Inr s \<Rightarrow> for_each_summary_loop visitor rest input s)))"

definition for_each_summary ::
  "filesystem \<Rightarrow> position_postings \<Rightarrow> (u64 \<Rightarrow> postings_summary \<Rightarrow> 's \<Rightarrow> 's result) \<Rightarrow> 's \<Rightarrow> 's result" where
  "for_each_summary fs pp visitor s =
     (if \<not> pp_is_open pp then unexpected Invalid_Argument
      else case ifstream_open (pp_path pp) fs of
          None \<Rightarrow> unexpected Io_Failure
        | Some input \<Rightarrow> for_each_summary_loop visitor (pp_sparse_directory pp) input s)"

end
