(* ===== verification/Postings_Artifact.thy ===== *)
theory Postings_Artifact
  imports Postings_Reader
begin

text \<open>
  The contents of a finished \<open>position_postings\<close> artifact and how they are laid out in the
  file: an abstract index is a list of position hashes with the game groups of each, and a
  metadata table; \<open>artifact\<close> is its image in the file. The lemmas show that
  \<open>postings_open\<close> accepts such a file and that every query then answers from the
  abstract index.
\<close>

section \<open>Layout\<close>

type_synonym index_content = "(u64 \<times> (u32 \<times> u16 list) list) list"
type_synonym metadata_table = "(u32 \<times> game_metadata) list"

definition postings_bytes :: "index_content \<Rightarrow> bytes" where
  "postings_bytes content = concat (map (\<lambda>(hash, groups). encode_groups None groups) content)"

definition dir_entry :: "nat \<Rightarrow> u64 \<times> (u32 \<times> u16 list) list \<Rightarrow> directory_entry" where
  "dir_entry offset item =
     (case item of (hash, groups) \<Rightarrow>
        \<lparr>dr_hash = hash, dr_offset = of_nat offset, dr_byte_length = of_nat (length (encode_groups None groups)),
         dr_occurrence_count = of_nat (length (group_occurrences groups)),
         dr_distinct_game_count = of_nat (length groups),
         dr_min_ply = fold min (group_plies groups) 0xffff, dr_max_ply = fold max (group_plies groups) 0\<rparr>)"

fun dir_entries :: "nat \<Rightarrow> index_content \<Rightarrow> directory_entry list" where
  "dir_entries offset [] = []"
| "dir_entries offset (item # content) =
     dir_entry offset item # dir_entries (offset + length (encode_groups None (snd item))) content"

definition metadata_flags :: "game_metadata \<Rightarrow> u8" where
  "metadata_flags m =
     (if gm_white_elo m \<noteq> None then 1 else 0) OR (if gm_black_elo m \<noteq> None then 2 else 0)"

definition value_or_zero :: "u16 option \<Rightarrow> u16" where
  "value_or_zero elo = (case elo of None \<Rightarrow> 0 | Some e \<Rightarrow> e)"

definition encode_metadata :: "u32 \<times> game_metadata \<Rightarrow> bytes" where
  "encode_metadata item =
     (case item of (game_key, m) \<Rightarrow>
        write_little_endian game_key @ write_little_endian (encode_result (gm_result m))
        @ write_little_endian (metadata_flags m) @ write_little_endian (value_or_zero (gm_white_elo m))
        @ write_little_endian (value_or_zero (gm_black_elo m)))"

definition metadata_bytes :: "metadata_table \<Rightarrow> bytes" where
  "metadata_bytes table = concat (map encode_metadata table)"

definition directory_bytes :: "directory_entry list list \<Rightarrow> bytes" where
  "directory_bytes blocks = concat (map encode_directory_block blocks)"

definition sparse_record :: "nat \<Rightarrow> directory_entry list \<Rightarrow> sparse_entry" where
  "sparse_record offset block = \<lparr>se_first_hash = dr_hash (hd block), se_block_offset = of_nat offset,
     se_block_byte_length = of_nat (length (encode_directory_block block)), se_entry_count = of_nat (length block)\<rparr>"

fun sparse_records :: "nat \<Rightarrow> directory_entry list list \<Rightarrow> sparse_entry list" where
  "sparse_records offset [] = []"
| "sparse_records offset (block # blocks) =
     sparse_record offset block # sparse_records (offset + length (encode_directory_block block)) blocks"

definition encode_sparse :: "sparse_entry \<Rightarrow> bytes" where
  "encode_sparse e = write_little_endian (se_first_hash e) @ write_little_endian (se_block_offset e)
     @ write_little_endian (se_block_byte_length e) @ write_little_endian (se_entry_count e)"

definition content_occurrences :: "index_content \<Rightarrow> nat" where
  "content_occurrences content = sum_list (map (\<lambda>(hash, groups). length (group_occurrences groups)) content)"

definition metadata_start :: "index_content \<Rightarrow> nat" where
  "metadata_start content = 88 + length (postings_bytes content)"

definition directory_start :: "index_content \<Rightarrow> metadata_table \<Rightarrow> nat" where
  "directory_start content table = metadata_start content + length (metadata_bytes table)"

definition sparse_start :: "index_content \<Rightarrow> metadata_table \<Rightarrow> directory_entry list list \<Rightarrow> nat" where
  "sparse_start content table blocks = directory_start content table + length (directory_bytes blocks)"

definition header_words :: "index_content \<Rightarrow> metadata_table \<Rightarrow> directory_entry list list \<Rightarrow> u64 list" where
  "header_words content table blocks =
     [of_nat (length table), of_nat (content_occurrences content), of_nat (length content),
      of_nat (metadata_start content), of_nat (length table), of_nat (directory_start content table),
      of_nat (length (directory_bytes blocks)), of_nat (sparse_start content table blocks), of_nat (length blocks)]"

definition header_bytes :: "u64 list \<Rightarrow> bytes" where
  "header_bytes words = magic @ write_little_endian format_version @ write_little_endian (88 :: u32)
     @ concat (map write_little_endian words)"

definition artifact :: "index_content \<Rightarrow> metadata_table \<Rightarrow> directory_entry list list \<Rightarrow> bytes" where
  "artifact content table blocks =
     header_bytes (header_words content table blocks) @ postings_bytes content @ metadata_bytes table
     @ directory_bytes blocks @ concat (map encode_sparse (sparse_records (directory_start content table) blocks))"

definition wf_content :: "index_content \<Rightarrow> bool" where
  "wf_content content \<longleftrightarrow> sorted_wrt (<) (map fst content)
     \<and> (\<forall>(hash, groups) \<in> set content. groups \<noteq> [] \<and> wf_groups groups \<and> length (group_occurrences groups) < 2 ^ 32)"

definition wf_table :: "metadata_table \<Rightarrow> bool" where
  "wf_table table \<longleftrightarrow> sorted_wrt (<) (map fst table)
     \<and> (\<forall>(game_key, m) \<in> set table. game_key \<noteq> 0 \<and> valid_result (gm_result m))"

text \<open>The blocks partition the directory entries into chunks of 1 to 256.\<close>
definition wf_blocks :: "index_content \<Rightarrow> directory_entry list list \<Rightarrow> bool" where
  "wf_blocks content blocks \<longleftrightarrow> concat blocks = dir_entries 88 content
     \<and> (\<forall>block\<in>set blocks. block \<noteq> [] \<and> length block \<le> max_directory_block_entries)"

definition wf_artifact :: "index_content \<Rightarrow> metadata_table \<Rightarrow> directory_entry list list \<Rightarrow> bool" where
  "wf_artifact content table blocks \<longleftrightarrow> wf_content content \<and> wf_table table \<and> wf_blocks content blocks
     \<and> (\<forall>(hash, groups) \<in> set content. fst ` set groups \<subseteq> fst ` set table)
     \<and> length (artifact content table blocks) < 2 ^ 63"

section \<open>Reading at known positions\<close>

text \<open>A good input stream is its data and position.\<close>
abbreviation stream_at :: "bytes \<Rightarrow> nat \<Rightarrow> ifstream" where
  "stream_at data pos \<equiv> \<lparr>is_data = data, is_pos = pos, is_fail = False, is_eof = False\<rparr>"

lemma stream_at_simps [simp]:
  "is_good (stream_at data pos)" "ifstream_clear (stream_at data pos) = stream_at data pos"
  "ifstream_seekg q (stream_at data pos) = stream_at data q"
  by (simp_all add: is_good_def ifstream_clear_def ifstream_seekg_def)

lemma ifstream_open_stream_at:
  "fs_files fs p = Some data \<Longrightarrow> \<not> fs_fault fs (Open_Read p) \<Longrightarrow> ifstream_open p fs = Some (stream_at data 0)"
  by (simp add: ifstream_open_def)

lemma ifstream_read_le_at:
  assumes "located data pos (write_little_endian (v :: 'a::len word) @ rest)" and "8 dvd LENGTH('a)" "LENGTH('a) \<le> 64"
  shows "ifstream_read_le (stream_at data pos) = Some (v, stream_at data (pos + LENGTH('a) div 8))"
  using located_little_endian [OF assms] by (simp add: ifstream_read_le_good)

lemma ifstream_read_at:
  assumes "located data pos (bs @ rest)"
  shows "ifstream_read (length bs) (stream_at data pos) = (Some bs, stream_at data (pos + length bs))"
  using located_length [OF assms] located_take [OF assms] by (simp add: ifstream_read_def)

lemma read_u64s_at:
  assumes "located data pos (concat (map write_little_endian words) @ rest)"
  shows "read_u64s (length words) (stream_at data pos) = (words, Some (stream_at data (pos + 8 * length words)))"
  using assms
proof (induction words arbitrary: pos)
  case (Cons w words)
  have l: "located data pos (write_little_endian w @ concat (map write_little_endian words) @ rest)"
    using Cons.prems by simp
  show ?case
    using Cons.IH [of "pos + 8"] located_append [OF l] ifstream_read_le_at [OF l] by simp
qed simp

section \<open>Opening an artifact\<close>

definition metadata_of :: "u32 \<times> game_metadata \<Rightarrow> metadata_record" where
  "metadata_of item = (case item of (game_key, m) \<Rightarrow>
     \<lparr>mr_id = game_key, mr_result = gm_result m, mr_white_elo = gm_white_elo m, mr_black_elo = gm_black_elo m\<rparr>)"

lemma length_encode_metadata [simp]: "length (encode_metadata item) = 10"
  by (simp add: encode_metadata_def case_prod_unfold)

lemma length_metadata_bytes: "length (metadata_bytes table) = 10 * length table"
  by (simp add: metadata_bytes_def length_concat comp_def sum_list_triv)

lemma metadata_flags_simps:
  "metadata_flags m AND NOT 3 = 0" "metadata_flags m AND 1 \<noteq> 0 \<longleftrightarrow> gm_white_elo m \<noteq> None"
  "metadata_flags m AND 2 \<noteq> 0 \<longleftrightarrow> gm_black_elo m \<noteq> None"
  by (simp_all add: metadata_flags_def)

lemma encode_result_le: "\<not> encode_result r > 2"
  by (simp add: encode_result_def)

lemma read_metadata_record_at:
  assumes "located data pos (encode_metadata (g, m) @ rest)" and "g \<noteq> 0" and "valid_result (gm_result m)"
  shows "read_metadata_record (stream_at data pos) = Some (metadata_of (g, m), stream_at data (pos + 10))"
proof -
  have l0: "located data pos (write_little_endian g @ write_little_endian (encode_result (gm_result m))
        @ write_little_endian (metadata_flags m) @ write_little_endian (value_or_zero (gm_white_elo m))
        @ write_little_endian (value_or_zero (gm_black_elo m)) @ rest)"
    using assms(1) by (simp add: encode_metadata_def)
  note l1 = located_append [OF l0, simplified] and r0 = ifstream_read_le_at [OF l0, simplified]
  note l2 = located_append [OF l1, simplified] and r1 = ifstream_read_le_at [OF l1, simplified]
  note l3 = located_append [OF l2, simplified] and r2 = ifstream_read_le_at [OF l2, simplified]
  note l4 = located_append [OF l3, simplified] and r3 = ifstream_read_le_at [OF l3, simplified]
  note r4 = ifstream_read_le_at [OF l4, simplified]
  have "(if metadata_flags m AND 1 \<noteq> 0 then Some (value_or_zero (gm_white_elo m)) else None) = gm_white_elo m"
    "(if metadata_flags m AND 2 \<noteq> 0 then Some (value_or_zero (gm_black_elo m)) else None) = gm_black_elo m"
    unfolding metadata_flags_simps by (auto simp: value_or_zero_def)
  then show ?thesis
    unfolding read_metadata_record_def
    using assms(2,3) encode_result_le
    by (simp add: r0 r1 r2 r3 r4 metadata_flags_simps(1) [simplified] metadata_of_def decode_encode_result)
qed

lemma read_metadata_at:
  assumes "located data pos (metadata_bytes table @ rest)" and "wf_table table"
    and "table \<noteq> [] \<longrightarrow> (case previous of None \<Rightarrow> True | Some p \<Rightarrow> p < fst (hd table))"
  shows "read_metadata (length table) previous acc (stream_at data pos)
     = (acc @ map metadata_of table, Some (stream_at data (pos + 10 * length table)))"
  using assms
proof (induction table arbitrary: pos previous acc)
  case Nil
  then show ?case by simp
next
  case (Cons item table)
  obtain g m where item: "item = (g, m)" by force
  have l: "located data pos (encode_metadata (g, m) @ metadata_bytes table @ rest)"
    using Cons.prems(1) by (simp add: metadata_bytes_def item)
  have wf: "g \<noteq> 0" "valid_result (gm_result m)" "wf_table table"
    using Cons.prems(2) by (auto simp: wf_table_def item)
  have nxt: "table \<noteq> [] \<longrightarrow> (case Some g of None \<Rightarrow> True | Some p \<Rightarrow> p < fst (hd table))"
    using Cons.prems(2) by (cases table) (auto simp: wf_table_def item)
  have "read_metadata (length table) (Some g) (acc @ [metadata_of (g, m)]) (stream_at data (pos + 10))
      = (acc @ [metadata_of (g, m)] @ map metadata_of table, Some (stream_at data (pos + 10 + 10 * length table)))"
    using Cons.IH [OF _ wf(3) nxt] located_append [OF l] by simp
  then show ?case
    using read_metadata_record_at [OF l wf(1,2)] Cons.prems(3)
    by (cases previous) (auto simp: item metadata_of_def not_le)
qed

lemma length_encode_sparse [simp]: "length (encode_sparse e) = 22"
  by (simp add: encode_sparse_def)

lemma length_hash_high_bytes: "length (hash_high_bytes d) \<le> 10"
  using length_uleb128_le by (simp add: hash_high_bytes_def)

lemma length_entry_field_bytes: "length (entry_field_bytes e) \<le> 50"
proof -
  have "length (uleb128 a) + length (uleb128 b) + length (uleb128 c) + length (uleb128 d) + length (uleb128 f) \<le> 50"
    for a b c d f
    using length_uleb128_le [of a] length_uleb128_le [of b] length_uleb128_le [of c]
      length_uleb128_le [of d] length_uleb128_le [of f] by linarith
  from this [of "dr_byte_length e" "ucast (dr_distinct_game_count e)" "dr_occurrence_count e"
      "ucast (dr_min_ply e)" "ucast (dr_max_ply e)"] show ?thesis
    by (simp add: entry_field_bytes_def)
qed

lemma length_concat_le: "\<forall>x\<in>set xs. length (f x) \<le> k \<Longrightarrow> length (concat (map f xs)) \<le> k * length xs"
  by (induction xs) auto

lemma length_encode_directory_block:
  assumes "block \<noteq> []" and "length block \<le> max_directory_block_entries"
  shows "0 < length (encode_directory_block block)"
    and "length (encode_directory_block block) \<le> max_directory_block_size"
proof -
  have n: "0 < length block" "length block \<le> 256" using assms by (simp_all add: max_directory_block_entries_def)
  have "length (concat (map hash_high_bytes (hash_deltas block))) \<le> 10 * (length block - 1)"
    using length_concat_le [of "hash_deltas block" hash_high_bytes 10] length_hash_high_bytes by simp
  moreover have "length (concat (map entry_field_bytes block)) \<le> 50 * length block"
    using length_concat_le [of block entry_field_bytes 50] length_entry_field_bytes by simp
  moreover have "length (concat (map (le_loop 5) (hash_deltas block))) = 5 * (length block - 1)"
    by (simp add: length_concat comp_def sum_list_triv)
  moreover have "(length block - 1 + 7) div 8 \<le> 32" "(length block + 7) div 8 \<le> 32"
    using n by (auto intro!: less_Suc_eq_le [THEN iffD1] less_mult_imp_div_less)
  ultimately show "length (encode_directory_block block) \<le> max_directory_block_size"
    using n by (simp add: encode_directory_block_def hash_exception_bitmap_def occurrence_exception_bitmap_def
        max_directory_block_size_def max_directory_block_entries_def)
  show "0 < length (encode_directory_block block)" by (simp add: encode_directory_block_def)
qed

lemma length_directory_bytes_Cons [simp]:
  "length (directory_bytes (block # blocks)) = length (encode_directory_block block) + length (directory_bytes blocks)"
  by (simp add: directory_bytes_def)

lemma directory_bytes_Nil [simp]: "directory_bytes [] = []"
  by (simp add: directory_bytes_def)

lemma sparse_record_word:
  assumes "block \<noteq> []" and "length block \<le> max_directory_block_entries"
  shows "unat (se_block_byte_length (sparse_record off block)) = length (encode_directory_block block)"
    and "unat (se_entry_count (sparse_record off block)) = length block"
  using length_encode_directory_block [OF assms] assms(2)
  by (auto simp: sparse_record_def max_directory_block_entries_def max_directory_block_size_def
      intro!: unat_of_nat_less)

lemma unat_of_nat_offset: "n < 2 ^ 63 \<Longrightarrow> unat (of_nat n :: u64) = n"
  by (rule unat_of_nat_less) simp

lemma representable_of_nat: "n < 2 ^ 63 \<Longrightarrow> representable_stream_offset (of_nat n)"
  using unat_of_nat_offset [of n] by (simp add: representable_stream_offset_def word_le_nat_alt)

lemma checked_add_of_nat: "a + b < 2 ^ 64 \<Longrightarrow> checked_add (of_nat a) (of_nat b) = Some (of_nat (a + b))"
  using unat_of_nat_less [of a, where 'a = 64] unat_of_nat_less [of b, where 'a = 64]
    unat_of_nat_less [of "a + b", where 'a = 64]
  by (simp add: checked_add_Some del: of_nat_add)

lemma checked_multiply_of_nat: "a * b < 2 ^ 64 \<Longrightarrow> a < 2 ^ 64 \<Longrightarrow> b < 2 ^ 64 \<Longrightarrow>
    checked_multiply (of_nat a) (of_nat b) = Some (of_nat (a * b))"
  using unat_of_nat_less [of a, where 'a = 64] unat_of_nat_less [of b, where 'a = 64]
    unat_of_nat_less [of "a * b", where 'a = 64]
  by (simp add: checked_multiply_Some del: of_nat_mult)

lemma ucast_eq_of_nat: "unat (w :: 'a::len word) = n \<Longrightarrow> (ucast w :: 'b::len word) = of_nat n"
  by auto

lemma read_sparse_record_at:
  assumes "located data pos (encode_sparse (sparse_record off block) @ rest)" and "block \<noteq> []"
    and "length block \<le> max_directory_block_entries" and "off < 2 ^ 63"
  shows "read_sparse_record (of_nat off) (stream_at data pos) = Some (sparse_record off block, stream_at data (pos + 22))"
proof -
  let ?e = "sparse_record off block"
  have l0: "located data pos (write_little_endian (se_first_hash ?e) @ write_little_endian (se_block_offset ?e)
     @ write_little_endian (se_block_byte_length ?e) @ write_little_endian (se_entry_count ?e) @ rest)"
    using assms(1) by (simp add: encode_sparse_def)
  note l1 = located_append [OF l0, simplified] and r0 = ifstream_read_le_at [OF l0, simplified]
  note l2 = located_append [OF l1, simplified] and r1 = ifstream_read_le_at [OF l1, simplified]
  note l3 = located_append [OF l2, simplified] and r2 = ifstream_read_le_at [OF l2, simplified]
  note r3 = ifstream_read_le_at [OF l3, simplified]
  note w = sparse_record_word [OF assms(2,3), of off] and len = length_encode_directory_block [OF assms(2,3)]
  have "se_block_byte_length ?e \<noteq> 0" "se_entry_count ?e \<noteq> 0"
    using w len(1) assms(2) by (metis unat_0 less_irrefl, metis unat_0 length_0_conv)
  then show ?thesis
    unfolding read_sparse_record_def
    using w len(2) assms(3) representable_of_nat [OF assms(4)]
    by (simp add: r0 r1 r2 r3) (simp add: sparse_record_def)
qed

lemma read_sparse_at:
  assumes "located data pos (concat (map encode_sparse (sparse_records off blocks)) @ rest)"
    and "\<forall>block\<in>set blocks. block \<noteq> [] \<and> length block \<le> max_directory_block_entries"
    and "sorted_wrt (<) (map (dr_hash \<circ> hd) blocks)"
    and "off + length (directory_bytes blocks) < 2 ^ 63" and "n + length (concat blocks) < 2 ^ 63"
    and "blocks \<noteq> [] \<longrightarrow> (case previous of None \<Rightarrow> True | Some p \<Rightarrow> p < dr_hash (hd (hd blocks)))"
  shows "read_sparse (length blocks) previous (of_nat off) (of_nat n) acc (stream_at data pos)
     = (acc @ sparse_records off blocks,
        Some (of_nat (off + length (directory_bytes blocks)), of_nat (n + length (concat blocks)),
              stream_at data (pos + 22 * length blocks)))"
  using assms
proof (induction blocks arbitrary: pos off n previous acc)
  case Nil
  then show ?case by simp
next
  case (Cons b blocks)
  let ?len = "length (encode_directory_block b)" and ?e = "sparse_record off b"
  have l: "located data pos (encode_sparse ?e @ concat (map encode_sparse (sparse_records (off + ?len) blocks)) @ rest)"
    using Cons.prems(1) by simp
  have b: "b \<noteq> []" "length b \<le> max_directory_block_entries" using Cons.prems(2) by simp_all
  have rd: "read_sparse_record (of_nat off) (stream_at data pos) = Some (?e, stream_at data (pos + 22))"
    by (rule read_sparse_record_at [OF l b]) (use Cons.prems(4) in simp)
  have w: "(ucast (se_block_byte_length ?e) :: u64) = of_nat ?len" "(ucast (se_entry_count ?e) :: u64) = of_nat (length b)"
    using sparse_record_word [OF b, of off] by (auto intro!: ucast_eq_of_nat)
  have a: "checked_add (of_nat off) (of_nat ?len) = Some (of_nat (off + ?len))"
    "checked_add (of_nat n) (of_nat (length b)) = Some (of_nat (n + length b))"
    using Cons.prems(4,5) by (auto intro!: checked_add_of_nat simp del: of_nat_add)
  have nxt: "blocks \<noteq> [] \<longrightarrow> (case Some (dr_hash (hd b)) of None \<Rightarrow> True | Some p \<Rightarrow> p < dr_hash (hd (hd blocks)))"
    using Cons.prems(3) by (cases blocks) auto
  have "read_sparse (length blocks) (Some (dr_hash (hd b))) (of_nat (off + ?len)) (of_nat (n + length b)) (acc @ [?e])
       (stream_at data (pos + 22))
     = ((acc @ [?e]) @ sparse_records (off + ?len) blocks,
        Some (of_nat (off + ?len + length (directory_bytes blocks)), of_nat (n + length b + length (concat blocks)),
              stream_at data (pos + 22 + 22 * length blocks)))"
    by (rule Cons.IH)
      (use located_append [OF l] Cons.prems(2-5) nxt in \<open>simp_all add: directory_bytes_def add.assoc\<close>)
  moreover have "\<not> (case previous of None \<Rightarrow> False | Some p \<Rightarrow> p \<ge> se_first_hash ?e)"
    using Cons.prems(6) by (cases previous) (auto simp: sparse_record_def not_le)
  moreover have "se_first_hash ?e = dr_hash (hd b)" by (simp add: sparse_record_def)
  ultimately show ?case by (simp add: rd w a add.assoc del: of_nat_add)
qed

lemma validate_entries_append:
  "validate_entries (xs @ ys) previous off n =
     validate_entries xs previous off n \<bind> (\<lambda>(previous, off, n). validate_entries ys previous off n)"
  by (induction xs arbitrary: previous off n) (auto split: Option.bind_splits)

lemma read_block_at:
  assumes "located data off (encode_directory_block block @ rest)" and "off < 2 ^ 63"
    and "block \<noteq> []" and "length block \<le> max_directory_block_entries"
  shows "read_block (sparse_record off block) (stream_at data pos)
     = (Some (encode_directory_block block), stream_at data (off + length (encode_directory_block block)))"
  using ifstream_read_at [OF assms(1)] sparse_record_word [OF assms(3,4), of off] unat_of_nat_offset [OF assms(2)]
  by (simp add: read_block_def) (simp add: sparse_record_def)

lemma chained_append: "chained (xs @ ys) \<Longrightarrow> chained xs \<and> chained ys"
proof (induction xs)
  case (Cons e es)
  then show ?case by (cases es; cases ys) auto
qed simp

lemma chained_concat: "chained (concat blocks) \<Longrightarrow> b \<in> set blocks \<Longrightarrow> chained b"
  by (induction blocks) (auto dest: chained_append)

text \<open>Blocks whose directory entries can be read back.\<close>
definition readable_blocks :: "directory_entry list list \<Rightarrow> bool" where
  "readable_blocks blocks \<longleftrightarrow> chained (concat blocks) \<and> (\<forall>e\<in>set (concat blocks). wf_entry e)
     \<and> (\<forall>block\<in>set blocks. block \<noteq> [] \<and> length block \<le> max_directory_block_entries)"

lemma readable_blocks_Cons:
  assumes "readable_blocks (block # blocks)"
  shows "decode_directory_block (encode_directory_block block) = Inr (map block_entry block)"
    and "block \<noteq> []" and "length block \<le> max_directory_block_entries" and "readable_blocks blocks"
  using assms chained_append [of block "concat blocks"] chained_concat [of "block # blocks" block]
  by (auto simp: readable_blocks_def intro!: decode_directory_block_entries)

lemma readable_blocks_append: "readable_blocks (xs @ ys) \<Longrightarrow> readable_blocks ys"
  using chained_append [of "concat xs" "concat ys"] by (simp add: readable_blocks_def)

lemma validate_blocks_at:
  assumes "located data off (directory_bytes blocks @ rest)" and "off + length (directory_bytes blocks) < 2 ^ 63"
    and "readable_blocks blocks"
  shows "validate_blocks (sparse_records off blocks) previous expected n (stream_at data pos) =
     (case validate_entries (map block_entry (concat blocks)) previous expected n of
        None \<Rightarrow> unexpected Schema_Mismatch
      | Some (_, expected, n) \<Rightarrow> Inr (expected, n))"
  using assms
proof (induction blocks arbitrary: off previous expected n pos)
  case Nil
  then show ?case by simp
next
  case (Cons b blocks)
  let ?len = "length (encode_directory_block b)"
  note b = readable_blocks_Cons [OF Cons.prems(3)]
  have l: "located data off (encode_directory_block b @ directory_bytes blocks @ rest)"
    using Cons.prems(1) by (simp add: directory_bytes_def)
  have rd: "read_block (sparse_record off b) (stream_at data pos) = (Some (encode_directory_block b), stream_at data (off + ?len))"
    by (rule read_block_at [OF l _ b(2,3)]) (use Cons.prems(2) in simp)
  have IH: "validate_blocks (sparse_records (off + ?len) blocks) previous expected n (stream_at data (off + ?len)) =
     (case validate_entries (map block_entry (concat blocks)) previous expected n of
        None \<Rightarrow> unexpected Schema_Mismatch | Some (_, expected, n) \<Rightarrow> Inr (expected, n))" for previous expected n
    by (rule Cons.IH [OF located_append [OF l] _ b(4)]) (use Cons.prems(2) in simp)
  have hd: "de_hash (hd (map block_entry b)) = se_first_hash (sparse_record off b)"
    "length (map block_entry b) = unat (se_entry_count (sparse_record off b))"
    using b(2) sparse_record_word [OF b(2,3), of off] by (cases b; simp add: block_entry_def sparse_record_def)+
  show ?case
    using hd by (auto simp: rd b(1) IH validate_entries_append split: option.splits)
qed

section \<open>The directory of a well-formed index\<close>

lemma length_ply_delta_bytes: "length plies \<le> length (ply_delta_bytes previous plies)"
proof (induction plies arbitrary: previous)
  case (Cons p plies)
  show ?case
    using Cons.IH [of p] length_uleb128_pos [of "word_of_int (uint p - uint previous)"] by simp
qed simp

lemma length_encode_group: "Suc (length plies) \<le> length (encode_group previous (g, plies))"
proof -
  have "1 + 1 + 1 + length (tl plies) \<le> length (encode_group previous (g, plies))"
    unfolding encode_group_def prod.case length_append
    using length_ply_delta_bytes [of "tl plies" "hd plies"] length_uleb128_pos [of "of_nat (length plies)"]
      length_uleb128_pos [of "ucast (hd plies)"]
      length_uleb128_pos [of "ucast (case previous of None \<Rightarrow> g | Some p \<Rightarrow> g - p)"] by linarith
  then show ?thesis by simp
qed

lemma length_encode_groups: "length (group_occurrences groups) \<le> length (encode_groups previous groups)"
proof (induction groups arbitrary: previous)
  case (Cons item groups)
  obtain g plies where "item = (g, plies)" by force
  then show ?case
    using length_encode_group [of plies previous g] Cons.IH [of "Some g"] by (simp add: group_occurrences_def)
qed (simp add: group_occurrences_def)

lemma length_groups_occurrences: "wf_groups groups \<Longrightarrow> length groups \<le> length (group_occurrences groups)"
proof (induction groups)
  case (Cons item groups)
  obtain g plies where item: "item = (g, plies)" by force
  with Cons have "plies \<noteq> []" "length groups \<le> length (group_occurrences groups)" by (simp_all add: wf_groups_Cons)
  then show ?case by (cases plies) (simp_all add: item group_occurrences_def)
qed simp

lemma fold_min_le: "fold min xs a \<le> (a :: 'a::linorder)"
  by (induction xs arbitrary: a) (auto intro: order_trans [OF _ min.cobounded2])

lemma fold_max_ge: "(a :: 'a::linorder) \<le> fold max xs a"
  by (induction xs arbitrary: a) (auto intro: order_trans [OF max.cobounded2])

lemma fold_min_max_le:
  assumes "xs \<noteq> []"
  shows "fold min xs (a :: 'a::linorder) \<le> fold max xs b"
proof -
  obtain x ys where xs: "xs = x # ys" using assms by (cases xs) auto
  have "fold min ys (min x a) \<le> x" using fold_min_le [of ys "min x a"] by simp
  also have "x \<le> fold max ys (max x b)" using fold_max_ge [of "max x b" ys] by simp
  finally show ?thesis by (simp add: xs)
qed

lemma group_plies_nonempty: "wf_groups groups \<Longrightarrow> groups \<noteq> [] \<Longrightarrow> group_plies groups \<noteq> []"
  by (cases groups) (auto simp: wf_groups_def group_plies_def)

lemma dir_entry_words:
  assumes "wf_groups groups" and "length (group_occurrences groups) < 2 ^ 32"
    and "length (encode_groups None groups) < 2 ^ 63"
  shows "unat (dr_byte_length (dir_entry off (hash, groups))) = length (encode_groups None groups)"
    "unat (dr_occurrence_count (dir_entry off (hash, groups))) = length (group_occurrences groups)"
    "unat (dr_distinct_game_count (dir_entry off (hash, groups))) = length groups"
  using assms length_groups_occurrences [OF assms(1)]
  by (auto simp: dir_entry_def intro!: unat_of_nat_less)

lemma wf_dir_entry:
  assumes "wf_groups groups" and "groups \<noteq> []" and "length (group_occurrences groups) < 2 ^ 32"
    and "length (encode_groups None groups) < 2 ^ 63"
  shows "wf_entry (dir_entry off (hash, groups))"
proof -
  let ?e = "dir_entry off (hash, groups)"
  note w = dir_entry_words [OF assms(1,3,4), of off hash]
  have le: "length groups \<le> length (group_occurrences groups)"
      "length (group_occurrences groups) \<le> length (encode_groups None groups)" "0 < length groups"
    using length_groups_occurrences [OF assms(1)] length_encode_groups assms(2) by simp_all
  have "dr_byte_length ?e \<noteq> 0" "dr_distinct_game_count ?e \<noteq> 0"
    using w(1,3) le by (metis unat_0 not_le le_trans, metis unat_0 less_irrefl)
  moreover have "dr_min_ply ?e \<le> dr_max_ply ?e"
    using fold_min_max_le [OF group_plies_nonempty [OF assms(1,2)]] by (simp add: dir_entry_def)
  ultimately show ?thesis
    unfolding wf_entry_def word_le_nat_alt using w le assms(3) by (simp add: unat_ucast_up word_le_nat_alt)
qed

lemma entry_describes_dir_entry:
  assumes "wf_groups groups" and "length (group_occurrences groups) < 2 ^ 32"
    and "length (encode_groups None groups) < 2 ^ 63"
  shows "entry_describes (block_entry (dir_entry off (hash, groups))) groups"
proof -
  let ?e = "dir_entry off (hash, groups)"
  note w = dir_entry_words [OF assms, of off hash]
  have "unat (ucast (dr_occurrence_count ?e) :: u32) = unat (dr_occurrence_count ?e)"
    using w(2) assms(2) by (simp add: unsigned_ucast_eq take_bit_nat_eq_self)
  then show ?thesis
    using w by (simp add: entry_describes_def block_entry_def) (simp add: dir_entry_def)
qed

text \<open>What the entries of an index that fits into a file look like from offset \<open>off\<close> on.\<close>
definition fits :: "nat \<Rightarrow> index_content \<Rightarrow> bool" where
  "fits off content \<longleftrightarrow> wf_content content \<and> off + length (postings_bytes content) < 2 ^ 63"

lemma fits_Cons:
  assumes "fits off ((hash, groups) # content)"
  shows "wf_groups groups" "groups \<noteq> []" "length (group_occurrences groups) < 2 ^ 32"
    "off + length (encode_groups None groups) < 2 ^ 63" "fits (off + length (encode_groups None groups)) content"
  using assms by (auto simp: fits_def wf_content_def postings_bytes_def)

lemma wf_dir_entries: "fits off content \<Longrightarrow> e \<in> set (dir_entries off content) \<Longrightarrow> wf_entry e"
proof (induction content arbitrary: off)
  case (Cons item content)
  obtain hash groups where item: "item = (hash, groups)" by force
  note f = fits_Cons [OF Cons.prems(1) [unfolded item]]
  show ?case using Cons.IH [OF f(5)] Cons.prems(2) wf_dir_entry [OF f(1-3)] f(4) by (auto simp: item)
qed simp

lemma dr_hash_dir_entry [simp]: "dr_hash (dir_entry off item) = fst item"
  by (simp add: dir_entry_def case_prod_unfold)

lemma chained_dir_entries: "fits off content \<Longrightarrow> chained (dir_entries off content)"
proof (induction content arbitrary: off)
  case (Cons item content)
  obtain hash groups where item: "item = (hash, groups)" by force
  note f = fits_Cons [OF Cons.prems [unfolded item]]
  show ?case
  proof (cases content)
    case (Cons item' content')
    have "unat (dr_offset (dir_entry off item)) + unat (dr_byte_length (dir_entry off item)) < 2 ^ 64"
      using f(4) unat_of_nat_offset [of off] unat_of_nat_offset [of "length (encode_groups None groups)"]
      by (simp add: dir_entry_def item)
    moreover have "fst item < fst item'"
      using Cons.prems by (simp add: fits_def wf_content_def Cons)
    ultimately show ?thesis
      using Cons.IH [OF f(5)] by (simp add: Cons item) (simp add: dir_entry_def case_prod_unfold)
  qed simp
qed simp

lemma dir_entries_hashes [simp]: "map dr_hash (dir_entries off content) = map fst content"
  by (induction content arbitrary: off) auto

lemma length_dir_entries [simp]: "length (dir_entries off content) = length content"
  by (induction content arbitrary: off) auto

lemma validate_dir_entries:
  assumes "fits off content" and "n + content_occurrences content < 2 ^ 64"
    and "content \<noteq> [] \<longrightarrow> (case previous of None \<Rightarrow> True | Some p \<Rightarrow> p < fst (hd content))"
  shows "\<exists>previous'. validate_entries (map block_entry (dir_entries off content)) previous (of_nat off) (of_nat n)
     = Some (previous', of_nat (off + length (postings_bytes content)), of_nat (n + content_occurrences content))"
  using assms
proof (induction content arbitrary: off n previous)
  case Nil
  then show ?case by (simp add: postings_bytes_def content_occurrences_def)
next
  case (Cons item content)
  obtain hash groups where item: "item = (hash, groups)" by force
  let ?len = "length (encode_groups None groups)" and ?occ = "length (group_occurrences groups)"
  let ?e = "block_entry (dir_entry off (hash, groups))"
  note f = fits_Cons [OF Cons.prems(1) [unfolded item]]
  have occ: "content_occurrences ((hash, groups) # content) = ?occ + content_occurrences content"
      "length (postings_bytes ((hash, groups) # content)) = ?len + length (postings_bytes content)"
    by (simp_all add: content_occurrences_def postings_bytes_def)
  have e: "de_hash ?e = hash" "de_posting_offset ?e = of_nat off" "de_posting_byte_length ?e = of_nat ?len"
    by (simp_all add: block_entry_def dir_entry_def)
  have eo: "ucast (de_occurrence_count ?e) = (of_nat ?occ :: u64)"
    using entry_describes_dir_entry [OF f(1,3)] f(4) by (intro ucast_eq_of_nat) (simp add: entry_describes_def)
  have nxt: "content \<noteq> [] \<longrightarrow> (case Some hash of None \<Rightarrow> True | Some p \<Rightarrow> p < fst (hd content))"
    using Cons.prems(1) by (cases content) (auto simp: item fits_def wf_content_def)
  obtain previous' where IH: "validate_entries (map block_entry (dir_entries (off + ?len) content)) (Some hash)
        (of_nat (off + ?len)) (of_nat (n + ?occ))
     = Some (previous', of_nat (off + ?len + length (postings_bytes content)),
             of_nat (n + ?occ + content_occurrences content))"
    using Cons.IH [OF f(5) _ nxt, of "n + ?occ"] Cons.prems(2) occ by (auto simp: add.assoc item)
  have a: "checked_add (of_nat off) (of_nat ?len) = Some (of_nat (off + ?len))"
    "checked_add (of_nat n) (of_nat ?occ) = Some (of_nat (n + ?occ))"
    using f(4) Cons.prems(2) occ by (auto intro!: checked_add_of_nat simp: item simp del: of_nat_add)
  have "\<not> (case previous of None \<Rightarrow> False | Some p \<Rightarrow> p \<ge> hash)"
    using Cons.prems(3) by (cases previous) (auto simp: item not_le)
  moreover have "representable_stream_offset (of_nat off)" using f(4) by (intro representable_of_nat) simp
  ultimately show ?case
    using IH a by (cases previous) (simp_all add: item e eo occ add.assoc del: of_nat_add)
qed

section \<open>Opening a well-formed artifact\<close>

lemma length_header_bytes: "length (header_bytes words) = 16 + 8 * length words"
  by (simp add: header_bytes_def magic_def length_concat comp_def sum_list_triv)

lemma length_header_words [simp]: "length (header_words content table blocks) = 9"
  by (simp add: header_words_def)

text \<open>The sections of an artifact and their offsets.\<close>
lemma artifact_located:
  defines "sparse content table blocks \<equiv> concat (map encode_sparse (sparse_records (directory_start content table) blocks))"
  shows "located (artifact content table blocks) 0 (header_bytes (header_words content table blocks)
      @ postings_bytes content @ metadata_bytes table @ directory_bytes blocks @ sparse content table blocks)"
    and "located (artifact content table blocks) 88 (postings_bytes content @ metadata_bytes table
      @ directory_bytes blocks @ sparse content table blocks)"
    and "located (artifact content table blocks) (metadata_start content)
      (metadata_bytes table @ directory_bytes blocks @ sparse content table blocks)"
    and "located (artifact content table blocks) (directory_start content table)
      (directory_bytes blocks @ sparse content table blocks)"
    and "located (artifact content table blocks) (sparse_start content table blocks) (sparse content table blocks @ [])"
proof -
  show l0: "located (artifact content table blocks) 0 (header_bytes (header_words content table blocks)
      @ postings_bytes content @ metadata_bytes table @ directory_bytes blocks @ sparse content table blocks)"
    by (simp add: artifact_def sparse_def)
  show l1: "located (artifact content table blocks) 88 (postings_bytes content @ metadata_bytes table
      @ directory_bytes blocks @ sparse content table blocks)"
    using located_append [OF l0] by (simp add: length_header_bytes)
  show l2: "located (artifact content table blocks) (metadata_start content)
      (metadata_bytes table @ directory_bytes blocks @ sparse content table blocks)"
    using located_append [OF l1] by (simp add: metadata_start_def)
  show l3: "located (artifact content table blocks) (directory_start content table)
      (directory_bytes blocks @ sparse content table blocks)"
    using located_append [OF l2] by (simp add: directory_start_def)
  show "located (artifact content table blocks) (sparse_start content table blocks) (sparse content table blocks @ [])"
    using located_append [OF l3] by (simp add: sparse_start_def)
qed

lemma read_header_at:
  assumes "located data 0 (header_bytes words @ rest)" and "length words = 9" and "88 \<le> unat file_size"
  shows "read_header (stream_at data 0) file_size pp =
     (Some (stream_at data 88, words ! 4, words ! 8), assign_header words pp)"
proof -
  have l0: "located data 0 (magic @ write_little_endian format_version @ write_little_endian (88 :: u32)
      @ concat (map write_little_endian words) @ rest)"
    using assms(1) by (simp add: header_bytes_def)
  have m: "length magic = 8" by (simp add: magic_def)
  note l1 = located_append [OF l0, unfolded m, simplified] and r0 = ifstream_read_at [OF l0, unfolded m]
  note l2 = located_append [OF l1, simplified] and r1 = ifstream_read_le_at [OF l1, simplified]
  note l3 = located_append [OF l2, simplified] and r2 = ifstream_read_le_at [OF l2, simplified]
  note r3 = read_u64s_at [OF l3, unfolded assms(2)]
  show ?thesis
    unfolding read_header_def fixed_header_size_def
    using assms(3) by (simp add: r0 r1 r2 r3 word_less_nat_alt)
qed

lemma sorted_block_heads:
  assumes "sorted_wrt (<) (map f (concat blocks))" and "\<forall>block\<in>set blocks. block \<noteq> []"
  shows "sorted_wrt (<) (map (f \<circ> hd) blocks)"
  using assms
proof (induction blocks)
  case (Cons b blocks)
  have "f (hd b) < f (hd c)" if "c \<in> set blocks" for c
  proof -
    have "hd b \<in> set b" "hd c \<in> set (concat blocks)"
      using Cons.prems(2) that hd_in_set by (simp, force)
    then show ?thesis using Cons.prems(1) by (auto simp: sorted_wrt_append)
  qed
  then show ?case using Cons by (auto simp: sorted_wrt_append)
qed simp

lemma content_occurrences_le: "content_occurrences content \<le> length (postings_bytes content)"
proof (induction content)
  case (Cons item content)
  then show ?case
    using length_encode_groups [of "snd item" None]
    by (simp add: content_occurrences_def postings_bytes_def case_prod_unfold)
qed (simp add: content_occurrences_def)

lemma length_content_le: "wf_content content \<Longrightarrow> length content \<le> content_occurrences content"
proof (induction content)
  case (Cons item content)
  then have "wf_content content" "snd item \<noteq> []" "wf_groups (snd item)"
    by (auto simp: wf_content_def case_prod_unfold)
  with Cons.IH length_groups_occurrences [of "snd item"] show ?case
    by (cases "snd item") (auto simp: content_occurrences_def case_prod_unfold)
qed simp

text \<open>The members after a successful \<open>open\<close>.\<close>
definition opened :: "index_content \<Rightarrow> metadata_table \<Rightarrow> directory_entry list list \<Rightarrow> position_postings \<Rightarrow> position_postings" where
  "opened content table blocks pp =
     (assign_header (header_words content table blocks) pp)
       \<lparr>pp_metadata := map metadata_of table,
        pp_sparse_directory := sparse_records (directory_start content table) blocks, pp_is_open := True\<rparr>"

lemma assign_header_words:
  "assign_header (header_words content table blocks) pp =
     pp\<lparr>pp_indexed_game_count := of_nat (length table), pp_occurrence_count := of_nat (content_occurrences content),
        pp_distinct_hash_count := of_nat (length content), pp_metadata_offset := of_nat (metadata_start content),
        pp_directory_offset := of_nat (directory_start content table),
        pp_directory_byte_length := of_nat (length (directory_bytes blocks)),
        pp_sparse_offset := of_nat (sparse_start content table blocks)\<rparr>"
  by (simp add: assign_header_def header_words_def Let_def)

lemma length_sparse_records [simp]: "length (sparse_records off blocks) = length blocks"
  by (induction blocks arbitrary: off) auto

lemma length_artifact:
  "length (artifact content table blocks) = sparse_start content table blocks + 22 * length blocks"
  by (simp add: artifact_def length_header_bytes sparse_start_def directory_start_def metadata_start_def
      length_concat comp_def sum_list_triv)

lemma artifact_bounds:
  assumes "length (artifact content table blocks) < 2 ^ 63"
  shows "sparse_start content table blocks + 22 * length blocks < 2 ^ 63"
    and "directory_start content table + length (directory_bytes blocks) < 2 ^ 63"
    and "metadata_start content + 10 * length table < 2 ^ 63"
    and "88 + length (postings_bytes content) < 2 ^ 63" and "88 \<le> length (artifact content table blocks)"
  using assms length_artifact [of content table blocks]
  by (simp_all add: sparse_start_def directory_start_def metadata_start_def length_metadata_bytes)

lemma wf_artifact_blocks:
  assumes "wf_artifact content table blocks"
  shows "readable_blocks blocks" and "fits 88 content" and "sorted_wrt (<) (map dr_hash (concat blocks))"
    and "length (concat blocks) = length content"
proof -
  have wf: "wf_content content" "wf_blocks content blocks" "length (artifact content table blocks) < 2 ^ 63"
    using assms by (auto simp: wf_artifact_def)
  show fits: "fits 88 content" using wf(1) artifact_bounds(4) [OF wf(3)] by (simp add: fits_def)
  show "readable_blocks blocks"
    using wf(2) wf_dir_entries [OF fits] chained_dir_entries [OF fits]
    unfolding readable_blocks_def wf_blocks_def by metis
  show "sorted_wrt (<) (map dr_hash (concat blocks))"
    using wf(1,2) unfolding wf_blocks_def wf_content_def by (metis dir_entries_hashes)
  show "length (concat blocks) = length content"
    using wf(2) unfolding wf_blocks_def by (metis length_dir_entries)
qed

lemma sections_contiguous_artifact:
  assumes "length (artifact content table blocks) < 2 ^ 63"
  shows "sections_contiguous (of_nat (length (artifact content table blocks))) (of_nat (length table))
     (of_nat (length blocks)) (assign_header (header_words content table blocks) pp)"
proof -
  note b = artifact_bounds [OF assms]
  have m: "checked_multiply (of_nat (length table)) 10 = Some (of_nat (length table * 10))"
      "checked_multiply (of_nat (length blocks)) 22 = Some (of_nat (length blocks * 22))"
    using checked_multiply_of_nat [of "length table" 10] checked_multiply_of_nat [of "length blocks" 22] b by simp_all
  have a: "checked_add (of_nat (metadata_start content)) (of_nat (length table * 10)) = Some (of_nat (directory_start content table))"
      "checked_add (of_nat (directory_start content table)) (of_nat (length (directory_bytes blocks)))
        = Some (of_nat (sparse_start content table blocks))"
      "checked_add (of_nat (sparse_start content table blocks)) (of_nat (length blocks * 22))
        = Some (of_nat (length (artifact content table blocks)))"
    using checked_add_of_nat [of "metadata_start content" "length table * 10"]
      checked_add_of_nat [of "directory_start content table" "length (directory_bytes blocks)"]
      checked_add_of_nat [of "sparse_start content table blocks" "length blocks * 22"] b
    by (simp_all add: directory_start_def sparse_start_def length_metadata_bytes length_artifact mult.commute del: of_nat_add of_nat_mult)
  have "\<not> of_nat (metadata_start content) < fixed_header_size"
    using unat_of_nat_offset [of "metadata_start content"] b(3)
    by (simp add: fixed_header_size_def metadata_start_def word_less_nat_alt)
  then show ?thesis
    unfolding sections_contiguous_def assign_header_words
    using b by (simp add: m a representable_of_nat del: of_nat_mult)
qed

lemma postings_open_artifact:
  assumes "wf_artifact content table blocks" and "fs_files fs (pp_path pp) = Some (artifact content table blocks)"
    and "\<not> fs_fault fs (Open_Read (pp_path pp))"
  shows "postings_open fs pp = (Inr (), opened content table blocks pp)"
proof -
  let ?data = "artifact content table blocks"
  have wf: "wf_content content" "wf_table table" "wf_blocks content blocks" "length ?data < 2 ^ 63"
    using assms(1) by (auto simp: wf_artifact_def)
  note b = artifact_bounds [OF wf(4)] and loc = artifact_located [of content table blocks]
  note blk = wf_artifact_blocks [OF assms(1)]
  have u: "unat (of_nat (length table) :: u64) = length table" "unat (of_nat (length blocks) :: u64) = length blocks"
      "unat (of_nat (metadata_start content) :: u64) = metadata_start content"
      "unat (of_nat (sparse_start content table blocks) :: u64) = sparse_start content table blocks"
      "unat (of_nat (length ?data) :: u64) = length ?data"
    using b wf(4) by (auto intro!: unat_of_nat_offset)
  have hdr: "read_header (stream_at ?data 0) (of_nat (length ?data)) q =
      (Some (stream_at ?data 88, of_nat (length table), of_nat (length blocks)),
       assign_header (header_words content table blocks) q)" for q
    using read_header_at [OF loc(1), of "of_nat (length ?data)" q] u b(5) by (simp add: header_words_def)
  have md: "read_metadata (length table) None [] (stream_at ?data (metadata_start content))
      = (map metadata_of table, Some (stream_at ?data (metadata_start content + 10 * length table)))"
    using read_metadata_at [OF loc(3) wf(2), of None "[]"] by simp
  have sp: "read_sparse (length blocks) None (of_nat (directory_start content table)) 0 []
        (stream_at ?data (sparse_start content table blocks))
      = (sparse_records (directory_start content table) blocks,
         Some (of_nat (sparse_start content table blocks), of_nat (length content),
               stream_at ?data (sparse_start content table blocks + 22 * length blocks)))"
  proof -
    have "length content < 2 ^ 63"
      using length_content_le [OF wf(1)] content_occurrences_le [of content] b(4) by simp
    then show ?thesis
      using read_sparse_at [OF loc(5), of 0 None "[]"] blk b(2) wf(3) sorted_block_heads [OF blk(3)]
      by (simp add: wf_blocks_def sparse_start_def readable_blocks_def)
  qed
  have va: "validate_blocks (sparse_records (directory_start content table) blocks) None 88 0 (stream_at ?data pos)
      = Inr (of_nat (metadata_start content), of_nat (content_occurrences content))" for pos
  proof -
    have "content_occurrences content < 2 ^ 64" using content_occurrences_le [of content] b(4) by simp
    then obtain p where "validate_entries (map block_entry (dir_entries 88 content)) None 88 0
        = Some (p, of_nat (metadata_start content), of_nat (content_occurrences content))"
      using validate_dir_entries [OF blk(2), of 0 None] by (auto simp: metadata_start_def)
    then show ?thesis
      using validate_blocks_at [OF loc(4) b(2) blk(1), of None 88 0 pos] wf(3) by (simp add: wf_blocks_def)
  qed
  show ?thesis
    using sections_contiguous_artifact [OF wf(4)] ifstream_open_stream_at [OF assms(2,3)]
    by (simp add: postings_open_def fs_file_size_def assms(2) hdr u md sp va Let_def fixed_header_size_def
        assign_header_words opened_def)
qed

section \<open>Queries on a well-formed artifact\<close>

text \<open>A reader opened on an artifact that is in place.\<close>
definition serves :: "filesystem \<Rightarrow> position_postings \<Rightarrow> index_content \<Rightarrow> metadata_table \<Rightarrow> bool" where
  "serves fs pp content table \<longleftrightarrow>
     (\<exists>blocks. wf_artifact content table blocks \<and> fs_files fs (pp_path pp) = Some (artifact content table blocks)
        \<and> \<not> fs_fault fs (Open_Read (pp_path pp)) \<and> pp_is_open pp
        \<and> pp_metadata pp = map metadata_of table
        \<and> pp_sparse_directory pp = sparse_records (directory_start content table) blocks
        \<and> pp_indexed_game_count pp = of_nat (length table))"

lemma sparse_records_append:
  "sparse_records off (xs @ ys) = sparse_records off xs @ sparse_records (off + length (directory_bytes xs)) ys"
  by (induction xs arbitrary: off) (auto simp: add.assoc)

lemma se_first_hash_record [simp]: "se_first_hash (sparse_record off block) = dr_hash (hd block)"
  by (simp add: sparse_record_def)

lemma find_sparse_block_Some:
  assumes "\<forall>b\<in>set xs. dr_hash (hd b) \<le> hash" and "dr_hash (hd b) \<le> hash"
    and "ys \<noteq> [] \<longrightarrow> hash < dr_hash (hd (hd ys))"
  shows "find_sparse_block (sparse_records off (xs @ b # ys)) hash = Some (sparse_record (off + length (directory_bytes xs)) b)"
proof -
  have "\<forall>e\<in>set (sparse_records off' xs). se_first_hash e \<le> hash" for off'
    using assms(1) by (induction xs arbitrary: off') auto
  moreover have "takeWhile (\<lambda>e. se_first_hash e \<le> hash) (sparse_records off' ys) = []" for off'
    using assms(3) by (cases ys) auto
  ultimately show ?thesis
    using assms(2) by (simp add: find_sparse_block_def sparse_records_append takeWhile_append2 Let_def)
qed

lemma dropWhile_sorted_find:
  assumes "sorted_wrt (<) (map f xs)"
  shows "(case dropWhile (\<lambda>x. f x < (k :: 'k::linorder)) xs of [] \<Rightarrow> None | x # _ \<Rightarrow> if f x \<noteq> k then None else Some x)
     = find (\<lambda>x. f x = k) xs"
  using assms
proof (induction xs)
  case (Cons x xs)
  have "find (\<lambda>x. f x = k) xs = None" if "k \<le> f x"
    using Cons.prems that by (auto simp: find_None_iff)
  then show ?case using Cons by (auto simp: not_less)
qed simp

lemma split_blocks:
  assumes "blocks \<noteq> []" and "f (hd blocks)"
  obtains xs b ys where "blocks = xs @ b # ys" "\<forall>x\<in>set xs. f x" "f b" "ys \<noteq> [] \<longrightarrow> \<not> f (hd ys)"
proof -
  let ?t = "takeWhile f blocks"
  have ne: "?t \<noteq> []" using assms by (cases blocks) auto
  have "blocks = butlast ?t @ last ?t # dropWhile f blocks"
    using ne append_butlast_last_id [OF ne] takeWhile_dropWhile_id [of f blocks]
    by (metis append.assoc append_Cons append_Nil)
  moreover have "\<forall>x\<in>set ?t. f x" by (meson set_takeWhileD)
  ultimately show ?thesis
    using that [of "butlast ?t" "last ?t" "dropWhile f blocks"] ne hd_dropWhile [of f blocks] in_set_butlastD last_in_set
    by metis
qed

lemma de_hash_block_entry [simp]: "de_hash (block_entry e) = dr_hash e"
  by (simp add: block_entry_def)

lemma find_above:
  assumes "sorted_wrt (<) (map f (x # xs))" and "(k :: 'k::linorder) < f x"
  shows "find (\<lambda>x. f x = k) (x # xs) = None"
  using assms by (force simp: find_None_iff)

lemma find_in_blocks:
  assumes "readable_blocks (xs @ b # ys)" and "sorted_wrt (<) (map dr_hash (concat (xs @ b # ys)))"
    and "dr_hash (hd b) \<le> hash" and "ys \<noteq> [] \<longrightarrow> hash < dr_hash (hd (hd ys))"
  shows "find (\<lambda>e. de_hash e = hash) (map block_entry (concat (xs @ b # ys)))
     = find (\<lambda>e. de_hash e = hash) (map block_entry b)"
proof -
  have b: "hd b \<in> set b" using assms(1) by (simp add: readable_blocks_def)
  have sorted: "sorted_wrt (<) (map dr_hash (concat xs) @ map dr_hash b @ map dr_hash (concat ys))"
    using assms(2) by simp
  have "find (\<lambda>e. de_hash e = hash) (map block_entry (concat xs)) = None"
  proof -
    have "dr_hash e < dr_hash (hd b)" if "e \<in> set (concat xs)" for e
      using sorted b that unfolding sorted_wrt_append by auto
    then show ?thesis using assms(3) by (auto simp: find_None_iff dest: leD)
  qed
  moreover have "find (\<lambda>e. de_hash e = hash) (map block_entry (concat ys)) = None"
  proof (cases "concat ys")
    case (Cons e es)
    have ne: "ys \<noteq> []" using Cons by auto
    then have ys: "ys \<noteq> []" "hd ys \<noteq> []" using assms(1) by (auto simp: readable_blocks_def)
    then have "hd (concat ys) = hd (hd ys)" by (cases ys) (auto simp: hd_append)
    then have "hash < dr_hash e" using assms(4) ys Cons by simp
    moreover have "sorted_wrt (<) (map de_hash (map block_entry (e # es)))"
      using sorted unfolding sorted_wrt_append Cons by (simp add: comp_def)
    ultimately show ?thesis unfolding Cons using find_above [of de_hash "block_entry e" "map block_entry es" hash] by simp
  next
    case Nil
    show ?thesis unfolding Nil by simp
  qed
  ultimately show ?thesis by (simp add: find_append split: option.splits)
qed

lemma find_directory_block_entry_artifact:
  assumes "wf_artifact content table blocks" and "fs_files fs path = Some (artifact content table blocks)"
    and "\<not> fs_fault fs (Open_Read path)"
  shows "find_directory_block_entry fs path (sparse_records (directory_start content table) blocks) hash
     = Inr (find (\<lambda>e. de_hash e = hash) (map block_entry (dir_entries 88 content)))"
proof -
  let ?data = "artifact content table blocks" and ?off = "directory_start content table"
  note blk = wf_artifact_blocks [OF assms(1)]
  have entries: "concat blocks = dir_entries 88 content" using assms(1) by (simp add: wf_artifact_def wf_blocks_def)
  note b = artifact_bounds [of content table blocks] and opn = ifstream_open_stream_at [OF assms(2,3)]
  have len: "length ?data < 2 ^ 63" using assms(1) by (simp add: wf_artifact_def)
  show ?thesis
  proof (cases "blocks \<noteq> [] \<and> dr_hash (hd (hd blocks)) \<le> hash")
    case False
    have "find (\<lambda>e. de_hash e = hash) (map block_entry (concat blocks)) = None"
    proof (cases blocks)
      case (Cons c cs)
      then have "c \<noteq> []" using blk(1) by (simp add: readable_blocks_def)
      then show ?thesis
        using False blk(3) Cons find_above [of de_hash "block_entry (hd c)" "map block_entry (tl c @ concat cs)" hash]
        by (cases c) (auto simp: not_le comp_def)
    qed simp
    moreover have "find_sparse_block (sparse_records ?off blocks) hash = None"
      using False by (cases blocks) (simp_all add: find_sparse_block_def)
    ultimately show ?thesis by (simp add: find_directory_block_entry_def entries)
  next
    case True
    then obtain xs c ys where split: "blocks = xs @ c # ys" "\<forall>x\<in>set xs. dr_hash (hd x) \<le> hash"
        "dr_hash (hd c) \<le> hash" "ys \<noteq> [] \<longrightarrow> hash < dr_hash (hd (hd ys))"
      using split_blocks [of blocks "\<lambda>x. dr_hash (hd x) \<le> hash"] by (auto simp: not_le)
    let ?off' = "?off + length (directory_bytes xs)"
    have c: "c \<noteq> []" "length c \<le> max_directory_block_entries"
        "decode_directory_block (encode_directory_block c) = Inr (map block_entry c)"
      using readable_blocks_Cons [OF readable_blocks_append [OF blk(1) [unfolded split(1)]]] by simp_all
    obtain rest where "located ?data ?off (directory_bytes xs @ encode_directory_block c @ rest)"
      using artifact_located(4) [of content table blocks] by (auto simp: split(1) directory_bytes_def)
    note l = located_append [OF this]
    have "?off' < 2 ^ 63" using b(2) [OF len] by (simp add: split(1) directory_bytes_def)
    from read_block_at [OF l this c(1,2)]
    have rd: "fst (read_block (sparse_record ?off' c) (stream_at ?data 0)) = Some (encode_directory_block c)" by simp
    have srt: "sorted_wrt (<) (map de_hash (map block_entry c))"
      using blk(3) by (simp add: split(1) sorted_wrt_append comp_def)
    have sb: "find_sparse_block (sparse_records ?off blocks) hash = Some (sparse_record ?off' c)"
      unfolding split(1) by (rule find_sparse_block_Some [OF split(2-4)])
    have "find_directory_block_entry fs path (sparse_records ?off blocks) hash
        = Inr (find (\<lambda>e. de_hash e = hash) (map block_entry c))"
      unfolding find_directory_block_entry_def sb opn option.case rd c(3) sum.case
        dropWhile_sorted_find [OF srt, of hash, symmetric]
      by (simp split: list.split del: dropWhile_eq_Nil_conv)
    then show ?thesis
      using find_in_blocks [of xs c ys hash] blk(1,3) split(3,4) unfolding entries [symmetric] split(1) by simp
  qed
qed

lemma find_dir_entry:
  assumes "located data off (postings_bytes content @ rest)"
  shows "case map_of content hash of
      None \<Rightarrow> find (\<lambda>e. de_hash e = hash) (map block_entry (dir_entries off content)) = None
    | Some groups \<Rightarrow> (\<exists>off' rest'. find (\<lambda>e. de_hash e = hash) (map block_entry (dir_entries off content))
          = Some (block_entry (dir_entry off' (hash, groups)))
        \<and> located data off' (encode_groups None groups @ rest'))"
  using assms
proof (induction content arbitrary: off)
  case (Cons item content)
  obtain h groups where item: "item = (h, groups)" by force
  have l: "located data off (encode_groups None groups @ postings_bytes content @ rest)"
    using Cons.prems by (simp add: item postings_bytes_def)
  show ?case
    using Cons.IH [OF located_append [OF l]] l by (auto simp: item split: option.splits)
qed simp

lemma wf_content_lookup:
  assumes "wf_artifact content table blocks" and "map_of content hash = Some groups"
  shows "wf_groups groups" "groups \<noteq> []" "length (group_occurrences groups) < 2 ^ 32"
    "fst ` set groups \<subseteq> fst ` set table"
  using assms(1) map_of_SomeD [OF assms(2)] unfolding wf_artifact_def wf_content_def by blast+

text \<open>One lookup serves all queries: the directory entry of a hash and its posting block.\<close>
lemma lookup_artifact:
  assumes "serves fs pp content table"
  shows "case map_of content hash of
      None \<Rightarrow> find_directory_block_entry fs (pp_path pp) (pp_sparse_directory pp) hash = Inr None
    | Some groups \<Rightarrow> (\<exists>off. find_directory_block_entry fs (pp_path pp) (pp_sparse_directory pp) hash
            = Inr (Some (block_entry (dir_entry off (hash, groups))))
        \<and> read_posting_block fs (pp_path pp) (block_entry (dir_entry off (hash, groups))) = Some (encode_groups None groups)
        \<and> entry_describes (block_entry (dir_entry off (hash, groups))) groups \<and> wf_groups groups \<and> groups \<noteq> []
        \<and> fst ` set groups \<subseteq> fst ` set table)"
proof -
  obtain blocks where wf: "wf_artifact content table blocks"
      and artf: "fs_files fs (pp_path pp) = Some (artifact content table blocks)" "\<not> fs_fault fs (Open_Read (pp_path pp))"
      and sp: "pp_sparse_directory pp = sparse_records (directory_start content table) blocks"
    using assms by (auto simp: serves_def)
  let ?data = "artifact content table blocks"
  have len: "length ?data < 2 ^ 63" using wf by (simp add: wf_artifact_def)
  note find = find_directory_block_entry_artifact [OF wf artf, of hash]
  note ent = find_dir_entry [OF artifact_located(2) [of content table blocks], of hash]
  show ?thesis
  proof (cases "map_of content hash")
    case None
    then show ?thesis using find ent by (simp add: sp)
  next
    case (Some groups)
    note g = wf_content_lookup [OF wf Some]
    obtain off rest where e: "find (\<lambda>e. de_hash e = hash) (map block_entry (dir_entries 88 content))
          = Some (block_entry (dir_entry off (hash, groups)))"
        and l: "located ?data off (encode_groups None groups @ rest)"
      using ent Some by auto
    have b: "off < 2 ^ 63" "length (encode_groups None groups) < 2 ^ 63"
      using located_length [OF l] len by simp_all
    have "read_posting_block fs (pp_path pp) (block_entry (dir_entry off (hash, groups))) = Some (encode_groups None groups)"
      using ifstream_read_at [OF l] unat_of_nat_offset [OF b(1)] unat_of_nat_offset [OF b(2)]
      by (simp add: read_posting_block_def ifstream_open_stream_at [OF artf] block_entry_def dir_entry_def)
    then show ?thesis
      using find e Some g entry_describes_dir_entry [OF g(1,3) b(2)] by (auto simp: sp)
  qed
qed

lemma lookup_None:
  assumes "serves fs pp content table" and "map_of content hash = None"
  shows "find_directory_block_entry fs (pp_path pp) (pp_sparse_directory pp) hash = Inr None"
  using lookup_artifact [OF assms(1), of hash] assms(2) by simp

lemma lookup_Some:
  assumes "serves fs pp content table" and "map_of content hash = Some groups"
  obtains e where "find_directory_block_entry fs (pp_path pp) (pp_sparse_directory pp) hash = Inr (Some e)"
    "read_posting_block fs (pp_path pp) e = Some (encode_groups None groups)" "entry_describes e groups"
    "wf_groups groups" "groups \<noteq> []" "fst ` set groups \<subseteq> fst ` set table"
  using lookup_artifact [OF assms(1), of hash] assms(2) by auto

lemma metadata_of_sel [simp]:
  "mr_id (metadata_of (g, m)) = g" "mr_result (metadata_of (g, m)) = gm_result m"
  "mr_white_elo (metadata_of (g, m)) = gm_white_elo m" "mr_black_elo (metadata_of (g, m)) = gm_black_elo m"
  by (simp_all add: metadata_of_def)

lemma find_metadata_table:
  assumes "wf_table table"
  shows "find_metadata (map metadata_of table) g = map_option (\<lambda>m. metadata_of (g, m)) (map_of table g)"
proof -
  have id: "mr_id (metadata_of item) = fst item" for item by (simp add: metadata_of_def case_prod_unfold)
  have "sorted_wrt (<) (map mr_id (map metadata_of table))"
    using assms by (simp add: wf_table_def comp_def id)
  then have "find_metadata (map metadata_of table) g = find (\<lambda>r. mr_id r = g) (map metadata_of table)"
    unfolding find_metadata_def by (rule dropWhile_sorted_find)
  also have "\<dots> = map_option (\<lambda>m. metadata_of (g, m)) (map_of table g)"
    by (induction table) (auto simp: id)
  finally show ?thesis .
qed

section \<open>What the queries answer\<close>

definition lookup_groups :: "index_content \<Rightarrow> u64 \<Rightarrow> (u32 \<times> u16 list) list" where
  "lookup_groups content hash = (case map_of content hash of None \<Rightarrow> [] | Some groups \<Rightarrow> groups)"

definition match_of :: "metadata_table \<Rightarrow> decoded_occurrence \<Rightarrow> position_match" where
  "match_of table occurrence =
     (case occurrence of (game_key, ply) \<Rightarrow> let m = the (map_of table game_key) in
        \<lparr>pm_game_id = game_key, pm_ply = ply, pm_result = gm_result m, pm_white_elo = gm_white_elo m,
         pm_black_elo = gm_black_elo m\<rparr>)"

lemma join_metadata_table:
  assumes "wf_table table" and "fst ` set xs \<subseteq> fst ` set table"
  shows "join_metadata (map metadata_of table) xs = Inr (map (match_of table) xs)"
  using assms(2)
proof (induction xs)
  case (Cons x xs)
  obtain g p where x: "x = (g, p)" by force
  have "map_of table g \<noteq> None" using Cons.prems by (auto simp: x map_of_eq_None_iff)
  then show ?case
    using Cons by (auto simp: x find_metadata_table [OF assms(1)] match_of_def)
qed simp

lemma serves_wf_table: "serves fs pp content table \<Longrightarrow> wf_table table \<and> pp_is_open pp \<and> pp_metadata pp = map metadata_of table"
  by (auto simp: serves_def wf_artifact_def)

lemma set_page: "set (page limit skip xs) \<subseteq> set xs"
  by (auto simp: page_def dest: in_set_takeD in_set_dropD)

lemma map_page: "map f (page limit skip xs) = page limit skip (map f xs)"
  by (simp add: page_def take_map drop_map)

lemma fst_group_occurrences: "fst ` set (group_occurrences groups) \<subseteq> fst ` set groups"
  by (force simp: group_occurrences_def)

lemma occurrences_serves:
  assumes "serves fs pp content table"
  shows "occurrences fs pp hash limit offset
     = Inr (page limit offset (map (match_of table) (group_occurrences (lookup_groups content hash))))"
proof (cases "map_of content hash")
  case None
  then show ?thesis
    using lookup_None [OF assms None] serves_wf_table [OF assms]
    by (simp add: occurrences_def lookup_groups_def group_occurrences_def page_def)
next
  case (Some groups)
  from lookup_Some [OF assms Some] obtain e
    where e: "find_directory_block_entry fs (pp_path pp) (pp_sparse_directory pp) hash = Inr (Some e)"
      "read_posting_block fs (pp_path pp) e = Some (encode_groups None groups)" "entry_describes e groups"
      "wf_groups groups" "fst ` set groups \<subseteq> fst ` set table" .
  have "fst ` set (page limit offset (group_occurrences groups)) \<subseteq> fst ` set table"
    by (rule order_trans [OF image_mono [OF set_page] order_trans [OF fst_group_occurrences e(5)]])
  then show ?thesis
    using serves_wf_table [OF assms] e
    by (simp add: occurrences_def lookup_groups_def Some decode_window_groups join_metadata_table map_page)
qed

lemma distinct_game_ids_serves:
  assumes "serves fs pp content table"
  shows "distinct_game_ids fs pp hash = Inr (map fst (lookup_groups content hash))"
proof (cases "map_of content hash")
  case None
  then show ?thesis
    using lookup_None [OF assms None] serves_wf_table [OF assms]
    by (simp add: distinct_game_ids_def lookup_groups_def)
next
  case (Some groups)
  from lookup_Some [OF assms Some] obtain e
    where e: "find_directory_block_entry fs (pp_path pp) (pp_sparse_directory pp) hash = Inr (Some e)"
      "read_posting_block fs (pp_path pp) e = Some (encode_groups None groups)" "entry_describes e groups"
      "wf_groups groups" "fst ` set groups \<subseteq> fst ` set table" .
  have "map_of table g \<noteq> None" if "g \<in> set (map fst groups)" for g
    using e(5) that by (auto simp: map_of_eq_None_iff)
  then have "\<not> (\<exists>g\<in>set (map fst groups). find_metadata (pp_metadata pp) g = None)"
    using serves_wf_table [OF assms] find_metadata_table by auto
  then show ?thesis
    using serves_wf_table [OF assms] e
    by (simp add: distinct_game_ids_def lookup_groups_def Some decode_game_ids_groups)
qed

lemma distinct_game_ids_page_serves:
  assumes "serves fs pp content table"
  shows "distinct_game_ids_page fs pp hash limit offset = Inr (page limit offset (map fst (lookup_groups content hash)))"
  by (auto simp: distinct_game_ids_page_def distinct_game_ids_serves [OF assms] page_def Let_def min_def)

lemma first_occurrences_serves:
  assumes "serves fs pp content table"
  shows "first_occurrences fs pp hash requested =
     Inr (map (\<lambda>(g, plies). match_of table (g, Min (set plies)))
            (filter (\<lambda>(g, plies). g \<in> set requested) (lookup_groups content hash)))"
proof (cases "map_of content hash")
  case None
  then show ?thesis
    using lookup_None [OF assms None] serves_wf_table [OF assms]
    by (simp add: first_occurrences_def lookup_groups_def)
next
  case (Some groups)
  let ?rows = "map (\<lambda>(g, plies). (g, Min (set plies))) (filter (\<lambda>(g, plies). g \<in> set requested) groups)"
  from lookup_Some [OF assms Some] obtain e
    where e: "find_directory_block_entry fs (pp_path pp) (pp_sparse_directory pp) hash = Inr (Some e)"
      "read_posting_block fs (pp_path pp) e = Some (encode_groups None groups)" "entry_describes e groups"
      "wf_groups groups" "fst ` set groups \<subseteq> fst ` set table" .
  have "fst ` set ?rows \<subseteq> fst ` set groups" by force
  from join_metadata_table [OF _ order_trans [OF this e(5)]]
  have "join_metadata (pp_metadata pp) ?rows = Inr (map (match_of table) ?rows)"
    using serves_wf_table [OF assms] by simp
  then show ?thesis
    using serves_wf_table [OF assms] e
    by (cases "requested = []")
      (simp_all add: first_occurrences_def lookup_groups_def Some decode_first_occurrences_groups case_prod_unfold comp_def)
qed

definition summary_of :: "(u32 \<times> u16 list) list \<Rightarrow> postings_summary" where
  "summary_of groups = \<lparr>ps_occurrence_count = of_nat (length (group_occurrences groups)),
     ps_distinct_game_count = of_nat (length groups), ps_min_ply = Min (set (group_plies groups)),
     ps_max_ply = Max (set (group_plies groups))\<rparr>"

lemma entry_summary_describes:
  assumes "entry_describes e groups" and "wf_groups groups" and "groups \<noteq> []"
  shows "entry_summary e = summary_of groups"
proof -
  let ?ps = "group_plies groups"
  have ne: "set ?ps \<noteq> {}" using group_plies_nonempty [OF assms(2,3)] by simp
  have "fold min ?ps 0xffff = Min (set ?ps)"
  proof -
    have "(p :: u16) \<le> 0xffff" for p using unat_less_2p [of p] by (simp add: word_le_nat_alt)
    then have "Min (insert 0xffff (set ?ps)) = Min (set ?ps)"
      using ne by (subst Min_insert) (simp_all add: min_absorb2)
    then show ?thesis by (simp flip: Min.set_eq_fold)
  qed
  moreover have "fold max ?ps 0 = Max (set ?ps)"
    using ne by (simp add: Max.set_eq_fold [symmetric] max_absorb2 flip: Max.set_eq_fold)
  moreover have "de_distinct_game_count e = of_nat (length groups)"
    using assms(1) ucast_eq_of_nat [of "de_distinct_game_count e", where 'b = 32] by (simp add: entry_describes_def)
  moreover have "(ucast (de_occurrence_count e) :: u64) = of_nat (length (group_occurrences groups))"
    using assms(1) by (intro ucast_eq_of_nat) (simp add: entry_describes_def)
  ultimately show ?thesis
    using assms(1) by (simp add: entry_summary_def summary_of_def entry_describes_def)
qed

lemma summary_serves:
  assumes "serves fs pp content table"
  shows "postings_summary_of fs pp hash = Inr (map_option summary_of (map_of content hash))"
proof (cases "map_of content hash")
  case None
  then show ?thesis
    using lookup_None [OF assms None] serves_wf_table [OF assms] by (simp add: postings_summary_of_def)
next
  case (Some groups)
  from lookup_Some [OF assms Some] obtain e
    where "find_directory_block_entry fs (pp_path pp) (pp_sparse_directory pp) hash = Inr (Some e)"
      "entry_describes e groups" "wf_groups groups" "groups \<noteq> []" .
  then show ?thesis
    using serves_wf_table [OF assms] Some by (simp add: postings_summary_of_def entry_summary_describes)
qed

text \<open>Visiting the hashes of an index in order, stopping at the first refusal.\<close>
fun visit_content ::
  "(u64 \<Rightarrow> postings_summary \<Rightarrow> 's \<Rightarrow> 's result) \<Rightarrow> index_content \<Rightarrow> 's \<Rightarrow> 's result" where
  "visit_content visitor [] s = Inr s"
| "visit_content visitor ((hash, groups) # content) s =
     (case visitor hash (summary_of groups) s of
        Inl err \<Rightarrow> Inl err
      | Inr s \<Rightarrow> visit_content visitor content s)"

lemma visit_entries_append:
  "visit_entries visitor (xs @ ys) s =
     (case visit_entries visitor xs s of Inl err \<Rightarrow> Inl err | Inr s \<Rightarrow> visit_entries visitor ys s)"
  by (induction xs arbitrary: s) (auto split: sum.splits)

lemma visit_dir_entries:
  "fits off content \<Longrightarrow> visit_entries visitor (map block_entry (dir_entries off content)) s = visit_content visitor content s"
proof (induction content arbitrary: off s)
  case (Cons item content)
  obtain hash groups where item: "item = (hash, groups)" by force
  note f = fits_Cons [OF Cons.prems [unfolded item]]
  have "entry_summary (block_entry (dir_entry off (hash, groups))) = summary_of groups"
    using entry_summary_describes [OF entry_describes_dir_entry [OF f(1,3)] f(1,2)] f(4) by simp
  then show ?case using Cons.IH [OF f(5)] by (auto simp: item split: sum.splits)
qed simp

lemma for_each_summary_loop_at:
  assumes "located data off (directory_bytes blocks @ rest)" and "off + length (directory_bytes blocks) < 2 ^ 63"
    and "readable_blocks blocks"
  shows "for_each_summary_loop visitor (sparse_records off blocks) (stream_at data pos) s
     = visit_entries visitor (map block_entry (concat blocks)) s"
  using assms
proof (induction blocks arbitrary: off s pos)
  case (Cons b blocks)
  let ?len = "length (encode_directory_block b)"
  note b = readable_blocks_Cons [OF Cons.prems(3)]
  have l: "located data off (encode_directory_block b @ directory_bytes blocks @ rest)"
    using Cons.prems(1) by (simp add: directory_bytes_def)
  have rd: "read_block (sparse_record off b) (stream_at data pos) = (Some (encode_directory_block b), stream_at data (off + ?len))"
    by (rule read_block_at [OF l _ b(2,3)]) (use Cons.prems(2) in simp)
  have IH: "for_each_summary_loop visitor (sparse_records (off + ?len) blocks) (stream_at data (off + ?len)) s
      = visit_entries visitor (map block_entry (concat blocks)) s" for s
    by (rule Cons.IH [OF located_append [OF l] _ b(4)]) (use Cons.prems(2) in simp)
  show ?case by (auto simp: rd b(1) IH visit_entries_append split: sum.splits)
qed simp

lemma for_each_summary_serves:
  assumes "serves fs pp content table"
  shows "for_each_summary fs pp visitor s = visit_content visitor content s"
proof -
  obtain blocks where wf: "wf_artifact content table blocks"
      and artf: "fs_files fs (pp_path pp) = Some (artifact content table blocks)" "\<not> fs_fault fs (Open_Read (pp_path pp))"
      and sp: "pp_sparse_directory pp = sparse_records (directory_start content table) blocks" and "pp_is_open pp"
    using assms by (auto simp: serves_def)
  have len: "length (artifact content table blocks) < 2 ^ 63" and cb: "concat blocks = dir_entries 88 content"
    using wf by (simp_all add: wf_artifact_def wf_blocks_def)
  note blk = wf_artifact_blocks [OF wf]
  have "for_each_summary_loop visitor (sparse_records (directory_start content table) blocks)
      (stream_at (artifact content table blocks) 0) s = visit_content visitor content s"
    using for_each_summary_loop_at [OF artifact_located(4) artifact_bounds(2) [OF len] blk(1)] visit_dir_entries [OF blk(2)]
    unfolding cb by metis
  then show ?thesis
    using \<open>pp_is_open pp\<close> by (simp add: for_each_summary_def ifstream_open_stream_at [OF artf] sp)
qed

text \<open>Opening an artifact makes the reader serve its index.\<close>
lemma opened_serves:
  assumes "wf_artifact content table blocks" and "fs_files fs (pp_path pp) = Some (artifact content table blocks)"
    and "\<not> fs_fault fs (Open_Read (pp_path pp))"
  shows "serves fs (opened content table blocks pp) content table"
  using assms unfolding serves_def
  by (intro exI [of _ blocks]) (simp add: opened_def assign_header_words)

end
