(* ===== verification/Kway_Merge.thy ===== *)
theory Kway_Merge
  imports Streams
begin

text \<open>
  The streaming k-way merge that \<open>position_postings\<close>, \<open>position_prefix_postings\<close> and
  \<open>opening_tree_index\<close> all run over their spilled runs: one cursor per run, a vector of
  cursor indices kept as a heap by \<open>std::ranges::make_heap\<close>, \<open>push_heap\<close> and
  \<open>pop_heap\<close>, and a loop that pops the index of a smallest current record, handles the
  record and advances that cursor.

  The library algorithms promise only that \<open>pop_heap\<close> moves an index with a smallest
  current record to the back; which one of several equal ones is not specified. The loop
  therefore takes the choice as an argument, the interface \<open>heap_front\<close> states the
  promise, and what is proved in it holds for every tie break.
\<close>

section \<open>Cursors\<close>

record cursor =
  cur_remaining :: u64

datatype 'c fetch = Fetched 'c | Run_Ended 'c | Fetch_Error

text \<open>
  The part of \<open>advance\<close> all merges share: an exhausted run yields nothing, a fetched
  record decrements \<open>remaining\<close>. The reads differ and are the argument.
\<close>
definition advance ::
  "('a cursor_scheme \<Rightarrow> 'a cursor_scheme fetch) \<Rightarrow> 'a cursor_scheme \<Rightarrow> 'a cursor_scheme fetch" where
  "advance fetch_record c =
     (if cur_remaining c = 0 then Run_Ended c
      else case fetch_record c of
          Fetched c' \<Rightarrow> Fetched (c'\<lparr>cur_remaining := cur_remaining c - 1\<rparr>)
        | Run_Ended c' \<Rightarrow> Run_Ended (c'\<lparr>cur_remaining := 0\<rparr>)
        | Fetch_Error \<Rightarrow> Fetch_Error)"

text \<open>The first loop: advance every cursor once and collect the indices that hold a record.\<close>
fun start_cursors ::
  "('a cursor_scheme \<Rightarrow> 'a cursor_scheme fetch) \<Rightarrow> nat \<Rightarrow> 'a cursor_scheme list
     \<Rightarrow> ('a cursor_scheme list \<times> nat list) option" where
  "start_cursors fetch_record index [] = Some ([], [])"
| "start_cursors fetch_record index (c # cs) =
     (case advance fetch_record c of
        Fetched c' \<Rightarrow> map_option (\<lambda>(cs', heap). (c' # cs', index # heap)) (start_cursors fetch_record (index + 1) cs)
      | Run_Ended c' \<Rightarrow> map_option (\<lambda>(cs', heap). (c' # cs', heap)) (start_cursors fetch_record (index + 1) cs)
      | Fetch_Error \<Rightarrow> None)"

section \<open>The merge loop\<close>

lemma sum_list_update_remaining:
  fixes f :: "'c \<Rightarrow> nat"
  assumes "i < length cs"
  shows "sum_list (map f (cs[i := c])) = sum_list (map f cs) + f c - f (cs ! i)"
  using assms by (simp add: map_update sum_list_update)

lemma sum_list_member_le: "i < length cs \<Longrightarrow> f (cs ! i) \<le> sum_list (map (f :: 'c \<Rightarrow> nat) cs)"
  by (metis elem_le_sum_list length_map nth_map)

lemma advance_Fetched_remaining:
  "advance fetch_record c = Fetched c' \<Longrightarrow> unat (cur_remaining c') < unat (cur_remaining c)"
  by (auto simp: advance_def unat_minus_one word_neq_0_conv unat_gt_0 split: if_splits fetch.splits)

lemma advance_Run_Ended_remaining:
  "advance fetch_record c = Run_Ended c' \<Longrightarrow> cur_remaining c' = 0"
  by (auto simp: advance_def split: if_splits fetch.splits)

function heap_merge ::
  "('a cursor_scheme list \<Rightarrow> nat list \<Rightarrow> nat) \<Rightarrow> ('a cursor_scheme \<Rightarrow> 'a cursor_scheme fetch)
     \<Rightarrow> ('a cursor_scheme \<Rightarrow> 'r) \<Rightarrow> ('r \<Rightarrow> 's \<Rightarrow> 's option)
     \<Rightarrow> 'a cursor_scheme list \<Rightarrow> nat list \<Rightarrow> 's \<Rightarrow> 's option" where
  "heap_merge front fetch_record current visit cursors heap s =
     (if heap = [] then Some s
      else let index = front cursors heap; heap' = remove1 index heap in
        if index \<notin> set heap \<or> index \<ge> length cursors then None
        else case visit (current (cursors ! index)) s of
            None \<Rightarrow> None
          | Some s' \<Rightarrow> (case advance fetch_record (cursors ! index) of
                Fetched c \<Rightarrow> heap_merge front fetch_record current visit (cursors[index := c]) (heap' @ [index]) s'
              | Run_Ended c \<Rightarrow> heap_merge front fetch_record current visit (cursors[index := c]) heap' s'
              | Fetch_Error \<Rightarrow> None))"
  by pat_completeness auto
termination
proof (relation "measure (\<lambda>(front, fetch_record, current, visit, cursors, heap, s).
    sum_list (map (\<lambda>c. unat (cur_remaining c)) cursors) + length heap)", goal_cases)
  case 1
  then show ?case by simp
next
  case (2 front fetch_record current visit cursors heap s index heap' s' c)
  then have i: "index < length cursors" and h: "length heap' = length heap - 1" "heap \<noteq> []"
    by (auto simp: length_remove1)
  have "unat (cur_remaining c) < unat (cur_remaining (cursors ! index))"
    using 2 advance_Fetched_remaining by blast
  moreover have "unat (cur_remaining (cursors ! index)) \<le> sum_list (map (\<lambda>c. unat (cur_remaining c)) cursors)"
    using sum_list_member_le [OF i, of "\<lambda>c. unat (cur_remaining c)"] by simp
  moreover have "length heap' + 1 = length heap" using h by (cases heap) simp_all
  ultimately show ?case
    by (simp add: sum_list_update_remaining [OF i])
next
  case (3 front fetch_record current visit cursors heap s index heap' s' c)
  then have i: "index < length cursors" and h: "length heap' = length heap - 1" "heap \<noteq> []"
    by (auto simp: length_remove1)
  have "unat (cur_remaining c) = 0"
    using 3 advance_Run_Ended_remaining by (metis unat_0)
  then have "sum_list (map (\<lambda>c. unat (cur_remaining c)) (cursors[index := c]))
      \<le> sum_list (map (\<lambda>c. unat (cur_remaining c)) cursors)"
    by (simp add: sum_list_update_remaining [OF i])
  moreover have "length heap' < length heap" using h by (cases heap) simp_all
  ultimately show ?case by simp
qed

declare heap_merge.simps [simp del]

text \<open>One concrete tie break: the first index with a smallest current record.\<close>
fun heap_min :: "('c \<Rightarrow> 'r::linorder) \<Rightarrow> 'c list \<Rightarrow> nat list \<Rightarrow> nat" where
  "heap_min current cursors [] = 0"
| "heap_min current cursors [i] = i"
| "heap_min current cursors (i # is) =
     (let j = heap_min current cursors is in
      if current (cursors ! i) \<le> current (cursors ! j) then i else j)"

section \<open>What the merge visits\<close>

fun visit_all :: "('r \<Rightarrow> 's \<Rightarrow> 's option) \<Rightarrow> 'r list \<Rightarrow> 's \<Rightarrow> 's option" where
  "visit_all visit [] s = Some s"
| "visit_all visit (x # xs) s = (case visit x s of None \<Rightarrow> None | Some s' \<Rightarrow> visit_all visit xs s')"

lemma visit_all_append:
  "visit_all visit (xs @ ys) s = visit_all visit xs s \<bind> visit_all visit ys"
  by (induction xs arbitrary: s) (auto split: option.splits)

text \<open>The records a cursor still has to deliver.\<close>
primrec yields ::
  "('a cursor_scheme \<Rightarrow> 'a cursor_scheme fetch) \<Rightarrow> ('a cursor_scheme \<Rightarrow> 'r) \<Rightarrow> 'a cursor_scheme \<Rightarrow> 'r list \<Rightarrow> bool" where
  "yields fetch_record current c [] = (\<exists>c'. advance fetch_record c = Run_Ended c')"
| "yields fetch_record current c (x # xs) =
     (\<exists>c'. advance fetch_record c = Fetched c' \<and> current c' = x \<and> yields fetch_record current c' xs)"

lemma start_cursors_yields:
  assumes "list_all2 (yields fetch_record current) cs runs"
  shows "\<exists>cs' heap. start_cursors fetch_record base cs = Some (cs', heap) \<and> length cs' = length runs
    \<and> distinct heap \<and> set heap = {base + i | i. i < length runs \<and> runs ! i \<noteq> []}
    \<and> (\<forall>i<length runs. runs ! i \<noteq> [] \<longrightarrow>
         current (cs' ! i) = hd (runs ! i) \<and> yields fetch_record current (cs' ! i) (tl (runs ! i)))"
  using assms
proof (induction cs runs arbitrary: base rule: list_all2_induct)
  case Nil
  then show ?case by simp
next
  case (Cons c cs run runs)
  obtain cs' heap where IH: "start_cursors fetch_record (base + 1) cs = Some (cs', heap)"
      "length cs' = length runs" "distinct heap"
      "set heap = {base + 1 + i | i. i < length runs \<and> runs ! i \<noteq> []}"
      "\<forall>i<length runs. runs ! i \<noteq> [] \<longrightarrow>
         current (cs' ! i) = hd (runs ! i) \<and> yields fetch_record current (cs' ! i) (tl (runs ! i))"
    using Cons.IH [of "base + 1"] by blast
  have shift: "{base + i | i. i < length (run # runs) \<and> (run # runs) ! i \<noteq> []}
      = (if run = [] then {} else {base}) \<union> set heap"
    unfolding IH(4) by (auto simp: nth_Cons gr0_conv_Suc split: nat.splits)
  show ?case
  proof (cases run)
    case Nil
    then obtain c' where "advance fetch_record c = Run_Ended c'" using Cons.hyps by auto
    then show ?thesis using IH Nil unfolding shift by (auto simp: nth_Cons split: nat.splits)
  next
    case (Cons x xs)
    then obtain c' where "advance fetch_record c = Fetched c'" "current c' = x"
        "yields fetch_record current c' xs"
      using Cons.hyps by auto
    moreover have "base \<notin> set heap" unfolding IH(4) by auto
    ultimately show ?thesis using IH Cons unfolding shift by (auto simp: nth_Cons split: nat.splits)
  qed
qed

lemma mset_concat_nonempty:
  "mset (concat runs) = (\<Sum>i\<in>{i. i < length runs \<and> runs ! i \<noteq> []}. mset (runs ! i))"
proof -
  have "mset (concat runs) = (\<Sum>i<length runs. mset (runs ! i))"
    by (simp add: mset_concat sum_list_sum_nth atLeast0LessThan)
  also have "\<dots> = (\<Sum>i\<in>{i. i < length runs \<and> runs ! i \<noteq> []}. mset (runs ! i))"
    by (rule sum.mono_neutral_right) auto
  finally show ?thesis .
qed

text \<open>Whatever every visit keeps, the whole loop keeps.\<close>
lemma heap_merge_invariant:
  assumes "heap_merge front fetch_record current visit cursors heap s = Some s'" and "P s"
    and "\<And>r s s'. visit r s = Some s' \<Longrightarrow> P s \<Longrightarrow> P s'"
  shows "P s'"
  using assms
proof (induction front fetch_record current visit cursors heap s rule: heap_merge.induct)
  case (1 front fetch_record current visit cursors heap s)
  let ?i = "front cursors heap"
  show ?case
  proof (cases "heap = []")
    case True
    then show ?thesis using "1.prems"(1,2) by (simp add: heap_merge.simps)
  next
    case False
    note unf = "1.prems"(1) [unfolded heap_merge.simps [of front fetch_record current visit cursors heap s] Let_def if_not_P [OF False]]
    have ok: "\<not> (?i \<notin> set heap \<or> ?i \<ge> length cursors)" using unf by (auto split: if_splits)
    obtain s1 where s1: "visit (current (cursors ! ?i)) s = Some s1" using unf ok by (auto split: option.splits)
    have P1: "P s1" using "1.prems"(2,3) s1 by blast
    show ?thesis
    proof (cases "advance fetch_record (cursors ! ?i)")
      case (Fetched c)
      show ?thesis
        by (rule "1.IH"(1) [OF False refl refl ok s1 Fetched _ P1 "1.prems"(3)]) (use unf ok s1 Fetched in simp_all)
    next
      case (Run_Ended c)
      show ?thesis
        by (rule "1.IH"(2) [OF False refl refl ok s1 Run_Ended _ P1 "1.prems"(3)]) (use unf ok s1 Run_Ended in simp_all)
    next
      case Fetch_Error
      then show ?thesis using unf ok s1 by simp
    qed
  qed
qed

text \<open>The contract of the library's heap operations.\<close>
locale heap_front =
  fixes front :: "'a cursor_scheme list \<Rightarrow> nat list \<Rightarrow> nat"
    and current :: "'a cursor_scheme \<Rightarrow> 'r::linorder"
  assumes front_mem: "heap \<noteq> [] \<Longrightarrow> front cursors heap \<in> set heap"
    and front_min: "j \<in> set heap \<Longrightarrow> current (cursors ! front cursors heap) \<le> current (cursors ! j)"
begin

lemma pending_mem:
  "y \<in># (\<Sum>i\<in>set heap. mset (current (cs ! i) # rest i)) \<longleftrightarrow>
     (\<exists>i\<in>set heap. y \<in> set (current (cs ! i) # rest i))"
  by (subst set_mset_sum) auto

lemma front_is_hd:
  assumes "sorted (x # L)" and "heap \<noteq> []" and "distinct heap"
    and pend: "\<forall>i\<in>set heap. sorted (current (cs ! i) # rest i)"
    and M: "mset (x # L) = (\<Sum>i\<in>set heap. mset (current (cs ! i) # rest i))"
  shows "current (cs ! front cs heap) = x"
proof -
  let ?i = "front cs heap"
  have i: "?i \<in> set heap" using front_mem assms(2) .
  note mem = pending_mem [of _ cs rest heap]
  have "x \<in># (\<Sum>i\<in>set heap. mset (current (cs ! i) # rest i))"
    using M by (metis list.set_intros(1) set_mset_mset)
  then obtain j where j: "j \<in> set heap" "x \<in> set (current (cs ! j) # rest j)"
    using mem by blast
  then have "current (cs ! j) \<le> x" using pend by auto
  then have le: "current (cs ! ?i) \<le> x" using front_min [OF j(1), of cs] by simp
  have "current (cs ! ?i) \<in># mset (x # L)" unfolding M mem using i by auto
  then have "x \<le> current (cs ! ?i)" using assms(1) by auto
  with le show ?thesis by simp
qed

lemma heap_merge_visits:
  assumes "sorted L" and "distinct heap" and "\<forall>i\<in>set heap. i < length cs"
    and "\<forall>i\<in>set heap. sorted (current (cs ! i) # rest i)"
    and "\<forall>i\<in>set heap. yields fetch_record current (cs ! i) (rest i)"
    and "mset L = (\<Sum>i\<in>set heap. mset (current (cs ! i) # rest i))"
  shows "heap_merge front fetch_record current visit cs heap s = visit_all visit L s"
  using assms
proof (induction L arbitrary: cs heap rest s)
  case Nil
  have "heap = []"
  proof (rule ccontr)
    assume "heap \<noteq> []"
    then obtain i where "i \<in> set heap" by (cases heap) auto
    then show False using pending_mem [of "current (cs ! i)" cs rest heap] Nil.prems(6) by auto
  qed
  then show ?case by (subst heap_merge.simps) simp
next
  case (Cons x L)
  let ?i = "front cs heap" and ?h = "remove1 (front cs heap) heap"
  have ne: "heap \<noteq> []" using Cons.prems(6) by auto
  have i: "?i \<in> set heap" using front_mem ne .
  then have il: "?i < length cs" using Cons.prems(3) by blast
  have x: "current (cs ! ?i) = x"
    using front_is_hd [OF Cons.prems(1) ne Cons.prems(2,4,6)] .
  have h: "set ?h = set heap - {?i}" "distinct ?h"
    using Cons.prems(2) by (simp_all add: set_remove1_eq)
  have sL: "sorted L" using Cons.prems(1) by simp
  have split: "(\<Sum>k\<in>set heap. mset (current (cs ! k) # rest k))
      = mset (x # rest ?i) + (\<Sum>k\<in>set ?h. mset (current (cs ! k) # rest k))"
    using sum.remove [of "set heap" ?i "\<lambda>k. mset (current (cs ! k) # rest k)"] i h x by simp
  have M: "mset L = mset (rest ?i) + (\<Sum>k\<in>set ?h. mset (current (cs ! k) # rest k))"
    using Cons.prems(6) unfolding split by simp
  have other: "cs[?i := c] ! k = cs ! k" if "k \<in> set ?h" for k c
    using that h by auto
  have step: "heap_merge front fetch_record current visit cs heap s =
      (case visit x s of None \<Rightarrow> None
       | Some s' \<Rightarrow> (case advance fetch_record (cs ! ?i) of
             Fetched c \<Rightarrow> heap_merge front fetch_record current visit (cs[?i := c]) (?h @ [?i]) s'
           | Run_Ended c \<Rightarrow> heap_merge front fetch_record current visit (cs[?i := c]) ?h s'
           | Fetch_Error \<Rightarrow> None))"
    using ne i il x by (subst heap_merge.simps) (simp add: Let_def)
  show ?case
  proof (cases "rest ?i")
    case Nil
    then obtain c where c: "advance fetch_record (cs ! ?i) = Run_Ended c"
      using Cons.prems(5) i by fastforce
    have "heap_merge front fetch_record current visit (cs[?i := c]) ?h s' = visit_all visit L s'" for s'
    proof (rule Cons.IH [where rest = rest])
      have "(\<Sum>k\<in>set ?h. mset (current (cs[?i := c] ! k) # rest k))
          = (\<Sum>k\<in>set ?h. mset (current (cs ! k) # rest k))"
        by (rule sum.cong) (use other in auto)
      then show "mset L = (\<Sum>k\<in>set ?h. mset (current (cs[?i := c] ! k) # rest k))"
        using M Nil by simp
    qed (use Cons.prems(3-5) h sL other in auto)
    with c show ?thesis unfolding step by (simp split: option.splits)
  next
    case (Cons y ys)
    then obtain c where c: "advance fetch_record (cs ! ?i) = Fetched c" and y: "current c = y"
      and ys: "yields fetch_record current c ys"
      using Cons.prems(5) i by fastforce
    let ?r = "rest(?i := ys)"
    have heap': "set (?h @ [?i]) = insert ?i (set ?h)" "?i \<notin> set ?h" using h by auto
    have sum': "(\<Sum>k\<in>set (?h @ [?i]). mset (current (cs[?i := c] ! k) # ?r k))
        = mset (y # ys) + (\<Sum>k\<in>set ?h. mset (current (cs ! k) # rest k))"
    proof -
      have "(\<Sum>k\<in>set ?h. mset (current (cs[?i := c] ! k) # ?r k))
          = (\<Sum>k\<in>set ?h. mset (current (cs ! k) # rest k))"
        by (rule sum.cong) (use heap'(2) other in auto)
      then show ?thesis
        unfolding heap'(1) using heap'(2) y il by (subst sum.insert) auto
    qed
    have sorted_y: "sorted (y # ys)" using Cons.prems(4) i Cons by force
    have "heap_merge front fetch_record current visit (cs[?i := c]) (?h @ [?i]) s' = visit_all visit L s'" for s'
    proof (rule Cons.IH [where rest = ?r])
      show "sorted L" by (rule sL)
      show "distinct (?h @ [?i])" using h by auto
      show "\<forall>k\<in>set (?h @ [?i]). k < length (cs[?i := c])" using Cons.prems(3) h il by auto
      show "\<forall>k\<in>set (?h @ [?i]). sorted (current (cs[?i := c] ! k) # ?r k)"
        using Cons.prems(4) heap' other y sorted_y il h by auto
      show "\<forall>k\<in>set (?h @ [?i]). yields fetch_record current (cs[?i := c] ! k) (?r k)"
        using Cons.prems(5) heap' other ys il h by auto
      show "mset L = (\<Sum>k\<in>set (?h @ [?i]). mset (current (cs[?i := c] ! k) # ?r k))"
        unfolding sum' using M Cons by simp
    qed
    with c show ?thesis unfolding step by (simp split: option.splits)
  qed
qed

text \<open>
  Starting the cursors and merging visits the records of all runs in sorted order, however
  the heap breaks ties.
\<close>
lemma kway_merge_visits:
  assumes "list_all2 (yields fetch_record current) cs runs" and "\<forall>run\<in>set runs. sorted run"
  shows "\<exists>cs' heap. start_cursors fetch_record 0 cs = Some (cs', heap)
    \<and> heap_merge front fetch_record current visit cs' heap s = visit_all visit (sort (concat runs)) s"
proof -
  obtain cs' heap where st: "start_cursors fetch_record 0 cs = Some (cs', heap)"
      "length cs' = length runs" "distinct heap"
      and heap: "set heap = {0 + i | i. i < length runs \<and> runs ! i \<noteq> []}"
      and cur: "\<forall>i<length runs. runs ! i \<noteq> [] \<longrightarrow>
         current (cs' ! i) = hd (runs ! i) \<and> yields fetch_record current (cs' ! i) (tl (runs ! i))"
    using start_cursors_yields [OF assms(1), of 0] by blast
  have run: "current (cs' ! i) # tl (runs ! i) = runs ! i" if "i \<in> set heap" for i
    using that cur unfolding heap by auto
  have "(\<Sum>i\<in>set heap. mset (current (cs' ! i) # tl (runs ! i))) = (\<Sum>i\<in>set heap. mset (runs ! i))"
    by (rule sum.cong) (use run in auto)
  also have "\<dots> = mset (concat runs)" unfolding heap mset_concat_nonempty by simp
  finally have M: "mset (sort (concat runs)) = (\<Sum>i\<in>set heap. mset (current (cs' ! i) # tl (runs ! i)))"
    by simp
  have "heap_merge front fetch_record current visit cs' heap s = visit_all visit (sort (concat runs)) s"
  proof (rule heap_merge_visits [where rest = "\<lambda>i. tl (runs ! i)"])
    show "sorted (sort (concat runs))" by simp
    show "\<forall>i\<in>set heap. i < length cs'" using heap st(2) by auto
    show "\<forall>i\<in>set heap. sorted (current (cs' ! i) # tl (runs ! i))"
    proof
      fix i assume i: "i \<in> set heap"
      then have "runs ! i \<in> set runs" using heap by auto
      then show "sorted (current (cs' ! i) # tl (runs ! i))"
        unfolding run [OF i] using assms(2) by blast
    qed
    show "\<forall>i\<in>set heap. yields fetch_record current (cs' ! i) (tl (runs ! i))"
      using cur unfolding heap by auto
  qed (fact st(3) M)+
  with st(1) show ?thesis by blast
qed

end

lemma heap_min_mem: "heap \<noteq> [] \<Longrightarrow> heap_min current cs heap \<in> set heap"
  by (induction current cs heap rule: heap_min.induct) (auto simp: Let_def)

lemma heap_min_le: "j \<in> set heap \<Longrightarrow> current (cs ! heap_min current cs heap) \<le> current (cs ! j)"
  by (induction current cs heap rule: heap_min.induct) (auto simp: Let_def intro: order_trans)

interpretation heap_min: heap_front "heap_min current" current
  for current :: "'a cursor_scheme \<Rightarrow> 'r::linorder"
  by unfold_locales (auto intro: heap_min_mem heap_min_le)

end
