(* ===== verification/Postings_Builder.thy ===== *)
theory Postings_Builder
  imports Postings_Reader Kway_Merge "HOL-Library.AList"
begin

text \<open>
  The builder half of \<open>position_postings\<close>: \<open>append\<close> collects records and per-game metadata
  and spills sorted runs, \<open>finalize\<close> merges the runs into a staged artifact, validates it
  with \<open>open\<close> and renames it into place, \<open>build\<close> replays the games of a store through
  \<open>append\<close>. The lambdas of \<open>merge_runs\<close> (\<open>advance\<close>, \<open>flush_directory_block\<close>,
  \<open>flush_game_group\<close>, \<open>flush_hash\<close>) are definitions of their own on one record of the
  variables they capture.

  Bytes still in a stream when an operation fails are not tracked: the file keeps what was
  there when the stream was opened. Such files are scratch files that the clean-up removes.
\<close>

section \<open>Records\<close>

instantiation posting_record :: linorder
begin

definition less_posting_record :: "posting_record \<Rightarrow> posting_record \<Rightarrow> bool" where
  "less_posting_record a b \<longleftrightarrow>
     (if rec_hash a \<noteq> rec_hash b then rec_hash a < rec_hash b
      else if rec_game_key a \<noteq> rec_game_key b then rec_game_key a < rec_game_key b
      else rec_ply a < rec_ply b)"

definition less_eq_posting_record :: "posting_record \<Rightarrow> posting_record \<Rightarrow> bool" where
  "less_eq_posting_record a b \<longleftrightarrow> a = b \<or> a < (b :: posting_record)"

instance
  by intro_classes
    (auto simp: less_eq_posting_record_def less_posting_record_def posting_record.expand split: if_splits)

end

definition encode_record :: "posting_record \<Rightarrow> bytes" where
  "encode_record r =
     write_little_endian (rec_hash r) @ write_little_endian (rec_game_key r) @ write_little_endian (rec_ply r)"

text \<open>The three reads of \<open>advance\<close>; a read that fails would leave the field as it was.\<close>
definition decode_record :: "bytes \<Rightarrow> posting_record \<Rightarrow> posting_record" where
  "decode_record encoded old =
     (case read_little_endian encoded 0 of
        None \<Rightarrow> old
      | Some (hash, offset) \<Rightarrow>
          (case read_little_endian encoded offset of
             None \<Rightarrow> Posting_Record hash (rec_game_key old) (rec_ply old)
           | Some (game_key, offset) \<Rightarrow>
               (case read_little_endian encoded offset of
                  None \<Rightarrow> Posting_Record hash game_key (rec_ply old)
                | Some (ply, offset) \<Rightarrow> Posting_Record hash game_key ply)))"

section \<open>Spilling\<close>

text \<open>\<open>std::to_string\<close> on an unsigned number.\<close>
fun nat_to_string :: "nat \<Rightarrow> string" where
  "nat_to_string n = (if n < 10 then [char_of (48 + n)] else nat_to_string (n div 10) @ [char_of (48 + n mod 10)])"

declare nat_to_string.simps [simp del]

definition spill_path :: "path \<Rightarrow> nat \<Rightarrow> path" where
  "spill_path path n = path @ ''.spill'' @ nat_to_string n"

definition dirspool_path :: "path \<Rightarrow> path" where
  "dirspool_path path = path @ ''.dirspool''"

definition temp_output_path :: "path \<Rightarrow> path" where
  "temp_output_path path = path @ ''.tmp''"

fun spill_loop :: "posting_record list \<Rightarrow> bytes \<Rightarrow> ofstream \<Rightarrow> (bytes \<times> ofstream) option" where
  "spill_loop [] buffer output = Some (buffer, output)"
| "spill_loop (item # items) buffer output =
     (if length buffer + 14 > 14 * 4096
      then let output = ofstream_write buffer output in
        if \<not> os_ok output then None else spill_loop items (encode_record item) output
      else spill_loop items (buffer @ encode_record item) output)"

text \<open>Writes a run; the stream, ready to be closed, or \<open>None\<close> when a write fails.\<close>
definition write_spill :: "posting_record list \<Rightarrow> ofstream \<Rightarrow> ofstream option" where
  "write_spill records output =
     (let output = ofstream_write (write_little_endian (of_nat (length records) :: u64)) output in
      if \<not> os_ok output then None
      else case spill_loop records [] output of
          None \<Rightarrow> None
        | Some (buffer, output) \<Rightarrow>
            (if buffer \<noteq> []
             then let output = ofstream_write buffer output in if \<not> os_ok output then None else Some output
             else Some output))"

definition spill_current_buffer ::
  "filesystem \<Rightarrow> position_postings \<Rightarrow> unit result \<times> filesystem \<times> position_postings" where
  "spill_current_buffer fs pp =
     (if pp_records pp = [] then (Inr (), fs, pp)
      else let pp = pp\<lparr>pp_records := sort (pp_records pp)\<rparr>;
               target = spill_path (pp_path pp) (length (pp_spill_paths pp)) in
        case ofstream_open target fs of
          (None, fs) \<Rightarrow> (unexpected Io_Failure, fs_discard target fs, pp)
        | (Some output, fs) \<Rightarrow>
            (case write_spill (pp_records pp) output of
               None \<Rightarrow> (unexpected Io_Failure, fs_discard target fs, pp)
             | Some output \<Rightarrow>
                 (case ofstream_close output fs of
                    (False, fs) \<Rightarrow> (unexpected Io_Failure, fs_discard target fs, pp)
                  | (True, fs) \<Rightarrow>
                      (Inr (), fs,
                       pp\<lparr>pp_metrics := (pp_metrics pp)
                            \<lparr>bm_spill_bytes := bm_spill_bytes (pp_metrics pp) + 8 + of_nat (length (pp_records pp)) * 14,
                             bm_spill_run_count := bm_spill_run_count (pp_metrics pp) + 1\<rparr>,
                          pp_spill_paths := pp_spill_paths pp @ [target],
                          pp_records := []\<rparr>))))"

section \<open>\<open>append\<close>\<close>

definition metadata_conflict :: "game_metadata option \<Rightarrow> position_row \<Rightarrow> bool" where
  "metadata_conflict found row =
     (case found of
        None \<Rightarrow> False
      | Some m \<Rightarrow> gm_is_set m \<and> (gm_result m \<noteq> pr_result row \<or> gm_white_elo m \<noteq> pr_white_elo row
                                \<or> gm_black_elo m \<noteq> pr_black_elo row))"

definition row_metadata :: "position_row \<Rightarrow> game_metadata" where
  "row_metadata row = \<lparr>gm_result = pr_result row, gm_white_elo = pr_white_elo row,
     gm_black_elo = pr_black_elo row, gm_is_set = True\<rparr>"

definition row_record :: "position_row \<Rightarrow> posting_record" where
  "row_record row = Posting_Record (pr_zobrist_hash row) (pr_game_id row) (pr_ply row)"

text \<open>The assignments of one round of the loop, before the threshold check.\<close>
definition add_row :: "position_row \<Rightarrow> position_postings \<Rightarrow> position_postings" where
  "add_row row pp =
     pp\<lparr>pp_game_metadata := AList.update (pr_game_id row) (row_metadata row) (pp_game_metadata pp),
        pp_records := pp_records pp @ [row_record row],
        pp_metrics := (pp_metrics pp)\<lparr>bm_input_occurrence_count := bm_input_occurrence_count (pp_metrics pp) + 1\<rparr>\<rparr>"

fun append_rows ::
  "position_row list \<Rightarrow> filesystem \<Rightarrow> position_postings \<Rightarrow> unit result \<times> filesystem \<times> position_postings" where
  "append_rows [] fs pp = (Inr (), fs, pp)"
| "append_rows (row # rows) fs pp =
     (if pr_game_id row = 0 then (unexpected Invalid_Argument, fs, pp)
      else if \<not> valid_result (pr_result row) then (unexpected Invalid_Argument, fs, pp)
      else if metadata_conflict (map_of (pp_game_metadata pp) (pr_game_id row)) row
        then (unexpected Invalid_Argument, fs, pp)
      else let pp = add_row row pp in
        if length (pp_records pp) \<ge> pp_spill_threshold pp
        then case spill_current_buffer fs pp of
            (Inl err, fs, pp) \<Rightarrow> (Inl err, fs, pp)
          | (Inr _, fs, pp) \<Rightarrow> append_rows rows fs pp
        else append_rows rows fs pp)"

definition append_batch ::
  "position_row list \<Rightarrow> filesystem \<Rightarrow> position_postings \<Rightarrow> unit result \<times> filesystem \<times> position_postings" where
  "append_batch rows fs pp =
     (if pp_spill_threshold pp = 0 then (unexpected Invalid_Argument, fs, pp)
      else case append_rows rows fs pp of
          (Inl err, fs, pp) \<Rightarrow> (Inl err, fs, pp)
        | (Inr _, fs, pp) \<Rightarrow>
            let games = of_nat (length (pp_game_metadata pp)) in
            (Inr (), fs, pp\<lparr>pp_indexed_game_count := games,
                            pp_metrics := (pp_metrics pp)\<lparr>bm_game_count := games\<rparr>\<rparr>))"

section \<open>Run cursors\<close>

record posting_cursor = cursor +
  pc_input :: ifstream
  pc_current :: posting_record
  pc_buffer :: bytes
  pc_buffer_offset :: nat

definition spill_read_buffer_records :: nat where
  "spill_read_buffer_records = 4096"

text \<open>
  What the callers make of a failed \<open>advance\<close>: an error only when the stream is neither good
  nor at its end.
\<close>
definition fetch_failed :: "posting_cursor \<Rightarrow> posting_cursor fetch" where
  "fetch_failed c =
     (if \<not> is_good (pc_input c) \<and> \<not> is_eof (pc_input c) then Fetch_Error else Run_Ended c)"

definition fetch_from_buffer :: "(u32 \<times> game_metadata) list \<Rightarrow> posting_cursor \<Rightarrow> posting_cursor fetch" where
  "fetch_from_buffer table c =
     (let item = decode_record (take 14 (drop (pc_buffer_offset c) (pc_buffer c))) (pc_current c);
          c = c\<lparr>pc_buffer_offset := pc_buffer_offset c + 14, pc_current := item\<rparr> in
      if rec_game_key item = 0
         \<or> (case map_of table (rec_game_key item) of None \<Rightarrow> True | Some m \<Rightarrow> \<not> gm_is_set m)
      then fetch_failed (c\<lparr>pc_input := (pc_input c)\<lparr>is_fail := True\<rparr>\<rparr>)
      else Fetched c)"

definition fetch_posting :: "(u32 \<times> game_metadata) list \<Rightarrow> posting_cursor \<Rightarrow> posting_cursor fetch" where
  "fetch_posting table c =
     (if pc_buffer_offset c = length (pc_buffer c)
      then let records_to_read = min (unat (cur_remaining c)) spill_read_buffer_records in
        case ifstream_read (records_to_read * 14) (pc_input c) of
          (None, input) \<Rightarrow> fetch_failed (c\<lparr>pc_input := input\<rparr>)
        | (Some data, input) \<Rightarrow>
            fetch_from_buffer table (c\<lparr>pc_input := input, pc_buffer := data, pc_buffer_offset := 0\<rparr>)
      else fetch_from_buffer table c)"

fun open_cursors :: "filesystem \<Rightarrow> path list \<Rightarrow> posting_cursor list option" where
  "open_cursors fs [] = Some []"
| "open_cursors fs (path # paths) =
     (case ifstream_open path fs of
        None \<Rightarrow> None
      | Some input \<Rightarrow>
          (case ifstream_read_le input of
             None \<Rightarrow> None
           | Some (remaining, input) \<Rightarrow>
               map_option (Cons \<lparr>cur_remaining = remaining, pc_input = input, pc_current = Posting_Record 0 0 0,
                                pc_buffer = [], pc_buffer_offset = 0\<rparr>)
                 (open_cursors fs paths)))"

section \<open>The streaming merge\<close>

text \<open>The local \<open>struct sparse_entry\<close> of \<open>merge_runs\<close>, with an offset into the spool.\<close>
record spool_entry =
  sp_first_hash :: u64
  sp_spool_offset :: u64
  sp_byte_length :: u32
  sp_entry_count :: u16

record merge_state =
  ms_writer :: file_writer
  ms_dirspool_writer :: file_writer
  ms_pending :: "directory_entry list"
  ms_sparse :: "spool_entry list"
  ms_metrics :: build_metrics
  ms_have_active_hash :: bool
  ms_active_hash :: u64
  ms_active_hash_offset :: u64
  ms_active_occurrence_count :: u64
  ms_active_distinct_game_count :: u32
  ms_active_min_ply :: u16
  ms_active_max_ply :: u16
  ms_have_active_game :: bool
  ms_active_game_id :: u32
  ms_have_flushed_game_in_hash :: bool
  ms_previous_flushed_game_id :: u32
  ms_active_plies :: "u16 list"
  ms_distinct_hash_count :: u64
  ms_total_occurrences :: u64
  ms_previous :: "posting_record option"

text \<open>The loop over the deltas marked in the bitmap.\<close>
fun write_hash_highs :: "bytes \<Rightarrow> nat \<Rightarrow> u64 list \<Rightarrow> file_writer \<Rightarrow> file_writer option" where
  "write_hash_highs bitmap index [] w = Some w"
| "write_hash_highs bitmap index (delta # deltas) w =
     do { w \<leftarrow> (if bitmap_bit bitmap index then write_uleb128 (drop_bit 40 delta) w else Some w);
          write_hash_highs bitmap (index + 1) deltas w }"

fun write_entry_fields :: "directory_entry list \<Rightarrow> file_writer \<Rightarrow> file_writer option" where
  "write_entry_fields [] w = Some w"
| "write_entry_fields (e # es) w =
     do { w \<leftarrow> write_uleb128 (dr_byte_length e) w;
          w \<leftarrow> write_uleb128 (ucast (dr_distinct_game_count e)) w;
          w \<leftarrow> (if occurrence_differs e then write_uleb128 (dr_occurrence_count e) w else Some w);
          w \<leftarrow> write_uleb128 (ucast (dr_min_ply e)) w;
          w \<leftarrow> write_uleb128 (ucast (dr_max_ply e)) w;
          write_entry_fields es w }"

definition write_directory_block :: "directory_entry list \<Rightarrow> file_writer \<Rightarrow> file_writer option" where
  "write_directory_block es w =
     do { w \<leftarrow> write_fixed (dr_hash (hd es)) w;
          w \<leftarrow> write_fixed (dr_offset (hd es)) w;
          w \<leftarrow> write_fixed (of_nat (length es) :: u16) w;
          w \<leftarrow> put_bytes (hash_exception_bitmap es) w;
          w \<leftarrow> put_bytes (occurrence_exception_bitmap es) w;
          w \<leftarrow> put_bytes (concat (map (le_loop 5) (hash_deltas es))) w;
          w \<leftarrow> write_hash_highs (hash_exception_bitmap es) 0 (hash_deltas es) w;
          write_entry_fields es w }"

text \<open>The counters of one entry; \<open>previous\<close> is the hash of the entry before it in the block.\<close>
definition entry_metrics :: "u64 option \<Rightarrow> directory_entry \<Rightarrow> build_metrics \<Rightarrow> build_metrics" where
  "entry_metrics previous e m =
     (let m = (case previous of
                 None \<Rightarrow> m
               | Some h \<Rightarrow>
                   let delta = dr_hash e - h in
                   m\<lparr>bm_directory_hash_encoding_bytes := bm_directory_hash_encoding_bytes m + 5
                       + (if drop_bit 40 delta \<noteq> 0 then of_nat (uleb128_length (drop_bit 40 delta)) else 0),
                     bm_directory_hash_delta_over_32_bits :=
                       bm_directory_hash_delta_over_32_bits m + (if delta > 0xffffffff then 1 else 0),
                     bm_directory_hash_delta_over_40_bits :=
                       bm_directory_hash_delta_over_40_bits m + (if delta \<ge> push_bit 40 1 then 1 else 0),
                     bm_directory_hash_delta_over_48_bits :=
                       bm_directory_hash_delta_over_48_bits m + (if delta \<ge> push_bit 48 1 then 1 else 0)\<rparr>) in
      m\<lparr>bm_directory_posting_length_bytes :=
          bm_directory_posting_length_bytes m + of_nat (uleb128_length (dr_byte_length e)),
        bm_directory_occurrence_count_bytes := bm_directory_occurrence_count_bytes m
          + (if occurrence_differs e then of_nat (uleb128_length (dr_occurrence_count e)) else 0),
        bm_directory_distinct_game_count_bytes := bm_directory_distinct_game_count_bytes m
          + of_nat (uleb128_length (ucast (dr_distinct_game_count e))),
        bm_directory_equal_occurrence_game_count :=
          bm_directory_equal_occurrence_game_count m + (if occurrence_differs e then 0 else 1),
        bm_directory_min_ply_bytes := bm_directory_min_ply_bytes m + of_nat (uleb128_length (ucast (dr_min_ply e))),
        bm_directory_max_ply_bytes := bm_directory_max_ply_bytes m + of_nat (uleb128_length (ucast (dr_max_ply e)))\<rparr>)"

fun entries_metrics :: "u64 option \<Rightarrow> directory_entry list \<Rightarrow> build_metrics \<Rightarrow> build_metrics" where
  "entries_metrics previous [] m = m"
| "entries_metrics previous (e # es) m = entries_metrics (Some (dr_hash e)) es (entry_metrics previous e m)"

definition block_metrics :: "directory_entry list \<Rightarrow> build_metrics \<Rightarrow> build_metrics" where
  "block_metrics es m =
     entries_metrics None es
       (m\<lparr>bm_directory_block_header_bytes := bm_directory_block_header_bytes m + 18,
          bm_directory_bitmap_bytes := bm_directory_bitmap_bytes m
            + of_nat ((length es - 1 + 8 - 1) div 8 + (length es + 8 - 1) div 8)\<rparr>)"

definition flush_directory_block :: "merge_state \<Rightarrow> merge_state option" where
  "flush_directory_block st =
     (if ms_pending st = [] then Some st
      else let block_start = fw_offset (ms_dirspool_writer st); es = ms_pending st in
        do { w \<leftarrow> write_directory_block es (ms_dirspool_writer st);
             Some (st\<lparr>ms_dirspool_writer := w,
                      ms_metrics := block_metrics es (ms_metrics st),
                      ms_sparse := ms_sparse st @
                        [\<lparr>sp_first_hash = dr_hash (hd es), sp_spool_offset = block_start,
                          sp_byte_length = ucast (fw_offset w - block_start), sp_entry_count = of_nat (length es)\<rparr>],
                      ms_pending := []\<rparr>) })"

fun write_ply_deltas :: "u16 \<Rightarrow> u16 list \<Rightarrow> file_writer \<Rightarrow> file_writer option" where
  "write_ply_deltas previous [] w = Some w"
| "write_ply_deltas previous (ply # plies) w =
     do { w \<leftarrow> write_uleb128 (word_of_int (uint ply - uint previous)) w; write_ply_deltas ply plies w }"

definition flush_game_group :: "merge_state \<Rightarrow> merge_state option" where
  "flush_game_group st =
     (if \<not> ms_have_active_game st then Some st
      else let delta = (if ms_have_flushed_game_in_hash st
                        then ms_active_game_id st - ms_previous_flushed_game_id st else ms_active_game_id st);
               plies = ms_active_plies st in
        do { w \<leftarrow> write_uleb128 (ucast delta) (ms_writer st);
             w \<leftarrow> write_uleb128 (of_nat (length plies)) w;
             w \<leftarrow> write_uleb128 (ucast (hd plies)) w;
             w \<leftarrow> write_ply_deltas (hd plies) (tl plies) w;
             Some (st\<lparr>ms_writer := w, ms_have_flushed_game_in_hash := True,
                      ms_previous_flushed_game_id := ms_active_game_id st,
                      ms_have_active_game := False, ms_active_plies := []\<rparr>) })"

text \<open>The directory entry of the finished hash and the resets that follow it.\<close>
definition finish_hash :: "merge_state \<Rightarrow> merge_state" where
  "finish_hash st =
     st\<lparr>ms_pending := ms_pending st @
          [\<lparr>dr_hash = ms_active_hash st, dr_offset = ms_active_hash_offset st,
            dr_byte_length = fw_offset (ms_writer st) - ms_active_hash_offset st,
            dr_occurrence_count = ms_active_occurrence_count st,
            dr_distinct_game_count = ms_active_distinct_game_count st,
            dr_min_ply = ms_active_min_ply st, dr_max_ply = ms_active_max_ply st\<rparr>],
        ms_distinct_hash_count := ms_distinct_hash_count st + 1,
        ms_have_active_hash := False, ms_have_flushed_game_in_hash := False\<rparr>"

definition flush_hash :: "merge_state \<Rightarrow> merge_state option" where
  "flush_hash st =
     (if \<not> ms_have_active_hash st then Some st
      else do { st \<leftarrow> flush_game_group st;
                let st = finish_hash st;
                (if length (ms_pending st) = max_directory_block_entries then flush_directory_block st else Some st) })"

text \<open>The body of the merge loop for one popped record.\<close>
definition start_hash :: "posting_record \<Rightarrow> merge_state \<Rightarrow> merge_state option" where
  "start_hash current st =
     (if \<not> ms_have_active_hash st \<or> rec_hash current \<noteq> ms_active_hash st
      then do { st \<leftarrow> flush_hash st;
                Some (st\<lparr>ms_have_active_hash := True, ms_active_hash := rec_hash current,
                         ms_active_hash_offset := fw_offset (ms_writer st), ms_active_occurrence_count := 0,
                         ms_active_distinct_game_count := 0, ms_active_min_ply := rec_ply current,
                         ms_active_max_ply := rec_ply current\<rparr>) }
      else Some st)"

definition start_game :: "posting_record \<Rightarrow> merge_state \<Rightarrow> merge_state option" where
  "start_game current st =
     (if \<not> ms_have_active_game st \<or> rec_game_key current \<noteq> ms_active_game_id st
      then do { st \<leftarrow> flush_game_group st;
                Some (st\<lparr>ms_have_active_game := True, ms_active_game_id := rec_game_key current,
                         ms_active_distinct_game_count := ms_active_distinct_game_count st + 1\<rparr>) }
      else Some st)"

definition visit_posting :: "posting_record \<Rightarrow> merge_state \<Rightarrow> merge_state option" where
  "visit_posting current st =
     (if ms_previous st = Some current then Some st
      else do { st \<leftarrow> start_hash current st;
                st \<leftarrow> start_game current st;
                Some (st\<lparr>ms_active_plies := ms_active_plies st @ [rec_ply current],
                         ms_active_min_ply := min (ms_active_min_ply st) (rec_ply current),
                         ms_active_max_ply := max (ms_active_max_ply st) (rec_ply current),
                         ms_active_occurrence_count := ms_active_occurrence_count st + 1,
                         ms_total_occurrences := ms_total_occurrences st + 1,
                         ms_previous := Some current\<rparr>) })"

section \<open>Assembling the artifact\<close>

fun remove_spills :: "path list \<Rightarrow> filesystem \<Rightarrow> bool \<times> filesystem" where
  "remove_spills [] fs = (True, fs)"
| "remove_spills (path # paths) fs =
     (case fs_remove path fs of
        (False, fs) \<Rightarrow> (False, fs)
      | (True, fs) \<Rightarrow> remove_spills paths fs)"

definition metadata_flag_bits :: "game_metadata \<Rightarrow> u8" where
  "metadata_flag_bits m =
     (let flags = 0; flags = (if gm_white_elo m \<noteq> None then flags OR 1 else flags) in
      if gm_black_elo m \<noteq> None then flags OR 2 else flags)"

fun write_metadata :: "(u32 \<times> game_metadata) list \<Rightarrow> file_writer \<Rightarrow> file_writer option" where
  "write_metadata [] w = Some w"
| "write_metadata ((game_key, m) # table) w =
     do { w \<leftarrow> write_fixed game_key w;
          w \<leftarrow> write_fixed (encode_result (gm_result m)) w;
          w \<leftarrow> write_fixed (metadata_flag_bits m) w;
          w \<leftarrow> write_fixed (case gm_white_elo m of None \<Rightarrow> 0 | Some e \<Rightarrow> e) w;
          w \<leftarrow> write_fixed (case gm_black_elo m of None \<Rightarrow> 0 | Some e \<Rightarrow> e) w;
          write_metadata table w }"

fun write_sparse :: "u64 \<Rightarrow> spool_entry list \<Rightarrow> file_writer \<Rightarrow> file_writer option" where
  "write_sparse directory_offset [] w = Some w"
| "write_sparse directory_offset (e # es) w =
     do { w \<leftarrow> write_fixed (sp_first_hash e) w;
          w \<leftarrow> write_fixed (directory_offset + sp_spool_offset e) w;
          w \<leftarrow> write_fixed (sp_byte_length e) w;
          w \<leftarrow> write_fixed (sp_entry_count e) w;
          write_sparse directory_offset es w }"

text \<open>
  \<open>output << dirspool_input.rdbuf()\<close>: copies the spool file into the output stream, bypassing
  the writer, whose buffer is empty at this point.
\<close>
definition copy_spool :: "path \<Rightarrow> filesystem \<Rightarrow> file_writer \<Rightarrow> file_writer option" where
  "copy_spool spool fs w =
     do { input \<leftarrow> ifstream_open spool fs;
          let output = ofstream_write (is_data input) (fw_stream w);
          (if os_ok output then Some (w\<lparr>fw_stream := output\<rparr>) else None) }"

text \<open>The offsets and counts the header records.\<close>
record layout =
  ly_metadata_offset :: u64
  ly_directory_offset :: u64
  ly_directory_byte_length :: u64
  ly_sparse_offset :: u64
  ly_sparse_count :: nat

text \<open>
  Everything after the merge loop that writes into the staged file: metadata, the directory
  copied from the spool and the sparse directory. \<open>None\<close> is an I/O failure.
\<close>
definition write_sections ::
  "position_postings \<Rightarrow> merge_state \<Rightarrow> filesystem \<Rightarrow> layout option \<times> filesystem" where
  "write_sections pp st fs =
     (let metadata_offset = fw_offset (ms_writer st) in
      case do { w \<leftarrow> write_metadata (sort_key fst (pp_game_metadata pp)) (ms_writer st);
                w' \<leftarrow> flush w;
                spool \<leftarrow> flush (ms_dirspool_writer st);
                Some (fw_offset w, w', spool) } of
        None \<Rightarrow> (None, fs)
      | Some (directory_offset, w, spool) \<Rightarrow>
          (case ofstream_close (fw_stream spool) fs of
             (False, fs) \<Rightarrow> (None, fs)
           | (True, fs) \<Rightarrow>
               let directory_byte_length = fw_offset spool in
               (case do { w \<leftarrow> (if directory_byte_length > 0 then copy_spool (dirspool_path (pp_path pp)) fs w else Some w);
                          let w = skip_offset directory_byte_length w;
                          let sparse_offset = fw_offset w;
                          w \<leftarrow> write_sparse directory_offset (ms_sparse st) w;
                          w \<leftarrow> flush w;
                          Some (sparse_offset, w) } of
                  None \<Rightarrow> (None, fs)
                | Some (sparse_offset, w) \<Rightarrow>
                    (case ofstream_close (fw_stream w) fs of
                       (False, fs) \<Rightarrow> (None, fs)
                     | (True, fs) \<Rightarrow>
                         (Some \<lparr>ly_metadata_offset = metadata_offset, ly_directory_offset = directory_offset,
                                ly_directory_byte_length = directory_byte_length, ly_sparse_offset = sparse_offset,
                                ly_sparse_count = length (ms_sparse st)\<rparr>, fs)))))"

text \<open>The bytes of the header patch.\<close>
definition patch_bytes :: "position_postings \<Rightarrow> merge_state \<Rightarrow> layout \<Rightarrow> bytes" where
  "patch_bytes pp st ly =
     magic @ write_little_endian format_version @ write_little_endian (ucast fixed_header_size :: u32)
     @ write_little_endian (pp_indexed_game_count pp) @ write_little_endian (ms_total_occurrences st)
     @ write_little_endian (ms_distinct_hash_count st) @ write_little_endian (ly_metadata_offset ly)
     @ write_little_endian (of_nat (length (pp_game_metadata pp)) :: u64) @ write_little_endian (ly_directory_offset ly)
     @ write_little_endian (ly_directory_byte_length ly) @ write_little_endian (ly_sparse_offset ly)
     @ write_little_endian (of_nat (ly_sparse_count ly) :: u64)"

text \<open>Patches the header, validates the staged file with a fresh reader and renames it into place.\<close>
definition install ::
  "position_postings \<Rightarrow> merge_state \<Rightarrow> layout \<Rightarrow> filesystem \<Rightarrow> unit result \<times> filesystem \<times> u64" where
  "install pp st ly fs =
     (let staged = temp_output_path (pp_path pp) in
      case fs_overwrite staged (patch_bytes pp st ly) fs of
        (False, fs) \<Rightarrow> (unexpected Io_Failure, fs, 0)
      | (True, fs) \<Rightarrow>
          (case fst (postings_open fs (new_postings staged default_spill_threshold)) of
             Inl err \<Rightarrow> (Inl err, fs, 0)
           | Inr _ \<Rightarrow>
               (case fs_rename staged (pp_path pp) fs of
                  (False, fs) \<Rightarrow> (unexpected Io_Failure, fs, 0)
                | (True, fs) \<Rightarrow>
                    (case fs_file_size (pp_path pp) fs of
                       None \<Rightarrow> (unexpected Io_Failure, fs, 0)
                     | Some final_size \<Rightarrow> (Inr (), fs, final_size)))))"

definition final_metrics :: "merge_state \<Rightarrow> layout \<Rightarrow> u64 \<Rightarrow> build_metrics" where
  "final_metrics st ly final_size =
     (let m = ms_metrics st; posting_bytes = ly_metadata_offset ly - fixed_header_size in
      m\<lparr>bm_occurrence_count := ms_total_occurrences st, bm_distinct_hash_count := ms_distinct_hash_count st,
        bm_posting_bytes := posting_bytes, bm_metadata_bytes := ly_directory_offset ly - ly_metadata_offset ly,
        bm_directory_bytes := ly_directory_byte_length ly,
        bm_sparse_directory_bytes := of_nat (ly_sparse_count ly) * 22,
        bm_peak_temp_bytes := bm_spill_bytes m + fixed_header_size + posting_bytes + ly_directory_byte_length ly,
        bm_final_artifact_bytes := final_size\<rparr>)"

section \<open>\<open>merge_runs\<close> and \<open>finalize\<close>\<close>

definition start_merge :: "file_writer \<Rightarrow> file_writer \<Rightarrow> build_metrics \<Rightarrow> merge_state" where
  "start_merge w spool metrics = \<lparr>ms_writer = w, ms_dirspool_writer = spool, ms_pending = [], ms_sparse = [],
     ms_metrics = metrics, ms_have_active_hash = False, ms_active_hash = 0, ms_active_hash_offset = 0,
     ms_active_occurrence_count = 0, ms_active_distinct_game_count = 0, ms_active_min_ply = 0,
     ms_active_max_ply = 0, ms_have_active_game = False, ms_active_game_id = 0,
     ms_have_flushed_game_in_hash = False, ms_previous_flushed_game_id = 0, ms_active_plies = [],
     ms_distinct_hash_count = 0, ms_total_occurrences = 0, ms_previous = None\<rparr>"

text \<open>Opens the runs and the two output files and runs the merge loop; \<open>front\<close> is the heap's tie break.\<close>
definition merge_postings ::
  "(posting_cursor list \<Rightarrow> nat list \<Rightarrow> nat) \<Rightarrow> filesystem \<Rightarrow> position_postings \<Rightarrow> merge_state option \<times> filesystem" where
  "merge_postings front fs pp =
     (let fetch = fetch_posting (pp_game_metadata pp) in
      case open_cursors fs (pp_spill_paths pp) \<bind> start_cursors fetch 0 of
        None \<Rightarrow> (None, fs)
      | Some (cursors, heap) \<Rightarrow>
          (case ofstream_open (temp_output_path (pp_path pp)) fs of
             (None, fs) \<Rightarrow> (None, fs)
           | (Some output, fs) \<Rightarrow>
               (case put_bytes (replicate 88 0) (file_writer_of output) of
                  None \<Rightarrow> (None, fs)
                | Some w \<Rightarrow>
                    (case ofstream_open (dirspool_path (pp_path pp)) fs of
                       (None, fs) \<Rightarrow> (None, fs)
                     | (Some dirspool, fs) \<Rightarrow>
                         (do { st \<leftarrow> heap_merge front fetch pc_current visit_posting cursors heap
                                      (start_merge w (file_writer_of dirspool) (pp_metrics pp));
                               st \<leftarrow> flush_hash st;
                               flush_directory_block st }, fs)))))"

text \<open>\<open>merge_runs\<close> up to the destructor of its \<open>temp_artifact_guard\<close>.\<close>
definition merge_runs_body ::
  "(posting_cursor list \<Rightarrow> nat list \<Rightarrow> nat) \<Rightarrow> filesystem \<Rightarrow> position_postings
     \<Rightarrow> unit result \<times> filesystem \<times> position_postings" where
  "merge_runs_body front fs pp =
     (case merge_postings front fs pp of
        (None, fs) \<Rightarrow> (unexpected Io_Failure, fs, pp)
      | (Some st, fs) \<Rightarrow>
          (case remove_spills (pp_spill_paths pp) fs of
             (False, fs) \<Rightarrow> (unexpected Io_Failure, fs, pp)
           | (True, fs) \<Rightarrow>
               let pp = pp\<lparr>pp_spill_paths := []\<rparr> in
               (case write_sections pp st fs of
                  (None, fs) \<Rightarrow> (unexpected Io_Failure, fs, pp)
                | (Some ly, fs) \<Rightarrow>
                    (case install pp st ly fs of
                       (Inl err, fs, _) \<Rightarrow> (Inl err, fs, pp)
                     | (Inr _, fs, final_size) \<Rightarrow>
                         (Inr (), fs, pp\<lparr>pp_metrics := final_metrics st ly final_size\<rparr>)))))"

text \<open>The destructor of \<open>temp_artifact_guard\<close>.\<close>
definition release_artifacts :: "path list \<Rightarrow> path list \<Rightarrow> filesystem \<Rightarrow> filesystem" where
  "release_artifacts spill_paths extra_paths fs = fs_discard_all extra_paths (fs_discard_all spill_paths fs)"

definition merge_runs ::
  "(posting_cursor list \<Rightarrow> nat list \<Rightarrow> nat) \<Rightarrow> filesystem \<Rightarrow> position_postings
     \<Rightarrow> unit result \<times> filesystem \<times> position_postings" where
  "merge_runs front fs pp =
     (case merge_runs_body front fs pp of
        (res, fs, pp) \<Rightarrow>
          (res,
           release_artifacts (pp_spill_paths pp) [dirspool_path (pp_path pp), temp_output_path (pp_path pp)] fs,
           pp\<lparr>pp_spill_paths := []\<rparr>))"

definition finalize ::
  "(posting_cursor list \<Rightarrow> nat list \<Rightarrow> nat) \<Rightarrow> filesystem \<Rightarrow> position_postings
     \<Rightarrow> unit result \<times> filesystem \<times> position_postings" where
  "finalize front fs pp =
     (if pp_spill_threshold pp = 0 then (unexpected Invalid_Argument, fs, pp)
      else case spill_current_buffer fs pp of
          (Inl err, fs, pp) \<Rightarrow> (Inl err, fs, pp)
        | (Inr _, fs, pp) \<Rightarrow> merge_runs front fs pp)"

section \<open>Ownership\<close>

text \<open>The destructor, and the move assignment that takes over another object's members.\<close>
definition destroy_postings :: "position_postings \<Rightarrow> filesystem \<Rightarrow> filesystem" where
  "destroy_postings pp fs = fs_discard_all (pp_spill_paths pp) fs"

definition move_assign ::
  "position_postings \<Rightarrow> position_postings \<Rightarrow> filesystem \<Rightarrow> position_postings \<times> filesystem" where
  "move_assign this other fs = (other, fs_discard_all (pp_spill_paths this) fs)"

section \<open>\<open>build\<close>\<close>

text \<open>
  What \<open>build\<close> uses of a game store: the count, the rows \<open>for_each_replay_game\<close> delivers
  and the error it ends with, if any.
\<close>
record replay_store =
  rs_count :: "int result"
  rs_games :: "replay_game_record list"
  rs_end :: "unit result"

text \<open>
  The board of the chess library: the starting position, a move and the hash of a position.
\<close>
record 'board board_ops =
  bo_initial :: 'board
  bo_apply :: "'board \<Rightarrow> u16 \<Rightarrow> 'board"
  bo_hash :: "'board \<Rightarrow> u64"

definition replay_row ::
  "'b board_ops \<Rightarrow> replay_game_record \<Rightarrow> u16 option \<Rightarrow> u16 option \<Rightarrow> 'b \<Rightarrow> u16 \<Rightarrow> u16 \<Rightarrow> position_row" where
  "replay_row ops game white_elo black_elo board ply encoded_move =
     \<lparr>pr_zobrist_hash = bo_hash ops board, pr_game_id = rg_id game, pr_ply = ply, pr_encoded_move = encoded_move,
      pr_result = result_code (rg_result game), pr_white_elo = white_elo, pr_black_elo = black_elo\<rparr>"

text \<open>The loop over the moves from \<open>index\<close> on; \<open>None\<close> when the ply number no longer fits.\<close>
fun replay_moves ::
  "'b board_ops \<Rightarrow> replay_game_record \<Rightarrow> u16 option \<Rightarrow> u16 option \<Rightarrow> nat \<Rightarrow> 'b \<Rightarrow> u16 list \<Rightarrow> position_row list option" where
  "replay_moves ops game white_elo black_elo index board [] = Some []"
| "replay_moves ops game white_elo black_elo index board (encoded_move # moves) =
     (if index \<ge> 65535 then None
      else let board = bo_apply ops board encoded_move in
        map_option (Cons (replay_row ops game white_elo black_elo board (of_nat (index + 1)) encoded_move))
          (replay_moves ops game white_elo black_elo (index + 1) board moves))"

definition replay_rows :: "'b board_ops \<Rightarrow> replay_game_record \<Rightarrow> position_row list option" where
  "replay_rows ops game =
     (case (narrow_elo (rg_white_elo game), narrow_elo (rg_black_elo game)) of
        (Inr white_elo, Inr black_elo) \<Rightarrow>
          map_option (Cons (replay_row ops game white_elo black_elo (bo_initial ops) 0 0))
            (replay_moves ops game white_elo black_elo 0 (bo_initial ops) (rg_moves game))
      | _ \<Rightarrow> None)"

text \<open>\<open>for_each_replay_game\<close> with the callback of \<open>build\<close>; counts the games it was called for.\<close>
fun replay_games ::
  "'b board_ops \<Rightarrow> replay_game_record list \<Rightarrow> unit result \<Rightarrow> nat \<Rightarrow> filesystem \<Rightarrow> position_postings
     \<Rightarrow> unit result \<times> nat \<times> filesystem \<times> position_postings" where
  "replay_games ops [] ending replayed fs pp = (ending, replayed, fs, pp)"
| "replay_games ops (game # games) ending replayed fs pp =
     (case replay_rows ops game of
        None \<Rightarrow> (unexpected Io_Failure, replayed + 1, fs, pp)
      | Some rows \<Rightarrow>
          (case append_batch rows fs pp of
             (Inl err, fs, pp) \<Rightarrow> (Inl err, replayed + 1, fs, pp)
           | (Inr _, fs, pp) \<Rightarrow> replay_games ops games ending (replayed + 1) fs pp))"

text \<open>
  The local \<open>postings\<close> object is destroyed on every path; the game count is compared with the
  value the last \<open>append\<close> left in \<open>indexed_game_count_\<close>.
\<close>
definition build ::
  "(posting_cursor list \<Rightarrow> nat list \<Rightarrow> nat) \<Rightarrow> 'b board_ops \<Rightarrow> replay_store \<Rightarrow> path \<Rightarrow> nat \<Rightarrow> filesystem
     \<Rightarrow> build_metrics result \<times> filesystem" where
  "build front ops store path spill_threshold fs =
     (let pp = new_postings path spill_threshold in
      case rs_count store of
        Inl err \<Rightarrow> (unexpected Io_Failure, destroy_postings pp fs)
      | Inr game_count \<Rightarrow>
          (if game_count < 0 then (unexpected Io_Failure, destroy_postings pp fs)
           else let pp = pp\<lparr>pp_indexed_game_count := word_of_int game_count,
                            pp_metrics := (pp_metrics pp)\<lparr>bm_game_count := word_of_int game_count\<rparr>\<rparr> in
             case replay_games ops (rs_games store) (rs_end store) 0 fs pp of
               (Inl err, replayed, fs, pp) \<Rightarrow> (Inl err, destroy_postings pp fs)
             | (Inr _, replayed, fs, pp) \<Rightarrow>
                 (if of_nat replayed \<noteq> pp_indexed_game_count pp then (unexpected Io_Failure, destroy_postings pp fs)
                  else case finalize front fs pp of
                      (Inl err, fs, pp) \<Rightarrow> (Inl err, destroy_postings pp fs)
                    | (Inr _, fs, pp) \<Rightarrow> (Inr (pp_metrics pp), destroy_postings pp fs))))"

end
