(* ===== verification/Postings_Merge.thy ===== *)
theory Postings_Merge
  imports Postings_Artifact Postings_Builder
begin

text \<open>
  The merge loop of \<open>merge_runs\<close> against its abstract counterpart: visiting sorted records
  one by one builds an abstract index, and the bytes handed to the two writers, the pending
  directory entries and the counters are at every moment the image of that index. The
  lemmas are partial correctness (a step that returns keeps the relation) plus totality on
  an unlimited device.
\<close>

section \<open>Writer calls as byte sequences\<close>

lemma write_hash_highs_put_bytes:
  assumes "\<forall>i<length ds. bitmap_bit bitmap (index + i) \<longleftrightarrow> drop_bit 40 (ds ! i) \<noteq> 0"
  shows "write_hash_highs bitmap index ds w = put_bytes (concat (map hash_high_bytes ds)) w"
  using assms
proof (induction ds arbitrary: index w)
  case (Cons d ds)
  have b: "bitmap_bit bitmap index \<longleftrightarrow> drop_bit 40 d \<noteq> 0" using Cons.prems by force
  have bs: "\<forall>i<length ds. bitmap_bit bitmap (index + 1 + i) \<longleftrightarrow> drop_bit 40 (ds ! i) \<noteq> 0"
    using Cons.prems by force
  show ?case
    using Cons.IH [OF bs] b by (simp add: put_bytes_append hash_high_bytes_def write_uleb128_put_bytes cong: Option.bind_cong)
qed simp

lemma write_entry_fields_put_bytes: "write_entry_fields es w = put_bytes (concat (map entry_field_bytes es)) w"
  by (induction es arbitrary: w)
    (simp_all add: put_bytes_append entry_field_bytes_def write_uleb128_put_bytes cong: Option.bind_cong)

lemma write_directory_block_put_bytes: "write_directory_block es w = put_bytes (encode_directory_block es) w"
proof -
  have "write_hash_highs (hash_exception_bitmap es) 0 (hash_deltas es) w
      = put_bytes (concat (map hash_high_bytes (hash_deltas es))) w" for w
    by (rule write_hash_highs_put_bytes) (simp add: hash_exception_bitmap_def bitmap_bit_of)
  then show ?thesis
    by (simp add: write_directory_block_def encode_directory_block_def put_bytes_append write_fixed_put_bytes
        write_entry_fields_put_bytes cong: Option.bind_cong)
qed

lemma write_ply_deltas_put_bytes: "write_ply_deltas p plies w = put_bytes (ply_delta_bytes p plies) w"
  by (induction plies arbitrary: p w) (simp_all add: put_bytes_append write_uleb128_put_bytes cong: Option.bind_cong)

lemma metadata_flag_bits_eq: "metadata_flag_bits m = metadata_flags m"
  by (simp add: metadata_flag_bits_def metadata_flags_def)

lemma write_metadata_put_bytes: "write_metadata table w = put_bytes (metadata_bytes table) w"
proof (induction table arbitrary: w)
  case (Cons item table)
  obtain g m where "item = (g, m)" by force
  then show ?case
    using Cons.IH
    by (simp add: metadata_bytes_def encode_metadata_def put_bytes_append write_fixed_put_bytes value_or_zero_def
        metadata_flag_bits_eq cong: Option.bind_cong)
qed (simp add: metadata_bytes_def)

definition encode_spool :: "u64 \<Rightarrow> spool_entry \<Rightarrow> bytes" where
  "encode_spool directory_offset e = write_little_endian (sp_first_hash e)
     @ write_little_endian (directory_offset + sp_spool_offset e) @ write_little_endian (sp_byte_length e)
     @ write_little_endian (sp_entry_count e)"

lemma write_sparse_put_bytes: "write_sparse off es w = put_bytes (concat (map (encode_spool off) es)) w"
  by (induction es arbitrary: w)
    (simp_all add: put_bytes_append encode_spool_def write_fixed_put_bytes cong: Option.bind_cong)

section \<open>The abstract merge\<close>

text \<open>
  The index under construction: the finished hashes, and the active hash with the groups
  already flushed, the active game and its plies.
\<close>
type_synonym active_hash = "u64 \<times> (u32 \<times> u16 list) list \<times> u32 \<times> u16 list"
type_synonym partial_index = "index_content \<times> active_hash option"

definition last_record :: "active_hash option \<Rightarrow> posting_record option" where
  "last_record active = map_option (\<lambda>(h, flushed, g, plies). Posting_Record h g (last plies)) active"

fun abs_add :: "posting_record \<Rightarrow> partial_index \<Rightarrow> partial_index" where
  "abs_add (Posting_Record hash game ply) (fin, None) = (fin, Some (hash, [], game, [ply]))"
| "abs_add (Posting_Record hash game ply) (fin, Some (h, flushed, g, plies)) =
     (if hash \<noteq> h then (fin @ [(h, flushed @ [(g, plies)])], Some (hash, [], game, [ply]))
      else if game \<noteq> g then (fin, Some (h, flushed @ [(g, plies)], game, [ply]))
      else (fin, Some (h, flushed, g, plies @ [ply])))"

definition abs_visit :: "posting_record \<Rightarrow> partial_index \<Rightarrow> partial_index" where
  "abs_visit r pidx = (if last_record (snd pidx) = Some r then pidx else abs_add r pidx)"

fun abs_close :: "partial_index \<Rightarrow> index_content" where
  "abs_close (fin, None) = fin"
| "abs_close (fin, Some (h, flushed, g, plies)) = fin @ [(h, flushed @ [(g, plies)])]"

definition group_records :: "u64 \<Rightarrow> u32 \<times> u16 list \<Rightarrow> posting_record list" where
  "group_records hash item = map (Posting_Record hash (fst item)) (snd item)"

definition records_of :: "index_content \<Rightarrow> posting_record list" where
  "records_of content = concat (map (\<lambda>(hash, groups). concat (map (group_records hash) groups)) content)"

text \<open>The shape of an index whose records ascend.\<close>
definition ascending :: "index_content \<Rightarrow> bool" where
  "ascending content \<longleftrightarrow> sorted_wrt (<) (map fst content)
     \<and> (\<forall>(hash, groups) \<in> set content. groups \<noteq> [] \<and> wf_groups groups)"

lemma wf_groups_snoc:
  "wf_groups (groups @ [(g, plies)]) \<longleftrightarrow> wf_groups groups \<and> (\<forall>h\<in>fst ` set groups. h < g)
     \<and> g \<noteq> 0 \<and> plies \<noteq> [] \<and> sorted_wrt (<) plies"
  by (auto simp: wf_groups_def sorted_wrt_append)

lemma ascending_snoc:
  "ascending (content @ [(h, groups)]) \<longleftrightarrow> ascending content \<and> (\<forall>k\<in>fst ` set content. k < h)
     \<and> groups \<noteq> [] \<and> wf_groups groups"
  by (auto simp: ascending_def sorted_wrt_append)

lemma records_of_simps [simp]:
  "records_of [] = []" "records_of (xs @ ys) = records_of xs @ records_of ys"
  "records_of (item # content) = concat (map (group_records (fst item)) (snd item)) @ records_of content"
  by (simp_all add: records_of_def case_prod_unfold)

lemma abs_add_records: "records_of (abs_close (abs_add r pidx)) = records_of (abs_close pidx) @ [r]"
  by (cases "(r, pidx)" rule: abs_add.cases) (auto simp: group_records_def)

lemma last_record_close:
  assumes "ascending (abs_close pidx)" and "last_record (snd pidx) = Some q"
  shows "records_of (abs_close pidx) \<noteq> [] \<and> last (records_of (abs_close pidx)) = q"
  using assms
  by (cases pidx rule: abs_close.cases)
    (auto simp: last_record_def ascending_snoc wf_groups_snoc group_records_def last_map)

lemma ascending_add:
  assumes "ascending (abs_close pidx)" and "rec_game_key r \<noteq> 0"
    and "\<forall>q. last_record (snd pidx) = Some q \<longrightarrow> q < r" and "snd pidx = None \<longrightarrow> fst pidx = []"
  shows "ascending (abs_close (abs_add r pidx))"
proof (cases "(r, pidx)" rule: abs_add.cases)
  case (1 hash game ply fin)
  then show ?thesis
    using assms by (simp add: ascending_def wf_groups_def)
next
  case (2 hash game ply fin h flushed g plies)
  have lt: "Posting_Record h g (last plies) < Posting_Record hash game ply"
    using assms(3) 2 by (simp add: last_record_def)
  have asc: "ascending fin" "\<forall>k\<in>fst ` set fin. k < h" "wf_groups flushed" "\<forall>k\<in>fst ` set flushed. k < g"
      "g \<noteq> 0" "plies \<noteq> []" "sorted_wrt (<) plies"
    using assms(1) 2 by (auto simp: ascending_snoc wf_groups_snoc)
  have game: "game \<noteq> 0" using assms(2) 2 by simp
  have last: "q \<le> last plies" if "q \<in> set plies" for q
    using asc(7) that by (induction plies) (auto simp: less_imp_le)
  note wf = ascending_def wf_groups_def sorted_wrt_append
  consider "h < hash" | "hash = h" "g < game" | "hash = h" "game = g" "last plies < ply"
    using lt by (auto simp: less_posting_record_def split: if_splits)
  then show ?thesis
  proof cases
    case a: 1
    with 2 have "abs_close (abs_add r pidx) = (fin @ [(h, flushed @ [(g, plies)])]) @ [(hash, [(game, [ply])])]"
      by auto
    then show ?thesis
      using asc game a by (auto simp only: ascending_snoc wf_groups_snoc) (auto simp: wf_groups_def)
  next
    case b: 2
    with 2 have "abs_close (abs_add r pidx) = fin @ [(h, (flushed @ [(g, plies)]) @ [(game, [ply])])]" by simp
    then show ?thesis
      using asc game b by (auto simp only: ascending_snoc wf_groups_snoc) auto
  next
    case c: 3
    with 2 have "abs_close (abs_add r pidx) = fin @ [(h, flushed @ [(g, plies @ [ply])])]" by simp
    then show ?thesis
      using asc c last by (auto simp only: ascending_snoc wf_groups_snoc)
        (auto simp: sorted_wrt_append intro: le_less_trans)
  qed
qed

lemma last_record_add: "last_record (snd (abs_add r pidx)) = Some r"
  by (cases "(r, pidx)" rule: abs_add.cases) (auto simp: last_record_def)

lemma snd_abs_add: "snd (abs_add r pidx) \<noteq> None"
  by (cases "(r, pidx)" rule: abs_add.cases) auto

lemma sorted_le_last: "sorted xs \<Longrightarrow> q \<in> set xs \<Longrightarrow> q \<le> last xs"
  by (induction xs) auto

text \<open>Visiting a sorted list of records builds the index of its distinct records.\<close>
lemma abs_visit_sorted:
  assumes "sorted xs" and "\<forall>r\<in>set xs. rec_game_key r \<noteq> 0"
  shows "let pidx = fold abs_visit xs ([], None) in
     ascending (abs_close pidx) \<and> sorted_wrt (<) (records_of (abs_close pidx))
     \<and> set (records_of (abs_close pidx)) = set xs
     \<and> last_record (snd pidx) = (if xs = [] then None else Some (last xs))
     \<and> (snd pidx = None \<longrightarrow> fst pidx = [])"
  using assms
proof (induction xs rule: rev_induct)
  case Nil
  then show ?case by (simp add: ascending_def last_record_def)
next
  case (snoc r xs)
  let ?p = "fold abs_visit xs ([], None)"
  have IH: "ascending (abs_close ?p)" "sorted_wrt (<) (records_of (abs_close ?p))"
      "set (records_of (abs_close ?p)) = set xs" "last_record (snd ?p) = (if xs = [] then None else Some (last xs))"
      "snd ?p = None \<longrightarrow> fst ?p = []"
    using snoc by (simp_all add: sorted_append Let_def)
  show ?case
  proof (cases "last_record (snd ?p) = Some r")
    case True
    then have "xs \<noteq> []" "last xs = r" using IH(4) by (auto split: if_splits)
    then have "set (xs @ [r]) = set xs" using last_in_set by fastforce
    moreover have "fold abs_visit (xs @ [r]) ([], None) = ?p" using True by (simp add: abs_visit_def)
    ultimately show ?thesis unfolding Let_def using IH True by (simp only: last_snoc) simp
  next
    case False
    have lt: "\<forall>q. last_record (snd ?p) = Some q \<longrightarrow> q < r"
    proof (intro allI impI)
      fix q assume q: "last_record (snd ?p) = Some q"
      then have "q \<in> set xs" using IH(4) by (auto split: if_splits)
      then have "q \<le> r" using snoc.prems(1) by (simp add: sorted_append)
      then show "q < r" using q False by (auto simp: le_less)
    qed
    have le: "\<forall>q\<in>set xs. q < r"
    proof
      fix q assume q: "q \<in> set xs"
      then have ne: "xs \<noteq> []" by auto
      have "q \<le> last xs" using snoc.prems(1) q by (intro sorted_le_last) (simp_all add: sorted_append)
      also have "last xs < r" using lt IH(4) ne by simp
      finally show "q < r" .
    qed
    have "ascending (abs_close (abs_add r ?p))"
      using IH(1,5) lt snoc.prems(2) by (intro ascending_add) auto
    moreover have "fold abs_visit (xs @ [r]) ([], None) = abs_add r ?p" using False by (simp add: abs_visit_def)
    ultimately show ?thesis
      unfolding Let_def using IH(2,3) le snd_abs_add [of r ?p]
      by (auto simp: abs_add_records sorted_wrt_append last_record_add)
  qed
qed

section \<open>The relation between the loop state and the abstract index\<close>

fun spool_records :: "nat \<Rightarrow> directory_entry list list \<Rightarrow> spool_entry list" where
  "spool_records off [] = []"
| "spool_records off (b # bs) =
     \<lparr>sp_first_hash = dr_hash (hd b), sp_spool_offset = of_nat off,
      sp_byte_length = of_nat (length (encode_directory_block b)), sp_entry_count = of_nat (length b)\<rparr>
     # spool_records (off + length (encode_directory_block b)) bs"

lemma spool_records_append:
  "spool_records off (xs @ ys) = spool_records off xs @ spool_records (off + length (directory_bytes xs)) ys"
  by (induction xs arbitrary: off) (auto simp: add.assoc)

lemma directory_bytes_append [simp]: "directory_bytes (xs @ ys) = directory_bytes xs @ directory_bytes ys"
  by (simp add: directory_bytes_def)

lemma postings_bytes_simps [simp]:
  "postings_bytes [] = []" "postings_bytes (xs @ ys) = postings_bytes xs @ postings_bytes ys"
  "postings_bytes [(h, groups)] = encode_groups None groups"
  by (simp_all add: postings_bytes_def)

lemma dir_entries_append:
  "dir_entries off (xs @ ys) = dir_entries off xs @ dir_entries (off + length (postings_bytes xs)) ys"
  by (induction xs arbitrary: off) (auto simp: postings_bytes_def add.assoc case_prod_unfold)

text \<open>Full blocks are in the spool, the entries of the last one are pending.\<close>
definition spooled :: "directory_entry list list \<Rightarrow> merge_state \<Rightarrow> bool" where
  "spooled blocks st \<longleftrightarrow> (\<forall>b\<in>set blocks. b \<noteq> [] \<and> length b \<le> max_directory_block_entries)
     \<and> fw_bytes (ms_dirspool_writer st) = directory_bytes blocks \<and> ms_sparse st = spool_records 0 blocks"

definition directory_rep :: "index_content \<Rightarrow> merge_state \<Rightarrow> bool" where
  "directory_rep fin st \<longleftrightarrow>
     (\<exists>blocks. spooled blocks st \<and> concat blocks @ ms_pending st = dir_entries 88 fin
        \<and> length (ms_pending st) < max_directory_block_entries)"

definition active_rep :: "active_hash option \<Rightarrow> nat \<Rightarrow> merge_state \<Rightarrow> bool" where
  "active_rep active offset st \<longleftrightarrow>
     (case active of
        None \<Rightarrow> \<not> ms_have_active_hash st \<and> \<not> ms_have_active_game st \<and> \<not> ms_have_flushed_game_in_hash st
                \<and> ms_active_plies st = []
      | Some (h, flushed, g, plies) \<Rightarrow>
          let groups = flushed @ [(g, plies)] in
          ms_have_active_hash st \<and> ms_active_hash st = h \<and> ms_active_hash_offset st = of_nat offset
          \<and> ms_active_occurrence_count st = of_nat (length (group_occurrences groups))
          \<and> ms_active_distinct_game_count st = of_nat (length groups)
          \<and> ms_active_min_ply st = fold min (group_plies groups) 0xffff
          \<and> ms_active_max_ply st = fold max (group_plies groups) 0
          \<and> ms_have_active_game st \<and> ms_active_game_id st = g \<and> ms_active_plies st = plies \<and> plies \<noteq> []
          \<and> ms_have_flushed_game_in_hash st = (flushed \<noteq> [])
          \<and> (flushed \<noteq> [] \<longrightarrow> ms_previous_flushed_game_id st = fst (last flushed)))"

definition active_flushed :: "active_hash option \<Rightarrow> (u32 \<times> u16 list) list" where
  "active_flushed active = (case active of None \<Rightarrow> [] | Some (h, flushed, g, plies) \<Rightarrow> flushed)"

text \<open>\<open>w0\<close> and \<open>s0\<close> are the writers the merge started with.\<close>
definition rep :: "file_writer \<Rightarrow> file_writer \<Rightarrow> partial_index \<Rightarrow> merge_state \<Rightarrow> bool" where
  "rep w0 s0 pidx st \<longleftrightarrow>
     fw_inv (ms_writer st) \<and> fw_same_file w0 (ms_writer st)
     \<and> fw_inv (ms_dirspool_writer st) \<and> fw_same_file s0 (ms_dirspool_writer st)
     \<and> fw_bytes (ms_writer st) = replicate 88 0 @ postings_bytes (fst pidx) @ encode_groups None (active_flushed (snd pidx))
     \<and> directory_rep (fst pidx) st \<and> active_rep (snd pidx) (88 + length (postings_bytes (fst pidx))) st
     \<and> ms_distinct_hash_count st = of_nat (length (fst pidx))
     \<and> ms_total_occurrences st = of_nat (content_occurrences (abs_close pidx))"

lemma encode_groups_snoc:
  "encode_groups previous (xs @ [x]) =
     encode_groups previous xs @ encode_group (if xs = [] then previous else Some (fst (last xs))) x"
  by (induction xs arbitrary: previous) auto

text \<open>\<open>flush_game_group\<close> appends the group of the active game.\<close>
lemma flush_game_group_put_bytes:
  assumes "active_rep (Some (h, flushed, g, plies)) offset st"
  shows "flush_game_group st =
     map_option (\<lambda>w. st\<lparr>ms_writer := w, ms_have_flushed_game_in_hash := True, ms_previous_flushed_game_id := g,
                        ms_have_active_game := False, ms_active_plies := []\<rparr>)
       (put_bytes (encode_group (if flushed = [] then None else Some (fst (last flushed))) (g, plies)) (ms_writer st))"
  using assms
  by (auto simp: active_rep_def Let_def flush_game_group_def encode_group_def put_bytes_append write_uleb128_put_bytes
      write_ply_deltas_put_bytes map_option_bind comp_def cong: Option.bind_cong split: Option.bind_splits)

definition directory_unlimited :: "file_writer \<Rightarrow> file_writer \<Rightarrow> bool" where
  "directory_unlimited w0 s0 \<longleftrightarrow> fw_unlimited w0 \<and> fw_unlimited s0"

text \<open>\<open>flush_directory_block\<close> moves the pending entries into the spool.\<close>
lemma ucast_of_nat_down: "LENGTH('b) \<le> LENGTH('a) \<Longrightarrow> (ucast (of_nat n :: 'a::len word) :: 'b::len word) = of_nat n"
  by transfer (simp add: take_bit_take_bit min_absorb1 flip: take_bit_of_nat)

lemma flush_directory_block_Some:
  assumes "flush_directory_block st = Some st'" and "spooled blocks st" and "fw_inv (ms_dirspool_writer st)"
    and "length (ms_pending st) \<le> max_directory_block_entries"
  shows "\<exists>w m. st' = st\<lparr>ms_dirspool_writer := w, ms_metrics := m, ms_pending := [], ms_sparse := ms_sparse st'\<rparr>
     \<and> fw_inv w \<and> fw_same_file (ms_dirspool_writer st) w
     \<and> spooled (blocks @ (if ms_pending st = [] then [] else [ms_pending st])) st'"
proof (cases "ms_pending st = []")
  case True
  then have "st' = st" using assms(1) by (simp add: flush_directory_block_def)
  then show ?thesis using True assms(2,3)
    by (intro exI [of _ "ms_dirspool_writer st"] exI [of _ "ms_metrics st"]) (cases st, simp)
next
  case False
  let ?es = "ms_pending st"
  obtain w where w: "put_bytes (encode_directory_block ?es) (ms_dirspool_writer st) = Some w"
      and st': "st' = st\<lparr>ms_dirspool_writer := w, ms_metrics := block_metrics ?es (ms_metrics st),
                      ms_sparse := ms_sparse st @
                        [\<lparr>sp_first_hash = dr_hash (hd ?es), sp_spool_offset = fw_offset (ms_dirspool_writer st),
                          sp_byte_length = ucast (fw_offset w - fw_offset (ms_dirspool_writer st)),
                          sp_entry_count = of_nat (length ?es)\<rparr>],
                      ms_pending := []\<rparr>"
    using assms(1) False
    by (auto simp: flush_directory_block_def write_directory_block_put_bytes Let_def split: Option.bind_splits)
  note p = put_bytes_Some [OF w assms(3)]
  have off: "fw_offset (ms_dirspool_writer st) = of_nat (length (directory_bytes blocks))"
    using assms(2,3) by (simp add: fw_inv_def spooled_def)
  have "fw_offset w - fw_offset (ms_dirspool_writer st) = of_nat (length (encode_directory_block ?es))"
    using p assms(2) off by (simp add: fw_inv_def spooled_def)
  then have "ms_sparse st' = spool_records 0 (blocks @ [?es])"
    using assms(2) st' off by (simp add: spooled_def spool_records_append ucast_of_nat_down)
  then have "spooled (blocks @ [?es]) st'"
    using assms(2,4) p st' False by (auto simp: spooled_def directory_bytes_def)
  then show ?thesis
    using p st' False by (intro exI [of _ w] exI [of _ "block_metrics ?es (ms_metrics st)"]) simp
qed

lemma content_occurrences_simps [simp]:
  "content_occurrences [] = 0" "content_occurrences (xs @ ys) = content_occurrences xs + content_occurrences ys"
  "content_occurrences [(h, groups)] = length (group_occurrences groups)"
  by (simp_all add: content_occurrences_def)

lemma group_snoc [simp]:
  "length (group_occurrences (xs @ ys)) = length (group_occurrences xs) + length (group_occurrences ys)"
  "group_plies (xs @ ys) = group_plies xs @ group_plies ys"
  "length (group_occurrences ((g, plies) # xs)) = length plies + length (group_occurrences xs)"
  "group_plies ((g, plies) # xs) = plies @ group_plies xs"
  "group_occurrences [] = []" "group_plies [] = []"
  by (simp_all add: group_occurrences_def group_plies_def)

lemmas rep_defs = rep_def active_flushed_def

text \<open>Flushing the active game group, as a step of the relation.\<close>
lemma flush_game_group_rep:
  assumes "flush_game_group st = Some st'" and "rep w0 s0 (fin, Some (h, flushed, g, plies)) st"
  shows "\<exists>w. st' = st\<lparr>ms_writer := w, ms_have_flushed_game_in_hash := True, ms_previous_flushed_game_id := g,
                    ms_have_active_game := False, ms_active_plies := []\<rparr>
     \<and> fw_inv w \<and> fw_same_file w0 w
     \<and> fw_bytes w = replicate 88 0 @ postings_bytes fin @ encode_groups None (flushed @ [(g, plies)])"
proof -
  have a: "active_rep (Some (h, flushed, g, plies)) (88 + length (postings_bytes fin)) st"
    and inv: "fw_inv (ms_writer st)" "fw_same_file w0 (ms_writer st)"
    and bytes: "fw_bytes (ms_writer st) = replicate 88 0 @ postings_bytes fin @ encode_groups None flushed"
    using assms(2) by (simp_all add: rep_defs)
  obtain w where w: "put_bytes (encode_group (if flushed = [] then None else Some (fst (last flushed))) (g, plies))
        (ms_writer st) = Some w"
      and st': "st' = st\<lparr>ms_writer := w, ms_have_flushed_game_in_hash := True, ms_previous_flushed_game_id := g,
                    ms_have_active_game := False, ms_active_plies := []\<rparr>"
    using assms(1) unfolding flush_game_group_put_bytes [OF a] by auto
  show ?thesis
    using put_bytes_Some [OF w inv(1)] st' bytes fw_same_file_trans [OF inv(2)]
    by (intro exI [of _ w]) (simp add: encode_groups_snoc)
qed

lemma rep_finish:
  assumes "rep w0 s0 (fin, Some (h, flushed, g, plies)) st"
    and "fw_bytes w = replicate 88 0 @ postings_bytes fin @ encode_groups None (flushed @ [(g, plies)])" and "fw_inv w"
  shows "\<lparr>dr_hash = ms_active_hash st, dr_offset = ms_active_hash_offset st,
           dr_byte_length = fw_offset w - ms_active_hash_offset st, dr_occurrence_count = ms_active_occurrence_count st,
           dr_distinct_game_count = ms_active_distinct_game_count st,
           dr_min_ply = ms_active_min_ply st, dr_max_ply = ms_active_max_ply st\<rparr>
     = dir_entry (88 + length (postings_bytes fin)) (h, flushed @ [(g, plies)])"
proof -
  have "fw_offset w = of_nat (88 + length (postings_bytes fin)) + of_nat (length (encode_groups None (flushed @ [(g, plies)])))"
    using assms(2,3) by (simp add: fw_inv_def)
  then show ?thesis
    using assms(1) by (simp add: rep_def active_rep_def Let_def dir_entry_def del: of_nat_add)
qed

text \<open>\<open>flush_hash\<close> finishes the active hash.\<close>
lemma flush_hash_rep:
  assumes "flush_hash st = Some st'" and "rep w0 s0 (fin, Some (h, flushed, g, plies)) st"
  shows "rep w0 s0 (fin @ [(h, flushed @ [(g, plies)])], None) st' \<and> ms_previous st' = ms_previous st"
proof -
  let ?item = "(h, flushed @ [(g, plies)])" and ?off = "88 + length (postings_bytes fin)"
  have active: "ms_have_active_hash st" using assms(2) by (simp add: rep_def active_rep_def Let_def)
  obtain st1 where st1: "flush_game_group st = Some st1"
    using assms(1) active by (auto simp: flush_hash_def split: Option.bind_splits)
  from flush_game_group_rep [OF st1 assms(2)] obtain w
    where w: "st1 = st\<lparr>ms_writer := w, ms_have_flushed_game_in_hash := True, ms_previous_flushed_game_id := g,
                    ms_have_active_game := False, ms_active_plies := []\<rparr>"
      "fw_inv w" "fw_same_file w0 w"
      "fw_bytes w = replicate 88 0 @ postings_bytes fin @ encode_groups None (flushed @ [(g, plies)])" by blast
  let ?st2 = "st1\<lparr>ms_pending := ms_pending st @ [dir_entry ?off ?item],
      ms_distinct_hash_count := ms_distinct_hash_count st + 1,
      ms_have_active_hash := False, ms_have_flushed_game_in_hash := False\<rparr>"
  have st': "(if length (ms_pending ?st2) = max_directory_block_entries then flush_directory_block ?st2 else Some ?st2) = Some st'"
  proof -
    have fin: "finish_hash st1 = ?st2"
      using rep_finish [OF assms(2) w(4,2)] by (simp add: finish_hash_def w(1))
    have "flush_hash st = (if length (ms_pending (finish_hash st1)) = max_directory_block_entries
        then flush_directory_block (finish_hash st1) else Some (finish_hash st1))"
      using active st1 by (simp add: flush_hash_def Let_def)
    from assms(1) [unfolded this fin] show ?thesis .
  qed
  obtain blocks where blocks: "spooled blocks st" "concat blocks @ ms_pending st = dir_entries 88 fin"
      "length (ms_pending st) < max_directory_block_entries"
    using assms(2) by (auto simp: rep_def directory_rep_def)
  have sp: "spooled blocks ?st2" using blocks(1) by (simp add: spooled_def w(1))
  have ents: "concat blocks @ ms_pending ?st2 = dir_entries 88 (fin @ [?item])"
    using blocks(2) by (simp add: dir_entries_append flip: append_assoc)
  have inv: "fw_inv (ms_dirspool_writer ?st2)" "fw_same_file s0 (ms_dirspool_writer ?st2)"
    using assms(2) by (simp_all add: rep_def w(1))
  have dir: "directory_rep (fin @ [?item]) st' \<and> fw_inv (ms_dirspool_writer st') \<and> fw_same_file s0 (ms_dirspool_writer st')
      \<and> (\<exists>d m p q. st' = ?st2\<lparr>ms_dirspool_writer := d, ms_metrics := m, ms_pending := p, ms_sparse := q\<rparr>)"
  proof (cases "length (ms_pending ?st2) = max_directory_block_entries")
    case True
    then have fl: "flush_directory_block ?st2 = Some st'" using st' by simp
    from flush_directory_block_Some [OF fl sp inv(1)] True obtain d m
      where d: "st' = ?st2\<lparr>ms_dirspool_writer := d, ms_metrics := m, ms_pending := [], ms_sparse := ms_sparse st'\<rparr>"
        "fw_inv d" "fw_same_file (ms_dirspool_writer ?st2) d"
        "spooled (blocks @ (if ms_pending ?st2 = [] then [] else [ms_pending ?st2])) st'" by auto
    have "ms_pending ?st2 \<noteq> []" by simp
    then have "spooled (blocks @ [ms_pending ?st2]) st'" using d(4) by simp
    moreover have "concat (blocks @ [ms_pending ?st2]) @ ms_pending st' = dir_entries 88 (fin @ [?item])"
      using ents by (subst d(1)) simp
    moreover have "length (ms_pending st') < max_directory_block_entries"
      by (subst d(1)) (simp add: max_directory_block_entries_def)
    moreover have "ms_dirspool_writer st' = d" by (subst d(1)) simp
    ultimately show ?thesis
      using d fw_same_file_trans [OF inv(2) d(3)] unfolding directory_rep_def by blast
  next
    case False
    then have "st' = ?st2" using st' by simp
    moreover have "directory_rep (fin @ [?item]) ?st2"
      unfolding directory_rep_def using sp ents False blocks(3) by (intro exI [of _ blocks]) auto
    moreover have "?st2 = ?st2\<lparr>ms_dirspool_writer := ms_dirspool_writer ?st2, ms_metrics := ms_metrics ?st2,
        ms_pending := ms_pending ?st2, ms_sparse := ms_sparse ?st2\<rparr>" by simp
    ultimately show ?thesis using inv by metis
  qed
  then obtain d m p q where st'': "st' = ?st2\<lparr>ms_dirspool_writer := d, ms_metrics := m, ms_pending := p, ms_sparse := q\<rparr>"
    by blast
  have "ms_writer st' = w" "ms_distinct_hash_count st' = ms_distinct_hash_count st + 1" "\<not> ms_have_active_hash st'"
      "\<not> ms_have_active_game st'" "\<not> ms_have_flushed_game_in_hash st'" "ms_active_plies st' = []"
      "ms_total_occurrences st' = ms_total_occurrences st" "ms_previous st' = ms_previous st"
    by (simp_all add: st'' w(1))
  then show ?thesis
    using dir w(2-4) assms(2) by (simp add: rep_defs active_rep_def)
qed

text \<open>One round of the merge loop.\<close>
lemma visit_posting_rep:
  assumes "visit_posting r st = Some st'" and "rep w0 s0 pidx st" and "ms_previous st = last_record (snd pidx)"
    and "snd pidx = None \<longrightarrow> fst pidx = []"
  shows "rep w0 s0 (abs_visit r pidx) st' \<and> ms_previous st' = last_record (snd (abs_visit r pidx))"
proof (cases "ms_previous st = Some r")
  case True
  then show ?thesis using assms by (simp add: visit_posting_def abs_visit_def)
next
  case False
  obtain st1 st2 where st1: "start_hash r st = Some st1" and st2: "start_game r st1 = Some st2"
    and st': "st' = st2\<lparr>ms_active_plies := ms_active_plies st2 @ [rec_ply r],
                         ms_active_min_ply := min (ms_active_min_ply st2) (rec_ply r),
                         ms_active_max_ply := max (ms_active_max_ply st2) (rec_ply r),
                         ms_active_occurrence_count := ms_active_occurrence_count st2 + 1,
                         ms_total_occurrences := ms_total_occurrences st2 + 1,
                         ms_previous := Some r\<rparr>"
    using assms(1) False by (auto simp: visit_posting_def split: Option.bind_splits)
  obtain hash game ply where r: "r = Posting_Record hash game ply" by (cases r)
  have abs: "abs_visit r pidx = abs_add r pidx" using False assms(3) by (simp add: abs_visit_def)
  have prev: "ms_previous st' = last_record (snd (abs_visit r pidx))"
    by (simp add: abs last_record_add st')
  have new_hash: "rep w0 s0 (fin, Some (hash, [], game, [ply])) st'"
    if s: "rep w0 s0 (fin, None) s" "st1 = s\<lparr>ms_have_active_hash := True, ms_active_hash := hash,
          ms_active_hash_offset := fw_offset (ms_writer s), ms_active_occurrence_count := 0,
          ms_active_distinct_game_count := 0, ms_active_min_ply := ply, ms_active_max_ply := ply\<rparr>" for fin s
  proof -
    have "st2 = st1\<lparr>ms_have_active_game := True, ms_active_game_id := game,
        ms_active_distinct_game_count := ms_active_distinct_game_count st1 + 1\<rparr>"
      using st2 s by (simp add: start_game_def flush_game_group_def rep_def active_rep_def r)
    moreover have "fw_offset (ms_writer s) = of_nat (88 + length (postings_bytes fin))"
      using s(1) by (simp add: rep_defs fw_inv_def)
    moreover have "fold min [ply] 0xffff = ply"
      using unat_less_2p [of ply] by (simp add: min_def word_le_nat_alt)
    ultimately show ?thesis
      using s st' r by (simp add: rep_defs active_rep_def Let_def directory_rep_def spooled_def)
  qed
  have "rep w0 s0 (abs_add r pidx) st'"
  proof (cases "(r, pidx)" rule: abs_add.cases)
    case (1 hash' game' ply' fin)
    then have pidx: "pidx = (fin, None)" by simp
    have "st1 = st\<lparr>ms_have_active_hash := True, ms_active_hash := hash,
          ms_active_hash_offset := fw_offset (ms_writer st), ms_active_occurrence_count := 0,
          ms_active_distinct_game_count := 0, ms_active_min_ply := ply, ms_active_max_ply := ply\<rparr>"
      using st1 assms(2) by (simp add: start_hash_def flush_hash_def rep_def active_rep_def r pidx)
    from new_hash [OF assms(2) [unfolded pidx] this] show ?thesis by (simp add: r pidx)
  next
    case (2 hash' game' ply' fin h flushed g plies)
    then have pidx: "pidx = (fin, Some (h, flushed, g, plies))" by simp
    have active: "ms_have_active_hash st" "ms_active_hash st = h" "ms_have_active_game st" "ms_active_game_id st = g"
      using assms(2) by (simp_all add: rep_def active_rep_def Let_def pidx)
    consider "hash \<noteq> h" | "hash = h" "game \<noteq> g" | "hash = h" "game = g" by blast
    then show ?thesis
    proof cases
      case a: 1
      obtain s where s: "flush_hash st = Some s"
        using st1 a active by (auto simp: start_hash_def r split: Option.bind_splits)
      have "st1 = s\<lparr>ms_have_active_hash := True, ms_active_hash := hash,
          ms_active_hash_offset := fw_offset (ms_writer s), ms_active_occurrence_count := 0,
          ms_active_distinct_game_count := 0, ms_active_min_ply := ply, ms_active_max_ply := ply\<rparr>"
        using st1 a active s by (simp add: start_hash_def r)
      from new_hash [OF conjunct1 [OF flush_hash_rep [OF s assms(2) [unfolded pidx]]] this]
      show ?thesis using a by (simp add: r pidx)
    next
      case b: 2
      then have eq: "st1 = st" using st1 active by (simp add: start_hash_def r)
      obtain s where s: "flush_game_group st = Some s"
        using st2 b active by (auto simp: start_game_def r eq split: Option.bind_splits)
      from flush_game_group_rep [OF s assms(2) [unfolded pidx]] obtain w where
        w: "s = st\<lparr>ms_writer := w, ms_have_flushed_game_in_hash := True, ms_previous_flushed_game_id := g,
                    ms_have_active_game := False, ms_active_plies := []\<rparr>"
        "fw_inv w" "fw_same_file w0 w"
        "fw_bytes w = replicate 88 0 @ postings_bytes fin @ encode_groups None (flushed @ [(g, plies)])" by blast
      have "st2 = s\<lparr>ms_have_active_game := True, ms_active_game_id := game,
          ms_active_distinct_game_count := ms_active_distinct_game_count s + 1\<rparr>"
        using st2 b active s by (simp add: start_game_def r eq)
      then show ?thesis
        using assms(2) w st' b
        by (simp add: r pidx rep_defs active_rep_def Let_def directory_rep_def spooled_def min.commute max.commute)
    next
      case c: 3
      then have "st2 = st" using st1 st2 active by (simp add: start_hash_def start_game_def r)
      then show ?thesis
        using assms(2) st' c
        by (simp add: r pidx rep_defs active_rep_def Let_def directory_rep_def spooled_def min.commute max.commute)
    qed
  qed
  then show ?thesis using prev by (simp add: abs)
qed

section \<open>Totality on an unlimited device\<close>

lemma same_unlimited: "fw_same_file w0 w \<Longrightarrow> fw_unlimited w0 \<Longrightarrow> fw_unlimited w"
  by (simp add: fw_same_file_def fw_unlimited_def)

lemma flush_game_group_total:
  assumes "rep w0 s0 (fin, Some (h, flushed, g, plies)) st" and "fw_unlimited w0"
  shows "\<exists>st'. flush_game_group st = Some st'"
proof -
  have a: "active_rep (Some (h, flushed, g, plies)) (88 + length (postings_bytes fin)) st"
    and w: "fw_inv (ms_writer st)" "fw_unlimited (ms_writer st)"
    using assms same_unlimited by (auto simp: rep_def)
  show ?thesis
    unfolding flush_game_group_put_bytes [OF a]
    using put_bytes_unlimited [OF w] by (metis option.simps(9))
qed

lemma flush_directory_block_total:
  assumes "fw_inv (ms_dirspool_writer st)" and "fw_unlimited (ms_dirspool_writer st)"
  shows "\<exists>st'. flush_directory_block st = Some st'"
  using put_bytes_unlimited [OF assms, of "encode_directory_block (ms_pending st)"]
  by (auto simp: flush_directory_block_def write_directory_block_put_bytes Let_def)

lemma flush_hash_total:
  assumes "rep w0 s0 pidx st" and "fw_unlimited w0" and "fw_unlimited s0"
  shows "\<exists>st'. flush_hash st = Some st'"
proof (cases pidx rule: abs_close.cases)
  case (1 fin)
  then show ?thesis using assms(1) by (simp add: flush_hash_def rep_def active_rep_def)
next
  case (2 fin h flushed g plies)
  then obtain st1 where st1: "flush_game_group st = Some st1" using flush_game_group_total assms by blast
  then have "ms_dirspool_writer (finish_hash st1) = ms_dirspool_writer st"
    using flush_game_group_rep [OF st1 assms(1) [unfolded 2]] by (auto simp: finish_hash_def)
  moreover have "fw_inv (ms_dirspool_writer st)" "fw_unlimited (ms_dirspool_writer st)"
    using assms same_unlimited by (auto simp: rep_def)
  ultimately have "\<exists>st'. flush_directory_block (finish_hash st1) = Some st'"
    using flush_directory_block_total by simp
  then show ?thesis using st1 by (simp add: flush_hash_def Let_def)
qed

lemma visit_posting_total:
  assumes "rep w0 s0 pidx st" and "fw_unlimited w0" and "fw_unlimited s0" and "snd pidx = None \<longrightarrow> fst pidx = []"
  shows "\<exists>st'. visit_posting r st = Some st'"
proof -
  obtain s where s: "flush_hash st = Some s" using flush_hash_total assms(1-3) by blast
  have "\<exists>st1. start_hash r st = Some st1 \<and> (\<exists>st2. start_game r st1 = Some st2)"
  proof (cases "\<not> ms_have_active_hash st \<or> rec_hash r \<noteq> ms_active_hash st")
    case True
    have "\<not> ms_have_active_game s"
    proof (cases pidx rule: abs_close.cases)
      case (1 fin)
      then show ?thesis using s assms(1) by (simp add: flush_hash_def rep_def active_rep_def)
    next
      case (2 fin h flushed g plies)
      then show ?thesis using flush_hash_rep [OF s assms(1) [unfolded 2]] by (simp add: rep_def active_rep_def)
    qed
    then show ?thesis using True s by (auto simp: start_hash_def start_game_def flush_game_group_def)
  next
    case False
    then have "start_hash r st = Some st" by (simp add: start_hash_def)
    moreover have "\<exists>st2. start_game r st = Some st2"
    proof (cases pidx rule: abs_close.cases)
      case (1 fin)
      then show ?thesis using assms(1) by (simp add: start_game_def flush_game_group_def rep_def active_rep_def)
    next
      case (2 fin h flushed g plies)
      then show ?thesis using flush_game_group_total [OF assms(1) [unfolded 2] assms(2)] by (auto simp: start_game_def)
    qed
    ultimately show ?thesis by blast
  qed
  then show ?thesis by (auto simp: visit_posting_def)
qed

section \<open>The whole loop\<close>

lemma fold_abs_visit_active: "snd pidx = None \<longrightarrow> fst pidx = [] \<Longrightarrow> snd (abs_visit r pidx) = None \<longrightarrow> fst (abs_visit r pidx) = []"
  using snd_abs_add [of r pidx] by (auto simp: abs_visit_def)

lemma visit_all_rep:
  assumes "visit_all visit_posting xs st = Some st'" and "rep w0 s0 pidx st" and "ms_previous st = last_record (snd pidx)"
    and "snd pidx = None \<longrightarrow> fst pidx = []"
  shows "rep w0 s0 (fold abs_visit xs pidx) st'"
  using assms
proof (induction xs arbitrary: st pidx)
  case (Cons x xs)
  then obtain s where s: "visit_posting x st = Some s" "visit_all visit_posting xs s = Some st'"
    by (auto split: option.splits)
  then show ?case
    using Cons.IH [OF s(2)] visit_posting_rep [OF s(1) Cons.prems(2-4)] fold_abs_visit_active [OF Cons.prems(4)] by simp
qed simp

lemma visit_all_total:
  assumes "rep w0 s0 pidx st" and "ms_previous st = last_record (snd pidx)" and "snd pidx = None \<longrightarrow> fst pidx = []"
    and "fw_unlimited w0" and "fw_unlimited s0"
  shows "\<exists>st'. visit_all visit_posting xs st = Some st'"
  using assms
proof (induction xs arbitrary: st pidx)
  case (Cons x xs)
  obtain s where s: "visit_posting x st = Some s" using visit_posting_total [OF Cons.prems(1,4,5,3), of x] by blast
  then show ?case
    using Cons.IH [of "abs_visit x pidx" s] visit_posting_rep [OF s Cons.prems(1-3)]
      fold_abs_visit_active [OF Cons.prems(3)] Cons.prems(4,5) by simp
qed simp

text \<open>What the loop leaves behind: everything spooled, nothing pending.\<close>
definition merged :: "file_writer \<Rightarrow> file_writer \<Rightarrow> index_content \<Rightarrow> directory_entry list list \<Rightarrow> merge_state \<Rightarrow> bool" where
  "merged w0 s0 content blocks st \<longleftrightarrow>
     fw_inv (ms_writer st) \<and> fw_same_file w0 (ms_writer st)
     \<and> fw_inv (ms_dirspool_writer st) \<and> fw_same_file s0 (ms_dirspool_writer st)
     \<and> fw_bytes (ms_writer st) = replicate 88 0 @ postings_bytes content
     \<and> wf_blocks content blocks \<and> spooled blocks st
     \<and> ms_distinct_hash_count st = of_nat (length content)
     \<and> ms_total_occurrences st = of_nat (content_occurrences content)"

lemma flush_hash_finished:
  assumes "flush_hash st = Some st1" and "rep w0 s0 pidx st"
  shows "rep w0 s0 (abs_close pidx, None) st1"
proof (cases pidx rule: abs_close.cases)
  case (1 fin)
  then show ?thesis using assms by (simp add: flush_hash_def rep_def active_rep_def)
next
  case (2 fin h flushed g plies)
  then show ?thesis using flush_hash_rep [OF assms(1) assms(2) [unfolded 2]] by simp
qed

lemma flush_all_merged:
  assumes "flush_hash st = Some st1" and "flush_directory_block st1 = Some st2" and "rep w0 s0 pidx st"
  shows "\<exists>blocks. merged w0 s0 (abs_close pidx) blocks st2"
proof -
  have r: "rep w0 s0 (abs_close pidx, None) st1" using flush_hash_finished [OF assms(1,3)] .
  obtain blocks where blocks: "spooled blocks st1" "concat blocks @ ms_pending st1 = dir_entries 88 (abs_close pidx)"
      "length (ms_pending st1) < max_directory_block_entries"
    using r by (auto simp: rep_def directory_rep_def)
  have inv: "fw_inv (ms_dirspool_writer st1)" "fw_same_file s0 (ms_dirspool_writer st1)" using r by (simp_all add: rep_def)
  let ?blocks = "blocks @ (if ms_pending st1 = [] then [] else [ms_pending st1])"
  from flush_directory_block_Some [OF assms(2) blocks(1) inv(1)] blocks(3) obtain d m
    where d: "st2 = st1\<lparr>ms_dirspool_writer := d, ms_metrics := m, ms_pending := [], ms_sparse := ms_sparse st2\<rparr>"
      "fw_inv d" "fw_same_file (ms_dirspool_writer st1) d" "spooled ?blocks st2" by auto
  have f: "ms_writer st2 = ms_writer st1" "ms_dirspool_writer st2 = d"
      "ms_distinct_hash_count st2 = ms_distinct_hash_count st1" "ms_total_occurrences st2 = ms_total_occurrences st1"
    using arg_cong [OF d(1), of ms_writer] arg_cong [OF d(1), of ms_dirspool_writer]
      arg_cong [OF d(1), of ms_distinct_hash_count] arg_cong [OF d(1), of ms_total_occurrences] by simp_all
  have "concat ?blocks = dir_entries 88 (abs_close pidx)"
    unfolding blocks(2) [symmetric] by simp
  then have "wf_blocks (abs_close pidx) ?blocks"
    using d(4) unfolding wf_blocks_def spooled_def by blast
  then have "merged w0 s0 (abs_close pidx) ?blocks st2"
    unfolding merged_def f using r d(2,4) fw_same_file_trans [OF inv(2) d(3)] by (simp add: rep_defs)
  then show ?thesis by blast
qed

lemma start_merge_rep:
  assumes "fw_inv w" and "fw_inv s" and "fw_bytes w = replicate 88 0" and "fw_bytes s = []"
  shows "rep w s ([], None) (start_merge w s m)"
proof -
  have "directory_rep [] (start_merge w s m)"
    unfolding directory_rep_def using assms(4)
    by (intro exI [of _ "[]"]) (simp add: spooled_def start_merge_def max_directory_block_entries_def)
  then show ?thesis using assms(1-3) by (simp add: rep_defs active_rep_def start_merge_def)
qed

end
