(* ===== verification/Postings_Runs.thy ===== *)
theory Postings_Runs
  imports Postings_Merge
begin

text \<open>
  The spilled runs of a \<open>position_postings\<close> build: what \<open>append\<close> and
  \<open>spill_current_buffer\<close> leave on disk and in memory for the rows handed in so far, and
  that the run cursors of \<open>merge_runs\<close> read the runs back record by record.
\<close>

section \<open>Spill paths\<close>

definition string_to_nat :: "string \<Rightarrow> nat" where
  "string_to_nat s = foldl (\<lambda>n c. 10 * n + (of_char c - 48)) 0 s"

lemma string_to_nat_inverse: "string_to_nat (nat_to_string n) = n"
proof (induction n rule: nat_to_string.induct)
  case (1 n)
  have digit: "of_char (char_of (48 + k) :: char) - 48 = k" if "k < 10" for k :: nat
    using that by (simp add: of_char_of)
  show ?case
  proof (cases "n < 10")
    case True
    then show ?thesis by (simp add: nat_to_string.simps [of n] string_to_nat_def digit)
  next
    case False
    then have "string_to_nat (nat_to_string n) = 10 * string_to_nat (nat_to_string (n div 10)) + n mod 10"
      using digit [of "n mod 10"] by (subst nat_to_string.simps) (simp add: string_to_nat_def)
    then show ?thesis using 1 False by simp
  qed
qed

lemma nat_to_string_inject: "nat_to_string m = nat_to_string n \<longleftrightarrow> m = n"
  by (metis string_to_nat_inverse)

lemma scratch_paths [simp]:
  "spill_path p i = spill_path p j \<longleftrightarrow> i = j"
  "spill_path p i \<noteq> p" "p \<noteq> spill_path p i" "dirspool_path p \<noteq> p" "p \<noteq> dirspool_path p"
  "temp_output_path p \<noteq> p" "p \<noteq> temp_output_path p"
  "spill_path p i \<noteq> dirspool_path p" "dirspool_path p \<noteq> spill_path p i"
  "spill_path p i \<noteq> temp_output_path p" "temp_output_path p \<noteq> spill_path p i"
  "dirspool_path p \<noteq> temp_output_path p" "temp_output_path p \<noteq> dirspool_path p"
  by (auto simp: spill_path_def dirspool_path_def temp_output_path_def nat_to_string_inject)

section \<open>Writing a run\<close>

definition spill_bytes :: "posting_record list \<Rightarrow> bytes" where
  "spill_bytes run = write_little_endian (of_nat (length run) :: u64) @ concat (map encode_record run)"

lemma length_encode_record [simp]: "length (encode_record r) = 14"
  by (simp add: encode_record_def)

text \<open>A stream that has accepted everything so far.\<close>
definition os_continues :: "ofstream \<Rightarrow> ofstream \<Rightarrow> bool" where
  "os_continues os os' \<longleftrightarrow> os_ok os' \<and> os_path os' = os_path os \<and> os_quota os' = os_quota os"

lemma ofstream_write_ok:
  assumes "os_ok (ofstream_write bs os)" and "os_ok os"
  shows "os_continues os (ofstream_write bs os) \<and> os_data (ofstream_write bs os) = os_data os @ bs"
  using assms by (auto simp: ofstream_write_def os_continues_def split: if_splits)

lemma ofstream_write_unlimited: "os_ok os \<Longrightarrow> os_quota os = None \<Longrightarrow> os_ok (ofstream_write bs os)"
  by (simp add: ofstream_write_def)

lemma spill_loop_Some:
  assumes "spill_loop items buffer os = Some (buffer', os')" and "os_ok os"
  shows "os_continues os os' \<and> os_data os' @ buffer' = os_data os @ buffer @ concat (map encode_record items)"
  using assms
proof (induction items arbitrary: buffer os)
  case (Cons item items)
  show ?case
  proof (cases "length buffer + 14 > 14 * 4096")
    case True
    then have w: "os_ok (ofstream_write buffer os)" "spill_loop items (encode_record item) (ofstream_write buffer os) = Some (buffer', os')"
      using Cons.prems(1) by (auto simp: Let_def split: if_splits)
    show ?thesis
      using Cons.IH [OF w(2,1)] ofstream_write_ok [OF w(1) Cons.prems(2)] by (auto simp: os_continues_def)
  next
    case False
    then show ?thesis using Cons by simp
  qed
qed (simp add: os_continues_def)

lemma spill_loop_total:
  "os_ok os \<Longrightarrow> os_quota os = None \<Longrightarrow> \<exists>b os'. spill_loop items buffer os = Some (b, os') \<and> os_ok os' \<and> os_quota os' = None"
proof (induction items arbitrary: buffer os)
  case (Cons item items)
  have "os_quota (ofstream_write buffer os) = None" using Cons.prems by (simp add: ofstream_write_def)
  then show ?case using Cons ofstream_write_unlimited [OF Cons.prems] by (simp add: Let_def)
qed simp

lemma write_spill_Some:
  assumes "write_spill records os = Some os'" and "os_ok os" and "os_data os = []"
  shows "os_continues os os' \<and> os_data os' = spill_bytes records"
proof -
  let ?os1 = "ofstream_write (write_little_endian (of_nat (length records) :: u64)) os"
  have ok1: "os_ok ?os1" using assms(1) by (auto simp: write_spill_def Let_def split: if_splits)
  note w1 = ofstream_write_ok [OF ok1 assms(2)]
  obtain b os2 where l: "spill_loop records [] ?os1 = Some (b, os2)"
      and os': "(if b \<noteq> [] then if os_ok (ofstream_write b os2) then Some (ofstream_write b os2) else None else Some os2) = Some os'"
    using assms(1) ok1 by (auto simp: write_spill_def Let_def split: option.splits if_splits)
  note w2 = spill_loop_Some [OF l ok1]
  have "os_continues os2 os' \<and> os_data os' = os_data os2 @ b"
  proof (cases "b = []")
    case True
    then show ?thesis using os' w2 by (simp add: os_continues_def)
  next
    case False
    then show ?thesis using os' ofstream_write_ok [of b os2] w2 by (auto simp: os_continues_def split: if_splits)
  qed
  then show ?thesis using w1 w2 assms(3) by (simp add: os_continues_def spill_bytes_def)
qed

lemma write_spill_total:
  assumes "os_ok os" and "os_quota os = None"
  shows "\<exists>os'. write_spill records os = Some os'"
proof -
  let ?os1 = "ofstream_write (write_little_endian (of_nat (length records) :: u64)) os"
  have "os_ok ?os1" "os_quota ?os1 = None" using assms by (simp_all add: ofstream_write_def)
  then show ?thesis
    using spill_loop_total [of ?os1 records "[]"] ofstream_write_unlimited by (auto simp: write_spill_def Let_def)
qed

section \<open>The state of a build\<close>

text \<open>The runs on disk, each sorted.\<close>
definition runs_on_disk :: "posting_record list list \<Rightarrow> filesystem \<Rightarrow> position_postings \<Rightarrow> bool" where
  "runs_on_disk runs fs pp \<longleftrightarrow> pp_spill_paths pp = map (spill_path (pp_path pp)) [0..<length runs]
     \<and> (\<forall>i<length runs. fs_files fs (spill_path (pp_path pp) i) = Some (spill_bytes (runs ! i)) \<and> sorted (runs ! i))"

text \<open>The metadata table for the rows handed in so far.\<close>
definition table_for :: "position_row list \<Rightarrow> metadata_table \<Rightarrow> bool" where
  "table_for rows table \<longleftrightarrow> distinct (map fst table)
     \<and> (\<forall>g m. map_of table g = Some m \<longleftrightarrow> (\<exists>row\<in>set rows. pr_game_id row = g \<and> row_metadata row = m))"

definition valid_row :: "position_row \<Rightarrow> bool" where
  "valid_row row \<longleftrightarrow> pr_game_id row \<noteq> 0 \<and> valid_result (pr_result row)"

definition build_inv :: "position_row list \<Rightarrow> filesystem \<Rightarrow> position_postings \<Rightarrow> bool" where
  "build_inv rows fs pp \<longleftrightarrow>
     (\<exists>runs. runs_on_disk runs fs pp \<and> mset (concat runs) + mset (pp_records pp) = mset (map row_record rows))
     \<and> table_for rows (pp_game_metadata pp) \<and> (\<forall>row\<in>set rows. valid_row row)"

text \<open>What an operation on the scratch files leaves alone.\<close>
definition same_object :: "position_postings \<Rightarrow> position_postings \<Rightarrow> bool" where
  "same_object pp pp' \<longleftrightarrow> pp_path pp' = pp_path pp \<and> pp_spill_threshold pp' = pp_spill_threshold pp"

definition fs_same_device :: "filesystem \<Rightarrow> filesystem \<Rightarrow> bool" where
  "fs_same_device fs fs' \<longleftrightarrow> fs_fault fs' = fs_fault fs \<and> fs_quota fs' = fs_quota fs"

lemma fs_same_device_refl [simp]: "fs_same_device fs fs"
  by (simp add: fs_same_device_def)

lemma fs_same_device_trans: "fs_same_device a b \<Longrightarrow> fs_same_device b c \<Longrightarrow> fs_same_device a c"
  by (simp add: fs_same_device_def)

lemma fs_no_faults_same: "fs_same_device fs fs' \<Longrightarrow> fs_no_faults fs \<Longrightarrow> fs_no_faults fs'"
  by (simp add: fs_same_device_def fs_no_faults_def)

lemma spill_current_buffer_Inr:
  assumes "spill_current_buffer fs pp = (Inr u, fs', pp')" and "build_inv rows fs pp"
  shows "build_inv rows fs' pp' \<and> pp_records pp' = [] \<and> same_object pp pp' \<and> fs_same_device fs fs'
     \<and> pp_game_metadata pp' = pp_game_metadata pp \<and> pp_indexed_game_count pp' = pp_indexed_game_count pp
     \<and> (\<forall>q. (\<forall>i. q \<noteq> spill_path (pp_path pp) i) \<longrightarrow> fs_files fs' q = fs_files fs q)"
proof (cases "pp_records pp = []")
  case True
  then show ?thesis using assms by (simp add: spill_current_buffer_def same_object_def)
next
  case False
  obtain runs where runs: "runs_on_disk runs fs pp"
      and ms: "mset (concat runs) + mset (pp_records pp) = mset (map row_record rows)"
    using assms(2) by (auto simp: build_inv_def)
  let ?p = "pp_path pp" and ?n = "length runs" and ?run = "sort (pp_records pp)"
  have n: "length (pp_spill_paths pp) = ?n" using runs by (simp add: runs_on_disk_def)
  obtain os where os: "ofstream_open (spill_path ?p ?n) fs = (Some os, fs\<lparr>fs_files := (fs_files fs)(spill_path ?p ?n := Some [])\<rparr>)"
      "os_ok os" "os_data os = []" "os_path os = spill_path ?p ?n"
    using assms(1) False n by (auto simp: spill_current_buffer_def Let_def ofstream_open_def split: if_splits)
  obtain os' where os': "write_spill ?run os = Some os'"
    using assms(1) False n os(1) by (auto simp: spill_current_buffer_def Let_def split: option.splits)
  note w = write_spill_Some [OF os' os(2,3)]
  have fs': "fs' = fs\<lparr>fs_files := (fs_files fs)(spill_path ?p ?n := Some (spill_bytes ?run))\<rparr>"
    and pp': "pp_records pp' = []" "pp_path pp' = ?p" "pp_spill_threshold pp' = pp_spill_threshold pp"
      "pp_game_metadata pp' = pp_game_metadata pp" "pp_indexed_game_count pp' = pp_indexed_game_count pp"
      "pp_spill_paths pp' = pp_spill_paths pp @ [spill_path ?p ?n]"
    using assms(1) False n os os' w
    by (auto simp: spill_current_buffer_def Let_def ofstream_close_def os_continues_def split: bool.splits)
  have "runs_on_disk (runs @ [?run]) fs' pp'"
    using runs by (auto simp: runs_on_disk_def fs' pp' nth_append less_Suc_eq)
  moreover have "mset (concat (runs @ [?run])) + mset (pp_records pp') = mset (map row_record rows)"
    using ms by (simp add: pp')
  ultimately have "build_inv rows fs' pp'"
    using assms(2) unfolding build_inv_def pp'(4) by blast
  then show ?thesis by (simp add: pp' same_object_def fs_same_device_def) (simp add: fs')
qed

lemma spill_current_buffer_total:
  assumes "fs_no_faults fs"
  shows "\<exists>fs' pp'. spill_current_buffer fs pp = (Inr (), fs', pp')"
proof (cases "pp_records pp = []")
  case True
  then show ?thesis by (simp add: spill_current_buffer_def)
next
  case False
  let ?target = "spill_path (pp_path pp) (length (pp_spill_paths pp))"
  let ?os = "\<lparr>os_path = ?target, os_data = [], os_ok = True, os_quota = None\<rparr>"
  have open_ok: "ofstream_open ?target fs = (Some ?os, fs\<lparr>fs_files := (fs_files fs)(?target := Some [])\<rparr>)"
    using assms by (simp add: ofstream_open_def fs_no_faults_def)
  obtain os' where os': "write_spill (sort (pp_records pp)) ?os = Some os'" using write_spill_total [of ?os] by auto
  have "os_ok os'" using write_spill_Some [OF os'] by (simp add: os_continues_def)
  then show ?thesis
    using False open_ok os' assms
    by (simp add: spill_current_buffer_def Let_def ofstream_close_def fs_no_faults_def)
qed

lemma table_for_update:
  assumes "table_for rows table" and "\<not> metadata_conflict (map_of table (pr_game_id row)) row"
  shows "table_for (rows @ [row]) (AList.update (pr_game_id row) (row_metadata row) table)"
proof -
  let ?g = "pr_game_id row"
  have old: "row_metadata r = row_metadata row" if "r \<in> set rows" "pr_game_id r = ?g" for r
  proof -
    have "map_of table ?g = Some (row_metadata r)" using assms(1) that by (auto simp: table_for_def)
    then show ?thesis using assms(2) by (simp add: metadata_conflict_def row_metadata_def)
  qed
  have "map_of (AList.update ?g (row_metadata row) table) g = Some m
      \<longleftrightarrow> (\<exists>r\<in>set (rows @ [row]). pr_game_id r = g \<and> row_metadata r = m)" for g m
  proof (cases "g = ?g")
    case True
    then show ?thesis using old by (auto simp: update_conv')
  next
    case False
    then show ?thesis using assms(1) by (auto simp: update_conv' table_for_def)
  qed
  then show ?thesis
    using assms(1) unfolding table_for_def by (simp add: distinct_update)
qed

lemma add_row_inv:
  assumes "build_inv rows fs pp" and "valid_row row"
    and "\<not> metadata_conflict (map_of (pp_game_metadata pp) (pr_game_id row)) row"
  shows "build_inv (rows @ [row]) fs (add_row row pp)"
proof -
  have "runs_on_disk runs fs (add_row row pp) \<longleftrightarrow> runs_on_disk runs fs pp" for runs
    by (simp add: runs_on_disk_def add_row_def)
  then show ?thesis
    using assms table_for_update by (auto simp: build_inv_def add_row_def)
qed

lemma append_rows_Inr:
  assumes "append_rows batch fs pp = (Inr u, fs', pp')" and "build_inv rows fs pp"
  shows "build_inv (rows @ batch) fs' pp' \<and> same_object pp pp' \<and> fs_same_device fs fs'
     \<and> (\<forall>q. (\<forall>i. q \<noteq> spill_path (pp_path pp) i) \<longrightarrow> fs_files fs' q = fs_files fs q)"
  using assms
proof (induction batch arbitrary: rows fs pp)
  case Nil
  then show ?case by (simp add: same_object_def)
next
  case (Cons row batch)
  have g: "valid_row row" "\<not> metadata_conflict (map_of (pp_game_metadata pp) (pr_game_id row)) row"
    using Cons.prems(1) by (auto simp: valid_row_def split: if_splits)
  note inv = add_row_inv [OF Cons.prems(2) g]
  have path: "pp_path (add_row row pp) = pp_path pp" "same_object pp (add_row row pp)"
    by (simp_all add: add_row_def same_object_def)
  show ?case
  proof (cases "length (pp_records (add_row row pp)) \<ge> pp_spill_threshold (add_row row pp)")
    case True
    then obtain fs1 pp1 where sp: "spill_current_buffer fs (add_row row pp) = (Inr (), fs1, pp1)"
        and rest: "append_rows batch fs1 pp1 = (Inr u, fs', pp')"
      using Cons.prems(1) g by (auto simp: Let_def valid_row_def split: prod.splits sum.splits)
    note s = spill_current_buffer_Inr [OF sp inv]
    then have "build_inv (rows @ [row]) fs1 pp1" by simp
    from Cons.IH [OF rest this] s path show ?thesis
      by (auto simp: same_object_def fs_same_device_def)
  next
    case False
    then have rest: "append_rows batch fs (add_row row pp) = (Inr u, fs', pp')"
      using Cons.prems(1) g by (auto simp: Let_def valid_row_def)
    from Cons.IH [OF rest inv] path show ?thesis by (auto simp: same_object_def)
  qed
qed

lemma metadata_conflict_neq: "metadata_conflict (Some m) row \<Longrightarrow> m \<noteq> row_metadata row"
  by (auto simp: metadata_conflict_def row_metadata_def)

text \<open>Rows of one game agree on its metadata.\<close>
definition consistent_rows :: "position_row list \<Rightarrow> bool" where
  "consistent_rows rows \<longleftrightarrow>
     (\<forall>a\<in>set rows. \<forall>b\<in>set rows. pr_game_id a = pr_game_id b \<longrightarrow> row_metadata a = row_metadata b)"

lemma append_rows_total:
  assumes "build_inv rows fs pp" and "fs_no_faults fs" and "\<forall>row\<in>set batch. valid_row row"
    and "consistent_rows (rows @ batch)"
  shows "\<exists>fs' pp'. append_rows batch fs pp = (Inr (), fs', pp')"
  using assms
proof (induction batch arbitrary: rows fs pp)
  case (Cons row batch)
  have valid: "valid_row row" using Cons.prems(3) by simp
  have conf: "\<not> metadata_conflict (map_of (pp_game_metadata pp) (pr_game_id row)) row"
  proof
    assume "metadata_conflict (map_of (pp_game_metadata pp) (pr_game_id row)) row"
    then obtain m where m: "map_of (pp_game_metadata pp) (pr_game_id row) = Some m" "m \<noteq> row_metadata row"
      using metadata_conflict_neq by (cases "map_of (pp_game_metadata pp) (pr_game_id row)") (auto simp: metadata_conflict_def)
    then obtain r where "r \<in> set rows" "pr_game_id r = pr_game_id row" "row_metadata r = m"
      using Cons.prems(1) by (auto simp: build_inv_def table_for_def)
    then show False using Cons.prems(4) m(2) by (auto simp: consistent_rows_def)
  qed
  note inv = add_row_inv [OF Cons.prems(1) valid conf]
  obtain fs1 pp1 where sp: "spill_current_buffer fs (add_row row pp) = (Inr (), fs1, pp1)"
    using spill_current_buffer_total [OF Cons.prems(2)] by blast
  have cons: "consistent_rows ((rows @ [row]) @ batch)" using Cons.prems(4) by simp
  have rest: "\<exists>fs' pp'. append_rows batch fs1 pp1 = (Inr (), fs', pp')"
    using Cons.IH [OF _ _ _ cons, of fs1 pp1] spill_current_buffer_Inr [OF sp inv] Cons.prems(2,3) fs_no_faults_same by auto
  have rest': "\<exists>fs' pp'. append_rows batch fs (add_row row pp) = (Inr (), fs', pp')"
    using Cons.IH [OF inv Cons.prems(2) _ cons] Cons.prems(3) by auto
  show ?case using valid conf sp rest rest' by (simp add: valid_row_def Let_def)
qed simp

section \<open>Batches\<close>

fun append_batches ::
  "position_row list list \<Rightarrow> filesystem \<Rightarrow> position_postings \<Rightarrow> unit result \<times> filesystem \<times> position_postings" where
  "append_batches [] fs pp = (Inr (), fs, pp)"
| "append_batches (batch # batches) fs pp =
     (case append_batch batch fs pp of
        (Inl err, fs, pp) \<Rightarrow> (Inl err, fs, pp)
      | (Inr _, fs, pp) \<Rightarrow> append_batches batches fs pp)"

definition counted :: "position_postings \<Rightarrow> bool" where
  "counted pp \<longleftrightarrow> pp_indexed_game_count pp = of_nat (length (pp_game_metadata pp))"

lemma append_batch_Inr:
  assumes "append_batch batch fs pp = (Inr u, fs', pp')" and "build_inv rows fs pp"
  shows "build_inv (rows @ batch) fs' pp' \<and> same_object pp pp' \<and> fs_same_device fs fs' \<and> counted pp'
     \<and> (\<forall>q. (\<forall>i. q \<noteq> spill_path (pp_path pp) i) \<longrightarrow> fs_files fs' q = fs_files fs q)"
proof -
  obtain pp1 where ap: "append_rows batch fs pp = (Inr (), fs', pp1)"
      and pp': "pp' = pp1\<lparr>pp_indexed_game_count := of_nat (length (pp_game_metadata pp1)),
          pp_metrics := (pp_metrics pp1)\<lparr>bm_game_count := of_nat (length (pp_game_metadata pp1))\<rparr>\<rparr>"
    using assms(1) by (auto simp: append_batch_def Let_def split: if_splits prod.splits sum.splits)
  have "runs_on_disk runs fs' pp' \<longleftrightarrow> runs_on_disk runs fs' pp1" for runs
    by (simp add: pp' runs_on_disk_def)
  then have "build_inv (rows @ batch) fs' pp'"
    using append_rows_Inr [OF ap assms(2)] by (simp add: build_inv_def) (simp add: pp')
  then show ?thesis
    using append_rows_Inr [OF ap assms(2)] by (simp add: pp' counted_def same_object_def)
qed

lemma append_batches_Inr:
  assumes "append_batches batches fs pp = (Inr u, fs', pp')" and "build_inv rows fs pp" and "counted pp"
  shows "build_inv (rows @ concat batches) fs' pp' \<and> same_object pp pp' \<and> fs_same_device fs fs' \<and> counted pp'
     \<and> (\<forall>q. (\<forall>i. q \<noteq> spill_path (pp_path pp) i) \<longrightarrow> fs_files fs' q = fs_files fs q)"
  using assms
proof (induction batches arbitrary: rows fs pp)
  case (Cons batch batches)
  obtain fs1 pp1 where b: "append_batch batch fs pp = (Inr (), fs1, pp1)"
      and rest: "append_batches batches fs1 pp1 = (Inr u, fs', pp')"
    using Cons.prems(1) by (auto split: prod.splits sum.splits)
  note s = append_batch_Inr [OF b Cons.prems(2)]
  then have "build_inv (rows @ batch) fs1 pp1" "counted pp1" by simp_all
  from Cons.IH [OF rest this] s show ?case
    by (auto simp: same_object_def fs_same_device_def)
qed (simp add: same_object_def)

lemma append_batches_total:
  assumes "build_inv rows fs pp" and "fs_no_faults fs" and "0 < pp_spill_threshold pp"
    and "\<forall>row\<in>set (concat batches). valid_row row" and "consistent_rows (rows @ concat batches)"
  shows "\<exists>fs' pp'. append_batches batches fs pp = (Inr (), fs', pp')"
  using assms
proof (induction batches arbitrary: rows fs pp)
  case (Cons batch batches)
  have cons: "consistent_rows (rows @ batch)" using Cons.prems(5) by (auto simp: consistent_rows_def)
  obtain fs0 pp0 where "append_rows batch fs pp = (Inr (), fs0, pp0)"
    using append_rows_total [OF Cons.prems(1,2) _ cons] Cons.prems(4) by auto
  then obtain pp1 where b: "append_batch batch fs pp = (Inr (), fs0, pp1)"
    using Cons.prems(3) by (simp add: append_batch_def Let_def)
  note s = append_batch_Inr [OF b Cons.prems(1)]
  have "\<exists>fs' pp'. append_batches batches fs0 pp1 = (Inr (), fs', pp')"
    by (rule Cons.IH [of "rows @ batch"])
      (use s Cons.prems fs_no_faults_same [of fs fs0] in \<open>auto simp: same_object_def\<close>)
  then show ?case by (simp add: b)
qed simp

lemma build_inv_new: "build_inv [] fs (new_postings path n)" "counted (new_postings path n)"
proof -
  have "runs_on_disk [] fs (new_postings path n)" by (simp add: runs_on_disk_def new_postings_def)
  then show "build_inv [] fs (new_postings path n)"
    by (auto simp: build_inv_def table_for_def new_postings_def)
qed (simp add: counted_def new_postings_def)

section \<open>Reading a run back\<close>

lemma decode_encode_record: "decode_record (encode_record r) old = r"
proof -
  have l0: "located (encode_record r) 0 (write_little_endian (rec_hash r) @ write_little_endian (rec_game_key r)
      @ write_little_endian (rec_ply r) @ [])"
    by (simp add: encode_record_def)
  note l1 = located_append [OF l0, simplified] and r0 = located_little_endian [OF l0, simplified]
  note l2 = located_append [OF l1, simplified] and r1 = located_little_endian [OF l1, simplified]
  have r2: "read_little_endian (encode_record r) 12 = Some (rec_ply r, 14)"
    using located_little_endian [of "encode_record r" 12 "rec_ply r" "[]"] l2 by simp
  show ?thesis by (simp add: decode_record_def r0 r1 r2)
qed

text \<open>The records of the metadata table's games.\<close>
definition known_record :: "metadata_table \<Rightarrow> posting_record \<Rightarrow> bool" where
  "known_record table r \<longleftrightarrow> rec_game_key r \<noteq> 0 \<and> (\<exists>m. map_of table (rec_game_key r) = Some m \<and> gm_is_set m)"

text \<open>A cursor in the middle of a run: \<open>k\<close> records are buffered, the others are still in the file.\<close>
definition cursor_at :: "posting_record list \<Rightarrow> posting_cursor \<Rightarrow> bool" where
  "cursor_at run c \<longleftrightarrow> length run < 2 ^ 64 \<and> cur_remaining c = of_nat (length run)
     \<and> (\<exists>k data pos. k \<le> length run \<and> pc_buffer_offset c \<le> length (pc_buffer c)
          \<and> drop (pc_buffer_offset c) (pc_buffer c) = concat (map encode_record (take k run))
          \<and> pc_input c = stream_at data pos \<and> located data pos (concat (map encode_record (drop k run))))"

lemma length_concat_records [simp]: "length (concat (map encode_record xs)) = 14 * length xs"
  by (simp add: length_concat comp_def sum_list_triv)

lemma fetch_from_buffer_known:
  assumes "known_record table r" and "length (r # run) < 2 ^ 64" and "cur_remaining c = of_nat (length (r # run))"
    and "Suc k \<le> length (r # run)" and "pc_buffer_offset c \<le> length (pc_buffer c)"
    and "drop (pc_buffer_offset c) (pc_buffer c) = concat (map encode_record (take (Suc k) (r # run)))"
    and "pc_input c = stream_at data pos" and "located data pos (concat (map encode_record (drop (Suc k) (r # run))))"
  shows "\<exists>c'. fetch_from_buffer table c = Fetched c' \<and> pc_current c' = r \<and> cur_remaining c' = cur_remaining c
     \<and> cursor_at run (c'\<lparr>cur_remaining := cur_remaining c - 1\<rparr>)"
proof -
  let ?c' = "c\<lparr>pc_buffer_offset := pc_buffer_offset c + 14, pc_current := r\<rparr>"
  have "take 14 (drop (pc_buffer_offset c) (pc_buffer c)) = encode_record r" using assms(6) by simp
  then have "fetch_from_buffer table c = Fetched ?c'"
    using assms(1) by (auto simp: fetch_from_buffer_def Let_def decode_encode_record known_record_def)
  moreover have "drop (pc_buffer_offset c + 14) (pc_buffer c) = concat (map encode_record (take k run))"
  proof -
    have "drop (pc_buffer_offset c + 14) (pc_buffer c) = drop 14 (drop (pc_buffer_offset c) (pc_buffer c))"
      by (simp add: add.commute)
    then show ?thesis using assms(6) by simp
  qed
  moreover have "pc_buffer_offset c + 14 \<le> length (pc_buffer c)"
    using arg_cong [OF assms(6), of length] assms(4) by simp
  ultimately have "cursor_at run (?c'\<lparr>cur_remaining := cur_remaining c - 1\<rparr>)"
    unfolding cursor_at_def using assms(2-4,7,8)
    by (intro conjI exI [of _ k] exI [of _ data] exI [of _ pos]) simp_all
  then show ?thesis using \<open>fetch_from_buffer table c = Fetched ?c'\<close> by (intro exI [of _ ?c']) simp
qed

lemma fetch_posting_known:
  assumes "cursor_at (r # run) c" and "known_record table r"
  shows "\<exists>c'. fetch_posting table c = Fetched c' \<and> pc_current c' = r \<and> cur_remaining c' = cur_remaining c
     \<and> cursor_at run (c'\<lparr>cur_remaining := cur_remaining c - 1\<rparr>)"
proof -
  obtain k data pos where len: "length (r # run) < 2 ^ 64" "cur_remaining c = of_nat (length (r # run))"
      and k: "k \<le> length (r # run)" "pc_buffer_offset c \<le> length (pc_buffer c)"
        "drop (pc_buffer_offset c) (pc_buffer c) = concat (map encode_record (take k (r # run)))"
        "pc_input c = stream_at data pos" "located data pos (concat (map encode_record (drop k (r # run))))"
    using assms(1) by (auto simp: cursor_at_def)
  show ?thesis
  proof (cases "pc_buffer_offset c = length (pc_buffer c)")
    case True
    have "14 * length (take k (r # run)) = 0" using arg_cong [OF k(3), of length] True by simp
    then have k0: "k = 0" using k(1) by simp
    obtain m where m_def: "m = min (length (r # run)) 4096" by simp
    then obtain j where j: "m = Suc j" by (cases m) auto
    have m_le: "m \<le> length (r # run)" by (simp add: m_def)
    then have len_m: "length (concat (map encode_record (take m (r # run)))) = 14 * m"
      unfolding length_concat_records by simp
    have m: "min (unat (cur_remaining c)) spill_read_buffer_records = m"
      using len unat_of_nat_less [of "length (r # run)", where 'a = 64] by (simp add: spill_read_buffer_records_def m_def)
    have l: "located data pos (concat (map encode_record (take m (r # run))) @ concat (map encode_record (drop m (r # run))))"
      using k(5) k0 by (simp only: drop_0 flip: concat_append map_append) simp
    note rd = ifstream_read_at [OF l, unfolded len_m] and l2 = located_append [OF l, unfolded len_m]
    let ?c1 = "c\<lparr>pc_input := stream_at data (pos + 14 * m), pc_buffer := concat (map encode_record (take m (r # run))),
        pc_buffer_offset := 0\<rparr>"
    have "fetch_posting table c = fetch_from_buffer table ?c1"
      unfolding fetch_posting_def Let_def m k(4) mult.commute [of m] rd using True by simp
    moreover have "\<exists>c'. fetch_from_buffer table ?c1 = Fetched c' \<and> pc_current c' = r \<and> cur_remaining c' = cur_remaining ?c1
        \<and> cursor_at run (c'\<lparr>cur_remaining := cur_remaining ?c1 - 1\<rparr>)"
      by (rule fetch_from_buffer_known [OF assms(2) len(1), of ?c1 j data "pos + 14 * m"])
        (use len l2 m_le in \<open>simp_all only: j [symmetric]\<close>, simp_all)
    ultimately show ?thesis by simp
  next
    case False
    then have "k \<noteq> 0" using k(2) arg_cong [OF k(3), of length] by (cases k) auto
    then obtain j where j: "k = Suc j" by (cases k) auto
    show ?thesis
      using fetch_from_buffer_known [OF assms(2) len k(1) [unfolded j] k(2) k(3) [unfolded j] k(4) k(5) [unfolded j]] False
      by (simp add: fetch_posting_def)
  qed
qed

lemma cursor_yields:
  assumes "cursor_at run c" and "\<forall>r\<in>set run. known_record table r"
  shows "yields (fetch_posting table) pc_current c run"
  using assms
proof (induction run arbitrary: c)
  case Nil
  then have "cur_remaining c = 0" by (simp add: cursor_at_def)
  then show ?case by (simp add: advance_def)
next
  case (Cons r run)
  obtain c' where c': "fetch_posting table c = Fetched c'" "pc_current c' = r" "cur_remaining c' = cur_remaining c"
      "cursor_at run (c'\<lparr>cur_remaining := cur_remaining c - 1\<rparr>)"
    using fetch_posting_known [OF Cons.prems(1)] Cons.prems(2) by auto
  have "cur_remaining c \<noteq> 0"
    using Cons.prems(1) unat_of_nat_less [of "length (r # run)", where 'a = 64] by (auto simp: cursor_at_def)
  then show ?case using c' Cons.IH [OF c'(4)] Cons.prems(2) by (auto simp: advance_def)
qed

lemma open_cursors_yields:
  assumes "open_cursors fs (map (spill_path p) is) = Some cs"
    and "\<forall>i\<in>set is. fs_files fs (spill_path p i) = Some (spill_bytes (runs ! i)) \<and> length (runs ! i) < 2 ^ 64
           \<and> (\<forall>r\<in>set (runs ! i). known_record table r)"
  shows "list_all2 (yields (fetch_posting table) pc_current) cs (map ((!) runs) is)"
  using assms
proof (induction "is" arbitrary: cs)
  case (Cons i "is")
  have f: "fs_files fs (spill_path p i) = Some (spill_bytes (runs ! i))" "length (runs ! i) < 2 ^ 64"
      "\<forall>r\<in>set (runs ! i). known_record table r"
    using Cons.prems(2) by simp_all
  have op: "ifstream_open (spill_path p i) fs = Some (stream_at (spill_bytes (runs ! i)) 0)"
    using Cons.prems(1) f(1) by (auto simp: ifstream_open_def split: if_splits)
  have l: "located (spill_bytes (runs ! i)) 0 (write_little_endian (of_nat (length (runs ! i)) :: u64)
      @ concat (map encode_record (runs ! i)))"
    by (simp add: spill_bytes_def)
  note rd = ifstream_read_le_at [OF l, simplified]
  let ?c = "\<lparr>cur_remaining = of_nat (length (runs ! i)), pc_input = stream_at (spill_bytes (runs ! i)) 8,
      pc_current = Posting_Record 0 0 0, pc_buffer = [], pc_buffer_offset = 0\<rparr>"
  obtain cs' where cs: "cs = ?c # cs'" "open_cursors fs (map (spill_path p) is) = Some cs'"
    using Cons.prems(1) op rd by auto
  have "cursor_at (runs ! i) ?c"
    unfolding cursor_at_def using f(2) located_append [OF l]
    by (intro conjI exI [of _ 0] exI [of _ "spill_bytes (runs ! i)"] exI [of _ 8]) simp_all
  then show ?case
    using cursor_yields f(3) Cons.IH [OF cs(2)] Cons.prems(2) cs(1) by simp
qed simp

lemma open_cursors_total:
  assumes "fs_no_faults fs" and "\<forall>i\<in>set is. fs_files fs (spill_path p i) = Some (spill_bytes (runs ! i))"
  shows "\<exists>cs. open_cursors fs (map (spill_path p) is) = Some cs"
  using assms(2)
proof (induction "is")
  case (Cons i "is")
  have op: "ifstream_open (spill_path p i) fs = Some (stream_at (spill_bytes (runs ! i)) 0)"
    using assms(1) Cons.prems by (simp add: ifstream_open_def fs_no_faults_def)
  have "located (spill_bytes (runs ! i)) 0 (write_little_endian (of_nat (length (runs ! i)) :: u64)
      @ concat (map encode_record (runs ! i)))"
    by (simp add: spill_bytes_def)
  from ifstream_read_le_at [OF this, simplified] show ?case using Cons op by auto
qed simp

end
