(* ===== verification/Postings_Correct.thy ===== *)
theory Postings_Correct
  imports Postings_Runs
begin

text \<open>
  \<open>finalize\<close> as a whole: whatever the device refuses, a build that reports success has put the
  complete, valid artifact of its rows in place, and one that reports an error has left the
  previous artifact alone; on a working device it succeeds. With the reader lemmas this
  gives the end-to-end behaviour of \<open>position_postings\<close>.
\<close>

section \<open>The merge as a whole\<close>

definition merged_content :: "posting_record list list \<Rightarrow> index_content" where
  "merged_content runs = abs_close (fold abs_visit (sort (concat runs)) ([], None))"

lemma put_header:
  assumes "put_bytes (replicate 88 0) (file_writer_of os) = Some w" and "os_ok os" and "os_data os = []"
  shows "fw_inv w" "fw_bytes w = replicate 88 0" "fw_same_file (file_writer_of os) w"
proof -
  have "fw_inv (file_writer_of os)" "fw_bytes (file_writer_of os) = []"
    using assms(2,3) by (simp_all add: file_writer_of_def fw_inv_def fw_bytes_def)
  then show "fw_inv w" "fw_bytes w = replicate 88 0" "fw_same_file (file_writer_of os) w"
    using put_bytes_Some [OF assms(1)] by simp_all
qed

text \<open>The scratch files as the merge creates them.\<close>
definition fresh_stream :: "path \<Rightarrow> filesystem \<Rightarrow> ofstream" where
  "fresh_stream p fs = \<lparr>os_path = p, os_data = [], os_ok = True, os_quota = fs_quota fs p\<rparr>"

definition create_file :: "path \<Rightarrow> filesystem \<Rightarrow> filesystem" where
  "create_file p fs = fs\<lparr>fs_files := (fs_files fs)(p := Some [])\<rparr>"

lemma ofstream_open_fresh:
  "ofstream_open p fs = (if fs_fault fs (Open_Write p) then (None, fs) else (Some (fresh_stream p fs), create_file p fs))"
  by (simp add: ofstream_open_def fresh_stream_def create_file_def)

lemma merge_postings_Some:
  fixes front :: "posting_cursor list \<Rightarrow> nat list \<Rightarrow> nat"
  assumes "heap_front front pc_current" and "runs_on_disk runs fs pp"
    and "\<forall>run\<in>set runs. length run < 2 ^ 64 \<and> (\<forall>r\<in>set run. known_record (pp_game_metadata pp) r)"
    and "merge_postings front fs pp = (Some st, fs')"
  defines "out \<equiv> file_writer_of (fresh_stream (temp_output_path (pp_path pp)) fs)"
    and "spool \<equiv> file_writer_of (fresh_stream (dirspool_path (pp_path pp)) fs)"
  shows "fs' = create_file (dirspool_path (pp_path pp)) (create_file (temp_output_path (pp_path pp)) fs)"
    and "\<exists>blocks. merged out spool (merged_content runs) blocks st"
proof -
  let ?fetch = "fetch_posting (pp_game_metadata pp)" and ?fs1 = "create_file (temp_output_path (pp_path pp)) fs"
  let ?spool = "file_writer_of (fresh_stream (dirspool_path (pp_path pp)) ?fs1)"
  obtain cs cs' heap w where cs: "open_cursors fs (pp_spill_paths pp) = Some cs" "start_cursors ?fetch 0 cs = Some (cs', heap)"
      and w: "put_bytes (replicate 88 0) out = Some w"
      and merge: "do { st \<leftarrow> heap_merge front ?fetch pc_current visit_posting cs' heap
            (start_merge w ?spool (pp_metrics pp)); st \<leftarrow> flush_hash st; flush_directory_block st } = Some st"
      and fs': "fs' = create_file (dirspool_path (pp_path pp)) ?fs1"
    using assms(4) unfolding merge_postings_def Let_def ofstream_open_fresh out_def
    by (auto split: option.splits Option.bind_splits if_splits)
  show "fs' = create_file (dirspool_path (pp_path pp)) ?fs1" by (rule fs')
  have spool: "?spool = spool" by (simp add: spool_def fresh_stream_def create_file_def)
  have "list_all2 (yields ?fetch pc_current) cs (map ((!) runs) [0..<length runs])"
    by (rule open_cursors_yields [where p = "pp_path pp"])
      (use cs(1) assms(2,3) in \<open>auto simp: runs_on_disk_def\<close>)
  then have "list_all2 (yields ?fetch pc_current) cs runs" by (simp add: map_nth)
  moreover have "\<forall>run\<in>set runs. sorted run" using assms(2) by (auto simp: runs_on_disk_def in_set_conv_nth)
  ultimately have visits: "heap_merge front ?fetch pc_current visit_posting cs' heap s
      = visit_all visit_posting (sort (concat runs)) s" for s
    using heap_front.kway_merge_visits [OF assms(1), of ?fetch cs runs visit_posting s] cs(2) by simp
  obtain st0 st1 where st: "visit_all visit_posting (sort (concat runs)) (start_merge w spool (pp_metrics pp)) = Some st0"
      "flush_hash st0 = Some st1" "flush_directory_block st1 = Some st"
    using merge unfolding visits spool by (auto split: Option.bind_splits)
  note h = put_header [OF w [unfolded out_def]]
  have inv: "fw_inv w" "fw_bytes w = replicate 88 0" "fw_same_file out w"
    using h by (simp_all add: fresh_stream_def out_def)
  have "rep w spool ([], None) (start_merge w spool (pp_metrics pp))"
    by (rule start_merge_rep [OF inv(1) _ inv(2)])
      (simp_all add: spool_def fresh_stream_def file_writer_of_def fw_inv_def fw_bytes_def)
  then have "rep w spool (fold abs_visit (sort (concat runs)) ([], None)) st0"
    by (rule visit_all_rep [OF st(1)]) (simp_all add: start_merge_def last_record_def)
  from flush_all_merged [OF st(2,3) this] obtain blocks where "merged w spool (merged_content runs) blocks st"
    by (auto simp: merged_content_def)
  then show "\<exists>blocks. merged out spool (merged_content runs) blocks st"
    using fw_same_file_trans [OF inv(3)] by (auto simp: merged_def)
qed

lemma merge_postings_total:
  fixes front :: "posting_cursor list \<Rightarrow> nat list \<Rightarrow> nat"
  assumes "heap_front front pc_current" and "runs_on_disk runs fs pp"
    and "\<forall>run\<in>set runs. length run < 2 ^ 64 \<and> (\<forall>r\<in>set run. known_record (pp_game_metadata pp) r)"
    and "fs_no_faults fs"
  shows "\<exists>st fs'. merge_postings front fs pp = (Some st, fs')"
proof -
  let ?fetch = "fetch_posting (pp_game_metadata pp)" and ?out = "fresh_stream (temp_output_path (pp_path pp)) fs"
  let ?fs1 = "create_file (temp_output_path (pp_path pp)) fs"
  let ?spool = "file_writer_of (fresh_stream (dirspool_path (pp_path pp)) ?fs1)"
  have paths: "pp_spill_paths pp = map (spill_path (pp_path pp)) [0..<length runs]"
    using assms(2) by (simp add: runs_on_disk_def)
  obtain cs where cs: "open_cursors fs (pp_spill_paths pp) = Some cs"
    unfolding paths using open_cursors_total [OF assms(4), of "[0..<length runs]" "pp_path pp" runs] assms(2)
    by (auto simp: runs_on_disk_def)
  have "list_all2 (yields ?fetch pc_current) cs (map ((!) runs) [0..<length runs])"
    by (rule open_cursors_yields [where p = "pp_path pp"])
      (use cs assms(2,3) in \<open>auto simp: runs_on_disk_def\<close>)
  then have y: "list_all2 (yields ?fetch pc_current) cs runs" by (simp add: map_nth)
  have "\<forall>run\<in>set runs. sorted run" using assms(2) by (auto simp: runs_on_disk_def in_set_conv_nth)
  note kway = heap_front.kway_merge_visits [OF assms(1) y this]
  obtain cs' heap where st: "start_cursors ?fetch 0 cs = Some (cs', heap)" using kway [of visit_posting undefined] by blast
  have visits: "heap_merge front ?fetch pc_current visit_posting cs' heap s
      = visit_all visit_posting (sort (concat runs)) s" for s
    using kway [of visit_posting s] st by simp
  have un: "fw_unlimited (file_writer_of ?out)" "fw_unlimited ?spool"
    using assms(4) by (simp_all add: fs_no_faults_def fw_unlimited_def file_writer_of_def fresh_stream_def create_file_def)
  obtain w where w: "put_bytes (replicate 88 0) (file_writer_of ?out) = Some w"
    using put_bytes_unlimited [OF _ un(1)]
    by (auto simp: file_writer_of_def fw_inv_def fw_bytes_def fresh_stream_def)
  note h = put_header [OF w]
  have inv: "fw_inv w" "fw_bytes w = replicate 88 0" "fw_unlimited w"
    using h un(1) same_unlimited by (auto simp: fresh_stream_def)
  let ?st = "start_merge w ?spool (pp_metrics pp)"
  have rep: "rep w ?spool ([], None) ?st"
    by (rule start_merge_rep [OF inv(1) _ inv(2)])
      (simp_all add: fresh_stream_def file_writer_of_def fw_inv_def fw_bytes_def)
  have prev: "ms_previous ?st = last_record (snd ([], None))" by (simp add: start_merge_def last_record_def)
  obtain st0 where st0: "visit_all visit_posting (sort (concat runs)) ?st = Some st0"
    using visit_all_total [OF rep prev _ inv(3) un(2)] by auto
  have rep0: "rep w ?spool (fold abs_visit (sort (concat runs)) ([], None)) st0"
    by (rule visit_all_rep [OF st0 rep prev]) simp
  obtain st1 where st1: "flush_hash st0 = Some st1" using flush_hash_total [OF rep0 inv(3) un(2)] by blast
  have "rep w ?spool (abs_close (fold abs_visit (sort (concat runs)) ([], None)), None) st1"
    using flush_hash_finished [OF st1 rep0] .
  then obtain st2 where st2: "flush_directory_block st1 = Some st2"
    using flush_directory_block_total [of st1] un(2) same_unlimited by (auto simp: rep_def)
  show ?thesis
    using cs st w st0 st1 st2 assms(4)
    by (simp add: merge_postings_def Let_def ofstream_open_fresh fs_no_faults_def create_file_def visits)
qed

section \<open>Writing the sections\<close>

lemma remove_spills_True:
  "remove_spills paths fs = (True, fs') \<Longrightarrow>
     fs_same_device fs fs' \<and> (\<forall>q. fs_files fs' q = (if q \<in> set paths then None else fs_files fs q))"
proof (induction paths arbitrary: fs)
  case (Cons p paths)
  then have ok: "\<not> fs_fault fs (Remove p)" "remove_spills paths (fs\<lparr>fs_files := (fs_files fs)(p := None)\<rparr>) = (True, fs')"
    by (auto simp: fs_remove_def split: if_splits)
  show ?case using Cons.IH [OF ok(2)] by (auto simp: fs_same_device_def)
qed simp

lemma remove_spills_total: "fs_no_faults fs \<Longrightarrow> \<exists>fs'. remove_spills paths fs = (True, fs')"
proof (induction paths arbitrary: fs)
  case (Cons p paths)
  have "fs_no_faults (fs\<lparr>fs_files := (fs_files fs)(p := None)\<rparr>)" using Cons.prems by (simp add: fs_no_faults_def)
  from Cons.IH [OF this] show ?case using Cons.prems by (simp add: fs_remove_def fs_no_faults_def)
qed simp

lemma encode_spool_sparse:
  "concat (map (encode_spool (of_nat base)) (spool_records off blocks))
     = concat (map encode_sparse (sparse_records (base + off) blocks))"
  by (induction blocks arbitrary: off) (simp_all add: encode_spool_def encode_sparse_def sparse_record_def add.assoc)

text \<open>A flushed writer whose stream takes a bulk copy.\<close>
lemma copy_spool_Some:
  assumes "copy_spool p fs w = Some w'" and "fs_files fs p = Some data" and "fw_inv w" and "fw_buffer w = []"
  shows "fw_inv (skip_offset (of_nat (length data)) w') \<and> fw_bytes (skip_offset (of_nat (length data)) w') = fw_bytes w @ data
     \<and> fw_same_file w (skip_offset (of_nat (length data)) w')"
proof -
  have w': "w' = w\<lparr>fw_stream := ofstream_write data (fw_stream w)\<rparr>" "os_ok (ofstream_write data (fw_stream w))"
    using assms(1,2) by (auto simp: copy_spool_def ifstream_open_def Let_def split: if_splits Option.bind_splits)
  then show ?thesis
    using assms(3,4) ofstream_write_ok [OF w'(2)]
    by (simp add: fw_inv_def fw_bytes_def fw_same_file_def skip_offset_def os_continues_def)
qed

lemma copy_spool_total:
  assumes "fs_no_faults fs" and "fs_files fs p = Some data" and "fw_inv w" and "fw_unlimited w"
  shows "\<exists>w'. copy_spool p fs w = Some w'"
  using assms by (simp add: copy_spool_def ifstream_open_def fs_no_faults_def ofstream_write_unlimited fw_inv_def
      fw_unlimited_def Let_def)

definition sparse_bytes :: "nat \<Rightarrow> directory_entry list list \<Rightarrow> bytes" where
  "sparse_bytes base blocks = concat (map encode_sparse (sparse_records base blocks))"

definition layout_of :: "index_content \<Rightarrow> metadata_table \<Rightarrow> directory_entry list list \<Rightarrow> layout" where
  "layout_of content table blocks = \<lparr>ly_metadata_offset = of_nat (metadata_start content),
     ly_directory_offset = of_nat (directory_start content table),
     ly_directory_byte_length = of_nat (length (directory_bytes blocks)),
     ly_sparse_offset = of_nat (sparse_start content table blocks), ly_sparse_count = length blocks\<rparr>"

lemma length_spool_records [simp]: "length (spool_records off blocks) = length blocks"
  by (induction blocks arbitrary: off) auto

text \<open>The optional copy of the spool, with the offset advanced.\<close>
lemma directory_copied:
  assumes "(if (of_nat (length data) :: u64) > 0 then copy_spool p fs w else Some w) = Some w'" and "fs_files fs p = Some data"
    and "fw_inv w" and "fw_buffer w = []" and "length data < 2 ^ 64"
  shows "fw_inv (skip_offset (of_nat (length data)) w') \<and> fw_bytes (skip_offset (of_nat (length data)) w') = fw_bytes w @ data
     \<and> fw_same_file w (skip_offset (of_nat (length data)) w')"
proof (cases "data = []")
  case True
  then show ?thesis using assms by (simp add: skip_offset_def)
next
  case False
  then have "(of_nat (length data) :: u64) > 0"
    using assms(5) unat_of_nat_less [of "length data", where 'a = 64] by (simp add: word_less_nat_alt)
  then show ?thesis using copy_spool_Some [OF _ assms(2-4)] assms(1) by simp
qed

text \<open>The staged file before the header is patched.\<close>
definition staged_bytes :: "index_content \<Rightarrow> metadata_table \<Rightarrow> directory_entry list list \<Rightarrow> bytes" where
  "staged_bytes content table blocks = replicate 88 0 @ postings_bytes content @ metadata_bytes table
     @ directory_bytes blocks @ sparse_bytes (directory_start content table) blocks"

lemma write_sections_Some:
  assumes "write_sections pp st fs = (Some ly, fs')" and "merged out spool content blocks st"
    and "os_path (fw_stream out) = temp_output_path (pp_path pp)" "os_path (fw_stream spool) = dirspool_path (pp_path pp)"
    and "table = sort_key fst (pp_game_metadata pp)" and "length (directory_bytes blocks) < 2 ^ 64"
  shows "ly = layout_of content table blocks \<and> fs_same_device fs fs'
     \<and> fs_files fs' = (fs_files fs)(dirspool_path (pp_path pp) := Some (directory_bytes blocks),
                                   temp_output_path (pp_path pp) := Some (staged_bytes content table blocks))"
proof -
  let ?dir = "directory_bytes blocks" and ?dlen = "of_nat (length (directory_bytes blocks)) :: u64"
  have m: "fw_inv (ms_writer st)" "fw_same_file out (ms_writer st)" "fw_inv (ms_dirspool_writer st)"
      "fw_same_file spool (ms_dirspool_writer st)" "fw_bytes (ms_writer st) = replicate 88 0 @ postings_bytes content"
      "fw_bytes (ms_dirspool_writer st) = ?dir" "ms_sparse st = spool_records 0 blocks"
    using assms(2) by (simp_all add: merged_def spooled_def)
  obtain w0 w1 sp where w0: "put_bytes (metadata_bytes table) (ms_writer st) = Some w0" and w1: "flush w0 = Some w1"
      and sp: "flush (ms_dirspool_writer st) = Some sp"
    using assms(1) unfolding write_sections_def Let_def write_metadata_put_bytes assms(5)
    by (auto split: option.splits Option.bind_splits)
  note p0 = put_bytes_Some [OF w0 m(1)] 
  note p1 = flush_Some [OF w1 conjunct1 [OF p0]] and ps = flush_Some [OF sp m(3)]
  let ?fs1 = "fs\<lparr>fs_files := (fs_files fs)(dirspool_path (pp_path pp) := Some ?dir)\<rparr>"
  have spath: "os_path (fw_stream sp) = dirspool_path (pp_path pp)"
    using ps(3) m(4) assms(4) by (simp add: fw_same_file_def)
  have close: "snd (ofstream_close (fw_stream sp) fs) = ?fs1"
    using ps(5) m(6) spath by (simp add: ofstream_close_def)
  have off: "fw_offset (ms_writer st) = of_nat (metadata_start content)" "fw_offset w0 = of_nat (directory_start content table)"
      "fw_offset sp = ?dlen"
    using m(1,5) p0 ps(1,2) m(6) by (simp_all add: fw_inv_def metadata_start_def directory_start_def)
  obtain w2 w3 w4 where w2: "(if ?dlen > 0 then copy_spool (dirspool_path (pp_path pp)) ?fs1 w1 else Some w1) = Some w2"
      and w3: "put_bytes (concat (map (encode_spool (of_nat (directory_start content table))) (spool_records 0 blocks)))
          (skip_offset ?dlen w2) = Some w3"
      and w4: "flush w3 = Some w4"
      and last: "(case ofstream_close (fw_stream w4) ?fs1 of
                       (False, fs) \<Rightarrow> (None, fs)
                     | (True, fs) \<Rightarrow>
                         (Some \<lparr>ly_metadata_offset = of_nat (metadata_start content),
                                ly_directory_offset = of_nat (directory_start content table),
                                ly_directory_byte_length = ?dlen, ly_sparse_offset = fw_offset (skip_offset ?dlen w2),
                                ly_sparse_count = length blocks\<rparr>, fs)) = (Some ly, fs')"
    using assms(1) w0 w1 sp close off m(7)
    unfolding write_sections_def Let_def write_metadata_put_bytes write_sparse_put_bytes assms(5)
    by (auto split: option.splits Option.bind_splits prod.splits bool.splits)
  have files1: "fs_files ?fs1 (dirspool_path (pp_path pp)) = Some ?dir" by simp
  note p2 = directory_copied [OF w2 files1 p1(1,4) assms(6)]
  note p3 = put_bytes_Some [OF w3 conjunct1 [OF p2]]
  note p4 = flush_Some [OF w4 conjunct1 [OF p3]]
  have path: "os_path (fw_stream w4) = temp_output_path (pp_path pp)"
    using p4(3) p3 p2 p1(3) p0 m(2) assms(3) by (simp add: fw_same_file_def)
  have data: "os_data (fw_stream w4) = staged_bytes content table blocks"
    using p4(5) p3 p2 p1(2) p0 m(5) encode_spool_sparse [of "directory_start content table" 0 blocks]
    by (simp add: staged_bytes_def sparse_bytes_def)
  have "fw_offset (skip_offset ?dlen w2) = of_nat (sparse_start content table blocks)"
    using p2 p1(2) p0 m(5) by (simp add: fw_inv_def sparse_start_def directory_start_def metadata_start_def)
  then show ?thesis
    using last path data by (auto simp: ofstream_close_def layout_of_def fs_same_device_def split: bool.splits)
qed

lemma write_sections_total:
  assumes "merged out spool content blocks st" and "fs_no_faults fs" and "fw_unlimited out" and "fw_unlimited spool"
    and "os_path (fw_stream spool) = dirspool_path (pp_path pp)" and "length (directory_bytes blocks) < 2 ^ 64"
  shows "\<exists>ly fs'. write_sections pp st fs = (Some ly, fs')"
proof -
  have m: "fw_inv (ms_writer st)" "fw_unlimited (ms_writer st)" "fw_inv (ms_dirspool_writer st)"
      "fw_unlimited (ms_dirspool_writer st)" "fw_same_file spool (ms_dirspool_writer st)"
      "fw_bytes (ms_dirspool_writer st) = directory_bytes blocks"
    using assms(1,3,4) same_unlimited by (auto simp: merged_def spooled_def)
  obtain w0 where w0: "put_bytes (metadata_bytes (sort_key fst (pp_game_metadata pp))) (ms_writer st) = Some w0"
    using put_bytes_unlimited [OF m(1,2)] by blast
  note p0 = put_bytes_Some [OF w0 m(1)]
  have u0: "fw_unlimited w0" using p0 m(2) same_unlimited by blast
  obtain w1 where w1: "flush w0 = Some w1" using flush_unlimited [of w0] p0 u0 by auto
  note p1 = flush_Some [OF w1 conjunct1 [OF p0]]
  have u1: "fw_unlimited w1" using p1(3) u0 same_unlimited by blast
  obtain sp where sp: "flush (ms_dirspool_writer st) = Some sp" using flush_unlimited [OF m(3,4)] by auto
  note ps = flush_Some [OF sp m(3)]
  let ?fs1 = "fs\<lparr>fs_files := (fs_files fs)(dirspool_path (pp_path pp) := Some (directory_bytes blocks))\<rparr>"
  have close: "ofstream_close (fw_stream sp) fs = (True, ?fs1)"
    using ps m(5,6) assms(2,5) by (simp add: ofstream_close_def fs_no_faults_def fw_inv_def fw_same_file_def)
  have nf1: "fs_no_faults ?fs1" using assms(2) by (simp add: fs_no_faults_def)
  have off: "fw_offset sp = of_nat (length (directory_bytes blocks))" using ps(1,2) m(6) by (simp add: fw_inv_def)
  obtain w2 where w2: "(if fw_offset sp > 0 then copy_spool (dirspool_path (pp_path pp)) ?fs1 w1 else Some w1) = Some w2"
    using copy_spool_total [OF nf1 _ p1(1) u1, of "dirspool_path (pp_path pp)" "directory_bytes blocks"]
    by (cases "fw_offset sp > 0") auto
  have files1: "fs_files ?fs1 (dirspool_path (pp_path pp)) = Some (directory_bytes blocks)" by simp
  note p2 = directory_copied [OF w2 [unfolded off] files1 p1(1,4) assms(6)]
  have u2: "fw_unlimited (skip_offset (fw_offset sp) w2)" using p2 u1 same_unlimited unfolding off by blast
  obtain w3 where w3: "put_bytes (concat (map (encode_spool (fw_offset w0)) (ms_sparse st))) (skip_offset (fw_offset sp) w2) = Some w3"
    using put_bytes_unlimited [OF conjunct1 [OF p2], folded off, OF u2] by blast
  note p3 = put_bytes_Some [OF w3 conjunct1 [OF p2, folded off]]
  have u3: "fw_unlimited w3" using p3 u2 same_unlimited by blast
  obtain w4 where w4: "flush w3 = Some w4" using flush_unlimited [of w3] p3 u3 by auto
  have "os_ok (fw_stream w4)" using flush_Some [OF w4 conjunct1 [OF p3]] by (simp add: fw_inv_def)
  moreover have "\<not> fs_fault ?fs1 (Close q)" for q using assms(2) by (simp add: fs_no_faults_def)
  ultimately show ?thesis
    using w0 w1 sp close w2 w3 w4
    by (simp add: write_sections_def Let_def write_metadata_put_bytes write_sparse_put_bytes ofstream_close_def [of "fw_stream w4"])
qed

section \<open>The index of a list of rows\<close>

definition index_of :: "position_row list \<Rightarrow> index_content" where
  "index_of rows = merged_content [map row_record rows]"

lemma sort_mset: "mset xs = mset ys \<Longrightarrow> sort xs = sort (ys :: 'a::linorder list)"
  by (metis properties_for_sort mset_sort sorted_sort)

lemma merged_content_index: "mset (concat runs) = mset (map row_record rows) \<Longrightarrow> merged_content runs = index_of rows"
  unfolding index_of_def merged_content_def using sort_mset [of "concat runs" "map row_record rows"] by simp

lemma index_of_records:
  assumes "\<forall>row\<in>set rows. valid_row row"
  shows "ascending (index_of rows)" "sorted_wrt (<) (records_of (index_of rows))"
    "set (records_of (index_of rows)) = row_record ` set rows"
proof -
  have "\<forall>r\<in>set (sort (map row_record rows)). rec_game_key r \<noteq> 0"
    using assms by (auto simp: valid_row_def row_record_def)
  from abs_visit_sorted [OF _ this] show "ascending (index_of rows)" "sorted_wrt (<) (records_of (index_of rows))"
    "set (records_of (index_of rows)) = row_record ` set rows"
    by (simp_all add: index_of_def merged_content_def Let_def)
qed

lemma length_records_of: "length (records_of content) = content_occurrences content"
proof (induction content)
  case (Cons item content)
  have "length (concat (map (group_records h) groups)) = length (group_occurrences groups)" for h groups
    by (induction groups) (auto simp: group_records_def group_occurrences_def)
  with Cons show ?case by (cases item) (simp add: content_occurrences_def)
qed simp

lemma index_of_occurrences:
  assumes "\<forall>row\<in>set rows. valid_row row"
  shows "content_occurrences (index_of rows) \<le> length rows"
proof -
  have "content_occurrences (index_of rows) = card (row_record ` set rows)"
    using index_of_records [OF assms] sorted_wrt_less_distinct distinct_card length_records_of by metis
  also have "\<dots> \<le> length rows" by (meson card_image_le card_length finite_set le_trans)
  finally show ?thesis .
qed

lemma length_encode_group_le: "plies \<noteq> [] \<Longrightarrow> length (encode_group previous (g, plies)) \<le> 40 * length plies"
proof -
  assume ne: "plies \<noteq> []"
  have d: "length (ply_delta_bytes p ps) \<le> 10 * length ps" for p ps
  proof (induction ps arbitrary: p)
    case (Cons q ps)
    show ?case using Cons.IH [of q] length_uleb128_le [of "word_of_int (uint q - uint p)"] by simp
  qed simp
  have "length (encode_group previous (g, plies)) \<le> 30 + 10 * length (tl plies)"
    unfolding encode_group_def prod.case length_append
    using d [of "hd plies" "tl plies"] length_uleb128_le [of "of_nat (length plies)"]
      length_uleb128_le [of "ucast (hd plies)"]
      length_uleb128_le [of "ucast (case previous of None \<Rightarrow> g | Some p \<Rightarrow> g - p)"] by linarith
  then show ?thesis using ne by (cases plies) auto
qed

lemma length_encode_groups_le: "wf_groups groups \<Longrightarrow> length (encode_groups previous groups) \<le> 40 * length (group_occurrences groups)"
proof (induction groups arbitrary: previous)
  case (Cons item groups)
  obtain g plies where item: "item = (g, plies)" by force
  with Cons.prems have "plies \<noteq> []" "wf_groups groups" by (simp_all add: wf_groups_Cons)
  with Cons.IH [of "Some g"] length_encode_group_le [of plies previous g] show ?case by (simp add: item)
qed simp

lemma length_postings_bytes_le: "ascending content \<Longrightarrow> length (postings_bytes content) \<le> 40 * content_occurrences content"
proof (induction content)
  case (Cons item content)
  obtain h groups where item: "item = (h, groups)" by force
  with Cons.prems have "ascending content" "wf_groups groups" by (auto simp: ascending_def)
  with Cons.IH length_encode_groups_le [of groups None] show ?case
    by (simp add: item postings_bytes_def content_occurrences_def)
qed simp

lemma length_directory_bytes_le:
  "\<forall>b\<in>set blocks. b \<noteq> [] \<and> length b \<le> max_directory_block_entries \<Longrightarrow>
     length (directory_bytes blocks) \<le> max_directory_block_size * length blocks \<and> length blocks \<le> length (concat blocks)"
proof (induction blocks)
  case (Cons b blocks)
  then show ?case using length_encode_directory_block [of b] by (cases b) auto
qed simp

lemma wf_table_for:
  assumes "table_for rows t" and "\<forall>row\<in>set rows. valid_row row"
  shows "wf_table (sort_key fst t)" and "table_for rows (sort_key fst t)" and "length t \<le> length rows"
    and "fst ` set (sort_key fst t) = pr_game_id ` set rows"
proof -
  have d: "distinct (map fst t)" and mo: "\<And>g m. map_of t g = Some m \<longleftrightarrow> (\<exists>row\<in>set rows. pr_game_id row = g \<and> row_metadata row = m)"
    using assms(1) by (auto simp: table_for_def)
  have d': "distinct (map fst (sort_key fst t))"
    using d by (simp add: distinct_map)
  have mem: "(g, m) \<in> set t \<longleftrightarrow> (\<exists>row\<in>set rows. pr_game_id row = g \<and> row_metadata row = m)" for g m
    unfolding mo [symmetric] using d by (rule map_of_eq_Some_iff [symmetric])
  have "sorted_wrt (<) (map fst (sort_key fst t))"
    using d' by (simp add: strict_sorted_iff)
  moreover have "\<forall>(g, m) \<in> set t. g \<noteq> 0 \<and> valid_result (gm_result m)"
    using assms(2) mem by (fastforce simp: valid_row_def row_metadata_def)
  ultimately show "wf_table (sort_key fst t)" by (simp add: wf_table_def)
  have "map_of (sort_key fst t) = map_of t"
    using d d' by (metis map_of_inject_set set_sort)
  then show "table_for rows (sort_key fst t)" using d' mo by (simp add: table_for_def)
  have img: "fst ` set t = pr_game_id ` set rows" using mem by force
  then show "fst ` set (sort_key fst t) = pr_game_id ` set rows" by simp
  have "length t = card (fst ` set t)" using d by (metis distinct_card length_map list.set_map)
  also have "\<dots> \<le> length rows" unfolding img by (meson card_image_le card_length finite_set le_trans)
  finally show "length t \<le> length rows" .
qed

lemma group_records_mem: "(h, groups) \<in> set content \<Longrightarrow> (g, plies) \<in> set groups \<Longrightarrow> p \<in> set plies \<Longrightarrow>
    Posting_Record h g p \<in> set (records_of content)"
  by (induction content) (force simp: group_records_def)+

lemma wf_artifact_index:
  assumes "\<forall>row\<in>set rows. valid_row row" and "table_for rows t" and "length rows < 2 ^ 32"
    and "wf_blocks (index_of rows) blocks"
  shows "wf_artifact (index_of rows) (sort_key fst t) blocks"
proof -
  let ?c = "index_of rows" and ?t = "sort_key fst t"
  note rec = index_of_records [OF assms(1)] and tab = wf_table_for [OF assms(2,1)]
  have occ: "content_occurrences ?c < 2 ^ 32" using index_of_occurrences [OF assms(1)] assms(3) by simp
  have "length (group_occurrences groups) \<le> content_occurrences ?c" if "(h, groups) \<in> set ?c" for h groups
  proof -
    have "length (group_occurrences groups) \<in> set (map (\<lambda>(hash, groups). length (group_occurrences groups)) ?c)"
      using that by force
    then show ?thesis unfolding content_occurrences_def by (intro member_le_sum_list) simp_all
  qed
  then have wfc: "wf_content ?c"
    using rec(1) occ unfolding wf_content_def ascending_def by fastforce
  have games: "fst ` set groups \<subseteq> fst ` set ?t" if "(h, groups) \<in> set ?c" for h groups
  proof
    fix g assume "g \<in> fst ` set groups"
    then obtain plies where gp: "(g, plies) \<in> set groups" by force
    moreover have "plies \<noteq> []" using rec(1) that gp by (auto simp: ascending_def wf_groups_def)
    ultimately have "Posting_Record h g (hd plies) \<in> row_record ` set rows"
      using group_records_mem [OF that gp, of "hd plies"] rec(3) by simp
    then show "g \<in> fst ` set ?t" unfolding tab(4) by (auto simp: row_record_def)
  qed
  have blocks: "length (directory_bytes blocks) \<le> max_directory_block_size * length blocks" "length blocks \<le> length ?c"
    using length_directory_bytes_le [of blocks] assms(4) by (auto simp: wf_blocks_def)
  have n: "length blocks < 2 ^ 32"
    using blocks(2) length_content_le [OF wfc] occ by simp
  have "length (artifact ?c ?t blocks) \<le> 88 + 40 * content_occurrences ?c + 10 * length t
      + max_directory_block_size * length blocks + 22 * length blocks"
    using length_postings_bytes_le [OF rec(1)] blocks(1)
    by (simp add: length_artifact sparse_start_def directory_start_def metadata_start_def length_metadata_bytes)
  also have "\<dots> < 2 ^ 63"
    using occ tab(3) assms(3) n by (simp add: max_directory_block_size_def max_directory_block_entries_def)
  finally show ?thesis
    using wfc tab(1) assms(4) games unfolding wf_artifact_def by blast
qed

section \<open>Installing the artifact\<close>

lemma patch_bytes_header:
  assumes "counted pp" and "ms_total_occurrences st = of_nat (content_occurrences content)"
    and "ms_distinct_hash_count st = of_nat (length content)"
  shows "patch_bytes pp st (layout_of content (sort_key fst (pp_game_metadata pp)) blocks)
     = header_bytes (header_words content (sort_key fst (pp_game_metadata pp)) blocks)"
  using assms
  by (simp add: patch_bytes_def header_bytes_def header_words_def layout_of_def counted_def fixed_header_size_def)

lemma patched_artifact:
  "header_bytes (header_words content table blocks) @ drop 88 (staged_bytes content table blocks) = artifact content table blocks"
  by (simp add: staged_bytes_def artifact_def sparse_bytes_def)

lemma install_staged:
  assumes "fs_files fs (temp_output_path (pp_path pp)) = Some (staged_bytes content table blocks)"
    and "patch_bytes pp st ly = header_bytes (header_words content table blocks)"
  defines "fs1 \<equiv> fs\<lparr>fs_files := (fs_files fs)(temp_output_path (pp_path pp) := Some (artifact content table blocks))\<rparr>"
  shows "install pp st ly fs = (Inr u, fs', final_size) \<Longrightarrow>
      fs' = snd (fs_rename (temp_output_path (pp_path pp)) (pp_path pp) fs1)
      \<and> fs_files fs' = (fs_files fs)(temp_output_path (pp_path pp) := None, pp_path pp := Some (artifact content table blocks))"
    and "fs_no_faults fs \<Longrightarrow> wf_artifact content table blocks \<Longrightarrow> \<exists>fs' final_size. install pp st ly fs = (Inr (), fs', final_size)"
proof -
  have ov: "fs_overwrite (temp_output_path (pp_path pp)) (patch_bytes pp st ly) fs =
      (if fs_fault fs (Open_Update (temp_output_path (pp_path pp))) then (False, fs)
       else (\<not> fs_fault fs (Close (temp_output_path (pp_path pp))), fs1))"
    unfolding assms(2) fs_overwrite_def
    using assms(1) patched_artifact [of content table blocks] by (simp add: fs1_def length_header_bytes)
  show "install pp st ly fs = (Inr u, fs', final_size) \<Longrightarrow>
      fs' = snd (fs_rename (temp_output_path (pp_path pp)) (pp_path pp) fs1)
      \<and> fs_files fs' = (fs_files fs)(temp_output_path (pp_path pp) := None, pp_path pp := Some (artifact content table blocks))"
    unfolding install_def Let_def ov
    by (auto simp: fs_rename_def fs1_def split: if_splits prod.splits sum.splits bool.splits option.splits)
  assume nf: "fs_no_faults fs" and wf: "wf_artifact content table blocks"
  let ?staged = "new_postings (temp_output_path (pp_path pp)) default_spill_threshold"
  have "postings_open fs1 ?staged = (Inr (), opened content table blocks ?staged)"
    by (rule postings_open_artifact [OF wf])
      (use nf in \<open>simp_all add: fs1_def new_postings_def fs_no_faults_def\<close>)
  then show "\<exists>fs' final_size. install pp st ly fs = (Inr (), fs', final_size)"
    unfolding install_def Let_def ov using nf
    by (simp add: fs_no_faults_def fs_rename_def fs1_def fs_file_size_def)
qed

section \<open>\<open>finalize\<close>\<close>

lemma fs_discard_all_files:
  "q \<notin> set ps \<Longrightarrow> fs_files (fs_discard_all ps fs) q = fs_files fs q"
  "fs_fault (fs_discard_all ps fs) = fs_fault fs"
proof -
  have "q \<notin> set ps \<longrightarrow> fs_files (fold fs_discard ps fs) q = fs_files fs q"
    by (induction ps arbitrary: fs) (auto simp: fs_discard_def fs_remove_def)
  then show "q \<notin> set ps \<Longrightarrow> fs_files (fs_discard_all ps fs) q = fs_files fs q" by (simp add: fs_discard_all_def)
  show "fs_fault (fs_discard_all ps fs) = fs_fault fs"
    unfolding fs_discard_all_def by (induction ps arbitrary: fs) (auto simp: fs_discard_def fs_remove_def)
qed

lemma build_inv_runs:
  assumes "build_inv rows fs pp" and "pp_records pp = []" and "length rows < 2 ^ 32"
  obtains runs where "runs_on_disk runs fs pp" "merged_content runs = index_of rows"
    "\<forall>run\<in>set runs. length run < 2 ^ 64 \<and> (\<forall>r\<in>set run. known_record (pp_game_metadata pp) r)"
proof -
  obtain runs where runs: "runs_on_disk runs fs pp" and ms: "mset (concat runs) = mset (map row_record rows)"
    using assms(1,2) by (auto simp: build_inv_def)
  have "length run < 2 ^ 64 \<and> (\<forall>r\<in>set run. known_record (pp_game_metadata pp) r)" if "run \<in> set runs" for run
  proof
    have "length run \<le> length (concat runs)"
      unfolding length_concat by (rule member_le_sum_list) (use that in auto)
    also have "\<dots> = length rows" using arg_cong [OF ms, of size] by simp
    finally show "length run < 2 ^ 64" using assms(3) by simp
    show "\<forall>r\<in>set run. known_record (pp_game_metadata pp) r"
    proof
      fix r assume "r \<in> set run"
      then have "r \<in> set_mset (mset (concat runs))" using that by auto
      then obtain row where row: "row \<in> set rows" "r = row_record row" unfolding ms by auto
      then have "map_of (pp_game_metadata pp) (pr_game_id row) = Some (row_metadata row)" "valid_row row"
        using assms(1) by (auto simp: build_inv_def table_for_def)
      then show "known_record (pp_game_metadata pp) r"
        by (simp add: known_record_def row row_record_def row_metadata_def valid_row_def)
    qed
  qed
  then show ?thesis using that runs merged_content_index [OF ms] by blast
qed

text \<open>What a finished build looks like on disk.\<close>
definition installed :: "position_row list \<Rightarrow> path \<Rightarrow> filesystem \<Rightarrow> bool" where
  "installed rows path fs \<longleftrightarrow>
     (\<exists>table blocks. table_for rows table \<and> wf_artifact (index_of rows) table blocks
        \<and> fs_files fs path = Some (artifact (index_of rows) table blocks))"

lemma merge_runs_body_Inr:
  fixes front :: "posting_cursor list \<Rightarrow> nat list \<Rightarrow> nat"
  assumes "heap_front front pc_current" and "build_inv rows fs pp" and "pp_records pp = []" and "counted pp"
    and "length rows < 2 ^ 32"
  shows "merge_runs_body front fs pp = (Inr u, fs', pp') \<Longrightarrow>
      installed rows (pp_path pp) fs' \<and> fs_fault fs' = fs_fault fs \<and> pp_path pp' = pp_path pp \<and> pp_spill_paths pp' = []"
    and "fs_no_faults fs \<Longrightarrow> \<exists>fs' pp'. merge_runs_body front fs pp = (Inr (), fs', pp')"
proof -
  obtain runs where runs: "runs_on_disk runs fs pp" "merged_content runs = index_of rows"
      "\<forall>run\<in>set runs. length run < 2 ^ 64 \<and> (\<forall>r\<in>set run. known_record (pp_game_metadata pp) r)"
    using build_inv_runs [OF assms(2,3,5)] .
  let ?out = "file_writer_of (fresh_stream (temp_output_path (pp_path pp)) fs)"
  let ?spool = "file_writer_of (fresh_stream (dirspool_path (pp_path pp)) fs)"
  let ?table = "sort_key fst (pp_game_metadata pp)" and ?pp1 = "pp\<lparr>pp_spill_paths := []\<rparr>"
  have valid: "\<forall>row\<in>set rows. valid_row row" and tab: "table_for rows (pp_game_metadata pp)"
    using assms(2) by (auto simp: build_inv_def)
  note table = wf_table_for [OF tab valid]
  have paths: "os_path (fw_stream ?out) = temp_output_path (pp_path ?pp1)"
      "os_path (fw_stream ?spool) = dirspool_path (pp_path ?pp1)"
    by (simp_all add: file_writer_of_def fresh_stream_def)
  have merged: "\<exists>blocks. merged ?out ?spool (index_of rows) blocks st \<and> fs_same_device fs fs1
      \<and> wf_artifact (index_of rows) ?table blocks \<and> length (directory_bytes blocks) < 2 ^ 64"
    if m: "merge_postings front fs pp = (Some st, fs1)" for st fs1
  proof -
    note p = merge_postings_Some [OF assms(1) runs(1,3) m]
    then obtain blocks where b: "merged ?out ?spool (index_of rows) blocks st" using runs(2) by auto
    then have wf: "wf_artifact (index_of rows) ?table blocks"
      using wf_artifact_index [OF valid tab assms(5)] by (simp add: merged_def)
    have "length (directory_bytes blocks) < 2 ^ 64"
      using artifact_bounds(2) [of "index_of rows" ?table blocks] wf by (simp add: wf_artifact_def)
    moreover have "fs_same_device fs fs1" using p(1) by (simp add: create_file_def fs_same_device_def)
    ultimately show ?thesis using b wf by blast
  qed
  show "merge_runs_body front fs pp = (Inr u, fs', pp') \<Longrightarrow>
      installed rows (pp_path pp) fs' \<and> fs_fault fs' = fs_fault fs \<and> pp_path pp' = pp_path pp \<and> pp_spill_paths pp' = []"
  proof -
    assume body: "merge_runs_body front fs pp = (Inr u, fs', pp')"
    obtain st fs1 fs2 ly fs3 final_size where m: "merge_postings front fs pp = (Some st, fs1)"
        and r: "remove_spills (pp_spill_paths pp) fs1 = (True, fs2)"
        and w: "write_sections ?pp1 st fs2 = (Some ly, fs3)" and i: "install ?pp1 st ly fs3 = (Inr (), fs', final_size)"
        and pp': "pp' = ?pp1\<lparr>pp_metrics := final_metrics st ly final_size\<rparr>"
      using body by (auto simp: merge_runs_body_def Let_def split: prod.splits option.splits bool.splits sum.splits)
    obtain blocks where b: "merged ?out ?spool (index_of rows) blocks st" "fs_same_device fs fs1"
        "wf_artifact (index_of rows) ?table blocks" "length (directory_bytes blocks) < 2 ^ 64"
      using merged [OF m] by blast
    have s: "ly = layout_of (index_of rows) ?table blocks" "fs_same_device fs2 fs3"
        "fs_files fs3 (temp_output_path (pp_path ?pp1)) = Some (staged_bytes (index_of rows) ?table blocks)"
      using write_sections_Some [OF w b(1) paths _ b(4), of ?table] by auto
    have c: "counted ?pp1" using assms(4) by (simp add: counted_def)
    have "patch_bytes ?pp1 st (layout_of (index_of rows) (sort_key fst (pp_game_metadata ?pp1)) blocks)
        = header_bytes (header_words (index_of rows) (sort_key fst (pp_game_metadata ?pp1)) blocks)"
      using patch_bytes_header [OF c] b(1) by (simp add: merged_def)
    then have patch: "patch_bytes ?pp1 st ly = header_bytes (header_words (index_of rows) ?table blocks)"
      by (simp add: s(1))
    note inst = install_staged(1) [OF s(3) patch i]
    have "fs_fault fs' = fs_fault fs3" using inst by (auto simp: fs_rename_def)
    moreover have "fs_fault fs3 = fs_fault fs"
      using s(2) b(2) remove_spills_True [OF r] by (simp add: fs_same_device_def)
    moreover have "installed rows (pp_path pp) fs'"
      unfolding installed_def using conjunct2 [OF inst] b(3) table(2)
      by (intro exI [of _ ?table] exI [of _ blocks]) simp
    ultimately show ?thesis using pp' by simp
  qed
  assume nf: "fs_no_faults fs"
  obtain st fs1 where m: "merge_postings front fs pp = (Some st, fs1)"
    using merge_postings_total [OF assms(1) runs(1,3) nf] by blast
  obtain blocks where b: "merged ?out ?spool (index_of rows) blocks st" "fs_same_device fs fs1"
      "wf_artifact (index_of rows) ?table blocks" "length (directory_bytes blocks) < 2 ^ 64"
    using merged [OF m] by blast
  have nf1: "fs_no_faults fs1" using fs_no_faults_same [OF b(2) nf] .
  obtain fs2 where r: "remove_spills (pp_spill_paths pp) fs1 = (True, fs2)" using remove_spills_total [OF nf1] by blast
  have nf2: "fs_no_faults fs2" using remove_spills_True [OF r] nf1 fs_no_faults_same by blast
  have un: "fw_unlimited ?out" "fw_unlimited ?spool"
    using nf by (simp_all add: fs_no_faults_def fw_unlimited_def file_writer_of_def fresh_stream_def)
  obtain ly fs3 where w: "write_sections ?pp1 st fs2 = (Some ly, fs3)"
    using write_sections_total [OF b(1) nf2 un paths(2) b(4)] by blast
  have s: "ly = layout_of (index_of rows) ?table blocks" "fs_same_device fs2 fs3"
      "fs_files fs3 (temp_output_path (pp_path ?pp1)) = Some (staged_bytes (index_of rows) ?table blocks)"
    using write_sections_Some [OF w b(1) paths _ b(4), of ?table] by auto
  have c: "counted ?pp1" using assms(4) by (simp add: counted_def)
  have "patch_bytes ?pp1 st ly = header_bytes (header_words (index_of rows) ?table blocks)"
    using patch_bytes_header [OF c, of st "index_of rows" blocks] b(1) by (simp add: s(1) merged_def)
  from install_staged(2) [OF s(3) this _ b(3)] obtain fs' final_size where "install ?pp1 st ly fs3 = (Inr (), fs', final_size)"
    using nf2 s(2) fs_no_faults_same by blast
  then show "\<exists>fs' pp'. merge_runs_body front fs pp = (Inr (), fs', pp')"
    using m r w by (simp add: merge_runs_body_def Let_def)
qed

lemma installed_cong: "fs_files fs' path = fs_files fs path \<Longrightarrow> installed rows path fs' = installed rows path fs"
  by (simp add: installed_def)

lemma release_artifacts_path:
  "path \<notin> set spills \<Longrightarrow> fs_files (release_artifacts spills [dirspool_path path, temp_output_path path] fs) path = fs_files fs path"
  "fs_fault (release_artifacts spills extra fs) = fs_fault fs"
  unfolding release_artifacts_def by (simp_all add: fs_discard_all_files)

lemma finalize_Inr:
  fixes front :: "posting_cursor list \<Rightarrow> nat list \<Rightarrow> nat"
  assumes "heap_front front pc_current" and "build_inv rows fs pp" and "counted pp" and "length rows < 2 ^ 32"
    and "finalize front fs pp = (Inr u, fs', pp')"
  shows "installed rows (pp_path pp) fs' \<and> fs_fault fs' = fs_fault fs \<and> pp_path pp' = pp_path pp \<and> pp_spill_paths pp' = []"
proof -
  obtain fs1 pp1 where sp: "spill_current_buffer fs pp = (Inr (), fs1, pp1)" and m: "merge_runs front fs1 pp1 = (Inr u, fs', pp')"
    using assms(5) by (auto simp: finalize_def split: if_splits prod.splits sum.splits)
  note s = spill_current_buffer_Inr [OF sp assms(2)]
  have s': "build_inv rows fs1 pp1" "pp_records pp1 = []" "counted pp1" "pp_path pp1 = pp_path pp" "fs_fault fs1 = fs_fault fs"
    using s assms(3) by (simp_all add: counted_def same_object_def fs_same_device_def)
  obtain fs2 pp2 where body: "merge_runs_body front fs1 pp1 = (Inr u, fs2, pp2)"
      and fs': "fs' = release_artifacts (pp_spill_paths pp2) [dirspool_path (pp_path pp2), temp_output_path (pp_path pp2)] fs2"
      and pp': "pp' = pp2\<lparr>pp_spill_paths := []\<rparr>"
    using m by (auto simp: merge_runs_def split: prod.splits)
  note b = merge_runs_body_Inr(1) [OF assms(1) s'(1,2,3) assms(4) body]
  then have "fs_files fs' (pp_path pp) = fs_files fs2 (pp_path pp)"
    unfolding fs' using s'(4) by (simp add: release_artifacts_path)
  then show ?thesis
    using b s'(4,5) installed_cong [of fs' "pp_path pp" fs2] pp' by (simp add: fs' release_artifacts_path)
qed

lemma finalize_total:
  fixes front :: "posting_cursor list \<Rightarrow> nat list \<Rightarrow> nat"
  assumes "heap_front front pc_current" and "build_inv rows fs pp" and "counted pp" and "length rows < 2 ^ 32"
    and "fs_no_faults fs" and "0 < pp_spill_threshold pp"
  shows "\<exists>fs' pp'. finalize front fs pp = (Inr (), fs', pp')"
proof -
  obtain fs1 pp1 where sp: "spill_current_buffer fs pp = (Inr (), fs1, pp1)"
    using spill_current_buffer_total [OF assms(5)] by blast
  note s = spill_current_buffer_Inr [OF sp assms(2)]
  have s': "build_inv rows fs1 pp1" "pp_records pp1 = []" "counted pp1" "fs_no_faults fs1"
    using s assms(3,5) fs_no_faults_same by (auto simp: counted_def same_object_def)
  obtain fs2 pp2 where "merge_runs_body front fs1 pp1 = (Inr (), fs2, pp2)"
    using merge_runs_body_Inr(2) [OF assms(1) s'(1,2,3) assms(4) s'(4)] by blast
  then show ?thesis using sp assms(6) by (simp add: finalize_def merge_runs_def)
qed

end
