(* ===== verification/Postings_Atomic.thy ===== *)
theory Postings_Atomic
  imports Postings_Correct
begin

text \<open>
  What a build does to the disk when it does not finish. Every step of
  \<open>position_postings::build\<close> touches only its own scratch files (the spills, the
  directory spool and the temporary output) until the final rename, so that a
  failed build leaves the artifact it was to replace as it was.
\<close>

section \<open>Failed builds leave the artifact alone\<close>

text \<open>The scratch files of a builder have paths of their own.\<close>
definition owns_spills :: "position_postings \<Rightarrow> bool" where
  "owns_spills pp \<longleftrightarrow> (\<exists>n. pp_spill_paths pp = map (spill_path (pp_path pp)) [0..<n])"

definition keeps :: "path \<Rightarrow> filesystem \<Rightarrow> filesystem \<Rightarrow> bool" where
  "keeps q fs fs' \<longleftrightarrow> fs_files fs' q = fs_files fs q"

lemma owns_spills_path: "owns_spills pp \<Longrightarrow> pp_path pp \<notin> set (pp_spill_paths pp)"
  by (auto simp: owns_spills_def)

text \<open>Everything a spill can do to the disk, on any path of the function.\<close>
lemma spill_current_buffer_effect:
  assumes "spill_current_buffer fs pp = (res, fs', pp')" and "owns_spills pp"
  shows "same_object pp pp' \<and> owns_spills pp' \<and> fs_same_device fs fs'
     \<and> (\<forall>q. (\<forall>i. q \<noteq> spill_path (pp_path pp) i) \<longrightarrow> keeps q fs fs')
     \<and> (\<forall>q. q \<notin> set (pp_spill_paths pp') \<longrightarrow> keeps q fs fs' \<or> fs_fault fs (Remove q) \<or> fs_files fs' q = None)"
proof -
  obtain n where n: "pp_spill_paths pp = map (spill_path (pp_path pp)) [0..<n]" using assms(2) by (auto simp: owns_spills_def)
  let ?t = "spill_path (pp_path pp) n"
  have "same_object pp pp' \<and> fs_same_device fs fs' \<and> (\<forall>q. q \<noteq> ?t \<longrightarrow> keeps q fs fs')
      \<and> (pp_spill_paths pp' = pp_spill_paths pp \<and> (keeps ?t fs fs' \<or> fs_fault fs (Remove ?t) \<or> fs_files fs' ?t = None)
         \<or> pp_spill_paths pp' = pp_spill_paths pp @ [?t])"
    using assms(1) write_spill_Some [of "sort (pp_records pp)"] n
    by (auto simp: spill_current_buffer_def Let_def keeps_def same_object_def ofstream_open_fresh create_file_def
        fresh_stream_def ofstream_close_def fs_discard_def fs_remove_def os_continues_def fs_same_device_def
        split: if_splits option.splits prod.splits bool.splits)
  note eff = this [THEN conjunct1] this [THEN conjunct2, THEN conjunct1]
    this [THEN conjunct2, THEN conjunct2, THEN conjunct1] this [THEN conjunct2, THEN conjunct2, THEN conjunct2]
  have "pp_spill_paths pp' = map (spill_path (pp_path pp')) [0..<n]
      \<or> pp_spill_paths pp' = map (spill_path (pp_path pp')) [0..<Suc n]"
    using eff(1,4) n by (auto simp: same_object_def)
  then have own: "owns_spills pp'" unfolding owns_spills_def by blast
  have "keeps q fs fs' \<or> fs_fault fs (Remove q) \<or> fs_files fs' q = None" if "q \<notin> set (pp_spill_paths pp')" for q
  proof (cases "q = ?t")
    case True
    then have "pp_spill_paths pp' = pp_spill_paths pp" using eff(4) that by force
    then show ?thesis using eff(4) True by simp
  next
    case False
    then show ?thesis using eff(3) by blast
  qed
  moreover have "keeps q fs fs'" if "\<forall>i. q \<noteq> spill_path (pp_path pp) i" for q using eff(3) that by blast
  ultimately show ?thesis using eff(1,2) own by blast
qed

text \<open>
  The disk of a build in progress, against the disk \<open>fs0\<close> it started on: the artifact is
  untouched, and when removals work and no scratch file was there before, only the registered
  spills are new.
\<close>
definition scratch_path :: "path \<Rightarrow> path \<Rightarrow> bool" where
  "scratch_path p q \<longleftrightarrow> q = temp_output_path p \<or> q = dirspool_path p \<or> (\<exists>i. q = spill_path p i)"

definition clean_start :: "path \<Rightarrow> filesystem \<Rightarrow> bool" where
  "clean_start p fs \<longleftrightarrow> (\<forall>q. \<not> fs_fault fs (Remove q)) \<and> (\<forall>q. scratch_path p q \<longrightarrow> fs_files fs q = None)"

definition confined :: "path \<Rightarrow> filesystem \<Rightarrow> filesystem \<Rightarrow> position_postings \<Rightarrow> bool" where
  "confined p fs0 fs pp \<longleftrightarrow> pp_path pp = p \<and> owns_spills pp \<and> fs_same_device fs0 fs \<and> keeps p fs0 fs
     \<and> (clean_start p fs0 \<longrightarrow> (\<forall>q. q \<notin> set (pp_spill_paths pp) \<longrightarrow> keeps q fs0 fs))
     \<and> (\<forall>q. \<not> scratch_path p q \<longrightarrow> keeps q fs0 fs)"

lemma spill_current_buffer_confined:
  assumes "spill_current_buffer fs pp = (res, fs', pp')" and "confined p fs0 fs pp"
  shows "confined p fs0 fs' pp'"
proof -
  have own: "owns_spills pp" and p: "pp_path pp = p" using assms(2) by (auto simp: confined_def)
  note e = spill_current_buffer_effect [OF assms(1) own]
  note e1 = e [THEN conjunct1] e [THEN conjunct2, THEN conjunct1]
    e [THEN conjunct2, THEN conjunct2, THEN conjunct1] e [THEN conjunct2, THEN conjunct2, THEN conjunct2]
  have dev: "fs_same_device fs0 fs'" using e1(3) assms(2) fs_same_device_trans by (auto simp: confined_def)
  have path: "keeps p fs0 fs'" using e1(4) p assms(2) by (simp add: confined_def keeps_def)
  have "keeps q fs0 fs'" if clean: "clean_start p fs0" and q: "q \<notin> set (pp_spill_paths pp')" for q
  proof -
    have faults: "\<not> fs_fault fs (Remove q)" using clean assms(2) by (simp add: clean_start_def confined_def fs_same_device_def)
    have old: "keeps q fs0 fs \<or> q \<in> set (pp_spill_paths pp)" using clean assms(2) by (auto simp: confined_def)
    have "q \<in> set (pp_spill_paths pp) \<Longrightarrow> scratch_path p q"
      using own p by (auto simp: owns_spills_def scratch_path_def)
    then have none: "fs_files fs0 q = None" if "scratch_path p q \<or> q \<in> set (pp_spill_paths pp)"
      using that clean by (auto simp: clean_start_def)
    show ?thesis
    proof (cases "scratch_path p q \<or> q \<in> set (pp_spill_paths pp)")
      case True
      have sub: "set (pp_spill_paths pp) \<subseteq> set (pp_spill_paths pp')"
        using assms(1) by (auto simp: spill_current_buffer_def Let_def split: if_splits option.splits prod.splits bool.splits)
      show ?thesis using True none faults e1(4) q old sub by (auto simp: keeps_def)
    next
      case False
      then have "keeps q fs fs'" using e1(4) p by (auto simp: scratch_path_def)
      then show ?thesis using old False by (simp add: keeps_def)
    qed
  qed
  moreover have "keeps q fs0 fs'" if "\<not> scratch_path p q" for q
    using e1(4) p that assms(2) by (auto simp: confined_def keeps_def scratch_path_def)
  ultimately show ?thesis using e1(1,2) dev path p by (simp add: confined_def same_object_def)
qed

lemma append_rows_confined:
  "append_rows rows fs pp = (res, fs', pp') \<Longrightarrow> confined p fs0 fs pp \<Longrightarrow> confined p fs0 fs' pp'"
proof (induction rows arbitrary: fs pp)
  case (Cons row rows)
  have c: "confined p fs0 fs (add_row row pp)"
    using Cons.prems(2) by (auto simp: confined_def owns_spills_def add_row_def)
  obtain r1 fs1 pp1 where sp: "spill_current_buffer fs (add_row row pp) = (r1, fs1, pp1)" by (metis prod_cases3)
  note s = spill_current_buffer_confined [OF sp c]
  show ?case
    using Cons.prems Cons.IH [OF _ s] Cons.IH [OF _ c] s sp
    by (cases r1) (auto simp: Let_def split: if_splits)
qed simp

lemma append_batch_confined:
  assumes "append_batch rows fs pp = (res, fs', pp')" and "confined p fs0 fs pp"
  shows "confined p fs0 fs' pp'"
proof -
  obtain r1 fs1 pp1 where ap: "append_rows rows fs pp = (r1, fs1, pp1)" by (metis prod_cases3)
  note c = append_rows_confined [OF ap assms(2)]
  have "confined p fs0 fs1 (pp1\<lparr>pp_indexed_game_count := n, pp_metrics := m\<rparr>)" for n m
    using c by (auto simp: confined_def owns_spills_def)
  then show ?thesis
    using c assms ap by (cases r1) (auto simp: append_batch_def Let_def split: if_splits)
qed

lemma merge_postings_keeps:
  "merge_postings front fs pp = (res, fs') \<Longrightarrow> q \<noteq> temp_output_path (pp_path pp) \<Longrightarrow> q \<noteq> dirspool_path (pp_path pp) \<Longrightarrow>
     keeps q fs fs'"
  "merge_postings front fs pp = (res, fs') \<Longrightarrow> fs_same_device fs fs'"
  unfolding merge_postings_def Let_def
  by (auto simp: keeps_def ofstream_open_fresh create_file_def fs_same_device_def
      split: option.splits prod.splits if_splits)

lemma remove_spills_keeps: "remove_spills paths fs = (ok, fs') \<Longrightarrow> q \<notin> set paths \<Longrightarrow> keeps q fs fs'"
proof (induction paths arbitrary: fs)
  case (Cons p paths)
  then show ?case by (auto simp: keeps_def fs_remove_def split: if_splits)
qed (simp add: keeps_def)

text \<open>Writer operations stay on the file they were opened on.\<close>
abbreviation fw_path :: "file_writer \<Rightarrow> path" where
  "fw_path w \<equiv> os_path (fw_stream w)"

lemma flush_path: "flush w = Some w' \<Longrightarrow> fw_path w' = fw_path w"
  by (auto simp: flush_def Let_def ofstream_write_def split: if_splits)

lemma put_bytes_path: "put_bytes bs w = Some w' \<Longrightarrow> fw_path w' = fw_path w"
proof (induction bs arbitrary: w)
  case (Cons b bs)
  then obtain w1 where w1: "put_byte b w = Some w1" "put_bytes bs w1 = Some w'" by (auto split: Option.bind_splits)
  have "fw_path w1 = fw_path w"
    using w1(1) flush_path by (auto simp: put_byte_def split: if_splits Option.bind_splits)
  then show ?case using Cons.IH [OF w1(2)] by simp
qed simp

lemma copy_spool_path: "copy_spool p fs w = Some w' \<Longrightarrow> fw_path w' = fw_path w"
  by (auto simp: copy_spool_def Let_def ofstream_write_def split: Option.bind_splits if_splits)

lemma skip_offset_path: "fw_path (skip_offset n w) = fw_path w"
  by (simp add: skip_offset_def)

lemmas fw_path_dests = flush_path put_bytes_path copy_spool_path

lemma write_sections_keeps:
  assumes "write_sections pp st fs = (res, fs')" and "fw_path (ms_writer st) \<noteq> q" and "fw_path (ms_dirspool_writer st) \<noteq> q"
  shows "keeps q fs fs'"
  using assms unfolding write_sections_def Let_def write_metadata_put_bytes write_sparse_put_bytes keeps_def
  by (auto split: option.splits Option.bind_splits prod.splits bool.splits if_splits
      dest!: fw_path_dests simp: skip_offset_path ofstream_close_def)

definition on_files :: "path \<Rightarrow> path \<Rightarrow> merge_state \<Rightarrow> bool" where
  "on_files p q st \<longleftrightarrow> fw_path (ms_writer st) = p \<and> fw_path (ms_dirspool_writer st) = q"

lemma flush_game_group_on_files: "flush_game_group st = Some st' \<Longrightarrow> on_files p q st \<Longrightarrow> on_files p q st'"
  by (auto simp: flush_game_group_def on_files_def write_uleb128_put_bytes write_ply_deltas_put_bytes Let_def
      split: if_splits Option.bind_splits dest!: put_bytes_path)

lemma flush_directory_block_on_files: "flush_directory_block st = Some st' \<Longrightarrow> on_files p q st \<Longrightarrow> on_files p q st'"
  by (auto simp: flush_directory_block_def on_files_def write_directory_block_put_bytes Let_def
      split: if_splits Option.bind_splits dest!: put_bytes_path)

lemma flush_hash_on_files:
  assumes "flush_hash st = Some st'" and "on_files p q st"
  shows "on_files p q st'"
proof (cases "ms_have_active_hash st")
  case True
  then obtain st1 where st1: "flush_game_group st = Some st1"
    using assms(1) by (auto simp: flush_hash_def split: Option.bind_splits)
  then have "on_files p q (finish_hash st1)"
    using flush_game_group_on_files assms(2) by (auto simp: finish_hash_def on_files_def)
  then show ?thesis
    using assms(1) True st1 flush_directory_block_on_files by (auto simp: flush_hash_def Let_def split: if_splits)
next
  case False
  then show ?thesis using assms by (simp add: flush_hash_def)
qed

lemma visit_posting_on_files:
  assumes "visit_posting r st = Some st'" and "on_files p q st"
  shows "on_files p q st'"
proof -
  have h: "on_files p q st1" if "start_hash r st = Some st1" for st1
    using that assms(2) flush_hash_on_files
    by (auto simp: start_hash_def on_files_def split: if_splits Option.bind_splits)
  have g: "on_files p q st2" if "start_game r st1 = Some st2" "on_files p q st1" for st1 st2
    using that flush_game_group_on_files
    by (auto simp: start_game_def on_files_def split: if_splits Option.bind_splits)
  show ?thesis
    using assms h g by (fastforce simp: visit_posting_def on_files_def split: if_splits Option.bind_splits)
qed

lemma merge_postings_on_files:
  assumes "merge_postings front fs pp = (Some st, fs')"
  shows "on_files (temp_output_path (pp_path pp)) (dirspool_path (pp_path pp)) st"
proof -
  let ?p = "temp_output_path (pp_path pp)" and ?q = "dirspool_path (pp_path pp)"
  obtain cs heap w fs1 st0 st1 where w: "put_bytes (replicate 88 0) (file_writer_of (fresh_stream ?p fs)) = Some w"
      and m: "heap_merge front (fetch_posting (pp_game_metadata pp)) pc_current visit_posting cs heap
          (start_merge w (file_writer_of (fresh_stream ?q fs1)) (pp_metrics pp)) = Some st0"
      and f: "flush_hash st0 = Some st1" "flush_directory_block st1 = Some st"
    using assms unfolding merge_postings_def Let_def ofstream_open_fresh
    by (auto split: option.splits Option.bind_splits if_splits)
  have "on_files ?p ?q (start_merge w (file_writer_of (fresh_stream ?q fs1)) (pp_metrics pp))"
    using put_bytes_path [OF w] by (simp add: on_files_def start_merge_def file_writer_of_def fresh_stream_def)
  from heap_merge_invariant [OF m, of "on_files ?p ?q", OF this] visit_posting_on_files
  have "on_files ?p ?q st0" by blast
  then show ?thesis using flush_hash_on_files [OF f(1)] flush_directory_block_on_files [OF f(2)] by blast
qed

lemma write_sections_device: "write_sections pp st fs = (res, fs') \<Longrightarrow> fs_same_device fs fs'"
  unfolding write_sections_def Let_def
  by (auto simp: fs_same_device_def ofstream_close_def split: option.splits prod.splits bool.splits)

lemma remove_spills_device: "remove_spills paths fs = (ok, fs') \<Longrightarrow> fs_same_device fs fs'"
proof (induction paths arbitrary: fs)
  case (Cons p paths)
  then show ?case by (fastforce simp: fs_same_device_def fs_remove_def split: if_splits)
qed (simp add: fs_same_device_def)

lemma install_effect:
  assumes "install pp st ly fs = (res, fs', final_size)"
  shows "fs_same_device fs fs'" and "q \<noteq> pp_path pp \<Longrightarrow> q \<noteq> temp_output_path (pp_path pp) \<Longrightarrow> keeps q fs fs'"
    and "res = Inl err \<Longrightarrow> keeps (pp_path pp) fs fs'"
  using assms
  by (auto simp: install_def Let_def fs_overwrite_def fs_rename_def fs_file_size_def fs_same_device_def keeps_def
      split: option.splits prod.splits bool.splits if_splits sum.splits)

text \<open>What \<open>merge_runs\<close> can do to the disk before its guard cleans up.\<close>
lemma merge_runs_body_effect:
  assumes "merge_runs_body front fs pp = (res, fs', pp')" and "owns_spills pp"
  shows "fs_same_device fs fs' \<and> pp_path pp' = pp_path pp \<and> owns_spills pp'"
    and "q \<noteq> pp_path pp \<Longrightarrow> q \<noteq> temp_output_path (pp_path pp) \<Longrightarrow> q \<noteq> dirspool_path (pp_path pp) \<Longrightarrow>
      q \<notin> set (pp_spill_paths pp) \<Longrightarrow> keeps q fs fs'"
    and "res = Inl err \<Longrightarrow> keeps (pp_path pp) fs fs'"
    and "pp_spill_paths pp' = pp_spill_paths pp \<or> (pp_spill_paths pp' = [] \<and> (\<forall>q\<in>set (pp_spill_paths pp). fs_files fs' q = None))"
proof -
  let ?pp1 = "pp\<lparr>pp_spill_paths := []\<rparr>"
  obtain m fs1 where m: "merge_postings front fs pp = (m, fs1)" by force
  note k1 = merge_postings_keeps(1) [OF m] and d1 = merge_postings_keeps(2) [OF m]
  obtain ok fs2 where r: "remove_spills (pp_spill_paths pp) fs1 = (ok, fs2)" by force
  note k2 = remove_spills_keeps [OF r] and d2 = remove_spills_device [OF r]
  have own1: "owns_spills ?pp1" by (auto simp: owns_spills_def intro: exI [of _ 0])
  have path: "pp_path pp \<notin> set (pp_spill_paths pp)" using owns_spills_path [OF assms(2)] .
  have scr: "temp_output_path (pp_path pp) \<notin> set (pp_spill_paths pp)" "dirspool_path (pp_path pp) \<notin> set (pp_spill_paths pp)"
    using assms(2) by (auto simp: owns_spills_def)
  have goal: "fs_same_device fs fs' \<and> pp_path pp' = pp_path pp \<and> owns_spills pp'
      \<and> (\<forall>q. q \<noteq> pp_path pp \<longrightarrow> q \<noteq> temp_output_path (pp_path pp) \<longrightarrow> q \<noteq> dirspool_path (pp_path pp) \<longrightarrow>
          q \<notin> set (pp_spill_paths pp) \<longrightarrow> keeps q fs fs') \<and> (res = Inl err \<longrightarrow> keeps (pp_path pp) fs fs')
      \<and> (pp_spill_paths pp' = pp_spill_paths pp \<or> (pp_spill_paths pp' = [] \<and> (\<forall>q\<in>set (pp_spill_paths pp). fs_files fs' q = None)))"
  proof (cases m)
    case None
    then show ?thesis
      using assms m k1 d1 by (auto simp: merge_runs_body_def)
  next
    case (Some st)
    show ?thesis
    proof (cases ok)
      case False
      then show ?thesis
        using assms m r k1 k2 d1 d2 path Some
        by (auto simp: merge_runs_body_def keeps_def intro: fs_same_device_trans)
    next
      case True
      obtain l fs3 where w: "write_sections ?pp1 st fs2 = (l, fs3)" by force
      have files: "on_files (temp_output_path (pp_path pp)) (dirspool_path (pp_path pp)) st"
        using merge_postings_on_files m Some by blast
      have k3: "keeps q fs2 fs3" if "q \<noteq> temp_output_path (pp_path pp)" "q \<noteq> dirspool_path (pp_path pp)" for q
        using write_sections_keeps [OF w] files that by (auto simp: on_files_def)
      note d3 = write_sections_device [OF w]
      have gone: "fs_files fs2 q = None" if "q \<in> set (pp_spill_paths pp)" for q
        using remove_spills_True r True that by simp
      have gone3: "fs_files fs3 q = None" if "q \<in> set (pp_spill_paths pp)" for q
      proof -
        have "q \<noteq> temp_output_path (pp_path pp)" "q \<noteq> dirspool_path (pp_path pp)" using that scr by auto
        then show ?thesis using gone [OF that] k3 [of q] by (simp add: keeps_def)
      qed
      show ?thesis
      proof (cases l)
        case None
        then show ?thesis
          using assms(1) m r True Some w k1 k2 k3 d1 d2 d3 path own1 gone3
          by (auto simp: merge_runs_body_def Let_def keeps_def fs_same_device_def)
      next
        case ly: (Some ly)
        obtain r4 fs4 z where i: "install ?pp1 st ly fs3 = (r4, fs4, z)" by (metis prod_cases3)
        note e = install_effect [OF i]
        have eq: "res = r4 \<and> fs' = fs4 \<and> pp_path pp' = pp_path pp \<and> pp_spill_paths pp' = []"
          using assms(1) m r True Some w ly i by (cases r4) (auto simp: merge_runs_body_def Let_def)
        have "owns_spills pp'" using eq by (auto simp: owns_spills_def intro: exI [of _ 0])
        moreover have "keeps q fs fs'" if "q \<noteq> pp_path pp" "q \<noteq> temp_output_path (pp_path pp)"
            "q \<noteq> dirspool_path (pp_path pp)" "q \<notin> set (pp_spill_paths pp)" for q
          using k1 [of q] k2 [of q] k3 [of q] e(2) [of q] that eq by (simp add: keeps_def)
        moreover have "keeps (pp_path pp) fs fs'" if "res = Inl err"
          using k1 [of "pp_path pp"] k2 [of "pp_path pp"] k3 [of "pp_path pp"] e(3) [of err] that eq path
          by (simp add: keeps_def)
        moreover have "fs_files fs' q = None" if "q \<in> set (pp_spill_paths pp)" for q
        proof -
          have "q \<noteq> pp_path pp" "q \<noteq> temp_output_path (pp_path pp)" using that path scr by auto
          then show ?thesis using gone3 [OF that] e(2) [of q] eq by (simp add: keeps_def)
        qed
        moreover have "fs_same_device fs fs'"
          using eq fs_same_device_trans [OF fs_same_device_trans [OF fs_same_device_trans [OF d1 d2] d3] e(1)] by simp
        ultimately show ?thesis using eq by simp
      qed
    qed
  qed
  then show "fs_same_device fs fs' \<and> pp_path pp' = pp_path pp \<and> owns_spills pp'"
    and "q \<noteq> pp_path pp \<Longrightarrow> q \<noteq> temp_output_path (pp_path pp) \<Longrightarrow> q \<noteq> dirspool_path (pp_path pp) \<Longrightarrow>
      q \<notin> set (pp_spill_paths pp) \<Longrightarrow> keeps q fs fs'"
    and "res = Inl err \<Longrightarrow> keeps (pp_path pp) fs fs'"
    and "pp_spill_paths pp' = pp_spill_paths pp \<or> (pp_spill_paths pp' = [] \<and> (\<forall>q\<in>set (pp_spill_paths pp). fs_files fs' q = None))"
    by blast+
qed

section \<open>\<open>finalize\<close> and \<open>build\<close> on every path\<close>

lemma fs_discard_all_gone: "q \<in> set ps \<Longrightarrow> \<not> fs_fault fs (Remove q) \<Longrightarrow> fs_files (fs_discard_all ps fs) q = None"
proof (induction ps arbitrary: fs)
  case (Cons p ps)
  have step: "fs_discard_all (p # ps) fs = fs_discard_all ps (fs_discard p fs)" by (simp add: fs_discard_all_def)
  have fault: "fs_fault (fs_discard p fs) = fs_fault fs" by (simp add: fs_discard_def fs_remove_def)
  show ?case
  proof (cases "q \<in> set ps")
    case True
    then show ?thesis using Cons.IH [OF True, of "fs_discard p fs"] Cons.prems(2) fault step by simp
  next
    case False
    then have "fs_files (fs_discard p fs) q = None" using Cons.prems by (simp add: fs_discard_def fs_remove_def)
    then show ?thesis using False step by (simp add: fs_discard_all_files)
  qed
qed simp

lemma fs_discard_all_device: "fs_same_device fs (fs_discard_all ps fs)"
proof (induction ps arbitrary: fs)
  case (Cons p ps)
  have "fs_same_device fs (fs_discard p fs)" by (simp add: fs_same_device_def fs_discard_def fs_remove_def)
  then show ?case using Cons [of "fs_discard p fs"] fs_same_device_trans by (auto simp: fs_discard_all_def)
qed (simp add: fs_discard_all_def)

lemma release_artifacts_gone:
  assumes "\<forall>q. \<not> fs_fault fs (Remove q)" and "q \<in> set spills \<or> q \<in> set extra \<or> fs_files fs q = None"
  shows "fs_files (release_artifacts spills extra fs) q = None"
  unfolding release_artifacts_def using assms
  by (metis fs_discard_all_files fs_discard_all_gone)

text \<open>The disk after a build, with its scratch files dealt with.\<close>
definition settled :: "path \<Rightarrow> 'e + 'a \<Rightarrow> filesystem \<Rightarrow> filesystem \<Rightarrow> bool" where
  "settled p res fs0 fs \<longleftrightarrow> ((\<exists>err. res = Inl err) \<longrightarrow> keeps p fs0 fs)
     \<and> (clean_start p fs0 \<longrightarrow> (\<forall>q. q \<noteq> p \<longrightarrow> keeps q fs0 fs))
     \<and> fs_same_device fs0 fs \<and> (\<forall>q. q \<noteq> p \<longrightarrow> \<not> scratch_path p q \<longrightarrow> keeps q fs0 fs)"

lemma merge_runs_settled:
  assumes "merge_runs front fs pp = (res, fs', pp')" and "confined p fs0 fs pp"
  shows "settled p res fs0 fs' \<and> pp_spill_paths pp' = []"
proof -
  obtain fs1 pp1 where body: "merge_runs_body front fs pp = (res, fs1, pp1)"
      and fs': "fs' = release_artifacts (pp_spill_paths pp1) [dirspool_path (pp_path pp1), temp_output_path (pp_path pp1)] fs1"
      and pp': "pp' = pp1\<lparr>pp_spill_paths := []\<rparr>"
    using assms(1) by (auto simp: merge_runs_def split: prod.splits)
  have own: "owns_spills pp" and p: "pp_path pp = p" using assms(2) by (auto simp: confined_def)
  note e = merge_runs_body_effect [OF body own]
  have p1: "pp_path pp1 = p" and own1: "owns_spills pp1" and dev: "fs_same_device fs fs1" using e(1) p by auto
  have path: "keeps p fs1 fs'"
    unfolding fs' keeps_def p1 by (rule release_artifacts_path) (use owns_spills_path [OF own1] p1 in simp)
  have "keeps p fs0 fs'" if "res = Inl err" for err
    using e(3) [OF that] path p assms(2) by (simp add: keeps_def confined_def)
  moreover have "keeps q fs0 fs'" if clean: "clean_start p fs0" and q: "q \<noteq> p" for q
  proof -
    have nofault: "\<forall>q. \<not> fs_fault fs1 (Remove q)"
      using clean dev assms(2) by (simp add: clean_start_def confined_def fs_same_device_def)
    consider (scratch) "q = temp_output_path p \<or> q = dirspool_path p" | (spill) "q \<in> set (pp_spill_paths pp)"
      | (other) "q \<noteq> temp_output_path p" "q \<noteq> dirspool_path p" "q \<notin> set (pp_spill_paths pp)" by blast
    then show ?thesis
    proof cases
      case scratch
      then have "fs_files fs0 q = None" using clean by (auto simp: clean_start_def scratch_path_def)
      moreover have "fs_files fs' q = None"
        unfolding fs' by (rule release_artifacts_gone [OF nofault]) (use scratch p1 in auto)
      ultimately show ?thesis by (simp add: keeps_def)
    next
      case spill
      then have "scratch_path p q" using own p by (auto simp: owns_spills_def scratch_path_def)
      then have "fs_files fs0 q = None" using clean by (auto simp: clean_start_def)
      moreover have "fs_files fs' q = None"
        unfolding fs' by (rule release_artifacts_gone [OF nofault]) (use spill e(4) in auto)
      ultimately show ?thesis by (simp add: keeps_def)
    next
      case other
      have "q \<notin> set (pp_spill_paths pp1)" using other(3) e(4) by auto
      then have "fs_files fs' q = fs_files fs1 q"
        unfolding fs' release_artifacts_def using other(1,2) p1 by (simp add: fs_discard_all_files)
      moreover have "keeps q fs fs1" using e(2) other q p by simp
      moreover have "keeps q fs0 fs" using assms(2) clean other(3) by (simp add: confined_def)
      ultimately show ?thesis by (simp add: keeps_def)
    qed
  qed
  moreover have "keeps q fs0 fs'" if q: "q \<noteq> p" "\<not> scratch_path p q" for q
  proof -
    have out: "q \<noteq> temp_output_path p" "q \<noteq> dirspool_path p" "q \<notin> set (pp_spill_paths pp)" "q \<notin> set (pp_spill_paths pp1)"
      using q(2) own own1 p p1 by (auto simp: scratch_path_def owns_spills_def)
    then have "fs_files fs' q = fs_files fs1 q"
      unfolding fs' release_artifacts_def using p1 by (simp add: fs_discard_all_files)
    moreover have "keeps q fs fs1" using e(2) out q p by simp
    ultimately show ?thesis using assms(2) q(2) by (simp add: confined_def keeps_def)
  qed
  moreover have "fs_same_device fs0 fs'"
    unfolding fs' release_artifacts_def using dev assms(2)
    by (meson confined_def fs_discard_all_device fs_same_device_trans)
  ultimately show ?thesis using pp' by (auto simp: settled_def)
qed

lemma destroy_settled:
  assumes "confined p fs0 fs pp"
  shows "settled p res fs0 (destroy_postings pp fs)"
proof -
  have own: "owns_spills pp" and p: "pp_path pp = p" using assms by (auto simp: confined_def)
  have "keeps p fs0 (destroy_postings pp fs)"
    using owns_spills_path [OF own] assms p by (simp add: destroy_postings_def fs_discard_all_files keeps_def confined_def)
  moreover have "keeps q fs0 (destroy_postings pp fs)" if clean: "clean_start p fs0" for q
  proof (cases "q \<in> set (pp_spill_paths pp)")
    case True
    then have "scratch_path p q" using own p by (auto simp: owns_spills_def scratch_path_def)
    then have "fs_files fs0 q = None" using clean by (auto simp: clean_start_def)
    moreover have "\<not> fs_fault fs (Remove q)"
      using clean assms by (simp add: clean_start_def confined_def fs_same_device_def)
    ultimately show ?thesis using fs_discard_all_gone [OF True] by (simp add: keeps_def destroy_postings_def)
  next
    case False
    then show ?thesis using clean assms by (simp add: destroy_postings_def fs_discard_all_files keeps_def confined_def)
  qed
  moreover have "keeps q fs0 (destroy_postings pp fs)" if "\<not> scratch_path p q" for q
  proof -
    have "q \<notin> set (pp_spill_paths pp)" using that own p by (auto simp: owns_spills_def scratch_path_def)
    moreover have "keeps q fs0 fs" using that assms by (simp add: confined_def)
    ultimately show ?thesis by (simp add: destroy_postings_def fs_discard_all_files keeps_def)
  qed
  moreover have "fs_same_device fs0 (destroy_postings pp fs)"
    using assms fs_discard_all_device fs_same_device_trans unfolding destroy_postings_def confined_def by blast
  ultimately show ?thesis by (simp add: settled_def)
qed

lemma finalize_settled:
  assumes "finalize front fs pp = (res, fs', pp')" and "confined p fs0 fs pp"
  shows "settled p res fs0 (destroy_postings pp' fs')"
proof -
  obtain r1 fs1 pp1 where sp: "spill_current_buffer fs pp = (r1, fs1, pp1)" by (metis prod_cases3)
  note c = spill_current_buffer_confined [OF sp assms(2)]
  show ?thesis
  proof (cases "pp_spill_threshold pp = 0")
    case True
    then show ?thesis using assms destroy_settled [OF assms(2)] by (simp add: finalize_def)
  next
    case False
    show ?thesis
    proof (cases r1)
      case (Inl err)
      then show ?thesis using assms(1) False sp destroy_settled [OF c] by (simp add: finalize_def)
    next
      case (Inr u)
      then have "merge_runs front fs1 pp1 = (res, fs', pp')" using assms(1) False sp by (simp add: finalize_def)
      from merge_runs_settled [OF this c] show ?thesis by (simp add: destroy_postings_def fs_discard_all_def)
    qed
  qed
qed

lemma replay_games_confined:
  "replay_games ops games ending replayed fs pp = (res, replayed', fs', pp') \<Longrightarrow> confined p fs0 fs pp \<Longrightarrow> confined p fs0 fs' pp'"
proof (induction games arbitrary: replayed fs pp)
  case (Cons game games)
  show ?case
  proof (cases "replay_rows ops game")
    case None
    then show ?thesis using Cons.prems by simp
  next
    case (Some rows)
    obtain r1 fs1 pp1 where ap: "append_batch rows fs pp = (r1, fs1, pp1)" by (metis prod_cases3)
    note c = append_batch_confined [OF ap Cons.prems(2)]
    show ?thesis using Cons.prems(1) Some ap c Cons.IH [OF _ c] by (cases r1) auto
  qed
qed simp

lemma build_settled:
  assumes "build front ops store path threshold fs = (res, fs')"
  shows "settled path res fs fs'"
proof -
  have c0: "confined path fs fs ((new_postings path threshold)\<lparr>pp_indexed_game_count := n, pp_metrics := m\<rparr>)"
      "confined path fs fs (new_postings path threshold)" for n m
    by (auto simp: confined_def new_postings_def owns_spills_def keeps_def intro: exI [of _ 0])
  show ?thesis
  proof (cases "\<exists>n. rs_count store = Inr n \<and> 0 \<le> n")
    case False
    then show ?thesis
      using assms destroy_settled [OF c0(2)] by (auto simp: build_def Let_def split: sum.splits if_splits)
  next
    case True
    then obtain n where n: "rs_count store = Inr n" "0 \<le> n" by blast
    let ?pp = "(new_postings path threshold)\<lparr>pp_indexed_game_count := word_of_int n,
        pp_metrics := (pp_metrics (new_postings path threshold))\<lparr>bm_game_count := word_of_int n\<rparr>\<rparr>"
    obtain r1 k fs1 pp1 where rp: "replay_games ops (rs_games store) (rs_end store) 0 fs ?pp = (r1, k, fs1, pp1)"
      by (metis prod_cases4)
    note c1 = replay_games_confined [OF rp c0(1)]
    obtain r2 fs2 pp2 where fin: "finalize front fs1 pp1 = (r2, fs2, pp2)" by (metis prod_cases3)
    note s2 = finalize_settled [OF fin c1]
    have "settled path (Inr x) fs fs3" if "settled path r2 fs fs3" for x :: build_metrics and fs3
      using that by (auto simp: settled_def)
    moreover have "settled path (Inl x :: build_metrics result) fs fs3" if "settled path r2 fs fs3" "r2 = Inl x" for x fs3
      using that by (auto simp: settled_def)
    ultimately show ?thesis
      using assms n rp fin s2 destroy_settled [OF c1]
      by (cases r1; cases r2) (auto simp: build_def Let_def split: if_splits)
  qed
qed

end
