(* ===== verification/Postings_Queries.thy ===== *)
theory Postings_Queries
  imports Postings_Atomic "HOL-Library.Product_Lexorder"
begin

text \<open>
  What the queries of \<open>position_postings\<close> answer in terms of the rows the artifact was
  built from, without mention of blocks, directories or runs: the contract of a position
  index as a locale, its interpretation by the artifact reader, and the properties of
  \<open>build\<close> followed by a query.
\<close>

section \<open>Reference answers\<close>

definition row_match :: "position_row \<Rightarrow> position_match" where
  "row_match row = \<lparr>pm_game_id = pr_game_id row, pm_ply = pr_ply row, pm_result = pr_result row,
     pm_white_elo = pr_white_elo row, pm_black_elo = pr_black_elo row\<rparr>"

definition match_key :: "position_match \<Rightarrow> u32 \<times> u16" where
  "match_key m = (pm_game_id m, pm_ply m)"

definition hash_rows :: "position_row list \<Rightarrow> u64 \<Rightarrow> position_row list" where
  "hash_rows rows hash = filter (\<lambda>row. pr_zobrist_hash row = hash) rows"

text \<open>All occurrences of a position, once each, by game and ply.\<close>
definition row_matches :: "position_row list \<Rightarrow> u64 \<Rightarrow> position_match list" where
  "row_matches rows hash = sort_key match_key (remdups (map row_match (hash_rows rows hash)))"

definition row_games :: "position_row list \<Rightarrow> u64 \<Rightarrow> u32 list" where
  "row_games rows hash = sort (remdups (map pr_game_id (hash_rows rows hash)))"

text \<open>The first occurrence in each requested game.\<close>
definition row_first_matches :: "position_row list \<Rightarrow> u64 \<Rightarrow> u32 list \<Rightarrow> position_match list" where
  "row_first_matches rows hash requested =
     filter (\<lambda>m. pm_game_id m \<in> set requested
         \<and> (\<forall>m'\<in>set (row_matches rows hash). pm_game_id m' = pm_game_id m \<longrightarrow> pm_ply m \<le> pm_ply m'))
       (row_matches rows hash)"

definition row_summary :: "position_row list \<Rightarrow> u64 \<Rightarrow> postings_summary" where
  "row_summary rows hash =
     \<lparr>ps_occurrence_count = of_nat (length (row_matches rows hash)),
      ps_distinct_game_count = of_nat (length (row_games rows hash)),
      ps_min_ply = Min (set (map pr_ply (hash_rows rows hash))),
      ps_max_ply = Max (set (map pr_ply (hash_rows rows hash)))\<rparr>"

definition row_hashes :: "position_row list \<Rightarrow> u64 list" where
  "row_hashes rows = sort (remdups (map pr_zobrist_hash rows))"

fun visit_hashes ::
  "(u64 \<Rightarrow> postings_summary \<Rightarrow> 's \<Rightarrow> 's result) \<Rightarrow> position_row list \<Rightarrow> u64 list \<Rightarrow> 's \<Rightarrow> 's result" where
  "visit_hashes visitor rows [] s = Inr s"
| "visit_hashes visitor rows (hash # hashes) s =
     (case visitor hash (row_summary rows hash) s of
        Inl err \<Rightarrow> Inl err
      | Inr s \<Rightarrow> visit_hashes visitor rows hashes s)"

section \<open>The index of some rows, looked up\<close>

lemma sorted_keys_unique:
  fixes key :: "'a \<Rightarrow> 'k::linorder"
  assumes "sorted (map key xs)" and "sorted (map key ys)" and "distinct (map key xs)" and "distinct (map key ys)"
    and "set xs = set ys"
  shows "xs = ys"
proof -
  have "map key xs = map key ys"
    using assms by (intro sorted_distinct_set_unique) auto
  moreover have "inj_on key (set xs \<union> set ys)" using assms(3,5) by (simp add: distinct_map)
  ultimately show ?thesis by (rule map_inj_on)
qed

lemma group_occurrences_mem: "(g, p) \<in> set (group_occurrences groups) \<longleftrightarrow> (\<exists>plies. (g, plies) \<in> set groups \<and> p \<in> set plies)"
  by (auto simp: group_occurrences_def)

lemma records_of_mem:
  "Posting_Record hash g p \<in> set (records_of content) \<longleftrightarrow>
     (\<exists>groups. (hash, groups) \<in> set content \<and> (g, p) \<in> set (group_occurrences groups))"
proof -
  have "Posting_Record hash g p \<in> set (concat (map (group_records h) groups)) \<longleftrightarrow>
      hash = h \<and> (g, p) \<in> set (group_occurrences groups)" for h groups
    by (force simp: group_records_def group_occurrences_mem)
  then show ?thesis by (induction content) auto
qed

lemma group_occurrences_sorted: "wf_groups groups \<Longrightarrow> sorted_wrt (<) (group_occurrences groups)"
proof (induction groups)
  case (Cons item groups)
  obtain g plies where item: "item = (g, plies)" by force
  have "sorted_wrt (<) (map (Pair g) plies)"
    using Cons.prems by (simp add: item wf_groups_def sorted_wrt_map)
  moreover have "(g, p) < y" if "y \<in> set (group_occurrences groups)" for p y
  proof -
    have "fst y \<in> fst ` set groups" using that fst_group_occurrences by blast
    then have "g < fst y" using Cons.prems by (auto simp: item wf_groups_def)
    then show ?thesis by (cases y) simp
  qed
  moreover have "sorted_wrt (<) (group_occurrences groups)"
    using Cons by (simp add: wf_groups_def)
  moreover have "group_occurrences (item # groups) = map (Pair g) plies @ group_occurrences groups"
    by (simp add: item group_occurrences_def)
  ultimately show ?case by (auto simp: sorted_wrt_append simp del: less_prod_simp)
qed (simp add: group_occurrences_def)

lemma lookup_groups_records:
  assumes "ascending content"
  shows "(g, p) \<in> set (group_occurrences (lookup_groups content hash)) \<longleftrightarrow> Posting_Record hash g p \<in> set (records_of content)"
proof -
  have "distinct (map fst content)" using assms sorted_wrt_less_distinct by (auto simp: ascending_def)
  then have look: "map_of content hash = Some groups \<longleftrightarrow> (hash, groups) \<in> set content" for groups
    by (simp add: map_of_eq_Some_iff)
  show ?thesis
  proof (cases "map_of content hash")
    case None
    then have "(hash, groups) \<notin> set content" for groups using look by force
    then show ?thesis unfolding records_of_mem lookup_groups_def None by (simp add: group_occurrences_def)
  next
    case (Some groups)
    then have "(hash, groups') \<in> set content \<longleftrightarrow> groups' = groups" for groups' using look [of groups'] by auto
    then show ?thesis unfolding records_of_mem lookup_groups_def Some by simp
  qed
qed

lemma lookup_groups_wf: "ascending content \<Longrightarrow> wf_groups (lookup_groups content hash)"
  by (auto simp: lookup_groups_def ascending_def wf_groups_def split: option.splits dest!: map_of_SomeD)

text \<open>The rows and the table an index was made of.\<close>
definition indexes :: "index_content \<Rightarrow> metadata_table \<Rightarrow> position_row list \<Rightarrow> bool" where
  "indexes content table rows \<longleftrightarrow> ascending content \<and> set (records_of content) = row_record ` set rows \<and> table_for rows table"

lemma indexes_occurrences:
  assumes "indexes content table rows"
  shows "set (group_occurrences (lookup_groups content hash)) = (\<lambda>row. (pr_game_id row, pr_ply row)) ` set (hash_rows rows hash)"
    (is "?L = ?R")
proof (rule set_eqI)
  fix x :: decoded_occurrence
  obtain g p where x: "x = (g, p)" by force
  show "x \<in> ?L \<longleftrightarrow> x \<in> ?R"
    using assms lookup_groups_records [of content g p hash]
    by (auto simp: x indexes_def row_record_def hash_rows_def image_iff)
qed

lemma match_of_row:
  assumes "table_for rows table" and "row \<in> set rows"
  shows "match_of table (pr_game_id row, pr_ply row) = row_match row"
proof -
  have "map_of table (pr_game_id row) = Some (row_metadata row)" using assms by (auto simp: table_for_def)
  then show ?thesis by (simp add: match_of_def row_match_def row_metadata_def)
qed

lemma match_key_match_of [simp]: "match_key (match_of table x) = x"
  by (cases x) (simp add: match_of_def match_key_def Let_def)

lemma distinct_row_matches_keys:
  assumes "table_for rows table"
  shows "distinct (map match_key (row_matches rows hash))"
proof -
  have inj: "a = b" if "a \<in> row_match ` set (hash_rows rows hash)" "b \<in> row_match ` set (hash_rows rows hash)" "match_key a = match_key b" for a b
  proof -
    from that obtain ra rb where r: "a = row_match ra" "b = row_match rb" "ra \<in> set rows" "rb \<in> set rows"
      by (auto simp: hash_rows_def)
    then have "a = match_of table (match_key a)" "b = match_of table (match_key b)"
      using match_of_row [OF assms] by (simp_all add: row_match_def match_key_def)
    then show ?thesis using that(3) by simp
  qed
  show ?thesis by (auto simp: row_matches_def distinct_map intro!: inj_onI inj)
qed

lemma indexes_matches:
  assumes "indexes content table rows"
  shows "map (match_of table) (group_occurrences (lookup_groups content hash)) = row_matches rows hash"
proof (rule sorted_keys_unique [where key = match_key])
  let ?xs = "group_occurrences (lookup_groups content hash)"
  have t: "table_for rows table" and asc: "ascending content" using assms by (auto simp: indexes_def)
  have s: "sorted_wrt (<) ?xs" by (rule group_occurrences_sorted [OF lookup_groups_wf [OF asc]])
  have id: "map match_key (map (match_of table) ?xs) = ?xs" by (simp add: comp_def)
  show "sorted (map match_key (map (match_of table) ?xs))" "distinct (map match_key (map (match_of table) ?xs))"
    unfolding id using s by (simp_all add: strict_sorted_iff)
  show "sorted (map match_key (row_matches rows hash))" by (simp add: row_matches_def)
  show "distinct (map match_key (row_matches rows hash))" by (rule distinct_row_matches_keys [OF t])
  have "match_of table ` set ?xs = row_match ` set (hash_rows rows hash)"
    unfolding indexes_occurrences [OF assms] image_image
    by (rule image_cong) (auto simp: hash_rows_def match_of_row [OF t])
  then show "set (map (match_of table) ?xs) = set (row_matches rows hash)" by (simp add: row_matches_def)
qed

lemma indexes_games:
  assumes "indexes content table rows"
  shows "map fst (lookup_groups content hash) = row_games rows hash"
proof (rule sorted_distinct_set_unique)
  let ?gs = "lookup_groups content hash"
  have wf: "wf_groups ?gs" using assms lookup_groups_wf by (auto simp: indexes_def)
  then show "sorted (map fst ?gs)" "distinct (map fst ?gs)" by (simp_all add: wf_groups_def strict_sorted_iff)
  have "set (map fst ?gs) = fst ` set (group_occurrences ?gs)"
  proof
    show "set (map fst ?gs) \<subseteq> fst ` set (group_occurrences ?gs)"
    proof
      fix g assume "g \<in> set (map fst ?gs)"
      then obtain plies where m: "(g, plies) \<in> set ?gs" by auto
      then have "plies \<noteq> []" using wf by (auto simp: wf_groups_def)
      then have "(g, hd plies) \<in> set (group_occurrences ?gs)" using m group_occurrences_mem hd_in_set by blast
      then show "g \<in> fst ` set (group_occurrences ?gs)" by force
    qed
  qed (use fst_group_occurrences [of ?gs] in simp)
  then show "set (map fst ?gs) = set (row_games rows hash)"
    unfolding indexes_occurrences [OF assms] by (simp add: row_games_def image_image)
qed (simp_all add: row_games_def)

lemma Min_sorted_hd: "sorted xs \<Longrightarrow> xs \<noteq> [] \<Longrightarrow> Min (set xs) = hd xs" for xs :: "'a::linorder list"
  by (cases xs) (auto intro!: Min_eqI)

lemma indexes_first_matches:
  assumes "indexes content table rows"
  shows "map (\<lambda>(g, plies). match_of table (g, Min (set plies)))
      (filter (\<lambda>(g, plies). g \<in> set requested) (lookup_groups content hash)) = row_first_matches rows hash requested"
    (is "map ?f ?gs = _")
proof (rule sorted_keys_unique [where key = match_key])
  let ?all = "lookup_groups content hash"
  have t: "table_for rows table" and wf: "wf_groups ?all" using assms lookup_groups_wf by (auto simp: indexes_def)
  have fst: "map fst (map match_key (map ?f ?gs)) = map fst ?gs" by (auto simp: case_prod_unfold)
  have "distinct (map fst ?all)" using wf by (simp add: wf_groups_def strict_sorted_iff)
  then have "distinct (map fst ?gs)" by (rule distinct_map_filter)
  then show "distinct (map match_key (map ?f ?gs))" using fst by (metis distinct_map)
  have "sorted_wrt (\<lambda>a b. fst a < fst b) ?gs" using wf by (auto simp: wf_groups_def sorted_wrt_map intro: sorted_wrt_filter)
  then have "sorted_wrt (\<lambda>a b. match_key (?f a) \<le> match_key (?f b)) ?gs"
    by (rule sorted_wrt_mono_rel [rotated]) (auto simp: less_eq_prod_def)
  then show "sorted (map match_key (map ?f ?gs))" by (simp add: sorted_map)
  have "sorted (map match_key (row_matches rows hash))" by (simp add: row_matches_def)
  then show "sorted (map match_key (row_first_matches rows hash requested))"
    unfolding row_first_matches_def by (rule sorted_filter)
  show "distinct (map match_key (row_first_matches rows hash requested))"
    unfolding row_first_matches_def by (rule distinct_map_filter [OF distinct_row_matches_keys [OF t]])
  have mem: "m \<in> set (row_matches rows hash) \<longleftrightarrow> (\<exists>g plies p. m = match_of table (g, p) \<and> (g, plies) \<in> set ?all \<and> p \<in> set plies)" for m
    unfolding indexes_matches [OF assms, symmetric] using group_occurrences_mem [of _ _ ?all] by (auto simp: image_iff) force
  have same: "plies = plies'" if "(g, plies) \<in> set ?all" "(g, plies') \<in> set ?all" for g plies plies'
    using that \<open>distinct (map fst ?all)\<close> by (simp add: eq_key_imp_eq_value)
  have gp: "pm_game_id (match_of table (g, p)) = g" "pm_ply (match_of table (g, p)) = p" for g p
    by (simp_all add: match_of_def Let_def)
  show "set (map ?f ?gs) = set (row_first_matches rows hash requested)" (is "?L = ?R")
  proof (intro set_eqI iffI)
    fix m assume "m \<in> ?L"
    then obtain g plies where g: "(g, plies) \<in> set ?all" "g \<in> set requested" "m = match_of table (g, Min (set plies))" by auto
    have ne: "plies \<noteq> []" using wf g(1) by (auto simp: wf_groups_def)
    have "m \<in> set (row_matches rows hash)" unfolding mem using g(1,3) ne Min_in [of "set plies"] by force
    moreover have "pm_ply m \<le> pm_ply m'" if m': "m' \<in> set (row_matches rows hash)" "pm_game_id m' = pm_game_id m" for m'
    proof -
      from m'(1) obtain g' plies' p' where *: "m' = match_of table (g', p')" "(g', plies') \<in> set ?all" "p' \<in> set plies'"
        unfolding mem by blast
      then have "g' = g" using m'(2) g(3) by (simp add: gp)
      then have "p' \<in> set plies" using * same [OF g(1)] by blast
      then show ?thesis using * g(3) by (simp add: gp)
    qed
    ultimately show "m \<in> ?R" using g(2,3) by (simp add: row_first_matches_def gp)
  next
    fix m assume "m \<in> ?R"
    then have m: "m \<in> set (row_matches rows hash)" "pm_game_id m \<in> set requested"
        "\<And>m'. m' \<in> set (row_matches rows hash) \<Longrightarrow> pm_game_id m' = pm_game_id m \<Longrightarrow> pm_ply m \<le> pm_ply m'"
      by (auto simp: row_first_matches_def)
    from m(1) obtain g plies p where *: "m = match_of table (g, p)" "(g, plies) \<in> set ?all" "p \<in> set plies"
      unfolding mem by blast
    have "p \<le> p'" if "p' \<in> set plies" for p'
      using m(3) [of "match_of table (g, p')"] that * by (auto simp: mem gp)
    then have "p = Min (set plies)" using *(3) by (intro Min_eqI [symmetric]) auto
    then show "m \<in> ?L" using * m(2) by (force simp: gp)
  qed
qed

lemma group_plies_occurrences: "group_plies groups = map snd (group_occurrences groups)"
  by (induction groups) (auto simp: group_plies_def group_occurrences_def comp_def)

lemma indexes_summary:
  assumes "indexes content table rows"
  shows "summary_of (lookup_groups content hash) = row_summary rows hash"
proof -
  have "length (group_occurrences (lookup_groups content hash)) = length (row_matches rows hash)"
    using arg_cong [OF indexes_matches [OF assms], of length] by simp
  moreover have "length (lookup_groups content hash) = length (row_games rows hash)"
    using arg_cong [OF indexes_games [OF assms], of length] by simp
  moreover have "set (group_plies (lookup_groups content hash)) = set (map pr_ply (hash_rows rows hash))"
    unfolding group_plies_occurrences set_map indexes_occurrences [OF assms] image_image by simp
  ultimately show ?thesis by (simp add: summary_of_def row_summary_def)
qed

lemma indexes_hashes:
  assumes "indexes content table rows"
  shows "map fst content = row_hashes rows"
proof (rule sorted_distinct_set_unique)
  have asc: "ascending content" and recs: "set (records_of content) = row_record ` set rows"
    using assms by (auto simp: indexes_def)
  then show "sorted (map fst content)" "distinct (map fst content)" by (simp_all add: ascending_def strict_sorted_iff)
  have "set (map fst content) = rec_hash ` set (records_of content)"
  proof (intro set_eqI iffI)
    fix h assume "h \<in> set (map fst content)"
    then obtain groups where m: "(h, groups) \<in> set content" by auto
    then obtain g plies rest where "groups = (g, plies) # rest" "plies \<noteq> []"
      using asc by (cases groups) (auto simp: ascending_def wf_groups_def)
    then have "(g, hd plies) \<in> set (group_occurrences groups)" by (simp add: group_occurrences_def)
    then have "Posting_Record h g (hd plies) \<in> set (records_of content)" using m records_of_mem by blast
    then show "h \<in> rec_hash ` set (records_of content)" by force
  next
    fix h assume "h \<in> rec_hash ` set (records_of content)"
    then obtain g p where "Posting_Record h g p \<in> set (records_of content)" by (metis imageE posting_record.exhaust_sel)
    then show "h \<in> set (map fst content)" unfolding records_of_mem by force
  qed
  then show "set (map fst content) = set (row_hashes rows)"
    unfolding recs by (simp add: row_hashes_def image_image row_record_def)
qed (simp_all add: row_hashes_def)

lemma indexes_visit:
  assumes "indexes content table rows"
  shows "visit_content visitor content s = visit_hashes visitor rows (row_hashes rows) s"
proof -
  have dist: "distinct (map fst content)" using assms by (auto simp: indexes_def ascending_def strict_sorted_iff)
  have "visit_content visitor part s = visit_hashes visitor rows (map fst part) s" if "set part \<subseteq> set content" for part
    using that
  proof (induction part arbitrary: s)
    case (Cons item part)
    obtain h groups where item: "item = (h, groups)" by force
    have "map_of content h = Some groups" using Cons.prems dist by (simp add: item map_of_eq_Some_iff)
    then have "summary_of groups = row_summary rows h"
      using indexes_summary [OF assms, of h] by (simp add: lookup_groups_def)
    then show ?case using Cons by (auto simp: item split: sum.splits)
  qed simp
  from this [of content] show ?thesis by (simp add: indexes_hashes [OF assms])
qed

lemma indexes_lookup:
  assumes "indexes content table rows"
  shows "map_option summary_of (map_of content hash)
    = (if hash_rows rows hash = [] then None else Some (row_summary rows hash))"
proof (cases "map_of content hash")
  case None
  then have "lookup_groups content hash = []" by (simp add: lookup_groups_def)
  then have "hash_rows rows hash = []" using indexes_occurrences [OF assms, of hash] by (simp add: group_occurrences_def)
  then show ?thesis using None by simp
next
  case (Some groups)
  then have "groups \<noteq> []" using assms by (auto simp: indexes_def ascending_def dest!: map_of_SomeD)
  then have "row_games rows hash \<noteq> []"
    using indexes_games [OF assms, of hash] Some by (auto simp: lookup_groups_def)
  then have "hash_rows rows hash \<noteq> []" by (auto simp: row_games_def)
  then show ?thesis using Some indexes_summary [OF assms, of hash] by (simp add: lookup_groups_def)
qed

section \<open>The contract of a position index\<close>

text \<open>
  What the statistics, the tree and the search rely on: the answers depend only on the rows
  the index represents, and are the reference answers.
\<close>
locale position_index =
  fixes represents :: "'s \<Rightarrow> position_row list \<Rightarrow> bool"
    and occ :: "'s \<Rightarrow> u64 \<Rightarrow> nat \<Rightarrow> nat \<Rightarrow> position_match list result"
    and ids :: "'s \<Rightarrow> u64 \<Rightarrow> u32 list result"
    and ids_page :: "'s \<Rightarrow> u64 \<Rightarrow> nat \<Rightarrow> nat \<Rightarrow> u32 list result"
    and firsts :: "'s \<Rightarrow> u64 \<Rightarrow> u32 list \<Rightarrow> position_match list result"
    and summ :: "'s \<Rightarrow> u64 \<Rightarrow> postings_summary option result"
  assumes represents_consistent: "represents s rows \<Longrightarrow> consistent_rows rows"
    and occ_rows: "represents s rows \<Longrightarrow> occ s hash limit skip = Inr (page limit skip (row_matches rows hash))"
    and ids_rows: "represents s rows \<Longrightarrow> ids s hash = Inr (row_games rows hash)"
    and ids_page_rows: "represents s rows \<Longrightarrow> ids_page s hash limit skip = Inr (page limit skip (row_games rows hash))"
    and firsts_rows: "represents s rows \<Longrightarrow> firsts s hash requested = Inr (row_first_matches rows hash requested)"
    and summ_rows: "represents s rows \<Longrightarrow>
      summ s hash = Inr (if hash_rows rows hash = [] then None else Some (row_summary rows hash))"
begin

text \<open>Consecutive pages put together are a prefix of the full answer, and reach all of it.\<close>
lemma pages_tile:
  assumes "represents s rows" and "0 < limit"
  shows "concat (map (\<lambda>k. projr (occ s hash limit (k * limit))) [0..<n]) = take (n * limit) (row_matches rows hash)"
proof (induction n)
  case (Suc n)
  have "projr (occ s hash limit (n * limit)) = take limit (drop (n * limit) (row_matches rows hash))"
    using assms(2) by (simp add: occ_rows [OF assms(1)] page_def)
  then show ?case using Suc by (simp add: take_add [symmetric] add.commute)
qed simp

lemma unlimited_page:
  assumes "represents s rows"
  shows "occ s hash 0 0 = Inr (row_matches rows hash)"
  by (simp add: occ_rows [OF assms] page_def)

text \<open>The distinct games are the games of the occurrences.\<close>
lemma ids_of_occurrences:
  assumes "represents s rows"
  shows "ids s hash = Inr (sort (remdups (map pm_game_id (projr (occ s hash 0 0)))))"
proof -
  have "row_games rows hash = sort (remdups (map pm_game_id (row_matches rows hash)))"
    by (rule sorted_distinct_set_unique)
      (simp_all add: row_games_def row_matches_def image_image row_match_def)
  then show ?thesis by (simp add: ids_rows [OF assms] unlimited_page [OF assms])
qed

text \<open>Every game of the index has exactly one first occurrence, at an occurrence.\<close>
lemma firsts_are_occurrences:
  assumes "represents s rows"
  shows "set (projr (firsts s hash requested)) \<subseteq> set (projr (occ s hash 0 0))"
  by (auto simp: firsts_rows [OF assms] unlimited_page [OF assms] row_first_matches_def)

text \<open>Order and repetition of the rows do not show.\<close>
lemma answers_depend_on_set:
  assumes "represents s rows" and "represents s' rows'" and "set rows = set rows'"
  shows "occ s hash limit skip = occ s' hash limit skip" and "ids s hash = ids s' hash"
proof -
  have keys: "distinct (map match_key (row_matches xs hash))" if "consistent_rows xs" for xs
  proof -
    have "inj_on match_key (row_match ` set (hash_rows xs hash))"
      using that by (force simp: inj_on_def hash_rows_def consistent_rows_def row_match_def match_key_def row_metadata_def)
    then show ?thesis by (simp add: row_matches_def distinct_map)
  qed
  have eq: "set (hash_rows rows hash) = set (hash_rows rows' hash)" using assms(3) by (simp add: hash_rows_def)
  have "row_matches rows hash = row_matches rows' hash"
    by (rule sorted_keys_unique [where key = match_key])
      (use keys represents_consistent assms eq in \<open>simp_all add: row_matches_def\<close>)
  then show "occ s hash limit skip = occ s' hash limit skip"
    by (simp add: occ_rows [OF assms(1)] occ_rows [OF assms(2)])
  have "row_games rows hash = row_games rows' hash"
    by (rule sorted_distinct_set_unique) (simp_all add: row_games_def eq)
  then show "ids s hash = ids s' hash" by (simp add: ids_rows [OF assms(1)] ids_rows [OF assms(2)])
qed

end

text \<open>An opened reader on an artifact in place represents the rows of its index.\<close>
definition reader_represents :: "filesystem \<times> position_postings \<Rightarrow> position_row list \<Rightarrow> bool" where
  "reader_represents s rows \<longleftrightarrow> (\<exists>content table. serves (fst s) (snd s) content table \<and> indexes content table rows)"

lemma table_for_consistent: "table_for rows table \<Longrightarrow> consistent_rows rows"
  unfolding table_for_def consistent_rows_def by (metis option.inject)

interpretation artifact_reader: position_index reader_represents
  "\<lambda>s. occurrences (fst s) (snd s)" "\<lambda>s. distinct_game_ids (fst s) (snd s)"
  "\<lambda>s. distinct_game_ids_page (fst s) (snd s)" "\<lambda>s. first_occurrences (fst s) (snd s)"
  "\<lambda>s. postings_summary_of (fst s) (snd s)"
proof unfold_locales
  fix s rows hash limit skip requested
  assume "reader_represents s rows"
  then obtain content table where sv: "serves (fst s) (snd s) content table" and ix: "indexes content table rows"
    by (auto simp: reader_represents_def)
  show "consistent_rows rows" using ix table_for_consistent by (auto simp: indexes_def)
  show "occurrences (fst s) (snd s) hash limit skip = Inr (page limit skip (row_matches rows hash))"
    by (simp add: occurrences_serves [OF sv] indexes_matches [OF ix])
  show "distinct_game_ids (fst s) (snd s) hash = Inr (row_games rows hash)"
    by (simp add: distinct_game_ids_serves [OF sv] indexes_games [OF ix])
  show "distinct_game_ids_page (fst s) (snd s) hash limit skip = Inr (page limit skip (row_games rows hash))"
    by (simp add: distinct_game_ids_page_serves [OF sv] indexes_games [OF ix])
  show "first_occurrences (fst s) (snd s) hash requested = Inr (row_first_matches rows hash requested)"
    by (simp add: first_occurrences_serves [OF sv] indexes_first_matches [OF ix])
  show "postings_summary_of (fst s) (snd s) hash =
      Inr (if hash_rows rows hash = [] then None else Some (row_summary rows hash))"
    by (simp add: summary_serves [OF sv] indexes_lookup [OF ix])
qed

lemma for_each_summary_represents:
  assumes "reader_represents (fs, pp) rows"
  shows "for_each_summary fs pp visitor s = visit_hashes visitor rows (row_hashes rows) s"
proof -
  obtain content table where "serves fs pp content table" "indexes content table rows"
    using assms by (auto simp: reader_represents_def)
  then show ?thesis by (simp add: for_each_summary_serves indexes_visit)
qed

lemma installed_opens:
  assumes "installed rows path fs" and "\<forall>row\<in>set rows. valid_row row" and "\<not> fs_fault fs (Open_Read path)"
  shows "\<exists>pp. postings_open fs (new_postings path threshold) = (Inr (), pp) \<and> reader_represents (fs, pp) rows"
proof -
  let ?pp = "new_postings path threshold"
  obtain table blocks where t: "table_for rows table" and wf: "wf_artifact (index_of rows) table blocks"
      and f: "fs_files fs (pp_path ?pp) = Some (artifact (index_of rows) table blocks)"
    using assms(1) by (auto simp: installed_def new_postings_def)
  have nf: "\<not> fs_fault fs (Open_Read (pp_path ?pp))" using assms(3) by (simp add: new_postings_def)
  have "indexes (index_of rows) table rows"
    using index_of_records [OF assms(2)] t by (simp add: indexes_def)
  then show ?thesis
    using postings_open_artifact [OF wf f nf] opened_serves [OF wf f nf] by (auto simp: reader_represents_def)
qed

end
