(* ===== verification/Postings_Build.thy ===== *)
theory Postings_Build
  imports Postings_Queries
begin

text \<open>
  \<open>position_postings::build\<close> end to end: a build that reports success has installed an
  artifact whose queries answer from exactly the positions of the store's games, and on a
  working disk a well-formed store is always built.
\<close>

section \<open>The rows of a store\<close>

definition store_rows :: "'b board_ops \<Rightarrow> replay_store \<Rightarrow> position_row list" where
  "store_rows ops store = concat (map (\<lambda>game. the (replay_rows ops game)) (rs_games store))"

definition replayable :: "replay_game_record \<Rightarrow> bool" where
  "replayable game \<longleftrightarrow> (\<exists>w. narrow_elo (rg_white_elo game) = Inr w) \<and> (\<exists>b. narrow_elo (rg_black_elo game) = Inr b)
     \<and> length (rg_moves game) \<le> 65535"

lemma replay_moves_Some:
  "replay_moves ops game we be index board moves \<noteq> None \<longleftrightarrow> moves = [] \<or> index + length moves \<le> 65535"
proof (induction moves arbitrary: index board)
  case (Cons m moves)
  show ?case using Cons [of "index + 1" "bo_apply ops board m"] by (auto simp: Let_def)
qed simp

lemma replay_rows_Some: "replay_rows ops game \<noteq> None \<longleftrightarrow> replayable game"
  using replay_moves_Some [of ops game _ _ 0 "bo_initial ops" "rg_moves game"]
  by (auto simp: replay_rows_def replayable_def split: sum.splits)

text \<open>All rows of a game carry its id and its metadata.\<close>
lemma replay_moves_rows:
  "replay_moves ops game we be index board moves = Some rows \<Longrightarrow> row \<in> set rows \<Longrightarrow>
     pr_game_id row = rg_id game \<and> pr_result row = result_code (rg_result game) \<and> pr_white_elo row = we \<and> pr_black_elo row = be"
proof (induction moves arbitrary: index board rows)
  case (Cons m moves)
  then show ?case by (auto simp: Let_def replay_row_def split: if_splits)
qed simp

lemma replay_rows_rows:
  assumes "replay_rows ops game = Some rows"
  shows "rows \<noteq> []" and "\<forall>row\<in>set rows. pr_game_id row = rg_id game"
    and "\<forall>a\<in>set rows. \<forall>b\<in>set rows. row_metadata a = row_metadata b"
    and "rg_id game \<noteq> 0 \<Longrightarrow> \<forall>row\<in>set rows. valid_row row"
proof -
  obtain we be rest where n: "narrow_elo (rg_white_elo game) = Inr we" "narrow_elo (rg_black_elo game) = Inr be"
      and r: "replay_moves ops game we be 0 (bo_initial ops) (rg_moves game) = Some rest"
      and rows: "rows = replay_row ops game we be (bo_initial ops) 0 0 # rest"
    using assms by (auto simp: replay_rows_def split: sum.splits)
  have all: "pr_game_id row = rg_id game \<and> pr_result row = result_code (rg_result game) \<and> pr_white_elo row = we \<and> pr_black_elo row = be"
    if "row \<in> set rows" for row
    using that replay_moves_rows [OF r] by (auto simp: rows replay_row_def)
  show "rows \<noteq> []" by (simp add: rows)
  show "\<forall>row\<in>set rows. pr_game_id row = rg_id game" using all by blast
  show "\<forall>a\<in>set rows. \<forall>b\<in>set rows. row_metadata a = row_metadata b" using all by (simp add: row_metadata_def)
  show "\<forall>row\<in>set rows. valid_row row" if "rg_id game \<noteq> 0"
    using all that by (simp add: valid_row_def valid_result_code)
qed

section \<open>Replaying the games\<close>

lemma replay_games_Inr:
  assumes "replay_games ops games ending replayed fs pp = (Inr u, replayed', fs', pp')" and "build_inv rows fs pp"
    and "games = [] \<longrightarrow> pp_game_metadata pp = [] \<or> counted pp"
  shows "build_inv (rows @ concat (map (\<lambda>game. the (replay_rows ops game)) games)) fs' pp'
     \<and> same_object pp pp' \<and> fs_same_device fs fs' \<and> replayed' = replayed + length games
     \<and> (games \<noteq> [] \<longrightarrow> counted pp') \<and> (games = [] \<longrightarrow> pp' = pp)"
  using assms
proof (induction games arbitrary: replayed fs pp rows)
  case Nil
  then show ?case by (simp add: same_object_def)
next
  case (Cons game games)
  obtain grows where g: "replay_rows ops game = Some grows" using Cons.prems(1) by (auto split: option.splits)
  obtain fs1 pp1 where ap: "append_batch grows fs pp = (Inr (), fs1, pp1)"
      and rest: "replay_games ops games ending (replayed + 1) fs1 pp1 = (Inr u, replayed', fs', pp')"
    using Cons.prems(1) g by (auto split: prod.splits sum.splits)
  note s = append_batch_Inr [OF ap Cons.prems(2)]
  have "build_inv (rows @ grows) fs1 pp1" "games = [] \<longrightarrow> pp_game_metadata pp1 = [] \<or> counted pp1" using s by simp_all
  from Cons.IH [OF rest this] s g show ?case
    by (cases games) (auto simp: same_object_def fs_same_device_def)
qed

lemma replay_games_total:
  assumes "build_inv rows fs pp" and "fs_no_faults fs" and "0 < pp_spill_threshold pp"
    and "\<forall>game\<in>set games. replayable game \<and> rg_id game \<noteq> 0"
    and "consistent_rows (rows @ concat (map (\<lambda>game. the (replay_rows ops game)) games))"
  shows "\<exists>replayed' fs' pp'. replay_games ops games (Inr ()) replayed fs pp = (Inr (), replayed', fs', pp')"
  using assms
proof (induction games arbitrary: replayed fs pp rows)
  case (Cons game games)
  obtain grows where g: "replay_rows ops game = Some grows" using Cons.prems(4) replay_rows_Some [of ops game] by auto
  have valid: "\<forall>row\<in>set (concat [grows]). valid_row row" using replay_rows_rows(4) [OF g] Cons.prems(4) by simp
  have cons: "consistent_rows (rows @ concat [grows])" using Cons.prems(5) g by (auto simp: consistent_rows_def)
  obtain fs1 pp1 where "append_batches [grows] fs pp = (Inr (), fs1, pp1)"
    using append_batches_total [OF Cons.prems(1-3) valid cons] by blast
  then have ap: "append_batch grows fs pp = (Inr (), fs1, pp1)" by (auto split: prod.splits sum.splits)
  note s = append_batch_Inr [OF ap Cons.prems(1)]
  have "\<exists>replayed' fs' pp'. replay_games ops games (Inr ()) (replayed + 1) fs1 pp1 = (Inr (), replayed', fs', pp')"
    by (rule Cons.IH [of "rows @ grows"])
      (use s Cons.prems g fs_no_faults_same [of fs fs1] in \<open>auto simp: same_object_def\<close>)
  then show ?case using g ap by simp
qed simp

lemma build_inv_initial:
  "build_inv [] fs ((new_postings path threshold)\<lparr>pp_indexed_game_count := n, pp_metrics := m\<rparr>)"
proof -
  have "runs_on_disk [] fs ((new_postings path threshold)\<lparr>pp_indexed_game_count := n, pp_metrics := m\<rparr>)"
    by (simp add: runs_on_disk_def new_postings_def)
  then show ?thesis by (auto simp: build_inv_def table_for_def new_postings_def)
qed

text \<open>The number of games is determined by the rows.\<close>
lemma table_for_length:
  assumes "table_for rows table" and "table_for rows table'"
  shows "length table = length table'"
proof -
  have "map_of table g = Some m \<longleftrightarrow> map_of table' g = Some m" for g m using assms by (simp add: table_for_def)
  then have "map_of table = map_of table'" by (intro ext option.expand) (metis option.collapse option.distinct(1) option.sel)+
  then have "set (map fst table) = set (map fst table')" using dom_map_of_conv_image_fst by (metis set_map)
  then show ?thesis using assms distinct_card by (metis length_map table_for_def)
qed

lemma build_Inr:
  fixes front :: "posting_cursor list \<Rightarrow> nat list \<Rightarrow> nat"
  assumes "heap_front front pc_current" and "build front ops store path threshold fs = (Inr metrics, fs')"
    and "length (store_rows ops store) < 2 ^ 32"
  shows "installed (store_rows ops store) path fs'" and "\<forall>row\<in>set (store_rows ops store). valid_row row"
    and "fs_fault fs' = fs_fault fs"
    and "table_for (store_rows ops store) table \<Longrightarrow> of_nat (length table) = (of_nat (length (rs_games store)) :: u64)"
proof -
  obtain n where n: "rs_count store = Inr n" "0 \<le> n"
    using assms(2) by (auto simp: build_def Let_def split: sum.splits if_splits)
  let ?pp = "(new_postings path threshold)\<lparr>pp_indexed_game_count := word_of_int n,
      pp_metrics := (pp_metrics (new_postings path threshold))\<lparr>bm_game_count := word_of_int n\<rparr>\<rparr>"
  obtain k fs1 pp1 fs2 pp2 where rp: "replay_games ops (rs_games store) (rs_end store) 0 fs ?pp = (Inr (), k, fs1, pp1)"
      and k: "of_nat k = pp_indexed_game_count pp1" and fin: "finalize front fs1 pp1 = (Inr (), fs2, pp2)"
      and fs': "fs' = destroy_postings pp2 fs2"
    using assms(2) n by (auto simp: build_def Let_def split: sum.splits prod.splits if_splits)
  have "pp_game_metadata ?pp = []" by (simp add: new_postings_def)
  note s = replay_games_Inr [OF rp build_inv_initial] this
  have inv: "build_inv (store_rows ops store) fs1 pp1" and path1: "pp_path pp1 = path"
    using s by (simp_all add: store_rows_def same_object_def new_postings_def)
  have c: "counted pp1"
  proof (cases "rs_games store = []")
    case True
    then show ?thesis using s k by (simp add: counted_def new_postings_def)
  qed (use s in simp)
  from finalize_Inr [OF assms(1) inv c assms(3) fin]
  have i: "installed (store_rows ops store) path fs2" "pp_spill_paths pp2 = []" "fs_fault fs2 = fs_fault fs1"
    using path1 by simp_all
  then show "installed (store_rows ops store) path fs'" by (simp add: fs' destroy_postings_def fs_discard_all_def)
  show "\<forall>row\<in>set (store_rows ops store). valid_row row" using inv by (simp add: build_inv_def)
  show "fs_fault fs' = fs_fault fs"
    using s i by (simp add: fs' destroy_postings_def fs_discard_all_def fs_same_device_def)
  have "table_for (store_rows ops store) (pp_game_metadata pp1)" using inv by (simp add: build_inv_def)
  then show "of_nat (length table) = (of_nat (length (rs_games store)) :: u64)" if "table_for (store_rows ops store) table"
    using table_for_length [OF that] c k s by (simp add: counted_def)
qed

lemma build_opens:
  fixes front :: "posting_cursor list \<Rightarrow> nat list \<Rightarrow> nat"
  assumes "heap_front front pc_current" and "build front ops store path threshold fs = (Inr metrics, fs')"
    and "length (store_rows ops store) < 2 ^ 32" and "\<not> fs_fault fs (Open_Read path)"
  shows "\<exists>pp. postings_open fs' (new_postings path threshold') = (Inr (), pp) \<and> reader_represents (fs', pp) (store_rows ops store)"
  using installed_opens build_Inr(1-3) [OF assms(1-3)] assms(4) by simp

section \<open>Totality\<close>

lemma store_rows_consistent:
  assumes "\<forall>game\<in>set (rs_games store). replayable game" and "distinct (map rg_id (rs_games store))"
  shows "consistent_rows (store_rows ops store)"
proof -
  have "row_metadata a = row_metadata b" if a: "a \<in> set (store_rows ops store)" and b: "b \<in> set (store_rows ops store)"
    and id: "pr_game_id a = pr_game_id b" for a b
  proof -
    obtain ga where ga: "ga \<in> set (rs_games store)" "a \<in> set (the (replay_rows ops ga))" using a by (auto simp: store_rows_def)
    obtain gb where gb: "gb \<in> set (rs_games store)" "b \<in> set (the (replay_rows ops gb))" using b by (auto simp: store_rows_def)
    obtain ra rb where r: "replay_rows ops ga = Some ra" "replay_rows ops gb = Some rb"
      using ga gb assms(1) replay_rows_Some by blast
    have "pr_game_id a = rg_id ga" "pr_game_id b = rg_id gb"
      using replay_rows_rows(2) [OF r(1)] replay_rows_rows(2) [OF r(2)] ga(2) gb(2) r by simp_all
    then have "rg_id ga = rg_id gb" using id by simp
    then have "ga = gb" using assms(2) ga(1) gb(1) by (simp add: distinct_map inj_on_def)
    then have "a \<in> set ra" "b \<in> set ra" using ga(2) gb(2) r(1) by simp_all
    then show ?thesis using replay_rows_rows(3) [OF r(1)] by blast
  qed
  then show ?thesis unfolding consistent_rows_def by blast
qed

lemma table_for_ids:
  assumes "table_for (store_rows ops store) table" and "\<forall>game\<in>set (rs_games store). replayable game"
    and "distinct (map rg_id (rs_games store))"
  shows "length table = length (rs_games store)"
proof -
  have "set (map fst table) = pr_game_id ` set (store_rows ops store)"
  proof -
    have "g \<in> set (map fst table) \<longleftrightarrow> (\<exists>m. map_of table g = Some m)" for g
      by (metis domIff dom_map_of_conv_image_fst not_None_eq set_map)
    then show ?thesis using assms(1) unfolding table_for_def by (auto simp: image_iff) metis+
  qed
  also have "\<dots> = (\<Union>game\<in>set (rs_games store). pr_game_id ` set (the (replay_rows ops game)))"
    by (auto simp: store_rows_def)
  also have "\<dots> = (\<Union>game\<in>set (rs_games store). {rg_id game})"
  proof (rule SUP_cong [OF refl])
    fix game assume "game \<in> set (rs_games store)"
    then obtain rows where r: "replay_rows ops game = Some rows" using assms(2) replay_rows_Some by blast
    have "set rows \<noteq> {}" using replay_rows_rows(1) [OF r] by simp
    moreover have "pr_game_id ` set rows = (\<lambda>_. rg_id game) ` set rows"
      using replay_rows_rows(2) [OF r] by (intro image_cong) auto
    ultimately show "pr_game_id ` set (the (replay_rows ops game)) = {rg_id game}" using r by (simp add: image_constant_conv)
  qed
  finally have "set (map fst table) = set (map rg_id (rs_games store))" by auto
  then show ?thesis
    using assms(1,3) distinct_card by (metis length_map table_for_def)
qed

lemma build_total:
  fixes front :: "posting_cursor list \<Rightarrow> nat list \<Rightarrow> nat"
  assumes "heap_front front pc_current" and "fs_no_faults fs" and "0 < threshold"
    and "rs_count store = Inr n" and "0 \<le> n" and "rs_games store = [] \<longrightarrow> n = 0" and "rs_end store = Inr ()"
    and "\<forall>game\<in>set (rs_games store). replayable game \<and> rg_id game \<noteq> 0" and "distinct (map rg_id (rs_games store))"
    and "length (store_rows ops store) < 2 ^ 32"
  shows "\<exists>metrics fs'. build front ops store path threshold fs = (Inr metrics, fs')"
proof -
  let ?pp = "(new_postings path threshold)\<lparr>pp_indexed_game_count := word_of_int n,
      pp_metrics := (pp_metrics (new_postings path threshold))\<lparr>bm_game_count := word_of_int n\<rparr>\<rparr>"
  have meta: "pp_game_metadata ?pp = []" and thr: "0 < pp_spill_threshold ?pp" using assms(3) by (simp_all add: new_postings_def)
  have cons: "consistent_rows ([] @ concat (map (\<lambda>game. the (replay_rows ops game)) (rs_games store)))"
    using store_rows_consistent [of store ops] assms(8,9) by (simp add: store_rows_def)
  obtain k fs1 pp1 where rp: "replay_games ops (rs_games store) (rs_end store) 0 fs ?pp = (Inr (), k, fs1, pp1)"
    using replay_games_total [OF build_inv_initial assms(2) thr assms(8) cons, of 0] assms(7) by auto
  note s = replay_games_Inr [OF rp build_inv_initial] meta
  have inv: "build_inv (store_rows ops store) fs1 pp1" and dev: "fs_no_faults fs1" and thr1: "0 < pp_spill_threshold pp1"
    using s thr assms(2) fs_no_faults_same by (auto simp: store_rows_def same_object_def)
  have len: "length (pp_game_metadata pp1) = length (rs_games store)"
    by (rule table_for_ids [of ops]) (use inv assms(8,9) in \<open>auto simp: build_inv_def\<close>)
  have cnt: "pp_indexed_game_count pp1 = of_nat k \<and> counted pp1"
  proof (cases "rs_games store = []")
    case True
    then show ?thesis using s assms(6) meta by (simp add: counted_def)
  next
    case False
    then show ?thesis using s len by (simp add: counted_def)
  qed
  obtain fs2 pp2 where "finalize front fs1 pp1 = (Inr (), fs2, pp2)"
    using finalize_total [OF assms(1) inv _ assms(10) dev thr1] cnt by blast
  then show ?thesis using assms(4,5) rp cnt by (simp add: build_def Let_def)
qed

section \<open>Properties\<close>

text \<open>
  C4: Once \<open>build\<close> has reported success, opening the artifact succeeds and \<open>occurrences\<close> returns, for
  every hash and page, exactly the games and plies at which the store's games reach that hash, each once, by game
  and ply, with the result and the ratings of the game.\<close>
theorem build_occurrences:
  fixes front :: "posting_cursor list \<Rightarrow> nat list \<Rightarrow> nat"
  assumes "heap_front front pc_current" and "build front ops store path threshold fs = (Inr metrics, fs')"
    and "length (store_rows ops store) < 2 ^ 32" and "\<not> fs_fault fs (Open_Read path)"
  shows "\<exists>pp. postings_open fs' (new_postings path threshold') = (Inr (), pp)
     \<and> (\<forall>hash limit skip. occurrences fs' pp hash limit skip = Inr (page limit skip (row_matches (store_rows ops store) hash)))"
  using build_opens [OF assms] artifact_reader.occ_rows [of "(fs', _)"] by fastforce

text \<open>
  After a successful \<open>build\<close>, \<open>first_occurrences\<close> returns for each requested game of the store that
  reaches the hash its earliest occurrence, in game order, and nothing else.\<close>
theorem build_first_occurrences:
  fixes front :: "posting_cursor list \<Rightarrow> nat list \<Rightarrow> nat"
  assumes "heap_front front pc_current" and "build front ops store path threshold fs = (Inr metrics, fs')"
    and "length (store_rows ops store) < 2 ^ 32" and "\<not> fs_fault fs (Open_Read path)"
  shows "\<exists>pp. postings_open fs' (new_postings path threshold') = (Inr (), pp)
     \<and> (\<forall>hash requested. first_occurrences fs' pp hash requested = Inr (row_first_matches (store_rows ops store) hash requested))"
  using build_opens [OF assms] artifact_reader.firsts_rows [of "(fs', _)"] by fastforce

text \<open>
  After a successful \<open>build\<close>, \<open>distinct_game_ids\<close> lists the ids of the games that reach the hash,
  ascending and without repetition, and the paged variant returns the pages of that list.\<close>
theorem build_distinct_game_ids:
  fixes front :: "posting_cursor list \<Rightarrow> nat list \<Rightarrow> nat"
  assumes "heap_front front pc_current" and "build front ops store path threshold fs = (Inr metrics, fs')"
    and "length (store_rows ops store) < 2 ^ 32" and "\<not> fs_fault fs (Open_Read path)"
  shows "\<exists>pp. postings_open fs' (new_postings path threshold') = (Inr (), pp)
     \<and> (\<forall>hash. distinct_game_ids fs' pp hash = Inr (row_games (store_rows ops store) hash))
     \<and> (\<forall>hash limit skip. distinct_game_ids_page fs' pp hash limit skip
          = Inr (page limit skip (row_games (store_rows ops store) hash)))"
  using build_opens [OF assms] artifact_reader.ids_rows [of "(fs', _)"] artifact_reader.ids_page_rows [of "(fs', _)"]
  by fastforce

text \<open>
  After a successful \<open>build\<close>, \<open>summary\<close> reports for each hash the number of its occurrences and of its
  games and its extreme plies, or nothing for a hash no game reaches, and \<open>for_each_summary\<close> visits every hash of
  the store once, ascending, with that summary, stopping at the visitor's first error.\<close>
theorem build_summary:
  fixes front :: "posting_cursor list \<Rightarrow> nat list \<Rightarrow> nat" and visitor :: "u64 \<Rightarrow> postings_summary \<Rightarrow> 's \<Rightarrow> 's result"
  assumes "heap_front front pc_current" and "build front ops store path threshold fs = (Inr metrics, fs')"
    and "length (store_rows ops store) < 2 ^ 32" and "\<not> fs_fault fs (Open_Read path)"
  shows "\<exists>pp. postings_open fs' (new_postings path threshold') = (Inr (), pp)
     \<and> (\<forall>hash. postings_summary_of fs' pp hash
          = Inr (if hash_rows (store_rows ops store) hash = [] then None else Some (row_summary (store_rows ops store) hash)))
     \<and> (\<forall>s. for_each_summary fs' pp visitor s
          = visit_hashes visitor (store_rows ops store) (row_hashes (store_rows ops store)) s)"
proof -
  obtain pp where pp: "postings_open fs' (new_postings path threshold') = (Inr (), pp)"
      "reader_represents (fs', pp) (store_rows ops store)"
    using build_opens [OF assms] by blast
  then show ?thesis
    using artifact_reader.summ_rows [OF pp(2)] for_each_summary_represents [OF pp(2), of visitor] by auto
qed

text \<open>
  C14: On a disk without faults, with a positive spill threshold, \<open>build\<close> succeeds on every store whose games
  replay (distinct nonzero ids, ratings that fit, at most 65535 moves) whatever its moves, results and spill pattern.\<close>
theorem build_succeeds:
  fixes front :: "posting_cursor list \<Rightarrow> nat list \<Rightarrow> nat"
  assumes "heap_front front pc_current" and "fs_no_faults fs" and "0 < threshold"
    and "rs_count store = Inr n" and "0 \<le> n" and "rs_games store = [] \<longrightarrow> n = 0" and "rs_end store = Inr ()"
    and "\<forall>game\<in>set (rs_games store). replayable game \<and> rg_id game \<noteq> 0" and "distinct (map rg_id (rs_games store))"
    and "length (store_rows ops store) < 2 ^ 32"
  shows "\<exists>metrics fs'. build front ops store path threshold fs = (Inr metrics, fs')"
  by (rule build_total [OF assms])


text \<open>
  Whether a build succeeds or fails, on a disk whose removals work and that has no left-over scratch
  files of this artifact it removes every spill, the directory spool and the temporary output it made:
  every file but the artifact is as before.\<close>
theorem build_removes_scratch:
  assumes "build front ops store path threshold fs = (res, fs')" and "clean_start path fs" and "q \<noteq> path"
  shows "fs_files fs' q = fs_files fs q"
  using build_settled [OF assms(1)] assms(2,3) by (simp add: settled_def keeps_def)

section \<open>Witnesses\<close>

text \<open>Two short games on a board whose hash is its state, an empty disk, and a threshold that makes two runs.\<close>
definition demo_ops :: "u64 board_ops" where
  "demo_ops = \<lparr>bo_initial = 7, bo_apply = (\<lambda>b m. 10 * b + ucast m), bo_hash = id\<rparr>"

definition demo_store :: replay_store where
  "demo_store = \<lparr>rs_count = Inr 2, rs_games =
     [\<lparr>rg_id = 1, rg_result = ''1-0'', rg_white_elo = Some 2400, rg_black_elo = None, rg_moves = [1, 2]\<rparr>,
      \<lparr>rg_id = 2, rg_result = ''0-1'', rg_white_elo = None, rg_black_elo = None, rg_moves = [1]\<rparr>], rs_end = Inr ()\<rparr>"

definition demo_disk :: filesystem where
  "demo_disk = \<lparr>fs_files = Map.empty, fs_fault = (\<lambda>_. False), fs_quota = (\<lambda>_. None)\<rparr>"

definition demo_row :: "u64 \<Rightarrow> u32 \<Rightarrow> u16 \<Rightarrow> u16 \<Rightarrow> position_row" where
  "demo_row hash game ply move = \<lparr>pr_zobrist_hash = hash, pr_game_id = game, pr_ply = ply, pr_encoded_move = move,
     pr_result = (if game = 1 then 1 else - 1), pr_white_elo = (if game = 1 then Some 2400 else None), pr_black_elo = None\<rparr>"

lemma demo_store_rows:
  "store_rows demo_ops demo_store = [demo_row 7 1 0 0, demo_row 71 1 1 1, demo_row 712 1 2 2, demo_row 7 2 0 0, demo_row 71 2 1 1]"
  by (simp add: store_rows_def demo_store_def demo_ops_def replay_rows_def narrow_elo_def Let_def replay_row_def
      result_code_def demo_row_def)

lemma demo_hash_rows: "hash_rows (store_rows demo_ops demo_store) 71 = [demo_row 71 1 1 1, demo_row 71 2 1 1]"
  by (simp add: hash_rows_def demo_store_rows demo_row_def)

lemma demo_answers:
  "row_matches (store_rows demo_ops demo_store) 71 = [row_match (demo_row 71 1 1 1), row_match (demo_row 71 2 1 1)]"
  "row_games (store_rows demo_ops demo_store) 71 = [1, 2]"
  by (simp_all add: row_matches_def row_games_def demo_hash_rows row_match_def demo_row_def match_key_def)

lemma demo_premises:
  "fs_no_faults demo_disk" "rs_count demo_store = Inr 2" "rs_games demo_store \<noteq> []" "rs_end demo_store = Inr ()"
  "\<forall>game\<in>set (rs_games demo_store). replayable game \<and> rg_id game \<noteq> 0" "distinct (map rg_id (rs_games demo_store))"
  "length (store_rows demo_ops demo_store) < 2 ^ 32"
  by (simp_all add: demo_disk_def fs_no_faults_def demo_store_def replayable_def narrow_elo_def)
    (simp add: demo_store_rows [unfolded demo_store_def])

lemma demo_build: "\<exists>metrics fs'. build (heap_min pc_current) demo_ops demo_store ''a'' 3 demo_disk = (Inr metrics, fs')"
  by (rule build_total [OF heap_min.heap_front_axioms demo_premises(1) _ demo_premises(2)])
    (use demo_premises in auto)

theorem build_succeeds_witness:
  "\<exists>metrics fs'. build (heap_min pc_current) demo_ops demo_store ''a'' 3 demo_disk = (Inr metrics, fs')"
  by (rule build_succeeds [OF heap_min.heap_front_axioms demo_premises(1) _ demo_premises(2)])
    (use demo_premises in auto)

theorem build_occurrences_witness:
  "\<exists>fs' metrics pp. build (heap_min pc_current) demo_ops demo_store ''a'' 3 demo_disk = (Inr metrics, fs')
     \<and> postings_open fs' (new_postings ''a'' 1) = (Inr (), pp)
     \<and> occurrences fs' pp 71 1 1 = Inr [row_match (demo_row 71 2 1 1)]"
proof -
  obtain metrics fs' where b: "build (heap_min pc_current) demo_ops demo_store ''a'' 3 demo_disk = (Inr metrics, fs')"
    using demo_build by blast
  from build_occurrences [OF heap_min.heap_front_axioms b demo_premises(7), of 1]
  show ?thesis using b by (auto simp: demo_disk_def demo_answers page_def)
qed

theorem build_first_occurrences_witness:
  "\<exists>fs' metrics pp. build (heap_min pc_current) demo_ops demo_store ''a'' 3 demo_disk = (Inr metrics, fs')
     \<and> postings_open fs' (new_postings ''a'' 1) = (Inr (), pp)
     \<and> first_occurrences fs' pp 71 [2] = Inr [row_match (demo_row 71 2 1 1)]"
proof -
  obtain metrics fs' where b: "build (heap_min pc_current) demo_ops demo_store ''a'' 3 demo_disk = (Inr metrics, fs')"
    using demo_build by blast
  have "row_first_matches (store_rows demo_ops demo_store) 71 [2] = [row_match (demo_row 71 2 1 1)]"
    by (simp add: row_first_matches_def demo_answers) (simp add: row_match_def demo_row_def)
  then show ?thesis
    using build_first_occurrences [OF heap_min.heap_front_axioms b demo_premises(7), of 1] b by (auto simp: demo_disk_def)
qed

theorem build_distinct_game_ids_witness:
  "\<exists>fs' metrics pp. build (heap_min pc_current) demo_ops demo_store ''a'' 3 demo_disk = (Inr metrics, fs')
     \<and> postings_open fs' (new_postings ''a'' 1) = (Inr (), pp) \<and> distinct_game_ids fs' pp 71 = Inr [1, 2]"
proof -
  obtain metrics fs' where b: "build (heap_min pc_current) demo_ops demo_store ''a'' 3 demo_disk = (Inr metrics, fs')"
    using demo_build by blast
  from build_distinct_game_ids [OF heap_min.heap_front_axioms b demo_premises(7), of 1]
  show ?thesis using b by (auto simp: demo_disk_def demo_answers)
qed

theorem build_summary_witness:
  "\<exists>fs' metrics pp. build (heap_min pc_current) demo_ops demo_store ''a'' 3 demo_disk = (Inr metrics, fs')
     \<and> postings_open fs' (new_postings ''a'' 1) = (Inr (), pp)
     \<and> postings_summary_of fs' pp 71
        = Inr (Some \<lparr>ps_occurrence_count = 2, ps_distinct_game_count = 2, ps_min_ply = 1, ps_max_ply = 1\<rparr>)"
proof -
  obtain metrics fs' where b: "build (heap_min pc_current) demo_ops demo_store ''a'' 3 demo_disk = (Inr metrics, fs')"
    using demo_build by blast
  have "row_summary (store_rows demo_ops demo_store) 71
      = \<lparr>ps_occurrence_count = 2, ps_distinct_game_count = 2, ps_min_ply = 1, ps_max_ply = 1\<rparr>"
    by (simp add: row_summary_def demo_answers demo_hash_rows) (simp add: demo_row_def)
  then show ?thesis
    using build_summary [OF heap_min.heap_front_axioms b demo_premises(7), of 1 "\<lambda>_ _ s. Inr s"] b
    by (auto simp: demo_disk_def demo_hash_rows)
qed


theorem build_removes_scratch_witness:
  "\<exists>metrics fs'. build (heap_min pc_current) demo_ops demo_store ''a'' 3 demo_disk = (Inr metrics, fs')
     \<and> fs_files fs' (spill_path ''a'' 0) = None"
proof -
  obtain metrics fs' where b: "build (heap_min pc_current) demo_ops demo_store ''a'' 3 demo_disk = (Inr metrics, fs')"
    using demo_build by blast
  have "clean_start ''a'' demo_disk" by (simp add: clean_start_def demo_disk_def)
  from build_removes_scratch [OF b this scratch_paths(2)] show ?thesis using b by (simp add: demo_disk_def)
qed

end
