(* ===== verification/Prefix_Postings.thy ===== *)
theory Prefix_Postings
  imports Postings_Builder
begin

text \<open>
  The hash-prefix sidecar of \<open>source/motif/db/position_prefix_postings.cpp\<close>: \<open>append\<close>
  buffers (prefix, game) records and spills sorted runs, \<open>finalize\<close> writes the bucket
  offsets and the game ids either from memory or by a k-way merge of the runs, \<open>open\<close>
  reads the file back and \<open>candidates\<close> returns the bucket of a hash.

  An access outside a vector is undefined behaviour in the source: \<open>candidates\<close> is \<open>None\<close>
  there. Memory is taken to suffice. As in the other builder, a file whose stream fails is
  left as it was opened, and a stream's destructor closes it without a check.
\<close>

section \<open>Records\<close>

datatype prefix_record = Prefix_Record (xr_prefix: u32) (xr_game_key: u32)

text \<open>The defaulted \<open>operator<=>\<close>: lexicographic.\<close>
instantiation prefix_record :: linorder
begin

definition less_prefix_record :: "prefix_record \<Rightarrow> prefix_record \<Rightarrow> bool" where
  "less_prefix_record a b \<longleftrightarrow>
     xr_prefix a < xr_prefix b \<or> (xr_prefix a = xr_prefix b \<and> xr_game_key a < xr_game_key b)"

definition less_eq_prefix_record :: "prefix_record \<Rightarrow> prefix_record \<Rightarrow> bool" where
  "less_eq_prefix_record a b \<longleftrightarrow> a = b \<or> a < (b :: prefix_record)"

instance
proof
  fix x y :: prefix_record
  show "x \<le> y \<or> y \<le> x"
    by (cases x; cases y) (auto simp: less_prefix_record_def less_eq_prefix_record_def)
qed (auto simp: less_prefix_record_def less_eq_prefix_record_def)

end

record prefix_postings =
  xp_path :: path
  xp_prefix_bits :: u8
  xp_spill_threshold :: nat
  xp_records :: "prefix_record list"
  xp_spill_paths :: "path list"
  xp_offsets :: "u64 list"
  xp_postings :: "u32 list"

definition new_prefix_postings :: "path \<Rightarrow> u8 \<Rightarrow> nat \<Rightarrow> prefix_postings" where
  "new_prefix_postings path prefix_bits spill_threshold =
     \<lparr>xp_path = path, xp_prefix_bits = prefix_bits, xp_spill_threshold = spill_threshold, xp_records = [],
      xp_spill_paths = [], xp_offsets = [], xp_postings = []\<rparr>"

definition prefix_magic :: bytes where
  "prefix_magic = map of_char ''MOTIFPP1''"

definition valid_prefix_bits :: "u8 \<Rightarrow> bool" where
  "valid_prefix_bits bits \<longleftrightarrow> bits > 0 \<and> bits \<le> 24"

definition prefix_of :: "u8 \<Rightarrow> u64 \<Rightarrow> u32" where
  "prefix_of bits hash = ucast (drop_bit (64 - unat bits) hash)"

section \<open>\<open>append\<close>\<close>

text \<open>\<open>std::ranges::sort\<close>, \<open>unique\<close> and \<open>erase\<close>.\<close>
definition sort_unique :: "'a::linorder list \<Rightarrow> 'a list" where
  "sort_unique xs = remdups_adj (sort xs)"

text \<open>\<open>write_little_endian(std::ofstream\&, Integer)\<close> with the check of the stream.\<close>
definition put_le :: "'a::len word \<Rightarrow> ofstream \<Rightarrow> ofstream option" where
  "put_le value os = (let os = ofstream_write (write_little_endian value) os in if os_ok os then Some os else None)"

fun put_all_le :: "'a::len word list \<Rightarrow> ofstream \<Rightarrow> ofstream option" where
  "put_all_le [] os = Some os"
| "put_all_le (value # values) os = do { os \<leftarrow> put_le value os; put_all_le values os }"

fun write_prefix_records :: "prefix_record list \<Rightarrow> ofstream \<Rightarrow> ofstream option" where
  "write_prefix_records [] os = Some os"
| "write_prefix_records (item # items) os =
     do { os \<leftarrow> put_le (xr_prefix item) os; os \<leftarrow> put_le (xr_game_key item) os; write_prefix_records items os }"

definition prefix_spill_current_buffer ::
  "filesystem \<Rightarrow> prefix_postings \<Rightarrow> unit result \<times> filesystem \<times> prefix_postings" where
  "prefix_spill_current_buffer fs xp =
     (if xp_records xp = [] then (Inr (), fs, xp)
      else let xp = xp\<lparr>xp_records := sort_unique (xp_records xp)\<rparr>;
               target = spill_path (xp_path xp) (length (xp_spill_paths xp)) in
        case ofstream_open target fs of
          (None, fs) \<Rightarrow> (unexpected Io_Failure, fs, xp)
        | (Some output, fs) \<Rightarrow>
            (case do { output \<leftarrow> put_le (of_nat (length (xp_records xp)) :: u64) output;
                       write_prefix_records (xp_records xp) output } of
               None \<Rightarrow> (unexpected Io_Failure, fs, xp)
             | Some output \<Rightarrow>
                 (Inr (), snd (ofstream_close output fs),
                  xp\<lparr>xp_spill_paths := xp_spill_paths xp @ [target], xp_records := []\<rparr>)))"

fun prefix_append_rows ::
  "position_row list \<Rightarrow> filesystem \<Rightarrow> prefix_postings \<Rightarrow> unit result \<times> filesystem \<times> prefix_postings" where
  "prefix_append_rows [] fs xp = (Inr (), fs, xp)"
| "prefix_append_rows (row # rows) fs xp =
     (let xp = xp\<lparr>xp_records := xp_records xp
                     @ [Prefix_Record (prefix_of (xp_prefix_bits xp) (pr_zobrist_hash row)) (pr_game_id row)]\<rparr> in
      if length (xp_records xp) \<ge> xp_spill_threshold xp
      then case prefix_spill_current_buffer fs xp of
          (Inl err, fs, xp) \<Rightarrow> (Inl err, fs, xp)
        | (Inr _, fs, xp) \<Rightarrow> prefix_append_rows rows fs xp
      else prefix_append_rows rows fs xp)"

definition prefix_append ::
  "position_row list \<Rightarrow> filesystem \<Rightarrow> prefix_postings \<Rightarrow> unit result \<times> filesystem \<times> prefix_postings" where
  "prefix_append rows fs xp =
     (if \<not> valid_prefix_bits (xp_prefix_bits xp) then (unexpected Invalid_Argument, fs, xp)
      else prefix_append_rows rows fs xp)"

section \<open>\<open>finalize\<close>\<close>

definition bucket_count :: "u8 \<Rightarrow> nat" where
  "bucket_count bits = 2 ^ unat bits"

definition increment_at :: "nat \<Rightarrow> u64 list \<Rightarrow> u64 list" where
  "increment_at i xs = xs[i := xs ! i + 1]"

text \<open>The in-place prefix sums: every element becomes the sum of the ones up to it.\<close>
fun running_sum :: "u64 \<Rightarrow> u64 list \<Rightarrow> u64 list" where
  "running_sum acc [] = []"
| "running_sum acc (x # xs) = (acc + x) # running_sum (acc + x) xs"

definition write_prefix_header :: "u8 \<Rightarrow> u64 \<Rightarrow> ofstream \<Rightarrow> ofstream option" where
  "write_prefix_header bits postings_count output =
     (let output = ofstream_write prefix_magic output in
      if \<not> os_ok output then None
      else do { output \<leftarrow> put_le (1 :: u32) output;
                output \<leftarrow> put_le bits output;
                output \<leftarrow> put_le (0 :: u8) output;
                output \<leftarrow> put_le (0 :: u16) output;
                output \<leftarrow> put_le (of_nat (bucket_count bits) :: u64) output;
                put_le postings_count output })"

definition finalize_in_memory ::
  "filesystem \<Rightarrow> prefix_postings \<Rightarrow> unit result \<times> filesystem \<times> prefix_postings" where
  "finalize_in_memory fs xp =
     (let records = sort_unique (xp_records xp);
          counted = fold (\<lambda>item. increment_at (unat (xr_prefix item) + 1)) records
                      (replicate (bucket_count (xp_prefix_bits xp) + 1) 0);
          xp = xp\<lparr>xp_records := records, xp_offsets := running_sum 0 counted, xp_postings := map xr_game_key records\<rparr> in
      case ofstream_open (xp_path xp) fs of
        (None, fs) \<Rightarrow> (unexpected Io_Failure, fs, xp)
      | (Some output, fs) \<Rightarrow>
          (case do { output \<leftarrow> write_prefix_header (xp_prefix_bits xp) (of_nat (length (xp_postings xp))) output;
                     output \<leftarrow> put_all_le (xp_offsets xp) output;
                     put_all_le (xp_postings xp) output } of
             None \<Rightarrow> (unexpected Io_Failure, fs, xp)
           | Some output \<Rightarrow> (Inr (), snd (ofstream_close output fs), xp\<lparr>xp_records := []\<rparr>)))"

record run_cursor = cursor +
  rc_input :: ifstream
  rc_current :: prefix_record

fun open_run_cursors :: "filesystem \<Rightarrow> path list \<Rightarrow> run_cursor list option" where
  "open_run_cursors fs [] = Some []"
| "open_run_cursors fs (path # paths) =
     (case ifstream_open path fs of
        None \<Rightarrow> None
      | Some input \<Rightarrow>
          (case ifstream_read_le input of
             None \<Rightarrow> None
           | Some (remaining, input) \<Rightarrow>
               map_option (Cons \<lparr>cur_remaining = remaining, rc_input = input, rc_current = Prefix_Record 0 0\<rparr>)
                 (open_run_cursors fs paths)))"

text \<open>\<open>advance_cursor\<close>: a run that ends early is an error here.\<close>
definition fetch_prefix_record :: "run_cursor \<Rightarrow> run_cursor fetch" where
  "fetch_prefix_record c =
     (case ifstream_read_le (rc_input c) of
        None \<Rightarrow> Fetch_Error
      | Some (prefix, input) \<Rightarrow>
          (case ifstream_read_le input of
             None \<Rightarrow> Fetch_Error
           | Some (game_key, input) \<Rightarrow> Fetched (c\<lparr>rc_input := input, rc_current := Prefix_Record prefix game_key\<rparr>)))"

record prefix_merge =
  xm_scratch :: ofstream
  xm_bucket_counts :: "u64 list"
  xm_total_count :: u64
  xm_prev :: "prefix_record option"

definition visit_prefix_record :: "prefix_record \<Rightarrow> prefix_merge \<Rightarrow> prefix_merge option" where
  "visit_prefix_record current st =
     (if xm_prev st \<noteq> Some current
      then map_option (\<lambda>scratch. st\<lparr>xm_scratch := scratch,
             xm_bucket_counts := increment_at (unat (xr_prefix current)) (xm_bucket_counts st),
             xm_total_count := xm_total_count st + 1, xm_prev := Some current\<rparr>)
             (put_le (xr_game_key current) (xm_scratch st))
      else Some st)"

definition prefix_scratch_path :: "path \<Rightarrow> path" where
  "prefix_scratch_path path = path @ ''.postings.tmp''"

text \<open>\<open>output << input.rdbuf()\<close>: fails when it transfers nothing.\<close>
definition copy_stream :: "ifstream \<Rightarrow> ofstream \<Rightarrow> ofstream option" where
  "copy_stream input os =
     (let os = ofstream_write (is_data input) os in if is_data input \<noteq> [] \<and> os_ok os then Some os else None)"

text \<open>The scope in which the runs are merged into the scratch file.\<close>
definition prefix_merge_runs ::
  "(run_cursor list \<Rightarrow> nat list \<Rightarrow> nat) \<Rightarrow> filesystem \<Rightarrow> prefix_postings \<Rightarrow> prefix_merge option \<times> filesystem" where
  "prefix_merge_runs front fs xp =
     (case open_run_cursors fs (xp_spill_paths xp) \<bind> start_cursors fetch_prefix_record 0 of
        None \<Rightarrow> (None, fs)
      | Some (cursors, heap) \<Rightarrow>
          (case ofstream_open (prefix_scratch_path (xp_path xp)) fs of
             (None, fs) \<Rightarrow> (None, fs)
           | (Some scratch, fs) \<Rightarrow>
               (case heap_merge front fetch_prefix_record rc_current visit_prefix_record cursors heap
                       \<lparr>xm_scratch = scratch, xm_bucket_counts = replicate (bucket_count (xp_prefix_bits xp)) 0,
                        xm_total_count = 0, xm_prev = None\<rparr> of
                  None \<Rightarrow> (None, fs)
                | Some st \<Rightarrow> (Some st, snd (ofstream_close (xm_scratch st) fs)))))"

definition finalize_external_merge ::
  "(run_cursor list \<Rightarrow> nat list \<Rightarrow> nat) \<Rightarrow> filesystem \<Rightarrow> prefix_postings \<Rightarrow> unit result \<times> filesystem \<times> prefix_postings" where
  "finalize_external_merge front fs xp =
     (case prefix_spill_current_buffer fs xp of
        (Inl err, fs, xp) \<Rightarrow> (Inl err, fs, xp)
      | (Inr _, fs, xp) \<Rightarrow>
          (case prefix_merge_runs front fs xp of
             (None, fs) \<Rightarrow> (unexpected Io_Failure, fs, xp)
           | (Some st, fs) \<Rightarrow>
               let xp = xp\<lparr>xp_offsets := 0 # running_sum 0 (xm_bucket_counts st)\<rparr> in
               (case ofstream_open (xp_path xp) fs of
                  (None, fs) \<Rightarrow> (unexpected Io_Failure, fs, xp)
                | (Some output, fs) \<Rightarrow>
                    (case do { output \<leftarrow> write_prefix_header (xp_prefix_bits xp) (xm_total_count st) output;
                               output \<leftarrow> put_all_le (xp_offsets xp) output;
                               scratch_input \<leftarrow> ifstream_open (prefix_scratch_path (xp_path xp)) fs;
                               copy_stream scratch_input output } of
                       None \<Rightarrow> (unexpected Io_Failure, fs, xp)
                     | Some output \<Rightarrow>
                         (Inr (),
                          fs_discard_all (prefix_scratch_path (xp_path xp) # xp_spill_paths xp) (snd (ofstream_close output fs)),
                          xp\<lparr>xp_spill_paths := [], xp_postings := [], xp_records := []\<rparr>)))))"

definition prefix_finalize ::
  "(run_cursor list \<Rightarrow> nat list \<Rightarrow> nat) \<Rightarrow> filesystem \<Rightarrow> prefix_postings \<Rightarrow> unit result \<times> filesystem \<times> prefix_postings" where
  "prefix_finalize front fs xp =
     (if \<not> valid_prefix_bits (xp_prefix_bits xp) then (unexpected Invalid_Argument, fs, xp)
      else if xp_spill_paths xp = [] then finalize_in_memory fs xp
      else finalize_external_merge front fs xp)"

section \<open>\<open>open\<close> and \<open>candidates\<close>\<close>

text \<open>Fills a vector of \<open>n\<close> elements in order; the elements read, and the stream unless a read failed.\<close>
fun read_words :: "nat \<Rightarrow> ifstream \<Rightarrow> 'a::len word list \<times> ifstream option" where
  "read_words 0 input = ([], Some input)"
| "read_words (Suc n) input =
     (case ifstream_read_le input of
        None \<Rightarrow> ([], None)
      | Some (value, input) \<Rightarrow> (case read_words n input of (values, rest) \<Rightarrow> (value # values, rest)))"

definition pad_zeros :: "nat \<Rightarrow> 'a::len word list \<Rightarrow> 'a word list" where
  "pad_zeros n xs = xs @ replicate (n - length xs) 0"

text \<open>Version, prefix bits, bucket count, postings count and the stream behind them.\<close>
definition read_prefix_header :: "ifstream \<Rightarrow> (u32 \<times> u8 \<times> u64 \<times> u64 \<times> ifstream) option" where
  "read_prefix_header input =
     (case ifstream_read 8 input of
        (None, _) \<Rightarrow> None
      | (Some file_magic, input) \<Rightarrow>
          (if file_magic \<noteq> prefix_magic then None
           else do { (version, input) \<leftarrow> ifstream_read_le input;
                     (bits, input) \<leftarrow> ifstream_read_le input;
                     (reserved_byte :: u8, input) \<leftarrow> ifstream_read_le input;
                     (reserved_word :: u16, input) \<leftarrow> ifstream_read_le input;
                     (buckets, input) \<leftarrow> ifstream_read_le input;
                     (postings_count, input) \<leftarrow> ifstream_read_le input;
                     Some (version, bits, buckets, postings_count, input) }))"

definition prefix_open :: "filesystem \<Rightarrow> prefix_postings \<Rightarrow> unit result \<times> prefix_postings" where
  "prefix_open fs xp =
     (case ifstream_open (xp_path xp) fs of
        None \<Rightarrow> (unexpected Io_Failure, xp)
      | Some input \<Rightarrow>
          (case read_prefix_header input of
             None \<Rightarrow> (unexpected Schema_Mismatch, xp)
           | Some (version, bits, buckets, postings_count, input) \<Rightarrow>
               (if version \<noteq> 1 \<or> bits \<noteq> xp_prefix_bits xp \<or> \<not> valid_prefix_bits bits
                   \<or> buckets \<noteq> push_bit (unat bits) 1
                then (unexpected Schema_Mismatch, xp)
                else case read_words (unat buckets + 1) input of
                    (offsets, None) \<Rightarrow>
                      (unexpected Schema_Mismatch, xp\<lparr>xp_offsets := pad_zeros (unat buckets + 1) offsets\<rparr>)
                  | (offsets, Some input) \<Rightarrow>
                      (let xp = xp\<lparr>xp_offsets := offsets\<rparr> in
                       if hd offsets \<noteq> 0 \<or> last offsets \<noteq> postings_count \<or> \<not> sorted offsets
                       then (unexpected Schema_Mismatch, xp)
                       else case read_words (unat postings_count) input of
                           (postings, None) \<Rightarrow>
                             (unexpected Schema_Mismatch, xp\<lparr>xp_postings := pad_zeros (unat postings_count) postings\<rparr>)
                         | (postings, Some input) \<Rightarrow> (Inr (), xp\<lparr>xp_postings := postings\<rparr>)))))"

definition candidates :: "prefix_postings \<Rightarrow> u64 \<Rightarrow> u32 list result option" where
  "candidates xp hash =
     (if xp_offsets xp = [] then Some (unexpected Invalid_Argument)
      else let prefix_value = unat (prefix_of (xp_prefix_bits xp) hash) in
        if prefix_value + 1 \<ge> length (xp_offsets xp) then None
        else let begin = unat (xp_offsets xp ! prefix_value); finish = unat (xp_offsets xp ! (prefix_value + 1)) in
          if begin > finish \<or> finish > length (xp_postings xp) then None
          else Some (Inr (take (finish - begin) (drop begin (xp_postings xp)))))"

end
