(* ===== verification/Prefix_Correct.thy ===== *)
theory Prefix_Correct
  imports Prefix_Postings Postings_Correct
begin

text \<open>
  Correctness of the hash-prefix sidecar: whichever way \<open>finalize\<close> takes, the file it
  writes opens, and the candidates of a hash are exactly the games with a position in the
  hash's bucket.
\<close>

section \<open>What is written\<close>

lemma ofstream_write_Some:
  "os_ok (ofstream_write bs os) \<Longrightarrow> ofstream_write bs os = os\<lparr>os_data := os_data os @ bs\<rparr>"
  by (auto simp: ofstream_write_def split: if_splits)

lemma put_le_Some: "put_le v os = Some os' \<Longrightarrow> os' = os\<lparr>os_data := os_data os @ write_little_endian v\<rparr>"
  by (auto simp: put_le_def Let_def ofstream_write_Some split: if_splits)

lemma put_le_total: "os_ok os \<Longrightarrow> os_quota os = None \<Longrightarrow> put_le v os = Some (os\<lparr>os_data := os_data os @ write_little_endian v\<rparr>)"
  by (simp add: put_le_def ofstream_write_def)

abbreviation le_bytes :: "'a::len word list \<Rightarrow> bytes" where
  "le_bytes vs \<equiv> concat (map write_little_endian vs)"

lemma put_all_le_Some: "put_all_le vs os = Some os' \<Longrightarrow> os' = os\<lparr>os_data := os_data os @ le_bytes vs\<rparr>"
proof (induction vs arbitrary: os)
  case (Cons v vs)
  then obtain os1 where "put_le v os = Some os1" "put_all_le vs os1 = Some os'" by (auto split: Option.bind_splits)
  then show ?case using Cons.IH [of os1] put_le_Some [of v os os1] by simp
qed simp

lemma put_all_le_total:
  "os_ok os \<Longrightarrow> os_quota os = None \<Longrightarrow> put_all_le vs os = Some (os\<lparr>os_data := os_data os @ le_bytes vs\<rparr>)"
  by (induction vs arbitrary: os) (simp_all add: put_le_total)

definition prefix_record_bytes :: "prefix_record \<Rightarrow> bytes" where
  "prefix_record_bytes r = write_little_endian (xr_prefix r) @ write_little_endian (xr_game_key r)"

definition prefix_run_bytes :: "prefix_record list \<Rightarrow> bytes" where
  "prefix_run_bytes run = write_little_endian (of_nat (length run) :: u64) @ concat (map prefix_record_bytes run)"

lemma write_prefix_records_Some:
  "write_prefix_records rs os = Some os' \<Longrightarrow> os' = os\<lparr>os_data := os_data os @ concat (map prefix_record_bytes rs)\<rparr>"
proof (induction rs arbitrary: os)
  case (Cons r rs)
  then obtain os1 os2 where "put_le (xr_prefix r) os = Some os1" "put_le (xr_game_key r) os1 = Some os2"
      "write_prefix_records rs os2 = Some os'"
    by (auto split: Option.bind_splits)
  then show ?case
    by (auto simp: prefix_record_bytes_def dest!: Cons.IH put_le_Some)
qed simp

lemma write_prefix_records_total:
  "os_ok os \<Longrightarrow> os_quota os = None \<Longrightarrow>
     write_prefix_records rs os = Some (os\<lparr>os_data := os_data os @ concat (map prefix_record_bytes rs)\<rparr>)"
  by (induction rs arbitrary: os) (simp_all add: put_le_total prefix_record_bytes_def)

definition prefix_header :: "u8 \<Rightarrow> u64 \<Rightarrow> bytes" where
  "prefix_header bits n = prefix_magic @ write_little_endian (1 :: u32) @ write_little_endian bits
     @ write_little_endian (0 :: u8) @ write_little_endian (0 :: u16)
     @ write_little_endian (of_nat (bucket_count bits) :: u64) @ write_little_endian n"

lemma write_prefix_header_Some:
  assumes "write_prefix_header bits n os = Some os'"
  shows "os' = os\<lparr>os_data := os_data os @ prefix_header bits n\<rparr>"
proof -
  have ok: "os_ok (ofstream_write prefix_magic os)" using assms by (auto simp: write_prefix_header_def Let_def split: if_splits)
  from assms ofstream_write_Some [OF ok] ok show ?thesis
    by (auto simp: write_prefix_header_def Let_def prefix_header_def split: Option.bind_splits dest!: put_le_Some)
qed

lemma write_prefix_header_total:
  "os_ok os \<Longrightarrow> os_quota os = None \<Longrightarrow> write_prefix_header bits n os = Some (os\<lparr>os_data := os_data os @ prefix_header bits n\<rparr>)"
  by (simp add: write_prefix_header_def prefix_header_def Let_def put_le_total ofstream_write_def)

section \<open>Buckets\<close>

text \<open>The number of records before bucket \<open>i\<close> and the offsets of all buckets.\<close>
definition before_bucket :: "prefix_record list \<Rightarrow> nat \<Rightarrow> nat" where
  "before_bucket rs i = length (filter (\<lambda>r. unat (xr_prefix r) < i) rs)"

definition bucket_size :: "prefix_record list \<Rightarrow> nat \<Rightarrow> nat" where
  "bucket_size rs i = length (filter (\<lambda>r. unat (xr_prefix r) = i) rs)"

definition offsets_of :: "u8 \<Rightarrow> prefix_record list \<Rightarrow> u64 list" where
  "offsets_of bits rs = map (\<lambda>i. of_nat (before_bucket rs i)) [0..<bucket_count bits + 1]"

lemma before_bucket_Suc: "before_bucket rs (Suc i) = before_bucket rs i + bucket_size rs i"
  by (induction rs) (auto simp: before_bucket_def bucket_size_def)

lemma before_bucket_0 [simp]: "before_bucket rs 0 = 0"
  by (simp add: before_bucket_def)

lemma before_bucket_mono: "i \<le> j \<Longrightarrow> before_bucket rs i \<le> before_bucket rs j"
  by (induction j) (auto simp: before_bucket_Suc le_Suc_eq)

lemma before_bucket_le: "before_bucket rs i \<le> length rs"
  by (simp add: before_bucket_def)

lemma before_bucket_all: "\<forall>r\<in>set rs. unat (xr_prefix r) < n \<Longrightarrow> before_bucket rs n = length rs"
  by (simp add: before_bucket_def)

lemma running_sum_buckets:
  "running_sum (of_nat (before_bucket rs k)) (map (\<lambda>i. of_nat (bucket_size rs i)) [k..<k + n])
     = map (\<lambda>i. of_nat (before_bucket rs i)) [k + 1..<k + n + 1]"
proof (induction n arbitrary: k)
  case (Suc n)
  have "[k..<k + Suc n] = k # [Suc k..<Suc k + n]" "[k + 1..<k + Suc n + 1] = Suc k # [Suc k + 1..<Suc k + n + 1]"
    by (simp_all add: upt_rec)
  moreover have "(of_nat (before_bucket rs k) + of_nat (bucket_size rs k) :: u64) = of_nat (before_bucket rs (Suc k))"
    by (simp add: before_bucket_Suc)
  ultimately show ?case using Suc.IH [of "Suc k"] by simp
qed simp

lemma increment_counts:
  assumes "\<forall>r\<in>set rs. unat (xr_prefix r) < n"
  shows "fold (\<lambda>item. increment_at (unat (xr_prefix item))) rs (replicate n 0) = map (\<lambda>i. of_nat (bucket_size rs i)) [0..<n]"
  using assms
proof (induction rs rule: rev_induct)
  case Nil
  then show ?case by (simp add: bucket_size_def map_replicate_const)
next
  case (snoc r rs)
  then have IH: "fold (\<lambda>item. increment_at (unat (xr_prefix item))) rs (replicate n 0) = map (\<lambda>i. of_nat (bucket_size rs i)) [0..<n]"
    and r: "unat (xr_prefix r) < n" by simp_all
  have "fold (\<lambda>item. increment_at (unat (xr_prefix item))) (rs @ [r]) (replicate n 0)
      = increment_at (unat (xr_prefix r)) (map (\<lambda>i. of_nat (bucket_size rs i)) [0..<n])"
    by (simp add: IH)
  also have "\<dots> = map (\<lambda>i. of_nat (bucket_size (rs @ [r]) i)) [0..<n]"
    by (rule nth_equalityI) (use r in \<open>auto simp: increment_at_def nth_list_update bucket_size_def\<close>)
  finally show ?case .
qed

lemma increment_counts_shifted:
  "fold (\<lambda>item. increment_at (unat (xr_prefix item) + 1)) rs (x # xs)
     = x # fold (\<lambda>item. increment_at (unat (xr_prefix item))) rs xs"
  by (induction rs arbitrary: xs) (simp_all add: increment_at_def)

lemma offsets_running:
  assumes "\<forall>r\<in>set rs. unat (xr_prefix r) < bucket_count bits"
  shows "0 # running_sum 0 (fold (\<lambda>item. increment_at (unat (xr_prefix item))) rs (replicate (bucket_count bits) 0)) = offsets_of bits rs"
proof -
  have "[0..<bucket_count bits + 1] = 0 # [1..<bucket_count bits + 1]" by (simp add: upt_rec)
  then show ?thesis
    using increment_counts [OF assms] running_sum_buckets [of rs 0 "bucket_count bits"] by (simp add: offsets_of_def)
qed

lemma length_offsets_of [simp]: "length (offsets_of bits rs) = bucket_count bits + 1"
  by (simp add: offsets_of_def)

lemma nth_offsets_of: "i \<le> bucket_count bits \<Longrightarrow> offsets_of bits rs ! i = of_nat (before_bucket rs i)"
  by (simp add: offsets_of_def nth_append)

lemma unat_before_bucket: "length rs < 2 ^ 64 \<Longrightarrow> unat (of_nat (before_bucket rs i) :: u64) = before_bucket rs i"
  using before_bucket_le [of rs i] by (intro unat_of_nat_less) simp

text \<open>In a sorted list the bucket is a slice.\<close>
lemma sorted_prefix_le: "sorted (r # rs) \<Longrightarrow> s \<in> set rs \<Longrightarrow> xr_prefix r \<le> xr_prefix s"
  by (auto simp: less_eq_prefix_record_def less_prefix_record_def)

lemma bucket_slice:
  assumes "sorted rs"
  shows "take (bucket_size rs i) (drop (before_bucket rs i) rs) = filter (\<lambda>r. unat (xr_prefix r) = i) rs"
  using assms
proof (induction rs)
  case (Cons r rs)
  have le: "xr_prefix r \<le> xr_prefix s" if "s \<in> set rs" for s using sorted_prefix_le [OF Cons.prems that] .
  consider "unat (xr_prefix r) < i" | "unat (xr_prefix r) = i" | "unat (xr_prefix r) > i" by linarith
  then show ?case
  proof cases
    case 1
    then show ?thesis using Cons by (simp add: before_bucket_def bucket_size_def)
  next
    case 2
    have "unat (xr_prefix s) \<ge> i" if "s \<in> set rs" for s using le [OF that] 2 by (simp add: word_le_nat_alt)
    then have "before_bucket (r # rs) i = 0" "before_bucket rs i = 0"
      using 2 by (auto simp: before_bucket_def filter_empty_conv not_less)
    then show ?thesis using Cons 2 by (simp add: bucket_size_def)
  next
    case 3
    have gt: "unat (xr_prefix s) > i" if "s \<in> set rs" for s using le [OF that] 3 by (simp add: word_le_nat_alt)
    then have "filter (\<lambda>s. unat (xr_prefix s) = i) (r # rs) = []" using 3 by (auto simp: filter_empty_conv)
    then show ?thesis by (simp add: bucket_size_def)
  qed
qed (simp add: bucket_size_def)

lemma prefix_of_bound:
  assumes "valid_prefix_bits bits"
  shows "unat (prefix_of bits hash) < bucket_count bits"
proof -
  have b: "0 < unat bits" "unat bits \<le> 24" using assms by (auto simp: valid_prefix_bits_def word_less_nat_alt word_le_nat_alt)
  have "unat (drop_bit (64 - unat bits) hash) = unat hash div 2 ^ (64 - unat bits)"
    by (simp add: unat_drop_bit_eq flip: drop_bit_eq_div)
  also have "\<dots> < 2 ^ unat bits"
  proof (rule less_mult_imp_div_less)
    have "(2 :: nat) ^ unat bits * 2 ^ (64 - unat bits) = 2 ^ 64" using b by (simp flip: power_add)
    then show "unat hash < 2 ^ unat bits * 2 ^ (64 - unat bits)" using unat_less_2p [of hash] by simp
  qed
  finally have lt: "unat (drop_bit (64 - unat bits) hash) < 2 ^ unat bits" .
  have "unat (ucast (drop_bit (64 - unat bits) hash) :: u32) \<le> unat (drop_bit (64 - unat bits) hash)"
    by (simp add: unsigned_ucast_eq take_bit_nat_less_eq_self)
  then show ?thesis using lt by (simp add: prefix_of_def bucket_count_def)
qed

section \<open>Opening the file\<close>

definition prefix_file :: "u8 \<Rightarrow> prefix_record list \<Rightarrow> bytes" where
  "prefix_file bits rs = prefix_header bits (of_nat (length rs)) @ le_bytes (offsets_of bits rs) @ le_bytes (map xr_game_key rs)"

lemma length_le_bytes [simp]: "length (le_bytes (vs :: 'a::len word list)) = LENGTH('a) div 8 * length vs"
  by (induction vs) (simp_all add: algebra_simps)

lemma read_words_at:
  assumes "located data pos (le_bytes (vs :: 'a::len word list) @ rest)" and "8 dvd LENGTH('a)" and "LENGTH('a) \<le> 64"
    and "0 < LENGTH('a) div 8"
  shows "read_words (length vs) (stream_at data pos) = (vs, Some (stream_at data (pos + length (le_bytes vs))))"
  using assms(1)
proof (induction vs arbitrary: pos)
  case (Cons v vs)
  have l: "located data pos (write_little_endian v @ le_bytes vs @ rest)" using Cons.prems by simp
  have "ifstream_read_le (stream_at data pos) = Some (v, stream_at data (pos + LENGTH('a) div 8))"
    using ifstream_read_le_at [OF l] assms(2,3) by simp
  then show ?case
    using Cons.IH [OF located_append [OF l, simplified]] by (simp add: algebra_simps)
qed simp

lemma read_prefix_header_at:
  assumes "located data 0 (prefix_header bits n @ rest)"
  shows "read_prefix_header (stream_at data 0) = Some (1, bits, of_nat (bucket_count bits), n, stream_at data 32)"
proof -
  have l0: "located data 0 (prefix_magic @ write_little_endian (1 :: u32) @ write_little_endian bits
     @ write_little_endian (0 :: u8) @ write_little_endian (0 :: u16)
     @ write_little_endian (of_nat (bucket_count bits) :: u64) @ write_little_endian n @ rest)"
    using assms by (simp add: prefix_header_def)
  have m: "length prefix_magic = 8" by (simp add: prefix_magic_def)
  note r0 = ifstream_read_at [OF l0, unfolded m, simplified]
  note l1 = located_append [OF l0, unfolded m, simplified]
  note r1 = ifstream_read_le_at [OF l1, simplified] note l2 = located_append [OF l1, simplified]
  note r2 = ifstream_read_le_at [OF l2, simplified] note l3 = located_append [OF l2, simplified]
  note r3 = ifstream_read_le_at [OF l3, simplified] note l4 = located_append [OF l3, simplified]
  note r4 = ifstream_read_le_at [OF l4, simplified] note l5 = located_append [OF l4, simplified]
  note r5 = ifstream_read_le_at [OF l5, simplified] note l6 = located_append [OF l5, simplified]
  note r6 = ifstream_read_le_at [OF l6, simplified]
  show ?thesis by (simp add: read_prefix_header_def r0 r1 r2 r3 r4 r5 r6)
qed

definition opened_prefix :: "u8 \<Rightarrow> prefix_record list \<Rightarrow> prefix_postings \<Rightarrow> prefix_postings" where
  "opened_prefix bits rs xp = xp\<lparr>xp_offsets := offsets_of bits rs, xp_postings := map xr_game_key rs\<rparr>"

lemma sorted_offsets_of: "length rs < 2 ^ 64 \<Longrightarrow> sorted (offsets_of bits rs)"
  unfolding offsets_of_def sorted_map
  by (rule sorted_wrt_mono_rel [OF _ sorted_wrt_upt])
    (simp add: word_le_nat_alt unat_before_bucket before_bucket_mono)

lemma prefix_open_file:
  assumes "fs_files fs (xp_path xp) = Some (prefix_file bits rs)" and "\<not> fs_fault fs (Open_Read (xp_path xp))"
    and "xp_prefix_bits xp = bits" and "valid_prefix_bits bits" and "length rs < 2 ^ 64"
    and "\<forall>r\<in>set rs. unat (xr_prefix r) < bucket_count bits"
  shows "prefix_open fs xp = (Inr (), opened_prefix bits rs xp)"
proof -
  have b24: "unat bits \<le> 24" using assms(4) by (simp add: valid_prefix_bits_def word_le_nat_alt)
  have "(2 :: nat) ^ unat bits \<le> 2 ^ 24" by (rule power_increasing) (use b24 in simp_all)
  then have small: "bucket_count bits < 2 ^ 64" by (simp add: bucket_count_def)
  have buckets: "(of_nat (bucket_count bits) :: u64) = push_bit (unat bits) 1" by (simp add: bucket_count_def push_bit_eq_mult)
  have ub: "unat (of_nat (bucket_count bits) :: u64) = bucket_count bits" using small by (simp add: unat_of_nat_less)
  let ?d = "prefix_file bits rs"
  have l0: "located ?d 0 (prefix_header bits (of_nat (length rs)) @ le_bytes (offsets_of bits rs) @ le_bytes (map xr_game_key rs) @ [])"
    by (simp add: prefix_file_def)
  have hl: "length (prefix_header bits (of_nat (length rs))) = 32" by (simp add: prefix_header_def prefix_magic_def)
  note l1 = located_append [OF l0, unfolded hl]
  have "length (offsets_of bits rs) = unat (of_nat (bucket_count bits) :: u64) + 1" by (simp add: ub)
  then have r1: "read_words (unat (of_nat (bucket_count bits) :: u64) + 1) (stream_at ?d 32)
      = (offsets_of bits rs, Some (stream_at ?d (32 + length (le_bytes (offsets_of bits rs)))))"
    using read_words_at [OF l1 [simplified]] by simp
  note l2 = located_append [OF l1]
  have ul: "unat (of_nat (length rs) :: u64) = length rs" using assms(5) by (simp add: unat_of_nat_less)
  have r2: "\<exists>input. read_words (unat (of_nat (length rs) :: u64)) (stream_at ?d (32 + length (le_bytes (offsets_of bits rs))))
      = (map xr_game_key rs, Some input)"
    using read_words_at [OF l2 [simplified add_0]] ul by simp
  have ne: "offsets_of bits rs \<noteq> []" by (metis length_offsets_of add_is_0 list.size(3) one_neq_zero)
  have hd: "hd (offsets_of bits rs) = 0" using ne nth_offsets_of [of 0 bits rs] by (simp add: hd_conv_nth)
  have last: "last (offsets_of bits rs) = of_nat (length rs)"
    using ne nth_offsets_of [of "bucket_count bits" bits rs] before_bucket_all [OF assms(6)] by (simp add: last_conv_nth)
  have op: "ifstream_open (xp_path xp) fs = Some (stream_at ?d 0)" using assms(1,2) by (simp add: ifstream_open_def)
  show ?thesis
    using read_prefix_header_at [OF l0] r1 r2 hd last sorted_offsets_of [OF assms(5)] assms(3,4) buckets
    by (auto simp: prefix_open_def op opened_prefix_def)
qed

lemma candidates_opened:
  assumes "sorted rs" and "length rs < 2 ^ 64" and "xp_prefix_bits xp = bits" and "valid_prefix_bits bits"
  shows "candidates (opened_prefix bits rs xp) hash
     = Some (Inr (map xr_game_key (filter (\<lambda>r. xr_prefix r = prefix_of bits hash) rs)))"
proof -
  let ?p = "unat (prefix_of bits hash)"
  have p: "?p < bucket_count bits" by (rule prefix_of_bound [OF assms(4)])
  have o: "unat (offsets_of bits rs ! ?p) = before_bucket rs ?p" "unat (offsets_of bits rs ! (?p + 1)) = before_bucket rs ?p + bucket_size rs ?p"
    using p nth_offsets_of [of ?p bits rs] nth_offsets_of [of "Suc ?p" bits rs] unat_before_bucket [OF assms(2)]
    by (simp_all del: of_nat_add flip: before_bucket_Suc)
  have le: "before_bucket rs ?p + bucket_size rs ?p \<le> length rs" using before_bucket_le [of rs "Suc ?p"] by (simp add: before_bucket_Suc)
  have ne: "offsets_of bits rs \<noteq> []" by (metis length_offsets_of add_is_0 list.size(3) one_neq_zero)
  have "take (bucket_size rs ?p) (drop (before_bucket rs ?p) (map xr_game_key rs))
      = map xr_game_key (filter (\<lambda>r. unat (xr_prefix r) = ?p) rs)"
    using bucket_slice [OF assms(1), of ?p] by (simp add: take_map drop_map)
  moreover have "(\<lambda>r. unat (xr_prefix r) = ?p) = (\<lambda>r. xr_prefix r = prefix_of bits hash)"
    by (simp add: fun_eq_iff word_unat_eq_iff)
  ultimately show ?thesis
    using o le p ne assms(3) by (simp add: candidates_def opened_prefix_def Let_def)
qed

section \<open>Collecting the records\<close>

definition row_prefix :: "u8 \<Rightarrow> position_row \<Rightarrow> prefix_record" where
  "row_prefix bits row = Prefix_Record (prefix_of bits (pr_zobrist_hash row)) (pr_game_id row)"

lemma sort_unique_set: "set (sort_unique xs) = set xs" "sorted (sort_unique xs)" "distinct (sort_unique xs)"
proof -
  show "set (sort_unique xs) = set xs" "sorted (sort_unique xs)" by (simp_all add: sort_unique_def sorted_remdups_adj)
  have "distinct (remdups_adj ys)" if "sorted ys" for ys :: "'a list"
    using that by (induction ys rule: remdups_adj.induct) (auto simp: order.strict_iff_order)
  then show "distinct (sort_unique xs)" by (simp add: sort_unique_def)
qed

lemma sort_unique_eqI: "set xs = set ys \<Longrightarrow> sort_unique xs = sort_unique ys"
  by (rule sorted_distinct_set_unique) (simp_all add: sort_unique_set)

text \<open>The spilled runs and the buffer hold the records of the rows handed in so far.\<close>
definition prefix_runs :: "prefix_record list list \<Rightarrow> filesystem \<Rightarrow> prefix_postings \<Rightarrow> bool" where
  "prefix_runs runs fs xp \<longleftrightarrow> xp_spill_paths xp = map (spill_path (xp_path xp)) [0..<length runs]
     \<and> (\<forall>i<length runs. fs_files fs (spill_path (xp_path xp) i) = Some (prefix_run_bytes (runs ! i))
          \<and> sorted (runs ! i) \<and> distinct (runs ! i) \<and> runs ! i \<noteq> [])"

definition prefix_inv :: "position_row list \<Rightarrow> filesystem \<Rightarrow> prefix_postings \<Rightarrow> bool" where
  "prefix_inv rows fs xp \<longleftrightarrow>
     (\<exists>runs. prefix_runs runs fs xp \<and> set (concat runs) \<union> set (xp_records xp) = row_prefix (xp_prefix_bits xp) ` set rows)"

definition same_sidecar :: "prefix_postings \<Rightarrow> prefix_postings \<Rightarrow> bool" where
  "same_sidecar xp xp' \<longleftrightarrow> xp_path xp' = xp_path xp \<and> xp_prefix_bits xp' = xp_prefix_bits xp
     \<and> xp_spill_threshold xp' = xp_spill_threshold xp"

lemma prefix_inv_new: "prefix_inv [] fs (new_prefix_postings path bits n)"
  unfolding prefix_inv_def by (intro exI [of _ "[]"]) (simp add: prefix_runs_def new_prefix_postings_def)

lemma prefix_spill_Inr:
  assumes "prefix_spill_current_buffer fs xp = (Inr u, fs', xp')" and "prefix_inv rows fs xp"
  shows "prefix_inv rows fs' xp' \<and> xp_records xp' = [] \<and> same_sidecar xp xp' \<and> fs_same_device fs fs'"
proof (cases "xp_records xp = []")
  case True
  then show ?thesis using assms by (simp add: prefix_spill_current_buffer_def same_sidecar_def)
next
  case False
  obtain runs where runs: "prefix_runs runs fs xp"
      and recs: "set (concat runs) \<union> set (xp_records xp) = row_prefix (xp_prefix_bits xp) ` set rows"
    using assms(2) by (auto simp: prefix_inv_def)
  let ?run = "sort_unique (xp_records xp)" and ?t = "spill_path (xp_path xp) (length runs)"
  have n: "length (xp_spill_paths xp) = length runs" using runs by (simp add: prefix_runs_def)
  obtain os1 os2 where nf: "\<not> fs_fault fs (Open_Write ?t)"
      and w1: "put_le (of_nat (length ?run) :: u64) \<lparr>os_path = ?t, os_data = [], os_ok = True, os_quota = fs_quota fs ?t\<rparr> = Some os1"
      and w2: "write_prefix_records ?run os1 = Some os2"
      and fs': "fs' = snd (ofstream_close os2 (fs\<lparr>fs_files := (fs_files fs)(?t := Some [])\<rparr>))"
      and xp': "xp' = xp\<lparr>xp_spill_paths := xp_spill_paths xp @ [?t], xp_records := []\<rparr>"
    using assms(1) False n
    by (auto simp: prefix_spill_current_buffer_def Let_def ofstream_open_def split: if_splits option.splits Option.bind_splits)
  have os2: "os_path os2 = ?t" "os_data os2 = prefix_run_bytes ?run"
    using put_le_Some [OF w1] write_prefix_records_Some [OF w2] by (simp_all add: prefix_run_bytes_def)
  have files: "fs_files fs' = (fs_files fs)(?t := Some (prefix_run_bytes ?run))"
    by (simp add: fs' ofstream_close_def os2 fun_eq_iff)
  have "prefix_runs (runs @ [?run]) fs' xp'"
    using runs False by (auto simp: prefix_runs_def xp' files nth_append less_Suc_eq sort_unique_set
        simp flip: set_empty2 dest: arg_cong [of _ _ set])
  moreover have "set (concat (runs @ [?run])) \<union> set (xp_records xp') = row_prefix (xp_prefix_bits xp') ` set rows"
    using recs by (simp add: xp' sort_unique_set)
  ultimately have "prefix_inv rows fs' xp'" unfolding prefix_inv_def by blast
  then show ?thesis by (simp add: xp' same_sidecar_def fs_same_device_def fs' ofstream_close_def)
qed

lemma prefix_spill_total:
  assumes "fs_no_faults fs"
  shows "\<exists>fs' xp'. prefix_spill_current_buffer fs xp = (Inr (), fs', xp')"
  using assms
  by (simp add: prefix_spill_current_buffer_def Let_def ofstream_open_def fs_no_faults_def put_le_total write_prefix_records_total)

lemma prefix_add_record:
  "prefix_inv rows fs xp \<Longrightarrow>
     prefix_inv (rows @ [row]) fs (xp\<lparr>xp_records := xp_records xp @ [row_prefix (xp_prefix_bits xp) row]\<rparr>)"
  unfolding prefix_inv_def prefix_runs_def by (elim exE) (rule exI, auto)

lemma prefix_append_rows_Inr:
  assumes "prefix_append_rows batch fs xp = (Inr u, fs', xp')" and "prefix_inv rows fs xp"
  shows "prefix_inv (rows @ batch) fs' xp' \<and> same_sidecar xp xp' \<and> fs_same_device fs fs'"
  using assms
proof (induction batch arbitrary: rows fs xp)
  case (Cons row batch)
  let ?xp = "xp\<lparr>xp_records := xp_records xp @ [row_prefix (xp_prefix_bits xp) row]\<rparr>"
  note add = prefix_add_record [OF Cons.prems(2), of row]
  have same: "same_sidecar xp ?xp" by (simp add: same_sidecar_def)
  have unf: "prefix_append_rows (row # batch) fs xp =
      (if length (xp_records ?xp) \<ge> xp_spill_threshold ?xp
       then case prefix_spill_current_buffer fs ?xp of
           (Inl err, fs, xp) \<Rightarrow> (Inl err, fs, xp) | (Inr _, fs, xp) \<Rightarrow> prefix_append_rows batch fs xp
       else prefix_append_rows batch fs ?xp)"
    by (simp add: Let_def row_prefix_def)
  show ?case
  proof (cases "length (xp_records ?xp) \<ge> xp_spill_threshold ?xp")
    case True
    obtain fs1 xp1 where sp: "prefix_spill_current_buffer fs ?xp = (Inr (), fs1, xp1)"
        and rest: "prefix_append_rows batch fs1 xp1 = (Inr u, fs', xp')"
      using Cons.prems(1) True unfolding unf by (auto split: prod.splits sum.splits)
    have s: "prefix_inv (rows @ [row]) fs1 xp1" "same_sidecar ?xp xp1" "fs_same_device fs fs1"
      using prefix_spill_Inr [OF sp add] by simp_all
    from Cons.IH [OF rest s(1)] s(2,3) show ?thesis by (simp add: same_sidecar_def fs_same_device_def)
  next
    case False
    then have rest: "prefix_append_rows batch fs ?xp = (Inr u, fs', xp')" using Cons.prems(1) unfolding unf by (simp del: append_is_Nil_conv)
    from Cons.IH [OF rest add] show ?thesis by (simp add: same_sidecar_def)
  qed
qed (simp add: same_sidecar_def)

text \<open>The buffer stays below the threshold between rows.\<close>
lemma prefix_append_rows_bounded:
  assumes "prefix_append_rows batch fs xp = (Inr u, fs', xp')" and "length (xp_records xp) < max 1 (xp_spill_threshold xp)"
  shows "length (xp_records xp') < max 1 (xp_spill_threshold xp)"
  using assms
proof (induction batch arbitrary: fs xp)
  case (Cons row batch)
  let ?xp = "xp\<lparr>xp_records := xp_records xp @ [row_prefix (xp_prefix_bits xp) row]\<rparr>"
  have step: "xp_records xp1 = [] \<and> xp_spill_threshold xp1 = xp_spill_threshold xp"
    if "prefix_spill_current_buffer fs ?xp = (Inr (), fs1, xp1)" for fs1 xp1
    using that by (auto simp: prefix_spill_current_buffer_def Let_def split: option.splits prod.splits Option.bind_splits)
  obtain r fs1 xp1 where sp: "prefix_spill_current_buffer fs ?xp = (r, fs1, xp1)" by (metis prod_cases3)
  show ?case
  proof (cases "xp_spill_threshold xp \<le> Suc (length (xp_records xp))")
    case True
    then have r: "r = Inr ()" and rest: "prefix_append_rows batch fs1 xp1 = (Inr u, fs', xp')"
      using Cons.prems(1) sp by (auto simp: Let_def row_prefix_def split: sum.splits)
    from Cons.IH [OF rest] step sp r show ?thesis by simp
  next
    case False
    then have rest: "prefix_append_rows batch fs ?xp = (Inr u, fs', xp')" using Cons.prems(1) by (simp add: Let_def row_prefix_def)
    from Cons.IH [OF rest] False show ?thesis by simp
  qed
qed simp

lemma prefix_append_rows_total:
  "fs_no_faults fs \<Longrightarrow> prefix_inv rows fs xp \<Longrightarrow> \<exists>fs' xp'. prefix_append_rows batch fs xp = (Inr (), fs', xp')"
proof (induction batch arbitrary: rows fs xp)
  case (Cons row batch)
  let ?xp = "xp\<lparr>xp_records := xp_records xp @ [row_prefix (xp_prefix_bits xp) row]\<rparr>"
  note add = prefix_add_record [OF Cons.prems(2), of row]
  obtain fs1 xp1 where sp: "prefix_spill_current_buffer fs ?xp = (Inr (), fs1, xp1)" using prefix_spill_total [OF Cons.prems(1)] by blast
  have s: "prefix_inv (rows @ [row]) fs1 xp1" "fs_no_faults fs1"
    using prefix_spill_Inr [OF sp add] fs_no_faults_same Cons.prems(1) by auto
  from Cons.IH [OF s(2,1)] Cons.IH [OF Cons.prems(1) add] sp show ?case by (auto simp: Let_def row_prefix_def)
qed simp

section \<open>Merging the runs\<close>

definition run_cursor_at :: "prefix_record list \<Rightarrow> run_cursor \<Rightarrow> bool" where
  "run_cursor_at run c \<longleftrightarrow> length run < 2 ^ 64 \<and> cur_remaining c = of_nat (length run)
     \<and> (\<exists>data pos. rc_input c = stream_at data pos \<and> located data pos (concat (map prefix_record_bytes run)))"

lemma fetch_prefix_record_at:
  assumes "run_cursor_at (r # run) c"
  shows "\<exists>c'. fetch_prefix_record c = Fetched c' \<and> rc_current c' = r \<and> cur_remaining c' = cur_remaining c
     \<and> run_cursor_at run (c'\<lparr>cur_remaining := cur_remaining c - 1\<rparr>)"
proof -
  obtain data pos where i: "rc_input c = stream_at data pos"
      and l0: "located data pos (write_little_endian (xr_prefix r) @ write_little_endian (xr_game_key r)
        @ concat (map prefix_record_bytes run))"
    using assms by (auto simp: run_cursor_at_def prefix_record_bytes_def)
  note r0 = ifstream_read_le_at [OF l0, simplified] and l1 = located_append [OF l0, simplified]
  note r1 = ifstream_read_le_at [OF l1, simplified] and l2 = located_append [OF l1, simplified]
  have "fetch_prefix_record c = Fetched (c\<lparr>rc_input := stream_at data (pos + 4 + 4), rc_current := r\<rparr>)"
    by (cases r) (simp add: fetch_prefix_record_def i r0 r1)
  moreover have "run_cursor_at run (c\<lparr>rc_input := stream_at data (pos + 4 + 4), rc_current := r, cur_remaining := cur_remaining c - 1\<rparr>)"
    using assms l2 by (auto simp: run_cursor_at_def)
  ultimately show ?thesis by simp
qed

lemma run_cursor_yields: "run_cursor_at run c \<Longrightarrow> yields fetch_prefix_record rc_current c run"
proof (induction run arbitrary: c)
  case Nil
  then have "cur_remaining c = 0" by (simp add: run_cursor_at_def)
  then show ?case by (simp add: advance_def)
next
  case (Cons r run)
  obtain c' where c': "fetch_prefix_record c = Fetched c'" "rc_current c' = r" "cur_remaining c' = cur_remaining c"
      "run_cursor_at run (c'\<lparr>cur_remaining := cur_remaining c - 1\<rparr>)"
    using fetch_prefix_record_at [OF Cons.prems] by blast
  have "cur_remaining c \<noteq> 0"
    using Cons.prems unat_of_nat_less [of "length (r # run)", where 'a = 64] by (auto simp: run_cursor_at_def)
  then show ?case using c' Cons.IH [OF c'(4)] by (auto simp: advance_def)
qed

lemma open_run_cursors_yields:
  assumes "open_run_cursors fs (map (spill_path p) is) = Some cs"
    and "\<forall>i\<in>set is. fs_files fs (spill_path p i) = Some (prefix_run_bytes (runs ! i)) \<and> length (runs ! i) < 2 ^ 64"
  shows "list_all2 (yields fetch_prefix_record rc_current) cs (map ((!) runs) is)"
  using assms
proof (induction "is" arbitrary: cs)
  case (Cons i "is")
  have f: "fs_files fs (spill_path p i) = Some (prefix_run_bytes (runs ! i))" "length (runs ! i) < 2 ^ 64"
    using Cons.prems(2) by simp_all
  have op: "ifstream_open (spill_path p i) fs = Some (stream_at (prefix_run_bytes (runs ! i)) 0)"
    using Cons.prems(1) f(1) by (auto simp: ifstream_open_def split: if_splits)
  have l: "located (prefix_run_bytes (runs ! i)) 0 (write_little_endian (of_nat (length (runs ! i)) :: u64)
      @ concat (map prefix_record_bytes (runs ! i)))"
    by (simp add: prefix_run_bytes_def)
  note rd = ifstream_read_le_at [OF l, simplified]
  let ?c = "\<lparr>cur_remaining = of_nat (length (runs ! i)), rc_input = stream_at (prefix_run_bytes (runs ! i)) 8,
      rc_current = Prefix_Record 0 0\<rparr>"
  obtain cs' where cs: "cs = ?c # cs'" "open_run_cursors fs (map (spill_path p) is) = Some cs'"
    using Cons.prems(1) op rd by auto
  have "run_cursor_at (runs ! i) ?c" using f(2) located_append [OF l] by (auto simp: run_cursor_at_def)
  then show ?case using run_cursor_yields Cons.IH [OF cs(2)] Cons.prems(2) cs(1) by simp
qed simp

lemma open_run_cursors_total:
  assumes "fs_no_faults fs" and "\<forall>i\<in>set is. fs_files fs (spill_path p i) = Some (prefix_run_bytes (runs ! i))"
  shows "\<exists>cs. open_run_cursors fs (map (spill_path p) is) = Some cs"
  using assms(2)
proof (induction "is")
  case (Cons i "is")
  have op: "ifstream_open (spill_path p i) fs = Some (stream_at (prefix_run_bytes (runs ! i)) 0)"
    using assms(1) Cons.prems by (simp add: ifstream_open_def fs_no_faults_def)
  have "located (prefix_run_bytes (runs ! i)) 0 (write_little_endian (of_nat (length (runs ! i)) :: u64)
      @ concat (map prefix_record_bytes (runs ! i)))"
    by (simp add: prefix_run_bytes_def)
  from ifstream_read_le_at [OF this, simplified] show ?case using Cons op by auto
qed simp

text \<open>The state of the merge after the records \<open>xs\<close>, ascending.\<close>
definition merged_prefix :: "ofstream \<Rightarrow> nat \<Rightarrow> prefix_record list \<Rightarrow> prefix_merge" where
  "merged_prefix os n xs =
     \<lparr>xm_scratch = os\<lparr>os_data := os_data os @ le_bytes (map xr_game_key (remdups_adj xs))\<rparr>,
      xm_bucket_counts = fold (\<lambda>item. increment_at (unat (xr_prefix item))) (remdups_adj xs) (replicate n 0),
      xm_total_count = of_nat (length (remdups_adj xs)),
      xm_prev = (if xs = [] then None else Some (last xs))\<rparr>"

lemma remdups_adj_snoc: "remdups_adj (xs @ [x]) = (if xs \<noteq> [] \<and> last xs = x then remdups_adj xs else remdups_adj xs @ [x])"
proof (cases xs rule: rev_cases)
  case (snoc ys y)
  then show ?thesis using remdups_adj_append_two [of ys y x] by auto
qed simp

lemma visit_merged_prefix:
  "visit_prefix_record r (merged_prefix os n xs) = Some st \<Longrightarrow> st = merged_prefix os n (xs @ [r])"
  by (cases "xs \<noteq> [] \<and> last xs = r")
    (auto simp: visit_prefix_record_def merged_prefix_def remdups_adj_snoc dest!: put_le_Some split: if_splits)

lemma visit_merged_prefix_total:
  "os_ok os \<Longrightarrow> os_quota os = None \<Longrightarrow> \<exists>st. visit_prefix_record r (merged_prefix os n xs) = Some st"
  by (simp add: visit_prefix_record_def merged_prefix_def put_le_total)

lemma visit_all_merged_prefix:
  "visit_all visit_prefix_record ys (merged_prefix os n xs) = Some st \<Longrightarrow> st = merged_prefix os n (xs @ ys)"
proof (induction ys arbitrary: xs)
  case (Cons y ys)
  then obtain st1 where st1: "visit_prefix_record y (merged_prefix os n xs) = Some st1" "visit_all visit_prefix_record ys st1 = Some st"
    by (auto split: option.splits)
  then show ?case using Cons.IH [of "xs @ [y]"] visit_merged_prefix [OF st1(1)] by simp
qed simp

lemma visit_all_merged_prefix_total:
  "os_ok os \<Longrightarrow> os_quota os = None \<Longrightarrow> \<exists>st. visit_all visit_prefix_record ys (merged_prefix os n xs) = Some st"
proof (induction ys arbitrary: xs)
  case (Cons y ys)
  obtain st1 where st1: "visit_prefix_record y (merged_prefix os n xs) = Some st1"
    using visit_merged_prefix_total [OF Cons.prems] by blast
  then show ?case using Cons.IH [OF Cons.prems, of "xs @ [y]"] visit_merged_prefix [OF st1] by simp
qed simp

abbreviation scratch_stream :: "filesystem \<Rightarrow> prefix_postings \<Rightarrow> ofstream" where
  "scratch_stream fs xp \<equiv> fresh_stream (prefix_scratch_path (xp_path xp)) fs"

lemma prefix_merge_runs_visits:
  fixes front :: "run_cursor list \<Rightarrow> nat list \<Rightarrow> nat"
  assumes "heap_front front rc_current" and "prefix_runs runs fs xp" and "\<forall>run\<in>set runs. length run < 2 ^ 64"
  shows "prefix_merge_runs front fs xp = (Some st, fs') \<Longrightarrow>
      st = merged_prefix (scratch_stream fs xp) (bucket_count (xp_prefix_bits xp)) (sort (concat runs))
      \<and> fs' = fs\<lparr>fs_files := (fs_files fs)(prefix_scratch_path (xp_path xp) :=
           Some (le_bytes (map xr_game_key (remdups_adj (sort (concat runs))))))\<rparr>"
    and "fs_no_faults fs \<Longrightarrow> \<exists>st fs'. prefix_merge_runs front fs xp = (Some st, fs')"
proof -
  let ?p = "xp_path xp" and ?n = "bucket_count (xp_prefix_bits xp)"
  have paths: "xp_spill_paths xp = map (spill_path ?p) [0..<length runs]"
    and files: "\<forall>i\<in>set [0..<length runs]. fs_files fs (spill_path ?p i) = Some (prefix_run_bytes (runs ! i)) \<and> length (runs ! i) < 2 ^ 64"
    and srt: "\<forall>run\<in>set runs. sorted run"
    using assms(2) assms(3) [rule_format, OF nth_mem] by (auto simp: prefix_runs_def in_set_conv_nth)
  have runs: "map ((!) runs) [0..<length runs] = runs" by (simp add: map_nth)
  have init: "\<lparr>xm_scratch = fresh_stream q fs, xm_bucket_counts = replicate ?n 0, xm_total_count = 0, xm_prev = None\<rparr>
      = merged_prefix (fresh_stream q fs) ?n []" for q
    by (simp add: merged_prefix_def)
  have merge: "\<exists>cs' heap. start_cursors fetch_prefix_record 0 cs = Some (cs', heap)
      \<and> heap_merge front fetch_prefix_record rc_current visit_prefix_record cs' heap (merged_prefix (scratch_stream fs xp) ?n [])
        = visit_all visit_prefix_record (sort (concat runs)) (merged_prefix (scratch_stream fs xp) ?n [])"
    if "open_run_cursors fs (xp_spill_paths xp) = Some cs" for cs
    by (rule heap_front.kway_merge_visits [OF assms(1) open_run_cursors_yields [OF that [unfolded paths] files, unfolded runs] srt])
  show "st = merged_prefix (scratch_stream fs xp) ?n (sort (concat runs))
      \<and> fs' = fs\<lparr>fs_files := (fs_files fs)(prefix_scratch_path ?p :=
           Some (le_bytes (map xr_game_key (remdups_adj (sort (concat runs))))))\<rparr>"
    if m: "prefix_merge_runs front fs xp = (Some st, fs')"
  proof -
    obtain cs where cs: "open_run_cursors fs (xp_spill_paths xp) = Some cs"
      using m by (auto simp: prefix_merge_runs_def split: option.splits Option.bind_splits)
    obtain cs' heap where h: "start_cursors fetch_prefix_record 0 cs = Some (cs', heap)"
        "heap_merge front fetch_prefix_record rc_current visit_prefix_record cs' heap (merged_prefix (scratch_stream fs xp) ?n [])
          = visit_all visit_prefix_record (sort (concat runs)) (merged_prefix (scratch_stream fs xp) ?n [])"
      using merge [OF cs] by blast
    have "visit_all visit_prefix_record (sort (concat runs)) (merged_prefix (scratch_stream fs xp) ?n []) = Some st"
      and fs': "fs' = snd (ofstream_close (xm_scratch st) (create_file (prefix_scratch_path ?p) fs))"
      using m cs h by (auto simp: prefix_merge_runs_def ofstream_open_fresh init split: if_splits option.splits)
    from visit_all_merged_prefix [OF this(1)]
    have st: "st = merged_prefix (scratch_stream fs xp) ?n (sort (concat runs))" by simp
    then show ?thesis by (simp add: fs' merged_prefix_def ofstream_close_def fresh_stream_def create_file_def)
  qed
  show "\<exists>st fs'. prefix_merge_runs front fs xp = (Some st, fs')" if nf: "fs_no_faults fs"
  proof -
    obtain cs where cs: "open_run_cursors fs (xp_spill_paths xp) = Some cs"
      using open_run_cursors_total [OF nf, of "[0..<length runs]" ?p runs] files paths by auto
    have "os_ok (scratch_stream fs xp)" "os_quota (scratch_stream fs xp) = None"
      using nf by (simp_all add: fresh_stream_def fs_no_faults_def)
    from visit_all_merged_prefix_total [OF this]
    obtain st where st: "visit_all visit_prefix_record (sort (concat runs)) (merged_prefix (scratch_stream fs xp) ?n []) = Some st"
      by blast
    obtain cs' heap where "start_cursors fetch_prefix_record 0 cs = Some (cs', heap)"
        "heap_merge front fetch_prefix_record rc_current visit_prefix_record cs' heap (merged_prefix (scratch_stream fs xp) ?n []) = Some st"
      using merge [OF cs] st by auto
    then show ?thesis using cs nf by (simp add: prefix_merge_runs_def ofstream_open_fresh init fs_no_faults_def)
  qed
qed

section \<open>\<open>finalize\<close>\<close>

lemma prefix_scratch_path [simp]:
  "prefix_scratch_path p \<noteq> p" "p \<noteq> prefix_scratch_path p" "prefix_scratch_path p \<noteq> spill_path p i" "spill_path p i \<noteq> prefix_scratch_path p"
  by (auto simp: prefix_scratch_path_def spill_path_def)

lemma row_prefix_bound: "valid_prefix_bits bits \<Longrightarrow> r \<in> row_prefix bits ` rows \<Longrightarrow> unat (xr_prefix r) < bucket_count bits"
  by (auto simp: row_prefix_def prefix_of_bound)

text \<open>The records a finished file holds.\<close>
definition prefix_index :: "u8 \<Rightarrow> position_row list \<Rightarrow> prefix_record list" where
  "prefix_index bits rows = sort_unique (map (row_prefix bits) rows)"

lemma prefix_index_facts:
  "sorted (prefix_index bits rows)" "distinct (prefix_index bits rows)"
  "set (prefix_index bits rows) = row_prefix bits ` set rows" "length (prefix_index bits rows) \<le> length rows"
proof -
  show set: "sorted (prefix_index bits rows)" "distinct (prefix_index bits rows)"
    "set (prefix_index bits rows) = row_prefix bits ` set rows"
    by (simp_all add: prefix_index_def sort_unique_set)
  then show "length (prefix_index bits rows) \<le> length rows"
    by (metis card_image_le card_length distinct_card finite_set le_trans)
qed

lemma finalize_in_memory_Inr:
  assumes "finalize_in_memory fs xp = (Inr u, fs', xp')" and "prefix_inv rows fs xp" and "xp_spill_paths xp = []"
    and "valid_prefix_bits (xp_prefix_bits xp)"
  shows "fs_files fs' (xp_path xp) = Some (prefix_file (xp_prefix_bits xp) (prefix_index (xp_prefix_bits xp) rows))
     \<and> fs_fault fs' = fs_fault fs"
proof -
  let ?bits = "xp_prefix_bits xp" and ?rs = "prefix_index (xp_prefix_bits xp) rows"
  have recs: "set (xp_records xp) = row_prefix ?bits ` set rows"
    using assms(2,3) by (auto simp: prefix_inv_def prefix_runs_def)
  have rs: "sort_unique (xp_records xp) = ?rs" unfolding prefix_index_def by (rule sort_unique_eqI) (simp add: recs)
  have bound: "\<forall>r\<in>set ?rs. unat (xr_prefix r) < bucket_count ?bits"
    using row_prefix_bound [OF assms(4)] prefix_index_facts(3) by blast
  have off: "running_sum 0 (fold (\<lambda>item. increment_at (unat (xr_prefix item) + 1)) ?rs (replicate (bucket_count ?bits + 1) 0)) = offsets_of ?bits ?rs"
    using offsets_running [OF bound] by (simp add: increment_counts_shifted [of _ 0, simplified])
  obtain os1 os2 os3 where w: "write_prefix_header ?bits (of_nat (length ?rs)) (fresh_stream (xp_path xp) fs) = Some os1"
      "put_all_le (offsets_of ?bits ?rs) os1 = Some os2" "put_all_le (map xr_game_key ?rs) os2 = Some os3"
      and fs': "fs' = snd (ofstream_close os3 (create_file (xp_path xp) fs))"
    using assms(1) by (auto simp: finalize_in_memory_def Let_def rs off [simplified] ofstream_open_fresh split: if_splits option.splits Option.bind_splits)
  have "os_path os3 = xp_path xp" "os_data os3 = prefix_file ?bits ?rs"
    using write_prefix_header_Some [OF w(1)] put_all_le_Some [OF w(2)] put_all_le_Some [OF w(3)]
    by (simp_all add: fresh_stream_def prefix_file_def)
  then show ?thesis by (simp add: fs' ofstream_close_def create_file_def)
qed

lemma finalize_in_memory_total: "fs_no_faults fs \<Longrightarrow> \<exists>fs' xp'. finalize_in_memory fs xp = (Inr (), fs', xp')"
  by (simp add: finalize_in_memory_def Let_def ofstream_open_fresh fs_no_faults_def write_prefix_header_total put_all_le_total fresh_stream_def)

lemma prefix_inv_index:
  assumes "prefix_inv rows fs xp" and "xp_records xp = []" and "length rows < 2 ^ 64"
  obtains runs where "prefix_runs runs fs xp" "\<forall>run\<in>set runs. length run < 2 ^ 64"
    "remdups_adj (sort (concat runs)) = prefix_index (xp_prefix_bits xp) rows"
proof -
  obtain runs where runs: "prefix_runs runs fs xp" and set: "set (concat runs) = row_prefix (xp_prefix_bits xp) ` set rows"
    using assms(1,2) by (auto simp: prefix_inv_def)
  have "length run < 2 ^ 64" if "run \<in> set runs" for run
  proof -
    have "distinct run" using runs that by (auto simp: prefix_runs_def in_set_conv_nth)
    moreover have "set run \<subseteq> row_prefix (xp_prefix_bits xp) ` set rows" using that set by auto
    ultimately have "length run \<le> length rows"
      by (metis card_image_le card_length card_mono distinct_card finite_imageI finite_set le_trans)
    then show ?thesis using assms(3) by simp
  qed
  moreover have "remdups_adj (sort (concat runs)) = prefix_index (xp_prefix_bits xp) rows"
    unfolding prefix_index_def sort_unique_def [symmetric] by (rule sort_unique_eqI) (use set in simp)
  ultimately show ?thesis using that runs by blast
qed

lemma finalize_external_merge_Inr:
  fixes front :: "run_cursor list \<Rightarrow> nat list \<Rightarrow> nat"
  assumes "heap_front front rc_current" and "finalize_external_merge front fs xp = (Inr u, fs', xp')" and "prefix_inv rows fs xp"
    and "valid_prefix_bits (xp_prefix_bits xp)" and "length rows < 2 ^ 64"
  shows "fs_files fs' (xp_path xp) = Some (prefix_file (xp_prefix_bits xp) (prefix_index (xp_prefix_bits xp) rows))
     \<and> fs_fault fs' = fs_fault fs
     \<and> xp_offsets xp' = offsets_of (xp_prefix_bits xp) (prefix_index (xp_prefix_bits xp) rows) \<and> xp_postings xp' = []
     \<and> xp_prefix_bits xp' = xp_prefix_bits xp"
proof -
  let ?bits = "xp_prefix_bits xp" and ?rs = "prefix_index (xp_prefix_bits xp) rows" and ?p = "xp_path xp"
  obtain fs1 xp1 where sp: "prefix_spill_current_buffer fs xp = (Inr (), fs1, xp1)"
    using assms(2) by (auto simp: finalize_external_merge_def split: prod.splits sum.splits)
  note s = prefix_spill_Inr [OF sp assms(3)]
  have s': "prefix_inv rows fs1 xp1" "xp_records xp1 = []" "xp_path xp1 = ?p" "xp_prefix_bits xp1 = ?bits" "fs_fault fs1 = fs_fault fs"
    using s by (simp_all add: same_sidecar_def fs_same_device_def)
  obtain runs where runs: "prefix_runs runs fs1 xp1" "\<forall>run\<in>set runs. length run < 2 ^ 64"
      "remdups_adj (sort (concat runs)) = ?rs"
    using prefix_inv_index [OF s'(1,2) assms(5)] s'(4) by metis
  obtain st fs2 where m: "prefix_merge_runs front fs1 xp1 = (Some st, fs2)"
    using assms(2) sp by (auto simp: finalize_external_merge_def split: prod.splits option.splits)
  have st: "st = merged_prefix (scratch_stream fs1 xp1) (bucket_count ?bits) (sort (concat runs))"
      and fs2: "fs2 = fs1\<lparr>fs_files := (fs_files fs1)(prefix_scratch_path ?p := Some (le_bytes (map xr_game_key ?rs)))\<rparr>"
    using prefix_merge_runs_visits(1) [OF assms(1) runs(1,2) m] s'(3,4) runs(3) by simp_all
  have bound: "\<forall>r\<in>set ?rs. unat (xr_prefix r) < bucket_count ?bits"
    using row_prefix_bound [OF assms(4)] prefix_index_facts(3) by blast
  have off: "0 # running_sum 0 (xm_bucket_counts st) = offsets_of ?bits ?rs"
    using offsets_running [OF bound] by (simp add: st merged_prefix_def runs(3))
  have cnt: "xm_total_count st = of_nat (length ?rs)" by (simp add: st merged_prefix_def runs(3))
  obtain os1 os2 os3 where w: "write_prefix_header ?bits (of_nat (length ?rs)) (fresh_stream ?p fs2) = Some os1"
      "put_all_le (offsets_of ?bits ?rs) os1 = Some os2"
      and c: "ifstream_open (prefix_scratch_path ?p) (create_file ?p fs2) \<bind> (\<lambda>i. copy_stream i os2) = Some os3"
      and fs': "fs' = fs_discard_all (prefix_scratch_path ?p # xp_spill_paths xp1) (snd (ofstream_close os3 (create_file ?p fs2)))"
      and xp': "xp' = xp1\<lparr>xp_offsets := offsets_of ?bits ?rs, xp_spill_paths := [], xp_postings := [], xp_records := []\<rparr>"
    using assms(2) sp m
    by (auto simp: finalize_external_merge_def Let_def off cnt s'(3,4) ofstream_open_fresh split: if_splits option.splits Option.bind_splits)
  have "os3 = os2\<lparr>os_data := os_data os2 @ le_bytes (map xr_game_key ?rs)\<rparr>"
    using c by (auto simp: ifstream_open_def create_file_def fs2 copy_stream_def Let_def ofstream_write_Some split: if_splits)
  then have "os_path os3 = ?p" "os_data os3 = prefix_file ?bits ?rs"
    using write_prefix_header_Some [OF w(1)] put_all_le_Some [OF w(2)] by (simp_all add: fresh_stream_def prefix_file_def)
  moreover have "?p \<notin> set (prefix_scratch_path ?p # xp_spill_paths xp1)" using runs(1) s'(3) by (auto simp: prefix_runs_def)
  ultimately have "fs_files fs' ?p = Some (prefix_file ?bits ?rs)"
    unfolding fs' by (subst fs_discard_all_files(1)) (simp_all add: ofstream_close_def)
  moreover have "fs_fault fs' = fs_fault fs"
    unfolding fs' fs_discard_all_files(2) by (simp add: ofstream_close_def create_file_def fs2 s'(5))
  ultimately show ?thesis by (simp add: xp' s'(4))
qed

lemma finalize_external_merge_total:
  fixes front :: "run_cursor list \<Rightarrow> nat list \<Rightarrow> nat"
  assumes "heap_front front rc_current" and "fs_no_faults fs" and "prefix_inv rows fs xp" and "xp_spill_paths xp \<noteq> []"
    and "length rows < 2 ^ 64"
  shows "\<exists>fs' xp'. finalize_external_merge front fs xp = (Inr (), fs', xp')"
proof -
  obtain fs1 xp1 where sp: "prefix_spill_current_buffer fs xp = (Inr (), fs1, xp1)" using prefix_spill_total [OF assms(2)] by blast
  note s = prefix_spill_Inr [OF sp assms(3)]
  have nf: "fs_no_faults fs1" using s assms(2) fs_no_faults_same by blast
  obtain runs where runs: "prefix_runs runs fs1 xp1" "\<forall>run\<in>set runs. length run < 2 ^ 64"
      "remdups_adj (sort (concat runs)) = prefix_index (xp_prefix_bits xp1) rows"
    using prefix_inv_index [of rows fs1 xp1] s assms(5) by metis
  obtain st fs2 where m: "prefix_merge_runs front fs1 xp1 = (Some st, fs2)"
    using prefix_merge_runs_visits(2) [OF assms(1) runs(1,2) nf] by blast
  note v = prefix_merge_runs_visits(1) [OF assms(1) runs(1,2) m]
  have nf2: "fs_no_faults fs2" using nf v by (simp add: fs_no_faults_def)
  have "xp_spill_paths xp1 \<noteq> []"
    using sp assms(4) by (auto simp: prefix_spill_current_buffer_def Let_def split: if_splits option.splits prod.splits)
  then have "runs \<noteq> []" using runs(1) by (auto simp: prefix_runs_def)
  moreover have "\<forall>run\<in>set runs. run \<noteq> []" using runs(1) by (auto simp: prefix_runs_def in_set_conv_nth)
  ultimately have "hd (hd runs) \<in> set (concat runs)" by (cases runs) auto
  then have "hd (hd runs) \<in> set (remdups_adj (sort (concat runs)))" by simp
  then have "length (remdups_adj (sort (concat runs))) \<noteq> 0" by force
  then have "length (le_bytes (map xr_game_key (remdups_adj (sort (concat runs))))) \<noteq> 0"
    by (simp only: length_le_bytes length_map) simp
  then obtain D where D: "D = le_bytes (map xr_game_key (remdups_adj (sort (concat runs))))" "D \<noteq> []" by (metis list.size(3))
  let ?os = "fresh_stream (xp_path xp1) fs2"
  have os: "os_ok ?os" "os_quota ?os = None" using nf2 by (simp_all add: fresh_stream_def fs_no_faults_def)
  obtain os2 where os2: "do { output \<leftarrow> write_prefix_header (xp_prefix_bits xp1) (xm_total_count st) ?os;
      put_all_le (0 # running_sum 0 (xm_bucket_counts st)) output } = Some os2" "os_ok os2" "os_quota os2 = None"
    using os by (simp add: write_prefix_header_total put_all_le_total del: put_all_le.simps)
  have op: "ifstream_open (prefix_scratch_path (xp_path xp1)) (create_file (xp_path xp1) fs2) = Some (stream_at D 0)"
    using v nf2 by (simp add: ifstream_open_def create_file_def D(1) fs_no_faults_def)
  have "\<exists>os3. copy_stream (stream_at D 0) os2 = Some os3" using os2(2,3) D(2) by (simp add: copy_stream_def ofstream_write_def)
  then show ?thesis
    using sp m nf2 os2(1) op
    by (auto simp: finalize_external_merge_def Let_def ofstream_open_fresh fs_no_faults_def
        split: Option.bind_splits simp del: put_all_le.simps)
qed

section \<open>Properties\<close>

fun prefix_append_batches ::
  "position_row list list \<Rightarrow> filesystem \<Rightarrow> prefix_postings \<Rightarrow> unit result \<times> filesystem \<times> prefix_postings" where
  "prefix_append_batches [] fs xp = (Inr (), fs, xp)"
| "prefix_append_batches (batch # batches) fs xp =
     (case prefix_append batch fs xp of
        (Inl err, fs, xp) \<Rightarrow> (Inl err, fs, xp)
      | (Inr _, fs, xp) \<Rightarrow> prefix_append_batches batches fs xp)"

lemma prefix_append_batches_Inr:
  assumes "prefix_append_batches batches fs xp = (Inr u, fs', xp')" and "prefix_inv rows fs xp"
  shows "prefix_inv (rows @ concat batches) fs' xp' \<and> same_sidecar xp xp' \<and> fs_same_device fs fs'"
  using assms
proof (induction batches arbitrary: rows fs xp)
  case (Cons batch batches)
  obtain fs1 xp1 where b: "prefix_append_rows batch fs xp = (Inr (), fs1, xp1)"
      and rest: "prefix_append_batches batches fs1 xp1 = (Inr u, fs', xp')"
    using Cons.prems(1) by (auto simp: prefix_append_def split: prod.splits sum.splits if_splits)
  have s: "prefix_inv (rows @ batch) fs1 xp1" "same_sidecar xp xp1" "fs_same_device fs fs1"
    using prefix_append_rows_Inr [OF b Cons.prems(2)] by simp_all
  from Cons.IH [OF rest s(1)] s(2,3) show ?case by (simp add: same_sidecar_def fs_same_device_def)
qed (simp add: same_sidecar_def)

lemma prefix_append_batches_total:
  assumes "fs_no_faults fs" and "prefix_inv rows fs xp" and "valid_prefix_bits (xp_prefix_bits xp)"
  shows "\<exists>fs' xp'. prefix_append_batches batches fs xp = (Inr (), fs', xp')"
  using assms
proof (induction batches arbitrary: rows fs xp)
  case (Cons batch batches)
  obtain fs1 xp1 where b: "prefix_append_rows batch fs xp = (Inr (), fs1, xp1)"
    using prefix_append_rows_total [OF Cons.prems(1,2)] by blast
  have s: "prefix_inv (rows @ batch) fs1 xp1" "same_sidecar xp xp1" "fs_same_device fs fs1"
    using prefix_append_rows_Inr [OF b Cons.prems(2)] by simp_all
  from Cons.IH [OF fs_no_faults_same [OF s(3) Cons.prems(1)] s(1)] s(2) b Cons.prems(3)
  show ?case by (simp add: prefix_append_def same_sidecar_def)
qed simp

lemma prefix_finalize_Inr:
  fixes front :: "run_cursor list \<Rightarrow> nat list \<Rightarrow> nat"
  assumes "heap_front front rc_current" and "prefix_finalize front fs xp = (Inr u, fs', xp')" and "prefix_inv rows fs xp"
    and "length rows < 2 ^ 64"
  shows "fs_files fs' (xp_path xp) = Some (prefix_file (xp_prefix_bits xp) (prefix_index (xp_prefix_bits xp) rows))"
    and "fs_fault fs' = fs_fault fs" and "valid_prefix_bits (xp_prefix_bits xp)"
proof -
  show v: "valid_prefix_bits (xp_prefix_bits xp)" using assms(2) by (auto simp: prefix_finalize_def split: if_splits)
  have "fs_files fs' (xp_path xp) = Some (prefix_file (xp_prefix_bits xp) (prefix_index (xp_prefix_bits xp) rows))
      \<and> fs_fault fs' = fs_fault fs"
  proof (cases "xp_spill_paths xp = []")
    case True
    then have "finalize_in_memory fs xp = (Inr u, fs', xp')" using assms(2) v by (simp add: prefix_finalize_def)
    from finalize_in_memory_Inr [OF this assms(3) True v] show ?thesis .
  next
    case False
    then have "finalize_external_merge front fs xp = (Inr u, fs', xp')" using assms(2) v by (simp add: prefix_finalize_def)
    from finalize_external_merge_Inr [OF assms(1) this assms(3) v assms(4)] show ?thesis by blast
  qed
  then show "fs_files fs' (xp_path xp) = Some (prefix_file (xp_prefix_bits xp) (prefix_index (xp_prefix_bits xp) rows))"
    and "fs_fault fs' = fs_fault fs" by simp_all
qed

text \<open>The games of the rows that share a hash's bucket.\<close>
definition bucket_games :: "u8 \<Rightarrow> position_row list \<Rightarrow> u64 \<Rightarrow> u32 list" where
  "bucket_games bits rows hash =
     sort_unique (map pr_game_id (filter (\<lambda>row. prefix_of bits (pr_zobrist_hash row) = prefix_of bits hash) rows))"

lemma prefix_index_bucket:
  "map xr_game_key (filter (\<lambda>r. xr_prefix r = p) (prefix_index bits rows))
     = sort_unique (map pr_game_id (filter (\<lambda>row. prefix_of bits (pr_zobrist_hash row) = p) rows))"
proof (rule sorted_distinct_set_unique)
  let ?b = "filter (\<lambda>r. xr_prefix r = p) (prefix_index bits rows)"
  have inj: "inj_on xr_game_key (set ?b)" by (auto intro!: inj_onI prefix_record.expand)
  have "distinct ?b" using prefix_index_facts(2) by simp
  then show "distinct (map xr_game_key ?b)" using inj by (simp add: distinct_map)
  have "sorted ?b" using prefix_index_facts(1) by (simp add: sorted_filter [where f = id, simplified] sorted_wrt_filter)
  then have "sorted_wrt (\<lambda>a b. xr_game_key a \<le> xr_game_key b) ?b"
    by (rule sorted_wrt_mono_rel [rotated]) (auto simp: less_eq_prefix_record_def less_prefix_record_def)
  then show "sorted (map xr_game_key ?b)" by (simp add: sorted_map)
  show "set (map xr_game_key ?b)
      = set (sort_unique (map pr_game_id (filter (\<lambda>row. prefix_of bits (pr_zobrist_hash row) = p) rows)))"
  proof -
    have "set ?b = row_prefix bits ` set (filter (\<lambda>row. prefix_of bits (pr_zobrist_hash row) = p) rows)"
      by (auto simp: prefix_index_facts(3) row_prefix_def)
    then have "set (map xr_game_key ?b) = (\<lambda>row. xr_game_key (row_prefix bits row)) ` set (filter (\<lambda>row. prefix_of bits (pr_zobrist_hash row) = p) rows)"
      by (simp only: set_map image_image)
    then show ?thesis by (simp add: sort_unique_set row_prefix_def)
  qed
qed (simp_all add: sort_unique_set)


text \<open>
  On a disk without faults, appending any rows and finalizing succeeds for every prefix width from 1 to 24
  and every spill threshold.\<close>
theorem prefix_build_succeeds:
  fixes front :: "run_cursor list \<Rightarrow> nat list \<Rightarrow> nat"
  assumes "heap_front front rc_current" and "fs_no_faults fs" and "valid_prefix_bits bits" and "length (concat batches) < 2 ^ 64"
  shows "\<exists>fs1 xp1 fs2 xp2. prefix_append_batches batches fs (new_prefix_postings path bits threshold) = (Inr (), fs1, xp1)
     \<and> prefix_finalize front fs1 xp1 = (Inr (), fs2, xp2)"
proof -
  obtain fs1 xp1 where a: "prefix_append_batches batches fs (new_prefix_postings path bits threshold) = (Inr (), fs1, xp1)"
    using prefix_append_batches_total [OF assms(2) prefix_inv_new, unfolded new_prefix_postings_def, simplified, OF assms(3)]
    unfolding new_prefix_postings_def by blast
  have s: "prefix_inv (concat batches) fs1 xp1" "xp_prefix_bits xp1 = bits" "fs_same_device fs fs1"
    using prefix_append_batches_Inr [OF a prefix_inv_new] by (simp_all add: same_sidecar_def new_prefix_postings_def)
  note nf = fs_no_faults_same [OF s(3) assms(2)]
  have "\<exists>fs2 xp2. prefix_finalize front fs1 xp1 = (Inr (), fs2, xp2)"
    using finalize_in_memory_total [OF nf, of xp1] finalize_external_merge_total [OF assms(1) nf s(1) _ assms(4)] s(2) assms(3)
    by (simp add: prefix_finalize_def)
  then show ?thesis using a by blast
qed

text \<open>
  C37: After a finalize that merged spilled runs, the builder keeps its bucket offsets but has dropped its postings:
  asking it for the candidates of a position it was given, without opening the file first, reads outside the empty vector.\<close>
theorem candidates_after_external_merge:
  fixes front :: "run_cursor list \<Rightarrow> nat list \<Rightarrow> nat"
  assumes "heap_front front rc_current"
    and "prefix_append_batches batches fs (new_prefix_postings path bits threshold) = (Inr u, fs1, xp1)"
    and "xp_spill_paths xp1 \<noteq> []" and "prefix_finalize front fs1 xp1 = (Inr v, fs2, xp2)"
    and "length (concat batches) < 2 ^ 64" and "row \<in> set (concat batches)"
  shows "candidates xp2 (pr_zobrist_hash row) = None"
proof -
  let ?rs = "prefix_index bits (concat batches)" and ?p = "unat (prefix_of bits (pr_zobrist_hash row))"
  have a: "prefix_inv (concat batches) fs1 xp1" "xp_prefix_bits xp1 = bits"
    using prefix_append_batches_Inr [OF assms(2) prefix_inv_new] by (simp_all add: same_sidecar_def new_prefix_postings_def)
  have v: "valid_prefix_bits bits" using assms(4) a(2) by (auto simp: prefix_finalize_def split: if_splits)
  have "finalize_external_merge front fs1 xp1 = (Inr v, fs2, xp2)"
    using assms(3,4) a(2) \<open>valid_prefix_bits bits\<close> by (simp add: prefix_finalize_def)
  from finalize_external_merge_Inr [OF assms(1) this a(1) _ assms(5)] a(2) v
  have x: "xp_offsets xp2 = offsets_of bits ?rs" "xp_postings xp2 = []" "xp_prefix_bits xp2 = bits" by simp_all
  have "row_prefix bits row \<in> set ?rs" using assms(6) prefix_index_facts(3) by blast
  then have "row_prefix bits row \<in> set (filter (\<lambda>r. unat (xr_prefix r) = ?p) ?rs)" by (simp add: row_prefix_def)
  then have pos: "0 < bucket_size ?rs ?p" unfolding bucket_size_def by (metis length_pos_if_in_set)
  have len: "length ?rs < 2 ^ 64" using prefix_index_facts(4) [of bits "concat batches"] assms(5) by simp
  have "unat (offsets_of bits ?rs ! (?p + 1)) = before_bucket ?rs (Suc ?p)"
    using prefix_of_bound [OF v, of "pr_zobrist_hash row"] nth_offsets_of [of "Suc ?p" bits ?rs] unat_before_bucket [OF len]
    by (simp del: of_nat_add)
  then have "0 < unat (offsets_of bits ?rs ! (?p + 1))" using pos by (simp add: before_bucket_Suc)
  then show ?thesis by (auto simp: candidates_def x Let_def) (metis length_offsets_of add_is_0 list.size(3) one_neq_zero)
qed

section \<open>Witnesses\<close>

definition prefix_demo_row :: "u64 \<Rightarrow> u32 \<Rightarrow> position_row" where
  "prefix_demo_row hash game = \<lparr>pr_zobrist_hash = hash, pr_game_id = game, pr_ply = 0, pr_encoded_move = 0,
     pr_result = 0, pr_white_elo = None, pr_black_elo = None\<rparr>"

definition prefix_demo_rows :: "position_row list" where
  "prefix_demo_rows = [prefix_demo_row 3 2, prefix_demo_row (- 1) 5, prefix_demo_row 4 1]"

definition prefix_demo_disk :: filesystem where
  "prefix_demo_disk = \<lparr>fs_files = Map.empty, fs_fault = (\<lambda>_. False), fs_quota = (\<lambda>_. None)\<rparr>"

lemma prefix_demo_premises:
  "fs_no_faults prefix_demo_disk" "valid_prefix_bits 1" "length (concat [prefix_demo_rows]) < 2 ^ 64"
  "\<not> fs_fault prefix_demo_disk (Open_Read ''p'')"
  by (simp_all add: prefix_demo_disk_def fs_no_faults_def valid_prefix_bits_def prefix_demo_rows_def)

lemma prefix_demo_build:
  "\<exists>fs1 xp1 fs2 xp2. prefix_append_batches [prefix_demo_rows] prefix_demo_disk (new_prefix_postings ''p'' 1 1) = (Inr (), fs1, xp1)
     \<and> xp_spill_paths xp1 \<noteq> [] \<and> prefix_finalize (heap_min rc_current) fs1 xp1 = (Inr (), fs2, xp2)"
proof -
  obtain fs1 xp1 where a: "prefix_append_batches [prefix_demo_rows] prefix_demo_disk (new_prefix_postings ''p'' 1 1) = (Inr (), fs1, xp1)"
    using prefix_append_batches_total [OF prefix_demo_premises(1) prefix_inv_new, unfolded new_prefix_postings_def, simplified,
        OF prefix_demo_premises(2)]
    unfolding new_prefix_postings_def by blast
  have s: "prefix_inv (concat [prefix_demo_rows]) fs1 xp1" "xp_prefix_bits xp1 = 1" "fs_same_device prefix_demo_disk fs1"
    using prefix_append_batches_Inr [OF a prefix_inv_new] by (simp_all add: same_sidecar_def new_prefix_postings_def)
  have "prefix_append_rows prefix_demo_rows prefix_demo_disk (new_prefix_postings ''p'' 1 1) = (Inr (), fs1, xp1)"
    using a by (auto simp: prefix_append_def split: prod.splits sum.splits if_splits)
  from prefix_append_rows_bounded [OF this] have "xp_records xp1 = []" by (simp add: new_prefix_postings_def)
  then have ne: "xp_spill_paths xp1 \<noteq> []"
    using s(1) by (auto simp: prefix_inv_def prefix_runs_def prefix_demo_rows_def)
  from finalize_external_merge_total [OF heap_min.heap_front_axioms fs_no_faults_same [OF s(3) prefix_demo_premises(1)] s(1) ne prefix_demo_premises(3)]
  show ?thesis using a ne s(2) prefix_demo_premises(2) by (auto simp: prefix_finalize_def)
qed

theorem prefix_build_succeeds_witness:
  "\<exists>fs1 xp1 fs2 xp2. prefix_append_batches [prefix_demo_rows] prefix_demo_disk (new_prefix_postings ''p'' 1 1) = (Inr (), fs1, xp1)
     \<and> prefix_finalize (heap_min rc_current) fs1 xp1 = (Inr (), fs2, xp2)"
  by (rule prefix_build_succeeds [OF heap_min.heap_front_axioms prefix_demo_premises(1-3)])


theorem candidates_after_external_merge_witness:
  "\<exists>fs1 xp1 fs2 xp2. prefix_append_batches [prefix_demo_rows] prefix_demo_disk (new_prefix_postings ''p'' 1 1) = (Inr (), fs1, xp1)
     \<and> prefix_finalize (heap_min rc_current) fs1 xp1 = (Inr (), fs2, xp2) \<and> candidates xp2 3 = None"
proof -
  obtain fs1 xp1 fs2 xp2 where b: "prefix_append_batches [prefix_demo_rows] prefix_demo_disk (new_prefix_postings ''p'' 1 1) = (Inr (), fs1, xp1)"
      "xp_spill_paths xp1 \<noteq> []" "prefix_finalize (heap_min rc_current) fs1 xp1 = (Inr (), fs2, xp2)"
    using prefix_demo_build by blast
  have "prefix_demo_row 3 2 \<in> set (concat [prefix_demo_rows])" by (simp add: prefix_demo_rows_def)
  from candidates_after_external_merge [OF heap_min.heap_front_axioms b prefix_demo_premises(3) this]
  show ?thesis using b by (auto simp: prefix_demo_row_def)
qed

end
