(* ===== verification/Chess_Adapter.thy ===== *)
theory Chess_Adapter
  imports Byte_Codec
begin

text \<open>
  \<open>source/motif/chess\<close>: the adapter between the program and the chess library. The library
  (positions, moves, move generation, FEN, SAN and UCI) is not part of the repository and is
  the parameter \<open>lib\<close>; a \<open>motif::chess::board\<close> holds a library position behind a pointer
  that is null after the board has been moved from.
\<close>

section \<open>The library\<close>

record ('position, 'move) chesslib =
  cl_initial :: 'position
  cl_hash :: "'position \<Rightarrow> u64"
  cl_read_fen :: "string \<Rightarrow> 'position option"
  cl_write_fen :: "'position \<Rightarrow> string"
  cl_encode :: "'move \<Rightarrow> u16"
  cl_decode :: "u16 \<Rightarrow> 'move"
  cl_uci_to_string :: "'move \<Rightarrow> string"
  cl_uci_from_string :: "'position \<Rightarrow> string \<Rightarrow> 'move option"
  cl_san_to_string :: "'position \<Rightarrow> 'move \<Rightarrow> string"
  cl_san_from_string :: "'position \<Rightarrow> string \<Rightarrow> 'move option"
  cl_legal_moves :: "'position \<Rightarrow> 'move list"
  cl_make :: "'position \<Rightarrow> 'move \<Rightarrow> 'position"

text \<open>The 16-bit code of a move the library parsed identifies the move.\<close>
definition codec_faithful :: "('p, 'm) chesslib \<Rightarrow> bool" where
  "codec_faithful lib \<longleftrightarrow>
     (\<forall>p s m. cl_san_from_string lib p s = Some m \<or> cl_uci_from_string lib p s = Some m \<longrightarrow> cl_decode lib (cl_encode lib m) = m)"

text \<open>The SAN the library writes for a move it parsed in a position parses to that move again.\<close>
definition san_faithful :: "('p, 'm) chesslib \<Rightarrow> bool" where
  "san_faithful lib \<longleftrightarrow>
     (\<forall>p s m. cl_san_from_string lib p s = Some m \<longrightarrow> cl_san_from_string lib p (cl_san_to_string lib p m) = Some m)"

section \<open>Boards\<close>

datatype chess_error = Invalid_Fen | Invalid_Move | Invalid_Ply

type_synonym 'a chess_result = "chess_error + 'a"

datatype 'position board = Board (board_impl: "'position option")

record move_info =
  mi_encoded_move :: u16
  mi_uci :: string
  mi_san :: string
  mi_from :: string
  mi_to :: string
  mi_promotion :: "string option"

definition new_board :: "('p, 'm) chesslib \<Rightarrow> 'p board" where
  "new_board lib = Board (Some (cl_initial lib))"

text \<open>The position a board stands for: a moved-from board is re-created at the start.\<close>
definition ensure_impl :: "('p, 'm) chesslib \<Rightarrow> 'p board \<Rightarrow> 'p" where
  "ensure_impl lib b = (case board_impl b of None \<Rightarrow> cl_initial lib | Some p \<Rightarrow> p)"

definition copy_board :: "('p, 'm) chesslib \<Rightarrow> 'p board \<Rightarrow> 'p board" where
  "copy_board lib other = Board (Some (ensure_impl lib other))"

text \<open>A move leaves the source without its position.\<close>
definition move_board :: "'p board \<Rightarrow> 'p board \<times> 'p board" where
  "move_board other = (other, Board None)"

definition board_hash :: "('p, 'm) chesslib \<Rightarrow> 'p board \<Rightarrow> u64" where
  "board_hash lib b =
     (case board_impl b of Some p \<Rightarrow> cl_hash lib p | None \<Rightarrow> cl_hash lib (cl_initial lib))"

section \<open>Moves\<close>

definition squares_from_uci :: "string \<Rightarrow> string \<times> string" where
  "squares_from_uci uci = (if length uci < 4 then ([], []) else (take 2 uci, take 2 (drop 2 uci)))"

definition promotion_from_uci :: "string \<Rightarrow> string option" where
  "promotion_from_uci uci = (if length uci < 5 then None else Some [uci ! 4])"

definition describe_move :: "('p, 'm) chesslib \<Rightarrow> 'p \<Rightarrow> 'm \<Rightarrow> move_info" where
  "describe_move lib position move =
     (let uci = cl_uci_to_string lib move; (from_square, to_square) = squares_from_uci uci in
      \<lparr>mi_encoded_move = cl_encode lib move, mi_uci = uci, mi_san = cl_san_to_string lib position move,
       mi_from = from_square, mi_to = to_square, mi_promotion = promotion_from_uci uci\<rparr>)"

definition parse_fen :: "('p, 'm) chesslib \<Rightarrow> string \<Rightarrow> 'p board chess_result" where
  "parse_fen lib fen = (case cl_read_fen lib fen of None \<Rightarrow> Inl Invalid_Fen | Some p \<Rightarrow> Inr (Board (Some p)))"

definition write_fen :: "('p, 'm) chesslib \<Rightarrow> 'p board \<Rightarrow> string" where
  "write_fen lib b =
     (case board_impl b of None \<Rightarrow> cl_write_fen lib (cl_initial lib) | Some p \<Rightarrow> cl_write_fen lib p)"

definition apply_encoded_move :: "('p, 'm) chesslib \<Rightarrow> 'p board \<Rightarrow> u16 \<Rightarrow> 'p board" where
  "apply_encoded_move lib b encoded_move = Board (Some (cl_make lib (ensure_impl lib b) (cl_decode lib encoded_move)))"

text \<open>The loop of \<open>replay\<close> from \<open>index\<close> on.\<close>
function replay_loop :: "('p, 'm) chesslib \<Rightarrow> u16 list \<Rightarrow> nat \<Rightarrow> nat \<Rightarrow> 'p board \<Rightarrow> 'p board" where
  "replay_loop lib moves ply index position =
     (if index < ply then replay_loop lib moves ply (index + 1) (apply_encoded_move lib position (moves ! index))
      else position)"
  by pat_completeness auto
termination by (relation "measure (\<lambda>(lib, moves, ply, index, position). ply - index)") auto

declare replay_loop.simps [simp del]

definition replay :: "('p, 'm) chesslib \<Rightarrow> u16 list \<Rightarrow> u16 \<Rightarrow> 'p board chess_result" where
  "replay lib moves ply =
     (if unat ply > length moves then Inl Invalid_Ply
      else Inr (replay_loop lib moves (unat ply) 0 (new_board lib)))"

definition san :: "('p, 'm) chesslib \<Rightarrow> 'p board \<Rightarrow> u16 \<Rightarrow> string" where
  "san lib b encoded_move =
     (case board_impl b of None \<Rightarrow> [] | Some p \<Rightarrow> cl_san_to_string lib p (cl_decode lib encoded_move))"

text \<open>The functions that take the board by reference return it beside their result.\<close>
definition apply_san :: "('p, 'm) chesslib \<Rightarrow> 'p board \<Rightarrow> string \<Rightarrow> u16 chess_result \<times> 'p board" where
  "apply_san lib b san_move =
     (let p = ensure_impl lib b in
      case cl_san_from_string lib p san_move of
        None \<Rightarrow> (Inl Invalid_Move, Board (Some p))
      | Some move \<Rightarrow> (Inr (cl_encode lib move), Board (Some (cl_make lib p move))))"

definition legal_moves :: "('p, 'm) chesslib \<Rightarrow> 'p board \<Rightarrow> move_info list" where
  "legal_moves lib b =
     (case board_impl b of None \<Rightarrow> [] | Some p \<Rightarrow> map (describe_move lib p) (cl_legal_moves lib p))"

definition apply_uci :: "('p, 'm) chesslib \<Rightarrow> 'p board \<Rightarrow> string \<Rightarrow> move_info chess_result \<times> 'p board" where
  "apply_uci lib b uci_move =
     (let p = ensure_impl lib b in
      case cl_uci_from_string lib p uci_move of
        None \<Rightarrow> (Inl Invalid_Move, Board (Some p))
      | Some move \<Rightarrow> (Inr (describe_move lib p move), Board (Some (cl_make lib p move))))"

section \<open>Replaying\<close>

text \<open>The position after some encoded moves.\<close>
definition position_after :: "('p, 'm) chesslib \<Rightarrow> u16 list \<Rightarrow> 'p" where
  "position_after lib moves = foldl (\<lambda>p m. cl_make lib p (cl_decode lib m)) (cl_initial lib) moves"

lemma position_after_snoc [simp]:
  "position_after lib [] = cl_initial lib"
  "position_after lib (moves @ [m]) = cl_make lib (position_after lib moves) (cl_decode lib m)"
  by (simp_all add: position_after_def)

lemma ensure_impl_Board [simp]: "ensure_impl lib (Board (Some p)) = p" "ensure_impl lib (new_board lib) = cl_initial lib"
  by (simp_all add: ensure_impl_def new_board_def)

lemma apply_encoded_move_position:
  "apply_encoded_move lib (Board (Some (position_after lib moves))) m = Board (Some (position_after lib (moves @ [m])))"
  by (simp add: apply_encoded_move_def)

lemma replay_loop_position:
  "index \<le> ply \<Longrightarrow> ply \<le> length moves \<Longrightarrow>
     replay_loop lib moves ply index (Board (Some (position_after lib (take index moves)))) = Board (Some (position_after lib (take ply moves)))"
proof (induction "ply - index" arbitrary: index)
  case 0
  then show ?case by (simp add: replay_loop.simps)
next
  case (Suc k)
  have "take (index + 1) moves = take index moves @ [moves ! index]" using Suc by (simp add: take_Suc_conv_app_nth)
  then have "apply_encoded_move lib (Board (Some (position_after lib (take index moves)))) (moves ! index)
      = Board (Some (position_after lib (take (index + 1) moves)))"
    by (simp only: apply_encoded_move_position)
  then show ?case using Suc by (subst replay_loop.simps) simp
qed

lemma replay_eq:
  "replay lib moves ply =
     (if unat ply > length moves then Inl Invalid_Ply else Inr (Board (Some (position_after lib (take (unat ply) moves)))))"
  using replay_loop_position [of 0 "unat ply" moves lib] by (simp add: replay_def new_board_def)

lemma apply_san_replays:
  assumes "codec_faithful lib" and "apply_san lib b s = (Inr e, b')"
  shows "apply_encoded_move lib b e = b'"
  using assms by (auto simp: apply_san_def codec_faithful_def apply_encoded_move_def Let_def split: option.splits)

text \<open>
  A move applied by its UCI text and its encoded form lead to the same board: the description that \<open>apply_uci\<close> returns
  carries the code that replays the move, and a rejected text leaves the position as it was.\<close>
theorem apply_uci_replays:
  assumes "codec_faithful lib" and "apply_uci lib b uci = (res, b')"
  shows "case res of
      Inl err \<Rightarrow> err = Invalid_Move \<and> ensure_impl lib b' = ensure_impl lib b
    | Inr info \<Rightarrow> apply_encoded_move lib b (mi_encoded_move info) = b' \<and> san lib (copy_board lib b) (mi_encoded_move info) = mi_san info"
  using assms
  by (auto simp: apply_uci_def codec_faithful_def apply_encoded_move_def describe_move_def copy_board_def san_def Let_def
      split: option.splits prod.splits)

text \<open>
  Replaying a game to a ply gives the position after exactly that many of its moves, from the initial position,
  and is refused with \<open>invalid_ply\<close> just when the game has fewer moves.\<close>
theorem replay_position:
  "replay lib moves ply =
     (if unat ply > length moves then Inl Invalid_Ply else Inr (Board (Some (position_after lib (take (unat ply) moves)))))"
  by (rule replay_eq)

section \<open>A library for the witnesses\<close>

text \<open>Positions count their moves, a move is a byte and its texts are that byte.\<close>
definition demo_lib :: "(nat list, nat) chesslib" where
  "demo_lib = \<lparr>cl_initial = [], cl_hash = (\<lambda>p. of_nat (sum_list p)), cl_read_fen = (\<lambda>s. Some (map of_char s)),
     cl_write_fen = map char_of, cl_encode = of_nat, cl_decode = unat, cl_uci_to_string = (\<lambda>m. [char_of m]),
     cl_uci_from_string = (\<lambda>p s. if length s = 1 then Some (of_char (hd s)) else None),
     cl_san_to_string = (\<lambda>p m. [char_of m]),
     cl_san_from_string = (\<lambda>p s. if length s = 1 then Some (of_char (hd s)) else None),
     cl_legal_moves = (\<lambda>p. [0..<3]), cl_make = (\<lambda>p m. p @ [m])\<rparr>"

lemma demo_lib_faithful: "codec_faithful demo_lib" "san_faithful demo_lib"
proof -
  have "unat (of_nat (of_char c) :: u16) = of_char c" for c
    by (rule unat_of_nat_less, rule less_le_trans [OF nat_of_char_less_256]) simp
  then show "codec_faithful demo_lib" by (simp add: codec_faithful_def demo_lib_def)
  show "san_faithful demo_lib" by (simp add: san_faithful_def demo_lib_def)
qed

theorem apply_uci_replays_witness:
  "apply_encoded_move demo_lib (new_board demo_lib) 97 = Board (Some [97])"
proof -
  have "apply_uci demo_lib (new_board demo_lib) ''a'' = (Inr (describe_move demo_lib [] 97), Board (Some [97]))"
    by (simp add: apply_uci_def new_board_def demo_lib_def)
  moreover have "mi_encoded_move (describe_move demo_lib [] 97) = 97"
    by (simp add: describe_move_def demo_lib_def squares_from_uci_def Let_def)
  ultimately show ?thesis using apply_uci_replays [OF demo_lib_faithful(1)] by fastforce
qed

end
