(* ===== verification/Pgn_Import.thy ===== *)
theory Pgn_Import
  imports Chess_Adapter Db_Types
begin

text \<open>
  \<open>source/motif/import/pgn_helpers.cpp\<close> and \<open>import_worker.cpp\<close>: from a parsed PGN game to
  the game row that is stored. The parser's types (\<open>pgn::game\<close>, \<open>pgn::tag\<close>,
  \<open>pgn::result\<close>) are modelled as far as the importer reads them; the chess library and the
  two database calls of \<open>process\<close> are parameters.
\<close>

section \<open>Errors and data\<close>

datatype import_error_code =
    Import_Ok | Import_Io_Failure | Import_Invalid_State | Import_Eof | Import_Parse_Error | Import_Duplicate
  | Import_Not_Found | Import_Empty_Game

fun import_error_to_string :: "import_error_code \<Rightarrow> string" where
  "import_error_to_string Import_Ok = ''ok''"
| "import_error_to_string Import_Io_Failure = ''io_failure''"
| "import_error_to_string Import_Invalid_State = ''invalid_state''"
| "import_error_to_string Import_Eof = ''eof''"
| "import_error_to_string Import_Parse_Error = ''parse_error''"
| "import_error_to_string Import_Duplicate = ''duplicate''"
| "import_error_to_string Import_Not_Found = ''not_found''"
| "import_error_to_string Import_Empty_Game = ''empty_game''"

type_synonym 'a import_result = "import_error_code + 'a"

datatype pgn_result = Pgn_White | Pgn_Black | Pgn_Draw | Pgn_Unknown

text \<open>A game as the reader delivers it: tags, result and the SAN of the main line.\<close>
record pgn_game =
  pg_tags :: "(string \<times> string) list"
  pg_result :: pgn_result
  pg_moves :: "string list"

record player =
  pl_name :: string
  pl_elo :: "u32 option"
  pl_title :: "string option"
  pl_country :: "string option"

record event =
  ev_name :: string
  ev_site :: "string option"
  ev_date :: "string option"

record game_provenance =
  gp_source_type :: string
  gp_source_label :: "string option"
  gp_review_status :: string

record db_game =
  dg_white :: player
  dg_black :: player
  dg_event_details :: "event option"
  dg_date :: "string option"
  dg_result :: string
  dg_eco :: "string option"
  dg_moves :: "u16 list"
  dg_extra_tags :: "(string \<times> string) list"
  dg_provenance :: game_provenance

definition default_provenance :: game_provenance where
  "default_provenance = \<lparr>gp_source_type = ''imported'', gp_source_label = None, gp_review_status = ''new''\<rparr>"

section \<open>Helpers\<close>

fun find_tag :: "(string \<times> string) list \<Rightarrow> string \<Rightarrow> string" where
  "find_tag [] key = []"
| "find_tag (tag # tags) key = (if fst tag = key then snd tag else find_tag tags key)"

text \<open>
  \<open>std::from_chars\<close> into an \<open>int\<close>: an optional minus sign and the longest run of digits.
  The result is the value and the rest of the text, or nothing when there are no digits or
  the value is out of range.
\<close>
definition is_digit :: "char \<Rightarrow> bool" where
  "is_digit c \<longleftrightarrow> 48 \<le> (of_char c :: nat) \<and> (of_char c :: nat) \<le> 57"

definition digits_value :: "string \<Rightarrow> int" where
  "digits_value ds = foldl (\<lambda>n c. 10 * n + (int (of_char c) - 48)) 0 ds"

definition from_chars_int :: "string \<Rightarrow> (int \<times> string) option" where
  "from_chars_int s =
     (let (negative, body) = (case s of c # cs \<Rightarrow> if c = CHR ''-'' then (True, cs) else (False, s) | [] \<Rightarrow> (False, []));
          ds = takeWhile is_digit body;
          value = (if negative then - digits_value ds else digits_value ds) in
      if ds = [] \<or> value < - (2 ^ 31) \<or> value > 2 ^ 31 - 1 then None
      else Some (value, dropWhile is_digit body))"

definition parse_elo :: "string \<Rightarrow> u16 option" where
  "parse_elo raw =
     (if raw = [] \<or> raw = ''?'' then None
      else case from_chars_int raw of
          None \<Rightarrow> None
        | Some (val, rest) \<Rightarrow> (if rest \<noteq> [] \<or> val < 0 \<or> val > 32767 then None else Some (of_int val)))"

fun pgn_result_to_string :: "pgn_result \<Rightarrow> string" where
  "pgn_result_to_string Pgn_White = ''1-0''"
| "pgn_result_to_string Pgn_Black = ''0-1''"
| "pgn_result_to_string Pgn_Draw = ''1/2-1/2''"
| "pgn_result_to_string Pgn_Unknown = ''*''"

fun pgn_result_to_int8 :: "pgn_result \<Rightarrow> u8" where
  "pgn_result_to_int8 Pgn_White = 1"
| "pgn_result_to_int8 Pgn_Black = - 1"
| "pgn_result_to_int8 Pgn_Draw = 0"
| "pgn_result_to_int8 Pgn_Unknown = 0"

section \<open>\<open>extract_game\<close>\<close>

definition known_tag_keys :: "string list" where
  "known_tag_keys = [''White'', ''Black'', ''WhiteElo'', ''BlackElo'', ''WhiteTitle'', ''BlackTitle'', ''Event'', ''Site'',
     ''Date'', ''Result'', ''ECO'']"

definition is_known_tag :: "string \<Rightarrow> bool" where
  "is_known_tag key \<longleftrightarrow> list_ex (\<lambda>known. key = known) known_tag_keys"

definition non_empty :: "string \<Rightarrow> string option" where
  "non_empty raw = (if raw = [] then None else Some raw)"

definition extract_game :: "pgn_game \<Rightarrow> db_game" where
  "extract_game pgn =
     (let tags = pg_tags pgn;
          white_elo = parse_elo (find_tag tags ''WhiteElo'');
          black_elo = parse_elo (find_tag tags ''BlackElo'');
          event_name = find_tag tags ''Event'';
          date_raw = find_tag tags ''Date'';
          valid_date = (if date_raw \<noteq> [] \<and> date_raw \<noteq> ''????.??.??'' then Some date_raw else None) in
      \<lparr>dg_white = \<lparr>pl_name = find_tag tags ''White'', pl_elo = map_option scast white_elo,
                   pl_title = non_empty (find_tag tags ''WhiteTitle''), pl_country = None\<rparr>,
       dg_black = \<lparr>pl_name = find_tag tags ''Black'', pl_elo = map_option scast black_elo,
                   pl_title = non_empty (find_tag tags ''BlackTitle''), pl_country = None\<rparr>,
       dg_event_details = (if event_name \<noteq> [] then
            Some \<lparr>ev_name = event_name, ev_site = non_empty (find_tag tags ''Site''), ev_date = valid_date\<rparr> else None),
       dg_date = valid_date,
       dg_result = pgn_result_to_string (pg_result pgn),
       dg_eco = non_empty (find_tag tags ''ECO''),
       dg_moves = [],
       dg_extra_tags = filter (\<lambda>tag. \<not> is_known_tag (fst tag)) tags,
       dg_provenance = default_provenance\<rparr>)"

section \<open>\<open>import_worker::process\<close>\<close>

record process_result =
  pr_stored_id :: u32
  pr_positions_inserted :: nat

text \<open>The database as \<open>process\<close> uses it: the two calls that may change it.\<close>
record 'db import_db =
  idb_prepare_canonical_mutation :: "'db \<Rightarrow> unit result \<times> 'db"
  idb_insert :: "db_game \<Rightarrow> 'db \<Rightarrow> u32 result \<times> 'db"

text \<open>The loop over the SAN moves: the encoded moves, or nothing when one is rejected.\<close>
fun encode_san_moves :: "('p, 'm) chesslib \<Rightarrow> 'p board \<Rightarrow> string list \<Rightarrow> u16 list option" where
  "encode_san_moves lib b [] = Some []"
| "encode_san_moves lib b (s # ss) =
     (case apply_san lib b s of
        (Inl _, b) \<Rightarrow> None
      | (Inr encoded, b) \<Rightarrow> map_option (Cons encoded) (encode_san_moves lib b ss))"

definition process ::
  "('p, 'm) chesslib \<Rightarrow> 'db import_db \<Rightarrow> pgn_game \<Rightarrow> 'db \<Rightarrow> process_result import_result \<times> 'db" where
  "process lib db_ops pgn db =
     (if pg_moves pgn = [] then (Inl Import_Empty_Game, db)
      else if length (pg_moves pgn) > 65535 then (Inl Import_Io_Failure, db)
      else case encode_san_moves lib (new_board lib) (pg_moves pgn) of
          None \<Rightarrow> (Inl Import_Parse_Error, db)
        | Some encoded \<Rightarrow>
            let game = (extract_game pgn)\<lparr>dg_moves := encoded\<rparr> in
            (case idb_prepare_canonical_mutation db_ops db of
               (Inl _, db) \<Rightarrow> (Inl Import_Io_Failure, db)
             | (Inr _, db) \<Rightarrow>
                 (case idb_insert db_ops game db of
                    (Inl err, db) \<Rightarrow> (Inl (if err_code err = Duplicate then Import_Duplicate else Import_Io_Failure), db)
                  | (Inr game_id, db) \<Rightarrow>
                      (Inr \<lparr>pr_stored_id = game_id, pr_positions_inserted = length encoded + 1\<rparr>, db))))"

section \<open>Ratings\<close>

lemma digits_value_nonneg: "\<forall>c\<in>set ds. is_digit c \<Longrightarrow> 0 \<le> digits_value ds"
proof (induction ds rule: rev_induct)
  case (snoc d ds)
  then show ?case by (simp add: digits_value_def is_digit_def)
qed (simp add: digits_value_def)

lemma from_chars_int_plain:
  "\<nexists>body. raw = CHR ''-'' # body \<Longrightarrow> from_chars_int raw =
     (let ds = takeWhile is_digit raw; value = digits_value ds in
      if ds = [] \<or> value < - (2 ^ 31) \<or> value > 2 ^ 31 - 1 then None else Some (value, dropWhile is_digit raw))"
  by (cases raw) (auto simp: from_chars_int_def Let_def)

lemma parse_elo_Some_iff:
  "parse_elo raw = Some elo \<longleftrightarrow>
     (\<exists>ds. ds \<noteq> [] \<and> (\<forall>c\<in>set ds. is_digit c) \<and> digits_value ds \<le> 32767 \<and> elo = of_int (digits_value ds)
        \<and> (raw = ds \<or> (raw = CHR ''-'' # ds \<and> digits_value ds = 0)))"
proof -
  have tw: "takeWhile is_digit body = body \<and> dropWhile is_digit body = []" if "\<forall>c\<in>set body. is_digit c" for body
    using that by (simp add: takeWhile_eq_all_conv)
  have dw: "\<forall>c\<in>set (takeWhile is_digit body). is_digit c" for body by (auto dest: set_takeWhileD)
  have minus: "\<not> is_digit (CHR ''-'')" "\<not> is_digit (CHR ''?'')" by (simp_all add: is_digit_def)
  show ?thesis
  proof
    assume "parse_elo raw = Some elo"
    then obtain val where f: "from_chars_int raw = Some (val, [])" and v: "0 \<le> val" "val \<le> 32767" "elo = of_int val"
      by (auto simp: parse_elo_def split: if_splits option.splits)
    show "\<exists>ds. ds \<noteq> [] \<and> (\<forall>c\<in>set ds. is_digit c) \<and> digits_value ds \<le> 32767 \<and> elo = of_int (digits_value ds)
        \<and> (raw = ds \<or> (raw = CHR ''-'' # ds \<and> digits_value ds = 0))"
    proof (cases "\<exists>body. raw = CHR ''-'' # body")
      case True
      then obtain body where raw: "raw = CHR ''-'' # body" by blast
      have all: "\<forall>c\<in>set body. is_digit c"
        using f by (auto simp: from_chars_int_def raw Let_def dropWhile_eq_Nil_conv split: if_splits)
      have b: "body \<noteq> []" "\<forall>c\<in>set body. is_digit c" "val = - digits_value body"
        using f all unfolding from_chars_int_def raw Let_def by (auto simp: tw [OF all] split: if_splits)
      then have "digits_value body = 0" using v(1) digits_value_nonneg [OF b(2)] by simp
      then show ?thesis using b raw v(3) by (intro exI [of _ body]) simp
    next
      case False
      note f' = from_chars_int_plain [OF False]
      have all: "\<forall>c\<in>set raw. is_digit c"
        using f unfolding f' by (auto simp: Let_def dropWhile_eq_Nil_conv split: if_splits)
      have b: "raw \<noteq> []" "\<forall>c\<in>set raw. is_digit c" "val = digits_value raw"
        using f all unfolding f' Let_def by (auto simp: tw [OF all] split: if_splits)
      then show ?thesis using v by (intro exI [of _ raw]) simp
    qed
  next
    assume "\<exists>ds. ds \<noteq> [] \<and> (\<forall>c\<in>set ds. is_digit c) \<and> digits_value ds \<le> 32767 \<and> elo = of_int (digits_value ds)
        \<and> (raw = ds \<or> (raw = CHR ''-'' # ds \<and> digits_value ds = 0))"
    then obtain ds where ds: "ds \<noteq> []" "\<forall>c\<in>set ds. is_digit c" "digits_value ds \<le> 32767" "elo = of_int (digits_value ds)"
        "raw = ds \<or> (raw = CHR ''-'' # ds \<and> digits_value ds = 0)" by blast
    have hd: "hd ds \<noteq> CHR ''-''" using ds(1,2) minus hd_in_set by metis
    have q: "raw \<noteq> ''?''" using ds minus by auto
    have "from_chars_int raw = Some (digits_value ds, [])"
      using ds(5)
    proof
      assume raw: "raw = ds"
      then have "\<nexists>body. raw = CHR ''-'' # body" using hd ds(1) by auto
      then show ?thesis
        using ds(1,3) digits_value_nonneg [OF ds(2)] by (simp add: from_chars_int_plain raw Let_def tw [OF ds(2)])
    next
      assume "raw = CHR ''-'' # ds \<and> digits_value ds = 0"
      then show ?thesis using ds(1) by (simp add: from_chars_int_def Let_def tw [OF ds(2)])
    qed
    then show "parse_elo raw = Some elo"
      using ds q digits_value_nonneg [OF ds(2)] by (auto simp: parse_elo_def)
  qed
qed

text \<open>
  \<open>parse_elo\<close> accepts exactly the texts that are a run of digits (or a minus sign before zeros) whose value fits
  in 15 bits, and returns that value; everything else, the empty text and \<open>?\<close> included, has no rating.\<close>
theorem parse_elo_accepts:
  "parse_elo raw = Some elo \<longleftrightarrow>
     (\<exists>ds. ds \<noteq> [] \<and> list_all is_digit ds \<and> digits_value ds \<le> 32767 \<and> elo = of_int (digits_value ds)
        \<and> (raw = ds \<or> (raw = CHR ''-'' # ds \<and> digits_value ds = 0)))"
  unfolding list_all_iff by (rule parse_elo_Some_iff)

section \<open>What is stored\<close>

lemma encode_san_moves_replays:
  assumes "codec_faithful lib"
  shows "encode_san_moves lib (Board (Some p)) ss = Some es \<Longrightarrow>
     length es = length ss \<and> Board (Some (foldl (\<lambda>p e. cl_make lib p (cl_decode lib e)) p es)) = fold (\<lambda>s b. snd (apply_san lib b s)) ss (Board (Some p))"
proof (induction ss arbitrary: p es)
  case (Cons s ss)
  obtain e p' es' where a: "apply_san lib (Board (Some p)) s = (Inr e, Board (Some p'))"
      and es: "es = e # es'" "encode_san_moves lib (Board (Some p')) ss = Some es'"
    using Cons.prems by (auto simp: apply_san_def Let_def split: option.splits)
  have "cl_make lib p (cl_decode lib e) = p'"
    using apply_san_replays [OF assms a] by (simp add: apply_encoded_move_def)
  then show ?case using Cons.IH [OF es(2)] a es(1) by simp
qed simp

text \<open>
  A game that \<open>process\<close> stores has its tags, result and ratings from the PGN, one encoded move for each SAN move,
  and replaying the encoded moves gives the board the SAN moves lead to; the database is marked for the change before the
  row goes in, and the reported number of positions is one more than the number of moves.\<close>
theorem process_stores_game:
  assumes "codec_faithful lib" and "process lib db_ops pgn db = (Inr stored, db')"
  shows "\<exists>encoded db1 u. length encoded = length (pg_moves pgn)
     \<and> idb_prepare_canonical_mutation db_ops db = (Inr u, db1)
     \<and> idb_insert db_ops ((extract_game pgn)\<lparr>dg_moves := encoded\<rparr>) db1 = (Inr (pr_stored_id stored), db')
     \<and> pr_positions_inserted stored = length (pg_moves pgn) + 1
     \<and> replay lib encoded (of_nat (length encoded)) = Inr (fold (\<lambda>s b. snd (apply_san lib b s)) (pg_moves pgn) (new_board lib))"
proof -
  obtain encoded where enc: "encode_san_moves lib (Board (Some (cl_initial lib))) (pg_moves pgn) = Some encoded"
      and len: "length (pg_moves pgn) \<le> 65535"
    using assms(2) by (auto simp: process_def new_board_def split: if_splits option.splits)
  note e = encode_san_moves_replays [OF assms(1) enc]
  have u: "unat (of_nat (length encoded) :: u16) = length encoded"
    using e len by (intro unat_of_nat_less) simp
  have "replay lib encoded (of_nat (length encoded)) = Inr (fold (\<lambda>s b. snd (apply_san lib b s)) (pg_moves pgn) (new_board lib))"
    unfolding replay_eq u using e by (simp add: position_after_def new_board_def)
  moreover have "\<exists>db1 u. idb_prepare_canonical_mutation db_ops db = (Inr u, db1)
      \<and> idb_insert db_ops ((extract_game pgn)\<lparr>dg_moves := encoded\<rparr>) db1 = (Inr (pr_stored_id stored), db')
      \<and> pr_positions_inserted stored = length encoded + 1"
    using assms(2) enc by (auto simp: process_def new_board_def Let_def split: if_splits prod.splits sum.splits)
  ultimately show ?thesis using e by auto
qed

text \<open>
  A game without moves, with too many moves or with a move the chess library rejects is refused before the
  database is touched, with the error that says which.\<close>
theorem process_rejects_before_writing:
  assumes "process lib db_ops pgn db = (Inl err, db')"
    and "pg_moves pgn = [] \<or> length (pg_moves pgn) > 65535 \<or> encode_san_moves lib (new_board lib) (pg_moves pgn) = None"
  shows "db' = db \<and> err = (if pg_moves pgn = [] then Import_Empty_Game
     else if length (pg_moves pgn) > 65535 then Import_Io_Failure else Import_Parse_Error)"
  using assms by (auto simp: process_def Let_def split: if_splits option.splits)

section \<open>Witnesses\<close>

definition demo_pgn :: pgn_game where
  "demo_pgn = \<lparr>pg_tags = [(''White'', ''Ann''), (''WhiteElo'', ''2100''), (''Round'', ''3'')], pg_result = Pgn_White,
     pg_moves = [''a'', ''b'']\<rparr>"

definition demo_db :: "db_game list import_db" where
  "demo_db = \<lparr>idb_prepare_canonical_mutation = (\<lambda>db. (Inr (), db)),
     idb_insert = (\<lambda>game db. (Inr (of_nat (length db + 1)), db @ [game]))\<rparr>"

theorem process_stores_game_witness:
  "\<exists>encoded. length encoded = 2 \<and> replay demo_lib encoded (of_nat (length encoded)) = Inr (Board (Some [97, 98]))"
proof -
  obtain stored db' where p: "process demo_lib demo_db demo_pgn [] = (Inr stored, db')"
    by (simp add: process_def demo_pgn_def demo_db_def demo_lib_def apply_san_def new_board_def Let_def)
  have "fold (\<lambda>s b. snd (apply_san demo_lib b s)) (pg_moves demo_pgn) (new_board demo_lib) = Board (Some [97, 98])"
    "length (pg_moves demo_pgn) = 2"
    by (simp_all add: demo_pgn_def demo_lib_def apply_san_def new_board_def Let_def)
  then show ?thesis using process_stores_game [OF demo_lib_faithful(1) p] by auto
qed

theorem process_rejects_before_writing_witness:
  "process demo_lib demo_db (demo_pgn\<lparr>pg_moves := [''a'', ''xx'']\<rparr>) [] = (Inl Import_Parse_Error, [])"
proof -
  let ?pgn = "demo_pgn\<lparr>pg_moves := [''a'', ''xx'']\<rparr>"
  have enc: "encode_san_moves demo_lib (new_board demo_lib) (pg_moves ?pgn) = None"
    by (simp add: demo_lib_def apply_san_def new_board_def Let_def)
  obtain err db' where p: "process demo_lib demo_db ?pgn [] = (Inl err, db')"
    using enc by (simp add: process_def)
  from process_rejects_before_writing [OF p] enc show ?thesis using p by simp
qed

end
