(* ===== verification/Checkpoint.thy ===== *)
theory Checkpoint
  imports Streams Pgn_Import
begin

text \<open>
  \<open>source/motif/import/checkpoint.cpp\<close>: the file that records how far an import has come. The JSON library is the parameter
  \<open>json\<close>: a writer that may fail and a reader.

  A checkpoint is small, so its text stays in the buffer of the stream until the stream is closed. The source leaves that to
  the destructor, which reports nothing: a device error at that point (\<open>Close\<close> of the path among the faults) loses the
  text and leaves an empty file.
\<close>

record import_checkpoint =
  cp_source_path :: string
  cp_byte_offset :: nat
  cp_games_committed :: int
  cp_last_game_id :: int

record json_codec =
  js_write :: "import_checkpoint \<Rightarrow> bytes option"
  js_read :: "bytes \<Rightarrow> import_checkpoint option"

text \<open>What is relied on of the library: it reads back what it wrote.\<close>
definition json_faithful :: "json_codec \<Rightarrow> bool" where
  "json_faithful json \<longleftrightarrow> (\<forall>cp bs. js_write json cp = Some bs \<longrightarrow> js_read json bs = Some cp)"

definition checkpoint_path :: "path \<Rightarrow> path" where
  "checkpoint_path db_dir = db_dir @ ''/import.checkpoint.json''"

definition checkpoint_temp_path :: "path \<Rightarrow> path" where
  "checkpoint_temp_path db_dir = checkpoint_path db_dir @ ''.tmp''"

text \<open>The destructor of a stream whose data is still in its buffer.\<close>
definition ofstream_destroy :: "ofstream \<Rightarrow> filesystem \<Rightarrow> filesystem" where
  "ofstream_destroy os fs =
     (if fs_fault fs (Close (os_path os)) then fs else fs\<lparr>fs_files := (fs_files fs)(os_path os := Some (os_data os))\<rparr>)"

definition write_checkpoint :: "json_codec \<Rightarrow> path \<Rightarrow> import_checkpoint \<Rightarrow> filesystem \<Rightarrow> unit import_result \<times> filesystem" where
  "write_checkpoint json db_dir checkpoint fs =
     (case js_write json checkpoint of
        None \<Rightarrow> (Inl Import_Io_Failure, fs)
      | Some buffer \<Rightarrow>
          let path = checkpoint_path db_dir; temp_path = checkpoint_temp_path db_dir in
          (case ofstream_open temp_path fs of
             (None, fs) \<Rightarrow> (Inl Import_Io_Failure, fs)
           | (Some file, fs) \<Rightarrow>
               let file = ofstream_write buffer file; fs = ofstream_destroy file fs in
               if \<not> os_ok file then (Inl Import_Io_Failure, fs)
               else case fs_rename temp_path path fs of
                   (True, fs) \<Rightarrow> (Inr (), fs)
                 | (False, fs) \<Rightarrow> (Inl Import_Io_Failure, fs_discard temp_path fs)))"

definition read_checkpoint :: "json_codec \<Rightarrow> path \<Rightarrow> filesystem \<Rightarrow> import_checkpoint import_result" where
  "read_checkpoint json db_dir fs =
     (if fs_files fs (checkpoint_path db_dir) = None then Inl Import_Not_Found
      else case ifstream_open (checkpoint_path db_dir) fs of
          None \<Rightarrow> Inl Import_Io_Failure
        | Some input \<Rightarrow>
            (case js_read json (is_data input) of None \<Rightarrow> Inl Import_Io_Failure | Some checkpoint \<Rightarrow> Inr checkpoint))"

definition delete_checkpoint :: "path \<Rightarrow> filesystem \<Rightarrow> filesystem" where
  "delete_checkpoint db_dir fs = fs_discard (checkpoint_path db_dir) fs"

section \<open>What a write leaves\<close>

lemma checkpoint_paths [simp]: "checkpoint_temp_path d \<noteq> checkpoint_path d" "checkpoint_path d \<noteq> checkpoint_temp_path d"
  by (simp_all add: checkpoint_temp_path_def)

lemma ofstream_write_path [simp]: "os_path (ofstream_write bs os) = os_path os"
  by (simp add: ofstream_write_def)

lemma write_checkpoint_Inl:
  "write_checkpoint json d cp fs = (Inl err, fs') \<Longrightarrow> fs_files fs' (checkpoint_path d) = fs_files fs (checkpoint_path d)"
  by (auto simp: write_checkpoint_def ofstream_open_def ofstream_destroy_def fs_rename_def fs_discard_def fs_remove_def Let_def
      split: option.splits if_splits)

lemma write_checkpoint_Inr:
  assumes "write_checkpoint json d cp fs = (Inr u, fs')"
  shows "\<exists>bs. js_write json cp = Some bs
     \<and> fs_files fs' (checkpoint_path d) = Some (if fs_fault fs (Close (checkpoint_temp_path d)) then [] else bs)"
  using assms
  by (auto simp: write_checkpoint_def ofstream_open_def ofstream_write_def ofstream_destroy_def fs_rename_def Let_def
      split: option.splits if_splits)

lemma write_checkpoint_fault: "fs_fault (snd (write_checkpoint json d cp fs)) = fs_fault fs"
  by (auto simp: write_checkpoint_def ofstream_open_def ofstream_destroy_def fs_rename_def fs_discard_def fs_remove_def Let_def
      split: option.splits if_splits)

lemma write_checkpoint_readback:
  assumes "json_faithful json" and "\<not> fs_fault fs (Close (checkpoint_temp_path d))" and "\<not> fs_fault fs (Open_Read (checkpoint_path d))"
    and "write_checkpoint json d cp fs = (res, fs')"
  shows "read_checkpoint json d fs' = (case res of Inr _ \<Rightarrow> Inr cp | Inl _ \<Rightarrow> read_checkpoint json d fs)"
proof (cases res)
  case (Inl err)
  then have "fs_files fs' (checkpoint_path d) = fs_files fs (checkpoint_path d)" "fs_fault fs' = fs_fault fs"
    using write_checkpoint_Inl assms(4) write_checkpoint_fault [of json d cp fs] by auto
  then show ?thesis using Inl by (simp add: read_checkpoint_def ifstream_open_def)
next
  case (Inr u)
  then show ?thesis
    using write_checkpoint_Inr [of json d cp fs u fs'] assms write_checkpoint_fault [of json d cp fs]
    by (auto simp: read_checkpoint_def ifstream_open_def json_faithful_def)
qed

text \<open>
  C18: A checkpoint that was written without a device error reads back as it was, and one that could not be written leaves
  the previous checkpoint readable: the file is replaced in one step or not at all.\<close>
theorem checkpoint_written_or_kept:
  assumes "json_faithful json" and "\<not> fs_fault fs (Close (checkpoint_temp_path d))" and "\<not> fs_fault fs (Open_Read (checkpoint_path d))"
    and "write_checkpoint json d cp fs = (res, fs')"
  shows "read_checkpoint json d fs' = (case res of Inr _ \<Rightarrow> Inr cp | Inl _ \<Rightarrow> read_checkpoint json d fs)"
  using assms by (rule write_checkpoint_readback)


section \<open>Witnesses\<close>

definition demo_json :: json_codec where
  "demo_json = \<lparr>js_write = (\<lambda>cp. if cp_source_path cp = [] \<and> cp_byte_offset cp < 256 \<and> cp_games_committed cp = 0 \<and> cp_last_game_id cp = 0
       then Some [of_nat (cp_byte_offset cp)] else None),
     js_read = (\<lambda>bs. case bs of [b] \<Rightarrow> Some \<lparr>cp_source_path = [], cp_byte_offset = unat b, cp_games_committed = 0, cp_last_game_id = 0\<rparr>
       | _ \<Rightarrow> None)\<rparr>"

definition demo_checkpoint :: import_checkpoint where
  "demo_checkpoint = \<lparr>cp_source_path = [], cp_byte_offset = 7, cp_games_committed = 0, cp_last_game_id = 0\<rparr>"

definition demo_fs :: "(fs_op \<Rightarrow> bool) \<Rightarrow> filesystem" where
  "demo_fs fault = \<lparr>fs_files = Map.empty, fs_fault = fault, fs_quota = (\<lambda>_. None)\<rparr>"

lemma demo_json_faithful: "json_faithful demo_json"
  unfolding json_faithful_def
proof (intro allI impI)
  fix cp bs assume "js_write demo_json cp = Some bs"
  then have "bs = [of_nat (cp_byte_offset cp)]" "cp_byte_offset cp < 256" "cp_source_path cp = []" "cp_games_committed cp = 0"
    "cp_last_game_id cp = 0" by (auto simp: demo_json_def split: if_splits)
  then show "js_read demo_json bs = Some cp" by (cases cp) (simp add: demo_json_def unat_of_nat_less)
qed

theorem checkpoint_written_or_kept_witness:
  "read_checkpoint demo_json ''db'' (snd (write_checkpoint demo_json ''db'' demo_checkpoint (demo_fs (\<lambda>_. False)))) = Inr demo_checkpoint"
proof -
  obtain fs' where "write_checkpoint demo_json ''db'' demo_checkpoint (demo_fs (\<lambda>_. False)) = (Inr (), fs')"
    by (simp add: write_checkpoint_def demo_fs_def demo_json_def demo_checkpoint_def ofstream_open_def ofstream_write_def
        ofstream_destroy_def fs_rename_def Let_def)
  from checkpoint_written_or_kept [OF demo_json_faithful _ _ this] this show ?thesis by (simp add: demo_fs_def)
qed


end
