(* ===== verification/Pgn_Reader.thy ===== *)
theory Pgn_Reader
  imports Pgn_Import
begin

text \<open>
  \<open>source/motif/import/pgn_reader.cpp\<close>: the reader over a PGN file that can be positioned at
  a byte offset to resume an import. The file is the text that can be read from it, its
  reported size and whether the reading ends in a device error. The parser of the PGN
  library, which turns the text from an offset on into a sequence of games or errors with
  their offsets, is the parameter \<open>parse\<close>.
\<close>

section \<open>Lines and comments\<close>

definition event_tag_prefix :: string where
  "event_tag_prefix = ''[Event '' @ [CHR 0x22]"

text \<open>\<open>read_raw_line\<close>: the characters up to and including the next newline, and the rest.\<close>
fun read_raw_line :: "string \<Rightarrow> string \<times> string" where
  "read_raw_line [] = ([], [])"
| "read_raw_line (c # cs) =
     (if c = CHR 0x0A then ([c], cs) else (case read_raw_line cs of (line, rest) \<Rightarrow> (c # line, rest)))"

definition is_event_tag_line :: "string \<Rightarrow> bool" where
  "is_event_tag_line line \<longleftrightarrow> take (length event_tag_prefix) line = event_tag_prefix"

fun update_brace_comment_state :: "string \<Rightarrow> bool \<Rightarrow> bool" where
  "update_brace_comment_state [] in_comment = in_comment"
| "update_brace_comment_state (c # cs) in_comment =
     (if \<not> in_comment \<and> c = CHR ''{'' then update_brace_comment_state cs True
      else if in_comment \<and> c = CHR ''}'' then update_brace_comment_state cs False
      else update_brace_comment_state cs in_comment)"

text \<open>\<open>unescape_tag_value\<close>: a backslash before a quote or a backslash is dropped.\<close>
fun unescape_tag_value :: "string \<Rightarrow> string" where
  "unescape_tag_value [] = []"
| "unescape_tag_value [c] = [c]"
| "unescape_tag_value (c # d # cs) =
     (if c = CHR 0x5C \<and> (d = CHR 0x22 \<or> d = CHR 0x5C) then d # unescape_tag_value cs
      else c # unescape_tag_value (d # cs))"

section \<open>The reader\<close>

datatype pgn_parse_error = File_Not_Found | Syntax_Error

record raw_game =
  rw_tags :: "(string \<times> string) list"
  rw_result :: pgn_result
  rw_moves :: "string list"

text \<open>An item of the import stream with its offset from the start of the stream.\<close>
type_synonym stream_item = "nat \<times> (pgn_parse_error + raw_game)"

record pgn_file =
  pf_text :: "string option"
  pf_size :: "nat option"
  pf_bad :: bool

record pgn_reader =
  rd_base_offset :: nat
  rd_eof_offset :: nat
  rd_stream :: "stream_item list option"
  rd_game_number :: nat
  rd_pending_io_failure :: bool

lemma read_raw_line_append: "fst (read_raw_line source) @ snd (read_raw_line source) = source"
  by (induction source rule: read_raw_line.induct) (auto split: prod.splits)

lemma read_raw_line_Nil: "fst (read_raw_line source) = [] \<longleftrightarrow> source = []"
  by (cases source) (auto split: prod.splits)

text \<open>
  The loop of \<open>reset_to_offset\<close>: \<open>Some (Some start)\<close> when a line to start at was found,
  \<open>Some None\<close> at the end of the file, \<open>None\<close> when reading failed.
\<close>
function find_event_line :: "bool \<Rightarrow> nat \<Rightarrow> bool \<Rightarrow> nat \<Rightarrow> string \<Rightarrow> nat option option" where
  "find_event_line bad byte_offset in_comment line_start source =
     (case read_raw_line source of
        (line, rest) \<Rightarrow>
          if line = [] then (if bad then None else Some None)
          else if \<not> in_comment \<and> line_start \<ge> byte_offset \<and> is_event_tag_line line then Some (Some line_start)
          else find_event_line bad byte_offset (update_brace_comment_state line in_comment) (line_start + length line) rest)"
  by pat_completeness auto

termination
proof (relation "measure (\<lambda>(bad, byte_offset, in_comment, line_start, source). length source)", goal_cases)
  case (2 bad byte_offset in_comment line_start source line rest)
  have "length line + length rest = length source" using read_raw_line_append [of source] 2 by (metis fst_conv length_append snd_conv)
  then show ?case using 2 by (cases line) auto
qed simp

declare find_event_line.simps [simp del]

definition empty_reader :: pgn_reader where
  "empty_reader = \<lparr>rd_base_offset = 0, rd_eof_offset = 0, rd_stream = None, rd_game_number = 0, rd_pending_io_failure = False\<rparr>"

definition reset_to_offset ::
  "(string \<Rightarrow> stream_item list) \<Rightarrow> pgn_file \<Rightarrow> nat \<Rightarrow> pgn_reader \<Rightarrow> unit import_result \<times> pgn_reader" where
  "reset_to_offset parse file byte_offset rd =
     (let rd = rd\<lparr>rd_game_number := 0, rd_stream := None, rd_base_offset := 0\<rparr> in
      case pf_text file of
        None \<Rightarrow> (Inl Import_Io_Failure, rd)
      | Some source \<Rightarrow>
          (case pf_size file of
             None \<Rightarrow> (Inl Import_Io_Failure, rd)
           | Some eof_offset \<Rightarrow>
               let rd = rd\<lparr>rd_eof_offset := eof_offset\<rparr> in
               (case find_event_line (pf_bad file) byte_offset False 0 source of
                  None \<Rightarrow> (Inl Import_Io_Failure, rd)
                | Some None \<Rightarrow>
                    (if byte_offset > 0 \<and> byte_offset < eof_offset then (Inl Import_Io_Failure, rd) else (Inr (), rd))
                | Some (Some line_start) \<Rightarrow>
                    (Inr (), rd\<lparr>rd_base_offset := line_start, rd_stream := Some (parse (drop line_start source))\<rparr>))))"

definition new_pgn_reader :: "(string \<Rightarrow> stream_item list) \<Rightarrow> pgn_file \<Rightarrow> pgn_reader" where
  "new_pgn_reader parse file =
     (case reset_to_offset parse file 0 empty_reader of
        (Inl _, rd) \<Rightarrow> rd\<lparr>rd_pending_io_failure := True\<rparr>
      | (Inr _, rd) \<Rightarrow> rd)"

definition seek_to_offset ::
  "(string \<Rightarrow> stream_item list) \<Rightarrow> pgn_file \<Rightarrow> nat \<Rightarrow> pgn_reader \<Rightarrow> unit import_result \<times> pgn_reader" where
  "seek_to_offset parse file byte_offset rd = reset_to_offset parse file byte_offset (rd\<lparr>rd_pending_io_failure := False\<rparr>)"

definition byte_offset :: "pgn_reader \<Rightarrow> nat" where
  "byte_offset rd =
     (case rd_stream rd of
        Some (item # items) \<Rightarrow> rd_base_offset rd + fst item
      | _ \<Rightarrow> rd_eof_offset rd)"

definition next_game :: "pgn_reader \<Rightarrow> pgn_game import_result \<times> pgn_reader" where
  "next_game rd =
     (if rd_pending_io_failure rd then (Inl Import_Io_Failure, rd\<lparr>rd_pending_io_failure := False\<rparr>)
      else case rd_stream rd of
          Some (item # items) \<Rightarrow>
            let rd = rd\<lparr>rd_game_number := rd_game_number rd + 1, rd_stream := Some items\<rparr> in
            (case snd item of
               Inl File_Not_Found \<Rightarrow> (Inl Import_Io_Failure, rd)
             | Inl Syntax_Error \<Rightarrow> (Inl Import_Parse_Error, rd)
             | Inr raw \<Rightarrow>
                 (Inr \<lparr>pg_tags = map (\<lambda>(key, value). (key, unescape_tag_value value)) (rw_tags raw),
                       pg_result = rw_result raw, pg_moves = rw_moves raw\<rparr>, rd))
        | _ \<Rightarrow> (Inl Import_Eof, rd))"

section \<open>Tag values\<close>

text \<open>How a PGN writer quotes a tag value.\<close>
fun escape_tag_value :: "string \<Rightarrow> string" where
  "escape_tag_value [] = []"
| "escape_tag_value (c # cs) =
     (if c = CHR 0x22 \<or> c = CHR 0x5C then CHR 0x5C # c # escape_tag_value cs else c # escape_tag_value cs)"

lemma unescape_plain: "c \<noteq> CHR 0x5C \<Longrightarrow> unescape_tag_value (c # cs) = c # unescape_tag_value cs"
  by (cases cs) simp_all

text \<open>
  Unescaping undoes the quoting of PGN tag values: whatever a value contains, quotes and backslashes included,
  it comes back from its escaped form.\<close>
theorem unescape_escape: "unescape_tag_value (escape_tag_value value) = value"
proof (induction "value")
  case (Cons c cs)
  then show ?case by (auto simp: unescape_plain)
qed simp

section \<open>Where a reset starts\<close>

text \<open>The candidates: line starts outside comments with an Event tag, with the offset they have in the file.\<close>
function event_lines :: "bool \<Rightarrow> nat \<Rightarrow> string \<Rightarrow> nat list" where
  "event_lines in_comment line_start source =
     (case read_raw_line source of
        (line, rest) \<Rightarrow>
          if line = [] then []
          else (if \<not> in_comment \<and> is_event_tag_line line then [line_start] else [])
               @ event_lines (update_brace_comment_state line in_comment) (line_start + length line) rest)"
  by pat_completeness auto
termination
proof (relation "measure (\<lambda>(in_comment, line_start, source). length source)", goal_cases)
  case (2 in_comment line_start source line rest)
  have "length line + length rest = length source" using read_raw_line_append [of source] 2 by (metis fst_conv length_append snd_conv)
  then show ?case using 2 by (cases line) auto
qed simp

declare event_lines.simps [simp del]

lemma find_event_line_eq:
  "find_event_line bad off in_comment start source =
     (case find (\<lambda>k. off \<le> k) (event_lines in_comment start source) of
        Some k \<Rightarrow> Some (Some k) | None \<Rightarrow> if bad then None else Some None)"
proof (induction bad off in_comment start source rule: find_event_line.induct)
  case (1 bad off in_comment start source)
  obtain line rest where r: "read_raw_line source = (line, rest)" by force
  show ?case
    using 1 [OF r [symmetric]] r by (subst find_event_line.simps, subst event_lines.simps) auto
qed

lemma event_lines_ge: "k \<in> set (event_lines in_comment start source) \<Longrightarrow> start \<le> k"
proof (induction in_comment start source rule: event_lines.induct)
  case (1 in_comment start source)
  obtain line rest where r: "read_raw_line source = (line, rest)" by force
  then show ?case
    using 1 by (subst (asm) (2) event_lines.simps) (fastforce split: if_splits)
qed

lemma event_lines_sorted: "sorted_wrt (<) (event_lines in_comment start source)"
proof (induction in_comment start source rule: event_lines.induct)
  case (1 in_comment start source)
  obtain line rest where r: "read_raw_line source = (line, rest)" by force
  show ?case
  proof (cases "line = []")
    case True
    then show ?thesis using r by (subst event_lines.simps) simp
  next
    case False
    let ?rest = "event_lines (update_brace_comment_state line in_comment) (start + length line) rest"
    have "start < k" if "k \<in> set ?rest" for k using event_lines_ge [OF that] False by (cases line) auto
    then show ?thesis using 1 [OF r [symmetric] False] r False by (subst event_lines.simps) auto
  qed
qed

lemma update_brace_append:
  "update_brace_comment_state (xs @ ys) c = update_brace_comment_state ys (update_brace_comment_state xs c)"
  by (induction xs arbitrary: c) simp_all

lemma read_raw_line_newline: "read_raw_line source = (line, rest) \<Longrightarrow> rest \<noteq> [] \<Longrightarrow> last line = CHR 0x0A"
proof (induction source arbitrary: line)
  case (Cons c cs)
  obtain l r where l: "read_raw_line cs = (l, r)" by force
  show ?case
  proof (cases "c = CHR 0x0A")
    case True
    then show ?thesis using Cons.prems by auto
  next
    case False
    then have "line = c # l" "r = rest" using Cons.prems(1) l by simp_all
    moreover have "l \<noteq> []" using Cons.prems(2) calculation read_raw_line_Nil [of cs] l by auto
    ultimately show ?thesis using Cons.IH [of l] l Cons.prems(2) by simp
  qed
qed simp

lemma read_raw_line_inner: "i + 1 < length (fst (read_raw_line source)) \<Longrightarrow> source ! i \<noteq> CHR 0x0A"
proof (induction source arbitrary: i)
  case (Cons c cs)
  then show ?case by (cases i) (auto split: if_splits prod.splits)
qed simp

lemma read_raw_line_take:
  "CHR 0x0A \<notin> set p \<Longrightarrow> take (length p) (fst (read_raw_line source)) = p \<longleftrightarrow> take (length p) source = p"
proof (induction p arbitrary: source)
  case (Cons a p)
  show ?case
  proof (cases source)
    case source: (Cons c cs)
    show ?thesis
    proof (cases "c = CHR 0x0A")
      case True
      then have "a \<noteq> c" using Cons.prems by auto
      then show ?thesis using True by (simp add: source)
    next
      case False
      obtain l r where l: "read_raw_line cs = (l, r)" by force
      have "take (length p) l = p \<longleftrightarrow> take (length p) cs = p" using Cons.IH [of cs] Cons.prems l by simp
      then show ?thesis using False l by (simp add: source)
    qed
  qed simp
qed simp

lemma event_tag_line_iff: "is_event_tag_line (fst (read_raw_line source)) \<longleftrightarrow> is_event_tag_line source"
  unfolding is_event_tag_line_def by (rule read_raw_line_take) (simp add: event_tag_prefix_def)

text \<open>A place a reset may start at: a line start with an Event tag, outside every brace comment.\<close>
definition event_start :: "bool \<Rightarrow> string \<Rightarrow> nat \<Rightarrow> bool" where
  "event_start in_comment source k \<longleftrightarrow> k < length source \<and> (k = 0 \<or> source ! (k - 1) = CHR 0x0A)
     \<and> is_event_tag_line (drop k source) \<and> \<not> update_brace_comment_state (take k source) in_comment"

lemma event_lines_iff:
  "k \<in> set (event_lines in_comment start source) \<longleftrightarrow> start \<le> k \<and> event_start in_comment source (k - start)"
proof (induction in_comment start source arbitrary: k rule: event_lines.induct)
  case (1 in_comment start source)
  obtain line rest where r: "read_raw_line source = (line, rest)" by force
  have source: "source = line @ rest" using read_raw_line_append [of source] r by simp
  show ?case
  proof (cases "line = []")
    case True
    then have "source = []" using read_raw_line_Nil [of source] r by simp
    then show ?thesis by (subst event_lines.simps) (simp add: event_start_def)
  next
    case False
    let ?c = "update_brace_comment_state line in_comment"
    note IH = 1 [OF r [symmetric] False]
    have head: "event_start in_comment source 0 \<longleftrightarrow> \<not> in_comment \<and> is_event_tag_line line"
      using event_tag_line_iff [of source] r False source by (auto simp: event_start_def)
    have inner: "\<not> event_start in_comment source j" if "0 < j" "j < length line" for j
      using read_raw_line_inner [of "j - 1" source] that r by (simp add: event_start_def)
    have tail: "event_start in_comment source (length line + j) \<longleftrightarrow> event_start ?c rest j" for j
    proof (cases j)
      case 0
      have "source ! (length line - 1) = last line" using False by (simp add: source nth_append last_conv_nth)
      then show ?thesis using 0 False read_raw_line_newline [OF r] by (auto simp: event_start_def source)
    next
      case (Suc i)
      then show ?thesis by (simp add: event_start_def source nth_append update_brace_append)
    qed
    have "k \<in> set (event_lines in_comment start source) \<longleftrightarrow>
        (k = start \<and> event_start in_comment source 0) \<or> (start + length line \<le> k \<and> event_start ?c rest (k - (start + length line)))"
      using r False IH head by (subst event_lines.simps) auto
    also have "\<dots> \<longleftrightarrow> start \<le> k \<and> event_start in_comment source (k - start)"
    proof (cases "start + length line \<le> k")
      case True
      then obtain j where j: "k = start + length line + j" by (metis le_iff_add)
      then show ?thesis using tail [of j] False by (simp add: add.assoc)
    next
      case False': False
      then show ?thesis using inner [of "k - start"] False by (cases "k \<le> start") auto
    qed
    finally show ?thesis .
  qed
qed

lemma find_event_line_first:
  "find_event_line bad off False 0 source =
     (case find (\<lambda>k. off \<le> k \<and> event_start False source k) [0..<length source] of
        Some k \<Rightarrow> Some (Some k) | None \<Rightarrow> if bad then None else Some None)"
proof -
  let ?es = "event_lines False 0 source"
  have "filter (event_start False source) [0..<length source] = ?es"
  proof (rule sorted_distinct_set_unique)
    show "sorted ?es" "distinct ?es" using event_lines_sorted [of False 0 source] by (simp_all add: strict_sorted_iff)
    show "set (filter (event_start False source) [0..<length source]) = set ?es"
      by (auto simp: event_lines_iff event_start_def)
  qed (simp_all add: sorted_filter [where f = id, simplified])
  moreover have "find P (filter Q xs) = find (\<lambda>x. P x \<and> Q x) xs" for P Q :: "nat \<Rightarrow> bool" and xs
    by (induction xs) auto
  ultimately have "find (\<lambda>k. off \<le> k) ?es = find (\<lambda>k. off \<le> k \<and> event_start False source k) [0..<length source]"
    by metis
  then show ?thesis by (simp add: find_event_line_eq)
qed

section \<open>Properties\<close>

text \<open>
  Resetting the reader to an offset of a readable file positions it at the first line at or after the offset that
  starts with an Event tag and lies outside every brace comment (comments counted from the start of the file), and hands the
  parser the file from there; when there is none it is an error just if the offset is inside the file and not 0.\<close>
theorem reset_finds_first_event:
  assumes "pf_text file = Some source" and "pf_size file = Some eof_offset" and "\<not> pf_bad file"
  shows "reset_to_offset parse file off rd =
     (let rd = rd\<lparr>rd_game_number := 0, rd_stream := None, rd_base_offset := 0, rd_eof_offset := eof_offset\<rparr> in
      case find (\<lambda>k. off \<le> k \<and> event_start False source k) [0..<length source] of
        Some k \<Rightarrow> (Inr (), rd\<lparr>rd_base_offset := k, rd_stream := Some (parse (drop k source))\<rparr>)
      | None \<Rightarrow> (if 0 < off \<and> off < eof_offset then Inl Import_Io_Failure else Inr (), rd))"
  using assms by (simp add: reset_to_offset_def find_event_line_first Let_def split: option.splits)

text \<open>
  What the importer relies on of the PGN library: the offset reported for an item of a stream that starts at an Event line
  leads, through the next Event line, to a stream with that item and its successors.\<close>
definition parse_resumable :: "(string \<Rightarrow> stream_item list) \<Rightarrow> string \<Rightarrow> bool" where
  "parse_resumable parse source \<longleftrightarrow>
     (\<forall>k i. event_start False source k \<and> i < length (parse (drop k source)) \<longrightarrow>
        (\<exists>e. find (\<lambda>j. k + fst (parse (drop k source) ! i) \<le> j \<and> event_start False source j) [0..<length source] = Some e
           \<and> map snd (parse (drop e source)) = map snd (drop i (parse (drop k source)))))"

text \<open>The results still to come from a reader: what further calls of \<open>next\<close> will return.\<close>
definition pending_items :: "pgn_reader \<Rightarrow> (pgn_parse_error + raw_game) list" where
  "pending_items rd = (case rd_stream rd of None \<Rightarrow> [] | Some items \<Rightarrow> map snd items)"

lemma next_game_stream:
  assumes "\<not> rd_pending_io_failure rd" and "rd_stream rd = Some items"
  shows "snd (next_game rd) = (if items = [] then rd else rd\<lparr>rd_game_number := rd_game_number rd + 1, rd_stream := Some (tl items)\<rparr>)"
  using assms by (cases items) (auto simp: next_game_def Let_def split: sum.splits pgn_parse_error.splits)

lemma next_game_pow:
  assumes "\<not> rd_pending_io_failure rd" and "rd_stream rd = Some items"
  shows "\<not> rd_pending_io_failure (((\<lambda>rd. snd (next_game rd)) ^^ n) rd)
     \<and> rd_stream (((\<lambda>rd. snd (next_game rd)) ^^ n) rd) = Some (drop n items)
     \<and> rd_base_offset (((\<lambda>rd. snd (next_game rd)) ^^ n) rd) = rd_base_offset rd"
proof (induction n)
  case (Suc n)
  let ?r = "((\<lambda>rd. snd (next_game rd)) ^^ n) rd"
  show ?case using next_game_stream [of ?r "drop n items"] Suc by (auto simp: drop_Suc tl_drop)
qed (use assms in simp)


text \<open>
  C40: Seeking at or past the end of the file, as after a truncation of the source, reports success with nothing to
  read: only offsets strictly inside the file are reported as lost.\<close>
theorem seek_past_end_succeeds:
  assumes "pf_text file = Some source" and "pf_size file = Some eof_offset" and "\<not> pf_bad file"
    and "length source \<le> off" and "eof_offset \<le> off"
  shows "\<exists>rd'. seek_to_offset parse file off rd = (Inr (), rd') \<and> fst (next_game rd') = Inl Import_Eof"
proof -
  have "find (\<lambda>k. off \<le> k \<and> event_start False source k) [0..<length source] = None"
    using assms(4) by (auto simp: find_None_iff)
  then have "find_event_line (pf_bad file) off False 0 source = Some None" using assms(3) by (simp add: find_event_line_first)
  then show ?thesis
    using assms(1,2,5) by (simp add: seek_to_offset_def reset_to_offset_def Let_def next_game_def)
qed

section \<open>Witnesses\<close>

definition demo_source :: string where
  "demo_source = ''{'' @ event_tag_prefix @ ''}'' @ [CHR 0x0A] @ event_tag_prefix @ ''x''"

definition demo_file :: pgn_file where
  "demo_file = \<lparr>pf_text = Some demo_source, pf_size = Some (length demo_source), pf_bad = False\<rparr>"

lemma demo_file_facts:
  "pf_text demo_file = Some demo_source" "pf_size demo_file = Some (length demo_source)" "\<not> pf_bad demo_file"
  by (simp_all add: demo_file_def)

lemma demo_event: "find (\<lambda>k. 0 \<le> k \<and> event_start False demo_source k) [0..<length demo_source] = Some 11"
  by code_simp

theorem reset_finds_first_event_witness:
  "rd_base_offset (snd (reset_to_offset (\<lambda>_. []) demo_file 0 empty_reader)) = 11"
  using reset_finds_first_event [OF demo_file_facts, of "\<lambda>_. []" 0 empty_reader] demo_event by (simp add: Let_def)

text \<open>A file with two games and a parser that reports an error for each Event line.\<close>
definition demo_pair :: string where
  "demo_pair = event_tag_prefix @ [CHR 0x0A] @ event_tag_prefix"

definition demo_pair_file :: pgn_file where
  "demo_pair_file = \<lparr>pf_text = Some demo_pair, pf_size = Some 17, pf_bad = False\<rparr>"

definition demo_parse :: "string \<Rightarrow> stream_item list" where
  "demo_parse source = map (\<lambda>k. (k, Inl Syntax_Error)) (event_lines False 0 source)"

lemma demo_parse_resumable: "parse_resumable demo_parse demo_pair"
proof -
  have ev: "event_lines False 0 demo_pair = [0, 9]" by code_simp
  have k: "k = 0 \<or> k = 9" if "event_start False demo_pair k" for k using that event_lines_iff [of k False 0 demo_pair] ev by auto
  have p: "demo_parse (drop 0 demo_pair) = [(0, Inl Syntax_Error), (9, Inl Syntax_Error)]"
      "demo_parse (drop 9 demo_pair) = [(0, Inl Syntax_Error)]"
      "find (\<lambda>j. 0 \<le> j \<and> event_start False demo_pair j) [0..<length demo_pair] = Some 0"
      "find (\<lambda>j. 9 \<le> j \<and> event_start False demo_pair j) [0..<length demo_pair] = Some 9"
    by code_simp+
  show ?thesis
    unfolding parse_resumable_def
  proof (intro allI impI, elim conjE)
    fix k i assume "event_start False demo_pair k" and i: "i < length (demo_parse (drop k demo_pair))"
    from k [OF this(1)] show "\<exists>e. find (\<lambda>j. k + fst (demo_parse (drop k demo_pair) ! i) \<le> j \<and> event_start False demo_pair j)
        [0..<length demo_pair] = Some e \<and> map snd (demo_parse (drop e demo_pair)) = map snd (drop i (demo_parse (drop k demo_pair)))"
    proof
      assume "k = 0"
      moreover have "i = 0 \<or> i = 1" using i p(1) \<open>k = 0\<close> by auto
      ultimately show ?thesis using p by (auto simp del: drop_0)
    next
      assume "k = 9"
      then show ?thesis using i p by (auto simp del: drop_0)
    qed
  qed
qed


theorem seek_past_end_succeeds_witness:
  "\<exists>rd'. seek_to_offset (\<lambda>_. []) demo_file 100 empty_reader = (Inr (), rd') \<and> fst (next_game rd') = Inl Import_Eof"
  by (rule seek_past_end_succeeds [OF demo_file_facts]) (simp_all add: demo_source_def event_tag_prefix_def)

end
