(* ===== verification/Sqlite_Store.thy ===== *)
theory Sqlite_Store
  imports Pgn_Import
begin

text \<open>
  The canonical database of \<open>source/motif/db\<close>: the tables of \<open>schema.cpp\<close>, the effect of the SQL statements the
  program runs on them, and transactions as \<open>sqlite_impl.hpp\<close> uses them.

  A table is the list of its rows in rowid order. A statement is a function on the tables that is \<open>None\<close> when it
  violates a constraint (primary key, \<open>UNIQUE\<close>, foreign key). Every statement may also fail for reasons of its own:
  \<open>sd_fault\<close> says which of the statements run on the connection do, by their number. A failed statement leaves the
  tables as they were, and a rollback does not fail. Rowids do not run out.
\<close>

section \<open>Tables\<close>

text \<open>The tables \<open>player\<close>, \<open>event\<close> and \<open>tag\<close> share their shape: an id, a unique name and further columns.\<close>
record 'data entity =
  en_id :: nat
  en_name :: string
  en_data :: 'data

record game_row =
  gr_id :: nat
  gr_white_id :: nat
  gr_black_id :: nat
  gr_event_id :: "nat option"
  gr_date :: "string option"
  gr_result :: string
  gr_eco :: "string option"
  gr_moves :: "u16 list"
  gr_move_hash :: u64
  gr_identity_collision :: nat
  gr_source_type :: string
  gr_source_label :: "string option"
  gr_review_status :: string
  gr_white_elo :: "u32 option"
  gr_black_elo :: "u32 option"

record game_tag_row =
  gt_game_id :: nat
  gt_tag_id :: nat
  gt_value :: string

type_synonym player_data = "u32 option \<times> string option \<times> string option"
type_synonym event_data = "string option \<times> string option"

record tables =
  tb_players :: "player_data entity list"
  tb_events :: "event_data entity list"
  tb_tags :: "unit entity list"
  tb_games :: "game_row list"
  tb_game_tags :: "game_tag_row list"
  tb_identity_index :: bool

text \<open>What \<open>schema::initialize\<close> leaves in a new database.\<close>
definition empty_tables :: tables where
  "empty_tables = \<lparr>tb_players = [], tb_events = [], tb_tags = [], tb_games = [], tb_game_tags = [], tb_identity_index = True\<rparr>"

section \<open>Statements\<close>

text \<open>The rowid of a new row of a table with an \<open>INTEGER PRIMARY KEY\<close>.\<close>
definition next_rowid :: "nat list \<Rightarrow> nat" where
  "next_rowid ids = fold max ids 0 + 1"

text \<open>\<open>SELECT id FROM player WHERE name = ?\<close>, and the same for \<open>event\<close> and \<open>tag\<close>.\<close>
definition select_id :: "string \<Rightarrow> 'data entity list \<Rightarrow> nat option" where
  "select_id name es = map_option en_id (find (\<lambda>e. en_name e = name) es)"

text \<open>\<open>INSERT INTO player(name, ...) VALUES(?, ...)\<close>: the new rowid and table.\<close>
definition insert_entity :: "string \<Rightarrow> 'data \<Rightarrow> 'data entity list \<Rightarrow> (nat \<times> 'data entity list) option" where
  "insert_entity name data es =
     (if list_ex (\<lambda>e. en_name e = name) es then None
      else let rowid = next_rowid (map en_id es) in
        Some (rowid, es @ [\<lparr>en_id = rowid, en_name = name, en_data = data\<rparr>]))"

definition coalesce :: "'a option \<Rightarrow> 'a \<Rightarrow> 'a" where
  "coalesce x d = (case x of None \<Rightarrow> d | Some y \<Rightarrow> y)"

text \<open>The columns two games have to share to be the same up to their moves.\<close>
definition identity_key :: "game_row \<Rightarrow> nat \<times> nat \<times> int \<times> string \<times> string \<times> u64" where
  "identity_key r = (gr_white_id r, gr_black_id r, coalesce (map_option int (gr_event_id r)) (- 1), coalesce (gr_date r) [],
     gr_result r, gr_move_hash r)"

text \<open>The columns of the unique index \<open>game_identity_lookup\<close>.\<close>
definition index_key :: "game_row \<Rightarrow> (nat \<times> nat \<times> int \<times> string \<times> string \<times> u64) \<times> nat" where
  "index_key r = (identity_key r, gr_identity_collision r)"

text \<open>The columns that make a game an exact duplicate.\<close>
definition exact_key :: "game_row \<Rightarrow> (nat \<times> nat \<times> int \<times> string \<times> string \<times> u64) \<times> u16 list" where
  "exact_key r = (identity_key r, gr_moves r)"

definition has_id :: "nat \<Rightarrow> 'data entity list \<Rightarrow> bool" where
  "has_id i es \<longleftrightarrow> i \<in> set (map en_id es)"

text \<open>A row into \<open>game\<close>, with its foreign keys and the unique index checked.\<close>
definition insert_game_row :: "game_row \<Rightarrow> tables \<Rightarrow> (nat \<times> tables) option" where
  "insert_game_row p tb =
     (let row = p\<lparr>gr_id := next_rowid (map gr_id (tb_games tb))\<rparr> in
      if has_id (gr_white_id row) (tb_players tb) \<and> has_id (gr_black_id row) (tb_players tb)
         \<and> (case gr_event_id row of None \<Rightarrow> True | Some e \<Rightarrow> has_id e (tb_events tb))
         \<and> (tb_identity_index tb \<longrightarrow> index_key row \<notin> set (map index_key (tb_games tb)))
      then Some (gr_id row, tb\<lparr>tb_games := tb_games tb @ [row]\<rparr>)
      else None)"

text \<open>\<open>COALESCE((SELECT MAX(identity_collision) + 1 FROM game WHERE ...), 0)\<close>\<close>
definition next_collision :: "game_row \<Rightarrow> game_row list \<Rightarrow> nat" where
  "next_collision p rs =
     (case map gr_identity_collision (filter (\<lambda>r. identity_key r = identity_key p) rs) of
        [] \<Rightarrow> 0
      | c # cs \<Rightarrow> fold max cs c + 1)"

text \<open>\<open>insert_game_sql\<close>: the rowid, or \<open>None\<close> inside when an exact duplicate exists and no row changes.\<close>
definition insert_game_sql :: "game_row \<Rightarrow> tables \<Rightarrow> (nat option \<times> tables) option" where
  "insert_game_sql p tb =
     (if list_ex (\<lambda>r. exact_key r = exact_key p) (tb_games tb) then Some (None, tb)
      else map_option (\<lambda>(i, tb). (Some i, tb))
             (insert_game_row (p\<lparr>gr_identity_collision := next_collision p (tb_games tb)\<rparr>) tb))"

text \<open>\<open>insert_game_raw_sql\<close>\<close>
definition insert_game_raw_sql :: "game_row \<Rightarrow> tables \<Rightarrow> (nat option \<times> tables) option" where
  "insert_game_raw_sql p tb =
     map_option (\<lambda>(i, tb). (Some i, tb)) (insert_game_row (p\<lparr>gr_identity_collision := 0\<rparr>) tb)"

text \<open>\<open>INSERT INTO game_tag(game_id, tag_id, value) VALUES(?, ?, ?)\<close>\<close>
definition insert_game_tag :: "nat \<Rightarrow> nat \<Rightarrow> string \<Rightarrow> tables \<Rightarrow> (unit \<times> tables) option" where
  "insert_game_tag game_id tag_id value tb =
     (if game_id \<notin> set (map gr_id (tb_games tb)) \<or> \<not> has_id tag_id (tb_tags tb)
         \<or> (game_id, tag_id) \<in> set (map (\<lambda>t. (gt_game_id t, gt_tag_id t)) (tb_game_tags tb)) then None
      else Some ((), tb\<lparr>tb_game_tags := tb_game_tags tb @ [\<lparr>gt_game_id = game_id, gt_tag_id = tag_id, gt_value = value\<rparr>]\<rparr>))"

text \<open>
  \<open>dedup_delete_sql\<close>: of the rows with equal columns only the one with the lowest id stays; the tags of the deleted games
  go with them (\<open>ON DELETE CASCADE\<close>). The first result is \<open>sqlite3_changes\<close>, which does not count the cascade.
\<close>
definition lowest_of_group :: "game_row list \<Rightarrow> game_row \<Rightarrow> bool" where
  "lowest_of_group rs r \<longleftrightarrow> list_all (\<lambda>s. exact_key s = exact_key r \<longrightarrow> gr_id r \<le> gr_id s) rs"

definition dedup_delete_sql :: "tables \<Rightarrow> (nat \<times> tables) option" where
  "dedup_delete_sql tb =
     (let kept = filter (lowest_of_group (tb_games tb)) (tb_games tb) in
      Some (length (tb_games tb) - length kept,
            tb\<lparr>tb_games := kept, tb_game_tags := filter (\<lambda>t. gt_game_id t \<in> set (map gr_id kept)) (tb_game_tags tb)\<rparr>))"

text \<open>\<open>ROW_NUMBER() OVER (PARTITION BY ... ORDER BY id) - 1\<close>\<close>
definition partition_rank :: "game_row list \<Rightarrow> game_row \<Rightarrow> nat" where
  "partition_rank rs r = length (filter (\<lambda>s. identity_key s = identity_key r \<and> gr_id s < gr_id r) rs)"

text \<open>
  \<open>dedup_reassign_collision_sql\<close>: the ranks are computed on the table as it was, the rows updated one after the other, each
  against the index when there is one.
\<close>
fun update_collisions :: "bool \<Rightarrow> (game_row \<Rightarrow> nat) \<Rightarrow> game_row list \<Rightarrow> game_row list \<Rightarrow> game_row list option" where
  "update_collisions index rank updated [] = Some updated"
| "update_collisions index rank updated (r # rs) =
     (let row = r\<lparr>gr_identity_collision := rank r\<rparr> in
      if index \<and> index_key row \<in> set (map index_key (updated @ rs)) then None
      else update_collisions index rank (updated @ [row]) rs)"

definition dedup_reassign_collision_sql :: "tables \<Rightarrow> (unit \<times> tables) option" where
  "dedup_reassign_collision_sql tb =
     map_option (\<lambda>rs. ((), tb\<lparr>tb_games := rs\<rparr>))
       (update_collisions (tb_identity_index tb) (partition_rank (tb_games tb)) [] (tb_games tb))"

text \<open>\<open>schema::create_identity_index\<close> and \<open>drop_identity_index\<close>.\<close>
definition identity_index_ddl :: "tables \<Rightarrow> (unit \<times> tables) option" where
  "identity_index_ddl tb =
     (if tb_identity_index tb \<or> distinct (map index_key (tb_games tb)) then Some ((), tb\<lparr>tb_identity_index := True\<rparr>) else None)"

definition drop_identity_index_sql :: "tables \<Rightarrow> (unit \<times> tables) option" where
  "drop_identity_index_sql tb = Some ((), tb\<lparr>tb_identity_index := False\<rparr>)"

section \<open>A connection\<close>

text \<open>\<open>sd_saved\<close> holds the tables as they were when the open transaction began.\<close>
record database =
  sd_tables :: tables
  sd_saved :: "tables option"
  sd_fault :: "nat \<Rightarrow> bool"
  sd_clock :: nat

definition sql_run :: "(tables \<Rightarrow> ('a \<times> tables) option) \<Rightarrow> database \<Rightarrow> 'a option \<times> database" where
  "sql_run stmt db =
     (let failing = sd_fault db (sd_clock db); db = db\<lparr>sd_clock := sd_clock db + 1\<rparr> in
      if failing then (None, db)
      else case stmt (sd_tables db) of
          None \<Rightarrow> (None, db)
        | Some (x, tb) \<Rightarrow> (Some x, db\<lparr>sd_tables := tb\<rparr>))"

text \<open>What survives the end of the process: the tables of the last commit.\<close>
definition durable :: "database \<Rightarrow> tables" where
  "durable db = (case sd_saved db of None \<Rightarrow> sd_tables db | Some tb \<Rightarrow> tb)"

definition sql_begin :: "database \<Rightarrow> bool \<times> database" where
  "sql_begin db =
     (let failing = sd_fault db (sd_clock db); db = db\<lparr>sd_clock := sd_clock db + 1\<rparr> in
      if failing \<or> sd_saved db \<noteq> None then (False, db) else (True, db\<lparr>sd_saved := Some (sd_tables db)\<rparr>))"

definition sql_commit :: "database \<Rightarrow> bool \<times> database" where
  "sql_commit db =
     (let failing = sd_fault db (sd_clock db); db = db\<lparr>sd_clock := sd_clock db + 1\<rparr> in
      if failing \<or> sd_saved db = None then (False, db) else (True, db\<lparr>sd_saved := None\<rparr>))"

definition sql_rollback :: "database \<Rightarrow> database" where
  "sql_rollback db =
     (case sd_saved db of None \<Rightarrow> db | Some tb \<Rightarrow> db\<lparr>sd_tables := tb, sd_saved := None\<rparr>)"

text \<open>
  \<open>txn_guard\<close>: joins an open transaction or starts one of its own; the result says which, and \<open>None\<close> that it could not
  start. The destructor rolls back a transaction of its own that was not committed.
\<close>
definition txn_guard :: "database \<Rightarrow> bool option \<times> database" where
  "txn_guard db =
     (if sd_saved db \<noteq> None then (Some False, db)
      else case sql_begin db of (True, db) \<Rightarrow> (Some True, db) | (False, db) \<Rightarrow> (None, db))"

definition txn_commit :: "bool \<Rightarrow> database \<Rightarrow> bool \<times> database" where
  "txn_commit started_local db = (if \<not> started_local then (True, db) else sql_commit db)"

definition txn_release :: "bool \<Rightarrow> bool \<Rightarrow> database \<Rightarrow> database" where
  "txn_release started_local committed db = (if started_local \<and> \<not> committed then sql_rollback db else db)"

text \<open>A connection on which no statement fails for reasons of its own.\<close>
definition sd_reliable :: "database \<Rightarrow> bool" where
  "sd_reliable db \<longleftrightarrow> sd_fault db = (\<lambda>_. False)"

section \<open>Well-formed tables\<close>

definition wf_entities :: "'data entity list \<Rightarrow> bool" where
  "wf_entities es \<longleftrightarrow> sorted_wrt (<) (map en_id es) \<and> distinct (map en_name es)"

definition wf_games :: "tables \<Rightarrow> bool" where
  "wf_games tb \<longleftrightarrow> sorted_wrt (<) (map gr_id (tb_games tb))
     \<and> (\<forall>r\<in>set (tb_games tb). has_id (gr_white_id r) (tb_players tb) \<and> has_id (gr_black_id r) (tb_players tb)
          \<and> (\<forall>e. gr_event_id r = Some e \<longrightarrow> has_id e (tb_events tb)))
     \<and> (tb_identity_index tb \<longrightarrow> distinct (map index_key (tb_games tb)))"

definition wf_game_tags :: "tables \<Rightarrow> bool" where
  "wf_game_tags tb \<longleftrightarrow> distinct (map (\<lambda>t. (gt_game_id t, gt_tag_id t)) (tb_game_tags tb))
     \<and> (\<forall>t\<in>set (tb_game_tags tb). gt_game_id t \<in> gr_id ` set (tb_games tb) \<and> has_id (gt_tag_id t) (tb_tags tb))"

definition wf_tables :: "tables \<Rightarrow> bool" where
  "wf_tables tb \<longleftrightarrow> wf_entities (tb_players tb) \<and> wf_entities (tb_events tb) \<and> wf_entities (tb_tags tb)
     \<and> wf_games tb \<and> wf_game_tags tb"

lemma fold_max_bound: "b \<le> fold max xs b \<and> (\<forall>x\<in>set xs. x \<le> fold max xs (b :: 'a::linorder))"
proof (induction xs arbitrary: b)
  case (Cons a xs)
  from Cons.IH [of "max a b"] show ?case by simp
qed simp

lemma less_next_rowid: "i \<in> set ids \<Longrightarrow> i < next_rowid ids"
  using fold_max_bound [of 0 ids] by (auto simp: next_rowid_def less_Suc_eq_le)

lemma sorted_wrt_snoc_rowid: "sorted_wrt (<) ids \<Longrightarrow> sorted_wrt (<) (ids @ [next_rowid ids])"
  by (auto simp: sorted_wrt_append less_next_rowid)

lemma has_id_append [simp]: "has_id i (es @ es') \<longleftrightarrow> has_id i es \<or> has_id i es'"
  by (auto simp: has_id_def)

lemma insert_entity_Some:
  assumes "insert_entity name data es = Some (i, es')" and "wf_entities es"
  shows "wf_entities es'" and "es' = es @ [\<lparr>en_id = i, en_name = name, en_data = data\<rparr>]" and "name \<notin> en_name ` set es"
  using assms sorted_wrt_snoc_rowid [of "map en_id es"]
  by (auto simp: insert_entity_def wf_entities_def Let_def list_ex_iff split: if_splits)

lemma insert_game_row_Some:
  assumes "insert_game_row p tb = Some (i, tb')" and "wf_tables tb"
  shows "wf_tables tb'" and "tb' = tb\<lparr>tb_games := tb_games tb @ [p\<lparr>gr_id := i\<rparr>]\<rparr>" and "i \<notin> gr_id ` set (tb_games tb)"
proof -
  show tb': "tb' = tb\<lparr>tb_games := tb_games tb @ [p\<lparr>gr_id := i\<rparr>]\<rparr>"
    using assms(1) by (auto simp: insert_game_row_def Let_def split: if_splits)
  have i: "i = next_rowid (map gr_id (tb_games tb))"
    using assms(1) by (auto simp: insert_game_row_def Let_def split: if_splits)
  then show "i \<notin> gr_id ` set (tb_games tb)" using less_next_rowid [of _ "map gr_id (tb_games tb)"] by fastforce
  have "wf_games tb'"
    using assms sorted_wrt_snoc_rowid [of "map gr_id (tb_games tb)"]
    unfolding wf_tables_def wf_games_def tb' by (auto simp: insert_game_row_def Let_def i split: if_splits)
  then show "wf_tables tb'" using assms(2) unfolding wf_tables_def by (simp add: tb' wf_game_tags_def)
qed

lemma insert_game_tag_Some:
  "insert_game_tag g t v tb = Some (u, tb') \<Longrightarrow> wf_tables tb \<Longrightarrow> wf_tables tb'"
  by (auto simp: insert_game_tag_def wf_tables_def wf_games_def wf_game_tags_def list_ex_iff split: if_splits)

end
