(* ===== verification/Game_Writer.thy ===== *)
theory Game_Writer
  imports Sqlite_Store
begin

text \<open>
  \<open>source/motif/db/game_writer.cpp\<close>: the writer of the canonical database. It caches the ids of players, events and tags,
  keeps its prepared statements, joins or opens a transaction for every insert, and offers a raw insert without the identity
  check together with the pass that reconciles the rows afterwards. \<open>XXH3_64bits\<close>, which hashes the moves, is the parameter
  \<open>xxh3\<close>; nothing is assumed of it.
\<close>

section \<open>State\<close>

datatype stmt_slot =
    Select_Player | Insert_Player | Select_Event | Insert_Event | Insert_Game | Insert_Game_Raw | Select_Tag | Insert_Tag
  | Insert_Game_Tag

record game_writer =
  gw_db :: database
  gw_player_ids :: "string \<Rightarrow> nat option"
  gw_event_ids :: "string \<Rightarrow> nat option"
  gw_tag_ids :: "string \<Rightarrow> nat option"
  gw_prepared :: "stmt_slot \<Rightarrow> bool"

definition new_game_writer :: "database \<Rightarrow> game_writer" where
  "new_game_writer db = \<lparr>gw_db = db, gw_player_ids = Map.empty, gw_event_ids = Map.empty, gw_tag_ids = Map.empty,
     gw_prepared = (\<lambda>_. False)\<rparr>"

text \<open>A step and, when it succeeds, the next one.\<close>
definition and_then :: "('s \<Rightarrow> 'a result \<times> 's) \<Rightarrow> ('a \<Rightarrow> 's \<Rightarrow> 'b result \<times> 's) \<Rightarrow> 's \<Rightarrow> 'b result \<times> 's" where
  "and_then m f s = (case m s of (Inl err, s) \<Rightarrow> (Inl err, s) | (Inr x, s) \<Rightarrow> f x s)"

definition gw_run :: "(tables \<Rightarrow> ('a \<times> tables) option) \<Rightarrow> game_writer \<Rightarrow> 'a option \<times> game_writer" where
  "gw_run stmt w = (case sql_run stmt (gw_db w) of (x, db) \<Rightarrow> (x, w\<lparr>gw_db := db\<rparr>))"

definition clear_insert_caches :: "game_writer \<Rightarrow> game_writer" where
  "clear_insert_caches w = w\<lparr>gw_player_ids := Map.empty, gw_event_ids := Map.empty, gw_tag_ids := Map.empty\<rparr>"

text \<open>Preparing may fail, but only once: the statement is kept.\<close>
definition prepare_cached_stmt :: "stmt_slot \<Rightarrow> game_writer \<Rightarrow> unit result \<times> game_writer" where
  "prepare_cached_stmt slot w =
     (if gw_prepared w slot then (Inr (), w)
      else case gw_run (\<lambda>tb. Some ((), tb)) w of
          (None, w) \<Rightarrow> (unexpected Io_Failure, w)
        | (Some _, w) \<Rightarrow> (Inr (), w\<lparr>gw_prepared := (gw_prepared w)(slot := True)\<rparr>))"

section \<open>Transactions\<close>

definition begin_transaction :: "game_writer \<Rightarrow> unit result \<times> game_writer" where
  "begin_transaction w =
     (case sql_begin (gw_db w) of (ok, db) \<Rightarrow> (if ok then Inr () else unexpected Io_Failure, w\<lparr>gw_db := db\<rparr>))"

definition commit_transaction :: "game_writer \<Rightarrow> unit result \<times> game_writer" where
  "commit_transaction w =
     (case sql_commit (gw_db w) of (ok, db) \<Rightarrow> (if ok then Inr () else unexpected Io_Failure, w\<lparr>gw_db := db\<rparr>))"

definition rollback_transaction :: "game_writer \<Rightarrow> game_writer" where
  "rollback_transaction w = clear_insert_caches (w\<lparr>gw_db := sql_rollback (gw_db w)\<rparr>)"

section \<open>Players, events and tags\<close>

text \<open>A \<open>SELECT\<close> as one looks at its first row: no row and an error are not told apart.\<close>
definition select_row :: "(tables \<Rightarrow> nat option) \<Rightarrow> tables \<Rightarrow> (nat \<times> tables) option" where
  "select_row query tb = map_option (\<lambda>i. (i, tb)) (query tb)"

definition insert_player_sql :: "player \<Rightarrow> tables \<Rightarrow> (nat \<times> tables) option" where
  "insert_player_sql plr tb =
     map_option (\<lambda>(i, es). (i, tb\<lparr>tb_players := es\<rparr>))
       (insert_entity (pl_name plr) (pl_elo plr, pl_title plr, pl_country plr) (tb_players tb))"

definition insert_event_sql :: "event \<Rightarrow> tables \<Rightarrow> (nat \<times> tables) option" where
  "insert_event_sql evt tb =
     map_option (\<lambda>(i, es). (i, tb\<lparr>tb_events := es\<rparr>)) (insert_entity (ev_name evt) (ev_site evt, ev_date evt) (tb_events tb))"

definition insert_tag_sql :: "string \<Rightarrow> tables \<Rightarrow> (nat \<times> tables) option" where
  "insert_tag_sql name tb = map_option (\<lambda>(i, es). (i, tb\<lparr>tb_tags := es\<rparr>)) (insert_entity name () (tb_tags tb))"

definition cache_player :: "string \<Rightarrow> nat \<Rightarrow> game_writer \<Rightarrow> game_writer" where
  "cache_player name i w = w\<lparr>gw_player_ids := (gw_player_ids w)(name \<mapsto> i)\<rparr>"

definition cache_event :: "string \<Rightarrow> nat \<Rightarrow> game_writer \<Rightarrow> game_writer" where
  "cache_event name i w = w\<lparr>gw_event_ids := (gw_event_ids w)(name \<mapsto> i)\<rparr>"

definition cache_tag :: "string \<Rightarrow> nat \<Rightarrow> game_writer \<Rightarrow> game_writer" where
  "cache_tag name i w = w\<lparr>gw_tag_ids := (gw_tag_ids w)(name \<mapsto> i)\<rparr>"

text \<open>The two statements behind a cache miss: look the name up, insert it when it is not there.\<close>
definition select_or_insert ::
  "stmt_slot \<Rightarrow> (tables \<Rightarrow> nat option) \<Rightarrow> stmt_slot \<Rightarrow> (tables \<Rightarrow> (nat \<times> tables) option) \<Rightarrow> game_writer \<Rightarrow> nat result \<times> game_writer" where
  "select_or_insert sel query ins stmt =
     and_then (prepare_cached_stmt sel) (\<lambda>_ w.
       case gw_run (select_row query) w of
         (Some i, w) \<Rightarrow> (Inr i, w)
       | (None, w) \<Rightarrow>
           and_then (prepare_cached_stmt ins) (\<lambda>_ w.
             case gw_run stmt w of
               (None, w) \<Rightarrow> (unexpected Io_Failure, w)
             | (Some i, w) \<Rightarrow> (Inr i, w)) w)"

definition find_or_insert_player :: "player \<Rightarrow> game_writer \<Rightarrow> nat result \<times> game_writer" where
  "find_or_insert_player plr w =
     (case gw_player_ids w (pl_name plr) of
        Some i \<Rightarrow> (Inr i, w)
      | None \<Rightarrow>
          and_then (select_or_insert Select_Player (\<lambda>tb. select_id (pl_name plr) (tb_players tb)) Insert_Player (insert_player_sql plr))
            (\<lambda>i w. (Inr i, cache_player (pl_name plr) i w)) w)"

definition find_or_insert_event :: "event \<Rightarrow> game_writer \<Rightarrow> nat result \<times> game_writer" where
  "find_or_insert_event evt w =
     (case gw_event_ids w (ev_name evt) of
        Some i \<Rightarrow> (Inr i, w)
      | None \<Rightarrow>
          and_then (select_or_insert Select_Event (\<lambda>tb. select_id (ev_name evt) (tb_events tb)) Insert_Event (insert_event_sql evt))
            (\<lambda>i w. (Inr i, cache_event (ev_name evt) i w)) w)"

definition find_or_insert_tag :: "string \<Rightarrow> game_writer \<Rightarrow> nat result \<times> game_writer" where
  "find_or_insert_tag name w =
     (case gw_tag_ids w name of
        Some i \<Rightarrow> (Inr i, w)
      | None \<Rightarrow>
          and_then (select_or_insert Select_Tag (\<lambda>tb. select_id name (tb_tags tb)) Insert_Tag (insert_tag_sql name))
            (\<lambda>i w. (Inr i, cache_tag name i w)) w)"

fun insert_game_tags :: "u32 \<Rightarrow> (string \<times> string) list \<Rightarrow> game_writer \<Rightarrow> unit result \<times> game_writer" where
  "insert_game_tags gid [] w = (Inr (), w)"
| "insert_game_tags gid (tag # tags) w =
     and_then (find_or_insert_tag (fst tag)) (\<lambda>tag_id.
       and_then (prepare_cached_stmt Insert_Game_Tag) (\<lambda>_ w.
         case gw_run (insert_game_tag (unat gid) tag_id (snd tag)) w of
           (None, w) \<Rightarrow> (unexpected Io_Failure, w)
         | (Some _, w) \<Rightarrow> insert_game_tags gid tags w)) w"

section \<open>Inserting games\<close>

text \<open>The parameters bound to the insert statement.\<close>
definition bound_game :: "(u16 list \<Rightarrow> u64) \<Rightarrow> db_game \<Rightarrow> nat \<Rightarrow> nat \<Rightarrow> nat option \<Rightarrow> game_row" where
  "bound_game xxh3 g white_id black_id event_id =
     \<lparr>gr_id = 0, gr_white_id = white_id, gr_black_id = black_id, gr_event_id = event_id, gr_date = dg_date g,
      gr_result = dg_result g, gr_eco = dg_eco g, gr_moves = dg_moves g, gr_move_hash = xxh3 (dg_moves g),
      gr_identity_collision = 0, gr_source_type = gp_source_type (dg_provenance g),
      gr_source_label = gp_source_label (dg_provenance g), gr_review_status = gp_review_status (dg_provenance g),
      gr_white_elo = pl_elo (dg_white g), gr_black_elo = pl_elo (dg_black g)\<rparr>"

definition insert_optional_event :: "event option \<Rightarrow> game_writer \<Rightarrow> nat option result \<times> game_writer" where
  "insert_optional_event details w =
     (case details of
        None \<Rightarrow> (Inr None, w)
      | Some evt \<Rightarrow> and_then (find_or_insert_event evt) (\<lambda>i w. (Inr (Some i), w)) w)"

text \<open>
  What \<open>insert\<close> and \<open>insert_raw\<close> do inside their transaction; they differ in the statement. No changed row means a
  duplicate. The id that is returned is the rowid cut to 32 bits.
\<close>
definition insert_body ::
  "stmt_slot \<Rightarrow> (game_row \<Rightarrow> tables \<Rightarrow> (nat option \<times> tables) option) \<Rightarrow> (u16 list \<Rightarrow> u64) \<Rightarrow> db_game
     \<Rightarrow> game_writer \<Rightarrow> u32 result \<times> game_writer" where
  "insert_body slot stmt xxh3 g =
     and_then (find_or_insert_player (dg_white g)) (\<lambda>white_id.
     and_then (find_or_insert_player (dg_black g)) (\<lambda>black_id.
     and_then (insert_optional_event (dg_event_details g)) (\<lambda>event_id.
     and_then (prepare_cached_stmt slot) (\<lambda>_ w.
       case gw_run (stmt (bound_game xxh3 g white_id black_id event_id)) w of
         (None, w) \<Rightarrow> (unexpected Io_Failure, w)
       | (Some changed, w) \<Rightarrow>
           (case changed of
              None \<Rightarrow> (unexpected Duplicate, w)
            | Some rowid \<Rightarrow>
                and_then (insert_game_tags (of_nat rowid) (dg_extra_tags g)) (\<lambda>_ w. (Inr (of_nat rowid), w)) w)))))"

text \<open>
  A body inside a \<open>txn_guard\<close>; what is left to do besides the rollback when it fails is \<open>on_failure\<close>. An insert drops the
  caches there (\<open>cache_rollback_guard\<close>).
\<close>
definition guarded :: "(game_writer \<Rightarrow> game_writer) \<Rightarrow> (game_writer \<Rightarrow> 'a result \<times> game_writer) \<Rightarrow> game_writer \<Rightarrow> 'a result \<times> game_writer" where
  "guarded on_failure body w =
     (case txn_guard (gw_db w) of
        (None, db) \<Rightarrow> (unexpected Io_Failure, w\<lparr>gw_db := db\<rparr>)
      | (Some started_local, db) \<Rightarrow>
          (case body (w\<lparr>gw_db := db\<rparr>) of
             (Inl err, w) \<Rightarrow> (Inl err, on_failure (w\<lparr>gw_db := txn_release started_local False (gw_db w)\<rparr>))
           | (Inr x, w) \<Rightarrow>
               (case txn_commit started_local (gw_db w) of
                  (True, db) \<Rightarrow> (Inr x, w\<lparr>gw_db := db\<rparr>)
                | (False, db) \<Rightarrow>
                    (unexpected Io_Failure, on_failure (w\<lparr>gw_db := txn_release started_local False db\<rparr>)))))"

definition gw_insert :: "(u16 list \<Rightarrow> u64) \<Rightarrow> db_game \<Rightarrow> game_writer \<Rightarrow> u32 result \<times> game_writer" where
  "gw_insert xxh3 g = guarded clear_insert_caches (insert_body Insert_Game insert_game_sql xxh3 g)"

definition gw_insert_raw :: "(u16 list \<Rightarrow> u64) \<Rightarrow> db_game \<Rightarrow> game_writer \<Rightarrow> u32 result \<times> game_writer" where
  "gw_insert_raw xxh3 g = guarded clear_insert_caches (insert_body Insert_Game_Raw insert_game_raw_sql xxh3 g)"

section \<open>The identity index\<close>

definition gw_exec :: "(tables \<Rightarrow> ('a \<times> tables) option) \<Rightarrow> game_writer \<Rightarrow> 'a result \<times> game_writer" where
  "gw_exec stmt w =
     (case gw_run stmt w of (None, w) \<Rightarrow> (unexpected Io_Failure, w) | (Some x, w) \<Rightarrow> (Inr x, w))"

definition drop_identity_index :: "game_writer \<Rightarrow> unit result \<times> game_writer" where
  "drop_identity_index = gw_exec drop_identity_index_sql"

definition create_identity_index :: "game_writer \<Rightarrow> unit result \<times> game_writer" where
  "create_identity_index = gw_exec identity_index_ddl"

text \<open>A prepare and a step, either of which may fail.\<close>
definition identity_index_exists :: "game_writer \<Rightarrow> bool result \<times> game_writer" where
  "identity_index_exists =
     and_then (gw_exec (\<lambda>tb. Some ((), tb))) (\<lambda>_. gw_exec (\<lambda>tb. Some (tb_identity_index tb, tb)))"

text \<open>\<open>deduplicate\<close>: the number of removed rows. Its transaction has no part in the caches.\<close>
definition dedup_body :: "game_writer \<Rightarrow> nat result \<times> game_writer" where
  "dedup_body =
     and_then (gw_exec dedup_delete_sql) (\<lambda>removed.
     and_then (gw_exec dedup_reassign_collision_sql) (\<lambda>_.
     and_then create_identity_index (\<lambda>_ w. (Inr removed, w))))"

definition deduplicate :: "game_writer \<Rightarrow> nat result \<times> game_writer" where
  "deduplicate = guarded id dedup_body"

end
