(* ===== verification/Game_Writer_Inv.thy ===== *)
theory Game_Writer_Inv
  imports Game_Writer
begin

text \<open>
  What the writer keeps whatever fails: the tables stay well-formed, every cached id names a row that is there, and an
  insert that reports an error on a connection without an open transaction leaves the database as it was.
\<close>

section \<open>Reasoning about steps\<close>

text \<open>From a state with \<open>P\<close>, \<open>m\<close> ends in a state with \<open>I\<close> when it fails and with \<open>Q\<close> of its result when it succeeds.\<close>
definition valid :: "('s \<Rightarrow> bool) \<Rightarrow> ('s \<Rightarrow> bool) \<Rightarrow> ('s \<Rightarrow> 'a result \<times> 's) \<Rightarrow> ('a \<Rightarrow> 's \<Rightarrow> bool) \<Rightarrow> bool" where
  "valid I P m Q \<longleftrightarrow> (\<forall>s. P s \<longrightarrow> (case m s of (Inl _, s') \<Rightarrow> I s' | (Inr x, s') \<Rightarrow> Q x s'))"

lemma validI:
  "(\<And>s e s'. P s \<Longrightarrow> m s = (Inl e, s') \<Longrightarrow> I s') \<Longrightarrow> (\<And>s x s'. P s \<Longrightarrow> m s = (Inr x, s') \<Longrightarrow> Q x s') \<Longrightarrow> valid I P m Q"
  by (auto simp: valid_def split: prod.splits sum.splits)

lemma valid_Inl: "valid I P m Q \<Longrightarrow> P s \<Longrightarrow> m s = (Inl e, s') \<Longrightarrow> I s'"
  by (fastforce simp: valid_def)

lemma valid_Inr: "valid I P m Q \<Longrightarrow> P s \<Longrightarrow> m s = (Inr x, s') \<Longrightarrow> Q x s'"
  by (fastforce simp: valid_def)

lemma valid_and_then:
  assumes "valid I P m Q" and "\<And>x. valid I (Q x) (f x) R"
  shows "valid I P (and_then m f) R"
proof (rule validI)
  fix s e s'
  assume "P s" "and_then m f s = (Inl e, s')"
  then show "I s'"
    by (auto simp: and_then_def split: prod.splits sum.splits intro: valid_Inl [OF assms(1)] valid_Inl [OF assms(2)]
        dest: valid_Inr [OF assms(1)])
next
  fix s x s'
  assume "P s" "and_then m f s = (Inr x, s')"
  then show "R x s'"
    by (auto simp: and_then_def split: prod.splits sum.splits intro: valid_Inr [OF assms(2)] dest: valid_Inr [OF assms(1)])
qed

lemma valid_return: "(\<And>s. P s \<Longrightarrow> Q x (f s)) \<Longrightarrow> valid I P (\<lambda>s. (Inr x, f s)) Q"
  by (rule validI) auto

lemma valid_weaken: "valid I P m Q \<Longrightarrow> (\<And>s. P' s \<Longrightarrow> P s) \<Longrightarrow> (\<And>x s. Q x s \<Longrightarrow> Q' x s) \<Longrightarrow> valid I P' m Q'"
  by (fastforce simp: valid_def split: prod.splits sum.splits)

section \<open>The invariant of an open step\<close>

definition entry :: "nat \<Rightarrow> string \<Rightarrow> 'data entity list \<Rightarrow> bool" where
  "entry i name es \<longleftrightarrow> (\<exists>e\<in>set es. en_id e = i \<and> en_name e = name)"

text \<open>Every row of \<open>player\<close>, \<open>event\<close> and \<open>tag\<close> is still there.\<close>
definition extends :: "tables \<Rightarrow> tables \<Rightarrow> bool" where
  "extends tb tb' \<longleftrightarrow> set (tb_players tb) \<subseteq> set (tb_players tb') \<and> set (tb_events tb) \<subseteq> set (tb_events tb')
     \<and> set (tb_tags tb) \<subseteq> set (tb_tags tb')"

definition caches_sound :: "tables \<Rightarrow> game_writer \<Rightarrow> bool" where
  "caches_sound tb w \<longleftrightarrow> (\<forall>name i. gw_player_ids w name = Some i \<longrightarrow> entry i name (tb_players tb))
     \<and> (\<forall>name i. gw_event_ids w name = Some i \<longrightarrow> entry i name (tb_events tb))
     \<and> (\<forall>name i. gw_tag_ids w name = Some i \<longrightarrow> entry i name (tb_tags tb))"

abbreviation gw_tables :: "game_writer \<Rightarrow> tables" where
  "gw_tables w \<equiv> sd_tables (gw_db w)"

text \<open>The tables that a rollback would restore, and those in which the step began.\<close>
type_synonym origin = "tables option \<times> tables"

definition step_inv :: "origin \<Rightarrow> game_writer \<Rightarrow> bool" where
  "step_inv sv w \<longleftrightarrow> wf_tables (gw_tables w) \<and> caches_sound (gw_tables w) w \<and> sd_saved (gw_db w) = fst sv
     \<and> extends (snd sv) (gw_tables w)"

lemma extends_refl [simp]: "extends tb tb"
  by (simp add: extends_def)

lemma extends_trans: "extends a b \<Longrightarrow> extends b c \<Longrightarrow> extends a c"
  by (auto simp: extends_def)

lemma caches_sound_extends: "caches_sound tb w \<Longrightarrow> extends tb tb' \<Longrightarrow> caches_sound tb' w"
  by (fastforce simp: caches_sound_def extends_def entry_def)

lemma caches_sound_db [simp]: "caches_sound tb (w\<lparr>gw_db := db\<rparr>) = caches_sound tb w"
  by (simp add: caches_sound_def)

lemma caches_sound_prepared [simp]: "caches_sound tb (w\<lparr>gw_prepared := p\<rparr>) = caches_sound tb w"
  by (simp add: caches_sound_def)

text \<open>A statement that keeps the tables well-formed and their entities.\<close>
definition sound_stmt :: "(tables \<Rightarrow> ('a \<times> tables) option) \<Rightarrow> bool" where
  "sound_stmt stmt \<longleftrightarrow> (\<forall>tb x tb'. wf_tables tb \<longrightarrow> stmt tb = Some (x, tb') \<longrightarrow> wf_tables tb' \<and> extends tb tb')"

lemma sql_run_cases:
  assumes "sql_run stmt db = (r, db')"
  obtains "r = None" "sd_tables db' = sd_tables db" "sd_saved db' = sd_saved db" "sd_fault db' = sd_fault db"
  | x where "r = Some x" "stmt (sd_tables db) = Some (x, sd_tables db')" "sd_saved db' = sd_saved db" "sd_fault db' = sd_fault db"
  using assms by (auto simp: sql_run_def Let_def split: if_splits option.splits)

lemma gw_run_inv:
  assumes "gw_run stmt w = (r, w')" and "step_inv saved w" and "sound_stmt stmt"
  shows "step_inv saved w'" and "\<And>x. r = Some x \<Longrightarrow> stmt (gw_tables w) = Some (x, gw_tables w')"
proof -
  obtain db where db: "sql_run stmt (gw_db w) = (r, db)" "w' = w\<lparr>gw_db := db\<rparr>"
    using assms(1) by (auto simp: gw_run_def split: prod.splits)
  from db(1) show "step_inv saved w'"
  proof (cases rule: sql_run_cases)
    case 1
    then show ?thesis using assms(2) db(2) by (simp add: step_inv_def)
  next
    case (2 x)
    then show ?thesis
      using assms(2,3) db(2) unfolding step_inv_def sound_stmt_def by (auto intro: caches_sound_extends extends_trans)
  qed
  from db(1) show "stmt (gw_tables w) = Some (x, gw_tables w')" if "r = Some x" for x
    by (cases rule: sql_run_cases) (use that db(2) in auto)
qed

lemma sound_read: "sound_stmt (\<lambda>tb. Some (f tb, tb))"
  by (simp add: sound_stmt_def)

lemma sound_select_row: "sound_stmt (select_row query)"
  by (auto simp: sound_stmt_def select_row_def)

lemma has_id_mono: "has_id i es \<Longrightarrow> set es \<subseteq> set es' \<Longrightarrow> has_id i es'"
  by (auto simp: has_id_def)

lemma sound_insert_player: "sound_stmt (insert_player_sql plr)"
  unfolding sound_stmt_def
proof (intro allI impI)
  fix tb x tb' assume wf: "wf_tables tb" and i: "insert_player_sql plr tb = Some (x, tb')"
  then obtain es where es: "insert_entity (pl_name plr) (pl_elo plr, pl_title plr, pl_country plr) (tb_players tb) = Some (x, es)"
      "tb' = tb\<lparr>tb_players := es\<rparr>" by (auto simp: insert_player_sql_def)
  have "wf_entities (tb_players tb)" using wf by (simp add: wf_tables_def)
  note p = insert_entity_Some [OF es(1) this]
  show "wf_tables tb' \<and> extends tb tb'"
    using wf p by (auto simp: wf_tables_def wf_games_def wf_game_tags_def es(2) extends_def)
qed

lemma sound_insert_event: "sound_stmt (insert_event_sql evt)"
  unfolding sound_stmt_def
proof (intro allI impI)
  fix tb x tb' assume wf: "wf_tables tb" and i: "insert_event_sql evt tb = Some (x, tb')"
  then obtain es where es: "insert_entity (ev_name evt) (ev_site evt, ev_date evt) (tb_events tb) = Some (x, es)"
      "tb' = tb\<lparr>tb_events := es\<rparr>" by (auto simp: insert_event_sql_def)
  have "wf_entities (tb_events tb)" using wf by (simp add: wf_tables_def)
  note p = insert_entity_Some [OF es(1) this]
  show "wf_tables tb' \<and> extends tb tb'"
    using wf p by (auto simp: wf_tables_def wf_games_def wf_game_tags_def es(2) extends_def)
qed

lemma sound_insert_tag: "sound_stmt (insert_tag_sql name)"
  unfolding sound_stmt_def
proof (intro allI impI)
  fix tb x tb' assume wf: "wf_tables tb" and i: "insert_tag_sql name tb = Some (x, tb')"
  then obtain es where es: "insert_entity name () (tb_tags tb) = Some (x, es)" "tb' = tb\<lparr>tb_tags := es\<rparr>"
    by (auto simp: insert_tag_sql_def)
  have "wf_entities (tb_tags tb)" using wf by (simp add: wf_tables_def)
  note p = insert_entity_Some [OF es(1) this]
  show "wf_tables tb' \<and> extends tb tb'"
    using wf p by (auto simp: wf_tables_def wf_games_def wf_game_tags_def es(2) extends_def)
qed

lemma sound_insert_game: "sound_stmt (insert_game_sql p)" "sound_stmt (insert_game_raw_sql p)"
proof -
  have row: "wf_tables tb' \<and> extends tb tb'" if "wf_tables tb" "insert_game_row q tb = Some (i, tb')" for q tb tb' i
    using insert_game_row_Some [OF that(2,1)] by (simp add: extends_def)
  show "sound_stmt (insert_game_sql p)"
    by (auto simp: sound_stmt_def insert_game_sql_def split: if_splits dest: row)
  show "sound_stmt (insert_game_raw_sql p)"
    by (auto simp: sound_stmt_def insert_game_raw_sql_def dest: row)
qed

lemma sound_insert_game_tag: "sound_stmt (insert_game_tag g t v)"
  unfolding sound_stmt_def
proof (intro allI impI conjI)
  fix tb u tb' assume "wf_tables tb" "insert_game_tag g t v tb = Some (u, tb')"
  then show "wf_tables tb'" "extends tb tb'"
    by (auto simp: insert_game_tag_Some) (auto simp: insert_game_tag_def extends_def split: if_splits)
qed

lemma wf_tables_fewer_games:
  assumes "wf_tables tb"
  shows "wf_tables (tb\<lparr>tb_games := filter P (tb_games tb),
     tb_game_tags := filter (\<lambda>t. gt_game_id t \<in> set (map gr_id (filter P (tb_games tb)))) (tb_game_tags tb)\<rparr>)"
proof -
  have "distinct (map index_key (filter P (tb_games tb)))" if "tb_identity_index tb"
    using assms that by (simp add: wf_tables_def wf_games_def distinct_map_filter)
  moreover have "sorted_wrt (<) (map gr_id (filter P (tb_games tb)))"
    using assms by (simp add: wf_tables_def wf_games_def sorted_wrt_map sorted_wrt_filter)
  ultimately show ?thesis
    using assms unfolding wf_tables_def wf_games_def wf_game_tags_def by (auto simp: distinct_map_filter)
qed

lemma sound_dedup_delete: "sound_stmt dedup_delete_sql"
  by (auto simp: sound_stmt_def dedup_delete_sql_def Let_def extends_def simp del: set_map intro!: wf_tables_fewer_games)

lemma update_collisions_map:
  "update_collisions index rank before rs = Some rs' \<Longrightarrow> rs' = before @ map (\<lambda>r. r\<lparr>gr_identity_collision := rank r\<rparr>) rs"
proof (induction rs arbitrary: before)
  case (Cons r rs)
  then have "update_collisions index rank (before @ [r\<lparr>gr_identity_collision := rank r\<rparr>]) rs = Some rs'"
    by (simp add: Let_def split: if_splits)
  from Cons.IH [OF this] show ?case by simp
qed simp

lemma update_collisions_distinct:
  "update_collisions True rank before rs = Some rs' \<Longrightarrow> distinct (map index_key (before @ rs)) \<Longrightarrow> distinct (map index_key rs')"
proof (induction rs arbitrary: before)
  case (Cons r rs)
  let ?row = "r\<lparr>gr_identity_collision := rank r\<rparr>"
  have "update_collisions True rank (before @ [?row]) rs = Some rs'" "index_key ?row \<notin> set (map index_key (before @ rs))"
    using Cons.prems(1) by (auto simp: Let_def split: if_splits)
  moreover from this(2) have "distinct (map index_key ((before @ [?row]) @ rs))" using Cons.prems(2) by auto
  ultimately show ?case using Cons.IH by blast
qed simp

lemma sound_dedup_reassign: "sound_stmt dedup_reassign_collision_sql"
  unfolding sound_stmt_def
proof (intro allI impI)
  fix tb u tb' assume wf: "wf_tables tb" and u: "dedup_reassign_collision_sql tb = Some (u, tb')"
  let ?rank = "partition_rank (tb_games tb)"
  obtain rs where rs: "update_collisions (tb_identity_index tb) ?rank [] (tb_games tb) = Some rs" "tb' = tb\<lparr>tb_games := rs\<rparr>"
    using u by (auto simp: dedup_reassign_collision_sql_def)
  have m: "rs = map (\<lambda>r. r\<lparr>gr_identity_collision := ?rank r\<rparr>) (tb_games tb)" using update_collisions_map [OF rs(1)] by simp
  have "distinct (map index_key rs)" if "tb_identity_index tb"
    using update_collisions_distinct [of ?rank "[]" "tb_games tb" rs] rs(1) that wf by (simp add: wf_tables_def wf_games_def)
  moreover have ids: "map gr_id rs = map gr_id (tb_games tb)" by (simp add: m comp_def)
  ultimately have "wf_games tb'"
    using wf unfolding wf_tables_def wf_games_def rs(2) by (auto simp: m comp_def)
  moreover have "wf_game_tags tb'"
    using wf arg_cong [OF ids, of set] unfolding wf_tables_def wf_game_tags_def rs(2) by simp
  ultimately show "wf_tables tb' \<and> extends tb tb'"
    using wf unfolding wf_tables_def rs(2) extends_def by simp
qed

lemma sound_identity_index: "sound_stmt identity_index_ddl" "sound_stmt drop_identity_index_sql"
  by (auto simp: sound_stmt_def identity_index_ddl_def drop_identity_index_sql_def extends_def wf_tables_def wf_games_def
      wf_game_tags_def split: if_splits)

section \<open>Steps keep the invariant\<close>

lemma valid_prepare: "valid (step_inv sv) (step_inv sv) (prepare_cached_stmt slot) (\<lambda>_. step_inv sv)"
proof (rule validI)
  fix w r w' assume "step_inv sv w" "prepare_cached_stmt slot w = (r, w')"
  then have "step_inv sv w'"
    by (auto simp: prepare_cached_stmt_def split: if_splits prod.splits option.splits
        dest!: gw_run_inv(1) [OF _ _ sound_read] simp: step_inv_def)
  then show "step_inv sv w'" .
qed (auto simp: prepare_cached_stmt_def step_inv_def split: if_splits prod.splits option.splits
    dest!: gw_run_inv(1) [OF _ _ sound_read, of _ _ _ _ sv])

lemma valid_exec: "sound_stmt stmt \<Longrightarrow> valid (step_inv sv) (step_inv sv) (gw_exec stmt) (\<lambda>_. step_inv sv)"
  by (rule validI) (auto simp: gw_exec_def split: prod.splits option.splits dest: gw_run_inv(1))

lemma caches_sound_cache:
  "caches_sound tb w \<Longrightarrow> entry i name (tb_players tb) \<Longrightarrow> caches_sound tb (cache_player name i w)"
  "caches_sound tb w \<Longrightarrow> entry i name (tb_events tb) \<Longrightarrow> caches_sound tb (cache_event name i w)"
  "caches_sound tb w \<Longrightarrow> entry i name (tb_tags tb) \<Longrightarrow> caches_sound tb (cache_tag name i w)"
  by (simp_all add: caches_sound_def cache_player_def cache_event_def cache_tag_def)

lemma cache_db [simp]:
  "gw_db (cache_player name i w) = gw_db w" "gw_db (cache_event name i w) = gw_db w" "gw_db (cache_tag name i w) = gw_db w"
  "gw_db (clear_insert_caches w) = gw_db w" "caches_sound tb (clear_insert_caches w)"
  by (simp_all add: cache_player_def cache_event_def cache_tag_def clear_insert_caches_def caches_sound_def)

text \<open>The id found or inserted belongs to a row with the name asked for.\<close>
lemma valid_select_or_insert:
  assumes "sound_stmt stmt" and "\<And>tb i. query tb = Some i \<Longrightarrow> E i tb"
    and "\<And>tb i tb'. wf_tables tb \<Longrightarrow> stmt tb = Some (i, tb') \<Longrightarrow> E i tb'"
  shows "valid (step_inv sv) (step_inv sv) (select_or_insert sel query ins stmt) (\<lambda>i w. step_inv sv w \<and> E i (gw_tables w))"
  unfolding select_or_insert_def
proof (rule valid_and_then [OF valid_prepare], rule validI)
  let ?ins = "and_then (prepare_cached_stmt ins) (\<lambda>_ w.
      case gw_run stmt w of (None, w) \<Rightarrow> (unexpected Io_Failure, w) | (Some i, w) \<Rightarrow> (Inr i, w))"
  have ins: "valid (step_inv sv) (step_inv sv) ?ins (\<lambda>i w. step_inv sv w \<and> E i (gw_tables w))"
  proof (rule valid_and_then [OF valid_prepare], rule validI)
    fix w e w' assume "step_inv sv w" "(case gw_run stmt w of (None, w) \<Rightarrow> (unexpected Io_Failure, w) | (Some i, w) \<Rightarrow> (Inr i, w)) = (Inl e, w')"
    then show "step_inv sv w'" by (auto split: prod.splits option.splits dest: gw_run_inv(1) [OF _ _ assms(1)])
  next
    fix w i w' assume w: "step_inv sv w"
      and "(case gw_run stmt w of (None, w) \<Rightarrow> (unexpected Io_Failure, w) | (Some i, w) \<Rightarrow> (Inr i, w)) = (Inr i, w')"
    then have r: "gw_run stmt w = (Some i, w')" by (auto split: prod.splits option.splits)
    from gw_run_inv [OF r w assms(1)] assms(3) w show "step_inv sv w' \<and> E i (gw_tables w')" by (auto simp: step_inv_def)
  qed
  fix w :: game_writer assume w: "step_inv sv w"
  obtain r w1 where r: "gw_run (select_row query) w = (r, w1)" by force
  note w1 = gw_run_inv [OF r w sound_select_row]
  let ?m = "case gw_run (select_row query) w of (Some i, w) \<Rightarrow> (Inr i, w) | (None, w) \<Rightarrow> ?ins w"
  show "step_inv sv w'" if "?m = (Inl e, w')" for e w'
    using that r valid_Inl [OF ins w1(1)] by (auto split: option.splits)
  show "step_inv sv w' \<and> E i (gw_tables w')" if "?m = (Inr i, w')" for i w'
    using that r valid_Inr [OF ins w1(1)] w1 assms(2) by (auto simp: select_row_def split: option.splits)
qed

lemma select_id_entry: "select_id name es = Some i \<Longrightarrow> entry i name es"
  by (auto simp: select_id_def entry_def find_Some_iff)

lemma insert_entity_entry: "insert_entity name data es = Some (i, es') \<Longrightarrow> entry i name es'"
  by (auto simp: insert_entity_def entry_def Let_def split: if_splits)

lemma valid_select_or_insert_cached:
  assumes "sound_stmt stmt" and "\<And>tb i. query tb = Some i \<Longrightarrow> E i tb"
    and "\<And>tb i tb'. wf_tables tb \<Longrightarrow> stmt tb = Some (i, tb') \<Longrightarrow> E i tb'"
    and "\<And>i w. step_inv sv w \<Longrightarrow> E i (gw_tables w) \<Longrightarrow> step_inv sv (cache i w)"
  shows "valid (step_inv sv) (step_inv sv) (and_then (select_or_insert sel query ins stmt) (\<lambda>i w. (Inr i, cache i w)))
    (\<lambda>_. step_inv sv)"
proof (rule valid_and_then)
  show "valid (step_inv sv) (step_inv sv) (select_or_insert sel query ins stmt) (\<lambda>i w. step_inv sv w \<and> E i (gw_tables w))"
    using assms(1-3) by (rule valid_select_or_insert)
qed (rule valid_return, use assms(4) in auto)

lemma valid_find_or_insert_player:
  "valid (step_inv sv) (step_inv sv) (find_or_insert_player plr) (\<lambda>_. step_inv sv)"
proof -
  have "valid (step_inv sv) (step_inv sv) (and_then
      (select_or_insert Select_Player (\<lambda>tb. select_id (pl_name plr) (tb_players tb)) Insert_Player (insert_player_sql plr))
      (\<lambda>i w. (Inr i, cache_player (pl_name plr) i w))) (\<lambda>_. step_inv sv)"
    by (rule valid_select_or_insert_cached [OF sound_insert_player, where E = "\<lambda>i tb. entry i (pl_name plr) (tb_players tb)"])
      (auto simp: insert_player_sql_def step_inv_def caches_sound_cache dest: select_id_entry insert_entity_entry)
  then show ?thesis by (auto simp: valid_def find_or_insert_player_def split: option.splits)
qed

lemma valid_find_or_insert_event:
  "valid (step_inv sv) (step_inv sv) (find_or_insert_event evt) (\<lambda>_. step_inv sv)"
proof -
  have "valid (step_inv sv) (step_inv sv) (and_then
      (select_or_insert Select_Event (\<lambda>tb. select_id (ev_name evt) (tb_events tb)) Insert_Event (insert_event_sql evt))
      (\<lambda>i w. (Inr i, cache_event (ev_name evt) i w))) (\<lambda>_. step_inv sv)"
    by (rule valid_select_or_insert_cached [OF sound_insert_event, where E = "\<lambda>i tb. entry i (ev_name evt) (tb_events tb)"])
      (auto simp: insert_event_sql_def step_inv_def caches_sound_cache dest: select_id_entry insert_entity_entry)
  then show ?thesis by (auto simp: valid_def find_or_insert_event_def split: option.splits)
qed

lemma valid_find_or_insert_tag:
  "valid (step_inv sv) (step_inv sv) (find_or_insert_tag name) (\<lambda>_. step_inv sv)"
proof -
  have "valid (step_inv sv) (step_inv sv) (and_then
      (select_or_insert Select_Tag (\<lambda>tb. select_id name (tb_tags tb)) Insert_Tag (insert_tag_sql name))
      (\<lambda>i w. (Inr i, cache_tag name i w))) (\<lambda>_. step_inv sv)"
    by (rule valid_select_or_insert_cached [OF sound_insert_tag, where E = "\<lambda>i tb. entry i name (tb_tags tb)"])
      (auto simp: insert_tag_sql_def step_inv_def caches_sound_cache dest: select_id_entry insert_entity_entry)
  then show ?thesis by (auto simp: valid_def find_or_insert_tag_def split: option.splits)
qed

text \<open>A statement whose failure is reported and whose result is passed on.\<close>
lemma valid_run_then:
  assumes "sound_stmt stmt" and "\<And>x. valid I (step_inv sv) (f x) R" and "\<And>w. step_inv sv w \<Longrightarrow> I w"
  shows "valid I (step_inv sv) (\<lambda>w. case gw_run stmt w of (None, w) \<Rightarrow> (unexpected Io_Failure, w) | (Some x, w) \<Rightarrow> f x w) R"
proof (rule validI)
  fix w :: game_writer assume w: "step_inv sv w"
  obtain r w1 where r: "gw_run stmt w = (r, w1)" by force
  note w1 = gw_run_inv(1) [OF r w assms(1)]
  let ?m = "case gw_run stmt w of (None, w) \<Rightarrow> (unexpected Io_Failure, w) | (Some x, w) \<Rightarrow> f x w"
  show "I w'" if "?m = (Inl e, w')" for e w'
    using that r w1 assms(3) valid_Inl [OF assms(2) w1] by (auto split: option.splits)
  show "R x w'" if "?m = (Inr x, w')" for x w'
    using that r valid_Inr [OF assms(2) w1] by (auto split: option.splits)
qed

lemma valid_insert_game_tags: "valid (step_inv sv) (step_inv sv) (insert_game_tags gid tags) (\<lambda>_. step_inv sv)"
proof (induction tags)
  case Nil
  show ?case by (rule validI) auto
next
  case (Cons tag tags)
  have "valid (step_inv sv) (step_inv sv) (and_then (find_or_insert_tag (fst tag)) (\<lambda>tag_id.
       and_then (prepare_cached_stmt Insert_Game_Tag) (\<lambda>_ w.
         case gw_run (insert_game_tag (unat gid) tag_id (snd tag)) w of
           (None, w) \<Rightarrow> (unexpected Io_Failure, w)
         | (Some _, w) \<Rightarrow> insert_game_tags gid tags w))) (\<lambda>_. step_inv sv)"
    by (intro valid_and_then [OF valid_find_or_insert_tag] valid_and_then [OF valid_prepare]
        valid_run_then [OF sound_insert_game_tag Cons.IH])
  then show ?case by (simp add: valid_def)
qed

lemma valid_insert_optional_event:
  "valid (step_inv sv) (step_inv sv) (insert_optional_event details) (\<lambda>_. step_inv sv)"
proof (cases details)
  case None
  then show ?thesis by (auto simp: valid_def insert_optional_event_def)
next
  case (Some evt)
  have "valid (step_inv sv) (step_inv sv) (and_then (find_or_insert_event evt) (\<lambda>i w. (Inr (Some i), w))) (\<lambda>_. step_inv sv)"
    by (rule valid_and_then [OF valid_find_or_insert_event]) (rule valid_return)
  then show ?thesis by (simp add: valid_def insert_optional_event_def Some)
qed

lemma valid_insert_body:
  assumes "\<And>p. sound_stmt (stmt p)"
  shows "valid (step_inv sv) (step_inv sv) (insert_body slot stmt xxh3 g) (\<lambda>_. step_inv sv)"
proof -
  have tail: "valid (step_inv sv) (step_inv sv) (\<lambda>w. case r of None \<Rightarrow> (unexpected Duplicate, w)
        | Some rowid \<Rightarrow> and_then (insert_game_tags (of_nat rowid) (dg_extra_tags g)) (\<lambda>_ w. (Inr (of_nat rowid), w)) w)
      (\<lambda>_. step_inv sv)" for r
  proof (cases r)
    case None
    then show ?thesis by (simp add: valid_def)
  next
    case (Some rowid)
    show ?thesis unfolding Some option.case by (rule valid_and_then [OF valid_insert_game_tags]) (rule valid_return)
  qed
  show ?thesis
    unfolding insert_body_def
    by (intro valid_and_then [OF valid_find_or_insert_player] valid_and_then [OF valid_insert_optional_event]
        valid_and_then [OF valid_prepare] valid_run_then [OF assms tail])
qed

section \<open>Whole operations\<close>

definition writer_inv :: "game_writer \<Rightarrow> bool" where
  "writer_inv w \<longleftrightarrow> wf_tables (gw_tables w) \<and> (\<forall>tb. sd_saved (gw_db w) = Some tb \<longrightarrow> wf_tables tb) \<and> caches_sound (gw_tables w) w"

lemma txn_guard_cases:
  assumes "txn_guard db = (r, db')"
  obtains "r = None" "sd_saved db = None" "sd_saved db' = None" "sd_tables db' = sd_tables db"
  | "r = Some False" "db' = db" "sd_saved db \<noteq> None"
  | "r = Some True" "sd_saved db = None" "sd_saved db' = Some (sd_tables db)" "sd_tables db' = sd_tables db"
  using assms by (auto simp: txn_guard_def sql_begin_def Let_def split: if_splits)

lemma sql_commit_cases:
  assumes "sql_commit db = (ok, db')"
  obtains "ok" "sd_saved db \<noteq> None" "sd_saved db' = None" "sd_tables db' = sd_tables db"
  | "\<not> ok" "sd_saved db' = sd_saved db" "sd_tables db' = sd_tables db"
  using assms by (auto simp: sql_commit_def Let_def split: if_splits)

lemma gw_same [simp]: "w\<lparr>gw_db := gw_db w\<rparr> = w"
  by (cases w) simp

lemma on_failure_cases:
  "on_failure \<in> {clear_insert_caches, id} \<Longrightarrow> gw_db (on_failure w) = gw_db w \<and> (caches_sound tb w \<longrightarrow> caches_sound tb (on_failure w))"
  by auto

text \<open>
  A body in its guards, given that it keeps the invariant and, when it does not drop the caches on failure, leaves them
  alone: the invariant stays, the transaction state is as before, and a failure outside a transaction changes nothing.
\<close>
lemma guarded_effect:
  assumes body: "\<And>sv. valid (step_inv sv) (step_inv sv) body (\<lambda>_. step_inv sv)"
    and clr: "on_failure \<in> {clear_insert_caches, id}"
    and caches: "\<And>db b w1 tb. body (w\<lparr>gw_db := db\<rparr>) = (b, w1) \<Longrightarrow> caches_sound tb w \<Longrightarrow> caches_sound tb (on_failure w1)"
    and inv: "writer_inv w" and run: "guarded on_failure body w = (r, w')"
  shows "writer_inv w' \<and> sd_saved (gw_db w') = sd_saved (gw_db w)
     \<and> (\<forall>e. r = Inl e \<longrightarrow> sd_saved (gw_db w) = None \<longrightarrow> gw_tables w' = gw_tables w) \<and> extends (gw_tables w) (gw_tables w')"
proof -
  obtain g db where g: "txn_guard (gw_db w) = (g, db)" by force
  note clr = on_failure_cases [OF clr]
  show ?thesis
  proof (cases g)
    case None
    from g show ?thesis
      by (cases rule: txn_guard_cases) (use run inv g None in \<open>auto simp: guarded_def writer_inv_def\<close>)
  next
    case (Some started)
    obtain b w1 where b: "body (w\<lparr>gw_db := db\<rparr>) = (b, w1)" by force
    have pre: "step_inv (sd_saved db, gw_tables w) (w\<lparr>gw_db := db\<rparr>)"
      using g by (cases rule: txn_guard_cases) (use inv in \<open>auto simp: step_inv_def writer_inv_def\<close>)
    have w1: "step_inv (sd_saved db, gw_tables w) w1"
      by (cases b) (use valid_Inl [OF body pre] valid_Inr [OF body pre] b in auto)
    show ?thesis
    proof (cases started)
      case True
      have sv: "sd_saved (gw_db w) = None" "sd_saved db = Some (gw_tables w)"
        using g by (cases rule: txn_guard_cases; use True Some in simp)+
      have failed: ?thesis if "w' = on_failure (w1\<lparr>gw_db := txn_release started False db2\<rparr>)" "sd_saved db2 = sd_saved db" for db2
      proof -
        have "on_failure (w1\<lparr>gw_db := db3\<rparr>) = (on_failure w1)\<lparr>gw_db := db3\<rparr>" for db3
          using assms(2) by (auto simp: clear_insert_caches_def)
        then show ?thesis
          using that inv sv True caches [OF b] by (simp add: writer_inv_def txn_release_def sql_rollback_def)
      qed
      show ?thesis
      proof (cases b)
        case (Inl e)
        then show ?thesis using failed [of "gw_db w1"] run g Some b w1 by (simp add: guarded_def step_inv_def)
      next
        case (Inr x)
        obtain ok db2 where c: "sql_commit (gw_db w1) = (ok, db2)" by force
        from c show ?thesis
        proof (cases rule: sql_commit_cases)
          case 1
          then have "w' = w1\<lparr>gw_db := db2\<rparr>" "r = Inr x" using run g Some b Inr c True by (simp_all add: guarded_def txn_commit_def)
          then show ?thesis using 1 w1 sv by (simp add: writer_inv_def step_inv_def)
        next
          case 2
          then show ?thesis
            using failed [of db2] run g Some b Inr c True w1 by (simp add: guarded_def txn_commit_def step_inv_def)
        qed
      qed
    next
      case False
      have db: "db = gw_db w" "sd_saved (gw_db w) \<noteq> None"
        using g by (cases rule: txn_guard_cases; use False Some in simp)+
      have "w' = w1 \<or> w' = on_failure w1"
        using run g Some b False by (auto simp: guarded_def txn_commit_def txn_release_def split: sum.splits)
      then show ?thesis using w1 inv db clr [of w1] by (auto simp: step_inv_def writer_inv_def)
    qed
  qed
qed

lemma gw_insert_effect:
  assumes "writer_inv w" and "gw_insert xxh3 g w = (r, w') \<or> gw_insert_raw xxh3 g w = (r, w')"
  shows "writer_inv w' \<and> sd_saved (gw_db w') = sd_saved (gw_db w)
     \<and> (\<forall>e. r = Inl e \<longrightarrow> sd_saved (gw_db w) = None \<longrightarrow> gw_tables w' = gw_tables w) \<and> extends (gw_tables w) (gw_tables w')"
  using assms(2)
proof
  assume "gw_insert xxh3 g w = (r, w')"
  then show ?thesis
    unfolding gw_insert_def by (intro guarded_effect [OF valid_insert_body [OF sound_insert_game(1)] _ _ assms(1)]) auto
next
  assume "gw_insert_raw xxh3 g w = (r, w')"
  then show ?thesis
    unfolding gw_insert_raw_def by (intro guarded_effect [OF valid_insert_body [OF sound_insert_game(2)] _ _ assms(1)]) auto
qed

lemma valid_dedup_body: "valid (step_inv sv) (step_inv sv) dedup_body (\<lambda>_. step_inv sv)"
  unfolding dedup_body_def create_identity_index_def
  by (intro valid_and_then [OF valid_exec [OF sound_dedup_delete]] valid_and_then [OF valid_exec [OF sound_dedup_reassign]]
      valid_and_then [OF valid_exec [OF sound_identity_index(1)]] valid_return)

lemma gw_exec_caches: "gw_exec stmt w = (r, w') \<Longrightarrow> \<exists>db. w' = w\<lparr>gw_db := db\<rparr>"
  by (auto simp: gw_exec_def gw_run_def split: prod.splits option.splits)

lemma dedup_body_caches: "dedup_body w = (r, w') \<Longrightarrow> \<exists>db. w' = w\<lparr>gw_db := db\<rparr>"
  by (auto simp: dedup_body_def create_identity_index_def and_then_def split: prod.splits sum.splits dest!: gw_exec_caches)

lemma deduplicate_effect:
  assumes "writer_inv w" and "deduplicate w = (r, w')"
  shows "writer_inv w' \<and> sd_saved (gw_db w') = sd_saved (gw_db w)
     \<and> (\<forall>e. r = Inl e \<longrightarrow> sd_saved (gw_db w) = None \<longrightarrow> gw_tables w' = gw_tables w) \<and> extends (gw_tables w) (gw_tables w')"
  using assms(2) unfolding deduplicate_def
  by (intro guarded_effect [OF valid_dedup_body _ _ assms(1)]) (auto dest!: dedup_body_caches)

section \<open>The writer as a state machine\<close>

inductive writer_step :: "(u16 list \<Rightarrow> u64) \<Rightarrow> game_writer \<Rightarrow> game_writer \<Rightarrow> bool" for xxh3 where
  ws_insert: "gw_insert xxh3 g w = (r, w') \<Longrightarrow> writer_step xxh3 w w'"
| ws_insert_raw: "gw_insert_raw xxh3 g w = (r, w') \<Longrightarrow> writer_step xxh3 w w'"
| ws_begin: "begin_transaction w = (u, w') \<Longrightarrow> writer_step xxh3 w w'"
| ws_commit: "commit_transaction w = (u, w') \<Longrightarrow> writer_step xxh3 w w'"
| ws_rollback: "writer_step xxh3 w (rollback_transaction w)"
| ws_drop: "drop_identity_index w = (u, w') \<Longrightarrow> writer_step xxh3 w w'"
| ws_exists: "identity_index_exists w = (b, w') \<Longrightarrow> writer_step xxh3 w w'"
| ws_deduplicate: "deduplicate w = (n, w') \<Longrightarrow> writer_step xxh3 w w'"
| ws_clear: "writer_step xxh3 w (clear_insert_caches w)"

inductive_cases writer_stepE: "writer_step xxh3 w w'"

lemma writer_inv_step: "writer_inv w \<longleftrightarrow> (\<exists>sv. step_inv (sv, gw_tables w) w \<and> (\<forall>tb. sv = Some tb \<longrightarrow> wf_tables tb))"
  by (auto simp: writer_inv_def step_inv_def)

lemma valid_writer_inv:
  assumes "\<And>sv. valid (step_inv sv) (step_inv sv) m (\<lambda>_. step_inv sv)" and "writer_inv w" and "m w = (r, w')"
  shows "writer_inv w'" and "extends (gw_tables w) (gw_tables w')" and "sd_saved (gw_db w') = sd_saved (gw_db w)"
proof -
  obtain sv where sv: "step_inv (sv, gw_tables w) w" "\<forall>tb. sv = Some tb \<longrightarrow> wf_tables tb" using assms(2) writer_inv_step by blast
  then have "step_inv (sv, gw_tables w) w'"
    by (cases r) (use valid_Inl [OF assms(1) sv(1)] valid_Inr [OF assms(1) sv(1)] assms(3) in auto)
  with sv show "writer_inv w'" "extends (gw_tables w) (gw_tables w')" "sd_saved (gw_db w') = sd_saved (gw_db w)"
    by (simp_all add: writer_inv_def step_inv_def)
qed

lemma writer_inv_clear: "writer_inv w \<Longrightarrow> writer_inv (clear_insert_caches w)"
  by (simp add: writer_inv_def)

lemma writer_step_inv: "writer_step xxh3 w w' \<Longrightarrow> writer_inv w \<Longrightarrow> writer_inv w'"
proof (erule writer_stepE)
  show "writer_inv w'" if "writer_inv w" "begin_transaction w = (u, w')" for u
    using that by (auto simp: begin_transaction_def sql_begin_def writer_inv_def Let_def split: if_splits)
  show "writer_inv w'" if "writer_inv w" "commit_transaction w = (u, w')" for u
    using that by (auto simp: commit_transaction_def sql_commit_def writer_inv_def Let_def split: if_splits)
  show "writer_inv w'" if "writer_inv w" "w' = rollback_transaction w"
    using that by (auto simp: rollback_transaction_def sql_rollback_def writer_inv_def split: option.splits)
  show "writer_inv w'" if "writer_inv w" "drop_identity_index w = (u, w')" for u
    by (rule valid_writer_inv(1) [OF valid_exec [OF sound_identity_index(2)] that(1) that(2) [unfolded drop_identity_index_def]])
  show "writer_inv w'" if "writer_inv w" "identity_index_exists w = (b, w')" for b
    by (rule valid_writer_inv(1) [OF valid_and_then [OF valid_exec [OF sound_read] valid_exec [OF sound_read]] that(1)
          that(2) [unfolded identity_index_exists_def]])
qed (auto simp: writer_inv_clear dest: gw_insert_effect deduplicate_effect)

lemma writer_inv_new: "sd_tables db = empty_tables \<Longrightarrow> sd_saved db = None \<Longrightarrow> writer_inv (new_game_writer db)"
  by (simp add: writer_inv_def new_game_writer_def caches_sound_def wf_tables_def wf_entities_def wf_games_def wf_game_tags_def
      empty_tables_def)

lemma writer_reachable_inv: "(writer_step xxh3)\<^sup>*\<^sup>* w w' \<Longrightarrow> writer_inv w \<Longrightarrow> writer_inv w'"
  by (induction rule: rtranclp_induct) (auto dest: writer_step_inv)

text \<open>
  C13: Whatever sequence of operations the writer of a new database has run and whichever of their statements failed, the
  tables it sees and the committed ones are well-formed (unique names, resolved references, one row per identity key while
  the index exists) and every id in its caches is the id of a row with that name.\<close>
theorem writer_tables_sound:
  assumes "sd_tables db = empty_tables" and "sd_saved db = None" and "(writer_step xxh3)\<^sup>*\<^sup>* (new_game_writer db) w"
  shows "wf_tables (sd_tables (gw_db w)) \<and> wf_tables (durable (gw_db w)) \<and> caches_sound (sd_tables (gw_db w)) w"
  using writer_reachable_inv [OF assms(3) writer_inv_new [OF assms(1,2)]]
  by (auto simp: writer_inv_def durable_def split: option.splits)

text \<open>
  C16: An insert that reports an error, a duplicate included, on a connection without an open transaction leaves the committed
  database exactly as it was, whatever failed on the way, and no transaction open.\<close>
theorem failed_insert_leaves_database:
  assumes "sd_tables db = empty_tables" and "sd_saved db = None" and "(writer_step xxh3)\<^sup>*\<^sup>* (new_game_writer db) w"
    and "sd_saved (gw_db w) = None" and "gw_insert xxh3 g w = (Inl err, w')"
  shows "durable (gw_db w') = durable (gw_db w) \<and> sd_saved (gw_db w') = None"
proof -
  have "writer_inv w" using writer_reachable_inv [OF assms(3) writer_inv_new [OF assms(1,2)]] .
  from gw_insert_effect [OF this, of xxh3 g "Inl err" w'] assms(4,5) show ?thesis by (simp add: durable_def)
qed

end
