(* ===== verification/Game_Writer_Spec.thy ===== *)
theory Game_Writer_Spec
  imports Game_Writer_Inv
begin

text \<open>
  What an insert promises, without caches, prepared statements or transactions: the specification \<open>store_game\<close> on the
  tables, and the refinement by the writer on a connection that does not fail.
\<close>

section \<open>Specification\<close>

definition ensure_entity :: "string \<Rightarrow> 'data \<Rightarrow> 'data entity list \<Rightarrow> nat \<times> 'data entity list" where
  "ensure_entity name data es =
     (case select_id name es of
        Some i \<Rightarrow> (i, es)
      | None \<Rightarrow> let i = next_rowid (map en_id es) in (i, es @ [\<lparr>en_id = i, en_name = name, en_data = data\<rparr>]))"

definition ensure_player :: "player \<Rightarrow> tables \<Rightarrow> nat \<times> tables" where
  "ensure_player plr tb =
     (case ensure_entity (pl_name plr) (pl_elo plr, pl_title plr, pl_country plr) (tb_players tb) of
        (i, es) \<Rightarrow> (i, tb\<lparr>tb_players := es\<rparr>))"

definition ensure_event :: "event option \<Rightarrow> tables \<Rightarrow> nat option \<times> tables" where
  "ensure_event details tb =
     (case details of
        None \<Rightarrow> (None, tb)
      | Some evt \<Rightarrow>
          (case ensure_entity (ev_name evt) (ev_site evt, ev_date evt) (tb_events tb) of (i, es) \<Rightarrow> (Some i, tb\<lparr>tb_events := es\<rparr>)))"

definition ensure_tag :: "string \<Rightarrow> tables \<Rightarrow> nat \<times> tables" where
  "ensure_tag name tb = (case ensure_entity name () (tb_tags tb) of (i, es) \<Rightarrow> (i, tb\<lparr>tb_tags := es\<rparr>))"

text \<open>The row of a game with its players and event resolved.\<close>
definition resolve_game :: "(u16 list \<Rightarrow> u64) \<Rightarrow> db_game \<Rightarrow> tables \<Rightarrow> game_row \<times> tables" where
  "resolve_game xxh3 g tb =
     (let (white_id, tb) = ensure_player (dg_white g) tb;
          (black_id, tb) = ensure_player (dg_black g) tb;
          (event_id, tb) = ensure_event (dg_event_details g) tb in
      (bound_game xxh3 g white_id black_id event_id, tb))"

fun store_tags :: "nat \<Rightarrow> (string \<times> string) list \<Rightarrow> tables \<Rightarrow> bool \<times> tables" where
  "store_tags gid [] tb = (True, tb)"
| "store_tags gid (tag # tags) tb =
     (case ensure_tag (fst tag) tb of
        (tag_id, tb) \<Rightarrow>
          (case insert_game_tag gid tag_id (snd tag) tb of
             None \<Rightarrow> (False, tb)
           | Some (_, tb) \<Rightarrow> store_tags gid tags tb))"

definition store_game ::
  "(game_row \<Rightarrow> tables \<Rightarrow> (nat option \<times> tables) option) \<Rightarrow> (u16 list \<Rightarrow> u64) \<Rightarrow> db_game \<Rightarrow> tables \<Rightarrow> u32 result \<times> tables" where
  "store_game stmt xxh3 g tb =
     (case resolve_game xxh3 g tb of
        (p, tb) \<Rightarrow>
          (case stmt p tb of
             None \<Rightarrow> (unexpected Io_Failure, tb)
           | Some (None, tb) \<Rightarrow> (unexpected Duplicate, tb)
           | Some (Some rowid, tb) \<Rightarrow>
               (case store_tags (unat (of_nat rowid :: u32)) (dg_extra_tags g) tb of
                  (ok, tb) \<Rightarrow> (if ok then Inr (of_nat rowid) else unexpected Io_Failure, tb))))"

section \<open>Refinement\<close>

text \<open>A step sees the tables \<open>tb\<close> on a connection that does not fail.\<close>
definition at :: "origin \<Rightarrow> tables \<Rightarrow> game_writer \<Rightarrow> bool" where
  "at sv tb w \<longleftrightarrow> step_inv sv w \<and> gw_tables w = tb \<and> sd_reliable (gw_db w)"

lemma at_wf: "at sv tb w \<Longrightarrow> wf_tables tb"
  by (auto simp: at_def step_inv_def)

lemma run_at:
  assumes "at sv tb w" and "sound_stmt stmt" and "stmt tb = Some (x, tb')"
  shows "\<exists>w'. gw_run stmt w = (Some x, w') \<and> at sv tb' w'"
proof -
  obtain w' where w': "gw_run stmt w = (Some x, w')" "gw_tables w' = tb'" "sd_reliable (gw_db w')"
    using assms(1,3) by (simp add: at_def gw_run_def sql_run_def sd_reliable_def Let_def)
  from gw_run_inv(1) [OF this(1) _ assms(2)] assms(1) w' show ?thesis by (auto simp: at_def)
qed

lemma run_at_None:
  assumes "at sv tb w" and "sound_stmt stmt" and "stmt tb = None"
  shows "\<exists>w'. gw_run stmt w = (None, w') \<and> at sv tb w'"
proof -
  obtain w' where w': "gw_run stmt w = (None, w')" "gw_tables w' = tb" "sd_reliable (gw_db w')"
    using assms(1,3) by (simp add: at_def gw_run_def sql_run_def sd_reliable_def Let_def)
  from gw_run_inv(1) [OF this(1) _ assms(2)] assms(1) w' show ?thesis by (auto simp: at_def)
qed

lemma prepare_at:
  assumes "at sv tb w"
  shows "\<exists>w'. prepare_cached_stmt slot w = (Inr (), w') \<and> at sv tb w'"
proof (cases "gw_prepared w slot")
  case True
  then show ?thesis using assms by (simp add: prepare_cached_stmt_def)
next
  case False
  obtain w1 where w1: "gw_run (\<lambda>tb. Some ((), tb)) w = (Some (), w1)" "at sv tb w1"
    using run_at [OF assms sound_read [of "\<lambda>_. ()"]] by auto
  have "at sv tb (w1\<lparr>gw_prepared := p\<rparr>)" for p using w1(2) by (auto simp: at_def step_inv_def)
  then show ?thesis using False w1 by (simp add: prepare_cached_stmt_def)
qed

lemma select_or_insert_at:
  assumes "at sv tb w" and "sound_stmt stmt" and "query tb = None \<Longrightarrow> stmt tb = Some (i, tb')"
    and "\<And>j. query tb = Some j \<Longrightarrow> j = i \<and> tb' = tb"
  shows "\<exists>w'. select_or_insert sel query ins stmt w = (Inr i, w') \<and> at sv tb' w'"
proof -
  obtain w1 where w1: "prepare_cached_stmt sel w = (Inr (), w1)" "at sv tb w1" using prepare_at [OF assms(1)] by blast
  show ?thesis
  proof (cases "query tb")
    case None
    then obtain w2 where w2: "gw_run (select_row query) w1 = (None, w2)" "at sv tb w2"
      using run_at_None [OF w1(2) sound_select_row] by (auto simp: select_row_def)
    obtain w3 where w3: "prepare_cached_stmt ins w2 = (Inr (), w3)" "at sv tb w3" using prepare_at [OF w2(2)] by blast
    obtain w4 where w4: "gw_run stmt w3 = (Some i, w4)" "at sv tb' w4"
      using run_at [OF w3(2) assms(2) assms(3) [OF None]] by blast
    then show ?thesis by (simp add: select_or_insert_def and_then_def w1 w2 w3)
  next
    case (Some j)
    then obtain w2 where w2: "gw_run (select_row query) w1 = (Some j, w2)" "at sv tb w2"
      using run_at [OF w1(2) sound_select_row] by (auto simp: select_row_def)
    then show ?thesis using assms(4) [OF Some] by (simp add: select_or_insert_def and_then_def w1)
  qed
qed

lemma select_id_unique:
  "wf_entities es \<Longrightarrow> entry i name es \<Longrightarrow> select_id name es = Some i"
proof (induction es)
  case (Cons e es)
  then show ?case by (auto simp: select_id_def entry_def wf_entities_def)
qed (simp add: entry_def)

lemma select_id_None: "select_id name es = None \<longleftrightarrow> \<not> list_ex (\<lambda>e. en_name e = name) es"
  by (auto simp: select_id_def find_None_iff list_ex_iff)

lemma ensure_entity_insert:
  "select_id name es = None \<Longrightarrow> insert_entity name data es = Some (ensure_entity name data es)"
  using select_id_None [of name es] by (simp add: ensure_entity_def insert_entity_def Let_def)

lemma ensure_entity_found: "select_id name es = Some i \<Longrightarrow> ensure_entity name data es = (i, es)"
  by (simp add: ensure_entity_def)

lemma ensure_entity_entry: "ensure_entity name data es = (i, es') \<Longrightarrow> entry i name es'"
  by (auto simp: ensure_entity_def entry_def Let_def split: option.splits dest!: select_id_entry)

text \<open>A cached lookup answers what the tables would.\<close>
lemma cached_at:
  assumes "at sv tb w" and "sound_stmt stmt" and "query tb = None \<Longrightarrow> stmt tb = Some (i, tb')"
    and "\<And>j. query tb = Some j \<Longrightarrow> j = i \<and> tb' = tb" and "\<And>j. cached = Some j \<Longrightarrow> query tb = Some j"
    and "\<And>w'. at sv tb' w' \<Longrightarrow> at sv tb' (cache i w')"
  shows "\<exists>w'. (case cached of Some i \<Rightarrow> (Inr i, w)
      | None \<Rightarrow> and_then (select_or_insert sel query ins stmt) (\<lambda>i w. (Inr i, cache i w)) w) = (Inr i, w') \<and> at sv tb' w'"
proof (cases cached)
  case None
  obtain w' where "select_or_insert sel query ins stmt w = (Inr i, w')" "at sv tb' w'"
    using select_or_insert_at [OF assms(1-4)] by blast
  then show ?thesis using None assms(6) by (simp add: and_then_def)
next
  case (Some j)
  then show ?thesis using assms(1) assms(4) [OF assms(5)] by simp
qed

lemma player_at:
  assumes "at sv tb w" and "ensure_player plr tb = (i, tb')"
  shows "\<exists>w'. find_or_insert_player plr w = (Inr i, w') \<and> at sv tb' w'"
proof -
  have wf: "wf_entities (tb_players tb)" using at_wf [OF assms(1)] by (simp add: wf_tables_def)
  have cached: "select_id (pl_name plr) (tb_players tb) = Some j" if "gw_player_ids w (pl_name plr) = Some j" for j
    using select_id_unique [OF wf] that assms(1) by (auto simp: at_def step_inv_def caches_sound_def)
  have "entry i (pl_name plr) (tb_players tb')" using assms(2) by (auto simp: ensure_player_def split: prod.splits dest: ensure_entity_entry)
  then have cache: "at sv tb' (cache_player (pl_name plr) i w')" if "at sv tb' w'" for w'
    using that by (auto simp: at_def step_inv_def caches_sound_cache)
  show ?thesis
    unfolding find_or_insert_player_def
    by (rule cached_at [OF assms(1) sound_insert_player])
      (use assms(2) cached cache in \<open>auto simp: insert_player_sql_def ensure_player_def ensure_entity_insert ensure_entity_found split: prod.splits\<close>)
qed

lemma event_at:
  assumes "at sv tb w" and "ensure_event (Some evt) tb = (Some i, tb')"
  shows "\<exists>w'. find_or_insert_event evt w = (Inr i, w') \<and> at sv tb' w'"
proof -
  have wf: "wf_entities (tb_events tb)" using at_wf [OF assms(1)] by (simp add: wf_tables_def)
  have cached: "select_id (ev_name evt) (tb_events tb) = Some j" if "gw_event_ids w (ev_name evt) = Some j" for j
    using select_id_unique [OF wf] that assms(1) by (auto simp: at_def step_inv_def caches_sound_def)
  have "entry i (ev_name evt) (tb_events tb')" using assms(2) by (auto simp: ensure_event_def split: prod.splits dest: ensure_entity_entry)
  then have cache: "at sv tb' (cache_event (ev_name evt) i w')" if "at sv tb' w'" for w'
    using that by (auto simp: at_def step_inv_def caches_sound_cache)
  show ?thesis
    unfolding find_or_insert_event_def
    by (rule cached_at [OF assms(1) sound_insert_event])
      (use assms(2) cached cache in \<open>auto simp: insert_event_sql_def ensure_event_def ensure_entity_insert ensure_entity_found split: prod.splits\<close>)
qed

lemma tag_at:
  assumes "at sv tb w" and "ensure_tag name tb = (i, tb')"
  shows "\<exists>w'. find_or_insert_tag name w = (Inr i, w') \<and> at sv tb' w'"
proof -
  have wf: "wf_entities (tb_tags tb)" using at_wf [OF assms(1)] by (simp add: wf_tables_def)
  have cached: "select_id name (tb_tags tb) = Some j" if "gw_tag_ids w name = Some j" for j
    using select_id_unique [OF wf] that assms(1) by (auto simp: at_def step_inv_def caches_sound_def)
  have "entry i name (tb_tags tb')" using assms(2) by (auto simp: ensure_tag_def split: prod.splits dest: ensure_entity_entry)
  then have cache: "at sv tb' (cache_tag name i w')" if "at sv tb' w'" for w'
    using that by (auto simp: at_def step_inv_def caches_sound_cache)
  show ?thesis
    unfolding find_or_insert_tag_def
    by (rule cached_at [OF assms(1) sound_insert_tag])
      (use assms(2) cached cache in \<open>auto simp: insert_tag_sql_def ensure_tag_def ensure_entity_insert ensure_entity_found split: prod.splits\<close>)
qed

lemma optional_event_at:
  assumes "at sv tb w" and "ensure_event details tb = (i, tb')"
  shows "\<exists>w'. insert_optional_event details w = (Inr i, w') \<and> at sv tb' w'"
proof (cases details)
  case None
  then show ?thesis using assms by (simp add: insert_optional_event_def ensure_event_def)
next
  case (Some evt)
  then obtain j where j: "i = Some j" using assms(2) by (auto simp: ensure_event_def split: prod.splits)
  from event_at [OF assms(1) assms(2) [unfolded Some j]] show ?thesis
    by (auto simp: insert_optional_event_def Some j and_then_def)
qed

lemma tags_at:
  assumes "at sv tb w" and "store_tags (unat gid) tags tb = (ok, tb')"
  shows "\<exists>w'. insert_game_tags gid tags w = (if ok then Inr () else unexpected Io_Failure, w') \<and> at sv tb' w'"
  using assms
proof (induction tags arbitrary: tb w)
  case (Cons tag tags)
  obtain i tb1 where t: "ensure_tag (fst tag) tb = (i, tb1)" by force
  obtain w1 where w1: "find_or_insert_tag (fst tag) w = (Inr i, w1)" "at sv tb1 w1" using tag_at [OF Cons.prems(1) t] by blast
  obtain w2 where w2: "prepare_cached_stmt Insert_Game_Tag w1 = (Inr (), w2)" "at sv tb1 w2" using prepare_at [OF w1(2)] by blast
  show ?case
  proof (cases "insert_game_tag (unat gid) i (snd tag) tb1")
    case None
    obtain w3 where "gw_run (insert_game_tag (unat gid) i (snd tag)) w2 = (None, w3)" "at sv tb1 w3"
      using run_at_None [OF w2(2) sound_insert_game_tag None] by blast
    then show ?thesis using Cons.prems(2) t None by (auto simp: and_then_def w1 w2)
  next
    case (Some r)
    obtain u tb2 where r: "r = (u, tb2)" by (cases r)
    obtain w3 where "gw_run (insert_game_tag (unat gid) i (snd tag)) w2 = (Some u, w3)" "at sv tb2 w3"
      using run_at [OF w2(2) sound_insert_game_tag Some [unfolded r]] by blast
    then show ?thesis using Cons.IH [of tb2 w3] Cons.prems(2) t Some r by (auto simp: and_then_def w1 w2)
  qed
qed simp

lemma insert_body_at:
  assumes "at sv tb w" and "\<And>p. sound_stmt (stmt p)" and "store_game stmt xxh3 g tb = (r, tb')"
  shows "\<exists>w'. insert_body slot stmt xxh3 g w = (r, w') \<and> at sv tb' w'"
proof -
  obtain i tb1 where p1: "ensure_player (dg_white g) tb = (i, tb1)" by force
  obtain j tb2 where p2: "ensure_player (dg_black g) tb1 = (j, tb2)" by force
  obtain k tb3 where p3: "ensure_event (dg_event_details g) tb2 = (k, tb3)" by force
  let ?p = "bound_game xxh3 g i j k"
  have res: "resolve_game xxh3 g tb = (?p, tb3)" by (simp add: resolve_game_def p1 p2 p3)
  obtain w1 where w1: "find_or_insert_player (dg_white g) w = (Inr i, w1)" "at sv tb1 w1" using player_at [OF assms(1) p1] by blast
  obtain w2 where w2: "find_or_insert_player (dg_black g) w1 = (Inr j, w2)" "at sv tb2 w2" using player_at [OF w1(2) p2] by blast
  obtain w3 where w3: "insert_optional_event (dg_event_details g) w2 = (Inr k, w3)" "at sv tb3 w3"
    using optional_event_at [OF w2(2) p3] by blast
  obtain w4 where w4: "prepare_cached_stmt slot w3 = (Inr (), w4)" "at sv tb3 w4" using prepare_at [OF w3(2)] by blast
  note steps = insert_body_def and_then_def w1(1) w2(1) w3(1) w4(1)
  show ?thesis
  proof (cases "stmt ?p tb3")
    case None
    obtain w5 where "gw_run (stmt ?p) w4 = (None, w5)" "at sv tb3 w5" using run_at_None [OF w4(2) assms(2) None] by blast
    then show ?thesis using assms(3) by (simp add: steps store_game_def res None)
  next
    case (Some x)
    obtain changed tb4 where x: "x = (changed, tb4)" by force
    obtain w5 where w5: "gw_run (stmt ?p) w4 = (Some changed, w5)" "at sv tb4 w5"
      using run_at [OF w4(2) assms(2) Some [unfolded x]] by blast
    show ?thesis
    proof (cases changed)
      case None
      then show ?thesis using assms(3) w5 by (simp add: steps store_game_def res Some x)
    next
      case rowid: (Some rowid)
      obtain ok tb5 where t: "store_tags (unat (of_nat rowid :: u32)) (dg_extra_tags g) tb4 = (ok, tb5)" by force
      from tags_at [OF w5(2) this] show ?thesis
        using assms(3) w5 by (auto simp: steps store_game_def res Some x rowid t)
    qed
  qed
qed

lemma guarded_refines:
  assumes body: "\<And>sv w. at sv tb w \<Longrightarrow> \<exists>w'. body w = (r, w') \<and> at sv tb' w'"
    and "on_failure \<in> {clear_insert_caches, id}" and "writer_inv w" and "sd_reliable (gw_db w)" and "gw_tables w = tb"
  shows "\<exists>w'. guarded on_failure body w = (r, w') \<and> sd_reliable (gw_db w') \<and> sd_saved (gw_db w') = sd_saved (gw_db w)
     \<and> gw_tables w' = (if sd_saved (gw_db w) = None \<and> isl r then tb else tb')"
proof (cases "sd_saved (gw_db w) = None")
  case True
  define db where "db = (gw_db w)\<lparr>sd_clock := sd_clock (gw_db w) + 1, sd_saved := Some tb\<rparr>"
  have g: "txn_guard (gw_db w) = (Some True, db)"
    using True assms(4,5) by (simp add: txn_guard_def sql_begin_def Let_def sd_reliable_def db_def)
  have "at (Some tb, tb) tb (w\<lparr>gw_db := db\<rparr>)"
    using assms(3-5) by (simp add: at_def step_inv_def writer_inv_def db_def sd_reliable_def)
  from body [OF this] obtain w1 where w1: "body (w\<lparr>gw_db := db\<rparr>) = (r, w1)" "at (Some tb, tb) tb' w1" by blast
  show ?thesis
  proof (cases r)
    case (Inl e)
    have "gw_db (on_failure w2) = gw_db w2" for w2 using on_failure_cases [OF assms(2)] by blast
    then show ?thesis
      using w1 True Inl by (simp add: guarded_def g txn_release_def sql_rollback_def at_def step_inv_def sd_reliable_def)
  next
    case (Inr x)
    then show ?thesis
      using w1 True by (simp add: guarded_def g txn_commit_def sql_commit_def Let_def at_def step_inv_def sd_reliable_def)
  qed
next
  case False
  have "at (sd_saved (gw_db w), tb) tb w" using assms(3-5) by (simp add: at_def step_inv_def writer_inv_def)
  from body [OF this] obtain w1 where w1: "body w = (r, w1)" "at (sd_saved (gw_db w), tb) tb' w1" by blast
  have "gw_db (on_failure w2) = gw_db w2" for w2 using on_failure_cases [OF assms(2)] by blast
  then show ?thesis
    using w1 False by (cases r) (auto simp: guarded_def txn_guard_def txn_commit_def txn_release_def at_def step_inv_def)
qed

lemma gw_insert_refines:
  assumes "writer_inv w" and "sd_reliable (gw_db w)"
  shows "\<exists>w'. gw_insert xxh3 g w = (fst (store_game insert_game_sql xxh3 g (gw_tables w)), w') \<and> sd_reliable (gw_db w')
     \<and> sd_saved (gw_db w') = sd_saved (gw_db w)
     \<and> gw_tables w' = (if sd_saved (gw_db w) = None \<and> isl (fst (store_game insert_game_sql xxh3 g (gw_tables w)))
                       then gw_tables w else snd (store_game insert_game_sql xxh3 g (gw_tables w)))"
  unfolding gw_insert_def
  by (rule guarded_refines [OF insert_body_at [OF _ sound_insert_game(1)] _ assms refl]) auto

lemma gw_insert_raw_refines:
  assumes "writer_inv w" and "sd_reliable (gw_db w)"
  shows "\<exists>w'. gw_insert_raw xxh3 g w = (fst (store_game insert_game_raw_sql xxh3 g (gw_tables w)), w') \<and> sd_reliable (gw_db w')
     \<and> sd_saved (gw_db w') = sd_saved (gw_db w)
     \<and> gw_tables w' = (if sd_saved (gw_db w) = None \<and> isl (fst (store_game insert_game_raw_sql xxh3 g (gw_tables w)))
                       then gw_tables w else snd (store_game insert_game_raw_sql xxh3 g (gw_tables w)))"
  unfolding gw_insert_raw_def
  by (rule guarded_refines [OF insert_body_at [OF _ sound_insert_game(2)] _ assms refl]) auto

end
