(* ===== verification/Game_Dedup.thy ===== *)
theory Game_Dedup
  imports Game_Writer_Spec
begin

text \<open>
  The raw ingest of a fresh import skips the identity check and reconciles the rows in one pass afterwards. Here: that pass
  as an operation on the list of rows, and its agreement with inserting the games one by one with the check.
\<close>

section \<open>Reconciling a list of rows\<close>

definition kept_rows :: "game_row list \<Rightarrow> game_row list" where
  "kept_rows rs = filter (lowest_of_group rs) rs"

definition reconcile :: "game_row list \<Rightarrow> game_row list" where
  "reconcile rs = map (\<lambda>r. r\<lparr>gr_identity_collision := partition_rank (kept_rows rs) r\<rparr>) (kept_rows rs)"

definition ascending_ids :: "game_row list \<Rightarrow> bool" where
  "ascending_ids rs \<longleftrightarrow> sorted_wrt (<) (map gr_id rs)"

lemma ascending_ids_snoc: "ascending_ids (rs @ [r]) \<longleftrightarrow> ascending_ids rs \<and> (\<forall>s\<in>set rs. gr_id s < gr_id r)"
  by (auto simp: ascending_ids_def sorted_wrt_append)

lemma kept_rows_snoc:
  assumes "ascending_ids (rs @ [r])"
  shows "kept_rows (rs @ [r]) = kept_rows rs @ (if exact_key r \<in> exact_key ` set rs then [] else [r])"
proof -
  have less: "gr_id s < gr_id r" if "s \<in> set rs" for s using assms that by (auto simp: ascending_ids_snoc)
  have "lowest_of_group (rs @ [r]) s = lowest_of_group rs s" if "s \<in> set rs" for s
    using less [OF that] by (auto simp: lowest_of_group_def)
  then have "filter (lowest_of_group (rs @ [r])) rs = kept_rows rs" by (simp add: kept_rows_def cong: filter_cong)
  moreover have "lowest_of_group (rs @ [r]) r \<longleftrightarrow> exact_key r \<notin> exact_key ` set rs"
  proof -
    have "lowest_of_group (rs @ [r]) r \<longleftrightarrow> (\<forall>s\<in>set rs. exact_key s = exact_key r \<longrightarrow> gr_id r \<le> gr_id s)"
      by (simp add: lowest_of_group_def list_all_iff)
    also have "\<dots> \<longleftrightarrow> (\<forall>s\<in>set rs. exact_key s \<noteq> exact_key r)"
      by (intro ball_cong refl) (use less in \<open>simp add: linorder_not_le [symmetric]\<close>)
    also have "\<dots> \<longleftrightarrow> exact_key r \<notin> exact_key ` set rs" unfolding image_iff by metis
    finally show ?thesis .
  qed
  ultimately show ?thesis by (simp add: kept_rows_def)
qed

lemma kept_rows_subset: "set (kept_rows rs) \<subseteq> set rs"
  by (auto simp: kept_rows_def)

lemma kept_rows_exact: "ascending_ids rs \<Longrightarrow> exact_key ` set (kept_rows rs) = exact_key ` set rs"
proof (induction rs rule: rev_induct)
  case (snoc r rs)
  then have "exact_key ` set (kept_rows rs) = exact_key ` set rs" by (simp add: ascending_ids_snoc)
  then show ?case by (simp add: kept_rows_snoc [OF snoc.prems] insert_absorb)
qed (simp add: kept_rows_def)

definition same_identity :: "game_row \<Rightarrow> game_row list \<Rightarrow> game_row list" where
  "same_identity r rs = filter (\<lambda>s. identity_key s = identity_key r) rs"

lemma reconcile_snoc:
  assumes "ascending_ids (rs @ [r])"
  shows "reconcile (rs @ [r]) = reconcile rs @ (if exact_key r \<in> exact_key ` set rs then []
     else [r\<lparr>gr_identity_collision := length (same_identity r (kept_rows rs))\<rparr>])"
proof (cases "exact_key r \<in> exact_key ` set rs")
  case True
  then show ?thesis by (simp add: reconcile_def kept_rows_snoc [OF assms])
next
  case False
  have less: "gr_id s < gr_id r" if "s \<in> set (kept_rows rs)" for s
    using assms kept_rows_subset [of rs] that by (auto simp: ascending_ids_snoc)
  have "partition_rank (kept_rows rs @ [r]) s = partition_rank (kept_rows rs) s" if "s \<in> set (kept_rows rs)" for s
    using less [OF that] by (simp add: partition_rank_def)
  moreover have "partition_rank (kept_rows rs @ [r]) r = length (same_identity r (kept_rows rs))"
    using less by (simp add: partition_rank_def same_identity_def cong: filter_cong)
  ultimately show ?thesis using False by (simp add: reconcile_def kept_rows_snoc [OF assms])
qed

lemma keys_update [simp]:
  "identity_key (r\<lparr>gr_identity_collision := c\<rparr>) = identity_key r" "exact_key (r\<lparr>gr_identity_collision := c\<rparr>) = exact_key r"
  "identity_key (r\<lparr>gr_id := i\<rparr>) = identity_key r" "exact_key (r\<lparr>gr_id := i\<rparr>) = exact_key r"
  "index_key (r\<lparr>gr_id := i\<rparr>) = index_key r" "index_key (r\<lparr>gr_identity_collision := c\<rparr>) = (identity_key r, c)"
  by (simp_all add: identity_key_def exact_key_def index_key_def)

lemma reconcile_exact: "ascending_ids rs \<Longrightarrow> exact_key ` set (reconcile rs) = exact_key ` set rs"
  using kept_rows_exact [of rs] by (simp add: reconcile_def image_image)

text \<open>The collision numbers of the rows that share their identity columns are 0, 1, 2, ... in order.\<close>
lemma reconcile_collisions:
  assumes "ascending_ids rs"
  shows "map gr_identity_collision (same_identity p (reconcile rs)) = [0..<length (same_identity p (kept_rows rs))]"
  using assms
proof (induction rs rule: rev_induct)
  case (snoc r rs)
  then have IH: "map gr_identity_collision (same_identity p (reconcile rs)) = [0..<length (same_identity p (kept_rows rs))]"
    by (simp add: ascending_ids_snoc)
  have same: "same_identity r rs' = same_identity p rs'" if "identity_key r = identity_key p" for rs'
    using that by (simp add: same_identity_def)
  from IH same show ?case
    by (auto simp: reconcile_snoc [OF snoc.prems] kept_rows_snoc [OF snoc.prems] same_identity_def)
qed (simp add: reconcile_def kept_rows_def same_identity_def)

lemma fold_max_upt: "0 < n \<Longrightarrow> fold max [1..<n] 0 = n - (1 :: nat)"
proof (induction n)
  case (Suc n)
  then show ?case by (cases n) simp_all
qed simp

lemma next_collision_reconcile:
  assumes "ascending_ids rs"
  shows "next_collision p (reconcile rs) = length (same_identity p (kept_rows rs))"
proof -
  let ?n = "length (same_identity p (kept_rows rs))"
  have "map gr_identity_collision (filter (\<lambda>r. identity_key r = identity_key p) (reconcile rs)) = [0..<?n]"
    using reconcile_collisions [OF assms, of p] by (simp add: same_identity_def)
  then show ?thesis
    unfolding next_collision_def using fold_max_upt [of ?n] by (cases ?n) (simp_all add: upt_conv_Cons del: upt_Suc)
qed

lemma reconcile_index: "ascending_ids rs \<Longrightarrow> distinct (map index_key (reconcile rs))"
proof (induction rs rule: rev_induct)
  case (snoc r rs)
  let ?n = "length (same_identity r (kept_rows rs))"
  have asc: "ascending_ids rs" using snoc.prems by (simp add: ascending_ids_snoc)
  have "(identity_key r, ?n) \<notin> set (map index_key (reconcile rs))"
  proof
    assume "(identity_key r, ?n) \<in> set (map index_key (reconcile rs))"
    then obtain s where "s \<in> set (reconcile rs)" "index_key s = (identity_key r, ?n)" by auto
    then have "?n \<in> set (map gr_identity_collision (same_identity r (reconcile rs)))"
      by (force simp: same_identity_def index_key_def)
    then show False by (simp add: reconcile_collisions [OF asc])
  qed
  then show ?case using snoc.IH [OF asc] by (simp add: reconcile_snoc [OF snoc.prems])
qed (simp add: reconcile_def kept_rows_def)

section \<open>One insert at a time\<close>

definition without_id :: "game_row \<Rightarrow> game_row" where
  "without_id r = r\<lparr>gr_id := 0\<rparr>"

lemma without_id_update [simp]:
  "without_id (r\<lparr>gr_id := i\<rparr>) = without_id r" "exact_key (without_id r) = exact_key r" "identity_key (without_id r) = identity_key r"
  "gr_identity_collision (without_id r) = gr_identity_collision r"
  by (simp_all add: without_id_def)

lemma next_collision_without_id: "next_collision p (map without_id rs) = next_collision p rs"
  by (simp add: next_collision_def filter_map comp_def)

text \<open>The rows a checked insert and a raw insert leave, with the rowid they take.\<close>
definition checked_rows :: "game_row \<Rightarrow> game_row list \<Rightarrow> game_row list" where
  "checked_rows p rs =
     (if exact_key p \<in> exact_key ` set rs then rs
      else rs @ [p\<lparr>gr_identity_collision := next_collision p rs, gr_id := next_rowid (map gr_id rs)\<rparr>])"

definition raw_rows :: "game_row \<Rightarrow> game_row list \<Rightarrow> game_row list" where
  "raw_rows p rs = rs @ [p\<lparr>gr_identity_collision := 0, gr_id := next_rowid (map gr_id rs)\<rparr>]"

lemma ascending_snoc_rowid: "ascending_ids rs \<Longrightarrow> gr_id r = next_rowid (map gr_id rs) \<Longrightarrow> ascending_ids (rs @ [r])"
  using sorted_wrt_snoc_rowid [of "map gr_id rs"] by (simp add: ascending_ids_def)

lemma checked_simulates_raw:
  assumes "ascending_ids rs" and "map without_id cs = map without_id (reconcile rs)"
  shows "map without_id (checked_rows p cs) = map without_id (reconcile (raw_rows p rs))"
proof -
  let ?r = "p\<lparr>gr_identity_collision := 0, gr_id := next_rowid (map gr_id rs)\<rparr>"
  have asc: "ascending_ids (rs @ [?r])" by (rule ascending_snoc_rowid [OF assms(1)]) simp
  have keys: "exact_key ` set xs = exact_key ` set (map without_id xs)" for xs by (simp add: image_image)
  have dup: "exact_key ` set cs = exact_key ` set rs"
    using keys [of cs] keys [of "reconcile rs"] assms(2) reconcile_exact [OF assms(1)] by simp
  have "next_collision p cs = length (same_identity p (kept_rows rs))"
    using next_collision_without_id [of p cs] next_collision_without_id [of p "reconcile rs"] assms
      next_collision_reconcile [OF assms(1), of p] by simp
  moreover have "same_identity ?r (kept_rows rs) = same_identity p (kept_rows rs)" by (simp add: same_identity_def)
  ultimately show ?thesis
    using assms(2) by (auto simp: checked_rows_def raw_rows_def reconcile_snoc [OF asc] dup without_id_def)
qed

section \<open>Whole games\<close>

lemma ensure_player_wf:
  assumes "wf_tables tb" and "ensure_player plr tb = (i, tb')"
  shows "wf_tables tb'" and "extends tb tb'" and "has_id i (tb_players tb')"
    and "tb' = tb\<lparr>tb_players := tb_players tb'\<rparr>"
proof -
  have "wf_tables tb' \<and> extends tb tb'"
  proof (cases "select_id (pl_name plr) (tb_players tb)")
    case None
    then have "insert_player_sql plr tb = Some (i, tb')"
      using assms(2) by (auto simp: insert_player_sql_def ensure_player_def ensure_entity_insert split: prod.splits)
    then show ?thesis using sound_insert_player [of plr] assms(1) unfolding sound_stmt_def by blast
  next
    case (Some j)
    then show ?thesis using assms by (auto simp: ensure_player_def ensure_entity_found)
  qed
  then show "wf_tables tb'" "extends tb tb'" by auto
  show "has_id i (tb_players tb')"
    using assms(2) ensure_entity_entry by (fastforce simp: ensure_player_def has_id_def entry_def split: prod.splits)
  show "tb' = tb\<lparr>tb_players := tb_players tb'\<rparr>" using assms(2) by (auto simp: ensure_player_def split: prod.splits)
qed

lemma ensure_event_wf:
  assumes "wf_tables tb" and "ensure_event details tb = (i, tb')"
  shows "wf_tables tb'" and "\<And>e. i = Some e \<Longrightarrow> has_id e (tb_events tb')"
    and "tb' = tb\<lparr>tb_events := tb_events tb'\<rparr>"
proof -
  show "wf_tables tb'"
  proof (cases details)
    case None
    then show ?thesis using assms by (simp add: ensure_event_def)
  next
    case (Some evt)
    show ?thesis
    proof (cases "select_id (ev_name evt) (tb_events tb)")
      case None
      then have "\<exists>j. insert_event_sql evt tb = Some (j, tb')"
        using assms(2) Some by (auto simp: insert_event_sql_def ensure_event_def ensure_entity_insert split: prod.splits)
      then show ?thesis using sound_insert_event [of evt] assms(1) unfolding sound_stmt_def by blast
    next
      case (Some j)
      then show ?thesis using assms \<open>details = Some evt\<close> by (auto simp: ensure_event_def ensure_entity_found)
    qed
  qed
  show "has_id e (tb_events tb')" if "i = Some e" for e
    using assms(2) that ensure_entity_entry
    by (fastforce simp: ensure_event_def has_id_def entry_def split: prod.splits option.splits)
  show "tb' = tb\<lparr>tb_events := tb_events tb'\<rparr>" using assms(2) by (auto simp: ensure_event_def split: prod.splits option.splits)
qed

text \<open>The tables without their games.\<close>
definition other_tables :: "tables \<Rightarrow> player_data entity list \<times> event_data entity list \<times> unit entity list" where
  "other_tables tb = (tb_players tb, tb_events tb, tb_tags tb)"

lemma resolve_game_wf:
  assumes "wf_tables tb" and "resolve_game xxh3 g tb = (p, tb')"
  shows "wf_tables tb'" and "has_id (gr_white_id p) (tb_players tb')" and "has_id (gr_black_id p) (tb_players tb')"
    and "case gr_event_id p of None \<Rightarrow> True | Some e \<Rightarrow> has_id e (tb_events tb')"
    and "tb' = tb\<lparr>tb_players := tb_players tb', tb_events := tb_events tb'\<rparr>"
proof -
  obtain i tb1 where p1: "ensure_player (dg_white g) tb = (i, tb1)" by force
  obtain j tb2 where p2: "ensure_player (dg_black g) tb1 = (j, tb2)" by force
  obtain k tb3 where p3: "ensure_event (dg_event_details g) tb2 = (k, tb3)" by force
  note w1 = ensure_player_wf [OF assms(1) p1]
  note w2 = ensure_player_wf [OF w1(1) p2]
  note w3 = ensure_event_wf [OF w2(1) p3]
  have p: "p = bound_game xxh3 g i j k" "tb' = tb3" using assms(2) by (simp_all add: resolve_game_def p1 p2 p3)
  have players: "tb_players tb3 = tb_players tb2" using w3(3) by (metis tables.select_convs(1) tables.surjective tables.update_convs(2))
  show "wf_tables tb'" using w3(1) p by simp
  show "has_id (gr_white_id p) (tb_players tb')" using w1(3) w2(2) p players by (auto simp: bound_game_def extends_def intro: has_id_mono)
  show "has_id (gr_black_id p) (tb_players tb')" using w2(3) p players by (simp add: bound_game_def)
  show "case gr_event_id p of None \<Rightarrow> True | Some e \<Rightarrow> has_id e (tb_events tb')"
    using w3(2) p by (auto simp: bound_game_def split: option.splits)
  have "tb_events tb2 = tb_events tb" "tb_tags tb2 = tb_tags tb" "tb_games tb2 = tb_games tb" "tb_game_tags tb2 = tb_game_tags tb"
      "tb_identity_index tb2 = tb_identity_index tb"
    using arg_cong [OF w1(4), of tb_events] arg_cong [OF w2(4), of tb_events] arg_cong [OF w1(4), of tb_tags]
      arg_cong [OF w2(4), of tb_tags] arg_cong [OF w1(4), of tb_games] arg_cong [OF w2(4), of tb_games]
      arg_cong [OF w1(4), of tb_game_tags] arg_cong [OF w2(4), of tb_game_tags]
      arg_cong [OF w1(4), of tb_identity_index] arg_cong [OF w2(4), of tb_identity_index] by simp_all
  then show "tb' = tb\<lparr>tb_players := tb_players tb', tb_events := tb_events tb'\<rparr>"
    using arg_cong [OF w3(3), of tb_tags] arg_cong [OF w3(3), of tb_games] arg_cong [OF w3(3), of tb_game_tags]
      arg_cong [OF w3(3), of tb_identity_index] p by (intro tables.equality) simp_all
qed

lemma resolve_game_cong:
  assumes "other_tables tb = other_tables tb2" and "resolve_game xxh3 g tb = (p, tb')" and "resolve_game xxh3 g tb2 = (p2, tb2')"
  shows "p = p2" and "tb_players tb' = tb_players tb2'" and "tb_events tb' = tb_events tb2'"
  using assms
  by (auto simp: resolve_game_def ensure_player_def ensure_event_def other_tables_def Let_def split: prod.splits option.splits)

lemma next_collision_fresh: "index_key (p\<lparr>gr_identity_collision := next_collision p rs\<rparr>) \<notin> set (map index_key rs)"
proof
  assume "index_key (p\<lparr>gr_identity_collision := next_collision p rs\<rparr>) \<in> set (map index_key rs)"
  then obtain r where r: "r \<in> set rs" "identity_key r = identity_key p" "gr_identity_collision r = next_collision p rs"
    by (auto simp: index_key_def)
  from r(1,2) have m: "gr_identity_collision r \<in> set (map gr_identity_collision (filter (\<lambda>r. identity_key r = identity_key p) rs))" by simp
  then obtain c cs where cs: "map gr_identity_collision (filter (\<lambda>r. identity_key r = identity_key p) rs) = c # cs"
    by (cases "map gr_identity_collision (filter (\<lambda>r. identity_key r = identity_key p) rs)") auto
  have "gr_identity_collision r \<le> fold max cs c" using m unfolding cs using fold_max_bound [of c cs] by auto
  then show False using r(3) cs by (simp add: next_collision_def)
qed

lemma insert_game_row_resolved:
  assumes "has_id (gr_white_id p) (tb_players tb)" "has_id (gr_black_id p) (tb_players tb)"
    "case gr_event_id p of None \<Rightarrow> True | Some e \<Rightarrow> has_id e (tb_events tb)"
    "tb_identity_index tb \<Longrightarrow> index_key p \<notin> set (map index_key (tb_games tb))"
  shows "insert_game_row p tb =
    Some (next_rowid (map gr_id (tb_games tb)), tb\<lparr>tb_games := tb_games tb @ [p\<lparr>gr_id := next_rowid (map gr_id (tb_games tb))\<rparr>]\<rparr>)"
  using assms by (simp add: insert_game_row_def Let_def)

lemma store_checked:
  assumes "wf_tables tb" and "dg_extra_tags g = []" and "resolve_game xxh3 g tb = (p, tb1)"
  shows "snd (store_game insert_game_sql xxh3 g tb) = tb1\<lparr>tb_games := checked_rows p (tb_games tb)\<rparr>"
    and "isl (fst (store_game insert_game_sql xxh3 g tb)) \<longleftrightarrow> exact_key p \<in> exact_key ` set (tb_games tb)"
proof -
  note r = resolve_game_wf [OF assms(1,3)]
  have games: "tb_games tb1 = tb_games tb" using arg_cong [OF r(5), of tb_games] by simp
  have dup: "list_ex (\<lambda>r. exact_key r = exact_key p) (tb_games tb) \<longleftrightarrow> exact_key p \<in> exact_key ` set (tb_games tb)"
    unfolding list_ex_iff image_iff by metis
  have "insert_game_row (p\<lparr>gr_identity_collision := next_collision p (tb_games tb1)\<rparr>) tb1 = Some (next_rowid (map gr_id (tb_games tb)),
      tb1\<lparr>tb_games := tb_games tb @ [p\<lparr>gr_identity_collision := next_collision p (tb_games tb), gr_id := next_rowid (map gr_id (tb_games tb))\<rparr>]\<rparr>)"
    using insert_game_row_resolved [of "p\<lparr>gr_identity_collision := next_collision p (tb_games tb1)\<rparr>" tb1] r(2-4)
      next_collision_fresh [of p "tb_games tb1"] games by simp
  moreover have "tb1\<lparr>tb_games := tb_games tb\<rparr> = tb1" using games by (metis tables.surjective tables.update_convs(4))
  ultimately show "snd (store_game insert_game_sql xxh3 g tb) = tb1\<lparr>tb_games := checked_rows p (tb_games tb)\<rparr>"
    "isl (fst (store_game insert_game_sql xxh3 g tb)) \<longleftrightarrow> exact_key p \<in> exact_key ` set (tb_games tb)"
    using assms(2) games by (simp_all add: store_game_def assms(3) insert_game_sql_def dup checked_rows_def)
qed

lemma store_raw:
  assumes "wf_tables tb" and "dg_extra_tags g = []" and "resolve_game xxh3 g tb = (p, tb1)" and "\<not> tb_identity_index tb"
  shows "snd (store_game insert_game_raw_sql xxh3 g tb) = tb1\<lparr>tb_games := raw_rows p (tb_games tb)\<rparr>"
    and "\<not> isl (fst (store_game insert_game_raw_sql xxh3 g tb))"
proof -
  note r = resolve_game_wf [OF assms(1,3)]
  have games: "tb_games tb1 = tb_games tb" "tb_identity_index tb1 = tb_identity_index tb"
    using arg_cong [OF r(5), of tb_games] arg_cong [OF r(5), of tb_identity_index] by simp_all
  have "insert_game_row (p\<lparr>gr_identity_collision := 0\<rparr>) tb1 = Some (next_rowid (map gr_id (tb_games tb)),
      tb1\<lparr>tb_games := raw_rows p (tb_games tb)\<rparr>)"
    using insert_game_row_resolved [of "p\<lparr>gr_identity_collision := 0\<rparr>" tb1] r(2-4) games assms(4) by (simp add: raw_rows_def)
  then show "snd (store_game insert_game_raw_sql xxh3 g tb) = tb1\<lparr>tb_games := raw_rows p (tb_games tb)\<rparr>"
    "\<not> isl (fst (store_game insert_game_raw_sql xxh3 g tb))"
    using assms(2) by (simp_all add: store_game_def assms(3) insert_game_raw_sql_def)
qed

section \<open>A batch\<close>

text \<open>The games of a batch one after the other; a game that is refused is skipped.\<close>
fun insert_all :: "(db_game \<Rightarrow> game_writer \<Rightarrow> u32 result \<times> game_writer) \<Rightarrow> db_game list \<Rightarrow> game_writer \<Rightarrow> game_writer" where
  "insert_all store [] w = w"
| "insert_all store (g # gs) w = insert_all store gs (snd (store g w))"

text \<open>The checked tables agree with what the raw tables will be after the reconciling pass.\<close>
definition agree :: "tables \<Rightarrow> tables \<Rightarrow> bool" where
  "agree checked raw \<longleftrightarrow> other_tables checked = other_tables raw \<and> tb_identity_index checked \<and> \<not> tb_identity_index raw
     \<and> map without_id (tb_games checked) = map without_id (reconcile (tb_games raw))"

text \<open>A writer inside a transaction of a reliable connection.\<close>
definition ready :: "game_writer \<Rightarrow> bool" where
  "ready w \<longleftrightarrow> writer_inv w \<and> sd_reliable (gw_db w) \<and> sd_saved (gw_db w) \<noteq> None"

lemma insert_agrees:
  assumes "ready wc" and "ready wr" and "agree (gw_tables wc) (gw_tables wr)" and "dg_extra_tags g = []"
  shows "ready (snd (gw_insert xxh3 g wc))" and "ready (snd (gw_insert_raw xxh3 g wr))"
    and "agree (gw_tables (snd (gw_insert xxh3 g wc))) (gw_tables (snd (gw_insert_raw xxh3 g wr)))"
    and "length (tb_games (gw_tables (snd (gw_insert_raw xxh3 g wr)))) = Suc (length (tb_games (gw_tables wr)))"
proof -
  have c: "writer_inv wc" "sd_reliable (gw_db wc)" "sd_saved (gw_db wc) \<noteq> None" "wf_tables (gw_tables wc)"
    using assms(1) by (simp_all add: ready_def writer_inv_def)
  have r: "writer_inv wr" "sd_reliable (gw_db wr)" "sd_saved (gw_db wr) \<noteq> None" "wf_tables (gw_tables wr)"
    using assms(2) by (simp_all add: ready_def writer_inv_def)
  obtain wc' where wc': "gw_insert xxh3 g wc = (fst (store_game insert_game_sql xxh3 g (gw_tables wc)), wc')"
      "sd_reliable (gw_db wc')" "sd_saved (gw_db wc') = sd_saved (gw_db wc)"
      "gw_tables wc' = snd (store_game insert_game_sql xxh3 g (gw_tables wc))"
    using gw_insert_refines [OF c(1,2), of xxh3 g] c(3) by auto
  obtain wr' where wr': "gw_insert_raw xxh3 g wr = (fst (store_game insert_game_raw_sql xxh3 g (gw_tables wr)), wr')"
      "sd_reliable (gw_db wr')" "sd_saved (gw_db wr') = sd_saved (gw_db wr)"
      "gw_tables wr' = snd (store_game insert_game_raw_sql xxh3 g (gw_tables wr))"
    using gw_insert_raw_refines [OF r(1,2), of xxh3 g] r(3) by auto
  show "ready (snd (gw_insert xxh3 g wc))" using gw_insert_effect [OF c(1)] wc' c(3) by (auto simp: ready_def)
  show "ready (snd (gw_insert_raw xxh3 g wr))" using gw_insert_effect [OF r(1)] wr' r(3) by (auto simp: ready_def)
  obtain p tc where pc: "resolve_game xxh3 g (gw_tables wc) = (p, tc)" by force
  obtain q tr where pr: "resolve_game xxh3 g (gw_tables wr) = (q, tr)" by force
  have eq: "other_tables (gw_tables wc) = other_tables (gw_tables wr)" "\<not> tb_identity_index (gw_tables wr)" "tb_identity_index (gw_tables wc)"
    "map without_id (tb_games (gw_tables wc)) = map without_id (reconcile (tb_games (gw_tables wr)))"
    using assms(3) by (simp_all add: agree_def)
  note cong = resolve_game_cong [OF eq(1) pc pr]
  have rest: "tb_tags tc = tb_tags (gw_tables wc)" "tb_tags tr = tb_tags (gw_tables wr)"
    "tb_identity_index tc = tb_identity_index (gw_tables wc)" "tb_identity_index tr = tb_identity_index (gw_tables wr)"
    using arg_cong [OF resolve_game_wf(5) [OF c(4) pc], of tb_tags] arg_cong [OF resolve_game_wf(5) [OF r(4) pr], of tb_tags]
      arg_cong [OF resolve_game_wf(5) [OF c(4) pc], of tb_identity_index]
      arg_cong [OF resolve_game_wf(5) [OF r(4) pr], of tb_identity_index] by simp_all
  have "ascending_ids (tb_games (gw_tables wr))" using r(4) by (simp add: wf_tables_def wf_games_def ascending_ids_def)
  from checked_simulates_raw [OF this eq(4), of p]
  show "agree (gw_tables (snd (gw_insert xxh3 g wc))) (gw_tables (snd (gw_insert_raw xxh3 g wr)))"
    using wc' wr' store_checked(1) [OF c(4) assms(4) pc] store_raw(1) [OF r(4) assms(4) pr eq(2)] cong rest eq
    by (simp add: agree_def other_tables_def)
  show "length (tb_games (gw_tables (snd (gw_insert_raw xxh3 g wr)))) = Suc (length (tb_games (gw_tables wr)))"
    using wr' store_raw(1) [OF r(4) assms(4) pr eq(2)] by (simp add: raw_rows_def)
qed

lemma insert_all_agrees:
  assumes "ready wc" and "ready wr" and "agree (gw_tables wc) (gw_tables wr)" and "\<forall>g\<in>set gs. dg_extra_tags g = []"
  shows "ready (insert_all (gw_insert xxh3) gs wc) \<and> ready (insert_all (gw_insert_raw xxh3) gs wr)
     \<and> agree (gw_tables (insert_all (gw_insert xxh3) gs wc)) (gw_tables (insert_all (gw_insert_raw xxh3) gs wr))
     \<and> length (tb_games (gw_tables (insert_all (gw_insert_raw xxh3) gs wr))) = length (tb_games (gw_tables wr)) + length gs"
  using assms
proof (induction gs arbitrary: wc wr)
  case (Cons g gs)
  note step = insert_agrees [OF Cons.prems(1-3), of g xxh3]
  show ?case using Cons.IH [OF step(1-3)] step(4) Cons.prems(4) by simp
qed simp

section \<open>The reconciling pass\<close>

lemma exec_at:
  assumes "at sv tb w" and "sound_stmt stmt" and "stmt tb = Some (x, tb')"
  shows "\<exists>w'. gw_exec stmt w = (Inr x, w') \<and> at sv tb' w'"
  using run_at [OF assms] by (auto simp: gw_exec_def)

definition dedup_tables :: "tables \<Rightarrow> tables" where
  "dedup_tables tb = tb\<lparr>tb_games := reconcile (tb_games tb),
     tb_game_tags := filter (\<lambda>t. gt_game_id t \<in> set (map gr_id (kept_rows (tb_games tb)))) (tb_game_tags tb), tb_identity_index := True\<rparr>"

lemma update_collisions_no_index:
  "update_collisions False rank before rs = Some (before @ map (\<lambda>r. r\<lparr>gr_identity_collision := rank r\<rparr>) rs)"
  by (induction rs arbitrary: before) (simp_all add: Let_def)

lemma dedup_body_at:
  assumes "at sv tb w" and "\<not> tb_identity_index tb"
  shows "\<exists>w'. dedup_body w = (Inr (length (tb_games tb) - length (kept_rows (tb_games tb))), w') \<and> at sv (dedup_tables tb) w'"
proof -
  let ?kept = "kept_rows (tb_games tb)"
  let ?tags = "filter (\<lambda>t. gt_game_id t \<in> set (map gr_id ?kept)) (tb_game_tags tb)"
  let ?tb1 = "tb\<lparr>tb_games := ?kept, tb_game_tags := ?tags\<rparr>"
  let ?tb2 = "?tb1\<lparr>tb_games := reconcile (tb_games tb)\<rparr>"
  have d1: "dedup_delete_sql tb = Some (length (tb_games tb) - length ?kept, ?tb1)"
    by (simp add: dedup_delete_sql_def kept_rows_def Let_def)
  have d2: "dedup_reassign_collision_sql ?tb1 = Some ((), ?tb2)"
    using assms(2) by (simp add: dedup_reassign_collision_sql_def update_collisions_no_index reconcile_def)
  have "ascending_ids (tb_games tb)" using at_wf [OF assms(1)] by (simp add: wf_tables_def wf_games_def ascending_ids_def)
  then have d3: "identity_index_ddl ?tb2 = Some ((), dedup_tables tb)"
    using reconcile_index by (simp add: identity_index_ddl_def dedup_tables_def)
  obtain w1 where w1: "gw_exec dedup_delete_sql w = (Inr (length (tb_games tb) - length ?kept), w1)" "at sv ?tb1 w1"
    using exec_at [OF assms(1) sound_dedup_delete d1] by blast
  obtain w2 where w2: "gw_exec dedup_reassign_collision_sql w1 = (Inr (), w2)" "at sv ?tb2 w2"
    using exec_at [OF w1(2) sound_dedup_reassign d2] by blast
  obtain w3 where "gw_exec identity_index_ddl w2 = (Inr (), w3)" "at sv (dedup_tables tb) w3"
    using exec_at [OF w2(2) sound_identity_index(1) d3] by blast
  then show ?thesis by (simp add: dedup_body_def create_identity_index_def and_then_def w1 w2)
qed

lemma deduplicate_refines:
  assumes "writer_inv w" and "sd_reliable (gw_db w)" and "\<not> tb_identity_index (gw_tables w)"
  shows "\<exists>w'. deduplicate w = (Inr (length (tb_games (gw_tables w)) - length (kept_rows (tb_games (gw_tables w)))), w')
     \<and> gw_tables w' = dedup_tables (gw_tables w)"
  using guarded_refines [OF dedup_body_at [OF _ assms(3)] _ assms(1,2) refl, of id] by (auto simp: deduplicate_def)

lemma begin_ready:
  assumes "writer_inv w" and "sd_reliable (gw_db w)" and "sd_saved (gw_db w) = None"
  shows "ready (snd (begin_transaction w))" and "gw_tables (snd (begin_transaction w)) = gw_tables w"
  using assms by (simp_all add: begin_transaction_def sql_begin_def Let_def ready_def writer_inv_def sd_reliable_def)

lemma commit_ready:
  assumes "ready w"
  shows "writer_inv (snd (commit_transaction w))" and "sd_reliable (gw_db (snd (commit_transaction w)))"
    and "gw_tables (snd (commit_transaction w)) = gw_tables w" and "sd_saved (gw_db (snd (commit_transaction w))) = None"
  using assms by (auto simp: commit_transaction_def sql_commit_def Let_def ready_def writer_inv_def sd_reliable_def)

lemma drop_index_reliable:
  assumes "writer_inv w" and "sd_reliable (gw_db w)" and "sd_saved (gw_db w) = None"
  shows "writer_inv (snd (drop_identity_index w))" and "sd_reliable (gw_db (snd (drop_identity_index w)))"
    and "sd_saved (gw_db (snd (drop_identity_index w))) = None"
    and "gw_tables (snd (drop_identity_index w)) = (gw_tables w)\<lparr>tb_identity_index := False\<rparr>"
proof -
  have a: "at (None, gw_tables w) (gw_tables w) w" using assms by (simp add: at_def step_inv_def writer_inv_def)
  from exec_at [OF a sound_identity_index(2)] obtain w' where "drop_identity_index w = (Inr (), w')"
      "at (None, gw_tables w) ((gw_tables w)\<lparr>tb_identity_index := False\<rparr>) w'"
    by (auto simp: drop_identity_index_def drop_identity_index_sql_def)
  then show "writer_inv (snd (drop_identity_index w))" "sd_reliable (gw_db (snd (drop_identity_index w)))"
    "sd_saved (gw_db (snd (drop_identity_index w))) = None"
    "gw_tables (snd (drop_identity_index w)) = (gw_tables w)\<lparr>tb_identity_index := False\<rparr>"
    by (auto simp: at_def step_inv_def writer_inv_def)
qed

text \<open>The two ways to take in a batch of games: raw with the reconciling pass, and checked.\<close>
definition raw_import :: "(u16 list \<Rightarrow> u64) \<Rightarrow> db_game list \<Rightarrow> game_writer \<Rightarrow> nat result \<times> game_writer" where
  "raw_import xxh3 gs w =
     deduplicate (snd (commit_transaction (insert_all (gw_insert_raw xxh3) gs (snd (begin_transaction (snd (drop_identity_index w)))))))"

definition checked_import :: "(u16 list \<Rightarrow> u64) \<Rightarrow> db_game list \<Rightarrow> game_writer \<Rightarrow> game_writer" where
  "checked_import xxh3 gs w = snd (commit_transaction (insert_all (gw_insert xxh3) gs (snd (begin_transaction w))))"

lemma raw_import_agrees:
  assumes "writer_inv w" and "sd_reliable (gw_db w)" and "sd_saved (gw_db w) = None" and "tb_identity_index (gw_tables w)"
    and "reconcile (tb_games (gw_tables w)) = tb_games (gw_tables w)" and "\<forall>g\<in>set gs. dg_extra_tags g = []"
  shows "\<exists>w'. raw_import xxh3 gs w = (Inr (length (tb_games (gw_tables w)) + length gs - length (tb_games (gw_tables (checked_import xxh3 gs w)))), w')
     \<and> map without_id (tb_games (gw_tables w')) = map without_id (tb_games (gw_tables (checked_import xxh3 gs w)))
     \<and> other_tables (gw_tables w') = other_tables (gw_tables (checked_import xxh3 gs w)) \<and> tb_identity_index (gw_tables w')"
proof -
  let ?wr = "snd (begin_transaction (snd (drop_identity_index w)))" and ?wc = "snd (begin_transaction w)"
  note d = drop_index_reliable [OF assms(1-3)]
  note b = begin_ready [OF d(1-3)] begin_ready [OF assms(1-3)]
  have "agree (gw_tables ?wc) (gw_tables ?wr)" using assms(4,5) by (simp add: agree_def b d(4) other_tables_def)
  note all = insert_all_agrees [OF b(3) b(1) this assms(6), of xxh3]
  let ?ar = "insert_all (gw_insert_raw xxh3) gs ?wr" and ?ac = "insert_all (gw_insert xxh3) gs ?wc"
  have ready: "ready ?ar" "ready ?ac" using all by auto
  note cr = commit_ready [OF ready(1)] and cc = commit_ready [OF ready(2)]
  have ag: "agree (gw_tables (checked_import xxh3 gs w)) (gw_tables (snd (commit_transaction ?ar)))"
    using all cr(3) cc(3) by (simp add: checked_import_def)
  then have "\<not> tb_identity_index (gw_tables (snd (commit_transaction ?ar)))" by (simp add: agree_def)
  from deduplicate_refines [OF cr(1,2) this] obtain w' where w': "raw_import xxh3 gs w =
      (Inr (length (tb_games (gw_tables ?ar)) - length (kept_rows (tb_games (gw_tables ?ar)))), w')"
      "gw_tables w' = dedup_tables (gw_tables ?ar)"
    unfolding raw_import_def cr(3) by blast
  have len: "length (tb_games (gw_tables ?ar)) = length (tb_games (gw_tables w)) + length gs"
    using all b(2) d(4) by simp
  have kept: "length (kept_rows (tb_games (gw_tables ?ar))) = length (tb_games (gw_tables (checked_import xxh3 gs w)))"
  proof -
    have "map without_id (tb_games (gw_tables (checked_import xxh3 gs w))) = map without_id (reconcile (tb_games (gw_tables ?ar)))"
      using ag unfolding agree_def cr(3) by blast
    from arg_cong [OF this, of length] show ?thesis by (simp add: reconcile_def)
  qed
  show ?thesis
    using w' len kept ag cr(3) by (simp add: agree_def dedup_tables_def other_tables_def)
qed

section \<open>Repeated tags and repeated games\<close>

lemma ensure_tag_kept:
  assumes "wf_tables tb" and "ensure_tag name tb = (i, tb')"
  shows "wf_tables tb'" and "tb' = tb\<lparr>tb_tags := tb_tags tb'\<rparr>" and "set (tb_tags tb) \<subseteq> set (tb_tags tb')"
    and "entry i name (tb_tags tb')"
proof -
  have "wf_tables tb' \<and> extends tb tb'"
  proof (cases "select_id name (tb_tags tb)")
    case None
    then have "insert_tag_sql name tb = Some (i, tb')"
      using assms(2) by (auto simp: insert_tag_sql_def ensure_tag_def ensure_entity_insert split: prod.splits)
    then show ?thesis using sound_insert_tag [of name] assms(1) unfolding sound_stmt_def by blast
  next
    case (Some j)
    then show ?thesis using assms by (auto simp: ensure_tag_def ensure_entity_found)
  qed
  then show "wf_tables tb'" "set (tb_tags tb) \<subseteq> set (tb_tags tb')" by (auto simp: extends_def)
  show "tb' = tb\<lparr>tb_tags := tb_tags tb'\<rparr>" using assms(2) by (auto simp: ensure_tag_def split: prod.splits)
  show "entry i name (tb_tags tb')" using assms(2) ensure_entity_entry by (fastforce simp: ensure_tag_def split: prod.splits)
qed

lemma insert_game_tag_kept:
  "insert_game_tag gid i v tb = Some (u, tb') \<Longrightarrow> tb' = tb\<lparr>tb_game_tags := tb_game_tags tb @ [\<lparr>gt_game_id = gid, gt_tag_id = i, gt_value = v\<rparr>]\<rparr>"
  by (auto simp: insert_game_tag_def split: if_splits)

text \<open>A game that has a tag of that name.\<close>
definition tagged :: "nat \<Rightarrow> string \<Rightarrow> tables \<Rightarrow> bool" where
  "tagged gid name tb \<longleftrightarrow> (\<exists>i. entry i name (tb_tags tb) \<and> (gid, i) \<in> (\<lambda>t. (gt_game_id t, gt_tag_id t)) ` set (tb_game_tags tb))"

lemma store_tags_tagged:
  assumes "wf_tables tb" and "tagged gid name tb" and "name \<in> fst ` set tags"
  shows "\<not> fst (store_tags gid tags tb)"
  using assms
proof (induction tags arbitrary: tb)
  case (Cons tag tags)
  obtain i tb1 where t: "ensure_tag (fst tag) tb = (i, tb1)" by force
  note k = ensure_tag_kept [OF Cons.prems(1) t]
  have gt: "tb_game_tags tb1 = tb_game_tags tb" using arg_cong [OF k(2), of tb_game_tags] by simp
  have tagged: "tagged gid name tb1" using Cons.prems(2) k(3) gt by (auto simp: tagged_def entry_def)
  show ?case
  proof (cases "insert_game_tag gid i (snd tag) tb1")
    case None
    then show ?thesis by (simp add: t)
  next
    case (Some r)
    obtain u tb2 where r: "r = (u, tb2)" by (cases r)
    note g = insert_game_tag_kept [OF Some [unfolded r]]
    have "name \<noteq> fst tag"
    proof
      assume "name = fst tag"
      with tagged obtain j where j: "entry j (fst tag) (tb_tags tb1)" "(gid, j) \<in> (\<lambda>t. (gt_game_id t, gt_tag_id t)) ` set (tb_game_tags tb1)"
        by (auto simp: tagged_def)
      have "wf_entities (tb_tags tb1)" using k(1) by (simp add: wf_tables_def)
      from select_id_unique [OF this j(1)] select_id_unique [OF this k(4)] have "j = i" by simp
      then show False using Some j(2) by (auto simp: insert_game_tag_def split: if_splits)
    qed
    then have "name \<in> fst ` set tags" using Cons.prems(3) by auto
    moreover have "wf_tables tb2" using insert_game_tag_Some [OF Some [unfolded r] k(1)] .
    moreover have "tagged gid name tb2" using tagged by (auto simp: tagged_def g)
    ultimately show ?thesis using Cons.IH [of tb2] by (simp add: t Some r)
  qed
qed simp

lemma store_tags_repeated:
  assumes "wf_tables tb" and "\<not> distinct (map fst tags)"
  shows "\<not> fst (store_tags gid tags tb)"
  using assms
proof (induction tags arbitrary: tb)
  case (Cons tag tags)
  obtain i tb1 where t: "ensure_tag (fst tag) tb = (i, tb1)" by force
  note k = ensure_tag_kept [OF Cons.prems(1) t]
  show ?case
  proof (cases "insert_game_tag gid i (snd tag) tb1")
    case None
    then show ?thesis by (simp add: t)
  next
    case (Some r)
    obtain u tb2 where r: "r = (u, tb2)" by (cases r)
    note g = insert_game_tag_kept [OF Some [unfolded r]] and wf = insert_game_tag_Some [OF Some [unfolded r] k(1)]
    have "tagged gid (fst tag) tb2" using k(4) by (auto simp: tagged_def g)
    then show ?thesis
      using store_tags_tagged [OF wf, of gid "fst tag" tags] Cons.IH [OF wf] Cons.prems(2) by (auto simp: t Some r)
  qed
qed simp

lemma store_tags_games: "tb_games (snd (store_tags gid tags tb)) = tb_games tb \<and> tb_players (snd (store_tags gid tags tb)) = tb_players tb
   \<and> tb_events (snd (store_tags gid tags tb)) = tb_events tb"
proof (induction tags arbitrary: tb)
  case (Cons tag tags)
  then show ?case
    by (auto simp: ensure_tag_def split: prod.splits option.splits dest!: insert_game_tag_kept)
qed simp

lemma ensure_again:
  assumes "entry i name es" and "wf_entities es'" and "set es \<subseteq> set es'"
  shows "ensure_entity name data es' = (i, es')"
  using select_id_unique [OF assms(2)] assms(1,3) by (intro ensure_entity_found) (auto simp: entry_def)

lemma resolve_again:
  assumes "wf_tables tb" and "resolve_game xxh3 g tb = (p, tb1)"
    and "wf_tables tb2" and "tb_players tb2 = tb_players tb1" and "tb_events tb2 = tb_events tb1"
  shows "resolve_game xxh3 g tb2 = (p, tb2)"
proof -
  obtain i ta where p1: "ensure_player (dg_white g) tb = (i, ta)" by force
  obtain j tc where p2: "ensure_player (dg_black g) ta = (j, tc)" by force
  obtain k td where p3: "ensure_event (dg_event_details g) tc = (k, td)" by force
  note w1 = ensure_player_wf [OF assms(1) p1]
  note w2 = ensure_player_wf [OF w1(1) p2]
  note w3 = ensure_event_wf [OF w2(1) p3]
  have p: "p = bound_game xxh3 g i j k" "tb1 = td" using assms(2) by (simp_all add: resolve_game_def p1 p2 p3)
  have players: "tb_players td = tb_players tc" using arg_cong [OF w3(3), of tb_players] by simp
  have wf: "wf_entities (tb_players tb2)" "wf_entities (tb_events tb2)" using assms(3) by (simp_all add: wf_tables_def)
  have "entry i (pl_name (dg_white g)) (tb_players ta)" "entry j (pl_name (dg_black g)) (tb_players tc)"
    using p1 p2 ensure_entity_entry by (fastforce simp: ensure_player_def split: prod.splits)+
  then have pl: "ensure_player (dg_white g) tb2 = (i, tb2)" "ensure_player (dg_black g) tb2 = (j, tb2)"
    using ensure_again [OF _ wf(1)] w2(2) assms(4) p(2) players by (auto simp: ensure_player_def extends_def)
  have "ensure_event (dg_event_details g) tb2 = (k, tb2)"
  proof (cases "dg_event_details g")
    case None
    then show ?thesis using p3 by (simp add: ensure_event_def)
  next
    case (Some evt)
    then obtain e where e: "k = Some e" "entry e (ev_name evt) (tb_events td)"
      using p3 ensure_entity_entry by (fastforce simp: ensure_event_def split: prod.splits)
    then show ?thesis using ensure_again [OF e(2) wf(2)] Some assms(5) p(2) by (simp add: ensure_event_def)
  qed
  then show ?thesis by (simp add: resolve_game_def pl p(1))
qed

lemma store_game_again:
  assumes "wf_tables tb" and "store_game insert_game_sql xxh3 g tb = (Inr i, tb')" and "wf_tables tb'"
  shows "store_game insert_game_sql xxh3 g tb' = (unexpected Duplicate, tb')"
proof -
  obtain p tb1 where r: "resolve_game xxh3 g tb = (p, tb1)" by force
  obtain rowid tb2 where s: "insert_game_sql p tb1 = Some (Some rowid, tb2)"
      "tb' = snd (store_tags (unat (of_nat rowid :: u32)) (dg_extra_tags g) tb2)"
    using assms(2) by (auto simp: store_game_def r split: option.splits prod.splits if_splits)
  note kept = store_tags_games [of "unat (of_nat rowid :: u32)" "dg_extra_tags g" tb2, folded s(2)]
  have "tb_players tb2 = tb_players tb1" "tb_events tb2 = tb_events tb1" and row: "\<exists>r\<in>set (tb_games tb2). exact_key r = exact_key p"
    using s(1) insert_game_row_Some(2) [OF _ resolve_game_wf(1) [OF assms(1) r]]
    by (auto simp: insert_game_sql_def split: if_splits) (fastforce)+
  then have "resolve_game xxh3 g tb' = (p, tb')" using resolve_again [OF assms(1) r assms(3)] kept by simp
  moreover have "insert_game_sql p tb' = Some (None, tb')" using row kept by (simp add: insert_game_sql_def list_ex_iff)
  ultimately show ?thesis by (simp add: store_game_def)
qed

section \<open>Properties\<close>

text \<open>A writer that has come this far from a new database.\<close>
definition writer_reachable :: "(u16 list \<Rightarrow> u64) \<Rightarrow> game_writer \<Rightarrow> bool" where
  "writer_reachable xxh3 w \<longleftrightarrow> (\<exists>db. sd_tables db = empty_tables \<and> sd_saved db = None \<and> (writer_step xxh3)\<^sup>*\<^sup>* (new_game_writer db) w)"

lemma reachable_inv: "writer_reachable xxh3 w \<Longrightarrow> writer_inv w"
  using writer_reachable_inv writer_inv_new by (auto simp: writer_reachable_def)

text \<open>
  C12: An insert is, for the caller, the plain specification on the tables: its caches, prepared statements and transaction
  handling do not show. On a connection that does not fail it returns what the specification returns, and the tables
  afterwards are the specification's, or the old ones when it fails outside a transaction.\<close>
theorem insert_refines_store:
  assumes "writer_reachable xxh3 w" and "sd_reliable (gw_db w)" and "gw_insert xxh3 g w = (r, w')"
    and "store_game insert_game_sql xxh3 g (sd_tables (gw_db w)) = (r2, tb')"
  shows "r = r2 \<and> sd_tables (gw_db w') = (if sd_saved (gw_db w) = None \<and> isl r then sd_tables (gw_db w) else tb')
     \<and> sd_saved (gw_db w') = sd_saved (gw_db w)"
  using gw_insert_refines [OF reachable_inv [OF assms(1)] assms(2), of xxh3 g] assms(3,4) by auto

text \<open>
  C11: The raw path of a fresh import ends where the checked path would: dropping the identity index, inserting the games
  without any check and reconciling afterwards leaves the same games in the same order with the same collision numbers, the same
  players and events and the index in place; only the rowids differ. The number of removed duplicates it reports is the
  number of games the checked path refuses.\<close>
theorem raw_import_matches_checked:
  assumes "writer_reachable xxh3 w" and "sd_reliable (gw_db w)" and "sd_saved (gw_db w) = None"
    and "tb_identity_index (sd_tables (gw_db w))" and "reconcile (tb_games (sd_tables (gw_db w))) = tb_games (sd_tables (gw_db w))"
    and "\<forall>g\<in>set gs. dg_extra_tags g = []"
  shows "\<exists>removed w'. raw_import xxh3 gs w = (Inr removed, w')
     \<and> removed = length (tb_games (sd_tables (gw_db w))) + length gs - length (tb_games (sd_tables (gw_db (checked_import xxh3 gs w))))
     \<and> map without_id (tb_games (sd_tables (gw_db w'))) = map without_id (tb_games (sd_tables (gw_db (checked_import xxh3 gs w))))
     \<and> tb_players (sd_tables (gw_db w')) = tb_players (sd_tables (gw_db (checked_import xxh3 gs w)))
     \<and> tb_events (sd_tables (gw_db w')) = tb_events (sd_tables (gw_db (checked_import xxh3 gs w)))
     \<and> tb_identity_index (sd_tables (gw_db w'))"
  using raw_import_agrees [OF reachable_inv [OF assms(1)] assms(2-6)] by (auto simp: other_tables_def)

text \<open>
  A game that was stored is a duplicate from then on: inserting it again is refused as such and changes nothing.\<close>
theorem stored_game_is_duplicate:
  assumes "writer_reachable xxh3 w" and "sd_reliable (gw_db w)" and "gw_insert xxh3 g w = (Inr i, w1)"
  shows "\<exists>w2. gw_insert xxh3 g w1 = (unexpected Duplicate, w2) \<and> sd_tables (gw_db w2) = sd_tables (gw_db w1)"
proof -
  note inv = reachable_inv [OF assms(1)]
  obtain r tb where s: "store_game insert_game_sql xxh3 g (gw_tables w) = (r, tb)" by force
  have w1: "r = Inr i" "gw_tables w1 = tb" "sd_reliable (gw_db w1)" using gw_insert_refines [OF inv assms(2), of xxh3 g] assms(3) s by auto
  have inv1: "writer_inv w1" using gw_insert_effect [OF inv] assms(3) by blast
  have "wf_tables (gw_tables w)" "wf_tables tb" using inv inv1 w1(2) by (auto simp: writer_inv_def)
  from store_game_again [OF this(1) s [unfolded w1(1)] this(2)] show ?thesis
    using gw_insert_refines [OF inv1 w1(3), of xxh3 g] w1(2) by auto
qed

text \<open>
  A game with a repeated extra tag is never stored: the second row for the tag violates the primary key of the
  \<open>game_tag\<close> table and the insert fails.\<close>
theorem repeated_tag_refused:
  assumes "writer_reachable xxh3 w" and "sd_reliable (gw_db w)" and "\<not> distinct (map fst (dg_extra_tags g))"
  shows "fst (gw_insert xxh3 g w) = unexpected Io_Failure \<or> fst (gw_insert xxh3 g w) = unexpected Duplicate"
proof -
  note inv = reachable_inv [OF assms(1)]
  obtain p tb1 where r: "resolve_game xxh3 g (gw_tables w) = (p, tb1)" by force
  have wf: "wf_tables tb1" using resolve_game_wf(1) [OF _ r] inv by (simp add: writer_inv_def)
  have "\<not> fst (store_tags gid (dg_extra_tags g) tb2)" if "insert_game_sql p tb1 = Some (x, tb2)" for gid x tb2
  proof -
    have "wf_tables tb2" using sound_insert_game(1) [of p] wf that unfolding sound_stmt_def by blast
    then show ?thesis using assms(3) by (rule store_tags_repeated)
  qed
  then have "fst (store_game insert_game_sql xxh3 g (gw_tables w)) = unexpected Io_Failure
      \<or> fst (store_game insert_game_sql xxh3 g (gw_tables w)) = unexpected Duplicate"
    by (auto simp: store_game_def r split: option.splits prod.splits) (metis fst_conv)
  then show ?thesis using gw_insert_refines [OF inv assms(2), of xxh3 g] by auto
qed

section \<open>Witnesses\<close>

definition demo_player :: "string \<Rightarrow> player" where
  "demo_player name = \<lparr>pl_name = name, pl_elo = Some 2100, pl_title = None, pl_country = None\<rparr>"

definition demo_game :: "u16 list \<Rightarrow> (string \<times> string) list \<Rightarrow> db_game" where
  "demo_game moves tags = \<lparr>dg_white = demo_player ''Ann'', dg_black = demo_player ''Bob'',
     dg_event_details = Some \<lparr>ev_name = ''Open'', ev_site = None, ev_date = None\<rparr>, dg_date = None, dg_result = ''1-0'', dg_eco = None,
     dg_moves = moves, dg_extra_tags = tags, dg_provenance = default_provenance\<rparr>"

definition demo_writer :: game_writer where
  "demo_writer = new_game_writer \<lparr>sd_tables = empty_tables, sd_saved = None, sd_fault = (\<lambda>_. False), sd_clock = 0\<rparr>"

lemma demo_writer_reachable: "writer_reachable xxh3 demo_writer" "sd_reliable (gw_db demo_writer)"
  unfolding writer_reachable_def demo_writer_def
  by (rule exI [of _ "\<lparr>sd_tables = empty_tables, sd_saved = None, sd_fault = (\<lambda>_. False), sd_clock = 0\<rparr>"])
    (simp_all add: sd_reliable_def new_game_writer_def)

theorem writer_tables_sound_witness:
  "wf_tables (sd_tables (gw_db (snd (gw_insert (\<lambda>_. 0) (demo_game [1, 2] []) demo_writer))))"
proof -
  have "(writer_step (\<lambda>_. 0))\<^sup>*\<^sup>* demo_writer (snd (gw_insert (\<lambda>_. 0) (demo_game [1, 2] []) demo_writer))"
    by (rule r_into_rtranclp, rule ws_insert [of "\<lambda>_. 0" "demo_game [1, 2] []"]) (rule surjective_pairing)
  from writer_tables_sound [OF _ _ this [unfolded demo_writer_def]] show ?thesis by (simp add: demo_writer_def)
qed

theorem failed_insert_leaves_database_witness:
  "durable (gw_db (snd (gw_insert (\<lambda>_. 0) (demo_game [1] [(''A'', ''x''), (''A'', ''y'')]) demo_writer))) = empty_tables"
proof -
  let ?g = "demo_game [1] [(''A'', ''x''), (''A'', ''y'')]"
  have f: "fst (gw_insert (\<lambda>_. 0) ?g demo_writer) = unexpected Io_Failure" by code_simp
  have e: "sd_tables (gw_db demo_writer) = empty_tables" "sd_saved (gw_db demo_writer) = None"
    by (simp_all add: demo_writer_def new_game_writer_def)
  have n: "new_game_writer (gw_db demo_writer) = demo_writer" by (simp add: demo_writer_def new_game_writer_def)
  have "gw_insert (\<lambda>_. 0) ?g demo_writer = (unexpected Io_Failure, snd (gw_insert (\<lambda>_. 0) ?g demo_writer))"
    using f by (simp add: prod_eq_iff)
  moreover have "durable (gw_db demo_writer) = empty_tables" using e by (simp add: durable_def)
  ultimately show ?thesis
    using failed_insert_leaves_database [OF e, unfolded n, OF rtranclp.rtrancl_refl e(2)] by simp
qed

theorem insert_refines_store_witness:
  "fst (gw_insert (\<lambda>_. 0) (demo_game [1, 2] []) demo_writer) = Inr 1"
proof -
  let ?s = "store_game insert_game_sql (\<lambda>_. 0) (demo_game [1, 2] []) (sd_tables (gw_db demo_writer))"
  have "fst ?s = Inr 1" by code_simp
  with insert_refines_store [OF demo_writer_reachable surjective_pairing surjective_pairing, of "\<lambda>_. 0" "demo_game [1, 2] []"]
  show ?thesis by simp
qed

theorem raw_import_matches_checked_witness:
  "map gr_moves (tb_games (sd_tables (gw_db (snd (raw_import (\<lambda>_. 0) [demo_game [1] [], demo_game [2] [], demo_game [1] []] demo_writer)))))
     = [[1], [2]]"
proof -
  let ?gs = "[demo_game [1] [], demo_game [2] [], demo_game [1] []]"
  have c: "map gr_moves (tb_games (sd_tables (gw_db (checked_import (\<lambda>_. 0) ?gs demo_writer)))) = [[1], [2]]" by code_simp
  have m: "gr_moves (without_id r) = gr_moves r" for r by (simp add: without_id_def)
  have h: "sd_saved (gw_db demo_writer) = None" "tb_identity_index (sd_tables (gw_db demo_writer))"
    "reconcile (tb_games (sd_tables (gw_db demo_writer))) = tb_games (sd_tables (gw_db demo_writer))" "\<forall>g\<in>set ?gs. dg_extra_tags g = []"
    by (simp_all add: demo_writer_def new_game_writer_def empty_tables_def reconcile_def kept_rows_def demo_game_def)
  from raw_import_matches_checked [OF demo_writer_reachable h, of "\<lambda>_. 0"] obtain w' where
    w': "snd (raw_import (\<lambda>_. 0) ?gs demo_writer) = w'"
    "map without_id (tb_games (sd_tables (gw_db w'))) = map without_id (tb_games (sd_tables (gw_db (checked_import (\<lambda>_. 0) ?gs demo_writer))))"
    by auto
  from arg_cong [OF w'(2), of "map gr_moves"] show ?thesis using c w'(1) by (simp add: comp_def m)
qed

theorem stored_game_is_duplicate_witness:
  "fst (gw_insert (\<lambda>_. 0) (demo_game [1] []) (snd (gw_insert (\<lambda>_. 0) (demo_game [1] []) demo_writer))) = unexpected Duplicate"
proof -
  let ?g = "demo_game [1] []"
  have "fst (gw_insert (\<lambda>_. 0) ?g demo_writer) = Inr 1" by code_simp
  then have "gw_insert (\<lambda>_. 0) ?g demo_writer = (Inr 1, snd (gw_insert (\<lambda>_. 0) ?g demo_writer))" by (simp add: prod_eq_iff)
  from stored_game_is_duplicate [OF demo_writer_reachable this] show ?thesis by auto
qed

theorem repeated_tag_refused_witness:
  "fst (gw_insert (\<lambda>_. 0) (demo_game [1] [(''A'', ''x''), (''A'', ''y'')]) demo_writer) \<in> {unexpected Io_Failure, unexpected Duplicate}"
  using repeated_tag_refused [OF demo_writer_reachable, of "demo_game [1] [(''A'', ''x''), (''A'', ''y'')]" "\<lambda>_. 0"]
  by (simp add: demo_game_def)

end
