(* ===== verification/Game_Store.thy ===== *)
theory Game_Store
  imports Game_Dedup "HOL-Library.List_Lexorder" "HOL-Library.Option_ord" "HOL-Library.Product_Lexorder"
begin

text \<open>
  \<open>source/motif/db/game_store.cpp\<close>: reading, searching, patching and removing stored games.

  The store holds a connection, caches and prepared statements of its own with the same members as a \<open>game_writer\<close>, and a
  \<open>game_writer\<close> on the same connection. Its operations on its own members are steps on \<open>gs_self\<close>; the record
  \<open>game_store\<close> at the end passes the connection between the two. A statement that cannot be prepared, bound or stepped
  reports \<open>io_failure\<close>; the messages of SQLite are left out. Text is a list of bytes, taken to be well-formed UTF-8, and
  patterns are taken to stay below the length at which SQLite refuses a \<open>LIKE\<close>. Reading a column ends its text at the
  first NUL byte. The temporary table of the position search is filled before every use and is passed as a value.
\<close>

section \<open>Types\<close>

record game_context =
  gc_eco :: "string option"
  gc_opening_name :: "string option"
  gc_moves :: "u16 list"

record game_list_entry =
  ge_id :: u32
  ge_white :: string
  ge_black :: string
  ge_white_elo :: "u32 option"
  ge_black_elo :: "u32 option"
  ge_result :: string
  ge_event :: string
  ge_date :: string
  ge_eco :: string
  ge_source_type :: string
  ge_source_label :: "string option"
  ge_review_status :: string

datatype player_color = Either_Color | White_Color | Black_Color

datatype game_sort_column = Sort_Id | Sort_White | Sort_Black | Sort_Result | Sort_Event | Sort_Date | Sort_Eco

definition max_search_limit :: u64 where
  "max_search_limit = 500"

record search_filter =
  sf_player_name :: "string option"
  sf_player_color :: player_color
  sf_min_elo :: "u32 option"
  sf_max_elo :: "u32 option"
  sf_result :: "string option"
  sf_eco_prefix :: "string option"
  sf_position :: "u64 option"
  sf_offset :: u64
  sf_limit :: u64
  sf_sort_column :: game_sort_column
  sf_sort_ascending :: bool

definition default_search_filter :: search_filter where
  "default_search_filter = \<lparr>sf_player_name = None, sf_player_color = Either_Color, sf_min_elo = None, sf_max_elo = None,
     sf_result = None, sf_eco_prefix = None, sf_position = None, sf_offset = 0, sf_limit = 100, sf_sort_column = Sort_Id,
     sf_sort_ascending = True\<rparr>"

record game_list_result =
  gl_games :: "game_list_entry list"
  gl_total_count :: nat

record game_patch =
  gq_white_name :: "string option"
  gq_white_elo :: "u32 option"
  gq_black_name :: "string option"
  gq_black_elo :: "u32 option"
  gq_event :: "string option"
  gq_site :: "string option"
  gq_date :: "string option"
  gq_result :: "string option"
  gq_eco :: "string option"
  gq_source_label :: "string option"
  gq_review_status :: "string option"
  gq_notes :: "string option"

section \<open>Text in SQL\<close>

text \<open>\<open>column_text\<close>: a text column as a C string.\<close>
definition column_text :: "string \<Rightarrow> string" where
  "column_text = takeWhile (\<lambda>c. c \<noteq> CHR 0x00)"

definition byte_of :: "char \<Rightarrow> nat" where
  "byte_of c = of_char c"

definition continuation_byte :: "char \<Rightarrow> bool" where
  "continuation_byte c \<longleftrightarrow> 128 \<le> byte_of c \<and> byte_of c < 192"

text \<open>SQLite's \<open>lower\<close> and its case folding know the ASCII letters only.\<close>
definition ascii_lower :: "char \<Rightarrow> char" where
  "ascii_lower c = (if 65 \<le> byte_of c \<and> byte_of c \<le> 90 then char_of (byte_of c + 32) else c)"

text \<open>\<open>instr(hay, needle) > 0\<close>: the search advances by whole characters.\<close>
function instr_found :: "string \<Rightarrow> string \<Rightarrow> bool" where
  "instr_found hay needle =
     (if take (length needle) hay = needle then True
      else if hay = [] then False
      else instr_found (dropWhile continuation_byte (tl hay)) needle)"
  by pat_completeness auto
termination
  by (relation "measure (length o fst)")
    (auto simp: neq_Nil_conv less_Suc_eq_le length_dropWhile_le)

declare instr_found.simps [simp del]

text \<open>The characters of a text, each as its bytes.\<close>
function utf8_chars :: "string \<Rightarrow> string list" where
  "utf8_chars [] = []"
| "utf8_chars (c # cs) =
     (if byte_of c \<ge> 192 then (c # takeWhile continuation_byte cs) # utf8_chars (dropWhile continuation_byte cs)
      else [c] # utf8_chars cs)"
  by pat_completeness auto
termination
  by (relation "measure length") (auto simp: less_Suc_eq_le length_dropWhile_le)

fun like_chars :: "string list \<Rightarrow> string list \<Rightarrow> bool" where
  "like_chars [] cs \<longleftrightarrow> cs = []"
| "like_chars (p # ps) [] \<longleftrightarrow> p = ''%'' \<and> like_chars ps []"
| "like_chars (p # ps) (c # cs) \<longleftrightarrow>
     (if p = ''%'' then like_chars ps (c # cs) \<or> like_chars (p # ps) cs
      else (p = ''_'' \<or> map ascii_lower p = map ascii_lower c) \<and> like_chars ps cs)"

text \<open>\<open>x LIKE pattern\<close> on C strings.\<close>
definition sql_like :: "string \<Rightarrow> string \<Rightarrow> bool" where
  "sql_like x pattern \<longleftrightarrow> like_chars (utf8_chars (column_text pattern)) (utf8_chars (column_text x))"

text \<open>Two texts compare under \<open>COLLATE NOCASE\<close> as these keys do.\<close>
definition nocase_key :: "string \<Rightarrow> nat list \<times> nat" where
  "nocase_key x = (map (byte_of o ascii_lower) (column_text x), length x)"

section \<open>Statements\<close>

text \<open>A statement that is prepared for one use.\<close>
definition run_prepared :: "(tables \<Rightarrow> ('a \<times> tables) option) \<Rightarrow> game_writer \<Rightarrow> 'a result \<times> game_writer" where
  "run_prepared stmt = and_then (gw_exec (\<lambda>tb. Some ((), tb))) (\<lambda>_. gw_exec stmt)"

definition run_query :: "(tables \<Rightarrow> 'a) \<Rightarrow> game_writer \<Rightarrow> 'a result \<times> game_writer" where
  "run_query f = run_prepared (\<lambda>tb. Some (f tb, tb))"

text \<open>A result that is no change of state.\<close>
definition return :: "'a result \<Rightarrow> 's \<Rightarrow> 'a result \<times> 's" where
  "return r s = (r, s)"

definition entity_at :: "nat \<Rightarrow> 'data entity list \<Rightarrow> 'data entity option" where
  "entity_at i es = find (\<lambda>e. en_id e = i) es"

type_synonym joined_game = "game_row \<times> player_data entity \<times> player_data entity \<times> event_data entity option"

text \<open>
  \<open>FROM game g JOIN player w ON w.id = g.white_id JOIN player b ON b.id = g.black_id LEFT JOIN event e ON e.id = g.event_id\<close>
\<close>
definition join_game :: "tables \<Rightarrow> game_row \<Rightarrow> joined_game option" where
  "join_game tb r =
     (case (entity_at (gr_white_id r) (tb_players tb), entity_at (gr_black_id r) (tb_players tb)) of
        (Some w, Some b) \<Rightarrow> Some (r, w, b, Option.bind (gr_event_id r) (\<lambda>e. entity_at e (tb_events tb)))
      | _ \<Rightarrow> None)"

definition joined_games :: "tables \<Rightarrow> joined_game list" where
  "joined_games tb = List.map_filter (join_game tb) (tb_games tb)"

text \<open>\<open>UPDATE game SET ... WHERE id = ?\<close> with the constraints of the table; the number of changed rows.\<close>
definition update_game :: "nat \<Rightarrow> (game_row \<Rightarrow> game_row) \<Rightarrow> tables \<Rightarrow> (nat \<times> tables) option" where
  "update_game i f tb =
     (case find (\<lambda>r. gr_id r = i) (tb_games tb) of
        None \<Rightarrow> Some (0, tb)
      | Some r \<Rightarrow>
          let row = f r in
          if has_id (gr_white_id row) (tb_players tb) \<and> has_id (gr_black_id row) (tb_players tb)
             \<and> (case gr_event_id row of None \<Rightarrow> True | Some e \<Rightarrow> has_id e (tb_events tb))
             \<and> (tb_identity_index tb \<longrightarrow> index_key row \<notin> set (map index_key (filter (\<lambda>s. gr_id s \<noteq> i) (tb_games tb))))
          then Some (1, tb\<lparr>tb_games := map (\<lambda>s. if gr_id s = i then row else s) (tb_games tb)\<rparr>)
          else None)"

text \<open>\<open>DELETE FROM game WHERE id = ?\<close> with \<open>ON DELETE CASCADE\<close>; the number of deleted games.\<close>
definition delete_game :: "nat \<Rightarrow> tables \<Rightarrow> (nat \<times> tables) option" where
  "delete_game i tb =
     Some (length (filter (\<lambda>r. gr_id r = i) (tb_games tb)),
           tb\<lparr>tb_games := filter (\<lambda>r. gr_id r \<noteq> i) (tb_games tb),
              tb_game_tags := filter (\<lambda>t. gt_game_id t \<noteq> i) (tb_game_tags tb)\<rparr>)"

text \<open>\<open>DELETE FROM game_tag WHERE game_id = ? AND tag_id = (SELECT id FROM tag WHERE name = '_notes')\<close>\<close>
definition delete_notes :: "nat \<Rightarrow> tables \<Rightarrow> (unit \<times> tables) option" where
  "delete_notes i tb =
     Some ((), tb\<lparr>tb_game_tags := filter (\<lambda>t. \<not> (gt_game_id t = i \<and> Some (gt_tag_id t) = select_id ''_notes'' (tb_tags tb)))
       (tb_game_tags tb)\<rparr>)"

section \<open>Reading a game\<close>

definition read_player :: "player_data entity \<Rightarrow> u32 option \<Rightarrow> player" where
  "read_player p elo =
     \<lparr>pl_name = column_text (en_name p), pl_elo = elo, pl_title = map_option column_text (fst (snd (en_data p))),
      pl_country = map_option column_text (snd (snd (en_data p)))\<rparr>"

definition read_event :: "event_data entity \<Rightarrow> event" where
  "read_event e =
     \<lparr>ev_name = column_text (en_name e), ev_site = map_option column_text (fst (en_data e)),
      ev_date = map_option column_text (snd (en_data e))\<rparr>"

definition read_provenance :: "game_row \<Rightarrow> game_provenance" where
  "read_provenance r =
     \<lparr>gp_source_type = column_text (gr_source_type r), gp_source_label = map_option column_text (gr_source_label r),
      gp_review_status = column_text (gr_review_status r)\<rparr>"

fun read_game :: "joined_game \<Rightarrow> db_game" where
  "read_game (r, w, b, e) =
     \<lparr>dg_white = read_player w (gr_white_elo r), dg_black = read_player b (gr_black_elo r),
      dg_event_details = map_option read_event e, dg_date = map_option column_text (gr_date r),
      dg_result = column_text (gr_result r), dg_eco = map_option column_text (gr_eco r), dg_moves = gr_moves r,
      dg_extra_tags = [], dg_provenance = read_provenance r\<rparr>"

text \<open>\<open>SELECT t.name, gt.value FROM game_tag gt JOIN tag t ON t.id = gt.tag_id WHERE gt.game_id = ? ORDER BY gt.rowid\<close>\<close>
definition select_game_tags :: "nat \<Rightarrow> tables \<Rightarrow> (string \<times> string) list" where
  "select_game_tags i tb =
     List.map_filter (\<lambda>t. map_option (\<lambda>e. (en_name e, gt_value t)) (entity_at (gt_tag_id t) (tb_tags tb)))
       (filter (\<lambda>t. gt_game_id t = i) (tb_game_tags tb))"

definition select_game :: "nat \<Rightarrow> tables \<Rightarrow> joined_game option" where
  "select_game i tb = find (\<lambda>g. gr_id (fst g) = i) (joined_games tb)"

definition store_get :: "u32 \<Rightarrow> game_writer \<Rightarrow> db_game result \<times> game_writer" where
  "store_get key =
     and_then (run_query (select_game (unat key))) (\<lambda>row.
       case row of
         None \<Rightarrow> return (unexpected Not_Found)
       | Some g \<Rightarrow>
           and_then (run_query (select_game_tags (unat key))) (\<lambda>tags.
             return (Inr ((read_game g)\<lparr>dg_extra_tags := map (\<lambda>(n, v). (column_text n, column_text v)) tags\<rparr>))))"

definition get_provenance :: "u32 \<Rightarrow> game_writer \<Rightarrow> game_provenance result \<times> game_writer" where
  "get_provenance key =
     and_then (run_query (\<lambda>tb. find (\<lambda>r. gr_id r = unat key) (tb_games tb))) (\<lambda>row.
       case row of None \<Rightarrow> return (unexpected Not_Found) | Some r \<Rightarrow> return (Inr (read_provenance r)))"

section \<open>Many games\<close>

definition count_stored_games :: "game_writer \<Rightarrow> nat result \<times> game_writer" where
  "count_stored_games = run_query (\<lambda>tb. length (tb_games tb))"

definition all_game_ids :: "game_writer \<Rightarrow> u32 list result \<times> game_writer" where
  "all_game_ids = run_query (\<lambda>tb. map of_nat (sort (map gr_id (tb_games tb))))"

text \<open>At most as many values in a statement as it may have parameters (\<open>SQLITE_LIMIT_VARIABLE_NUMBER\<close>).\<close>
definition parameter_batch :: "nat \<Rightarrow> nat" where
  "parameter_batch max_params = (if max_params > 0 then max_params else 999)"

function batches :: "nat \<Rightarrow> 'a list \<Rightarrow> 'a list list" where
  "batches n xs = (if xs = [] \<or> n = 0 then [] else take n xs # batches n (drop n xs))"
  by pat_completeness auto
termination by (relation "measure (length o snd)") auto

declare batches.simps [simp del]

definition read_context :: "tables \<Rightarrow> game_row \<Rightarrow> game_context" where
  "read_context tb r =
     \<lparr>gc_eco = map_option column_text (gr_eco r),
      gc_opening_name = map_option (column_text o snd) (find (\<lambda>t. fst t = ''Opening'') (select_game_tags (gr_id r) tb)),
      gc_moves = gr_moves r\<rparr>"

definition select_contexts :: "nat list \<Rightarrow> tables \<Rightarrow> (u32 \<times> game_context) list" where
  "select_contexts ids tb =
     map (\<lambda>r. (of_nat (gr_id r), read_context tb r)) (filter (\<lambda>r. gr_id r \<in> set ids) (tb_games tb))"

text \<open>\<open>emplace\<close> of \<open>gtl::flat_hash_map\<close>: a key that is there keeps its value.\<close>
definition emplace :: "'k \<times> 'v \<Rightarrow> ('k \<Rightarrow> 'v option) \<Rightarrow> 'k \<Rightarrow> 'v option" where
  "emplace kv m = (if m (fst kv) = None then m(fst kv := Some (snd kv)) else m)"

fun context_batches :: "u32 list list \<Rightarrow> (u32 \<Rightarrow> game_context option) \<Rightarrow> game_writer \<Rightarrow> (u32 \<Rightarrow> game_context option) result \<times> game_writer" where
  "context_batches [] out w = (Inr out, w)"
| "context_batches (batch # rest) out w =
     and_then (run_query (select_contexts (map unat batch))) (\<lambda>rows. context_batches rest (fold emplace rows out)) w"

definition get_game_contexts ::
  "nat \<Rightarrow> u32 list \<Rightarrow> game_writer \<Rightarrow> (u32 \<Rightarrow> game_context option) result \<times> game_writer" where
  "get_game_contexts max_params game_ids = context_batches (batches (parameter_batch max_params) game_ids) Map.empty"

definition replay_record :: "game_row \<Rightarrow> replay_game_record" where
  "replay_record r =
     \<lparr>rg_id = of_nat (gr_id r), rg_result = column_text (gr_result r), rg_white_elo = gr_white_elo r,
      rg_black_elo = gr_black_elo r, rg_moves = gr_moves r\<rparr>"

text \<open>The steps of a cursor over \<open>rows\<close>: each may fail, the visitor may stop the iteration; \<open>'v\<close> is what the visitor changes.\<close>
fun visit_rows ::
  "(replay_game_record \<Rightarrow> 'v \<Rightarrow> unit result \<times> 'v) \<Rightarrow> game_row list \<Rightarrow> 'v \<Rightarrow> game_writer \<Rightarrow> unit result \<times> 'v \<times> game_writer" where
  "visit_rows visitor [] v w = (case gw_exec (\<lambda>tb. Some ((), tb)) w of (r, w) \<Rightarrow> (r, v, w))"
| "visit_rows visitor (row # rows) v w =
     (case gw_exec (\<lambda>tb. Some ((), tb)) w of
        (Inl err, w) \<Rightarrow> (Inl err, v, w)
      | (Inr _, w) \<Rightarrow>
          (case visitor (replay_record row) v of
             (Inl err, v) \<Rightarrow> (Inl err, v, w)
           | (Inr _, v) \<Rightarrow> visit_rows visitor rows v w))"

definition for_each_replay_game ::
  "(replay_game_record \<Rightarrow> 'v \<Rightarrow> unit result \<times> 'v) \<Rightarrow> 'v \<Rightarrow> game_writer \<Rightarrow> unit result \<times> 'v \<times> game_writer" where
  "for_each_replay_game visitor v w =
     (case gw_exec (\<lambda>tb. Some ((), tb)) w of
        (Inl err, w) \<Rightarrow> (Inl err, v, w)
      | (Inr _, w) \<Rightarrow> visit_rows visitor (sort_key gr_id (tb_games (sd_tables (gw_db w)))) v w)"

section \<open>Searching games\<close>

definition has_metadata_filter :: "search_filter \<Rightarrow> bool" where
  "has_metadata_filter f \<longleftrightarrow> sf_player_name f \<noteq> None \<or> sf_result f \<noteq> None \<or> sf_eco_prefix f \<noteq> None \<or> sf_min_elo f \<noteq> None
     \<or> sf_max_elo f \<noteq> None"

definition named_like :: "string \<Rightarrow> player_data entity \<Rightarrow> bool" where
  "named_like name p \<longleftrightarrow> instr_found (map ascii_lower (en_name p)) (map ascii_lower name)"

text \<open>A comparison with NULL is not true.\<close>
definition elo_compares :: "(int \<Rightarrow> int \<Rightarrow> bool) \<Rightarrow> u32 option \<Rightarrow> u32 \<Rightarrow> bool" where
  "elo_compares le elo bound \<longleftrightarrow> (case elo of None \<Rightarrow> False | Some e \<Rightarrow> le (sint e) (sint bound))"

text \<open>The \<open>WHERE\<close> clause of the searches.\<close>
fun matches_filter :: "search_filter \<Rightarrow> joined_game \<Rightarrow> bool" where
  "matches_filter f (r, w, b, e) \<longleftrightarrow>
     (case sf_player_name f of
        None \<Rightarrow> True
      | Some name \<Rightarrow>
          (case sf_player_color f of
             White_Color \<Rightarrow> named_like name w
           | Black_Color \<Rightarrow> named_like name b
           | Either_Color \<Rightarrow> named_like name w \<or> named_like name b))
     \<and> (case sf_result f of None \<Rightarrow> True | Some x \<Rightarrow> gr_result r = x)
     \<and> (case sf_eco_prefix f of
          None \<Rightarrow> True
        | Some p \<Rightarrow> (case gr_eco r of None \<Rightarrow> False | Some eco \<Rightarrow> sql_like eco (p @ ''%'')))
     \<and> (case sf_min_elo f of
          None \<Rightarrow> True
        | Some m \<Rightarrow> elo_compares (\<ge>) (gr_white_elo r) m \<and> elo_compares (\<ge>) (gr_black_elo r) m)
     \<and> (case sf_max_elo f of
          None \<Rightarrow> True
        | Some m \<Rightarrow> elo_compares (\<le>) (gr_white_elo r) m \<and> elo_compares (\<le>) (gr_black_elo r) m)"

text \<open>\<open>game_sort_expression\<close>; the id is the second key of every order.\<close>
fun game_sort_expression :: "game_sort_column \<Rightarrow> joined_game \<Rightarrow> string option" where
  "game_sort_expression Sort_Id (r, w, b, e) = None"
| "game_sort_expression Sort_White (r, w, b, e) = Some (en_name w)"
| "game_sort_expression Sort_Black (r, w, b, e) = Some (en_name b)"
| "game_sort_expression Sort_Result (r, w, b, e) = Some (gr_result r)"
| "game_sort_expression Sort_Event (r, w, b, e) = map_option en_name e"
| "game_sort_expression Sort_Date (r, w, b, e) = gr_date r"
| "game_sort_expression Sort_Eco (r, w, b, e) = gr_eco r"

definition sort_position :: "game_sort_column \<Rightarrow> joined_game \<Rightarrow> (nat list \<times> nat) option \<times> nat" where
  "sort_position column g = (map_option nocase_key (game_sort_expression column g), gr_id (fst g))"

text \<open>\<open>game_order_clause\<close>: both keys run in the same direction; NULL comes before every text.\<close>
definition order_games :: "search_filter \<Rightarrow> joined_game list \<Rightarrow> joined_game list" where
  "order_games f gs =
     (let sorted = sort_key (sort_position (sf_sort_column f)) gs in if sf_sort_ascending f then sorted else rev sorted)"

fun read_game_list_entry :: "joined_game \<Rightarrow> game_list_entry" where
  "read_game_list_entry (r, w, b, e) =
     \<lparr>ge_id = of_nat (gr_id r), ge_white = column_text (en_name w), ge_black = column_text (en_name b),
      ge_white_elo = gr_white_elo r, ge_black_elo = gr_black_elo r, ge_result = column_text (gr_result r),
      ge_event = column_text (coalesce (map_option en_name e) []), ge_date = column_text (coalesce (gr_date r) []),
      ge_eco = column_text (coalesce (gr_eco r) []), ge_source_type = column_text (gr_source_type r),
      ge_source_label = map_option column_text (gr_source_label r), ge_review_status = column_text (gr_review_status r)\<rparr>"

text \<open>The joined games with an id in \<open>ids\<close>, when there is a list of ids, that match.\<close>
definition matching_games :: "nat list option \<Rightarrow> search_filter \<Rightarrow> tables \<Rightarrow> joined_game list" where
  "matching_games ids f tb =
     filter (\<lambda>g. (case ids of None \<Rightarrow> True | Some xs \<Rightarrow> gr_id (fst g) \<in> set xs) \<and> matches_filter f g) (joined_games tb)"

definition fetch_game_list_page ::
  "nat list option \<Rightarrow> search_filter \<Rightarrow> u64 \<Rightarrow> game_writer \<Rightarrow> game_list_entry list result \<times> game_writer" where
  "fetch_game_list_page ids f effective_limit =
     run_query (\<lambda>tb. map read_game_list_entry
       (take (unat effective_limit) (drop (unat (sf_offset f)) (order_games f (matching_games ids f tb)))))"

definition sqlite_max :: u64 where
  "sqlite_max = 0x7fffffffffffffff"

text \<open>
  A body inside a \<open>txn_guard\<close> that returns before the commit unless it says otherwise; the destructor then rolls a transaction
  of its own back.
\<close>
definition in_read_txn :: "(game_writer \<Rightarrow> (bool \<times> 'a) result \<times> game_writer) \<Rightarrow> game_writer \<Rightarrow> 'a result \<times> game_writer" where
  "in_read_txn body w =
     (case txn_guard (gw_db w) of
        (None, db) \<Rightarrow> (unexpected Io_Failure, w\<lparr>gw_db := db\<rparr>)
      | (Some started_local, db) \<Rightarrow>
          (case body (w\<lparr>gw_db := db\<rparr>) of
             (Inl err, w) \<Rightarrow> (Inl err, w\<lparr>gw_db := txn_release started_local False (gw_db w)\<rparr>)
           | (Inr (False, x), w) \<Rightarrow> (Inr x, w\<lparr>gw_db := txn_release started_local False (gw_db w)\<rparr>)
           | (Inr (True, x), w) \<Rightarrow>
               (case txn_commit started_local (gw_db w) of
                  (True, db) \<Rightarrow> (Inr x, w\<lparr>gw_db := db\<rparr>)
                | (False, db) \<Rightarrow> (unexpected Io_Failure, w\<lparr>gw_db := txn_release started_local False db\<rparr>))))"

definition page_body ::
  "(game_writer \<Rightarrow> nat result \<times> game_writer) \<Rightarrow> nat list option \<Rightarrow> search_filter \<Rightarrow> u64
     \<Rightarrow> game_writer \<Rightarrow> (bool \<times> game_list_result) result \<times> game_writer" where
  "page_body counting ids f effective_limit =
     and_then counting (\<lambda>total_count.
       if total_count = 0 \<or> effective_limit = 0 then return (Inr (False, \<lparr>gl_games = [], gl_total_count = total_count\<rparr>))
       else and_then (fetch_game_list_page ids f effective_limit) (\<lambda>entries.
         return (Inr (True, \<lparr>gl_games = entries, gl_total_count = total_count\<rparr>))))"

definition find_games :: "search_filter \<Rightarrow> game_writer \<Rightarrow> game_list_result result \<times> game_writer" where
  "find_games f w =
     (let effective_limit = min (sf_limit f) max_search_limit in
      if effective_limit > sqlite_max \<or> sf_offset f > sqlite_max then (unexpected Io_Failure, w)
      else in_read_txn
        (page_body
          (if \<not> has_metadata_filter f then count_stored_games else run_query (\<lambda>tb. length (matching_games None f tb)))
          None f effective_limit) w)"

text \<open>
  \<open>populate_position_temp_table\<close>: creates and empties the table, then inserts the ids in batches. An id that is there
  already violates the primary key.
\<close>
fun populate_batches :: "nat list list \<Rightarrow> nat list \<Rightarrow> game_writer \<Rightarrow> nat list result \<times> game_writer" where
  "populate_batches [] rows w = (Inr rows, w)"
| "populate_batches (batch # rest) rows w =
     and_then (run_prepared (\<lambda>tb. if distinct batch \<and> set batch \<inter> set rows = {} then Some (rows @ batch, tb) else None))
       (populate_batches rest) w"

definition populate_position_temp_table :: "nat \<Rightarrow> u32 list \<Rightarrow> game_writer \<Rightarrow> nat list result \<times> game_writer" where
  "populate_position_temp_table max_params game_ids =
     and_then (gw_exec (\<lambda>tb. Some ((), tb))) (\<lambda>_.
     and_then (gw_exec (\<lambda>tb. Some ((), tb))) (\<lambda>_.
       populate_batches (batches (parameter_batch max_params) (map unat game_ids)) []))"

definition find_games_with_ids ::
  "nat \<Rightarrow> u32 list \<Rightarrow> search_filter \<Rightarrow> game_writer \<Rightarrow> game_list_result result \<times> game_writer" where
  "find_games_with_ids max_params game_ids f w =
     (if game_ids = [] then (Inr \<lparr>gl_games = [], gl_total_count = 0\<rparr>, w)
      else let effective_limit = min (sf_limit f) max_search_limit in
        if effective_limit > sqlite_max \<or> sf_offset f > sqlite_max then (unexpected Io_Failure, w)
        else in_read_txn
          (and_then (populate_position_temp_table max_params game_ids) (\<lambda>ids.
             page_body (run_query (\<lambda>tb. length (matching_games (Some ids) f tb))) (Some ids) f effective_limit)) w)"

definition find_game_ids_with_filter ::
  "nat \<Rightarrow> u32 list \<Rightarrow> search_filter \<Rightarrow> game_writer \<Rightarrow> u32 list result \<times> game_writer" where
  "find_game_ids_with_filter max_params game_ids f w =
     (if game_ids = [] then (Inr [], w)
      else and_then (populate_position_temp_table max_params game_ids) (\<lambda>ids.
        run_query (\<lambda>tb. map of_nat (sort (map (gr_id o fst) (matching_games (Some ids) f tb))))) w)"

section \<open>Changing games\<close>

definition store_remove :: "u32 \<Rightarrow> game_writer \<Rightarrow> unit result \<times> game_writer" where
  "store_remove key =
     and_then (run_prepared (delete_game (unat key))) (\<lambda>changes.
       return (if changes = 0 then unexpected Not_Found else Inr ()))"

datatype text_column = Col_Date | Col_Result | Col_Eco | Col_Source_Label | Col_Review_Status

fun set_text_column :: "text_column \<Rightarrow> string \<Rightarrow> game_row \<Rightarrow> game_row" where
  "set_text_column Col_Date x r = r\<lparr>gr_date := Some x\<rparr>"
| "set_text_column Col_Result x r = r\<lparr>gr_result := x\<rparr>"
| "set_text_column Col_Eco x r = r\<lparr>gr_eco := Some x\<rparr>"
| "set_text_column Col_Source_Label x r = r\<lparr>gr_source_label := Some x\<rparr>"
| "set_text_column Col_Review_Status x r = r\<lparr>gr_review_status := x\<rparr>"

text \<open>An update whose number of changed rows is not looked at.\<close>
definition run_update :: "u32 \<Rightarrow> (game_row \<Rightarrow> game_row) \<Rightarrow> game_writer \<Rightarrow> unit result \<times> game_writer" where
  "run_update key f = and_then (run_prepared (update_game (unat key) f)) (\<lambda>_. return (Inr ()))"

definition update_text_field :: "u32 \<Rightarrow> text_column \<Rightarrow> string \<Rightarrow> game_writer \<Rightarrow> unit result \<times> game_writer" where
  "update_text_field key column value = run_update key (set_text_column column value)"

text \<open>The columns of one side: \<open>white_id\<close> and \<open>white_elo\<close>, or \<open>black_id\<close> and \<open>black_elo\<close>.\<close>
datatype side = White_Side | Black_Side

fun set_side_id :: "side \<Rightarrow> nat \<Rightarrow> game_row \<Rightarrow> game_row" where
  "set_side_id White_Side i r = r\<lparr>gr_white_id := i\<rparr>"
| "set_side_id Black_Side i r = r\<lparr>gr_black_id := i\<rparr>"

fun set_side_elo :: "side \<Rightarrow> u32 \<Rightarrow> game_row \<Rightarrow> game_row" where
  "set_side_elo White_Side x r = r\<lparr>gr_white_elo := Some x\<rparr>"
| "set_side_elo Black_Side x r = r\<lparr>gr_black_elo := Some x\<rparr>"

text \<open>The store has members of its own for players, events and tags, line by line those of the writer.\<close>
definition store_find_or_insert_player :: "player \<Rightarrow> game_writer \<Rightarrow> nat result \<times> game_writer" where
  "store_find_or_insert_player = find_or_insert_player"

definition store_find_or_insert_event :: "event \<Rightarrow> game_writer \<Rightarrow> nat result \<times> game_writer" where
  "store_find_or_insert_event = find_or_insert_event"

definition store_insert_game_tags :: "u32 \<Rightarrow> (string \<times> string) list \<Rightarrow> game_writer \<Rightarrow> unit result \<times> game_writer" where
  "store_insert_game_tags = insert_game_tags"

definition patch_player ::
  "u32 \<Rightarrow> side \<Rightarrow> player \<Rightarrow> string option \<Rightarrow> u32 option \<Rightarrow> game_writer \<Rightarrow> unit result \<times> game_writer" where
  "patch_player key side current name_patch elo_patch =
     and_then (case elo_patch of None \<Rightarrow> return (Inr ()) | Some elo \<Rightarrow> run_update key (set_side_elo side elo)) (\<lambda>_.
       case name_patch of
         None \<Rightarrow> return (Inr ())
       | Some name \<Rightarrow>
           and_then (store_find_or_insert_player (current\<lparr>pl_name := name\<rparr>)) (\<lambda>i. run_update key (set_side_id side i)))"

definition patch_event ::
  "u32 \<Rightarrow> db_game \<Rightarrow> string option \<Rightarrow> string option \<Rightarrow> game_writer \<Rightarrow> unit result \<times> game_writer" where
  "patch_event key current event_patch site_patch =
     (let existing = dg_event_details current;
          event_name = coalesce event_patch (case existing of None \<Rightarrow> [] | Some e \<Rightarrow> ev_name e) in
      if event_name = [] then return (Inr ())
      else let inherited_site = (case existing of None \<Rightarrow> None | Some e \<Rightarrow> ev_site e);
               site = (if site_patch \<noteq> None then site_patch else inherited_site);
               date = (case existing of None \<Rightarrow> None | Some e \<Rightarrow> ev_date e) in
        and_then (store_find_or_insert_event \<lparr>ev_name = event_name, ev_site = site, ev_date = date\<rparr>) (\<lambda>i.
          run_update key (\<lambda>r. r\<lparr>gr_event_id := Some i\<rparr>)))"

fun update_fields :: "u32 \<Rightarrow> (text_column \<times> string option) list \<Rightarrow> game_writer \<Rightarrow> unit result \<times> game_writer" where
  "update_fields key [] w = (Inr (), w)"
| "update_fields key ((column, value) # rest) w =
     (case value of
        None \<Rightarrow> update_fields key rest w
      | Some x \<Rightarrow> and_then (update_text_field key column x) (\<lambda>_. update_fields key rest) w)"

definition scalar_fields :: "game_patch \<Rightarrow> (text_column \<times> string option) list" where
  "scalar_fields patch =
     [(Col_Date, gq_date patch), (Col_Result, gq_result patch), (Col_Eco, gq_eco patch), (Col_Source_Label, gq_source_label patch),
      (Col_Review_Status, gq_review_status patch)]"

definition patch_people :: "u32 \<Rightarrow> game_patch \<Rightarrow> game_writer \<Rightarrow> unit result \<times> game_writer" where
  "patch_people key patch =
     (if gq_white_name patch = None \<and> gq_white_elo patch = None \<and> gq_black_name patch = None \<and> gq_black_elo patch = None
         \<and> gq_event patch = None \<and> gq_site patch = None
      then return (Inr ())
      else and_then (store_get key) (\<lambda>cur.
        and_then (if gq_white_name patch = None \<and> gq_white_elo patch = None then return (Inr ())
                  else patch_player key White_Side (dg_white cur) (gq_white_name patch) (gq_white_elo patch)) (\<lambda>_.
        and_then (if gq_black_name patch = None \<and> gq_black_elo patch = None then return (Inr ())
                  else patch_player key Black_Side (dg_black cur) (gq_black_name patch) (gq_black_elo patch)) (\<lambda>_.
        if gq_event patch = None \<and> gq_site patch = None then return (Inr ())
        else patch_event key cur (gq_event patch) (gq_site patch)))))"

text \<open>Notes are a tag of the game with the reserved name \<open>_notes\<close>.\<close>
definition patch_notes :: "u32 \<Rightarrow> string option \<Rightarrow> game_writer \<Rightarrow> unit result \<times> game_writer" where
  "patch_notes key notes =
     (case notes of
        None \<Rightarrow> return (Inr ())
      | Some x \<Rightarrow>
          and_then (run_prepared (delete_notes (unat key))) (\<lambda>_.
            if x = [] then return (Inr ()) else store_insert_game_tags key [(''_notes'', x)]))"

definition patch_body :: "u32 \<Rightarrow> game_patch \<Rightarrow> game_writer \<Rightarrow> unit result \<times> game_writer" where
  "patch_body key patch =
     and_then (patch_people key patch) (\<lambda>_.
     and_then (update_fields key (scalar_fields patch)) (\<lambda>_. patch_notes key (gq_notes patch)))"

definition patch_metadata :: "u32 \<Rightarrow> game_patch \<Rightarrow> game_writer \<Rightarrow> unit result \<times> game_writer" where
  "patch_metadata key patch =
     and_then (get_provenance key) (\<lambda>prov.
       if gp_source_type prov \<noteq> ''manual'' then return (unexpected Not_Editable)
       else guarded clear_insert_caches (patch_body key patch))"

definition set_manual_provenance :: "u32 \<Rightarrow> string option \<Rightarrow> string \<Rightarrow> game_writer \<Rightarrow> unit result \<times> game_writer" where
  "set_manual_provenance key source_label review_status =
     and_then (run_prepared (update_game (unat key)
         (\<lambda>r. r\<lparr>gr_source_type := ''manual'', gr_source_label := source_label, gr_review_status := review_status\<rparr>))) (\<lambda>changes.
       return (if changes = 0 then unexpected Not_Found else Inr ()))"

text \<open>
  \<open>create_schema\<close>: switches foreign keys on and asks whether they are; the tables exist in every state of the model, so
  only the index is left to create.
\<close>
definition create_schema :: "bool \<Rightarrow> game_writer \<Rightarrow> unit result \<times> game_writer" where
  "create_schema foreign_keys_enabled =
     and_then (gw_exec (\<lambda>tb. Some ((), tb))) (\<lambda>_.
     and_then (run_query (\<lambda>_. foreign_keys_enabled)) (\<lambda>enabled.
       if \<not> enabled then return (unexpected Io_Failure) else gw_exec identity_index_ddl))"

section \<open>The store\<close>

record game_store =
  gs_self :: game_writer
  gs_writer :: game_writer

definition new_game_store :: "database \<Rightarrow> game_store" where
  "new_game_store db = \<lparr>gs_self = new_game_writer db, gs_writer = new_game_writer db\<rparr>"

text \<open>An operation on the own members, and one that is passed on to the writer: both see the one connection.\<close>
definition via_self :: "(game_writer \<Rightarrow> 'a \<times> game_writer) \<Rightarrow> game_store \<Rightarrow> 'a \<times> game_store" where
  "via_self m s =
     (case m (gs_self s) of (x, w) \<Rightarrow> (x, \<lparr>gs_self = w, gs_writer = (gs_writer s)\<lparr>gw_db := gw_db w\<rparr>\<rparr>))"

definition via_writer :: "(game_writer \<Rightarrow> 'a \<times> game_writer) \<Rightarrow> game_store \<Rightarrow> 'a \<times> game_store" where
  "via_writer m s =
     (case m (gs_writer s) of (x, w) \<Rightarrow> (x, \<lparr>gs_self = (gs_self s)\<lparr>gw_db := gw_db w\<rparr>, gs_writer = w\<rparr>))"

definition gs_insert :: "(u16 list \<Rightarrow> u64) \<Rightarrow> db_game \<Rightarrow> game_store \<Rightarrow> u32 result \<times> game_store" where
  "gs_insert xxh3 g = via_writer (gw_insert xxh3 g)"

definition gs_begin_transaction :: "game_store \<Rightarrow> unit result \<times> game_store" where
  "gs_begin_transaction = via_writer begin_transaction"

definition gs_commit_transaction :: "game_store \<Rightarrow> unit result \<times> game_store" where
  "gs_commit_transaction = via_writer commit_transaction"

definition gs_rollback_transaction :: "game_store \<Rightarrow> game_store" where
  "gs_rollback_transaction s =
     (let s = snd (via_writer (\<lambda>w. ((), rollback_transaction w)) s) in s\<lparr>gs_self := clear_insert_caches (gs_self s)\<rparr>)"

definition gs_clear_insert_caches :: "game_store \<Rightarrow> game_store" where
  "gs_clear_insert_caches s =
     s\<lparr>gs_writer := clear_insert_caches (gs_writer s), gs_self := clear_insert_caches (gs_self s)\<rparr>"

end
