(* ===== verification/Import_Pipeline.thy ===== *)
theory Import_Pipeline
  imports Checkpoint Pgn_Reader Game_Store
begin

text \<open>
  \<open>source/motif/import/import_pipeline.cpp\<close>: the bulk import. A run prepares the database, sends the games of the PGN file
  through a pipeline of three stages (read one after the other, prepare in parallel, write one after the other, in the order
  of reading) and closes with the pass over duplicates, the rebuild of the derived indexes and the summary. It can be stopped
  and resumed from its checkpoint.

  The pipeline is a step relation: every stage of every game in flight is a step, and a stop request may come between any
  two. The first stage is two steps, because it looks at the shared flags and writes them only after it has read a game. The
  pipeline library is only required to keep the order of its serial stages and the number of lines. It gives a meaning to
  \<open>stop\<close> in the first stage; for the calls in the third stage the relation allows both that the games in flight go on and
  that the run ends at once.

  Parameters are the chess library, the PGN parser, the JSON codec, the hash of the moves, the normal form of a path, and the
  database manager's operations on the derived indexes. Times and build metrics are left out.
\<close>

section \<open>Counting the games of a file\<close>

definition event_marker :: string where
  "event_marker = ''[Event '' @ [CHR 0x22]"

text \<open>The inner loop: \<open>std::search\<close> for the marker, continuing behind every match.\<close>
function count_matches :: "string \<Rightarrow> nat" where
  "count_matches [] = 0"
| "count_matches (c # cs) =
     (if take (length event_marker) (c # cs) = event_marker then 1 + count_matches (drop (length event_marker) (c # cs))
      else count_matches cs)"
  by pat_completeness auto
termination by (relation "measure length") (auto simp: event_marker_def)

text \<open>The outer loop over buffers of \<open>n\<close> characters, with the end of the previous one carried over.\<close>
function count_chunks :: "nat \<Rightarrow> string \<Rightarrow> string \<Rightarrow> nat \<Rightarrow> nat" where
  "count_chunks n carry source found =
     (let chunk = take n source; window = carry @ chunk in
      if chunk = [] \<and> carry = [] then found
      else let found = found + count_matches window in
        if chunk = [] then found
        else count_chunks n (drop (length window - min (length window) (length event_marker - 1)) window) (drop n source) found)"
  by pat_completeness auto
termination by (relation "measure (\<lambda>(n, carry, source, found). length source)") auto

declare count_chunks.simps [simp del]

definition count_games :: "pgn_file \<Rightarrow> nat \<Rightarrow> nat import_result" where
  "count_games file start_offset =
     (case (pf_text file, pf_size file) of
        (Some source, Some file_size) \<Rightarrow>
          (if start_offset > file_size then Inl Import_Io_Failure
           else if start_offset = file_size then Inr 0
           else Inr (count_chunks 1048576 [] (drop start_offset source) 0))
      | _ \<Rightarrow> Inl Import_Io_Failure)"

section \<open>Preparing a game\<close>

definition prepare_game :: "('p, 'm) chesslib \<Rightarrow> pgn_game \<Rightarrow> db_game import_result" where
  "prepare_game lib pgn =
     (if pg_moves pgn = [] then Inl Import_Empty_Game
      else let game_row = (extract_game pgn)\<lparr>dg_extra_tags := []\<rparr> in
        if length (pg_moves pgn) > 65535 then Inl Import_Parse_Error
        else case encode_san_moves lib (new_board lib) (pg_moves pgn) of
            None \<Rightarrow> Inl Import_Parse_Error
          | Some encoded_moves \<Rightarrow> Inr (game_row\<lparr>dg_moves := encoded_moves\<rparr>))"

section \<open>State\<close>

record import_config =
  ic_num_workers :: nat
  ic_num_lines :: nat
  ic_build_position_postings :: bool
  ic_build_opening_tree_index :: bool
  ic_batch_size :: nat

record import_summary =
  su_total_attempted :: u64
  su_committed :: u64
  su_skipped :: u64
  su_errors :: u64
  su_duplicates_removed :: nat

datatype import_phase = Phase_Idle | Phase_Ingesting | Phase_Deduplicating | Phase_Rebuilding

datatype slot_state = Slot_Empty | Slot_Ready | Slot_Parse_Error

record pipeline_slot =
  sl_game :: "pgn_game option"
  sl_start_offset :: nat
  sl_next_offset :: nat
  sl_prepared :: "db_game option"
  sl_error :: "import_error_code option"
  sl_state :: slot_state

text \<open>\<open>default_worker_count\<close>, with the number of hardware threads as its argument.\<close>
definition default_worker_count :: "nat \<Rightarrow> nat" where
  "default_worker_count detected = max 1 (detected div 2)"

text \<open>The database manager as the pipeline uses it besides the writer.\<close>
record derived_ops =
  dv_prepare_canonical_mutation :: "filesystem \<Rightarrow> unit result \<times> filesystem"
  dv_rebuild_position_postings :: "tables \<Rightarrow> filesystem \<Rightarrow> unit result \<times> filesystem"
  dv_rebuild_opening_tree_index :: "tables \<Rightarrow> filesystem \<Rightarrow> unit result \<times> filesystem"

record ('p, 'm) import_env =
  ie_lib :: "('p, 'm) chesslib"
  ie_parse :: "string \<Rightarrow> stream_item list"
  ie_json :: json_codec
  ie_xxh3 :: "u16 list \<Rightarrow> u64"
  ie_normal_path :: "string \<Rightarrow> string"
  ie_derived :: derived_ops
  ie_dir :: path
  ie_pgn_path :: string
  ie_pgn_file :: pgn_file
  ie_config :: import_config

text \<open>The members of \<open>import_pipeline\<close> and the local variables of \<open>run_from\<close>.\<close>
record ingest =
  ig_writer :: game_writer
  ig_disk :: filesystem
  ig_reader :: pgn_reader
  ig_games_processed :: u64
  ig_games_committed :: u64
  ig_games_skipped :: u64
  ig_games_errored :: u64
  ig_total_games :: nat
  ig_stop_requested :: bool
  ig_phase :: import_phase
  ig_raw_mode :: bool
  ig_pre_committed :: int
  ig_last_game_id :: int
  ig_committed :: int
  ig_batch_pending :: nat
  ig_sqlite_tx_open :: bool
  ig_eof_reached :: bool
  ig_stopped :: bool
  ig_checkpoint_offset :: nat
  ig_fatal_error :: "import_error_code option"

text \<open>What another thread sees of a run, and the request with which it stops the run.\<close>
record import_progress =
  ip_games_processed :: u64
  ip_games_committed :: u64
  ip_games_skipped :: u64
  ip_errors :: u64
  ip_total_games :: nat
  ip_phase :: import_phase

definition progress :: "ingest \<Rightarrow> import_progress" where
  "progress st =
     \<lparr>ip_games_processed = ig_games_processed st, ip_games_committed = ig_games_committed st,
      ip_games_skipped = ig_games_skipped st, ip_errors = ig_games_errored st, ip_total_games = ig_total_games st,
      ip_phase = ig_phase st\<rparr>"

definition request_stop :: "ingest \<Rightarrow> ingest" where
  "request_stop st = st\<lparr>ig_stop_requested := True\<rparr>"

section \<open>Batches\<close>

definition begin_sqlite_batch :: "ingest \<Rightarrow> bool \<times> ingest" where
  "begin_sqlite_batch st =
     (if ig_sqlite_tx_open st then (True, st)
      else case begin_transaction (ig_writer st) of
          (Inl _, w) \<Rightarrow> (False, st\<lparr>ig_writer := w\<rparr>)
        | (Inr _, w) \<Rightarrow> (True, st\<lparr>ig_writer := w, ig_sqlite_tx_open := True\<rparr>))"

definition rollback_sqlite_batch :: "ingest \<Rightarrow> ingest" where
  "rollback_sqlite_batch st =
     (if \<not> ig_sqlite_tx_open st then st
      else st\<lparr>ig_writer := rollback_transaction (ig_writer st), ig_sqlite_tx_open := False\<rparr>)"

definition commit_sqlite_batch :: "ingest \<Rightarrow> bool \<times> ingest" where
  "commit_sqlite_batch st =
     (if \<not> ig_sqlite_tx_open st then (True, st)
      else case commit_transaction (ig_writer st) of
          (Inl _, w) \<Rightarrow> (False, st\<lparr>ig_writer := w\<rparr>)
        | (Inr _, w) \<Rightarrow> (True, st\<lparr>ig_writer := w, ig_sqlite_tx_open := False\<rparr>))"

text \<open>A checkpoint that cannot be written is only logged.\<close>
definition write_progress_checkpoint :: "('p, 'm) import_env \<Rightarrow> ingest \<Rightarrow> ingest" where
  "write_progress_checkpoint env st =
     st\<lparr>ig_disk := snd (write_checkpoint (ie_json env) (ie_dir env)
          \<lparr>cp_source_path = ie_pgn_path env, cp_byte_offset = ig_checkpoint_offset st,
           cp_games_committed = ig_committed st, cp_last_game_id = ig_last_game_id st\<rparr> (ig_disk st))\<rparr>"

definition restore_identity_index :: "ingest \<Rightarrow> ingest" where
  "restore_identity_index st = (if ig_raw_mode st then st\<lparr>ig_writer := snd (deduplicate (ig_writer st))\<rparr> else st)"

section \<open>Stages\<close>

text \<open>The first stage up to the point where it reads: whether it goes on.\<close>
definition stage0_check :: "ingest \<Rightarrow> bool \<times> ingest" where
  "stage0_check st =
     (if ig_stop_requested st then (False, st\<lparr>ig_stopped := True, ig_eof_reached := True\<rparr>)
      else if ig_eof_reached st then (False, st)
      else (True, st))"

text \<open>The rest of the first stage: the slot it fills, or nothing when it stops the pipeline.\<close>
definition stage0_read :: "ingest \<Rightarrow> pipeline_slot option \<times> ingest" where
  "stage0_read st =
     (let slot = \<lparr>sl_game = None, sl_start_offset = byte_offset (ig_reader st), sl_next_offset = 0, sl_prepared = None,
                  sl_error = None, sl_state = Slot_Empty\<rparr> in
      case next_game (ig_reader st) of
        (Inl err, rd) \<Rightarrow>
          (if err = Import_Parse_Error then (Some (slot\<lparr>sl_state := Slot_Parse_Error\<rparr>), st\<lparr>ig_reader := rd\<rparr>)
           else (None, st\<lparr>ig_reader := rd, ig_fatal_error := Some err, ig_eof_reached := True\<rparr>))
      | (Inr game, rd) \<Rightarrow>
          (Some (slot\<lparr>sl_game := Some game, sl_next_offset := byte_offset rd, sl_state := Slot_Ready\<rparr>), st\<lparr>ig_reader := rd\<rparr>))"

definition stage1 :: "('p, 'm) chesslib \<Rightarrow> pipeline_slot \<Rightarrow> pipeline_slot" where
  "stage1 lib slot =
     (if sl_state slot \<noteq> Slot_Ready then slot
      else case sl_game slot of
          None \<Rightarrow> slot
        | Some game \<Rightarrow>
            (case prepare_game lib game of
               Inl err \<Rightarrow> slot\<lparr>sl_state := Slot_Parse_Error, sl_error := Some err\<rparr>
             | Inr prep \<Rightarrow> slot\<lparr>sl_prepared := Some prep\<rparr>))"

text \<open>How the third stage ends: it goes on, it saw a stop request, or it failed; the last two call \<open>stop\<close>.\<close>
datatype stage_outcome = Goes_On | Saw_Stop | Failed

definition fail_ingest :: "ingest \<Rightarrow> ingest" where
  "fail_ingest st = st\<lparr>ig_fatal_error := Some Import_Io_Failure, ig_eof_reached := True\<rparr>"

text \<open>The end of a full batch.\<close>
definition finish_batch :: "('p, 'm) import_env \<Rightarrow> ingest \<Rightarrow> stage_outcome \<times> ingest" where
  "finish_batch env st =
     (case commit_sqlite_batch st of
        (False, st) \<Rightarrow> (Failed, fail_ingest (rollback_sqlite_batch st))
      | (True, st) \<Rightarrow>
          let st = (write_progress_checkpoint env st)\<lparr>ig_batch_pending := 0\<rparr> in
          if ig_stop_requested st then (Saw_Stop, st\<lparr>ig_stopped := True, ig_eof_reached := True\<rparr>)
          else case begin_sqlite_batch st of
              (False, st) \<Rightarrow> (Failed, fail_ingest st)
            | (True, st) \<Rightarrow> (Goes_On, st))"

definition stage2 :: "('p, 'm) import_env \<Rightarrow> pipeline_slot \<Rightarrow> ingest \<Rightarrow> stage_outcome \<times> ingest" where
  "stage2 env slot st =
     (let st = st\<lparr>ig_games_processed := ig_games_processed st + 1\<rparr> in
      if sl_state slot = Slot_Parse_Error
      then (Goes_On, st\<lparr>ig_games_skipped := ig_games_skipped st + 1, ig_games_errored := ig_games_errored st + 1\<rparr>)
      else case sl_prepared slot of
          None \<Rightarrow> (Goes_On, st)
        | Some game_row \<Rightarrow>
            (case (if ig_raw_mode st then gw_insert_raw else gw_insert) (ie_xxh3 env) game_row (ig_writer st) of
               (Inl err, w) \<Rightarrow>
                 let st = st\<lparr>ig_writer := w\<rparr> in
                 if err_code err = Duplicate then (Goes_On, st\<lparr>ig_games_skipped := ig_games_skipped st + 1\<rparr>)
                 else (Failed, fail_ingest (rollback_sqlite_batch (st\<lparr>ig_games_errored := ig_games_errored st + 1\<rparr>)))
             | (Inr game_id, w) \<Rightarrow>
                 let st = st\<lparr>ig_writer := w, ig_checkpoint_offset := sl_next_offset slot, ig_last_game_id := uint game_id,
                             ig_committed := ig_committed st + 1, ig_batch_pending := ig_batch_pending st + 1,
                             ig_games_committed := ig_games_committed st + 1\<rparr> in
                 if ig_batch_pending st \<ge> ic_batch_size (ie_config env) then finish_batch env st else (Goes_On, st)))"

section \<open>The pipeline\<close>

text \<open>The games in flight, oldest first, each with whether its second stage is done.\<close>
record pipeline =
  pl_ingest :: ingest
  pl_in_flight :: "(bool \<times> pipeline_slot) list"
  pl_open :: bool
  pl_reading :: bool
  pl_outcome :: stage_outcome

definition new_pipeline :: "ingest \<Rightarrow> pipeline" where
  "new_pipeline st = \<lparr>pl_ingest = st, pl_in_flight = [], pl_open = True, pl_reading = False, pl_outcome = Goes_On\<rparr>"

text \<open>A failure is not forgotten.\<close>
definition join_outcome :: "stage_outcome \<Rightarrow> stage_outcome \<Rightarrow> stage_outcome" where
  "join_outcome earlier now = (if earlier = Failed \<or> now = Goes_On then earlier else now)"

inductive pipe_step :: "('p, 'm) import_env \<Rightarrow> pipeline \<Rightarrow> pipeline \<Rightarrow> bool" for env where
  pipe_enter:
    "pl_open p \<Longrightarrow> \<not> pl_reading p \<Longrightarrow> length (pl_in_flight p) < ic_num_lines (ie_config env) \<Longrightarrow> stage0_check (pl_ingest p) = (True, st)
     \<Longrightarrow> pipe_step env p (p\<lparr>pl_ingest := st, pl_reading := True\<rparr>)"
| pipe_close:
    "pl_open p \<Longrightarrow> \<not> pl_reading p \<Longrightarrow> length (pl_in_flight p) < ic_num_lines (ie_config env) \<Longrightarrow> stage0_check (pl_ingest p) = (False, st)
     \<Longrightarrow> pipe_step env p (p\<lparr>pl_ingest := st, pl_open := False\<rparr>)"
| pipe_read:
    "pl_reading p \<Longrightarrow> stage0_read (pl_ingest p) = (Some slot, st)
     \<Longrightarrow> pipe_step env p (p\<lparr>pl_ingest := st, pl_reading := False, pl_in_flight := pl_in_flight p @ [(False, slot)]\<rparr>)"
| pipe_end:
    "pl_reading p \<Longrightarrow> stage0_read (pl_ingest p) = (None, st)
     \<Longrightarrow> pipe_step env p (p\<lparr>pl_ingest := st, pl_reading := False, pl_open := False\<rparr>)"
| pipe_prepare:
    "i < length (pl_in_flight p) \<Longrightarrow> pl_in_flight p ! i = (False, slot)
     \<Longrightarrow> pipe_step env p (p\<lparr>pl_in_flight := (pl_in_flight p)[i := (True, stage1 (ie_lib env) slot)]\<rparr>)"
| pipe_write:
    "pl_in_flight p = (True, slot) # rest \<Longrightarrow> stage2 env slot (pl_ingest p) = (outcome, st)
     \<Longrightarrow> pipe_step env p (p\<lparr>pl_ingest := st, pl_in_flight := rest, pl_outcome := join_outcome (pl_outcome p) outcome\<rparr>)"
| pipe_request_stop:
    "pipe_step env p (p\<lparr>pl_ingest := request_stop (pl_ingest p)\<rparr>)"

definition pipe_finished :: "pipeline \<Rightarrow> bool" where
  "pipe_finished p \<longleftrightarrow> (\<not> pl_open p \<and> \<not> pl_reading p \<and> pl_in_flight p = []) \<or> pl_outcome p \<noteq> Goes_On"

section \<open>A run\<close>

text \<open>\<open>run_from\<close> up to the pipeline.\<close>
definition start_import ::
  "('p, 'm) import_env \<Rightarrow> nat \<Rightarrow> int \<Rightarrow> int \<Rightarrow> ingest \<Rightarrow> unit import_result \<times> ingest" where
  "start_import env start_offset pre_committed pre_last_game_id st =
     (case dv_prepare_canonical_mutation (ie_derived env) (ig_disk st) of
        (Inl _, fs) \<Rightarrow> (Inl Import_Io_Failure, st\<lparr>ig_disk := fs\<rparr>)
      | (Inr _, fs) \<Rightarrow>
          let st = st\<lparr>ig_disk := fs\<rparr> in
          if ic_num_workers (ie_config env) = 0 \<or> ic_num_lines (ie_config env) = 0 then (Inl Import_Invalid_State, st)
          else let st = st\<lparr>ig_games_processed := 0, ig_games_committed := 0, ig_games_skipped := 0, ig_games_errored := 0,
                           ig_total_games := (case count_games (ie_pgn_file env) start_offset of Inl _ \<Rightarrow> 0 | Inr n \<Rightarrow> n),
                           ig_phase := Phase_Ingesting\<rparr>;
                   reader = new_pgn_reader (ie_parse env) (ie_pgn_file env) in
            (case (if start_offset > 0 then seek_to_offset (ie_parse env) (ie_pgn_file env) start_offset reader else (Inr (), reader)) of
               (Inl _, reader) \<Rightarrow> (Inl Import_Io_Failure, st)
             | (Inr _, reader) \<Rightarrow>
                 let st = st\<lparr>ig_reader := reader, ig_last_game_id := pre_last_game_id, ig_committed := pre_committed,
                             ig_pre_committed := pre_committed, ig_batch_pending := 0, ig_sqlite_tx_open := False,
                             ig_eof_reached := False, ig_stopped := False, ig_checkpoint_offset := start_offset,
                             ig_fatal_error := None, ig_raw_mode := (pre_committed = 0)\<rparr> in
                 (case (if ig_raw_mode st then drop_identity_index (ig_writer st) else (Inr (), ig_writer st)) of
                    (Inl _, w) \<Rightarrow> (Inl Import_Io_Failure, st\<lparr>ig_writer := w\<rparr>)
                  | (Inr _, w) \<Rightarrow>
                      (case begin_sqlite_batch (st\<lparr>ig_writer := w\<rparr>) of
                         (False, st) \<Rightarrow> (Inl Import_Io_Failure, restore_identity_index st)
                       | (True, st) \<Rightarrow> (Inr (), st)))))"

definition summary_of :: "ingest \<Rightarrow> nat \<Rightarrow> import_summary" where
  "summary_of st duplicates_removed =
     \<lparr>su_total_attempted = ig_games_processed st, su_committed = of_int (ig_committed st - ig_pre_committed st),
      su_skipped = ig_games_skipped st, su_errors = ig_games_errored st, su_duplicates_removed = duplicates_removed\<rparr>"

text \<open>The pass over the duplicates of a raw ingest: how many were removed.\<close>
definition finish_dedup :: "ingest \<Rightarrow> nat import_result \<times> ingest" where
  "finish_dedup st =
     (if \<not> ig_raw_mode st then (Inr 0, st)
      else let st = st\<lparr>ig_phase := Phase_Deduplicating\<rparr> in
        case deduplicate (ig_writer st) of
          (Inl _, w) \<Rightarrow> (Inl Import_Io_Failure, st\<lparr>ig_writer := w\<rparr>)
        | (Inr removed, w) \<Rightarrow>
            (Inr removed, st\<lparr>ig_writer := w, ig_committed := ig_committed st - int removed,
               ig_games_committed := ig_games_committed st - of_nat removed,
               ig_games_skipped := ig_games_skipped st + of_nat removed\<rparr>))"

text \<open>A rebuild of a derived index from the canonical tables.\<close>
definition rebuild_index ::
  "bool \<Rightarrow> (tables \<Rightarrow> filesystem \<Rightarrow> unit result \<times> filesystem) \<Rightarrow> ingest \<Rightarrow> bool \<times> ingest" where
  "rebuild_index wanted rebuild st =
     (if \<not> wanted then (True, st)
      else let st = st\<lparr>ig_phase := Phase_Rebuilding\<rparr> in
        case rebuild (sd_tables (gw_db (ig_writer st))) (ig_disk st) of
          (Inl _, fs) \<Rightarrow> (False, st\<lparr>ig_disk := fs\<rparr>)
        | (Inr _, fs) \<Rightarrow> (True, st\<lparr>ig_disk := fs\<rparr>))"

text \<open>\<open>run_from\<close> behind the pipeline.\<close>
definition finish_import :: "('p, 'm) import_env \<Rightarrow> ingest \<Rightarrow> import_summary import_result \<times> ingest" where
  "finish_import env st =
     (if ig_fatal_error st \<noteq> None \<and> ig_fatal_error st \<noteq> Some Import_Eof
      then (Inl (the (ig_fatal_error st)), restore_identity_index (rollback_sqlite_batch st))
      else case commit_sqlite_batch st of
          (False, st) \<Rightarrow> (Inl Import_Io_Failure, restore_identity_index (rollback_sqlite_batch st))
        | (True, st) \<Rightarrow>
            (case finish_dedup st of
               (Inl err, st) \<Rightarrow> (Inl err, st)
             | (Inr duplicates_removed, st) \<Rightarrow>
                 (if ig_stopped st \<or> ig_stop_requested st
                  then let st = write_progress_checkpoint env st in (Inr (summary_of st duplicates_removed), st)
                  else case rebuild_index (ic_build_position_postings (ie_config env) \<and> ie_dir env \<noteq> [])
                              (dv_rebuild_position_postings (ie_derived env)) st of
                      (False, st) \<Rightarrow> (Inl Import_Io_Failure, st)
                    | (True, st) \<Rightarrow>
                        (case rebuild_index (ic_build_opening_tree_index (ie_config env))
                                (dv_rebuild_opening_tree_index (ie_derived env)) st of
                           (False, st) \<Rightarrow> (Inl Import_Io_Failure, st)
                         | (True, st) \<Rightarrow>
                             (Inr (summary_of st duplicates_removed),
                              st\<lparr>ig_disk := delete_checkpoint (ie_dir env) (ig_disk st),
                                 ig_writer := clear_insert_caches (ig_writer st)\<rparr>)))))"

inductive run_from ::
  "('p, 'm) import_env \<Rightarrow> nat \<Rightarrow> int \<Rightarrow> int \<Rightarrow> ingest \<Rightarrow> import_summary import_result \<Rightarrow> ingest \<Rightarrow> bool" for env where
  run_refused:
    "start_import env start_offset pre_committed pre_last_game_id st = (Inl err, st')
     \<Longrightarrow> run_from env start_offset pre_committed pre_last_game_id st (Inl err) st'"
| run_through:
    "start_import env start_offset pre_committed pre_last_game_id st = (Inr u, st0)
     \<Longrightarrow> (pipe_step env)\<^sup>*\<^sup>* (new_pipeline st0) p \<Longrightarrow> pipe_finished p \<Longrightarrow> finish_import env (pl_ingest p) = (res, st')
     \<Longrightarrow> run_from env start_offset pre_committed pre_last_game_id st res st'"

text \<open>
  \<open>resume_from_checkpoint\<close> up to \<open>run_from\<close>: the offset, the number of games committed before and the last id to
  continue with. A missing identity index is left by a raw ingest that was cut off; its rows are reconciled first.
\<close>
definition resume_point ::
  "('p, 'm) import_env \<Rightarrow> import_checkpoint \<Rightarrow> ingest \<Rightarrow> (nat \<times> int \<times> int) import_result \<times> ingest" where
  "resume_point env checkpoint st =
     (if ie_normal_path env (cp_source_path checkpoint) \<noteq> ie_normal_path env (ie_pgn_path env) then (Inl Import_Invalid_State, st)
      else case identity_index_exists (ig_writer st) of
          (Inl _, w) \<Rightarrow> (Inl Import_Io_Failure, st\<lparr>ig_writer := w\<rparr>)
        | (Inr True, w) \<Rightarrow>
            (Inr (cp_byte_offset checkpoint, cp_games_committed checkpoint, cp_last_game_id checkpoint), st\<lparr>ig_writer := w\<rparr>)
        | (Inr False, w) \<Rightarrow>
            (case deduplicate w of
               (Inl _, w) \<Rightarrow> (Inl Import_Io_Failure, st\<lparr>ig_writer := w\<rparr>)
             | (Inr _, w) \<Rightarrow>
                 (case count_stored_games w of
                    (Inl _, w) \<Rightarrow> (Inl Import_Io_Failure, st\<lparr>ig_writer := w\<rparr>)
                  | (Inr game_count, w) \<Rightarrow>
                      (Inr (cp_byte_offset checkpoint, int game_count, cp_last_game_id checkpoint), st\<lparr>ig_writer := w\<rparr>))))"

inductive resume_from_checkpoint ::
  "('p, 'm) import_env \<Rightarrow> import_checkpoint \<Rightarrow> ingest \<Rightarrow> import_summary import_result \<Rightarrow> ingest \<Rightarrow> bool" for env where
  resume_refused: "resume_point env checkpoint st = (Inl err, st') \<Longrightarrow> resume_from_checkpoint env checkpoint st (Inl err) st'"
| resume_through:
    "resume_point env checkpoint st = (Inr (start_offset, pre_committed, pre_last_game_id), st1)
     \<Longrightarrow> run_from env start_offset pre_committed pre_last_game_id st1 res st' \<Longrightarrow> resume_from_checkpoint env checkpoint st res st'"

text \<open>\<open>import_pipeline::resume\<close> and \<open>import_pipeline::run\<close>.\<close>
inductive resume_import :: "('p, 'm) import_env \<Rightarrow> ingest \<Rightarrow> import_summary import_result \<Rightarrow> ingest \<Rightarrow> bool" for env where
  resume_no_checkpoint:
    "read_checkpoint (ie_json env) (ie_dir env) (ig_disk st) = Inl err \<Longrightarrow> resume_import env st (Inl Import_Io_Failure) st"
| resume_checkpoint:
    "read_checkpoint (ie_json env) (ie_dir env) (ig_disk st) = Inr checkpoint \<Longrightarrow> resume_from_checkpoint env checkpoint st res st'
     \<Longrightarrow> resume_import env st res st'"

definition same_source :: "('p, 'm) import_env \<Rightarrow> import_checkpoint \<Rightarrow> bool" where
  "same_source env checkpoint \<longleftrightarrow> ie_normal_path env (cp_source_path checkpoint) = ie_normal_path env (ie_pgn_path env)"

definition bad_config :: "import_config \<Rightarrow> bool" where
  "bad_config config \<longleftrightarrow> ic_num_workers config = 0 \<or> ic_num_lines config = 0"

inductive run_import :: "('p, 'm) import_env \<Rightarrow> ingest \<Rightarrow> import_summary import_result \<Rightarrow> ingest \<Rightarrow> bool" for env where
  import_bad_config: "bad_config (ie_config env) \<Longrightarrow> run_import env st (Inl Import_Invalid_State) st"
| import_unreadable:
    "\<not> bad_config (ie_config env) \<Longrightarrow> read_checkpoint (ie_json env) (ie_dir env) (ig_disk st) = Inl err \<Longrightarrow> err \<noteq> Import_Not_Found
     \<Longrightarrow> run_import env st (Inl err) st"
| import_fresh:
    "\<not> bad_config (ie_config env) \<Longrightarrow> read_checkpoint (ie_json env) (ie_dir env) (ig_disk st) = Inl Import_Not_Found
     \<Longrightarrow> run_from env 0 0 0 st res st' \<Longrightarrow> run_import env st res st'"
| import_other_source:
    "\<not> bad_config (ie_config env) \<Longrightarrow> read_checkpoint (ie_json env) (ie_dir env) (ig_disk st) = Inr checkpoint
     \<Longrightarrow> \<not> same_source env checkpoint \<Longrightarrow> run_from env 0 0 0 st res st' \<Longrightarrow> run_import env st res st'"
| import_resumed:
    "\<not> bad_config (ie_config env) \<Longrightarrow> read_checkpoint (ie_json env) (ie_dir env) (ig_disk st) = Inr checkpoint
     \<Longrightarrow> same_source env checkpoint \<Longrightarrow> resume_from_checkpoint env checkpoint st res st' \<Longrightarrow> res \<noteq> Inl Import_Invalid_State
     \<Longrightarrow> run_import env st res st'"
| import_restarted:
    "\<not> bad_config (ie_config env) \<Longrightarrow> read_checkpoint (ie_json env) (ie_dir env) (ig_disk st) = Inr checkpoint
     \<Longrightarrow> same_source env checkpoint \<Longrightarrow> resume_from_checkpoint env checkpoint st (Inl Import_Invalid_State) st1
     \<Longrightarrow> run_from env 0 0 0 (st1\<lparr>ig_disk := delete_checkpoint (ie_dir env) (ig_disk st1)\<rparr>) res st' \<Longrightarrow> run_import env st res st'"

end
