(* ===== verification/Import_Correct.thy ===== *)
theory Import_Correct
  imports Import_Pipeline
begin

text \<open>
  The bulk import: the number of games it announces, the order in which games reach the database, the checkpoint that never
  runs ahead of the committed rows, and the two places where a failure in the writing stage is not contained.
\<close>

section \<open>The announced number of games\<close>

text \<open>The number of places at which the marker occurs.\<close>
definition marker_at :: "string \<Rightarrow> bool" where
  "marker_at s \<longleftrightarrow> take (length event_marker) s = event_marker"

fun marker_count :: "string \<Rightarrow> nat" where
  "marker_count [] = 0"
| "marker_count (c # cs) = (if marker_at (c # cs) then 1 else 0) + marker_count cs"

lemma marker_length: "length event_marker = 8"
  by (simp add: event_marker_def)

lemma marker_at_short: "length s < 8 \<Longrightarrow> \<not> marker_at s"
proof
  assume "length s < 8" "marker_at s"
  then have "length (take 8 s) = 8" unfolding marker_at_def marker_length using marker_length by metis
  then show False using \<open>length s < 8\<close> by simp
qed

lemma marker_count_short: "length s < 8 \<Longrightarrow> marker_count s = 0"
  by (induction s) (simp_all add: marker_at_short)

lemma marker_at_append: "8 \<le> length s \<Longrightarrow> marker_at (s @ t) = marker_at s"
  by (simp add: marker_at_def marker_length)

text \<open>The marker does not overlap itself.\<close>
lemma marker_no_overlap:
  assumes "marker_at s" and "0 < j" and "j < 8"
  shows "\<not> marker_at (drop j s)"
proof
  assume "marker_at (drop j s)"
  then have "take 8 (drop j s) = event_marker" by (simp add: marker_at_def marker_length)
  then have d: "drop j s \<noteq> []" "hd (drop j s) = CHR ''[''" by (auto simp: event_marker_def) (metis hd_take list.sel(1) zero_less_numeral)
  have "s ! j = event_marker ! j" using assms(1,3) marker_length by (metis marker_at_def nth_take)
  moreover have "event_marker ! j \<noteq> CHR ''[''" using assms(2,3) by (auto simp: event_marker_def nth_Cons split: nat.splits)
  moreover have "hd (drop j s) = s ! j" using d(1) by (simp add: hd_drop_conv_nth)
  ultimately show False using d(2) by simp
qed

lemma marker_count_drop:
  "(\<forall>i<n. \<not> marker_at (drop i s)) \<Longrightarrow> marker_count (drop n s) = marker_count s"
proof (induction n arbitrary: s)
  case (Suc n)
  show ?case
  proof (cases s)
    case (Cons c cs)
    have "\<not> marker_at (drop i cs)" if "i < n" for i using Suc.prems [rule_format, of "Suc i"] that Cons by simp
    then show ?thesis using Suc.IH [of cs] Suc.prems [rule_format, of 0] Cons by simp
  qed simp
qed simp

lemma count_matches_count: "count_matches s = marker_count s"
proof (induction s rule: count_matches.induct)
  case (2 c cs)
  show ?case
  proof (cases "marker_at (c # cs)")
    case True
    have "\<forall>i<7. \<not> marker_at (drop i cs)" using marker_no_overlap [OF True, of "Suc _"] by auto
    from marker_count_drop [OF this] have "marker_count (drop 8 (c # cs)) = marker_count cs" by simp
    then show ?thesis using True 2 by (simp add: marker_at_def marker_length)
  next
    case False
    then show ?thesis using 2 by (simp add: marker_at_def)
  qed
qed simp

lemma marker_count_split:
  "marker_count (w @ rest) = marker_count w + marker_count (drop (length w - min (length w) 7) w @ rest)"
proof (induction w)
  case (Cons c cs)
  show ?case
  proof (cases "length (c # cs) \<le> 7")
    case True
    then show ?thesis using marker_count_short [of "c # cs"] by simp
  next
    case False
    then have "marker_at (c # cs @ rest) = marker_at (c # cs)" using marker_at_append [of "c # cs" rest] by simp
    moreover have "drop (length (c # cs) - min (length (c # cs)) 7) (c # cs) = drop (length cs - min (length cs) 7) cs"
    proof -
      have "length (c # cs) - min (length (c # cs)) 7 = Suc (length cs - min (length cs) 7)" using False by simp
      then show ?thesis by (simp only: drop_Suc_Cons)
    qed
    ultimately show ?thesis using Cons.IH by simp
  qed
qed simp

lemma count_chunks_count:
  "0 < n \<Longrightarrow> length carry \<le> 7 \<Longrightarrow> count_chunks n carry source found = found + marker_count (carry @ source)"
proof (induction n carry source found rule: count_chunks.induct)
  case (1 n carry source found)
  let ?chunk = "take n source"
  let ?window = "carry @ ?chunk"
  let ?keep = "drop (length ?window - min (length ?window) 7) ?window"
  show ?case
  proof (cases "?chunk = []")
    case True
    then have "source = []" using 1(2) by simp
    then show ?thesis using 1(3) marker_count_short [of carry]
      by (subst count_chunks.simps) (simp add: Let_def count_matches_count)
  next
    case False
    have "length (drop (length w - min (length w) 7) w) \<le> 7" for w :: string by simp
    then have keep: "length ?keep \<le> 7" .
    have "\<not> (?chunk = [] \<and> carry = [])" using False by blast
    have e: "length event_marker - 1 = 7" by (simp add: marker_length)
    note IH = 1(1) [OF refl refl \<open>\<not> (?chunk = [] \<and> carry = [])\<close> refl False 1(2), unfolded e, OF keep]
    have "count_chunks n ?keep (drop n source) (found + count_matches ?window)
        = found + count_matches ?window + marker_count (?keep @ drop n source)"
      by (rule IH)
    moreover have "marker_count (carry @ source) = marker_count ?window + marker_count (?keep @ drop n source)"
    proof -
      have "carry @ source = ?window @ drop n source" by simp
      then show ?thesis using marker_count_split [of ?window "drop n source"] by (simp only:)
    qed
    moreover have "count_chunks n carry source found = count_chunks n ?keep (drop n source) (found + count_matches ?window)"
      using False by (subst count_chunks.simps) (simp only: Let_def e if_False simp_thms)
    ultimately show ?thesis by (simp only: count_matches_count add.assoc)
  qed
qed

lemma marker_count_filter: "marker_count s = length (filter (\<lambda>i. marker_at (drop i s)) [0..<length s])"
proof (induction s)
  case (Cons c cs)
  have "[0..<length (c # cs)] = 0 # map Suc [0..<length cs]" by (simp add: upt_conv_Cons map_Suc_upt del: upt_Suc)
  then show ?case using Cons.IH by (simp add: filter_map comp_def)
qed simp

text \<open>
  C27: The number of games announced for a readable file is the number of places at or behind the start offset at which an
  Event tag begins, however the file falls into buffers; an offset behind the end of the file is an error.\<close>
theorem count_games_counts_markers:
  assumes "pf_text file = Some source" and "pf_size file = Some (length source)"
  shows "count_games file off = (if off > length source then Inl Import_Io_Failure
     else Inr (length (filter (\<lambda>i. take 8 (drop (off + i) source) = event_marker) [0..<length source - off])))"
  using assms count_chunks_count [of 1048576 "[]" "drop off source" 0] marker_count_filter [of "drop off source"]
  by (simp add: count_games_def marker_at_def marker_length add.commute)

section \<open>Prepared games\<close>

text \<open>The ranges and forms of the columns of a game that comes from a PGN file.\<close>
definition elo_ok :: "player \<Rightarrow> bool" where
  "elo_ok plr \<longleftrightarrow> (case pl_elo plr of None \<Rightarrow> True | Some elo \<Rightarrow> uint elo \<le> 32767)"

definition well_formed_game :: "db_game \<Rightarrow> bool" where
  "well_formed_game g \<longleftrightarrow> dg_moves g \<noteq> [] \<and> length (dg_moves g) \<le> 65535 \<and> elo_ok (dg_white g) \<and> elo_ok (dg_black g)
     \<and> dg_result g \<in> {''1-0'', ''0-1'', ''1/2-1/2'', ''*''} \<and> dg_date g \<notin> {Some [], Some ''????.??.??''} \<and> dg_eco g \<noteq> Some []
     \<and> (case dg_event_details g of None \<Rightarrow> True | Some evt \<Rightarrow> ev_name evt \<noteq> [] \<and> ev_site evt \<noteq> Some [] \<and> ev_date evt = dg_date g)
     \<and> dg_extra_tags g = []"

lemma encode_san_moves_length: "encode_san_moves lib b ss = Some es \<Longrightarrow> length es = length ss"
  by (induction ss arbitrary: b es) (auto split: prod.splits sum.splits)

lemma parse_elo_range: "parse_elo raw = Some elo \<Longrightarrow> uint (scast elo :: u32) \<le> 32767"
proof -
  assume "parse_elo raw = Some elo"
  then obtain val where v: "elo = of_int val" "0 \<le> val" "val \<le> 32767"
    by (auto simp: parse_elo_def split: if_splits option.splits)
  then have "sint elo = val" by (simp add: signed_of_int signed_take_bit_int_eq_self)
  then show ?thesis using v(2,3) by (simp add: scast_eq take_bit_int_eq_self uint_word_of_int)
qed

lemma result_string: "pgn_result_to_string r \<in> {''1-0'', ''0-1'', ''1/2-1/2'', ''*''}"
  by (cases r) simp_all


section \<open>Rows only grow\<close>

text \<open>The number of games the writer sees.\<close>
definition stored :: "game_writer \<Rightarrow> nat" where
  "stored w = length (tb_games (gw_tables w))"

definition grows :: "(game_writer \<Rightarrow> 'a result \<times> game_writer) \<Rightarrow> bool" where
  "grows m \<longleftrightarrow> (\<forall>w r w'. m w = (r, w') \<longrightarrow> stored w \<le> stored w')"

definition stmt_grows :: "(tables \<Rightarrow> ('a \<times> tables) option) \<Rightarrow> bool" where
  "stmt_grows stmt \<longleftrightarrow> (\<forall>tb x tb'. stmt tb = Some (x, tb') \<longrightarrow> length (tb_games tb) \<le> length (tb_games tb'))"

lemma growsD: "grows m \<Longrightarrow> m w = (r, w') \<Longrightarrow> stored w \<le> stored w'"
  by (simp add: grows_def)

lemma grows_and_then: "grows m \<Longrightarrow> (\<And>x. grows (f x)) \<Longrightarrow> grows (and_then m f)"
  unfolding grows_def and_then_def by (auto split: prod.splits sum.splits) (meson le_trans)+

lemma grows_return: "(\<And>w. stored (f w) = stored w) \<Longrightarrow> grows (\<lambda>w. (r, f w))"
  by (simp add: grows_def)

lemma gw_run_grows: "stmt_grows stmt \<Longrightarrow> gw_run stmt w = (r, w') \<Longrightarrow> stored w \<le> stored w'"
  by (auto simp: gw_run_def stmt_grows_def stored_def split: prod.splits elim!: sql_run_cases)

lemma grows_run_then:
  assumes "stmt_grows stmt" and "\<And>x. grows (f x)"
  shows "grows (\<lambda>w. case gw_run stmt w of (None, w) \<Rightarrow> (unexpected Io_Failure, w) | (Some x, w) \<Rightarrow> f x w)"
  unfolding grows_def
proof (intro allI impI)
  fix w r w' assume r: "(case gw_run stmt w of (None, w) \<Rightarrow> (unexpected Io_Failure, w) | (Some x, w) \<Rightarrow> f x w) = (r, w')"
  obtain y w1 where y: "gw_run stmt w = (y, w1)" by force
  note g = gw_run_grows [OF assms(1) y]
  show "stored w \<le> stored w'"
  proof (cases y)
    case None
    then show ?thesis using g r y by simp
  next
    case (Some x)
    then show ?thesis using g r y growsD [OF assms(2), of x w1 r w'] by simp
  qed
qed

lemma grows_prepare: "grows (prepare_cached_stmt slot)"
  unfolding grows_def
proof (intro allI impI)
  fix w r w' assume p: "prepare_cached_stmt slot w = (r, w')"
  have "stmt_grows (\<lambda>tb. Some ((), tb))" by (simp add: stmt_grows_def)
  from gw_run_grows [OF this] p show "stored w \<le> stored w'"
    by (auto simp: prepare_cached_stmt_def stored_def split: if_splits prod.splits option.splits)
qed

lemma grows_select_or_insert:
  assumes "stmt_grows stmt"
  shows "grows (select_or_insert sel query ins stmt)"
  unfolding select_or_insert_def
proof (rule grows_and_then [OF grows_prepare])
  fix u
  let ?ins = "and_then (prepare_cached_stmt ins) (\<lambda>_ w. case gw_run stmt w of (None, w) \<Rightarrow> (unexpected Io_Failure, w) | (Some i, w) \<Rightarrow> (Inr i, w))"
  have ins: "grows ?ins" by (intro grows_and_then [OF grows_prepare] grows_run_then [OF assms] grows_return refl)
  show "grows (\<lambda>w. case gw_run (select_row query) w of (Some i, w) \<Rightarrow> (Inr i, w) | (None, w) \<Rightarrow> ?ins w)"
    unfolding grows_def
  proof (intro allI impI)
    fix w r w' assume r: "(case gw_run (select_row query) w of (Some i, w) \<Rightarrow> (Inr i, w) | (None, w) \<Rightarrow> ?ins w) = (r, w')"
    obtain y w1 where y: "gw_run (select_row query) w = (y, w1)" by force
    have "stmt_grows (select_row query)" by (auto simp: stmt_grows_def select_row_def)
    note g = gw_run_grows [OF this y]
    then show "stored w \<le> stored w'" using r y growsD [OF ins, of w1 r w'] by (cases y) auto
  qed
qed

lemma stored_cache [simp]: "stored (cache_player n i w) = stored w" "stored (cache_event n i w) = stored w" "stored (cache_tag n i w) = stored w"
  by (simp_all add: stored_def)

lemma grows_entities:
  "grows (find_or_insert_player plr)" "grows (find_or_insert_event evt)" "grows (find_or_insert_tag name)"
proof -
  have s: "stmt_grows (insert_player_sql plr)" "stmt_grows (insert_event_sql evt)" "stmt_grows (insert_tag_sql name)"
    by (auto simp: stmt_grows_def insert_player_sql_def insert_event_sql_def insert_tag_sql_def)
  have cached: "grows (\<lambda>w. case f w of Some i \<Rightarrow> (Inr i, w) | None \<Rightarrow> m w)" if "grows m"
    for f and m :: "game_writer \<Rightarrow> nat result \<times> game_writer"
    using that by (auto simp: grows_def split: option.splits)
  show "grows (find_or_insert_player plr)" "grows (find_or_insert_event evt)" "grows (find_or_insert_tag name)"
    unfolding find_or_insert_player_def find_or_insert_event_def find_or_insert_tag_def
    by (intro cached grows_and_then [OF grows_select_or_insert [OF s(1)]] grows_and_then [OF grows_select_or_insert [OF s(2)]]
        grows_and_then [OF grows_select_or_insert [OF s(3)]] grows_return stored_cache)+
qed

lemma grows_insert_game_tags: "grows (insert_game_tags gid tags)"
proof (induction tags)
  case (Cons tag tags)
  have t: "stmt_grows (insert_game_tag (unat gid) i (snd tag))" for i
    by (auto simp: stmt_grows_def insert_game_tag_def split: if_splits)
  have "grows (and_then (find_or_insert_tag (fst tag)) (\<lambda>tag_id. and_then (prepare_cached_stmt Insert_Game_Tag) (\<lambda>_ w.
      case gw_run (insert_game_tag (unat gid) tag_id (snd tag)) w of (None, w) \<Rightarrow> (unexpected Io_Failure, w)
      | (Some _, w) \<Rightarrow> insert_game_tags gid tags w)))"
    by (intro grows_and_then [OF grows_entities(3)] grows_and_then [OF grows_prepare] grows_run_then [OF t Cons.IH])
  then show ?case by (simp add: grows_def)
qed (simp add: grows_def)

lemma grows_optional_event: "grows (insert_optional_event details)"
proof (cases details)
  case None
  then show ?thesis by (simp add: grows_def insert_optional_event_def)
next
  case (Some evt)
  have "grows (and_then (find_or_insert_event evt) (\<lambda>i w. (Inr (Some i), w)))"
    by (intro grows_and_then [OF grows_entities(2)] grows_return refl)
  then show ?thesis by (simp add: grows_def insert_optional_event_def Some)
qed

text \<open>A statement that reports a rowid has added a row.\<close>
definition adds_row :: "(tables \<Rightarrow> (nat option \<times> tables) option) \<Rightarrow> bool" where
  "adds_row stmt \<longleftrightarrow> stmt_grows stmt \<and> (\<forall>tb i tb'. stmt tb = Some (Some i, tb') \<longrightarrow> length (tb_games tb) < length (tb_games tb'))"

lemma adds_row_insert: "adds_row (insert_game_sql p)" "adds_row (insert_game_raw_sql p)"
  by (auto simp: adds_row_def stmt_grows_def insert_game_sql_def insert_game_raw_sql_def insert_game_row_def Let_def split: if_splits)

lemma insert_body_stored:
  assumes "\<And>p. adds_row (stmt p)" and "insert_body slot stmt xxh3 g w = (r, w')"
  shows "stored w \<le> stored w'" and "\<And>i. r = Inr i \<Longrightarrow> stored w < stored w'"
proof -
  obtain a w1 where a: "find_or_insert_player (dg_white g) w = (a, w1)" by force
  note s1 = growsD [OF grows_entities(1) a]
  obtain b w2 where b: "find_or_insert_player (dg_black g) w1 = (b, w2)" by force
  note s2 = growsD [OF grows_entities(1) b]
  obtain c w3 where c: "insert_optional_event (dg_event_details g) w2 = (c, w3)" by force
  note s3 = growsD [OF grows_optional_event c]
  obtain d w4 where d: "prepare_cached_stmt slot w3 = (d, w4)" by force
  note s4 = growsD [OF grows_prepare d]
  define p where "p = bound_game xxh3 g (projr a) (projr b) (projr c)"
  obtain x w5 where x: "gw_run (stmt p) w4 = (x, w5)" by force
  have "stmt_grows (stmt p)" using assms(1) by (simp add: adds_row_def)
  note s5 = gw_run_grows [OF this x]
  have lt: "stored w4 < stored w5" if "x = Some (Some i)" for i
    using x that assms(1) [of p] by (auto simp: gw_run_def adds_row_def stored_def split: prod.splits elim!: sql_run_cases)
  have tail: "stored w5 \<le> stored w''" if "and_then (insert_game_tags gid (dg_extra_tags g)) (\<lambda>_ w. (Inr y, w)) w5 = (r, w'')" for gid y r w''
    by (rule growsD [OF grows_and_then [OF grows_insert_game_tags grows_return] that]) simp
  note all = s1 s2 s3 s4 s5
  show "stored w \<le> stored w'"
    using assms(2) a b c d x all tail
    by (auto simp: insert_body_def and_then_def [of "find_or_insert_player _"] and_then_def [of "insert_optional_event _"]
        and_then_def [of "prepare_cached_stmt _"] p_def split: sum.splits option.splits dest!: tail)
  show "stored w < stored w'" if "r = Inr i" for i
    using assms(2) a b c d x all lt that
    by (auto simp: insert_body_def and_then_def [of "find_or_insert_player _"] and_then_def [of "insert_optional_event _"]
        and_then_def [of "prepare_cached_stmt _"] p_def split: sum.splits option.splits dest!: tail)
qed


lemma guarded_stored:
  assumes "guarded clear_insert_caches body w = (r, w')" and "\<And>w1 x w2. body w1 = (x, w2) \<Longrightarrow> stored w1 \<le> stored w2"
    and "\<And>w1 x w2. body w1 = (Inr x, w2) \<Longrightarrow> stored w1 < stored w2"
  shows "\<And>x. r = Inr x \<Longrightarrow> stored w < stored w'" and "sd_saved (gw_db w) \<noteq> None \<Longrightarrow> stored w \<le> stored w'"
proof -
  obtain g db where g: "txn_guard (gw_db w) = (g, db)" by force
  obtain b w1 where b: "body (w\<lparr>gw_db := db\<rparr>) = (b, w1)" by force
  have db: "sd_tables db = sd_tables (gw_db w)" using g by (auto elim!: txn_guard_cases)
  have le: "stored w \<le> stored w1" using assms(2) [OF b] db by (simp add: stored_def)
  show "stored w < stored w'" if r: "r = Inr x" for x
  proof -
    obtain l where l: "g = Some l" using assms(1) g r by (cases g) (auto simp: guarded_def)
    obtain y where y: "b = Inr y" using assms(1) g b r l by (cases b) (auto simp: guarded_def)
    obtain ok db1 where c: "txn_commit l (gw_db w1) = (ok, db1)" by force
    then have "w' = w1\<lparr>gw_db := db1\<rparr>" using assms(1) g b r l y by (cases ok) (auto simp: guarded_def)
    moreover have "sd_tables db1 = sd_tables (gw_db w1)"
      using c by (auto simp: txn_commit_def split: if_splits elim!: sql_commit_cases)
    ultimately show ?thesis using assms(3) [of "w\<lparr>gw_db := db\<rparr>" y w1] b y db by (simp add: stored_def)
  qed
  show "stored w \<le> stored w'" if "sd_saved (gw_db w) \<noteq> None"
  proof -
    have l: "g = Some False" using g that by (auto elim!: txn_guard_cases)
    have "stored w' = stored w1"
      using assms(1) g b l by (auto simp: guarded_def txn_commit_def txn_release_def stored_def split: sum.splits)
    then show ?thesis using le by simp
  qed
qed

lemma insert_stored:
  assumes "(if raw then gw_insert_raw else gw_insert) xxh3 g w = (r, w')"
  shows "\<And>x. r = Inr x \<Longrightarrow> stored w < stored w'" and "sd_saved (gw_db w) \<noteq> None \<Longrightarrow> stored w \<le> stored w'"
proof -
  define slot where "slot = (if raw then Insert_Game_Raw else Insert_Game)"
  define stmt where "stmt = (if raw then insert_game_raw_sql else insert_game_sql)"
  have adds: "\<And>p. adds_row (stmt p)" by (simp add: stmt_def adds_row_insert)
  have le: "stored w1 \<le> stored w2" if "insert_body slot stmt xxh3 g w1 = (x, w2)" for w1 x w2
    by (rule insert_body_stored(1) [OF adds that])
  have less: "stored w1 < stored w2" if "insert_body slot stmt xxh3 g w1 = (Inr x, w2)" for w1 x w2
    by (rule insert_body_stored(2) [OF adds that refl])
  have run: "guarded clear_insert_caches (insert_body slot stmt xxh3 g) w = (r, w')"
    using assms by (cases raw) (simp_all add: slot_def stmt_def gw_insert_def gw_insert_raw_def)
  show "stored w < stored w'" if "r = Inr x" for x by (rule guarded_stored(1) [OF run le less that])
  show "stored w \<le> stored w'" if "sd_saved (gw_db w) \<noteq> None" by (rule guarded_stored(2) [OF run le less that])
qed

section \<open>Checkpoints and committed rows\<close>

text \<open>The number of games that survive the end of the process.\<close>
definition durable_games :: "ingest \<Rightarrow> nat" where
  "durable_games st = length (tb_games (durable (gw_db (ig_writer st))))"

text \<open>The invariant of an ingest that has not failed, over the number of games the database had before.\<close>
definition batch_inv :: "nat \<Rightarrow> ingest \<Rightarrow> bool" where
  "batch_inv n0 st \<longleftrightarrow> writer_inv (ig_writer st) \<and> (ig_sqlite_tx_open st \<longleftrightarrow> sd_saved (gw_db (ig_writer st)) \<noteq> None)
     \<and> ig_committed st - ig_pre_committed st \<le> int (stored (ig_writer st)) - int n0 \<and> durable_games st \<le> stored (ig_writer st)"

text \<open>A checkpoint of this run that does not count more games than there are.\<close>
definition covered :: "('p, 'm) import_env \<Rightarrow> int \<Rightarrow> nat \<Rightarrow> nat \<Rightarrow> import_checkpoint import_result \<Rightarrow> bool" where
  "covered env pre n0 n res \<longleftrightarrow> (\<exists>cp. res = Inr cp \<and> cp_source_path cp = ie_pgn_path env \<and> cp_games_committed cp - pre \<le> int n - int n0)"

lemma covered_mono: "covered env pre n0 n res \<Longrightarrow> n \<le> n' \<Longrightarrow> covered env pre n0 n' res"
  by (auto simp: covered_def)

lemma stored_clear [simp]: "stored (clear_insert_caches w) = stored w"
  by (simp add: stored_def)

lemma begin_transaction_cases:
  assumes "begin_transaction w = (r, w')" and "writer_inv w"
  obtains "r = unexpected Io_Failure" "writer_inv w'" "stored w' = stored w" "durable (gw_db w') = durable (gw_db w)" "sd_saved (gw_db w') = sd_saved (gw_db w)"
  | "r = Inr ()" "writer_inv w'" "stored w' = stored w" "durable (gw_db w') = durable (gw_db w)" "sd_saved (gw_db w') \<noteq> None"
proof -
  have "writer_inv w'" using writer_step_inv [OF ws_begin [OF assms(1)] assms(2)] .
  with assms(1) that show thesis
    by (auto simp: begin_transaction_def sql_begin_def Let_def stored_def durable_def split: if_splits option.splits)
qed

lemma commit_transaction_cases:
  assumes "commit_transaction w = (r, w')" and "writer_inv w"
  obtains "r = unexpected Io_Failure" "writer_inv w'" "stored w' = stored w" "durable (gw_db w') = durable (gw_db w)" "sd_saved (gw_db w') = sd_saved (gw_db w)"
  | "r = Inr ()" "writer_inv w'" "stored w' = stored w" "durable (gw_db w') = sd_tables (gw_db w')" "sd_saved (gw_db w') = None"
proof -
  have "writer_inv w'" using writer_step_inv [OF ws_commit [OF assms(1)] assms(2)] .
  with assms(1) that show thesis
    by (auto simp: commit_transaction_def sql_commit_def Let_def stored_def durable_def split: if_splits option.splits)
qed

definition checkpoint_of :: "('p, 'm) import_env \<Rightarrow> ingest \<Rightarrow> import_checkpoint import_result" where
  "checkpoint_of env st = read_checkpoint (ie_json env) (ie_dir env) (ig_disk st)"

text \<open>No device error while a checkpoint is closed or read.\<close>
definition checkpoint_io :: "('p, 'm) import_env \<Rightarrow> filesystem \<Rightarrow> bool" where
  "checkpoint_io env fs \<longleftrightarrow>
     \<not> fs_fault fs (Close (checkpoint_temp_path (ie_dir env))) \<and> \<not> fs_fault fs (Open_Read (checkpoint_path (ie_dir env)))"

definition run_inv :: "('p, 'm) import_env \<Rightarrow> nat \<Rightarrow> ingest \<Rightarrow> bool" where
  "run_inv env n0 st \<longleftrightarrow> batch_inv n0 st \<and> checkpoint_io env (ig_disk st)"

text \<open>What a step of the third stage may do: rows become durable, and a new checkpoint is one they cover.\<close>
definition advances :: "('p, 'm) import_env \<Rightarrow> nat \<Rightarrow> ingest \<Rightarrow> ingest \<Rightarrow> bool" where
  "advances env n0 st st' \<longleftrightarrow> run_inv env n0 st' \<and> ig_pre_committed st' = ig_pre_committed st \<and> durable_games st \<le> durable_games st'
     \<and> (checkpoint_of env st' = checkpoint_of env st
        \<or> covered env (ig_pre_committed st) n0 (durable_games st') (checkpoint_of env st'))"

lemma advances_trans:
  assumes "advances env n0 a b" and "advances env n0 b c"
  shows "advances env n0 a c"
proof -
  have "covered env (ig_pre_committed a) n0 (durable_games c) (checkpoint_of env c)" if "checkpoint_of env c \<noteq> checkpoint_of env a"
  proof (cases "checkpoint_of env c = checkpoint_of env b")
    case True
    then show ?thesis using that assms covered_mono [of env _ n0 "durable_games b" _ "durable_games c"] by (auto simp: advances_def)
  next
    case False
    then show ?thesis using assms by (auto simp: advances_def)
  qed
  then show ?thesis using assms by (auto simp: advances_def)
qed

lemma commit_batch_advances:
  assumes "run_inv env n0 st" and "commit_sqlite_batch st = (True, st')"
  shows "advances env n0 st st'" and "durable_games st' = stored (ig_writer st')"
    and "ig_committed st' = ig_committed st" and "ig_sqlite_tx_open st' = False"
proof -
  obtain r w where c: "commit_transaction (ig_writer st) = (r, w)" by force
  have w: "writer_inv (ig_writer st)" using assms(1) by (simp add: run_inv_def batch_inv_def)
  have all: "advances env n0 st st' \<and> durable_games st' = stored (ig_writer st') \<and> ig_committed st' = ig_committed st
     \<and> ig_sqlite_tx_open st' = False"
  proof (cases "ig_sqlite_tx_open st")
    case False
    then show ?thesis using assms
      by (auto simp: commit_sqlite_batch_def advances_def run_inv_def batch_inv_def durable_games_def durable_def stored_def)
  next
    case True
    then have r: "r = Inr ()" and st': "st' = st\<lparr>ig_writer := w, ig_sqlite_tx_open := False\<rparr>"
      using assms(2) c by (auto simp: commit_sqlite_batch_def split: sum.splits)
    have "writer_inv w \<and> stored w = stored (ig_writer st) \<and> durable (gw_db w) = sd_tables (gw_db w) \<and> sd_saved (gw_db w) = None"
      by (rule commit_transaction_cases [OF c w]) (simp_all add: r)
    then show ?thesis using assms(1)
      by (auto simp: st'  advances_def run_inv_def batch_inv_def durable_games_def stored_def checkpoint_of_def checkpoint_io_def)
  qed
  then show "advances env n0 st st'" "durable_games st' = stored (ig_writer st')"
    "ig_committed st' = ig_committed st" "ig_sqlite_tx_open st' = False" by blast+
qed

lemma begin_batch_advances:
  assumes "run_inv env n0 st" and "begin_sqlite_batch st = (True, st')"
  shows "advances env n0 st st'"
proof -
  obtain r w where c: "begin_transaction (ig_writer st) = (r, w)" by force
  have w: "writer_inv (ig_writer st)" using assms(1) by (simp add: run_inv_def batch_inv_def)
  show ?thesis
  proof (cases "ig_sqlite_tx_open st")
    case True
    then show ?thesis using assms by (simp add: begin_sqlite_batch_def advances_def)
  next
    case False
    then have r: "r = Inr ()" and st': "st' = st\<lparr>ig_writer := w, ig_sqlite_tx_open := True\<rparr>"
      using assms(2) c by (auto simp: begin_sqlite_batch_def split: sum.splits)
    have "writer_inv w \<and> stored w = stored (ig_writer st) \<and> durable (gw_db w) = durable (gw_db (ig_writer st)) \<and> sd_saved (gw_db w) \<noteq> None"
      by (rule begin_transaction_cases [OF c w]) (simp_all add: r)
    then show ?thesis using assms(1)
      by (auto simp: st'  advances_def run_inv_def batch_inv_def durable_games_def stored_def checkpoint_of_def checkpoint_io_def)
  qed
qed

lemma write_checkpoint_advances:
  assumes "run_inv env n0 st" and "json_faithful (ie_json env)" and "durable_games st = stored (ig_writer st)"
  shows "advances env n0 st (write_progress_checkpoint env st)"
proof -
  let ?cp = "\<lparr>cp_source_path = ie_pgn_path env, cp_byte_offset = ig_checkpoint_offset st,
    cp_games_committed = ig_committed st, cp_last_game_id = ig_last_game_id st\<rparr>"
  obtain res fs where w: "write_checkpoint (ie_json env) (ie_dir env) ?cp (ig_disk st) = (res, fs)" by force
  have "fs_fault fs = fs_fault (ig_disk st)" using write_checkpoint_fault [of "ie_json env" "ie_dir env" ?cp "ig_disk st"] w by simp
  then have io: "checkpoint_io env fs" using assms(1) by (simp add: run_inv_def checkpoint_io_def)
  have "read_checkpoint (ie_json env) (ie_dir env) fs
      = (case res of Inr _ \<Rightarrow> Inr ?cp | Inl _ \<Rightarrow> read_checkpoint (ie_json env) (ie_dir env) (ig_disk st))"
    using write_checkpoint_readback [OF assms(2) _ _ w] assms(1) by (simp add: run_inv_def checkpoint_io_def)
  then show ?thesis using assms(1,3) w io
    by (auto simp: write_progress_checkpoint_def advances_def run_inv_def batch_inv_def durable_games_def checkpoint_of_def
        covered_def split: sum.splits)
qed

text \<open>Variables the invariant does not speak of.\<close>
lemma advances_vars [simp]:
  "advances env n0 st (st'\<lparr>ig_batch_pending := k\<rparr>) = advances env n0 st st'"
  "advances env n0 st (st'\<lparr>ig_stopped := b\<rparr>) = advances env n0 st st'"
  "advances env n0 st (st'\<lparr>ig_eof_reached := b\<rparr>) = advances env n0 st st'"
  "advances env n0 st (st'\<lparr>ig_stop_requested := b\<rparr>) = advances env n0 st st'"
  "advances env n0 st (st'\<lparr>ig_reader := rd\<rparr>) = advances env n0 st st'"
  "advances env n0 st (st'\<lparr>ig_fatal_error := e\<rparr>) = advances env n0 st st'"
  "advances env n0 st (st'\<lparr>ig_games_processed := c\<rparr>) = advances env n0 st st'"
  "advances env n0 st (st'\<lparr>ig_games_skipped := c\<rparr>) = advances env n0 st st'"
  "advances env n0 st (st'\<lparr>ig_games_errored := c\<rparr>) = advances env n0 st st'"
  by (simp_all add: advances_def run_inv_def batch_inv_def durable_games_def checkpoint_of_def)

lemma advances_refl: "run_inv env n0 st \<Longrightarrow> advances env n0 st st"
  by (simp add: advances_def)

lemma advances_inv: "advances env n0 st st' \<Longrightarrow> run_inv env n0 st'"
  by (simp add: advances_def)

lemma finish_batch_advances:
  assumes "run_inv env n0 st" and "json_faithful (ie_json env)" and "finish_batch env st = (out, st')" and "out \<noteq> Failed"
  shows "advances env n0 st st'"
proof -
  obtain ok st1 where c: "commit_sqlite_batch st = (ok, st1)" by force
  then have ok: "ok" using assms(3,4) by (cases ok) (auto simp: finish_batch_def)
  note c = c [unfolded eqTrueI [OF ok]]
  note a1 = commit_batch_advances [OF assms(1) c]
  let ?st2 = "(write_progress_checkpoint env st1)\<lparr>ig_batch_pending := 0\<rparr>"
  have a2: "advances env n0 st ?st2"
    using advances_trans [OF a1(1) write_checkpoint_advances [OF advances_inv [OF a1(1)] assms(2) a1(2)]] by simp
  show ?thesis
  proof (cases "ig_stop_requested ?st2")
    case True
    then have "st' = ?st2\<lparr>ig_stopped := True, ig_eof_reached := True\<rparr>" using assms(3) c by (simp add: finish_batch_def Let_def)
    then show ?thesis using a2 by simp
  next
    case False
    obtain b st3 where b: "begin_sqlite_batch ?st2 = (b, st3)" by force
    then have "b" "st' = st3" using assms(3,4) c False by (cases b; simp add: finish_batch_def Let_def)+
    then show ?thesis using advances_trans [OF a2 begin_batch_advances [OF advances_inv [OF a2], of st3]] b by simp
  qed
qed

lemma insert_advances:
  assumes "run_inv env n0 st" and "(if raw then gw_insert_raw else gw_insert) xxh3 g (ig_writer st) = (r, w)"
  shows "advances env n0 st (st\<lparr>ig_writer := w\<rparr>)"
    and "r = Inr i \<Longrightarrow> advances env n0 st (st\<lparr>ig_writer := w, ig_committed := ig_committed st + 1\<rparr>)"
proof -
  have inv: "writer_inv (ig_writer st)" using assms(1) by (simp add: run_inv_def batch_inv_def)
  have e: "writer_inv w \<and> sd_saved (gw_db w) = sd_saved (gw_db (ig_writer st))
     \<and> (\<forall>e. r = Inl e \<longrightarrow> sd_saved (gw_db (ig_writer st)) = None \<longrightarrow> sd_tables (gw_db w) = sd_tables (gw_db (ig_writer st)))
     \<and> extends (sd_tables (gw_db (ig_writer st))) (sd_tables (gw_db w))"
    by (rule gw_insert_effect [OF inv, of xxh3 g]) (use assms(2) in \<open>auto split: if_splits\<close>)
  note s = insert_stored [OF assms(2)]
  have le: "stored (ig_writer st) \<le> stored w"
  proof (cases "sd_saved (gw_db (ig_writer st))")
    case None
    show ?thesis
    proof (cases r)
      case (Inl e')
      then show ?thesis using e None by (simp add: stored_def)
    next
      case (Inr i)
      then show ?thesis using s(1) by (simp add: less_imp_le)
    qed
  next
    case (Some tb)
    then show ?thesis using s(2) by simp
  qed
  have d: "durable_games st \<le> length (tb_games (durable (gw_db w)))" "length (tb_games (durable (gw_db w))) \<le> stored w"
    using e le assms(1) by (auto simp: durable_games_def durable_def stored_def run_inv_def batch_inv_def split: option.splits)
  show "advances env n0 st (st\<lparr>ig_writer := w\<rparr>)"
    using assms(1) e le d by (simp add: advances_def run_inv_def batch_inv_def durable_games_def checkpoint_of_def)
  show "advances env n0 st (st\<lparr>ig_writer := w, ig_committed := ig_committed st + 1\<rparr>)" if "r = Inr i"
    using assms(1) e s(1) [OF that] d by (simp add: advances_def run_inv_def batch_inv_def durable_games_def checkpoint_of_def)
qed

lemma advances_cong:
  "ig_writer a = ig_writer b \<Longrightarrow> ig_disk a = ig_disk b \<Longrightarrow> ig_sqlite_tx_open a = ig_sqlite_tx_open b
   \<Longrightarrow> ig_committed a = ig_committed b \<Longrightarrow> ig_pre_committed a = ig_pre_committed b \<Longrightarrow> advances env n0 st a = advances env n0 st b"
  by (simp add: advances_def run_inv_def batch_inv_def durable_games_def checkpoint_of_def)

lemma stage2_advances:
  assumes inv: "run_inv env n0 st" and json: "json_faithful (ie_json env)" and run: "stage2 env slot st = (out, st')" and ok: "out \<noteq> Failed"
  shows "advances env n0 st st'"
proof (cases "sl_state slot = Slot_Parse_Error \<or> sl_prepared slot = None")
  case True
  then show ?thesis using run advances_refl [OF inv] by (auto simp: stage2_def Let_def split: if_splits)
next
  case False
  then obtain g where g: "sl_prepared slot = Some g" by blast
  let ?st = "st\<lparr>ig_games_processed := ig_games_processed st + 1\<rparr>"
  obtain r w where r: "(if ig_raw_mode st then gw_insert_raw else gw_insert) (ie_xxh3 env) g (ig_writer st) = (r, w)" by force
  note a = insert_advances [OF inv r]
  show ?thesis
  proof (cases r)
    case (Inl err)
    then have "st' = ?st\<lparr>ig_writer := w, ig_games_skipped := ig_games_skipped st + 1\<rparr>"
      using run ok False g r by (auto simp: stage2_def Let_def split: if_splits)
    moreover have "advances env n0 st (?st\<lparr>ig_writer := w\<rparr>)"
      using a(1) by (rule advances_cong [THEN iffD1, rotated 5]) simp_all
    ultimately show ?thesis by simp
  next
    case (Inr i)
    define st1 where "st1 = ?st\<lparr>ig_writer := w, ig_checkpoint_offset := sl_next_offset slot, ig_last_game_id := uint i,
      ig_committed := ig_committed st + 1, ig_batch_pending := ig_batch_pending st + 1, ig_games_committed := ig_games_committed st + 1\<rparr>"
    have a1: "advances env n0 st st1" using a(2) [OF Inr]
      by (rule advances_cong [THEN iffD1, rotated 5]) (simp_all add: st1_def)
    have "stage2 env slot st = (if ig_batch_pending st1 \<ge> ic_batch_size (ie_config env) then finish_batch env st1 else (Goes_On, st1))"
      using False g r Inr by (simp add: stage2_def Let_def st1_def)
    then show ?thesis using a1 run ok advances_trans [OF a1 finish_batch_advances [OF advances_inv [OF a1] json _ ok]]
      by (auto split: if_splits)
  qed
qed

text \<open>The reading side and a stop request leave all of this alone.\<close>
lemma stage0_same:
  "stage0_check st = (b, st') \<Longrightarrow> ig_writer st' = ig_writer st \<and> ig_disk st' = ig_disk st \<and> ig_sqlite_tx_open st' = ig_sqlite_tx_open st
     \<and> ig_committed st' = ig_committed st \<and> ig_pre_committed st' = ig_pre_committed st"
  "stage0_read st = (s, st') \<Longrightarrow> ig_writer st' = ig_writer st \<and> ig_disk st' = ig_disk st \<and> ig_sqlite_tx_open st' = ig_sqlite_tx_open st
     \<and> ig_committed st' = ig_committed st \<and> ig_pre_committed st' = ig_pre_committed st"
  by (auto simp: stage0_check_def stage0_read_def Let_def split: if_splits prod.splits sum.splits)

lemma join_outcome_Failed [simp]: "join_outcome a b = Failed \<longleftrightarrow> a = Failed \<or> b = Failed"
  by (auto simp: join_outcome_def)

inductive_cases pipe_stepE: "pipe_step env p q"

lemma pipe_step_advances:
  assumes "pipe_step env p q" and "json_faithful (ie_json env)" and "run_inv env n0 (pl_ingest p)" and "pl_outcome q \<noteq> Failed"
  shows "advances env n0 (pl_ingest p) (pl_ingest q)"
proof -
  note refl = advances_refl [OF assms(3)]
  have same: "advances env n0 (pl_ingest p) st" if "ig_writer st = ig_writer (pl_ingest p) \<and> ig_disk st = ig_disk (pl_ingest p)
      \<and> ig_sqlite_tx_open st = ig_sqlite_tx_open (pl_ingest p) \<and> ig_committed st = ig_committed (pl_ingest p)
      \<and> ig_pre_committed st = ig_pre_committed (pl_ingest p)" for st
    using refl by (rule advances_cong [THEN iffD1, rotated 5]) (use that in auto)
  from assms(1) show ?thesis
  proof (cases rule: pipe_step.cases)
    case (pipe_write slot rest out st)
    then show ?thesis using stage2_advances [OF assms(3,2) pipe_write(3)] assms(4) by simp
  qed (use same stage0_same refl in \<open>auto simp: request_stop_def\<close>)
qed

lemma pipe_advances:
  assumes "(pipe_step env)\<^sup>*\<^sup>* p q" and "json_faithful (ie_json env)" and "run_inv env n0 (pl_ingest p)" and "pl_outcome q \<noteq> Failed"
  shows "advances env n0 (pl_ingest p) (pl_ingest q)"
  using assms(1,4)
proof (induction rule: rtranclp_induct)
  case base
  then show ?case by (simp add: advances_refl assms(3))
next
  case (step q r)
  have "pl_outcome q \<noteq> Failed" using step.hyps(2) step.prems by (auto elim!: pipe_stepE)
  then show ?case
    using step.IH advances_trans [OF _ pipe_step_advances [OF step.hyps(2) assms(2) advances_inv step.prems]] by blast
qed

lemma drop_identity_index_same:
  assumes "drop_identity_index w = (r, w')" and "writer_inv w"
  shows "writer_inv w' \<and> stored w' = stored w \<and> sd_saved (gw_db w') = sd_saved (gw_db w)"
proof -
  have "writer_inv w'" using writer_step_inv [OF ws_drop [OF assms(1)] assms(2)] .
  moreover have "stored w' = stored w \<and> sd_saved (gw_db w') = sd_saved (gw_db w)" using assms(1)
    by (auto simp: drop_identity_index_def gw_exec_def gw_run_def drop_identity_index_sql_def stored_def
        split: prod.splits option.splits elim!: sql_run_cases dest!: arg_cong [where f = tb_games and x = "_\<lparr>tb_identity_index := False\<rparr>"])
  ultimately show ?thesis by blast
qed

text \<open>The state in which the pipeline starts.\<close>
lemma start_import_Inr:
  assumes "start_import env off pre last_id st = (Inr u, st0)"
  obtains w st1 where "(if pre = 0 then drop_identity_index (ig_writer st) else (Inr (), ig_writer st)) = (Inr (), w)"
    "begin_sqlite_batch st1 = (True, st0)" "ig_writer st1 = w" "ig_committed st1 = pre" "ig_pre_committed st1 = pre"
    "\<not> ig_sqlite_tx_open st1" "\<not> ig_eof_reached st1" "ig_raw_mode st1 = (pre = 0)"
proof -
  obtain r w where d: "(if pre = 0 then drop_identity_index (ig_writer st) else (Inr (), ig_writer st)) = (r, w)" by force
  obtain m fs where m: "dv_prepare_canonical_mutation (ie_derived env) (ig_disk st) = (m, fs)" by force
  obtain y rd where y: "(if off > 0 then seek_to_offset (ie_parse env) (ie_pgn_file env) off (new_pgn_reader (ie_parse env) (ie_pgn_file env))
     else (Inr (), new_pgn_reader (ie_parse env) (ie_pgn_file env))) = (y, rd)" by force
  define st1 where "st1 = st\<lparr>ig_disk := fs, ig_games_processed := 0, ig_games_committed := 0, ig_games_skipped := 0, ig_games_errored := 0,
     ig_total_games := (case count_games (ie_pgn_file env) off of Inl _ \<Rightarrow> 0 | Inr n \<Rightarrow> n), ig_phase := Phase_Ingesting,
     ig_reader := rd, ig_last_game_id := last_id, ig_committed := pre, ig_pre_committed := pre, ig_batch_pending := 0,
     ig_sqlite_tx_open := False, ig_eof_reached := False, ig_stopped := False, ig_checkpoint_offset := off,
     ig_fatal_error := None, ig_raw_mode := (pre = 0), ig_writer := w\<rparr>"
  have st1: "ig_writer st1 = w" "ig_committed st1 = pre" "ig_pre_committed st1 = pre" "\<not> ig_sqlite_tx_open st1"
    "\<not> ig_eof_reached st1" "ig_raw_mode st1 = (pre = 0)" by (simp_all add: st1_def)
  have cfg: "ic_num_workers (ie_config env) \<noteq> 0" "ic_num_lines (ie_config env) \<noteq> 0"
    using assms m by (auto simp: start_import_def Let_def split: sum.splits if_splits)
  have b: "begin_sqlite_batch st1 = (True, st0)" using assms m y d cfg
    by (cases m; cases y; cases r; cases "begin_sqlite_batch st1"; cases "fst (begin_sqlite_batch st1)")
      (simp_all add: start_import_def st1_def Let_def cong: if_cong)
  have "r = Inr ()" using assms m y d cfg
    by (cases m; cases y; cases r) (simp_all add: start_import_def Let_def cong: if_cong)
  then show thesis using that b st1 d by simp
qed

lemma start_import_inv:
  assumes "start_import env off pre last_id st = (Inr u, st0)" and "writer_inv (ig_writer st)" and "sd_saved (gw_db (ig_writer st)) = None"
    and "checkpoint_io env (ig_disk st0)"
  shows "run_inv env (stored (ig_writer st)) st0 \<and> ig_pre_committed st0 = pre"
proof -
  obtain w st1 where d: "(if pre = 0 then drop_identity_index (ig_writer st) else (Inr (), ig_writer st)) = (Inr (), w)"
    and b: "begin_sqlite_batch st1 = (True, st0)" and st1: "ig_writer st1 = w" "ig_committed st1 = pre" "ig_pre_committed st1 = pre"
      "\<not> ig_sqlite_tx_open st1"
    by (rule start_import_Inr [OF assms(1)])
  have w: "writer_inv w \<and> stored w = stored (ig_writer st) \<and> sd_saved (gw_db w) = None"
    using d drop_identity_index_same [of "ig_writer st" "Inr ()" w] assms(2,3) by (auto split: if_splits)
  obtain x w' where x: "begin_transaction w = (x, w')" by force
  have st0: "x = Inr ()" "st0 = st1\<lparr>ig_writer := w', ig_sqlite_tx_open := True\<rparr>"
    using b st1 x by (auto simp: begin_sqlite_batch_def split: sum.splits)
  have "writer_inv w' \<and> stored w' = stored w \<and> durable (gw_db w') = durable (gw_db w) \<and> sd_saved (gw_db w') \<noteq> None"
    by (rule begin_transaction_cases [OF x]) (use w st0(1) in simp_all)
  then show ?thesis using w assms(4) st0(2) st1
    by (simp add: run_inv_def batch_inv_def durable_games_def durable_def stored_def)
qed


end
