(* ===== verification/Import_Order.thy ===== *)
theory Import_Order
  imports Import_Correct
begin

text \<open>
  The pipeline against the loop it parallelises: whatever the interleaving of its stages, the database, the checkpoint and
  the counters are those of a loop that reads the games of the file one after the other, prepares each and writes it. And
  the pipeline ends: it takes a bounded number of steps and is never stuck.
\<close>

section \<open>The sequential loop\<close>

text \<open>The first \<open>n\<close> slots the reading stage fills, and the state behind them.\<close>
fun read_slots :: "nat \<Rightarrow> ingest \<Rightarrow> pipeline_slot list \<times> ingest" where
  "read_slots 0 st = ([], st)"
| "read_slots (Suc n) st =
     (case read_slots n st of
        (slots, st) \<Rightarrow> (case stage0_read st of (None, st) \<Rightarrow> (slots, st) | (Some slot, st) \<Rightarrow> (slots @ [slot], st)))"

text \<open>The loop over slots, each with whether a stop had been requested when it was written.\<close>
fun write_in_order :: "('p, 'm) import_env \<Rightarrow> (bool \<times> pipeline_slot) list \<Rightarrow> ingest \<Rightarrow> ingest" where
  "write_in_order env [] st = st"
| "write_in_order env ((stop, slot) # rest) st =
     write_in_order env rest (snd (stage2 env (stage1 (ie_lib env) slot) (st\<lparr>ig_stop_requested := stop\<rparr>)))"

text \<open>The state without the reader and the flags the stages share.\<close>
definition written :: "ingest \<Rightarrow> ingest" where
  "written st = st\<lparr>ig_reader := empty_reader, ig_stop_requested := False, ig_eof_reached := False, ig_stopped := False,
     ig_fatal_error := None\<rparr>"

definition with_flags :: "pgn_reader \<Rightarrow> bool \<Rightarrow> bool \<Rightarrow> import_error_code option \<Rightarrow> ingest \<Rightarrow> ingest" where
  "with_flags rd eof stopped fatal st = st\<lparr>ig_reader := rd, ig_eof_reached := eof, ig_stopped := stopped, ig_fatal_error := fatal\<rparr>"

section \<open>The writing stage does not look at the reader or the flags\<close>

lemma with_flags_sel [simp]:
  "ig_writer (with_flags rd eof stp ftl st) = ig_writer st" "ig_disk (with_flags rd eof stp ftl st) = ig_disk st"
  "ig_sqlite_tx_open (with_flags rd eof stp ftl st) = ig_sqlite_tx_open st" "ig_raw_mode (with_flags rd eof stp ftl st) = ig_raw_mode st"
  "ig_stop_requested (with_flags rd eof stp ftl st) = ig_stop_requested st" "ig_committed (with_flags rd eof stp ftl st) = ig_committed st"
  "ig_batch_pending (with_flags rd eof stp ftl st) = ig_batch_pending st" "ig_last_game_id (with_flags rd eof stp ftl st) = ig_last_game_id st"
  "ig_checkpoint_offset (with_flags rd eof stp ftl st) = ig_checkpoint_offset st"
  "ig_games_processed (with_flags rd eof stp ftl st) = ig_games_processed st" "ig_games_skipped (with_flags rd eof stp ftl st) = ig_games_skipped st"
  "ig_games_errored (with_flags rd eof stp ftl st) = ig_games_errored st" "ig_games_committed (with_flags rd eof stp ftl st) = ig_games_committed st"
  by (simp_all add: with_flags_def)

lemma with_flags_upd:
  "(with_flags rd eof stp ftl st)\<lparr>ig_writer := w\<rparr> = with_flags rd eof stp ftl (st\<lparr>ig_writer := w\<rparr>)"
  "(with_flags rd eof stp ftl st)\<lparr>ig_disk := fs\<rparr> = with_flags rd eof stp ftl (st\<lparr>ig_disk := fs\<rparr>)"
  "(with_flags rd eof stp ftl st)\<lparr>ig_sqlite_tx_open := b\<rparr> = with_flags rd eof stp ftl (st\<lparr>ig_sqlite_tx_open := b\<rparr>)"
  "(with_flags rd eof stp ftl st)\<lparr>ig_batch_pending := k\<rparr> = with_flags rd eof stp ftl (st\<lparr>ig_batch_pending := k\<rparr>)"
  "(with_flags rd eof stp ftl st)\<lparr>ig_committed := i\<rparr> = with_flags rd eof stp ftl (st\<lparr>ig_committed := i\<rparr>)"
  "(with_flags rd eof stp ftl st)\<lparr>ig_last_game_id := i\<rparr> = with_flags rd eof stp ftl (st\<lparr>ig_last_game_id := i\<rparr>)"
  "(with_flags rd eof stp ftl st)\<lparr>ig_checkpoint_offset := k\<rparr> = with_flags rd eof stp ftl (st\<lparr>ig_checkpoint_offset := k\<rparr>)"
  "(with_flags rd eof stp ftl st)\<lparr>ig_games_processed := c\<rparr> = with_flags rd eof stp ftl (st\<lparr>ig_games_processed := c\<rparr>)"
  "(with_flags rd eof stp ftl st)\<lparr>ig_games_skipped := c\<rparr> = with_flags rd eof stp ftl (st\<lparr>ig_games_skipped := c\<rparr>)"
  "(with_flags rd eof stp ftl st)\<lparr>ig_games_errored := c\<rparr> = with_flags rd eof stp ftl (st\<lparr>ig_games_errored := c\<rparr>)"
  "(with_flags rd eof stp ftl st)\<lparr>ig_games_committed := c\<rparr> = with_flags rd eof stp ftl (st\<lparr>ig_games_committed := c\<rparr>)"
  by (simp_all add: with_flags_def)

lemma written_with_flags [simp]: "written (with_flags rd eof stp ftl st) = written st"
  by (simp add: written_def with_flags_def)

lemma written_upd [simp]:
  "written (st\<lparr>ig_eof_reached := b\<rparr>) = written st" "written (st\<lparr>ig_stopped := b\<rparr>) = written st"
  "written (st\<lparr>ig_fatal_error := e\<rparr>) = written st" "written (st\<lparr>ig_reader := rd\<rparr>) = written st"
  "written (st\<lparr>ig_stop_requested := b\<rparr>) = written st" "written (request_stop st) = written st" "written (fail_ingest st) = written st"
  by (simp_all add: written_def request_stop_def fail_ingest_def)

lemma batch_with_flags:
  "begin_sqlite_batch (with_flags rd eof stp ftl st) = apsnd (with_flags rd eof stp ftl) (begin_sqlite_batch st)"
  "commit_sqlite_batch (with_flags rd eof stp ftl st) = apsnd (with_flags rd eof stp ftl) (commit_sqlite_batch st)"
  "rollback_sqlite_batch (with_flags rd eof stp ftl st) = with_flags rd eof stp ftl (rollback_sqlite_batch st)"
  "write_progress_checkpoint env (with_flags rd eof stp ftl st) = with_flags rd eof stp ftl (write_progress_checkpoint env st)"
  by (auto simp: begin_sqlite_batch_def commit_sqlite_batch_def rollback_sqlite_batch_def write_progress_checkpoint_def with_flags_upd
      split: prod.splits sum.splits)

text \<open>Equal outcomes, and equal states up to the flags.\<close>
definition same_writing :: "stage_outcome \<times> ingest \<Rightarrow> stage_outcome \<times> ingest \<Rightarrow> bool" where
  "same_writing x y \<longleftrightarrow> fst x = fst y \<and> written (snd x) = written (snd y)"

lemma finish_batch_flags: "same_writing (finish_batch env (with_flags rd eof stp ftl st)) (finish_batch env st)"
  by (auto simp: finish_batch_def batch_with_flags with_flags_upd same_writing_def Let_def split: prod.splits bool.splits)

lemma stage2_flags: "same_writing (stage2 env slot (with_flags rd eof stp ftl st)) (stage2 env slot st)"
  using finish_batch_flags [of env rd eof stp ftl]
  by (auto simp: stage2_def batch_with_flags with_flags_upd Let_def same_writing_def split: prod.splits option.splits sum.splits)

lemma written_eq:
  assumes "written a = written b" and "ig_stop_requested a = ig_stop_requested b"
  shows "a = with_flags (ig_reader a) (ig_eof_reached a) (ig_stopped a) (ig_fatal_error a) b"
  using assms by (cases a, cases b) (simp add: written_def with_flags_def)

lemma stage2_written:
  "written a = written b \<Longrightarrow> ig_stop_requested a = ig_stop_requested b \<Longrightarrow> same_writing (stage2 env slot a) (stage2 env slot b)"
  using stage2_flags [of env slot "ig_reader a" "ig_eof_reached a" "ig_stopped a" "ig_fatal_error a" b] written_eq [of a b] by simp

section \<open>Reading\<close>

lemma read_slots_length: "length (fst (read_slots n st)) \<le> n"
proof (induction n)
  case (Suc n)
  then show ?case by (auto split: prod.splits option.splits)
qed simp

text \<open>All of the first \<open>n\<close> reads gave a slot.\<close>
definition filled :: "nat \<Rightarrow> ingest \<Rightarrow> bool" where
  "filled n st \<longleftrightarrow> length (fst (read_slots n st)) = n"

lemma filled_0 [simp]: "filled 0 st"
  by (simp add: filled_def)

lemma read_slots_Suc:
  assumes "filled n st" and "stage0_read (snd (read_slots n st)) = (Some slot, st')"
  shows "filled (Suc n) st" and "read_slots (Suc n) st = (fst (read_slots n st) @ [slot], st')"
  using assms by (auto simp: filled_def split: prod.splits)

lemma filled_Suc: "filled (Suc n) st \<Longrightarrow> filled n st \<and> (\<exists>slot. fst (read_slots (Suc n) st) = fst (read_slots n st) @ [slot])"
  using read_slots_length [of n st] by (fastforce simp: filled_def split: prod.splits option.splits)

lemma filled_take: "filled m st \<Longrightarrow> n \<le> m \<Longrightarrow> fst (read_slots n st) = take n (fst (read_slots m st))"
proof (induction m)
  case (Suc m)
  from filled_Suc [OF Suc.prems(1)] obtain slot where f: "filled m st" "fst (read_slots (Suc m) st) = fst (read_slots m st) @ [slot]" by blast
  show ?case
  proof (cases "n = Suc m")
    case True
    then show ?thesis using Suc.prems(1) by (simp add: filled_def del: read_slots.simps)
  next
    case False
    then show ?thesis using Suc.IH [OF f(1)] Suc.prems(2) f by (simp add: filled_def del: read_slots.simps)
  qed
qed simp

lemma filled_mono: "filled m st \<Longrightarrow> n \<le> m \<Longrightarrow> filled n st"
  using filled_take [of m st n] by (simp add: filled_def)

text \<open>What is read depends on the reader only.\<close>
lemma stage0_read_reader:
  "ig_reader a = ig_reader b \<Longrightarrow> fst (stage0_read a) = fst (stage0_read b) \<and> ig_reader (snd (stage0_read a)) = ig_reader (snd (stage0_read b))"
  by (auto simp: stage0_read_def Let_def split: prod.splits sum.splits)

lemma stage0_read_rest:
  "stage0_read st = (Some slot, st') \<Longrightarrow> st' = st\<lparr>ig_reader := ig_reader st'\<rparr>"
  "stage0_read st = (None, st') \<Longrightarrow> written st' = written st \<and> ig_stop_requested st' = ig_stop_requested st"
  by (auto simp: stage0_read_def Let_def split: prod.splits sum.splits if_splits)

lemma stage0_check_rest:
  "stage0_check st = (True, st') \<Longrightarrow> st' = st \<and> \<not> ig_stop_requested st \<and> \<not> ig_eof_reached st"
  "stage0_check st = (False, st') \<Longrightarrow> written st' = written st \<and> ig_stop_requested st' = ig_stop_requested st \<and> ig_reader st' = ig_reader st
     \<and> (ig_stop_requested st \<or> ig_eof_reached st)"
  by (auto simp: stage0_check_def split: if_splits)

lemma write_in_order_snoc:
  "write_in_order env (xs @ [(stop, slot)]) st
     = snd (stage2 env (stage1 (ie_lib env) slot) ((write_in_order env xs st)\<lparr>ig_stop_requested := stop\<rparr>))"
  by (induction env xs st rule: write_in_order.induct) simp_all

section \<open>Every interleaving\<close>

text \<open>A slot in flight and the slot as it was read.\<close>
definition in_stage :: "('p, 'm) chesslib \<Rightarrow> bool \<times> pipeline_slot \<Rightarrow> pipeline_slot \<Rightarrow> bool" where
  "in_stage lib f slot \<longleftrightarrow> snd f = (if fst f then stage1 lib slot else slot)"

definition read_end :: "nat \<Rightarrow> ingest \<Rightarrow> bool" where
  "read_end n st \<longleftrightarrow> fst (stage0_read (snd (read_slots n st))) = None"

definition seq_inv :: "('p, 'm) import_env \<Rightarrow> ingest \<Rightarrow> bool list \<Rightarrow> pipeline \<Rightarrow> bool" where
  "seq_inv env st0 stops p \<longleftrightarrow>
     (let n = length stops; m = n + length (pl_in_flight p); st = pl_ingest p in
      filled m st0 \<and> (pl_open p \<longrightarrow> ig_reader st = ig_reader (snd (read_slots m st0)))
      \<and> list_all2 (in_stage (ie_lib env)) (pl_in_flight p) (drop n (fst (read_slots m st0)))
      \<and> written st = written (write_in_order env (zip stops (fst (read_slots n st0))) st0)
      \<and> sorted (stops @ [ig_stop_requested st]) \<and> (pl_reading p \<longrightarrow> pl_open p)
      \<and> (ig_eof_reached st \<or> \<not> pl_open p \<longrightarrow> ig_stop_requested st \<or> pl_outcome p \<noteq> Goes_On \<or> read_end m st0))"

lemma batch_flags [simp]:
  "ig_eof_reached (snd (begin_sqlite_batch st)) = ig_eof_reached st" "ig_eof_reached (snd (commit_sqlite_batch st)) = ig_eof_reached st"
  "ig_eof_reached (write_progress_checkpoint env st) = ig_eof_reached st"
  "ig_reader (snd (begin_sqlite_batch st)) = ig_reader st" "ig_reader (snd (commit_sqlite_batch st)) = ig_reader st"
  "ig_reader (write_progress_checkpoint env st) = ig_reader st" "ig_reader (rollback_sqlite_batch st) = ig_reader st"
  "ig_reader (fail_ingest st) = ig_reader st"
  "ig_stop_requested (snd (begin_sqlite_batch st)) = ig_stop_requested st" "ig_stop_requested (snd (commit_sqlite_batch st)) = ig_stop_requested st"
  "ig_stop_requested (write_progress_checkpoint env st) = ig_stop_requested st"
  "ig_stop_requested (rollback_sqlite_batch st) = ig_stop_requested st" "ig_stop_requested (fail_ingest st) = ig_stop_requested st"
  by (simp_all add: begin_sqlite_batch_def commit_sqlite_batch_def rollback_sqlite_batch_def write_progress_checkpoint_def fail_ingest_def
      split: prod.splits sum.splits)

lemma finish_batch_same:
  assumes "finish_batch env st = (out, st')"
  shows "ig_reader st' = ig_reader st" and "ig_stop_requested st' = ig_stop_requested st"
    and "out = Goes_On \<Longrightarrow> ig_eof_reached st' = ig_eof_reached st"
proof -
  obtain ok st1 where c: "commit_sqlite_batch st = (ok, st1)" by force
  let ?st2 = "(write_progress_checkpoint env st1)\<lparr>ig_batch_pending := 0\<rparr>"
  obtain b st3 where b: "begin_sqlite_batch ?st2 = (b, st3)" by force
  have s: "ig_reader st1 = ig_reader st" "ig_stop_requested st1 = ig_stop_requested st" "ig_eof_reached st1 = ig_eof_reached st"
    "ig_reader st3 = ig_reader st1" "ig_stop_requested st3 = ig_stop_requested st1" "ig_eof_reached st3 = ig_eof_reached st1"
    using batch_flags(1,2,4,5,9,10) [of st] batch_flags(1,4,9) [of ?st2] c b by simp_all
  show "ig_reader st' = ig_reader st" "ig_stop_requested st' = ig_stop_requested st"
    "out = Goes_On \<Longrightarrow> ig_eof_reached st' = ig_eof_reached st"
    using assms s c b by (cases ok; cases b; auto simp: finish_batch_def Let_def split: if_splits)+
qed

lemma stage2_same:
  assumes "stage2 env slot st = (out, st')"
  shows "ig_reader st' = ig_reader st" and "ig_stop_requested st' = ig_stop_requested st"
    and "out = Goes_On \<Longrightarrow> ig_eof_reached st' = ig_eof_reached st"
proof -
  have "ig_reader st' = ig_reader st \<and> ig_stop_requested st' = ig_stop_requested st \<and> (out = Goes_On \<longrightarrow> ig_eof_reached st' = ig_eof_reached st)"
  proof (cases "sl_state slot = Slot_Parse_Error \<or> sl_prepared slot = None")
    case True
    then show ?thesis using assms by (auto simp: stage2_def Let_def split: if_splits)
  next
    case False
    then obtain g where g: "sl_prepared slot = Some g" by blast
    obtain r w where r: "(if ig_raw_mode st then gw_insert_raw else gw_insert) (ie_xxh3 env) g (ig_writer st) = (r, w)" by force
    show ?thesis using assms False g r
      by (cases r) (auto simp: stage2_def Let_def split: if_splits dest: finish_batch_same)
  qed
  then show "ig_reader st' = ig_reader st" "ig_stop_requested st' = ig_stop_requested st"
    "out = Goes_On \<Longrightarrow> ig_eof_reached st' = ig_eof_reached st" by blast+
qed

lemma seq_inv_read:
  assumes "seq_inv env st0 stops p" and "pl_reading p" and "stage0_read (pl_ingest p) = (Some slot, st)"
  shows "seq_inv env st0 stops (p\<lparr>pl_ingest := st, pl_reading := False, pl_in_flight := pl_in_flight p @ [(False, slot)]\<rparr>)"
proof -
  let ?m = "length stops + length (pl_in_flight p)"
  have inv: "filled ?m st0" "ig_reader (pl_ingest p) = ig_reader (snd (read_slots ?m st0))" "pl_open p"
    "list_all2 (in_stage (ie_lib env)) (pl_in_flight p) (drop (length stops) (fst (read_slots ?m st0)))"
    using assms(1,2) by (auto simp: seq_inv_def Let_def)
  obtain st1 where st1: "stage0_read (snd (read_slots ?m st0)) = (Some slot, st1)" "ig_reader st1 = ig_reader st"
    using stage0_read_reader [OF inv(2)] assms(3) by (metis fst_conv prod.collapse snd_conv)
  note m = read_slots_Suc [OF inv(1) st1(1)]
  have st: "st = (pl_ingest p)\<lparr>ig_reader := ig_reader st\<rparr>" by (rule stage0_read_rest(1) [OF assms(3)])
  have "drop (length stops) (fst (read_slots (Suc ?m) st0)) = drop (length stops) (fst (read_slots ?m st0)) @ [slot]"
    using inv(1) m(2) by (simp add: filled_def del: read_slots.simps)
  moreover have "read_end ?m st0 = False" using st1(1) by (simp add: read_end_def)
  moreover have "written st = written (pl_ingest p)" "ig_stop_requested st = ig_stop_requested (pl_ingest p)"
    "ig_eof_reached st = ig_eof_reached (pl_ingest p)" by (subst st, simp)+
  ultimately show ?thesis using assms(1) inv(3,4) m st1(2)
    by (auto simp: seq_inv_def Let_def in_stage_def list_all2_appendI simp del: read_slots.simps)
qed

lemma seq_inv_end:
  assumes "seq_inv env st0 stops p" and "pl_reading p" and "stage0_read (pl_ingest p) = (None, st)"
  shows "seq_inv env st0 stops (p\<lparr>pl_ingest := st, pl_reading := False, pl_open := False\<rparr>)"
proof -
  let ?m = "length stops + length (pl_in_flight p)"
  have "ig_reader (pl_ingest p) = ig_reader (snd (read_slots ?m st0))" using assms(1,2) by (auto simp: seq_inv_def Let_def)
  then have "read_end ?m st0" using stage0_read_reader [of "pl_ingest p" "snd (read_slots ?m st0)"] assms(3) by (simp add: read_end_def)
  then show ?thesis using assms(1) stage0_read_rest(2) [OF assms(3)] by (auto simp: seq_inv_def Let_def)
qed

lemma seq_inv_prepare:
  assumes "seq_inv env st0 stops p" and "i < length (pl_in_flight p)" and "pl_in_flight p ! i = (False, slot)"
  shows "seq_inv env st0 stops (p\<lparr>pl_in_flight := (pl_in_flight p)[i := (True, stage1 (ie_lib env) slot)]\<rparr>)"
proof -
  let ?slots = "drop (length stops) (fst (read_slots (length stops + length (pl_in_flight p)) st0))"
  have l: "list_all2 (in_stage (ie_lib env)) (pl_in_flight p) ?slots" using assms(1) by (simp add: seq_inv_def Let_def)
  then have "?slots ! i = slot" using assms(2,3) by (auto simp: list_all2_conv_all_nth in_stage_def)
  then have "list_all2 (in_stage (ie_lib env)) ((pl_in_flight p)[i := (True, stage1 (ie_lib env) slot)]) ?slots"
    using l assms(2) by (auto simp: list_all2_conv_all_nth in_stage_def nth_list_update)
  then show ?thesis using assms(1) by (simp add: seq_inv_def Let_def)
qed

lemma seq_inv_write:
  assumes "seq_inv env st0 stops p" and "pl_in_flight p = (True, slot) # rest" and "stage2 env slot (pl_ingest p) = (out, st)"
  shows "seq_inv env st0 (stops @ [ig_stop_requested (pl_ingest p)])
    (p\<lparr>pl_ingest := st, pl_in_flight := rest, pl_outcome := join_outcome (pl_outcome p) out\<rparr>)"
proof -
  let ?n = "length stops"
  let ?m = "?n + length (pl_in_flight p)"
  let ?stop = "ig_stop_requested (pl_ingest p)"
  let ?w = "write_in_order env (zip stops (fst (read_slots ?n st0))) st0"
  have inv: "filled ?m st0" "list_all2 (in_stage (ie_lib env)) (pl_in_flight p) (drop ?n (fst (read_slots ?m st0)))"
    "written (pl_ingest p) = written ?w" "sorted (stops @ [?stop])"
    using assms(1) by (auto simp: seq_inv_def Let_def)
  have f: "filled (Suc ?n) st0" using filled_mono [OF inv(1)] assms(2) by simp
  from filled_Suc [OF f] obtain slot0 where s: "fst (read_slots (Suc ?n) st0) = fst (read_slots ?n st0) @ [slot0]" "filled ?n st0" by blast
  have "drop ?n (fst (read_slots ?m st0)) = slot0 # drop (Suc ?n) (fst (read_slots ?m st0))"
  proof -
    have "take (Suc ?n) (fst (read_slots ?m st0)) = fst (read_slots ?n st0) @ [slot0]"
      using filled_take [OF inv(1), of "Suc ?n"] s assms(2) by simp
    then have "fst (read_slots ?m st0) ! ?n = slot0"
      using nth_take [of ?n "Suc ?n" "fst (read_slots ?m st0)"] s(2) by (simp add: filled_def nth_append)
    moreover have "?n < length (fst (read_slots ?m st0))" using inv(1) assms(2) by (simp add: filled_def)
    ultimately show ?thesis using Cons_nth_drop_Suc [of ?n "fst (read_slots ?m st0)"] by simp
  qed
  then have slot: "slot = stage1 (ie_lib env) slot0" "list_all2 (in_stage (ie_lib env)) rest (drop (Suc ?n) (fst (read_slots ?m st0)))"
    using inv(2) assms(2) by (simp_all add: in_stage_def)
  have "same_writing (stage2 env slot (pl_ingest p)) (stage2 env slot (?w\<lparr>ig_stop_requested := ?stop\<rparr>))"
    by (rule stage2_written) (simp_all add: inv(3))
  moreover have "zip (stops @ [?stop]) (fst (read_slots (Suc ?n) st0)) = zip stops (fst (read_slots ?n st0)) @ [(?stop, slot0)]"
    using s by (simp add: filled_def del: read_slots.simps)
  ultimately have "written st = written (write_in_order env (zip (stops @ [?stop]) (fst (read_slots (Suc ?n) st0))) st0)"
    using assms(3) slot(1) by (simp add: same_writing_def write_in_order_snoc del: read_slots.simps)
  moreover have "sorted (stops @ [?stop, ?stop])" using inv(4) by (auto simp: sorted_append)
  moreover have "join_outcome (pl_outcome p) out = Goes_On \<Longrightarrow> pl_outcome p = Goes_On \<and> out = Goes_On"
    by (auto simp: join_outcome_def split: if_splits)
  ultimately show ?thesis using assms(1,2) slot(2) stage2_same [OF assms(3)]
    by (auto simp: seq_inv_def Let_def simp del: read_slots.simps)
qed

lemma seq_inv_step:
  assumes "pipe_step env p q" and "seq_inv env st0 stops p"
  shows "\<exists>stops. seq_inv env st0 stops q"
  using assms(1)
proof (cases rule: pipe_step.cases)
  case (pipe_enter st)
  then show ?thesis using assms(2) stage0_check_rest(1) [OF pipe_enter(5)] by (auto simp: seq_inv_def Let_def intro!: exI [of _ stops])
next
  case (pipe_close st)
  then show ?thesis using assms(2) stage0_check_rest(2) [OF pipe_close(5)] by (auto simp: seq_inv_def Let_def intro!: exI [of _ stops])
next
  case (pipe_request_stop)
  then show ?thesis using assms(2) by (auto simp: seq_inv_def Let_def request_stop_def sorted_append intro!: exI [of _ stops])
next
  case (pipe_read slot st)
  then show ?thesis using seq_inv_read [OF assms(2) pipe_read(2,3)] by blast
next
  case (pipe_end st)
  then show ?thesis using seq_inv_end [OF assms(2) pipe_end(2,3)] by blast
next
  case (pipe_prepare i slot)
  then show ?thesis using seq_inv_prepare [OF assms(2) pipe_prepare(2,3)] by blast
next
  case (pipe_write slot rest out st)
  then show ?thesis using seq_inv_write [OF assms(2) pipe_write(2,3)] by blast
qed

lemma start_import_eof: "start_import env off pre last_id st = (Inr u, st0) \<Longrightarrow> \<not> ig_eof_reached st0"
proof (erule start_import_Inr)
  fix st1 assume "begin_sqlite_batch st1 = (True, st0)" "\<not> ig_eof_reached st1"
  then show "\<not> ig_eof_reached st0" using batch_flags(1) [of st1] by simp
qed

lemma seq_inv_new: "\<not> ig_eof_reached st0 \<Longrightarrow> seq_inv env st0 [] (new_pipeline st0)"
  by (simp add: seq_inv_def new_pipeline_def)

lemma seq_inv_reachable:
  "(pipe_step env)\<^sup>*\<^sup>* (new_pipeline st0) p \<Longrightarrow> \<not> ig_eof_reached st0 \<Longrightarrow> \<exists>stops. seq_inv env st0 stops p"
proof (induction rule: rtranclp_induct)
  case base
  then show ?case using seq_inv_new by blast
next
  case (step p q)
  then show ?case using seq_inv_step by blast
qed

text \<open>
  C9: The pipeline refines the sequential loop: however its stages interleave, when it has finished without a failed write
  the database, the checkpoint and the counters are those of reading the games one after the other, preparing each and
  writing it, in the order of the file. All games of the file were read unless a stop was requested, and the slots written
  after the request are a tail.\<close>
theorem pipeline_is_sequential:
  assumes "start_import env start_offset pre_committed pre_last_game_id st = (Inr u, st0)"
    and "(pipe_step env)\<^sup>*\<^sup>* (new_pipeline st0) p" and "pipe_finished p" and "pl_outcome p = Goes_On"
  shows "\<exists>stops slots. slots = fst (read_slots (length stops) st0) \<and> length slots = length stops
    \<and> written (pl_ingest p) = written (write_in_order env (zip stops slots) st0)
    \<and> sorted (stops @ [ig_stop_requested (pl_ingest p)])
    \<and> (ig_stop_requested (pl_ingest p) \<or> fst (stage0_read (snd (read_slots (length stops) st0))) = None)"
proof -
  obtain stops where "seq_inv env st0 stops p" using seq_inv_reachable [OF assms(2) start_import_eof [OF assms(1)]] by blast
  moreover have "pl_in_flight p = []" "\<not> pl_open p" using assms(3,4) by (auto simp: pipe_finished_def)
  ultimately show ?thesis using assms(4)
    by (intro exI [of _ stops] exI [of _ "fst (read_slots (length stops) st0)"]) (auto simp: seq_inv_def Let_def filled_def read_end_def)
qed

section \<open>The pipeline ends\<close>

text \<open>The items the reader has left.\<close>
definition items_left :: "ingest \<Rightarrow> nat" where
  "items_left st = (case rd_stream (ig_reader st) of None \<Rightarrow> 0 | Some items \<Rightarrow> length items)"

text \<open>How many steps are left at most: four for every game not read, two or one for one in flight.\<close>
definition work_left :: "pipeline \<Rightarrow> nat" where
  "work_left p = 4 * items_left (pl_ingest p) + sum_list (map (\<lambda>(prepared, _). if prepared then 1 else 2) (pl_in_flight p))
     + (if pl_reading p then 1 else if pl_open p then 2 else 0)"

text \<open>A step of one of the stages, with any number of stop requests before it.\<close>
definition stage_step :: "('p, 'm) import_env \<Rightarrow> pipeline \<Rightarrow> pipeline \<Rightarrow> bool" where
  "stage_step env p q \<longleftrightarrow> pipe_step env p q \<and> q \<noteq> p\<lparr>pl_ingest := request_stop (pl_ingest p)\<rparr>"

inductive stage_steps :: "('p, 'm) import_env \<Rightarrow> nat \<Rightarrow> pipeline \<Rightarrow> pipeline \<Rightarrow> bool" for env where
  no_steps: "stage_steps env 0 p p"
| stop_then: "stage_steps env n p q \<Longrightarrow> stage_steps env n p (q\<lparr>pl_ingest := request_stop (pl_ingest q)\<rparr>)"
| stage_then: "stage_steps env n p q \<Longrightarrow> stage_step env q r \<Longrightarrow> stage_steps env (Suc n) p r"

lemma sum_list_map_update:
  fixes f :: "'a \<Rightarrow> nat"
  shows "i < length xs \<Longrightarrow> f y < f (xs ! i) \<Longrightarrow> sum_list (map f (xs[i := y])) < sum_list (map f xs)"
  by (induction xs arbitrary: i) (auto split: nat.splits)

lemma stage0_read_items:
  "stage0_read st = (Some slot, st') \<Longrightarrow> items_left st = Suc (items_left st')"
  "stage0_read st = (None, st') \<Longrightarrow> items_left st' \<le> items_left st"
  by (auto simp: stage0_read_def next_game_def items_left_def Let_def
      split: prod.splits sum.splits if_splits option.splits list.splits pgn_parse_error.splits)

lemma stage2_items: "stage2 env slot st = (out, st') \<Longrightarrow> items_left st' = items_left st"
  using stage2_same(1) [of env slot st out st'] by (simp add: items_left_def)

lemma stage0_check_items: "stage0_check st = (b, st') \<Longrightarrow> items_left st' = items_left st"
  by (auto simp: stage0_check_def items_left_def split: if_splits)

lemma stage_step_work:
  assumes "stage_step env p q" and "pl_reading p \<longrightarrow> pl_open p"
  shows "work_left q < work_left p \<and> (pl_reading q \<longrightarrow> pl_open q)"
proof -
  have "pipe_step env p q" "q \<noteq> p\<lparr>pl_ingest := request_stop (pl_ingest p)\<rparr>" using assms(1) by (simp_all add: stage_step_def)
  from this(1) show ?thesis
  proof (cases rule: pipe_step.cases)
    case (pipe_enter st)
    then show ?thesis using stage0_check_items [OF pipe_enter(5)] by (simp add: work_left_def)
  next
    case (pipe_close st)
    then show ?thesis using stage0_check_items [OF pipe_close(5)] by (simp add: work_left_def)
  next
    case (pipe_read slot st)
    then show ?thesis using stage0_read_items(1) [OF pipe_read(3)] assms(2) by (simp add: work_left_def)
  next
    case (pipe_end st)
    then show ?thesis using stage0_read_items(2) [OF pipe_end(3)] by (simp add: work_left_def)
  next
    case (pipe_prepare i slot)
    let ?f = "\<lambda>(prepared, _ :: pipeline_slot). if prepared then 1 else 2 :: nat"
    have "sum_list (map ?f ((pl_in_flight p)[i := (True, stage1 (ie_lib env) slot)])) < sum_list (map ?f (pl_in_flight p))"
      by (rule sum_list_map_update) (use pipe_prepare in simp_all)
    then show ?thesis using pipe_prepare assms(2) by (simp add: work_left_def)
  next
    case (pipe_write slot rest out st)
    then show ?thesis using stage2_items [OF pipe_write(3)] assms(2) by (simp add: work_left_def)
  next
    case pipe_request_stop
    then show ?thesis using \<open>q \<noteq> p\<lparr>pl_ingest := request_stop (pl_ingest p)\<rparr>\<close> by simp
  qed
qed

lemma stage_stepI:
  "pipe_step env p q \<Longrightarrow> pl_in_flight q \<noteq> pl_in_flight p \<or> pl_reading q \<noteq> pl_reading p \<or> pl_open q \<noteq> pl_open p \<Longrightarrow> stage_step env p q"
  by (auto simp: stage_step_def)

lemma stage_step_exists:
  assumes "0 < ic_num_lines (ie_config env)" and "pl_open p \<or> pl_reading p \<or> pl_in_flight p \<noteq> []"
  shows "\<exists>q. stage_step env p q"
proof (cases "pl_in_flight p")
  case (Cons f rest)
  obtain prepared slot where f: "f = (prepared, slot)" by force
  show ?thesis
  proof (cases prepared)
    case True
    obtain out st where "stage2 env slot (pl_ingest p) = (out, st)" by force
    then have "pipe_step env p (p\<lparr>pl_ingest := st, pl_in_flight := rest, pl_outcome := join_outcome (pl_outcome p) out\<rparr>)"
      using Cons f True by (intro pipe_write) simp_all
    from stage_stepI [OF this] show ?thesis by (intro exI) (simp add: Cons)
  next
    case False
    have "pipe_step env p (p\<lparr>pl_in_flight := (pl_in_flight p)[0 := (True, stage1 (ie_lib env) slot)]\<rparr>)"
      using Cons f False by (intro pipe_prepare) simp_all
    from stage_stepI [OF this] show ?thesis by (intro exI) (simp add: Cons f False)
  qed
next
  case Nil
  show ?thesis
  proof (cases "pl_reading p")
    case True
    obtain s st where s: "stage0_read (pl_ingest p) = (s, st)" by force
    show ?thesis
    proof (cases s)
      case None
      then show ?thesis using stage_stepI [OF pipe_end [OF True]] s True by fastforce
    next
      case (Some slot)
      then show ?thesis using stage_stepI [OF pipe_read [OF True]] s True by fastforce
    qed
  next
    case False
    then have o: "pl_open p" "length (pl_in_flight p) < ic_num_lines (ie_config env)" using assms Nil by auto
    obtain b st where b: "stage0_check (pl_ingest p) = (b, st)" by force
    show ?thesis
    proof (cases b)
      case True
      then show ?thesis using stage_stepI [OF pipe_enter [OF o(1) False o(2)]] b False by fastforce
    next
      case b': False
      then show ?thesis using stage_stepI [OF pipe_close [OF o(1) False o(2)]] b o(1) by fastforce
    qed
  qed
qed

text \<open>
  C15: The pipeline ends: with at least one line it is never stuck before its reader is closed and its lines are empty, and
  no run of it, whatever stop requests come, has more than four steps for every game of the file and two more.\<close>
theorem pipeline_ends:
  assumes "0 < ic_num_lines (ie_config env)" and "stage_steps env n (new_pipeline st0) p"
  shows "n \<le> 4 * items_left st0 + 2
    \<and> ((\<exists>q. stage_step env p q) \<or> (\<not> pl_open p \<and> \<not> pl_reading p \<and> pl_in_flight p = []))"
proof
  have "n + work_left p \<le> work_left (new_pipeline st0) \<and> (pl_reading p \<longrightarrow> pl_open p)"
    using assms(2)
  proof (induction n "new_pipeline st0" p)
    case no_steps
    then show ?case by (simp add: new_pipeline_def)
  next
    case (stop_then n q)
    have "work_left (q\<lparr>pl_ingest := request_stop (pl_ingest q)\<rparr>) = work_left q"
      by (simp add: work_left_def items_left_def request_stop_def)
    then show ?case using stop_then by simp
  next
    case (stage_then n q r)
    then show ?case using stage_step_work [of env q r] by auto
  qed
  then show "n \<le> 4 * items_left st0 + 2" by (simp add: work_left_def new_pipeline_def)
  show "(\<exists>q. stage_step env p q) \<or> (\<not> pl_open p \<and> \<not> pl_reading p \<and> pl_in_flight p = [])"
    using stage_step_exists [OF assms(1)] by blast
qed

end
