(* ===== verification/Import_Runs.thy ===== *)
theory Import_Runs
  imports Import_Order
begin

text \<open>
  Runs of the bulk import: a schedule that picks the steps of the pipeline, the two runs in which a failed write is not
  contained, and the witnesses of the theorems about the pipeline.
\<close>

section \<open>Schedules\<close>

datatype pipe_action = Do_Enter | Do_Read | Do_Prepare nat | Do_Write | Do_Stop

fun pipe_do :: "('p, 'm) import_env \<Rightarrow> pipe_action \<Rightarrow> pipeline \<Rightarrow> pipeline option" where
  "pipe_do env Do_Enter p =
     (if pl_open p \<and> \<not> pl_reading p \<and> length (pl_in_flight p) < ic_num_lines (ie_config env)
      then (case stage0_check (pl_ingest p) of
              (True, st) \<Rightarrow> Some (p\<lparr>pl_ingest := st, pl_reading := True\<rparr>)
            | (False, st) \<Rightarrow> Some (p\<lparr>pl_ingest := st, pl_open := False\<rparr>))
      else None)"
| "pipe_do env Do_Read p =
     (if pl_reading p
      then (case stage0_read (pl_ingest p) of
              (Some slot, st) \<Rightarrow> Some (p\<lparr>pl_ingest := st, pl_reading := False, pl_in_flight := pl_in_flight p @ [(False, slot)]\<rparr>)
            | (None, st) \<Rightarrow> Some (p\<lparr>pl_ingest := st, pl_reading := False, pl_open := False\<rparr>))
      else None)"
| "pipe_do env (Do_Prepare i) p =
     (if i < length (pl_in_flight p)
      then (case pl_in_flight p ! i of
              (False, slot) \<Rightarrow> Some (p\<lparr>pl_in_flight := (pl_in_flight p)[i := (True, stage1 (ie_lib env) slot)]\<rparr>)
            | _ \<Rightarrow> None)
      else None)"
| "pipe_do env Do_Write p =
     (case pl_in_flight p of
        (True, slot) # rest \<Rightarrow>
          (case stage2 env slot (pl_ingest p) of
             (outcome, st) \<Rightarrow> Some (p\<lparr>pl_ingest := st, pl_in_flight := rest, pl_outcome := join_outcome (pl_outcome p) outcome\<rparr>))
      | _ \<Rightarrow> None)"
| "pipe_do env Do_Stop p = Some (p\<lparr>pl_ingest := request_stop (pl_ingest p)\<rparr>)"

fun pipe_run :: "('p, 'm) import_env \<Rightarrow> pipe_action list \<Rightarrow> pipeline \<Rightarrow> pipeline option" where
  "pipe_run env [] p = Some p"
| "pipe_run env (a # as) p = (case pipe_do env a p of None \<Rightarrow> None | Some q \<Rightarrow> pipe_run env as q)"

lemma pipe_do_step: "pipe_do env a p = Some q \<Longrightarrow> pipe_step env p q"
  by (cases a) (auto split: if_splits prod.splits bool.splits option.splits list.splits intro: pipe_step.intros)

lemma pipe_run_steps: "pipe_run env as p = Some q \<Longrightarrow> (pipe_step env)\<^sup>*\<^sup>* p q"
proof (induction as arbitrary: p)
  case (Cons a as)
  then obtain r where "pipe_do env a p = Some r" "pipe_run env as r = Some q" by (auto split: option.splits)
  then show ?case using Cons.IH [of r] pipe_do_step [of env a p r] by (meson converse_rtranclp_into_rtranclp)
qed simp

section \<open>An import to run\<close>

text \<open>A JSON codec for small numbers.\<close>
definition small_json :: json_codec where
  "small_json = \<lparr>js_write = (\<lambda>cp. if cp_source_path cp = ''g.pgn'' \<and> cp_byte_offset cp < 256 \<and> 0 \<le> cp_games_committed cp
         \<and> cp_games_committed cp < 256 \<and> 0 \<le> cp_last_game_id cp \<and> cp_last_game_id cp < 256
       then Some [of_nat (cp_byte_offset cp), of_int (cp_games_committed cp), of_int (cp_last_game_id cp)] else None),
     js_read = (\<lambda>bs. case bs of
         [a, b, c] \<Rightarrow> Some \<lparr>cp_source_path = ''g.pgn'', cp_byte_offset = unat a, cp_games_committed = uint b, cp_last_game_id = uint c\<rparr>
       | _ \<Rightarrow> None)\<rparr>"

lemma small_json_faithful: "json_faithful small_json"
  unfolding json_faithful_def
proof (intro allI impI)
  fix cp bs assume "js_write small_json cp = Some bs"
  then have "bs = [of_nat (cp_byte_offset cp), of_int (cp_games_committed cp), of_int (cp_last_game_id cp)]" "cp_source_path cp = ''g.pgn''"
    "cp_byte_offset cp < 256" "0 \<le> cp_games_committed cp" "cp_games_committed cp < 256" "0 \<le> cp_last_game_id cp" "cp_last_game_id cp < 256"
    by (auto simp: small_json_def split: if_splits)
  then show "js_read small_json bs = Some cp" by (cases cp) (simp add: small_json_def unat_of_nat_less uint_word_of_int take_bit_int_eq_self)
qed

definition demo_item :: "string \<Rightarrow> nat \<Rightarrow> stream_item" where
  "demo_item move off = (off, Inr \<lparr>rw_tags = [(''White'', ''Ann''), (''Black'', ''Bob'')], rw_result = Pgn_White, rw_moves = [move]\<rparr>)"

text \<open>A file with the given games, imported in batches of two.\<close>
definition demo_env :: "string list \<Rightarrow> (nat list, nat) import_env" where
  "demo_env moves = \<lparr>ie_lib = demo_lib, ie_parse = (\<lambda>_. map2 demo_item moves [0..<length moves]), ie_json = small_json, ie_xxh3 = (\<lambda>_. 0),
     ie_normal_path = (\<lambda>s. s),
     ie_derived = \<lparr>dv_prepare_canonical_mutation = (\<lambda>fs. (Inr (), fs)), dv_rebuild_position_postings = (\<lambda>_ fs. (Inr (), fs)),
       dv_rebuild_opening_tree_index = (\<lambda>_ fs. (Inr (), fs))\<rparr>,
     ie_dir = ''db'', ie_pgn_path = ''g.pgn'',
     ie_pgn_file = \<lparr>pf_text = Some (event_tag_prefix @ ''x''), pf_size = Some 9, pf_bad = False\<rparr>,
     ie_config = \<lparr>ic_num_workers = 2, ic_num_lines = 4, ic_build_position_postings = True, ic_build_opening_tree_index = False, ic_batch_size = 2\<rparr>\<rparr>"

text \<open>Before the run: an empty database on which the given statements fail.\<close>
definition demo_ingest :: "(nat \<Rightarrow> bool) \<Rightarrow> ingest" where
  "demo_ingest fault = \<lparr>ig_writer = new_game_writer \<lparr>sd_tables = empty_tables, sd_saved = None, sd_fault = fault, sd_clock = 0\<rparr>,
     ig_disk = demo_fs (\<lambda>_. False), ig_reader = empty_reader, ig_games_processed = 0, ig_games_committed = 0, ig_games_skipped = 0,
     ig_games_errored = 0, ig_total_games = 0, ig_stop_requested = False, ig_phase = Phase_Idle, ig_raw_mode = False, ig_pre_committed = 0,
     ig_last_game_id = 0, ig_committed = 0, ig_batch_pending = 0, ig_sqlite_tx_open = False, ig_eof_reached = False, ig_stopped = False,
     ig_checkpoint_offset = 0, ig_fatal_error = None\<rparr>"

text \<open>The state in which the pipeline starts.\<close>
definition demo_start :: "string list \<Rightarrow> (nat \<Rightarrow> bool) \<Rightarrow> ingest" where
  "demo_start moves fault = (demo_ingest fault)
     \<lparr>ig_writer := new_game_writer \<lparr>sd_tables = empty_tables\<lparr>tb_identity_index := False\<rparr>,
        sd_saved = Some (empty_tables\<lparr>tb_identity_index := False\<rparr>), sd_fault = fault, sd_clock = 2\<rparr>,
      ig_reader := \<lparr>rd_base_offset = 0, rd_eof_offset = 9, rd_stream = Some (map2 demo_item moves [0..<length moves]),
        rd_game_number = 0, rd_pending_io_failure = False\<rparr>,
      ig_total_games := 1, ig_phase := Phase_Ingesting, ig_raw_mode := True, ig_sqlite_tx_open := True\<rparr>"

lemma demo_count: "count_games (ie_pgn_file (demo_env moves)) 0 = Inr 1"
  using count_chunks_count [of 1048576 "[]" "event_tag_prefix @ ''x''" 0]
  by (simp add: count_games_def demo_env_def marker_at_def event_tag_prefix_def event_marker_def)

lemma demo_reader: "new_pgn_reader (ie_parse (demo_env moves)) (ie_pgn_file (demo_env moves)) = ig_reader (demo_start moves fault)"
  by (simp add: new_pgn_reader_def reset_to_offset_def demo_env_def demo_start_def empty_reader_def event_tag_prefix_def
      is_event_tag_line_def Let_def find_event_line.simps)

lemma demo_started:
  assumes "\<not> fault 0" and "\<not> fault 1"
  shows "start_import (demo_env moves) 0 0 0 (demo_ingest fault) = (Inr (), demo_start moves fault)"
proof -
  have e: "dv_prepare_canonical_mutation (ie_derived (demo_env moves)) = (\<lambda>fs. (Inr (), fs))" "ic_num_workers (ie_config (demo_env moves)) = 2"
    "ic_num_lines (ie_config (demo_env moves)) = 4" by (simp_all add: demo_env_def)
  show ?thesis
    using assms by (simp add: start_import_def e demo_count demo_reader [of moves fault] Let_def drop_identity_index_def gw_exec_def gw_run_def
        sql_run_def drop_identity_index_sql_def begin_sqlite_batch_def begin_transaction_def sql_begin_def)
      (simp add: demo_start_def demo_ingest_def new_game_writer_def)
qed

text \<open>The length of the move list compared as an integer.\<close>
lemma prepare_game_int [code]:
  "prepare_game lib pgn =
     (if pg_moves pgn = [] then Inl Import_Empty_Game
      else let game_row = (extract_game pgn)\<lparr>dg_extra_tags := []\<rparr> in
        if int (length (pg_moves pgn)) > 65535 then Inl Import_Parse_Error
        else case encode_san_moves lib (new_board lib) (pg_moves pgn) of
            None \<Rightarrow> Inl Import_Parse_Error
          | Some encoded_moves \<Rightarrow> Inr (game_row\<lparr>dg_moves := encoded_moves\<rparr>))"
  by (simp add: prepare_game_def Let_def)

section \<open>A failed write that is not reported\<close>

definition set_fatal :: "import_error_code option \<Rightarrow> ingest \<Rightarrow> ingest" where
  "set_fatal e st = st\<lparr>ig_fatal_error := e\<rparr>"

lemma set_fatal_sel [simp]:
  "ig_writer (set_fatal e st) = ig_writer st" "ig_disk (set_fatal e st) = ig_disk st" "ig_sqlite_tx_open (set_fatal e st) = ig_sqlite_tx_open st"
  "ig_raw_mode (set_fatal e st) = ig_raw_mode st" "ig_stop_requested (set_fatal e st) = ig_stop_requested st" "ig_stopped (set_fatal e st) = ig_stopped st"
  "ig_fatal_error (set_fatal e st) = e" "summary_of (set_fatal e st) = summary_of st"
  by (simp_all add: set_fatal_def summary_of_def fun_eq_iff)

lemma set_fatal_comm:
  "commit_sqlite_batch (set_fatal e st) = apsnd (set_fatal e) (commit_sqlite_batch st)"
  "rollback_sqlite_batch (set_fatal e st) = set_fatal e (rollback_sqlite_batch st)"
  "write_progress_checkpoint env (set_fatal e st) = set_fatal e (write_progress_checkpoint env st)"
  "finish_dedup (set_fatal e st) = apsnd (set_fatal e) (finish_dedup st)"
  "rebuild_index wanted rebuild (set_fatal e st) = apsnd (set_fatal e) (rebuild_index wanted rebuild st)"
  by (auto simp: set_fatal_def commit_sqlite_batch_def rollback_sqlite_batch_def write_progress_checkpoint_def finish_dedup_def
      rebuild_index_def Let_def split: prod.splits sum.splits)

text \<open>An end of file among the recorded errors is no error.\<close>
lemma finish_import_eof: "fst (finish_import env (set_fatal (Some Import_Eof) st)) = fst (finish_import env (set_fatal None st))"
proof -
  obtain ok st1 where c: "commit_sqlite_batch st = (ok, st1)" by force
  obtain r st2 where d: "finish_dedup st1 = (r, st2)" by force
  define rebuild where "rebuild = rebuild_index (ic_build_position_postings (ie_config env) \<and> ie_dir env \<noteq> [])
    (dv_rebuild_position_postings (ie_derived env))"
  define rebuild_tree where "rebuild_tree = rebuild_index (ic_build_opening_tree_index (ie_config env)) (dv_rebuild_opening_tree_index (ie_derived env))"
  have comm: "rebuild (set_fatal e st) = apsnd (set_fatal e) (rebuild st)" "rebuild_tree (set_fatal e st) = apsnd (set_fatal e) (rebuild_tree st)"
    for e st by (simp_all add: rebuild_def rebuild_tree_def set_fatal_comm)
  obtain b st3 where b: "rebuild st2 = (b, st3)" by force
  obtain t st4 where t: "rebuild_tree st3 = (t, st4)" by force
  show ?thesis using c d b t
    by (cases ok; cases r; cases b; cases t)
      (simp_all add: finish_import_def set_fatal_comm comm rebuild_def [symmetric] rebuild_tree_def [symmetric] Let_def)
qed

text \<open>
  C17: A failed write can be lost: when the reading stage has looked at the flags before the write of the last game fails and
  finds the end of the file after it, it replaces the recorded failure, and the run ends with the result of a run in which
  nothing failed.\<close>
theorem lost_write_error:
  assumes "pl_reading p" and "pl_in_flight p = [(True, slot)]" and "stage2 env slot (pl_ingest p) = (Failed, st)"
    and "next_game (ig_reader (pl_ingest p)) = (Inl Import_Eof, rd)"
    and "q = p\<lparr>pl_in_flight := [], pl_outcome := Failed,
               pl_ingest := st\<lparr>ig_reader := rd, ig_fatal_error := Some Import_Eof, ig_eof_reached := True\<rparr>,
               pl_reading := False, pl_open := False\<rparr>"
  shows "(pipe_step env)\<^sup>*\<^sup>* p q \<and> pipe_finished q
     \<and> fst (finish_import env (pl_ingest q)) = fst (finish_import env ((pl_ingest q)\<lparr>ig_fatal_error := None\<rparr>))"
proof -
  let ?p = "p\<lparr>pl_ingest := st, pl_in_flight := [], pl_outcome := join_outcome (pl_outcome p) Failed\<rparr>"
  have "pipe_step env p ?p" using assms(2,3) by (rule pipe_write)
  moreover have "stage0_read st = (None, st\<lparr>ig_reader := rd, ig_fatal_error := Some Import_Eof, ig_eof_reached := True\<rparr>)"
    using assms(4) stage2_same(1) [OF assms(3)] by (simp add: stage0_read_def Let_def)
  then have "pipe_step env ?p (?p\<lparr>pl_ingest := st\<lparr>ig_reader := rd, ig_fatal_error := Some Import_Eof, ig_eof_reached := True\<rparr>,
      pl_reading := False, pl_open := False\<rparr>)"
    using assms(1) by (intro pipe_end) simp_all
  moreover have "join_outcome (pl_outcome p) Failed = Failed" by (simp add: join_outcome_def)
  ultimately have "(pipe_step env)\<^sup>*\<^sup>* p q" using assms(5) by (simp add: converse_rtranclp_into_rtranclp)
  moreover have "pl_ingest q = set_fatal (Some Import_Eof) (pl_ingest q)" using assms(5) by (simp add: set_fatal_def)
  then have "fst (finish_import env (pl_ingest q)) = fst (finish_import env ((pl_ingest q)\<lparr>ig_fatal_error := None\<rparr>))"
    using finish_import_eof [of env "pl_ingest q"] by (simp add: set_fatal_def)
  ultimately show ?thesis using assms(5) by (simp add: pipe_finished_def)
qed

section \<open>Witnesses\<close>

text \<open>The first game is written, the second prepared, and the reading stage has looked at the flags.\<close>
definition demo_schedule :: "pipe_action list" where
  "demo_schedule = [Do_Enter, Do_Read, Do_Prepare 0, Do_Enter, Do_Read, Do_Write, Do_Prepare 0, Do_Enter]"

definition demo_reading :: pipeline where
  "demo_reading = the (pipe_run (demo_env [''a'', ''b'']) demo_schedule (new_pipeline (demo_start [''a'', ''b''] (\<lambda>n. n = 10))))"

definition demo_lost :: pipeline where
  "demo_lost = demo_reading\<lparr>pl_in_flight := [], pl_outcome := Failed,
     pl_ingest := (snd (stage2 (demo_env [''a'', ''b'']) (snd (hd (pl_in_flight demo_reading))) (pl_ingest demo_reading)))
       \<lparr>ig_reader := snd (next_game (ig_reader (pl_ingest demo_reading))), ig_fatal_error := Some Import_Eof, ig_eof_reached := True\<rparr>,
     pl_reading := False, pl_open := False\<rparr>"

lemma demo_reading_facts:
  "pipe_run (demo_env [''a'', ''b'']) demo_schedule (new_pipeline (demo_start [''a'', ''b''] (\<lambda>n. n = 10))) \<noteq> None"
  "pl_reading demo_reading" "length (pl_in_flight demo_reading) = 1 \<and> fst (hd (pl_in_flight demo_reading))"
  "fst (stage2 (demo_env [''a'', ''b'']) (snd (hd (pl_in_flight demo_reading))) (pl_ingest demo_reading)) = Failed"
  "fst (next_game (ig_reader (pl_ingest demo_reading))) = Inl Import_Eof"
  by code_simp+

theorem lost_write_error_witness:
  "\<exists>q. (pipe_step (demo_env [''a'', ''b'']))\<^sup>*\<^sup>* (new_pipeline (demo_start [''a'', ''b''] (\<lambda>n. n = 10))) q \<and> pipe_finished q
     \<and> fst (finish_import (demo_env [''a'', ''b'']) (pl_ingest q))
       = Inr \<lparr>su_total_attempted = 2, su_committed = 1, su_skipped = 0, su_errors = 1, su_duplicates_removed = 0\<rparr>
     \<and> durable_games (snd (finish_import (demo_env [''a'', ''b'']) (pl_ingest q))) = 0"
proof -
  have run: "(pipe_step (demo_env [''a'', ''b'']))\<^sup>*\<^sup>* (new_pipeline (demo_start [''a'', ''b''] (\<lambda>n. n = 10))) demo_reading"
    by (rule pipe_run_steps [of _ demo_schedule]) (use demo_reading_facts(1) in \<open>auto simp: demo_reading_def simp del: pipe_run.simps\<close>)
  have fl: "pl_in_flight demo_reading = [(True, snd (hd (pl_in_flight demo_reading)))]"
    using demo_reading_facts(3) by (cases "pl_in_flight demo_reading") auto
  have s: "stage2 (demo_env [''a'', ''b'']) (snd (hd (pl_in_flight demo_reading))) (pl_ingest demo_reading)
      = (Failed, snd (stage2 (demo_env [''a'', ''b'']) (snd (hd (pl_in_flight demo_reading))) (pl_ingest demo_reading)))"
    using demo_reading_facts(4) by (simp add: prod_eq_iff)
  have e: "next_game (ig_reader (pl_ingest demo_reading)) = (Inl Import_Eof, snd (next_game (ig_reader (pl_ingest demo_reading))))"
    using demo_reading_facts(5) by (simp add: prod_eq_iff)
  have "fst (finish_import (demo_env [''a'', ''b'']) (pl_ingest demo_lost))
       = Inr \<lparr>su_total_attempted = 2, su_committed = 1, su_skipped = 0, su_errors = 1, su_duplicates_removed = 0\<rparr>"
    "durable_games (snd (finish_import (demo_env [''a'', ''b'']) (pl_ingest demo_lost))) = 0" by code_simp+
  with run lost_write_error [OF demo_reading_facts(2) fl s e demo_lost_def] show ?thesis by (meson rtranclp_trans)
qed

text \<open>The pipeline run to its end without a fault.\<close>
definition demo_whole :: "pipe_action list" where
  "demo_whole = demo_schedule @ [Do_Write, Do_Read]"

definition demo_done :: pipeline where
  "demo_done = the (pipe_run (demo_env [''a'', ''b'']) demo_whole (new_pipeline (demo_start [''a'', ''b''] (\<lambda>_. False))))"

lemma demo_done_facts:
  "pipe_run (demo_env [''a'', ''b'']) demo_whole (new_pipeline (demo_start [''a'', ''b''] (\<lambda>_. False))) \<noteq> None"
  "pipe_finished demo_done" "pl_outcome demo_done = Goes_On" "\<not> ig_stop_requested (pl_ingest demo_done)"
  "checkpoint_of (demo_env [''a'', ''b'']) (pl_ingest demo_done)
     = Inr \<lparr>cp_source_path = ''g.pgn'', cp_byte_offset = 9, cp_games_committed = 2, cp_last_game_id = 2\<rparr>"
  "checkpoint_of (demo_env [''a'', ''b'']) (demo_start [''a'', ''b''] (\<lambda>_. False)) = Inl Import_Not_Found"
  by code_simp+

lemma demo_done_run: "(pipe_step (demo_env [''a'', ''b'']))\<^sup>*\<^sup>* (new_pipeline (demo_start [''a'', ''b''] (\<lambda>_. False))) demo_done"
  by (rule pipe_run_steps [of _ demo_whole]) (use demo_done_facts(1) in \<open>auto simp: demo_done_def simp del: pipe_run.simps\<close>)


theorem pipeline_is_sequential_witness:
  "\<exists>stops slots. slots = fst (read_slots (length stops) (demo_start [''a'', ''b''] (\<lambda>_. False))) \<and> length slots = length stops
    \<and> written (pl_ingest demo_done)
      = written (write_in_order (demo_env [''a'', ''b'']) (zip stops slots) (demo_start [''a'', ''b''] (\<lambda>_. False)))
    \<and> fst (stage0_read (snd (read_slots (length stops) (demo_start [''a'', ''b''] (\<lambda>_. False))))) = None"
  using pipeline_is_sequential [OF demo_started demo_done_run demo_done_facts(2,3)] demo_done_facts(4) by blast

lemma pipe_do_stage: "pipe_do env a p = Some q \<Longrightarrow> a \<noteq> Do_Stop \<Longrightarrow> stage_step env p q"
proof (rule stage_stepI [OF pipe_do_step], assumption)
  assume "pipe_do env a p = Some q" "a \<noteq> Do_Stop"
  then show "pl_in_flight q \<noteq> pl_in_flight p \<or> pl_reading q \<noteq> pl_reading p \<or> pl_open q \<noteq> pl_open p"
    by (cases a) (auto split: if_splits prod.splits bool.splits option.splits list.splits simp: list_update_same_conv)
qed

lemma pipe_run_stages:
  "pipe_run env as q = Some r \<Longrightarrow> Do_Stop \<notin> set as \<Longrightarrow> stage_steps env n p q \<Longrightarrow> stage_steps env (n + length as) p r"
proof (induction as arbitrary: q n)
  case (Cons a as)
  then obtain q' where q': "pipe_do env a q = Some q'" "pipe_run env as q' = Some r" by (auto split: option.splits)
  then have "stage_step env q q'" using pipe_do_stage Cons.prems(2) by fastforce
  from stage_then [OF Cons.prems(3) this] show ?case using Cons.IH [OF q'(2), of "Suc n"] Cons.prems(2) by simp
qed simp

theorem pipeline_ends_witness:
  "10 \<le> 4 * items_left (demo_start [''a'', ''b''] (\<lambda>_. False)) + 2"
proof -
  have "stage_steps (demo_env [''a'', ''b'']) (0 + length demo_whole) (new_pipeline (demo_start [''a'', ''b''] (\<lambda>_. False))) demo_done"
    by (rule pipe_run_stages [OF _ _ no_steps])
      (use demo_done_facts(1) in \<open>auto simp: demo_done_def demo_whole_def demo_schedule_def simp del: pipe_run.simps\<close>)
  moreover have "length demo_whole = 10" "0 < ic_num_lines (ie_config (demo_env [''a'', ''b'']))"
    by (simp_all add: demo_whole_def demo_schedule_def demo_env_def)
  ultimately show ?thesis using pipeline_ends [of "demo_env [''a'', ''b'']" 10] by simp
qed

theorem count_games_counts_markers_witness:
  "count_games \<lparr>pf_text = Some (event_marker @ event_marker), pf_size = Some 16, pf_bad = False\<rparr> 8 = Inr 1"
proof -
  have "[0..<8] = [0, 1, 2, 3, 4, 5, 6, 7 :: nat]" by (simp add: upt_rec)
  then show ?thesis
    using count_games_counts_markers [of "\<lparr>pf_text = Some (event_marker @ event_marker), pf_size = Some 16, pf_bad = False\<rparr>"
        "event_marker @ event_marker" 8]
    by (simp add: event_marker_def)
qed


end
