(* ===== verification/Import_Fresh.thy ===== *)
theory Import_Fresh
  imports Import_Runs
begin

text \<open>
  A fresh import as a whole, over reader, preparation, pipeline, writer and reconciling pass: on a connection that does not
  fail, the database afterwards is the one a plain loop of checked inserts over the games of the file would leave.
\<close>

section \<open>The games of a file\<close>

text \<open>The game a slot brings to the database, if any.\<close>
definition slot_game :: "('p, 'm) chesslib \<Rightarrow> pipeline_slot \<Rightarrow> db_game option" where
  "slot_game lib slot =
     (case sl_game slot of
        None \<Rightarrow> None
      | Some game \<Rightarrow> (case prepare_game lib game of Inl _ \<Rightarrow> None | Inr prep \<Rightarrow> Some prep))"

definition slot_games :: "('p, 'm) chesslib \<Rightarrow> pipeline_slot list \<Rightarrow> db_game list" where
  "slot_games lib slots = List.map_filter (slot_game lib) slots"

text \<open>A slot as the reading stage leaves it.\<close>
definition fresh_slot :: "pipeline_slot \<Rightarrow> bool" where
  "fresh_slot slot \<longleftrightarrow> sl_prepared slot = None \<and> (sl_state slot = Slot_Ready \<longleftrightarrow> sl_game slot \<noteq> None)
     \<and> (sl_state slot = Slot_Ready \<or> sl_state slot = Slot_Parse_Error)"

lemma stage0_read_fresh: "stage0_read st = (Some slot, st') \<Longrightarrow> fresh_slot slot"
  by (auto simp: stage0_read_def fresh_slot_def Let_def split: prod.splits sum.splits if_splits)

lemma read_slots_fresh: "list_all fresh_slot (fst (read_slots n st))"
  by (induction n) (auto split: prod.splits option.splits dest: stage0_read_fresh)

text \<open>What the third stage sees of a prepared slot.\<close>
lemma stage1_slot:
  assumes "fresh_slot slot"
  shows "slot_game lib slot = None \<Longrightarrow> sl_state (stage1 lib slot) = Slot_Parse_Error \<or> sl_prepared (stage1 lib slot) = None"
    and "slot_game lib slot = Some g \<Longrightarrow> sl_state (stage1 lib slot) = Slot_Ready \<and> sl_prepared (stage1 lib slot) = Some g"
  using assms by (auto simp: slot_game_def stage1_def fresh_slot_def split: option.splits sum.splits)

lemma prepare_game_tags: "prepare_game lib pgn = Inr g \<Longrightarrow> dg_extra_tags g = []"
  by (auto simp: prepare_game_def Let_def split: if_splits option.splits)

lemma slot_game_tags: "slot_game lib slot = Some g \<Longrightarrow> dg_extra_tags g = []"
  by (auto simp: slot_game_def split: option.splits sum.splits dest: prepare_game_tags)

lemma slot_games_tags: "list_all (\<lambda>g. dg_extra_tags g = []) (slot_games lib slots)"
  by (induction slots) (auto simp: slot_games_def map_filter_simps split: option.splits dest: slot_game_tags)

section \<open>A raw batch on a reliable connection\<close>

text \<open>The writing side of a fresh import that nobody has stopped.\<close>
definition raw_ready :: "ingest \<Rightarrow> bool" where
  "raw_ready st \<longleftrightarrow> ig_raw_mode st \<and> ig_sqlite_tx_open st \<and> ready (ig_writer st) \<and> \<not> tb_identity_index (sd_tables (gw_db (ig_writer st)))"

lemma raw_insert_ready:
  assumes "ready w" and "\<not> tb_identity_index (sd_tables (gw_db w))" and "dg_extra_tags g = []"
  obtains i w' where "gw_insert_raw xxh3 g w = (Inr i, w')" "ready w'" "\<not> tb_identity_index (sd_tables (gw_db w'))"
    "sd_tables (gw_db w') = snd (store_game insert_game_raw_sql xxh3 g (sd_tables (gw_db w)))"
proof -
  have r: "writer_inv w" "sd_reliable (gw_db w)" "sd_saved (gw_db w) \<noteq> None" "wf_tables (gw_tables w)"
    using assms(1) by (simp_all add: ready_def writer_inv_def)
  obtain w' where w': "gw_insert_raw xxh3 g w = (fst (store_game insert_game_raw_sql xxh3 g (gw_tables w)), w')"
      "sd_reliable (gw_db w')" "sd_saved (gw_db w') = sd_saved (gw_db w)"
      "gw_tables w' = snd (store_game insert_game_raw_sql xxh3 g (gw_tables w))"
    using gw_insert_raw_refines [OF r(1,2), of xxh3 g] r(3) by auto
  have ready: "ready w'" using gw_insert_effect [OF r(1)] w' r(3) by (auto simp: ready_def)
  obtain p tb where p: "resolve_game xxh3 g (gw_tables w) = (p, tb)" by force
  have idx: "tb_identity_index tb = tb_identity_index (gw_tables w)"
    using arg_cong [OF resolve_game_wf(5) [OF r(4) p], of tb_identity_index] by simp
  note s = store_raw [OF r(4) assms(3) p assms(2)]
  obtain i where "fst (store_game insert_game_raw_sql xxh3 g (gw_tables w)) = Inr i"
    using s(2) by (cases "fst (store_game insert_game_raw_sql xxh3 g (gw_tables w))") auto
  with w' show thesis by (intro that [of i w']) (use ready s(1) idx assms(2) in simp_all)
qed

text \<open>The tables after raw inserts.\<close>
definition raw_tables :: "(u16 list \<Rightarrow> u64) \<Rightarrow> db_game list \<Rightarrow> tables \<Rightarrow> tables" where
  "raw_tables xxh3 gs tb = fold (\<lambda>g tb. snd (store_game insert_game_raw_sql xxh3 g tb)) gs tb"

lemma insert_all_raw:
  "ready w \<Longrightarrow> \<not> tb_identity_index (sd_tables (gw_db w)) \<Longrightarrow> list_all (\<lambda>g. dg_extra_tags g = []) gs
   \<Longrightarrow> sd_tables (gw_db (insert_all (gw_insert_raw xxh3) gs w)) = raw_tables xxh3 gs (sd_tables (gw_db w))"
proof (induction gs arbitrary: w)
  case (Cons g gs)
  then obtain i w' where w': "gw_insert_raw xxh3 g w = (Inr i, w')" "ready w'" "\<not> tb_identity_index (sd_tables (gw_db w'))"
      "sd_tables (gw_db w') = snd (store_game insert_game_raw_sql xxh3 g (sd_tables (gw_db w)))"
    using raw_insert_ready [of w g xxh3] by auto
  then show ?case using Cons.IH [OF w'(2,3)] Cons.prems(3) by (simp add: raw_tables_def)
qed (simp add: raw_tables_def)

text \<open>Two states of the writing side with the same tables and counts, but for what was added.\<close>
definition moved :: "tables \<Rightarrow> int \<Rightarrow> ingest \<Rightarrow> ingest \<Rightarrow> bool" where
  "moved tb k st st' \<longleftrightarrow> raw_ready st' \<and> sd_tables (gw_db (ig_writer st')) = tb \<and> ig_committed st' = ig_committed st + k
     \<and> ig_pre_committed st' = ig_pre_committed st"

lemma finish_batch_raw:
  assumes "raw_ready st" and "\<not> ig_stop_requested st"
  shows "\<exists>st'. finish_batch env st = (Goes_On, st') \<and> moved (sd_tables (gw_db (ig_writer st))) 0 st st'"
proof -
  have r: "ready (ig_writer st)" "ig_sqlite_tx_open st" "ig_raw_mode st" "\<not> tb_identity_index (sd_tables (gw_db (ig_writer st)))"
    using assms(1) by (simp_all add: raw_ready_def)
  define w where "w = snd (commit_transaction (ig_writer st))"
  have ok: "fst (commit_transaction (ig_writer st)) = Inr ()"
    using r(1) by (auto simp: commit_transaction_def sql_commit_def Let_def ready_def sd_reliable_def)
  then have c: "commit_transaction (ig_writer st) = (Inr (), w)" by (simp add: w_def prod_eq_iff)
  note w = commit_ready [OF r(1), folded w_def]
  define st1 where "st1 = (write_progress_checkpoint env (st\<lparr>ig_writer := w, ig_sqlite_tx_open := False\<rparr>))\<lparr>ig_batch_pending := 0\<rparr>"
  have st1: "ig_writer st1 = w" "\<not> ig_sqlite_tx_open st1" "\<not> ig_stop_requested st1" "ig_raw_mode st1 = ig_raw_mode st"
    "ig_committed st1 = ig_committed st" "ig_pre_committed st1 = ig_pre_committed st"
    using assms(2) by (simp_all add: st1_def write_progress_checkpoint_def)
  define w2 where "w2 = snd (begin_transaction w)"
  have "fst (begin_transaction w) = Inr ()" using w(2,4) by (auto simp: begin_transaction_def sql_begin_def Let_def sd_reliable_def)
  then have b: "begin_transaction w = (Inr (), w2)" by (simp add: w2_def prod_eq_iff)
  note w2 = begin_ready [OF w(1,2,4), folded w2_def]
  have "finish_batch env st = (Goes_On, st1\<lparr>ig_writer := w2, ig_sqlite_tx_open := True\<rparr>)"
    using c r(2) st1 b assms(2) by (simp add: finish_batch_def commit_sqlite_batch_def begin_sqlite_batch_def st1_def [symmetric] Let_def)
  then show ?thesis using w2 w(3) st1 r by (simp add: moved_def raw_ready_def)
qed

lemma stage2_raw:
  assumes "raw_ready st" and "\<not> ig_stop_requested st" and "fresh_slot slot"
  shows "\<exists>st'. stage2 env (stage1 (ie_lib env) slot) st = (Goes_On, st')
     \<and> moved (raw_tables (ie_xxh3 env) (slot_games (ie_lib env) [slot]) (sd_tables (gw_db (ig_writer st))))
         (int (length (slot_games (ie_lib env) [slot]))) st st'"
proof (cases "slot_game (ie_lib env) slot")
  case None
  let ?slot = "stage1 (ie_lib env) slot"
  have "sl_state ?slot = Slot_Parse_Error \<or> sl_prepared ?slot = None" by (rule stage1_slot(1) [OF assms(3) None])
  then show ?thesis using assms(1)
    by (cases "sl_state ?slot = Slot_Parse_Error")
      (simp_all add: stage2_def Let_def moved_def raw_ready_def slot_games_def map_filter_simps None raw_tables_def)
next
  case (Some g)
  note s = stage1_slot(2) [OF assms(3) Some]
  let ?xxh3 = "ie_xxh3 env"
  have r: "ready (ig_writer st)" "\<not> tb_identity_index (sd_tables (gw_db (ig_writer st)))" "ig_raw_mode st" "ig_sqlite_tx_open st"
    using assms(1) by (simp_all add: raw_ready_def)
  obtain i w where w: "gw_insert_raw ?xxh3 g (ig_writer st) = (Inr i, w)" "ready w" "\<not> tb_identity_index (sd_tables (gw_db w))"
      "sd_tables (gw_db w) = snd (store_game insert_game_raw_sql ?xxh3 g (sd_tables (gw_db (ig_writer st))))"
    by (rule raw_insert_ready [OF r(1,2) slot_game_tags [OF Some]])
  define st1 where "st1 = st\<lparr>ig_games_processed := ig_games_processed st + 1, ig_writer := w,
      ig_checkpoint_offset := sl_next_offset (stage1 (ie_lib env) slot), ig_last_game_id := uint i,
      ig_committed := ig_committed st + 1, ig_batch_pending := ig_batch_pending st + 1, ig_games_committed := ig_games_committed st + 1\<rparr>"
  have st1: "raw_ready st1" "\<not> ig_stop_requested st1" using w r assms(2) by (simp_all add: st1_def raw_ready_def)
  have e: "stage2 env (stage1 (ie_lib env) slot) st
      = (if ig_batch_pending st1 \<ge> ic_batch_size (ie_config env) then finish_batch env st1 else (Goes_On, st1))"
    using s w(1) r(3) by (simp add: stage2_def Let_def st1_def)
  have gs: "slot_games (ie_lib env) [slot] = [g]" by (simp add: slot_games_def map_filter_simps Some)
  have m: "moved (raw_tables ?xxh3 [g] (sd_tables (gw_db (ig_writer st)))) 1 st st1"
    using st1(1) w(4) by (simp add: moved_def raw_tables_def st1_def)
  show ?thesis using e m finish_batch_raw [OF st1, of env] by (auto simp: gs moved_def)
qed

lemma moved_trans: "moved tb k a b \<Longrightarrow> moved tb' k' b c \<Longrightarrow> moved tb' (k + k') a c"
  by (simp add: moved_def)

lemma slot_games_Cons: "slot_games lib (slot # slots) = slot_games lib [slot] @ slot_games lib slots"
  by (simp add: slot_games_def map_filter_simps split: option.splits)

lemma write_in_order_raw:
  "raw_ready st \<Longrightarrow> list_all fresh_slot slots \<Longrightarrow>
   moved (raw_tables (ie_xxh3 env) (slot_games (ie_lib env) slots) (sd_tables (gw_db (ig_writer st))))
     (int (length (slot_games (ie_lib env) slots))) st (write_in_order env (zip (replicate (length slots) False) slots) st)"
proof (induction slots arbitrary: st)
  case Nil
  then show ?case by (simp add: moved_def slot_games_def map_filter_simps raw_tables_def)
next
  case (Cons slot slots)
  let ?st = "st\<lparr>ig_stop_requested := False\<rparr>"
  have r: "raw_ready ?st" "\<not> ig_stop_requested ?st" "fresh_slot slot" using Cons.prems by (simp_all add: raw_ready_def)
  obtain st1 where st1: "stage2 env (stage1 (ie_lib env) slot) ?st = (Goes_On, st1)"
      "moved (raw_tables (ie_xxh3 env) (slot_games (ie_lib env) [slot]) (sd_tables (gw_db (ig_writer st))))
         (int (length (slot_games (ie_lib env) [slot]))) st st1"
    using stage2_raw [OF r, of env] by (auto simp: moved_def)
  have "raw_ready st1" using st1(2) by (simp add: moved_def)
  from moved_trans [OF st1(2) Cons.IH [OF this]] show ?case using Cons.prems(2) st1
    by (simp add: slot_games_Cons [of _ slot slots] raw_tables_def moved_def)
qed

lemma raw_ready_written: "written a = written b \<Longrightarrow> raw_ready a = raw_ready b"
  by (cases a, cases b) (simp add: written_def raw_ready_def)

lemma moved_written: "written a = written b \<Longrightarrow> moved tb k st a = moved tb k st b"
  by (cases a, cases b) (simp add: written_def moved_def raw_ready_def)

lemma sorted_False: "sorted (stops @ [False]) \<Longrightarrow> stops = replicate (length stops) False"
  by (rule replicate_eqI) (auto simp: sorted_append)

text \<open>As long as nobody stops it, the writing side is where the loop over the slots written so far would be.\<close>
lemma seq_inv_raw:
  assumes "seq_inv env st0 stops p" and "raw_ready st0" and "\<not> ig_stop_requested (pl_ingest p)"
  shows "moved (raw_tables (ie_xxh3 env) (slot_games (ie_lib env) (fst (read_slots (length stops) st0))) (sd_tables (gw_db (ig_writer st0))))
    (int (length (slot_games (ie_lib env) (fst (read_slots (length stops) st0))))) st0 (pl_ingest p)"
proof -
  let ?n = "length stops"
  have inv: "filled (?n + length (pl_in_flight p)) st0" "sorted (stops @ [ig_stop_requested (pl_ingest p)])"
    "written (pl_ingest p) = written (write_in_order env (zip stops (fst (read_slots ?n st0))) st0)"
    using assms(1) by (auto simp: seq_inv_def Let_def)
  have "filled ?n st0" by (rule filled_mono [OF inv(1)]) simp
  then have "stops = replicate (length (fst (read_slots ?n st0))) False"
    using sorted_False inv(2) assms(3) by (simp add: filled_def)
  then show ?thesis using write_in_order_raw [OF assms(2) read_slots_fresh [of ?n st0], of env] inv(3)
    by (simp add: moved_written [OF inv(3)])
qed

lemma stage0_stop:
  "stage0_read st = (s, st') \<Longrightarrow> ig_stop_requested st' = ig_stop_requested st"
  "stage0_check st = (b, st') \<Longrightarrow> ig_stop_requested st' = ig_stop_requested st"
  by (auto simp: stage0_read_def stage0_check_def Let_def split: prod.splits sum.splits if_splits)

lemma pipe_step_stop: "pipe_step env p q \<Longrightarrow> ig_stop_requested (pl_ingest p) \<Longrightarrow> ig_stop_requested (pl_ingest q)"
  by (induction rule: pipe_step.induct) (simp_all add: stage0_stop stage2_same(2) request_stop_def)

lemma raw_never_fails:
  assumes "(pipe_step env)\<^sup>*\<^sup>* (new_pipeline st0) p" and "raw_ready st0" and "\<not> ig_eof_reached st0" and "\<not> ig_stop_requested (pl_ingest p)"
  shows "pl_outcome p = Goes_On"
  using assms(1,4)
proof (induction rule: rtranclp_induct)
  case base
  then show ?case by (simp add: new_pipeline_def)
next
  case (step p q)
  have stop: "\<not> ig_stop_requested (pl_ingest p)"
    using pipe_step_stop [OF step.hyps(2)] step.prems by blast
  from step.hyps(2) show ?case
  proof (cases rule: pipe_step.cases)
    case (pipe_write slot rest out st)
    obtain stops where s: "seq_inv env st0 stops p" using seq_inv_reachable [OF step.hyps(1) assms(3)] by blast
    have "raw_ready (pl_ingest p)" using seq_inv_raw [OF s assms(2) stop] by (simp add: moved_def)
    moreover obtain slot0 where "fresh_slot slot0" "slot = stage1 (ie_lib env) slot0"
    proof -
      let ?slots = "fst (read_slots (length stops + length (pl_in_flight p)) st0)"
      have "list_all2 (in_stage (ie_lib env)) (pl_in_flight p) (drop (length stops) ?slots)" using s by (simp add: seq_inv_def Let_def)
      then obtain slot0 slots where d: "drop (length stops) ?slots = slot0 # slots" "in_stage (ie_lib env) (True, slot) slot0"
        using pipe_write(2) unfolding list_all2_Cons1 by (metis list_all2_Cons1)
      then have "slot0 \<in> set ?slots" by (metis in_set_dropD list.set_intros(1))
      then show thesis using that d(2) read_slots_fresh [of _ st0] by (auto simp: list_all_iff in_stage_def)
    qed
    ultimately have "out = Goes_On" using stage2_raw [of "pl_ingest p" slot0 env] stop pipe_write(3) by auto
    then show ?thesis using step.IH [OF stop] pipe_write(1) by (simp add: join_outcome_def)
  qed (use step.IH [OF stop] in auto)
qed

section \<open>The end of the run\<close>

lemma rebuild_index_writer: "rebuild_index wanted rebuild st = (ok, st') \<Longrightarrow> ig_writer st' = ig_writer st
    \<and> ig_committed st' = ig_committed st \<and> ig_pre_committed st' = ig_pre_committed st"
  by (auto simp: rebuild_index_def Let_def split: if_splits prod.splits sum.splits)

lemma checkpoint_writer [simp]: "ig_writer (write_progress_checkpoint env st) = ig_writer st"
  "summary_of (write_progress_checkpoint env st) = summary_of st"
  by (simp_all add: write_progress_checkpoint_def summary_of_def fun_eq_iff)

lemma finish_import_raw:
  assumes "raw_ready st" and "finish_import env st = (Inr summary, st')"
  defines "tb \<equiv> sd_tables (gw_db (ig_writer st))"
  shows "durable (gw_db (ig_writer st')) = dedup_tables tb"
    and "su_duplicates_removed summary = length (tb_games tb) - length (kept_rows (tb_games tb))"
    and "su_committed summary = of_int (ig_committed st - int (length (tb_games tb) - length (kept_rows (tb_games tb))) - ig_pre_committed st)"
proof -
  have r: "ready (ig_writer st)" "ig_sqlite_tx_open st" "ig_raw_mode st" "\<not> tb_identity_index tb"
    using assms(1) by (simp_all add: raw_ready_def tb_def)
  define w where "w = snd (commit_transaction (ig_writer st))"
  have "fst (commit_transaction (ig_writer st)) = Inr ()"
    using r(1) by (auto simp: commit_transaction_def sql_commit_def Let_def ready_def sd_reliable_def)
  then have c: "commit_sqlite_batch st = (True, st\<lparr>ig_writer := w, ig_sqlite_tx_open := False\<rparr>)"
    using r(2) by (auto simp: commit_sqlite_batch_def w_def split: prod.splits)
  note w = commit_ready [OF r(1), folded w_def]
  define k where "k = length (tb_games tb) - length (kept_rows (tb_games tb))"
  obtain w1 where w1: "deduplicate w = (Inr k, w1)" "sd_tables (gw_db w1) = dedup_tables tb"
    using deduplicate_refines [OF w(1,2)] w(3) r(4) by (auto simp: tb_def k_def)
  have "sd_saved (gw_db w1) = None" using deduplicate_effect [OF w(1) w1(1)] w(4) by simp
  then have d: "durable (gw_db w1) = dedup_tables tb" using w1(2) by (simp add: durable_def)
  define st1 where "st1 = st\<lparr>ig_writer := w, ig_sqlite_tx_open := False, ig_phase := Phase_Deduplicating, ig_writer := w1,
    ig_committed := ig_committed st - int k, ig_games_committed := ig_games_committed st - of_nat k,
    ig_games_skipped := ig_games_skipped st + of_nat k\<rparr>"
  have fd: "finish_dedup (st\<lparr>ig_writer := w, ig_sqlite_tx_open := False\<rparr>) = (Inr k, st1)"
    using r(3) w1(1) by (simp add: finish_dedup_def st1_def Let_def)
  have fatal: "\<not> (ig_fatal_error st \<noteq> None \<and> ig_fatal_error st \<noteq> Some Import_Eof)"
    using assms(2) unfolding finish_import_def by (metis Inl_Inr_False Pair_inject)
  have "(\<exists>st2. summary = summary_of st2 k \<and> ig_committed st2 = ig_committed st1 \<and> ig_pre_committed st2 = ig_pre_committed st1)
      \<and> gw_db (ig_writer st') = gw_db w1"
  proof (cases "ig_stopped st1 \<or> ig_stop_requested st1")
    case True
    then show ?thesis using assms(2) fatal c fd by (auto simp: finish_import_def Let_def st1_def)
  next
    case False
    obtain ok1 st2 where b1: "rebuild_index (ic_build_position_postings (ie_config env) \<and> ie_dir env \<noteq> [])
        (dv_rebuild_position_postings (ie_derived env)) st1 = (ok1, st2)" by force
    obtain ok2 st3 where b2: "rebuild_index (ic_build_opening_tree_index (ie_config env)) (dv_rebuild_opening_tree_index (ie_derived env)) st2
        = (ok2, st3)" by force
    have "ok1 \<and> ok2 \<and> summary = summary_of st3 k \<and> gw_db (ig_writer st') = gw_db (ig_writer st3)"
      using assms(2) fatal c fd False b1 b2 by (cases ok1; cases ok2) (auto simp: finish_import_def)
    moreover have "ig_writer st1 = w1" by (simp add: st1_def)
    ultimately show ?thesis using rebuild_index_writer [OF b1] rebuild_index_writer [OF b2] by auto
  qed
  then show "durable (gw_db (ig_writer st')) = dedup_tables tb"
    "su_duplicates_removed summary = length (tb_games tb) - length (kept_rows (tb_games tb))"
    "su_committed summary = of_int (ig_committed st - int (length (tb_games tb) - length (kept_rows (tb_games tb))) - ig_pre_committed st)"
    using d by (auto simp: summary_of_def st1_def k_def)
qed

text \<open>How a fresh import starts.\<close>
lemma start_import_raw:
  assumes "start_import env off 0 last_id st = (Inr u, st0)" and "writer_inv (ig_writer st)" and "sd_reliable (gw_db (ig_writer st))"
    and "sd_saved (gw_db (ig_writer st)) = None"
  shows "raw_ready st0" and "ig_writer st0 = snd (begin_transaction (snd (drop_identity_index (ig_writer st))))"
    and "ig_committed st0 = 0" and "ig_pre_committed st0 = 0"
proof -
  obtain w st1 where d: "drop_identity_index (ig_writer st) = (Inr (), w)" and b: "begin_sqlite_batch st1 = (True, st0)"
    and st1: "ig_writer st1 = w" "ig_committed st1 = 0" "ig_pre_committed st1 = 0" "\<not> ig_sqlite_tx_open st1" "ig_raw_mode st1"
    by (rule start_import_Inr [OF assms(1)]) simp
  note w = drop_index_reliable [OF assms(2-4), unfolded d, simplified]
  have st0: "st0 = st1\<lparr>ig_writer := snd (begin_transaction w), ig_sqlite_tx_open := True\<rparr>"
    using b st1 by (auto simp: begin_sqlite_batch_def split: prod.splits sum.splits)
  show "raw_ready st0" "ig_committed st0 = 0" "ig_pre_committed st0 = 0"
    "ig_writer st0 = snd (begin_transaction (snd (drop_identity_index (ig_writer st))))"
    using begin_ready [OF w(1-3)] w(4) st1 by (simp_all add: st0 raw_ready_def d)
qed

text \<open>The tables a fresh import leaves, against those of checked inserts.\<close>
lemma raw_tables_checked:
  fixes xxh3 :: "u16 list \<Rightarrow> u64"
  assumes "writer_inv w" and "sd_reliable (gw_db w)" and "sd_saved (gw_db w) = None" and "tb_identity_index (sd_tables (gw_db w))"
    and "reconcile (tb_games (sd_tables (gw_db w))) = tb_games (sd_tables (gw_db w))" and "list_all (\<lambda>g. dg_extra_tags g = []) gs"
  defines "tb \<equiv> raw_tables xxh3 gs (sd_tables (gw_db (snd (begin_transaction (snd (drop_identity_index w))))))"
    and "checked \<equiv> sd_tables (gw_db (checked_import xxh3 gs w))"
  shows "map without_id (tb_games (dedup_tables tb)) = map without_id (tb_games checked)"
    and "other_tables (dedup_tables tb) = other_tables checked" and "tb_identity_index (dedup_tables tb)"
    and "length (tb_games tb) - length (kept_rows (tb_games tb)) = length (tb_games (sd_tables (gw_db w))) + length gs - length (tb_games checked)"
proof -
  let ?w = "snd (begin_transaction (snd (drop_identity_index w)))"
  note d = drop_index_reliable [OF assms(1-3)]
  note b = begin_ready [OF d(1-3)]
  have i: "\<not> tb_identity_index (sd_tables (gw_db ?w))" by (simp add: b(2) d(4))
  have tags: "\<forall>g\<in>set gs. dg_extra_tags g = []" using assms(6) by (simp add: list_all_iff)
  have wc: "agree (sd_tables (gw_db (snd (begin_transaction w)))) (sd_tables (gw_db ?w))"
    using assms(4,5) by (simp add: agree_def b(2) d(4) begin_ready [OF assms(1-3)] other_tables_def)
  note all = insert_all_agrees [OF begin_ready(1) [OF assms(1-3)] b(1) wc tags, of xxh3]
  let ?ar = "insert_all (gw_insert_raw xxh3) gs ?w"
  have ready: "ready ?ar" using all by blast
  have tb: "sd_tables (gw_db ?ar) = tb" unfolding tb_def by (rule insert_all_raw [OF b(1) i assms(6)])
  note cr = commit_ready [OF ready]
  have "\<not> tb_identity_index (sd_tables (gw_db ?ar))" using all by (simp add: agree_def)
  then obtain w' where w': "raw_import xxh3 gs w = (Inr (length (tb_games tb) - length (kept_rows (tb_games tb))), w')"
      "sd_tables (gw_db w') = dedup_tables tb"
    using deduplicate_refines [OF cr(1,2)] cr(3) tb by (auto simp: raw_import_def)
  with raw_import_agrees [OF assms(1-5) tags, of xxh3]
  show "map without_id (tb_games (dedup_tables tb)) = map without_id (tb_games checked)"
    "other_tables (dedup_tables tb) = other_tables checked" "tb_identity_index (dedup_tables tb)"
    "length (tb_games tb) - length (kept_rows (tb_games tb)) = length (tb_games (sd_tables (gw_db w))) + length gs - length (tb_games checked)"
    by (auto simp: checked_def)
qed

lemma checked_import_length:
  assumes "writer_inv w" and "sd_reliable (gw_db w)" and "sd_saved (gw_db w) = None" and "tb_identity_index (sd_tables (gw_db w))"
    and "reconcile (tb_games (sd_tables (gw_db w))) = tb_games (sd_tables (gw_db w))" and "list_all (\<lambda>g. dg_extra_tags g = []) gs"
  shows "length (tb_games (sd_tables (gw_db (checked_import xxh3 gs w)))) \<le> length (tb_games (sd_tables (gw_db w))) + length gs"
proof -
  let ?w = "snd (begin_transaction (snd (drop_identity_index w)))"
  let ?tb = "raw_tables xxh3 gs (sd_tables (gw_db ?w))"
  note d = drop_index_reliable [OF assms(1-3)]
  note b = begin_ready [OF d(1-3)]
  have i: "\<not> tb_identity_index (sd_tables (gw_db ?w))" by (simp add: b(2) d(4))
  have tags: "\<forall>g\<in>set gs. dg_extra_tags g = []" using assms(6) by (simp add: list_all_iff)
  have wc: "agree (sd_tables (gw_db (snd (begin_transaction w)))) (sd_tables (gw_db ?w))"
    using assms(4,5) by (simp add: agree_def b(2) d(4) begin_ready [OF assms(1-3)] other_tables_def)
  have len: "length (tb_games ?tb) = length (tb_games (sd_tables (gw_db w))) + length gs"
    using insert_all_agrees [OF begin_ready(1) [OF assms(1-3)] b(1) wc tags, of xxh3] insert_all_raw [OF b(1) i assms(6), of xxh3] b(2) d(4)
    by simp
  have "length (tb_games (dedup_tables ?tb)) = length (tb_games (sd_tables (gw_db (checked_import xxh3 gs w))))"
    using arg_cong [OF raw_tables_checked(1) [OF assms, of xxh3], of length] by simp
  moreover have "length (tb_games (dedup_tables ?tb)) \<le> length (tb_games ?tb)"
    by (simp add: dedup_tables_def reconcile_def kept_rows_def)
  ultimately show ?thesis using len by simp
qed

end
