(* ===== verification/Game_Store_Inv.thy ===== *)
theory Game_Store_Inv
  imports Game_Store
begin

text \<open>
  What the operations of the game store keep: a read changes nothing but the number of statements run, every other operation
  leaves the tables well-formed and both sets of caches sound, and a failed patch leaves the database as it was.
\<close>

section \<open>Reads\<close>

text \<open>A step that changes nothing but the clock of the connection.\<close>
definition reads :: "(game_writer \<Rightarrow> 'a \<times> game_writer) \<Rightarrow> bool" where
  "reads m \<longleftrightarrow> (\<forall>w. \<exists>c. snd (m w) = w\<lparr>gw_db := (gw_db w)\<lparr>sd_clock := c\<rparr>\<rparr>)"

lemma readsD: "reads m \<Longrightarrow> m w = (r, w') \<Longrightarrow> \<exists>c. w' = w\<lparr>gw_db := (gw_db w)\<lparr>sd_clock := c\<rparr>\<rparr>"
  unfolding reads_def by (metis snd_conv)

lemma readsI: "(\<And>w r w'. m w = (r, w') \<Longrightarrow> \<exists>c. w' = w\<lparr>gw_db := (gw_db w)\<lparr>sd_clock := c\<rparr>\<rparr>) \<Longrightarrow> reads m"
  unfolding reads_def by (metis prod.collapse)

lemma clock_same [simp]: "w\<lparr>gw_db := (gw_db w)\<lparr>sd_clock := sd_clock (gw_db w)\<rparr>\<rparr> = w"
  by (cases w) simp

lemma reads_return [intro]: "reads (return r)"
  by (auto simp: reads_def return_def intro: clock_same [symmetric])

lemma reads_if: "reads m \<Longrightarrow> reads m' \<Longrightarrow> reads (\<lambda>w. if b then m w else m' w)"
  by (auto simp: reads_def)

lemma reads_exec [intro]: "(\<And>tb x tb'. stmt tb = Some (x, tb') \<Longrightarrow> tb' = tb) \<Longrightarrow> reads (gw_exec stmt)"
proof (rule readsI)
  fix w r w' assume stmt: "\<And>tb x tb'. stmt tb = Some (x, tb') \<Longrightarrow> tb' = tb" and run: "gw_exec stmt w = (r, w')"
  obtain x db where x: "sql_run stmt (gw_db w) = (x, db)" "w' = w\<lparr>gw_db := db\<rparr>"
    using run by (auto simp: gw_exec_def gw_run_def split: prod.splits option.splits)
  from x(1) have "db = (gw_db w)\<lparr>sd_clock := sd_clock (gw_db w) + 1\<rparr>"
    by (auto simp: sql_run_def Let_def split: if_splits option.splits dest!: stmt)
  then show "\<exists>c. w' = w\<lparr>gw_db := (gw_db w)\<lparr>sd_clock := c\<rparr>\<rparr>" using x(2) by blast
qed

lemma reads_and_then [intro]:
  assumes "reads m" and "\<And>x. reads (f x)"
  shows "reads (and_then m f)"
proof (rule readsI)
  fix w r w' assume run: "and_then m f w = (r, w')"
  obtain x w1 where x: "m w = (x, w1)" by force
  obtain c where c: "w1 = w\<lparr>gw_db := (gw_db w)\<lparr>sd_clock := c\<rparr>\<rparr>" using readsD [OF assms(1) x] by blast
  show "\<exists>c. w' = w\<lparr>gw_db := (gw_db w)\<lparr>sd_clock := c\<rparr>\<rparr>"
  proof (cases x)
    case (Inl e)
    then show ?thesis using run x c by (auto simp: and_then_def)
  next
    case (Inr y)
    then have "f y w1 = (r, w')" using run x by (simp add: and_then_def)
    from readsD [OF assms(2) this] show ?thesis using c by auto
  qed
qed

lemma reads_prepared [intro]: "(\<And>tb x tb'. stmt tb = Some (x, tb') \<Longrightarrow> tb' = tb) \<Longrightarrow> reads (run_prepared stmt)"
  unfolding run_prepared_def by (intro reads_and_then reads_exec) auto

lemma reads_query [intro]: "reads (run_query f)"
  unfolding run_query_def by (intro reads_prepared) auto

text \<open>A transaction around a read leaves no trace either, whether it is committed or rolled back.\<close>
lemma reads_in_read_txn:
  assumes "reads body"
  shows "reads (in_read_txn body)"
proof (rule readsI)
  fix w r w' assume run: "in_read_txn body w = (r, w')"
  obtain g db where g: "txn_guard (gw_db w) = (g, db)" by force
  obtain b w1 where b: "body (w\<lparr>gw_db := db\<rparr>) = (b, w1)" by force
  obtain c where c: "w1 = w\<lparr>gw_db := db\<lparr>sd_clock := c\<rparr>\<rparr>" using readsD [OF assms b] by auto
  show "\<exists>c. w' = w\<lparr>gw_db := (gw_db w)\<lparr>sd_clock := c\<rparr>\<rparr>"
  proof (cases "sd_saved (gw_db w)")
    case (Some tb)
    then have "g = Some False" "db = gw_db w" using g by (auto simp: txn_guard_def)
    then show ?thesis
      using run g b c by (auto simp: in_read_txn_def txn_release_def txn_commit_def split: sum.splits prod.splits bool.splits)
  next
    case None
    show ?thesis
    proof (cases g)
      case None
      then have "db = (gw_db w)\<lparr>sd_clock := sd_clock (gw_db w) + 1\<rparr>"
        using g by (auto simp: txn_guard_def sql_begin_def Let_def split: if_splits)
      then show ?thesis using run g None by (auto simp: in_read_txn_def)
    next
      case (Some started)
      have db: "started" "db = (gw_db w)\<lparr>sd_clock := sd_clock (gw_db w) + 1, sd_saved := Some (gw_tables w)\<rparr>"
        using g Some \<open>sd_saved (gw_db w) = None\<close> by (auto simp: txn_guard_def sql_begin_def Let_def split: if_splits)
      have undone: "sql_rollback (db\<lparr>sd_clock := k\<rparr>) = (gw_db w)\<lparr>sd_clock := k\<rparr>" for k
        using db None by (cases "gw_db w") (simp add: sql_rollback_def)
      have com: "(db\<lparr>sd_clock := k, sd_saved := None\<rparr>) = (gw_db w)\<lparr>sd_clock := k\<rparr>" for k
        using db None by (cases "gw_db w") simp
      have "\<exists>k. w' = w1\<lparr>gw_db := sql_rollback (db\<lparr>sd_clock := k\<rparr>)\<rparr> \<or> w' = w1\<lparr>gw_db := db\<lparr>sd_clock := k, sd_saved := None\<rparr>\<rparr>"
        using run g b c Some db(1)
        by (auto simp: in_read_txn_def txn_release_def txn_commit_def sql_commit_def Let_def split: sum.splits prod.splits bool.splits if_splits)
      then show ?thesis using c undone com by auto
    qed
  qed
qed

lemma reads_store_get: "reads (store_get key)"
  unfolding store_get_def by (intro reads_and_then reads_query) (auto split: option.splits)

lemma reads_get_provenance: "reads (get_provenance key)"
  unfolding get_provenance_def by (intro reads_and_then reads_query) (auto split: option.splits)

lemma reads_counts: "reads count_stored_games" "reads all_game_ids"
  by (auto simp: count_stored_games_def all_game_ids_def)

lemma reads_context_batches: "reads (context_batches bs out)"
proof (induction bs arbitrary: out)
  case Nil
  show ?case using reads_return [of "Inr out"] by (simp add: reads_def return_def)
next
  case (Cons b bs)
  have "reads (and_then (run_query (select_contexts (map unat b))) (\<lambda>rows. context_batches bs (fold emplace rows out)))"
    using Cons.IH by (intro reads_and_then reads_query)
  then show ?case by (simp add: reads_def)
qed

lemma reads_populate: "reads (populate_batches bs rows)"
proof (induction bs arbitrary: rows)
  case Nil
  show ?case using reads_return [of "Inr rows"] by (simp add: reads_def return_def)
next
  case (Cons b bs)
  have "reads (and_then (run_prepared (\<lambda>tb. if distinct b \<and> set b \<inter> set rows = {} then Some (rows @ b, tb) else None))
      (populate_batches bs))"
    using Cons.IH by (intro reads_and_then reads_prepared) (auto split: if_splits)
  then show ?case by (simp add: reads_def)
qed

lemma reads_temp_table: "reads (populate_position_temp_table n ids)"
  unfolding populate_position_temp_table_def by (intro reads_and_then reads_exec reads_populate) auto

lemma reads_page_body: "reads counting \<Longrightarrow> reads (page_body counting ids f l)"
  unfolding page_body_def fetch_game_list_page_def by (intro reads_and_then) auto

lemma reads_searches:
  "reads (find_games f)" "reads (find_games_with_ids n ids f)" "reads (find_game_ids_with_filter n ids f)"
proof -
  have r: "reads (\<lambda>w. (r, w))" for r :: "'a result" using reads_return [of r] by (simp add: reads_def return_def)
  show "reads (find_games f)"
    unfolding find_games_def Let_def
    by (intro reads_if r reads_in_read_txn reads_page_body) (auto intro: reads_counts)
  show "reads (find_games_with_ids n ids f)"
    unfolding find_games_with_ids_def Let_def
    by (intro reads_if r reads_in_read_txn reads_and_then reads_temp_table reads_page_body reads_query)
  show "reads (find_game_ids_with_filter n ids f)"
    unfolding find_game_ids_with_filter_def by (intro reads_if r reads_and_then reads_temp_table reads_query)
qed

section \<open>Changes\<close>

text \<open>A step that keeps the invariant on every path.\<close>
definition keeps :: "(game_writer \<Rightarrow> 'a result \<times> game_writer) \<Rightarrow> bool" where
  "keeps m \<longleftrightarrow> (\<forall>sv. valid (step_inv sv) (step_inv sv) m (\<lambda>_. step_inv sv))"

lemma keepsD: "keeps m \<Longrightarrow> valid (step_inv sv) (step_inv sv) m (\<lambda>_. step_inv sv)"
  unfolding keeps_def by blast

lemma keepsI: "(\<And>sv. valid (step_inv sv) (step_inv sv) m (\<lambda>_. step_inv sv)) \<Longrightarrow> keeps m"
  by (simp add: keeps_def)

lemma keeps_and_then [intro]: "keeps m \<Longrightarrow> (\<And>x. keeps (f x)) \<Longrightarrow> keeps (and_then m f)"
  by (rule keepsI) (blast intro: valid_and_then keepsD)

lemma keeps_case_option: "keeps m \<Longrightarrow> (\<And>x. keeps (f x)) \<Longrightarrow> keeps (case opt of None \<Rightarrow> m | Some x \<Rightarrow> f x)"
  by (cases opt) auto

lemmas keeps_find_or_insert = keepsI [OF valid_find_or_insert_player] keepsI [OF valid_find_or_insert_event]
  keepsI [OF valid_insert_game_tags]

lemma keeps_return [intro]: "keeps (return r)"
  by (cases r) (auto simp: keeps_def valid_def return_def)

lemma keeps_if: "keeps m \<Longrightarrow> keeps m' \<Longrightarrow> keeps (if b then m else m')"
  by simp

lemma keeps_prepared [intro]: "sound_stmt stmt \<Longrightarrow> keeps (run_prepared stmt)"
  unfolding run_prepared_def by (intro keeps_and_then keepsI valid_exec sound_read)

lemma keeps_reads: "reads m \<Longrightarrow> keeps m"
  unfolding keeps_def valid_def
proof (intro allI impI)
  fix sv w assume m: "reads m" and w: "step_inv sv w"
  obtain r w' where r: "m w = (r, w')" by force
  from readsD [OF m r] w have "step_inv sv w'" by (auto simp: step_inv_def)
  then show "case m w of (Inl _, s') \<Rightarrow> step_inv sv s' | (Inr _, s') \<Rightarrow> step_inv sv s'" using r by (auto split: sum.splits)
qed

lemma find_row: "find (\<lambda>r. gr_id r = i) rs = Some r \<Longrightarrow> r \<in> set rs \<and> gr_id r = i"
  by (auto simp: find_Some_iff)

text \<open>Replacing the row with a given id keeps the uniqueness of a key that no other row has.\<close>
lemma distinct_replace:
  assumes "distinct (map key rs)" and "sorted_wrt (<) (map gr_id rs)" and "key row \<notin> key ` {s \<in> set rs. gr_id s \<noteq> i}"
  shows "distinct (map (\<lambda>s. key (if gr_id s = i then row else s)) rs)"
  using assms
proof (induction rs)
  case (Cons r rs)
  have IH: "distinct (map (\<lambda>s. key (if gr_id s = i then row else s)) rs)"
    using Cons by (auto simp: sorted_wrt_map)
  show ?case
  proof (cases "gr_id r = i")
    case True
    have other: "gr_id s \<noteq> i" if "s \<in> set rs" for s using Cons.prems(2) that True by auto
    then have eq: "map (\<lambda>s. key (if gr_id s = i then row else s)) rs = map key rs" by simp
    have "distinct (key row # map key rs)" using Cons.prems True other by auto
    then show ?thesis by (simp only: list.map eq True if_True simp_thms)
  next
    case False
    then show ?thesis using Cons.prems IH by (auto simp: image_iff)
  qed
qed simp

lemma sound_update_game:
  assumes "\<And>r. gr_id (f r) = gr_id r"
  shows "sound_stmt (update_game i f)"
  unfolding sound_stmt_def
proof (intro allI impI)
  fix tb n tb' assume wf: "wf_tables tb" and u: "update_game i f tb = Some (n, tb')"
  show "wf_tables tb' \<and> extends tb tb'"
  proof (cases "find (\<lambda>r. gr_id r = i) (tb_games tb)")
    case None
    then show ?thesis using u wf by (simp add: update_game_def)
  next
    case (Some r)
    let ?row = "f r" and ?upd = "\<lambda>s. if gr_id s = i then f r else s"
    have r: "gr_id ?row = i" using find_row [OF Some] assms by simp
    have tb': "tb' = tb\<lparr>tb_games := map ?upd (tb_games tb)\<rparr>"
      and ok: "has_id (gr_white_id ?row) (tb_players tb)" "has_id (gr_black_id ?row) (tb_players tb)"
        "\<And>e. gr_event_id ?row = Some e \<Longrightarrow> has_id e (tb_events tb)"
        "tb_identity_index tb \<Longrightarrow> index_key ?row \<notin> index_key ` {s \<in> set (tb_games tb). gr_id s \<noteq> i}"
      using u Some by (auto simp: update_game_def Let_def split: if_splits)
    have ids: "map gr_id (map ?upd (tb_games tb)) = map gr_id (tb_games tb)" using r by simp
    have "distinct (map index_key (map ?upd (tb_games tb)))" if "tb_identity_index tb"
      using distinct_replace [of index_key "tb_games tb" ?row i] ok(4) [OF that] wf that
      by (simp add: wf_tables_def wf_games_def comp_def)
    moreover have "sorted_wrt (<) (map gr_id (map ?upd (tb_games tb)))"
      unfolding ids using wf by (simp add: wf_tables_def wf_games_def)
    ultimately have "wf_games tb'" using wf ok by (auto simp: wf_tables_def wf_games_def tb' simp del: map_map)
    moreover have "wf_game_tags tb'"
    proof -
      have "gr_id ` set (map ?upd (tb_games tb)) = gr_id ` set (tb_games tb)" using arg_cong [OF ids, of set] by (simp only: set_map)
      then show ?thesis using wf unfolding tb' wf_tables_def wf_game_tags_def by simp
    qed
    ultimately show ?thesis using wf by (simp add: tb' wf_tables_def extends_def)
  qed
qed

lemma sound_delete_game: "sound_stmt (delete_game i)"
  unfolding sound_stmt_def
proof (intro allI impI)
  fix tb n tb' assume wf: "wf_tables tb" and d: "delete_game i tb = Some (n, tb')"
  have "filter (\<lambda>t. gt_game_id t \<noteq> i) (tb_game_tags tb)
      = filter (\<lambda>t. gt_game_id t \<in> set (map gr_id (filter (\<lambda>r. gr_id r \<noteq> i) (tb_games tb)))) (tb_game_tags tb)"
    using wf by (intro filter_cong) (auto simp: wf_tables_def wf_game_tags_def)
  with wf_tables_fewer_games [OF wf, of "\<lambda>r. gr_id r \<noteq> i"] d show "wf_tables tb' \<and> extends tb tb'"
    by (auto simp: delete_game_def extends_def)
qed

lemma sound_delete_notes: "sound_stmt (delete_notes i)"
  by (auto simp: sound_stmt_def delete_notes_def extends_def wf_tables_def wf_games_def wf_game_tags_def distinct_map_filter)

lemma set_column_id [simp]:
  "gr_id (set_text_column c x r) = gr_id r" "gr_id (set_side_id sd j r) = gr_id r" "gr_id (set_side_elo sd e r) = gr_id r"
  by (cases c; cases sd; simp)+

lemma keeps_update: "(\<And>r. gr_id (f r) = gr_id r) \<Longrightarrow> keeps (run_update key f)"
  unfolding run_update_def by (intro keeps_and_then keeps_prepared sound_update_game keeps_return)

lemma keeps_patch_player: "keeps (patch_player key side current name_patch elo_patch)"
  unfolding patch_player_def store_find_or_insert_player_def
  by (intro keeps_and_then keeps_case_option keeps_return keeps_update keeps_find_or_insert) simp_all

lemma keeps_patch_event: "keeps (patch_event key current event_patch site_patch)"
  unfolding patch_event_def store_find_or_insert_event_def Let_def
  by (intro keeps_if keeps_and_then keeps_return keeps_update keeps_find_or_insert) simp

lemma keeps_update_fields: "keeps (update_fields key cols)"
proof (induction cols)
  case Nil
  show ?case by (auto simp: keeps_def valid_def)
next
  case (Cons c cols)
  obtain col new where c: "c = (col, new)" by force
  show ?case
  proof (cases new)
    case None
    then show ?thesis using Cons.IH by (simp add: c keeps_def valid_def)
  next
    case (Some x)
    have "keeps (and_then (update_text_field key col x) (\<lambda>_. update_fields key cols))"
      unfolding update_text_field_def by (intro keeps_and_then keeps_update Cons.IH) simp
    then show ?thesis by (simp add: c Some keeps_def valid_def)
  qed
qed

lemma keeps_patch_body: "keeps (patch_body key patch)"
proof -
  have "keeps (patch_people key patch)"
    unfolding patch_people_def
    by (intro keeps_if keeps_and_then keeps_return keeps_reads [OF reads_store_get] keeps_patch_player keeps_patch_event)
  moreover have "keeps (patch_notes key opt)" for opt
    unfolding patch_notes_def store_insert_game_tags_def
    by (intro keeps_case_option keeps_if keeps_and_then keeps_prepared keeps_return sound_delete_notes keeps_find_or_insert)
  ultimately show ?thesis unfolding patch_body_def by (intro keeps_and_then keeps_update_fields)
qed

lemma keeps_store:
  "keeps (store_remove key)" "keeps (set_manual_provenance key l s)" "keeps (create_schema b)"
proof -
  show "keeps (store_remove key)" unfolding store_remove_def by (intro keeps_and_then keeps_prepared sound_delete_game keeps_return)
  show "keeps (set_manual_provenance key l s)"
    unfolding set_manual_provenance_def by (intro keeps_and_then keeps_prepared sound_update_game keeps_return) simp
  show "keeps (create_schema b)"
    unfolding create_schema_def
    by (intro keeps_and_then keeps_if keeps_return keeps_reads [OF reads_query] keepsI valid_exec sound_read sound_identity_index)
qed

text \<open>What a step of the store does to the connection: the shared contract of its operations.\<close>
definition good_step :: "game_writer \<Rightarrow> game_writer \<Rightarrow> bool" where
  "good_step w w' \<longleftrightarrow> writer_inv w' \<and> sd_saved (gw_db w') = sd_saved (gw_db w) \<and> extends (gw_tables w) (gw_tables w')"

lemma keeps_good: "keeps m \<Longrightarrow> writer_inv w \<Longrightarrow> m w = (r, w') \<Longrightarrow> good_step w w'"
  unfolding good_step_def using valid_writer_inv [of m w r w'] by (blast dest: keepsD)

lemma patch_metadata_effect:
  assumes "writer_inv w" and "patch_metadata key patch w = (r, w')"
  shows "good_step w w' \<and> (\<forall>e. r = Inl e \<longrightarrow> sd_saved (gw_db w) = None \<longrightarrow> gw_tables w' = gw_tables w)"
proof -
  obtain p w1 where p: "get_provenance key w = (p, w1)" by force
  obtain c where c: "w1 = w\<lparr>gw_db := (gw_db w)\<lparr>sd_clock := c\<rparr>\<rparr>" using readsD [OF reads_get_provenance p] by blast
  have w1: "writer_inv w1" using assms(1) by (auto simp: c writer_inv_def)
  show ?thesis
  proof (cases "\<exists>prov. p = Inr prov \<and> gp_source_type prov = ''manual''")
    case True
    then have "guarded clear_insert_caches (patch_body key patch) w1 = (r, w')"
      using assms(2) p by (auto simp: patch_metadata_def and_then_def)
    from guarded_effect [OF keepsD [OF keeps_patch_body] _ _ w1 this] show ?thesis by (simp add: good_step_def c)
  next
    case False
    then have "w' = w1" using assms(2) p by (auto simp: patch_metadata_def and_then_def return_def split: sum.splits)
    then show ?thesis using w1 by (simp add: good_step_def c)
  qed
qed

section \<open>The store as a state machine\<close>

text \<open>The operations of one store in any order; the parameter limit of the connection may be any.\<close>
inductive store_step :: "(u16 list \<Rightarrow> u64) \<Rightarrow> game_store \<Rightarrow> game_store \<Rightarrow> bool" for xxh3 where
  ss_insert: "gs_insert xxh3 g s = (r, s') \<Longrightarrow> store_step xxh3 s s'"
| ss_begin: "gs_begin_transaction s = (u, s') \<Longrightarrow> store_step xxh3 s s'"
| ss_commit: "gs_commit_transaction s = (u, s') \<Longrightarrow> store_step xxh3 s s'"
| ss_rollback: "store_step xxh3 s (gs_rollback_transaction s)"
| ss_clear: "store_step xxh3 s (gs_clear_insert_caches s)"
| ss_schema: "via_self (create_schema b) s = (u, s') \<Longrightarrow> store_step xxh3 s s'"
| ss_get: "via_self (store_get key) s = (x, s') \<Longrightarrow> store_step xxh3 s s'"
| ss_provenance: "via_self (get_provenance key) s = (p, s') \<Longrightarrow> store_step xxh3 s s'"
| ss_contexts: "via_self (get_game_contexts n keys) s = (m, s') \<Longrightarrow> store_step xxh3 s s'"
| ss_count: "via_self count_stored_games s = (k, s') \<Longrightarrow> store_step xxh3 s s'"
| ss_ids: "via_self all_game_ids s = (keys, s') \<Longrightarrow> store_step xxh3 s s'"
| ss_find: "via_self (find_games f) s = (l, s') \<Longrightarrow> store_step xxh3 s s'"
| ss_find_with_ids: "via_self (find_games_with_ids n keys f) s = (l, s') \<Longrightarrow> store_step xxh3 s s'"
| ss_filter_ids: "via_self (find_game_ids_with_filter n keys f) s = (l', s') \<Longrightarrow> store_step xxh3 s s'"
| ss_remove: "via_self (store_remove key) s = (u, s') \<Longrightarrow> store_step xxh3 s s'"
| ss_patch: "via_self (patch_metadata key patch) s = (u, s') \<Longrightarrow> store_step xxh3 s s'"
| ss_manual: "via_self (set_manual_provenance key label status) s = (u, s') \<Longrightarrow> store_step xxh3 s s'"

inductive_cases store_stepE: "store_step xxh3 s s'"

definition store_inv :: "game_store \<Rightarrow> bool" where
  "store_inv s \<longleftrightarrow> writer_inv (gs_self s) \<and> writer_inv (gs_writer s) \<and> gw_db (gs_self s) = gw_db (gs_writer s)"

lemma writer_inv_other:
  assumes "good_step w w'" and "writer_inv v" and "gw_db v = gw_db w"
  shows "writer_inv (v\<lparr>gw_db := gw_db w'\<rparr>)"
  using assms unfolding good_step_def writer_inv_def by (auto intro: caches_sound_extends)

lemma via_self_inv:
  assumes "store_inv s" and "via_self m s = (r, s')" and "\<And>r w'. m (gs_self s) = (r, w') \<Longrightarrow> good_step (gs_self s) w'"
  shows "store_inv s'"
proof -
  obtain w where w: "m (gs_self s) = (r, w)" "s' = \<lparr>gs_self = w, gs_writer = (gs_writer s)\<lparr>gw_db := gw_db w\<rparr>\<rparr>"
    using assms(2) by (auto simp: via_self_def split: prod.splits)
  note g = assms(3) [OF w(1)]
  show ?thesis using writer_inv_other [OF g, of "gs_writer s"] g assms(1) w(2) by (simp add: store_inv_def good_step_def)
qed

lemma via_writer_inv:
  assumes "store_inv s" and "via_writer m s = (r, s')" and "\<And>r w'. m (gs_writer s) = (r, w') \<Longrightarrow> good_step (gs_writer s) w'"
  shows "store_inv s'"
proof -
  obtain w where w: "m (gs_writer s) = (r, w)" "s' = \<lparr>gs_self = (gs_self s)\<lparr>gw_db := gw_db w\<rparr>, gs_writer = w\<rparr>"
    using assms(2) by (auto simp: via_writer_def split: prod.splits)
  note g = assms(3) [OF w(1)]
  show ?thesis using writer_inv_other [OF g, of "gs_self s"] g assms(1) w(2) by (simp add: store_inv_def good_step_def)
qed

lemma transaction_inv:
  assumes "store_inv s" and "gs_begin_transaction s = (r, s') \<or> gs_commit_transaction s = (r, s')"
  shows "store_inv s'"
proof -
  obtain w where w: "s' = \<lparr>gs_self = (gs_self s)\<lparr>gw_db := gw_db w\<rparr>, gs_writer = w\<rparr>"
      "begin_transaction (gs_writer s) = (r, w) \<or> commit_transaction (gs_writer s) = (r, w)"
    using assms(2) by (auto simp: gs_begin_transaction_def gs_commit_transaction_def via_writer_def split: prod.splits)
  have "writer_inv w" using w(2) writer_step_inv [OF ws_begin] writer_step_inv [OF ws_commit] assms(1)
    by (metis store_inv_def)
  moreover have "gw_tables w = gw_tables (gs_writer s)"
    using w(2) by (auto simp: begin_transaction_def sql_begin_def commit_transaction_def sql_commit_def Let_def split: if_splits)
  moreover have "caches_sound (gw_tables (gs_writer s)) (gs_self s)" using assms(1) by (auto simp: store_inv_def writer_inv_def)
  ultimately show ?thesis using assms(1) by (simp add: store_inv_def w(1) writer_inv_def)
qed

lemma rollback_inv: "store_inv s \<Longrightarrow> store_inv (gs_rollback_transaction s)"
  by (auto simp: store_inv_def gs_rollback_transaction_def via_writer_def rollback_transaction_def writer_inv_def sql_rollback_def
      clear_insert_caches_def caches_sound_def split: option.splits)

lemma reads_contexts: "reads (get_game_contexts n keys)"
  by (simp add: get_game_contexts_def reads_context_batches)

lemma via_self_keeps: "store_inv s \<Longrightarrow> via_self m s = (r, s') \<Longrightarrow> keeps m \<Longrightarrow> store_inv s'"
  by (rule via_self_inv, assumption+) (auto simp: store_inv_def dest: keeps_good)

lemmas via_self_reads = via_self_keeps [OF _ _ keeps_reads]

lemma store_step_inv: "store_step xxh3 s s' \<Longrightarrow> store_inv s \<Longrightarrow> store_inv s'"
proof (erule store_stepE)
  assume inv: "store_inv s"
  then have w: "writer_inv (gs_self s)" "writer_inv (gs_writer s)" by (simp_all add: store_inv_def)
  show "store_inv s'" if "gs_insert xxh3 g s = (r, s')" for g r
    by (rule via_writer_inv [OF inv that [unfolded gs_insert_def]]) (use gw_insert_effect [OF w(2)] in \<open>unfold good_step_def, blast\<close>)
  show "store_inv s'" if "s' = gs_rollback_transaction s" using that rollback_inv [OF inv] by simp
  show "store_inv s'" if "s' = gs_clear_insert_caches s"
    using that inv by (simp add: store_inv_def gs_clear_insert_caches_def writer_inv_def)
  show "store_inv s'" if "via_self (patch_metadata key patch) s = (u, s')" for key patch u
    using via_self_inv [OF inv that] patch_metadata_effect [OF w(1)] by blast
qed (blast intro: transaction_inv via_self_keeps keeps_store via_self_reads reads_store_get reads_get_provenance reads_contexts
    reads_counts reads_searches)+

lemma store_reachable_inv: "(store_step xxh3)\<^sup>*\<^sup>* s s' \<Longrightarrow> store_inv s \<Longrightarrow> store_inv s'"
  by (induction rule: rtranclp_induct) (auto dest: store_step_inv)

lemma store_inv_new: "sd_tables db = empty_tables \<Longrightarrow> sd_saved db = None \<Longrightarrow> store_inv (new_game_store db)"
  by (simp add: store_inv_def new_game_store_def writer_inv_new)

end
