(* ===== verification/Game_Store_Get.thy ===== *)
theory Game_Store_Get
  imports Game_Store_Inv
begin

text \<open>
  What a reader sees: the game that \<open>get\<close> returns for every state of the tables, that it is the game \<open>insert\<close> was given, and
  that the batched contexts and the replay cursor show the same games.
\<close>

section \<open>Reads on a connection that does not fail\<close>

lemma at_start: "writer_inv w \<Longrightarrow> sd_reliable (gw_db w) \<Longrightarrow> at (sd_saved (gw_db w), gw_tables w) (gw_tables w) w"
  by (simp add: at_def step_inv_def writer_inv_def)

lemma prepared_at:
  assumes "at sv tb w" and "sound_stmt stmt" and "stmt tb = Some (x, tb')"
  shows "\<exists>w'. run_prepared stmt w = (Inr x, w') \<and> at sv tb' w'"
proof -
  obtain w1 where w1: "gw_exec (\<lambda>tb. Some ((), tb)) w = (Inr (), w1)" "at sv tb w1"
    using exec_at [OF assms(1) sound_read [of "\<lambda>_. ()"]] by auto
  obtain w2 where "gw_exec stmt w1 = (Inr x, w2)" "at sv tb' w2" using exec_at [OF w1(2) assms(2,3)] by blast
  then show ?thesis by (simp add: run_prepared_def and_then_def w1)
qed

lemma prepared_at_None:
  assumes "at sv tb w" and "sound_stmt stmt" and "stmt tb = None"
  shows "\<exists>w'. run_prepared stmt w = (unexpected Io_Failure, w') \<and> at sv tb w'"
proof -
  obtain w1 where w1: "gw_exec (\<lambda>tb. Some ((), tb)) w = (Inr (), w1)" "at sv tb w1"
    using exec_at [OF assms(1) sound_read [of "\<lambda>_. ()"]] by auto
  obtain w2 where "gw_run stmt w1 = (None, w2)" "at sv tb w2" using run_at_None [OF w1(2) assms(2,3)] by blast
  then have "gw_exec stmt w1 = (unexpected Io_Failure, w2)" "at sv tb w2" by (simp_all add: gw_exec_def)
  then show ?thesis by (simp add: run_prepared_def and_then_def w1)
qed

lemma query_at: "at sv tb w \<Longrightarrow> \<exists>w'. run_query f w = (Inr (f tb), w') \<and> at sv tb w'"
  unfolding run_query_def by (rule prepared_at [OF _ sound_read]) auto

lemma and_then_at:
  assumes "\<exists>w1. m w = (Inr x, w1) \<and> at sv tb w1" and "\<And>w1. at sv tb w1 \<Longrightarrow> \<exists>w2. f x w1 = (r, w2) \<and> at sv tb' w2"
  shows "\<exists>w2. and_then m f w = (r, w2) \<and> at sv tb' w2"
  using assms by (fastforce simp: and_then_def)

lemma query_then_at:
  assumes "at sv tb w" and "\<And>w1. at sv tb w1 \<Longrightarrow> \<exists>w2. g (f tb) w1 = (r, w2) \<and> at sv tb' w2"
  shows "\<exists>w2. and_then (run_query f) g w = (r, w2) \<and> at sv tb' w2"
proof -
  obtain w1 where w1: "run_query f w = (Inr (f tb), w1)" "at sv tb w1" using query_at [OF assms(1)] by blast
  then show ?thesis using assms(2) [OF w1(2)] by (simp add: and_then_def)
qed

lemma return_at: "at sv tb w \<Longrightarrow> \<exists>w'. return r w = (r, w') \<and> at sv tb w'"
  by (simp add: return_def)

section \<open>\<open>get\<close>\<close>

definition stored_game :: "tables \<Rightarrow> u32 \<Rightarrow> db_game option" where
  "stored_game tb key =
     map_option (\<lambda>g. (read_game g)\<lparr>dg_extra_tags := map (\<lambda>(n, v). (column_text n, column_text v)) (select_game_tags (unat key) tb)\<rparr>)
       (select_game (unat key) tb)"

lemma get_at:
  assumes "at sv tb w"
  shows "\<exists>w'. store_get key w = ((case stored_game tb key of None \<Rightarrow> unexpected Not_Found | Some g \<Rightarrow> Inr g), w') \<and> at sv tb w'"
proof (cases "select_game (unat key) tb")
  case None
  show ?thesis
    unfolding store_get_def
    by (rule query_then_at [OF assms]) (simp add: None stored_game_def return_at)
next
  case (Some g)
  have inner: "\<exists>w2. and_then (run_query (select_game_tags (unat key))) (\<lambda>tags. return
      (Inr ((read_game g)\<lparr>dg_extra_tags := map (\<lambda>(n, v). (column_text n, column_text v)) tags\<rparr>))) w1
      = ((case stored_game tb key of None \<Rightarrow> unexpected Not_Found | Some g \<Rightarrow> Inr g), w2) \<and> at sv tb w2" if "at sv tb w1" for w1
    by (rule query_then_at [OF that]) (simp add: Some stored_game_def return_at)
  show ?thesis
    unfolding store_get_def
    by (rule query_then_at [OF assms]) (use inner in \<open>simp add: Some\<close>)
qed

section \<open>Joins\<close>

lemma entity_at_unique:
  "wf_entities es \<Longrightarrow> e \<in> set es \<Longrightarrow> entity_at (en_id e) es = Some e"
proof (induction es)
  case (Cons a es)
  then show ?case by (auto simp: entity_at_def wf_entities_def)
qed simp

lemma entity_at_Some: "entity_at i es = Some e \<Longrightarrow> e \<in> set es \<and> en_id e = i"
  by (auto simp: entity_at_def find_Some_iff)

lemma entity_at_extends:
  assumes "entity_at i es = Some e" and "set es \<subseteq> set es'" and "wf_entities es'"
  shows "entity_at i es' = Some e"
  using entity_at_unique [OF assms(3), of e] entity_at_Some [OF assms(1)] assms(2) by auto

lemma has_id_entity: "has_id i es \<Longrightarrow> \<exists>e. entity_at i es = Some e"
  by (cases "entity_at i es") (auto simp: has_id_def entity_at_def find_None_iff)

lemma join_game_total:
  assumes "wf_tables tb" and "r \<in> set (tb_games tb)"
  shows "\<exists>w b e. join_game tb r = Some (r, w, b, e)"
  using assms has_id_entity [of "gr_white_id r" "tb_players tb"] has_id_entity [of "gr_black_id r" "tb_players tb"]
  by (auto simp: join_game_def wf_tables_def wf_games_def)

lemma join_game_fst: "join_game tb r = Some g \<Longrightarrow> fst g = r"
  by (auto simp: join_game_def split: option.splits)

text \<open>A join loses no game and keeps the order.\<close>
lemma joined_games_fst:
  assumes "wf_tables tb"
  shows "map fst (joined_games tb) = tb_games tb"
proof -
  have "map fst (List.map_filter (join_game tb) rs) = rs" if "set rs \<subseteq> set (tb_games tb)" for rs
    using that
  proof (induction rs)
    case (Cons r rs)
    obtain w b e where "join_game tb r = Some (r, w, b, e)" using join_game_total [OF assms, of r] Cons.prems by auto
    then show ?case using Cons by (simp add: map_filter_simps)
  qed (simp add: map_filter_simps)
  then show ?thesis by (simp add: joined_games_def)
qed

lemma find_map_filter:
  "(\<And>x y. f x = Some y \<Longrightarrow> Q y = P x) \<Longrightarrow> (\<And>x. x \<in> set xs \<Longrightarrow> f x \<noteq> None)
   \<Longrightarrow> find Q (List.map_filter f xs) = Option.bind (find P xs) f"
proof (induction xs)
  case (Cons x xs)
  obtain y where "f x = Some y" using Cons.prems(2) [of x] by auto
  then show ?case using Cons by (auto simp: map_filter_simps)
qed (simp add: map_filter_simps)

lemma select_game_row:
  assumes "wf_tables tb"
  shows "select_game i tb = Option.bind (find (\<lambda>r. gr_id r = i) (tb_games tb)) (join_game tb)"
  unfolding select_game_def joined_games_def
proof (rule find_map_filter)
  show "(gr_id (fst y) = i) = (gr_id x = i)" if "join_game tb x = Some y" for x y using join_game_fst [OF that] by simp
  show "join_game tb x \<noteq> None" if "x \<in> set (tb_games tb)" for x using join_game_total [OF assms that] by auto
qed

lemma find_id:
  assumes "wf_tables tb" and "r \<in> set (tb_games tb)"
  shows "find (\<lambda>s. gr_id s = gr_id r) (tb_games tb) = Some r"
proof -
  have "find (\<lambda>s. gr_id s = gr_id r) rs = Some r" if "sorted_wrt (<) (map gr_id rs)" "r \<in> set rs" for rs
    using that by (induction rs) auto
  then show ?thesis using assms by (simp add: wf_tables_def wf_games_def)
qed

section \<open>A game that was inserted\<close>

text \<open>The columns of a player or event that is known under its name stay as they are.\<close>
definition known_data :: "string \<Rightarrow> 'data \<Rightarrow> 'data entity list \<Rightarrow> 'data" where
  "known_data name data es = (case find (\<lambda>e. en_name e = name) es of None \<Rightarrow> data | Some e \<Rightarrow> en_data e)"

definition known_player :: "player_data entity list \<Rightarrow> player \<Rightarrow> player" where
  "known_player es p =
     read_player \<lparr>en_id = 0, en_name = pl_name p, en_data = known_data (pl_name p) (pl_elo p, pl_title p, pl_country p) es\<rparr> (pl_elo p)"

definition known_event :: "event_data entity list \<Rightarrow> event \<Rightarrow> event" where
  "known_event es e = read_event \<lparr>en_id = 0, en_name = ev_name e, en_data = known_data (ev_name e) (ev_site e, ev_date e) es\<rparr>"

definition as_entity :: "player \<Rightarrow> player_data entity" where
  "as_entity p = \<lparr>en_id = 0, en_name = pl_name p, en_data = (pl_elo p, pl_title p, pl_country p)\<rparr>"

text \<open>The game that is read back: texts end at a NUL byte, names bring the columns they are known with.\<close>
definition as_stored :: "tables \<Rightarrow> db_game \<Rightarrow> db_game" where
  "as_stored tb g =
     \<lparr>dg_white = known_player (tb_players tb) (dg_white g),
      dg_black = known_player (tb_players tb @ [as_entity (dg_white g)]) (dg_black g),
      dg_event_details = map_option (known_event (tb_events tb)) (dg_event_details g),
      dg_date = map_option column_text (dg_date g), dg_result = column_text (dg_result g),
      dg_eco = map_option column_text (dg_eco g), dg_moves = dg_moves g,
      dg_extra_tags = map (\<lambda>(n, v). (column_text n, column_text v)) (dg_extra_tags g),
      dg_provenance = \<lparr>gp_source_type = column_text (gp_source_type (dg_provenance g)),
        gp_source_label = map_option column_text (gp_source_label (dg_provenance g)),
        gp_review_status = column_text (gp_review_status (dg_provenance g))\<rparr>\<rparr>"

lemma ensure_entity_at:
  assumes "ensure_entity name data es = (i, es')" and "wf_entities es"
  shows "wf_entities es'" and "set es \<subseteq> set es'"
    and "entity_at i es' = Some \<lparr>en_id = i, en_name = name, en_data = known_data name data es\<rparr>"
proof -
  show wf: "wf_entities es'"
  proof (cases "select_id name es")
    case None
    then show ?thesis using insert_entity_Some(1) [OF _ assms(2)] ensure_entity_insert [OF None, of data] assms(1) by auto
  next
    case (Some j)
    then show ?thesis using assms by (simp add: ensure_entity_found)
  qed
  show "set es \<subseteq> set es'" using assms(1) by (auto simp: ensure_entity_def Let_def split: option.splits)
  have "\<lparr>en_id = i, en_name = name, en_data = known_data name data es\<rparr> \<in> set es'"
  proof (cases "find (\<lambda>e. en_name e = name) es")
    case None
    then show ?thesis using assms(1) by (auto simp: ensure_entity_def select_id_def known_data_def Let_def)
  next
    case (Some e)
    then have "e \<in> set es" "en_name e = name" by (auto simp: find_Some_iff)
    moreover have "i = en_id e" "es' = es" using assms(1) Some by (simp_all add: ensure_entity_def select_id_def)
    moreover have "\<lparr>en_id = i, en_name = name, en_data = known_data name data es\<rparr> = e"
      using calculation Some by (intro entity.equality) (simp_all add: known_data_def)
    ultimately show ?thesis by simp
  qed
  from entity_at_unique [OF wf this] show "entity_at i es' = Some \<lparr>en_id = i, en_name = name, en_data = known_data name data es\<rparr>" by simp
qed

lemma known_data_ensured:
  assumes "ensure_entity (pl_name p) (pl_elo p, pl_title p, pl_country p) es = (i, es')"
  shows "known_data name data es' = known_data name data (es @ [as_entity p])"
proof (cases "find (\<lambda>e. en_name e = pl_name p) es")
  case None
  then show ?thesis
    using assms by (auto simp: ensure_entity_def select_id_def Let_def known_data_def as_entity_def find_append split: option.splits)
next
  case (Some e)
  then have "es' = es" using assms by (simp add: ensure_entity_def select_id_def)
  moreover have "find (\<lambda>e. en_name e = name) es \<noteq> None" if "name = pl_name p" using Some that by simp
  ultimately show ?thesis by (auto simp: known_data_def as_entity_def find_append split: option.splits)
qed

lemma join_resolved:
  assumes wf: "wf_tables tb" and res: "resolve_game xxh3 g tb = (p, tb1)"
    and wf2: "wf_tables tb2" and same: "tb_players tb2 = tb_players tb1" "tb_events tb2 = tb_events tb1"
  shows "\<exists>w b e. join_game tb2 (p\<lparr>gr_identity_collision := c, gr_id := i\<rparr>)
        = Some (p\<lparr>gr_identity_collision := c, gr_id := i\<rparr>, w, b, e)
     \<and> read_player w (pl_elo (dg_white g)) = known_player (tb_players tb) (dg_white g)
     \<and> read_player b (pl_elo (dg_black g)) = known_player (tb_players tb @ [as_entity (dg_white g)]) (dg_black g)
     \<and> map_option read_event e = map_option (known_event (tb_events tb)) (dg_event_details g)"
proof -
  obtain wi ps1 where w: "ensure_entity (pl_name (dg_white g)) (pl_elo (dg_white g), pl_title (dg_white g), pl_country (dg_white g))
      (tb_players tb) = (wi, ps1)" by force
  obtain bi ps2 where b: "ensure_entity (pl_name (dg_black g)) (pl_elo (dg_black g), pl_title (dg_black g), pl_country (dg_black g))
      ps1 = (bi, ps2)" by force
  obtain ei es where e: "ensure_event (dg_event_details g) (tb\<lparr>tb_players := ps2\<rparr>) = (ei, es)" by force
  have p: "p = bound_game xxh3 g wi bi ei" "tb1 = es" using res by (simp_all add: resolve_game_def ensure_player_def w b e)
  have wfe: "wf_entities (tb_players tb)" "wf_entities (tb_events tb)" "wf_entities (tb_players tb2)" "wf_entities (tb_events tb2)"
    using wf wf2 by (simp_all add: wf_tables_def)
  note w' = ensure_entity_at [OF w wfe(1)]
  note b' = ensure_entity_at [OF b w'(1)]
  have players: "tb_players tb2 = ps2" using e same(1) p(2) by (auto simp: ensure_event_def split: option.splits prod.splits)
  have white: "entity_at wi (tb_players tb2) = Some \<lparr>en_id = wi, en_name = pl_name (dg_white g),
      en_data = known_data (pl_name (dg_white g)) (pl_elo (dg_white g), pl_title (dg_white g), pl_country (dg_white g)) (tb_players tb)\<rparr>"
    using entity_at_extends [OF w'(3) b'(2) b'(1)] players by simp
  have event: "map_option read_event (Option.bind ei (\<lambda>e. entity_at e (tb_events tb2)))
      = map_option (known_event (tb_events tb)) (dg_event_details g)"
  proof (cases "dg_event_details g")
    case None
    then show ?thesis using e by (simp add: ensure_event_def)
  next
    case (Some evt)
    then obtain j es' where j: "ensure_entity (ev_name evt) (ev_site evt, ev_date evt) (tb_events tb) = (j, es')" "ei = Some j"
        "tb_events es = es'" using e by (auto simp: ensure_event_def split: prod.splits)
    then show ?thesis using ensure_entity_at(3) [OF j(1) wfe(2)] Some same(2) p(2) by (simp add: known_event_def read_event_def)
  qed
  show ?thesis
    using white b'(3) players event known_data_ensured [OF w]
    by (auto simp: join_game_def p bound_game_def known_player_def read_player_def)
qed

section \<open>Tags\<close>

lemma select_game_tags_extends:
  assumes "wf_tables tb" and "wf_tables tb'" and "set (tb_tags tb) \<subseteq> set (tb_tags tb')" and "tb_game_tags tb' = tb_game_tags tb"
  shows "select_game_tags i tb' = select_game_tags i tb"
proof -
  have "entity_at (gt_tag_id t) (tb_tags tb') = entity_at (gt_tag_id t) (tb_tags tb)" if t: "t \<in> set (tb_game_tags tb)" for t
  proof -
    have "has_id (gt_tag_id t) (tb_tags tb)" using assms(1) t by (auto simp: wf_tables_def wf_game_tags_def)
    then obtain e where e: "entity_at (gt_tag_id t) (tb_tags tb) = Some e" using has_id_entity by blast
    from entity_at_extends [OF e assms(3)] assms(2) e show ?thesis by (simp add: wf_tables_def)
  qed
  then show ?thesis unfolding select_game_tags_def assms(4) List.map_filter_def by (auto intro!: map_cong filter_cong)
qed

lemma select_game_tags_snoc:
  assumes "entity_at t (tb_tags tb) = Some e"
  shows "select_game_tags i (tb\<lparr>tb_game_tags := tb_game_tags tb @ [\<lparr>gt_game_id = i, gt_tag_id = t, gt_value = v\<rparr>]\<rparr>)
    = select_game_tags i tb @ [(en_name e, v)]"
  using assms by (simp add: select_game_tags_def map_filter_def)

text \<open>Tags are read back in the order in which they were stored.\<close>
lemma store_tags_read:
  assumes "wf_tables tb" and "store_tags gid tags tb = (True, tb')"
  shows "wf_tables tb' \<and> select_game_tags gid tb' = select_game_tags gid tb @ tags"
  using assms
proof (induction tags arbitrary: tb)
  case (Cons tag tags)
  obtain i tb1 where t: "ensure_tag (fst tag) tb = (i, tb1)" by force
  note k = ensure_tag_kept [OF Cons.prems(1) t]
  obtain u tb2 where s: "insert_game_tag gid i (snd tag) tb1 = Some (u, tb2)" "store_tags gid tags tb2 = (True, tb')"
    using Cons.prems(2) by (auto simp: t split: option.splits)
  obtain e where e: "e \<in> set (tb_tags tb1)" "en_id e = i" "en_name e = fst tag" using k(4) by (auto simp: entry_def)
  have "wf_entities (tb_tags tb1)" using k(1) by (simp add: wf_tables_def)
  then have ei: "entity_at i (tb_tags tb1) = Some e" using entity_at_unique [of "tb_tags tb1" e] e by simp
  have "tb_game_tags tb1 = tb_game_tags tb" using arg_cong [OF k(2), of tb_game_tags] by simp
  then have "select_game_tags gid tb2 = select_game_tags gid tb @ [tag]"
    using select_game_tags_extends [OF Cons.prems(1) k(1) k(3)] select_game_tags_snoc [OF ei, of gid "snd tag"] e(3)
    by (simp add: insert_game_tag_kept [OF s(1)])
  then show ?case using Cons.IH [OF insert_game_tag_Some [OF s(1) k(1)] s(2)] by simp
qed simp

lemma store_tags_other:
  assumes "wf_tables tb" and "store_tags gid tags tb = (ok, tb')" and "j \<noteq> gid"
  shows "select_game_tags j tb' = select_game_tags j tb"
  using assms(1,2)
proof (induction tags arbitrary: tb)
  case (Cons tag tags)
  obtain i tb1 where t: "ensure_tag (fst tag) tb = (i, tb1)" by force
  note k = ensure_tag_kept [OF Cons.prems(1) t]
  have same: "select_game_tags j tb1 = select_game_tags j tb"
    using select_game_tags_extends [OF Cons.prems(1) k(1) k(3)] arg_cong [OF k(2), of tb_game_tags] by simp
  show ?case
  proof (cases "insert_game_tag gid i (snd tag) tb1")
    case None
    then show ?thesis using Cons.prems(2) same by (simp add: t)
  next
    case (Some r)
    obtain u tb2 where r: "r = (u, tb2)" by (cases r)
    have "select_game_tags j tb2 = select_game_tags j tb1"
      using assms(3) by (simp add: insert_game_tag_kept [OF Some [unfolded r]] select_game_tags_def)
    then show ?thesis using Cons.IH [OF insert_game_tag_Some [OF Some [unfolded r] k(1)]] Cons.prems(2) same by (simp add: t Some r)
  qed
qed simp

text \<open>A successful insert: the row, its tags and the tables around it.\<close>
lemma store_game_Inr:
  assumes "wf_tables tb" and "store_game insert_game_sql xxh3 g tb = (Inr i, tb')"
    and "next_rowid (map gr_id (tb_games tb)) < 2 ^ 32"
  obtains p tb1 row c where "resolve_game xxh3 g tb = (p, tb1)" "row = p\<lparr>gr_identity_collision := c, gr_id := unat i\<rparr>"
    "tb_games tb' = tb_games tb @ [row]" "tb_players tb' = tb_players tb1" "tb_events tb' = tb_events tb1" "wf_tables tb'"
    "unat i \<notin> gr_id ` set (tb_games tb)" "select_game_tags (unat i) tb' = dg_extra_tags g"
    "\<forall>j. j \<noteq> unat i \<longrightarrow> select_game_tags j tb' = select_game_tags j tb"
proof -
  obtain p tb1 where r: "resolve_game xxh3 g tb = (p, tb1)" by force
  note wf1 = resolve_game_wf [OF assms(1) r]
  obtain rowid tb2 where s: "insert_game_sql p tb1 = Some (Some rowid, tb2)" "i = of_nat rowid"
      "store_tags (unat (of_nat rowid :: u32)) (dg_extra_tags g) tb2 = (True, tb')"
    using assms(2) by (auto simp: store_game_def r split: option.splits prod.splits if_splits)
  define c where "c = next_collision p (tb_games tb1)"
  have ins: "insert_game_row (p\<lparr>gr_identity_collision := c\<rparr>) tb1 = Some (rowid, tb2)"
    using s(1) by (auto simp: insert_game_sql_def c_def split: if_splits)
  note row = insert_game_row_Some [OF ins wf1(1)]
  have games: "tb_games tb1 = tb_games tb" "tb_tags tb1 = tb_tags tb" "tb_game_tags tb1 = tb_game_tags tb"
    using arg_cong [OF wf1(5), of tb_games] arg_cong [OF wf1(5), of tb_tags] arg_cong [OF wf1(5), of tb_game_tags] by simp_all
  have "rowid = next_rowid (map gr_id (tb_games tb))"
    using ins by (auto simp: insert_game_row_def Let_def games split: if_splits)
  then have i: "unat i = rowid" using assms(3) s(2) by (simp add: unat_of_nat take_bit_nat_eq_self)
  note tags = store_tags_read [OF row(1) s(3)] and kept = store_tags_games [of "unat i" "dg_extra_tags g" tb2]
  have tb2: "tb_games tb2 = tb_games tb @ [p\<lparr>gr_identity_collision := c, gr_id := unat i\<rparr>]" "tb_players tb2 = tb_players tb1"
      "tb_events tb2 = tb_events tb1" "tb_game_tags tb2 = tb_game_tags tb" "tb_tags tb2 = tb_tags tb"
    using row(2) games i by simp_all
  have "select_game_tags (unat i) tb2 = []"
  proof -
    have "gt_game_id t \<noteq> unat i" if "t \<in> set (tb_game_tags tb)" for t
    proof -
      have "gt_game_id t \<in> gr_id ` set (tb_games tb)" using assms(1) that by (simp add: wf_tables_def wf_game_tags_def)
      then show ?thesis using row(3) games(1) i by metis
    qed
    then show ?thesis by (auto simp: select_game_tags_def tb2 map_filter_def filter_empty_conv)
  qed
  moreover have "select_game_tags j tb2 = select_game_tags j tb" for j by (simp add: select_game_tags_def tb2)
  ultimately show thesis
    using tags kept row(3) s(2,3) i games tb2 store_tags_other [OF row(1) s(3)]
    by (intro that [OF r refl, of c]) simp_all
qed

lemma stored_game_row:
  assumes "wf_tables tb" and "r \<in> set (tb_games tb)" and "gr_id r = unat key" and "join_game tb r = Some g"
  shows "stored_game tb key = Some ((read_game g)\<lparr>dg_extra_tags :=
     map (\<lambda>(n, v). (column_text n, column_text v)) (select_game_tags (unat key) tb)\<rparr>)"
  using assms find_id [OF assms(1,2)] by (simp add: stored_game_def select_game_row)

lemma stored_game_None:
  assumes "wf_tables tb"
  shows "stored_game tb key = None \<longleftrightarrow> unat key \<notin> gr_id ` set (tb_games tb)"
proof (cases "find (\<lambda>r. gr_id r = unat key) (tb_games tb)")
  case None
  moreover from this have "unat key \<notin> gr_id ` set (tb_games tb)" by (auto simp: find_None_iff)
  ultimately show ?thesis by (simp add: stored_game_def select_game_row [OF assms])
next
  case (Some r)
  note r = find_row [OF Some]
  obtain w b e where "join_game tb r = Some (r, w, b, e)" using join_game_total [OF assms] r by blast
  moreover have "unat key \<in> gr_id ` set (tb_games tb)" using r by (metis image_eqI)
  ultimately show ?thesis by (simp add: stored_game_def select_game_row [OF assms] Some)
qed

lemma ensure_entity_subset: "ensure_entity name data es = (i, es') \<Longrightarrow> set es \<subseteq> set es'"
  by (auto simp: ensure_entity_def Let_def split: option.splits)

lemma resolve_extends:
  "resolve_game xxh3 g tb = (p, tb') \<Longrightarrow> set (tb_players tb) \<subseteq> set (tb_players tb') \<and> set (tb_events tb) \<subseteq> set (tb_events tb')"
  by (auto simp: resolve_game_def ensure_player_def ensure_event_def Let_def split: prod.splits option.splits
      dest!: ensure_entity_subset) blast+

lemma join_game_extends:
  assumes "wf_tables tb" and "wf_tables tb'" and "r \<in> set (tb_games tb)"
    and "set (tb_players tb) \<subseteq> set (tb_players tb')" and "set (tb_events tb) \<subseteq> set (tb_events tb')"
  shows "join_game tb' r = join_game tb r"
proof -
  have wf: "wf_entities (tb_players tb')" "wf_entities (tb_events tb')" using assms(2) by (simp_all add: wf_tables_def)
  have p: "entity_at i (tb_players tb') = entity_at i (tb_players tb)" if "has_id i (tb_players tb)" for i
    using has_id_entity [OF that] entity_at_extends [OF _ assms(4) wf(1)] by force
  have e: "entity_at i (tb_events tb') = entity_at i (tb_events tb)" if "has_id i (tb_events tb)" for i
    using has_id_entity [OF that] entity_at_extends [OF _ assms(5) wf(2)] by force
  have ids: "has_id (gr_white_id r) (tb_players tb)" "has_id (gr_black_id r) (tb_players tb)"
      "\<And>i. gr_event_id r = Some i \<Longrightarrow> has_id i (tb_events tb)" using assms(1,3) by (auto simp: wf_tables_def wf_games_def)
  have "Option.bind (gr_event_id r) (\<lambda>e. entity_at e (tb_events tb')) = Option.bind (gr_event_id r) (\<lambda>e. entity_at e (tb_events tb))"
    using e ids(3) by (cases "gr_event_id r") auto
  then show ?thesis by (simp add: join_game_def p [OF ids(1)] p [OF ids(2)] split: option.split)
qed

lemma stored_after_insert:
  assumes "wf_tables tb" and "store_game insert_game_sql xxh3 g tb = (Inr i, tb')" and "next_rowid (map gr_id (tb_games tb)) < 2 ^ 32"
  shows "stored_game tb' i = Some (as_stored tb g)"
proof -
  obtain p tb1 row c where s: "resolve_game xxh3 g tb = (p, tb1)" "row = p\<lparr>gr_identity_collision := c, gr_id := unat i\<rparr>"
    "tb_games tb' = tb_games tb @ [row]" "tb_players tb' = tb_players tb1" "tb_events tb' = tb_events tb1" "wf_tables tb'"
    "unat i \<notin> gr_id ` set (tb_games tb)" "select_game_tags (unat i) tb' = dg_extra_tags g"
    "\<forall>j. j \<noteq> unat i \<longrightarrow> select_game_tags j tb' = select_game_tags j tb" by (rule store_game_Inr [OF assms(1-3)])
  obtain w b e where j: "join_game tb' row = Some (row, w, b, e)"
      "read_player w (pl_elo (dg_white g)) = known_player (tb_players tb) (dg_white g)"
      "read_player b (pl_elo (dg_black g)) = known_player (tb_players tb @ [as_entity (dg_white g)]) (dg_black g)"
      "map_option read_event e = map_option (known_event (tb_events tb)) (dg_event_details g)"
    using join_resolved [OF assms(1) s(1) s(6) s(4,5)] s(2) by metis
  obtain wi bi ei where p: "p = bound_game xxh3 g wi bi ei"
    using s(1) by (auto simp: resolve_game_def Let_def split: prod.splits)
  show ?thesis
    using stored_game_row [OF s(6) _ _ j(1)] s(2,3,8) j(2-4) by (simp add: p bound_game_def as_stored_def read_provenance_def)
qed

lemma stored_other_after_insert:
  assumes "wf_tables tb" and "store_game insert_game_sql xxh3 g tb = (Inr i, tb')" and "next_rowid (map gr_id (tb_games tb)) < 2 ^ 32"
    and "key \<noteq> i"
  shows "stored_game tb' key = stored_game tb key"
proof -
  obtain p tb1 row c where s: "resolve_game xxh3 g tb = (p, tb1)" "row = p\<lparr>gr_identity_collision := c, gr_id := unat i\<rparr>"
    "tb_games tb' = tb_games tb @ [row]" "tb_players tb' = tb_players tb1" "tb_events tb' = tb_events tb1" "wf_tables tb'"
    "unat i \<notin> gr_id ` set (tb_games tb)" "select_game_tags (unat i) tb' = dg_extra_tags g"
    "\<forall>j. j \<noteq> unat i \<longrightarrow> select_game_tags j tb' = select_game_tags j tb" by (rule store_game_Inr [OF assms(1-3)])
  have key: "unat key \<noteq> unat i" using assms(4) by (simp add: word_unat_eq_iff)
  show ?thesis
  proof (cases "find (\<lambda>r. gr_id r = unat key) (tb_games tb)")
    case None
    then have "unat key \<notin> gr_id ` set (tb_games tb)" by (auto simp: find_None_iff)
    then have "stored_game tb key = None" "stored_game tb' key = None"
      using stored_game_None [OF assms(1), of key] stored_game_None [OF s(6), of key] key by (auto simp: s(2,3))
    then show ?thesis by simp
  next
    case (Some r)
    note r = find_row [OF Some]
    obtain w b e where j: "join_game tb r = Some (r, w, b, e)" using join_game_total [OF assms(1)] r by blast
    have "join_game tb' r = join_game tb r"
      using join_game_extends [OF assms(1) s(6)] r resolve_extends [OF s(1)] s(4,5) by simp
    then show ?thesis
      using stored_game_row [OF assms(1) _ _ j] stored_game_row [OF s(6), of r key "(r, w, b, e)"] r s(3,9) key j by simp
  qed
qed

lemma fst_via [simp]: "fst (via_self m s) = fst (m (gs_self s))" "fst (via_writer m s) = fst (m (gs_writer s))"
  by (simp_all add: via_self_def via_writer_def split: prod.splits)

abbreviation gs_tables :: "game_store \<Rightarrow> tables" where
  "gs_tables s \<equiv> gw_tables (gs_self s)"

text \<open>A store on a connection that works.\<close>
definition store_ready :: "game_store \<Rightarrow> bool" where
  "store_ready s \<longleftrightarrow> store_inv s \<and> sd_reliable (gw_db (gs_self s))"

lemma ready_at: "store_ready s \<Longrightarrow> at (sd_saved (gw_db (gs_self s)), gs_tables s) (gs_tables s) (gs_self s)"
  by (rule at_start) (auto simp: store_ready_def store_inv_def)

lemma ready_wf: "store_ready s \<Longrightarrow> wf_tables (gs_tables s)"
  by (simp add: store_ready_def store_inv_def writer_inv_def)

lemma get_ready:
  "store_ready s \<Longrightarrow> fst (via_self (store_get key) s) = (case stored_game (gs_tables s) key of None \<Rightarrow> unexpected Not_Found | Some g \<Rightarrow> Inr g)"
  using get_at [OF ready_at, of s key] by auto

text \<open>An insert through the store is the insert of the specification on its tables.\<close>
lemma gs_insert_ready:
  assumes "store_ready s" and "gs_insert xxh3 g s = (Inr i, s')"
  shows "store_ready s'" and "store_game insert_game_sql xxh3 g (gs_tables s) = (Inr i, gs_tables s')"
proof -
  have inv: "store_inv s" "writer_inv (gs_writer s)" "gw_db (gs_self s) = gw_db (gs_writer s)" "sd_reliable (gw_db (gs_writer s))"
    using assms(1) by (auto simp: store_ready_def store_inv_def)
  obtain w' where w': "gw_insert xxh3 g (gs_writer s) = (Inr i, w')" "s' = \<lparr>gs_self = (gs_self s)\<lparr>gw_db := gw_db w'\<rparr>, gs_writer = w'\<rparr>"
    using assms(2) by (auto simp: gs_insert_def via_writer_def split: prod.splits)
  obtain w1 where w1: "gw_insert xxh3 g (gs_writer s) = (fst (store_game insert_game_sql xxh3 g (gs_tables s)), w1)" "sd_reliable (gw_db w1)"
      "gw_tables w1 = (if sd_saved (gw_db (gs_writer s)) = None \<and> isl (fst (store_game insert_game_sql xxh3 g (gs_tables s)))
         then gs_tables s else snd (store_game insert_game_sql xxh3 g (gs_tables s)))"
    using gw_insert_refines [OF inv(2,4), of xxh3 g] inv(3) by auto
  have fst: "fst (store_game insert_game_sql xxh3 g (gs_tables s)) = Inr i" "w' = w1" using w1(1) w'(1) by simp_all
  then have r: "fst (store_game insert_game_sql xxh3 g (gs_tables s)) = Inr i" "gw_tables w' = snd (store_game insert_game_sql xxh3 g (gs_tables s))"
      "sd_reliable (gw_db w')"
    using w1(2,3) by simp_all
  have "store_step xxh3 s s'" using assms(2) by (rule ss_insert)
  then show "store_ready s'" using store_step_inv inv(1) r(3) w'(2) by (auto simp: store_ready_def)
  show "store_game insert_game_sql xxh3 g (gs_tables s) = (Inr i, gs_tables s')"
    using r(1,2) w'(2) by (simp add: prod_eq_iff)
qed

definition store_reachable :: "(u16 list \<Rightarrow> u64) \<Rightarrow> game_store \<Rightarrow> bool" where
  "store_reachable xxh3 s \<longleftrightarrow>
     (\<exists>db. sd_tables db = empty_tables \<and> sd_saved db = None \<and> (store_step xxh3)\<^sup>*\<^sup>* (new_game_store db) s)"

lemma store_reachable_ready: "store_reachable xxh3 s \<Longrightarrow> sd_reliable (gw_db (gs_self s)) \<Longrightarrow> store_ready s"
  by (auto simp: store_reachable_def store_ready_def intro: store_reachable_inv store_inv_new)

text \<open>
  C30: A game that the store of a new database has accepted after any history reads back as it was given: \<open>get\<close> returns its
  moves, ratings, result, date, ECO code, tags in their order and provenance, with every text up to its first NUL byte, and with
  the title, country, site and date under which its players and event were known before; every other game reads as before. The
  new row number has to fit the 32 bits of a game id.\<close>
theorem inserted_game_reads_back:
  assumes "store_reachable xxh3 s" and "sd_reliable (gw_db (gs_self s))" and "gs_insert xxh3 g s = (Inr i, s')"
    and "next_rowid (map gr_id (tb_games (sd_tables (gw_db (gs_self s))))) < 2 ^ 32"
  shows "fst (via_self (store_get i) s') = Inr (as_stored (sd_tables (gw_db (gs_self s))) g)
     \<and> (\<forall>key. key \<noteq> i \<longrightarrow> fst (via_self (store_get key) s') = fst (via_self (store_get key) s))"
proof -
  have s: "store_ready s" by (rule store_reachable_ready [OF assms(1,2)])
  note s' = gs_insert_ready [OF s assms(3)]
  show ?thesis
    using stored_after_insert [OF ready_wf [OF s] s'(2) assms(4)] stored_other_after_insert [OF ready_wf [OF s] s'(2) assms(4)]
    by (simp add: get_ready [OF s] get_ready [OF s'(1)] del: fst_via)
qed

section \<open>Contexts\<close>

lemma fold_emplace: "fold emplace kvs m = (\<lambda>k. case m k of None \<Rightarrow> map_of kvs k | Some v \<Rightarrow> Some v)"
proof (induction kvs arbitrary: m)
  case Nil
  show ?case by (rule ext) (simp split: option.splits)
next
  case (Cons kv kvs)
  show ?case unfolding fold_simps(2) Cons.IH by (rule ext) (auto simp: emplace_def split: option.splits)
qed

definition context_of :: "tables \<Rightarrow> u32 \<Rightarrow> game_context option" where
  "context_of tb key = map_option (read_context tb) (find (\<lambda>r. gr_id r = unat key) (tb_games tb))"

lemma map_of_rows:
  "map_of (map (\<lambda>r. (f r, h r)) (filter P rs)) k = map_option h (find (\<lambda>r. P r \<and> f r = k) rs)"
  by (induction rs) auto

lemma select_contexts_map:
  assumes "\<And>r. r \<in> set (tb_games tb) \<Longrightarrow> gr_id r < 2 ^ 32"
  shows "map_of (select_contexts ids tb) key = (if unat key \<in> set ids then context_of tb key else None)"
proof -
  have eq: "of_nat (gr_id r) = key \<longleftrightarrow> gr_id r = unat key" if "r \<in> set (tb_games tb)" for r
    using assms [OF that] by (auto simp: unat_of_nat take_bit_nat_eq_self)
  have "find (\<lambda>r. gr_id r \<in> set ids \<and> of_nat (gr_id r) = key) (tb_games tb)
      = (if unat key \<in> set ids then find (\<lambda>r. gr_id r = unat key) (tb_games tb) else None)"
    using eq by (auto simp: find_None_iff intro!: find_cong)
  then show ?thesis by (simp add: select_contexts_def map_of_rows context_of_def)
qed

lemma context_batches_at:
  assumes "at sv tb w" and "\<And>r. r \<in> set (tb_games tb) \<Longrightarrow> gr_id r < 2 ^ 32"
  shows "\<exists>w'. context_batches bs out w = (Inr (\<lambda>k. case out k of Some v \<Rightarrow> Some v
      | None \<Rightarrow> (if k \<in> set (concat bs) then context_of tb k else None)), w') \<and> at sv tb w'"
  using assms(1)
proof (induction bs arbitrary: out w)
  case Nil
  have "(\<lambda>k. case out k of Some v \<Rightarrow> Some v | None \<Rightarrow> (if k \<in> set (concat []) then context_of tb k else None)) = out"
    by (rule ext) (simp split: option.splits)
  then show ?case using Nil by simp
next
  case (Cons b bs)
  obtain w1 where w1: "run_query (select_contexts (map unat b)) w = (Inr (select_contexts (map unat b) tb), w1)" "at sv tb w1"
    using query_at [OF Cons.prems] by blast
  have b: "unat k \<in> set (map unat b) \<longleftrightarrow> k \<in> set b" for k by (auto simp: word_unat_eq_iff [symmetric])
  have "fold emplace (select_contexts (map unat b) tb) out
      = (\<lambda>k. case out k of Some v \<Rightarrow> Some v | None \<Rightarrow> (if k \<in> set b then context_of tb k else None))"
    unfolding fold_emplace by (rule ext) (simp add: select_contexts_map [OF assms(2)] b del: set_map split: option.splits)
  moreover obtain w2 where "context_batches bs (fold emplace (select_contexts (map unat b) tb) out) w1
      = (Inr (\<lambda>k. case fold emplace (select_contexts (map unat b) tb) out k of Some v \<Rightarrow> Some v
          | None \<Rightarrow> (if k \<in> set (concat bs) then context_of tb k else None)), w2)" "at sv tb w2"
    using Cons.IH [OF w1(2)] by blast
  ultimately show ?case by (auto simp: and_then_def w1(1) fun_eq_iff split: option.splits)
qed

lemma concat_batches: "0 < n \<Longrightarrow> concat (batches n xs) = xs"
proof (induction n xs rule: batches.induct)
  case (1 n xs)
  then show ?case by (cases "xs = []") (simp_all add: batches.simps [of n xs] batches.simps [of n "[]"])
qed

lemma get_game_contexts_at:
  assumes "at sv tb w" and "\<And>r. r \<in> set (tb_games tb) \<Longrightarrow> gr_id r < 2 ^ 32"
  shows "\<exists>w'. get_game_contexts n keys w = (Inr (\<lambda>k. if k \<in> set keys then context_of tb k else None), w') \<and> at sv tb w'"
  using context_batches_at [OF assms, of "batches (parameter_batch n) keys" Map.empty]
  by (simp add: get_game_contexts_def concat_batches parameter_batch_def)

text \<open>
  \<open>get_game_contexts\<close> answers for exactly the requested games that \<open>get\<close> finds, with the ECO code and moves that \<open>get\<close>
  returns for them, however the requests fall into statements and whether or not a key is requested twice.\<close>
theorem contexts_agree_with_get:
  assumes "store_reachable xxh3 s" and "sd_reliable (gw_db (gs_self s))"
    and "list_all (\<lambda>r. gr_id r < 2 ^ 32) (tb_games (sd_tables (gw_db (gs_self s))))"
  shows "\<exists>contexts. fst (via_self (get_game_contexts max_params keys) s) = Inr contexts
     \<and> (\<forall>key. (\<exists>g. key \<in> set keys \<and> fst (via_self (store_get key) s) = Inr g \<and> map_option gc_eco (contexts key) = Some (dg_eco g)
            \<and> map_option gc_moves (contexts key) = Some (dg_moves g))
          \<or> (contexts key = None \<and> (key \<in> set keys \<longrightarrow> fst (via_self (store_get key) s) = unexpected Not_Found)))"
proof -
  have s: "store_ready s" by (rule store_reachable_ready [OF assms(1,2)])
  let ?tb = "gs_tables s"
  have ids: "gr_id r < 2 ^ 32" if "r \<in> set (tb_games ?tb)" for r using assms(3) that by (simp add: list_all_iff)
  have c: "fst (via_self (get_game_contexts max_params keys) s) = Inr (\<lambda>k. if k \<in> set keys then context_of ?tb k else None)"
    using get_game_contexts_at [OF ready_at [OF s] ids, of max_params keys] by auto
  have "(\<exists>g. fst (via_self (store_get key) s) = Inr g \<and> map_option gc_eco (context_of ?tb key) = Some (dg_eco g)
            \<and> map_option gc_moves (context_of ?tb key) = Some (dg_moves g))
        \<or> (context_of ?tb key = None \<and> fst (via_self (store_get key) s) = unexpected Not_Found)" for key
  proof (cases "find (\<lambda>r. gr_id r = unat key) (tb_games ?tb)")
    case None
    then show ?thesis
      using get_ready [OF s, of key] by (simp add: context_of_def stored_game_def select_game_row [OF ready_wf [OF s]])
  next
    case (Some r)
    note r = find_row [OF Some]
    obtain w b e where j: "join_game ?tb r = Some (r, w, b, e)" using join_game_total [OF ready_wf [OF s]] r by blast
    from stored_game_row [OF ready_wf [OF s] _ _ j, of key] r get_ready [OF s, of key] show ?thesis
      by (simp add: context_of_def Some read_context_def)
  qed
  then show ?thesis unfolding c by auto
qed

end
