(* ===== verification/Game_Store_Search.thy ===== *)
theory Game_Store_Search
  imports Game_Store_Get
begin

text \<open>
  The searches over the games: the page that \<open>find_games\<close> returns, that its pages together list every matching game once and
  in order, and the search among given ids.
\<close>

section \<open>The page of a search\<close>

lemma in_read_txn_at:
  assumes body: "\<And>sv w. at sv tb w \<Longrightarrow> \<exists>w'. body w = (r, w') \<and> at sv tb w'"
    and "writer_inv w" and "sd_reliable (gw_db w)" and "gw_tables w = tb"
  shows "fst (in_read_txn body w) = map_sum id snd r"
proof (cases "sd_saved (gw_db w)")
  case None
  define db where "db = (gw_db w)\<lparr>sd_clock := sd_clock (gw_db w) + 1, sd_saved := Some tb\<rparr>"
  have g: "txn_guard (gw_db w) = (Some True, db)"
    using None assms(3,4) by (simp add: txn_guard_def sql_begin_def Let_def sd_reliable_def db_def)
  have "at (Some tb, tb) tb (w\<lparr>gw_db := db\<rparr>)" using assms(2-4) by (simp add: at_def step_inv_def writer_inv_def db_def sd_reliable_def)
  from body [OF this] obtain w1 where w1: "body (w\<lparr>gw_db := db\<rparr>) = (r, w1)" "at (Some tb, tb) tb w1" by blast
  have "fst (sql_commit (gw_db w1))" using w1(2) by (simp add: sql_commit_def Let_def at_def step_inv_def sd_reliable_def)
  then show ?thesis
    using w1(1) by (cases r) (auto simp: in_read_txn_def g txn_commit_def split: prod.splits bool.splits)
next
  case (Some tb0)
  have "at (sd_saved (gw_db w), tb) tb w" using assms(2-4) by (simp add: at_def step_inv_def writer_inv_def)
  from body [OF this] obtain w1 where "body w = (r, w1)" by blast
  then show ?thesis
    using Some by (cases r) (auto simp: in_read_txn_def txn_guard_def txn_commit_def split: prod.splits bool.splits)
qed

definition search_page :: "nat list option \<Rightarrow> search_filter \<Rightarrow> tables \<Rightarrow> game_list_result" where
  "search_page ids f tb =
     \<lparr>gl_games = map read_game_list_entry (take (unat (min (sf_limit f) max_search_limit))
        (drop (unat (sf_offset f)) (order_games f (matching_games ids f tb)))),
      gl_total_count = length (matching_games ids f tb)\<rparr>"

lemma length_order_games [simp]: "length (order_games f gs) = length gs"
  by (simp add: order_games_def Let_def)

lemma order_games_Nil [simp]: "order_games f [] = []"
  by (simp add: order_games_def Let_def)

text \<open>Returning early makes no difference to the page.\<close>
lemma page_body_at:
  assumes "at sv tb w" and "\<And>w. at sv tb w \<Longrightarrow> \<exists>w'. counting w = (Inr (length (matching_games ids f tb)), w') \<and> at sv tb w'"
  shows "\<exists>w'. page_body counting ids f (min (sf_limit f) max_search_limit) w
      = (Inr (matching_games ids f tb \<noteq> [] \<and> min (sf_limit f) max_search_limit \<noteq> 0, search_page ids f tb), w') \<and> at sv tb w'"
  unfolding page_body_def
proof (rule and_then_at, rule assms(2) [OF assms(1)])
  fix w1 assume w1: "at sv tb w1"
  let ?l = "min (sf_limit f) max_search_limit" and ?ms = "matching_games ids f tb"
  show "\<exists>w2. (if length ?ms = 0 \<or> ?l = 0 then return (Inr (False, \<lparr>gl_games = [], gl_total_count = length ?ms\<rparr>))
        else and_then (fetch_game_list_page ids f ?l) (\<lambda>entries. return (Inr (True, \<lparr>gl_games = entries, gl_total_count = length ?ms\<rparr>)))) w1
      = (Inr (?ms \<noteq> [] \<and> ?l \<noteq> 0, search_page ids f tb), w2) \<and> at sv tb w2"
  proof (cases "length ?ms = 0 \<or> ?l = 0")
    case True
    then have "search_page ids f tb = \<lparr>gl_games = [], gl_total_count = length ?ms\<rparr>" by (auto simp: search_page_def)
    then show ?thesis using True w1 by (auto simp: return_def)
  next
    case False
    show ?thesis
      unfolding fetch_game_list_page_def if_not_P [OF False]
      by (rule query_then_at [OF w1]) (use False in \<open>simp add: return_at search_page_def\<close>)
  qed
qed

lemma matching_unfiltered:
  assumes "wf_tables tb" and "\<not> has_metadata_filter f"
  shows "length (matching_games None f tb) = length (tb_games tb)"
proof -
  have "matches_filter f g" for g using assms(2) by (cases g) (simp add: has_metadata_filter_def)
  then have "matching_games None f tb = joined_games tb" by (simp add: matching_games_def)
  then show ?thesis using arg_cong [OF joined_games_fst [OF assms(1)], of length] by simp
qed

lemma find_games_ready:
  assumes "store_ready s" and "sf_offset f \<le> sqlite_max"
  shows "fst (via_self (find_games f) s) = Inr (search_page None f (gs_tables s))"
proof -
  let ?tb = "gs_tables s" and ?w = "gs_self s"
  let ?counting = "if \<not> has_metadata_filter f then count_stored_games else run_query (\<lambda>tb. length (matching_games None f tb))"
  have limit: "\<not> min (sf_limit f) max_search_limit > sqlite_max"
    by (simp add: min_def max_search_limit_def sqlite_max_def word_less_nat_alt word_le_nat_alt)
  have counting: "\<exists>w'. ?counting w = (Inr (length (matching_games None f ?tb)), w') \<and> at sv ?tb w'" if "at sv ?tb w" for sv w
    using query_at [OF that, of "\<lambda>tb. length (tb_games tb)"] query_at [OF that, of "\<lambda>tb. length (matching_games None f tb)"]
      matching_unfiltered [OF ready_wf [OF assms(1)], of f] by (simp add: count_stored_games_def)
  have "fst (in_read_txn (page_body ?counting None f (min (sf_limit f) max_search_limit)) ?w)
      = map_sum id snd (Inr (matching_games None f ?tb \<noteq> [] \<and> min (sf_limit f) max_search_limit \<noteq> 0, search_page None f ?tb))"
    by (rule in_read_txn_at [OF page_body_at [OF _ counting]]) (use assms(1) in \<open>auto simp: store_ready_def store_inv_def\<close>)
  then show ?thesis using limit assms(2) by (simp add: find_games_def Let_def)
qed

section \<open>The order of the games\<close>

lemma joined_ids: "wf_tables tb \<Longrightarrow> sorted_wrt (<) (map (gr_id o fst) (joined_games tb))"
  using arg_cong [OF joined_games_fst, of tb "map gr_id"] by (simp add: wf_tables_def wf_games_def)

lemma matching_ids: "wf_tables tb \<Longrightarrow> distinct (map (gr_id o fst) (matching_games ids f tb))"
  using joined_ids [of tb] by (simp add: matching_games_def distinct_map_filter strict_sorted_iff)

text \<open>The position in the list that a filter asks for.\<close>
definition listed_before :: "search_filter \<Rightarrow> joined_game \<Rightarrow> joined_game \<Rightarrow> bool" where
  "listed_before f a b \<longleftrightarrow>
     (if sf_sort_ascending f then sort_position (sf_sort_column f) a < sort_position (sf_sort_column f) b
      else sort_position (sf_sort_column f) b < sort_position (sf_sort_column f) a)"

lemma order_games_sorted:
  assumes "distinct (map (gr_id o fst) gs)"
  shows "sorted_wrt (listed_before f) (order_games f gs)" and "set (order_games f gs) = set gs"
proof -
  let ?k = "sort_position (sf_sort_column f)"
  have "distinct (map (snd o ?k) gs)" using assms by (simp add: sort_position_def comp_def)
  then have "distinct (map ?k gs)" by (metis distinct_map map_map)
  then have "distinct (map ?k (sort_key ?k gs))" by (metis distinct_map distinct_sort set_sort)
  then have "sorted_wrt (<) (map ?k (sort_key ?k gs))" by (simp add: strict_sorted_iff)
  then show "sorted_wrt (listed_before f) (order_games f gs)"
    unfolding listed_before_def [abs_def] by (simp add: order_games_def Let_def sorted_wrt_map sorted_wrt_rev)
  show "set (order_games f gs) = set gs" by (simp add: order_games_def Let_def)
qed

lemma matches_page [simp]:
  "matches_filter (f\<lparr>sf_offset := a, sf_limit := b\<rparr>) g = matches_filter f g"
  by (cases g) (simp split: option.split)

lemma search_page_page:
  "search_page ids (f\<lparr>sf_offset := a, sf_limit := b\<rparr>) tb = \<lparr>gl_games = map read_game_list_entry
     (take (unat (min b max_search_limit)) (drop (unat a) (order_games f (matching_games ids f tb)))),
     gl_total_count = length (matching_games ids f tb)\<rparr>"
  by (simp add: search_page_def matching_games_def order_games_def)

lemma concat_pages: "length xs \<le> n * l \<Longrightarrow> concat (map (\<lambda>k. take l (drop (k * l) xs)) [0..<n]) = xs"
proof -
  have "concat (map (\<lambda>k. take l (drop (k * l) xs)) [0..<n]) = take (n * l) xs" for n
  proof (induction n)
    case (Suc n)
    have "take (n * l + l) xs = take (n * l) xs @ take l (drop (n * l) xs)" by (rule take_add)
    then show ?case using Suc by (simp add: add.commute)
  qed simp
  then show "length xs \<le> n * l \<Longrightarrow> ?thesis" by simp
qed

lemma offset_small:
  assumes "unat l \<le> 500" and "k < n" and "n * unat l \<le> 2 ^ 63"
  shows "unat (of_nat (k * unat l) :: u64) = k * unat l" and "(of_nat (k * unat l) :: u64) \<le> sqlite_max"
proof -
  have word: "unat (of_nat m :: u64) = m" if "m < 2 ^ 63" for m using that by (simp add: unat_of_nat take_bit_nat_eq_self)
  have small: "k * unat l < 2 ^ 63"
  proof (cases "unat l = 0")
    case False
    then have "k * unat l < n * unat l" using assms(2) by simp
    from less_le_trans [OF this assms(3)] show ?thesis .
  qed simp
  show u: "unat (of_nat (k * unat l) :: u64) = k * unat l" by (rule word [OF small])
  show "(of_nat (k * unat l) :: u64) \<le> sqlite_max" using small unfolding word_le_nat_alt u by (simp add: sqlite_max_def)
qed

text \<open>
  The pages of a search taken one after the other list the matching games: with a page size of at most 500 and enough
  pages, they are the entries of a list of all games that match the filter, each once, in the order of the sort column and the id,
  and every page reports how many there are. Games without an event are listed too.\<close>
theorem game_pages_cover:
  assumes "store_reachable xxh3 s" and "sd_reliable (gw_db (gs_self s))" and "0 < l" and "l \<le> max_search_limit"
    and "length (matching_games None f (sd_tables (gw_db (gs_self s)))) \<le> n * unat l" and "n * unat l \<le> 2 ^ 63"
  shows "\<exists>games. sorted_wrt (listed_before f) games
     \<and> set games = {g \<in> set (joined_games (sd_tables (gw_db (gs_self s)))). matches_filter f g}
     \<and> (\<exists>pages. length pages = n \<and> concat (map gl_games pages) = map read_game_list_entry games
          \<and> (\<forall>k<n. fst (via_self (find_games (f\<lparr>sf_offset := of_nat (k * unat l), sf_limit := l\<rparr>)) s) = Inr (pages ! k)
               \<and> gl_total_count (pages ! k) = length games))"
proof -
  have s: "store_ready s" by (rule store_reachable_ready [OF assms(1,2)])
  let ?tb = "gs_tables s"
  let ?games = "order_games f (matching_games None f ?tb)"
  note ord = order_games_sorted [OF matching_ids [OF ready_wf [OF s], of None f], of f]
  have l: "unat l \<le> 500" "min l max_search_limit = l" using assms(4) by (simp_all add: max_search_limit_def word_le_nat_alt)
  define page where "page k = search_page None (f\<lparr>sf_offset := of_nat (k * unat l), sf_limit := l\<rparr>) ?tb" for k
  have found: "fst (via_self (find_games (f\<lparr>sf_offset := of_nat (k * unat l), sf_limit := l\<rparr>)) s) = Inr (page k)" if "k < n" for k
    unfolding page_def by (rule find_games_ready [OF s]) (use offset_small(2) [OF l(1) that assms(6)] in simp)
  have games: "gl_games (page k) = map read_game_list_entry (take (unat l) (drop (k * unat l) ?games))" if "k < n" for k
    by (simp only: page_def search_page_page game_list_result.select_convs l(2) offset_small(1) [OF l(1) that assms(6)])
  have "map gl_games (map page [0..<n]) = map (map read_game_list_entry) (map (\<lambda>k. take (unat l) (drop (k * unat l) ?games)) [0..<n])"
    by (simp add: games)
  then have "concat (map gl_games (map page [0..<n])) = map read_game_list_entry (concat (map (\<lambda>k. take (unat l) (drop (k * unat l) ?games)) [0..<n]))"
    by (simp only: map_concat)
  also have "\<dots> = map read_game_list_entry ?games" using concat_pages [of ?games n "unat l"] assms(5) by simp
  finally have "concat (map gl_games (map page [0..<n])) = map read_game_list_entry ?games" .
  moreover have "set ?games = {g \<in> set (joined_games ?tb). matches_filter f g}" unfolding ord(2) by (simp add: matching_games_def)
  moreover have "gl_total_count (page k) = length ?games" for k by (simp add: page_def search_page_page)
  ultimately show ?thesis using ord(1) found
    by (intro exI [of _ ?games] conjI exI [of _ "map page [0..<n]"] allI impI) (simp_all del: fst_via)
qed

section \<open>Searching among given ids\<close>

lemma populate_at:
  assumes "at sv tb w" and "distinct rows"
  shows "\<exists>w'. populate_batches bs rows w = ((if distinct (rows @ concat bs) then Inr (rows @ concat bs) else unexpected Io_Failure), w')
     \<and> at sv tb w'"
  using assms
proof (induction bs arbitrary: rows w)
  case (Cons b bs)
  let ?stmt = "\<lambda>tb. if distinct b \<and> set b \<inter> set rows = {} then Some (rows @ b, tb) else None"
  have sound: "sound_stmt ?stmt" by (auto simp: sound_stmt_def split: if_splits)
  show ?case
  proof (cases "distinct b \<and> set b \<inter> set rows = {}")
    case True
    obtain w1 where w1: "run_prepared ?stmt w = (Inr (rows @ b), w1)" "at sv tb w1"
      using prepared_at [OF Cons.prems(1) sound, of "rows @ b" tb] True by auto
    have "distinct (rows @ b)" using True Cons.prems(2) by auto
    from Cons.IH [OF w1(2) this] show ?thesis
      by (simp only: populate_batches.simps and_then_def w1(1) prod.case sum.case append_assoc concat.simps)
  next
    case False
    obtain w1 where "run_prepared ?stmt w = (unexpected Io_Failure, w1)" "at sv tb w1"
      using prepared_at_None [OF Cons.prems(1) sound if_not_P [OF False]] by blast
    moreover have "\<not> distinct (rows @ concat (b # bs))" using False by auto
    ultimately show ?thesis by (simp only: populate_batches.simps and_then_def prod.case sum.case if_False) auto
  qed
qed simp

lemma temp_table_at:
  assumes "at sv tb w"
  shows "\<exists>w'. populate_position_temp_table n keys w = ((if distinct keys then Inr (map unat keys) else unexpected Io_Failure), w') \<and> at sv tb w'"
proof -
  obtain w1 where w1: "gw_exec (\<lambda>tb. Some ((), tb)) w = (Inr (), w1)" "at sv tb w1"
    using exec_at [OF assms sound_read [of "\<lambda>_. ()"]] by auto
  obtain w2 where w2: "gw_exec (\<lambda>tb. Some ((), tb)) w1 = (Inr (), w2)" "at sv tb w2"
    using exec_at [OF w1(2) sound_read [of "\<lambda>_. ()"]] by auto
  have c: "concat (batches (parameter_batch n) (map unat keys)) = map unat keys" by (rule concat_batches) (simp add: parameter_batch_def)
  have d: "distinct (map unat keys) \<longleftrightarrow> distinct keys" by (simp add: distinct_map inj_on_def word_unat_eq_iff)
  from populate_at [OF w2(2), of "[]" "batches (parameter_batch n) (map unat keys)"] show ?thesis
    unfolding append_Nil c d populate_position_temp_table_def and_then_def by (simp add: w1(1) w2(1))
qed

lemma search_page_none: "search_page (Some []) f tb = \<lparr>gl_games = [], gl_total_count = 0\<rparr>"
  by (simp add: search_page_def matching_games_def)

lemma search_ids_ready:
  assumes s: "store_ready s" and "sf_offset f \<le> sqlite_max"
  shows "fst (via_self (find_games_with_ids max_params keys f) s)
     = (if distinct keys then Inr (search_page (Some (map unat keys)) f (gs_tables s)) else unexpected Io_Failure)"
proof (cases "keys = []")
  case True
  then show ?thesis by (simp add: find_games_with_ids_def search_page_none)
next
  case False
  let ?tb = "gs_tables s" and ?l = "min (sf_limit f) max_search_limit" and ?ids = "map unat keys"
  have limit: "\<not> ?l > sqlite_max"
    by (simp add: min_def max_search_limit_def sqlite_max_def word_less_nat_alt word_le_nat_alt)
  let ?body = "and_then (populate_position_temp_table max_params keys) (\<lambda>ids.
      page_body (run_query (\<lambda>tb. length (matching_games (Some ids) f tb))) (Some ids) f ?l)"
  let ?r = "if distinct keys then Inr (matching_games (Some ?ids) f ?tb \<noteq> [] \<and> ?l \<noteq> 0, search_page (Some ?ids) f ?tb)
      else unexpected Io_Failure"
  have body: "\<exists>w'. ?body w = (?r, w') \<and> at sv ?tb w'" if w: "at sv ?tb w" for sv w
  proof (cases "distinct keys")
    case True
    show ?thesis
      unfolding if_P [OF True]
    proof (rule and_then_at [where x = ?ids])
      show "\<exists>w1. populate_position_temp_table max_params keys w = (Inr ?ids, w1) \<and> at sv ?tb w1"
        using temp_table_at [OF w, of max_params keys] True by simp
    qed (rule page_body_at [OF _ query_at])
  next
    case False
    then show ?thesis using temp_table_at [OF w, of max_params keys] by (auto simp: and_then_def)
  qed
  have "fst (in_read_txn ?body (gs_self s)) = map_sum id snd ?r"
    by (rule in_read_txn_at [OF body]) (use s in \<open>auto simp: store_ready_def store_inv_def\<close>)
  moreover have "map_sum id snd ?r = (if distinct keys then Inr (search_page (Some ?ids) f ?tb) else unexpected Io_Failure)" by simp
  moreover have "\<not> (?l > sqlite_max \<or> sf_offset f > sqlite_max)" using limit assms(2) by simp
  ultimately show ?thesis using False by (simp only: fst_via find_games_with_ids_def Let_def if_False)
qed

text \<open>
  A search among given ids returns the page of the matching games with one of those ids when no id is given twice, however
  the ids fall into statements, and fails when one is: the second insert into the temporary table violates its primary key.\<close>
theorem search_among_ids:
  assumes "store_reachable xxh3 s" and "sd_reliable (gw_db (gs_self s))" and "sf_offset f \<le> sqlite_max"
  shows "fst (via_self (find_games_with_ids max_params keys f) s)
     = (if distinct keys then Inr (search_page (Some (map unat keys)) f (sd_tables (gw_db (gs_self s)))) else unexpected Io_Failure)"
  by (rule search_ids_ready [OF store_reachable_ready [OF assms(1,2)] assms(3)])

end
