(* ===== verification/Browser_Presenter.thy ===== *)
theory Browser_Presenter
  imports Game_Store_Search
begin

text \<open>
  \<open>source/motif/slint_app/game_browser_presenter.cpp\<close>: the state behind the game list of the desktop application, one page of
  games with its filters, its sort order, a selection that survives page changes, and the game opened on the board. A query or an
  activation is prepared in the event loop, executed on another thread and applied back in the event loop; a generation counter
  tells the answer to the latest request from older ones.

  \<open>std::int32_t\<close> column widths and \<open>int\<close> deltas are only compared and negated in 64 bits, and are \<open>int\<close>; \<open>std::size_t\<close> page
  indices and generations are 64-bit words; a row is an index into the list in memory and is a \<open>nat\<close>.
\<close>

section \<open>Errors of the application\<close>

datatype ui_error_code = Database_Failure | Search_Failure | Bad_Argument

text \<open>\<open>browser_error\<close>, \<open>search_error\<close> and \<open>board_error\<close> have the same members.\<close>
datatype ui_error = Ui_Error (ui_code: ui_error_code) (ui_message: string)

type_synonym 'a ui_result = "ui_error + 'a"

definition from_database_error :: "db_error \<Rightarrow> ui_error" where
  "from_database_error e = Ui_Error Database_Failure (if err_message e = [] then error_to_string e else err_message e)"

section \<open>State\<close>

definition browser_page_size :: u64 where
  "browser_page_size = 100"

definition browser_minimum_column_width :: int where
  "browser_minimum_column_width = 70"

definition browser_maximum_column_width :: int where
  "browser_maximum_column_width = 600"

definition browser_column_count :: nat where
  "browser_column_count = 6"

datatype browser_sort_column = By_White | By_Black | By_Result | By_Event | By_Date | By_Eco

record browser_query =
  bq_generation :: u64
  bq_filter :: search_filter

record browser_page =
  bp_generation :: u64
  bp_games :: "game_list_entry list"
  bp_total_count :: int
  bp_page_index :: u64

record activation_request =
  ar_generation :: u64
  ar_game_id :: u32

record loaded_game =
  lg_generation :: u64
  lg_game_id :: u32
  lg_game :: db_game

record game_browser_state =
  br_games :: "game_list_entry list"
  br_total_count :: int
  br_page_index :: u64
  br_has_previous_page :: bool
  br_has_next_page :: bool
  br_selected_row :: "nat option"
  br_selected_game_id :: u32
  br_has_selection :: bool
  br_active_game_id :: u32
  br_active_game :: "db_game option"
  br_sort_column :: browser_sort_column
  br_sort_ascending :: bool
  br_player_filter :: string
  br_result_filter :: string
  br_error_text :: string
  br_query_generation :: u64
  br_activation_generation :: u64
  br_column_widths :: "int list"

definition new_browser :: game_browser_state where
  "new_browser =
     \<lparr>br_games = [], br_total_count = 0, br_page_index = 0, br_has_previous_page = False, br_has_next_page = False,
      br_selected_row = None, br_selected_game_id = 0, br_has_selection = False, br_active_game_id = 0, br_active_game = None,
      br_sort_column = By_White, br_sort_ascending = True, br_player_filter = [], br_result_filter = [], br_error_text = [],
      br_query_generation = 0, br_activation_generation = 0, br_column_widths = [145, 145, 85, 170, 105, 70]\<rparr>"

section \<open>Queries\<close>

fun to_database_sort :: "browser_sort_column \<Rightarrow> game_sort_column" where
  "to_database_sort By_White = Sort_White"
| "to_database_sort By_Black = Sort_Black"
| "to_database_sort By_Result = Sort_Result"
| "to_database_sort By_Event = Sort_Event"
| "to_database_sort By_Date = Sort_Date"
| "to_database_sort By_Eco = Sort_Eco"

text \<open>\<open>static_cast<browser_sort_column>\<close> on an index that is in range.\<close>
definition sort_column_at :: "nat \<Rightarrow> browser_sort_column" where
  "sort_column_at column = [By_White, By_Black, By_Result, By_Event, By_Date, By_Eco] ! column"

definition nonempty_optional :: "string \<Rightarrow> string option" where
  "nonempty_optional s = (if s = [] then None else Some s)"

definition browser_fail :: "string \<Rightarrow> game_browser_state \<Rightarrow> 'a ui_result \<times> game_browser_state" where
  "browser_fail message st = (Inl (Ui_Error Bad_Argument message), st\<lparr>br_error_text := message\<rparr>)"

definition browser_filter :: "game_browser_state \<Rightarrow> u64 \<Rightarrow> search_filter" where
  "browser_filter st page_index =
     \<lparr>sf_player_name = nonempty_optional (br_player_filter st), sf_player_color = Either_Color, sf_min_elo = None, sf_max_elo = None,
      sf_result = nonempty_optional (br_result_filter st), sf_eco_prefix = None, sf_position = None,
      sf_offset = page_index * browser_page_size, sf_limit = browser_page_size,
      sf_sort_column = to_database_sort (br_sort_column st), sf_sort_ascending = br_sort_ascending st\<rparr>"

text \<open>\<open>std::numeric_limits<std::size_t>::max() / browser_page_size\<close>.\<close>
definition max_page_index :: u64 where
  "max_page_index = (- 1) div browser_page_size"

definition browser_make_query :: "u64 \<Rightarrow> game_browser_state \<Rightarrow> browser_query ui_result \<times> game_browser_state" where
  "browser_make_query page_index st =
     (if page_index > max_page_index then browser_fail ''Requested game page is too large'' st
      else let st = st\<lparr>br_query_generation := br_query_generation st + 1, br_error_text := []\<rparr> in
        (Inr \<lparr>bq_generation = br_query_generation st, bq_filter = browser_filter st page_index\<rparr>, st))"

definition prepare_initial_load :: "game_browser_state \<Rightarrow> browser_query ui_result \<times> game_browser_state" where
  "prepare_initial_load st = browser_make_query 0 st"

definition set_filters :: "string \<Rightarrow> string \<Rightarrow> game_browser_state \<Rightarrow> browser_query ui_result \<times> game_browser_state" where
  "set_filters player_name outcome st = browser_make_query 0 (st\<lparr>br_player_filter := player_name, br_result_filter := outcome\<rparr>)"

definition sort_games :: "nat \<Rightarrow> bool \<Rightarrow> game_browser_state \<Rightarrow> browser_query ui_result \<times> game_browser_state" where
  "sort_games column ascending st =
     (if column \<ge> browser_column_count then browser_fail ''Selected sort column is out of range'' st
      else browser_make_query 0 (st\<lparr>br_sort_column := sort_column_at column, br_sort_ascending := ascending\<rparr>))"

definition set_page :: "u64 \<Rightarrow> game_browser_state \<Rightarrow> browser_query ui_result \<times> game_browser_state" where
  "set_page page_index st =
     (let num = (if br_total_count st \<le> 0 then 0 else nat (br_total_count st));
          page_count = (if num = 0 then 1 else (num - 1) div unat browser_page_size + 1) in
      if unat page_index \<ge> page_count then browser_fail ''Requested game page is out of range'' st
      else browser_make_query page_index st)"

definition next_page :: "game_browser_state \<Rightarrow> browser_query ui_result \<times> game_browser_state" where
  "next_page st =
     (if \<not> br_has_next_page st then browser_fail ''Already at the last game page'' st
      else browser_make_query (br_page_index st + 1) st)"

definition previous_page :: "game_browser_state \<Rightarrow> browser_query ui_result \<times> game_browser_state" where
  "previous_page st =
     (if \<not> br_has_previous_page st then browser_fail ''Already at the first game page'' st
      else browser_make_query (br_page_index st - 1) st)"

definition browser_execute_query :: "browser_query \<Rightarrow> game_store \<Rightarrow> browser_page ui_result \<times> game_store" where
  "browser_execute_query q s =
     (case via_self (find_games (bq_filter q)) s of
        (Inl e, s) \<Rightarrow> (Inl (from_database_error e), s)
      | (Inr r, s) \<Rightarrow>
          (Inr \<lparr>bp_generation = bq_generation q, bp_games = gl_games r, bp_total_count = int (gl_total_count r),
                bp_page_index = sf_offset (bq_filter q) div browser_page_size\<rparr>, s))"

text \<open>\<open>std::ranges::find\<close> by id, as the index of the row found.\<close>
definition row_of :: "u32 \<Rightarrow> game_list_entry list \<Rightarrow> nat option" where
  "row_of key games =
     (let k = length (takeWhile (\<lambda>g. ge_id g \<noteq> key) games) in if k < length games then Some k else None)"

definition browser_apply_query :: "browser_page \<Rightarrow> game_browser_state \<Rightarrow> bool ui_result \<times> game_browser_state" where
  "browser_apply_query page st =
     (if bp_generation page \<noteq> br_query_generation st then (Inr False, st)
      else let next_offset = sint ((bp_page_index page + 1) * browser_page_size) in
        (Inr True, st\<lparr>br_games := bp_games page, br_total_count := bp_total_count page, br_page_index := bp_page_index page,
           br_has_previous_page := bp_page_index page > 0,
           br_has_next_page := bp_total_count page > 0 \<and> next_offset < bp_total_count page,
           br_selected_row := (if br_has_selection st then row_of (br_selected_game_id st) (bp_games page) else None),
           br_error_text := []\<rparr>))"

definition browser_apply_query_error :: "u64 \<Rightarrow> ui_error \<Rightarrow> game_browser_state \<Rightarrow> bool ui_result \<times> game_browser_state" where
  "browser_apply_query_error generation e st =
     (if generation \<noteq> br_query_generation st then (Inr False, st) else (Inr True, st\<lparr>br_error_text := ui_message e\<rparr>))"

section \<open>Selection and activation\<close>

definition browser_select_game :: "nat \<Rightarrow> game_browser_state \<Rightarrow> unit ui_result \<times> game_browser_state" where
  "browser_select_game row st =
     (if row \<ge> length (br_games st) then browser_fail ''Selected game row is out of range'' st
      else (Inr (), st\<lparr>br_selected_row := Some row, br_selected_game_id := ge_id (br_games st ! row), br_has_selection := True,
              br_error_text := []\<rparr>))"

definition moved_row :: "int \<Rightarrow> game_browser_state \<Rightarrow> nat" where
  "moved_row delta st =
     (let current = (case br_selected_row st of
            Some row \<Rightarrow> row
          | None \<Rightarrow> if delta < 0 then length (br_games st) - 1 else 0) in
      if delta < 0 then let magnitude = nat (- delta) in if magnitude > current then 0 else current - magnitude
      else let magnitude = nat delta in min (current + magnitude) (length (br_games st) - 1))"

definition move_selection :: "int \<Rightarrow> game_browser_state \<Rightarrow> nat ui_result \<times> game_browser_state" where
  "move_selection delta st =
     (if br_games st = [] then browser_fail ''No games are available for selection'' st
      else case browser_select_game (moved_row delta st) st of
          (Inl e, st') \<Rightarrow> (Inl e, st')
        | (Inr _, st') \<Rightarrow> (Inr (moved_row delta st), st'))"

definition prepare_activation :: "game_browser_state \<Rightarrow> activation_request ui_result \<times> game_browser_state" where
  "prepare_activation st =
     (if \<not> br_has_selection st then browser_fail ''Select a game before activation'' st
      else let st = st\<lparr>br_activation_generation := br_activation_generation st + 1, br_error_text := []\<rparr> in
        (Inr \<lparr>ar_generation = br_activation_generation st, ar_game_id = br_selected_game_id st\<rparr>, st))"

definition execute_activation :: "activation_request \<Rightarrow> game_store \<Rightarrow> loaded_game ui_result \<times> game_store" where
  "execute_activation request s =
     (case via_self (store_get (ar_game_id request)) s of
        (Inl e, s) \<Rightarrow> (Inl (from_database_error e), s)
      | (Inr g, s) \<Rightarrow> (Inr \<lparr>lg_generation = ar_generation request, lg_game_id = ar_game_id request, lg_game = g\<rparr>, s))"

definition apply_activation :: "loaded_game \<Rightarrow> game_browser_state \<Rightarrow> bool ui_result \<times> game_browser_state" where
  "apply_activation g st =
     (if lg_generation g \<noteq> br_activation_generation st \<or> \<not> br_has_selection st \<or> lg_game_id g \<noteq> br_selected_game_id st then (Inr False, st)
      else (Inr True, st\<lparr>br_active_game_id := lg_game_id g, br_active_game := Some (lg_game g), br_error_text := []\<rparr>))"

definition apply_activation_error :: "u64 \<Rightarrow> ui_error \<Rightarrow> game_browser_state \<Rightarrow> bool ui_result \<times> game_browser_state" where
  "apply_activation_error generation e st =
     (if generation \<noteq> br_activation_generation st then (Inr False, st) else (Inr True, st\<lparr>br_error_text := ui_message e\<rparr>))"

definition prepare_external_activation :: "u32 \<Rightarrow> game_browser_state \<Rightarrow> activation_request ui_result \<times> game_browser_state" where
  "prepare_external_activation key st =
     (let st = st\<lparr>br_activation_generation := br_activation_generation st + 1, br_error_text := []\<rparr> in
      (Inr \<lparr>ar_generation = br_activation_generation st, ar_game_id = key\<rparr>, st))"

definition apply_external_activation :: "loaded_game \<Rightarrow> game_browser_state \<Rightarrow> bool ui_result \<times> game_browser_state" where
  "apply_external_activation g st =
     (if lg_generation g \<noteq> br_activation_generation st then (Inr False, st)
      else (Inr True, st\<lparr>br_active_game_id := lg_game_id g, br_active_game := Some (lg_game g),
              br_selected_game_id := lg_game_id g, br_has_selection := True,
              br_selected_row := row_of (lg_game_id g) (br_games st), br_error_text := []\<rparr>))"

definition resize_column :: "nat \<Rightarrow> int \<Rightarrow> game_browser_state \<Rightarrow> unit ui_result \<times> game_browser_state" where
  "resize_column column width st =
     (if column \<ge> browser_column_count then browser_fail ''Selected column is out of range'' st
      else (Inr (), st\<lparr>br_column_widths := (br_column_widths st)
              [column := max browser_minimum_column_width (min browser_maximum_column_width width)], br_error_text := []\<rparr>))"

definition browser_dismiss_error :: "game_browser_state \<Rightarrow> game_browser_state" where
  "browser_dismiss_error st = st\<lparr>br_error_text := []\<rparr>"

lemmas browser_constants = browser_page_size_def browser_minimum_column_width_def browser_maximum_column_width_def browser_column_count_def

lemmas browser_requests = prepare_initial_load_def set_filters_def sort_games_def set_page_def next_page_def previous_page_def

lemmas browser_edits = browser_select_game_def move_selection_def prepare_activation_def apply_activation_def apply_activation_error_def
  prepare_external_activation_def apply_external_activation_def resize_column_def browser_dismiss_error_def
  browser_apply_query_def browser_apply_query_error_def browser_fail_def

section \<open>The selection and the widths stay valid\<close>

lemma row_of_Some: "row_of key games = Some k \<Longrightarrow> k < length games \<and> ge_id (games ! k) = key"
  by (auto simp: row_of_def Let_def split: if_splits dest: nth_length_takeWhile)

lemma row_of_None: "row_of key games = None \<longleftrightarrow> key \<notin> ge_id ` set games"
proof -
  have "length (takeWhile P xs) < length xs \<longleftrightarrow> (\<exists>x\<in>set xs. \<not> P x)" for P and xs :: "game_list_entry list"
    by (induction xs) auto
  then show ?thesis by (auto simp: row_of_def Let_def)
qed

text \<open>
  The selected row is a row of the page that shows the selected game, and is missing just when there is no selection or the page does
  not show the game; the widths stay in their bounds.
\<close>
definition browser_inv :: "game_browser_state \<Rightarrow> bool" where
  "browser_inv st \<longleftrightarrow>
     (\<forall>k. br_selected_row st = Some k \<longrightarrow> br_has_selection st \<and> k < length (br_games st) \<and> ge_id (br_games st ! k) = br_selected_game_id st)
     \<and> (br_selected_row st = None \<and> br_has_selection st \<longrightarrow> br_selected_game_id st \<notin> ge_id ` set (br_games st))
     \<and> length (br_column_widths st) = browser_column_count
     \<and> (\<forall>w\<in>set (br_column_widths st). browser_minimum_column_width \<le> w \<and> w \<le> browser_maximum_column_width)"

lemma new_browser_inv: "browser_inv new_browser"
  by (simp add: browser_inv_def new_browser_def browser_constants)

text \<open>The members it does not speak of.\<close>
lemma browser_inv_update [simp]:
  "browser_inv (st\<lparr>br_error_text := x1\<rparr>) = browser_inv st" "browser_inv (st\<lparr>br_query_generation := x2\<rparr>) = browser_inv st"
  "browser_inv (st\<lparr>br_activation_generation := x3\<rparr>) = browser_inv st" "browser_inv (st\<lparr>br_active_game_id := x4\<rparr>) = browser_inv st"
  "browser_inv (st\<lparr>br_active_game := x5\<rparr>) = browser_inv st" "browser_inv (st\<lparr>br_player_filter := x6\<rparr>) = browser_inv st"
  "browser_inv (st\<lparr>br_result_filter := x7\<rparr>) = browser_inv st" "browser_inv (st\<lparr>br_sort_column := x8\<rparr>) = browser_inv st"
  "browser_inv (st\<lparr>br_sort_ascending := x9\<rparr>) = browser_inv st"
  by (simp_all add: browser_inv_def)

lemma make_query_inv [simp]: "browser_inv (snd (browser_make_query page_index st)) = browser_inv st"
  by (simp add: browser_make_query_def browser_fail_def Let_def)

lemma browser_fail_inv [simp]: "browser_inv (snd (browser_fail message st)) = browser_inv st"
  by (simp add: browser_fail_def)

lemma request_inv [simp]:
  "browser_inv (snd (prepare_initial_load st)) = browser_inv st" "browser_inv (snd (set_filters p r st)) = browser_inv st"
  "browser_inv (snd (sort_games c a st)) = browser_inv st" "browser_inv (snd (set_page i st)) = browser_inv st"
  "browser_inv (snd (next_page st)) = browser_inv st" "browser_inv (snd (previous_page st)) = browser_inv st"
  by (simp_all add: browser_requests Let_def)

lemma apply_query_inv: "browser_inv st \<Longrightarrow> browser_inv (snd (browser_apply_query page st))"
  using row_of_Some row_of_None by (fastforce simp: browser_inv_def browser_apply_query_def Let_def)

lemma select_inv: "browser_inv st \<Longrightarrow> browser_inv (snd (browser_select_game row st))"
  by (simp add: browser_inv_def browser_select_game_def browser_fail_def)

lemma move_selection_snd:
  "snd (move_selection delta st) = (if br_games st = [] then st\<lparr>br_error_text := ''No games are available for selection''\<rparr>
     else snd (browser_select_game (moved_row delta st) st))"
  by (simp add: move_selection_def browser_fail_def split: prod.split sum.split)

lemma move_selection_inv: "browser_inv st \<Longrightarrow> browser_inv (snd (move_selection delta st))"
  by (simp add: move_selection_snd select_inv)

lemma activation_inv [simp]:
  "browser_inv (snd (prepare_activation st)) = browser_inv st" "browser_inv (snd (prepare_external_activation key st)) = browser_inv st"
  "browser_inv (snd (apply_activation g st)) = browser_inv st" "browser_inv (snd (apply_activation_error gen e st)) = browser_inv st"
  "browser_inv (snd (browser_apply_query_error gen e st)) = browser_inv st" "browser_inv (browser_dismiss_error st) = browser_inv st"
  by (simp_all add: browser_edits Let_def)

lemma external_activation_inv: "browser_inv st \<Longrightarrow> browser_inv (snd (apply_external_activation g st))"
  using row_of_Some [of "lg_game_id g" "br_games st"] row_of_None [of "lg_game_id g" "br_games st"]
  by (simp add: browser_inv_def apply_external_activation_def)

lemma resize_inv: "browser_inv st \<Longrightarrow> browser_inv (snd (resize_column c w st))"
  by (auto simp: browser_inv_def resize_column_def browser_fail_def browser_constants dest!: set_update_subset_insert [THEN subsetD])

end
