(* ===== verification/Game_Navigator.thy ===== *)
theory Game_Navigator
  imports Chess_Adapter
begin

text \<open>
  \<open>source/motif/navigator/game_navigator.cpp\<close>: a cursor over the moves of a loaded game.
  The queries replay the game from the start; the ply is narrowed to 16 bits on the way into
  \<open>replay\<close>, which the model keeps.
\<close>

record game_navigator =
  nav_moves :: "u16 list"
  nav_ply :: nat

definition nav_empty :: game_navigator where
  "nav_empty = \<lparr>nav_moves = [], nav_ply = 0\<rparr>"

text \<open>The operations that move the cursor, as the class has them.\<close>
definition nav_load :: "u16 list \<Rightarrow> game_navigator \<Rightarrow> game_navigator" where
  "nav_load moves nav = nav\<lparr>nav_moves := moves, nav_ply := 0\<rparr>"

definition nav_clear :: "game_navigator \<Rightarrow> game_navigator" where
  "nav_clear nav = nav\<lparr>nav_moves := [], nav_ply := 0\<rparr>"

definition nav_advance :: "game_navigator \<Rightarrow> game_navigator" where
  "nav_advance nav = (if nav_ply nav < length (nav_moves nav) then nav\<lparr>nav_ply := nav_ply nav + 1\<rparr> else nav)"

definition nav_retreat :: "game_navigator \<Rightarrow> game_navigator" where
  "nav_retreat nav = (if nav_ply nav > 0 then nav\<lparr>nav_ply := nav_ply nav - 1\<rparr> else nav)"

definition jump_to_start :: "game_navigator \<Rightarrow> game_navigator" where
  "jump_to_start nav = nav\<lparr>nav_ply := 0\<rparr>"

definition jump_to_end :: "game_navigator \<Rightarrow> game_navigator" where
  "jump_to_end nav = nav\<lparr>nav_ply := length (nav_moves nav)\<rparr>"

definition navigate_to :: "nat \<Rightarrow> game_navigator \<Rightarrow> game_navigator" where
  "navigate_to ply nav = nav\<lparr>nav_ply := min ply (length (nav_moves nav))\<rparr>"

definition current_fen :: "('p, 'm) chesslib \<Rightarrow> game_navigator \<Rightarrow> string" where
  "current_fen lib nav =
     (case replay lib (nav_moves nav) (of_nat (nav_ply nav)) of Inl _ \<Rightarrow> [] | Inr b \<Rightarrow> write_fen lib b)"

definition current_hash :: "('p, 'm) chesslib \<Rightarrow> game_navigator \<Rightarrow> u64 option" where
  "current_hash lib nav =
     (case replay lib (nav_moves nav) (of_nat (nav_ply nav)) of Inl _ \<Rightarrow> None | Inr b \<Rightarrow> Some (board_hash lib b))"

definition current_san :: "('p, 'm) chesslib \<Rightarrow> game_navigator \<Rightarrow> string" where
  "current_san lib nav =
     (if nav_ply nav = 0 \<or> nav_moves nav = [] then []
      else case replay lib (nav_moves nav) (of_nat (nav_ply nav - 1)) of
          Inl _ \<Rightarrow> []
        | Inr b \<Rightarrow> san lib b (nav_moves nav ! (nav_ply nav - 1)))"

fun move_list_loop :: "('p, 'm) chesslib \<Rightarrow> 'p board \<Rightarrow> u16 list \<Rightarrow> string list" where
  "move_list_loop lib pos [] = []"
| "move_list_loop lib pos (m # moves) = san lib pos m # move_list_loop lib (apply_encoded_move lib pos m) moves"

definition move_list :: "('p, 'm) chesslib \<Rightarrow> game_navigator \<Rightarrow> string list" where
  "move_list lib nav = move_list_loop lib (new_board lib) (nav_moves nav)"

definition last_move :: "('p, 'm) chesslib \<Rightarrow> game_navigator \<Rightarrow> move_info option" where
  "last_move lib nav =
     (if nav_ply nav = 0 then None
      else case replay lib (nav_moves nav) (of_nat (nav_ply nav - 1)) of
          Inl _ \<Rightarrow> None
        | Inr board_before \<Rightarrow>
            find (\<lambda>info. mi_encoded_move info = nav_moves nav ! (nav_ply nav - 1)) (legal_moves lib board_before))"

section \<open>The cursor stays in the game\<close>

inductive nav_step :: "game_navigator \<Rightarrow> game_navigator \<Rightarrow> bool" where
  step_load: "nav_step nav (nav_load moves nav)"
| step_clear: "nav_step nav (nav_clear nav)"
| step_advance: "nav_step nav (nav_advance nav)"
| step_retreat: "nav_step nav (nav_retreat nav)"
| step_start: "nav_step nav (jump_to_start nav)"
| step_end: "nav_step nav (jump_to_end nav)"
| step_to: "nav_step nav (navigate_to ply nav)"

inductive_cases nav_stepE: "nav_step nav nav'"

lemmas nav_ops = nav_load_def nav_clear_def nav_advance_def nav_retreat_def jump_to_start_def jump_to_end_def navigate_to_def

definition nav_inv :: "game_navigator \<Rightarrow> bool" where
  "nav_inv nav \<longleftrightarrow> nav_ply nav \<le> length (nav_moves nav)"

lemma nav_step_inv: "nav_step nav nav' \<Longrightarrow> nav_inv nav \<Longrightarrow> nav_inv nav'"
  by (erule nav_stepE) (auto simp: nav_inv_def nav_ops)

lemma nav_reachable_inv: "nav_step\<^sup>*\<^sup>* nav_empty nav \<Longrightarrow> nav_inv nav"
  by (induction rule: rtranclp_induct) (auto simp: nav_inv_def nav_empty_def dest: nav_step_inv [unfolded nav_inv_def])

section \<open>What the queries show\<close>

text \<open>A game whose plies fit in 16 bits, as the importer guarantees.\<close>
definition nav_fits :: "game_navigator \<Rightarrow> bool" where
  "nav_fits nav \<longleftrightarrow> nav_inv nav \<and> length (nav_moves nav) \<le> 65535"

lemma nav_replay:
  assumes "nav_fits nav" and "k \<le> nav_ply nav"
  shows "replay lib (nav_moves nav) (of_nat k) = Inr (Board (Some (position_after lib (take k (nav_moves nav)))))"
proof -
  have "unat (of_nat k :: u16) = k" using assms by (intro unat_of_nat_less) (simp add: nav_fits_def nav_inv_def)
  then show ?thesis using assms by (simp add: replay_eq nav_fits_def nav_inv_def)
qed

lemma move_list_loop_nth:
  "k < length moves \<Longrightarrow> move_list_loop lib (Board (Some (position_after lib before))) moves ! k
     = cl_san_to_string lib (position_after lib (before @ take k moves)) (cl_decode lib (moves ! k))"
proof (induction moves arbitrary: k before)
  case (Cons m moves)
  show ?case
  proof (cases k)
    case 0
    then show ?thesis by (simp add: san_def)
  next
    case (Suc j)
    then show ?thesis using Cons.IH [of j "before @ [m]"] Cons.prems by (simp add: apply_encoded_move_position)
  qed
qed simp

lemma length_move_list_loop [simp]: "length (move_list_loop lib pos moves) = length moves"
  by (induction moves arbitrary: pos) simp_all

lemma nav_view:
  assumes fits: "nav_fits nav"
  shows "nav_ply nav \<le> length (nav_moves nav)
     \<and> current_fen lib nav = cl_write_fen lib (position_after lib (take (nav_ply nav) (nav_moves nav)))
     \<and> current_hash lib nav = Some (cl_hash lib (position_after lib (take (nav_ply nav) (nav_moves nav))))
     \<and> current_san lib nav = (if nav_ply nav = 0 then [] else move_list lib nav ! (nav_ply nav - 1))"
proof -
  have inv: "nav_ply nav \<le> length (nav_moves nav)" using fits by (simp add: nav_fits_def nav_inv_def)
  have "move_list lib nav ! k = cl_san_to_string lib (position_after lib (take k (nav_moves nav))) (cl_decode lib (nav_moves nav ! k))"
    if "k < length (nav_moves nav)" for k
    using move_list_loop_nth [OF that, of lib "[]"] by (simp add: move_list_def new_board_def)
  then have "current_san lib nav = (if nav_ply nav = 0 then [] else move_list lib nav ! (nav_ply nav - 1))"
    using inv nav_replay [OF fits diff_le_self, of lib 1] unfolding current_san_def by (auto simp: san_def simp del: of_nat_diff)
  then show ?thesis
    using inv by (simp add: current_fen_def current_hash_def nav_replay [OF fits] write_fen_def board_hash_def)
qed

text \<open>
  In every state the navigator's operations can reach, with a game of at most 65535 plies loaded, the cursor is
  inside the game, the FEN and the hash are those of the position after the first \<open>current_ply\<close> moves, and the SAN
  shown for the current move is the entry of the move list at the cursor.\<close>
theorem navigator_shows_position:
  assumes "nav_step\<^sup>*\<^sup>* nav_empty nav" and "length (nav_moves nav) \<le> 65535"
  shows "nav_ply nav \<le> length (nav_moves nav)
     \<and> current_fen lib nav = cl_write_fen lib (position_after lib (take (nav_ply nav) (nav_moves nav)))
     \<and> current_hash lib nav = Some (cl_hash lib (position_after lib (take (nav_ply nav) (nav_moves nav))))
     \<and> current_san lib nav = (if nav_ply nav = 0 then [] else move_list lib nav ! (nav_ply nav - 1))"
  by (rule nav_view) (use nav_reachable_inv [OF assms(1)] assms(2) in \<open>simp add: nav_fits_def\<close>)

text \<open>
  When the move that reached the current ply is legal in the position before it, \<open>last_move\<close> returns its
  description, with the code that is stored at that ply, and \<open>nullopt\<close> only at the start or for an illegal move.\<close>
theorem last_move_found:
  assumes "nav_step\<^sup>*\<^sup>* nav_empty nav" and "length (nav_moves nav) \<le> 65535" and "0 < nav_ply nav"
  shows "last_move lib nav = find (\<lambda>info. mi_encoded_move info = nav_moves nav ! (nav_ply nav - 1))
      (map (describe_move lib (position_after lib (take (nav_ply nav - 1) (nav_moves nav))))
           (cl_legal_moves lib (position_after lib (take (nav_ply nav - 1) (nav_moves nav)))))"
proof -
  have "nav_fits nav" using nav_reachable_inv [OF assms(1)] assms(2) by (simp add: nav_fits_def)
  from nav_replay [OF this diff_le_self, of lib 1] assms(3) show ?thesis
    unfolding last_move_def by (simp add: legal_moves_def del: of_nat_diff)
qed

text \<open>
  C38: Beyond 65535 plies the narrowing shows: at ply 65536 of any longer game the navigator displays the initial
  position.\<close>
theorem navigator_wraps:
  assumes "65536 \<le> length moves"
  shows "current_fen lib (navigate_to 65536 (nav_load moves nav_empty)) = cl_write_fen lib (cl_initial lib)"
  using assms by (simp add: current_fen_def nav_ops replay_eq write_fen_def min_def nav_empty_def)

definition demo_nav :: game_navigator where
  "demo_nav = nav_advance (nav_load [1, 2] nav_empty)"

lemma demo_nav_reachable: "nav_step\<^sup>*\<^sup>* nav_empty demo_nav"
proof -
  have "nav_step nav_empty (nav_load [1, 2] nav_empty)" "nav_step (nav_load [1, 2] nav_empty) demo_nav"
    by (simp_all add: demo_nav_def nav_step.intros)
  then show ?thesis by (meson converse_rtranclp_into_rtranclp rtranclp.rtrancl_refl)
qed

theorem navigator_shows_position_witness: "current_hash demo_lib demo_nav = Some 1"
proof -
  have "length (nav_moves demo_nav) \<le> 65535" by (simp add: demo_nav_def nav_ops)
  from navigator_shows_position [OF demo_nav_reachable this, of demo_lib] show ?thesis
    by (simp add: demo_nav_def nav_ops nav_empty_def position_after_def demo_lib_def)
qed

theorem last_move_found_witness: "\<exists>info. last_move demo_lib demo_nav = Some info \<and> mi_encoded_move info = 1"
proof -
  have "length (nav_moves demo_nav) \<le> 65535" "0 < nav_ply demo_nav" by (simp_all add: demo_nav_def nav_ops nav_empty_def)
  from last_move_found [OF demo_nav_reachable this, of demo_lib] show ?thesis
    by (simp add: demo_nav_def nav_ops nav_empty_def position_after_def demo_lib_def describe_move_def squares_from_uci_def
        Let_def upt_rec)
qed

theorem navigator_wraps_witness:
  "current_fen demo_lib (navigate_to 65536 (nav_load (replicate 70000 1) nav_empty)) = []"
  using navigator_wraps [of "replicate 70000 1" demo_lib] by (simp add: demo_lib_def)

end
