(* ===== verification/Board_Presenter.thy ===== *)
theory Board_Presenter
  imports Browser_Presenter Game_Navigator
begin

text \<open>
  \<open>source/motif/slint_app/board_presenter.cpp\<close>: the board and notation beside it. The presenter wraps a \<open>game_navigator\<close> and keeps what
  the window draws: the position as 64 squares with their pieces, one highlight for each square, the moves and the game's header. The
  chess library is the parameter \<open>lib\<close>, as for the navigator. Files and ranks are \<open>int\<close>, as in the code, and indices are \<open>nat\<close>.
\<close>

section \<open>Squares\<close>

record board_square =
  sq_file :: int
  sq_rank :: int

datatype square_highlight = Plain | Selected | Legal_Target | Last_Move_From | Last_Move_To

definition algebraic_from_square :: "board_square \<Rightarrow> string" where
  "algebraic_from_square square = [char_of (97 + sq_file square), char_of (49 + sq_rank square)]"

definition square_from_algebraic :: "string \<Rightarrow> board_square option" where
  "square_from_algebraic s =
     (if length s \<noteq> 2 then None
      else let c = (of_char (s ! 0) :: int); d = of_char (s ! 1) in
        if c < 97 \<or> c > 104 \<or> d < 49 \<or> d > 56 then None else Some \<lparr>sq_file = c - 97, sq_rank = d - 49\<rparr>)"

definition square_index :: "board_square \<Rightarrow> nat" where
  "square_index square = nat (sq_rank square) * 8 + nat (sq_file square)"

text \<open>The two characters that name a piece: \<open>std::isupper\<close> and \<open>std::toupper\<close> of the C locale.\<close>
definition piece_code :: "char \<Rightarrow> string" where
  "piece_code c =
     [if of_char c \<ge> (65 :: int) \<and> of_char c \<le> (90 :: int) then CHR ''w'' else CHR ''b'',
      if of_char c \<ge> (97 :: int) \<and> of_char c \<le> (122 :: int) then char_of (of_char c - (32 :: int)) else c]"

text \<open>The loop over the placement field, with the rank and the file it has reached.\<close>
fun place_pieces :: "string \<Rightarrow> int \<Rightarrow> int \<Rightarrow> string list \<Rightarrow> string list" where
  "place_pieces [] rank fil squares = squares"
| "place_pieces (c # cs) rank fil squares =
     (if c = CHR ''/'' then place_pieces cs (rank - 1) 0 squares
      else if of_char c \<ge> (49 :: int) \<and> of_char c \<le> (56 :: int) then place_pieces cs rank (fil + (of_char c - 48)) squares
      else if rank < 0 \<or> fil < 0 \<or> fil \<ge> 8 then place_pieces cs rank fil squares
      else place_pieces cs rank (fil + 1) (squares[nat rank * 8 + nat fil := piece_code c]))"

definition squares_from_fen :: "string \<Rightarrow> string list" where
  "squares_from_fen fen = place_pieces (takeWhile (\<lambda>c. c \<noteq> CHR '' '') fen) 7 0 (replicate 64 [])"

section \<open>State\<close>

record board_state =
  bd_loaded :: bool
  bd_game_id :: u32
  bd_fen :: string
  bd_current_hash :: "u64 option"
  bd_square_pieces :: "string list"
  bd_square_highlights :: "square_highlight list"
  bd_current_ply :: nat
  bd_total_plies :: nat
  bd_san_moves :: "string list"
  bd_current_san :: string
  bd_white_name :: string
  bd_black_name :: string
  bd_result :: string
  bd_event_name :: string
  bd_date :: string
  bd_error_text :: string
  bd_orientation_flipped :: bool
  bd_panel_visible :: bool
  bd_selected_square :: "board_square option"
  bd_last_move_from :: "board_square option"
  bd_last_move_to :: "board_square option"
  bd_legal_targets :: "board_square list"
  bd_load_generation :: u64

record board_presenter =
  bo_navigator :: game_navigator
  bo_state :: board_state

definition default_board_state :: board_state where
  "default_board_state =
     \<lparr>bd_loaded = False, bd_game_id = 0, bd_fen = [], bd_current_hash = None, bd_square_pieces = [], bd_square_highlights = [],
      bd_current_ply = 0, bd_total_plies = 0, bd_san_moves = [], bd_current_san = [], bd_white_name = [], bd_black_name = [],
      bd_result = [], bd_event_name = [], bd_date = [], bd_error_text = [], bd_orientation_flipped = False, bd_panel_visible = True,
      bd_selected_square = None, bd_last_move_from = None, bd_last_move_to = None, bd_legal_targets = [], bd_load_generation = 0\<rparr>"

section \<open>Operations\<close>

text \<open>A highlight is written at the index of a square that is there.\<close>
definition put_highlight :: "square_highlight \<Rightarrow> board_square option \<Rightarrow> square_highlight list \<Rightarrow> square_highlight list" where
  "put_highlight h square hs = (case square of None \<Rightarrow> hs | Some sq \<Rightarrow> hs[square_index sq := h])"

definition refresh_highlights :: "board_state \<Rightarrow> board_state" where
  "refresh_highlights st = st\<lparr>bd_square_highlights :=
     put_highlight Selected (bd_selected_square st)
       (fold (\<lambda>target hs. hs[square_index target := Legal_Target]) (bd_legal_targets st)
         (put_highlight Last_Move_To (bd_last_move_to st) (put_highlight Last_Move_From (bd_last_move_from st) (replicate 64 Plain))))\<rparr>"

definition clear_selection_state :: "board_state \<Rightarrow> board_state" where
  "clear_selection_state st = refresh_highlights (st\<lparr>bd_selected_square := None, bd_legal_targets := []\<rparr>)"

definition refresh_navigation :: "('p, 'm) chesslib \<Rightarrow> bool \<Rightarrow> board_presenter \<Rightarrow> board_presenter" where
  "refresh_navigation lib refresh_move_list b =
     (let nav = bo_navigator b;
          st = (bo_state b)\<lparr>bd_current_ply := nav_ply nav, bd_total_plies := length (nav_moves nav), bd_fen := current_fen lib nav,
                 bd_current_hash := current_hash lib nav, bd_square_pieces := squares_from_fen (current_fen lib nav),
                 bd_current_san := current_san lib nav\<rparr>;
          st = (if refresh_move_list then st\<lparr>bd_san_moves := move_list lib nav\<rparr> else st);
          st = clear_selection_state st;
          st = (case last_move lib nav of
                  Some info \<Rightarrow> st\<lparr>bd_last_move_from := square_from_algebraic (mi_from info), bd_last_move_to := square_from_algebraic (mi_to info)\<rparr>
                | None \<Rightarrow> st\<lparr>bd_last_move_from := None, bd_last_move_to := None\<rparr>) in
      b\<lparr>bo_state := refresh_highlights st\<rparr>)"

definition reset_game_state :: "('p, 'm) chesslib \<Rightarrow> u64 \<Rightarrow> bool \<Rightarrow> board_presenter \<Rightarrow> board_presenter" where
  "reset_game_state lib generation panel_visible b = b\<lparr>bo_state := default_board_state\<lparr>bd_square_pieces := replicate 64 [],
     bd_square_highlights := replicate 64 Plain, bd_current_hash := current_hash lib (bo_navigator b), bd_load_generation := generation,
     bd_panel_visible := panel_visible\<rparr>\<rparr>"

definition new_board_presenter :: "('p, 'm) chesslib \<Rightarrow> board_presenter" where
  "new_board_presenter lib = reset_game_state lib 0 True \<lparr>bo_navigator = nav_empty, bo_state = default_board_state\<rparr>"

definition load_game_state :: "u32 \<Rightarrow> db_game \<Rightarrow> board_presenter \<Rightarrow> board_presenter" where
  "load_game_state key game b =
     b\<lparr>bo_navigator := nav_load (dg_moves game) (bo_navigator b),
       bo_state := (bo_state b)\<lparr>bd_loaded := True, bd_game_id := key, bd_white_name := pl_name (dg_white game),
         bd_black_name := pl_name (dg_black game), bd_result := dg_result game,
         bd_event_name := (case dg_event_details game of None \<Rightarrow> [] | Some ev \<Rightarrow> ev_name ev),
         bd_date := (case dg_date game of None \<Rightarrow> [] | Some d \<Rightarrow> d), bd_error_text := []\<rparr>\<rparr>"

definition apply_loaded_game :: "('p, 'm) chesslib \<Rightarrow> u32 \<Rightarrow> db_game \<Rightarrow> board_presenter \<Rightarrow> board_presenter" where
  "apply_loaded_game lib key game b =
     (let b = b\<lparr>bo_state := (bo_state b)\<lparr>bd_load_generation := bd_load_generation (bo_state b) + 1\<rparr>\<rparr> in
      refresh_navigation lib True (load_game_state key game b))"

definition board_dismiss_error :: "board_presenter \<Rightarrow> board_presenter" where
  "board_dismiss_error b = b\<lparr>bo_state := (bo_state b)\<lparr>bd_error_text := []\<rparr>\<rparr>"

definition board_clear :: "('p, 'm) chesslib \<Rightarrow> board_presenter \<Rightarrow> board_presenter" where
  "board_clear lib b = reset_game_state lib (bd_load_generation (bo_state b) + 1) (bd_panel_visible (bo_state b))
     (b\<lparr>bo_navigator := nav_clear (bo_navigator b)\<rparr>)"

text \<open>\<open>advance\<close>, \<open>retreat\<close>, \<open>jump_to_start\<close>, \<open>jump_to_end\<close> and \<open>navigate_to\<close>: the navigator moves and the state follows.\<close>
definition board_navigate :: "('p, 'm) chesslib \<Rightarrow> (game_navigator \<Rightarrow> game_navigator) \<Rightarrow> board_presenter \<Rightarrow> board_presenter" where
  "board_navigate lib move b = refresh_navigation lib False (b\<lparr>bo_navigator := move (bo_navigator b)\<rparr>)"

definition board_advance :: "('p, 'm) chesslib \<Rightarrow> board_presenter \<Rightarrow> board_presenter" where
  "board_advance lib = board_navigate lib nav_advance"

definition board_retreat :: "('p, 'm) chesslib \<Rightarrow> board_presenter \<Rightarrow> board_presenter" where
  "board_retreat lib = board_navigate lib nav_retreat"

definition board_jump_to_start :: "('p, 'm) chesslib \<Rightarrow> board_presenter \<Rightarrow> board_presenter" where
  "board_jump_to_start lib = board_navigate lib jump_to_start"

definition board_jump_to_end :: "('p, 'm) chesslib \<Rightarrow> board_presenter \<Rightarrow> board_presenter" where
  "board_jump_to_end lib = board_navigate lib jump_to_end"

definition board_navigate_to :: "('p, 'm) chesslib \<Rightarrow> nat \<Rightarrow> board_presenter \<Rightarrow> board_presenter" where
  "board_navigate_to lib ply = board_navigate lib (navigate_to ply)"

definition clear_selection :: "board_presenter \<Rightarrow> board_presenter" where
  "clear_selection b = b\<lparr>bo_state := clear_selection_state (bo_state b)\<rparr>"

definition board_fail :: "string \<Rightarrow> board_presenter \<Rightarrow> unit ui_result \<times> board_presenter" where
  "board_fail message b = (Inl (Ui_Error Bad_Argument message), b\<lparr>bo_state := (bo_state b)\<lparr>bd_error_text := message\<rparr>\<rparr>)"

definition targets_from :: "('p, 'm) chesslib \<Rightarrow> string \<Rightarrow> board_square \<Rightarrow> board_square list" where
  "targets_from lib fen square =
     (case parse_fen lib fen of
        Inl _ \<Rightarrow> []
      | Inr position \<Rightarrow> List.map_filter (\<lambda>info. if mi_from info = algebraic_from_square square then square_from_algebraic (mi_to info) else None)
          (legal_moves lib position))"

definition select_square :: "('p, 'm) chesslib \<Rightarrow> int \<Rightarrow> int \<Rightarrow> board_presenter \<Rightarrow> unit ui_result \<times> board_presenter" where
  "select_square lib fil rank b =
     (let st = bo_state b; square = \<lparr>sq_file = fil, sq_rank = rank\<rparr> in
      if \<not> bd_loaded st then board_fail ''Load a game before selecting a square'' b
      else if fil < 0 \<or> fil > 7 \<or> rank < 0 \<or> rank > 7 then board_fail ''Square is out of range'' b
      else if bd_selected_square st = Some square then (Inr (), clear_selection b)
      else (Inr (), b\<lparr>bo_state := refresh_highlights (st\<lparr>bd_selected_square := Some square,
              bd_legal_targets := targets_from lib (bd_fen st) square, bd_error_text := []\<rparr>)\<rparr>))"

definition toggle_orientation :: "board_presenter \<Rightarrow> board_presenter" where
  "toggle_orientation b = b\<lparr>bo_state := (bo_state b)\<lparr>bd_orientation_flipped := \<not> bd_orientation_flipped (bo_state b)\<rparr>\<rparr>"

definition set_panel_visible :: "bool \<Rightarrow> board_presenter \<Rightarrow> board_presenter" where
  "set_panel_visible visible b = b\<lparr>bo_state := (bo_state b)\<lparr>bd_panel_visible := visible\<rparr>\<rparr>"

lemmas board_moves = board_advance_def board_retreat_def board_jump_to_start_def board_jump_to_end_def board_navigate_to_def

section \<open>Pieces on their squares\<close>

text \<open>The placement field of a FEN: ranks from the eighth to the first, runs of empty squares as digits.\<close>
definition run_digit :: "nat \<Rightarrow> string" where
  "run_digit n = (if n = 0 then [] else [char_of (48 + n)])"

fun fen_rank :: "nat \<Rightarrow> char option list \<Rightarrow> string" where
  "fen_rank n [] = run_digit n"
| "fen_rank n (None # row) = fen_rank (n + 1) row"
| "fen_rank n (Some c # row) = run_digit n @ c # fen_rank 0 row"

fun fen_placement :: "char option list list \<Rightarrow> string" where
  "fen_placement [] = []"
| "fen_placement [row] = fen_rank 0 row"
| "fen_placement (row # rows) = fen_rank 0 row @ CHR ''/'' # fen_placement rows"

definition square_code :: "char option \<Rightarrow> string" where
  "square_code sq = (case sq of None \<Rightarrow> [] | Some c \<Rightarrow> piece_code c)"

definition piece_letter :: "char \<Rightarrow> bool" where
  "piece_letter c \<longleftrightarrow> c \<in> set ''PNBRQKpnbrqk''"

text \<open>The squares of one rank, written from a position of the list on.\<close>
fun put_row :: "nat \<Rightarrow> char option list \<Rightarrow> string list \<Rightarrow> string list" where
  "put_row i [] squares = squares"
| "put_row i (None # row) squares = put_row (i + 1) row squares"
| "put_row i (Some c # row) squares = put_row (i + 1) row (squares[i := piece_code c])"

lemma put_row_blank: "put_row (length pre) row (pre @ replicate (length row) [] @ tail) = pre @ map square_code row @ tail"
proof (induction row arbitrary: pre)
  case (Cons sq row)
  from Cons.IH [of "pre @ [square_code sq]"] show ?case by (cases sq) (simp_all add: square_code_def)
qed simp

lemma letter_char:
  assumes "piece_letter c"
  shows "c \<noteq> CHR ''/''" "c \<noteq> CHR '' ''" "\<not> (of_char c \<ge> (49 :: int) \<and> of_char c \<le> (56 :: int))"
  using assms by (auto simp: piece_letter_def)

lemma run_digit_char:
  assumes "0 < n" and "n \<le> 8"
  shows "of_char (char_of (48 + n)) = (48 + int n)" and "char_of (48 + n) \<noteq> CHR ''/''" and "char_of (48 + n) \<noteq> CHR '' ''"
proof -
  have n: "(of_char (char_of (48 + n)) :: nat) = 48 + n" using assms(2) by (simp add: take_bit_nat_eq_self)
  have "of_char (char_of (48 + n)) = int (of_char (char_of (48 + n)))" by (simp only: of_nat_of_char)
  then show "of_char (char_of (48 + n)) = (48 + int n)" unfolding n by simp
  show "char_of (48 + n) \<noteq> CHR ''/''"
  proof
    assume e: "char_of (48 + n) = CHR ''/''"
    show False using n [unfolded e] by simp
  qed
  show "char_of (48 + n) \<noteq> CHR '' ''"
  proof
    assume e: "char_of (48 + n) = CHR '' ''"
    show False using n [unfolded e] by simp
  qed
qed

lemma place_run: "n \<le> 8 \<Longrightarrow> place_pieces (run_digit n @ cs) rank fil squares = place_pieces cs rank (fil + int n) squares"
  using run_digit_char [of n] by (cases "n = 0") (simp_all add: run_digit_def)

lemma place_letter:
  assumes "piece_letter c" and "f < 8"
  shows "place_pieces (c # cs) (int r) (int f) squares = place_pieces cs (int r) (int (f + 1)) (squares[r * 8 + f := piece_code c])"
  using assms letter_char [OF assms(1)] by (subst place_pieces.simps(2)) (simp only: if_False, simp add: add.commute)

lemma place_rank:
  assumes "f + n + length row = 8" and "\<forall>c. Some c \<in> set row \<longrightarrow> piece_letter c"
  shows "place_pieces (fen_rank n row @ cs) (int r) (int f) squares = place_pieces cs (int r) 8 (put_row (r * 8 + f + n) row squares)"
  using assms
proof (induction n row arbitrary: f squares rule: fen_rank.induct)
  case (1 n)
  then have "int f + int n = 8" by simp
  then show ?case using 1 by (simp add: place_run)
next
  case (2 n row)
  then show ?case using "2.IH" [of f squares] by (simp add: add.assoc)
next
  case (3 n c row)
  have c: "piece_letter c" using 3 by simp
  have "place_pieces (run_digit n @ c # fen_rank 0 row @ cs) (int r) (int f) squares
      = place_pieces (fen_rank 0 row @ cs) (int r) (int (f + n + 1)) (squares[r * 8 + f + n := piece_code c])"
    using 3 place_letter [OF c, of "f + n"] by (simp add: place_run add.assoc)
  also have "\<dots> = place_pieces cs (int r) 8 (put_row (r * 8 + (f + n + 1) + 0) row (squares[r * 8 + f + n := piece_code c]))"
    using 3 by (intro "3.IH") simp_all
  finally show ?case by (simp add: add.assoc)
qed

definition full_row :: "char option list \<Rightarrow> bool" where
  "full_row row \<longleftrightarrow> length row = 8 \<and> (\<forall>c. Some c \<in> set row \<longrightarrow> piece_letter c)"

lemma place_full_row:
  assumes "full_row row"
  shows "place_pieces (fen_rank 0 row @ cs) (int r) 0 (replicate (8 * Suc r) [] @ tail)
    = place_pieces cs (int r) 8 (replicate (8 * r) [] @ map square_code row @ tail)"
proof -
  have rep: "replicate (8 * Suc r) [] @ tail = replicate (8 * r) [] @ replicate (length row) [] @ tail"
    using assms by (simp add: full_row_def replicate_add [symmetric] flip: append_assoc)
  have "place_pieces (fen_rank 0 row @ cs) (int r) (int 0) (replicate (8 * Suc r) [] @ tail)
      = place_pieces cs (int r) 8 (put_row (r * 8 + 0 + 0) row (replicate (8 * Suc r) [] @ tail))"
    using assms by (intro place_rank) (auto simp: full_row_def)
  moreover have "put_row (r * 8) row (replicate (8 * Suc r) [] @ tail) = replicate (8 * r) [] @ map square_code row @ tail"
    using put_row_blank [of "replicate (8 * r) []" row tail] unfolding rep by (simp add: mult.commute)
  ultimately show ?thesis by simp
qed

lemma place_ranks:
  assumes "length rows = Suc r" and "\<forall>row\<in>set rows. full_row row"
  shows "place_pieces (fen_placement rows) (int r) 0 (replicate (8 * Suc r) [] @ tail) = concat (map (map square_code) (rev rows)) @ tail"
  using assms
proof (induction rows arbitrary: r tail rule: fen_placement.induct)
  case (2 row)
  then show ?case using place_full_row [of row "[]" 0 tail] by simp
next
  case (3 row row' rows)
  then obtain r' where r: "r = Suc r'" by (cases r) simp_all
  have "place_pieces (fen_placement (row # row' # rows)) (int r) 0 (replicate (8 * Suc r) [] @ tail)
      = place_pieces (fen_placement (row' # rows)) (int r') 0 (replicate (8 * r) [] @ map square_code row @ tail)"
    using 3 by (simp only: fen_placement.simps append_assoc append_Cons list.set ball_simps place_full_row place_pieces.simps) (simp add: r)
  also have "\<dots> = concat (map (map square_code) (rev (row' # rows))) @ map square_code row @ tail"
    unfolding r using 3 r by (intro "3.IH") simp_all
  finally show ?case by simp
qed simp

lemma placement_no_space: "\<forall>row\<in>set rows. full_row row \<Longrightarrow> CHR '' '' \<notin> set (fen_placement rows)"
proof (induction rows rule: fen_placement.induct)
  have digit: "CHR '' '' \<notin> set (run_digit n)" if "n \<le> 8" for n
    using run_digit_char(3) [of n] that by (auto simp: run_digit_def)
  have rank: "CHR '' '' \<notin> set (fen_rank n row)" if "n + length row \<le> 8" and "\<forall>c. Some c \<in> set row \<longrightarrow> piece_letter c" for n row
    using that by (induction n row rule: fen_rank.induct) (use digit letter_char(2) in auto)
  { case (2 row) then show ?case using rank [of 0 row] by (simp add: full_row_def) }
  { case (3 row row' rows) then show ?case using rank [of 0 row] by (simp add: full_row_def) }
qed simp


definition start_rows :: "char option list list" where
  "start_rows = [map Some ''rnbqkbnr'', replicate 8 (Some CHR ''p''), replicate 8 None, replicate 8 None, replicate 8 None, replicate 8 None,
     replicate 8 (Some CHR ''P''), map Some ''RNBQKBNR'']"


end
