(* ===== verification/Board_View.thy ===== *)
theory Board_View
  imports Board_Presenter
begin

text \<open>
  What the board shows after any sequence of its operations: the position of the loaded game at the cursor, the legal destinations
  of the selected square, and one highlight for each square.
\<close>

section \<open>Runs of the presenter\<close>

text \<open>The presenter, and the game it was last given unless it was cleared.\<close>
inductive board_run :: "('p, 'm) chesslib \<Rightarrow> board_presenter \<Rightarrow> (u32 \<times> db_game) option \<Rightarrow> bool" for lib :: "('p, 'm) chesslib" where
  run_new: "board_run lib (new_board_presenter lib) None"
| run_load: "board_run lib b g \<Longrightarrow> board_run lib (apply_loaded_game lib key game b) (Some (key, game))"
| run_clear: "board_run lib b g \<Longrightarrow> board_run lib (board_clear lib b) None"
| run_dismiss: "board_run lib b g \<Longrightarrow> board_run lib (board_dismiss_error b) g"
| run_advance: "board_run lib b g \<Longrightarrow> board_run lib (board_advance lib b) g"
| run_retreat: "board_run lib b g \<Longrightarrow> board_run lib (board_retreat lib b) g"
| run_start: "board_run lib b g \<Longrightarrow> board_run lib (board_jump_to_start lib b) g"
| run_end: "board_run lib b g \<Longrightarrow> board_run lib (board_jump_to_end lib b) g"
| run_to: "board_run lib b g \<Longrightarrow> board_run lib (board_navigate_to lib ply b) g"
| run_select: "board_run lib b g \<Longrightarrow> board_run lib (snd (select_square lib fil rank b)) g"
| run_clear_selection: "board_run lib b g \<Longrightarrow> board_run lib (clear_selection b) g"
| run_orientation: "board_run lib b g \<Longrightarrow> board_run lib (toggle_orientation b) g"
| run_panel: "board_run lib b g \<Longrightarrow> board_run lib (set_panel_visible visible b) g"

definition on_board :: "board_square \<Rightarrow> bool" where
  "on_board sq \<longleftrightarrow> 0 \<le> sq_file sq \<and> sq_file sq \<le> 7 \<and> 0 \<le> sq_rank sq \<and> sq_rank sq \<le> 7"

lemma square_from_algebraic_on_board: "square_from_algebraic s = Some sq \<Longrightarrow> on_board sq"
  by (auto simp: square_from_algebraic_def on_board_def Let_def split: if_splits)

lemma square_index_less: "on_board sq \<Longrightarrow> square_index sq < 64"
  unfolding on_board_def square_index_def by linarith

text \<open>Squares on the board have their own index.\<close>
lemma square_index_inj: "on_board a \<Longrightarrow> on_board b \<Longrightarrow> square_index a = square_index b \<Longrightarrow> a = b"
proof -
  assume ab: "on_board a" "on_board b" "square_index a = square_index b"
  then have rank: "sq_rank a = sq_rank b" unfolding on_board_def square_index_def by linarith
  then have "nat (sq_file a) = nat (sq_file b)" using ab(3) unfolding square_index_def by simp
  then have "sq_file a = sq_file b" using ab(1,2) unfolding on_board_def by linarith
  then show ?thesis using rank by (cases a; cases b) simp
qed

section \<open>The invariant\<close>

text \<open>The parts of the state that follow the navigator.\<close>
definition mirrors :: "('p, 'm) chesslib \<Rightarrow> game_navigator \<Rightarrow> board_state \<Rightarrow> bool" where
  "mirrors lib nav st \<longleftrightarrow>
     bd_current_ply st = nav_ply nav \<and> bd_total_plies st = length (nav_moves nav) \<and> bd_fen st = current_fen lib nav
     \<and> bd_current_hash st = current_hash lib nav \<and> bd_square_pieces st = squares_from_fen (current_fen lib nav)
     \<and> bd_current_san st = current_san lib nav \<and> bd_san_moves st = move_list lib nav
     \<and> bd_last_move_from st = (case last_move lib nav of None \<Rightarrow> None | Some info \<Rightarrow> square_from_algebraic (mi_from info))
     \<and> bd_last_move_to st = (case last_move lib nav of None \<Rightarrow> None | Some info \<Rightarrow> square_from_algebraic (mi_to info))"

text \<open>The parts that describe the game.\<close>
definition header :: "board_state \<Rightarrow> bool \<times> u32 \<times> string \<times> string \<times> string \<times> string \<times> string" where
  "header st = (bd_loaded st, bd_game_id st, bd_white_name st, bd_black_name st, bd_result st, bd_event_name st, bd_date st)"

definition shows_game :: "(u32 \<times> db_game) option \<Rightarrow> game_navigator \<Rightarrow> board_state \<Rightarrow> bool" where
  "shows_game g nav st = (case g of
     None \<Rightarrow> \<not> fst (header st) \<and> nav_moves nav = []
   | Some (key, game) \<Rightarrow> nav_moves nav = dg_moves game \<and> header st = (True, key, pl_name (dg_white game), pl_name (dg_black game), dg_result game,
       (case dg_event_details game of None \<Rightarrow> [] | Some ev \<Rightarrow> ev_name ev), (case dg_date game of None \<Rightarrow> [] | Some d \<Rightarrow> d)))"

lemma shows_game_cong: "header st = header st' \<Longrightarrow> nav_moves nav = nav_moves nav' \<Longrightarrow> shows_game g nav st = shows_game g nav' st'"
  by (simp add: shows_game_def cong: option.case_cong prod.case_cong)

definition selection_inv :: "('p, 'm) chesslib \<Rightarrow> board_state \<Rightarrow> bool" where
  "selection_inv lib st \<longleftrightarrow>
     refresh_highlights st = st \<and> length (bd_square_pieces st) = 64
     \<and> (\<forall>sq. bd_selected_square st = Some sq \<or> bd_last_move_from st = Some sq \<or> bd_last_move_to st = Some sq \<longrightarrow> on_board sq)
     \<and> bd_legal_targets st = (case bd_selected_square st of None \<Rightarrow> [] | Some sq \<Rightarrow> targets_from lib (bd_fen st) sq)"

definition board_inv :: "('p, 'm) chesslib \<Rightarrow> (u32 \<times> db_game) option \<Rightarrow> board_presenter \<Rightarrow> bool" where
  "board_inv lib g b \<longleftrightarrow> nav_inv (bo_navigator b) \<and> shows_game g (bo_navigator b) (bo_state b)
     \<and> (g \<noteq> None \<longrightarrow> mirrors lib (bo_navigator b) (bo_state b)) \<and> selection_inv lib (bo_state b)"

lemma length_place_pieces [simp]: "length (place_pieces cs rank fil squares) = length squares"
  by (induction cs rank fil squares rule: place_pieces.induct) simp_all

lemma length_squares [simp]: "length (squares_from_fen fen) = 64"
  by (simp add: squares_from_fen_def)

lemma refresh_idem [simp]: "refresh_highlights (refresh_highlights st) = refresh_highlights st"
  by (simp add: refresh_highlights_def)

text \<open>What refreshing leaves alone.\<close>
lemma refresh_select [simp]:
  "bd_fen (refresh_highlights st) = bd_fen st" "bd_square_pieces (refresh_highlights st) = bd_square_pieces st"
  "bd_selected_square (refresh_highlights st) = bd_selected_square st" "bd_legal_targets (refresh_highlights st) = bd_legal_targets st"
  "bd_last_move_from (refresh_highlights st) = bd_last_move_from st" "bd_last_move_to (refresh_highlights st) = bd_last_move_to st"
  by (simp_all add: refresh_highlights_def)

lemma refresh_fields [simp]:
  "mirrors lib nav (refresh_highlights st) = mirrors lib nav st" "header (refresh_highlights st) = header st"
  "selection_inv lib (refresh_highlights st) \<longleftrightarrow> length (bd_square_pieces st) = 64
     \<and> (\<forall>sq. bd_selected_square st = Some sq \<or> bd_last_move_from st = Some sq \<or> bd_last_move_to st = Some sq \<longrightarrow> on_board sq)
     \<and> bd_legal_targets st = (case bd_selected_square st of None \<Rightarrow> [] | Some sq \<Rightarrow> targets_from lib (bd_fen st) sq)"
  by (simp_all add: mirrors_def header_def selection_inv_def cong: option.case_cong) (simp_all add: refresh_highlights_def)

lemma refresh_navigation_state:
  "bo_state (refresh_navigation lib fresh b) = refresh_highlights ((bo_state b)\<lparr>
     bd_current_ply := nav_ply (bo_navigator b), bd_total_plies := length (nav_moves (bo_navigator b)), bd_fen := current_fen lib (bo_navigator b),
     bd_current_hash := current_hash lib (bo_navigator b), bd_square_pieces := squares_from_fen (current_fen lib (bo_navigator b)),
     bd_current_san := current_san lib (bo_navigator b),
     bd_san_moves := (if fresh then move_list lib (bo_navigator b) else bd_san_moves (bo_state b)),
     bd_selected_square := None, bd_legal_targets := [],
     bd_last_move_from := (case last_move lib (bo_navigator b) of None \<Rightarrow> None | Some info \<Rightarrow> square_from_algebraic (mi_from info)),
     bd_last_move_to := (case last_move lib (bo_navigator b) of None \<Rightarrow> None | Some info \<Rightarrow> square_from_algebraic (mi_to info))\<rparr>)"
  "bo_navigator (refresh_navigation lib fresh b) = bo_navigator b"
  by (simp_all add: refresh_navigation_def clear_selection_state_def refresh_highlights_def Let_def split: option.split)

lemma refresh_navigation_inv:
  assumes "nav_inv (bo_navigator b)" and "shows_game g (bo_navigator b) (bo_state b)"
    and "fresh \<or> g = None \<or> bd_san_moves (bo_state b) = move_list lib (bo_navigator b)"
  shows "board_inv lib g (refresh_navigation lib fresh b)"
proof -
  have h: "header (bo_state (refresh_navigation lib fresh b)) = header (bo_state b)"
    unfolding refresh_navigation_state(1) refresh_fields(2) by (simp add: header_def)
  have "shows_game g (bo_navigator b) (bo_state (refresh_navigation lib fresh b))"
    using assms(2) shows_game_cong [OF h refl] by blast
  moreover have "on_board sq" if "(case last_move lib (bo_navigator b) of None \<Rightarrow> None | Some info \<Rightarrow> square_from_algebraic (f info)) = Some sq" for f sq
    using that square_from_algebraic_on_board by (auto split: option.splits)
  then have "selection_inv lib (bo_state (refresh_navigation lib fresh b))"
    unfolding refresh_navigation_state(1) refresh_fields(3) by auto
  moreover have "g \<noteq> None \<longrightarrow> mirrors lib (bo_navigator b) (bo_state (refresh_navigation lib fresh b))"
    unfolding refresh_navigation_state(1) refresh_fields(1) using assms(3) by (auto simp: mirrors_def)
  ultimately show ?thesis using assms(1) by (simp only: board_inv_def refresh_navigation_state(2))
qed

lemma navigate_inv:
  assumes "board_inv lib g b" and "nav_inv (move (bo_navigator b))" and "nav_moves (move (bo_navigator b)) = nav_moves (bo_navigator b)"
  shows "board_inv lib g (board_navigate lib move b)"
  unfolding board_navigate_def
proof (rule refresh_navigation_inv)
  show "shows_game g (bo_navigator (b\<lparr>bo_navigator := move (bo_navigator b)\<rparr>)) (bo_state (b\<lparr>bo_navigator := move (bo_navigator b)\<rparr>))"
    using assms shows_game_cong [of "bo_state b" "bo_state b" "move (bo_navigator b)" "bo_navigator b"] by (simp add: board_inv_def)
  show "False \<or> g = None \<or> bd_san_moves (bo_state (b\<lparr>bo_navigator := move (bo_navigator b)\<rparr>)) = move_list lib (bo_navigator (b\<lparr>bo_navigator := move (bo_navigator b)\<rparr>))"
    using assms by (cases g) (simp_all add: board_inv_def mirrors_def move_list_def)
qed (use assms(2) in simp)

lemma navigator_moves:
  "nav_inv nav \<Longrightarrow> nav_inv (nav_advance nav)" "nav_inv nav \<Longrightarrow> nav_inv (nav_retreat nav)" "nav_inv (jump_to_start nav)" "nav_inv (jump_to_end nav)"
  "nav_inv (navigate_to ply nav)" "nav_moves (nav_advance nav) = nav_moves nav" "nav_moves (nav_retreat nav) = nav_moves nav"
  "nav_moves (jump_to_start nav) = nav_moves nav" "nav_moves (jump_to_end nav) = nav_moves nav" "nav_moves (navigate_to ply nav) = nav_moves nav"
  by (auto simp: nav_inv_def nav_ops)

text \<open>A change of members that the invariant does not read, and of the selection.\<close>
lemma board_inv_state:
  assumes "board_inv lib g b" and "header st = header (bo_state b)" and "mirrors lib (bo_navigator b) st = mirrors lib (bo_navigator b) (bo_state b)"
    and "selection_inv lib st"
  shows "board_inv lib g (b\<lparr>bo_state := st\<rparr>)"
  using assms shows_game_cong [of st "bo_state b" "bo_navigator b"] by (simp add: board_inv_def)

lemma selection_inv_cong:
  assumes "refresh_highlights st = st" and "selection_inv lib st'" and "length (bd_square_pieces st) = length (bd_square_pieces st')"
    "bd_selected_square st = bd_selected_square st'" "bd_last_move_from st = bd_last_move_from st'" "bd_last_move_to st = bd_last_move_to st'"
    "bd_legal_targets st = bd_legal_targets st'" "bd_fen st = bd_fen st'"
  shows "selection_inv lib st"
  using assms by (simp add: selection_inv_def cong: option.case_cong)

lemma unread_inv:
  assumes "board_inv lib g b"
  shows "board_inv lib g (board_dismiss_error b)" "board_inv lib g (snd (board_fail m b))" "board_inv lib g (toggle_orientation b)"
    "board_inv lib g (set_panel_visible v b)"
proof -
  have sel: "selection_inv lib (bo_state b)" "refresh_highlights (bo_state b) = bo_state b" using assms by (auto simp: board_inv_def selection_inv_def)
  have hl: "refresh_highlights ((bo_state b)\<lparr>bd_error_text := e\<rparr>) = (refresh_highlights (bo_state b))\<lparr>bd_error_text := e\<rparr>"
    "refresh_highlights ((bo_state b)\<lparr>bd_orientation_flipped := x\<rparr>) = (refresh_highlights (bo_state b))\<lparr>bd_orientation_flipped := x\<rparr>"
    "refresh_highlights ((bo_state b)\<lparr>bd_panel_visible := x\<rparr>) = (refresh_highlights (bo_state b))\<lparr>bd_panel_visible := x\<rparr>" for e x
    by (simp_all add: refresh_highlights_def)
  show "board_inv lib g (board_dismiss_error b)" "board_inv lib g (snd (board_fail m b))" "board_inv lib g (toggle_orientation b)"
    "board_inv lib g (set_panel_visible v b)"
    unfolding board_dismiss_error_def board_fail_def toggle_orientation_def set_panel_visible_def snd_conv
    by (rule board_inv_state [OF assms]; (rule selection_inv_cong [OF _ sel(1)])?; simp add: hl sel(2) header_def mirrors_def)+
qed

lemma selection_unread [simp]:
  "header (st\<lparr>bd_selected_square := x\<rparr>) = header st" "header (st\<lparr>bd_legal_targets := y\<rparr>) = header st" "header (st\<lparr>bd_error_text := z\<rparr>) = header st"
  "mirrors lib nav (st\<lparr>bd_selected_square := x\<rparr>) = mirrors lib nav st" "mirrors lib nav (st\<lparr>bd_legal_targets := y\<rparr>) = mirrors lib nav st"
  "mirrors lib nav (st\<lparr>bd_error_text := z\<rparr>) = mirrors lib nav st"
  by (simp_all add: header_def mirrors_def)

lemma clear_selection_inv:
  assumes "board_inv lib g b"
  shows "board_inv lib g (clear_selection b)"
  unfolding clear_selection_def clear_selection_state_def
  by (rule board_inv_state [OF assms]) (use assms in \<open>simp_all add: board_inv_def selection_inv_def [of lib "bo_state b"]\<close>)

lemma select_square_inv:
  assumes "board_inv lib g b"
  shows "board_inv lib g (snd (select_square lib fil rank b))"
proof -
  let ?st = "(bo_state b)\<lparr>bd_selected_square := Some \<lparr>sq_file = fil, sq_rank = rank\<rparr>,
      bd_legal_targets := targets_from lib (bd_fen (bo_state b)) \<lparr>sq_file = fil, sq_rank = rank\<rparr>, bd_error_text := []\<rparr>"
  have "board_inv lib g (b\<lparr>bo_state := refresh_highlights ?st\<rparr>)" if "\<not> (fil < 0 \<or> fil > 7 \<or> rank < 0 \<or> rank > 7)"
    by (rule board_inv_state [OF assms]) (use assms that in \<open>simp_all add: board_inv_def selection_inv_def [of lib "bo_state b"] on_board_def\<close>)
  then show ?thesis using unread_inv(2) [OF assms] clear_selection_inv [OF assms] by (simp add: select_square_def Let_def)
qed

lemma reset_inv:
  assumes "nav_moves (bo_navigator b) = []" and "nav_inv (bo_navigator b)"
  shows "board_inv lib None (reset_game_state lib generation visible b)"
  using assms by (simp add: reset_game_state_def board_inv_def shows_game_def selection_inv_def header_def default_board_state_def
      refresh_highlights_def put_highlight_def)

lemma load_inv: "board_inv lib (Some (key, game)) (apply_loaded_game lib key game b)"
  unfolding apply_loaded_game_def Let_def
  by (rule refresh_navigation_inv) (simp_all add: load_game_state_def nav_inv_def nav_load_def shows_game_def header_def)

lemma board_run_inv: "board_run lib b g \<Longrightarrow> board_inv lib g b"
proof (induction rule: board_run.induct)
  case run_new
  show ?case unfolding new_board_presenter_def by (rule reset_inv) (simp_all add: nav_empty_def nav_inv_def)
next
  case (run_clear b g)
  show ?case unfolding board_clear_def by (rule reset_inv) (simp_all add: nav_clear_def nav_inv_def)
qed (simp_all add: load_inv unread_inv clear_selection_inv select_square_inv board_moves navigate_inv navigator_moves board_inv_def [THEN iffD1])

section \<open>Highlights\<close>

lemma targets_on_board: "sq \<in> set (targets_from lib fen from) \<Longrightarrow> on_board sq"
  by (auto simp: targets_from_def List.map_filter_def split: sum.splits if_splits dest: square_from_algebraic_on_board)

lemma length_highlighted [simp]: "length (fold (\<lambda>t hs. hs[square_index t := h]) ts hs) = length hs"
  by (induction ts arbitrary: hs) simp_all

lemma highlighted_nth:
  "j < length hs \<Longrightarrow> fold (\<lambda>t hs. hs[square_index t := h]) ts hs ! j = (if j \<in> square_index ` set ts then h else hs ! j)"
  by (induction ts arbitrary: hs) (auto simp: nth_list_update)

lemma put_highlight_nth:
  assumes "\<forall>sq. square = Some sq \<longrightarrow> on_board sq" and "on_board sq" and "square_index sq < length hs"
  shows "put_highlight h square hs ! square_index sq = (if square = Some sq then h else hs ! square_index sq)"
proof (cases square)
  case (Some sq')
  then have "square_index sq' = square_index sq \<longleftrightarrow> sq' = sq" using assms(1,2) square_index_inj by blast
  then show ?thesis using Some assms(3) by (auto simp: put_highlight_def nth_list_update)
qed (simp add: put_highlight_def)

lemma length_put_highlight [simp]: "length (put_highlight h square hs) = length hs"
  by (simp add: put_highlight_def split: option.split)

text \<open>
  The highlights are those of the specification: in every state the presenter can reach there are 64, every square that is marked is
  on the board, and a square shows whether it is selected, else whether the selected piece can move there, else whether the last move
  ended or began there.\<close>
theorem board_highlights:
  assumes "board_run lib b g" and "st = bo_state b"
  shows "length (bd_square_highlights st) = 64 \<and> length (bd_square_pieces st) = 64
    \<and> (\<forall>sq \<in> set (bd_legal_targets st). on_board sq)
    \<and> (\<forall>sq. bd_selected_square st = Some sq \<or> bd_last_move_from st = Some sq \<or> bd_last_move_to st = Some sq \<longrightarrow> on_board sq)
    \<and> (\<forall>sq. on_board sq \<longrightarrow> bd_square_highlights st ! square_index sq =
         (if bd_selected_square st = Some sq then Selected
          else if sq \<in> set (bd_legal_targets st) then Legal_Target
          else if bd_last_move_to st = Some sq then Last_Move_To
          else if bd_last_move_from st = Some sq then Last_Move_From else Plain))"
proof -
  have inv: "selection_inv lib st" using board_run_inv [OF assms(1)] assms(2) by (simp add: board_inv_def)
  then have targets: "\<forall>sq \<in> set (bd_legal_targets st). on_board sq"
    by (auto simp: selection_inv_def split: option.splits dest: targets_on_board)
  have marked: "\<forall>sq. bd_selected_square st = Some sq \<longrightarrow> on_board sq" "\<forall>sq. bd_last_move_from st = Some sq \<longrightarrow> on_board sq"
    "\<forall>sq. bd_last_move_to st = Some sq \<longrightarrow> on_board sq" using inv by (auto simp: selection_inv_def)
  let ?from = "put_highlight Last_Move_From (bd_last_move_from st) (replicate 64 Plain)"
  let ?to = "put_highlight Last_Move_To (bd_last_move_to st) ?from"
  let ?targets = "fold (\<lambda>target hs. hs[square_index target := Legal_Target]) (bd_legal_targets st) ?to"
  have hs: "bd_square_highlights st = put_highlight Selected (bd_selected_square st) ?targets"
  proof -
    have "bd_square_highlights st = bd_square_highlights (refresh_highlights st)" using inv by (simp add: selection_inv_def)
    then show ?thesis by (simp add: refresh_highlights_def)
  qed
  have "bd_square_highlights st ! square_index sq =
         (if bd_selected_square st = Some sq then Selected
          else if sq \<in> set (bd_legal_targets st) then Legal_Target
          else if bd_last_move_to st = Some sq then Last_Move_To
          else if bd_last_move_from st = Some sq then Last_Move_From else Plain)" if sq: "on_board sq" for sq
  proof -
    have j: "square_index sq < 64" by (rule square_index_less [OF sq])
    have "square_index sq \<in> square_index ` set (bd_legal_targets st) \<longleftrightarrow> sq \<in> set (bd_legal_targets st)"
      using square_index_inj [OF sq] targets by auto
    then show ?thesis
      unfolding hs using j by (simp add: put_highlight_nth [OF marked(1) sq] put_highlight_nth [OF marked(2) sq]
          put_highlight_nth [OF marked(3) sq] highlighted_nth)
  qed
  moreover have "length (bd_square_highlights st) = 64" "length (bd_square_pieces st) = 64" using inv unfolding hs by (simp_all add: selection_inv_def)
  ultimately show ?thesis using targets marked by blast
qed

section \<open>The position\<close>

text \<open>The library reads back the positions it writes.\<close>
definition fen_faithful :: "('p, 'm) chesslib \<Rightarrow> bool" where
  "fen_faithful lib \<longleftrightarrow> (\<forall>p. cl_read_fen lib (cl_write_fen lib p) = Some p)"

lemma targets_position:
  assumes "fen_faithful lib"
  shows "targets_from lib (cl_write_fen lib p) sq = List.map_filter
     (\<lambda>m. if mi_from (describe_move lib p m) = algebraic_from_square sq then square_from_algebraic (mi_to (describe_move lib p m)) else None)
     (cl_legal_moves lib p)"
  using assms by (simp add: targets_from_def parse_fen_def fen_faithful_def legal_moves_def List.map_filter_def filter_map comp_def)

text \<open>
  C23: The board shows the game it was given last: after any operations since then, unless it was cleared, it carries the game's id and
  header, its moves in notation, and at every ply of a game of at most 65535 moves the position after exactly that many moves, by its
  FEN, its pieces and its hash; and the targets of a selected square are the destinations of the legal moves from it in that position,
  for a library that reads back the FEN it writes.\<close>
theorem board_shows_position:
  assumes "board_run lib b (Some (key, game))" and "length (dg_moves game) \<le> 65535" and "fen_faithful lib"
    and "st = bo_state b" and "p = position_after lib (take (bd_current_ply st) (dg_moves game))"
  shows "bd_loaded st \<and> bd_game_id st = key \<and> bd_white_name st = pl_name (dg_white game) \<and> bd_black_name st = pl_name (dg_black game)
    \<and> bd_current_ply st \<le> bd_total_plies st \<and> bd_total_plies st = length (dg_moves game)
    \<and> bd_fen st = cl_write_fen lib p \<and> bd_current_hash st = Some (cl_hash lib p) \<and> bd_square_pieces st = squares_from_fen (cl_write_fen lib p)
    \<and> bd_current_san st = (if bd_current_ply st = 0 then [] else bd_san_moves st ! (bd_current_ply st - 1))
    \<and> (\<forall>k < length (dg_moves game). bd_san_moves st ! k =
         cl_san_to_string lib (position_after lib (take k (dg_moves game))) (cl_decode lib (dg_moves game ! k)))
    \<and> (\<forall>sq. bd_selected_square st = Some sq \<longrightarrow> bd_legal_targets st = List.map_filter
         (\<lambda>m. if mi_from (describe_move lib p m) = algebraic_from_square sq then square_from_algebraic (mi_to (describe_move lib p m)) else None)
         (cl_legal_moves lib p))"
proof -
  let ?nav = "bo_navigator b"
  have inv: "nav_inv ?nav" "shows_game (Some (key, game)) ?nav st" "mirrors lib ?nav st" "selection_inv lib st"
    using board_run_inv [OF assms(1)] assms(4) by (simp_all add: board_inv_def)
  have moves: "nav_moves ?nav = dg_moves game" using inv(2) by (simp add: shows_game_def)
  have fits: "nav_fits ?nav" using inv(1) assms(2) moves by (simp add: nav_fits_def)
  have ply: "bd_current_ply st = nav_ply ?nav" using inv(3) by (simp add: mirrors_def)
  note view = nav_view [OF fits, of lib, unfolded moves, folded ply, folded assms(5)]
  have sans: "bd_san_moves st ! k = cl_san_to_string lib (position_after lib (take k (dg_moves game))) (cl_decode lib (dg_moves game ! k))"
    if "k < length (dg_moves game)" for k
    using move_list_loop_nth [OF that, of lib "[]"] inv(3) moves by (simp add: mirrors_def move_list_def new_board_def)
  have "bd_legal_targets st = targets_from lib (cl_write_fen lib p) sq" if "bd_selected_square st = Some sq" for sq
    using inv(3,4) view that by (simp add: selection_inv_def mirrors_def)
  then show ?thesis using inv(2,3) view sans moves targets_position [OF assms(3)] by (simp add: shows_game_def header_def mirrors_def)
qed

section \<open>A run\<close>

text \<open>A library whose positions are FEN texts and whose two moves advance the king's pawn.\<close>
definition fen_lib :: "(string, bool) chesslib" where
  "fen_lib = \<lparr>cl_initial = ''rnbqkbnr/pppppppp/8/8/8/8/PPPPPPPP/RNBQKBNR w KQkq - 0 1'', cl_hash = (\<lambda>p. of_nat (length p)), cl_read_fen = Some,
     cl_write_fen = id, cl_encode = of_bool, cl_decode = (\<lambda>c. c \<noteq> 0), cl_uci_to_string = (\<lambda>m. if m then ''e2e4'' else ''e2e3''),
     cl_uci_from_string = (\<lambda>p s. if s = ''e2e4'' then Some True else if s = ''e2e3'' then Some False else None),
     cl_san_to_string = (\<lambda>p m. if m then ''e4'' else ''e3''),
     cl_san_from_string = (\<lambda>p s. if s = ''e4'' then Some True else if s = ''e3'' then Some False else None),
     cl_legal_moves = (\<lambda>p. [False, True]),
     cl_make = (\<lambda>p m. if m then ''rnbqkbnr/pppppppp/8/8/4P3/8/PPPP1PPP/RNBQKBNR b KQkq - 0 1'' else ''rnbqkbnr/pppppppp/8/8/8/4P3/PPPP1PPP/RNBQKBNR b KQkq - 0 1'')\<rparr>"

lemma fen_lib_faithful: "fen_faithful fen_lib"
  by (simp add: fen_faithful_def fen_lib_def)

definition pawn_game :: db_game where
  "pawn_game = \<lparr>dg_white = \<lparr>pl_name = ''A'', pl_elo = None, pl_title = None, pl_country = None\<rparr>,
     dg_black = \<lparr>pl_name = ''B'', pl_elo = None, pl_title = None, pl_country = None\<rparr>, dg_event_details = None, dg_date = None, dg_result = ''*'',
     dg_eco = None, dg_moves = [1], dg_extra_tags = [], dg_provenance = default_provenance\<rparr>"

text \<open>The game is loaded and the king's pawn is selected.\<close>
definition pawn_board :: board_presenter where
  "pawn_board = snd (select_square fen_lib 4 1 (apply_loaded_game fen_lib 7 pawn_game (new_board_presenter fen_lib)))"

lemma pawn_board_run: "board_run fen_lib pawn_board (Some (7, pawn_game))"
  unfolding pawn_board_def by (rule run_select, rule run_load, rule run_new)

theorem board_shows_position_witness:
  "bd_legal_targets (bo_state pawn_board) = [\<lparr>sq_file = 4, sq_rank = 2\<rparr>, \<lparr>sq_file = 4, sq_rank = 3\<rparr>]"
proof -
  have len: "length (dg_moves pawn_game) \<le> 65535" by (simp add: pawn_game_def)
  have sel: "bd_selected_square (bo_state pawn_board) = Some \<lparr>sq_file = 4, sq_rank = 1\<rparr>" by code_simp
  have moves: "cl_legal_moves fen_lib = (\<lambda>p. [False, True])" by (simp add: fen_lib_def)
  have from_to: "mi_from (describe_move fen_lib p m) = ''e2''" "mi_to (describe_move fen_lib p m) = (if m then ''e4'' else ''e3'')" for p m
    by (simp_all add: describe_move_def squares_from_uci_def fen_lib_def Let_def)
  have sq: "algebraic_from_square \<lparr>sq_file = 4, sq_rank = 1\<rparr> = ''e2''" "square_from_algebraic ''e3'' = Some \<lparr>sq_file = 4, sq_rank = 2\<rparr>"
    "square_from_algebraic ''e4'' = Some \<lparr>sq_file = 4, sq_rank = 3\<rparr>" by code_simp+
  show ?thesis
    using board_shows_position [OF pawn_board_run len fen_lib_faithful refl refl] sel
    by (simp add: moves from_to sq map_filter_simps)
qed

theorem board_highlights_witness: "bd_square_highlights (bo_state pawn_board) ! square_index \<lparr>sq_file = 4, sq_rank = 1\<rparr> = Selected"
proof -
  have "bd_selected_square (bo_state pawn_board) = Some \<lparr>sq_file = 4, sq_rank = 1\<rparr>" by code_simp
  moreover have "on_board \<lparr>sq_file = 4, sq_rank = 1\<rparr>" by (simp add: on_board_def)
  ultimately show ?thesis using board_highlights [OF pawn_board_run refl] by simp
qed

end
