(* ===== verification/Game_Store_Patch.thy ===== *)
theory Game_Store_Patch
  imports Game_Store_Get
begin

text \<open>
  Editing stored games: what \<open>patch_metadata\<close> does to the tables (the specification \<open>patch_tables\<close>, refined by the store on a
  connection that works), what a reader sees afterwards, which errors it reports, and \<open>remove\<close>.
\<close>

section \<open>Specification\<close>

definition update_row :: "u32 \<Rightarrow> (game_row \<Rightarrow> game_row) \<Rightarrow> tables \<Rightarrow> tables option" where
  "update_row key f tb = map_option snd (update_game (unat key) f tb)"

definition spec_player :: "u32 \<Rightarrow> side \<Rightarrow> player \<Rightarrow> string option \<Rightarrow> u32 option \<Rightarrow> tables \<Rightarrow> tables option" where
  "spec_player key side current name elo tb =
     Option.bind (case elo of None \<Rightarrow> Some tb | Some x \<Rightarrow> update_row key (set_side_elo side x) tb) (\<lambda>tb.
       case name of
         None \<Rightarrow> Some tb
       | Some n \<Rightarrow> (case ensure_player (current\<lparr>pl_name := n\<rparr>) tb of (i, tb) \<Rightarrow> update_row key (set_side_id side i) tb))"

definition spec_event :: "u32 \<Rightarrow> event option \<Rightarrow> string option \<Rightarrow> string option \<Rightarrow> tables \<Rightarrow> tables option" where
  "spec_event key existing event_patch site_patch tb =
     (let name = coalesce event_patch (case existing of None \<Rightarrow> [] | Some e \<Rightarrow> ev_name e) in
      if name = [] then Some tb
      else case ensure_event (Some \<lparr>ev_name = name,
               ev_site = (if site_patch \<noteq> None then site_patch else case existing of None \<Rightarrow> None | Some e \<Rightarrow> ev_site e),
               ev_date = (case existing of None \<Rightarrow> None | Some e \<Rightarrow> ev_date e)\<rparr>) tb of
          (i, tb) \<Rightarrow> update_row key (\<lambda>r. r\<lparr>gr_event_id := i\<rparr>) tb)"

fun spec_fields :: "u32 \<Rightarrow> (text_column \<times> string option) list \<Rightarrow> tables \<Rightarrow> tables option" where
  "spec_fields key [] tb = Some tb"
| "spec_fields key ((column, new) # rest) tb =
     (case new of None \<Rightarrow> spec_fields key rest tb
      | Some x \<Rightarrow> Option.bind (update_row key (set_text_column column x) tb) (spec_fields key rest))"

definition spec_notes :: "u32 \<Rightarrow> string option \<Rightarrow> tables \<Rightarrow> tables option" where
  "spec_notes key notes_patch tb =
     (case notes_patch of
        None \<Rightarrow> Some tb
      | Some x \<Rightarrow>
          let tb = snd (the (delete_notes (unat key) tb)) in
          if x = [] then Some tb
          else case store_tags (unat key) [(''_notes'', x)] tb of (ok, tb) \<Rightarrow> if ok then Some tb else None)"

definition spec_people :: "u32 \<Rightarrow> db_game \<Rightarrow> game_patch \<Rightarrow> tables \<Rightarrow> tables option" where
  "spec_people key cur patch tb =
     Option.bind (spec_player key White_Side (dg_white cur) (gq_white_name patch) (gq_white_elo patch) tb) (\<lambda>tb.
     Option.bind (spec_player key Black_Side (dg_black cur) (gq_black_name patch) (gq_black_elo patch) tb) (\<lambda>tb.
       if gq_event patch = None \<and> gq_site patch = None then Some tb
       else spec_event key (dg_event_details cur) (gq_event patch) (gq_site patch) tb))"

text \<open>The tables after a patch of the game that reads as \<open>cur\<close>, or nothing when a constraint is violated.\<close>
definition patch_tables :: "u32 \<Rightarrow> db_game \<Rightarrow> game_patch \<Rightarrow> tables \<Rightarrow> tables option" where
  "patch_tables key cur patch tb =
     Option.bind (spec_people key cur patch tb) (\<lambda>tb.
     Option.bind (spec_fields key (scalar_fields patch) tb) (spec_notes key (gq_notes patch)))"

section \<open>Refinement\<close>

text \<open>A step computes a partial function on the tables; where that is undefined the step reports an I/O failure.\<close>
definition computes :: "(game_writer \<Rightarrow> unit result \<times> game_writer) \<Rightarrow> tables \<Rightarrow> tables option \<Rightarrow> bool" where
  "computes m tb r \<longleftrightarrow> (\<forall>sv w. at sv tb w \<longrightarrow>
     (case r of None \<Rightarrow> \<exists>w' tb'. m w = (unexpected Io_Failure, w') \<and> at sv tb' w'
      | Some tb' \<Rightarrow> \<exists>w'. m w = (Inr (), w') \<and> at sv tb' w'))"

lemma computes_Some: "computes m tb (Some tb') \<Longrightarrow> at sv tb w \<Longrightarrow> \<exists>w'. m w = (Inr (), w') \<and> at sv tb' w'"
  unfolding computes_def option.case by blast

lemma computes_None: "computes m tb None \<Longrightarrow> at sv tb w \<Longrightarrow> \<exists>w' tb'. m w = (unexpected Io_Failure, w') \<and> at sv tb' w'"
  unfolding computes_def option.case by blast

lemma computesI:
  "(\<And>sv w. at sv tb w \<Longrightarrow> r = None \<Longrightarrow> \<exists>w' tb'. m w = (unexpected Io_Failure, w') \<and> at sv tb' w')
   \<Longrightarrow> (\<And>sv w tb'. at sv tb w \<Longrightarrow> r = Some tb' \<Longrightarrow> \<exists>w'. m w = (Inr (), w') \<and> at sv tb' w') \<Longrightarrow> computes m tb r"
  by (cases r) (simp_all add: computes_def)

lemma computes_and_then:
  assumes "computes m tb r" and "\<And>tb'. r = Some tb' \<Longrightarrow> computes (f ()) tb' (g tb')"
  shows "computes (and_then m f) tb (Option.bind r g)"
proof (cases r)
  case None
  show ?thesis using computes_None [OF assms(1) [unfolded None]] by (fastforce simp: None and_then_def intro!: computesI)
next
  case (Some tb1)
  have step: "\<exists>w1. and_then m f w = f () w1 \<and> at sv tb1 w1" if "at sv tb w" for sv w
    using computes_Some [OF assms(1) [unfolded Some] that] by (auto simp: and_then_def)
  show ?thesis
    unfolding Some Option.bind.simps
    by (rule computesI) (use step computes_None computes_Some assms(2) [OF Some] in metis)+
qed

lemma computes_return: "computes (return (Inr ())) tb (Some tb)"
  by (simp add: computes_def return_def)

text \<open>A step that delivers a value and cannot fail on a connection that works.\<close>
lemma computes_value:
  assumes "\<And>sv w. at sv tb w \<Longrightarrow> \<exists>w'. m w = (Inr x, w') \<and> at sv tb1 w'" and "computes (f x) tb1 r"
  shows "computes (and_then m f) tb r"
proof -
  have step: "\<exists>w1. and_then m f w = f x w1 \<and> at sv tb1 w1" if "at sv tb w" for sv w
    using assms(1) [OF that] by (auto simp: and_then_def)
  show ?thesis by (rule computesI) (use step computes_None computes_Some assms(2) in metis)+
qed

lemma computes_update:
  assumes "\<And>r. gr_id (f r) = gr_id r"
  shows "computes (run_update key f) tb (update_row key f tb)"
  unfolding computes_def
proof (intro allI impI)
  fix sv w assume w: "at sv tb w"
  note sound = sound_update_game [OF assms, of "unat key"]
  show "case update_row key f tb of None \<Rightarrow> \<exists>w' tb'. run_update key f w = (unexpected Io_Failure, w') \<and> at sv tb' w'
      | Some tb' \<Rightarrow> \<exists>w'. run_update key f w = (Inr (), w') \<and> at sv tb' w'"
  proof (cases "update_game (unat key) f tb")
    case None
    from prepared_at_None [OF w sound None] show ?thesis by (auto simp: update_row_def None run_update_def and_then_def)
  next
    case (Some x)
    obtain n tb' where x: "x = (n, tb')" by force
    from prepared_at [OF w sound Some [unfolded x]] show ?thesis by (auto simp: update_row_def Some x run_update_def and_then_def return_def)
  qed
qed

lemma computes_patch_player:
  "computes (patch_player key side current name elo) tb (spec_player key side current name elo tb)"
  unfolding patch_player_def spec_player_def
proof (rule computes_and_then)
  show "computes (case elo of None \<Rightarrow> return (Inr ()) | Some x \<Rightarrow> run_update key (set_side_elo side x)) tb
      (case elo of None \<Rightarrow> Some tb | Some x \<Rightarrow> update_row key (set_side_elo side x) tb)"
    by (cases elo) (simp_all add: computes_return computes_update)
  fix tb1
  show "computes (case name of None \<Rightarrow> return (Inr ()) | Some n \<Rightarrow> and_then (store_find_or_insert_player (current\<lparr>pl_name := n\<rparr>))
        (\<lambda>i. run_update key (set_side_id side i))) tb1
      (case name of None \<Rightarrow> Some tb1
       | Some n \<Rightarrow> (case ensure_player (current\<lparr>pl_name := n\<rparr>) tb1 of (i, tb) \<Rightarrow> update_row key (set_side_id side i) tb))"
  proof (cases name)
    case None
    then show ?thesis by (simp add: computes_return)
  next
    case (Some n)
    obtain i tb2 where e: "ensure_player (current\<lparr>pl_name := n\<rparr>) tb1 = (i, tb2)" by force
    have "computes (and_then (store_find_or_insert_player (current\<lparr>pl_name := n\<rparr>)) (\<lambda>i. run_update key (set_side_id side i))) tb1
        (update_row key (set_side_id side i) tb2)"
      unfolding store_find_or_insert_player_def by (rule computes_value [OF player_at [OF _ e]]) (simp_all add: computes_update)
    then show ?thesis by (simp add: Some e)
  qed
qed

lemma computes_patch_event:
  "computes (patch_event key cur event_patch site_patch) tb (spec_event key (dg_event_details cur) event_patch site_patch tb)"
proof -
  let ?name = "coalesce event_patch (case dg_event_details cur of None \<Rightarrow> [] | Some e \<Rightarrow> ev_name e)"
  let ?evt = "\<lparr>ev_name = ?name,
      ev_site = (if site_patch \<noteq> None then site_patch else case dg_event_details cur of None \<Rightarrow> None | Some e \<Rightarrow> ev_site e),
      ev_date = (case dg_event_details cur of None \<Rightarrow> None | Some e \<Rightarrow> ev_date e)\<rparr>"
  obtain i tb1 where e: "ensure_event (Some ?evt) tb = (Some i, tb1)" by (force simp: ensure_event_def split: prod.splits)
  have "computes (and_then (store_find_or_insert_event ?evt) (\<lambda>i. run_update key (\<lambda>r. r\<lparr>gr_event_id := Some i\<rparr>))) tb
      (update_row key (\<lambda>r. r\<lparr>gr_event_id := Some i\<rparr>) tb1)"
    unfolding store_find_or_insert_event_def by (rule computes_value [OF event_at [OF _ e]]) (simp_all add: computes_update)
  note step = this
  show ?thesis
  proof (cases "?name = []")
    case True
    then show ?thesis by (simp add: patch_event_def spec_event_def Let_def computes_return)
  next
    case False
    show ?thesis unfolding patch_event_def spec_event_def Let_def if_not_P [OF False] e prod.case by (rule step)
  qed
qed

lemma computes_fields: "computes (update_fields key cols) tb (spec_fields key cols tb)"
proof (induction cols arbitrary: tb)
  case Nil
  show ?case by (simp add: computes_def)
next
  case (Cons c cols)
  obtain col new where c: "c = (col, new)" by force
  show ?case
  proof (cases new)
    case None
    then have "update_fields key (c # cols) = update_fields key cols" by (intro ext) (simp add: c)
    then show ?thesis using Cons.IH [of tb] None by (simp add: c)
  next
    case (Some x)
    have "computes (and_then (update_text_field key col x) (\<lambda>_. update_fields key cols)) tb
        (Option.bind (update_row key (set_text_column col x) tb) (spec_fields key cols))"
      unfolding update_text_field_def by (rule computes_and_then [OF computes_update]) (simp_all add: Cons.IH)
    moreover have "update_fields key (c # cols) = and_then (update_text_field key col x) (\<lambda>_. update_fields key cols)"
      by (rule ext) (simp add: c Some)
    ultimately show ?thesis by (simp add: c Some)
  qed
qed

lemma computes_notes: "computes (patch_notes key opt) tb (spec_notes key opt tb)"
proof (cases opt)
  case None
  then show ?thesis by (simp add: patch_notes_def spec_notes_def computes_return)
next
  case (Some x)
  let ?tb = "snd (the (delete_notes (unat key) tb))"
  have del: "\<exists>w'. run_prepared (delete_notes (unat key)) w = (Inr (), w') \<and> at sv ?tb w'" if "at sv tb w" for sv w
    using prepared_at [OF that sound_delete_notes, of "unat key" "()" ?tb] by (simp add: delete_notes_def)
  have inner: "computes (if x = [] then return (Inr ()) else store_insert_game_tags key [(''_notes'', x)]) ?tb
      (if x = [] then Some ?tb else case store_tags (unat key) [(''_notes'', x)] ?tb of (ok, tb) \<Rightarrow> if ok then Some tb else None)"
  proof (cases "x = []")
    case False
    obtain ok tb1 where t: "store_tags (unat key) [(''_notes'', x)] ?tb = (ok, tb1)" by force
    have "computes (insert_game_tags key [(''_notes'', x)]) ?tb (if ok then Some tb1 else None)"
      by (rule computesI) (use tags_at [OF _ t] in \<open>fastforce split: if_splits\<close>)+
    then show ?thesis using False t by (simp only: store_insert_game_tags_def if_False prod.case)
  qed (simp add: computes_return)
  show ?thesis
    unfolding patch_notes_def spec_notes_def Some option.case Let_def
    by (rule computes_value [where x = "()"], erule del, rule inner)
qed

lemma spec_player_none [simp]: "spec_player key side cur None None tb = Some tb"
  by (simp add: spec_player_def)

lemma computes_people:
  assumes "stored_game tb key = Some cur"
  shows "computes (patch_people key patch) tb (spec_people key cur patch tb)"
proof -
  have get: "\<exists>w'. store_get key w = (Inr cur, w') \<and> at sv tb w'" if "at sv tb w" for sv w
    using get_at [OF that, of key] assms by simp
  have player: "computes (if name = None \<and> elo = None then return (Inr ()) else patch_player key side p name elo) tb1
      (spec_player key side p name elo tb1)" for side p name elo tb1
    using computes_patch_player [of key side p name elo tb1] by (auto simp: computes_return)
  have event: "computes (if gq_event patch = None \<and> gq_site patch = None then return (Inr ())
        else patch_event key cur (gq_event patch) (gq_site patch)) tb1
      (if gq_event patch = None \<and> gq_site patch = None then Some tb1
       else spec_event key (dg_event_details cur) (gq_event patch) (gq_site patch) tb1)" for tb1
    using computes_patch_event [of key cur "gq_event patch" "gq_site patch" tb1] by (auto simp: computes_return)
  show ?thesis
  proof (cases "gq_white_name patch = None \<and> gq_white_elo patch = None \<and> gq_black_name patch = None \<and> gq_black_elo patch = None
      \<and> gq_event patch = None \<and> gq_site patch = None")
    case True
    then show ?thesis by (simp add: patch_people_def spec_people_def computes_return)
  next
    case False
    show ?thesis
      unfolding patch_people_def spec_people_def if_not_P [OF False]
      by (rule computes_value [OF get]) (assumption | intro computes_and_then player event)+
  qed
qed

lemma computes_patch:
  assumes "stored_game tb key = Some cur"
  shows "computes (patch_body key patch) tb (patch_tables key cur patch tb)"
  unfolding patch_body_def patch_tables_def
  by (intro computes_and_then computes_people [OF assms] computes_fields computes_notes)

section \<open>The tables after a patch\<close>

text \<open>
  \<open>h\<close> was applied to the row of the game; the other games, their tags and every player, event and tag are as before.
\<close>
definition patched :: "nat \<Rightarrow> (game_row \<Rightarrow> game_row) \<Rightarrow> tables \<Rightarrow> tables \<Rightarrow> bool" where
  "patched i h tb tb' \<longleftrightarrow> wf_tables tb' \<and> extends tb tb'
     \<and> tb_games tb' = map (\<lambda>r. if gr_id r = i then h r else r) (tb_games tb)
     \<and> (\<forall>r. gr_id (h r) = gr_id r) \<and> (\<forall>j. j \<noteq> i \<longrightarrow> select_game_tags j tb' = select_game_tags j tb)"

lemma map_if_id [simp]: "map (\<lambda>r. if P r then id r else r) xs = xs"
  by (induction xs) auto

lemma patched_trans:
  assumes "patched i h tb tb1" and "patched i k tb1 tb2"
  shows "patched i (k o h) tb tb2"
  using assms by (auto simp: patched_def intro: extends_trans)

lemma patched_refl: "wf_tables tb \<Longrightarrow> patched i id tb tb"
  by (simp add: patched_def)

lemma update_row_patched:
  assumes "update_row key f tb = Some tb'" and "wf_tables tb" and "\<And>r. gr_id (f r) = gr_id r"
  shows "patched (unat key) f tb tb'" and "select_game_tags j tb' = select_game_tags j tb"
    and "tb_players tb' = tb_players tb" and "tb_events tb' = tb_events tb"
proof -
  obtain n where u: "update_game (unat key) f tb = Some (n, tb')" using assms(1) by (auto simp: update_row_def)
  have w: "wf_tables tb' \<and> extends tb tb'" using sound_update_game [OF assms(3)] u assms(2) unfolding sound_stmt_def by blast
  have tb': "tb' = tb\<lparr>tb_games := map (\<lambda>r. if gr_id r = unat key then f r else r) (tb_games tb)\<rparr>"
  proof (cases "find (\<lambda>r. gr_id r = unat key) (tb_games tb)")
    case None
    then have "map (\<lambda>r. if gr_id r = unat key then f r else r) (tb_games tb) = tb_games tb"
      by (auto simp: find_None_iff intro!: map_idI)
    then show ?thesis using u None by (simp add: update_game_def)
  next
    case (Some r)
    have "s = r" if "s \<in> set (tb_games tb)" "gr_id s = unat key" for s
      using find_id [OF assms(2) that(1)] that(2) Some by simp
    then show ?thesis using u Some by (auto simp: update_game_def Let_def split: if_splits)
  qed
  show "select_game_tags j tb' = select_game_tags j tb" "tb_players tb' = tb_players tb" "tb_events tb' = tb_events tb"
    by (simp_all add: tb' select_game_tags_def)
  then show "patched (unat key) f tb tb'" using w assms(3) by (auto simp: patched_def tb' select_game_tags_def)
qed

lemma ensure_player_patched:
  assumes "ensure_player p tb = (i, tb')" and "wf_tables tb"
  shows "patched k id tb tb'" and "select_game_tags j tb' = select_game_tags j tb"
    and "\<exists>e. entity_at i (tb_players tb') = Some e \<and> en_name e = pl_name p"
proof -
  note w = ensure_player_wf [OF assms(2,1)]
  have tags: "select_game_tags j tb' = select_game_tags j tb" for j
    using arg_cong [OF w(4), of tb_tags] arg_cong [OF w(4), of tb_game_tags] by (simp add: select_game_tags_def)
  then show "select_game_tags j tb' = select_game_tags j tb" .
  show "patched k id tb tb'" using w(1,2) tags arg_cong [OF w(4), of tb_games] by (simp add: patched_def)
  obtain es where "ensure_entity (pl_name p) (pl_elo p, pl_title p, pl_country p) (tb_players tb) = (i, es)" "tb_players tb' = es"
    using assms(1) by (auto simp: ensure_player_def split: prod.splits)
  then show "\<exists>e. entity_at i (tb_players tb') = Some e \<and> en_name e = pl_name p"
    using ensure_entity_at(3) assms(2) by (fastforce simp: wf_tables_def)
qed

lemma ensure_event_patched:
  assumes "ensure_event (Some evt) tb = (i, tb')" and "wf_tables tb"
  shows "patched k id tb tb'" and "select_game_tags j tb' = select_game_tags j tb"
    and "\<exists>n e. i = Some n \<and> entity_at n (tb_events tb') = Some e \<and> en_name e = ev_name evt"
proof -
  note w = ensure_event_wf [OF assms(2,1)]
  obtain n es where e: "ensure_entity (ev_name evt) (ev_site evt, ev_date evt) (tb_events tb) = (n, es)" "tb_events tb' = es" "i = Some n"
    using assms(1) by (auto simp: ensure_event_def split: prod.splits)
  have tags: "select_game_tags j tb' = select_game_tags j tb" for j
    using arg_cong [OF w(3), of tb_tags] arg_cong [OF w(3), of tb_game_tags] by (simp add: select_game_tags_def)
  then show "select_game_tags j tb' = select_game_tags j tb" .
  have "extends tb tb'"
    using ensure_entity_subset [OF e(1)] e(2) arg_cong [OF w(3), of tb_players] arg_cong [OF w(3), of tb_tags] by (simp add: extends_def)
  then show "patched k id tb tb'" using w(1) tags arg_cong [OF w(3), of tb_games] by (simp add: patched_def)
  show "\<exists>n e. i = Some n \<and> entity_at n (tb_events tb') = Some e \<and> en_name e = ev_name evt"
    using ensure_entity_at(3) [OF e(1)] e(2,3) assms(2) by (fastforce simp: wf_tables_def)
qed

section \<open>The row after a patch\<close>

definition or_else :: "'a option \<Rightarrow> 'a option \<Rightarrow> 'a option" where
  "or_else new old = (case new of None \<Rightarrow> old | Some x \<Rightarrow> Some x)"

lemma or_else_simps [simp]: "or_else None y = y" "or_else (Some x) y = Some x"
  by (simp_all add: or_else_def)

lemma coalesce_simps [simp]: "coalesce None d = d" "coalesce (Some x) d = x"
  by (simp_all add: coalesce_def)

fun side_row :: "side \<Rightarrow> string option \<Rightarrow> u32 option \<Rightarrow> nat \<Rightarrow> game_row \<Rightarrow> game_row" where
  "side_row White_Side name elo i r =
     r\<lparr>gr_white_id := (if name = None then gr_white_id r else i), gr_white_elo := or_else elo (gr_white_elo r)\<rparr>"
| "side_row Black_Side name elo i r =
     r\<lparr>gr_black_id := (if name = None then gr_black_id r else i), gr_black_elo := or_else elo (gr_black_elo r)\<rparr>"

definition fields_row :: "game_patch \<Rightarrow> game_row \<Rightarrow> game_row" where
  "fields_row patch r =
     r\<lparr>gr_date := or_else (gq_date patch) (gr_date r), gr_result := coalesce (gq_result patch) (gr_result r),
       gr_eco := or_else (gq_eco patch) (gr_eco r), gr_source_label := or_else (gq_source_label patch) (gr_source_label r),
       gr_review_status := coalesce (gq_review_status patch) (gr_review_status r)\<rparr>"

lemma spec_player_patched:
  assumes "spec_player key side cur name elo tb = Some tb'" and "wf_tables tb"
  shows "\<exists>i. patched (unat key) (side_row side name elo i) tb tb' \<and> (\<forall>j. select_game_tags j tb' = select_game_tags j tb)
     \<and> (\<forall>n. name = Some n \<longrightarrow> (\<exists>e. entity_at i (tb_players tb') = Some e \<and> en_name e = n))"
proof -
  obtain tb1 where e: "(case elo of None \<Rightarrow> Some tb | Some x \<Rightarrow> update_row key (set_side_elo side x) tb) = Some tb1"
    and n: "(case name of None \<Rightarrow> Some tb1
       | Some n \<Rightarrow> (case ensure_player (cur\<lparr>pl_name := n\<rparr>) tb1 of (i, tb) \<Rightarrow> update_row key (set_side_id side i) tb)) = Some tb'"
    using assms(1) by (auto simp: spec_player_def bind_eq_Some_conv)
  have p1: "patched (unat key) (side_row side None elo 0) tb tb1 \<and> (\<forall>j. select_game_tags j tb1 = select_game_tags j tb)"
  proof (cases elo)
    case None
    moreover have "side_row side None None 0 = id" by (rule ext) (cases side; simp)
    ultimately show ?thesis using e patched_refl [OF assms(2)] by simp
  next
    case (Some x)
    have "side_row side None (Some x) 0 = set_side_elo side x" by (rule ext) (cases side; simp)
    then show ?thesis using update_row_patched [of key "set_side_elo side x" tb tb1] e assms(2) Some by simp
  qed
  show ?thesis
  proof (cases name)
    case None
    then show ?thesis using p1 n by auto
  next
    case (Some nm)
    obtain i tb2 where en: "ensure_player (cur\<lparr>pl_name := nm\<rparr>) tb1 = (i, tb2)" by force
    have u: "update_row key (set_side_id side i) tb2 = Some tb'" using n by (simp add: Some en)
    have wf1: "wf_tables tb1" using p1 by (simp add: patched_def)
    note p2 = ensure_player_patched [OF en wf1]
    have wf2: "wf_tables tb2" using p2(1) [of "unat key"] by (simp add: patched_def)
    note p3 = update_row_patched [OF u wf2]
    have "set_side_id side i o (id o side_row side None elo 0) = side_row side (Some nm) elo i" by (rule ext) (cases side; simp)
    then have "patched (unat key) (side_row side name elo i) tb tb'"
      using patched_trans [OF patched_trans [OF conjunct1 [OF p1] p2(1)] p3(1)] Some by simp
    then show ?thesis using p1 p2(2,3) p3(2,3) Some by auto
  qed
qed

lemma spec_event_patched:
  assumes "spec_event key existing event_patch site_patch tb = Some tb'" and "wf_tables tb"
    and "name = coalesce event_patch (case existing of None \<Rightarrow> [] | Some e \<Rightarrow> ev_name e)"
  shows "\<exists>i. patched (unat key) (if name = [] then id else (\<lambda>r. r\<lparr>gr_event_id := Some i\<rparr>)) tb tb'
     \<and> (\<forall>j. select_game_tags j tb' = select_game_tags j tb)
     \<and> (name \<noteq> [] \<longrightarrow> (\<exists>e. entity_at i (tb_events tb') = Some e \<and> en_name e = name))"
proof (cases "name = []")
  case True
  then show ?thesis using assms patched_refl by (simp add: spec_event_def Let_def)
next
  case False
  let ?evt = "\<lparr>ev_name = name,
      ev_site = (if site_patch \<noteq> None then site_patch else case existing of None \<Rightarrow> None | Some e \<Rightarrow> ev_site e),
      ev_date = (case existing of None \<Rightarrow> None | Some e \<Rightarrow> ev_date e)\<rparr>"
  obtain i tb1 where en: "ensure_event (Some ?evt) tb = (i, tb1)" by force
  have u: "update_row key (\<lambda>r. r\<lparr>gr_event_id := i\<rparr>) tb1 = Some tb'"
    using assms(1) unfolding spec_event_def Let_def assms(3) [symmetric] if_not_P [OF False] en prod.case .
  note p1 = ensure_event_patched [OF en assms(2)]
  have wf1: "wf_tables tb1" using p1(1) [of "unat key"] by (simp add: patched_def)
  note p2 = update_row_patched [OF u wf1]
  from p1(3) obtain n e where n: "i = Some n" "entity_at n (tb_events tb1) = Some e" "en_name e = name" by auto
  have "patched (unat key) (\<lambda>r. r\<lparr>gr_event_id := Some n\<rparr>) tb tb'"
    using patched_trans [OF p1(1) p2(1)] n(1) by (simp add: comp_def)
  then show ?thesis using p1(2) p2(2,4) n False by auto
qed

lemma spec_fields_patched:
  assumes "spec_fields key cols tb = Some tb'" and "wf_tables tb"
  shows "patched (unat key) (fold (\<lambda>(c, v). case v of None \<Rightarrow> id | Some x \<Rightarrow> set_text_column c x) cols) tb tb'
     \<and> (\<forall>j. select_game_tags j tb' = select_game_tags j tb)"
  using assms
proof (induction cols arbitrary: tb)
  case Nil
  then show ?case using patched_refl by (simp add: id_def)
next
  case (Cons c cols)
  obtain col new where c: "c = (col, new)" by force
  show ?case
  proof (cases new)
    case None
    then show ?thesis using Cons by (simp add: c)
  next
    case (Some x)
    then obtain tb1 where u: "update_row key (set_text_column col x) tb = Some tb1" "spec_fields key cols tb1 = Some tb'"
      using Cons.prems(1) by (auto simp: c bind_eq_Some_conv)
    note p = update_row_patched [OF u(1) Cons.prems(2) set_column_id(1)]
    have "wf_tables tb1" using p(1) by (simp add: patched_def)
    note IH = Cons.IH [OF u(2) this]
    have "patched (unat key) (fold (\<lambda>(c, v). case v of None \<Rightarrow> id | Some x \<Rightarrow> set_text_column c x) cols o set_text_column col x) tb tb'"
      by (rule patched_trans [OF p(1) conjunct1 [OF IH]])
    then show ?thesis using IH p(2) by (simp add: c Some comp_def)
  qed
qed

lemma scalar_fields_row:
  "fold (\<lambda>(c, v). case v of None \<Rightarrow> id | Some x \<Rightarrow> set_text_column c x) (scalar_fields patch) = fields_row patch"
proof -
  have e: "(case v of None \<Rightarrow> id | Some x \<Rightarrow> set_text_column Col_Date x) = (\<lambda>r. r\<lparr>gr_date := or_else v (gr_date r)\<rparr>)"
    "(case v of None \<Rightarrow> id | Some x \<Rightarrow> set_text_column Col_Result x) = (\<lambda>r. r\<lparr>gr_result := coalesce v (gr_result r)\<rparr>)"
    "(case v of None \<Rightarrow> id | Some x \<Rightarrow> set_text_column Col_Eco x) = (\<lambda>r. r\<lparr>gr_eco := or_else v (gr_eco r)\<rparr>)"
    "(case v of None \<Rightarrow> id | Some x \<Rightarrow> set_text_column Col_Source_Label x) = (\<lambda>r. r\<lparr>gr_source_label := or_else v (gr_source_label r)\<rparr>)"
    "(case v of None \<Rightarrow> id | Some x \<Rightarrow> set_text_column Col_Review_Status x) = (\<lambda>r. r\<lparr>gr_review_status := coalesce v (gr_review_status r)\<rparr>)" for v
    by (rule ext, cases v, simp_all)+
  show ?thesis by (rule ext) (simp add: scalar_fields_def e fields_row_def)
qed

section \<open>Notes\<close>

lemma store_tags_extends:
  assumes "wf_tables tb" and "store_tags gid tags tb = (ok, tb')"
  shows "set (tb_tags tb) \<subseteq> set (tb_tags tb')"
  using assms
proof (induction tags arbitrary: tb)
  case (Cons tag tags)
  obtain i tb1 where t: "ensure_tag (fst tag) tb = (i, tb1)" by force
  note k = ensure_tag_kept [OF Cons.prems(1) t]
  show ?case
  proof (cases "insert_game_tag gid i (snd tag) tb1")
    case None
    then show ?thesis using Cons.prems(2) k(3) by (simp add: t)
  next
    case (Some r)
    obtain u tb2 where r: "r = (u, tb2)" by (cases r)
    have "set (tb_tags tb2) \<subseteq> set (tb_tags tb')"
      using Cons.IH [OF insert_game_tag_Some [OF Some [unfolded r] k(1)]] Cons.prems(2) by (simp add: t Some r)
    then show ?thesis using k(3) by (auto simp: insert_game_tag_kept [OF Some [unfolded r]])
  qed
qed simp

lemma delete_notes_tags:
  assumes "wf_tables tb" and "delete_notes i tb = Some (u, tb')"
  shows "wf_tables tb'" and "tb_games tb' = tb_games tb" and "extends tb tb'"
    and "select_game_tags i tb' = filter (\<lambda>t. fst t \<noteq> ''_notes'') (select_game_tags i tb)"
    and "j \<noteq> i \<Longrightarrow> select_game_tags j tb' = select_game_tags j tb"
proof -
  show "wf_tables tb'" "extends tb tb'" using sound_delete_notes [of i] assms unfolding sound_stmt_def by blast+
  show "tb_games tb' = tb_games tb" using assms(2) by (auto simp: delete_notes_def)
  have filt: "filter (\<lambda>t. gt_game_id t = j) (filter (\<lambda>t. \<not> (gt_game_id t = i \<and> Q t)) ts)
      = (if j = i then filter (\<lambda>t. \<not> Q t) (filter (\<lambda>t. gt_game_id t = j) ts) else filter (\<lambda>t. gt_game_id t = j) ts)" for j Q ts
    by (auto simp: filter_filter intro: filter_cong)
  have tb': "tb_tags tb' = tb_tags tb"
      "tb_game_tags tb' = filter (\<lambda>t. \<not> (gt_game_id t = i \<and> Some (gt_tag_id t) = select_id ''_notes'' (tb_tags tb))) (tb_game_tags tb)"
    using assms(2) by (auto simp: delete_notes_def)
  show "select_game_tags j tb' = select_game_tags j tb" if "j \<noteq> i"
    unfolding select_game_tags_def tb' filt if_not_P [OF that] ..
  have wft: "wf_entities (tb_tags tb)" using assms(1) by (simp add: wf_tables_def)
  have is_notes: "Some (gt_tag_id t) = select_id ''_notes'' (tb_tags tb) \<longleftrightarrow> en_name e = ''_notes''"
    if "entity_at (gt_tag_id t) (tb_tags tb) = Some e" for t e
  proof
    assume "Some (gt_tag_id t) = select_id ''_notes'' (tb_tags tb)"
    then obtain e' where e': "e' \<in> set (tb_tags tb)" "en_id e' = gt_tag_id t" "en_name e' = ''_notes''"
      using select_id_entry by (metis entry_def)
    then show "en_name e = ''_notes''" using entity_at_unique [OF wft e'(1)] that by simp
  next
    assume "en_name e = ''_notes''"
    then have "entry (gt_tag_id t) ''_notes'' (tb_tags tb)" using entity_at_Some [OF that] by (auto simp: entry_def)
    then show "Some (gt_tag_id t) = select_id ''_notes'' (tb_tags tb)" using select_id_unique [OF wft] by simp
  qed
  have "List.map_filter (\<lambda>t. map_option (\<lambda>e. (en_name e, gt_value t)) (entity_at (gt_tag_id t) (tb_tags tb)))
        (filter (\<lambda>t. \<not> Some (gt_tag_id t) = select_id ''_notes'' (tb_tags tb)) ts)
      = filter (\<lambda>t. fst t \<noteq> ''_notes'') (List.map_filter (\<lambda>t. map_option (\<lambda>e. (en_name e, gt_value t)) (entity_at (gt_tag_id t) (tb_tags tb))) ts)" for ts
  proof (induction ts)
    case (Cons t ts)
    show ?case using Cons.IH is_notes [of t] by (cases "entity_at (gt_tag_id t) (tb_tags tb)") (auto simp: map_filter_simps)
  qed (simp add: map_filter_simps)
  then show "select_game_tags i tb' = filter (\<lambda>t. fst t \<noteq> ''_notes'') (select_game_tags i tb)"
    unfolding select_game_tags_def tb' filt if_P [OF refl] .
qed

definition notes_tags :: "string option \<Rightarrow> (string \<times> string) list \<Rightarrow> (string \<times> string) list" where
  "notes_tags notes_patch tags =
     (case notes_patch of None \<Rightarrow> tags
      | Some x \<Rightarrow> filter (\<lambda>t. fst t \<noteq> ''_notes'') tags @ (if x = [] then [] else [(''_notes'', x)]))"

lemma spec_notes_patched:
  assumes "spec_notes key opt tb = Some tb'" and "wf_tables tb"
  shows "patched (unat key) id tb tb' \<and> select_game_tags (unat key) tb' = notes_tags opt (select_game_tags (unat key) tb)"
proof (cases opt)
  case None
  then show ?thesis using assms patched_refl by (simp add: spec_notes_def notes_tags_def)
next
  case (Some x)
  obtain tb1 where d: "delete_notes (unat key) tb = Some ((), tb1)" by (simp add: delete_notes_def)
  note p = delete_notes_tags [OF assms(2) d]
  have p1: "patched (unat key) id tb tb1" using p by (simp add: patched_def)
  show ?thesis
  proof (cases "x = []")
    case True
    then show ?thesis using assms(1) p1 p(4) Some d by (simp add: spec_notes_def notes_tags_def)
  next
    case False
    then have t: "store_tags (unat key) [(''_notes'', x)] tb1 = (True, tb')"
      using assms(1) Some d by (auto simp: spec_notes_def Let_def simp del: store_tags.simps split: prod.splits if_splits)
    note r = store_tags_read [OF p(1) t] and o = store_tags_other [OF p(1) t] and g = store_tags_games [of "unat key" "[(''_notes'', x)]" tb1]
    have "patched (unat key) id tb1 tb'"
      using r o g store_tags_extends [OF p(1) t] t by (simp add: patched_def extends_def)
    from patched_trans [OF p1 this] show ?thesis using r p(4) False Some by (simp add: notes_tags_def)
  qed
qed

section \<open>Outcomes\<close>

lemma guarded_Inl:
  assumes "\<And>sv w. at sv tb w \<Longrightarrow> \<exists>w' tb'. body w = (Inl e, w') \<and> at sv tb' w'"
    and "writer_inv w" and "sd_reliable (gw_db w)" and "gw_tables w = tb"
  shows "\<exists>w'. guarded clear_insert_caches body w = (Inl e, w') \<and> sd_reliable (gw_db w')"
proof -
  obtain g db sv where g: "txn_guard (gw_db w) = (Some g, db)" "at sv tb (w\<lparr>gw_db := db\<rparr>)"
  proof (cases "sd_saved (gw_db w)")
    case None
    let ?db = "(gw_db w)\<lparr>sd_clock := sd_clock (gw_db w) + 1, sd_saved := Some tb\<rparr>"
    have "at (Some tb, tb) tb (w\<lparr>gw_db := ?db\<rparr>)"
      using assms(2-4) by (simp add: at_def step_inv_def writer_inv_def sd_reliable_def)
    moreover have "txn_guard (gw_db w) = (Some True, ?db)"
      using None assms(3,4) by (simp add: txn_guard_def sql_begin_def Let_def sd_reliable_def)
    ultimately show thesis using that by blast
  next
    case (Some tb0)
    have "at (sd_saved (gw_db w), tb) tb (w\<lparr>gw_db := gw_db w\<rparr>)" using assms(2-4) by (simp add: at_def step_inv_def writer_inv_def)
    moreover have "txn_guard (gw_db w) = (Some False, gw_db w)" using Some by (simp add: txn_guard_def)
    ultimately show thesis using that by blast
  qed
  from assms(1) [OF g(2)] obtain w' tb' where w': "body (w\<lparr>gw_db := db\<rparr>) = (Inl e, w')" "at sv tb' w'" by blast
  have "sd_reliable (txn_release g False (gw_db w'))"
    using w'(2) by (simp add: at_def sd_reliable_def txn_release_def sql_rollback_def split: option.splits)
  then show ?thesis by (simp add: guarded_def g(1) w'(1))
qed

lemma stored_provenance:
  assumes "wf_tables tb" and "stored_game tb key = Some g"
  shows "\<exists>r. find (\<lambda>r. gr_id r = unat key) (tb_games tb) = Some r \<and> read_provenance r = dg_provenance g"
proof -
  have "unat key \<in> gr_id ` set (tb_games tb)" using assms stored_game_None [OF assms(1), of key] by simp
  then obtain r where r: "r \<in> set (tb_games tb)" "gr_id r = unat key" by auto
  obtain w b e where "join_game tb r = Some (r, w, b, e)" using join_game_total [OF assms(1) r(1)] by blast
  from stored_game_row [OF assms(1) r this] assms(2) find_id [OF assms(1) r(1)] r(2) show ?thesis by auto
qed

lemma provenance_at:
  assumes "at sv tb w"
  shows "\<exists>w'. get_provenance key w = ((case stored_game tb key of None \<Rightarrow> unexpected Not_Found | Some g \<Rightarrow> Inr (dg_provenance g)), w')
     \<and> at sv tb w'"
  unfolding get_provenance_def
proof (rule query_then_at [OF assms])
  fix w1 assume w1: "at sv tb w1"
  note wf = at_wf [OF assms]
  show "\<exists>w2. (case find (\<lambda>r. gr_id r = unat key) (tb_games tb) of None \<Rightarrow> return (unexpected Not_Found) | Some r \<Rightarrow> return (Inr (read_provenance r))) w1
      = ((case stored_game tb key of None \<Rightarrow> unexpected Not_Found | Some g \<Rightarrow> Inr (dg_provenance g)), w2) \<and> at sv tb w2"
  proof (cases "stored_game tb key")
    case None
    then have "find (\<lambda>r. gr_id r = unat key) (tb_games tb) = None"
      using stored_game_None [OF wf, of key] by (auto simp: find_None_iff image_iff)
    then show ?thesis using w1 None by (simp add: return_def)
  next
    case (Some g)
    then show ?thesis using stored_provenance [OF wf Some] w1 by (auto simp: return_def)
  qed
qed

text \<open>The result that the specification gives to a patch.\<close>
definition patch_outcome :: "u32 \<Rightarrow> game_patch \<Rightarrow> tables \<Rightarrow> unit result \<times> tables" where
  "patch_outcome key patch tb =
     (case stored_game tb key of
        None \<Rightarrow> (unexpected Not_Found, tb)
      | Some g \<Rightarrow>
          if gp_source_type (dg_provenance g) \<noteq> ''manual'' then (unexpected Not_Editable, tb)
          else case patch_tables key g patch tb of None \<Rightarrow> (unexpected Io_Failure, tb) | Some tb' \<Rightarrow> (Inr (), tb'))"

lemma patch_ready:
  assumes "writer_inv w" and "sd_reliable (gw_db w)" and "sd_saved (gw_db w) = None"
  shows "\<exists>w'. patch_metadata key patch w = (fst (patch_outcome key patch (gw_tables w)), w')
     \<and> gw_tables w' = snd (patch_outcome key patch (gw_tables w)) \<and> sd_reliable (gw_db w')"
proof -
  let ?tb = "gw_tables w"
  obtain w1 where w1: "get_provenance key w = ((case stored_game ?tb key of None \<Rightarrow> unexpected Not_Found | Some g \<Rightarrow> Inr (dg_provenance g)), w1)"
      "at (sd_saved (gw_db w), ?tb) ?tb w1"
    using provenance_at [OF at_start [OF assms(1,2)]] by blast
  have w1': "writer_inv w1" "sd_reliable (gw_db w1)" "gw_tables w1 = ?tb" "sd_saved (gw_db w1) = None"
    using w1(2) assms(3) by (auto simp: at_def step_inv_def writer_inv_def)
  show ?thesis
  proof (cases "stored_game ?tb key")
    case None
    then show ?thesis using w1 w1' by (simp add: patch_metadata_def and_then_def patch_outcome_def)
  next
    case (Some g)
    show ?thesis
    proof (cases "gp_source_type (dg_provenance g) = ''manual''")
      case False
      then show ?thesis using w1 w1' Some by (simp add: patch_metadata_def and_then_def patch_outcome_def return_def)
    next
      case True
      have body: "patch_metadata key patch w = guarded clear_insert_caches (patch_body key patch) w1"
        using w1 Some True by (simp add: patch_metadata_def and_then_def)
      note c = computes_patch [OF Some, of patch]
      show ?thesis
      proof (cases "patch_tables key g patch ?tb")
        case None
        have "\<exists>w'. guarded clear_insert_caches (patch_body key patch) w1 = (unexpected Io_Failure, w') \<and> sd_reliable (gw_db w')"
          by (rule guarded_Inl [where tb = ?tb], erule computes_None [OF c [unfolded None]]) (use w1' in simp_all)
        then obtain w' where r: "guarded clear_insert_caches (patch_body key patch) w1 = (unexpected Io_Failure, w')" "sd_reliable (gw_db w')"
          by blast
        moreover have "gw_tables w' = ?tb"
          using guarded_effect [OF keepsD [OF keeps_patch_body] _ _ w1'(1) r(1)] w1'(3,4) by simp
        ultimately show ?thesis using Some True None body by (simp add: patch_outcome_def)
      next
        case tb': (Some tb')
        have "\<exists>w'. guarded clear_insert_caches (patch_body key patch) w1 = (Inr (), w') \<and> sd_reliable (gw_db w')
            \<and> sd_saved (gw_db w') = sd_saved (gw_db w1)
            \<and> gw_tables w' = (if sd_saved (gw_db w1) = None \<and> isl (Inr () :: unit result) then ?tb else tb')"
          by (rule guarded_refines, erule computes_Some [OF c [unfolded tb']]) (use w1' in simp_all)
        then show ?thesis using Some True tb' body by (auto simp: patch_outcome_def)
      qed
    qed
  qed
qed

section \<open>Reading a patched game\<close>

text \<open>What a reader sees of a game before and after a patch.\<close>
definition patched_reading :: "game_patch \<Rightarrow> db_game \<Rightarrow> db_game \<Rightarrow> bool" where
  "patched_reading patch g g' \<longleftrightarrow>
     dg_moves g' = dg_moves g
     \<and> pl_name (dg_white g') = coalesce (map_option column_text (gq_white_name patch)) (pl_name (dg_white g))
     \<and> pl_elo (dg_white g') = or_else (gq_white_elo patch) (pl_elo (dg_white g))
     \<and> pl_name (dg_black g') = coalesce (map_option column_text (gq_black_name patch)) (pl_name (dg_black g))
     \<and> pl_elo (dg_black g') = or_else (gq_black_elo patch) (pl_elo (dg_black g))
     \<and> dg_date g' = or_else (map_option column_text (gq_date patch)) (dg_date g)
     \<and> dg_result g' = coalesce (map_option column_text (gq_result patch)) (dg_result g)
     \<and> dg_eco g' = or_else (map_option column_text (gq_eco patch)) (dg_eco g)
     \<and> gp_source_label (dg_provenance g') = or_else (map_option column_text (gq_source_label patch)) (gp_source_label (dg_provenance g))
     \<and> gp_review_status (dg_provenance g') = coalesce (map_option column_text (gq_review_status patch)) (gp_review_status (dg_provenance g))
     \<and> gp_source_type (dg_provenance g') = gp_source_type (dg_provenance g)"

lemma column_text_idem [simp]: "column_text (column_text x) = column_text x"
  by (simp add: column_text_def)

lemma column_text_or_else: "map_option column_text (or_else x y) = or_else (map_option column_text x) (map_option column_text y)"
  by (cases x) simp_all

lemma column_text_coalesce: "column_text (coalesce x y) = coalesce (map_option column_text x) (column_text y)"
  by (cases x) simp_all

lemma patched_row:
  assumes "patched i h tb tb'" and "r \<in> set (tb_games tb)" and "gr_id r = i"
  shows "h r \<in> set (tb_games tb')" and "gr_id (h r) = i"
  using assms by (auto simp: patched_def image_iff intro!: bexI [of _ r])

lemma patched_stored_other:
  assumes "patched (unat key) h tb tb'" and "wf_tables tb" and "other \<noteq> key"
  shows "stored_game tb' other = stored_game tb other"
proof -
  have wf': "wf_tables tb'" and ext: "extends tb tb'" and tags: "select_game_tags (unat other) tb' = select_game_tags (unat other) tb"
    and games: "tb_games tb' = map (\<lambda>r. if gr_id r = unat key then h r else r) (tb_games tb)" and ids: "\<And>r. gr_id (h r) = gr_id r"
    using assms(1,3) by (auto simp: patched_def word_unat_eq_iff)
  have key: "unat other \<noteq> unat key" using assms(3) by (simp add: word_unat_eq_iff)
  have same_ids: "gr_id ` set (tb_games tb') = gr_id ` set (tb_games tb)"
  proof -
    have "map gr_id (tb_games tb') = map gr_id (tb_games tb)" by (simp add: games ids)
    from arg_cong [OF this, of set] show ?thesis by (simp only: set_map)
  qed
  show ?thesis
  proof (cases "find (\<lambda>r. gr_id r = unat other) (tb_games tb)")
    case None
    then have "unat other \<notin> gr_id ` set (tb_games tb)" by (auto simp: find_None_iff)
    then show ?thesis using stored_game_None [OF assms(2), of other] stored_game_None [OF wf', of other] same_ids by simp
  next
    case (Some r)
    note r = find_row [OF Some]
    have r': "r \<in> set (tb_games tb')" using r key by (auto simp: games image_iff intro!: bexI [of _ r])
    obtain w b e where j: "join_game tb r = Some (r, w, b, e)" using join_game_total [OF assms(2)] r by blast
    have "join_game tb' r = join_game tb r" using join_game_extends [OF assms(2) wf'] r ext by (simp add: extends_def)
    then show ?thesis
      using stored_game_row [OF assms(2) _ _ j, of other] stored_game_row [OF wf' r', of other "(r, w, b, e)"] r tags j by simp
  qed
qed

text \<open>The row of the patched game with its players and event.\<close>
lemma patch_tables_patched:
  assumes "patch_tables key g patch tb = Some tb'" and "wf_tables tb"
  shows "\<exists>wi bi h. patched (unat key) (fields_row patch o h o side_row Black_Side (gq_black_name patch) (gq_black_elo patch) bi
        o side_row White_Side (gq_white_name patch) (gq_white_elo patch) wi) tb tb'
     \<and> (\<exists>ei. h = id \<or> h = (\<lambda>r. r\<lparr>gr_event_id := ei\<rparr>))
     \<and> (\<forall>n. gq_white_name patch = Some n \<longrightarrow> (\<exists>e. entity_at wi (tb_players tb') = Some e \<and> en_name e = n))
     \<and> (\<forall>n. gq_black_name patch = Some n \<longrightarrow> (\<exists>e. entity_at bi (tb_players tb') = Some e \<and> en_name e = n))
     \<and> select_game_tags (unat key) tb' = notes_tags (gq_notes patch) (select_game_tags (unat key) tb)"
proof -
  obtain tb1 where s1: "spec_player key White_Side (dg_white g) (gq_white_name patch) (gq_white_elo patch) tb = Some tb1"
      and r1: "Option.bind (Option.bind (spec_player key Black_Side (dg_black g) (gq_black_name patch) (gq_black_elo patch) tb1) (\<lambda>tb.
       if gq_event patch = None \<and> gq_site patch = None then Some tb
       else spec_event key (dg_event_details g) (gq_event patch) (gq_site patch) tb)) (\<lambda>tb.
     Option.bind (spec_fields key (scalar_fields patch) tb) (spec_notes key (gq_notes patch))) = Some tb'"
    using assms(1) by (auto simp: patch_tables_def spec_people_def bind_eq_Some_conv)
  obtain tb2 tb3 tb4 where s2: "spec_player key Black_Side (dg_black g) (gq_black_name patch) (gq_black_elo patch) tb1 = Some tb2"
    and s3: "(if gq_event patch = None \<and> gq_site patch = None then Some tb2
       else spec_event key (dg_event_details g) (gq_event patch) (gq_site patch) tb2) = Some tb3"
    and s4: "spec_fields key (scalar_fields patch) tb3 = Some tb4" and s5: "spec_notes key (gq_notes patch) tb4 = Some tb'"
    using r1 unfolding bind_eq_Some_conv by blast
  obtain wi where p1: "patched (unat key) (side_row White_Side (gq_white_name patch) (gq_white_elo patch) wi) tb tb1"
      "\<And>j. select_game_tags j tb1 = select_game_tags j tb"
      "\<And>n. gq_white_name patch = Some n \<Longrightarrow> \<exists>e. entity_at wi (tb_players tb1) = Some e \<and> en_name e = n"
    using spec_player_patched [OF s1 assms(2)] by blast
  have wf1: "wf_tables tb1" using p1(1) by (simp add: patched_def)
  obtain bi where p2: "patched (unat key) (side_row Black_Side (gq_black_name patch) (gq_black_elo patch) bi) tb1 tb2"
      "\<And>j. select_game_tags j tb2 = select_game_tags j tb1"
      "\<And>n. gq_black_name patch = Some n \<Longrightarrow> \<exists>e. entity_at bi (tb_players tb2) = Some e \<and> en_name e = n"
    using spec_player_patched [OF s2 wf1] by blast
  have wf2: "wf_tables tb2" using p2(1) by (simp add: patched_def)
  obtain h ei where p3: "patched (unat key) h tb2 tb3" "h = id \<or> h = (\<lambda>r. r\<lparr>gr_event_id := ei\<rparr>)"
      "\<And>j. select_game_tags j tb3 = select_game_tags j tb2"
  proof (cases "gq_event patch = None \<and> gq_site patch = None")
    case True
    then show thesis using that [of id] s3 patched_refl [OF wf2] by simp
  next
    case False
    have "spec_event key (dg_event_details g) (gq_event patch) (gq_site patch) tb2 = Some tb3" using s3 unfolding if_not_P [OF False] .
    from spec_event_patched [OF this wf2 refl] obtain i where i: "patched (unat key) (if coalesce (gq_event patch)
          (case dg_event_details g of None \<Rightarrow> [] | Some e \<Rightarrow> ev_name e) = [] then id else (\<lambda>r. r\<lparr>gr_event_id := Some i\<rparr>)) tb2 tb3"
        "\<forall>j. select_game_tags j tb3 = select_game_tags j tb2" by blast
    show thesis by (rule that [OF i(1), of "Some i"]) (use i(2) in auto)
  qed
  have wf3: "wf_tables tb3" using p3(1) by (simp add: patched_def)
  note p4 = spec_fields_patched [OF s4 wf3, unfolded scalar_fields_row]
  have wf4: "wf_tables tb4" using p4 by (simp add: patched_def)
  note p5 = spec_notes_patched [OF s5 wf4]
  have pe: "extends ta tc" if "patched i k ta tc" for i k ta tc using that by (simp add: patched_def)
  have ext2: "extends tb2 tb'"
    by (rule extends_trans [OF pe [OF p3(1)] extends_trans [OF pe [OF conjunct1 [OF p4]] pe [OF conjunct1 [OF p5]]]])
  note ext = ext2 extends_trans [OF pe [OF p2(1)] ext2]
  have wf': "wf_entities (tb_players tb')" using p5 by (simp add: patched_def wf_tables_def)
  have all: "patched (unat key) (id o (fields_row patch o (h o (side_row Black_Side (gq_black_name patch) (gq_black_elo patch) bi
        o side_row White_Side (gq_white_name patch) (gq_white_elo patch) wi)))) tb tb'"
    using patched_trans [OF patched_trans [OF patched_trans [OF patched_trans [OF p1(1) p2(1)] p3(1)] conjunct1 [OF p4]] conjunct1 [OF p5]]
    by (simp add: comp_assoc)
  have ents: "\<exists>e. entity_at i (tb_players tb') = Some e \<and> en_name e = n"
    if "\<exists>e. entity_at i (tb_players ta) = Some e \<and> en_name e = n" "extends ta tb'" for i n ta
    using that entity_at_extends [OF _ _ wf'] by (auto simp: extends_def)
  have tags: "select_game_tags (unat key) tb' = notes_tags (gq_notes patch) (select_game_tags (unat key) tb)"
    using p1(2) p2(2) p3(3) p4 p5 by simp
  show ?thesis
    using all p3(2) ents [OF p1(3) ext(2)] ents [OF p2(3) ext(1)] tags
    by (intro exI [of _ wi] exI [of _ bi] exI [of _ h]) (auto simp: comp_assoc)
qed

lemma patched_game_stored:
  assumes "stored_game tb key = Some g" and "patch_tables key g patch tb = Some tb'" and "wf_tables tb"
  shows "\<exists>g'. stored_game tb' key = Some g' \<and> patched_reading patch g g' \<and> dg_extra_tags g'
     = map (\<lambda>(n, v). (column_text n, column_text v)) (notes_tags (gq_notes patch) (select_game_tags (unat key) tb))"
proof -
  obtain wi bi h ei where p: "patched (unat key) (fields_row patch o h o side_row Black_Side (gq_black_name patch) (gq_black_elo patch) bi
        o side_row White_Side (gq_white_name patch) (gq_white_elo patch) wi) tb tb'"
      and h: "h = id \<or> h = (\<lambda>r. r\<lparr>gr_event_id := ei\<rparr>)"
      and wn: "\<And>n. gq_white_name patch = Some n \<Longrightarrow> \<exists>e. entity_at wi (tb_players tb') = Some e \<and> en_name e = n"
      and bn: "\<And>n. gq_black_name patch = Some n \<Longrightarrow> \<exists>e. entity_at bi (tb_players tb') = Some e \<and> en_name e = n"
      and tags: "select_game_tags (unat key) tb' = notes_tags (gq_notes patch) (select_game_tags (unat key) tb)"
    using patch_tables_patched [OF assms(2,3)] by blast
  have "unat key \<in> gr_id ` set (tb_games tb)" using assms stored_game_None [OF assms(3), of key] by simp
  then obtain r where r: "r \<in> set (tb_games tb)" "gr_id r = unat key" by auto
  obtain w b e where j: "join_game tb r = Some (r, w, b, e)" using join_game_total [OF assms(3) r(1)] by blast
  have g: "g = (read_game (r, w, b, e))\<lparr>dg_extra_tags := map (\<lambda>(n, v). (column_text n, column_text v)) (select_game_tags (unat key) tb)\<rparr>"
    using stored_game_row [OF assms(3) r j] assms(1) by simp
  have wf': "wf_tables tb'" "wf_entities (tb_players tb')" and sub: "set (tb_players tb) \<subseteq> set (tb_players tb')"
    using p by (auto simp: patched_def wf_tables_def extends_def)
  define r' where "r' = fields_row patch (h (side_row Black_Side (gq_black_name patch) (gq_black_elo patch) bi
        (side_row White_Side (gq_white_name patch) (gq_white_elo patch) wi r)))"
  have r': "r' \<in> set (tb_games tb')" "gr_id r' = unat key" using patched_row [OF p r] by (simp_all add: r'_def)
  obtain w' b' e' where j': "join_game tb' r' = Some (r', w', b', e')" using join_game_total [OF wf'(1) r'(1)] by blast
  have ents: "entity_at (gr_white_id r) (tb_players tb') = Some w" "entity_at (gr_black_id r) (tb_players tb') = Some b"
    using j entity_at_extends [OF _ sub wf'(2)] by (auto simp: join_game_def split: option.splits)
  have cols: "gr_white_id r' = (if gq_white_name patch = None then gr_white_id r else wi)"
      "gr_black_id r' = (if gq_black_name patch = None then gr_black_id r else bi)"
      "gr_white_elo r' = or_else (gq_white_elo patch) (gr_white_elo r)" "gr_black_elo r' = or_else (gq_black_elo patch) (gr_black_elo r)"
      "gr_date r' = or_else (gq_date patch) (gr_date r)" "gr_result r' = coalesce (gq_result patch) (gr_result r)"
      "gr_eco r' = or_else (gq_eco patch) (gr_eco r)" "gr_source_label r' = or_else (gq_source_label patch) (gr_source_label r)"
      "gr_review_status r' = coalesce (gq_review_status patch) (gr_review_status r)" "gr_moves r' = gr_moves r"
      "gr_source_type r' = gr_source_type r"
    using h by (auto simp: r'_def fields_row_def)
  have names: "en_name w' = coalesce (gq_white_name patch) (en_name w)" "en_name b' = coalesce (gq_black_name patch) (en_name b)"
    using j' ents cols(1,2) wn bn
    by (cases "gq_white_name patch"; cases "gq_black_name patch"; fastforce simp: join_game_def split: option.splits)+
  show ?thesis
    using stored_game_row [OF wf'(1) r' j'] tags
    by (simp add: patched_reading_def g read_player_def read_provenance_def names cols column_text_or_else column_text_coalesce)
qed

section \<open>Properties\<close>

text \<open>
  C31: Outside a transaction and on a connection that works, \<open>patch_metadata\<close> does to the tables what the specification does,
  without caches, prepared statements and savepoints: \<open>not_found\<close> for an unknown game, \<open>not_editable\<close> for one that was not added
  by hand, \<open>io_failure\<close> with the tables unchanged when a constraint is violated, and otherwise the patched tables.\<close>
theorem patch_refines_spec:
  assumes "store_reachable xxh3 s" and "sd_reliable (gw_db (gs_self s))" and "sd_saved (gw_db (gs_self s)) = None"
  shows "\<exists>s'. via_self (patch_metadata key patch) s = (fst (patch_outcome key patch (sd_tables (gw_db (gs_self s)))), s')
     \<and> sd_tables (gw_db (gs_self s')) = snd (patch_outcome key patch (sd_tables (gw_db (gs_self s))))"
proof -
  have s: "store_ready s" by (rule store_reachable_ready [OF assms(1,2)])
  then have "writer_inv (gs_self s)" by (simp add: store_ready_def store_inv_def)
  from patch_ready [OF this assms(2,3), of key patch] show ?thesis by (auto simp: via_self_def)
qed

text \<open>
  After a successful patch \<open>get\<close> returns the game with the patched names, ratings, date, result, ECO code, label and review
  status and everything else as before, its notes replaced, and every other game reads as before.\<close>
theorem patched_game_reads_back:
  assumes "store_reachable xxh3 s" and "sd_reliable (gw_db (gs_self s))" and "sd_saved (gw_db (gs_self s)) = None"
    and "fst (via_self (store_get key) s) = Inr g" and "via_self (patch_metadata key patch) s = (Inr (), s')"
  shows "(\<exists>g'. fst (via_self (store_get key) s') = Inr g' \<and> patched_reading patch g g' \<and> dg_extra_tags g' = map (\<lambda>(n, v). (column_text n, column_text v))
           (notes_tags (gq_notes patch) (select_game_tags (unat key) (sd_tables (gw_db (gs_self s))))))
     \<and> (\<forall>other. other \<noteq> key \<longrightarrow> fst (via_self (store_get other) s') = fst (via_self (store_get other) s))"
proof -
  have s: "store_ready s" by (rule store_reachable_ready [OF assms(1,2)])
  let ?tb = "gs_tables s"
  have g: "stored_game ?tb key = Some g" using assms(4) get_ready [OF s, of key] by (simp split: option.splits)
  have inv: "writer_inv (gs_self s)" "store_inv s" using s by (simp_all add: store_ready_def store_inv_def)
  obtain w' where w': "patch_metadata key patch (gs_self s) = (fst (patch_outcome key patch ?tb), w')"
      "gw_tables w' = snd (patch_outcome key patch ?tb)" "sd_reliable (gw_db w')"
    using patch_ready [OF inv(1) assms(2,3)] by blast
  have o: "fst (patch_outcome key patch ?tb) = Inr ()" "gs_self s' = w'" using assms(5) w'(1) by (auto simp: via_self_def)
  then obtain tb' where t: "patch_tables key g patch ?tb = Some tb'" "gw_tables w' = tb'"
    using w'(2) g by (auto simp: patch_outcome_def split: if_splits option.splits)
  have "store_inv s'" by (rule store_step_inv [OF ss_patch [OF assms(5)] inv(2)])
  then have s': "store_ready s'" using o(2) w'(3) by (simp add: store_ready_def)
  have tb': "gs_tables s' = tb'" using o(2) t(2) by simp
  obtain h where h: "patched (unat key) h ?tb tb'" using patch_tables_patched [OF t(1) ready_wf [OF s]] by blast
  show ?thesis
    using patched_game_stored [OF g t(1) ready_wf [OF s]] patched_stored_other [OF h ready_wf [OF s]]
    by (auto simp: get_ready [OF s] get_ready [OF s'] tb' simp del: fst_via)
qed

text \<open>
  A patch that reports an error on a connection without an open transaction leaves the committed database exactly as it
  was, whatever failed on the way, and no transaction open.\<close>
theorem failed_patch_leaves_database:
  assumes "store_reachable xxh3 s" and "sd_saved (gw_db (gs_self s)) = None"
    and "via_self (patch_metadata key patch) s = (Inl err, s')"
  shows "durable (gw_db (gs_self s')) = durable (gw_db (gs_self s)) \<and> sd_saved (gw_db (gs_self s')) = None"
proof -
  have "store_inv s" using assms(1) by (auto simp: store_reachable_def intro: store_reachable_inv store_inv_new)
  then have "writer_inv (gs_self s)" by (simp add: store_inv_def)
  moreover have "patch_metadata key patch (gs_self s) = (Inl err, gs_self s')"
    using assms(3) by (auto simp: via_self_def split: prod.splits)
  ultimately show ?thesis using patch_metadata_effect assms(2) by (fastforce simp: good_step_def durable_def)
qed

end
