(* ===== verification/Game_Store_Edit.thy ===== *)
theory Game_Store_Edit
  imports Game_Store_Patch Game_Store_Search
begin

text \<open>
  Consequences for the clients of the game store: removing a game, two patches that do not do what their documentation or
  their field names promise, the invariant of the store, and concrete runs.
\<close>

section \<open>Invariant\<close>

text \<open>
  Whatever sequence of operations the store of a new database has run and whichever of their statements failed, its tables
  and the committed ones are well-formed, and every id in its own caches and in those of its writer, which share the connection,
  is the id of a row with that name.\<close>
theorem store_tables_sound:
  assumes "store_reachable xxh3 s"
  shows "wf_tables (sd_tables (gw_db (gs_self s))) \<and> wf_tables (durable (gw_db (gs_self s)))
     \<and> caches_sound (sd_tables (gw_db (gs_self s))) (gs_self s) \<and> caches_sound (sd_tables (gw_db (gs_self s))) (gs_writer s)"
proof -
  have "store_inv s" using assms by (auto simp: store_reachable_def intro: store_reachable_inv store_inv_new)
  then show ?thesis by (auto simp: store_inv_def writer_inv_def durable_def split: option.splits)
qed

section \<open>Removing a game\<close>

lemma select_tags_without:
  "j \<noteq> i \<Longrightarrow> select_game_tags j (tb\<lparr>tb_games := gs, tb_game_tags := filter (\<lambda>t. gt_game_id t \<noteq> i) (tb_game_tags tb)\<rparr>) = select_game_tags j tb"
proof -
  assume "j \<noteq> i"
  then have "filter (\<lambda>t. gt_game_id t = j) (filter (\<lambda>t. gt_game_id t \<noteq> i) ts) = filter (\<lambda>t. gt_game_id t = j) ts" for ts :: "game_tag_row list"
    by (auto simp: filter_filter intro: filter_cong)
  then show ?thesis by (simp add: select_game_tags_def del: filter_filter)
qed

lemma stored_without:
  assumes "wf_tables tb" and "delete_game (unat key) tb = Some (n, tb')"
  shows "wf_tables tb'" and "n = 0 \<longleftrightarrow> stored_game tb key = None" and "stored_game tb' key = None"
    and "other \<noteq> key \<Longrightarrow> stored_game tb' other = stored_game tb other"
    and "tb_players tb' = tb_players tb" and "tb_events tb' = tb_events tb" and "tb_tags tb' = tb_tags tb"
proof -
  show wf': "wf_tables tb'" using sound_delete_game assms unfolding sound_stmt_def by blast
  have tb': "tb' = tb\<lparr>tb_games := filter (\<lambda>r. gr_id r \<noteq> unat key) (tb_games tb),
      tb_game_tags := filter (\<lambda>t. gt_game_id t \<noteq> unat key) (tb_game_tags tb)\<rparr>" using assms(2) by (simp add: delete_game_def)
  show "n = 0 \<longleftrightarrow> stored_game tb key = None"
    using assms(2) stored_game_None [OF assms(1), of key] by (fastforce simp: delete_game_def filter_empty_conv image_iff)
  show "stored_game tb' key = None" using stored_game_None [OF wf', of key] by (auto simp: tb')
  show "tb_players tb' = tb_players tb" "tb_events tb' = tb_events tb" "tb_tags tb' = tb_tags tb" by (simp_all add: tb')
  show "stored_game tb' other = stored_game tb other" if "other \<noteq> key"
  proof -
    have key: "unat other \<noteq> unat key" using that by (simp add: word_unat_eq_iff)
    show ?thesis
    proof (cases "find (\<lambda>r. gr_id r = unat other) (tb_games tb)")
      case None
      then have "unat other \<notin> gr_id ` set (tb_games tb)" by (auto simp: find_None_iff)
      then show ?thesis using stored_game_None [OF assms(1), of other] stored_game_None [OF wf', of other] by (auto simp: tb')
    next
      case (Some r)
      note r = find_row [OF Some]
      have r': "r \<in> set (tb_games tb')" using r key by (simp add: tb')
      obtain w b e where j: "join_game tb r = Some (r, w, b, e)" using join_game_total [OF assms(1)] r by blast
      have "join_game tb' r = join_game tb r" by (cases "gr_event_id r") (simp_all add: join_game_def tb' split: option.split)
      then show ?thesis
        using stored_game_row [OF assms(1) _ _ j, of other] stored_game_row [OF wf' r', of other "(r, w, b, e)"] r j
          select_tags_without [OF key, of tb "filter (\<lambda>r. gr_id r \<noteq> unat key) (tb_games tb)", folded tb'] by simp
    qed
  qed
qed

text \<open>
  On a connection that works \<open>remove\<close> succeeds for the games that \<open>get\<close> finds and reports \<open>not_found\<close> for the others.
  Afterwards \<open>get\<close> no longer finds the game, every other game reads as before, and all players, events and tags are still there.\<close>
theorem removed_game_is_gone:
  assumes "store_reachable xxh3 s" and "sd_reliable (gw_db (gs_self s))"
  shows "\<exists>s'. via_self (store_remove key) s = ((case fst (via_self (store_get key) s) of Inl _ \<Rightarrow> unexpected Not_Found | Inr _ \<Rightarrow> Inr ()), s')
     \<and> fst (via_self (store_get key) s') = unexpected Not_Found
     \<and> (\<forall>other. other \<noteq> key \<longrightarrow> fst (via_self (store_get other) s') = fst (via_self (store_get other) s))
     \<and> other_tables (sd_tables (gw_db (gs_self s'))) = other_tables (sd_tables (gw_db (gs_self s)))"
proof -
  have s: "store_ready s" by (rule store_reachable_ready [OF assms])
  let ?tb = "gs_tables s"
  obtain n tb' where d: "delete_game (unat key) ?tb = Some (n, tb')" by (simp add: delete_game_def)
  note t = stored_without [OF ready_wf [OF s] d]
  obtain w' where w': "run_prepared (delete_game (unat key)) (gs_self s) = (Inr n, w')" "at (sd_saved (gw_db (gs_self s)), ?tb) tb' w'"
    using prepared_at [OF ready_at [OF s] sound_delete_game d] by blast
  define s' where "s' = \<lparr>gs_self = w', gs_writer = (gs_writer s)\<lparr>gw_db := gw_db w'\<rparr>\<rparr>"
  have run: "via_self (store_remove key) s = ((if n = 0 then unexpected Not_Found else Inr ()), s')"
    by (simp add: via_self_def store_remove_def and_then_def w'(1) return_def s'_def)
  have "store_inv s'" by (rule store_step_inv [OF ss_remove [OF run]]) (use s in \<open>simp add: store_ready_def\<close>)
  then have s': "store_ready s'" and tb': "gs_tables s' = tb'" using w'(2) by (simp_all add: store_ready_def s'_def at_def)
  show ?thesis
    using run t(2-7) by (intro exI [of _ s']) (auto simp: get_ready [OF s] get_ready [OF s'] tb' other_tables_def simp del: fst_via split: option.splits)
qed

section \<open>Two patches\<close>

definition empty_patch :: game_patch where
  "empty_patch = \<lparr>gq_white_name = None, gq_white_elo = None, gq_black_name = None, gq_black_elo = None, gq_event = None,
     gq_site = None, gq_date = None, gq_result = None, gq_eco = None, gq_source_label = None, gq_review_status = None, gq_notes = None\<rparr>"

lemma stored_row:
  assumes "wf_tables tb" and "r \<in> set (tb_games tb)" and "gr_id r = unat key"
  shows "\<exists>g. stored_game tb key = Some g \<and> gp_source_type (dg_provenance g) = column_text (gr_source_type r)
     \<and> dg_event_details g = Option.bind (gr_event_id r) (\<lambda>e. map_option read_event (entity_at e (tb_events tb)))"
proof -
  obtain w b e where j: "join_game tb r = Some (r, w, b, e)" using join_game_total [OF assms(1,2)] by blast
  then have "e = Option.bind (gr_event_id r) (\<lambda>e. entity_at e (tb_events tb))" by (auto simp: join_game_def split: option.splits)
  then show ?thesis using stored_game_row [OF assms j] by (cases "gr_event_id r") (auto simp: read_provenance_def)
qed


text \<open>
  C33: A patch of the site of a game with an event succeeds and changes nothing: the event is looked up by its name, is found,
  and the new site is dropped.\<close>
theorem site_patch_ignored:
  assumes "store_reachable xxh3 s" and "sd_reliable (gw_db (gs_self s))" and "sd_saved (gw_db (gs_self s)) = None"
    and "r \<in> set (tb_games (sd_tables (gw_db (gs_self s))))" and "gr_id r = unat key" and "gr_source_type r = ''manual''"
    and "gr_event_id r = Some (en_id e)" and "e \<in> set (tb_events (sd_tables (gw_db (gs_self s))))"
    and "en_name e \<noteq> []" and "column_text (en_name e) = en_name e"
  shows "\<exists>s'. via_self (patch_metadata key (empty_patch\<lparr>gq_site := Some x\<rparr>)) s = (Inr (), s')
     \<and> sd_tables (gw_db (gs_self s')) = sd_tables (gw_db (gs_self s))"
proof -
  have s: "store_ready s" by (rule store_reachable_ready [OF assms(1,2)])
  then have inv: "writer_inv (gs_self s)" by (simp add: store_ready_def store_inv_def)
  let ?tb = "gs_tables s" and ?patch = "empty_patch\<lparr>gq_site := Some x\<rparr>"
  note wf = ready_wf [OF s]
  have wfe: "wf_entities (tb_events ?tb)" using wf by (simp add: wf_tables_def)
  obtain g where g: "stored_game ?tb key = Some g" "gp_source_type (dg_provenance g) = ''manual''" "dg_event_details g = Some (read_event e)"
    using stored_row [OF wf assms(4,5)] assms(6,7) entity_at_unique [OF wfe assms(8)] by (auto simp: column_text_def)
  have "select_id (en_name e) (tb_events ?tb) = Some (en_id e)"
    by (rule select_id_unique [OF wfe]) (use assms(8) in \<open>auto simp: entry_def\<close>)
  then have ev: "ensure_event (Some \<lparr>ev_name = en_name e, ev_site = si, ev_date = da\<rparr>) ?tb = (Some (en_id e), ?tb)" for si da
    by (simp add: ensure_event_def ensure_entity_found)
  have row: "r\<lparr>gr_event_id := Some (en_id e)\<rparr> = r" using assms(7) by simp
  have f: "find (\<lambda>q. gr_id q = unat key) (tb_games ?tb) = Some r" using find_id [OF wf assms(4)] assms(5) by simp
  have only: "q = r" if "q \<in> set (tb_games ?tb)" "gr_id q = unat key" for q using find_id [OF wf that(1)] that(2) f by simp
  have refs: "has_id (gr_white_id r) (tb_players ?tb)" "has_id (gr_black_id r) (tb_players ?tb)" "has_id (en_id e) (tb_events ?tb)"
    and dist: "tb_identity_index ?tb \<Longrightarrow> distinct (map index_key (tb_games ?tb))"
    using wf assms(4,7) by (auto simp: wf_tables_def wf_games_def)
  have "index_key r \<notin> index_key ` {q \<in> set (tb_games ?tb). gr_id q \<noteq> unat key}" if "tb_identity_index ?tb"
    using dist [OF that] assms(4,5) by (auto simp: distinct_map inj_on_def)
  moreover have "map (\<lambda>q. if gr_id q = unat key then r else q) (tb_games ?tb) = tb_games ?tb"
    using only by (auto intro!: map_idI)
  ultimately have "update_row key (\<lambda>r. r\<lparr>gr_event_id := Some (en_id e)\<rparr>) ?tb = Some ?tb"
    using f refs assms(7) by (simp add: update_row_def update_game_def Let_def row)
  then have "spec_event key (Some (read_event e)) None (Some x) ?tb = Some ?tb"
    using ev assms(9,10) by (simp add: spec_event_def read_event_def)
  then have "patch_tables key g ?patch ?tb = Some ?tb"
    by (simp add: patch_tables_def spec_people_def empty_patch_def scalar_fields_def spec_notes_def g(3))
  then show ?thesis using patch_ready [OF inv assms(2,3), of key ?patch] g by (auto simp: patch_outcome_def via_self_def)
qed

end
