(* ===== verification/Game_Store_Runs.thy ===== *)
theory Game_Store_Runs
  imports Game_Store_Edit
begin

text \<open>
  Concrete runs of the game store: a new database into which two games of the same players are inserted, one entered by hand and one
  imported. Each theorem about the store is applied to it.
\<close>

definition blank_db :: database where
  "blank_db = \<lparr>sd_tables = empty_tables, sd_saved = None, sd_fault = (\<lambda>_. False), sd_clock = 0\<rparr>"

definition manual_game :: db_game where
  "manual_game = (demo_game [1] [(''Board'', ''7'')])\<lparr>dg_provenance := \<lparr>gp_source_type = ''manual'', gp_source_label = None, gp_review_status = ''new''\<rparr>\<rparr>"

definition one_game_store :: game_store where
  "one_game_store = snd (gs_insert (\<lambda>_. 0) manual_game (new_game_store blank_db))"

definition two_game_store :: game_store where
  "two_game_store = snd (gs_insert (\<lambda>_. 0) ((demo_game [1] [])\<lparr>dg_result := ''0-1''\<rparr>) one_game_store)"

lemma store_reachable_insert: "store_reachable xxh3 s \<Longrightarrow> store_reachable xxh3 (snd (gs_insert xxh3 g s))"
  unfolding store_reachable_def by (metis ss_insert surjective_pairing rtranclp.rtrancl_into_rtrancl)

lemma demo_reachable:
  "store_reachable (\<lambda>_. 0) (new_game_store blank_db)" "store_reachable (\<lambda>_. 0) one_game_store" "store_reachable (\<lambda>_. 0) two_game_store"
proof -
  show "store_reachable (\<lambda>_. 0) (new_game_store blank_db)"
    unfolding store_reachable_def by (rule exI [of _ blank_db]) (simp add: blank_db_def)
  then show "store_reachable (\<lambda>_. 0) one_game_store" unfolding one_game_store_def by (rule store_reachable_insert)
  then show "store_reachable (\<lambda>_. 0) two_game_store" unfolding two_game_store_def by (rule store_reachable_insert)
qed

lemma demo_inserted:
  "gs_insert (\<lambda>_. 0) manual_game (new_game_store blank_db) = (Inr 1, one_game_store)"
  "gs_insert (\<lambda>_. 0) ((demo_game [1] [])\<lparr>dg_result := ''0-1''\<rparr>) one_game_store = (Inr 2, two_game_store)"
proof -
  have "fst (gs_insert (\<lambda>_. 0) manual_game (new_game_store blank_db)) = Inr 1" by code_simp
  then show "gs_insert (\<lambda>_. 0) manual_game (new_game_store blank_db) = (Inr 1, one_game_store)" by (simp add: one_game_store_def prod_eq_iff)
  have "fst (gs_insert (\<lambda>_. 0) ((demo_game [1] [])\<lparr>dg_result := ''0-1''\<rparr>) one_game_store) = Inr 2" by code_simp
  then show "gs_insert (\<lambda>_. 0) ((demo_game [1] [])\<lparr>dg_result := ''0-1''\<rparr>) one_game_store = (Inr 2, two_game_store)"
    by (simp add: two_game_store_def prod_eq_iff)
qed

lemma demo_reliable:
  "sd_reliable (gw_db (gs_self (new_game_store blank_db)))" "sd_reliable (gw_db (gs_self one_game_store))" "sd_reliable (gw_db (gs_self two_game_store))"
proof -
  show r: "sd_reliable (gw_db (gs_self (new_game_store blank_db)))"
    by (simp add: sd_reliable_def blank_db_def new_game_store_def new_game_writer_def)
  note s1 = gs_insert_ready(1) [OF store_reachable_ready [OF demo_reachable(1) r] demo_inserted(1)]
  note s2 = gs_insert_ready(1) [OF s1 demo_inserted(2)]
  show "sd_reliable (gw_db (gs_self one_game_store))" "sd_reliable (gw_db (gs_self two_game_store))"
    using s1 s2 by (simp_all add: store_ready_def)
qed

theorem inserted_game_reads_back_witness:
  "fst (via_self (store_get 1) one_game_store) = Inr manual_game"
proof -
  have n: "next_rowid (map gr_id (tb_games (sd_tables (gw_db (gs_self (new_game_store blank_db)))))) < 2 ^ 32"
    by (simp add: blank_db_def new_game_store_def new_game_writer_def empty_tables_def next_rowid_def)
  have "as_stored (sd_tables (gw_db (gs_self (new_game_store blank_db)))) manual_game = manual_game" by code_simp
  with inserted_game_reads_back [OF demo_reachable(1) demo_reliable(1) demo_inserted(1) n] show ?thesis by simp
qed

theorem contexts_agree_with_get_witness:
  "\<exists>contexts. fst (via_self (get_game_contexts 10 [1, 5]) one_game_store) = Inr contexts \<and> contexts 5 = None
     \<and> map_option gc_moves (contexts 1) = Some [1]"
proof -
  have "map gr_id (tb_games (sd_tables (gw_db (gs_self one_game_store)))) = [1]" by code_simp
  then have ids: "list_all (\<lambda>r. gr_id r < 2 ^ 32) (tb_games (sd_tables (gw_db (gs_self one_game_store))))" by (auto simp: map_eq_Cons_conv)
  have g: "fst (via_self (store_get 1) one_game_store) = Inr manual_game" "fst (via_self (store_get 5) one_game_store) = unexpected Not_Found"
    by code_simp+
  obtain contexts where c: "fst (via_self (get_game_contexts 10 [1, 5]) one_game_store) = Inr contexts"
    "\<forall>key. (\<exists>g. key \<in> set [1, 5] \<and> fst (via_self (store_get key) one_game_store) = Inr g \<and> map_option gc_eco (contexts key) = Some (dg_eco g)
            \<and> map_option gc_moves (contexts key) = Some (dg_moves g))
          \<or> (contexts key = None \<and> (key \<in> set [1, 5] \<longrightarrow> fst (via_self (store_get key) one_game_store) = unexpected Not_Found))"
    using contexts_agree_with_get [OF demo_reachable(2) demo_reliable(2) ids, of 10 "[1, 5]"] by blast
  have "map_option gc_moves (contexts 1) = Some [1]" using spec [OF c(2), of 1] g(1) by (auto simp: manual_game_def demo_game_def simp del: fst_via)
  moreover have "contexts 5 = None" using spec [OF c(2), of 5] g(2) by (auto simp del: fst_via)
  ultimately show ?thesis using c(1) by blast
qed

theorem game_pages_cover_witness:
  "\<exists>pages. length pages = 2 \<and> length (concat (map gl_games pages)) = 2
     \<and> fst (via_self (find_games (default_search_filter\<lparr>sf_offset := 1, sf_limit := 1\<rparr>)) two_game_store) = Inr (pages ! 1)"
proof -
  have n: "length (matching_games None default_search_filter (sd_tables (gw_db (gs_self two_game_store)))) = 2" by code_simp
  have l: "(0 :: u64) < 1" "(1 :: u64) \<le> max_search_limit" by (simp_all add: max_search_limit_def)
  obtain games pages where p: "length pages = 2" "concat (map gl_games pages) = map read_game_list_entry games"
    "\<forall>k<2. fst (via_self (find_games (default_search_filter\<lparr>sf_offset := of_nat (k * unat (1 :: u64)), sf_limit := 1\<rparr>)) two_game_store) = Inr (pages ! k)
       \<and> gl_total_count (pages ! k) = length games"
    using game_pages_cover [OF demo_reachable(3) demo_reliable(3) l, of default_search_filter 2] n by auto
  have "map_option gl_total_count (case fst (via_self (find_games (default_search_filter\<lparr>sf_offset := 0, sf_limit := 1\<rparr>)) two_game_store) of Inl _ \<Rightarrow> None | Inr x \<Rightarrow> Some x) = Some 2"
    by code_simp
  then have "length games = 2" using p(3) [rule_format, of 0] by (simp del: fst_via)
  then show ?thesis using p(1,2) p(3) [rule_format, of 1] by (intro exI [of _ pages]) (simp del: fst_via)
qed

theorem search_among_ids_witness:
  "fst (via_self (find_games_with_ids 10 [2, 2] default_search_filter) two_game_store) = unexpected Io_Failure
   \<and> gl_total_count (search_page (Some [2]) default_search_filter (sd_tables (gw_db (gs_self two_game_store)))) = 1
   \<and> fst (via_self (find_games_with_ids 10 [2] default_search_filter) two_game_store)
       = Inr (search_page (Some [2]) default_search_filter (sd_tables (gw_db (gs_self two_game_store))))"
proof -
  have o: "sf_offset default_search_filter \<le> sqlite_max" by (simp add: default_search_filter_def)
  have "gl_total_count (search_page (Some [2]) default_search_filter (sd_tables (gw_db (gs_self two_game_store)))) = 1" by code_simp
  then show ?thesis
    using search_among_ids [OF demo_reachable(3) demo_reliable(3) o, of 10 "[2, 2]"] search_among_ids [OF demo_reachable(3) demo_reliable(3) o, of 10 "[2]"]
    by (simp del: fst_via)
qed

lemma demo_saved: "sd_saved (gw_db (gs_self one_game_store)) = None" "sd_saved (gw_db (gs_self two_game_store)) = None"
proof -
  have "(case sd_saved (gw_db (gs_self one_game_store)) of None \<Rightarrow> True | Some _ \<Rightarrow> False)" by code_simp
  then show "sd_saved (gw_db (gs_self one_game_store)) = None" by (simp split: option.splits)
  have "(case sd_saved (gw_db (gs_self two_game_store)) of None \<Rightarrow> True | Some _ \<Rightarrow> False)" by code_simp
  then show "sd_saved (gw_db (gs_self two_game_store)) = None" by (simp split: option.splits)
qed

theorem patch_refines_spec_witness:
  "fst (via_self (patch_metadata 2 (empty_patch\<lparr>gq_date := Some ''2024''\<rparr>)) two_game_store) = unexpected Not_Editable"
proof -
  have "fst (patch_outcome 2 (empty_patch\<lparr>gq_date := Some ''2024''\<rparr>) (sd_tables (gw_db (gs_self two_game_store)))) = unexpected Not_Editable"
    by code_simp
  with patch_refines_spec [OF demo_reachable(3) demo_reliable(3) demo_saved(2), of 2 "empty_patch\<lparr>gq_date := Some ''2024''\<rparr>"]
  show ?thesis by (auto simp del: fst_via)
qed

theorem patched_game_reads_back_witness:
  "\<exists>g. fst (via_self (store_get 1) (snd (via_self (patch_metadata 1 (empty_patch\<lparr>gq_white_name := Some ''Cat'', gq_notes := Some ''n''\<rparr>)) one_game_store))) = Inr g
     \<and> pl_name (dg_white g) = ''Cat'' \<and> dg_moves g = [1] \<and> dg_extra_tags g = [(''Board'', ''7''), (''_notes'', ''n'')]"
proof -
  let ?patch = "empty_patch\<lparr>gq_white_name := Some ''Cat'', gq_notes := Some ''n''\<rparr>"
  have g: "fst (via_self (store_get 1) one_game_store) = Inr manual_game" by code_simp
  have "fst (via_self (patch_metadata 1 ?patch) one_game_store) = Inr ()" by code_simp
  then have p: "via_self (patch_metadata 1 ?patch) one_game_store = (Inr (), snd (via_self (patch_metadata 1 ?patch) one_game_store))"
    by (simp only: prod_eq_iff fst_conv snd_conv)
  have n: "notes_tags (gq_notes ?patch) (select_game_tags (unat 1) (sd_tables (gw_db (gs_self one_game_store)))) = [(''Board'', ''7''), (''_notes'', ''n'')]"
    by code_simp
  show ?thesis
    using patched_game_reads_back [OF demo_reachable(2) demo_reliable(2) demo_saved(1) g p] n
    by (auto simp: patched_reading_def empty_patch_def manual_game_def demo_game_def column_text_def simp del: fst_via)
qed

theorem failed_patch_leaves_database_witness:
  "durable (gw_db (gs_self (snd (via_self (patch_metadata 1 (empty_patch\<lparr>gq_result := Some ''0-1''\<rparr>)) two_game_store)))) = durable (gw_db (gs_self two_game_store))"
proof -
  let ?patch = "empty_patch\<lparr>gq_result := Some ''0-1''\<rparr>"
  have "fst (via_self (patch_metadata 1 ?patch) two_game_store) = unexpected Io_Failure" by code_simp
  then have p: "via_self (patch_metadata 1 ?patch) two_game_store = (unexpected Io_Failure, snd (via_self (patch_metadata 1 ?patch) two_game_store))"
    by (simp only: prod_eq_iff fst_conv snd_conv)
  show ?thesis using failed_patch_leaves_database [OF demo_reachable(3) demo_saved(2) p] by simp
qed

theorem store_tables_sound_witness: "wf_tables (sd_tables (gw_db (gs_self two_game_store)))"
  using store_tables_sound [OF demo_reachable(3)] by simp

theorem removed_game_is_gone_witness:
  "fst (via_self (store_get 1) (snd (via_self (store_remove 1) one_game_store))) = unexpected Not_Found
   \<and> fst (via_self (store_remove 1) one_game_store) = Inr ()"
proof -
  have g: "fst (via_self (store_get 1) one_game_store) = Inr manual_game" by code_simp
  show ?thesis using removed_game_is_gone [OF demo_reachable(2) demo_reliable(2), of 1] g by (auto simp del: fst_via)
qed

lemma demo_rows:
  "map (\<lambda>r. (gr_id r, gr_source_type r, gr_event_id r, gr_result r)) (tb_games (sd_tables (gw_db (gs_self two_game_store))))
     = [(1, ''manual'', Some 1, ''1-0''), (2, ''imported'', Some 1, ''0-1'')]"
  by code_simp


theorem site_patch_ignored_witness:
  "\<exists>s'. via_self (patch_metadata 1 (empty_patch\<lparr>gq_site := Some ''Paris''\<rparr>)) two_game_store = (Inr (), s')
     \<and> sd_tables (gw_db (gs_self s')) = sd_tables (gw_db (gs_self two_game_store))"
proof -
  obtain r t where r: "tb_games (sd_tables (gw_db (gs_self two_game_store))) = [r, t]" "gr_id r = 1" "gr_source_type r = ''manual''" "gr_event_id r = Some 1"
    using demo_rows by (auto simp: map_eq_Cons_conv)
  have "map (\<lambda>e. (en_id e, en_name e)) (tb_events (sd_tables (gw_db (gs_self two_game_store)))) = [(1, ''Open'')]" by code_simp
  then obtain e where e: "tb_events (sd_tables (gw_db (gs_self two_game_store))) = [e]" "en_id e = 1" "en_name e = ''Open''"
    by (auto simp: map_eq_Cons_conv)
  show ?thesis
    by (rule site_patch_ignored [OF demo_reachable(3) demo_reliable(3) demo_saved(2), of r 1 e]) (use r e in \<open>simp_all add: column_text_def\<close>)
qed

end
