(* ===== verification/Browser_Async.thy ===== *)
theory Browser_Async
  imports Browser_Presenter Game_Store_Runs
begin

text \<open>
  The game list at work: the event loop asks for queries and activations, other threads answer them from the store in any order and
  any number of times, the answers arrive in any order, and the store changes in between. The theorems say which answers reach the
  screen and that paging through the list shows every game.
\<close>

section \<open>Requests and completions\<close>

datatype browser_op =
    Initial_Load | Set_Filters string string | Sort_Games nat bool | Set_Page u64 | Next_Page | Previous_Page
  | Select_Game nat | Move_Selection int | Activate | Activate_External u32 | Resize_Column nat int | Dismiss_Error

text \<open>What a completed query does in the event loop.\<close>
definition complete_query :: "browser_query \<Rightarrow> browser_page ui_result \<Rightarrow> game_browser_state \<Rightarrow> game_browser_state" where
  "complete_query q r p =
     (case r of Inl e \<Rightarrow> snd (browser_apply_query_error (bq_generation q) e p) | Inr page \<Rightarrow> snd (browser_apply_query page p))"

definition complete_activation ::
  "activation_request \<Rightarrow> bool \<Rightarrow> loaded_game ui_result \<Rightarrow> game_browser_state \<Rightarrow> game_browser_state" where
  "complete_activation a external r p =
     (case r of
        Inl e \<Rightarrow> snd (apply_activation_error (ar_generation a) e p)
      | Inr g \<Rightarrow> if external then snd (apply_external_activation g p) else snd (apply_activation g p))"

text \<open>
  The presenter and the store with every request made so far, oldest first, and every request answered so far with the store it was
  answered from. An activation is marked when it came from outside the list.
\<close>
record browser_world =
  bw_presenter :: game_browser_state
  bw_store :: game_store
  bw_queries :: "browser_query list"
  bw_activations :: "(activation_request \<times> bool) list"
  bw_answers :: "(browser_query \<times> game_store) list"
  bw_loads :: "((activation_request \<times> bool) \<times> game_store) list"

definition new_world :: "game_store \<Rightarrow> browser_world" where
  "new_world s = \<lparr>bw_presenter = new_browser, bw_store = s, bw_queries = [], bw_activations = [], bw_answers = [], bw_loads = []\<rparr>"

definition with_query :: "browser_query ui_result \<times> game_browser_state \<Rightarrow> browser_world \<Rightarrow> browser_world" where
  "with_query rp w = w\<lparr>bw_presenter := snd rp, bw_queries := bw_queries w @ (case fst rp of Inl _ \<Rightarrow> [] | Inr q \<Rightarrow> [q])\<rparr>"

definition with_activation :: "bool \<Rightarrow> activation_request ui_result \<times> game_browser_state \<Rightarrow> browser_world \<Rightarrow> browser_world" where
  "with_activation external rp w =
     w\<lparr>bw_presenter := snd rp, bw_activations := bw_activations w @ (case fst rp of Inl _ \<Rightarrow> [] | Inr a \<Rightarrow> [(a, external)])\<rparr>"

fun browser_request :: "browser_op \<Rightarrow> browser_world \<Rightarrow> browser_world" where
  "browser_request Initial_Load w = with_query (prepare_initial_load (bw_presenter w)) w"
| "browser_request (Set_Filters player outcome) w = with_query (set_filters player outcome (bw_presenter w)) w"
| "browser_request (Sort_Games column ascending) w = with_query (sort_games column ascending (bw_presenter w)) w"
| "browser_request (Set_Page i) w = with_query (set_page i (bw_presenter w)) w"
| "browser_request Next_Page w = with_query (next_page (bw_presenter w)) w"
| "browser_request Previous_Page w = with_query (previous_page (bw_presenter w)) w"
| "browser_request (Select_Game row) w = w\<lparr>bw_presenter := snd (browser_select_game row (bw_presenter w))\<rparr>"
| "browser_request (Move_Selection delta) w = w\<lparr>bw_presenter := snd (move_selection delta (bw_presenter w))\<rparr>"
| "browser_request Activate w = with_activation False (prepare_activation (bw_presenter w)) w"
| "browser_request (Activate_External key) w = with_activation True (prepare_external_activation key (bw_presenter w)) w"
| "browser_request (Resize_Column column width) w = w\<lparr>bw_presenter := snd (resize_column column width (bw_presenter w))\<rparr>"
| "browser_request Dismiss_Error w = w\<lparr>bw_presenter := browser_dismiss_error (bw_presenter w)\<rparr>"

inductive browser_step :: "browser_world \<Rightarrow> browser_world \<Rightarrow> bool" where
  bs_request: "browser_step w (browser_request op w)"
| bs_execute: "q \<in> set (bw_queries w) \<Longrightarrow>
    browser_step w (w\<lparr>bw_store := snd (browser_execute_query q (bw_store w)), bw_answers := (q, bw_store w) # bw_answers w\<rparr>)"
| bs_deliver: "(q, s) \<in> set (bw_answers w) \<Longrightarrow>
    browser_step w (w\<lparr>bw_presenter := complete_query q (fst (browser_execute_query q s)) (bw_presenter w)\<rparr>)"
| bs_load: "a \<in> set (bw_activations w) \<Longrightarrow>
    browser_step w (w\<lparr>bw_store := snd (execute_activation (fst a) (bw_store w)), bw_loads := (a, bw_store w) # bw_loads w\<rparr>)"
| bs_open: "((a, external), s) \<in> set (bw_loads w) \<Longrightarrow>
    browser_step w (w\<lparr>bw_presenter := complete_activation a external (fst (execute_activation a s)) (bw_presenter w)\<rparr>)"
| bs_write: "browser_step w (w\<lparr>bw_store := s\<rparr>)"

inductive_cases browser_stepE: "browser_step w w'"

definition browser_reachable :: "browser_world \<Rightarrow> bool" where
  "browser_reachable w \<longleftrightarrow> (\<exists>s. browser_step\<^sup>*\<^sup>* (new_world s) w)"

section \<open>The invariant of the system\<close>

text \<open>The latest query asks for the filters and the order that are set.\<close>
definition queries_inv :: "browser_world \<Rightarrow> bool" where
  "queries_inv w \<longleftrightarrow>
     br_query_generation (bw_presenter w) = of_nat (length (bw_queries w))
     \<and> map bq_generation (bw_queries w) = map (of_nat o Suc) [0..<length (bw_queries w)]
     \<and> (bw_queries w \<noteq> [] \<longrightarrow> (\<exists>i \<le> max_page_index. bq_filter (last (bw_queries w)) = browser_filter (bw_presenter w) i))
     \<and> fst ` set (bw_answers w) \<subseteq> set (bw_queries w)"

definition activations_inv :: "browser_world \<Rightarrow> bool" where
  "activations_inv w \<longleftrightarrow>
     br_activation_generation (bw_presenter w) = of_nat (length (bw_activations w))
     \<and> map (ar_generation o fst) (bw_activations w) = map (of_nat o Suc) [0..<length (bw_activations w)]
     \<and> fst ` set (bw_loads w) \<subseteq> set (bw_activations w)"

text \<open>The members of the presenter that the two invariants read.\<close>
definition request_part :: "game_browser_state \<Rightarrow> (u64 \<times> u64) \<times> (string \<times> string \<times> browser_sort_column \<times> bool)" where
  "request_part p = ((br_query_generation p, br_activation_generation p),
     br_player_filter p, br_result_filter p, br_sort_column p, br_sort_ascending p)"

lemma browser_filter_cong:
  assumes "br_player_filter p = br_player_filter p'" "br_result_filter p = br_result_filter p'" "br_sort_column p = br_sort_column p'"
    "br_sort_ascending p = br_sort_ascending p'"
  shows "browser_filter p i = browser_filter p' i"
  using assms by (simp add: browser_filter_def)

lemma presenter_inv:
  assumes "request_part p = request_part (bw_presenter w)"
  shows "queries_inv (w\<lparr>bw_presenter := p\<rparr>) = queries_inv w" and "activations_inv (w\<lparr>bw_presenter := p\<rparr>) = activations_inv w"
  using assms browser_filter_cong [of p "bw_presenter w"] by (simp_all add: queries_inv_def activations_inv_def request_part_def)

lemma request_part_kept [simp]:
  "request_part (snd (browser_select_game row p)) = request_part p" "request_part (snd (move_selection delta p)) = request_part p"
  "request_part (snd (resize_column c width p)) = request_part p" "request_part (browser_dismiss_error p) = request_part p"
  "request_part (complete_query q r p) = request_part p" "request_part (complete_activation a external l p) = request_part p"
  by (simp_all add: request_part_def move_selection_snd complete_query_def complete_activation_def browser_edits Let_def split: sum.split
      del: move_selection_def)

text \<open>A request for a query is refused with a message, or counts one query further and asks for what is set from then on.\<close>
definition issues :: "browser_query ui_result \<times> game_browser_state \<Rightarrow> game_browser_state \<Rightarrow> bool" where
  "issues rp p \<longleftrightarrow>
     (\<exists>e. fst rp = Inl e \<and> request_part (snd rp) = request_part p)
     \<or> (\<exists>i \<le> max_page_index.
          fst rp = Inr \<lparr>bq_generation = br_query_generation p + 1, bq_filter = browser_filter (snd rp) i\<rparr>
          \<and> br_query_generation (snd rp) = br_query_generation p + 1
          \<and> br_activation_generation (snd rp) = br_activation_generation p)"

lemma make_query_ok:
  "i \<le> max_page_index \<Longrightarrow> browser_make_query i p =
     (Inr \<lparr>bq_generation = br_query_generation p + 1, bq_filter = browser_filter p i\<rparr>,
      p\<lparr>br_query_generation := br_query_generation p + 1, br_error_text := []\<rparr>)"
  by (simp add: browser_make_query_def Let_def browser_filter_def leD)

lemma issues_fail: "issues (browser_fail m p) p"
  by (simp add: issues_def browser_fail_def request_part_def)

lemma issues_make_query: "issues (browser_make_query i p) p"
proof (cases "i \<le> max_page_index")
  case True
  then show ?thesis by (auto simp: issues_def make_query_ok browser_filter_def)
next
  case False
  then have "browser_make_query i p = browser_fail ''Requested game page is too large'' p" by (simp add: browser_make_query_def not_le)
  then show ?thesis by (simp add: issues_fail)
qed

text \<open>The first page is always in range.\<close>
lemma issues_first_page:
  assumes "br_query_generation p' = br_query_generation p" and "br_activation_generation p' = br_activation_generation p"
  shows "issues (browser_make_query 0 p') p"
  using assms by (auto simp: issues_def make_query_ok browser_filter_def intro!: exI [of _ 0])

lemma issues_requests:
  "issues (prepare_initial_load p) p" "issues (set_filters player outcome p) p" "issues (sort_games column ascending p) p"
  "issues (set_page i p) p" "issues (next_page p) p" "issues (previous_page p) p"
  by (simp_all add: browser_requests issues_fail issues_make_query issues_first_page Let_def)

lemma with_query_inv:
  assumes "issues rp (bw_presenter w)" and "queries_inv w"
  shows "queries_inv (with_query rp w)"
proof -
  consider (refused) e where "fst rp = Inl e" "request_part (snd rp) = request_part (bw_presenter w)"
    | (issued) i where "i \<le> max_page_index" "br_query_generation (snd rp) = br_query_generation (bw_presenter w) + 1"
        "fst rp = Inr \<lparr>bq_generation = br_query_generation (bw_presenter w) + 1, bq_filter = browser_filter (snd rp) i\<rparr>"
    using assms(1) by (auto simp: issues_def)
  then show ?thesis
  proof cases
    case refused
    then show ?thesis using presenter_inv(1) [of "snd rp" w] assms(2) by (simp add: with_query_def)
  next
    case issued
    then show ?thesis using assms(2) by (auto simp: with_query_def queries_inv_def add.commute)
  qed
qed

lemma with_query_activations: "issues rp (bw_presenter w) \<Longrightarrow> activations_inv w \<Longrightarrow> activations_inv (with_query rp w)"
  by (auto simp: issues_def with_query_def activations_inv_def request_part_def)

lemma with_activation_inv:
  assumes "fst rp = Inr a \<and> ar_generation a = br_activation_generation (bw_presenter w) + 1
       \<and> br_activation_generation (snd rp) = br_activation_generation (bw_presenter w) + 1
     \<or> (\<exists>e. fst rp = Inl e) \<and> br_activation_generation (snd rp) = br_activation_generation (bw_presenter w)"
    and "activations_inv w"
  shows "activations_inv (with_activation external rp w)"
  using assms by (auto simp: with_activation_def activations_inv_def add.commute)

lemma with_activation_queries:
  assumes "snd (request_part (snd rp)) = snd (request_part (bw_presenter w))"
    and "br_query_generation (snd rp) = br_query_generation (bw_presenter w)"
  shows "queries_inv (with_activation external rp w) = queries_inv w"
  using assms browser_filter_cong [of "snd rp" "bw_presenter w"] by (simp add: with_activation_def queries_inv_def request_part_def)

definition world_inv :: "browser_world \<Rightarrow> bool" where
  "world_inv w \<longleftrightarrow> browser_inv (bw_presenter w) \<and> queries_inv w \<and> activations_inv w"

lemma new_world_inv: "world_inv (new_world s)"
  by (simp add: world_inv_def new_world_def new_browser_inv queries_inv_def activations_inv_def) (simp add: new_browser_def)

lemma activation_issued:
  "activations_inv w \<Longrightarrow> activations_inv (with_activation external (prepare_activation (bw_presenter w)) w)"
  "activations_inv w \<Longrightarrow> activations_inv (with_activation external (prepare_external_activation key (bw_presenter w)) w)"
  "queries_inv (with_activation external (prepare_activation (bw_presenter w)) w) = queries_inv w"
  "queries_inv (with_activation external (prepare_external_activation key (bw_presenter w)) w) = queries_inv w"
  by (rule with_activation_inv with_activation_queries; auto simp: prepare_activation_def prepare_external_activation_def browser_fail_def
      request_part_def Let_def)+

lemma presenter_with [simp]:
  "bw_presenter (with_query rp w) = snd rp" "bw_presenter (with_activation external ra w) = snd ra"
  by (simp_all add: with_query_def with_activation_def)

lemma request_inv_world: "world_inv w \<Longrightarrow> world_inv (browser_request op w)"
  by (cases op) (simp_all add: world_inv_def with_query_inv with_query_activations issues_requests presenter_inv select_inv
      move_selection_inv resize_inv activation_issued)

lemma complete_inv [simp]:
  "browser_inv p \<Longrightarrow> browser_inv (complete_query q r p)" "browser_inv p \<Longrightarrow> browser_inv (complete_activation a external l p)"
  by (simp_all add: complete_query_def complete_activation_def apply_query_inv external_activation_inv split: sum.split)

lemma browser_step_inv: "browser_step w w' \<Longrightarrow> world_inv w \<Longrightarrow> world_inv w'"
proof (erule browser_stepE)
  assume "world_inv w"
  then have inv: "browser_inv (bw_presenter w)" "queries_inv w" "activations_inv w" by (simp_all add: world_inv_def)
  show "w' = browser_request op w \<Longrightarrow> world_inv w'" for op using request_inv_world \<open>world_inv w\<close> by simp
  show "world_inv w'" if "w' = w\<lparr>bw_presenter := complete_query q (fst (browser_execute_query q s)) (bw_presenter w)\<rparr>" for q s
    using inv that by (simp add: world_inv_def presenter_inv)
  show "world_inv w'" if "w' = w\<lparr>bw_presenter := complete_activation a external (fst (execute_activation a s)) (bw_presenter w)\<rparr>" for a external s
    using inv that by (simp add: world_inv_def presenter_inv)
qed (auto simp: world_inv_def queries_inv_def activations_inv_def)

lemma browser_reachable_inv: "browser_reachable w \<Longrightarrow> world_inv w"
proof -
  assume "browser_reachable w"
  then obtain s where "browser_step\<^sup>*\<^sup>* (new_world s) w" by (auto simp: browser_reachable_def)
  then show ?thesis by (induction rule: rtranclp_induct) (auto intro: new_world_inv browser_step_inv)
qed

section \<open>Only the latest answer counts\<close>

lemma count_eq: "k < n \<Longrightarrow> n < 2 ^ 64 \<Longrightarrow> (of_nat (Suc k) :: u64) = of_nat n \<longleftrightarrow> Suc k = n"
proof -
  assume "k < n" "n < 2 ^ 64"
  then have "unat (of_nat (Suc k) :: u64) = Suc k" "unat (of_nat n :: u64) = n" by (simp_all add: unat_of_nat_less del: of_nat_Suc)
  then show ?thesis by metis
qed

text \<open>Counting below \<open>2 ^ 64\<close> requests, the current generation is that of the latest one.\<close>
lemma generation_latest:
  fixes gen :: "'r \<Rightarrow> u64"
  assumes "map gen rs = map (of_nat o Suc) [0..<length rs]" and "length rs < 2 ^ 64" and "r \<in> set rs"
  shows "gen r = of_nat (length rs) \<longleftrightarrow> r = last rs"
proof -
  have gen: "gen (rs ! k) = of_nat (Suc k)" if "k < length rs" for k
    using that arg_cong [OF assms(1), of "\<lambda>xs. xs ! k"] by simp
  have rs: "rs \<noteq> []" using assms(3) by auto
  note rs = rs last_conv_nth [OF rs]
  have last: "gen (last rs) = of_nat (length rs)" using gen [of "length rs - 1"] rs by simp
  obtain k where k: "k < length rs" "r = rs ! k" using assms(3) by (auto simp: in_set_conv_nth)
  have "k = length rs - 1" if "gen r = of_nat (length rs)"
    using that gen [OF k(1)] k count_eq [OF k(1) assms(2)] by simp
  then show ?thesis using k rs last by auto
qed

lemma page_index_round_trip:
  assumes "i \<le> max_page_index"
  shows "i * browser_page_size div browser_page_size = i"
proof -
  have m: "unat max_page_index = (2 ^ 64 - 1) div 100" by (simp add: max_page_index_def browser_page_size_def unat_div unat_max_u64)
  have "unat i \<le> (2 ^ 64 - 1) div 100" using assms by (simp add: word_le_nat_alt m)
  then have "unat (i * 100) = unat i * 100" by (subst unat_mult_lem [THEN iffD1]) simp_all
  then show ?thesis by (simp add: browser_page_size_def word_unat_eq_iff unat_div)
qed

lemma browser_filter_upd:
  "browser_filter (p\<lparr>br_games := gs, br_total_count := n, br_page_index := j, br_has_previous_page := b, br_has_next_page := c,
     br_selected_row := row, br_error_text := m\<rparr>) i = browser_filter p i"
  by (simp add: browser_filter_def)

lemma execute_query_fst:
  "fst (browser_execute_query q s) = (case fst (via_self (find_games (bq_filter q)) s) of
     Inl e \<Rightarrow> Inl (from_database_error e)
   | Inr l \<Rightarrow> Inr \<lparr>bp_generation = bq_generation q, bp_games = gl_games l, bp_total_count = int (gl_total_count l),
       bp_page_index = sf_offset (bq_filter q) div browser_page_size\<rparr>)"
  by (simp add: browser_execute_query_def split: prod.split sum.split del: fst_via)

text \<open>
  C21: Whatever the order in which queries are executed and their answers delivered, and however the store changes meanwhile, the game
  list only ever takes over the answer to the latest query, as long as fewer than \<open>2 ^ 64\<close> are made: an older answer changes nothing, and
  the latest one puts on the screen the page that the store gave for the filters and the sort order that are set, with its page number,
  or the message of its error.\<close>
theorem latest_query_wins:
  assumes "browser_reachable w" and "length (bw_queries w) < 2 ^ 64" and "(q, s) \<in> set (bw_answers w)"
    and "p = bw_presenter w" and "r = fst (browser_execute_query q s)"
  shows "(q \<noteq> last (bw_queries w) \<longrightarrow> complete_query q r p = p)
    \<and> (q = last (bw_queries w) \<longrightarrow> (\<exists>i. bq_filter q = browser_filter p i
         \<and> (case fst (via_self (find_games (browser_filter p i)) s) of
              Inl e \<Rightarrow> complete_query q r p = p\<lparr>br_error_text := ui_message (from_database_error e)\<rparr>
            | Inr l \<Rightarrow> br_games (complete_query q r p) = gl_games l \<and> br_total_count (complete_query q r p) = int (gl_total_count l)
                \<and> br_page_index (complete_query q r p) = i \<and> br_error_text (complete_query q r p) = []
                \<and> browser_filter (complete_query q r p) i = browser_filter p i)))"
proof -
  have inv: "br_query_generation p = of_nat (length (bw_queries w))" "map bq_generation (bw_queries w) = map (of_nat o Suc) [0..<length (bw_queries w)]"
    "bw_queries w \<noteq> [] \<longrightarrow> (\<exists>i \<le> max_page_index. bq_filter (last (bw_queries w)) = browser_filter p i)" "q \<in> set (bw_queries w)"
    using browser_reachable_inv [OF assms(1)] assms(3,4) by (auto simp: world_inv_def queries_inv_def)
  have latest: "bq_generation q = br_query_generation p \<longleftrightarrow> q = last (bw_queries w)"
    using generation_latest [OF inv(2) assms(2) inv(4)] inv(1) by simp
  have gen: "bp_generation page = bq_generation q" if "r = Inr page" for page
    using that unfolding assms(5) execute_query_fst by (auto split: sum.splits)
  show ?thesis
  proof (cases "q = last (bw_queries w)")
    case False
    then show ?thesis
      using latest gen by (auto simp: complete_query_def browser_apply_query_def browser_apply_query_error_def split: sum.split)
  next
    case True
    obtain i where i: "i \<le> max_page_index" "bq_filter q = browser_filter p i" using inv(3,4) True by force
    have off: "sf_offset (browser_filter p i) div browser_page_size = i" using page_index_round_trip [OF i(1)] by (simp add: browser_filter_def)
    have g: "bq_generation q = br_query_generation p" using True latest by simp
    have "case fst (via_self (find_games (browser_filter p i)) s) of
        Inl e \<Rightarrow> complete_query q r p = p\<lparr>br_error_text := ui_message (from_database_error e)\<rparr>
      | Inr l \<Rightarrow> br_games (complete_query q r p) = gl_games l \<and> br_total_count (complete_query q r p) = int (gl_total_count l)
          \<and> br_page_index (complete_query q r p) = i \<and> br_error_text (complete_query q r p) = []
          \<and> browser_filter (complete_query q r p) i = browser_filter p i"
      unfolding assms(5) execute_query_fst i(2)
      by (cases "fst (via_self (find_games (browser_filter p i)) s)")
        (simp_all add: complete_query_def browser_apply_query_def browser_apply_query_error_def g off browser_filter_upd del: fst_via)
    then show ?thesis using True i(2) by blast
  qed
qed

lemma execute_activation_fst:
  "fst (execute_activation a s) = (case fst (via_self (store_get (ar_game_id a)) s) of
     Inl e \<Rightarrow> Inl (from_database_error e)
   | Inr g \<Rightarrow> Inr \<lparr>lg_generation = ar_generation a, lg_game_id = ar_game_id a, lg_game = g\<rparr>)"
  by (simp add: execute_activation_def split: prod.split sum.split del: fst_via)

text \<open>
  Opening a game follows the latest request: whatever the order of the answers, an answer to an older activation changes nothing, and
  the answer to the latest one opens the game as it was stored under the id that was asked for. An activation from the list is dropped
  when another game has been selected in the meantime, one from outside selects its game in the list, and an error is shown; so the game
  that is opened is the selected one.\<close>
theorem latest_activation_wins:
  assumes "browser_reachable w" and "length (bw_activations w) < 2 ^ 64" and "((a, external), s) \<in> set (bw_loads w)"
    and "p = bw_presenter w" and "p' = complete_activation a external (fst (execute_activation a s)) p"
  shows "((a, external) \<noteq> last (bw_activations w) \<longrightarrow> p' = p)
    \<and> ((a, external) = last (bw_activations w) \<longrightarrow>
        (case fst (via_self (store_get (ar_game_id a)) s) of
           Inl e \<Rightarrow> p' = p\<lparr>br_error_text := ui_message (from_database_error e)\<rparr>
         | Inr g \<Rightarrow> if external \<or> br_has_selection p \<and> br_selected_game_id p = ar_game_id a
             then br_active_game p' = Some g \<and> br_active_game_id p' = ar_game_id a \<and> br_has_selection p'
               \<and> br_selected_game_id p' = ar_game_id a \<and> br_games p' = br_games p \<and> br_error_text p' = []
             else p' = p))"
proof -
  have inv: "br_activation_generation p = of_nat (length (bw_activations w))"
    "map (ar_generation o fst) (bw_activations w) = map (of_nat o Suc) [0..<length (bw_activations w)]" "(a, external) \<in> set (bw_activations w)"
    using browser_reachable_inv [OF assms(1)] assms(3,4) by (auto simp: world_inv_def activations_inv_def)
  have latest: "ar_generation a = br_activation_generation p \<longleftrightarrow> (a, external) = last (bw_activations w)"
    using generation_latest [OF inv(2) assms(2) inv(3)] inv(1) by simp
  show ?thesis
    unfolding assms(5) execute_activation_fst latest [symmetric]
    by (cases "fst (via_self (store_get (ar_game_id a)) s)")
      (auto simp: complete_activation_def apply_activation_def apply_external_activation_def apply_activation_error_def simp del: fst_via)
qed

section \<open>The selection\<close>

lemma moved_row_less: "browser_inv p \<Longrightarrow> br_games p \<noteq> [] \<Longrightarrow> moved_row delta p < length (br_games p)"
  by (cases "br_games p"; auto simp: moved_row_def Let_def browser_inv_def min_def split: option.split)

text \<open>
  C29: In every reachable state the selected row is a row of the page shown, holds the selected game and exists just when the page shows
  that game; the six column widths stay between 70 and 600; and the keys move the selection on every page that has a game, to a row of the
  page, which becomes the selected one.\<close>
theorem browser_selection_valid:
  assumes "browser_reachable w" and "p = bw_presenter w"
  shows "(\<forall>k. br_selected_row p = Some k \<longrightarrow> br_has_selection p \<and> k < length (br_games p) \<and> ge_id (br_games p ! k) = br_selected_game_id p)
    \<and> (br_selected_row p = None \<longrightarrow> \<not> (br_has_selection p \<and> br_selected_game_id p \<in> ge_id ` set (br_games p)))
    \<and> length (br_column_widths p) = 6 \<and> (\<forall>width\<in>set (br_column_widths p). 70 \<le> width \<and> width \<le> 600)
    \<and> (\<forall>delta. br_games p \<noteq> [] \<longrightarrow> (\<exists>k < length (br_games p). fst (move_selection delta p) = Inr k
         \<and> br_selected_row (snd (move_selection delta p)) = Some k \<and> br_selected_game_id (snd (move_selection delta p)) = ge_id (br_games p ! k)))"
proof -
  have inv: "browser_inv p" using browser_reachable_inv [OF assms(1)] assms(2) by (simp add: world_inv_def)
  have "\<exists>k < length (br_games p). fst (move_selection delta p) = Inr k \<and> br_selected_row (snd (move_selection delta p)) = Some k
      \<and> br_selected_game_id (snd (move_selection delta p)) = ge_id (br_games p ! k)" if "br_games p \<noteq> []" for delta
    using moved_row_less [OF inv that, of delta] that
    by (intro exI [of _ "moved_row delta p"]) (simp add: move_selection_def browser_select_game_def)
  then show ?thesis using inv by (simp add: browser_inv_def browser_constants)
qed

section \<open>Paging through the list\<close>

text \<open>A request, its execution and its completion, with nothing in between.\<close>
definition load_page :: "browser_query ui_result \<times> game_browser_state \<Rightarrow> game_store \<Rightarrow> game_browser_state \<times> game_store" where
  "load_page rp s = (case fst rp of Inl _ \<Rightarrow> (snd rp, s)
     | Inr q \<Rightarrow> (case browser_execute_query q s of (r, s') \<Rightarrow> (complete_query q r (snd rp), s')))"

text \<open>The first page, and then \<open>k\<close> times the next one.\<close>
primrec browse :: "nat \<Rightarrow> game_browser_state \<Rightarrow> game_store \<Rightarrow> game_browser_state \<times> game_store" where
  "browse 0 p s = load_page (prepare_initial_load p) s"
| "browse (Suc k) p s = (case browse k p s of (p', s') \<Rightarrow> load_page (next_page p') s')"

lemma find_games_keeps_ready:
  assumes "store_ready s" and "via_self (find_games f) s = (r, s')"
  shows "store_ready s'" and "gs_tables s' = gs_tables s"
proof -
  obtain c where c: "gs_self s' = (gs_self s)\<lparr>gw_db := (gw_db (gs_self s))\<lparr>sd_clock := c\<rparr>\<rparr>"
    using assms(2) readsD [OF reads_searches(1)] by (auto simp: via_self_def split: prod.splits) (metis surj_pair)
  have "store_inv s'" using store_step_inv [OF ss_find [OF assms(2)]] assms(1) by (auto simp: store_ready_def)
  then show "store_ready s'" using assms(1) c by (simp add: store_ready_def sd_reliable_def)
  show "gs_tables s' = gs_tables s" using c by simp
qed

text \<open>The page number \<open>k\<close> of a list of games is on the screen.\<close>
definition shows_page :: "game_browser_state \<Rightarrow> joined_game list \<Rightarrow> nat \<Rightarrow> bool" where
  "shows_page p games k \<longleftrightarrow>
     br_games p = map read_game_list_entry (take 100 (drop (k * 100) games)) \<and> br_total_count p = int (length games)
     \<and> br_page_index p = of_nat k \<and> br_has_next_page p = ((k + 1) * 100 < length games) \<and> br_has_previous_page p = (0 < k)
     \<and> br_error_text p = []"

lemma sint_small: "m < 2 ^ 63 \<Longrightarrow> sint (of_nat m :: u64) = int m"
  by (simp add: signed_of_nat signed_take_bit_int_eq_self)

lemma page_number_small:
  assumes "k * 100 \<le> 2 ^ 62"
  shows "of_nat k \<le> max_page_index" and "unat (of_nat (k * 100) :: u64) = k * 100" and "(of_nat (k * 100) :: u64) \<le> sqlite_max"
    and "0 < (of_nat k :: u64) \<longleftrightarrow> 0 < k" and "sint ((of_nat k + 1) * browser_page_size) = int ((k + 1) * 100)"
proof -
  have u: "unat (of_nat m :: u64) = m" if "m \<le> 2 ^ 62" for m using that by (intro unat_of_nat_less) simp
  have "unat max_page_index = (2 ^ 64 - 1) div 100" by (simp add: max_page_index_def browser_page_size_def unat_div unat_max_u64)
  then show "of_nat k \<le> max_page_index" using assms u [of k] by (simp add: word_le_nat_alt)
  show "unat (of_nat (k * 100) :: u64) = k * 100" "(of_nat (k * 100) :: u64) \<le> sqlite_max"
    using assms u [OF assms] unfolding word_le_nat_alt by (simp_all add: sqlite_max_def)
  show "0 < (of_nat k :: u64) \<longleftrightarrow> 0 < k" using assms u [of k] by (simp add: word_less_nat_alt)
  have "(of_nat k + 1) * browser_page_size = (of_nat ((k + 1) * 100) :: u64)" by (simp add: browser_page_size_def)
  then show "sint ((of_nat k + 1) * browser_page_size) = int ((k + 1) * 100)" using sint_small [of "(k + 1) * 100"] assms by simp
qed

lemma browser_filter_page:
  "browser_filter p (of_nat k) = (browser_filter p 0)\<lparr>sf_offset := of_nat (k * 100), sf_limit := 100\<rparr>"
  by (simp add: browser_filter_def browser_page_size_def)

lemma load_page_shows:
  assumes "store_ready s" and "k * 100 \<le> 2 ^ 62" and "f = browser_filter p 0"
    and "games = order_games f (matching_games None f (gs_tables s))"
  shows "\<exists>p' s'. load_page (browser_make_query (of_nat k) p) s = (p', s') \<and> shows_page p' games k
    \<and> browser_filter p' = browser_filter p \<and> store_ready s' \<and> gs_tables s' = gs_tables s"
proof -
  note small = page_number_small [OF assms(2)]
  let ?f = "browser_filter p (of_nat k)"
  have page: "search_page None ?f (gs_tables s) = \<lparr>gl_games = map read_game_list_entry (take 100 (drop (k * 100) games)), gl_total_count = length games\<rparr>"
    unfolding browser_filter_page search_page_page small(2) using assms(3,4) by (simp add: min_def max_search_limit_def word_le_nat_alt)
  have found: "fst (via_self (find_games ?f) s) = Inr (search_page None ?f (gs_tables s))"
    by (rule find_games_ready [OF assms(1)]) (use small(3) in \<open>simp add: browser_filter_page\<close>)
  obtain s' where s': "via_self (find_games ?f) s = (Inr (search_page None ?f (gs_tables s)), s')" using found by (metis prod.collapse)
  have off: "sf_offset ?f div browser_page_size = of_nat k"
    using page_index_round_trip [OF small(1)] by (simp add: browser_filter_def)
  let ?q = "\<lparr>bq_generation = br_query_generation p + 1, bq_filter = ?f\<rparr>"
  let ?p = "p\<lparr>br_query_generation := br_query_generation p + 1, br_error_text := []\<rparr>"
  let ?pg = "\<lparr>bp_generation = br_query_generation p + 1, bp_games = map read_game_list_entry (take 100 (drop (k * 100) games)),
      bp_total_count = int (length games), bp_page_index = of_nat k\<rparr>"
  have "browser_execute_query ?q s = (Inr ?pg, s')" by (simp add: browser_execute_query_def s' page off)
  then have "load_page (browser_make_query (of_nat k) p) s = (snd (browser_apply_query ?pg ?p), s')"
    by (simp add: load_page_def make_query_ok [OF small(1)] complete_query_def)
  moreover have "shows_page (snd (browser_apply_query ?pg ?p)) games k"
    using small(4,5) by (auto simp: shows_page_def browser_apply_query_def Let_def)
  moreover have "browser_filter (snd (browser_apply_query ?pg ?p)) = browser_filter p"
    by (rule ext) (simp add: browser_apply_query_def Let_def browser_filter_def)
  ultimately show ?thesis using find_games_keeps_ready [OF assms(1) s'] by blast
qed

lemma browse_shows:
  assumes "store_ready s" and "f = browser_filter p 0" and "games = order_games f (matching_games None f (gs_tables s))"
    and "length games \<le> 2 ^ 62" and "k = 0 \<or> k * 100 < length games"
  shows "\<exists>p' s'. browse k p s = (p', s') \<and> shows_page p' games k \<and> browser_filter p' = browser_filter p
    \<and> store_ready s' \<and> gs_tables s' = gs_tables s"
  using assms(5)
proof (induction k)
  case 0
  then show ?case using load_page_shows [OF assms(1) _ assms(2,3), of 0] by (simp add: prepare_initial_load_def)
next
  case (Suc k)
  then have k: "(k + 1) * 100 < length games" "k = 0 \<or> k * 100 < length games" by simp_all
  obtain p1 s1 where p1: "browse k p s = (p1, s1)" "shows_page p1 games k" "browser_filter p1 = browser_filter p" "store_ready s1"
      "gs_tables s1 = gs_tables s"
    using Suc.IH k(2) by blast
  have "br_has_next_page p1" "br_page_index p1 + 1 = of_nat (Suc k)" using p1(2) k(1) by (simp_all add: shows_page_def)
  then have "next_page p1 = browser_make_query (of_nat (Suc k)) p1" by (simp only: next_page_def not_True_eq_False if_False)
  moreover have "Suc k * 100 \<le> 2 ^ 62" using k(1) assms(4) by simp
  ultimately show ?case
    using load_page_shows [OF p1(4), of "Suc k" f p1 games] p1 assms(2,3) by simp
qed

text \<open>
  C22: Paging through the game list shows every game: on a store that is not changed meanwhile, the first page and then the next ones
  put on the screen, one hundred at a time, the games that match the filters in the order that is set; each page has its number and the
  number of all games, the next-page control is offered on every page but the last one, the previous-page control on every page but the
  first one, and the pages together are the whole list.\<close>
theorem paging_shows_every_game:
  assumes "store_reachable xxh3 s" and "sd_reliable (gw_db (gs_self s))" and "f = browser_filter p 0"
    and "length (matching_games None f (sd_tables (gw_db (gs_self s)))) \<le> 2 ^ 62"
  shows "\<exists>games. sorted_wrt (listed_before f) games \<and> length games = length (matching_games None f (sd_tables (gw_db (gs_self s))))
     \<and> set games = {g \<in> set (joined_games (sd_tables (gw_db (gs_self s)))). matches_filter f g}
     \<and> (\<forall>k. k = 0 \<or> k * 100 < length games \<longrightarrow> shows_page (fst (browse k p s)) games k)
     \<and> concat (map (\<lambda>k. br_games (fst (browse k p s))) [0..<(length games + 99) div 100]) = map read_game_list_entry games"
proof -
  have s: "store_ready s" by (rule store_reachable_ready [OF assms(1,2)])
  let ?games = "order_games f (matching_games None f (gs_tables s))" and ?n = "(length (matching_games None f (gs_tables s)) + 99) div 100"
  note ord = order_games_sorted [OF matching_ids [OF ready_wf [OF s], of None f], of f]
  have pg: "shows_page (fst (browse k p s)) ?games k" if "k = 0 \<or> k * 100 < length ?games" for k
    using browse_shows [OF s assms(3) refl _ that] assms(4) by auto
  have "map (\<lambda>k. br_games (fst (browse k p s))) [0..<?n] = map (map read_game_list_entry) (map (\<lambda>k. take 100 (drop (k * 100) ?games)) [0..<?n])"
    unfolding map_map
  proof (intro map_cong refl)
    fix k assume "k \<in> set [0..<?n]"
    then have "k * 100 < length ?games" by simp
    then show "br_games (fst (browse k p s)) = (map read_game_list_entry o (\<lambda>k. take 100 (drop (k * 100) ?games))) k"
      using pg by (simp add: shows_page_def)
  qed
  then have "concat (map (\<lambda>k. br_games (fst (browse k p s))) [0..<?n]) = map read_game_list_entry ?games"
    using concat_pages [of ?games ?n 100] by (simp only: map_concat [symmetric]) simp
  then show ?thesis using ord pg by (intro exI [of _ ?games]) (auto simp: matching_games_def)
qed

section \<open>A run\<close>

text \<open>The first page of two games is asked for, the list is filtered, a game is opened from outside, and everything is answered.\<close>
definition demo_requested :: browser_world where
  "demo_requested = browser_request (Activate_External 1) (browser_request (Set_Filters [] ''0-1'')
     (browser_request Initial_Load (new_world two_game_store)))"

definition demo_answered :: browser_world where
  "demo_answered = demo_requested\<lparr>
     bw_answers := [(bw_queries demo_requested ! 1, two_game_store), (bw_queries demo_requested ! 0, two_game_store)],
     bw_loads := [(bw_activations demo_requested ! 0, two_game_store)]\<rparr>"

lemma demo_requests:
  "length (bw_queries demo_requested) = 2" "length (bw_activations demo_requested) = 1" "bw_store demo_requested = two_game_store"
  "bw_answers demo_requested = []" "bw_loads demo_requested = []"
  "map bq_generation (bw_queries demo_requested) = [1, 2]" "bw_activations demo_requested = [(\<lparr>ar_generation = 1, ar_game_id = 1\<rparr>, True)]"
  by (simp_all add: demo_requested_def new_world_def with_query_def with_activation_def browser_requests make_query_ok
      prepare_external_activation_def new_browser_def)

lemma reachable_step: "browser_reachable w \<Longrightarrow> browser_step w w' \<Longrightarrow> browser_reachable w'"
  unfolding browser_reachable_def by (meson rtranclp.rtrancl_into_rtrancl)

lemma reachable_answered:
  assumes "browser_reachable w" and "q \<in> set (bw_queries w)"
  shows "browser_reachable (w\<lparr>bw_answers := (q, bw_store w) # bw_answers w\<rparr>)"
  using reachable_step [OF reachable_step [OF assms(1) bs_execute [OF assms(2)]] bs_write [of _ "bw_store w"]] by (cases w) simp

lemma reachable_loaded:
  assumes "browser_reachable w" and "a \<in> set (bw_activations w)"
  shows "browser_reachable (w\<lparr>bw_loads := (a, bw_store w) # bw_loads w\<rparr>)"
  using reachable_step [OF reachable_step [OF assms(1) bs_load [OF assms(2)]] bs_write [of _ "bw_store w"]] by (cases w) simp

lemma demo_world_reachable: "browser_reachable demo_answered"
proof -
  let ?q = "\<lambda>k. bw_queries demo_requested ! k" and ?w1 = "demo_requested\<lparr>bw_answers := [(bw_queries demo_requested ! 0, two_game_store)]\<rparr>"
  let ?w2 = "demo_requested\<lparr>bw_answers := [(bw_queries demo_requested ! 1, two_game_store), (bw_queries demo_requested ! 0, two_game_store)]\<rparr>"
  have q: "?q 0 \<in> set (bw_queries demo_requested)" "?q 1 \<in> set (bw_queries demo_requested)"
    "bw_activations demo_requested ! 0 \<in> set (bw_activations demo_requested)"
    by (rule nth_mem, simp add: demo_requests(1,2))+
  have "browser_reachable (new_world two_game_store)" by (auto simp: browser_reachable_def)
  then have "browser_reachable demo_requested" unfolding demo_requested_def by (intro reachable_step [OF _ bs_request])
  then have "browser_reachable ?w1" using reachable_answered [OF _ q(1)] by (simp add: demo_requests)
  then have "browser_reachable ?w2" using reachable_answered [of ?w1 "?q 1"] q(2) by (simp add: demo_requests)
  then show ?thesis using reachable_loaded [of ?w2] q(3) by (simp add: demo_answered_def demo_requests)
qed

lemma demo_answered_simps:
  "bw_queries demo_answered = bw_queries demo_requested" "bw_activations demo_answered = bw_activations demo_requested"
  "bw_presenter demo_answered = bw_presenter demo_requested"
  by (simp_all add: demo_answered_def)

text \<open>The answer to the first query comes too late, the one to the second shows the game that was lost.\<close>
theorem latest_query_wins_witness:
  "complete_query (bw_queries demo_answered ! 0) (fst (browser_execute_query (bw_queries demo_answered ! 0) two_game_store)) (bw_presenter demo_answered)
     = bw_presenter demo_answered
   \<and> (\<exists>i. bq_filter (bw_queries demo_answered ! 1) = browser_filter (bw_presenter demo_answered) i)"
proof -
  have len: "length (bw_queries demo_answered) < 2 ^ 64" by (simp add: demo_answered_simps demo_requests)
  have old: "(bw_queries demo_answered ! 0, two_game_store) \<in> set (bw_answers demo_answered)"
    and new: "(bw_queries demo_answered ! 1, two_game_store) \<in> set (bw_answers demo_answered)" by (simp_all add: demo_answered_def)
  have last: "last (bw_queries demo_answered) = bw_queries demo_answered ! 1"
    by (subst last_conv_nth) (use demo_requests(1) in \<open>auto simp: demo_answered_simps\<close>)
  have "bq_generation (bw_queries demo_answered ! 0) = 1" "bq_generation (bw_queries demo_answered ! 1) = 2"
    using arg_cong [OF demo_requests(6), of "\<lambda>xs. xs ! 0"] arg_cong [OF demo_requests(6), of "\<lambda>xs. xs ! 1"] demo_requests(1)
    by (simp_all add: demo_answered_simps)
  then have "bw_queries demo_answered ! 0 \<noteq> bw_queries demo_answered ! 1" by auto
  then show ?thesis
    using latest_query_wins [OF demo_world_reachable len old refl refl] latest_query_wins [OF demo_world_reachable len new refl refl] last by auto
qed

theorem latest_activation_wins_witness:
  "br_active_game_id (complete_activation \<lparr>ar_generation = 1, ar_game_id = 1\<rparr> True
     (fst (execute_activation \<lparr>ar_generation = 1, ar_game_id = 1\<rparr> two_game_store)) (bw_presenter demo_answered)) = 1"
proof -
  have found: "\<not> isl (fst (via_self (store_get 1) two_game_store))" by code_simp
  have len: "length (bw_activations demo_answered) < 2 ^ 64" by (simp add: demo_answered_simps demo_requests)
  have loaded: "((\<lparr>ar_generation = 1, ar_game_id = 1\<rparr>, True), two_game_store) \<in> set (bw_loads demo_answered)"
    by (simp add: demo_answered_def demo_requests)
  have last: "(\<lparr>ar_generation = 1, ar_game_id = 1\<rparr>, True) = last (bw_activations demo_answered)" by (simp add: demo_answered_simps demo_requests)
  obtain g where g: "fst (via_self (store_get 1) two_game_store) = Inr g" using found by (cases "fst (via_self (store_get 1) two_game_store)") (auto simp del: fst_via)
  note opened = mp [OF conjunct2 [OF latest_activation_wins [OF demo_world_reachable len loaded refl refl]] last]
  show ?thesis using opened unfolding activation_request.select_convs g sum.case by (simp only: disj_not1 simp_thms if_True)
qed

theorem browser_selection_valid_witness: "length (br_column_widths (bw_presenter demo_answered)) = 6"
  using browser_selection_valid [OF demo_world_reachable refl] by blast

theorem paging_shows_every_game_witness:
  "\<exists>games. length games = 2 \<and> br_games (fst (browse 0 new_browser two_game_store)) = map read_game_list_entry games
     \<and> \<not> br_has_next_page (fst (browse 0 new_browser two_game_store))"
proof -
  have n: "length (matching_games None (browser_filter new_browser 0) (sd_tables (gw_db (gs_self two_game_store)))) = 2" by code_simp
  obtain games where g: "length games = 2"
      "\<forall>k. k = 0 \<or> k * 100 < length games \<longrightarrow> shows_page (fst (browse k new_browser two_game_store)) games k"
    using paging_shows_every_game [OF demo_reachable(3) demo_reliable(3) refl, of new_browser] n by auto
  then have page: "length games = 2" "shows_page (fst (browse 0 new_browser two_game_store)) games 0" by auto
  then show ?thesis using page by (intro exI [of _ games]) (simp add: shows_page_def)
qed

end
