(* ===== verification/Store_Index.thy ===== *)
theory Store_Index
  imports Postings_Build Game_Store_Runs
begin

text \<open>
  The position index of a game store: what \<open>build\<close> reads of a store is what \<open>count_games\<close> and \<open>for_each_replay_game\<close> deliver,
  and the built index finds exactly the games that \<open>get\<close> returns and that reach the position.
\<close>

section \<open>The replay\<close>

text \<open>The callback of \<open>build\<close>: counts the game, replays its moves and appends their rows.\<close>
fun replay_callback ::
  "'b board_ops \<Rightarrow> replay_game_record \<Rightarrow> nat \<times> filesystem \<times> position_postings \<Rightarrow> unit result \<times> nat \<times> filesystem \<times> position_postings" where
  "replay_callback ops game (replayed, fs, pp) =
     (case replay_rows ops game of
        None \<Rightarrow> (unexpected Io_Failure, replayed + 1, fs, pp)
      | Some rows \<Rightarrow> (case append_batch rows fs pp of (r, fs, pp) \<Rightarrow> (r, replayed + 1, fs, pp)))"

text \<open>What the two reads of \<open>build\<close> see of the store.\<close>
definition store_replay :: "game_writer \<Rightarrow> replay_store" where
  "store_replay w =
     (case count_stored_games w of
        (number, w) \<Rightarrow>
          (case for_each_replay_game (\<lambda>game games. (Inr (), games @ [game])) [] w of
             (ending, games, w) \<Rightarrow> \<lparr>rs_count = map_sum id int number, rs_games = games, rs_end = ending\<rparr>))"

lemma visit_rows_collect:
  "visit_rows (\<lambda>game games. (Inr (), games @ [game])) rows acc w = (ending, games, w') \<Longrightarrow> \<exists>more. games = acc @ more
     \<and> (\<exists>w''. visit_rows (replay_callback ops) rows v w
          = (case replay_games ops more ending (fst v) (fst (snd v)) (snd (snd v)) of (r, v') \<Rightarrow> (r, v', w'')))"
proof (induction rows arbitrary: acc w v)
  case Nil
  then show ?case by (cases v) (auto split: prod.splits)
next
  case (Cons row rows)
  obtain n fs pp where v: "v = (n, fs, pp)" by (cases v)
  obtain r w1 where w1: "gw_exec (\<lambda>tb. Some ((), tb)) w = (r, w1)" by (cases "gw_exec (\<lambda>tb. Some ((), tb)) w")
  show ?case
  proof (cases r)
    case (Inl err)
    then show ?thesis using Cons.prems w1 by (auto simp: v)
  next
    case (Inr u)
    then have rec: "visit_rows (\<lambda>game games. (Inr (), games @ [game])) rows (acc @ [replay_record row]) w1 = (ending, games, w')"
      using Cons.prems w1 by simp
    note ih = Cons.IH [OF this]
    obtain more where more: "games = (acc @ [replay_record row]) @ more" using ih by blast
    obtain res v1 where c: "replay_callback ops (replay_record row) v = (res, v1)" by (metis surj_pair)
    show ?thesis
    proof (cases res)
      case (Inl err)
      then show ?thesis using c w1 Inr more
        by (intro exI [of _ "replay_record row # more"]) (auto simp: v split: option.splits prod.splits)
    next
      case (Inr u')
      then show ?thesis using c w1 \<open>r = Inr u\<close> more ih [of v1]
        by (intro exI [of _ "replay_record row # more"]) (auto simp: v split: option.splits prod.splits)
    qed
  qed
qed

lemma for_each_replay_games:
  assumes "for_each_replay_game (\<lambda>game games. (Inr (), games @ [game])) [] w = (ending, games, w')"
  shows "\<exists>w''. for_each_replay_game (replay_callback ops) v w
     = (case replay_games ops games ending (fst v) (fst (snd v)) (snd (snd v)) of (r, v') \<Rightarrow> (r, v', w''))"
proof -
  obtain r w1 where w1: "gw_exec (\<lambda>tb. Some ((), tb)) w = (r, w1)" by (cases "gw_exec (\<lambda>tb. Some ((), tb)) w")
  show ?thesis
  proof (cases r)
    case (Inl err)
    then show ?thesis using assms w1 by (cases v) (auto simp: for_each_replay_game_def)
  next
    case (Inr u)
    then show ?thesis using assms w1 visit_rows_collect [of _ "[]" w1 ending games w' ops v]
      by (auto simp: for_each_replay_game_def)
  qed
qed

section \<open>The rows of a working store\<close>

lemma visit_rows_at:
  "at sv tb w \<Longrightarrow> \<exists>w'. visit_rows (\<lambda>game games. (Inr (), games @ [game])) rows acc w = (Inr (), acc @ map replay_record rows, w')"
proof (induction rows arbitrary: acc w)
  case Nil
  then show ?case using exec_at [OF Nil sound_read [of "\<lambda>_. ()"]] by auto
next
  case (Cons row rows)
  obtain w1 where "gw_exec (\<lambda>tb. Some ((), tb)) w = (Inr (), w1)" "at sv tb w1"
    using exec_at [OF Cons.prems sound_read [of "\<lambda>_. ()"]] by auto
  then show ?case using Cons.IH [of w1 "acc @ [replay_record row]"] by auto
qed

lemma store_replay_at:
  assumes "at sv tb w"
  shows "store_replay w = \<lparr>rs_count = Inr (int (length (tb_games tb))), rs_games = map replay_record (sort_key gr_id (tb_games tb)), rs_end = Inr ()\<rparr>"
proof -
  obtain w1 where w1: "count_stored_games w = (Inr (length (tb_games tb)), w1)" "at sv tb w1"
    using query_at [OF assms] unfolding count_stored_games_def by blast
  obtain w2 where w2: "gw_exec (\<lambda>tb. Some ((), tb)) w1 = (Inr (), w2)" "at sv tb w2"
    using exec_at [OF w1(2) sound_read [of "\<lambda>_. ()"]] by auto
  have "sd_tables (gw_db w2) = tb" using w2(2) by (simp add: at_def)
  then show ?thesis using w1 w2(1) visit_rows_at [OF w2(2), of "sort_key gr_id (tb_games tb)" "[]"]
    by (auto simp: store_replay_def for_each_replay_game_def)
qed

section \<open>The positions of a game\<close>

definition board_after :: "'b board_ops \<Rightarrow> u16 list \<Rightarrow> 'b" where
  "board_after ops moves = foldl (bo_apply ops) (bo_initial ops) moves"

definition reaches :: "'b board_ops \<Rightarrow> u64 \<Rightarrow> u16 list \<Rightarrow> bool" where
  "reaches ops hash moves \<longleftrightarrow> list_ex (\<lambda>k. bo_hash ops (board_after ops (take k moves)) = hash) [0..<length moves + 1]"

lemma replay_moves_hashes:
  "replay_moves ops game we be index board moves = Some rows \<Longrightarrow>
     map pr_zobrist_hash rows = map (\<lambda>k. bo_hash ops (foldl (bo_apply ops) board (take (k + 1) moves))) [0..<length moves]"
proof (induction moves arbitrary: index board rows)
  case (Cons m moves)
  then show ?case
    by (auto simp: Let_def replay_row_def upt_conv_Cons map_Suc_upt [symmetric] simp del: upt_Suc split: if_splits)
qed simp

lemma replay_rows_hashes:
  assumes "replay_rows ops game = Some rows"
  shows "(\<exists>row \<in> set rows. pr_zobrist_hash row = hash) \<longleftrightarrow> reaches ops hash (rg_moves game)"
proof -
  obtain we be rest where r: "replay_moves ops game we be 0 (bo_initial ops) (rg_moves game) = Some rest"
      and rows: "rows = replay_row ops game we be (bo_initial ops) 0 0 # rest"
    using assms by (auto simp: replay_rows_def split: sum.splits)
  have "map pr_zobrist_hash rows = map (\<lambda>k. bo_hash ops (board_after ops (take k (rg_moves game)))) [0..<length (rg_moves game) + 1]"
    using replay_moves_hashes [OF r]
    by (simp add: rows replay_row_def board_after_def upt_conv_Cons map_Suc_upt [symmetric] del: upt_Suc)
  then have "pr_zobrist_hash ` set rows = (\<lambda>k. bo_hash ops (board_after ops (take k (rg_moves game)))) ` set [0..<length (rg_moves game) + 1]"
    by (metis set_map)
  then show ?thesis unfolding reaches_def list_ex_iff by (metis (mono_tags, lifting) imageE imageI)
qed

lemma replay_games_replayable:
  "replay_games ops games ending n fs pp = (Inr u, v) \<Longrightarrow> game \<in> set games \<Longrightarrow> \<exists>rows. replay_rows ops game = Some rows"
proof (induction games arbitrary: n fs pp)
  case (Cons g games)
  then show ?case by (auto split: option.splits prod.splits sum.splits)
qed simp

lemma build_replayable:
  assumes "build front ops store path threshold fs = (Inr metrics, fs')" and "game \<in> set (rs_games store)"
  shows "\<exists>rows. replay_rows ops game = Some rows"
proof -
  obtain n pp0 u v where "replay_games ops (rs_games store) (rs_end store) n fs pp0 = (Inr u, v)"
    using assms(1) by (auto simp: build_def Let_def split: sum.splits prod.splits if_splits)
  then show ?thesis using assms(2) by (rule replay_games_replayable)
qed

lemma row_games_reaches:
  assumes "build front ops store path threshold fs = (Inr metrics, fs')"
  shows "set (row_games (store_rows ops store) hash) = rg_id ` {game \<in> set (rs_games store). reaches ops hash (rg_moves game)}"
proof -
  have game: "pr_game_id ` {row \<in> set (the (replay_rows ops game)). pr_zobrist_hash row = hash}
      = (if reaches ops hash (rg_moves game) then {rg_id game} else {})" if m: "game \<in> set (rs_games store)" for game
  proof -
    obtain rows where r: "replay_rows ops game = Some rows" using build_replayable [OF assms m] by blast
    show ?thesis using replay_rows_hashes [OF r, of hash] replay_rows_rows(2) [OF r] by (auto simp: r image_iff)
  qed
  have "set (row_games (store_rows ops store) hash)
      = (\<Union>game \<in> set (rs_games store). pr_game_id ` {row \<in> set (the (replay_rows ops game)). pr_zobrist_hash row = hash})"
    by (auto simp: row_games_def hash_rows_def store_rows_def image_iff)
  also have "\<dots> = (\<Union>game \<in> set (rs_games store). if reaches ops hash (rg_moves game) then {rg_id game} else {})"
    using game by simp
  also have "\<dots> = rg_id ` {game \<in> set (rs_games store). reaches ops hash (rg_moves game)}" by auto
  finally show ?thesis .
qed

section \<open>Properties\<close>

text \<open>
  Whichever statement fails, \<open>build\<close> sees of the store what its two reads deliver: running \<open>for_each_replay_game\<close> with the
  callback of \<open>build\<close> gives the error, the game count, the files and the index of the replay over the collected rows.\<close>
theorem build_sees_iteration:
  "\<exists>w'. for_each_replay_game (replay_callback ops) (replayed, fs, pp) (snd (count_stored_games w))
     = (case replay_games ops (rs_games (store_replay w)) (rs_end (store_replay w)) replayed fs pp of (r, v) \<Rightarrow> (r, v, w'))"
proof -
  obtain ending games w1 where
    "for_each_replay_game (\<lambda>game games. (Inr (), games @ [game])) [] (snd (count_stored_games w)) = (ending, games, w1)"
    by (metis prod_cases3)
  from for_each_replay_games [OF this, of ops "(replayed, fs, pp)"] this show ?thesis
    by (auto simp: store_replay_def split: prod.splits)
qed

lemma index_reaches:
  assumes "store_ready s" and "list_all (\<lambda>r. gr_id r < 2 ^ 32) (tb_games (gs_tables s))"
    and "build front ops (store_replay (gs_self s)) path threshold fs = (Inr metrics, fs')"
  shows "key \<in> set (row_games (store_rows ops (store_replay (gs_self s))) hash)
     \<longleftrightarrow> (\<exists>g. stored_game (gs_tables s) key = Some g \<and> reaches ops hash (dg_moves g))"
proof -
  let ?tb = "gs_tables s"
  note wf = ready_wf [OF assms(1)]
  have of_nat_key: "key = of_nat i \<longleftrightarrow> i = unat key" if "i < 2 ^ 32" for i
    using that by (auto simp: unsigned_of_nat take_bit_nat_eq_self)
  have "key \<in> set (row_games (store_rows ops (store_replay (gs_self s))) hash)
      \<longleftrightarrow> (\<exists>r \<in> set (tb_games ?tb). key = of_nat (gr_id r) \<and> reaches ops hash (gr_moves r))"
    unfolding row_games_reaches [OF assms(3)] by (auto simp: store_replay_at [OF ready_at [OF assms(1)]] replay_record_def image_iff)
  also have "\<dots> \<longleftrightarrow> (\<exists>r \<in> set (tb_games ?tb). gr_id r = unat key \<and> reaches ops hash (gr_moves r))"
    using assms(2) of_nat_key by (auto simp: list_all_iff)
  also have "\<dots> \<longleftrightarrow> (\<exists>g. stored_game ?tb key = Some g \<and> reaches ops hash (dg_moves g))"
  proof (cases "find (\<lambda>r. gr_id r = unat key) (tb_games ?tb)")
    case None
    then show ?thesis using stored_game_None [OF wf, of key] by (auto simp: find_None_iff)
  next
    case (Some r)
    note r = find_row [OF Some]
    obtain w b e where j: "join_game ?tb r = Some (r, w, b, e)" using join_game_total [OF wf] r by blast
    have "q = r" if "q \<in> set (tb_games ?tb)" "gr_id q = unat key" for q using find_id [OF wf that(1)] that(2) Some by simp
    then show ?thesis using stored_game_row [OF wf _ _ j, of key] r by auto
  qed
  finally show ?thesis .
qed

text \<open>
  C3: An index built from a store finds its games: once \<open>build\<close> over a store that works has reported success, the artifact opens
  and \<open>distinct_game_ids\<close> lists for every hash, ascending and without repetition, the ids for which \<open>get\<close> returns a game that
  has the hash after some number of its moves. The ids have to fit their 32 bits and the rows the 32-bit counters of the format.\<close>
theorem index_finds_stored_games:
  fixes front :: "posting_cursor list \<Rightarrow> nat list \<Rightarrow> nat"
  assumes "store_reachable xxh3 s" and "sd_reliable (gw_db (gs_self s))"
    and "list_all (\<lambda>r. gr_id r < 2 ^ 32) (tb_games (sd_tables (gw_db (gs_self s))))"
    and "heap_front front pc_current" and "build front ops (store_replay (gs_self s)) path threshold fs = (Inr metrics, fs')"
    and "length (store_rows ops (store_replay (gs_self s))) < 2 ^ 32" and "\<not> fs_fault fs (Open_Read path)"
  shows "\<exists>pp. postings_open fs' (new_postings path threshold') = (Inr (), pp)
     \<and> (\<forall>hash. \<exists>keys. distinct_game_ids fs' pp hash = Inr keys \<and> sorted_wrt (<) keys
          \<and> (\<forall>key. key \<in> set keys \<longleftrightarrow> (\<exists>g. fst (via_self (store_get key) s) = Inr g \<and> reaches ops hash (dg_moves g))))"
proof -
  have s: "store_ready s" by (rule store_reachable_ready [OF assms(1,2)])
  let ?rows = "store_rows ops (store_replay (gs_self s))"
  obtain pp where pp: "postings_open fs' (new_postings path threshold') = (Inr (), pp)" "reader_represents (fs', pp) ?rows"
    using build_opens [OF assms(4-7)] by blast
  have "distinct_game_ids fs' pp hash = Inr (row_games ?rows hash)" for hash using artifact_reader.ids_rows [OF pp(2)] by simp
  moreover have "sorted_wrt (<) (row_games ?rows hash)" for hash by (simp add: row_games_def strict_sorted_iff)
  moreover have "key \<in> set (row_games ?rows hash) \<longleftrightarrow> (\<exists>g. fst (via_self (store_get key) s) = Inr g \<and> reaches ops hash (dg_moves g))" for key hash
    unfolding index_reaches [OF s assms(3) assms(5)] get_ready [OF s] by (auto split: option.splits)
  ultimately show ?thesis using pp(1) by blast
qed

section \<open>A run\<close>

lemma two_games_replay:
  "store_replay (gs_self two_game_store) = \<lparr>rs_count = Inr 2, rs_games =
     [\<lparr>rg_id = 1, rg_result = ''1-0'', rg_white_elo = Some 2100, rg_black_elo = Some 2100, rg_moves = [1]\<rparr>,
      \<lparr>rg_id = 2, rg_result = ''0-1'', rg_white_elo = Some 2100, rg_black_elo = Some 2100, rg_moves = [1]\<rparr>], rs_end = Inr ()\<rparr>"
  by code_simp

theorem index_finds_stored_games_witness:
  "\<exists>metrics fs' pp keys. build (heap_min pc_current) demo_ops (store_replay (gs_self two_game_store)) ''a'' 3 demo_disk = (Inr metrics, fs')
     \<and> postings_open fs' (new_postings ''a'' 1) = (Inr (), pp) \<and> distinct_game_ids fs' pp 71 = Inr keys \<and> 1 \<in> set keys"
proof -
  let ?store = "store_replay (gs_self two_game_store)"
  have rows: "length (store_rows demo_ops ?store) < 2 ^ 32"
    by (simp add: two_games_replay store_rows_def demo_ops_def replay_rows_def narrow_elo_def Let_def)
  have "map gr_id (tb_games (sd_tables (gw_db (gs_self two_game_store)))) = [1, 2]" by code_simp
  then have ids: "list_all (\<lambda>r. gr_id r < 2 ^ 32) (tb_games (sd_tables (gw_db (gs_self two_game_store))))" by (auto simp: map_eq_Cons_conv)
  have "\<exists>metrics fs'. build (heap_min pc_current) demo_ops ?store ''a'' 3 demo_disk = (Inr metrics, fs')"
    by (rule build_total [OF heap_min.heap_front_axioms demo_premises(1), where n = 2])
      (use rows in \<open>simp_all add: two_games_replay replayable_def narrow_elo_def\<close>)
  then obtain metrics fs' where b: "build (heap_min pc_current) demo_ops ?store ''a'' 3 demo_disk = (Inr metrics, fs')" by blast
  have f: "\<not> fs_fault demo_disk (Open_Read ''a'')" by (simp add: demo_disk_def)
  obtain pp keys where pp: "postings_open fs' (new_postings ''a'' 1) = (Inr (), pp)" "distinct_game_ids fs' pp 71 = Inr keys"
    "1 \<in> set keys \<longleftrightarrow> (\<exists>g. fst (via_self (store_get 1) two_game_store) = Inr g \<and> reaches demo_ops 71 (dg_moves g))"
    using index_finds_stored_games [OF demo_reachable(3) demo_reliable(3) ids heap_min.heap_front_axioms b rows f, of 1] by blast
  have "fst (via_self (store_get 1) two_game_store) = Inr manual_game" "reaches demo_ops 71 (dg_moves manual_game)" by code_simp+
  then show ?thesis using b pp by blast
qed

end
