(* ===== verification/Manifest.thy ===== *)
theory Manifest
  imports Db_Types "HOL-Library.Sublist"
begin

text \<open>
  \<open>db/manifest.cpp\<close>: the JSON file of a database bundle, replaced by writing a temporary file, syncing it, renaming it and
  syncing the directory. The JSON library is the parameter \<open>json\<close>. The disk is the file system a process sees together with
  what the directory is known to hold after the last sync of it that worked: when the machine stops, either may be found.
\<close>

section \<open>Types\<close>

record derived_index_manifest_entry =
  de_filename :: string
  de_source_generation :: u64
  de_game_count :: u64
  de_file_size :: u64
  de_checksum :: u64

record db_manifest =
  mf_name :: string
  mf_schema_version :: u32
  mf_game_count :: u64
  mf_created_at :: string
  mf_position_index_dirty :: bool
  mf_source_generation :: u64
  mf_derived_index_build_seq :: u64
  mf_position_postings :: "derived_index_manifest_entry option"
  mf_opening_tree_index :: "derived_index_manifest_entry option"

datatype manifest_write_state = Not_Published | Published | Published_Not_Durable

fun was_published :: "manifest_write_state \<Rightarrow> bool" where
  "was_published Not_Published = False"
| "was_published Published = True"
| "was_published Published_Not_Durable = True"

record manifest_codec =
  mj_write :: "db_manifest \<Rightarrow> bytes option"
  mj_read :: "bytes \<Rightarrow> db_manifest option"

text \<open>What is relied on of the library: it reads back what it wrote.\<close>
definition manifest_faithful :: "manifest_codec \<Rightarrow> bool" where
  "manifest_faithful json \<longleftrightarrow> (\<forall>m bs. mj_write json m = Some bs \<longrightarrow> mj_read json bs = Some m)"

record disk =
  dk_fs :: filesystem
  dk_synced :: "path \<Rightarrow> bytes option"

section \<open>Operations\<close>

definition in_dir :: "path \<Rightarrow> string \<Rightarrow> path" where
  "in_dir dir name = dir @ ''/'' @ name"

definition manifest_path :: "path \<Rightarrow> path" where
  "manifest_path dir = in_dir dir ''manifest.json''"

definition manifest_temp_path :: "path \<Rightarrow> path" where
  "manifest_temp_path dir = manifest_path dir @ ''.tmp''"

definition make_manifest :: "u32 \<Rightarrow> string \<Rightarrow> string \<Rightarrow> db_manifest" where
  "make_manifest current_version now name =
     \<lparr>mf_name = name, mf_schema_version = current_version, mf_game_count = 0, mf_created_at = now,
      mf_position_index_dirty = False, mf_source_generation = 0, mf_derived_index_build_seq = 0, mf_position_postings = None,
      mf_opening_tree_index = None\<rparr>"

text \<open>\<open>sync_path\<close> of a file and of the directory.\<close>
definition sync_file_path :: "path \<Rightarrow> filesystem \<Rightarrow> bool" where
  "sync_file_path p fs \<longleftrightarrow> fs_files fs p \<noteq> None \<and> \<not> fs_fault fs (Sync p)"

definition sync_directory :: "path \<Rightarrow> disk \<Rightarrow> bool \<times> disk" where
  "sync_directory dir d =
     (if fs_fault (dk_fs d) (Sync dir) then (False, d) else (True, d\<lparr>dk_synced := fs_files (dk_fs d)\<rparr>))"

definition write_manifest :: "manifest_codec \<Rightarrow> path \<Rightarrow> db_manifest \<Rightarrow> disk \<Rightarrow> manifest_write_state \<times> disk" where
  "write_manifest json dir manifest d =
     (case mj_write json manifest of
        None \<Rightarrow> (Not_Published, d)
      | Some buffer \<Rightarrow>
          let temp_path = manifest_temp_path dir in
          (case ofstream_open temp_path (dk_fs d) of
             (None, fs) \<Rightarrow> (Not_Published, d\<lparr>dk_fs := fs\<rparr>)
           | (Some file, fs) \<Rightarrow>
               let file = ofstream_write buffer file in
               if \<not> os_ok file then (Not_Published, d\<lparr>dk_fs := snd (ofstream_close file fs)\<rparr>)
               else case ofstream_close file fs of
                   (False, fs) \<Rightarrow> (Not_Published, d\<lparr>dk_fs := fs\<rparr>)
                 | (True, fs) \<Rightarrow>
                     (if \<not> sync_file_path temp_path fs then (Not_Published, d\<lparr>dk_fs := fs_discard temp_path fs\<rparr>)
                      else case fs_rename temp_path (manifest_path dir) fs of
                          (False, fs) \<Rightarrow> (Not_Published, d\<lparr>dk_fs := fs_discard temp_path fs\<rparr>)
                        | (True, fs) \<Rightarrow>
                            (case sync_directory dir (d\<lparr>dk_fs := fs\<rparr>) of
                               (False, d) \<Rightarrow> (Published_Not_Durable, d)
                             | (True, d) \<Rightarrow> (Published, d)))))"

definition valid_artifact_name :: "derived_index_manifest_entry option \<Rightarrow> string \<Rightarrow> bool" where
  "valid_artifact_name entry prefix_name =
     (case entry of
        None \<Rightarrow> True
      | Some e \<Rightarrow> de_filename e \<noteq> [] \<and> CHR ''/'' \<notin> set (de_filename e) \<and> prefix prefix_name (de_filename e))"

definition read_manifest :: "manifest_codec \<Rightarrow> path \<Rightarrow> filesystem \<Rightarrow> db_manifest result" where
  "read_manifest json dir fs =
     (if fs_files fs (manifest_path dir) = None then unexpected Not_Found
      else case ifstream_open (manifest_path dir) fs of
          None \<Rightarrow> unexpected Io_Failure
        | Some file \<Rightarrow>
            (case mj_read json (is_data file) of
               None \<Rightarrow> unexpected Io_Failure
             | Some parsed \<Rightarrow>
                 (if \<not> valid_artifact_name (mf_position_postings parsed) ''positions.postings''
                     \<or> \<not> valid_artifact_name (mf_opening_tree_index parsed) ''opening_tree.idx''
                  then unexpected Schema_Mismatch else Inr parsed)))"

section \<open>What a write leaves\<close>

lemma manifest_paths [simp]: "manifest_temp_path d \<noteq> manifest_path d" "manifest_path d \<noteq> manifest_temp_path d"
  by (simp_all add: manifest_temp_path_def)

lemma in_dir_inject [simp]: "in_dir d a = in_dir d b \<longleftrightarrow> a = b"
  by (simp add: in_dir_def)

lemma os_write_path [simp]: "os_path (ofstream_write bs os) = os_path os"
  by (simp add: ofstream_write_def)

text \<open>A write changes the manifest and its temporary file only.\<close>
lemma write_manifest_frame:
  assumes "write_manifest json dir m d = (st, d')" and "q \<noteq> manifest_path dir" and "q \<noteq> manifest_temp_path dir"
  shows "fs_files (dk_fs d') q = fs_files (dk_fs d) q"
  using assms
  by (auto simp: write_manifest_def ofstream_open_def ofstream_close_def fs_rename_def fs_discard_def fs_remove_def Let_def
      sync_directory_def split: option.splits if_splits bool.splits)

lemma write_manifest_device:
  "write_manifest json dir m d = (st, d') \<Longrightarrow> fs_fault (dk_fs d') = fs_fault (dk_fs d) \<and> fs_quota (dk_fs d') = fs_quota (dk_fs d)"
  by (auto simp: write_manifest_def ofstream_open_def ofstream_close_def fs_rename_def fs_discard_def fs_remove_def Let_def
      sync_directory_def split: option.splits if_splits bool.splits)

lemma write_manifest_kept:
  assumes "write_manifest json dir m d = (st, d')" and "\<not> was_published st"
  shows "fs_files (dk_fs d') (manifest_path dir) = fs_files (dk_fs d) (manifest_path dir)" and "dk_synced d' = dk_synced d"
  using assms
  by (auto simp: write_manifest_def ofstream_open_def ofstream_close_def fs_rename_def fs_discard_def fs_remove_def Let_def
      sync_directory_def split: option.splits if_splits bool.splits)

lemma write_manifest_published:
  assumes "write_manifest json dir m d = (st, d')" and "was_published st"
  shows "\<exists>bs. mj_write json m = Some bs \<and> fs_files (dk_fs d') (manifest_path dir) = Some bs"
    and "dk_synced d' = (if st = Published then fs_files (dk_fs d') else dk_synced d)"
    and "st = Published \<longleftrightarrow> \<not> fs_fault (dk_fs d) (Sync dir)"
  using assms
  by (auto simp: write_manifest_def ofstream_open_def ofstream_close_def ofstream_write_def fs_rename_def fs_discard_def fs_remove_def
      Let_def sync_directory_def split: option.splits if_splits bool.splits)

end
