(* ===== verification/Database_Manager.thy ===== *)
theory Database_Manager
  imports Store_Index Manifest
begin

text \<open>
  \<open>db/database_manager.cpp\<close>: a bundle of a SQLite database, a manifest and the position index built from the database. The
  state has the game store, the manifest in memory, the directory, the opened index and the disk. A mutation of the database
  first writes a manifest without index entries; an index is built beside the published one and published by the manifest.

  Left out: the opening tree index (its manifest entry and its file are here), the bulk writer that the import uses, locks,
  and of \<open>create\<close> and \<open>open\<close> the steps before the connection is open.
\<close>

section \<open>State\<close>

text \<open>The libraries a manager uses: JSON, XXH3, the board and the heap of the merge; SQLite's limit of parameters.\<close>
record 'board manager_env =
  me_json :: manifest_codec
  me_xxh3 :: "u16 list \<Rightarrow> u64"
  me_board :: "'board board_ops"
  me_front :: "posting_cursor list \<Rightarrow> nat list \<Rightarrow> nat"
  me_max_params :: nat

record database_manager =
  dm_store :: "game_store option"
  dm_manifest :: db_manifest
  dm_dir :: path
  dm_postings :: "position_postings option"
  dm_disk :: disk

abbreviation dm_fs :: "database_manager \<Rightarrow> filesystem" where
  "dm_fs dm \<equiv> dk_fs (dm_disk dm)"

definition set_fs :: "filesystem \<Rightarrow> database_manager \<Rightarrow> database_manager" where
  "set_fs fs dm = dm\<lparr>dm_disk := (dm_disk dm)\<lparr>dk_fs := fs\<rparr>\<rparr>"

definition dm_discard :: "path \<Rightarrow> database_manager \<Rightarrow> database_manager" where
  "dm_discard p dm = set_fs (fs_discard p (dm_fs dm)) dm"

text \<open>An operation of the store, when there is one.\<close>
definition with_store :: "(game_store \<Rightarrow> 'a result \<times> game_store) \<Rightarrow> database_manager \<Rightarrow> 'a result \<times> database_manager" where
  "with_store m dm =
     (case dm_store dm of
        None \<Rightarrow> (unexpected Io_Failure, dm)
      | Some s \<Rightarrow> (case m s of (r, s) \<Rightarrow> (r, dm\<lparr>dm_store := Some s\<rparr>)))"

section \<open>Checksums\<close>

definition fnv1a :: "bytes \<Rightarrow> u64" where
  "fnv1a bs = foldl (\<lambda>checksum byte. (checksum XOR ucast byte) * 1099511628211) 14695981039346656037 bs"

definition file_checksum :: "path \<Rightarrow> filesystem \<Rightarrow> (u64 \<times> u64) result" where
  "file_checksum p fs =
     (case fs_file_size p fs of
        None \<Rightarrow> unexpected Io_Failure
      | Some file_size \<Rightarrow>
          (case ifstream_open p fs of
             None \<Rightarrow> unexpected Io_Failure
           | Some input \<Rightarrow> Inr (file_size, fnv1a (is_data input))))"

definition artifact_matches_manifest :: "path \<Rightarrow> derived_index_manifest_entry \<Rightarrow> filesystem \<Rightarrow> bool" where
  "artifact_matches_manifest dir index_entry fs = (file_checksum (in_dir dir (de_filename index_entry)) fs = Inr (de_file_size index_entry, de_checksum index_entry))"

section \<open>Validity of the index\<close>

definition has_valid_derived_index :: "derived_index_manifest_entry \<Rightarrow> database_manager \<Rightarrow> bool" where
  "has_valid_derived_index index_entry dm \<longleftrightarrow> dm_dir dm \<noteq> [] \<and> de_source_generation index_entry = mf_source_generation (dm_manifest dm)"

definition valid_postings :: "database_manager \<Rightarrow> position_postings option" where
  "valid_postings dm =
     (case (dm_postings dm, mf_position_postings (dm_manifest dm)) of
        (Some pp, Some index_entry) \<Rightarrow> (if has_valid_derived_index index_entry dm then Some pp else None)
      | _ \<Rightarrow> None)"

text \<open>The check every query makes: the index is valid and has as many games as the database, else \<open>err\<close>.\<close>
definition checked_postings :: "error_code \<Rightarrow> database_manager \<Rightarrow> position_postings result \<times> database_manager" where
  "checked_postings err dm =
     (case valid_postings dm of
        None \<Rightarrow> (unexpected err, dm)
      | Some pp \<Rightarrow>
          (case with_store (via_self count_stored_games) dm of
             (Inl _, dm) \<Rightarrow> (unexpected err, dm)
           | (Inr n, dm) \<Rightarrow> (if of_nat n \<noteq> pp_indexed_game_count pp then unexpected err else Inr pp, dm)))"

definition postings_cover_canonical_games :: "database_manager \<Rightarrow> bool \<times> database_manager" where
  "postings_cover_canonical_games dm =
     (case checked_postings Io_Failure dm of (Inl _, dm) \<Rightarrow> (False, dm) | (Inr _, dm) \<Rightarrow> (True, dm))"

section \<open>Invalidation\<close>

text \<open>An error of the write is reported only after the readers and the files are gone.\<close>
definition mark_derived_indexes_stale :: "'b manager_env \<Rightarrow> database_manager \<Rightarrow> unit result \<times> database_manager" where
  "mark_derived_indexes_stale env dm =
     (if dm_dir dm = [] then (Inr (), dm)
      else
        let stale_postings = mf_position_postings (dm_manifest dm); stale_tree = mf_opening_tree_index (dm_manifest dm);
            candidate = (dm_manifest dm)\<lparr>mf_source_generation := mf_source_generation (dm_manifest dm) + 1,
              mf_position_postings := None, mf_opening_tree_index := None\<rparr> in
        case write_manifest (me_json env) (dm_dir dm) candidate (dm_disk dm) of
          (state, d) \<Rightarrow>
            (if \<not> was_published state then (unexpected Io_Failure, dm\<lparr>dm_disk := d\<rparr>)
             else
               let dm = dm\<lparr>dm_disk := d, dm_manifest := candidate, dm_postings := None\<rparr>;
                   dm = (case stale_postings of None \<Rightarrow> dm | Some e \<Rightarrow> dm_discard (in_dir (dm_dir dm) (de_filename e)) dm);
                   dm = (case stale_tree of None \<Rightarrow> dm | Some e \<Rightarrow> dm_discard (in_dir (dm_dir dm) (de_filename e)) dm) in
               (if state \<noteq> Published then unexpected Io_Failure else Inr (), dm)))"

definition prepare_canonical_mutation :: "'b manager_env \<Rightarrow> database_manager \<Rightarrow> unit result \<times> database_manager" where
  "prepare_canonical_mutation env dm =
     (if mf_position_postings (dm_manifest dm) = None \<and> mf_opening_tree_index (dm_manifest dm) = None then (Inr (), dm)
      else mark_derived_indexes_stale env dm)"

section \<open>Publication\<close>

definition publish_derived_index ::
  "'b manager_env \<Rightarrow> string \<Rightarrow> bool \<Rightarrow> u64 \<Rightarrow> database_manager \<Rightarrow> manifest_write_state \<times> database_manager" where
  "publish_derived_index env filename is_postings next_build_seq dm =
     (let p = in_dir (dm_dir dm) filename in
      if \<not> sync_file_path p (dm_fs dm) then (Not_Published, dm)
      else case file_checksum p (dm_fs dm) of
          Inl _ \<Rightarrow> (Not_Published, dm)
        | Inr (file_size, checksum) \<Rightarrow>
            (case with_store (via_self count_stored_games) dm of
               (Inl _, dm) \<Rightarrow> (Not_Published, dm)
             | (Inr n, dm) \<Rightarrow>
                 let index_entry = \<lparr>de_filename = filename, de_source_generation = mf_source_generation (dm_manifest dm),
                       de_game_count = of_nat n, de_file_size = file_size, de_checksum = checksum\<rparr>;
                     candidate = (dm_manifest dm)\<lparr>mf_derived_index_build_seq := next_build_seq\<rparr>;
                     candidate = (if is_postings then candidate\<lparr>mf_position_postings := Some index_entry\<rparr>
                       else candidate\<lparr>mf_opening_tree_index := Some index_entry\<rparr>) in
                 case write_manifest (me_json env) (dm_dir dm) candidate (dm_disk dm) of
                   (state, d) \<Rightarrow>
                     (state, if was_published state then dm\<lparr>dm_disk := d, dm_manifest := candidate\<rparr> else dm\<lparr>dm_disk := d\<rparr>)))"

definition postings_filename :: "u64 \<Rightarrow> string" where
  "postings_filename build_seq = ''positions.postings.'' @ nat_to_string (unat build_seq)"

text \<open>The reads of the store that \<open>build\<close> makes only advance the number of statements run.\<close>
definition after_replay :: "game_writer \<Rightarrow> game_writer" where
  "after_replay w =
     (case for_each_replay_game (\<lambda>game games. (Inr (), games @ [game])) [] (snd (count_stored_games w)) of (_, _, w) \<Rightarrow> w)"

definition build_postings ::
  "'b manager_env \<Rightarrow> path \<Rightarrow> database_manager \<Rightarrow> build_metrics result \<times> database_manager" where
  "build_postings env p dm =
     (case dm_store dm of
        None \<Rightarrow> (unexpected Invalid_Argument, dm)
      | Some s \<Rightarrow>
          (case build (me_front env) (me_board env) (store_replay (gs_self s)) p default_spill_threshold (dm_fs dm) of
             (r, fs) \<Rightarrow> (r, set_fs fs (dm\<lparr>dm_store := Some (snd (via_self (\<lambda>w. ((), after_replay w)) s))\<rparr>))))"

text \<open>Builds beside the published index, opens the copy, renames it, opens it again, publishes it and only then removes the old one.\<close>
definition rebuild_position_postings :: "'b manager_env \<Rightarrow> database_manager \<Rightarrow> unit result \<times> database_manager" where
  "rebuild_position_postings env dm =
     (if dm_dir dm = [] \<or> dm_store dm = None then (unexpected Invalid_Argument, dm)
      else
        let build_seq = mf_derived_index_build_seq (dm_manifest dm);
            new_filename = postings_filename build_seq;
            new_path = in_dir (dm_dir dm) new_filename;
            staging_path = in_dir (dm_dir dm) (new_filename @ ''.building'');
            dm = dm_discard new_path (dm_discard staging_path dm) in
        case build_postings env staging_path dm of
          (Inl err, dm) \<Rightarrow> (Inl err, dm_discard staging_path dm)
        | (Inr _, dm) \<Rightarrow>
            (case postings_open (dm_fs dm) (new_postings staging_path default_spill_threshold) of
               (Inl err, _) \<Rightarrow> (Inl err, dm_discard staging_path dm)
             | (Inr _, _) \<Rightarrow>
                 (case fs_rename staging_path new_path (dm_fs dm) of
                    (False, fs) \<Rightarrow> (unexpected Io_Failure, dm_discard staging_path (set_fs fs dm))
                  | (True, fs) \<Rightarrow>
                      let dm = set_fs fs dm in
                      case postings_open (dm_fs dm) (new_postings new_path default_spill_threshold) of
                        (Inl err, _) \<Rightarrow> (Inl err, dm_discard new_path dm)
                      | (Inr _, live_reader) \<Rightarrow>
                          let previous_entry = mf_position_postings (dm_manifest dm) in
                          (case publish_derived_index env new_filename True (build_seq + 1) dm of
                             (state, dm) \<Rightarrow>
                               if \<not> was_published state then (unexpected Io_Failure, dm_discard new_path dm)
                               else
                                 let dm = dm\<lparr>dm_postings := Some live_reader\<rparr> in
                                 if state \<noteq> Published then (unexpected Io_Failure, dm)
                                 else
                                   (Inr (),
                                    case previous_entry of
                                      None \<Rightarrow> dm
                                    | Some e \<Rightarrow>
                                        if de_filename e = new_filename then dm
                                        else dm_discard (in_dir (dm_dir dm) (de_filename e)) dm)))))"

section \<open>Mutations\<close>

definition insert_game :: "'b manager_env \<Rightarrow> db_game \<Rightarrow> database_manager \<Rightarrow> u32 result \<times> database_manager" where
  "insert_game env src_game dm =
     (if dm_store dm = None then (unexpected Io_Failure, dm)
      else and_then (prepare_canonical_mutation env) (\<lambda>_. with_store (gs_insert (me_xxh3 env) src_game)) dm)"

definition set_manual_game_provenance ::
  "u32 \<Rightarrow> string option \<Rightarrow> string \<Rightarrow> database_manager \<Rightarrow> unit result \<times> database_manager" where
  "set_manual_game_provenance game_key source_label review_status =
     with_store (via_self (set_manual_provenance game_key source_label review_status))"

definition patch_game_metadata :: "'b manager_env \<Rightarrow> u32 \<Rightarrow> game_patch \<Rightarrow> database_manager \<Rightarrow> unit result \<times> database_manager" where
  "patch_game_metadata env game_key patch dm =
     (if dm_store dm = None then (unexpected Io_Failure, dm)
      else case narrow_elo (gq_white_elo patch) of
          Inl err \<Rightarrow> (Inl err, dm)
        | Inr new_white \<Rightarrow>
            (case narrow_elo (gq_black_elo patch) of
               Inl err \<Rightarrow> (Inl err, dm)
             | Inr new_black \<Rightarrow>
                 and_then
                   (if new_white \<noteq> None \<or> new_black \<noteq> None \<or> gq_result patch \<noteq> None then prepare_canonical_mutation env
                    else return (Inr ()))
                   (\<lambda>_. with_store (via_self (patch_metadata game_key patch))) dm))"

definition remove_game :: "'b manager_env \<Rightarrow> u32 \<Rightarrow> database_manager \<Rightarrow> unit result \<times> database_manager" where
  "remove_game env game_key dm =
     (if dm_store dm = None then (unexpected Io_Failure, dm)
      else and_then (prepare_canonical_mutation env) (\<lambda>_. with_store (via_self (store_remove game_key))) dm)"

definition remove_user_game :: "'b manager_env \<Rightarrow> u32 \<Rightarrow> database_manager \<Rightarrow> unit result \<times> database_manager" where
  "remove_user_game env game_key =
     and_then (with_store (via_self (get_provenance game_key))) (\<lambda>provenance.
       if gp_source_type provenance \<noteq> ''manual'' then return (unexpected Not_Editable) else remove_game env game_key)"

section \<open>Queries\<close>

text \<open>A query of the checked index.\<close>
definition query_postings ::
  "(filesystem \<Rightarrow> position_postings \<Rightarrow> 'a result) \<Rightarrow> database_manager \<Rightarrow> 'a result \<times> database_manager" where
  "query_postings ask dm =
     (if dm_store dm = None then (unexpected Io_Failure, dm)
      else case checked_postings Io_Failure dm of (Inl err, dm) \<Rightarrow> (Inl err, dm) | (Inr pp, dm) \<Rightarrow> (ask (dm_fs dm) pp, dm))"

definition query_position_matches ::
  "u64 \<Rightarrow> nat \<Rightarrow> nat \<Rightarrow> database_manager \<Rightarrow> position_match list result \<times> database_manager" where
  "query_position_matches hash limit offset = query_postings (\<lambda>fs pp. occurrences fs pp hash limit offset)"

definition query_position_first_matches ::
  "u64 \<Rightarrow> u32 list \<Rightarrow> database_manager \<Rightarrow> position_match list result \<times> database_manager" where
  "query_position_first_matches hash game_ids = query_postings (\<lambda>fs pp. first_occurrences fs pp hash game_ids)"

definition position_game_ids :: "u64 \<Rightarrow> database_manager \<Rightarrow> u32 list result \<times> database_manager" where
  "position_game_ids hash = query_postings (\<lambda>fs pp. distinct_game_ids fs pp hash)"

text \<open>Without a valid index there is no summary, which is not an error.\<close>
definition position_summary :: "u64 \<Rightarrow> database_manager \<Rightarrow> postings_summary option result \<times> database_manager" where
  "position_summary hash dm =
     (if dm_store dm = None then (unexpected Io_Failure, dm)
      else case checked_postings Io_Failure dm of
          (Inl _, dm) \<Rightarrow> (Inr None, dm)
        | (Inr pp, dm) \<Rightarrow> (postings_summary_of (dm_fs dm) pp hash, dm))"

text \<open>A search with a position: one page of ids when the order is the one of the index, else all of its ids.\<close>
definition manager_find_games :: "'b manager_env \<Rightarrow> search_filter \<Rightarrow> database_manager \<Rightarrow> game_list_result result \<times> database_manager" where
  "manager_find_games env f dm =
     (if dm_store dm = None then (unexpected Io_Failure, dm)
      else case sf_position f of
          None \<Rightarrow> with_store (via_self (find_games f)) dm
        | Some hash \<Rightarrow>
            (case checked_postings Io_Failure dm of
               (Inl err, dm) \<Rightarrow> (Inl err, dm)
             | (Inr pp, dm) \<Rightarrow>
                 (if \<not> has_metadata_filter f \<and> sf_sort_column f = Sort_Id \<and> sf_sort_ascending f
                  then case postings_summary_of (dm_fs dm) pp hash of
                      Inl err \<Rightarrow> (Inl err, dm)
                    | Inr None \<Rightarrow> (Inr \<lparr>gl_games = [], gl_total_count = 0\<rparr>, dm)
                    | Inr (Some summary) \<Rightarrow>
                        (case distinct_game_ids_page (dm_fs dm) pp hash (unat (sf_limit f)) (unat (sf_offset f)) of
                           Inl err \<Rightarrow> (Inl err, dm)
                         | Inr page_game_ids \<Rightarrow>
                             and_then
                               (with_store (via_self (find_games_with_ids (me_max_params env) page_game_ids
                                  (f\<lparr>sf_position := None, sf_offset := 0\<rparr>))))
                               (\<lambda>page. return (Inr (page\<lparr>gl_total_count := unat (ps_distinct_game_count summary)\<rparr>))) dm)
                  else and_then (position_game_ids hash) (\<lambda>game_ids.
                    with_store (via_self (find_games_with_ids (me_max_params env) game_ids (f\<lparr>sf_position := None\<rparr>)))) dm)))"

section \<open>Opening and closing\<close>

text \<open>Writes the manifest a last time, as far as that works, and lets go of everything.\<close>
definition close_manager :: "'b manager_env \<Rightarrow> database_manager \<Rightarrow> database_manager" where
  "close_manager env dm =
     (let dm =
        (if dm_dir dm \<noteq> [] \<and> dm_store dm \<noteq> None
         then
           let dm = (case with_store (via_self count_stored_games) dm of
                  (Inl _, dm) \<Rightarrow> dm
                | (Inr n, dm) \<Rightarrow> dm\<lparr>dm_manifest := (dm_manifest dm)\<lparr>mf_game_count := of_nat n\<rparr>\<rparr>);
               dm = (case postings_cover_canonical_games dm of
                  (False, dm) \<Rightarrow> dm
                | (True, dm) \<Rightarrow> dm\<lparr>dm_manifest := (dm_manifest dm)\<lparr>mf_position_index_dirty := False\<rparr>\<rparr>) in
           dm\<lparr>dm_disk := snd (write_manifest (me_json env) (dm_dir dm) (dm_manifest dm) (dm_disk dm))\<rparr>
         else dm) in
      dm\<lparr>dm_postings := None, dm_store := None\<rparr>)"

definition mark_dirty :: "'b manager_env \<Rightarrow> database_manager \<Rightarrow> unit result \<times> database_manager" where
  "mark_dirty env dm =
     (let dm = dm\<lparr>dm_manifest := (dm_manifest dm)\<lparr>mf_position_index_dirty := True\<rparr>\<rparr> in
      case write_manifest (me_json env) (dm_dir dm) (dm_manifest dm) (dm_disk dm) of
        (state, d) \<Rightarrow>
          let dm = dm\<lparr>dm_disk := d\<rparr> in if state \<noteq> Published then (unexpected Io_Failure, close_manager env dm) else (Inr (), dm))"

text \<open>The files of a bundle in its directory.\<close>
definition created_bundle_file :: "path \<Rightarrow> path \<Rightarrow> bool" where
  "created_bundle_file dir p =
     (let name = drop (length dir + 1) p in
      p = in_dir dir name
      \<and> (name \<in> set [''manifest.json'', ''manifest.json.tmp'', ''games.db'', ''games.db-wal'', ''games.db-shm'', ''games.db-journal'', ''.motif.lock'']
         \<or> CHR ''/'' \<notin> set name \<and> (prefix ''positions.postings.'' name \<or> prefix ''opening_tree.idx.'' name)))"

definition remove_created_bundle_files :: "path \<Rightarrow> filesystem \<Rightarrow> filesystem" where
  "remove_created_bundle_files dir fs =
     fs\<lparr>fs_files := \<lambda>p. if created_bundle_file dir p \<and> \<not> fs_fault fs (Remove p) then None else fs_files fs p\<rparr>"

definition cleanup_failed_create :: "path \<Rightarrow> database_manager \<Rightarrow> database_manager" where
  "cleanup_failed_create dir dm = set_fs (remove_created_bundle_files dir (dm_fs dm)) dm"

text \<open>\<open>create\<close> from the new connection on; a failure closes the manager again and removes the files of the bundle.\<close>
definition create_manager ::
  "'b manager_env \<Rightarrow> path \<Rightarrow> db_manifest \<Rightarrow> database \<Rightarrow> disk \<Rightarrow> unit result \<times> database_manager" where
  "create_manager env dir new_manifest conn d =
     (let dm = \<lparr>dm_store = Some (new_game_store conn), dm_manifest = new_manifest, dm_dir = dir, dm_postings = None, dm_disk = d\<rparr> in
      case write_manifest (me_json env) dir new_manifest d of
        (state, d) \<Rightarrow>
          (if state \<noteq> Published then (unexpected Io_Failure, cleanup_failed_create dir (dm\<lparr>dm_store := None, dm_disk := d\<rparr>))
           else case rebuild_position_postings env (dm\<lparr>dm_disk := d\<rparr>) of
               (Inl err, dm) \<Rightarrow> (Inl err, cleanup_failed_create dir (close_manager env dm))
             | (Inr _, dm) \<Rightarrow>
                 (case mark_dirty env dm of
                    (Inl err, dm) \<Rightarrow> (Inl err, cleanup_failed_create dir dm)
                  | (Inr _, dm) \<Rightarrow> (Inr (), dm))))"

text \<open>\<open>open\<close> from the opened connection on.\<close>
definition open_manager :: "'b manager_env \<Rightarrow> path \<Rightarrow> database \<Rightarrow> disk \<Rightarrow> unit result \<times> database_manager" where
  "open_manager env dir conn d =
     (let dm = \<lparr>dm_store = Some (new_game_store conn), dm_manifest = make_manifest 1 [] [], dm_dir = dir, dm_postings = None, dm_disk = d\<rparr> in
      case read_manifest (me_json env) dir (dk_fs d) of
        Inl err \<Rightarrow> (Inl err, dm\<lparr>dm_store := None\<rparr>)
      | Inr manifest \<Rightarrow>
          let dm = dm\<lparr>dm_manifest := manifest\<rparr>;
              dm = (case mf_position_postings manifest of
                  None \<Rightarrow> dm
                | Some index_entry \<Rightarrow>
                    if \<not> artifact_matches_manifest dir index_entry (dk_fs d) then dm
                    else case postings_open (dk_fs d) (new_postings (in_dir dir (de_filename index_entry)) default_spill_threshold) of
                        (Inl _, _) \<Rightarrow> dm
                      | (Inr _, postings) \<Rightarrow> dm\<lparr>dm_postings := Some postings\<rparr>) in
          case postings_cover_canonical_games dm of
            (True, dm) \<Rightarrow> mark_dirty env dm
          | (False, dm) \<Rightarrow>
              (case rebuild_position_postings env dm of
                 (Inl err, dm) \<Rightarrow> (Inl err, close_manager env dm)
               | (Inr _, dm) \<Rightarrow> mark_dirty env dm))"

end
