(* ===== verification/Search_Presenter.thy ===== *)
theory Search_Presenter
  imports Browser_Async Database_Manager
begin

text \<open>
  \<open>source/motif/slint_app/search_presenter.cpp\<close>: the games that reach the position on the board, with the ply at which each does, and
  the continuations played there. Queries go to the database manager and follow the same pattern of generations as the game list; the
  answer for the starting position is cached. The statistics of \<open>source/motif/search/opening_stats.cpp\<close>, which compute with floating point
  numbers, are the parameter \<open>stats\<close>: any function from the manager, the position and the filter to an error or to a number of games and a
  list of continuations.
\<close>

section \<open>Types\<close>

datatype search_error_code = Search_Ok | Search_Invalid_Argument | Search_Io_Failure

datatype search_error = Search_Error (se_code: search_error_code) (se_message: string)

fun search_code_to_string :: "search_error_code \<Rightarrow> string" where
  "search_code_to_string Search_Ok = ''ok''"
| "search_code_to_string Search_Invalid_Argument = ''invalid_argument''"
| "search_code_to_string Search_Io_Failure = ''io_failure''"

record 'c opening_stats =
  os_total_games :: u32
  os_continuations :: "'c list"

type_synonym 'c stats_query = "database_manager \<Rightarrow> u64 \<Rightarrow> search_filter \<Rightarrow> search_error + 'c opening_stats"

record search_match =
  sm_game :: game_list_entry
  sm_ply :: u16

record search_query =
  sq_generation :: u64
  sq_hash :: u64
  sq_filter :: search_filter

record 'c position_page =
  pg_generation :: u64
  pg_hash :: u64
  pg_matches :: "search_match list"
  pg_total_matches :: int
  pg_continuations :: "'c opening_stats"
  pg_filter :: search_filter

record 'c search_state =
  ss_current_hash :: u64
  ss_matches :: "search_match list"
  ss_total_matches :: int
  ss_page_index :: u64
  ss_has_previous_page :: bool
  ss_has_next_page :: bool
  ss_continuations :: "'c list"
  ss_total_games :: int
  ss_active_filter :: search_filter
  ss_searching :: bool
  ss_auto_search :: bool
  ss_error_text :: string
  ss_query_generation :: u64

record 'c search_presenter =
  sp_state :: "'c search_state"
  sp_starting_position_hash :: u64
  sp_cache :: "'c position_page option"

definition new_search_presenter :: "u64 \<Rightarrow> 'c search_presenter" where
  "new_search_presenter start = \<lparr>sp_state = \<lparr>ss_current_hash = 0, ss_matches = [], ss_total_matches = 0, ss_page_index = 0,
     ss_has_previous_page = False, ss_has_next_page = False, ss_continuations = [], ss_total_games = 0, ss_active_filter = default_search_filter,
     ss_searching = False, ss_auto_search = True, ss_error_text = [], ss_query_generation = 0\<rparr>,
     sp_starting_position_hash = start, sp_cache = None\<rparr>"

section \<open>Operations\<close>

definition from_search_error :: "search_error \<Rightarrow> ui_error" where
  "from_search_error e = Ui_Error (if se_code e = Search_Invalid_Argument then Bad_Argument else Search_Failure)
     (if se_message e = [] then search_code_to_string (se_code e) else se_message e)"

definition search_apply_query :: "'c position_page \<Rightarrow> 'c search_presenter \<Rightarrow> bool ui_result \<times> 'c search_presenter" where
  "search_apply_query pg p =
     (let st = sp_state p in
      if pg_generation pg \<noteq> ss_query_generation st then (Inr False, p)
      else let cache = (if pg_hash pg = sp_starting_position_hash p \<and> \<not> has_metadata_filter (pg_filter pg) then Some pg else sp_cache p);
               next_offset = sf_offset (pg_filter pg) + of_nat (length (pg_matches pg)) in
        (Inr True, p\<lparr>sp_cache := cache,
           sp_state := st\<lparr>ss_current_hash := pg_hash pg, ss_matches := pg_matches pg, ss_total_matches := pg_total_matches pg,
             ss_page_index := (if sf_limit (pg_filter pg) = 0 then 0 else sf_offset (pg_filter pg) div sf_limit (pg_filter pg)),
             ss_has_previous_page := sf_offset (pg_filter pg) > 0,
             ss_has_next_page := pg_total_matches pg > 0 \<and> uint next_offset < pg_total_matches pg,
             ss_total_games := uint (os_total_games (pg_continuations pg)),
             ss_continuations := os_continuations (pg_continuations pg), ss_active_filter := pg_filter pg,
             ss_searching := False, ss_error_text := []\<rparr>\<rparr>))"

definition cache_hit :: "u64 \<Rightarrow> search_filter \<Rightarrow> 'c search_presenter \<Rightarrow> 'c position_page option" where
  "cache_hit hash f p = (case sp_cache p of
     None \<Rightarrow> None
   | Some pg \<Rightarrow> if hash = sp_starting_position_hash p \<and> \<not> has_metadata_filter f \<and> sf_offset f = sf_offset (pg_filter pg)
         \<and> sf_limit f = sf_limit (pg_filter pg) \<and> sf_sort_column f = sf_sort_column (pg_filter pg)
         \<and> sf_sort_ascending f = sf_sort_ascending (pg_filter pg)
       then Some pg else None)"

definition search_position :: "u64 \<Rightarrow> search_filter \<Rightarrow> 'c search_presenter \<Rightarrow> search_query option ui_result \<times> 'c search_presenter" where
  "search_position hash flt p =
     (let f = flt\<lparr>sf_position := Some hash\<rparr>; st = (sp_state p)\<lparr>ss_query_generation := ss_query_generation (sp_state p) + 1\<rparr> in
      case cache_hit hash f p of
        Some pg \<Rightarrow>
          (Inr None, snd (search_apply_query (pg\<lparr>pg_generation := ss_query_generation st, pg_filter := f\<rparr>) (p\<lparr>sp_state := st\<rparr>)))
      | None \<Rightarrow>
          (Inr (Some \<lparr>sq_generation = ss_query_generation st, sq_hash = hash, sq_filter = f\<rparr>),
           p\<lparr>sp_state := st\<lparr>ss_matches := [], ss_total_matches := 0, ss_page_index := 0, ss_has_previous_page := False,
               ss_has_next_page := False, ss_continuations := [], ss_total_games := 0, ss_active_filter := f, ss_error_text := [],
               ss_searching := True, ss_current_hash := hash\<rparr>\<rparr>))"

text \<open>\<open>std::ranges::lower_bound\<close> by the game id in the sorted matches, and the check of what it finds.\<close>
definition match_of_game :: "u32 \<Rightarrow> position_match list \<Rightarrow> position_match option" where
  "match_of_game key matches = (case dropWhile (\<lambda>m. pm_game_id m < key) matches of
     [] \<Rightarrow> None
   | m # _ \<Rightarrow> if pm_game_id m = key then Some m else None)"

fun join_plies :: "position_match list \<Rightarrow> game_list_entry list \<Rightarrow> search_match list option" where
  "join_plies matches [] = Some []"
| "join_plies matches (e # es) =
     (case match_of_game (ge_id e) matches of
        None \<Rightarrow> None
      | Some m \<Rightarrow> map_option ((#) \<lparr>sm_game = e, sm_ply = pm_ply m\<rparr>) (join_plies matches es))"

definition results_changed :: ui_error where
  "results_changed = Ui_Error Database_Failure ''Position results changed while search metadata was loaded.''"

definition search_execute_query ::
  "'b manager_env \<Rightarrow> 'c stats_query \<Rightarrow> search_query \<Rightarrow> database_manager \<Rightarrow> 'c position_page ui_result \<times> database_manager" where
  "search_execute_query env stats q dm =
     (case manager_find_games env (sq_filter q) dm of
        (Inl e, dm) \<Rightarrow> (Inl (from_database_error e), dm)
      | (Inr games, dm) \<Rightarrow>
          (case query_position_first_matches (sq_hash q) (map ge_id (gl_games games)) dm of
             (Inl e, dm) \<Rightarrow> (Inl (from_database_error e), dm)
           | (Inr firsts, dm) \<Rightarrow>
               (if length firsts \<noteq> length (gl_games games) then (Inl results_changed, dm)
                else case join_plies (sort_key pm_game_id firsts) (gl_games games) of
                    None \<Rightarrow> (Inl results_changed, dm)
                  | Some matches \<Rightarrow>
                      (case stats dm (sq_hash q) (sq_filter q) of
                         Inl e \<Rightarrow> (Inl (from_search_error e), dm)
                       | Inr sts \<Rightarrow>
                           (Inr \<lparr>pg_generation = sq_generation q, pg_hash = sq_hash q, pg_matches = matches,
                              pg_total_matches = int (gl_total_count games), pg_continuations = sts, pg_filter = sq_filter q\<rparr>, dm)))))"

definition search_apply_query_error :: "u64 \<Rightarrow> ui_error \<Rightarrow> 'c search_presenter \<Rightarrow> bool ui_result \<times> 'c search_presenter" where
  "search_apply_query_error generation e p =
     (if generation \<noteq> ss_query_generation (sp_state p) then (Inr False, p)
      else (Inr True, p\<lparr>sp_state := (sp_state p)\<lparr>ss_searching := False, ss_error_text := ui_message e\<rparr>\<rparr>))"

definition invalidate_starting_position_cache :: "'c search_presenter \<Rightarrow> 'c search_presenter" where
  "invalidate_starting_position_cache p = p\<lparr>sp_cache := None\<rparr>"

definition set_auto_search :: "bool \<Rightarrow> 'c search_presenter \<Rightarrow> 'c search_presenter" where
  "set_auto_search enabled p = p\<lparr>sp_state := (sp_state p)\<lparr>ss_auto_search := enabled\<rparr>\<rparr>"

definition search_dismiss_error :: "'c search_presenter \<Rightarrow> 'c search_presenter" where
  "search_dismiss_error p = p\<lparr>sp_state := (sp_state p)\<lparr>ss_error_text := []\<rparr>\<rparr>"

section \<open>Searches in any order\<close>

definition complete_search :: "search_query \<Rightarrow> 'c position_page ui_result \<Rightarrow> 'c search_presenter \<Rightarrow> 'c search_presenter" where
  "complete_search q r p = (case r of Inl e \<Rightarrow> snd (search_apply_query_error (sq_generation q) e p) | Inr pg \<Rightarrow> snd (search_apply_query pg p))"

text \<open>
  The presenter with every search so far, oldest first, as the query that was handed out or \<open>None\<close> when the cache served it, and every
  answer that was computed, from whatever state the manager was in.
\<close>
record 'c search_world =
  sw_presenter :: "'c search_presenter"
  sw_searches :: "search_query option list"
  sw_answers :: "(search_query \<times> 'c position_page ui_result) list"

inductive search_step :: "'b manager_env \<Rightarrow> 'c stats_query \<Rightarrow> 'c search_world \<Rightarrow> 'c search_world \<Rightarrow> bool"
  for env :: "'b manager_env" and stats :: "'c stats_query" where
  st_search: "search_position hash f (sw_presenter w) = (Inr q, p) \<Longrightarrow>
    search_step env stats w (w\<lparr>sw_presenter := p, sw_searches := sw_searches w @ [q]\<rparr>)"
| st_execute: "Some q \<in> set (sw_searches w) \<Longrightarrow>
    search_step env stats w (w\<lparr>sw_answers := (q, fst (search_execute_query env stats q dm)) # sw_answers w\<rparr>)"
| st_deliver: "(q, r) \<in> set (sw_answers w) \<Longrightarrow> search_step env stats w (w\<lparr>sw_presenter := complete_search q r (sw_presenter w)\<rparr>)"
| st_invalidate: "search_step env stats w (w\<lparr>sw_presenter := invalidate_starting_position_cache (sw_presenter w)\<rparr>)"
| st_auto: "search_step env stats w (w\<lparr>sw_presenter := set_auto_search enabled (sw_presenter w)\<rparr>)"
| st_dismiss: "search_step env stats w (w\<lparr>sw_presenter := search_dismiss_error (sw_presenter w)\<rparr>)"

inductive_cases search_stepE: "search_step env stats w w'"

definition new_search_world :: "u64 \<Rightarrow> 'c search_world" where
  "new_search_world start = \<lparr>sw_presenter = new_search_presenter start, sw_searches = [], sw_answers = []\<rparr>"

definition search_reachable :: "'b manager_env \<Rightarrow> 'c stats_query \<Rightarrow> 'c search_world \<Rightarrow> bool" where
  "search_reachable env stats w \<longleftrightarrow> (\<exists>start. (search_step env stats)\<^sup>*\<^sup>* (new_search_world start) w)"

text \<open>The part of a filter that a page without metadata filter depends on.\<close>
definition window :: "search_filter \<Rightarrow> u64 \<times> u64 \<times> game_sort_column \<times> bool" where
  "window f = (sf_offset f, sf_limit f, sf_sort_column f, sf_sort_ascending f)"

text \<open>A page that the database gave for the starting position, or that the cache made of one.\<close>
definition cached_answer :: "(search_query \<times> 'c position_page ui_result) list \<Rightarrow> u64 \<Rightarrow> 'c position_page \<Rightarrow> bool" where
  "cached_answer answers start pg \<longleftrightarrow>
     (\<exists>q pg'. (q, Inr pg') \<in> set answers \<and> sq_hash q = start \<and> pg_hash pg = start \<and> \<not> has_metadata_filter (sq_filter q)
       \<and> \<not> has_metadata_filter (pg_filter pg) \<and> window (pg_filter pg) = window (sq_filter q)
       \<and> pg_matches pg = pg_matches pg' \<and> pg_total_matches pg = pg_total_matches pg' \<and> pg_continuations pg = pg_continuations pg')"

definition answers_ok :: "'c search_world \<Rightarrow> bool" where
  "answers_ok w \<longleftrightarrow> (\<forall>(q, r) \<in> set (sw_answers w). Some q \<in> set (sw_searches w)
     \<and> (\<forall>pg. r = Inr pg \<longrightarrow> pg_generation pg = sq_generation q \<and> pg_hash pg = sq_hash q \<and> pg_filter pg = sq_filter q))"

definition searches_ok :: "'c search_world \<Rightarrow> bool" where
  "searches_ok w \<longleftrightarrow>
     ss_query_generation (sp_state (sw_presenter w)) = of_nat (length (sw_searches w))
     \<and> (\<forall>k < length (sw_searches w). \<forall>q. sw_searches w ! k = Some q \<longrightarrow> sq_generation q = of_nat (Suc k))"

definition cache_ok :: "'c search_world \<Rightarrow> bool" where
  "cache_ok w \<longleftrightarrow> (\<forall>pg. sp_cache (sw_presenter w) = Some pg \<longrightarrow>
     cached_answer (sw_answers w) (sp_starting_position_hash (sw_presenter w)) pg)"

lemma execute_page:
  assumes "fst (search_execute_query env stats q dm) = Inr pg"
  shows "pg_generation pg = sq_generation q \<and> pg_hash pg = sq_hash q \<and> pg_filter pg = sq_filter q"
  using assms by (auto simp: search_execute_query_def split: prod.splits sum.splits if_splits option.splits)

lemma complete_search_fields [simp]:
  "ss_query_generation (sp_state (complete_search q r p)) = ss_query_generation (sp_state p)"
  "sp_starting_position_hash (complete_search q r p) = sp_starting_position_hash p"
  by (simp_all add: complete_search_def search_apply_query_def search_apply_query_error_def Let_def split: sum.split)

lemma apply_query_fields [simp]:
  "ss_query_generation (sp_state (snd (search_apply_query pg p))) = ss_query_generation (sp_state p)"
  "sp_starting_position_hash (snd (search_apply_query pg p)) = sp_starting_position_hash p"
  by (simp_all add: search_apply_query_def Let_def)

lemma search_position_fields:
  assumes "search_position hash f p = (Inr q, p')"
  shows "ss_query_generation (sp_state p') = ss_query_generation (sp_state p) + 1"
    and "sp_starting_position_hash p' = sp_starting_position_hash p"
    and "q' \<in> set_option q \<Longrightarrow> sq_generation q' = ss_query_generation (sp_state p) + 1"
  using assms by (auto simp: search_position_def Let_def split: option.splits)

lemma cache_hit_SomeD:
  assumes "cache_hit hash f p = Some pg"
  shows "sp_cache p = Some pg" "hash = sp_starting_position_hash p" "\<not> has_metadata_filter f" "window f = window (pg_filter pg)"
  using assms by (auto simp: cache_hit_def window_def split: option.splits if_splits)

lemma window_position [simp]: "window (f\<lparr>sf_position := x\<rparr>) = window f" "has_metadata_filter (f\<lparr>sf_position := x\<rparr>) = has_metadata_filter f"
  by (simp_all add: window_def has_metadata_filter_def)

text \<open>Serving from the cache puts the cached page back with the filter that was asked for.\<close>
lemma served_cache:
  assumes "search_position hash f p = (Inr None, p')"
  shows "\<exists>pg. sp_cache p = Some pg \<and> hash = sp_starting_position_hash p \<and> \<not> has_metadata_filter f \<and> window f = window (pg_filter pg)
     \<and> p' = snd (search_apply_query (pg\<lparr>pg_generation := ss_query_generation (sp_state p) + 1, pg_filter := f\<lparr>sf_position := Some hash\<rparr>\<rparr>)
         (p\<lparr>sp_state := (sp_state p)\<lparr>ss_query_generation := ss_query_generation (sp_state p) + 1\<rparr>\<rparr>))"
  using assms cache_hit_SomeD [of hash "f\<lparr>sf_position := Some hash\<rparr>" p] by (auto simp: search_position_def Let_def split: option.splits)

lemma not_served_cache:
  assumes "search_position hash f p = (Inr (Some q), p')"
  shows "sp_cache p' = sp_cache p"
  using assms by (auto simp: search_position_def Let_def split: option.splits)

lemma search_cache_ok:
  assumes "search_position hash f (sw_presenter w) = (Inr q, p)" and "cache_ok w"
  shows "cache_ok (w\<lparr>sw_presenter := p, sw_searches := qs\<rparr>)"
proof (cases q)
  case None
  obtain pg where pg: "sp_cache (sw_presenter w) = Some pg" "hash = sp_starting_position_hash (sw_presenter w)" "\<not> has_metadata_filter f"
      "window f = window (pg_filter pg)"
      "p = snd (search_apply_query (pg\<lparr>pg_generation := ss_query_generation (sp_state (sw_presenter w)) + 1, pg_filter := f\<lparr>sf_position := Some hash\<rparr>\<rparr>)
        ((sw_presenter w)\<lparr>sp_state := (sp_state (sw_presenter w))\<lparr>ss_query_generation := ss_query_generation (sp_state (sw_presenter w)) + 1\<rparr>\<rparr>))"
    using served_cache assms(1) None by blast
  have "cached_answer (sw_answers w) (sp_starting_position_hash (sw_presenter w)) pg" using assms(2) pg(1) by (simp add: cache_ok_def)
  then show ?thesis using pg(2-5) by (auto simp: cache_ok_def cached_answer_def search_apply_query_def Let_def)
next
  case (Some q')
  then show ?thesis using assms not_served_cache [of hash f "sw_presenter w" q' p] search_position_fields(2) [OF assms(1)] by (simp add: cache_ok_def)
qed

lemma deliver_cache_ok:
  assumes "(q, r) \<in> set (sw_answers w)" and "answers_ok w" and "cache_ok w"
  shows "cache_ok (w\<lparr>sw_presenter := complete_search q r (sw_presenter w)\<rparr>)"
proof (cases r)
  case (Inl e)
  then show ?thesis using assms(3) by (simp add: cache_ok_def complete_search_def search_apply_query_error_def)
next
  case (Inr pg)
  then have "pg_hash pg = sq_hash q" "pg_filter pg = sq_filter q" using assms(1,2) by (auto simp: answers_ok_def)
  then have "cached_answer (sw_answers w) (sp_starting_position_hash (sw_presenter w)) pg"
    if "pg_hash pg = sp_starting_position_hash (sw_presenter w)" "\<not> has_metadata_filter (pg_filter pg)"
    using that assms(1) Inr unfolding cached_answer_def by (intro exI [of _ q] exI [of _ pg]) simp
  then show ?thesis using assms(3) Inr by (auto simp: cache_ok_def complete_search_def search_apply_query_def Let_def)
qed

lemma search_step_inv:
  assumes "search_step env stats w w'" and "searches_ok w \<and> answers_ok w \<and> cache_ok w"
  shows "searches_ok w' \<and> answers_ok w' \<and> cache_ok w'"
  using assms(1)
proof (cases rule: search_step.cases)
  case (st_search hash f q p)
  have "searches_ok w'"
    using assms(2) search_position_fields(1,3) [OF st_search(2)] unfolding st_search(1)
    by (auto simp: searches_ok_def nth_append less_Suc_eq add.commute)
  moreover have "answers_ok w'" using assms(2) unfolding st_search(1) by (auto simp: answers_ok_def)
  ultimately show ?thesis using search_cache_ok [OF st_search(2)] assms(2) st_search(1) by simp
next
  case (st_execute q dm)
  have "answers_ok w'" using assms(2) st_execute(2) execute_page [of env stats q dm] unfolding st_execute(1) by (auto simp: answers_ok_def)
  moreover have "cached_answer (a # answers) start pg" if "cached_answer answers start pg" for a answers start and pg :: "'b position_page"
    using that unfolding cached_answer_def by (elim exE conjE, intro exI conjI) auto
  then have "cache_ok w'" using assms(2) unfolding st_execute(1) by (simp add: cache_ok_def)
  ultimately show ?thesis using assms(2) st_execute(1) by (simp add: searches_ok_def)
next
  case (st_deliver q r)
  then show ?thesis using assms(2) deliver_cache_ok [OF st_deliver(2)] by (simp add: searches_ok_def answers_ok_def)
qed (use assms(2) in \<open>simp_all add: searches_ok_def answers_ok_def cache_ok_def invalidate_starting_position_cache_def set_auto_search_def
    search_dismiss_error_def\<close>)

lemma search_reachable_inv:
  assumes "search_reachable env stats w"
  shows "searches_ok w" "answers_ok w" "cache_ok w"
proof -
  obtain start where "(search_step env stats)\<^sup>*\<^sup>* (new_search_world start) w" using assms by (auto simp: search_reachable_def)
  then have "searches_ok w \<and> answers_ok w \<and> cache_ok w"
  proof (induction rule: rtranclp_induct)
    case base
    show ?case by (simp add: searches_ok_def answers_ok_def cache_ok_def new_search_world_def new_search_presenter_def)
  next
    case (step v w)
    from search_step_inv [OF step.hyps(2) step.IH] show ?case .
  qed
  then show "searches_ok w" "answers_ok w" "cache_ok w" by simp_all
qed

text \<open>Counting below \<open>2 ^ 64\<close> searches, the current generation is that of the latest one.\<close>
lemma search_generation_latest:
  assumes "searches_ok w" and "length (sw_searches w) < 2 ^ 64" and "Some q \<in> set (sw_searches w)"
  shows "sq_generation q = ss_query_generation (sp_state (sw_presenter w)) \<longleftrightarrow> Some q = last (sw_searches w)"
proof -
  let ?qs = "sw_searches w"
  have qs: "?qs \<noteq> []" using assms(3) by auto
  obtain k where k: "k < length ?qs" "?qs ! k = Some q" using assms(3) by (auto simp: in_set_conv_nth)
  have gen: "sq_generation q = of_nat (Suc k)" using assms(1) k by (simp add: searches_ok_def)
  have "?qs ! (length ?qs - 1) = Some q \<Longrightarrow> sq_generation q = of_nat (length ?qs)"
    using assms(1) qs unfolding searches_ok_def by (metis Suc_pred' diff_less length_greater_0_conv zero_less_one)
  moreover have "?qs ! (length ?qs - 1) = Some q" if "sq_generation q = of_nat (length ?qs)"
    using that gen k count_eq [OF k(1) assms(2)] by (metis diff_Suc_1)
  ultimately show ?thesis using assms(1) last_conv_nth [OF qs] by (auto simp: searches_ok_def)
qed

text \<open>
  C24: The position search shows what was asked for last: in whatever order searches are answered, with fewer than \<open>2 ^ 64\<close> of them, an
  answer to another search than the latest one changes nothing, and the answer to the latest one shows its games and continuations, or
  the message of its error, and ends the search. A search that the cache serves at once shows the games of an answer that the database
  once gave for the same position, page and order without a filter.\<close>
theorem search_shows_latest:
  assumes "search_reachable env stats w" and "length (sw_searches w) < 2 ^ 64" and "p = sw_presenter w"
  shows "(\<forall>q r. (q, r) \<in> set (sw_answers w) \<longrightarrow>
       (if Some q = last (sw_searches w)
        then \<not> ss_searching (sp_state (complete_search q r p))
          \<and> (case r of
               Inl e \<Rightarrow> sp_state (complete_search q r p) = (sp_state p)\<lparr>ss_searching := False, ss_error_text := ui_message e\<rparr>
             | Inr pg \<Rightarrow> ss_current_hash (sp_state (complete_search q r p)) = sq_hash q \<and> ss_matches (sp_state (complete_search q r p)) = pg_matches pg
                 \<and> ss_total_matches (sp_state (complete_search q r p)) = pg_total_matches pg
                 \<and> ss_continuations (sp_state (complete_search q r p)) = os_continuations (pg_continuations pg)
                 \<and> ss_active_filter (sp_state (complete_search q r p)) = sq_filter q \<and> ss_error_text (sp_state (complete_search q r p)) = [])
        else complete_search q r p = p))
    \<and> (\<forall>hash f p'. search_position hash f p = (Inr None, p') \<longrightarrow>
         \<not> ss_searching (sp_state p') \<and> ss_current_hash (sp_state p') = hash
         \<and> (\<exists>q pg. (q, Inr pg) \<in> set (sw_answers w) \<and> sq_hash q = hash \<and> window (sq_filter q) = window f
              \<and> \<not> has_metadata_filter (sq_filter q) \<and> \<not> has_metadata_filter f
              \<and> ss_matches (sp_state p') = pg_matches pg \<and> ss_total_matches (sp_state p') = pg_total_matches pg
              \<and> ss_continuations (sp_state p') = os_continuations (pg_continuations pg)))"
proof (intro conjI allI impI)
  note inv = search_reachable_inv [OF assms(1)]
  fix q r assume qr: "(q, r) \<in> set (sw_answers w)"
  have ok: "Some q \<in> set (sw_searches w)" "\<forall>pg. r = Inr pg \<longrightarrow> pg_generation pg = sq_generation q \<and> pg_hash pg = sq_hash q \<and> pg_filter pg = sq_filter q"
    using inv(2) qr by (auto simp: answers_ok_def)
  note latest = search_generation_latest [OF inv(1) assms(2) ok(1), folded assms(3)]
  show "if Some q = last (sw_searches w)
        then \<not> ss_searching (sp_state (complete_search q r p))
          \<and> (case r of
               Inl e \<Rightarrow> sp_state (complete_search q r p) = (sp_state p)\<lparr>ss_searching := False, ss_error_text := ui_message e\<rparr>
             | Inr pg \<Rightarrow> ss_current_hash (sp_state (complete_search q r p)) = sq_hash q \<and> ss_matches (sp_state (complete_search q r p)) = pg_matches pg
                 \<and> ss_total_matches (sp_state (complete_search q r p)) = pg_total_matches pg
                 \<and> ss_continuations (sp_state (complete_search q r p)) = os_continuations (pg_continuations pg)
                 \<and> ss_active_filter (sp_state (complete_search q r p)) = sq_filter q \<and> ss_error_text (sp_state (complete_search q r p)) = [])
        else complete_search q r p = p"
    unfolding latest [symmetric] using ok(2)
    by (cases r) (simp_all add: complete_search_def search_apply_query_def search_apply_query_error_def Let_def)
next
  note inv = search_reachable_inv [OF assms(1)]
  fix hash f p' assume "search_position hash f p = (Inr None, p')"
  then obtain pg where pg: "sp_cache p = Some pg" "hash = sp_starting_position_hash p" "\<not> has_metadata_filter f" "window f = window (pg_filter pg)"
      "p' = snd (search_apply_query (pg\<lparr>pg_generation := ss_query_generation (sp_state p) + 1, pg_filter := f\<lparr>sf_position := Some hash\<rparr>\<rparr>)
         (p\<lparr>sp_state := (sp_state p)\<lparr>ss_query_generation := ss_query_generation (sp_state p) + 1\<rparr>\<rparr>))"
    using served_cache by blast
  have c: "cached_answer (sw_answers w) hash pg" using inv(3) pg(1,2) assms(3) by (simp add: cache_ok_def)
  show "\<not> ss_searching (sp_state p')" "ss_current_hash (sp_state p') = hash"
    using c unfolding pg(5) by (auto simp: search_apply_query_def Let_def cached_answer_def)
  show "\<exists>q pg. (q, Inr pg) \<in> set (sw_answers w) \<and> sq_hash q = hash \<and> window (sq_filter q) = window f
              \<and> \<not> has_metadata_filter (sq_filter q) \<and> \<not> has_metadata_filter f
              \<and> ss_matches (sp_state p') = pg_matches pg \<and> ss_total_matches (sp_state p') = pg_total_matches pg
              \<and> ss_continuations (sp_state p') = os_continuations (pg_continuations pg)"
    using c pg(3,4) unfolding pg(5) cached_answer_def by (auto simp: search_apply_query_def Let_def) metis
qed

text \<open>
  C25: The cache can come back after it was invalidated: when the starting position is searched, the cache is invalidated because the
  database has changed, and the answer to that search, which may be older than the change, is applied afterwards, then the cache holds
  that answer, and the next search for the starting position is served from it without asking the database.\<close>
theorem invalidated_cache_comes_back:
  assumes "search_position (sp_starting_position_hash p) f p = (Inr (Some q), p1)" and "\<not> has_metadata_filter f"
    and "fst (search_execute_query env stats q dm) = Inr pg" and "p2 = snd (search_apply_query pg (invalidate_starting_position_cache p1))"
  shows "sp_cache p2 = Some pg \<and> fst (search_position (sp_starting_position_hash p) f p2) = Inr None
    \<and> ss_matches (sp_state (snd (search_position (sp_starting_position_hash p) f p2))) = pg_matches pg"
proof -
  let ?h = "sp_starting_position_hash p"
  have q: "q = \<lparr>sq_generation = ss_query_generation (sp_state p1), sq_hash = ?h, sq_filter = f\<lparr>sf_position := Some ?h\<rparr>\<rparr>"
    "sp_starting_position_hash p1 = ?h"
    using assms(1) by (auto simp: search_position_def Let_def split: option.splits)
  note pg = execute_page [OF assms(3)]
  have c: "sp_cache p2 = Some pg" "sp_starting_position_hash p2 = ?h"
    using pg q assms(2,4) by (simp_all add: search_apply_query_def invalidate_starting_position_cache_def Let_def)
  then have "cache_hit ?h (f\<lparr>sf_position := Some ?h\<rparr>) p2 = Some pg" using pg q(1) assms(2) by (simp add: cache_hit_def)
  then show ?thesis using c by (simp add: search_position_def search_apply_query_def Let_def)
qed

end
