(* ===== verification/Game_Store_Replay.thy ===== *)
theory Game_Store_Replay
  imports Store_Index
begin

text \<open>
  The part of the database that the position index is built from: the id, result, ratings and moves of every game. Patches that
  set neither a rating nor the result, and changes of the provenance, leave it as it is, whichever of their statements fail.
\<close>

section \<open>The replayed part of the tables\<close>

definition replay_part :: "tables \<Rightarrow> replay_game_record list" where
  "replay_part tb = map replay_record (sort_key gr_id (tb_games tb))"

definition index_rows :: "'b board_ops \<Rightarrow> tables \<Rightarrow> position_row list" where
  "index_rows ops tb = concat (List.map_filter (replay_rows ops) (replay_part tb))"

lemma sort_key_map_id:
  assumes "\<And>r. gr_id (f r) = gr_id r"
  shows "sort_key gr_id (map f rs) = map f (sort_key gr_id rs)"
proof -
  have "insort_key gr_id (f r) (map f rs) = map f (insort_key gr_id r rs)" for r rs by (induction rs) (auto simp: assms)
  then show ?thesis by (induction rs) (auto simp: sort_key_def)
qed

lemma index_rows_cong: "replay_part tb' = replay_part tb \<Longrightarrow> index_rows ops tb' = index_rows ops tb"
  by (simp add: index_rows_def)

lemma visit_rows_complete:
  "visit_rows (\<lambda>game games. (Inr (), games @ [game])) rows acc w = (Inr u, games, w') \<Longrightarrow> games = acc @ map replay_record rows"
proof (induction rows arbitrary: acc w)
  case (Cons row rows)
  obtain r w1 where w1: "gw_exec (\<lambda>tb. Some ((), tb)) w = (r, w1)" by force
  show ?case
  proof (cases r)
    case (Inl err)
    then show ?thesis using Cons.prems w1 by simp
  next
    case (Inr u)
    then show ?thesis using Cons.prems Cons.IH [of "acc @ [replay_record row]" w1] w1 by simp
  qed
qed (auto split: prod.splits)

text \<open>A replay that ends well has seen all games, also on a connection that fails now and then.\<close>
lemma store_replay_complete:
  assumes "rs_end (store_replay w) = Inr u"
  shows "rs_games (store_replay w) = replay_part (sd_tables (gw_db w))"
    and "\<forall>game\<in>set (rs_games (store_replay w)). replay_rows ops game \<noteq> None \<Longrightarrow>
      store_rows ops (store_replay w) = index_rows ops (sd_tables (gw_db w))"
proof -
  obtain n w1 where n: "count_stored_games w = (n, w1)" by force
  obtain c where c: "w1 = w\<lparr>gw_db := (gw_db w)\<lparr>sd_clock := c\<rparr>\<rparr>" using readsD [OF reads_counts(1) n] by blast
  obtain r w2 where w2: "gw_exec (\<lambda>tb. Some ((), tb)) w1 = (r, w2)" by force
  have "reads (gw_exec (\<lambda>tb. Some ((), tb)))" by (rule reads_exec) auto
  from readsD [OF this w2] have tb: "sd_tables (gw_db w2) = sd_tables (gw_db w)" using c by auto
  obtain e games w3 where f: "for_each_replay_game (\<lambda>game games. (Inr (), games @ [game])) [] w1 = (e, games, w3)" by (metis prod_cases3)
  have "rs_end (store_replay w) = e" "rs_games (store_replay w) = games" using n f by (simp_all add: store_replay_def)
  then show "rs_games (store_replay w) = replay_part (sd_tables (gw_db w))"
    using f w2 assms visit_rows_complete [of "sort_key gr_id (tb_games (sd_tables (gw_db w2)))" "[]"]
    by (cases r) (auto simp: for_each_replay_game_def replay_part_def tb)
  moreover have "concat (map (\<lambda>game. the (replay_rows ops game)) games) = concat (List.map_filter (replay_rows ops) games)"
    if "\<forall>game\<in>set games. replay_rows ops game \<noteq> None" for games
    using that by (induction games) (auto simp: map_filter_simps)
  ultimately show "store_rows ops (store_replay w) = index_rows ops (sd_tables (gw_db w))"
    if "\<forall>game\<in>set (rs_games (store_replay w)). replay_rows ops game \<noteq> None"
    using that by (simp add: store_rows_def index_rows_def)
qed

section \<open>Steps that leave it alone\<close>

definition quiet_stmt :: "(tables \<Rightarrow> ('a \<times> tables) option) \<Rightarrow> bool" where
  "quiet_stmt stmt \<longleftrightarrow> (\<forall>tb x tb'. wf_tables tb \<longrightarrow> stmt tb = Some (x, tb') \<longrightarrow> wf_tables tb' \<and> replay_part tb' = replay_part tb)"

definition quiet :: "(game_writer \<Rightarrow> 'a \<times> game_writer) \<Rightarrow> bool" where
  "quiet m \<longleftrightarrow> (\<forall>w r w'. m w = (r, w') \<longrightarrow> wf_tables (gw_tables w) \<longrightarrow> wf_tables (gw_tables w')
     \<and> replay_part (gw_tables w') = replay_part (gw_tables w) \<and> sd_saved (gw_db w') = sd_saved (gw_db w))"

lemma quietD:
  assumes "quiet m" and "m w = (r, w')" and "wf_tables (gw_tables w)"
  shows "wf_tables (gw_tables w')" and "replay_part (gw_tables w') = replay_part (gw_tables w)"
    and "sd_saved (gw_db w') = sd_saved (gw_db w)"
  using assms by (auto simp: quiet_def)

lemma quiet_run [intro]: "quiet_stmt stmt \<Longrightarrow> quiet (gw_run stmt)"
  by (auto simp: quiet_def quiet_stmt_def gw_run_def sql_run_def Let_def split: prod.splits option.splits if_splits)

lemma quiet_exec [intro]: "quiet_stmt stmt \<Longrightarrow> quiet (gw_exec stmt)"
  using quiet_run [of stmt] by (auto simp: quiet_def gw_exec_def split: prod.splits option.splits)

lemma quiet_and_then [intro]: "quiet m \<Longrightarrow> (\<And>x. quiet (f x)) \<Longrightarrow> quiet (and_then m f)"
  unfolding quiet_def and_then_def by (fastforce split: prod.splits sum.splits)

lemma quiet_return [intro]: "quiet (return r)" "quiet (\<lambda>w. (r, w))"
  by (auto simp: quiet_def return_def)

lemma quiet_if: "quiet m \<Longrightarrow> quiet m' \<Longrightarrow> quiet (if b then m else m')"
  by simp

lemma quiet_case_option: "quiet m \<Longrightarrow> (\<And>x. quiet (f x)) \<Longrightarrow> quiet (case opt of None \<Rightarrow> m | Some x \<Rightarrow> f x)"
  by (cases opt) auto

lemma quiet_reads: "reads m \<Longrightarrow> quiet m"
  by (auto simp: quiet_def dest!: readsD)

lemma quiet_read [intro]: "quiet_stmt (\<lambda>tb. Some (f tb, tb))"
  by (simp add: quiet_stmt_def)

lemma quiet_prepared [intro]: "quiet_stmt stmt \<Longrightarrow> quiet (run_prepared stmt)"
  unfolding run_prepared_def by (intro quiet_and_then quiet_exec quiet_read)

text \<open>Statements on the other tables.\<close>
lemma quiet_other:
  assumes "sound_stmt stmt" and "\<And>tb x tb'. stmt tb = Some (x, tb') \<Longrightarrow> tb_games tb' = tb_games tb"
  shows "quiet_stmt stmt"
  using assms by (fastforce simp: quiet_stmt_def sound_stmt_def replay_part_def)

lemma quiet_update:
  assumes "\<And>r. replay_record (f r) = replay_record r" and "\<And>r. gr_id (f r) = gr_id r"
  shows "quiet_stmt (update_game i f)"
  unfolding quiet_stmt_def
proof (intro allI impI)
  fix tb n tb' assume wf: "wf_tables tb" and u: "update_game i f tb = Some (n, tb')"
  have "replay_part tb' = replay_part tb"
  proof (cases "find (\<lambda>r. gr_id r = i) (tb_games tb)")
    case None
    then show ?thesis using u by (simp add: update_game_def)
  next
    case (Some r)
    have only: "q = r" if "q \<in> set (tb_games tb)" "gr_id q = i" for q using find_id [OF wf that(1)] that(2) Some by simp
    let ?g = "\<lambda>s. if gr_id s = i then f s else s"
    have "tb_games tb' = map ?g (tb_games tb)"
      using u Some only by (auto simp: update_game_def Let_def split: if_splits)
    then have "sort_key gr_id (tb_games tb') = map ?g (sort_key gr_id (tb_games tb))"
      using sort_key_map_id [of ?g] assms(2) by simp
    then show ?thesis by (simp add: replay_part_def assms(1))
  qed
  moreover have "wf_tables tb'" using sound_update_game [OF assms(2)] wf u unfolding sound_stmt_def by blast
  ultimately show "wf_tables tb' \<and> replay_part tb' = replay_part tb" by simp
qed

lemma quiet_prepare_cached [intro]: "quiet (prepare_cached_stmt slot)"
  using quiet_run [OF quiet_read [of "\<lambda>_. ()"]]
  by (auto simp: quiet_def prepare_cached_stmt_def split: prod.splits option.splits if_splits)

lemma quiet_run_case:
  assumes "quiet_stmt stmt" and "quiet m" and "\<And>x. quiet (f x)"
  shows "quiet (\<lambda>w. case gw_run stmt w of (None, w) \<Rightarrow> m w | (Some x, w) \<Rightarrow> f x w)"
  unfolding quiet_def
proof (intro allI impI)
  fix w r w' assume run: "(case gw_run stmt w of (None, w) \<Rightarrow> m w | (Some x, w) \<Rightarrow> f x w) = (r, w')" and wf: "wf_tables (gw_tables w)"
  obtain x w1 where w1: "gw_run stmt w = (x, w1)" by force
  note q = quietD [OF quiet_run [OF assms(1)] w1 wf]
  show "wf_tables (gw_tables w') \<and> replay_part (gw_tables w') = replay_part (gw_tables w) \<and> sd_saved (gw_db w') = sd_saved (gw_db w)"
    using run w1 q quietD [OF assms(2), of w1 r w'] quietD [OF assms(3), of _ w1 r w'] by (cases x) auto
qed

lemma quiet_select_or_insert:
  assumes "quiet_stmt stmt"
  shows "quiet (select_or_insert sel lookup ins stmt)"
proof -
  have "quiet_stmt (select_row lookup)" by (auto simp: quiet_stmt_def select_row_def)
  then have "quiet (\<lambda>w. case gw_run (select_row lookup) w of (None, w) \<Rightarrow> and_then (prepare_cached_stmt ins) (\<lambda>_ w.
      case gw_run stmt w of (None, w) \<Rightarrow> (unexpected Io_Failure, w) | (Some i, w) \<Rightarrow> (Inr i, w)) w
      | (Some i, w) \<Rightarrow> (Inr i, w))"
    by (intro quiet_run_case quiet_and_then quiet_prepare_cached quiet_return assms)
  then have "quiet (\<lambda>w. case gw_run (select_row lookup) w of (Some i, w) \<Rightarrow> (Inr i, w) | (None, w) \<Rightarrow> and_then (prepare_cached_stmt ins) (\<lambda>_ w.
      case gw_run stmt w of (None, w) \<Rightarrow> (unexpected Io_Failure, w) | (Some i, w) \<Rightarrow> (Inr i, w)) w)"
    by (rule back_subst [of quiet]) (auto intro!: ext split: prod.splits option.splits)
  then show ?thesis unfolding select_or_insert_def by (intro quiet_and_then quiet_prepare_cached)
qed

lemma quiet_find_or_insert:
  "quiet (find_or_insert_player plr)" "quiet (find_or_insert_event evt)" "quiet (find_or_insert_tag name)"
proof -
  have c: "quiet (\<lambda>w. (Inr i :: nat result, cache_player n i w))" "quiet (\<lambda>w. (Inr i :: nat result, cache_event n i w))"
      "quiet (\<lambda>w. (Inr i :: nat result, cache_tag n i w))" for i n
    by (auto simp: quiet_def cache_player_def cache_event_def cache_tag_def)
  have i: "quiet_stmt (insert_player_sql plr)" "quiet_stmt (insert_event_sql evt)" "quiet_stmt (insert_tag_sql name)"
    by (rule quiet_other, rule sound_insert_player sound_insert_event sound_insert_tag,
        auto simp: insert_player_sql_def insert_event_sql_def insert_tag_sql_def)+
  have miss: "quiet m" if "quiet n" "\<And>w. m w = (case c w of Some i \<Rightarrow> (Inr i, w) | None \<Rightarrow> n w)"
    for m n :: "game_writer \<Rightarrow> nat result \<times> game_writer" and c
    using that unfolding quiet_def by (auto split: option.splits)
  show "quiet (find_or_insert_player plr)"
    by (rule miss [OF quiet_and_then [OF quiet_select_or_insert [OF i(1)] c(1)] find_or_insert_player_def])
  show "quiet (find_or_insert_event evt)"
    by (rule miss [OF quiet_and_then [OF quiet_select_or_insert [OF i(2)] c(2)] find_or_insert_event_def])
  show "quiet (find_or_insert_tag name)"
    by (rule miss [OF quiet_and_then [OF quiet_select_or_insert [OF i(3)] c(3)] find_or_insert_tag_def])
qed

lemma quiet_insert_game_tags: "quiet (insert_game_tags gid tags)"
proof (induction tags)
  case Nil
  show ?case by (simp add: quiet_def)
next
  case (Cons tag tags)
  have "quiet_stmt (insert_game_tag g t v)" for g t v
    by (rule quiet_other [OF sound_insert_game_tag]) (auto simp: insert_game_tag_def Let_def split: if_splits)
  then have "quiet (and_then (find_or_insert_tag (fst tag)) (\<lambda>tag_id. and_then (prepare_cached_stmt Insert_Game_Tag) (\<lambda>_ w.
      case gw_run (insert_game_tag (unat gid) tag_id (snd tag)) w of (None, w) \<Rightarrow> (unexpected Io_Failure, w)
      | (Some _, w) \<Rightarrow> insert_game_tags gid tags w)))"
    by (intro quiet_and_then quiet_find_or_insert quiet_prepare_cached quiet_run_case quiet_return Cons.IH)
  then show ?case by (simp add: quiet_def)
qed

section \<open>The quiet operations of the store\<close>

lemma quiet_run_update:
  "(\<And>r. replay_record (f r) = replay_record r) \<Longrightarrow> (\<And>r. gr_id (f r) = gr_id r) \<Longrightarrow> quiet (run_update key f)"
  unfolding run_update_def by (intro quiet_and_then quiet_prepared quiet_update quiet_return)

lemma replay_record_columns [simp]:
  "c \<noteq> Col_Result \<Longrightarrow> replay_record (set_text_column c x r) = replay_record r"
  "replay_record (set_side_id sd i r) = replay_record r" "replay_record (r\<lparr>gr_event_id := e\<rparr>) = replay_record r"
  "replay_record (r\<lparr>gr_source_type := a, gr_source_label := l, gr_review_status := v\<rparr>) = replay_record r"
  by (cases c; cases sd; simp add: replay_record_def)+

lemma quiet_update_fields:
  "list_all (\<lambda>(c, new). c = Col_Result \<longrightarrow> new = None) cols \<Longrightarrow> quiet (update_fields key cols)"
proof (induction cols)
  case Nil
  show ?case by (simp add: quiet_def)
next
  case (Cons c cols)
  obtain col new where c: "c = (col, new)" by force
  show ?case
  proof (cases new)
    case None
    then show ?thesis using Cons by (simp add: c quiet_def)
  next
    case (Some x)
    then have "quiet (and_then (update_text_field key col x) (\<lambda>_. update_fields key cols))"
      using Cons unfolding update_text_field_def by (intro quiet_and_then quiet_run_update) (auto simp: c)
    then show ?thesis by (simp add: c Some quiet_def)
  qed
qed

lemma quiet_patch_body:
  assumes "gq_white_elo patch = None" and "gq_black_elo patch = None" and "gq_result patch = None"
  shows "quiet (patch_body key patch)"
proof -
  have p: "quiet (patch_player key sd cur name None)" for sd cur name
    unfolding patch_player_def store_find_or_insert_player_def option.case
    by (intro quiet_and_then quiet_return quiet_case_option quiet_find_or_insert quiet_run_update) simp_all
  have e: "quiet (patch_event key cur ev si)" for cur ev si
    unfolding patch_event_def store_find_or_insert_event_def Let_def
    by (intro quiet_if quiet_and_then quiet_return quiet_find_or_insert quiet_run_update) simp_all
  have "quiet (patch_people key patch)"
    unfolding patch_people_def assms by (intro quiet_if quiet_and_then quiet_return quiet_reads [OF reads_store_get] p e)
  moreover have "quiet_stmt (delete_notes i)" for i
    by (rule quiet_other [OF sound_delete_notes]) (auto simp: delete_notes_def)
  then have "quiet (patch_notes key n)" for n
    unfolding patch_notes_def store_insert_game_tags_def
    by (intro quiet_case_option quiet_if quiet_and_then quiet_prepared quiet_return quiet_insert_game_tags)
  moreover have "quiet (update_fields key (scalar_fields patch))"
    by (rule quiet_update_fields) (simp add: scalar_fields_def assms)
  ultimately show ?thesis unfolding patch_body_def by (intro quiet_and_then)
qed

text \<open>A quiet body is quiet inside its transaction too: what is rolled back is where it started.\<close>
lemma quiet_guarded:
  assumes "quiet body" and "guarded clear_insert_caches body w = (r, w')" and "wf_tables (gw_tables w)" and "sd_saved (gw_db w) = None"
  shows "replay_part (gw_tables w') = replay_part (gw_tables w)"
proof -
  obtain g db where g: "txn_guard (gw_db w) = (g, db)" by force
  have db: "sd_tables db = gw_tables w" "g \<noteq> None \<Longrightarrow> g = Some True \<and> sd_saved db = Some (gw_tables w)"
    using g assms(4) by (auto simp: txn_guard_def sql_begin_def Let_def split: if_splits)
  show ?thesis
  proof (cases g)
    case None
    then show ?thesis using assms(2) g db(1) by (auto simp: guarded_def)
  next
    case (Some started)
    then have s: "started" "sd_saved db = Some (gw_tables w)" using db(2) by auto
    obtain b w1 where b: "body (w\<lparr>gw_db := db\<rparr>) = (b, w1)" by force
    note q = quietD [OF assms(1) b, simplified, unfolded db(1), OF assms(3)]
    show ?thesis
      using assms(2) g Some b q s
      by (auto simp: guarded_def txn_release_def txn_commit_def sql_commit_def sql_rollback_def clear_insert_caches_def Let_def
          split: sum.splits prod.splits if_splits bool.splits option.splits)
  qed
qed

lemma patch_metadata_quiet:
  assumes "patch_metadata key patch w = (r, w')" and "wf_tables (gw_tables w)" and "sd_saved (gw_db w) = None"
    and "gq_white_elo patch = None" and "gq_black_elo patch = None" and "gq_result patch = None"
  shows "replay_part (gw_tables w') = replay_part (gw_tables w)"
proof -
  obtain p w1 where p: "get_provenance key w = (p, w1)" by force
  obtain c where c: "w1 = w\<lparr>gw_db := (gw_db w)\<lparr>sd_clock := c\<rparr>\<rparr>" using readsD [OF reads_get_provenance p] by blast
  have "w' = w1 \<or> guarded clear_insert_caches (patch_body key patch) w1 = (r, w')"
    using assms(1) p by (auto simp: patch_metadata_def and_then_def return_def split: sum.splits if_splits)
  then show ?thesis using quiet_guarded [OF quiet_patch_body [OF assms(4-6)], of key w1 r w'] assms(2,3) c by auto
qed

lemma quiet_set_manual_provenance: "quiet (set_manual_provenance key label status)"
  unfolding set_manual_provenance_def by (intro quiet_and_then quiet_prepared quiet_update quiet_return) simp_all

end
