(* ===== verification/Manager_Inv.thy ===== *)
theory Manager_Inv
  imports Database_Manager Game_Store_Replay
begin

text \<open>
  The invariant of a running manager: the index it has open, and the one a manifest on the disk refers to, describe the games that
  are in the database now. It holds for the files the process sees and for those the directory is known to hold after a stop.
\<close>

section \<open>Paths\<close>

lemma nat_to_string_digits: "set (nat_to_string n) \<subseteq> {c. of_char c \<in> {48..57::nat}}"
proof (induction n rule: nat_to_string.induct)
  case (1 n)
  show ?case
  proof (cases "n < 10")
    case True
    then show ?thesis by (subst nat_to_string.simps) auto
  next
    case False
    then show ?thesis using 1 by (subst nat_to_string.simps) auto
  qed
qed

lemma postings_filename_inject [simp]: "postings_filename a = postings_filename b \<longleftrightarrow> a = b"
  by (simp add: postings_filename_def nat_to_string_inject word_unat_eq_iff)

lemma nat_to_string_dot [simp]: "nat_to_string m \<noteq> nat_to_string n @ CHR ''.'' # rest"
proof
  assume "nat_to_string m = nat_to_string n @ CHR ''.'' # rest"
  then have "CHR ''.'' \<in> set (nat_to_string m)" by simp
  then show False using nat_to_string_digits by fastforce
qed

lemmas nat_to_string_dot_sym [simp] = not_sym [OF nat_to_string_dot]

definition postings_path :: "path \<Rightarrow> u64 \<Rightarrow> path" where
  "postings_path dir build_seq = in_dir dir (postings_filename build_seq)"

definition staging_path :: "path \<Rightarrow> u64 \<Rightarrow> path" where
  "staging_path dir build_seq = in_dir dir (postings_filename build_seq @ ''.building'')"

lemma bundle_paths [simp]:
  "postings_path d a = postings_path d b \<longleftrightarrow> a = b"
  "postings_path d a \<noteq> manifest_path d" "manifest_path d \<noteq> postings_path d a"
  "postings_path d a \<noteq> manifest_temp_path d" "manifest_temp_path d \<noteq> postings_path d a"
  "postings_path d a \<noteq> staging_path d b" "staging_path d b \<noteq> postings_path d a"
  "staging_path d a \<noteq> manifest_path d" "manifest_path d \<noteq> staging_path d a"
  "\<not> scratch_path (staging_path d b) (postings_path d a)" "\<not> scratch_path (staging_path d b) (manifest_path d)"
  by (auto simp: postings_path_def staging_path_def manifest_path_def manifest_temp_path_def in_dir_def scratch_path_def
      temp_output_path_def dirspool_path_def spill_path_def postings_filename_def nat_to_string_inject
      word_unat_eq_iff)

section \<open>Artifacts\<close>

definition artifact_for :: "position_row list \<Rightarrow> bytes option \<Rightarrow> bool" where
  "artifact_for rows content \<longleftrightarrow> (\<exists>table blocks. table_for rows table \<and> wf_artifact (index_of rows) table blocks
     \<and> content = Some (artifact (index_of rows) table blocks)) \<and> (\<forall>row\<in>set rows. valid_row row)"

lemma installed_artifact: "installed rows p fs \<Longrightarrow> \<forall>row\<in>set rows. valid_row row \<Longrightarrow> artifact_for rows (fs_files fs p)"
  by (auto simp: installed_def artifact_for_def)

lemma postings_open_readable: "postings_open fs pp = (Inr u, pp') \<Longrightarrow> \<not> fs_fault fs (Open_Read (pp_path pp))"
  by (auto simp: postings_open_def ifstream_open_def Let_def split: option.splits if_splits)

lemma artifact_opened:
  assumes "artifact_for rows (fs_files fs p)" and "postings_open fs (new_postings p threshold) = (Inr u, pp)"
  shows "reader_represents (fs, pp) rows" and "pp_path pp = p"
proof -
  let ?pp = "new_postings p threshold"
  have path: "pp_path ?pp = p" by (simp add: new_postings_def)
  obtain table blocks where t: "table_for rows table" and wf: "wf_artifact (index_of rows) table blocks"
      and f: "fs_files fs (pp_path ?pp) = Some (artifact (index_of rows) table blocks)" and v: "\<forall>row\<in>set rows. valid_row row"
    using assms(1) path by (auto simp: artifact_for_def)
  have nf: "\<not> fs_fault fs (Open_Read (pp_path ?pp))" by (rule postings_open_readable [OF assms(2)])
  have pp: "pp = opened (index_of rows) table blocks ?pp" using postings_open_artifact [OF wf f nf] assms(2) by simp
  have "indexes (index_of rows) table rows" using index_of_records [OF v] t by (simp add: indexes_def)
  then show "reader_represents (fs, pp) rows" using opened_serves [OF wf f nf] pp by (auto simp: reader_represents_def)
  show "pp_path pp = p" using path by (simp add: pp opened_def assign_header_def Let_def)
qed

lemma artifact_opens:
  assumes "artifact_for rows (fs_files fs p)" and "\<not> fs_fault fs (Open_Read p)"
  shows "\<exists>pp. postings_open fs (new_postings p threshold) = (Inr (), pp)"
  using installed_opens [of rows p fs] assms by (auto simp: artifact_for_def installed_def)

text \<open>A reader only sees its own file.\<close>
lemma reader_represents_frame:
  assumes "reader_represents (fs, pp) rows" and "fs_files fs' (pp_path pp) = fs_files fs (pp_path pp)" and "fs_fault fs' = fs_fault fs"
  shows "reader_represents (fs', pp) rows"
  using assms by (simp add: reader_represents_def serves_def)

text \<open>An index built by \<open>build\<close> has as many games as the store.\<close>
definition counts_games :: "position_row list \<Rightarrow> tables \<Rightarrow> bool" where
  "counts_games rows tb \<longleftrightarrow> (\<forall>table. table_for rows table \<longrightarrow> of_nat (length table) = (of_nat (length (tb_games tb)) :: u64))"

definition covers :: "database_manager \<Rightarrow> tables \<Rightarrow> bool" where
  "covers dm tb \<longleftrightarrow> (\<exists>pp. valid_postings dm = Some pp \<and> pp_indexed_game_count pp = of_nat (length (tb_games tb)))"

lemma reader_counts: "reader_represents (fs, pp) rows \<Longrightarrow> counts_games rows tb \<Longrightarrow> pp_indexed_game_count pp = of_nat (length (tb_games tb))"
  by (auto simp: reader_represents_def serves_def indexes_def counts_games_def)

abbreviation gs_fault :: "game_store \<Rightarrow> nat \<Rightarrow> bool" where
  "gs_fault s \<equiv> sd_fault (gw_db (gs_self s))"

section \<open>The invariant\<close>

text \<open>The part of a manifest that says which index is published.\<close>
definition same_index :: "db_manifest \<Rightarrow> db_manifest \<Rightarrow> bool" where
  "same_index m m' \<longleftrightarrow> mf_derived_index_build_seq m = mf_derived_index_build_seq m'
     \<and> mf_position_postings m = mf_position_postings m' \<and> mf_opening_tree_index m = mf_opening_tree_index m'"

text \<open>The files \<open>F\<close> of a bundle: a published index that is there has the rows of the tables.\<close>
definition index_ok :: "'b manager_env \<Rightarrow> path \<Rightarrow> (path \<Rightarrow> bytes option) \<Rightarrow> tables \<Rightarrow> db_manifest \<Rightarrow> bool" where
  "index_ok env dir F tb m \<longleftrightarrow> mf_opening_tree_index m = None
     \<and> (\<forall>e. mf_position_postings m = Some e \<longrightarrow> de_filename e = postings_filename (mf_derived_index_build_seq m - 1)
          \<and> (F (postings_path dir (mf_derived_index_build_seq m - 1)) = None
             \<or> artifact_for (index_rows (me_board env) tb) (F (postings_path dir (mf_derived_index_build_seq m - 1)))))"

definition bundle_ok :: "'b manager_env \<Rightarrow> path \<Rightarrow> (path \<Rightarrow> bytes option) \<Rightarrow> tables \<Rightarrow> db_manifest \<Rightarrow> bool" where
  "bundle_ok env dir F tb m \<longleftrightarrow> index_ok env dir F tb m
     \<and> (\<exists>bs m'. F (manifest_path dir) = Some bs \<and> mj_read (me_json env) bs = Some m' \<and> same_index m' m)"

definition reader_ok :: "'b manager_env \<Rightarrow> database_manager \<Rightarrow> tables \<Rightarrow> bool" where
  "reader_ok env dm tb \<longleftrightarrow> (\<forall>pp. dm_postings dm = Some pp \<longrightarrow> mf_position_postings (dm_manifest dm) \<noteq> None \<longrightarrow>
     pp_path pp = postings_path (dm_dir dm) (mf_derived_index_build_seq (dm_manifest dm) - 1)
     \<and> reader_represents (dm_fs dm, pp) (index_rows (me_board env) tb))"

definition running :: "'b manager_env \<Rightarrow> database_manager \<Rightarrow> game_store \<Rightarrow> bool" where
  "running env dm s \<longleftrightarrow> dm_store dm = Some s \<and> store_inv s \<and> sd_saved (gw_db (gs_self s)) = None \<and> dm_dir dm \<noteq> []
     \<and> \<not> fs_fault (dm_fs dm) (Sync (dm_dir dm))
     \<and> bundle_ok env (dm_dir dm) (fs_files (dm_fs dm)) (gs_tables s) (dm_manifest dm)
     \<and> bundle_ok env (dm_dir dm) (dk_synced (dm_disk dm)) (gs_tables s) (dm_manifest dm)
     \<and> reader_ok env dm (gs_tables s)"

lemma index_ok_same: "index_ok env dir F tb m \<Longrightarrow> same_index m' m \<Longrightarrow> index_ok env dir F tb m'"
  by (simp add: index_ok_def same_index_def)

lemma bundle_ok_frame:
  assumes "bundle_ok env dir F tb m" and "F' (manifest_path dir) = F (manifest_path dir)"
    and "F' (postings_path dir (mf_derived_index_build_seq m - 1)) = F (postings_path dir (mf_derived_index_build_seq m - 1))"
  shows "bundle_ok env dir F' tb m"
  using assms by (simp add: bundle_ok_def index_ok_def)

lemma bundle_ok_tables:
  assumes "bundle_ok env dir F tb m" and "mf_position_postings m = None \<or> replay_part tb' = replay_part tb"
  shows "bundle_ok env dir F tb' m"
  using assms index_rows_cong [of tb' tb "me_board env"] by (auto simp: bundle_ok_def index_ok_def)

text \<open>A change of the database that keeps what the index is built from, or any change when no index is published.\<close>
lemma running_store:
  assumes "running env dm s" and "store_inv s'" and "sd_saved (gw_db (gs_self s')) = None"
    and "mf_position_postings (dm_manifest dm) = None \<or> replay_part (gs_tables s') = replay_part (gs_tables s)"
  shows "running env (dm\<lparr>dm_store := Some s'\<rparr>) s'"
  using assms bundle_ok_tables [where tb = "gs_tables s" and tb' = "gs_tables s'"] index_rows_cong [of "gs_tables s'" "gs_tables s" "me_board env"]
  by (auto simp: running_def reader_ok_def)

text \<open>A change of files that are neither the manifest nor the published index.\<close>
lemma running_disk:
  assumes "running env dm s" and "fs_fault (dk_fs d) = fs_fault (dm_fs dm)" and "dk_synced d = dk_synced (dm_disk dm)"
    and "fs_files (dk_fs d) (manifest_path (dm_dir dm)) = fs_files (dm_fs dm) (manifest_path (dm_dir dm))"
    and "fs_files (dk_fs d) (postings_path (dm_dir dm) (mf_derived_index_build_seq (dm_manifest dm) - 1))
       = fs_files (dm_fs dm) (postings_path (dm_dir dm) (mf_derived_index_build_seq (dm_manifest dm) - 1))"
  shows "running env (dm\<lparr>dm_disk := d\<rparr>) s"
proof -
  have "bundle_ok env (dm_dir dm) (fs_files (dk_fs d)) (gs_tables s) (dm_manifest dm)"
    using assms(1) by (intro bundle_ok_frame [OF _ assms(4,5)]) (simp add: running_def)
  moreover have "reader_ok env (dm\<lparr>dm_disk := d\<rparr>) (gs_tables s)"
    using assms(1,2,5) reader_represents_frame [of "dm_fs dm" _ _ "dk_fs d"] by (auto simp: running_def reader_ok_def)
  ultimately show ?thesis using assms(1-3) by (simp add: running_def)
qed

lemma fs_discard_files: "fs_files (fs_discard p fs) q = (if q = p \<and> \<not> fs_fault fs (Remove p) then None else fs_files fs q)"
  and fs_discard_fault [simp]: "fs_fault (fs_discard p fs) = fs_fault fs"
  by (auto simp: fs_discard_def fs_remove_def)

lemma running_discard:
  assumes "running env dm s" and "p \<noteq> manifest_path (dm_dir dm)"
    and "p \<noteq> postings_path (dm_dir dm) (mf_derived_index_build_seq (dm_manifest dm) - 1)"
  shows "running env (dm_discard p dm) s"
  unfolding dm_discard_def set_fs_def by (rule running_disk [OF assms(1)]) (use assms(2,3) in \<open>auto simp: fs_discard_files\<close>)

text \<open>Without a published index the file of an old one does not matter.\<close>
lemma running_discard_old:
  assumes "running env dm s" and "p \<noteq> manifest_path (dm_dir dm)" and "mf_position_postings (dm_manifest dm) = None"
  shows "running env (dm_discard p dm) s"
  using assms unfolding running_def dm_discard_def set_fs_def
  by (auto simp: bundle_ok_def index_ok_def reader_ok_def fs_discard_files)

text \<open>A manifest that was not published changes nothing that counts; one that was is on the disk for good.\<close>
lemma running_manifest:
  assumes "running env dm s" and "write_manifest (me_json env) (dm_dir dm) m (dm_disk dm) = (state, d)" and "manifest_faithful (me_json env)"
  shows "\<not> was_published state \<Longrightarrow> running env (dm\<lparr>dm_disk := d\<rparr>) s"
    and "was_published state \<Longrightarrow> state = Published"
    and "was_published state \<Longrightarrow> index_ok env (dm_dir dm) (fs_files (dm_fs dm)) (gs_tables s) m \<Longrightarrow>
      reader_ok env (dm\<lparr>dm_disk := d, dm_manifest := m, dm_postings := postings\<rparr>) (gs_tables s) \<Longrightarrow>
      running env (dm\<lparr>dm_disk := d, dm_manifest := m, dm_postings := postings\<rparr>) s"
proof -
  note dev = write_manifest_device [OF assms(2)] and frame = write_manifest_frame [OF assms(2)]
  show "running env (dm\<lparr>dm_disk := d\<rparr>) s" if "\<not> was_published state"
    by (rule running_disk [OF assms(1)]) (use dev write_manifest_kept [OF assms(2) that] frame in auto)
  show pub: "state = Published" if "was_published state"
    using write_manifest_published(3) [OF assms(2) that] assms(1) by (simp add: running_def)
  assume p: "was_published state" and ok: "index_ok env (dm_dir dm) (fs_files (dm_fs dm)) (gs_tables s) m"
    and r: "reader_ok env (dm\<lparr>dm_disk := d, dm_manifest := m, dm_postings := postings\<rparr>) (gs_tables s)"
  obtain bs where bs: "mj_write (me_json env) m = Some bs" "fs_files (dk_fs d) (manifest_path (dm_dir dm)) = Some bs"
    using write_manifest_published(1) [OF assms(2) p] by blast
  then have "mj_read (me_json env) bs = Some m" using assms(3) by (simp add: manifest_faithful_def)
  then have "bundle_ok env (dm_dir dm) (fs_files (dk_fs d)) (gs_tables s) m"
    using ok bs(2) frame by (auto simp: bundle_ok_def index_ok_def same_index_def)
  moreover have "dk_synced d = fs_files (dk_fs d)" using write_manifest_published(2) [OF assms(2) p] pub [OF p] by simp
  ultimately show "running env (dm\<lparr>dm_disk := d, dm_manifest := m, dm_postings := postings\<rparr>) s"
    using assms(1) dev r by (simp add: running_def)
qed

end
