(* ===== verification/Manager_Steps.thy ===== *)
theory Manager_Steps
  imports Manager_Inv
begin

text \<open>
  Every operation of the manager keeps its invariant, whichever statement of the database or operation on a file fails, as long as
  the directory can be synced.
\<close>

section \<open>The store inside the manager\<close>

lemma running_self:
  assumes "running env dm s" and "with_store (via_self m) dm = (r, dm')"
    and "\<And>x w'. m (gs_self s) = (x, w') \<Longrightarrow> good_step (gs_self s) w'"
    and "\<And>x w'. m (gs_self s) = (x, w') \<Longrightarrow> mf_position_postings (dm_manifest dm) = None \<or> replay_part (gw_tables w') = replay_part (gs_tables s)"
  shows "\<exists>s'. running env dm' s' \<and> dm' = dm\<lparr>dm_store := Some s'\<rparr> \<and> via_self m s = (r, s')"
proof -
  have st: "dm_store dm = Some s" "store_inv s" "sd_saved (gw_db (gs_self s)) = None" using assms(1) by (simp_all add: running_def)
  obtain s' where s': "via_self m s = (r, s')" "dm' = dm\<lparr>dm_store := Some s'\<rparr>"
    using assms(2) st(1) by (auto simp: with_store_def split: prod.splits)
  obtain w' where w': "m (gs_self s) = (r, w')" "gs_self s' = w'" using s'(1) by (auto simp: via_self_def split: prod.splits)
  have "store_inv s'" by (rule via_self_inv [OF st(2) s'(1)]) (use assms(3) in auto)
  moreover have "sd_saved (gw_db (gs_self s')) = None" using assms(3) [OF w'(1)] st(3) w'(2) by (simp add: good_step_def)
  moreover note assms(4) [OF w'(1)]
  ultimately show ?thesis using running_store [OF assms(1), of s'] w'(2) s' by blast
qed

lemma good_reads:
  assumes "reads m" and "writer_inv w" and "m w = (x, w')"
  shows "good_step w w'" and "gw_tables w' = gw_tables w"
  using readsD [OF assms(1,3)] assms(2) by (auto simp: good_step_def writer_inv_def)

lemma running_reads:
  assumes "running env dm s" and "with_store (via_self m) dm = (r, dm')" and "reads m"
  shows "\<exists>s'. running env dm' s' \<and> dm' = dm\<lparr>dm_store := Some s'\<rparr> \<and> gs_tables s' = gs_tables s \<and> via_self m s = (r, s')
     \<and> sd_fault (gw_db (gs_self s')) = sd_fault (gw_db (gs_self s))"
proof -
  have w: "writer_inv (gs_self s)" using assms(1) by (simp add: running_def store_inv_def)
  obtain s' where s': "running env dm' s'" "dm' = dm\<lparr>dm_store := Some s'\<rparr>" "via_self m s = (r, s')"
    using running_self [OF assms(1,2)] good_reads [OF assms(3) w] by metis
  then obtain w' where w': "m (gs_self s) = (r, w')" "gs_self s' = w'" by (auto simp: via_self_def split: prod.splits)
  obtain c where "w' = (gs_self s)\<lparr>gw_db := (gw_db (gs_self s))\<lparr>sd_clock := c\<rparr>\<rparr>" using readsD [OF assms(3) w'(1)] by blast
  then show ?thesis using s' w'(2) by (intro exI [of _ s']) simp
qed

text \<open>The check of a query changes nothing but the number of statements run.\<close>
lemma checked_postings_running:
  assumes "running env dm s" and "checked_postings err dm = (r, dm')"
  shows "\<exists>s'. running env dm' s' \<and> dm' = dm\<lparr>dm_store := Some s'\<rparr> \<and> gs_tables s' = gs_tables s \<and> gs_fault s' = gs_fault s
     \<and> (\<forall>pp. r = Inr pp \<longrightarrow> reader_represents (dm_fs dm, pp) (index_rows (me_board env) (gs_tables s)))"
proof -
  obtain c dm1 where c: "with_store (via_self count_stored_games) dm = (c, dm1)" by force
  obtain s1 where s1: "running env dm1 s1" "dm1 = dm\<lparr>dm_store := Some s1\<rparr>" "gs_tables s1 = gs_tables s" "gs_fault s1 = gs_fault s"
    using running_reads [OF assms(1) c reads_counts(1)] by blast
  have same: "dm\<lparr>dm_store := Some s\<rparr> = dm" using assms(1) by (simp add: running_def)
  have "reader_represents (dm_fs dm, pp) (index_rows (me_board env) (gs_tables s))" if "valid_postings dm = Some pp" for pp
    using that assms(1) by (auto simp: valid_postings_def running_def reader_ok_def split: option.splits if_splits)
  then show ?thesis
    using assms c s1 same
    by (cases "valid_postings dm"; cases c) (auto simp: checked_postings_def split: if_splits)
qed

section \<open>Mutations\<close>

text \<open>After a successful invalidation no index is published.\<close>
lemma mark_stale_running:
  assumes "running env dm s" and "mark_derived_indexes_stale env dm = (r, dm')" and "manifest_faithful (me_json env)"
  shows "running env dm' s" and "r = Inr u \<Longrightarrow> mf_position_postings (dm_manifest dm') = None"
proof -
  let ?m = "dm_manifest dm"
  let ?candidate = "?m\<lparr>mf_source_generation := mf_source_generation ?m + 1, mf_position_postings := None, mf_opening_tree_index := None\<rparr>"
  obtain state d where w: "write_manifest (me_json env) (dm_dir dm) ?candidate (dm_disk dm) = (state, d)" by force
  note run = running_manifest [OF assms(1) w assms(3)]
  have dir: "dm_dir dm \<noteq> []" and tree: "mf_opening_tree_index ?m = None"
    using assms(1) by (simp_all add: running_def bundle_ok_def index_ok_def)
  have named: "de_filename e = postings_filename (mf_derived_index_build_seq ?m - 1)" if "mf_position_postings ?m = Some e" for e
    using that assms(1) by (simp add: running_def bundle_ok_def index_ok_def)
  show "running env dm' s"
  proof (cases "was_published state")
    case False
    then show ?thesis using run(1) assms(2) dir w by (simp add: mark_derived_indexes_stale_def Let_def)
  next
    case True
    have "running env (dm\<lparr>dm_disk := d, dm_manifest := ?candidate, dm_postings := None\<rparr>) s"
      by (rule run(3) [OF True]) (simp_all add: index_ok_def reader_ok_def)
    then have "running env (case mf_position_postings ?m of
        None \<Rightarrow> dm\<lparr>dm_disk := d, dm_manifest := ?candidate, dm_postings := None\<rparr>
      | Some e \<Rightarrow> dm_discard (in_dir (dm_dir dm) (de_filename e)) (dm\<lparr>dm_disk := d, dm_manifest := ?candidate, dm_postings := None\<rparr>)) s"
      by (auto intro!: running_discard_old simp: named postings_path_def [symmetric] split: option.split)
    then show ?thesis using assms(2) dir w True tree by (auto simp: mark_derived_indexes_stale_def Let_def split: option.splits)
  qed
  show "mf_position_postings (dm_manifest dm') = None" if "r = Inr u"
    using that assms(2) dir w
    by (auto simp: mark_derived_indexes_stale_def Let_def dm_discard_def set_fs_def split: option.splits if_splits)
qed

lemma prepare_running:
  assumes "running env dm s" and "prepare_canonical_mutation env dm = (r, dm')" and "manifest_faithful (me_json env)"
  shows "running env dm' s" and "r = Inr u \<Longrightarrow> mf_position_postings (dm_manifest dm') = None"
  using assms mark_stale_running [OF assms(1) _ assms(3)]
  by (auto simp: prepare_canonical_mutation_def split: if_splits)

lemma running_writer:
  assumes "running env dm s" and "with_store (gs_insert xxh3 g) dm = (r, dm')" and "mf_position_postings (dm_manifest dm) = None"
  shows "\<exists>s'. running env dm' s'"
proof -
  have st: "dm_store dm = Some s" "store_inv s" "sd_saved (gw_db (gs_self s)) = None" using assms(1) by (simp_all add: running_def)
  obtain s' where s': "gs_insert xxh3 g s = (r, s')" "dm' = dm\<lparr>dm_store := Some s'\<rparr>"
    using assms(2) st(1) by (auto simp: with_store_def split: prod.splits)
  obtain w' where w': "gw_insert xxh3 g (gs_writer s) = (r, w')" "gw_db (gs_self s') = gw_db w'"
    using s'(1) by (auto simp: gs_insert_def via_writer_def split: prod.splits)
  have "sd_saved (gw_db w') = None" using gw_insert_effect [of "gs_writer s" xxh3 g r w'] w'(1) st by (simp add: store_inv_def)
  moreover have "store_inv s'" by (rule store_step_inv [OF ss_insert [OF s'(1)] st(2)])
  ultimately show ?thesis using running_store [OF assms(1), of s'] assms(3) s'(2) w'(2) by auto
qed

lemma running_and_then:
  assumes "and_then m f dm = (r, dm')" and "\<And>x dm1. m dm = (x, dm1) \<Longrightarrow> \<exists>s. running env dm1 s"
    and "\<And>x dm1. m dm = (Inr x, dm1) \<Longrightarrow> f x dm1 = (r, dm') \<Longrightarrow> \<exists>s. running env dm' s"
  shows "\<exists>s. running env dm' s"
  using assms by (auto simp: and_then_def split: prod.splits sum.splits)

lemma running_keeps:
  assumes "running env dm s" and "with_store (via_self m) dm = (r, dm')" and "keeps m"
    and "mf_position_postings (dm_manifest dm) = None \<or> quiet m"
  shows "\<exists>s'. running env dm' s'"
proof -
  have w: "writer_inv (gs_self s)" using assms(1) by (simp add: running_def store_inv_def)
  then have wf: "wf_tables (gs_tables s)" by (simp add: writer_inv_def)
  show ?thesis using running_self [OF assms(1,2)] keeps_good [OF assms(3) w] assms(4) quietD(2) [OF _ _ wf] by metis
qed

lemma insert_game_running:
  assumes "running env dm s" and "insert_game env g dm = (r, dm')" and "manifest_faithful (me_json env)"
  shows "\<exists>s'. running env dm' s'"
proof (rule running_and_then)
  show "and_then (prepare_canonical_mutation env) (\<lambda>_. with_store (gs_insert (me_xxh3 env) g)) dm = (r, dm')"
    using assms(1,2) by (auto simp: insert_game_def running_def)
qed (use prepare_running [OF assms(1) _ assms(3)] running_writer in blast)+

lemma remove_game_running:
  assumes "running env dm s" and "remove_game env key dm = (r, dm')" and "manifest_faithful (me_json env)"
  shows "\<exists>s'. running env dm' s'"
proof (rule running_and_then)
  show "and_then (prepare_canonical_mutation env) (\<lambda>_. with_store (via_self (store_remove key))) dm = (r, dm')"
    using assms(1,2) by (auto simp: remove_game_def running_def)
qed (use prepare_running [OF assms(1) _ assms(3)] running_keeps [OF _ _ keeps_store(1)] in blast)+

lemma remove_user_game_running:
  assumes "running env dm s" and "remove_user_game env key dm = (r, dm')" and "manifest_faithful (me_json env)"
  shows "\<exists>s'. running env dm' s'"
proof (rule running_and_then)
  show "and_then (with_store (via_self (get_provenance key))) (\<lambda>p. if gp_source_type p \<noteq> ''manual'' then return (unexpected Not_Editable)
      else remove_game env key) dm = (r, dm')" using assms(2) by (simp add: remove_user_game_def)
  show "\<exists>s. running env dm1 s" if "with_store (via_self (get_provenance key)) dm = (x, dm1)" for x dm1
    using running_reads [OF assms(1) that reads_get_provenance] by blast
  show "\<exists>s. running env dm' s" if "with_store (via_self (get_provenance key)) dm = (Inr x, dm1)"
    "(if gp_source_type x \<noteq> ''manual'' then return (unexpected Not_Editable) else remove_game env key) dm1 = (r, dm')" for x dm1
    using running_reads [OF assms(1) that(1) reads_get_provenance] that(2) remove_game_running [OF _ _ assms(3)]
    by (auto simp: return_def split: if_splits)
qed

lemma provenance_running:
  assumes "running env dm s" and "set_manual_game_provenance key label status dm = (r, dm')"
  shows "\<exists>s'. running env dm' s'"
  using running_keeps [OF assms(1) _ keeps_store(2)] assms(2) quiet_set_manual_provenance
  by (auto simp: set_manual_game_provenance_def)

lemma patch_running:
  assumes "running env dm s" and "with_store (via_self (patch_metadata key patch)) dm = (r, dm')"
    and "mf_position_postings (dm_manifest dm) = None \<or> gq_white_elo patch = None \<and> gq_black_elo patch = None \<and> gq_result patch = None"
  shows "\<exists>s'. running env dm' s'"
proof -
  have w: "writer_inv (gs_self s)" "sd_saved (gw_db (gs_self s)) = None"
    using assms(1) by (simp add: running_def store_inv_def) (use assms(1) in \<open>simp add: running_def\<close>)
  then have wf: "wf_tables (gs_tables s)" by (simp add: writer_inv_def)
  show ?thesis
    using running_self [OF assms(1,2)] patch_metadata_effect [OF w(1)] patch_metadata_quiet [OF _ wf w(2)] assms(3) by metis
qed

lemma narrow_elo_None: "narrow_elo elo = Inr None \<Longrightarrow> elo = None"
  by (auto simp: narrow_elo_def split: option.splits if_splits)

lemma patch_game_metadata_running:
  assumes "running env dm s" and "patch_game_metadata env key patch dm = (r, dm')" and "manifest_faithful (me_json env)"
  shows "\<exists>s'. running env dm' s'"
proof (cases "\<exists>nw nb. narrow_elo (gq_white_elo patch) = Inr nw \<and> narrow_elo (gq_black_elo patch) = Inr nb")
  case False
  then have "dm' = dm" using assms(1,2) by (auto simp: patch_game_metadata_def running_def split: sum.splits)
  then show ?thesis using assms(1) by blast
next
  case True
  then obtain nw nb where n: "narrow_elo (gq_white_elo patch) = Inr nw" "narrow_elo (gq_black_elo patch) = Inr nb" by blast
  let ?p = "if nw \<noteq> None \<or> nb \<noteq> None \<or> gq_result patch \<noteq> None then prepare_canonical_mutation env else return (Inr ())"
  have p: "running env dm1 s" "x = Inr () \<Longrightarrow> mf_position_postings (dm_manifest dm1) = None
      \<or> gq_white_elo patch = None \<and> gq_black_elo patch = None \<and> gq_result patch = None" if "?p dm = (x, dm1)" for x dm1
    using that prepare_running [OF assms(1) _ assms(3)] assms(1) n narrow_elo_None
    by (auto simp: return_def split: if_splits)
  show ?thesis
  proof (rule running_and_then)
    show "and_then ?p (\<lambda>_. with_store (via_self (patch_metadata key patch))) dm = (r, dm')"
      using assms(1,2) n by (auto simp: patch_game_metadata_def running_def)
    show "\<exists>s. running env dm1 s" if "?p dm = (x, dm1)" for x dm1 using p(1) [OF that] by blast
    show "\<exists>s. running env dm' s" if "?p dm = (Inr x, dm1)" "with_store (via_self (patch_metadata key patch)) dm1 = (r, dm')" for x dm1
      using patch_running [OF p(1) [OF that(1)] that(2)] p(2) [OF that(1)] by simp
  qed
qed

end
