(* ===== verification/Manager_Rebuild.thy ===== *)
theory Manager_Rebuild
  imports Manager_Steps
begin

text \<open>
  Building and publishing a new index, and opening and closing the manager, keep the invariant as well: until the manifest names
  the new index, only files that no manifest refers to have changed.
\<close>

section \<open>Building beside the published index\<close>

lemma visit_rows_clock:
  "visit_rows visitor rows v w = (r, v', w') \<Longrightarrow> \<exists>c. w' = w\<lparr>gw_db := (gw_db w)\<lparr>sd_clock := c\<rparr>\<rparr>"
proof (induction rows arbitrary: v w)
  case Nil
  have "reads (gw_exec (\<lambda>tb. Some ((), tb)))" by (rule reads_exec) auto
  from readsD [OF this] show ?case using Nil by (auto split: prod.splits)
next
  case (Cons row rows)
  obtain x w1 where w1: "gw_exec (\<lambda>tb. Some ((), tb)) w = (x, w1)" by force
  have "reads (gw_exec (\<lambda>tb. Some ((), tb)))" by (rule reads_exec) auto
  from readsD [OF this w1] obtain c where c: "w1 = w\<lparr>gw_db := (gw_db w)\<lparr>sd_clock := c\<rparr>\<rparr>" by blast
  obtain y v1 where v1: "visitor (replay_record row) v = (y, v1)" by force
  show ?case using Cons.prems Cons.IH [of v1 w1] w1 v1 c by (cases x; cases y) auto
qed

lemma reads_after_replay: "reads (\<lambda>w. ((), after_replay w))"
proof (rule readsI)
  fix w r w' assume a: "((), after_replay w) = (r, w')"
  obtain n w1 where n: "count_stored_games w = (n, w1)" by force
  obtain c where c: "w1 = w\<lparr>gw_db := (gw_db w)\<lparr>sd_clock := c\<rparr>\<rparr>" using readsD [OF reads_counts(1) n] by blast
  obtain x w2 where w2: "gw_exec (\<lambda>tb. Some ((), tb)) w1 = (x, w2)" by force
  have "reads (gw_exec (\<lambda>tb. Some ((), tb)))" by (rule reads_exec) auto
  from readsD [OF this w2] obtain c2 where c2: "w2 = w1\<lparr>gw_db := (gw_db w1)\<lparr>sd_clock := c2\<rparr>\<rparr>" by blast
  obtain e games w3 where f: "for_each_replay_game (\<lambda>game games. (Inr (), games @ [game])) [] w1 = (e, games, w3)" by (metis prod_cases3)
  then have "w3 = w2 \<or> (\<exists>rows. visit_rows (\<lambda>game games. (Inr (), games @ [game])) rows [] w2 = (e, games, w3))"
    using w2 by (cases x) (auto simp: for_each_replay_game_def)
  then have "w3 = w2 \<or> (\<exists>c. w3 = w2\<lparr>gw_db := (gw_db w2)\<lparr>sd_clock := c\<rparr>\<rparr>)" by (auto dest: visit_rows_clock)
  then show "\<exists>c. w' = w\<lparr>gw_db := (gw_db w)\<lparr>sd_clock := c\<rparr>\<rparr>" using a n f c c2 by (auto simp: after_replay_def)
qed

lemma build_ends: "build front ops store p threshold fs = (Inr metrics, fs') \<Longrightarrow> \<exists>u. rs_end store = Inr u"
proof -
  assume b: "build front ops store p threshold fs = (Inr metrics, fs')"
  have "ending = Inr u" if "replay_games ops games ending n fs pp = (Inr u, v)" for games ending n fs pp u v
    using that by (induction games arbitrary: n fs pp) (auto split: option.splits prod.splits sum.splits)
  then show ?thesis using b by (auto simp: build_def Let_def split: sum.splits prod.splits if_splits)
qed

lemma build_postings_running:
  assumes "running env dm s" and "build_postings env (staging_path (dm_dir dm) (mf_derived_index_build_seq (dm_manifest dm))) dm = (r, dm')"
    and "heap_front (me_front env) pc_current" and "length (index_rows (me_board env) (gs_tables s)) < 2 ^ 32"
  shows "\<exists>s' d. running env dm' s' \<and> gs_tables s' = gs_tables s \<and> gs_fault s' = gs_fault s \<and> dm' = dm\<lparr>dm_store := Some s', dm_disk := d\<rparr>
     \<and> (\<forall>metrics. r = Inr metrics \<longrightarrow> counts_games (index_rows (me_board env) (gs_tables s)) (gs_tables s)
          \<and> artifact_for (index_rows (me_board env) (gs_tables s))
          (fs_files (dm_fs dm') (staging_path (dm_dir dm) (mf_derived_index_build_seq (dm_manifest dm)))))"
proof -
  let ?p = "staging_path (dm_dir dm) (mf_derived_index_build_seq (dm_manifest dm))" and ?rows = "index_rows (me_board env) (gs_tables s)"
  have st: "dm_store dm = Some s" using assms(1) by (simp add: running_def)
  let ?s' = "snd (via_self (\<lambda>w. ((), after_replay w)) s)"
  obtain fs' where b: "build (me_front env) (me_board env) (store_replay (gs_self s)) ?p default_spill_threshold (dm_fs dm) = (r, fs')"
      and dm': "dm' = set_fs fs' (dm\<lparr>dm_store := Some ?s'\<rparr>)"
    using assms(2) st by (auto simp: build_postings_def split: prod.splits)
  have v: "via_self (\<lambda>w. ((), after_replay w)) s = ((), ?s')" by (simp add: prod_eq_iff)
  have w: "writer_inv (gs_self s)" "store_inv s" "sd_saved (gw_db (gs_self s)) = None" using assms(1) by (auto simp: running_def store_inv_def)
  note g = good_reads [OF reads_after_replay w(1) refl]
  have s': "store_inv ?s'" "gs_tables ?s' = gs_tables s" "sd_saved (gw_db (gs_self ?s')) = None"
    "gs_fault ?s' = gs_fault s"
    using readsD [OF reads_after_replay, of "gs_self s"] via_self_inv [OF w(2) v] g w(3) by (auto simp: via_self_def good_step_def)
  have run: "running env (dm\<lparr>dm_store := Some ?s'\<rparr>) ?s'" by (rule running_store [OF assms(1) s'(1,3)]) (use s'(2) in simp)
  note settled = build_settled [OF b, unfolded settled_def]
  have "running env dm' ?s'"
    unfolding dm' set_fs_def
    by (rule running_disk [OF run]) (use settled in \<open>auto simp: Postings_Atomic.keeps_def fs_same_device_def\<close>)
  moreover have "artifact_for ?rows (fs_files (dm_fs dm') ?p) \<and> counts_games ?rows (gs_tables s)" if ok: "r = Inr metrics" for metrics
  proof -
    obtain u where "rs_end (store_replay (gs_self s)) = Inr u" using build_ends b ok by blast
    note games = store_replay_complete [OF this]
    have rows: "store_rows (me_board env) (store_replay (gs_self s)) = ?rows"
      using build_replayable [OF b [unfolded ok]] by (intro games(2)) auto
    have "installed ?rows ?p fs'" "\<forall>row\<in>set ?rows. valid_row row"
      using build_Inr(1,2) [OF assms(3) b [unfolded ok]] rows assms(4) by simp_all
    moreover have "counts_games ?rows (gs_tables s)"
      using build_Inr(4) [OF assms(3) b [unfolded ok]] rows games(1) assms(4) by (simp add: counts_games_def replay_part_def)
    ultimately show ?thesis using installed_artifact by (auto simp: dm' set_fs_def)
  qed
  ultimately show ?thesis using s'(2,4) by (auto simp: dm' set_fs_def)
qed

section \<open>Publication\<close>

lemma publish_running:
  assumes "running env dm s" and "seq = mf_derived_index_build_seq (dm_manifest dm)"
    and "publish_derived_index env (postings_filename seq) True (seq + 1) dm = (state, dm')" and "manifest_faithful (me_json env)"
    and "artifact_for (index_rows (me_board env) (gs_tables s)) (fs_files (dm_fs dm) (postings_path (dm_dir dm) seq))"
    and "pp_path live = postings_path (dm_dir dm) seq" and "reader_represents (dm_fs dm, live) (index_rows (me_board env) (gs_tables s))"
  shows "\<exists>s'. gs_tables s' = gs_tables s \<and> gs_fault s' = gs_fault s \<and> dm_dir dm' = dm_dir dm
     \<and> (if was_published state then state = Published \<and> running env (dm'\<lparr>dm_postings := Some live\<rparr>) s'
          \<and> mf_derived_index_build_seq (dm_manifest dm') = seq + 1 \<and> (\<exists>e. mf_position_postings (dm_manifest dm') = Some e
          \<and> de_source_generation e = mf_source_generation (dm_manifest dm'))
        else running env dm' s' \<and> dm_manifest dm' = dm_manifest dm)"
proof -
  obtain c dmc where c: "with_store (via_self count_stored_games) dm = (c, dmc)" by force
  obtain s' where s': "running env dmc s'" "dmc = dm\<lparr>dm_store := Some s'\<rparr>" "gs_tables s' = gs_tables s" "gs_fault s' = gs_fault s"
    using running_reads [OF assms(1) c reads_counts(1)] by blast
  show ?thesis
  proof (cases "\<exists>fsz ck n. sync_file_path (in_dir (dm_dir dm) (postings_filename seq)) (dm_fs dm)
      \<and> file_checksum (in_dir (dm_dir dm) (postings_filename seq)) (dm_fs dm) = Inr (fsz, ck) \<and> c = Inr n")
    case False
    then have "state = Not_Published \<and> (dm' = dm \<or> dm' = dmc)"
      using assms(3) c by (auto simp: publish_derived_index_def Let_def split: if_splits sum.splits prod.splits)
    then show ?thesis using assms(1) s' by auto
  next
    case True
    then obtain fsz ck n where k: "sync_file_path (in_dir (dm_dir dm) (postings_filename seq)) (dm_fs dm)"
      "file_checksum (in_dir (dm_dir dm) (postings_filename seq)) (dm_fs dm) = Inr (fsz, ck)" "c = Inr n" by blast
    let ?m = "(dm_manifest dm)\<lparr>mf_derived_index_build_seq := seq + 1, mf_position_postings := Some \<lparr>de_filename = postings_filename seq,
        de_source_generation = mf_source_generation (dm_manifest dm), de_game_count = of_nat n, de_file_size = fsz, de_checksum = ck\<rparr>\<rparr>"
    obtain d where w: "write_manifest (me_json env) (dm_dir dmc) ?m (dm_disk dmc) = (state, d)"
        and dm': "dm' = (if was_published state then dmc\<lparr>dm_disk := d, dm_manifest := ?m\<rparr> else dmc\<lparr>dm_disk := d\<rparr>)"
      using assms(3) c k s'(2) by (auto simp: publish_derived_index_def Let_def split: prod.splits if_splits)
    note run = running_manifest [OF s'(1) w assms(4)]
    show ?thesis
    proof (cases "was_published state")
      case False
      then show ?thesis using run(1) dm' s' by auto
    next
      case True
      have "mf_opening_tree_index (dm_manifest dm) = None" using assms(1) by (simp add: running_def bundle_ok_def index_ok_def)
      then have "index_ok env (dm_dir dmc) (fs_files (dm_fs dmc)) (gs_tables s') ?m" using assms(5) s' by (simp add: index_ok_def)
      moreover have "fs_files (dk_fs d) (postings_path (dm_dir dm) seq) = fs_files (dm_fs dm) (postings_path (dm_dir dm) seq)"
        using write_manifest_frame [OF w] s'(2) by simp
      then have "reader_ok env (dmc\<lparr>dm_disk := d, dm_manifest := ?m, dm_postings := Some live\<rparr>) (gs_tables s')"
        using assms(6) reader_represents_frame [OF assms(7), of "dk_fs d"] write_manifest_device [OF w] s' by (simp add: reader_ok_def)
      ultimately have "running env (dmc\<lparr>dm_disk := d, dm_manifest := ?m, dm_postings := Some live\<rparr>) s'" by (rule run(3) [OF True])
      then show ?thesis using dm' True run(2) s' by auto
    qed
  qed
qed

lemma rebuild_running:
  assumes "running env dm s" and "rebuild_position_postings env dm = (r, dm')" and "manifest_faithful (me_json env)"
    and "heap_front (me_front env) pc_current" and "length (index_rows (me_board env) (gs_tables s)) < 2 ^ 32"
  shows "\<exists>s'. running env dm' s' \<and> gs_tables s' = gs_tables s \<and> gs_fault s' = gs_fault s \<and> dm_dir dm' = dm_dir dm
     \<and> (r = Inr () \<longrightarrow> covers dm' (gs_tables s))"
proof -
  let ?dir = "dm_dir dm" and ?seq = "mf_derived_index_build_seq (dm_manifest dm)"
  let ?new = "postings_path ?dir ?seq" and ?stage = "staging_path ?dir ?seq" and ?rows = "index_rows (me_board env) (gs_tables s)"
  have dir: "?dir \<noteq> []" "dm_store dm \<noteq> None" using assms(1) by (auto simp: running_def)
  have paths: "in_dir ?dir (postings_filename ?seq) = ?new" "in_dir ?dir (postings_filename ?seq @ ''.building'') = ?stage"
    by (simp_all add: postings_path_def staging_path_def)
  let ?dm0 = "dm_discard ?new (dm_discard ?stage dm)"
  have same0 [simp]: "dm_dir (dm_discard p x) = dm_dir x" "dm_manifest (dm_discard p x) = dm_manifest x"
      "dm_dir (set_fs fs x) = dm_dir x" "dm_manifest (set_fs fs x) = dm_manifest x" "dm_postings (dm_discard p x) = dm_postings x" for p x fs
    by (simp_all add: dm_discard_def set_fs_def)
  have gone: "running env (dm_discard p x) t" if "running env x t" "dm_dir x = ?dir" "dm_manifest x = dm_manifest dm" "p = ?new \<or> p = ?stage" for p x t
    using that by (intro running_discard) auto
  have run0: "running env ?dm0 s" using gone [OF gone [OF assms(1)]] by simp
  obtain b dm1 where b: "build_postings env ?stage ?dm0 = (b, dm1)" by force
  obtain s1 d1 where s1: "running env dm1 s1" "gs_tables s1 = gs_tables s" "dm1 = ?dm0\<lparr>dm_store := Some s1, dm_disk := d1\<rparr>"
    "\<forall>metrics. b = Inr metrics \<longrightarrow> counts_games ?rows (gs_tables s) \<and> artifact_for ?rows (fs_files (dm_fs dm1) ?stage)"
    "gs_fault s1 = gs_fault s"
    using build_postings_running [OF run0 _ assms(4,5), of b dm1] b by auto
  have m1: "dm_dir dm1 = ?dir" "dm_manifest dm1 = dm_manifest dm" using s1(3) by simp_all
  show ?thesis
  proof (cases "\<exists>metrics. b = Inr metrics \<and> fst (postings_open (dm_fs dm1) (new_postings ?stage default_spill_threshold)) = Inr ()
      \<and> fst (fs_rename ?stage ?new (dm_fs dm1))")
    case False
    have "running env (dm_discard ?stage dm1) s1" using gone [OF s1(1)] m1 by simp
    moreover have "dm' = dm_discard ?stage dm1 \<and> r \<noteq> Inr ()"
      using False assms(2) dir b
      by (auto simp: rebuild_position_postings_def Let_def paths fs_rename_def set_fs_def split: sum.splits prod.splits if_splits)
    ultimately show ?thesis using s1(2,5) m1 by auto
  next
    case True
    then have art: "artifact_for ?rows (fs_files (dm_fs dm1) ?stage)" "counts_games ?rows (gs_tables s)" using s1(4) by blast+
    obtain fs2 where ren: "fs_rename ?stage ?new (dm_fs dm1) = (True, fs2)" using True by (cases "fs_rename ?stage ?new (dm_fs dm1)") auto
    let ?dm2 = "set_fs fs2 dm1"
    have fs2: "fs_fault fs2 = fs_fault (dm_fs dm1)" "fs_files fs2 = (fs_files (dm_fs dm1))(?stage := None, ?new := fs_files (dm_fs dm1) ?stage)"
      using ren by (auto simp: fs_rename_def split: if_splits)
    have run2: "running env ?dm2 s1"
      unfolding set_fs_def by (rule running_disk [OF s1(1)]) (use fs2 m1 in auto)
    have art2: "artifact_for (index_rows (me_board env) (gs_tables s1)) (fs_files (dm_fs ?dm2) (postings_path (dm_dir ?dm2) ?seq))"
      using art(1) fs2 m1 s1(2) by (simp add: set_fs_def)
    obtain o2 live where op: "postings_open (dm_fs ?dm2) (new_postings ?new default_spill_threshold) = (o2, live)" by force
    show ?thesis
    proof (cases o2)
      case (Inl err)
      have "running env (dm_discard ?new ?dm2) s1" using gone [OF run2] m1 by simp
      moreover have "dm' = dm_discard ?new ?dm2 \<and> r = Inl err"
        using True assms(2) dir b ren op Inl by (auto simp: rebuild_position_postings_def Let_def paths split: sum.splits prod.splits)
      ultimately show ?thesis using s1(2,5) m1 by auto
    next
      case (Inr u)
      note live = artifact_opened [OF art2 [unfolded same0 m1] op [unfolded Inr]]
      obtain state dm3 where pub: "publish_derived_index env (postings_filename ?seq) True (?seq + 1) ?dm2 = (state, dm3)" by force
      obtain s3 where s3: "gs_tables s3 = gs_tables s1" "dm_dir dm3 = ?dir"
        "if was_published state then state = Published \<and> running env (dm3\<lparr>dm_postings := Some live\<rparr>) s3
            \<and> mf_derived_index_build_seq (dm_manifest dm3) = ?seq + 1 \<and> (\<exists>e. mf_position_postings (dm_manifest dm3) = Some e
            \<and> de_source_generation e = mf_source_generation (dm_manifest dm3))
          else running env dm3 s3 \<and> dm_manifest dm3 = dm_manifest dm" "gs_fault s3 = gs_fault s1"
        using publish_running [OF run2 _ pub assms(3) art2, of live] live m1 by (auto simp del: split_paired_Ex)
      show ?thesis
      proof (cases "was_published state")
        case False
        have "dm' = dm_discard ?new dm3 \<and> r = unexpected Io_Failure"
          using True assms(2) dir b ren op Inr pub False by (auto simp: rebuild_position_postings_def Let_def paths split: sum.splits prod.splits)
        then show ?thesis using gone [of dm3 s3 ?new] s3 False s1(2,5) by auto
      next
        case pt: True
        let ?dm4 = "dm3\<lparr>dm_postings := Some live\<rparr>"
        obtain e3 where e3: "mf_position_postings (dm_manifest dm3) = Some e3" "de_source_generation e3 = mf_source_generation (dm_manifest dm3)"
          using s3(3) pt by auto
        have run4: "running env ?dm4 s3" and seq3: "mf_derived_index_build_seq (dm_manifest dm3) = ?seq + 1" and st: "state = Published"
          using s3(3) pt by auto
        have old: "de_filename e = postings_filename (?seq - 1)" if "mf_position_postings (dm_manifest dm) = Some e" for e
          using that assms(1) by (simp add: running_def bundle_ok_def index_ok_def)
        have dm': "r = Inr () \<and> dm' = (case mf_position_postings (dm_manifest dm) of None \<Rightarrow> ?dm4
            | Some e \<Rightarrow> if de_filename e = postings_filename ?seq then ?dm4 else dm_discard (in_dir ?dir (de_filename e)) ?dm4)"
          using True assms(2) dir b ren op Inr pub pt st m1 s3(2)
          by (auto simp: rebuild_position_postings_def Let_def paths split: sum.splits prod.splits option.splits)
        have "running env (dm_discard (postings_path ?dir (?seq - 1)) ?dm4) s3"
          by (rule running_discard [OF run4]) (use s3(2) seq3 in auto)
        then have "running env dm' s3" using dm' run4 old by (auto simp: postings_path_def split: option.splits)
        moreover have "valid_postings dm' = Some live \<and> dm_dir dm' = ?dir"
          using dm' dir(1) s3(2) e3 by (auto simp: valid_postings_def has_valid_derived_index_def split: option.splits)
        moreover have "pp_indexed_game_count live = of_nat (length (tb_games (gs_tables s)))"
          using reader_counts [OF live(1)] art(2) s1(2) by simp
        ultimately show ?thesis using s3(1,4) s1(2,5) by (auto simp: covers_def)
      qed
    qed
  qed
qed

end
