(* ===== verification/Manager_Bundle.thy ===== *)
theory Manager_Bundle
  imports Manager_Rebuild
begin

text \<open>
  The life of a bundle: creation, requests, closing, a stop of the machine at any moment between two operations, and opening
  again. The invariant holds in every state of it, so that an index that answers has the games of the database.
\<close>

section \<open>Closing\<close>

text \<open>The invariant reads of the manifest only which index is published.\<close>
lemma running_same:
  assumes "running env dm s" and "same_index m (dm_manifest dm)"
  shows "running env (dm\<lparr>dm_manifest := m\<rparr>) s"
proof -
  have "bundle_ok env dir F tb m" if "bundle_ok env dir F tb (dm_manifest dm)" for dir F tb
    using that assms(2) unfolding bundle_ok_def index_ok_def same_index_def by simp metis
  moreover have "reader_ok env (dm\<lparr>dm_manifest := m\<rparr>) (gs_tables s)"
    using assms by (simp add: running_def reader_ok_def same_index_def)
  ultimately show ?thesis using assms(1) by (simp add: running_def)
qed

lemma running_rewrite:
  assumes "running env dm s" and "write_manifest (me_json env) (dm_dir dm) (dm_manifest dm) (dm_disk dm) = (state, d)"
    and "manifest_faithful (me_json env)"
  shows "running env (dm\<lparr>dm_disk := d\<rparr>) s"
proof (cases "was_published state")
  case False
  then show ?thesis by (rule running_manifest(1) [OF assms])
next
  case True
  have "index_ok env (dm_dir dm) (fs_files (dm_fs dm)) (gs_tables s) (dm_manifest dm)"
    using assms(1) by (simp add: running_def bundle_ok_def)
  moreover have "reader_ok env (dm\<lparr>dm_disk := d, dm_manifest := dm_manifest dm, dm_postings := dm_postings dm\<rparr>) (gs_tables s)"
    using assms(1) write_manifest_frame [OF assms(2)] write_manifest_device [OF assms(2)] reader_represents_frame [of "dm_fs dm" _ _ "dk_fs d"]
    by (auto simp: running_def reader_ok_def)
  ultimately have "running env (dm\<lparr>dm_disk := d, dm_manifest := dm_manifest dm, dm_postings := dm_postings dm\<rparr>) s"
    by (rule running_manifest(3) [OF assms True])
  then show ?thesis by simp
qed

lemma count_stored: "count_stored_games w = (Inr n, w') \<Longrightarrow> n = length (tb_games (gw_tables w))"
  by (auto simp: count_stored_games_def run_query_def run_prepared_def and_then_def gw_exec_def gw_run_def sql_run_def Let_def
      split: prod.splits sum.splits option.splits if_splits)

lemma valid_postings_store [simp]: "valid_postings (dm\<lparr>dm_store := s\<rparr>) = valid_postings dm"
  by (simp add: valid_postings_def has_valid_derived_index_def split: option.split)

lemma checked_covers:
  assumes "checked_postings err dm = (Inr pp, dm')" and "dm_store dm = Some s"
  shows "covers dm (gs_tables s)"
  using assms count_stored [of "gs_self s"]
  by (auto simp: checked_postings_def covers_def with_store_def via_self_def split: option.splits sum.splits prod.splits if_splits)

lemma cover_running:
  assumes "running env dm s" and "postings_cover_canonical_games dm = (b, dm')"
  shows "\<exists>s'. running env dm' s' \<and> dm' = dm\<lparr>dm_store := Some s'\<rparr> \<and> gs_tables s' = gs_tables s \<and> gs_fault s' = gs_fault s
     \<and> (b \<longrightarrow> covers dm' (gs_tables s))"
proof -
  obtain r where r: "checked_postings Io_Failure dm = (r, dm')" "b \<longleftrightarrow> (\<exists>pp. r = Inr pp)"
    using assms(2) by (auto simp: postings_cover_canonical_games_def split: prod.splits sum.splits)
  have st: "dm_store dm = Some s" using assms(1) by (simp add: running_def)
  obtain s' where s': "running env dm' s'" "dm' = dm\<lparr>dm_store := Some s'\<rparr>" "gs_tables s' = gs_tables s" "gs_fault s' = gs_fault s"
    using checked_postings_running [OF assms(1) r(1)] by blast
  have "covers dm' (gs_tables s)" if "b"
    using checked_covers [OF _ st] r that s'(2) by (auto simp: covers_def)
  then show ?thesis using s' by blast
qed

text \<open>What a stopped bundle has on the disk.\<close>
definition stopped_ok :: "'b manager_env \<Rightarrow> path \<Rightarrow> disk \<Rightarrow> tables \<Rightarrow> bool" where
  "stopped_ok env dir d tb \<longleftrightarrow> dir \<noteq> [] \<and> \<not> fs_fault (dk_fs d) (Sync dir) \<and> wf_tables tb
     \<and> (\<exists>m. bundle_ok env dir (fs_files (dk_fs d)) tb m \<and> bundle_ok env dir (dk_synced d) tb m)"

lemma running_stopped: "running env dm s \<Longrightarrow> stopped_ok env (dm_dir dm) (dm_disk dm) (gs_tables s)"
  by (auto simp: running_def stopped_ok_def store_inv_def writer_inv_def)

lemma close_running:
  assumes "running env dm s" and "manifest_faithful (me_json env)"
  shows "stopped_ok env (dm_dir dm) (dm_disk (close_manager env dm)) (gs_tables s)"
proof -
  obtain c dm1 where c: "with_store (via_self count_stored_games) dm = (c, dm1)" by force
  obtain s1 where s1: "running env dm1 s1" "dm1 = dm\<lparr>dm_store := Some s1\<rparr>" "gs_tables s1 = gs_tables s"
    using running_reads [OF assms(1) c reads_counts(1)] by blast
  define dm2 where "dm2 = (case c of Inl _ \<Rightarrow> dm1 | Inr n \<Rightarrow> dm1\<lparr>dm_manifest := (dm_manifest dm1)\<lparr>mf_game_count := of_nat n\<rparr>\<rparr>)"
  have run2: "running env dm2 s1" "dm_dir dm2 = dm_dir dm"
    using s1 running_same [OF s1(1)] by (auto simp: dm2_def same_index_def split: sum.split)
  obtain b dm3 where b: "postings_cover_canonical_games dm2 = (b, dm3)" by force
  obtain s3 where s3: "running env dm3 s3" "dm3 = dm2\<lparr>dm_store := Some s3\<rparr>" "gs_tables s3 = gs_tables s1"
    using cover_running [OF run2(1) b] by blast
  define dm4 where "dm4 = (if b then dm3\<lparr>dm_manifest := (dm_manifest dm3)\<lparr>mf_position_index_dirty := False\<rparr>\<rparr> else dm3)"
  have run4: "running env dm4 s3" "dm_dir dm4 = dm_dir dm"
    using s3 run2(2) running_same [OF s3(1)] by (auto simp: dm4_def same_index_def)
  obtain state d where w: "write_manifest (me_json env) (dm_dir dm4) (dm_manifest dm4) (dm_disk dm4) = (state, d)" by force
  have "dm_disk (close_manager env dm) = d"
    using assms(1) c b w by (auto simp: close_manager_def running_def dm2_def dm4_def Let_def split: sum.splits if_splits)
  then show ?thesis
    using running_stopped [OF running_rewrite [OF run4(1) w assms(2)]] run4(2) s3(3) s1(3) by simp
qed

lemma mark_dirty_running:
  assumes "running env dm s" and "mark_dirty env dm = (r, dm')" and "manifest_faithful (me_json env)"
  shows "r = Inr () \<Longrightarrow> running env dm' s \<and> valid_postings dm' = valid_postings dm"
    and "r \<noteq> Inr () \<Longrightarrow> stopped_ok env (dm_dir dm) (dm_disk dm') (gs_tables s)"
proof -
  let ?dm = "dm\<lparr>dm_manifest := (dm_manifest dm)\<lparr>mf_position_index_dirty := True\<rparr>\<rparr>"
  have run: "running env ?dm s" by (rule running_same [OF assms(1)]) (simp add: same_index_def)
  obtain state d where w: "write_manifest (me_json env) (dm_dir ?dm) (dm_manifest ?dm) (dm_disk ?dm) = (state, d)" by force
  note run' = running_rewrite [OF run w assms(3)]
  show "running env dm' s \<and> valid_postings dm' = valid_postings dm" if "r = Inr ()"
    using that assms(2) w run' by (auto simp: mark_dirty_def Let_def valid_postings_def has_valid_derived_index_def split: if_splits option.split)
  show "stopped_ok env (dm_dir dm) (dm_disk dm') (gs_tables s)" if "r \<noteq> Inr ()"
    using that assms(2) w close_running [OF run' assms(3)] by (auto simp: mark_dirty_def Let_def split: if_splits)
qed

section \<open>Opening\<close>

definition indexable :: "'b manager_env \<Rightarrow> tables \<Rightarrow> bool" where
  "indexable env tb \<longleftrightarrow> length (index_rows (me_board env) tb) < 2 ^ 32"

lemma finish_open:
  assumes "running env dm s" and "rebuild_position_postings env dm = (r, dm')" and "manifest_faithful (me_json env)"
    and "heap_front (me_front env) pc_current" and "indexable env (gs_tables s)"
  shows "r = Inl err \<Longrightarrow> stopped_ok env (dm_dir dm) (dm_disk (close_manager env dm')) (gs_tables s)"
    and "r = Inr () \<Longrightarrow> \<exists>s'. running env dm' s' \<and> gs_tables s' = gs_tables s \<and> gs_fault s' = gs_fault s \<and> dm_dir dm' = dm_dir dm
      \<and> covers dm' (gs_tables s)"
proof -
  obtain s' where s': "running env dm' s'" "gs_tables s' = gs_tables s" "dm_dir dm' = dm_dir dm" "r = Inr () \<longrightarrow> covers dm' (gs_tables s)"
    "gs_fault s' = gs_fault s"
    using rebuild_running [OF assms(1-4) assms(5) [unfolded indexable_def]] by blast
  show "stopped_ok env (dm_dir dm) (dm_disk (close_manager env dm')) (gs_tables s)" if "r = Inl err"
    using close_running [OF s'(1) assms(3)] s'(2,3) by simp
  show "\<exists>s'. running env dm' s' \<and> gs_tables s' = gs_tables s \<and> gs_fault s' = gs_fault s \<and> dm_dir dm' = dm_dir dm
      \<and> covers dm' (gs_tables s)" if "r = Inr ()"
    using that s' by blast
qed

lemma fresh_store_inv: "wf_tables (sd_tables conn) \<Longrightarrow> sd_saved conn = None \<Longrightarrow> store_inv (new_game_store conn)"
  by (simp add: store_inv_def new_game_store_def new_game_writer_def writer_inv_def caches_sound_def)

lemma created_running:
  assumes "write_manifest (me_json env) dir (make_manifest version now name) d = (Published, d1)" and "manifest_faithful (me_json env)"
    and "\<not> fs_fault (dk_fs d) (Sync dir)" and "dir \<noteq> []" and "sd_tables conn = empty_tables" and "sd_saved conn = None"
  shows "running env \<lparr>dm_store = Some (new_game_store conn), dm_manifest = make_manifest version now name, dm_dir = dir,
     dm_postings = None, dm_disk = d1\<rparr> (new_game_store conn)"
proof -
  let ?m = "make_manifest version now name" and ?s = "new_game_store conn"
  have s: "store_inv ?s" "gs_tables ?s = empty_tables" "sd_saved (gw_db (gs_self ?s)) = None"
    using store_inv_new [OF assms(5,6)] assms(5,6) by (simp_all add: new_game_store_def new_game_writer_def)
  obtain bs where bs: "mj_write (me_json env) ?m = Some bs" "fs_files (dk_fs d1) (manifest_path dir) = Some bs"
    using write_manifest_published(1) [OF assms(1)] by auto
  then have read: "mj_read (me_json env) bs = Some ?m" using assms(2) by (simp add: manifest_faithful_def)
  have synced: "dk_synced d1 = fs_files (dk_fs d1)" using write_manifest_published(2) [OF assms(1)] by simp
  have "bundle_ok env dir (fs_files (dk_fs d1)) empty_tables ?m"
    using bs(2) read by (auto simp: bundle_ok_def index_ok_def make_manifest_def same_index_def)
  then show ?thesis
    using s synced write_manifest_device [OF assms(1)] assms(3,4) by (simp add: running_def reader_ok_def)
qed

text \<open>A created bundle starts with the index of no games.\<close>
lemma create_running:
  assumes "create_manager env dir (make_manifest version now name) conn d = (Inr (), dm)" and "manifest_faithful (me_json env)"
    and "heap_front (me_front env) pc_current" and "\<not> fs_fault (dk_fs d) (Sync dir)" and "dir \<noteq> []"
    and "sd_tables conn = empty_tables" and "sd_saved conn = None"
  shows "\<exists>s. running env dm s \<and> gs_tables s = empty_tables \<and> gs_fault s = sd_fault conn \<and> covers dm empty_tables \<and> dm_dir dm = dir"
proof -
  let ?m = "make_manifest version now name" and ?s = "new_game_store conn"
  obtain d1 where w: "write_manifest (me_json env) dir ?m d = (Published, d1)"
    using assms(1) by (auto simp: create_manager_def Let_def split: prod.splits if_splits)
  let ?dm = "\<lparr>dm_store = Some ?s, dm_manifest = ?m, dm_dir = dir, dm_postings = None, dm_disk = d1\<rparr>"
  have s: "gs_tables ?s = empty_tables" "gs_fault ?s = sd_fault conn" using assms(6) by (simp_all add: new_game_store_def new_game_writer_def)
  note run = created_running [OF w assms(2,4-7)]
  have idx: "indexable env (gs_tables ?s)" by (simp add: s(1) indexable_def index_rows_def replay_part_def empty_tables_def map_filter_simps)
  obtain dm1 where r: "rebuild_position_postings env ?dm = (Inr (), dm1)" and md: "mark_dirty env dm1 = (Inr (), dm)"
    using assms(1) w by (auto simp: create_manager_def Let_def split: prod.splits if_splits sum.splits)
  obtain s1 where s1: "running env dm1 s1" "gs_tables s1 = gs_tables ?s" "gs_fault s1 = gs_fault ?s" "covers dm1 (gs_tables ?s)"
      "dm_dir dm1 = dir"
    using finish_open(2) [OF run r assms(2,3) idx refl] by auto
  have "dm_dir dm = dir" using md s1(5) by (auto simp: mark_dirty_def Let_def split: prod.splits if_splits)
  then show ?thesis using mark_dirty_running(1) [OF s1(1) md assms(2) refl] s1(2-4) s by (auto simp: covers_def)
qed

lemma read_bundle:
  assumes "stopped_ok env dir d tb" and "read_manifest (me_json env) dir (dk_fs d) = Inr m"
  shows "bundle_ok env dir (fs_files (dk_fs d)) tb m" and "bundle_ok env dir (dk_synced d) tb m"
proof -
  obtain m0 where m0: "bundle_ok env dir (fs_files (dk_fs d)) tb m0" "bundle_ok env dir (dk_synced d) tb m0"
    using assms(1) by (auto simp: stopped_ok_def)
  have "same_index m m0"
    using assms(2) m0(1) by (auto simp: read_manifest_def bundle_ok_def ifstream_open_def split: option.splits if_splits)
  then show "bundle_ok env dir (fs_files (dk_fs d)) tb m" "bundle_ok env dir (dk_synced d) tb m"
    using m0 unfolding bundle_ok_def index_ok_def same_index_def by (simp_all, metis+)
qed

text \<open>An index that passes the checks of \<open>open\<close> has the rows of the database.\<close>
lemma loaded_reader:
  assumes "bundle_ok env dir (fs_files fs) tb m" and "mf_position_postings m = Some e" and "artifact_matches_manifest dir e fs"
    and "postings_open fs (new_postings (in_dir dir (de_filename e)) threshold) = (Inr u, pp)"
  shows "pp_path pp = postings_path dir (mf_derived_index_build_seq m - 1) \<and> reader_represents (fs, pp) (index_rows (me_board env) tb)"
proof -
  let ?p = "postings_path dir (mf_derived_index_build_seq m - 1)"
  have f: "in_dir dir (de_filename e) = ?p" using assms(1,2) by (simp add: bundle_ok_def index_ok_def postings_path_def)
  moreover have "fs_files fs ?p \<noteq> None"
    using assms(3) f by (auto simp: artifact_matches_manifest_def file_checksum_def fs_file_size_def split: option.splits)
  ultimately have "artifact_for (index_rows (me_board env) tb) (fs_files fs ?p)"
    using assms(1,2) by (auto simp: bundle_ok_def index_ok_def)
  then show ?thesis using artifact_opened assms(4) f by metis
qed

lemma rebuilt_or_covered:
  assumes "running env dm s" and "manifest_faithful (me_json env)" and "heap_front (me_front env) pc_current" and "indexable env (gs_tables s)"
    and "(if b then mark_dirty env dm else case rebuild_position_postings env dm of
        (Inl err, dm) \<Rightarrow> (Inl err, close_manager env dm) | (Inr _, dm) \<Rightarrow> mark_dirty env dm) = (r, dm')"
  shows "r = Inr () \<Longrightarrow> b \<longrightarrow> covers dm (gs_tables s) \<Longrightarrow>
      \<exists>s'. running env dm' s' \<and> gs_tables s' = gs_tables s \<and> gs_fault s' = gs_fault s \<and> covers dm' (gs_tables s)"
    and "r \<noteq> Inr () \<Longrightarrow> stopped_ok env (dm_dir dm) (dm_disk dm') (gs_tables s)"
proof -
  obtain r1 dm1 where r1: "rebuild_position_postings env dm = (r1, dm1)" by force
  note fin = finish_open [OF assms(1) r1 assms(2-4)]
  consider (covered) "b" "mark_dirty env dm = (r, dm')" | (rebuilt) "r1 = Inr ()" "mark_dirty env dm1 = (r, dm')"
    | (failed) err where "r1 = Inl err" "r = Inl err" "dm' = close_manager env dm1"
    using assms(5) r1 by (cases r1) (auto split: if_splits)
  then have "(r = Inr () \<longrightarrow> (b \<longrightarrow> covers dm (gs_tables s)) \<longrightarrow>
        (\<exists>s'. running env dm' s' \<and> gs_tables s' = gs_tables s \<and> gs_fault s' = gs_fault s \<and> covers dm' (gs_tables s)))
      \<and> (r \<noteq> Inr () \<longrightarrow> stopped_ok env (dm_dir dm) (dm_disk dm') (gs_tables s))"
  proof cases
    case covered
    then show ?thesis using mark_dirty_running [OF assms(1) _ assms(2)] unfolding covers_def by metis
  next
    case rebuilt
    then obtain s1 where s1: "running env dm1 s1" "gs_tables s1 = gs_tables s" "gs_fault s1 = gs_fault s" "dm_dir dm1 = dm_dir dm"
        "covers dm1 (gs_tables s)"
      using fin(2) by blast
    then show ?thesis using mark_dirty_running [OF s1(1) rebuilt(2) assms(2)] unfolding covers_def by metis
  next
    case failed
    then show ?thesis using fin(1) by simp
  qed
  then show "r = Inr () \<Longrightarrow> b \<longrightarrow> covers dm (gs_tables s) \<Longrightarrow>
      \<exists>s'. running env dm' s' \<and> gs_tables s' = gs_tables s \<and> gs_fault s' = gs_fault s \<and> covers dm' (gs_tables s)"
    "r \<noteq> Inr () \<Longrightarrow> stopped_ok env (dm_dir dm) (dm_disk dm') (gs_tables s)" by blast+
qed

text \<open>After a readable manifest, \<open>open\<close> has loaded the index or not, and goes on from a manager with the invariant.\<close>
lemma open_loaded:
  assumes "stopped_ok env dir d tb" and "read_manifest (me_json env) dir (dk_fs d) = Inr m" and "sd_tables conn = tb" and "sd_saved conn = None"
  shows "\<exists>s2 dm2 b. open_manager env dir conn d = (if b then mark_dirty env dm2 else case rebuild_position_postings env dm2 of
        (Inl err, dm) \<Rightarrow> (Inl err, close_manager env dm) | (Inr _, dm) \<Rightarrow> mark_dirty env dm)
     \<and> running env dm2 s2 \<and> gs_tables s2 = tb \<and> gs_fault s2 = sd_fault conn \<and> dm_disk dm2 = d \<and> dm_dir dm2 = dir \<and> (b \<longrightarrow> covers dm2 tb)"
proof -
  let ?s = "new_game_store conn"
  have st: "store_inv ?s" "gs_tables ?s = tb" "sd_saved (gw_db (gs_self ?s)) = None" "gs_fault ?s = sd_fault conn"
    using fresh_store_inv [of conn] assms(1,3,4) by (simp_all add: stopped_ok_def new_game_store_def new_game_writer_def)
  note m = read_bundle [OF assms(1,2)]
  define dm0 where "dm0 = \<lparr>dm_store = Some ?s, dm_manifest = make_manifest 1 [] [], dm_dir = dir, dm_postings = None, dm_disk = d\<rparr>\<lparr>dm_manifest := m\<rparr>"
  define dm1 where "dm1 = (case mf_position_postings m of None \<Rightarrow> dm0
    | Some e \<Rightarrow> if \<not> artifact_matches_manifest dir e (dk_fs d) then dm0
        else case postings_open (dk_fs d) (new_postings (in_dir dir (de_filename e)) default_spill_threshold) of
            (Inl _, _) \<Rightarrow> dm0 | (Inr _, postings) \<Rightarrow> dm0\<lparr>dm_postings := Some postings\<rparr>)"
  have "running env dm0 ?s" using st m assms(1) by (simp add: dm0_def running_def stopped_ok_def reader_ok_def)
  moreover have "reader_ok env dm1 tb"
    using loaded_reader [OF m(1)] by (auto simp: dm1_def dm0_def reader_ok_def split: option.splits prod.splits sum.splits)
  ultimately have run1: "running env dm1 ?s" "dm_dir dm1 = dir" "dm_disk dm1 = d"
    using st(2) by (auto simp: running_def dm1_def dm0_def split: option.splits prod.splits sum.splits)
  obtain b dm2 where b: "postings_cover_canonical_games dm1 = (b, dm2)" by force
  have "open_manager env dir conn d = (case postings_cover_canonical_games dm1 of (True, dm) \<Rightarrow> mark_dirty env dm
      | (False, dm) \<Rightarrow> (case rebuild_position_postings env dm of
          (Inl err, dm) \<Rightarrow> (Inl err, close_manager env dm) | (Inr _, dm) \<Rightarrow> mark_dirty env dm))"
    unfolding open_manager_def Let_def assms(2) sum.case dm1_def dm0_def by (rule refl)
  then have op: "open_manager env dir conn d = (if b then mark_dirty env dm2 else case rebuild_position_postings env dm2 of
      (Inl err, dm) \<Rightarrow> (Inl err, close_manager env dm) | (Inr _, dm) \<Rightarrow> mark_dirty env dm)"
    using b by simp
  obtain s2 where "running env dm2 s2" "gs_tables s2 = tb" "gs_fault s2 = sd_fault conn" "dm_disk dm2 = d" "dm_dir dm2 = dir" "b \<longrightarrow> covers dm2 tb"
    using cover_running [OF run1(1) b] run1(2,3) st(2,4) by auto
  with op show ?thesis by blast
qed

text \<open>Whatever a stop left, opening gives a manager with the invariant, or leaves the bundle as sound as it was.\<close>
lemma open_running:
  assumes "stopped_ok env dir d tb" and "open_manager env dir conn d = (r, dm)" and "manifest_faithful (me_json env)"
    and "heap_front (me_front env) pc_current" and "indexable env tb" and "sd_tables conn = tb" and "sd_saved conn = None"
  shows "if r = Inr () then \<exists>s. running env dm s \<and> gs_tables s = tb \<and> gs_fault s = sd_fault conn \<and> covers dm tb
     else stopped_ok env dir (dm_disk dm) tb"
proof (cases "read_manifest (me_json env) dir (dk_fs d)")
  case (Inl err)
  then show ?thesis using assms(1,2) by (auto simp: open_manager_def Let_def)
next
  case (Inr m)
  obtain s2 dm2 b where op: "open_manager env dir conn d = (if b then mark_dirty env dm2 else case rebuild_position_postings env dm2 of
        (Inl err, dm) \<Rightarrow> (Inl err, close_manager env dm) | (Inr _, dm) \<Rightarrow> mark_dirty env dm)"
      and s2: "running env dm2 s2" "gs_tables s2 = tb" "gs_fault s2 = sd_fault conn" "dm_dir dm2 = dir" "b \<longrightarrow> covers dm2 tb"
    using open_loaded [OF assms(1) Inr assms(6,7)] by blast
  show ?thesis using rebuilt_or_covered [OF s2(1) assms(3,4) _ op [symmetric, unfolded assms(2)]] assms(5) s2(2-5) by simp
qed

end
