(* ===== verification/Manager_Life.thy ===== *)
theory Manager_Life
  imports Manager_Bundle
begin

text \<open>
  A bundle as a state machine: it runs, serving requests, or it has stopped, leaving files and the committed tables. A stop may be a
  close or a loss of power, after which each file is as the process last saw it or as the last sync of the directory left it.
\<close>

section \<open>Requests\<close>

datatype request =
    Insert_Game db_game
  | Set_Provenance u32 "string option" string
  | Patch_Metadata u32 game_patch
  | Remove_Game u32
  | Remove_User_Game u32
  | Rebuild_Postings
  | Query_Matches u64 nat nat
  | Query_First_Matches u64 "u32 list"
  | Query_Game_Ids u64
  | Query_Summary u64
  | Find_Games search_filter

fun serve :: "'b manager_env \<Rightarrow> request \<Rightarrow> database_manager \<Rightarrow> database_manager" where
  "serve env (Insert_Game g) dm = snd (insert_game env g dm)"
| "serve env (Set_Provenance key label status) dm = snd (set_manual_game_provenance key label status dm)"
| "serve env (Patch_Metadata key patch) dm = snd (patch_game_metadata env key patch dm)"
| "serve env (Remove_Game key) dm = snd (remove_game env key dm)"
| "serve env (Remove_User_Game key) dm = snd (remove_user_game env key dm)"
| "serve env Rebuild_Postings dm = snd (rebuild_position_postings env dm)"
| "serve env (Query_Matches hash limit offset) dm = snd (query_position_matches hash limit offset dm)"
| "serve env (Query_First_Matches hash ids) dm = snd (query_position_first_matches hash ids dm)"
| "serve env (Query_Game_Ids hash) dm = snd (position_game_ids hash dm)"
| "serve env (Query_Summary hash) dm = snd (position_summary hash dm)"
| "serve env (Find_Games f) dm = snd (manager_find_games env f dm)"

lemma query_postings_running:
  assumes "running env dm s" and "query_postings ask dm = (r, dm')"
  shows "\<exists>s'. running env dm' s' \<and> dm' = dm\<lparr>dm_store := Some s'\<rparr> \<and> gs_tables s' = gs_tables s
     \<and> (\<forall>x. r = Inr x \<longrightarrow> (\<exists>pp. reader_represents (dm_fs dm, pp) (index_rows (me_board env) (gs_tables s)) \<and> ask (dm_fs dm) pp = Inr x))"
proof -
  obtain c dm1 where c: "checked_postings Io_Failure dm = (c, dm1)" by force
  obtain s1 where s1: "running env dm1 s1" "dm1 = dm\<lparr>dm_store := Some s1\<rparr>" "gs_tables s1 = gs_tables s"
    "\<forall>pp. c = Inr pp \<longrightarrow> reader_represents (dm_fs dm, pp) (index_rows (me_board env) (gs_tables s))"
    using checked_postings_running [OF assms(1) c] by blast
  have "dm_store dm \<noteq> None" using assms(1) by (simp add: running_def)
  then have r: "dm' = dm1" "r = Inr x \<Longrightarrow> \<exists>pp. c = Inr pp \<and> ask (dm_fs dm) pp = Inr x" for x
    using assms(2) c s1(2) by (cases c; simp add: query_postings_def)+
  have "\<exists>pp. reader_represents (dm_fs dm, pp) (index_rows (me_board env) (gs_tables s)) \<and> ask (dm_fs dm) pp = Inr x" if "r = Inr x" for x
    using r(2) [OF that] s1(4) by (elim exE conjE) (rule exI, rule conjI, erule allE, erule mp)
  then show ?thesis using s1(1-3) r(1) by (intro exI [of _ s1]) simp
qed

lemma position_summary_running:
  assumes "running env dm s" and "position_summary hash dm = (r, dm')"
  shows "\<exists>s'. running env dm' s' \<and> gs_tables s' = gs_tables s
     \<and> (\<forall>x. r = Inr (Some x) \<longrightarrow> (\<exists>pp. reader_represents (dm_fs dm, pp) (index_rows (me_board env) (gs_tables s))
          \<and> postings_summary_of (dm_fs dm) pp hash = Inr (Some x)))"
proof -
  obtain c dm1 where c: "checked_postings Io_Failure dm = (c, dm1)" by force
  obtain s1 where s1: "running env dm1 s1" "dm1 = dm\<lparr>dm_store := Some s1\<rparr>" "gs_tables s1 = gs_tables s"
    "\<forall>pp. c = Inr pp \<longrightarrow> reader_represents (dm_fs dm, pp) (index_rows (me_board env) (gs_tables s))"
    using checked_postings_running [OF assms(1) c] by blast
  have "dm_store dm \<noteq> None" using assms(1) by (simp add: running_def)
  then have r: "dm' = dm1" "r = Inr (Some x) \<Longrightarrow> \<exists>pp. c = Inr pp \<and> postings_summary_of (dm_fs dm) pp hash = Inr (Some x)" for x
    using assms(2) c s1(2) by (cases c; simp add: position_summary_def)+
  have "\<exists>pp. reader_represents (dm_fs dm, pp) (index_rows (me_board env) (gs_tables s)) \<and> postings_summary_of (dm_fs dm) pp hash = Inr (Some x)"
    if "r = Inr (Some x)" for x
    using r(2) [OF that] s1(4) by (elim exE conjE) (rule exI, rule conjI, erule allE, erule mp)
  then show ?thesis using s1(1-3) r(1) by (intro exI [of _ s1]) simp
qed

lemma find_games_running:
  assumes "running env dm s" and "manager_find_games env f dm = (r, dm')"
  shows "\<exists>s'. running env dm' s' \<and> gs_tables s' = gs_tables s"
proof -
  obtain c dm1 where c: "checked_postings Io_Failure dm = (c, dm1)" by force
  obtain s1 where s1: "running env dm1 s1" "dm1 = dm\<lparr>dm_store := Some s1\<rparr>" "gs_tables s1 = gs_tables s"
    using checked_postings_running [OF assms(1) c] by blast
  have st: "dm_store dm \<noteq> None" using assms(1) by (simp add: running_def)
  have find: "\<exists>s'. running env dm' s' \<and> gs_tables s' = gs_tables s"
    if "with_store (via_self m) x = (r', dm')" "reads m" "running env x t" "gs_tables t = gs_tables s" for m x t and r' :: "game_list_result result"
    using running_reads [OF that(3,1,2)] that(4) by auto
  obtain g dm2 where g: "position_game_ids (the (sf_position f)) dm1 = (g, dm2)" by force
  obtain s2 where s2: "running env dm2 s2" "gs_tables s2 = gs_tables s"
    using query_postings_running [OF s1(1)] g s1(3) unfolding position_game_ids_def by metis
  show ?thesis
  proof (cases "sf_position f")
    case None
    then show ?thesis using find [OF _ reads_searches(1) assms(1)] assms(2) st by (auto simp: manager_find_games_def)
  next
    case (Some hash)
    have "dm' = dm1 \<or> dm' = dm2 \<or> (\<exists>m r' x. reads m \<and> (x = dm1 \<or> x = dm2) \<and> with_store (via_self m) x = (r' :: game_list_result result, dm'))"
      using assms(2) st c g Some reads_searches(2)
      by (cases c) (auto simp: manager_find_games_def and_then_def return_def Let_def split: if_splits sum.splits option.splits prod.splits, metis+)
    then show ?thesis using find s1 s2 by metis
  qed
qed

text \<open>A rebuild is within the format of the index as long as there are fewer than \<open>2 ^ 32\<close> positions.\<close>
definition request_fits :: "'b manager_env \<Rightarrow> request \<Rightarrow> database_manager \<Rightarrow> bool" where
  "request_fits env req dm \<longleftrightarrow> (case (req, dm_store dm) of (Rebuild_Postings, Some s) \<Rightarrow> indexable env (gs_tables s) | _ \<Rightarrow> True)"

lemma serve_running:
  assumes "running env dm s" and "manifest_faithful (me_json env)" and "heap_front (me_front env) pc_current" and "request_fits env req dm"
  shows "\<exists>s'. running env (serve env req dm) s'"
proof (cases req)
  case Rebuild_Postings
  have "indexable env (gs_tables s)" using assms(1,4) Rebuild_Postings by (simp add: request_fits_def running_def)
  then show ?thesis using rebuild_running [OF assms(1) _ assms(2,3)] Rebuild_Postings
    by (cases "rebuild_position_postings env dm") (auto simp: indexable_def)
next
  case (Insert_Game g)
  then show ?thesis using insert_game_running [OF assms(1) _ assms(2)] by (cases "insert_game env g dm") auto
next
  case (Set_Provenance key label status)
  then show ?thesis using provenance_running [OF assms(1)] by (cases "set_manual_game_provenance key label status dm") auto
next
  case (Patch_Metadata key patch)
  then show ?thesis using patch_game_metadata_running [OF assms(1) _ assms(2)] by (cases "patch_game_metadata env key patch dm") auto
next
  case (Remove_Game key)
  then show ?thesis using remove_game_running [OF assms(1) _ assms(2)] by (cases "remove_game env key dm") auto
next
  case (Remove_User_Game key)
  then show ?thesis using remove_user_game_running [OF assms(1) _ assms(2)] by (cases "remove_user_game env key dm") auto
next
  case (Query_Matches hash limit offset)
  then show ?thesis using query_postings_running [OF assms(1)] by (metis prod.collapse query_position_matches_def serve.simps(7))
next
  case (Query_First_Matches hash ids)
  then show ?thesis using query_postings_running [OF assms(1)] by (metis prod.collapse query_position_first_matches_def serve.simps(8))
next
  case (Query_Game_Ids hash)
  then show ?thesis using query_postings_running [OF assms(1)] by (metis prod.collapse position_game_ids_def serve.simps(9))
next
  case (Query_Summary hash)
  then show ?thesis using position_summary_running [OF assms(1)] by (metis prod.collapse serve.simps(10))
next
  case (Find_Games f)
  then show ?thesis using find_games_running [OF assms(1)] by (metis prod.collapse serve.simps(11))
qed

section \<open>The states of a bundle\<close>

datatype bundle_state = Running database_manager | Stopped path disk tables

text \<open>The files after a loss of power.\<close>
definition power_cut :: "disk \<Rightarrow> disk \<Rightarrow> bool" where
  "power_cut d d' \<longleftrightarrow> (\<forall>p. fs_files (dk_fs d') p = fs_files (dk_fs d) p \<or> fs_files (dk_fs d') p = dk_synced d p)
     \<and> dk_synced d' = fs_files (dk_fs d')"

inductive bundle_reachable :: "'b manager_env \<Rightarrow> bundle_state \<Rightarrow> bool" for env where
  created: "create_manager env dir (make_manifest version now name) conn d = (Inr (), dm) \<Longrightarrow> dir \<noteq> [] \<Longrightarrow>
    sd_tables conn = empty_tables \<Longrightarrow> sd_saved conn = None \<Longrightarrow> \<not> fs_fault (dk_fs d) (Sync dir) \<Longrightarrow>
    bundle_reachable env (Running dm)"
| served: "bundle_reachable env (Running dm) \<Longrightarrow> request_fits env req dm \<Longrightarrow> bundle_reachable env (Running (serve env req dm))"
| closed: "bundle_reachable env (Running dm) \<Longrightarrow> dm_store dm = Some s \<Longrightarrow>
    bundle_reachable env (Stopped (dm_dir dm) (dm_disk (close_manager env dm)) (gs_tables s))"
| stopped: "bundle_reachable env (Running dm) \<Longrightarrow> dm_store dm = Some s \<Longrightarrow> power_cut (dm_disk dm) d \<Longrightarrow>
    \<not> fs_fault (dk_fs d) (Sync (dm_dir dm)) \<Longrightarrow> bundle_reachable env (Stopped (dm_dir dm) d (gs_tables s))"
| opened: "bundle_reachable env (Stopped dir d tb) \<Longrightarrow> indexable env tb \<Longrightarrow> sd_tables conn = tb \<Longrightarrow> sd_saved conn = None \<Longrightarrow>
    open_manager env dir conn d = (Inr (), dm) \<Longrightarrow> bundle_reachable env (Running dm)"
| not_opened: "bundle_reachable env (Stopped dir d tb) \<Longrightarrow> indexable env tb \<Longrightarrow> sd_tables conn = tb \<Longrightarrow> sd_saved conn = None \<Longrightarrow>
    open_manager env dir conn d = (Inl err, dm) \<Longrightarrow> bundle_reachable env (Stopped dir (dm_disk dm) tb)"

fun bundle_inv :: "'b manager_env \<Rightarrow> bundle_state \<Rightarrow> bool" where
  "bundle_inv env (Running dm) \<longleftrightarrow> (\<exists>s. running env dm s)"
| "bundle_inv env (Stopped dir d tb) \<longleftrightarrow> stopped_ok env dir d tb"

lemma power_cut_stopped:
  assumes "stopped_ok env dir d tb" and "power_cut d d'" and "\<not> fs_fault (dk_fs d') (Sync dir)"
  shows "stopped_ok env dir d' tb"
proof -
  obtain m where m: "bundle_ok env dir (fs_files (dk_fs d)) tb m" "bundle_ok env dir (dk_synced d) tb m"
    using assms(1) by (auto simp: stopped_ok_def)
  let ?p = "postings_path dir (mf_derived_index_build_seq m - 1)" and ?F = "fs_files (dk_fs d')"
  have "?F (manifest_path dir) = fs_files (dk_fs d) (manifest_path dir) \<or> ?F (manifest_path dir) = dk_synced d (manifest_path dir)"
    and "?F ?p = fs_files (dk_fs d) ?p \<or> ?F ?p = dk_synced d ?p"
    using assms(2) by (auto simp: power_cut_def)
  then have "bundle_ok env dir ?F tb m" using m unfolding bundle_ok_def index_ok_def by auto
  moreover have "dk_synced d' = ?F" using assms(2) by (simp add: power_cut_def)
  ultimately show ?thesis using assms(1,3) by (auto simp: stopped_ok_def)
qed

lemma bundle_reachable_inv:
  assumes "bundle_reachable env b" and "manifest_faithful (me_json env)" and "heap_front (me_front env) pc_current"
  shows "bundle_inv env b"
  using assms(1)
proof (induction rule: bundle_reachable.induct)
  case (created dir version now name conn d dm)
  then show ?case using create_running [OF created(1) assms(2,3)] by auto
next
  case (served dm req)
  then show ?case using serve_running assms(2,3) by auto
next
  case (closed dm s)
  then obtain t where "running env dm t" by auto
  then show ?case using close_running [OF _ assms(2)] closed(2) by (auto simp: running_def)
next
  case (stopped dm s d)
  then obtain t where t: "running env dm t" by auto
  then have "t = s" using stopped(2) by (simp add: running_def)
  then show ?case using power_cut_stopped [OF running_stopped [OF t] stopped(3,4)] by simp
next
  case (opened dir d tb conn dm)
  then show ?case using open_running [OF _ opened(5) assms(2,3)] by auto
next
  case (not_opened dir d tb conn err dm)
  then show ?case using open_running [OF _ not_opened(5) assms(2,3)] by auto
qed

end
