(* ===== verification/Manager_Queries.thy ===== *)
theory Manager_Queries
  imports Manager_Life
begin

text \<open>
  What the queries of a manager return in the states that a bundle can reach, and when they return it.
\<close>

section \<open>When the index answers\<close>

lemma covers_count: "covers dm tb \<longleftrightarrow> (\<exists>pp. valid_postings dm = Some pp \<and> of_nat (length (tb_games tb)) = pp_indexed_game_count pp)"
  by (auto simp: covers_def)

lemma running_ready: "running env dm s \<Longrightarrow> gs_fault s = (\<lambda>_. False) \<Longrightarrow> store_ready s"
  by (simp add: running_def store_ready_def sd_reliable_def)

text \<open>On a connection that works, the check of a query passes exactly when the index covers the games.\<close>
lemma checked_ready:
  assumes "running env dm s" and "gs_fault s = (\<lambda>_. False)"
  shows "\<exists>s'. checked_postings err dm = (if covers dm (gs_tables s) then Inr (the (valid_postings dm)) else unexpected err, dm\<lparr>dm_store := Some s'\<rparr>)
     \<and> running env (dm\<lparr>dm_store := Some s'\<rparr>) s' \<and> gs_tables s' = gs_tables s \<and> gs_fault s' = (\<lambda>_. False)"
proof -
  have st: "dm_store dm = Some s" using assms(1) by (simp add: running_def)
  have same: "dm\<lparr>dm_store := Some s\<rparr> = dm" using st by simp
  obtain c dm1 where c: "with_store (via_self count_stored_games) dm = (c, dm1)" by force
  obtain s1 where s1: "running env dm1 s1" "dm1 = dm\<lparr>dm_store := Some s1\<rparr>" "gs_tables s1 = gs_tables s" "gs_fault s1 = gs_fault s"
    using running_reads [OF assms(1) c reads_counts(1)] by blast
  have "fst (count_stored_games (gs_self s)) = Inr (length (tb_games (gs_tables s)))"
    using query_at [OF ready_at [OF running_ready [OF assms]], of "\<lambda>tb. length (tb_games tb)"] unfolding count_stored_games_def by auto
  then have n: "c = Inr (length (tb_games (gs_tables s)))"
    using c st by (auto simp: with_store_def via_self_def split: prod.splits)
  show ?thesis
  proof (cases "valid_postings dm")
    case None
    then show ?thesis using assms same by (intro exI [of _ s]) (simp add: checked_postings_def covers_def)
  next
    case (Some pp)
    then show ?thesis using c n s1 assms(2) by (intro exI [of _ s1]) (auto simp: checked_postings_def covers_count)
  qed
qed

text \<open>The index that passes it has the rows of the games.\<close>
lemma valid_reader:
  assumes "running env dm s" and "covers dm tb"
  shows "reader_represents (dm_fs dm, the (valid_postings dm)) (index_rows (me_board env) (gs_tables s))"
proof -
  obtain pp where pp: "valid_postings dm = Some pp" using assms(2) by (auto simp: covers_def)
  then have "dm_postings dm = Some pp" "mf_position_postings (dm_manifest dm) \<noteq> None"
    by (auto simp: valid_postings_def split: option.splits if_splits)
  moreover have "reader_ok env dm (gs_tables s)" using assms(1) by (simp add: running_def)
  ultimately show ?thesis by (simp add: pp reader_ok_def)
qed

lemma query_postings_ready:
  assumes "running env dm s" and "gs_fault s = (\<lambda>_. False)"
  shows "\<exists>s'. query_postings ask dm = (if covers dm (gs_tables s) then ask (dm_fs dm) (the (valid_postings dm)) else unexpected Io_Failure,
        dm\<lparr>dm_store := Some s'\<rparr>)
     \<and> running env (dm\<lparr>dm_store := Some s'\<rparr>) s' \<and> gs_tables s' = gs_tables s \<and> gs_fault s' = (\<lambda>_. False)"
proof -
  have "dm_store dm \<noteq> None" using assms(1) by (simp add: running_def)
  then show ?thesis using checked_ready [OF assms, of Io_Failure] by (auto simp: query_postings_def)
qed

lemma query_covered:
  assumes "running env dm s" and "gs_fault s = (\<lambda>_. False)" and "covers dm (gs_tables s)"
  shows "fst (query_postings ask dm) = ask (dm_fs dm) (the (valid_postings dm))"
  using query_postings_ready [OF assms(1,2), of ask] assms(3) by auto

section \<open>A search with a position\<close>

lemma filter_window:
  assumes "distinct (map k xs)"
  shows "filter (\<lambda>x. k x \<in> set (take l (drop n (map k xs)))) xs = take l (drop n xs)"
proof -
  let ?a = "take n xs" and ?b = "take l (drop n xs)" and ?c = "drop l (drop n xs)"
  have xs: "xs = ?a @ ?b @ ?c" by (metis append_take_drop_id)
  have b: "set (take l (drop n (map k xs))) = k ` set ?b" by (simp add: take_map drop_map)
  have "distinct (map k ?a @ map k ?b @ map k ?c)" using assms xs by (metis map_append)
  then have "filter (\<lambda>x. k x \<in> k ` set ?b) ?a = []" "filter (\<lambda>x. k x \<in> k ` set ?b) ?c = []"
    by (auto simp: filter_empty_conv)
  moreover have "filter (\<lambda>x. k x \<in> k ` set ?b) ?b = ?b" by (simp add: filter_id_conv)
  ultimately have "filter (\<lambda>x. k x \<in> k ` set ?b) (?a @ ?b @ ?c) = ?b" by simp
  then show ?thesis unfolding b using xs by metis
qed

text \<open>Without other conditions and in the order of the ids, the games with the given ids are these, in that order.\<close>
definition plain_search :: "search_filter \<Rightarrow> bool" where
  "plain_search f \<longleftrightarrow> \<not> has_metadata_filter f \<and> sf_sort_column f = Sort_Id \<and> sf_sort_ascending f"

lemma plain_search_games:
  assumes "wf_tables tb" and "plain_search f"
  shows "order_games f (matching_games (Some ids) f tb) = filter (\<lambda>g. gr_id (fst g) \<in> set ids) (joined_games tb)"
proof -
  have m: "matches_filter f g" for g using assms(2) by (cases g) (simp add: plain_search_def has_metadata_filter_def)
  have "sorted (map (sort_position Sort_Id) (joined_games tb))"
    using joined_ids [OF assms(1)] by (auto simp: sort_position_def sorted_wrt_map less_eq_prod_def elim!: sorted_wrt_mono_rel [rotated])
  then have "sorted (map (sort_position Sort_Id) (filter (\<lambda>g. gr_id (fst g) \<in> set ids) (joined_games tb)))" by (rule sorted_filter)
  then show ?thesis
    using assms(2) m by (simp add: order_games_def Let_def plain_search_def matching_games_def sorted_sort_id sort_key_id_if_sorted)
qed

text \<open>The games of an index are games of the database.\<close>
lemma row_games_ids:
  assumes "key \<in> set (row_games (index_rows ops tb) hash)"
  shows "\<exists>r\<in>set (tb_games tb). key = of_nat (gr_id r)"
proof -
  obtain game rows row where g: "game \<in> set (replay_part tb)" "replay_rows ops game = Some rows" "row \<in> set rows" "pr_game_id row = key"
    using assms by (auto simp: row_games_def hash_rows_def index_rows_def map_filter_def)
  then have "key = rg_id game" using replay_rows_rows(2) [OF g(2)] by auto
  then show ?thesis using g(1) by (auto simp: replay_part_def replay_record_def)
qed

definition ids_fit :: "tables \<Rightarrow> bool" where
  "ids_fit tb \<longleftrightarrow> list_all (\<lambda>r. 0 < gr_id r \<and> gr_id r < 2 ^ 32) (tb_games tb)"

lemma ids_fit_key:
  assumes "ids_fit tb" and "r \<in> set (tb_games tb)"
  shows "unat (of_nat (gr_id r) :: u32) = gr_id r" and "(of_nat (gr_id r) :: u32) \<noteq> 0"
proof -
  show u: "unat (of_nat (gr_id r) :: u32) = gr_id r"
    using assms by (simp add: ids_fit_def list_all_iff unat_of_nat take_bit_nat_eq_self)
  show "(of_nat (gr_id r) :: u32) \<noteq> 0" using assms u by (auto simp: ids_fit_def list_all_iff)
qed

lemma position_games:
  assumes "wf_tables tb" and "ids_fit tb"
  shows "map (gr_id o fst) (filter (\<lambda>g. gr_id (fst g) \<in> unat ` set (row_games (index_rows ops tb) hash)) (joined_games tb))
     = map unat (row_games (index_rows ops tb) hash)" (is "map _ (filter ?p _) = map unat ?ids")
    and "length (row_games (index_rows ops tb) hash) < 2 ^ 32"
proof -
  note small = ids_fit_key(1) [OF assms(2)]
  have fst: "fst ` set (joined_games tb) = set (tb_games tb)" using joined_games_fst [OF assms(1)] by (metis set_map)
  have sub: "unat ` set ?ids \<subseteq> gr_id ` set (tb_games tb)"
    using row_games_ids [of _ ops tb hash] small by (force simp: image_iff)
  have "sorted_wrt (<) (map (gr_id o fst) (filter ?p (joined_games tb)))"
    using joined_ids [OF assms(1)] by (simp add: sorted_wrt_map sorted_wrt_filter)
  moreover have "sorted_wrt (<) ?ids" by (simp add: row_games_def strict_sorted_iff)
  then have "sorted_wrt (<) (map unat ?ids)" by (simp add: sorted_wrt_map) (erule sorted_wrt_mono_rel [rotated], simp add: word_less_nat_alt)
  moreover have "set (map (gr_id o fst) (filter ?p (joined_games tb))) = set (map unat ?ids)"
  proof -
    have "set (map (gr_id o fst) (filter ?p (joined_games tb))) = gr_id ` set (tb_games tb) \<inter> unat ` set ?ids"
      unfolding fst [symmetric] by auto
    then show ?thesis using sub by auto
  qed
  ultimately show eq: "map (gr_id o fst) (filter ?p (joined_games tb)) = map unat ?ids"
    by (simp add: strict_sorted_equal)
  have "0 \<notin> set ?ids" using row_games_ids [of 0 ops tb hash] ids_fit_key(2) [OF assms(2)] by metis
  then have "set ?ids \<subset> UNIV" by blast
  then have "card (set ?ids) < card (UNIV :: u32 set)" by (rule psubset_card_mono [OF finite])
  moreover have "card (set ?ids) = length ?ids" by (rule distinct_card) (simp add: row_games_def)
  ultimately show "length ?ids < 2 ^ 32" by (simp add: card_word)
qed

text \<open>The page of the fast path is the page of the search among all ids.\<close>
lemma fast_page:
  assumes "wf_tables tb" and "ids_fit tb" and "plain_search f"
  shows "(search_page (Some (map unat (page (unat (sf_limit f)) (unat (sf_offset f)) (row_games (index_rows ops tb) hash))))
        (f\<lparr>sf_position := None, sf_offset := 0\<rparr>) tb)\<lparr>gl_total_count := length (row_games (index_rows ops tb) hash)\<rparr>
     = search_page (Some (map unat (row_games (index_rows ops tb) hash))) f tb"
proof -
  let ?ids = "row_games (index_rows ops tb) hash" and ?n = "unat (sf_offset f)" and ?l = "unat (sf_limit f)"
  let ?f = "f\<lparr>sf_position := None, sf_offset := 0\<rparr>" and ?k = "\<lambda>g :: joined_game. gr_id (fst g)"
  let ?gs = "filter (\<lambda>g. ?k g \<in> unat ` set ?ids) (joined_games tb)"
  note keys = position_games(1) [OF assms(1,2), of ops hash, unfolded comp_def]
  have pf: "plain_search ?f" using assms(3) by (simp add: plain_search_def has_metadata_filter_def)
  have all: "order_games f (matching_games (Some (map unat ?ids)) f tb) = ?gs" using plain_search_games [OF assms(1,3)] by simp
  then have len: "length (matching_games (Some (map unat ?ids)) f tb) = length ?ids"
    using arg_cong [OF keys, of length] length_order_games [of f "matching_games (Some (map unat ?ids)) f tb"] by simp
  define m where "m = (if ?l = 0 then length ?ids else ?l)"
  have p: "page ?l ?n xs = take m (drop ?n xs)" if "length xs = length ?ids" for xs :: "'z list" using that by (simp add: page_def m_def)
  have pos: "set (page ?l ?n ?ids) \<subseteq> set ?ids" by (auto simp: p dest: in_set_takeD in_set_dropD)
  have "order_games ?f (matching_games (Some (map unat (page ?l ?n ?ids))) ?f tb)
      = filter (\<lambda>g. ?k g \<in> set (map unat (page ?l ?n ?ids))) ?gs"
    unfolding plain_search_games [OF assms(1) pf] filter_filter by (rule filter_cong [OF refl]) (use pos in auto)
  also have "\<dots> = filter (\<lambda>g. ?k g \<in> set (take m (drop ?n (map ?k ?gs)))) ?gs"
    by (simp add: keys p take_map drop_map)
  also have "\<dots> = take m (drop ?n ?gs)"
    by (rule filter_window) (unfold keys, simp add: distinct_map inj_on_def word_unat_eq_iff row_games_def)
  finally have part: "order_games ?f (matching_games (Some (map unat (page ?l ?n ?ids))) ?f tb) = take m (drop ?n ?gs)" .
  have "min (unat (min (sf_limit f) max_search_limit)) m = unat (min (sf_limit f) max_search_limit)" if "?l \<noteq> 0"
    using that by (simp add: m_def min_def word_le_nat_alt)
  then have "take (unat (min (sf_limit f) max_search_limit)) (take m (drop ?n ?gs)) = take (unat (min (sf_limit f) max_search_limit)) (drop ?n ?gs)"
    by (cases "?l = 0") (simp_all add: unat_eq_0 min_def)
  then show ?thesis unfolding search_page_def all len using part by simp
qed

lemma search_page_position [simp]: "search_page ids (f\<lparr>sf_position := p\<rparr>) tb = search_page ids f tb"
proof -
  have "matches_filter (f\<lparr>sf_position := p\<rparr>) g = matches_filter f g" for g by (cases g) (simp split: option.split)
  then show ?thesis by (simp add: search_page_def matching_games_def order_games_def)
qed

lemma search_running:
  assumes "running env dm s" and "gs_tables s = tb" and "gs_fault s = (\<lambda>_. False)" and "sf_offset f \<le> sqlite_max" and "distinct keys"
  shows "\<exists>t. via_self (find_games_with_ids n keys f) s = (Inr (search_page (Some (map unat keys)) f tb), t)"
proof -
  have "fst (via_self (find_games_with_ids n keys f) s) = Inr (search_page (Some (map unat keys)) f tb)"
    using search_ids_ready [OF running_ready [OF assms(1,3)] assms(4)] assms(2,5) by (simp del: fst_via)
  then show ?thesis by (metis prod.collapse)
qed

lemma find_games_position:
  assumes "running env dm s" and "gs_fault s = (\<lambda>_. False)" and "sf_position f = Some hash" and "sf_offset f \<le> sqlite_max"
    and "ids_fit (gs_tables s)"
  shows "fst (manager_find_games env f dm) = (if covers dm (gs_tables s)
     then Inr (search_page (Some (map unat (row_games (index_rows (me_board env) (gs_tables s)) hash))) f (gs_tables s))
     else unexpected Io_Failure)"
proof -
  let ?tb = "gs_tables s" and ?ids = "row_games (index_rows (me_board env) (gs_tables s)) hash" and ?pp = "the (valid_postings dm)"
  have st: "dm_store dm \<noteq> None" using assms(1) by (simp add: running_def)
  have wf: "wf_tables ?tb" by (rule ready_wf [OF running_ready [OF assms(1,2)]])
  obtain s1 where c: "checked_postings Io_Failure dm = (if covers dm ?tb then Inr ?pp else unexpected Io_Failure, dm\<lparr>dm_store := Some s1\<rparr>)"
      and run1: "running env (dm\<lparr>dm_store := Some s1\<rparr>) s1" "gs_tables s1 = ?tb" "gs_fault s1 = (\<lambda>_. False)"
    using checked_ready [OF assms(1,2)] by blast
  show ?thesis
  proof (cases "covers dm ?tb")
    case False
    then show ?thesis using st c assms(3) by (simp add: manager_find_games_def)
  next
    case True
    note rep = valid_reader [OF assms(1) True]
    note idx = artifact_reader.ids_rows [OF rep, of hash] artifact_reader.ids_page_rows [OF rep, of hash] artifact_reader.summ_rows [OF rep, of hash]
    have d: "distinct ?ids" by (simp add: row_games_def)
    show ?thesis
    proof (cases "plain_search f")
      case fast: True
      have pd: "distinct (page l n ?ids)" for l n using d by (simp add: page_def)
      have cnt: "unat (of_nat (length ?ids) :: u32) = length ?ids"
        using position_games(2) [OF wf assms(5), of "me_board env" hash] by (simp add: unat_of_nat take_bit_nat_eq_self)
      show ?thesis
      proof (cases "hash_rows (index_rows (me_board env) ?tb) hash = []")
        case none: True
        then have "?ids = []" by (simp add: row_games_def)
        then show ?thesis using st c assms(3) True fast idx(3) none search_page_none
          by (simp add: manager_find_games_def plain_search_def)
      next
        case False
        let ?f = "f\<lparr>sf_position := None, sf_offset := 0\<rparr>" and ?page = "page (unat (sf_limit f)) (unat (sf_offset f)) ?ids"
        obtain t where "via_self (find_games_with_ids (me_max_params env) ?page ?f) s1 = (Inr (search_page (Some (map unat ?page)) ?f ?tb), t)"
          using search_running [OF run1, of ?f ?page "me_max_params env"] pd by auto
        then show ?thesis
          using st c assms(3) True fast idx(2,3) False cnt fast_page [OF wf assms(5) fast, of "me_board env" hash]
          by (simp add: manager_find_games_def plain_search_def and_then_def return_def with_store_def row_summary_def split: option.splits)
      qed
    next
      case slow: False
      have q: "fst (position_game_ids hash (dm\<lparr>dm_store := Some s1\<rparr>)) = Inr ?ids"
        and "\<exists>s2. snd (position_game_ids hash (dm\<lparr>dm_store := Some s1\<rparr>)) = dm\<lparr>dm_store := Some s2\<rparr>
          \<and> running env (dm\<lparr>dm_store := Some s2\<rparr>) s2 \<and> gs_tables s2 = ?tb \<and> gs_fault s2 = (\<lambda>_. False)"
        using query_postings_ready [OF run1(1,3), of "\<lambda>fs pp. distinct_game_ids fs pp hash"] True run1(2) idx(1)
        by (auto simp: position_game_ids_def covers_def)
      then obtain s2 where s2: "position_game_ids hash (dm\<lparr>dm_store := Some s1\<rparr>) = (Inr ?ids, dm\<lparr>dm_store := Some s2\<rparr>)"
        "running env (dm\<lparr>dm_store := Some s2\<rparr>) s2" "gs_tables s2 = ?tb" "gs_fault s2 = (\<lambda>_. False)"
        by (metis prod.collapse)
      obtain t where "via_self (find_games_with_ids (me_max_params env) ?ids (f\<lparr>sf_position := None\<rparr>)) s2
          = (Inr (search_page (Some (map unat ?ids)) (f\<lparr>sf_position := None\<rparr>) ?tb), t)"
        using search_running [OF s2(2-4) _ d, of "f\<lparr>sf_position := None\<rparr>" "me_max_params env"] assms(4) by auto
      then show ?thesis
        using st c assms(3) True slow s2(1) by (auto simp: manager_find_games_def plain_search_def and_then_def with_store_def)
    qed
  qed
qed

end
