(* ===== verification/Manager_Total.thy ===== *)
theory Manager_Total
  imports Manager_Queries
begin

text \<open>
  On a device and a connection that work, the manager gets its index: building, publishing and opening succeed, whatever
  a stop left behind.
\<close>

section \<open>Writing and building\<close>

definition manifest_writable :: "manifest_codec \<Rightarrow> bool" where
  "manifest_writable json \<longleftrightarrow> (\<forall>m. mj_write json m \<noteq> None)"

lemma write_manifest_total:
  assumes "fs_no_faults (dk_fs d)" and "manifest_writable json"
  shows "\<exists>d'. write_manifest json dir m d = (Published, d') \<and> fs_no_faults (dk_fs d')"
proof -
  obtain bs where bs: "mj_write json m = Some bs" using assms(2) by (auto simp: manifest_writable_def)
  have f: "fs_fault (dk_fs d) = (\<lambda>_. False)" "fs_quota (dk_fs d) = (\<lambda>_. None)" using assms(1) by (simp_all add: fs_no_faults_def)
  have "fst (write_manifest json dir m d) = Published"
    by (simp add: write_manifest_def bs ofstream_open_def ofstream_write_def ofstream_close_def sync_file_path_def fs_rename_def
        sync_directory_def Let_def f)
  then obtain d' where d': "write_manifest json dir m d = (Published, d')" by (metis prod.collapse)
  then show ?thesis using write_manifest_device [OF d'] f by (auto simp: fs_no_faults_def)
qed

text \<open>What a build needs of the games.\<close>
definition buildable :: "'b manager_env \<Rightarrow> tables \<Rightarrow> bool" where
  "buildable env tb \<longleftrightarrow> indexable env tb \<and> ids_fit tb \<and> (\<forall>game\<in>set (replay_part tb). replayable game)"

lemma with_store_count_total:
  assumes "running env dm s" and "gs_fault s = (\<lambda>_. False)"
  shows "\<exists>s'. with_store (via_self count_stored_games) dm = (Inr (length (tb_games (gs_tables s))), dm\<lparr>dm_store := Some s'\<rparr>)"
proof -
  have "fst (via_self count_stored_games s) = Inr (length (tb_games (gs_tables s)))"
    using query_at [OF ready_at [OF running_ready [OF assms]], of "\<lambda>tb. length (tb_games tb)"] unfolding count_stored_games_def by auto
  then show ?thesis using assms(1) by (auto simp: with_store_def running_def split: prod.splits simp del: fst_via)
qed

lemma publish_total:
  assumes "running env dm s" and "gs_fault s = (\<lambda>_. False)" and "fs_no_faults (dm_fs dm)" and "manifest_writable (me_json env)"
    and "fs_files (dm_fs dm) (in_dir (dm_dir dm) filename) = Some bs"
  shows "\<exists>dm'. publish_derived_index env filename True seq dm = (Published, dm') \<and> fs_no_faults (dm_fs dm')"
proof -
  have f: "fs_fault (dm_fs dm) = (\<lambda>_. False)" using assms(3) by (simp add: fs_no_faults_def)
  obtain s' where c: "with_store (via_self count_stored_games) dm = (Inr (length (tb_games (gs_tables s))), dm\<lparr>dm_store := Some s'\<rparr>)"
    using with_store_count_total [OF assms(1,2)] by blast
  have k: "sync_file_path (in_dir (dm_dir dm) filename) (dm_fs dm)" using assms(5) f by (simp add: sync_file_path_def)
  obtain sz ck where x: "file_checksum (in_dir (dm_dir dm) filename) (dm_fs dm) = Inr (sz, ck)"
    using assms(5) f by (simp add: file_checksum_def fs_file_size_def ifstream_open_def)
  have w: "\<exists>d'. write_manifest (me_json env) (dm_dir dm) m (dm_disk dm) = (Published, d') \<and> fs_no_faults (dk_fs d')" for m
    by (rule write_manifest_total [OF assms(3,4)])
  show ?thesis using w by (simp add: publish_derived_index_def Let_def k x c split: prod.split) (metis fst_conv snd_conv prod.collapse)
qed

lemma build_postings_total:
  assumes "running env dm s" and "gs_fault s = (\<lambda>_. False)" and "fs_no_faults (dm_fs dm)" and "heap_front (me_front env) pc_current"
    and "buildable env (gs_tables s)"
  shows "\<exists>metrics dm'. build_postings env p dm = (Inr metrics, dm')"
proof -
  let ?tb = "gs_tables s" and ?store = "store_replay (gs_self s)"
  have st: "dm_store dm = Some s" using assms(1) by (simp add: running_def)
  have wf: "wf_tables ?tb" by (rule ready_wf [OF running_ready [OF assms(1,2)]])
  note at = store_replay_at [OF ready_at [OF running_ready [OF assms(1,2)]]]
  have games: "rs_games ?store = replay_part ?tb" by (simp add: at replay_part_def)
  have some: "\<forall>game\<in>set (rs_games ?store). replay_rows (me_board env) game \<noteq> None"
    using assms(5) replay_rows_Some by (fastforce simp: games buildable_def)
  have rows: "store_rows (me_board env) ?store = index_rows (me_board env) ?tb"
    by (rule store_replay_complete(2) [OF _ some]) (simp add: at)
  have ids: "rg_id game \<noteq> 0" if "game \<in> set (rs_games ?store)" for game
    using that assms(5) ids_fit_key(2) by (auto simp: games replay_part_def replay_record_def buildable_def)
  have "distinct (map gr_id (sort_key gr_id (tb_games ?tb)))"
    using wf by (simp add: wf_tables_def wf_games_def strict_sorted_iff distinct_map)
  then have "distinct (map (\<lambda>r. of_nat (gr_id r) :: u32) (sort_key gr_id (tb_games ?tb)))"
    using assms(5) ids_fit_key(1) unfolding distinct_map inj_on_def buildable_def by (metis set_sort)
  then have dist: "distinct (map rg_id (rs_games ?store))" by (simp add: games replay_part_def replay_record_def comp_def)
  have none: "sort_key gr_id (tb_games ?tb) = [] \<longleftrightarrow> tb_games ?tb = []" by (metis length_0_conv length_sort)
  have "\<exists>metrics fs'. build (me_front env) (me_board env) ?store p default_spill_threshold (dm_fs dm) = (Inr metrics, fs')"
    by (rule build_total [OF assms(4,3), where n = "int (length (tb_games ?tb))"])
      (use assms(5) ids dist rows none in \<open>simp_all add: at default_spill_threshold_def buildable_def indexable_def replay_part_def\<close>)
  then show ?thesis using st by (auto simp: build_postings_def)
qed

section \<open>A rebuild\<close>

lemma rebuild_total:
  assumes "running env dm s" and "gs_fault s = (\<lambda>_. False)" and "fs_no_faults (dm_fs dm)" and "manifest_faithful (me_json env)"
    and "manifest_writable (me_json env)" and "heap_front (me_front env) pc_current" and "buildable env (gs_tables s)"
  shows "\<exists>dm'. rebuild_position_postings env dm = (Inr (), dm') \<and> fs_no_faults (dm_fs dm')"
proof -
  let ?dir = "dm_dir dm" and ?seq = "mf_derived_index_build_seq (dm_manifest dm)"
  let ?new = "postings_path ?dir ?seq" and ?stage = "staging_path ?dir ?seq" and ?rows = "index_rows (me_board env) (gs_tables s)"
  have dir: "?dir \<noteq> []" "dm_store dm \<noteq> None" using assms(1) by (auto simp: running_def)
  have paths: "in_dir ?dir (postings_filename ?seq) = ?new" "in_dir ?dir (postings_filename ?seq @ ''.building'') = ?stage"
    by (simp_all add: postings_path_def staging_path_def)
  let ?dm0 = "dm_discard ?new (dm_discard ?stage dm)"
  have run0: "running env ?dm0 s" by (intro running_discard assms(1)) (simp_all add: dm_discard_def set_fs_def)
  have nf0: "fs_no_faults (dm_fs ?dm0)" using assms(3) by (simp add: dm_discard_def set_fs_def fs_no_faults_def fs_discard_def fs_remove_def)
  have same0: "dm_dir ?dm0 = ?dir" "dm_manifest ?dm0 = dm_manifest dm" by (simp_all add: dm_discard_def set_fs_def)
  obtain metrics dm1 where b: "build_postings env ?stage ?dm0 = (Inr metrics, dm1)"
    using build_postings_total [OF run0 assms(2) nf0 assms(6,7)] by blast
  obtain s1 d1 where s1: "running env dm1 s1" "gs_tables s1 = gs_tables s" "gs_fault s1 = gs_fault s" "dm1 = ?dm0\<lparr>dm_store := Some s1, dm_disk := d1\<rparr>"
    "artifact_for ?rows (fs_files (dm_fs dm1) ?stage)"
    using build_postings_running [OF run0, of "Inr metrics" dm1] b assms(6,7) same0 by (auto simp: buildable_def indexable_def)
  have nf1: "fs_no_faults (dm_fs dm1)"
  proof -
    obtain fs' where "build (me_front env) (me_board env) (store_replay (gs_self s)) ?stage default_spill_threshold (dm_fs ?dm0) = (Inr metrics, fs')"
      "dm_fs dm1 = fs'"
      using b run0 by (auto simp: build_postings_def running_def set_fs_def split: prod.splits)
    then show ?thesis using build_settled nf0 fs_no_faults_same unfolding settled_def by metis
  qed
  obtain pp1 where o1: "postings_open (dm_fs dm1) (new_postings ?stage default_spill_threshold) = (Inr (), pp1)"
    using artifact_opens [OF s1(5)] nf1 by (auto simp: fs_no_faults_def)
  obtain bs where bs: "fs_files (dm_fs dm1) ?stage = Some bs" using s1(5) by (auto simp: artifact_for_def)
  define fs2 where "fs2 = (dm_fs dm1)\<lparr>fs_files := (fs_files (dm_fs dm1))(?stage := None, ?new := Some bs)\<rparr>"
  have ren: "fs_rename ?stage ?new (dm_fs dm1) = (True, fs2)" using nf1 bs by (simp add: fs_rename_def fs2_def fs_no_faults_def)
  let ?dm2 = "set_fs fs2 dm1"
  have m1: "dm_dir dm1 = ?dir" "dm_manifest dm1 = dm_manifest dm" using s1(4) same0 by simp_all
  have nf2: "fs_no_faults fs2" using nf1 by (simp add: fs2_def fs_no_faults_def)
  have run2: "running env ?dm2 s1"
    unfolding set_fs_def by (rule running_disk [OF s1(1)]) (use m1 in \<open>simp_all add: fs2_def\<close>)
  have art2: "artifact_for ?rows (fs_files fs2 ?new)" using s1(5) bs by (simp add: fs2_def)
  obtain live where o2: "postings_open fs2 (new_postings ?new default_spill_threshold) = (Inr (), live)"
    using artifact_opens [OF art2] nf2 by (auto simp: fs_no_faults_def)
  have nf: "fs_no_faults (dm_fs ?dm2)" "fs_files (dm_fs ?dm2) (in_dir (dm_dir ?dm2) (postings_filename ?seq)) = Some bs"
    using nf2 m1 by (simp_all add: set_fs_def paths fs2_def)
  obtain dm3 where pub: "publish_derived_index env (postings_filename ?seq) True (?seq + 1) ?dm2 = (Published, dm3)" and nf3: "fs_no_faults (dm_fs dm3)"
    using publish_total [OF run2 _ nf(1) assms(5) nf(2)] s1(3) assms(2) by fastforce
  show ?thesis
    using dir b o1 ren o2 pub nf3 m1
    by (auto simp: rebuild_position_postings_def Let_def paths set_fs_def dm_discard_def fs_no_faults_def fs_discard_def fs_remove_def
        split: option.split)
qed

section \<open>Opening\<close>

lemma mark_dirty_total:
  assumes "fs_no_faults (dm_fs dm)" and "manifest_writable (me_json env)"
  shows "\<exists>dm'. mark_dirty env dm = (Inr (), dm') \<and> fs_no_faults (dm_fs dm')"
  using write_manifest_total [OF assms] by (auto simp: mark_dirty_def Let_def split: prod.split) (metis prod.inject)+

lemma create_total:
  assumes "fs_no_faults (dk_fs d)" and "manifest_faithful (me_json env)" and "manifest_writable (me_json env)"
    and "heap_front (me_front env) pc_current" and "dir \<noteq> []" and "sd_tables conn = empty_tables" and "sd_saved conn = None" and "sd_reliable conn"
  shows "\<exists>dm. create_manager env dir (make_manifest version now name) conn d = (Inr (), dm) \<and> fs_no_faults (dm_fs dm)"
proof -
  let ?m = "make_manifest version now name"
  obtain d1 where w: "write_manifest (me_json env) dir ?m d = (Published, d1)" and nf1: "fs_no_faults (dk_fs d1)"
    using write_manifest_total [OF assms(1,3)] by blast
  let ?dm = "\<lparr>dm_store = Some (new_game_store conn), dm_manifest = ?m, dm_dir = dir, dm_postings = None, dm_disk = d1\<rparr>"
  have run: "running env ?dm (new_game_store conn)" using created_running [OF w assms(2) _ assms(5-7)] assms(1) by (simp add: fs_no_faults_def)
  have tb: "gs_tables (new_game_store conn) = empty_tables" "gs_fault (new_game_store conn) = (\<lambda>_. False)"
    using assms(6,8) by (simp_all add: new_game_store_def new_game_writer_def sd_reliable_def)
  have "buildable env (gs_tables (new_game_store conn))"
    unfolding tb by (simp add: buildable_def indexable_def ids_fit_def index_rows_def replay_part_def empty_tables_def map_filter_simps)
  then obtain dm1 where r: "rebuild_position_postings env ?dm = (Inr (), dm1)" and nf: "fs_no_faults (dm_fs dm1)"
    using rebuild_total [OF run tb(2) _ assms(2-4)] nf1 by auto
  obtain dm2 where "mark_dirty env dm1 = (Inr (), dm2)" "fs_no_faults (dm_fs dm2)" using mark_dirty_total [OF nf assms(3)] by blast
  then show ?thesis using w r by (simp add: create_manager_def)
qed

lemma open_total:
  assumes "stopped_ok env dir d tb" and "fs_no_faults (dk_fs d)" and "manifest_faithful (me_json env)" and "manifest_writable (me_json env)"
    and "heap_front (me_front env) pc_current" and "sd_tables conn = tb" and "sd_saved conn = None" and "sd_reliable conn" and "buildable env tb"
  shows "\<exists>dm. open_manager env dir conn d = (Inr (), dm)"
proof -
  obtain m bs where m: "fs_files (dk_fs d) (manifest_path dir) = Some bs" "mj_read (me_json env) bs = Some m"
      and e: "index_ok env dir (fs_files (dk_fs d)) tb m"
    using assms(1) index_ok_same by (fastforce simp: stopped_ok_def bundle_ok_def)
  have nodot: "CHR ''/'' \<notin> set (postings_filename n)" for n
    using nat_to_string_digits [of "unat n"] by (fastforce simp: postings_filename_def)
  have "valid_artifact_name (mf_position_postings m) ''positions.postings''" "valid_artifact_name (mf_opening_tree_index m) ''opening_tree.idx''"
    using e nodot by (auto simp: valid_artifact_name_def index_ok_def postings_filename_def split: option.split)
  then have rd: "read_manifest (me_json env) dir (dk_fs d) = Inr m"
    using m assms(2) by (simp add: read_manifest_def ifstream_open_def fs_no_faults_def)
  obtain s2 dm2 b where x: "open_manager env dir conn d = (if b then mark_dirty env dm2 else case rebuild_position_postings env dm2 of
        (Inl err, dm) \<Rightarrow> (Inl err, close_manager env dm) | (Inr _, dm) \<Rightarrow> mark_dirty env dm)"
      and s2: "running env dm2 s2" "gs_tables s2 = tb" "gs_fault s2 = sd_fault conn" "dm_disk dm2 = d"
    using open_loaded [OF assms(1) rd assms(6,7)] by blast
  obtain dm3 where "rebuild_position_postings env dm2 = (Inr (), dm3)" "fs_no_faults (dm_fs dm3)"
    using rebuild_total [OF s2(1) _ _ assms(3-5)] s2 assms(2,8,9) by (auto simp: sd_reliable_def)
  then show ?thesis using x mark_dirty_total [OF _ assms(4)] assms(2) s2(4) by fastforce
qed

section \<open>Inserting\<close>

lemma prepare_total:
  assumes "running env dm s" and "fs_no_faults (dm_fs dm)" and "manifest_writable (me_json env)"
  shows "\<exists>dm'. prepare_canonical_mutation env dm = (Inr (), dm') \<and> fs_no_faults (dm_fs dm') \<and> dm_store dm' = dm_store dm \<and> dm_dir dm' = dm_dir dm"
proof -
  let ?m = "dm_manifest dm"
  have dir: "dm_dir dm \<noteq> []" and tree: "mf_opening_tree_index ?m = None"
    using assms(1) by (simp_all add: running_def bundle_ok_def index_ok_def)
  obtain d where w: "write_manifest (me_json env) (dm_dir dm) (?m\<lparr>mf_source_generation := mf_source_generation ?m + 1,
      mf_position_postings := None, mf_opening_tree_index := None\<rparr>) (dm_disk dm) = (Published, d)" "fs_no_faults (dk_fs d)"
    using write_manifest_total [OF assms(2,3)] by blast
  then show ?thesis
    using dir tree assms(2)
    by (auto simp: prepare_canonical_mutation_def mark_derived_indexes_stale_def Let_def dm_discard_def set_fs_def fs_no_faults_def
        fs_discard_def fs_remove_def split: option.split)
qed

text \<open>On a bundle that works, \<open>insert_game\<close> is the insert of the specification on the tables.\<close>
lemma insert_game_total:
  assumes "running env dm s" and "gs_fault s = (\<lambda>_. False)" and "fs_no_faults (dm_fs dm)" and "manifest_faithful (me_json env)"
    and "manifest_writable (me_json env)" and "store_game insert_game_sql (me_xxh3 env) g (gs_tables s) = (Inr i, tb)"
  shows "\<exists>dm' s'. insert_game env g dm = (Inr i, dm') \<and> running env dm' s' \<and> gs_tables s' = tb \<and> gs_fault s' = (\<lambda>_. False)
     \<and> fs_no_faults (dm_fs dm') \<and> dm_dir dm' = dm_dir dm"
proof -
  have st: "dm_store dm = Some s" using assms(1) by (simp add: running_def)
  obtain dm1 where dm1: "prepare_canonical_mutation env dm = (Inr (), dm1)" "fs_no_faults (dm_fs dm1)" "dm_store dm1 = Some s" "dm_dir dm1 = dm_dir dm"
    using prepare_total [OF assms(1,3,5)] st by auto
  have run1: "running env dm1 s" and none: "mf_position_postings (dm_manifest dm1) = None" using prepare_running [OF assms(1) dm1(1) assms(4)] by auto
  note ready = running_ready [OF run1 assms(2)]
  have inv: "writer_inv (gs_writer s)" "gw_db (gs_self s) = gw_db (gs_writer s)" "sd_reliable (gw_db (gs_writer s))"
    using ready by (auto simp: store_ready_def store_inv_def)
  have "fst (gs_insert (me_xxh3 env) g s) = Inr i"
    using gw_insert_refines [OF inv(1,3), of "me_xxh3 env" g] inv(2) assms(6) by (auto simp: gs_insert_def)
  then obtain s' where s': "gs_insert (me_xxh3 env) g s = (Inr i, s')" by (metis prod.collapse)
  have tb: "gs_tables s' = tb" "gs_fault s' = (\<lambda>_. False)"
    using gs_insert_ready [OF ready s'] assms(6) by (simp_all add: store_ready_def sd_reliable_def)
  have ws: "with_store (gs_insert (me_xxh3 env) g) dm1 = (Inr i, dm1\<lparr>dm_store := Some s'\<rparr>)" by (simp add: with_store_def dm1(3) s')
  from running_writer [OF run1 this none] have "running env (dm1\<lparr>dm_store := Some s'\<rparr>) s'" by (auto simp: running_def)
  moreover have "insert_game env g dm = (Inr i, dm1\<lparr>dm_store := Some s'\<rparr>)" using st dm1(1) ws by (simp add: insert_game_def and_then_def)
  ultimately show ?thesis using tb dm1(2,4) by fastforce
qed

section \<open>Properties\<close>

lemma query_answer:
  assumes "running env dm s" and "fst (query_postings ask dm) = Inr x"
    and "\<And>pp. reader_represents (dm_fs dm, pp) (index_rows (me_board env) (gs_tables s)) \<Longrightarrow> ask (dm_fs dm) pp = Inr y"
  shows "x = y"
proof -
  obtain pp where "reader_represents (dm_fs dm, pp) (index_rows (me_board env) (gs_tables s))" "ask (dm_fs dm) pp = Inr x"
    using query_postings_running [OF assms(1) surjective_pairing, of ask] assms(2) by metis
  then show ?thesis using assms(3) by fastforce
qed


text \<open>
  C6: A search for games with a position is exact: on a connection that works it returns the requested page of the games that
  reach the position and match the filter, in the order asked for and with their number, and fails exactly when no valid index
  covers the database. The page by page lookup in the index, taken when nothing but the position and the order of the ids is
  asked for, gives the same as the search among all ids of the index.\<close>
theorem position_search_is_exact:
  assumes "bundle_reachable env (Running dm)" and "manifest_faithful (me_json env)" and "heap_front (me_front env) pc_current"
    and "dm_store dm = Some s" and "sd_reliable (gw_db (gs_self s))" and "sf_position f = Some hash" and "sf_offset f \<le> sqlite_max"
    and "ids_fit (sd_tables (gw_db (gs_self s)))"
  shows "fst (manager_find_games env f dm) = (if covers dm (sd_tables (gw_db (gs_self s)))
     then Inr (search_page (Some (map unat (row_games (index_rows (me_board env) (sd_tables (gw_db (gs_self s)))) hash))) f
       (sd_tables (gw_db (gs_self s))))
     else unexpected Io_Failure)"
proof -
  obtain t where "running env dm t" using bundle_reachable_inv [OF assms(1-3)] by auto
  then have "running env dm s" using assms(4) by (simp add: running_def)
  then show ?thesis by (rule find_games_position [OF _ _ assms(6-8)]) (use assms(5) in \<open>simp add: sd_reliable_def\<close>)
qed


text \<open>
  C19: The promise of a durable invalidation is lost on a retry: when \<open>mark_derived_indexes_stale\<close> has replaced the manifest but
  could not sync the directory, it reports the failure, but the manifest in memory has no index left, so that the next
  \<open>prepare_canonical_mutation\<close> succeeds without writing anything. What is known to be on the disk is still the manifest with the
  index when the database is then changed.\<close>
theorem retry_skips_durable_invalidation:
  assumes "mark_derived_indexes_stale env dm = (unexpected Io_Failure, dm')" and "dm_manifest dm' \<noteq> dm_manifest dm"
  shows "prepare_canonical_mutation env dm' = (Inr (), dm') \<and> dk_synced (dm_disk dm') = dk_synced (dm_disk dm)"
proof -
  let ?m = "(dm_manifest dm)\<lparr>mf_source_generation := mf_source_generation (dm_manifest dm) + 1, mf_position_postings := None,
      mf_opening_tree_index := None\<rparr>"
  obtain state d where w: "write_manifest (me_json env) (dm_dir dm) ?m (dm_disk dm) = (state, d)" by force
  have st: "state = Published_Not_Durable"
    using assms w by (cases state) (auto simp: mark_derived_indexes_stale_def Let_def split: if_splits)
  then have "dk_synced d = dk_synced (dm_disk dm)" using write_manifest_published(2) [OF w] by simp
  moreover have "dm_manifest dm' = ?m \<and> dk_synced (dm_disk dm') = dk_synced d"
    using assms w st by (auto simp: mark_derived_indexes_stale_def Let_def dm_discard_def set_fs_def split: if_splits option.splits)
  ultimately show ?thesis by (simp add: prepare_canonical_mutation_def)
qed

end
