(* ===== verification/Manager_Runs.thy ===== *)
theory Manager_Runs
  imports Manager_Total
begin

text \<open>
  Runs of a manager on a small database: the hypotheses of the properties hold of it. The manifest codec of these runs writes
  texts with a mark before every character and numbers as their bits.
\<close>

section \<open>A codec for manifests\<close>

fun put_text :: "string \<Rightarrow> bytes" where
  "put_text [] = [0]"
| "put_text (c # cs) = 1 # of_nat (of_char c) # put_text cs"

fun get_text :: "bytes \<Rightarrow> (string \<times> bytes) option" where
  "get_text (x # c # bs) = (if x = 1 then map_option (\<lambda>(cs, r). (char_of (unat c) # cs, r)) (get_text bs) else Some ([], c # bs))"
| "get_text [x] = (if x = 0 then Some ([], []) else None)"
| "get_text [] = None"

definition put_word :: "u64 \<Rightarrow> bytes" where
  "put_word w = map (\<lambda>i. of_bool (bit w i)) [0..<64]"

definition get_word :: "bytes \<Rightarrow> (u64 \<times> bytes) option" where
  "get_word bs = (if length bs < 64 then None else Some (horner_sum of_bool 2 (map (\<lambda>b. b = 1) (take 64 bs)), drop 64 bs))"

lemma get_put_text [simp]: "get_text (put_text cs @ bs) = Some (cs, bs)"
proof (induction cs)
  case Nil
  show ?case by (cases bs) simp_all
next
  case (Cons c cs)
  have "(of_char c :: nat) < 2 ^ 8" by simp
  then have "unat (of_nat (of_char c) :: 8 word) = of_char c" by (simp add: unat_of_nat take_bit_nat_eq_self)
  then show ?case using Cons by simp
qed

lemma get_put_word [simp]: "get_word (put_word w @ bs) = Some (w, bs)"
proof -
  have "map (\<lambda>b. b = (1 :: 8 word)) (put_word w) = map (bit w) [0..<64]" by (simp add: put_word_def comp_def)
  moreover have "length (put_word w) = 64" by (simp add: put_word_def)
  moreover have "take_bit 64 w = w" using take_bit_length_eq [of w] by simp
  ultimately show ?thesis by (simp add: get_word_def horner_sum_bit_eq_take_bit)
qed

fun put_index :: "derived_index_manifest_entry option \<Rightarrow> bytes" where
  "put_index None = [0]"
| "put_index (Some e) = 1 # put_text (de_filename e) @ put_word (de_source_generation e) @ put_word (de_game_count e)
     @ put_word (de_file_size e) @ put_word (de_checksum e)"

fun get_index :: "bytes \<Rightarrow> (derived_index_manifest_entry option \<times> bytes) option" where
  "get_index [] = None"
| "get_index (x # bs) =
     (if x = 0 then Some (None, bs)
      else Option.bind (get_text bs) (\<lambda>(name, bs). Option.bind (get_word bs) (\<lambda>(gen, bs). Option.bind (get_word bs) (\<lambda>(games, bs).
        Option.bind (get_word bs) (\<lambda>(sz, bs). Option.bind (get_word bs) (\<lambda>(sum, bs).
          Some (Some \<lparr>de_filename = name, de_source_generation = gen, de_game_count = games, de_file_size = sz, de_checksum = sum\<rparr>, bs)))))))"

lemma get_put_index [simp]: "get_index (put_index e @ bs) = Some (e, bs)"
  by (cases e) simp_all

definition demo_codec :: manifest_codec where
  "demo_codec = \<lparr>
     mj_write = (\<lambda>m. Some (put_text (mf_name m) @ put_word (ucast (mf_schema_version m)) @ put_word (mf_game_count m)
       @ put_text (mf_created_at m) @ put_word (of_bool (mf_position_index_dirty m)) @ put_word (mf_source_generation m)
       @ put_word (mf_derived_index_build_seq m) @ put_index (mf_position_postings m) @ put_index (mf_opening_tree_index m) @ [])),
     mj_read = (\<lambda>bs. Option.bind (get_text bs) (\<lambda>(name, bs). Option.bind (get_word bs) (\<lambda>(version, bs). Option.bind (get_word bs) (\<lambda>(games, bs).
       Option.bind (get_text bs) (\<lambda>(created, bs). Option.bind (get_word bs) (\<lambda>(dirty, bs). Option.bind (get_word bs) (\<lambda>(gen, bs).
       Option.bind (get_word bs) (\<lambda>(seq, bs). Option.bind (get_index bs) (\<lambda>(postings, bs). Option.bind (get_index bs) (\<lambda>(tree, bs).
         Some \<lparr>mf_name = name, mf_schema_version = ucast version, mf_game_count = games, mf_created_at = created,
           mf_position_index_dirty = (dirty = 1), mf_source_generation = gen, mf_derived_index_build_seq = seq,
           mf_position_postings = postings, mf_opening_tree_index = tree\<rparr>))))))))))\<rparr>"

lemma demo_codec_faithful: "manifest_faithful demo_codec" and demo_codec_writable: "manifest_writable demo_codec"
proof -
  have "ucast (ucast v :: u64) = v" for v :: u32 by (rule bit_word_eqI) (simp add: bit_simps)
  then show "manifest_faithful demo_codec"
    unfolding manifest_faithful_def demo_codec_def
    by (auto simp add: get_put_index [where bs = "[]", simplified])
  show "manifest_writable demo_codec" by (simp add: manifest_writable_def demo_codec_def)
qed

section \<open>A manager with a game\<close>

definition run_env :: "u64 manager_env" where
  "run_env = \<lparr>me_json = demo_codec, me_xxh3 = (\<lambda>_. 0), me_board = demo_ops, me_front = heap_min pc_current, me_max_params = 100\<rparr>"

definition run_tables :: tables where
  "run_tables = snd (store_game insert_game_sql (\<lambda>_. 0) manual_game empty_tables)"

lemma run_inserted: "store_game insert_game_sql (\<lambda>_. 0) manual_game empty_tables = (Inr 1, run_tables)"
proof -
  have "fst (store_game insert_game_sql (\<lambda>_. 0) manual_game empty_tables) = Inr 1" by code_simp
  then show ?thesis by (simp add: run_tables_def prod_eq_iff)
qed

definition run_row :: "u64 \<Rightarrow> u16 \<Rightarrow> u16 \<Rightarrow> position_row" where
  "run_row hash ply move = \<lparr>pr_zobrist_hash = hash, pr_game_id = 1, pr_ply = ply, pr_encoded_move = move, pr_result = 1,
     pr_white_elo = Some 2100, pr_black_elo = Some 2100\<rparr>"

definition run_record :: replay_game_record where
  "run_record = \<lparr>rg_id = 1, rg_result = ''1-0'', rg_white_elo = Some 2100, rg_black_elo = Some 2100, rg_moves = [1]\<rparr>"

lemma run_replay: "replay_part run_tables = [run_record]" and run_ids: "map gr_id (tb_games run_tables) = [1]"
proof -
  have "map replay_record (tb_games run_tables) = [run_record]" by code_simp
  then obtain x where "tb_games run_tables = [x]" "replay_record x = run_record" by auto
  then show "replay_part run_tables = [run_record]" by (simp add: replay_part_def)
  show "map gr_id (tb_games run_tables) = [1]" by code_simp
qed

lemma run_rows: "index_rows demo_ops run_tables = [run_row 7 0 0, run_row 71 1 1]"
proof -
  have "replay_rows demo_ops run_record = Some [run_row 7 0 0, run_row 71 1 1]"
    by (simp add: run_record_def run_row_def replay_rows_def replay_row_def demo_ops_def narrow_elo_def result_code_def Let_def)
  then show ?thesis by (simp add: index_rows_def run_replay map_filter_simps)
qed

lemma run_buildable: "buildable run_env run_tables"
proof -
  have "ids_fit run_tables" using run_ids by (auto simp: ids_fit_def map_eq_Cons_conv)
  then show ?thesis by (simp add: buildable_def indexable_def run_env_def run_rows run_replay run_record_def replayable_def narrow_elo_def)
qed

lemmas run_env_facts = demo_codec_faithful demo_codec_writable heap_min.heap_front_axioms

text \<open>The bundle after a game has been inserted.\<close>
lemma run_filled:
  "\<exists>dm s. bundle_reachable run_env (Running dm) \<and> running run_env dm s \<and> gs_tables s = run_tables \<and> gs_fault s = (\<lambda>_. False)
     \<and> fs_no_faults (dm_fs dm) \<and> dm_dir dm = ''db''"
proof -
  let ?d = "\<lparr>dk_fs = demo_disk, dk_synced = Map.empty\<rparr>"
  have env: "manifest_faithful (me_json run_env)" "manifest_writable (me_json run_env)" "heap_front (me_front run_env) pc_current"
    using run_env_facts by (simp_all add: run_env_def)
  have nf: "fs_no_faults (dk_fs ?d)" "\<not> fs_fault (dk_fs ?d) (Sync ''db'')" using demo_premises(1) by (simp_all add: fs_no_faults_def)
  have db: "sd_tables blank_db = empty_tables" "sd_saved blank_db = None" "sd_reliable blank_db" by (simp_all add: blank_db_def sd_reliable_def)
  obtain dm where dm: "create_manager run_env ''db'' (make_manifest 1 [] ''games'') blank_db ?d = (Inr (), dm)" "fs_no_faults (dm_fs dm)"
    using create_total [OF nf(1) env _ db] by blast
  obtain s where s: "running run_env dm s" "gs_tables s = empty_tables" "gs_fault s = (\<lambda>_. False)" and dir: "dm_dir dm = ''db''"
    using create_running [OF dm(1) env(1,3) nf(2) _ db(1,2)] db(3) by (auto simp: sd_reliable_def)
  have ins: "store_game insert_game_sql (me_xxh3 run_env) manual_game (gs_tables s) = (Inr 1, run_tables)"
    using run_inserted s(2) by (simp add: run_env_def)
  obtain dm' s' where dm': "insert_game run_env manual_game dm = (Inr 1, dm')" "running run_env dm' s'" "gs_tables s' = run_tables"
      "gs_fault s' = (\<lambda>_. False)" "fs_no_faults (dm_fs dm')" "dm_dir dm' = ''db''"
    using insert_game_total [OF s(1,3) dm(2) env(1,2) ins] dir by auto
  have "bundle_reachable run_env (Running dm)" by (rule bundle_reachable.created [OF dm(1) _ db(1,2) nf(2)]) simp
  from bundle_reachable.served [OF this, of "Insert_Game manual_game"] have "bundle_reachable run_env (Running dm')"
    using dm'(1) by (simp add: request_fits_def)
  then show ?thesis using dm'(2-6) by blast
qed

text \<open>The same after a rebuild: the index answers.\<close>
lemma run_indexed:
  "\<exists>dm s. bundle_reachable run_env (Running dm) \<and> running run_env dm s \<and> gs_tables s = run_tables \<and> gs_fault s = (\<lambda>_. False)
     \<and> covers dm run_tables"
proof -
  have env: "manifest_faithful (me_json run_env)" "manifest_writable (me_json run_env)" "heap_front (me_front run_env) pc_current"
    using run_env_facts by (simp_all add: run_env_def)
  obtain dm s where dm: "bundle_reachable run_env (Running dm)" "running run_env dm s" "gs_tables s = run_tables" "gs_fault s = (\<lambda>_. False)"
    "fs_no_faults (dm_fs dm)" using run_filled by blast
  obtain dm' where r: "rebuild_position_postings run_env dm = (Inr (), dm')"
    using rebuild_total [OF dm(2,4,5) env] run_buildable dm(3) by auto
  have idx: "indexable run_env (gs_tables s)" using run_buildable dm(3) by (simp add: buildable_def)
  obtain s' where s': "running run_env dm' s'" "gs_tables s' = run_tables" "gs_fault s' = (\<lambda>_. False)" "covers dm' run_tables"
    using rebuild_running [OF dm(2) r env(1,3) idx [unfolded indexable_def]] dm(3,4) by auto
  have "bundle_reachable run_env (Running dm')"
    using bundle_reachable.served [OF dm(1), of Rebuild_Postings] idx dm(2) r by (simp add: request_fits_def running_def)
  then show ?thesis using s' by blast
qed

section \<open>Witnesses\<close>

lemma run_laws: "manifest_faithful (me_json run_env)" "manifest_writable (me_json run_env)" "heap_front (me_front run_env) pc_current"
  using run_env_facts by (simp_all add: run_env_def)

definition run_match :: position_match where
  "run_match = row_match (run_row 71 1 1)"

lemma run_matches: "row_matches (index_rows (me_board run_env) run_tables) 71 = [run_match]"
  and run_games: "row_games (index_rows (me_board run_env) run_tables) 71 = [1]"
  by (simp_all add: run_env_def run_rows row_matches_def row_games_def hash_rows_def run_row_def run_match_def)


definition run_filter :: search_filter where
  "run_filter = default_search_filter\<lparr>sf_position := Some 71\<rparr>"

theorem position_search_is_exact_witness:
  "\<exists>dm. bundle_reachable run_env (Running dm) \<and> map_sum id gl_total_count (fst (manager_find_games run_env run_filter dm)) = Inr 1"
proof -
  obtain dm s where dm: "bundle_reachable run_env (Running dm)" "running run_env dm s" "gs_tables s = run_tables" "gs_fault s = (\<lambda>_. False)"
    "covers dm run_tables" using run_indexed by blast
  have st: "dm_store dm = Some s" using dm(2) by (simp add: running_def)
  have p: "sf_position run_filter = Some 71" "sf_offset run_filter \<le> sqlite_max" by (simp_all add: run_filter_def default_search_filter_def)
  have fit: "ids_fit run_tables" using run_buildable by (simp add: buildable_def)
  have wf: "wf_tables run_tables" using ready_wf [OF running_ready [OF dm(2,4)]] dm(3) by simp
  have "plain_search run_filter" by (simp add: plain_search_def has_metadata_filter_def run_filter_def default_search_filter_def)
  then have "length (matching_games (Some [1]) run_filter run_tables) = length (filter (\<lambda>g. gr_id (fst g) \<in> set [1]) (joined_games run_tables))"
    using plain_search_games [OF wf, of run_filter "[1]"] length_order_games by metis
  also have "\<dots> = 1"
    using arg_cong [OF position_games(1) [OF wf fit, of "me_board run_env" 71], of length] by (simp add: run_games)
  finally show ?thesis
    using position_search_is_exact [OF dm(1) run_laws(1,3) st _ p, of] dm(1,3-5) fit
    by (auto simp: sd_reliable_def run_games search_page_def intro!: exI [of _ dm])
qed


definition unsynced_manager :: database_manager where
  "unsynced_manager = \<lparr>dm_store = None, dm_manifest = (make_manifest 1 [] [])\<lparr>mf_position_postings := Some \<lparr>de_filename = postings_filename 0,
     de_source_generation = 0, de_game_count = 0, de_file_size = 0, de_checksum = 0\<rparr>\<rparr>, dm_dir = ''db'', dm_postings = None,
     dm_disk = \<lparr>dk_fs = demo_disk\<lparr>fs_fault := \<lambda>x. x = Sync ''db''\<rparr>, dk_synced = Map.empty\<rparr>\<rparr>"

theorem retry_skips_durable_invalidation_witness:
  "fst (prepare_canonical_mutation run_env unsynced_manager) = unexpected Io_Failure
     \<and> fst (prepare_canonical_mutation run_env (snd (prepare_canonical_mutation run_env unsynced_manager))) = Inr ()"
proof -
  let ?dm = "unsynced_manager"
  have "fst (mark_derived_indexes_stale run_env ?dm) = unexpected Io_Failure" "dm_manifest (snd (mark_derived_indexes_stale run_env ?dm)) \<noteq> dm_manifest ?dm"
    by (auto simp: mark_derived_indexes_stale_def write_manifest_def unsynced_manager_def make_manifest_def demo_disk_def run_env_def demo_codec_def
        ofstream_open_def ofstream_write_def ofstream_close_def sync_file_path_def sync_directory_def fs_rename_def dm_discard_def set_fs_def
        Let_def manifest_temp_path_def manifest_path_def in_dir_def)
  then have m: "mark_derived_indexes_stale run_env ?dm = (unexpected Io_Failure, snd (mark_derived_indexes_stale run_env ?dm))"
      "dm_manifest (snd (mark_derived_indexes_stale run_env ?dm)) \<noteq> dm_manifest ?dm"
    by (simp_all add: prod_eq_iff)
  have p: "prepare_canonical_mutation run_env ?dm = mark_derived_indexes_stale run_env ?dm"
    by (simp add: prepare_canonical_mutation_def unsynced_manager_def make_manifest_def)
  show ?thesis using retry_skips_durable_invalidation [OF m] m(1) p by (metis fst_conv)
qed

end
