(* ===== verification/Search_View.thy ===== *)
theory Search_View
  imports Search_Presenter Manager_Runs
begin

text \<open>
  The games of a position search on a manager whose index covers the database: the page of \<open>find_games\<close> joined with the ply at which each
  game first reaches the position. The length and lookup checks of \<open>execute_query\<close> then never fail.
\<close>

section \<open>One first occurrence for each game\<close>

lemma matches_by_key:
  assumes "consistent_rows rows" and "a \<in> set (row_matches rows hash)" and "b \<in> set (row_matches rows hash)"
    and "pm_game_id a = pm_game_id b" and "pm_ply a = pm_ply b"
  shows "a = b"
proof -
  obtain ra rb where r: "ra \<in> set rows" "rb \<in> set rows" "a = row_match ra" "b = row_match rb"
    using assms(2,3) by (auto simp: row_matches_def hash_rows_def)
  have "pr_game_id ra = pr_game_id rb" using assms(4) r(3,4) by (simp add: row_match_def)
  then have "row_metadata ra = row_metadata rb" using assms(1) r(1,2) unfolding consistent_rows_def by blast
  then show ?thesis using r(3,4) assms(4,5) by (simp add: row_match_def row_metadata_def)
qed

lemma first_matches_distinct:
  assumes "consistent_rows rows"
  shows "distinct (map pm_game_id (row_first_matches rows hash ids))"
proof -
  let ?fs = "row_first_matches rows hash ids"
  have "a = b" if "a \<in> set ?fs" "b \<in> set ?fs" "pm_game_id a = pm_game_id b" for a b
  proof -
    have m: "a \<in> set (row_matches rows hash)" "b \<in> set (row_matches rows hash)" "pm_ply a \<le> pm_ply b" "pm_ply b \<le> pm_ply a"
      using that by (auto simp: row_first_matches_def)
    then show ?thesis using matches_by_key [OF assms] that(3) order_antisym by blast
  qed
  moreover have "distinct ?fs" by (simp add: row_first_matches_def row_matches_def)
  ultimately show ?thesis by (simp add: distinct_map inj_on_def)
qed

lemma first_matches_games: "pm_game_id ` set (row_first_matches rows hash ids) = set ids \<inter> set (row_games rows hash)"
proof
  show "pm_game_id ` set (row_first_matches rows hash ids) \<subseteq> set ids \<inter> set (row_games rows hash)"
    by (auto simp: row_first_matches_def row_matches_def row_games_def row_match_def)
  show "set ids \<inter> set (row_games rows hash) \<subseteq> pm_game_id ` set (row_first_matches rows hash ids)"
  proof
    fix key assume key: "key \<in> set ids \<inter> set (row_games rows hash)"
    let ?ms = "{m \<in> set (row_matches rows hash). pm_game_id m = key}"
    have "?ms \<noteq> {}" using key by (force simp: row_games_def row_matches_def row_match_def)
    then obtain m where m: "m \<in> ?ms" "\<And>m'. m' \<in> ?ms \<Longrightarrow> pm_ply m \<le> pm_ply m'"
      using ex_min_if_finite [of "pm_ply ` ?ms"] by (auto simp: not_less)
    then have "m \<in> set (row_first_matches rows hash ids)" using key by (auto simp: row_first_matches_def)
    then show "key \<in> pm_game_id ` set (row_first_matches rows hash ids)" using m(1) by force
  qed
qed

lemma match_of_game_found:
  "sorted (map pm_game_id xs) \<Longrightarrow> distinct (map pm_game_id xs) \<Longrightarrow> m \<in> set xs \<Longrightarrow> match_of_game (pm_game_id m) xs = Some m"
proof (induction xs)
  case (Cons x xs)
  show ?case
  proof (cases "m = x")
    case True
    then show ?thesis by (simp add: match_of_game_def)
  next
    case False
    then have "m \<in> set xs" using Cons.prems by simp
    then have "pm_game_id x < pm_game_id m" using Cons.prems by (force simp: less_le)
    then show ?thesis using Cons \<open>m \<in> set xs\<close> by (simp add: match_of_game_def)
  qed
qed simp

lemma join_plies_found:
  assumes "\<forall>e\<in>set es. match_of_game (ge_id e) ms \<noteq> None"
  shows "join_plies ms es = Some (map (\<lambda>e. \<lparr>sm_game = e, sm_ply = pm_ply (the (match_of_game (ge_id e) ms))\<rparr>) es)"
  using assms by (induction es) auto

text \<open>The games of a page have each a first occurrence, which the lookup finds.\<close>
lemma page_joins:
  assumes "consistent_rows rows" and "distinct (map ge_id es)" and "ge_id ` set es \<subseteq> set (row_games rows hash)"
    and "firsts = row_first_matches rows hash (map ge_id es)"
  shows "length firsts = length es"
    and "\<exists>ms. join_plies (sort_key pm_game_id firsts) es = Some ms \<and> map sm_game ms = es
      \<and> (\<forall>m\<in>set ms. \<exists>f\<in>set firsts. pm_game_id f = ge_id (sm_game m) \<and> pm_ply f = sm_ply m)"
proof -
  have d: "distinct (map pm_game_id firsts)" using first_matches_distinct [OF assms(1)] assms(4) by simp
  have s: "pm_game_id ` set firsts = ge_id ` set es" using first_matches_games [of rows hash "map ge_id es"] assms(3,4) by auto
  have "length firsts = card (pm_game_id ` set firsts)" using distinct_card [OF d] by simp
  also have "\<dots> = length es" unfolding s using distinct_card [OF assms(2)] by simp
  finally show "length firsts = length es" .
  let ?ms = "sort_key pm_game_id firsts"
  have "distinct (map pm_game_id ?ms)" using d by (simp add: distinct_map)
  then have f: "match_of_game (pm_game_id f) ?ms = Some f" if "f \<in> set firsts" for f using that by (intro match_of_game_found) simp_all
  have found: "\<exists>f\<in>set firsts. pm_game_id f = ge_id e \<and> match_of_game (ge_id e) ?ms = Some f" if "e \<in> set es" for e
  proof -
    have "ge_id e \<in> pm_game_id ` set firsts" using that s by blast
    then obtain g where "g \<in> set firsts" "pm_game_id g = ge_id e" by force
    then show ?thesis using f by metis
  qed
  then have "\<forall>e\<in>set es. match_of_game (ge_id e) ?ms \<noteq> None" by force
  from join_plies_found [OF this] show "\<exists>ms. join_plies ?ms es = Some ms \<and> map sm_game ms = es
      \<and> (\<forall>m\<in>set ms. \<exists>f\<in>set firsts. pm_game_id f = ge_id (sm_game m) \<and> pm_ply f = sm_ply m)"
    using found by (auto simp: comp_def) (metis option.sel)
qed

section \<open>The search on a manager\<close>

text \<open>A search leaves everything but the connection's clock.\<close>
lemma find_games_leaves:
  assumes "running env dm s" and "gs_fault s = (\<lambda>_. False)" and "manager_find_games env f dm = (r, dm')"
  shows "\<exists>s'. running env dm' s' \<and> dm' = dm\<lparr>dm_store := Some s'\<rparr> \<and> gs_tables s' = gs_tables s \<and> gs_fault s' = (\<lambda>_. False)"
proof -
  let ?left = "\<lambda>x t. running env x t \<and> x = dm\<lparr>dm_store := Some t\<rparr> \<and> gs_tables t = gs_tables s \<and> gs_fault t = (\<lambda>_. False)"
  obtain c s1 where c: "checked_postings Io_Failure dm = (c, dm\<lparr>dm_store := Some s1\<rparr>)" and s1: "?left (dm\<lparr>dm_store := Some s1\<rparr>) s1"
    using checked_ready [OF assms(1,2), of Io_Failure] by metis
  have st: "dm_store dm = Some s" using assms(1) by (simp add: running_def)
  then have left: "?left dm s" using assms(1,2) by simp
  have find: "\<exists>t'. ?left dm' t'" if "with_store (via_self m) x = (r', dm')" "reads m" "?left x t" for m x t and r' :: "game_list_result result"
    using running_reads [of env x t m r' dm'] that by auto
  obtain g s2 where g: "position_game_ids (the (sf_position f)) (dm\<lparr>dm_store := Some s1\<rparr>) = (g, dm\<lparr>dm_store := Some s2\<rparr>)"
      and s2: "?left (dm\<lparr>dm_store := Some s2\<rparr>) s2"
    using query_postings_ready [of env "dm\<lparr>dm_store := Some s1\<rparr>" s1] s1 unfolding position_game_ids_def by force
  show ?thesis
  proof (cases "sf_position f")
    case None
    then show ?thesis using find [OF _ reads_searches(1) left] assms(3) st by (auto simp: manager_find_games_def)
  next
    case (Some hash)
    have "dm' = dm\<lparr>dm_store := Some s1\<rparr> \<or> dm' = dm\<lparr>dm_store := Some s2\<rparr>
      \<or> (\<exists>m r' t. reads m \<and> (t = s1 \<or> t = s2) \<and> with_store (via_self m) (dm\<lparr>dm_store := Some t\<rparr>) = (r' :: game_list_result result, dm'))"
      using assms(3) st c g Some reads_searches(2)
      by (cases c) (auto simp: manager_find_games_def and_then_def return_def Let_def split: if_splits sum.splits option.splits prod.splits, metis+)
    then show ?thesis using find s1 s2 by blast
  qed
qed

lemma covers_store [simp]: "covers (dm\<lparr>dm_store := x\<rparr>) tb = covers dm tb" "valid_postings (dm\<lparr>dm_store := x\<rparr>) = valid_postings dm"
  by (simp_all add: covers_def valid_postings_def has_valid_derived_index_def cong: option.case_cong)

text \<open>The entries of a page of the position are distinct games of the index.\<close>
lemma page_ids:
  assumes "wf_tables tb" and "ids_fit tb" and "rows = index_rows ops tb"
    and "es = gl_games (search_page (Some (map unat (row_games rows hash))) f tb)"
  shows "distinct (map ge_id es)" and "ge_id ` set es \<subseteq> set (row_games rows hash)"
proof -
  let ?gs = "matching_games (Some (map unat (row_games rows hash))) f tb"
  obtain l n where es: "es = map read_game_list_entry (take l (drop n (order_games f ?gs)))" using assms(4) by (simp add: search_page_def)
  note ord = order_games_sorted [OF matching_ids [OF assms(1), of "Some (map unat (row_games rows hash))" f], of f]
  have id: "ge_id (read_game_list_entry g) = of_nat (gr_id (fst g))" for g by (cases g) simp
  have small: "unat (of_nat (gr_id (fst g)) :: u32) = gr_id (fst g)" if "g \<in> set ?gs" for g
  proof -
    have "fst g \<in> set (tb_games tb)" using that joined_games_fst [OF assms(1)] by (auto simp: matching_games_def) (metis image_eqI set_map)
    then show ?thesis by (rule ids_fit_key(1) [OF assms(2)])
  qed
  have sub: "set (take l (drop n (order_games f ?gs))) \<subseteq> set ?gs" using ord(2) by (auto dest: in_set_takeD in_set_dropD)
  have "distinct (map (gr_id o fst) (order_games f ?gs))"
    using matching_ids [OF assms(1)] ord(2) by (simp add: order_games_def Let_def distinct_map)
  then have "distinct (take l (drop n (map (gr_id o fst) (order_games f ?gs))))" by (intro distinct_take distinct_drop)
  then have "distinct (map (gr_id o fst) (take l (drop n (order_games f ?gs))))" by (simp only: take_map drop_map)
  moreover have "map unat (map ge_id es) = map (gr_id o fst) (take l (drop n (order_games f ?gs)))"
    unfolding es using sub small by (auto simp: id)
  ultimately show "distinct (map ge_id es)" by (metis distinct_map)
  show "ge_id ` set es \<subseteq> set (row_games rows hash)"
  proof
    fix key assume "key \<in> ge_id ` set es"
    then obtain g where g: "g \<in> set ?gs" "key = of_nat (gr_id (fst g))" using sub unfolding es by (auto simp: id)
    then obtain k where "k \<in> set (row_games rows hash)" "gr_id (fst g) = unat k" by (auto simp: matching_games_def)
    then show "key \<in> set (row_games rows hash)" using g(2) by simp
  qed
qed

lemma search_execute_covered:
  assumes run: "running env dm s" "gs_fault s = (\<lambda>_. False)" and f: "sf_position (sq_filter q) = Some (sq_hash q)" "sf_offset (sq_filter q) \<le> sqlite_max"
    and fit: "ids_fit (gs_tables s)" and cov: "covers dm (gs_tables s)" and sts: "\<forall>dm'. stats dm' (sq_hash q) (sq_filter q) = Inr sts"
    and rows: "rows = index_rows (me_board env) (gs_tables s)"
    and games: "games = search_page (Some (map unat (row_games rows (sq_hash q)))) (sq_filter q) (gs_tables s)"
  shows "\<exists>ms. fst (search_execute_query env stats q dm) = Inr \<lparr>pg_generation = sq_generation q, pg_hash = sq_hash q, pg_matches = ms,
        pg_total_matches = int (gl_total_count games), pg_continuations = sts, pg_filter = sq_filter q\<rparr>
     \<and> map sm_game ms = gl_games games
     \<and> (\<forall>m\<in>set ms. \<exists>first\<in>set (row_first_matches rows (sq_hash q) (map ge_id (gl_games games))).
          pm_game_id first = ge_id (sm_game m) \<and> pm_ply first = sm_ply m)"
proof -
  let ?ids = "map ge_id (gl_games games)" and ?firsts = "row_first_matches rows (sq_hash q) (map ge_id (gl_games games))"
  have "fst (manager_find_games env (sq_filter q) dm) = Inr games"
    using find_games_position [OF run f fit] unfolding if_P [OF cov] games rows .
  then obtain dm1 where dm1: "manager_find_games env (sq_filter q) dm = (Inr games, dm1)" by (metis prod.collapse)
  obtain s1 where s1: "running env dm1 s1" "dm1 = dm\<lparr>dm_store := Some s1\<rparr>" "gs_tables s1 = gs_tables s" "gs_fault s1 = (\<lambda>_. False)"
    using find_games_leaves [OF run dm1] by blast
  have cov1: "covers dm1 (gs_tables s1)" using cov s1(2,3) by simp
  have reader: "reader_represents (dm_fs dm1, the (valid_postings dm1)) rows" using valid_reader [OF s1(1) cov1] s1(3) rows by simp
  obtain dm2 where dm2: "query_position_first_matches (sq_hash q) ?ids dm1 = (Inr ?firsts, dm2)"
  proof -
    have "fst (query_position_first_matches (sq_hash q) ?ids dm1) = Inr ?firsts"
      using artifact_reader.firsts_rows [OF reader, of "sq_hash q" ?ids]
      by (simp add: query_position_first_matches_def query_covered [OF s1(1,4) cov1])
    then show ?thesis using that by (metis prod.collapse)
  qed
  have cons: "consistent_rows rows" using reader by (rule artifact_reader.represents_consistent)
  note page = page_ids [OF ready_wf [OF running_ready [OF run]] fit rows, of "gl_games games" "sq_hash q" "sq_filter q",
      OF arg_cong [OF games]]
  have "length ?firsts = length (gl_games games)" by (rule page_joins(1) [OF cons page refl])
  moreover obtain ms where "join_plies (sort_key pm_game_id ?firsts) (gl_games games) = Some ms" "map sm_game ms = gl_games games"
      "\<forall>m\<in>set ms. \<exists>first\<in>set ?firsts. pm_game_id first = ge_id (sm_game m) \<and> pm_ply first = sm_ply m"
    using page_joins(2) [OF cons page refl] by blast
  ultimately show ?thesis using dm1 dm2 sts by (intro exI [of _ ms]) (simp add: search_execute_query_def)
qed


section \<open>Runs\<close>

definition run_stats :: "unit stats_query" where
  "run_stats dm hash f = Inr \<lparr>os_total_games = 1, os_continuations = [()]\<rparr>"

definition run_search :: search_query where
  "run_search = \<lparr>sq_generation = 1, sq_hash = 71, sq_filter = run_filter\<rparr>"


text \<open>A search on a closed database shows the error.\<close>
theorem search_shows_latest_witness:
  "\<exists>w. search_reachable run_env run_stats w \<and> length (sw_searches w) = 1
     \<and> (\<exists>q r. (q, r) \<in> set (sw_answers w) \<and> ss_error_text (sp_state (complete_search q r (sw_presenter w))) = ''io_failure'')"
proof -
  define p where "p = snd (search_position 71 run_filter (new_search_presenter 7 :: unit search_presenter))"
  obtain q where q: "search_position 71 run_filter (new_search_presenter 7 :: unit search_presenter) = (Inr (Some q), p)"
    by (simp add: p_def search_position_def cache_hit_def new_search_presenter_def Let_def)
  let ?r = "fst (search_execute_query run_env run_stats q unsynced_manager)"
  define w where "w = \<lparr>sw_presenter = p, sw_searches = [Some q], sw_answers = [(q, ?r)]\<rparr>"
  have r: "?r = Inl (from_database_error (Db_Error Io_Failure []))"
    by (simp add: search_execute_query_def manager_find_games_def unsynced_manager_def)
  have "search_step run_env run_stats (new_search_world 7) \<lparr>sw_presenter = p, sw_searches = [Some q], sw_answers = []\<rparr>"
    using st_search [of 71 run_filter "new_search_world 7" "Some q" p run_env run_stats] q by (simp add: new_search_world_def)
  moreover have "search_step run_env run_stats \<lparr>sw_presenter = p, sw_searches = [Some q], sw_answers = []\<rparr> w"
    using st_execute [of q "\<lparr>sw_presenter = p, sw_searches = [Some q], sw_answers = []\<rparr>" run_env run_stats unsynced_manager] by (simp add: w_def)
  ultimately have reach: "search_reachable run_env run_stats w"
    unfolding search_reachable_def by (meson converse_rtranclp_into_rtranclp rtranclp.rtrancl_refl)
  have len: "length (sw_searches w) < 2 ^ 64" and ans: "(q, ?r) \<in> set (sw_answers w)" "Some q = last (sw_searches w)" by (simp_all add: w_def)
  have "sp_state (complete_search q ?r (sw_presenter w))
      = (sp_state (sw_presenter w))\<lparr>ss_searching := False, ss_error_text := ui_message (from_database_error (Db_Error Io_Failure []))\<rparr>"
    using conjunct1 [OF search_shows_latest [OF reach len refl], THEN spec, THEN spec, THEN mp, OF ans(1)] unfolding r if_P [OF ans(2)] by simp
  then have "ss_error_text (sp_state (complete_search q ?r (sw_presenter w))) = ''io_failure''"
    by (simp add: from_database_error_def error_to_string_def)
  then show ?thesis using reach ans(1) by (intro exI [of _ w]) (auto simp: w_def)
qed

text \<open>The games as they were before the change are shown without a query.\<close>
theorem invalidated_cache_comes_back_witness:
  "\<exists>dm q pg p2. fst (search_execute_query run_env run_stats q dm) = Inr pg
     \<and> p2 = snd (search_apply_query pg (invalidate_starting_position_cache (snd (search_position 71 run_filter (new_search_presenter 71)))))
     \<and> fst (search_position 71 run_filter p2) = Inr None"
proof -
  let ?p = "new_search_presenter 71 :: unit search_presenter"
  obtain q p1 where q: "search_position 71 run_filter ?p = (Inr (Some q), p1)" "sq_hash q = 71" "sq_filter q = run_filter"
    by (simp add: search_position_def cache_hit_def new_search_presenter_def run_filter_def Let_def)
  obtain dm s where dm: "running run_env dm s" "gs_tables s = run_tables" "gs_fault s = (\<lambda>_. False)" "covers dm run_tables"
    using run_indexed by blast
  have f: "sf_position (sq_filter q) = Some (sq_hash q)" "sf_offset (sq_filter q) \<le> sqlite_max"
    using q by (simp_all add: run_filter_def default_search_filter_def)
  have fit: "ids_fit (gs_tables s)" using run_buildable dm(2) by (simp add: buildable_def)
  have sts: "\<forall>dm'. run_stats dm' (sq_hash q) (sq_filter q) = Inr \<lparr>os_total_games = 1, os_continuations = [()]\<rparr>" by (simp add: run_stats_def)
  obtain pg where pg: "fst (search_execute_query run_env run_stats q dm) = Inr pg"
    using search_execute_covered [where stats = run_stats and sts = "\<lparr>os_total_games = 1, os_continuations = [()]\<rparr>",
        OF dm(1,3) f fit _ sts refl refl] dm(2,4) by auto
  have start: "sp_starting_position_hash ?p = 71" by (simp add: new_search_presenter_def)
  have nometa: "\<not> has_metadata_filter run_filter" by (simp add: run_filter_def default_search_filter_def has_metadata_filter_def)
  have "fst (search_position 71 run_filter (snd (search_apply_query pg (invalidate_starting_position_cache p1)))) = Inr None"
    using invalidated_cache_comes_back [of ?p run_filter q p1 run_env run_stats dm pg, unfolded start, OF q(1) nometa pg refl] by blast
  then show ?thesis using q(1) pg by (intro exI [of _ dm] exI [of _ q] exI [of _ pg]) simp
qed

end
