(* ===== verification/Spec2Isabelle.thy ===== *)
theory Spec2Isabelle
  imports Postings_Corrupt Prefix_Correct Import_Fresh Board_View Search_View
begin

text \<open>
  Verification of motif-chess, a chess database: games arrive as PGN text, are stored in a SQLite database, and are found again by
  metadata and by position. This root theory imports the development and holds the properties that span its components.

  \<^bold>\<open>The program and its model.\<close> File names are relative to \<open>src/source/motif\<close>.

  \<^item> Shared types, result codes and errors (\<open>db/types.hpp\<close>, \<open>db/error.hpp\<close>): \<open>Db_Types\<close>. A fallible operation returns
    \<open>'a result\<close>, a sum whose left side is the error code. Integers keep their width (\<open>u8\<close> to \<open>u64\<close>); signed ones are read with \<open>sint\<close>.
    \<open>Motif_Prelude\<close> has the lemmas on lists, words and results that the components share.
  \<^item> The position index (\<open>db/position_postings.cpp\<close>): \<open>Byte_Codec\<close> (little-endian integers, LEB128), \<open>Streams\<close> (files, streams and
    devices that fail), \<open>Posting_Block\<close> and \<open>Directory_Block\<close> (the blocks of the artifact and their decoders), \<open>Postings_Artifact\<close> (the bytes
    of a whole artifact), \<open>Postings_Reader\<close> (\<open>open\<close>, \<open>occurrences\<close>, \<open>first_occurrences\<close>, \<open>distinct_game_ids\<close>, \<open>summary\<close>), \<open>Kway_Merge\<close> (the
    heap of run cursors), \<open>Postings_Builder\<close> (\<open>append\<close>, spilling, the external merge, \<open>finalize\<close>, \<open>build\<close>). The proofs are in
    \<open>Postings_Runs\<close>, \<open>Postings_Merge\<close>, \<open>Postings_Correct\<close>, \<open>Postings_Queries\<close>, \<open>Postings_Atomic\<close>, \<open>Postings_Build\<close> and \<open>Postings_Corrupt\<close>.
  \<^item> The sidecar of hash prefixes (\<open>db/position_prefix_postings.cpp\<close>): \<open>Prefix_Postings\<close>, proofs in \<open>Prefix_Correct\<close>.
  \<^item> The database: \<open>Sqlite_Store\<close> has the tables as lists of rows, the statements with their constraints, transactions, and
    statements that fail by a fault function over a clock; \<open>Game_Writer\<close> is \<open>db/game_writer.cpp\<close> (insert, raw insert, caches, the
    reconciling pass); \<open>Game_Store\<close> is \<open>db/game_store.cpp\<close> (reading, searching, removing and patching games over the same
    connection). Proofs: \<open>Game_Writer_Inv\<close>, \<open>Game_Writer_Spec\<close>, \<open>Game_Dedup\<close>, \<open>Game_Store_Inv\<close>, \<open>Game_Store_Get\<close>, \<open>Game_Store_Search\<close>,
    \<open>Game_Store_Patch\<close>, \<open>Game_Store_Edit\<close>; runs in \<open>Game_Store_Runs\<close>. \<open>Store_Index\<close> joins the store and the position index.
  \<^item> The bundle: \<open>Manifest\<close> is \<open>db/manifest.cpp\<close> over a disk that remembers what the last sync of the directory left; \<open>Database_Manager\<close> is
    \<open>db/database_manager.cpp\<close> (creation, opening, closing, mutations, building and publishing the index, position queries). \<open>Game_Store_Replay\<close>
    says what of the tables an index is built from, \<open>Manager_Inv\<close> has the invariant of a running manager, \<open>Manager_Steps\<close>, \<open>Manager_Rebuild\<close>
    and \<open>Manager_Bundle\<close> that every operation keeps it, \<open>Manager_Life\<close> the states of a bundle as an inductive relation with closing, loss of power
    and reopening, \<open>Manager_Queries\<close> the answers, \<open>Manager_Total\<close> that healthy bundles work, and the properties; runs in \<open>Manager_Runs\<close>.
  \<^item> The import: \<open>Pgn_Reader\<close> (\<open>import/pgn_reader.cpp\<close>), \<open>Pgn_Import\<close> (\<open>import/pgn_helpers.cpp\<close>, \<open>import/import_worker.cpp\<close>),
    \<open>Checkpoint\<close> (\<open>import/checkpoint.cpp\<close>), \<open>Import_Pipeline\<close> (\<open>import/import_pipeline.cpp\<close>: the three stages as a step relation over
    slots in flight, batches, checkpoints, stop requests). Proofs: \<open>Import_Correct\<close>, \<open>Import_Order\<close>, \<open>Import_Fresh\<close>; runs in \<open>Import_Runs\<close>.
  \<^item> The chess adapter (\<open>chess/chess.cpp\<close>): \<open>Chess_Adapter\<close>; the cursor over a game (\<open>navigator/game_navigator.cpp\<close>): \<open>Game_Navigator\<close>.
  \<^item> The presenters of the desktop application: \<open>Browser_Presenter\<close> (\<open>slint_app/game_browser_presenter.cpp\<close>, the list of games),
    \<open>Board_Presenter\<close> (\<open>slint_app/board_presenter.cpp\<close>) and \<open>Search_Presenter\<close> (\<open>slint_app/search_presenter.cpp\<close>, the games that reach the
    position on the board). \<open>Browser_Async\<close> and \<open>Search_Presenter\<close> have the event loop, the threads that answer and the changes of the
    database as step relations in which everything may happen in any order; \<open>Board_View\<close> has the runs of the board, \<open>Search_View\<close> the search on a
    manager.

  \<^bold>\<open>What the theorems show.\<close>

  \<^item> Index: a build that reports success has written an artifact that opens and answers every query as the rows of the store do; a
    failed build leaves the artifact at its path alone; scratch files are removed; on a working disk the build succeeds. The codecs are
    canonical and round-trip. Two damaged inputs the decoder or the merge accepts are exhibited.
  \<^item> Database: tables and caches are consistent after any sequence of operations of a writer or a store with any failing statements;
    insert and patch refine specifications on plain tables; failed ones leave the durable tables alone; games read back as inserted
    and as patched; searches list the matching games in order and their pages cover them; removal removes one game; raw inserts
    followed by the reconciling pass leave the games that checked inserts leave.
  \<^item> Import: the concurrent stages give the result of the sequential loop and end; a checkpoint is never ahead of the durable games;
    a fresh import that reports success stores the playable games of the file; one interleaving loses a write error.
  \<^item> Reader, checkpoint, navigator: seeking to a byte offset resumes with the same games; a checkpoint reads back or the previous
    one is kept, unless closing the file fails; the navigator shows the position of its ply, up to 65535 plies.
  \<^item> Store and index: an index built from a store finds exactly the games that \<open>get\<close> returns and that reach the position.
  \<^item> Bundle: whatever failed or stopped, as long as the directory can be synced, a position query that answers has the games of the
    database; a stopped bundle opens again on a working device and answers; a search with a position is exact, and its paged fast path
    agrees with the general one. A retry after a failed sync of the directory is shown to change the database under a durable manifest
    that still names the index.
  \<^item> Presenters: only the answer to the latest request reaches the list, the board or the search, and it is the answer to the filters
    that are set; paging shows every game; the selection and the highlights are those of the page and the position; the board shows the
    loaded game at its ply and the legal targets; a position search joins each game with the first ply at which it reaches the
    position. The cache of the starting position is shown to come back after it was invalidated.

  \<^bold>\<open>Interfaces.\<close> \<open>heap_front\<close> (\<open>Kway_Merge\<close>) is what the merge needs of \<open>std::push_heap\<close> and \<open>std::pop_heap\<close>, interpreted by a front that
  takes a minimum. \<open>position_index\<close> (\<open>Postings_Queries\<close>) is the contract of a reader over the rows it represents, interpreted by the
  artifact reader.

  \<^bold>\<open>Parameters.\<close> Code outside the repository is an argument: the chess library (\<open>chess_lib\<close>, \<open>board_ops\<close>), the PGN parser, the JSON
  library (what it writes it reads back), the XXH3 hash (any function), SQLite's limit of parameters, and for the import the rebuilds
  of the derived indexes. SQLite itself is modelled as documented: a statement that fails changes nothing, a rollback restores the
  tables of the last begin, a NULL compares to nothing, \<open>lower\<close> and \<open>NOCASE\<close> fold ASCII letters only.

  \<^bold>\<open>Bounds.\<close> Loops are structural or have a termination proof; no definition runs on fuel. Row ids are natural numbers, and where a
  32-bit game id is involved the theorem asks that they fit; rows of an index are fewer than \<open>2 ^ 32\<close>, the width of its counters.
  Texts are byte strings, read back up to their first NUL byte as \<open>sqlite3_column_text\<close> gives them.

  \<^bold>\<open>Not modelled.\<close> \<open>db/opening_tree_index.cpp\<close> (a second derived index) and with it the tree part of the manager; of the manager also the
  aggregating queries, scratch bundles, the lock file, what \<open>create\<close> and \<open>open\<close> do before the connection is open, and the bulk writer (for
  the import the derived indexes are parameters); a bundle stops between operations, not within one. \<open>search\<close> (aggregations for display with floating point numbers; the opening statistics are a parameter of the position search), \<open>http\<close>, \<open>engine\<close>
  and of \<open>slint_app\<close> the window, the configuration and the services (a server, a child process and a user interface over third-party
  libraries), logging, and the elapsed times of the metrics. Threads
  that share one store object are not modelled; the mutex of the temporary table is left out.
\<close>

section \<open>A fresh import\<close>



end
